(* ===== verification/Kernel_Prelude.thy ===== *)
theory Kernel_Prelude
  imports Main "HOL-Library.Word" "HOL-Library.Monad_Syntax"
begin

unbundle bit_operations_syntax

text \<open>
  What every theory of the development shares: the C integer types at their width, the
  constants of \<^verbatim>\<open>include/types.h\<close> and \<^verbatim>\<open>include/config.h\<close>, and generic lemmas on
  lists, options and words.

  Conventions.  A C \<^verbatim>\<open>char\<close> is an Isabelle \<^typ>\<open>char\<close> (eight bits), so that the strings of
  the source read as literals; the other integers are words.  An object in memory that the
  code accesses through a pointer and an index (a buffer, an array) is a list, and an access
  outside the object is the value \<^term>\<open>None\<close> of an option: a function of type \<open>\<dots> option\<close>
  returns \<^term>\<open>None\<close> exactly when the C code would read or write outside the objects it is
  given.
\<close>

type_synonym u8 = "8 word"
type_synonym u16 = "16 word"
type_synonym u32 = "32 word"

abbreviation NUL :: char where "NUL \<equiv> CHR 0x00"

abbreviation PAGE_SIZE :: u32 where "PAGE_SIZE \<equiv> 4096"

text \<open>\<^verbatim>\<open>ALIGN_UP(x, a)\<close> of \<^verbatim>\<open>include/types.h\<close>, for a power of two \<open>a\<close>.\<close>

definition ALIGN_UP :: "u32 \<Rightarrow> u32 \<Rightarrow> u32" where
  "ALIGN_UP x a = (x + a - 1) AND NOT (a - 1)"

named_theorems loop_simps \<open>closed forms of the loops of the model\<close>
named_theorems inv_intros \<open>preservation of the components' invariants\<close>

subsection \<open>Lists\<close>

lemma take_list_update_nth:
  "p < length b \<Longrightarrow> take p (b[p := c]) @ [c] = take (Suc p) (b[p := c])"
  by (simp add: take_Suc_conv_app_nth)

lemma list_update_split:
  "p < length b \<Longrightarrow> b[p := c] = take p b @ c # drop (Suc p) b"
  by (rule upd_conv_take_nth_drop)

lemma takeWhile_append_stop:
  "\<forall>x \<in> set xs. P x \<Longrightarrow> \<not> P y \<Longrightarrow> takeWhile P (xs @ y # ys) = xs"
  by (simp add: takeWhile_append2)

lemma nth_takeWhile_neq:
  "i < length (takeWhile (\<lambda>x. x \<noteq> y) xs) \<Longrightarrow> xs ! i \<noteq> y"
  using takeWhile_nth [of i "\<lambda>x. x \<noteq> y" xs] nth_mem [of i "takeWhile (\<lambda>x. x \<noteq> y) xs"]
  by (auto dest: set_takeWhileD)

lemma list_all2_nth_imp: "list_all2 P xs ys \<Longrightarrow> i < length xs \<Longrightarrow> P (xs ! i) (ys ! i)"
  by (rule list_all2_nthD)

lemma find_upt_Some_iff:
  "find P [0..<n] = Some j \<longleftrightarrow> j < n \<and> P j \<and> (\<forall>i<j. \<not> P i)"
proof -
  have "find P [0..<n] = Some j \<longleftrightarrow> (\<exists>i<n. P i \<and> j = i \<and> (\<forall>k<i. \<not> P k))"
    by (auto simp: find_Some_iff)
  then show ?thesis by auto
qed

lemma find_upt_None_iff: "find P [0..<n] = None \<longleftrightarrow> (\<forall>i<n. \<not> P i)"
  by (auto simp: find_None_iff)

subsection \<open>Words\<close>

lemma unat_of_nat_small: "n < 2 ^ LENGTH('a) \<Longrightarrow> unat (of_nat n :: 'a::len word) = n"
  by (simp add: unsigned_of_nat take_bit_nat_eq_self)

lemma unat_Suc_small:
  "unat (w :: u32) + n < 2 ^ 32 \<Longrightarrow> unat (w + of_nat n) = unat w + n"
  by (simp add: unat_word_ariths unsigned_of_nat take_bit_nat_def mod_add_right_eq)

lemma unat_add_small: "unat (a :: u32) + unat b < 2 ^ 32 \<Longrightarrow> unat (a + b) = unat a + unat b"
  by (simp add: unat_word_ariths)

lemma u32_unat_lt: "unat (w :: u32) < 4294967296"
  using unsigned_less [of w] by simp

lemma u8_unat_lt: "unat (w :: u8) < 256"
  using unsigned_less [of w] by simp

lemma sint_small:
  assumes "unat (w :: u32) < 2 ^ 31"
  shows "sint w = int (unat w)"
proof -
  have "int (unat w) < int (2 ^ 31)" using assms by (simp only: of_nat_less_iff)
  moreover have "- (2 ^ 31) \<le> int (unat w)" by (rule order_trans [OF _ of_nat_0_le_iff]) simp
  ultimately have "signed_take_bit 31 (uint w) = uint w"
    by (intro signed_take_bit_int_eq_self) (simp_all only: of_nat_unat, simp_all)
  then show ?thesis by (simp add: sint_uint)
qed

lemma word_eq_unat_iff: "(a :: 'a::len word) = b \<longleftrightarrow> unat a = unat b"
  by (simp add: word_unat_eq_iff)

lemma and_not_mask_unat:
  "unat ((w :: 'a::len word) AND NOT (mask n)) = unat w div 2 ^ n * 2 ^ n"
proof -
  have "w AND NOT (mask n) = push_bit n (drop_bit n w)"
    by (rule bit_word_eqI) (auto simp: bit_simps not_less le_add_diff_inverse2 dest: le_add_diff_inverse)
  moreover have "unat (push_bit n (drop_bit n w)) = take_bit LENGTH('a) (unat w div 2 ^ n * 2 ^ n)"
    unfolding unsigned_push_bit_eq unsigned_drop_bit_eq
    by (simp only: push_bit_eq_mult drop_bit_eq_div take_bit_nat_eq_self [OF unsigned_less])
  moreover have "unat w div 2 ^ n * 2 ^ n < 2 ^ LENGTH('a)"
    by (rule order_le_less_trans [OF div_times_less_eq_dividend unsigned_less])
  ultimately show ?thesis by (simp add: take_bit_nat_eq_self)
qed
end
