(* ===== verification/C_String.thy ===== *)
theory C_String
  imports Kernel_Prelude
begin

text \<open>
  The string and memory routines of \<^verbatim>\<open>kernel/string.c\<close>.  A pointer into a buffer is the
  buffer and an index; a \<^verbatim>\<open>const char *\<close> that is only read forward is the rest of the buffer
  from the pointer on; a pointer that the code compares with \<^verbatim>\<open>NULL\<close> is an option.  Every
  function returns \<^term>\<open>None\<close> when the C code would leave a buffer.
\<close>

type_synonym cptr = "char list option"

definition cstr :: "char list \<Rightarrow> char list" where
  "cstr b = takeWhile (\<lambda>c. c \<noteq> NUL) b"

definition byte :: "char \<Rightarrow> int" where
  "byte c = int (of_char c)"

section \<open>Memory blocks\<close>

primrec memset_at :: "'a list \<Rightarrow> nat \<Rightarrow> 'a \<Rightarrow> nat \<Rightarrow> 'a list option" where
  "memset_at b p c 0 = Some b"
| "memset_at b p c (Suc n) =
     (if p < length b then memset_at (b[p := c]) (Suc p) c n else None)"

primrec memcpy_at :: "'a list \<Rightarrow> nat \<Rightarrow> 'a list \<Rightarrow> nat \<Rightarrow> nat \<Rightarrow> 'a list option" where
  "memcpy_at d p s q 0 = Some d"
| "memcpy_at d p s q (Suc n) =
     (if p < length d \<and> q < length s then memcpy_at (d[p := s ! q]) (Suc p) s (Suc q) n
      else None)"

text \<open>\<open>memmove\<close> works inside one buffer: \<open>d\<close> and \<open>s\<close> are positions in \<open>b\<close>.\<close>

primrec move_up :: "'a list \<Rightarrow> nat \<Rightarrow> nat \<Rightarrow> nat \<Rightarrow> 'a list option" where
  "move_up b d s 0 = Some b"
| "move_up b d s (Suc n) =
     (if d < length b \<and> s < length b then move_up (b[d := b ! s]) (Suc d) (Suc s) n
      else None)"

text \<open>The downward loop decrements both pointers before each copy; \<open>n\<close> bytes are left.\<close>

primrec move_down :: "'a list \<Rightarrow> nat \<Rightarrow> nat \<Rightarrow> nat \<Rightarrow> 'a list option" where
  "move_down b d s 0 = Some b"
| "move_down b d s (Suc n) =
     (if d + n < length b \<and> s + n < length b
      then move_down (b[d + n := b ! (s + n)]) d s n else None)"

definition memmove :: "'a list \<Rightarrow> nat \<Rightarrow> nat \<Rightarrow> nat \<Rightarrow> 'a list option" where
  "memmove b d s n =
     (if d < s then move_up b d s n
      else if d > s then move_down b d s n
      else Some b)"

primrec memcmp_at :: "u8 list \<Rightarrow> nat \<Rightarrow> u8 list \<Rightarrow> nat \<Rightarrow> nat \<Rightarrow> int option" where
  "memcmp_at s1 p s2 q 0 = Some 0"
| "memcmp_at s1 p s2 q (Suc n) =
     (if p < length s1 \<and> q < length s2
      then (if s1 ! p \<noteq> s2 ! q then Some (uint (s1 ! p) - uint (s2 ! q))
            else memcmp_at s1 (Suc p) s2 (Suc q) n)
      else None)"

section \<open>Strings\<close>

fun strlen_buf :: "char list \<Rightarrow> nat option" where
  "strlen_buf [] = None"
| "strlen_buf (c # cs) = (if c \<noteq> NUL then map_option Suc (strlen_buf cs) else Some 0)"

definition strlen :: "cptr \<Rightarrow> nat option" where
  "strlen s = (case s of None \<Rightarrow> Some 0 | Some b \<Rightarrow> strlen_buf b)"

fun strcpy :: "char list \<Rightarrow> char list \<Rightarrow> char list option" where
  "strcpy (d # ds) (s # ss) =
     (if s = NUL then Some (s # ds) else map_option ((#) s) (strcpy ds ss))"
| "strcpy _ _ = None"

fun strncpy_pad :: "char list \<Rightarrow> nat \<Rightarrow> char list option" where
  "strncpy_pad ds 0 = Some ds"
| "strncpy_pad (d # ds) (Suc n) = map_option ((#) NUL) (strncpy_pad ds n)"
| "strncpy_pad [] (Suc n) = None"

fun strncpy :: "char list \<Rightarrow> char list \<Rightarrow> nat \<Rightarrow> char list option" where
  "strncpy ds ss 0 = Some ds"
| "strncpy ds [] (Suc n) = None"
| "strncpy ds (s # ss) (Suc n) =
     (if s \<noteq> NUL
      then (case ds of [] \<Rightarrow> None | _ # ds' \<Rightarrow> map_option ((#) s) (strncpy ds' ss n))
      else strncpy_pad ds (Suc n))"

fun strcmp_buf :: "char list \<Rightarrow> char list \<Rightarrow> int option" where
  "strcmp_buf (a # as) (b # bs) =
     (if a \<noteq> NUL \<and> a = b then strcmp_buf as bs else Some (byte a - byte b))"
| "strcmp_buf _ _ = None"

definition strcmp :: "cptr \<Rightarrow> cptr \<Rightarrow> int option" where
  "strcmp s1 s2 =
     (case (s1, s2) of (Some a, Some b) \<Rightarrow> strcmp_buf a b | _ \<Rightarrow> Some (-1))"

fun strncmp_buf :: "char list \<Rightarrow> char list \<Rightarrow> nat \<Rightarrow> int option" where
  "strncmp_buf as bs 0 = Some 0"
| "strncmp_buf (a # as) (b # bs) (Suc n) =
     (if a \<noteq> NUL \<and> a = b then strncmp_buf as bs n else Some (byte a - byte b))"
| "strncmp_buf _ _ (Suc n) = None"

definition strncmp :: "cptr \<Rightarrow> cptr \<Rightarrow> nat \<Rightarrow> int option" where
  "strncmp s1 s2 n =
     (case (s1, s2) of (Some a, Some b) \<Rightarrow> strncmp_buf a b n | _ \<Rightarrow> Some (-1))"

fun strcat :: "char list \<Rightarrow> char list \<Rightarrow> char list option" where
  "strcat [] src = None"
| "strcat (d # ds) src =
     (if d \<noteq> NUL then map_option ((#) d) (strcat ds src) else strcpy (d # ds) src)"

text \<open>The searches return the offset of the hit; the inner \<^term>\<open>None\<close> is \<^verbatim>\<open>NULL\<close>.\<close>

fun strchr_from :: "nat \<Rightarrow> char list \<Rightarrow> char \<Rightarrow> nat option option" where
  "strchr_from i [] c = None"
| "strchr_from i (s # ss) c =
     (if s \<noteq> NUL then (if s = c then Some (Some i) else strchr_from (Suc i) ss c)
      else if c = NUL then Some (Some i) else Some None)"

definition strchr :: "char list \<Rightarrow> char \<Rightarrow> nat option option" where
  "strchr s c = strchr_from 0 s c"

fun strrchr_from :: "nat \<Rightarrow> nat option \<Rightarrow> char list \<Rightarrow> char \<Rightarrow> nat option option" where
  "strrchr_from i last_hit [] c = None"
| "strrchr_from i last_hit (s # ss) c =
     (let hit = (if s = c then Some i else last_hit)
      in if s \<noteq> NUL then strrchr_from (Suc i) hit ss c else Some hit)"

definition strrchr :: "char list \<Rightarrow> char \<Rightarrow> nat option option" where
  "strrchr s c = strrchr_from 0 None s c"

text \<open>The inner loop of \<open>strstr\<close>: whether the needle was used up.\<close>

fun strstr_match :: "char list \<Rightarrow> char list \<Rightarrow> bool option" where
  "strstr_match (h # hs) (n # ns) =
     (if h \<noteq> NUL \<and> n \<noteq> NUL \<and> h = n then strstr_match hs ns else Some (n = NUL))"
| "strstr_match _ _ = None"

fun strstr_from :: "nat \<Rightarrow> char list \<Rightarrow> char list \<Rightarrow> nat option option" where
  "strstr_from i [] n = None"
| "strstr_from i (h # hs) n =
     (if h = NUL then Some None
      else if n \<noteq> [] \<and> h = hd n
      then (case strstr_match (h # hs) n of
              None \<Rightarrow> None
            | Some True \<Rightarrow> Some (Some i)
            | Some False \<Rightarrow> strstr_from (Suc i) hs n)
      else strstr_from (Suc i) hs n)"

definition strstr :: "char list \<Rightarrow> char list \<Rightarrow> nat option option" where
  "strstr h n =
     (case n of [] \<Rightarrow> None
      | c # _ \<Rightarrow> if c = NUL then Some (Some 0) else strstr_from 0 h n)"

text \<open>
  \<open>strtok\<close> keeps its position in the static \<open>strtok_saved\<close>; the state here is the buffer that
  is being cut and that position.  The result is the position of the token.
\<close>

fun skip_in :: "char list \<Rightarrow> char list \<Rightarrow> nat option" where
  "skip_in delim [] = None"
| "skip_in delim (c # cs) =
     (if c = NUL then Some 0
      else (case strchr delim c of
              None \<Rightarrow> None
            | Some None \<Rightarrow> Some 0
            | Some (Some _) \<Rightarrow> map_option Suc (skip_in delim cs)))"

fun skip_out :: "char list \<Rightarrow> char list \<Rightarrow> nat option" where
  "skip_out delim [] = None"
| "skip_out delim (c # cs) =
     (if c = NUL then Some 0
      else (case strchr delim c of
              None \<Rightarrow> None
            | Some None \<Rightarrow> map_option Suc (skip_out delim cs)
            | Some (Some _) \<Rightarrow> Some 0))"

definition strtok ::
  "nat option \<Rightarrow> char list \<Rightarrow> char list \<Rightarrow> nat option
   \<Rightarrow> (nat option \<times> char list \<times> nat option) option" where
  "strtok str delim buf saved =
     (let saved = (case str of Some p \<Rightarrow> Some p | None \<Rightarrow> saved)
      in case saved of
           None \<Rightarrow> Some (None, buf, None)
         | Some p \<Rightarrow> do {
             k \<leftarrow> skip_in delim (drop p buf);
             let q = p + k;
             if buf ! q = NUL then Some (None, buf, Some q)
             else do {
               m \<leftarrow> skip_out delim (drop q buf);
               let e = q + m;
               if buf ! e \<noteq> NUL then Some (Some q, buf[e := NUL], Some (Suc e))
               else Some (Some q, buf, None)
             }
           })"

section \<open>Numbers and their digits\<close>

text \<open>
  \<^verbatim>\<open>int\<close> arithmetic of the code that can overflow is done on the 32-bit word, as the compiled
  code (gcc without optimisation flags) does; \<^const>\<open>sint\<close> reads the signed value.
\<close>

fun skip_blanks :: "char list \<Rightarrow> char list" where
  "skip_blanks (c # cs) = (if c = CHR '' '' \<or> c = CHR 0x09 then skip_blanks cs else c # cs)"
| "skip_blanks [] = []"

definition is_digit :: "char \<Rightarrow> bool" where
  "is_digit c \<longleftrightarrow> byte CHR ''0'' \<le> byte c \<and> byte c \<le> byte CHR ''9''"

fun atoi_digits :: "u32 \<Rightarrow> char list \<Rightarrow> u32 option" where
  "atoi_digits res [] = None"
| "atoi_digits res (c # cs) =
     (if is_digit c then atoi_digits (res * 10 + of_int (byte c - byte CHR ''0'')) cs
      else Some res)"

definition atoi :: "char list \<Rightarrow> u32 option" where
  "atoi s =
     (case skip_blanks s of
        [] \<Rightarrow> None
      | c # cs \<Rightarrow>
          if c = CHR ''-'' then map_option (\<lambda>res. res * (- 1)) (atoi_digits 0 cs)
          else if c = CHR ''+'' then map_option (\<lambda>res. res * 1) (atoi_digits 0 cs)
          else map_option (\<lambda>res. res * 1) (atoi_digits 0 (c # cs)))"

definition hex_value :: "char \<Rightarrow> u32 option" where
  "hex_value c =
     (if byte CHR ''0'' \<le> byte c \<and> byte c \<le> byte CHR ''9''
      then Some (of_int (byte c - byte CHR ''0''))
      else if byte CHR ''a'' \<le> byte c \<and> byte c \<le> byte CHR ''f''
      then Some (of_int (byte c - byte CHR ''a'' + 10))
      else if byte CHR ''A'' \<le> byte c \<and> byte c \<le> byte CHR ''F''
      then Some (of_int (byte c - byte CHR ''A'' + 10))
      else None)"

fun atox_digits :: "u32 \<Rightarrow> char list \<Rightarrow> u32 option" where
  "atox_digits res [] = None"
| "atox_digits res (c # cs) =
     (if c \<noteq> NUL
      then (case hex_value c of
              Some val \<Rightarrow> atox_digits (push_bit 4 res OR val) cs
            | None \<Rightarrow> Some res)
      else Some res)"

definition atox :: "char list \<Rightarrow> u32 option" where
  "atox s =
     (case skip_blanks s of
        [] \<Rightarrow> None
      | [c] \<Rightarrow> if c = CHR ''0'' then None else atox_digits 0 [c]
      | c # x # cs \<Rightarrow>
          if c = CHR ''0'' \<and> (x = CHR ''x'' \<or> x = CHR ''X'') then atox_digits 0 cs
          else atox_digits 0 (c # x # cs))"

definition digit_char :: "u32 \<Rightarrow> char" where
  "digit_char rem =
     (if rem < 10 then char_of (unat rem + 48) else char_of (unat rem - 10 + 97))"

function utoa_digits :: "char list \<Rightarrow> nat \<Rightarrow> u32 \<Rightarrow> u32 \<Rightarrow> (char list \<times> nat) option" where
  "utoa_digits buf p val base =
     (if p < length buf
      then let buf' = buf[p := digit_char (val mod base)]; val' = val div base
           in if val' \<noteq> 0 then utoa_digits buf' (Suc p) val' base else Some (buf', Suc p)
      else None)"
  by pat_completeness auto
termination
  by (relation "measure (\<lambda>(buf, p, val, base). length buf - p)") auto

declare utoa_digits.simps [simp del]

fun rev_swap :: "'a list \<Rightarrow> nat \<Rightarrow> nat \<Rightarrow> 'a list" where
  "rev_swap b i j = (if i < j then rev_swap (b[i := b ! j, j := b ! i]) (Suc i) (j - 1) else b)"

declare rev_swap.simps [simp del]

definition put_at :: "'a list \<Rightarrow> nat \<Rightarrow> 'a \<Rightarrow> 'a list option" where
  "put_at b p c = (if p < length b then Some (b[p := c]) else None)"

definition utoa :: "u32 \<Rightarrow> char list \<Rightarrow> int \<Rightarrow> char list option" where
  "utoa val buf base =
     (if base < 2 \<or> base > 36 then put_at buf 0 NUL
      else do {
        (b, p) \<leftarrow> utoa_digits buf 0 val (of_int base);
        b \<leftarrow> put_at b p NUL;
        Some (rev_swap b 0 (p - 1))
      })"

definition itoa :: "u32 \<Rightarrow> char list \<Rightarrow> int \<Rightarrow> char list option" where
  "itoa val buf base =
     (if base < 2 \<or> base > 36 then put_at buf 0 NUL
      else do {
        let sign = (sint val < 0 \<and> base = 10);
        let val = (if sign then - val else val);
        (b, p) \<leftarrow> utoa_digits buf 0 val (of_int base);
        (b, p) \<leftarrow> (if sign then map_option (\<lambda>b. (b, Suc p)) (put_at b p CHR ''-'')
                  else Some (b, p));
        b \<leftarrow> put_at b p NUL;
        Some (rev_swap b 0 (p - 1))
      })"

section \<open>Facts about the memory and string loops\<close>

lemma memset_at_eq [loop_simps]:
  "p + n \<le> length b \<Longrightarrow> memset_at b p c n = Some (take p b @ replicate n c @ drop (p + n) b)"
proof (induction n arbitrary: b p)
  case 0
  then show ?case by simp
next
  case (Suc n)
  then have "memset_at b p c (Suc n) =
      Some (take (Suc p) (b[p := c]) @ replicate n c @ drop (Suc p + n) (b[p := c]))"
    by simp
  also have "take (Suc p) (b[p := c]) = take p b @ [c]"
    using Suc.prems by (simp add: take_Suc_conv_app_nth)
  finally show ?case using Suc.prems by simp
qed

lemma memset_at_outside: "n \<noteq> 0 \<Longrightarrow> length b < p + n \<Longrightarrow> memset_at b p c n = None"
  by (induction n arbitrary: b p) auto

lemma memcpy_at_eq [loop_simps]:
  "p + n \<le> length d \<Longrightarrow> q + n \<le> length s \<Longrightarrow>
   memcpy_at d p s q n = Some (take p d @ take n (drop q s) @ drop (p + n) d)"
proof (induction n arbitrary: d p q)
  case 0
  then show ?case by simp
next
  case (Suc n)
  let ?d = "d[p := s ! q]"
  from Suc.prems have "memcpy_at d p s q (Suc n) =
      Some (take (Suc p) ?d @ take n (drop (Suc q) s) @ drop (Suc p + n) ?d)"
    by (simp add: Suc.IH)
  also have "take (Suc p) ?d = take p d @ [s ! q]"
    using Suc.prems by (simp add: take_Suc_conv_app_nth)
  also have "take (Suc n) (drop q s) = s ! q # take n (drop (Suc q) s)"
    using Suc.prems by (simp add: Cons_nth_drop_Suc [symmetric])
  ultimately show ?case using Suc.prems by (simp add: Cons_nth_drop_Suc [symmetric])
qed

lemma memcpy_at_outside:
  "n \<noteq> 0 \<Longrightarrow> length d < p + n \<or> length s < q + n \<Longrightarrow> memcpy_at d p s q n = None"
  by (induction n arbitrary: d p q) auto

lemma length_memcpy_at: "memcpy_at d p s q n = Some d' \<Longrightarrow> length d' = length d"
  by (induction n arbitrary: d p q) (auto split: if_splits)

text \<open>Both loops of \<open>memmove\<close>, read off position by position.\<close>

lemma move_up_nth:
  "d < s \<Longrightarrow> s + n \<le> length b \<Longrightarrow>
   \<exists>b'. move_up b d s n = Some b' \<and> length b' = length b \<and>
     (\<forall>k < length b. b' ! k = (if d \<le> k \<and> k < d + n then b ! (s + (k - d)) else b ! k))"
proof (induction n arbitrary: b d s)
  case 0
  then show ?case by (force)
next
  case (Suc n)
  let ?b = "b[d := b ! s]"
  from Suc.prems obtain b' where b': "move_up ?b (Suc d) (Suc s) n = Some b'"
      "length b' = length b"
      "\<forall>k < length b. b' ! k =
         (if Suc d \<le> k \<and> k < Suc d + n then ?b ! (Suc s + (k - Suc d)) else ?b ! k)"
    using Suc.IH [of "Suc d" "Suc s" ?b] by auto
  with Suc.prems show ?case
    by (intro exI [of _ b']) (auto simp: nth_list_update Suc_diff_Suc not_less_eq_eq)
qed

lemma move_down_nth:
  "s < d \<Longrightarrow> d + n \<le> length b \<Longrightarrow>
   \<exists>b'. move_down b d s n = Some b' \<and> length b' = length b \<and>
     (\<forall>k < length b. b' ! k = (if d \<le> k \<and> k < d + n then b ! (s + (k - d)) else b ! k))"
proof (induction n arbitrary: b)
  case 0
  then show ?case by (force)
next
  case (Suc n)
  let ?b = "b[d + n := b ! (s + n)]"
  from Suc.prems obtain b' where b': "move_down ?b d s n = Some b'"
      "length b' = length b"
      "\<forall>k < length b. b' ! k =
         (if d \<le> k \<and> k < d + n then ?b ! (s + (k - d)) else ?b ! k)"
    using Suc.IH [of ?b] by auto
  with Suc.prems show ?case
    by (intro exI [of _ b']) (auto simp: nth_list_update less_Suc_eq)
qed

lemma memmove_ok:
  assumes "d + n \<le> length b" and "s + n \<le> length b"
  shows "memmove b d s n = Some (take d b @ take n (drop s b) @ drop (d + n) b)"
proof -
  have "\<exists>b'. memmove b d s n = Some b' \<and> length b' = length b \<and>
     (\<forall>k < length b. b' ! k = (if d \<le> k \<and> k < d + n then b ! (s + (k - d)) else b ! k))"
    using assms move_up_nth [of d s n b] move_down_nth [of s d n b]
    by (cases d s rule: linorder_cases) (auto simp: memmove_def)
  then obtain b' where b': "memmove b d s n = Some b'" "length b' = length b"
     "\<forall>k < length b. b' ! k = (if d \<le> k \<and> k < d + n then b ! (s + (k - d)) else b ! k)"
    by blast
  have "b' = take d b @ take n (drop s b) @ drop (d + n) b"
  proof (rule nth_equalityI)
    show "length b' = length (take d b @ take n (drop s b) @ drop (d + n) b)"
      using assms b'(2) by simp
    fix k assume "k < length b'"
    with assms b' show "b' ! k = (take d b @ take n (drop s b) @ drop (d + n) b) ! k"
      by (auto simp: nth_append)
  qed
  with b'(1) show ?thesis by simp
qed

subsection \<open>Strings\<close>

lemma cstr_simps [simp]:
  "cstr [] = []"
  "cstr (c # cs) = (if c = NUL then [] else c # cstr cs)"
  by (simp_all add: cstr_def)

lemma NUL_notin_cstr [simp]: "NUL \<notin> set (cstr b)"
  by (auto simp: cstr_def dest: set_takeWhileD)

lemma cstr_append_NUL [simp]: "NUL \<notin> set s \<Longrightarrow> cstr (s @ NUL # t) = s"
  by (induction s) auto

lemma cstr_split: "NUL \<in> set b \<Longrightarrow> b = cstr b @ NUL # drop (Suc (length (cstr b))) b"
  by (induction b) auto

lemma length_cstr_less: "NUL \<in> set b \<Longrightarrow> length (cstr b) < length b"
  by (induction b) auto

lemma length_cstr_le: "length (cstr b) \<le> length b"
  by (induction b) auto

lemma nth_length_cstr: "NUL \<in> set b \<Longrightarrow> b ! length (cstr b) = NUL"
  by (induction b) auto

lemma strlen_buf_eq [loop_simps]:
  "strlen_buf b = (if NUL \<in> set b then Some (length (cstr b)) else None)"
  by (induction b) auto

lemma strcpy_eq [loop_simps]:
  "NUL \<in> set s \<Longrightarrow> length (cstr s) < length d \<Longrightarrow>
   strcpy d s = Some (cstr s @ NUL # drop (Suc (length (cstr s))) d)"
  by (induction d s rule: strcpy.induct) auto

lemma strcpy_overflow: "length d \<le> length (cstr s) \<Longrightarrow> strcpy d s = None"
  by (induction d s rule: strcpy.induct) (auto split: if_splits)

lemma strcat_eq [loop_simps]:
  "NUL \<in> set d \<Longrightarrow> NUL \<in> set s \<Longrightarrow> length (cstr d) + length (cstr s) < length d \<Longrightarrow>
   strcat d s =
     Some (cstr d @ cstr s @ NUL # drop (Suc (length (cstr d) + length (cstr s))) d)"
  by (induction d) (auto simp: strcpy_eq)

lemma strcat_overflow:
  "NUL \<in> set d \<Longrightarrow> length d \<le> length (cstr d) + length (cstr s) \<Longrightarrow> strcat d s = None"
  by (induction d) (auto simp: strcpy_overflow)

lemma strncpy_pad_eq [loop_simps]:
  "n \<le> length d \<Longrightarrow> strncpy_pad d n = Some (replicate n NUL @ drop n d)"
  by (induction d n rule: strncpy_pad.induct) auto

lemma strncpy_eq [loop_simps]:
  "NUL \<in> set s \<Longrightarrow> n \<le> length d \<Longrightarrow>
   strncpy d s n =
     Some (take n (cstr s) @ replicate (n - length (cstr s)) NUL @ drop n d)"
  by (induction d s n rule: strncpy.induct)
     (auto simp: strncpy_pad_eq split: list.splits)

lemma cstr_strncpy:
  "NUL \<in> set s \<Longrightarrow> n < length d \<Longrightarrow> d ! n = NUL \<Longrightarrow> strncpy d s n = Some d' \<Longrightarrow>
   cstr d' = take n (cstr s) \<and> length d' = length d \<and> d' ! n = NUL"
proof -
  assume a: "NUL \<in> set s" "n < length d" "d ! n = NUL" "strncpy d s n = Some d'"
  have no: "NUL \<notin> set (take n (cstr s))" by (meson NUL_notin_cstr in_set_takeD)
  have "drop n d = NUL # drop (Suc n) d"
    using a by (metis Cons_nth_drop_Suc)
  with a have d': "d' = take n (cstr s) @ replicate (n - length (cstr s)) NUL @ NUL # drop (Suc n) d"
    by (simp add: strncpy_eq)
  then have "d' = take n (cstr s) @ NUL # replicate (n - length (cstr s)) NUL @ drop (Suc n) d"
    by (simp add: replicate_app_Cons_same)
  with no have c: "cstr d' = take n (cstr s)" by simp
  define pre where "pre = take n (cstr s) @ replicate (n - length (cstr s)) NUL"
  have "length pre = n" by (simp add: pre_def min_def)
  moreover have "d' = pre @ NUL # drop (Suc n) d" using d' by (simp add: pre_def)
  ultimately have "length d' = length d" and "d' ! n = NUL"
    using a by (simp_all add: nth_append)
  with c show ?thesis by simp
qed

lemma byte_eq_iff [simp]: "byte a = byte b \<longleftrightarrow> a = b"
  by (simp add: byte_def)

lemma strcmp_buf_defined:
  "NUL \<in> set a \<Longrightarrow> NUL \<in> set b \<Longrightarrow> strcmp_buf a b \<noteq> None"
  by (induction a b rule: strcmp_buf.induct) auto

lemma strcmp_buf_0_iff [simp]:
  "NUL \<in> set a \<Longrightarrow> NUL \<in> set b \<Longrightarrow> strcmp_buf a b = Some 0 \<longleftrightarrow> cstr a = cstr b"
  by (induction a b rule: strcmp_buf.induct) auto

lemma strcmp_ok:
  assumes "NUL \<in> set a" and "NUL \<in> set b"
  obtains c where "strcmp (Some a) (Some b) = Some c" and "c = 0 \<longleftrightarrow> cstr a = cstr b"
  using strcmp_buf_defined [OF assms] strcmp_buf_0_iff [OF assms] by (auto simp: strcmp_def)

lemma strchr_from_eq [loop_simps]:
  "NUL \<in> set s \<Longrightarrow> c \<noteq> NUL \<Longrightarrow>
   strchr_from i s c = Some (if c \<in> set (cstr s)
     then Some (i + length (takeWhile (\<lambda>x. x \<noteq> c) (cstr s))) else None)"
  by (induction s arbitrary: i) auto

section \<open>Facts about numbers and their digits\<close>

text \<open>The reference: the digits of a number, most significant first.\<close>

fun num_digits :: "nat \<Rightarrow> nat \<Rightarrow> char list" where
  "num_digits base n =
     (if base < 2 \<or> n < base then [digit_char (of_nat n)]
      else num_digits base (n div base) @ [digit_char (of_nat (n mod base))])"

declare num_digits.simps [simp del]

lemma length_rev_swap [simp]: "length (rev_swap b i j) = length b"
  by (induction b i j rule: rev_swap.induct) (subst rev_swap.simps, auto)

lemma rev_swap_nth:
  "j < length b \<Longrightarrow> k < length b \<Longrightarrow>
   rev_swap b i j ! k = (if i \<le> k \<and> k \<le> j then b ! (i + j - k) else b ! k)"
proof (induction b i j rule: rev_swap.induct)
  case (1 b i j)
  show ?case
  proof (cases "i < j")
    case True
    let ?b = "b[i := b ! j, j := b ! i]"
    from True 1 have "rev_swap b i j ! k =
        (if Suc i \<le> k \<and> k \<le> j - 1 then ?b ! (Suc i + (j - 1) - k) else ?b ! k)"
      by (subst rev_swap.simps) simp
    with True 1 show ?thesis by (auto simp: nth_list_update)
  next
    case False
    then have "i \<le> k \<and> k \<le> j \<Longrightarrow> i + j - k = k" by linarith
    with False 1 show ?thesis by (subst rev_swap.simps) auto
  qed
qed

lemma rev_swap_prefix:
  assumes "p \<noteq> []"
  shows "rev_swap (p @ r) 0 (length p - 1) = rev p @ r"
proof -
  from assms have "length p \<noteq> 0" by simp
  then have "i \<le> length p - Suc 0 \<longleftrightarrow> i < length p" for i by linarith
  then show ?thesis
    using assms by (intro nth_equalityI) (auto simp: rev_swap_nth nth_append rev_nth)
qed

lemma word_div_mod_unat:
  "unat (a div b :: u32) = unat a div unat b" "unat (a mod b :: u32) = unat a mod unat b"
  by (simp_all add: unat_div unat_mod)

lemma utoa_digits_eq:
  assumes "2 \<le> unat base"
  shows "utoa_digits buf p val base =
    (let ds = num_digits (unat base) (unat val)
     in if p + length ds \<le> length buf
        then Some (take p buf @ rev ds @ drop (p + length ds) buf, p + length ds) else None)"
  using assms
proof (induction buf p val base rule: utoa_digits.induct)
  case (1 buf p val base)
  let ?b = "buf[p := digit_char (val mod base)]" and ?v = "val div base"
  have v0: "?v = 0 \<longleftrightarrow> unat val < unat base"
    using 1 by (simp add: word_eq_unat_iff word_div_mod_unat div_eq_0_iff)
  have m: "of_nat (unat val mod unat base) = val mod base"
    by (simp flip: word_div_mod_unat(2))
  show ?case
  proof (cases "p < length buf \<and> ?v \<noteq> 0")
    case True
    let ?ds = "num_digits (unat base) (unat ?v)"
    have ds: "num_digits (unat base) (unat val) = ?ds @ [digit_char (val mod base)]"
      using True v0 1 m by (subst num_digits.simps) (simp add: word_div_mod_unat)
    from True 1 have "utoa_digits buf p val base =
      (if Suc p + length ?ds \<le> length ?b
       then Some (take (Suc p) ?b @ rev ?ds @ drop (Suc p + length ?ds) ?b, Suc p + length ?ds)
       else None)"
      by (subst utoa_digits.simps) (simp add: Let_def)
    with True ds show ?thesis by (simp add: take_Suc_conv_app_nth)
  next
    case False
    have "?v = 0 \<Longrightarrow> num_digits (unat base) (unat val) = [digit_char (val mod base)]"
      using v0 m by (subst num_digits.simps) auto
    moreover have "\<not> p < length buf \<Longrightarrow> length buf < p + length (num_digits (unat base) (unat val))"
      by (cases "num_digits (unat base) (unat val)") (simp_all add: num_digits.simps [of _ "unat val"] split: if_splits)
    ultimately show ?thesis using False
      by (subst utoa_digits.simps) (auto simp: Let_def list_update_split Suc_le_eq)
  qed
qed

lemma unat_base: "2 \<le> base \<Longrightarrow> base \<le> 36 \<Longrightarrow> unat (of_int base :: u32) = nat base"
proof -
  assume b: "2 \<le> base" "base \<le> 36"
  have "unat (of_nat (nat base) :: u32) = nat base"
    using b by (intro unat_of_nat_small) simp
  moreover have "(of_int base :: u32) = of_nat (nat base)" using b by simp
  ultimately show ?thesis by metis
qed

lemma num_digits_nonempty [simp]: "num_digits b n \<noteq> []"
  by (subst num_digits.simps) simp

text \<open>\<open>utoa\<close> writes the digits and a terminator, and fails only when they do not fit.\<close>

lemma utoa_eq [loop_simps]:
  assumes "2 \<le> base" and "base \<le> 36"
  shows "utoa val buf base =
    (let ds = num_digits (nat base) (unat val)
     in if length ds < length buf then Some (ds @ NUL # drop (Suc (length ds)) buf) else None)"
proof -
  define ds where "ds = num_digits (nat base) (unat val)"
  have b: "2 \<le> unat (of_int base :: u32)" using assms by (simp add: unat_base)
  have "utoa val buf base = (if length ds \<le> length buf
     then do { b \<leftarrow> put_at (rev ds @ drop (length ds) buf) (length ds) NUL;
               Some (rev_swap b 0 (length ds - 1)) } else None)"
    using assms by (simp add: utoa_def utoa_digits_eq [OF b] unat_base ds_def [symmetric] Let_def)
  also have "\<dots> = (if length ds < length buf
     then Some (ds @ NUL # drop (Suc (length ds)) buf) else None)"
  proof (cases "length ds < length buf")
    case True
    have "(rev ds @ drop (length ds) buf)[length ds := NUL] =
        rev ds @ NUL # drop (Suc (length ds)) buf"
      using True by (simp add: list_update_append drop_update_swap list_update_split)
    with True show ?thesis
      using rev_swap_prefix [of "rev ds" "NUL # drop (Suc (length ds)) buf"]
      by (simp add: put_at_def ds_def)
  qed (auto simp: put_at_def)
  finally show ?thesis by (simp only: ds_def Let_def)
qed

lemma length_num_digits_le:
  "2 \<le> b \<Longrightarrow> n < b ^ Suc k \<Longrightarrow> length (num_digits b n) \<le> Suc k"
proof (induction k arbitrary: n)
  case 0
  then show ?case by (subst num_digits.simps) simp
next
  case (Suc k)
  show ?case
  proof (cases "n < b")
    case True
    then show ?thesis by (subst num_digits.simps) simp
  next
    case False
    have "n div b < b ^ Suc k"
      using Suc.prems by (simp add: less_mult_imp_div_less mult.commute)
    then have "length (num_digits b (n div b)) \<le> Suc k"
      using Suc.IH Suc.prems by blast
    with False Suc.prems(1) show ?thesis by (subst num_digits.simps) simp
  qed
qed

lemma byte_digit_char: "unat d < 10 \<Longrightarrow> byte (digit_char d) = int (unat d) + 48"
  by (simp add: digit_char_def byte_def word_less_nat_alt)

lemma is_digit_digit_char: "unat d < 10 \<Longrightarrow> is_digit (digit_char d)"
  using of_nat_less_iff [of "unat d" 10, where 'a = int]
  by (simp add: is_digit_def byte_digit_char) (simp add: byte_def)

lemma NUL_not_digit [simp]: "\<not> is_digit NUL"
  by (simp add: is_digit_def byte_def)

lemma unat_of_nat_mod10: "unat (of_nat (n mod 10) :: u32) = n mod 10"
  by (intro unat_of_nat_small) (simp add: less_trans [of _ 10])

lemma atoi_digits_num_digits:
  "atoi_digits acc (num_digits 10 n @ r) =
   atoi_digits (acc * 10 ^ length (num_digits 10 n) + of_nat n) r"
proof (induction "10::nat" n arbitrary: acc r rule: num_digits.induct)
  case (1 n)
  let ?d = "digit_char (of_nat (n mod 10))"
  have d: "is_digit ?d" "byte ?d - byte CHR ''0'' = int (n mod 10)"
    by (simp_all add: is_digit_digit_char byte_digit_char unat_of_nat_mod10) (simp add: byte_def)
  show ?case
  proof (cases "n < 10")
    case True
    with d show ?thesis by (subst num_digits.simps) (simp add: num_digits.simps [of _ n])
  next
    case False
    then have ds: "num_digits 10 n = num_digits 10 (n div 10) @ [?d]"
      by (subst num_digits.simps) simp
    have n: "(of_nat n :: u32) = of_nat (n div 10) * 10 + of_nat (n mod 10)"
      by (metis div_mult_mod_eq of_nat_add of_nat_mult of_nat_numeral)
    from False have "atoi_digits acc (num_digits 10 (n div 10) @ ([?d] @ r)) =
      atoi_digits (acc * 10 ^ length (num_digits 10 (n div 10)) + of_nat (n div 10)) ([?d] @ r)"
      by (intro 1) simp
    with d ds n show ?thesis by (simp add: algebra_simps)
  qed
qed

lemma itoa_eq [loop_simps]:
  assumes "2 \<le> base" and "base \<le> 36"
  shows "itoa val buf base =
    (let ds = (if sint val < 0 \<and> base = 10 then CHR ''-'' # num_digits 10 (unat (- val))
               else num_digits (nat base) (unat val))
     in if length ds < length buf then Some (ds @ NUL # drop (Suc (length ds)) buf) else None)"
proof (cases "sint val < 0 \<and> base = 10")
  case False
  have "itoa val buf base = utoa val buf base"
    using assms False by (auto simp: itoa_def utoa_def split: Option.bind_split)
  with False show ?thesis by (simp add: utoa_eq [OF assms] del: de_Morgan_conj)
next
  case True
  define ds where "ds = num_digits 10 (unat (- val))"
  have "itoa val buf base = (if length ds \<le> length buf
     then do { b \<leftarrow> put_at (rev ds @ drop (length ds) buf) (length ds) CHR ''-'';
               b \<leftarrow> put_at b (Suc (length ds)) NUL;
               Some (rev_swap b 0 (length ds)) } else None)"
    using True assms
    by (simp add: itoa_def utoa_digits_eq [of 10] ds_def [symmetric] Let_def
        split: Option.bind_split)
  also have "\<dots> = (if Suc (length ds) < length buf
     then Some (CHR ''-'' # ds @ NUL # drop (Suc (Suc (length ds))) buf) else None)"
  proof (cases "Suc (length ds) < length buf")
    case True
    then obtain x y r where r: "drop (length ds) buf = x # y # r"
      by (metis Cons_nth_drop_Suc Suc_lessD)
    then have "drop (Suc (Suc (length ds))) buf = r"
      by (metis drop_Suc tl_drop list.sel(3))
    with True r show ?thesis
      using rev_swap_prefix [of "rev (CHR ''-'' # ds)" "NUL # r"]
      by (simp add: put_at_def list_update_append nth_append)
  qed (auto simp: put_at_def)
  finally show ?thesis using True by (simp add: ds_def Let_def)
qed

lemma num_digits_hd_digit:
  "\<exists>d ds. num_digits 10 n = d # ds \<and> is_digit d"
proof (induction "10::nat" n rule: num_digits.induct)
  case (1 n)
  have "is_digit (digit_char (of_nat (n mod 10)))"
    by (simp add: is_digit_digit_char unat_of_nat_mod10)
  with 1 show ?case by (cases "n < 10") (auto simp: num_digits.simps [of _ n])
qed

lemma digit_not_special:
  "is_digit d \<Longrightarrow> d \<noteq> CHR '' '' \<and> d \<noteq> CHR 0x09 \<and> d \<noteq> CHR ''-'' \<and> d \<noteq> CHR ''+'' \<and> d \<noteq> NUL"
  by (auto simp: is_digit_def byte_def)

lemma atoi_num_digits:
  "atoi (num_digits 10 n @ NUL # r) = Some (of_nat n)"
proof -
  obtain d ds where d: "num_digits 10 n = d # ds" "is_digit d" using num_digits_hd_digit by blast
  have "atoi_digits 0 (num_digits 10 n @ NUL # r) = Some (of_nat n)"
    by (simp add: atoi_digits_num_digits)
  with d show ?thesis by (simp add: atoi_def digit_not_special)
qed

lemma atoi_neg_num_digits:
  "atoi (CHR ''-'' # num_digits 10 n @ NUL # r) = Some (- of_nat n)"
  by (simp add: atoi_def atoi_digits_num_digits)

section \<open>Tokens\<close>

text \<open>The reference for \<open>strtok\<close>: the maximal runs of characters outside the delimiters.\<close>

function tokens :: "char set \<Rightarrow> char list \<Rightarrow> char list list" where
  "tokens D s =
     (case dropWhile (\<lambda>c. c \<in> D) s of
        [] \<Rightarrow> []
      | c # cs \<Rightarrow> takeWhile (\<lambda>c. c \<notin> D) (c # cs) # tokens D (dropWhile (\<lambda>c. c \<notin> D) (c # cs)))"
  by pat_completeness auto
termination
proof (relation "measure (length \<circ> snd)")
  fix D s c cs assume a: "dropWhile (\<lambda>c. c \<in> D) s = c # cs"
  then have "c \<notin> D" by (metis hd_dropWhile list.distinct(1) list.sel(1))
  then have "length (dropWhile (\<lambda>c. c \<notin> D) (c # cs)) \<le> length cs"
    by (simp add: length_dropWhile_le)
  moreover have "length (c # cs) \<le> length s" using a by (metis length_dropWhile_le)
  ultimately show "((D, dropWhile (\<lambda>c. c \<notin> D) (c # cs)), D, s) \<in> measure (length \<circ> snd)"
    by simp
qed simp

declare tokens.simps [simp del]

lemma skip_in_eq [loop_simps]:
  "NUL \<in> set delim \<Longrightarrow>
   skip_in delim s = (if NUL \<in> set s \<or> (\<exists>c \<in> set s. c \<notin> set (cstr delim))
     then Some (length (takeWhile (\<lambda>c. c \<in> set (cstr delim)) s)) else None)"
  by (induction s) (auto simp: strchr_def strchr_from_eq)

lemma skip_out_eq [loop_simps]:
  "NUL \<in> set delim \<Longrightarrow> NUL \<in> set s \<Longrightarrow>
   skip_out delim s = Some (length (takeWhile (\<lambda>c. c \<notin> set (cstr delim)) (cstr s)))"
  by (induction s) (auto simp: strchr_def strchr_from_eq)

lemma takeWhile_cstr:
  "\<not> P NUL \<Longrightarrow> takeWhile P (cstr s) = takeWhile P s"
  by (induction s) auto

lemma drop_takeWhile_length: "drop (length (takeWhile P s)) s = dropWhile P s"
  by (induction s) auto

lemma cstr_dropWhile: "\<not> P NUL \<Longrightarrow> cstr (dropWhile P s) = dropWhile P (cstr s)"
  by (induction s) auto

lemma cstr_drop: "m \<le> length (cstr s) \<Longrightarrow> cstr (drop m s) = drop m (cstr s)"
proof (induction s arbitrary: m)
  case (Cons a s)
  then show ?case by (cases m) auto
qed simp

lemma NUL_in_drop: "NUL \<in> set s \<Longrightarrow> m \<le> length (cstr s) \<Longrightarrow> NUL \<in> set (drop m s)"
proof (induction s arbitrary: m)
  case (Cons a s)
  then show ?case by (cases m) (auto split: if_splits)
qed simp

lemma cstr_takeWhile_update:
  assumes "NUL \<in> set s" and "e = length (takeWhile (\<lambda>c. c \<notin> D) (cstr s))"
  shows "cstr (s[e := NUL]) = takeWhile (\<lambda>c. c \<notin> D) (cstr s)"
  using assms
proof (induction s arbitrary: e)
  case Nil
  then show ?case by simp
next
  case (Cons a s)
  then show ?case by (cases "a = NUL \<or> a \<in> D") auto
qed

text \<open>
  One call.  \<open>p\<close> is where the search starts: the argument, or the saved position.  The
  result is the next token of the remaining string, and the string from the new saved
  position on has exactly the remaining tokens.
\<close>

definition strtok_rest :: "char list \<Rightarrow> nat option \<Rightarrow> char list" where
  "strtok_rest buf saved = (case saved of None \<Rightarrow> [] | Some p \<Rightarrow> cstr (drop p buf))"

lemma strtok_step:
  assumes D: "NUL \<in> set delim" and "p \<le> length buf" and N: "NUL \<in> set (drop p buf)"
    and p: "(case str of Some p \<Rightarrow> Some p | None \<Rightarrow> saved) = Some p"
  shows "case tokens (set (cstr delim)) (cstr (drop p buf)) of
      [] \<Rightarrow> \<exists>q. strtok str delim buf saved = Some (None, buf, Some q) \<and> p \<le> q \<and> q < length buf
              \<and> buf ! q = NUL
    | t # ts \<Rightarrow> \<exists>q buf' saved'. strtok str delim buf saved = Some (Some q, buf', saved')
         \<and> p \<le> q \<and> length buf' = length buf \<and> cstr (drop q buf') = t
         \<and> (case saved' of None \<Rightarrow> ts = []
            | Some e \<Rightarrow> q < e \<and> e \<le> length buf \<and> NUL \<in> set (drop e buf')
                \<and> tokens (set (cstr delim)) (cstr (drop e buf')) = ts)"
proof -
  define D where "D = set (cstr delim)"
  define s where "s = drop p buf"
  have nD: "NUL \<notin> D" by (simp add: D_def)
  define k where "k = length (takeWhile (\<lambda>c. c \<in> D) s)"
  have sk: "skip_in delim s = Some k"
    using assms(1) N by (simp add: skip_in_eq s_def k_def D_def)
  define r where "r = dropWhile (\<lambda>c. c \<in> D) s"
  have r: "r = drop (p + k) buf"
    by (simp add: r_def k_def drop_takeWhile_length [symmetric]) (simp add: s_def add.commute)
  have cr: "cstr r = dropWhile (\<lambda>c. c \<in> D) (cstr s)"
    using nD by (simp add: r_def cstr_dropWhile)
  have "set s = set (takeWhile (\<lambda>c. c \<in> D) s) \<union> set r"
    unfolding r_def by (metis set_append takeWhile_dropWhile_id)
  then have Nr: "NUL \<in> set r" using N nD by (auto simp: s_def dest: set_takeWhileD)
  then have pk: "p + k < length buf" using r by (metis drop_all empty_iff linorder_not_le list.set(1))
  have hd_r: "r ! 0 = buf ! (p + k)" "r \<noteq> []" using pk r by auto
  show ?thesis
  proof (cases "buf ! (p + k) = NUL")
    case True
    then have "cstr r = []" using hd_r by (cases r) auto
    then have "tokens D (cstr s) = []" by (subst tokens.simps) (simp add: cr [symmetric])
    with True p sk pk show ?thesis
      by (auto simp: strtok_def s_def D_def)
  next
    case False
    define m where "m = length (takeWhile (\<lambda>c. c \<notin> D) (cstr r))"
    define e where "e = p + k + m"
    have so: "skip_out delim (drop (p + k) buf) = Some m"
      using assms(1) Nr by (simp add: skip_out_eq r m_def D_def)
    have cr_ne: "cstr r \<noteq> []" using False hd_r by (cases r) auto
    then have tok: "tokens D (cstr s) =
        takeWhile (\<lambda>c. c \<notin> D) (cstr r) # tokens D (dropWhile (\<lambda>c. c \<notin> D) (cstr r))"
      by (subst tokens.simps) (auto simp: cr [symmetric] split: list.split)
    have m_le: "m \<le> length (cstr r)" unfolding m_def by (rule length_takeWhile_le)
    then have e_lt: "e < length buf"
      using length_cstr_less [OF Nr] r e_def by simp
    have re: "drop m r = drop e buf" by (simp add: r e_def add.commute)
    have cre: "cstr (drop m r) = dropWhile (\<lambda>c. c \<notin> D) (cstr r)"
      using cstr_drop [OF m_le] by (simp add: m_def drop_takeWhile_length)
    have call: "strtok str delim buf saved =
        (if buf ! e \<noteq> NUL then Some (Some (p + k), buf[e := NUL], Some (Suc e))
         else Some (Some (p + k), buf, None))"
      using p sk so False by (simp add: strtok_def s_def e_def Let_def)
    have de: "drop e buf = buf ! e # drop (Suc e) buf" using e_lt by (simp add: Cons_nth_drop_Suc)
    show ?thesis
    proof (cases "buf ! e = NUL")
      case True
      then have "dropWhile (\<lambda>c. c \<notin> D) (cstr r) = []" using cre re de by simp
      moreover from this have "takeWhile (\<lambda>c. c \<notin> D) (cstr r) = cstr r"
        by (metis append.right_neutral takeWhile_dropWhile_id)
      moreover have "tokens D [] = []" by (subst tokens.simps) simp
      ultimately have "tokens D (cstr s) = [cstr r]" by (simp only: tok)
      then show ?thesis using call True pk r by (simp add: s_def D_def)
    next
      case False
      have c: "dropWhile (\<lambda>c. c \<notin> D) (cstr r) = buf ! e # cstr (drop (Suc e) buf)"
        using cre re de False by simp
      then have inD: "buf ! e \<in> D" by (metis hd_dropWhile list.distinct(1) list.sel(1))
      have "tokens D (buf ! e # cstr (drop (Suc e) buf)) = tokens D (cstr (drop (Suc e) buf))"
        using inD by (simp add: tokens.simps [of D "_ # _"] tokens.simps [of D "cstr _"])
      moreover have "NUL \<in> set (drop (Suc e) buf)"
      proof -
        have "NUL \<in> set (drop m r)" using Nr m_le by (rule NUL_in_drop)
        then show ?thesis using False de re by simp
      qed
      moreover have "cstr (drop (p + k) (buf[e := NUL])) = takeWhile (\<lambda>c. c \<notin> D) (cstr r)"
        using cstr_takeWhile_update [OF Nr, of m D] by (simp add: drop_update_swap e_def r m_def)
      ultimately show ?thesis
        using tok call False pk c e_lt by (simp add: s_def D_def e_def)
    qed
  qed
qed

section \<open>Properties\<close>

text \<open>\<open>memmove\<close> copies the source bytes as they were before the call, also when the two
  ranges overlap, and changes nothing outside the destination range.\<close>

theorem memmove_overlap_safe:
  assumes "d + n \<le> length b" and "s + n \<le> length b"
  shows "memmove b d s n = Some (take d b @ take n (drop s b) @ drop (d + n) b)"
  using assms by (rule memmove_ok)

theorem memmove_overlap_safe_witness:
  "memmove [1, 2, 3, 4, 5 :: nat] 1 0 4 = Some [1, 1, 2, 3, 4]"
  using memmove_overlap_safe [of 1 4 "[1, 2, 3, 4, 5 :: nat]" 0] by simp

text \<open>\<open>itoa\<close> in base ten followed by \<open>atoi\<close> gives the number back, for every 32-bit
  value including \<open>-2147483648\<close>, whenever the buffer has the twelve bytes the longest result
  needs; no byte is written outside the buffer.\<close>

theorem itoa_atoi_roundtrip:
  assumes "12 \<le> length buf"
  shows "\<exists>buf'. itoa val buf 10 = Some buf' \<and> length buf' = length buf \<and> atoi buf' = Some val"
proof -
  have len: "length (num_digits 10 (unat x)) \<le> 10" for x :: u32
    using length_num_digits_le [of 10 "unat x" 9] u32_unat_lt [of x] by simp
  show ?thesis
    using len [of val] len [of "- val"] assms
    by (auto simp: itoa_eq Let_def atoi_num_digits atoi_neg_num_digits)
qed

theorem itoa_atoi_roundtrip_witness:
  "\<exists>buf'. itoa (- 2147483648) (replicate 12 NUL) 10 = Some buf' \<and> length buf' = 12 \<and>
     atoi buf' = Some (- 2147483648)"
  using itoa_atoi_roundtrip [of "replicate 12 NUL" "- 2147483648"] by simp

text \<open>On two terminated strings \<open>strcmp\<close> stays inside both buffers, answers \<open>0\<close> exactly
  for equal strings, and swapping the arguments negates the answer.\<close>

theorem strcmp_correct:
  assumes "NUL \<in> set a" and "NUL \<in> set b"
  shows "\<exists>d. strcmp (Some a) (Some b) = Some d \<and> strcmp (Some b) (Some a) = Some (- d)
           \<and> (d = 0 \<longleftrightarrow> cstr a = cstr b)"
  using assms unfolding strcmp_def
  by (induction a b rule: strcmp_buf.induct) auto

theorem strcmp_correct_witness:
  "\<exists>d. strcmp (Some [CHR ''a'', NUL]) (Some [CHR ''b'', NUL]) = Some d
     \<and> strcmp (Some [CHR ''b'', NUL]) (Some [CHR ''a'', NUL]) = Some (- d) \<and> d \<noteq> 0"
  using strcmp_correct [of "[CHR ''a'', NUL]" "[CHR ''b'', NUL]"] by auto

text \<open>One call of \<open>strtok\<close> returns the next maximal run of non-delimiter characters of the
  string that remains, terminates it in place, never leaves the buffer, and leaves a saved
  position from which exactly the remaining tokens follow; with no token left it returns
  \<^verbatim>\<open>NULL\<close> and changes nothing in the buffer.\<close>

theorem strtok_next_token:
  assumes "NUL \<in> set delim" and "p \<le> length buf" and "NUL \<in> set (drop p buf)"
    and "(case str of Some p \<Rightarrow> Some p | None \<Rightarrow> saved) = Some p"
  shows "case tokens (set (cstr delim)) (cstr (drop p buf)) of
      [] \<Rightarrow> \<exists>q. strtok str delim buf saved = Some (None, buf, Some q) \<and> p \<le> q \<and> q < length buf
              \<and> buf ! q = NUL
    | t # ts \<Rightarrow> \<exists>q buf' saved'. strtok str delim buf saved = Some (Some q, buf', saved')
         \<and> p \<le> q \<and> length buf' = length buf \<and> cstr (drop q buf') = t
         \<and> (case saved' of None \<Rightarrow> ts = []
            | Some e \<Rightarrow> q < e \<and> e \<le> length buf \<and> NUL \<in> set (drop e buf')
                \<and> tokens (set (cstr delim)) (cstr (drop e buf')) = ts)"
  using assms by (rule strtok_step)

theorem strtok_next_token_witness:
  "\<exists>q buf' saved'. strtok (Some 0) [CHR ''/'', NUL] (''/a/b'' @ [NUL]) None
      = Some (Some q, buf', saved') \<and> cstr (drop q buf') = ''a''"
proof -
  have t: "tokens {CHR ''/''} ''/a/b'' = [''a'', ''b'']"
    by (simp add: tokens.simps)
  show ?thesis
    using strtok_next_token [where delim = "[CHR ''/'', NUL]" and p = 0 and buf = "''/a/b'' @ [NUL]" and str = "Some 0" and saved = None]
    by (auto simp: t)
qed

end
