(* ===== verification/Phys_Memory.thy ===== *)
theory Phys_Memory
  imports Kernel_Prelude
begin

text \<open>
  The physical memory manager, \<^verbatim>\<open>mm/pmm.c\<close>: a bitmap with one bit per 4 KB page (set means
  used), the number of pages and the count of free pages.  \<open>pmm_init\<close> builds it from the
  Multiboot information; \<open>pmm_alloc_page\<close> and \<open>pmm_free_page\<close> hand pages out and take them
  back.  The addresses of \<^verbatim>\<open>_kernel_start\<close> and \<^verbatim>\<open>_kernel_end\<close>, which the linker script sets,
  are parameters of \<open>pmm_init\<close>.
\<close>

record pmm =
  bitmap :: "u32 list"
  total_pages :: u32
  free_pages :: u32

section \<open>The bitmap\<close>

definition bitmap_in_range :: "u32 list \<Rightarrow> u32 \<Rightarrow> bool" where
  "bitmap_in_range bm page \<longleftrightarrow> unat (page div 32) < length bm"

definition bitmap_set :: "u32 list \<Rightarrow> u32 \<Rightarrow> u32 list" where
  "bitmap_set bm page =
     (let i = unat (page div 32)
      in bm[i := bm ! i OR push_bit (unat (page mod 32)) 1])"

definition bitmap_clear :: "u32 list \<Rightarrow> u32 \<Rightarrow> u32 list" where
  "bitmap_clear bm page =
     (let i = unat (page div 32)
      in bm[i := bm ! i AND NOT (push_bit (unat (page mod 32)) 1)])"

definition bitmap_test :: "u32 list \<Rightarrow> u32 \<Rightarrow> bool" where
  "bitmap_test bm page =
     (drop_bit (unat (page mod 32)) (bm ! unat (page div 32)) AND 1 \<noteq> 0)"

section \<open>Allocation\<close>

text \<open>
  The two loops of \<open>pmm_alloc_page\<close>: words of the bitmap from the first on, then the bits of
  the first word that is not full.
\<close>

definition first_clear_bit :: "u32 \<Rightarrow> nat option" where
  "first_clear_bit w = find (\<lambda>j. w AND push_bit j 1 = 0) [0..<32]"

fun pmm_scan :: "u32 list \<Rightarrow> nat \<Rightarrow> u32 option" where
  "pmm_scan [] i = None"
| "pmm_scan (w # ws) i =
     (if w \<noteq> 0xFFFFFFFF
      then (case first_clear_bit w of
              Some j \<Rightarrow> Some (of_nat i * 32 + of_nat j)
            | None \<Rightarrow> pmm_scan ws (Suc i))
      else pmm_scan ws (Suc i))"

definition pmm_alloc_page :: "pmm \<Rightarrow> u32 \<times> pmm" where
  "pmm_alloc_page s =
     (case pmm_scan (bitmap s) 0 of
        None \<Rightarrow> (0, s)
      | Some page \<Rightarrow>
          if page \<ge> total_pages s then (0, s)
          else (page * PAGE_SIZE,
                s\<lparr>bitmap := bitmap_set (bitmap s) page,
                  free_pages := (if free_pages s > 0 then free_pages s - 1 else free_pages s)\<rparr>))"

definition pmm_free_page :: "pmm \<Rightarrow> u32 \<Rightarrow> pmm" where
  "pmm_free_page s addr =
     (let page = addr div PAGE_SIZE
      in if page < total_pages s \<and> bitmap_test (bitmap s) page
         then s\<lparr>bitmap := bitmap_clear (bitmap s) page, free_pages := free_pages s + 1\<rparr>
         else s)"

definition pmm_get_free_count :: "pmm \<Rightarrow> u32" where
  "pmm_get_free_count s = free_pages s"

definition pmm_get_total_count :: "pmm \<Rightarrow> u32" where
  "pmm_get_total_count s = total_pages s"

text \<open>Several allocations in a row, as the callers' loops do.\<close>

primrec alloc_pages :: "('s \<Rightarrow> u32 \<times> 's) \<Rightarrow> nat \<Rightarrow> 's \<Rightarrow> u32 list \<times> 's" where
  "alloc_pages alloc 0 s = ([], s)"
| "alloc_pages alloc (Suc n) s =
     (let (a, s') = alloc s; (as, s'') = alloc_pages alloc n s' in (a # as, s''))"

section \<open>Initialisation from the Multiboot information\<close>

record mmap_entry =
  me_size :: u32
  me_addr_low :: u32
  me_addr_high :: u32
  me_len_low :: u32
  me_len_high :: u32
  me_type :: u32

record multiboot_info =
  mb_flags :: u32
  mb_mem_upper :: u32
  mb_mmap_length :: u32
  mb_mmap_addr :: u32

text \<open>
  The memory map is a chain of entries in memory, each followed at a distance the entry itself
  gives; \<open>mem a\<close> is the entry at address \<open>a\<close>.  The walk need not end (an entry can give the
  distance 0), so it is a partial function.
\<close>

partial_function (option) mmap_walk ::
  "(u32 \<Rightarrow> mmap_entry) \<Rightarrow> u32 \<Rightarrow> u32 \<Rightarrow> mmap_entry list option" where
  "mmap_walk mem entry end_mmap =
     (if entry < end_mmap
      then do {
        rest \<leftarrow> mmap_walk mem (entry + me_size (mem entry) + 4) end_mmap;
        Some (mem entry # rest)
      }
      else Some [])"

definition mmap_present :: "multiboot_info option \<Rightarrow> bool" where
  "mmap_present mbi =
     (case mbi of None \<Rightarrow> False
      | Some m \<Rightarrow> mb_flags m AND push_bit 6 1 \<noteq> 0 \<and> mb_mmap_length m > 0)"

fun mmap_max_addr :: "mmap_entry list \<Rightarrow> u32 \<Rightarrow> u32" where
  "mmap_max_addr [] max_addr = max_addr"
| "mmap_max_addr (e # es) max_addr =
     mmap_max_addr es
       (if me_type e = 1
        then (let entry_end = me_addr_low e + me_len_low e
              in if entry_end > max_addr then entry_end else max_addr)
        else max_addr)"

definition pmm_max_addr :: "mmap_entry list \<Rightarrow> multiboot_info option \<Rightarrow> u32" where
  "pmm_max_addr entries mbi =
     (if mmap_present mbi then mmap_max_addr entries 0x1000000
      else case mbi of
             Some m \<Rightarrow> if mb_flags m AND push_bit 0 1 \<noteq> 0
                       then (mb_mem_upper m + 1024) * 1024 else 0x1000000
           | None \<Rightarrow> 0x1000000)"

definition mmap_entries :: "(u32 \<Rightarrow> mmap_entry) \<Rightarrow> multiboot_info option \<Rightarrow> mmap_entry list option" where
  "mmap_entries mem mbi =
     (case mbi of
        Some m \<Rightarrow> if mmap_present mbi
                  then mmap_walk mem (mb_mmap_addr m) (mb_mmap_addr m + mb_mmap_length m)
                  else Some []
      | None \<Rightarrow> Some [])"

definition pmm_release :: "pmm \<Rightarrow> u32 \<Rightarrow> pmm" where
  "pmm_release s page =
     (if page < total_pages s \<and> bitmap_test (bitmap s) page
      then s\<lparr>bitmap := bitmap_clear (bitmap s) page, free_pages := free_pages s + 1\<rparr>
      else s)"

fun mmap_release :: "mmap_entry list \<Rightarrow> pmm \<Rightarrow> pmm" where
  "mmap_release [] s = s"
| "mmap_release (e # es) s =
     mmap_release es
       (if me_type e = 1
        then fold (\<lambda>p s. pmm_release s (me_addr_low e div PAGE_SIZE + of_nat p))
               [0..<unat (me_len_low e div PAGE_SIZE)] s
        else s)"

definition fallback_release :: "pmm \<Rightarrow> pmm" where
  "fallback_release s =
     fold (\<lambda>page s. s\<lparr>bitmap := bitmap_clear (bitmap s) (of_nat page),
                       free_pages := free_pages s + 1\<rparr>)
       [unat ((0x100000 :: u32) div PAGE_SIZE)..<unat (total_pages s)] s"

definition pmm_reserve :: "u32 \<Rightarrow> pmm \<Rightarrow> pmm option" where
  "pmm_reserve p s =
     (if \<not> bitmap_in_range (bitmap s) p then None
      else if \<not> bitmap_test (bitmap s) p
      then Some (s\<lparr>bitmap := bitmap_set (bitmap s) p,
                   free_pages := (if free_pages s > 0 then free_pages s - 1 else free_pages s)\<rparr>)
      else Some s)"

primrec pmm_reserve_from :: "nat \<Rightarrow> u32 \<Rightarrow> pmm \<Rightarrow> pmm option" where
  "pmm_reserve_from 0 p s = Some s"
| "pmm_reserve_from (Suc n) p s = Option.bind (pmm_reserve p s) (pmm_reserve_from n (p + 1))"

text \<open>\<^verbatim>\<open>for (p = lo; p <= hi; p++)\<close> over page numbers.\<close>

definition pmm_reserve_range :: "u32 \<Rightarrow> u32 \<Rightarrow> pmm \<Rightarrow> pmm option" where
  "pmm_reserve_range lo hi s = pmm_reserve_from (Suc (unat hi) - unat lo) lo s"

definition pmm_init ::
  "u32 \<Rightarrow> u32 \<Rightarrow> (u32 \<Rightarrow> mmap_entry) \<Rightarrow> multiboot_info option \<Rightarrow> pmm option" where
  "pmm_init kernel_start kernel_end mem mbi =
     do {
       entries \<leftarrow> mmap_entries mem mbi;
       let max_addr = pmm_max_addr entries mbi;
       let tot = max_addr div PAGE_SIZE;
       let bitmap_size = (tot + 31) div 32;
       let bitmap_addr = ALIGN_UP kernel_end PAGE_SIZE;
       let s = \<lparr>bitmap = replicate (unat bitmap_size) 0xFFFFFFFF, total_pages = tot,
                free_pages = 0\<rparr>;
       let s = (if mmap_present mbi then mmap_release entries s else fallback_release s);
       s \<leftarrow> pmm_reserve 0 s;
       s \<leftarrow> pmm_reserve_range (kernel_start div PAGE_SIZE) (kernel_end div PAGE_SIZE) s;
       pmm_reserve_range (bitmap_addr div PAGE_SIZE)
         ((bitmap_addr + bitmap_size * 4) div PAGE_SIZE) s
     }"

section \<open>The bitmap as a set of pages\<close>

definition page_used :: "pmm \<Rightarrow> nat \<Rightarrow> bool" where
  "page_used s p \<longleftrightarrow> bit (bitmap s ! (p div 32)) (p mod 32)"

text \<open>The frames that may be handed out, as page numbers and as addresses.\<close>

definition free_set :: "pmm \<Rightarrow> nat set" where
  "free_set s = {p. p < unat (total_pages s) \<and> \<not> page_used s p}"

definition free_frames :: "pmm \<Rightarrow> u32 set" where
  "free_frames s = (\<lambda>p. of_nat p * PAGE_SIZE) ` free_set s"

definition pmm_wf :: "pmm \<Rightarrow> bool" where
  "pmm_wf s \<longleftrightarrow> length (bitmap s) = (unat (total_pages s) + 31) div 32
     \<and> unat (total_pages s) \<le> 2 ^ 20
     \<and> unat (free_pages s) = card (free_set s)
     \<and> (\<forall>p. unat (total_pages s) \<le> p \<and> p < 32 * length (bitmap s) \<longrightarrow> page_used s p)"

text \<open>The invariant of a running manager: page 0 is never free, so that 0 can mean failure.\<close>

definition pmm_inv :: "pmm \<Rightarrow> bool" where
  "pmm_inv s \<longleftrightarrow> pmm_wf s \<and> 0 \<notin> free_set s"

lemma free_set_finite [simp]: "finite (free_set s)"
  by (simp add: free_set_def)

lemma unat_div_32 [simp]: "unat (p div 32 :: u32) = unat p div 32"
  by (simp add: unat_div)

lemma unat_mod_32 [simp]: "unat (p mod 32 :: u32) = unat p mod 32"
  by (simp add: unat_mod)

lemma bit_set_iff: "j < 32 \<Longrightarrow> bit ((w :: u32) OR 2 ^ j) k \<longleftrightarrow> bit w k \<or> k = j"
  by (auto simp: bit_simps dest: bit_imp_le_length)

lemma bit_clear_iff: "j < 32 \<Longrightarrow> bit ((w :: u32) AND NOT (2 ^ j)) k \<longleftrightarrow> bit w k \<and> k \<noteq> j"
  by (auto simp: bit_simps dest: bit_imp_le_length)

lemma bitmap_test_iff: "bitmap_test bm p \<longleftrightarrow> bit (bm ! (unat p div 32)) (unat p mod 32)"
  by (simp add: bitmap_test_def and_one_eq odd_iff_mod_2_eq_one [symmetric] bit_iff_odd_drop_bit)

lemma nat_split_32: "(a::nat) = b \<longleftrightarrow> a div 32 = b div 32 \<and> a mod 32 = b mod 32"
  by (metis div_mult_mod_eq)

lemma bitmap_set_bit:
  "unat p div 32 < length bm \<Longrightarrow>
   bit (bitmap_set bm p ! (q div 32)) (q mod 32) \<longleftrightarrow> bit (bm ! (q div 32)) (q mod 32) \<or> q = unat p"
  by (auto simp: bitmap_set_def Let_def nth_list_update bit_set_iff nat_split_32 [of q])

lemma bitmap_clear_bit:
  "unat p div 32 < length bm \<Longrightarrow>
   bit (bitmap_clear bm p ! (q div 32)) (q mod 32) \<longleftrightarrow> bit (bm ! (q div 32)) (q mod 32) \<and> q \<noteq> unat p"
  by (auto simp: bitmap_clear_def Let_def nth_list_update bit_clear_iff nat_split_32 [of q])

lemma length_bitmap_set [simp]: "length (bitmap_set bm p) = length bm"
  by (simp add: bitmap_set_def Let_def)

lemma length_bitmap_clear [simp]: "length (bitmap_clear bm p) = length bm"
  by (simp add: bitmap_clear_def Let_def)

lemma full_word_iff: "(w :: u32) = 0xFFFFFFFF \<longleftrightarrow> (\<forall>j<32. bit w j)"
proof -
  have "(0xFFFFFFFF :: u32) = - 1" by simp
  then show ?thesis by (simp only: bit_eq_iff) (auto dest: bit_imp_le_length)
qed

lemma and_exp_eq_0: "j < 32 \<Longrightarrow> (w :: u32) AND 2 ^ j = 0 \<longleftrightarrow> \<not> bit w j"
proof -
  assume "j < 32"
  then have "bit (w AND 2 ^ j) k \<longleftrightarrow> bit w k \<and> k = j" for k
    by (auto simp: bit_simps)
  then show ?thesis by (metis bit_0_eq bit_eq_iff bot_apply bot_bool_def)
qed

lemma first_clear_bit_Some:
  "first_clear_bit w = Some j \<longleftrightarrow> j < 32 \<and> \<not> bit w j \<and> (\<forall>i<j. bit w i)"
  by (auto simp: first_clear_bit_def find_upt_Some_iff and_exp_eq_0)

lemma first_clear_bit_None: "first_clear_bit w = None \<longleftrightarrow> w = 0xFFFFFFFF"
  by (auto simp: first_clear_bit_def find_upt_None_iff and_exp_eq_0 full_word_iff)

lemma pmm_scan_None_iff: "pmm_scan ws i = None \<longleftrightarrow> (\<forall>w \<in> set ws. w = 0xFFFFFFFF)"
  by (induction ws arbitrary: i) (auto simp: first_clear_bit_None split: option.splits)

lemma pmm_scan_Some:
  "pmm_scan ws i = Some page \<Longrightarrow>
   \<exists>k j. k < length ws \<and> j < 32 \<and> page = of_nat (i + k) * 32 + of_nat j \<and>
     \<not> bit (ws ! k) j \<and> (\<forall>q < 32 * k + j. bit (ws ! (q div 32)) (q mod 32))"
proof (induction ws arbitrary: i)
  case Nil
  then show ?case by simp
next
  case (Cons w ws)
  show ?case
  proof (cases "w = 0xFFFFFFFF")
    case True
    then have "pmm_scan ws (Suc i) = Some page" using Cons.prems by simp
    from Cons.IH [OF this] obtain k j where kj: "k < length ws" "j < 32"
      "page = of_nat (Suc i + k) * 32 + of_nat j" "\<not> bit (ws ! k) j"
      "\<forall>q < 32 * k + j. bit (ws ! (q div 32)) (q mod 32)"
      by blast
    have "bit ((w # ws) ! (q div 32)) (q mod 32)" if "q < 32 * Suc k + j" for q
    proof (cases "q < 32")
      case True
      then show ?thesis using \<open>w = 0xFFFFFFFF\<close> full_word_iff [of w] by simp
    next
      case False
      then have "q = 32 + (q - 32)" by simp
      then obtain r where "q = 32 + r" by blast
      moreover have "(32 + r) div 32 = Suc (r div 32)" by presburger
      ultimately show ?thesis using kj(5) that by simp
    qed
    with kj show ?thesis by (intro exI [of _ "Suc k"] exI [of _ j]) simp
  next
    case False
    with Cons.prems obtain j where "first_clear_bit w = Some j" "page = of_nat i * 32 + of_nat j"
      by (auto simp: first_clear_bit_None split: option.splits)
    then show ?thesis
      by (intro exI [of _ 0] exI [of _ j]) (auto simp: first_clear_bit_Some)
  qed
qed


section \<open>Allocation and release under the invariant\<close>

lemma pmm_wf_in_range:
  "pmm_wf s \<Longrightarrow> p < unat (total_pages s) \<Longrightarrow> p div 32 < length (bitmap s)"
  by (auto simp: pmm_wf_def)

text \<open>The page number that the scan computes does not wrap.\<close>

lemma unat_page_number:
  "k < 2 ^ 16 \<Longrightarrow> j < 32 \<Longrightarrow> unat (of_nat k * 32 + of_nat j :: u32) = 32 * k + j"
proof -
  assume "k < 2 ^ 16" "j < 32"
  then have "unat (of_nat (32 * k + j) :: u32) = 32 * k + j"
    by (intro unat_of_nat_small) simp
  then show ?thesis by (simp add: mult.commute)
qed

lemma pmm_scan_least:
  assumes "pmm_wf s" and "pmm_scan (bitmap s) 0 = Some page"
  shows "unat page div 32 < length (bitmap s)" and "\<not> page_used s (unat page)"
    and "\<forall>q < unat page. page_used s q"
proof -
  obtain k j where kj: "k < length (bitmap s)" "j < 32" "page = of_nat k * 32 + of_nat j"
    "\<not> bit (bitmap s ! k) j" "\<forall>q < 32 * k + j. bit (bitmap s ! (q div 32)) (q mod 32)"
    using pmm_scan_Some [OF assms(2)] by auto
  have "unat (total_pages s) \<le> 2 ^ 20" and "length (bitmap s) = (unat (total_pages s) + 31) div 32"
    using assms(1) by (simp_all add: pmm_wf_def)
  then have "k < 65536" using kj(1) by simp
  then have "k < 2 ^ 16" by simp
  then have u: "unat page = 32 * k + j" using kj(2,3) unat_page_number by simp
  with kj show "unat page div 32 < length (bitmap s)" and "\<not> page_used s (unat page)"
    and "\<forall>q < unat page. page_used s q"
    by (auto simp: page_used_def)
qed

lemma free_set_take:
  assumes "unat p div 32 < length (bitmap s)"
  shows "free_set (s\<lparr>bitmap := bitmap_set (bitmap s) p, free_pages := n\<rparr>) = free_set s - {unat p}"
  using assms by (auto simp: free_set_def page_used_def bitmap_set_bit)

lemma free_set_give:
  assumes "unat p div 32 < length (bitmap s)" and "p < total_pages s"
  shows "free_set (s\<lparr>bitmap := bitmap_clear (bitmap s) p, free_pages := n\<rparr>) = insert (unat p) (free_set s)"
  using assms by (auto simp: free_set_def page_used_def bitmap_clear_bit word_less_nat_alt)

lemma unat_pred: "0 < (w :: u32) \<Longrightarrow> unat (w - 1) = unat w - 1"
  by (metis unat_minus_one word_gt_0)

lemma pmm_wf_take:
  assumes "pmm_wf s" and "unat p \<in> free_set s"
  shows "pmm_wf (s\<lparr>bitmap := bitmap_set (bitmap s) p,
           free_pages := (if free_pages s > 0 then free_pages s - 1 else free_pages s)\<rparr>)"
proof -
  have r: "unat p div 32 < length (bitmap s)"
    using assms pmm_wf_in_range by (auto simp: free_set_def)
  have c: "card (free_set s) = unat (free_pages s)" using assms(1) by (simp add: pmm_wf_def)
  with assms(2) have "0 < free_pages s"
    by (metis card_gt_0_iff empty_iff free_set_finite word_gt_0 unat_0 less_irrefl)
  then have "unat (free_pages s - 1) = card (free_set s - {unat p})"
    using assms(2) c by (simp add: unat_pred card_Diff_singleton)
  then show ?thesis using assms(1) r \<open>0 < free_pages s\<close>
    by (auto simp: pmm_wf_def free_set_take page_used_def bitmap_set_bit)
qed

lemma pmm_wf_give:
  assumes "pmm_wf s" and "p < total_pages s" and "page_used s (unat p)"
  shows "pmm_wf (s\<lparr>bitmap := bitmap_clear (bitmap s) p, free_pages := free_pages s + 1\<rparr>)"
proof -
  have r: "unat p div 32 < length (bitmap s)"
    using assms pmm_wf_in_range by (simp add: word_less_nat_alt)
  have "card (free_set s) \<le> unat (total_pages s)"
    using card_mono [of "{..<unat (total_pages s)}" "free_set s"] by (auto simp: free_set_def)
  then have "unat (free_pages s) + 1 < 2 ^ 32" using assms(1) by (simp add: pmm_wf_def)
  then have "unat (free_pages s + 1) = card (free_set s) + 1"
    using unat_Suc_small [of "free_pages s" 1] assms(1) by (simp add: pmm_wf_def)
  moreover have "unat p \<notin> free_set s" using assms(3) by (simp add: free_set_def)
  ultimately show ?thesis using assms r
    by (auto simp: pmm_wf_def free_set_give page_used_def bitmap_clear_bit word_less_nat_alt)
qed

lemma unat_mult_page: "p < 2 ^ 20 \<Longrightarrow> unat (of_nat p * PAGE_SIZE) = p * 4096"
proof -
  assume "p < 2 ^ 20"
  then have "unat (of_nat (p * 4096) :: u32) = p * 4096" by (intro unat_of_nat_small) simp
  then show ?thesis by simp
qed

lemma page_address_inj: "p < 2 ^ 20 \<Longrightarrow> q < 2 ^ 20 \<Longrightarrow>
  of_nat p * PAGE_SIZE = of_nat q * PAGE_SIZE \<longleftrightarrow> p = q"
  by (metis mult_cancel2 unat_mult_page zero_neq_numeral)

lemma page_offset_mask: "(a :: u32) AND 0xFFF = take_bit 12 a"
proof -
  have "(0xFFF :: u32) = mask 12" by (simp add: mask_eq_exp_minus_1)
  then show ?thesis by (simp add: take_bit_eq_mask)
qed

lemma page_aligned: "(of_nat p * PAGE_SIZE) AND 0xFFF = 0"
proof -
  have "take_bit 12 (push_bit 12 (of_nat p :: u32)) = 0" by (simp add: take_bit_push_bit)
  then show ?thesis by (simp add: page_offset_mask push_bit_eq_mult)
qed

lemma free_set_less: "pmm_wf s \<Longrightarrow> p \<in> free_set s \<Longrightarrow> p < 2 ^ 20"
  by (auto simp: pmm_wf_def free_set_def)

lemma pmm_alloc_page_cases:
  assumes "pmm_inv s"
  obtains "free_set s = {}" and "pmm_alloc_page s = (0, s)"
  | p s' where "p \<in> free_set s" "\<forall>q \<in> free_set s. p \<le> q" "p \<noteq> 0" "p < 2 ^ 20"
      "pmm_alloc_page s = (of_nat p * PAGE_SIZE, s')" "free_set s' = free_set s - {p}"
      "total_pages s' = total_pages s" "pmm_inv s'"
proof (cases "pmm_scan (bitmap s) 0")
  case None
  have wf: "pmm_wf s" using assms by (simp add: pmm_inv_def)
  have "page_used s p" if "p < unat (total_pages s)" for p
  proof -
    have "bitmap s ! (p div 32) = 0xFFFFFFFF"
      using None pmm_wf_in_range [OF wf that] by (simp add: pmm_scan_None_iff)
    then show ?thesis using full_word_iff [of "bitmap s ! (p div 32)"] by (simp add: page_used_def)
  qed
  then have "free_set s = {}" by (auto simp: free_set_def)
  with None that(1) show ?thesis by (simp add: pmm_alloc_page_def)
next
  case (Some page)
  have wf: "pmm_wf s" using assms by (simp add: pmm_inv_def)
  note least = pmm_scan_least [OF wf Some]
  show ?thesis
  proof (cases "page \<ge> total_pages s")
    case True
    then have "free_set s = {}" using least(3) by (auto simp: free_set_def word_le_nat_alt)
    with Some True that(1) show ?thesis by (simp add: pmm_alloc_page_def)
  next
    case False
    then have p: "unat page \<in> free_set s"
      using least(2) by (simp add: free_set_def not_le word_less_nat_alt)
    define s' where "s' = s\<lparr>bitmap := bitmap_set (bitmap s) page,
      free_pages := (if free_pages s > 0 then free_pages s - 1 else free_pages s)\<rparr>"
    have fs: "free_set s' = free_set s - {unat page}"
      using least(1) by (simp add: s'_def free_set_take)
    have min: "\<forall>q \<in> free_set s. unat page \<le> q" using least(3) by (auto simp: free_set_def intro: leI)
    have a: "pmm_alloc_page s = (of_nat (unat page) * PAGE_SIZE, s')"
      using Some False by (simp add: pmm_alloc_page_def s'_def)
    have nz: "unat page \<noteq> 0" using p assms unfolding pmm_inv_def by metis
    have inv: "pmm_inv s'"
      using pmm_wf_take [OF wf p] fs assms by (simp add: pmm_inv_def s'_def)
    show ?thesis
      by (rule that(2) [OF p min nz free_set_less [OF wf p] a fs _ inv]) (simp add: s'_def)
  qed
qed

section \<open>The contract of a page allocator\<close>

text \<open>
  What the callers of \<open>pmm_alloc_page\<close> rely on (the heap, the page tables, the task stacks, the
  process loader): a non-zero result is a frame that was free, is page aligned and is free no
  longer; 0 means that nothing is free.
\<close>

locale frame_allocator =
  fixes alloc :: "'s \<Rightarrow> u32 \<times> 's" and frames :: "'s \<Rightarrow> u32 set" and inv :: "'s \<Rightarrow> bool"
  assumes alloc_inv: "inv s \<Longrightarrow> alloc s = (a, s') \<Longrightarrow> inv s'"
    and alloc_fail: "inv s \<Longrightarrow> alloc s = (0, s') \<Longrightarrow> s' = s \<and> frames s = {}"
    and alloc_take: "inv s \<Longrightarrow> alloc s = (a, s') \<Longrightarrow> a \<noteq> 0 \<Longrightarrow>
          a \<in> frames s \<and> frames s' = frames s - {a}"
    and frames_aligned: "inv s \<Longrightarrow> a \<in> frames s \<Longrightarrow> a AND 0xFFF = 0 \<and> a \<noteq> 0"
    and frames_finite: "inv s \<Longrightarrow> finite (frames s)"
begin

lemma alloc_frames: "inv s \<Longrightarrow> alloc s = (a, s') \<Longrightarrow> frames s' = frames s - {a}"
  using alloc_fail [of s s'] alloc_take [of s a s'] by (cases "a = 0") auto

lemma alloc_pages_inv: "inv s \<Longrightarrow> alloc_pages alloc n s = (as, s') \<Longrightarrow> inv s'"
  by (induction n arbitrary: s as s') (auto split: prod.splits dest: alloc_inv)

lemma alloc_pages_frames:
  "inv s \<Longrightarrow> alloc_pages alloc n s = (as, s') \<Longrightarrow> frames s' = frames s - set as \<and> length as = n"
proof (induction n arbitrary: s as s')
  case 0
  then show ?case by simp
next
  case (Suc n)
  then obtain a t bs where a: "alloc s = (a, t)" and bs: "alloc_pages alloc n t = (bs, s')"
    and as: "as = a # bs" by (auto split: prod.splits)
  from Suc.IH [OF alloc_inv [OF Suc.prems(1) a] bs] alloc_frames [OF Suc.prems(1) a] as
  show ?case by auto
qed

lemma alloc_pages_fresh:
  "inv s \<Longrightarrow> alloc_pages alloc n s = (as, s') \<Longrightarrow>
   set as - {0} \<subseteq> frames s \<and> distinct (filter (\<lambda>a. a \<noteq> 0) as)"
proof (induction n arbitrary: s as s')
  case 0
  then show ?case by simp
next
  case (Suc n)
  then obtain a t bs where a: "alloc s = (a, t)" and bs: "alloc_pages alloc n t = (bs, s')"
    and as: "as = a # bs" by (auto split: prod.splits)
  have t: "inv t" using alloc_inv [OF Suc.prems(1) a] .
  from Suc.IH [OF t bs] alloc_frames [OF Suc.prems(1) a] alloc_take [OF Suc.prems(1) a] as
  show ?case by auto
qed

lemma alloc_pages_complete:
  assumes "inv s" and "alloc_pages alloc n s = (as, s')" and "n \<le> card (frames s)"
  shows "0 \<notin> set as"
  using assms
proof (induction n arbitrary: s as s')
  case 0
  then show ?case by simp
next
  case (Suc n)
  then obtain a t bs where a: "alloc s = (a, t)" and bs: "alloc_pages alloc n t = (bs, s')"
    and as: "as = a # bs" by (auto split: prod.splits)
  have "a \<noteq> 0"
  proof
    assume "a = 0"
    then have "frames s = {}" using alloc_fail [OF Suc.prems(1)] a by simp
    then show False using Suc.prems(3) by simp
  qed
  have t: "inv t" using alloc_inv [OF Suc.prems(1) a] .
  have "n \<le> card (frames t)"
    using alloc_take [OF Suc.prems(1) a \<open>a \<noteq> 0\<close>] Suc.prems(3) frames_finite [OF Suc.prems(1)]
    by (simp add: card_Diff_singleton)
  from Suc.IH [OF t bs this] \<open>a \<noteq> 0\<close> as show ?case by simp
qed

end

lemma inj_on_page_address: "pmm_wf s \<Longrightarrow> inj_on (\<lambda>p. of_nat p * PAGE_SIZE) (free_set s)"
  by (intro inj_onI) (metis free_set_less page_address_inj)

lemma card_free_frames: "pmm_wf s \<Longrightarrow> card (free_frames s) = card (free_set s)"
  unfolding free_frames_def by (intro card_image inj_on_page_address)

lemma free_frames_remove:
  "pmm_wf s \<Longrightarrow> p \<in> free_set s \<Longrightarrow> free_set s' = free_set s - {p} \<Longrightarrow>
   free_frames s' = free_frames s - {of_nat p * PAGE_SIZE}"
  unfolding free_frames_def
  by (simp add: inj_on_image_set_diff [OF inj_on_page_address])

interpretation pmm_frames: frame_allocator pmm_alloc_page free_frames pmm_inv
proof unfold_locales
  fix s s' a
  assume inv: "pmm_inv s"
  show "pmm_inv s'" if "pmm_alloc_page s = (a, s')"
    using inv by (cases rule: pmm_alloc_page_cases) (use inv that in auto)
  show "s' = s \<and> free_frames s = {}" if "pmm_alloc_page s = (0, s')"
    using inv
  proof (cases rule: pmm_alloc_page_cases)
    case 1
    with that show ?thesis by (simp add: free_frames_def)
  next
    case (2 p t)
    then show ?thesis using that unat_mult_page [of p] by simp
  qed
  show "a \<in> free_frames s \<and> free_frames s' = free_frames s - {a}"
    if "pmm_alloc_page s = (a, s')" and "a \<noteq> 0"
    using inv
  proof (cases rule: pmm_alloc_page_cases)
    case 1
    with that show ?thesis by simp
  next
    case (2 p t)
    with that inv free_frames_remove [of s p s'] show ?thesis
      by (auto simp: free_frames_def pmm_inv_def)
  qed
  show "a AND 0xFFF = 0 \<and> a \<noteq> 0" if "a \<in> free_frames s"
  proof -
    from that obtain p where p: "p \<in> free_set s" "a = of_nat p * PAGE_SIZE"
      by (auto simp: free_frames_def)
    have "p \<noteq> 0" using inv p(1) unfolding pmm_inv_def by metis
    moreover have "p < 2 ^ 20" using inv p(1) free_set_less unfolding pmm_inv_def by metis
    ultimately show ?thesis using p unat_mult_page [of p] page_aligned [of p] by auto
  qed
  show "finite (free_frames s)" by (simp add: free_frames_def)
qed

section \<open>Releasing a page\<close>

lemma pmm_free_page_take:
  assumes "pmm_inv s" and "p < unat (total_pages s)" and "p \<notin> free_set s" and "p \<noteq> 0"
  shows "pmm_inv (pmm_free_page s (of_nat p * PAGE_SIZE))"
    and "free_set (pmm_free_page s (of_nat p * PAGE_SIZE)) = insert p (free_set s)"
proof -
  have wf: "pmm_wf s" using assms(1) by (simp add: pmm_inv_def)
  then have "p < 2 ^ 20" using assms(2) by (simp add: pmm_wf_def)
  then have "unat ((of_nat p * PAGE_SIZE) div PAGE_SIZE) = p"
    by (simp only: unat_div unat_mult_page) simp
  then obtain q where q: "(of_nat p * PAGE_SIZE) div PAGE_SIZE = q" "unat q = p" by blast
  have u: "page_used s p" using assms(2,3) by (simp add: free_set_def)
  define s' where "s' = s\<lparr>bitmap := bitmap_clear (bitmap s) q, free_pages := free_pages s + 1\<rparr>"
  have f: "pmm_free_page s (of_nat p * PAGE_SIZE) = s'"
    using q u assms(2)
    by (simp add: pmm_free_page_def s'_def bitmap_test_iff page_used_def word_less_nat_alt)
  have r: "unat q div 32 < length (bitmap s)" using wf assms(2) q pmm_wf_in_range by simp
  have fs: "free_set s' = insert p (free_set s)"
    using free_set_give [OF r] q assms(2) by (simp add: s'_def word_less_nat_alt)
  then show "free_set (pmm_free_page s (of_nat p * PAGE_SIZE)) = insert p (free_set s)"
    by (simp only: f)
  show "pmm_inv (pmm_free_page s (of_nat p * PAGE_SIZE))"
    using pmm_wf_give [OF wf, of q] q u assms(2,4) fs assms(1)
    unfolding f by (simp add: pmm_inv_def s'_def word_less_nat_alt)
qed

lemma pmm_free_page_ignored:
  "pmm_inv s \<Longrightarrow> unat (addr div PAGE_SIZE) \<in> free_set s \<or> total_pages s \<le> addr div PAGE_SIZE \<Longrightarrow>
   pmm_free_page s addr = s"
  by (auto simp: pmm_free_page_def bitmap_test_iff free_set_def page_used_def Let_def not_less)

section \<open>Initialisation\<close>

lemma pmm_release_wf:
  assumes "pmm_wf s"
  shows "pmm_wf (pmm_release s p) \<and> total_pages (pmm_release s p) = total_pages s"
  using assms pmm_wf_give [OF assms, of p]
  by (auto simp: pmm_release_def bitmap_test_iff page_used_def)

lemma fold_release_wf:
  "pmm_wf s \<Longrightarrow> pmm_wf (fold (\<lambda>p s. pmm_release s (f p)) ps s)
     \<and> total_pages (fold (\<lambda>p s. pmm_release s (f p)) ps s) = total_pages s"
  by (induction ps arbitrary: s) (auto simp: pmm_release_wf)

lemma mmap_release_wf:
  "pmm_wf s \<Longrightarrow> pmm_wf (mmap_release es s) \<and> total_pages (mmap_release es s) = total_pages s"
  by (induction es s rule: mmap_release.induct) (auto simp: fold_release_wf)

lemma fallback_fold_wf:
  assumes "pmm_wf s" and "free_set s = {}" and "lo + n \<le> unat (total_pages s)"
    and "t = fold (\<lambda>page s. s\<lparr>bitmap := bitmap_clear (bitmap s) (of_nat page),
                     free_pages := free_pages s + 1\<rparr>) [lo..<lo + n] s"
  shows "pmm_wf t \<and> total_pages t = total_pages s \<and> (\<forall>p \<ge> lo + n. p \<notin> free_set t)"
  using assms(3,4)
proof (induction n arbitrary: t)
    case 0
    then show ?case using assms by simp
  next
    case (Suc n)
    define u where "u = fold (\<lambda>page s. s\<lparr>bitmap := bitmap_clear (bitmap s) (of_nat page),
                       free_pages := free_pages s + 1\<rparr>) [lo..<lo + n] s"
    have IH: "pmm_wf u" "total_pages u = total_pages s" "\<forall>p \<ge> lo + n. p \<notin> free_set u"
      using Suc.IH [OF _ u_def] Suc.prems(1) by auto
    have m: "unat (of_nat (lo + n) :: u32) = lo + n"
      using Suc.prems(1) u32_unat_lt [of "total_pages s"] by (intro unat_of_nat_small) simp
    have lt: "lo + n < unat (total_pages u)" using Suc.prems(1) IH(2) by simp
    then have used: "page_used u (unat (of_nat (lo + n) :: u32))"
      using IH(3) m by (simp add: free_set_def)
    have r: "unat (of_nat (lo + n) :: u32) div 32 < length (bitmap u)"
      using pmm_wf_in_range [OF IH(1) lt] m by simp
    have less: "(of_nat (lo + n) :: u32) < total_pages u" using lt m by (simp add: word_less_nat_alt)
    have t: "t = u\<lparr>bitmap := bitmap_clear (bitmap u) (of_nat (lo + n)), free_pages := free_pages u + 1\<rparr>"
      using Suc.prems(2) by (simp add: u_def)
    have fs: "free_set t = insert (lo + n) (free_set u)"
      using free_set_give [OF r less] m unfolding t by simp
    have "pmm_wf t" unfolding t by (rule pmm_wf_give [OF IH(1) less used])
    moreover have "total_pages t = total_pages s" using IH(2) by (simp add: t)
    moreover have "\<forall>p \<ge> lo + Suc n. p \<notin> free_set t" using fs IH(3) by simp
    ultimately show ?case by blast
  qed

lemma fallback_release_wf:
  assumes "pmm_wf s" and "free_set s = {}"
  shows "pmm_wf (fallback_release s) \<and> total_pages (fallback_release s) = total_pages s"
proof (cases "256 \<le> unat (total_pages s)")
  case True
  then obtain n where "unat (total_pages s) = 256 + n" by (auto simp: le_iff_add)
  then show ?thesis
    using fallback_fold_wf [OF assms, of 256 n] by (simp add: fallback_release_def)
next
  case False
  with assms(1) show ?thesis by (simp add: fallback_release_def)
qed

lemma pmm_reserve_wf:
  assumes "pmm_wf s" and "pmm_reserve p s = Some s'"
  shows "pmm_wf s' \<and> free_set s' = free_set s - {unat p} \<and> total_pages s' = total_pages s"
proof (cases "bitmap_test (bitmap s) p")
  case True
  then show ?thesis
    using assms by (auto simp: pmm_reserve_def bitmap_test_iff free_set_def page_used_def split: if_splits)
next
  case False
  have r: "unat p div 32 < length (bitmap s)"
    using assms(2) by (simp add: pmm_reserve_def bitmap_in_range_def split: if_splits)
  have "\<not> page_used s (unat p)" using False by (simp add: bitmap_test_iff page_used_def)
  moreover from this have "unat p < unat (total_pages s)"
    using assms(1) r unfolding pmm_wf_def by (metis div_less_iff_less_mult mult.commute not_le zero_less_numeral)
  ultimately have p: "unat p \<in> free_set s" by (simp add: free_set_def)
  have "s' = s\<lparr>bitmap := bitmap_set (bitmap s) p,
           free_pages := (if free_pages s > 0 then free_pages s - 1 else free_pages s)\<rparr>"
    using assms(2) False by (simp add: pmm_reserve_def split: if_splits)
  with pmm_wf_take [OF assms(1) p] free_set_take [OF r] show ?thesis by simp
qed

lemma pmm_reserve_from_wf:
  "pmm_wf s \<Longrightarrow> unat p + n < 2 ^ 32 \<Longrightarrow> pmm_reserve_from n p s = Some s' \<Longrightarrow>
   pmm_wf s' \<and> free_set s' = free_set s - {unat p..<unat p + n} \<and> total_pages s' = total_pages s"
proof (induction n arbitrary: p s)
  case 0
  then show ?case by simp
next
  case (Suc n)
  then obtain t where t: "pmm_reserve p s = Some t" "pmm_reserve_from n (p + 1) t = Some s'"
    by (auto split: Option.bind_splits)
  have p: "unat (p + 1) = Suc (unat p)" using unat_Suc_small [of p 1] Suc.prems(2) by simp
  note one = pmm_reserve_wf [OF Suc.prems(1) t(1)]
  have "pmm_wf s' \<and> free_set s' = free_set t - {Suc (unat p)..<Suc (unat p) + n}
      \<and> total_pages s' = total_pages t"
    using Suc.IH [OF conjunct1 [OF one] _ t(2)] Suc.prems(2) by (simp add: p)
  moreover have "free_set s - {unat p..<unat p + Suc n} =
      free_set s - {unat p} - {Suc (unat p)..<Suc (unat p) + n}"
    by auto
  ultimately show ?case using one by argo
qed

lemma pmm_reserve_range_wf:
  assumes "pmm_wf s" and "unat hi < 2 ^ 20" and "pmm_reserve_range lo hi s = Some s'"
  shows "pmm_wf s' \<and> free_set s' = free_set s - {unat lo..unat hi} \<and> total_pages s' = total_pages s"
proof (cases "unat lo \<le> unat hi")
  case True
  then have "unat lo + (Suc (unat hi) - unat lo) = Suc (unat hi)" by simp
  moreover have "Suc (unat hi) < 2 ^ 32" using assms(2) by simp
  ultimately show ?thesis
    using pmm_reserve_from_wf [OF assms(1) _ assms(3) [unfolded pmm_reserve_range_def]]
    by (simp add: atLeastLessThanSuc_atLeastAtMost)
next
  case False
  then have "Suc (unat hi) - unat lo = 0" by simp
  then show ?thesis using assms False by (auto simp: pmm_reserve_range_def)
qed

lemma unat_div_page: "unat (a div PAGE_SIZE) < 2 ^ 20"
  using u32_unat_lt [of a] by (simp add: unat_div)

lemma pmm_init_start_wf:
  assumes "tot = max_addr div PAGE_SIZE"
    and s: "s = \<lparr>bitmap = replicate (unat ((tot + 31) div 32)) 0xFFFFFFFF,
                 total_pages = tot, free_pages = 0\<rparr>"
  shows "pmm_wf s"
    and "free_set s = {}"
proof -
  have t: "unat tot < 2 ^ 20" using assms unat_div_page by simp
  then have "unat (tot + 31) = unat tot + 31" using unat_Suc_small [of tot 31] by simp
  then have len: "length (bitmap s) = (unat tot + 31) div 32" by (simp add: s)
  have used: "page_used s p" if "p div 32 < length (bitmap s)" for p
    using that full_word_iff [of "0xFFFFFFFF"] by (simp add: page_used_def s)
  have "p div 32 < length (bitmap s)" if "p < unat tot" for p
    using that len by linarith
  with used show fs: "free_set s = {}" by (auto simp: free_set_def s)
  have "page_used s p" if "p < 32 * length (bitmap s)" for p
    using that by (intro used) (simp add: less_mult_imp_div_less mult.commute)
  then show "pmm_wf s" using t len fs by (simp add: pmm_wf_def s)
qed

lemma pmm_reserve_from_defined:
  "unat p + n \<le> 32 * length (bitmap s) \<Longrightarrow> unat p + n < 2 ^ 32 \<Longrightarrow>
   \<exists>s'. pmm_reserve_from n p s = Some s' \<and> length (bitmap s') = length (bitmap s)"
proof (induction n arbitrary: p s)
  case 0
  then show ?case by simp
next
  case (Suc n)
  have "unat p div 32 < length (bitmap s)"
    using Suc.prems(1) by (intro less_mult_imp_div_less) simp
  then have "\<exists>t. pmm_reserve p s = Some t \<and> length (bitmap t) = length (bitmap s)"
    by (cases "bitmap_test (bitmap s) p") (simp_all add: pmm_reserve_def bitmap_in_range_def)
  then obtain t where t: "pmm_reserve p s = Some t" "length (bitmap t) = length (bitmap s)" by blast
  have p: "unat (p + 1) = Suc (unat p)" using unat_Suc_small [of p 1] Suc.prems(2) by simp
  have "\<exists>s'. pmm_reserve_from n (p + 1) t = Some s' \<and> length (bitmap s') = length (bitmap t)"
    using Suc.prems p t(2) by (intro Suc.IH) simp_all
  with t show ?case by auto
qed

lemma pmm_reserve_range_defined:
  assumes "unat hi < 32 * length (bitmap s)" and bm: "length (bitmap s) \<le> 2 ^ 15"
  shows "\<exists>s'. pmm_reserve_range lo hi s = Some s' \<and> length (bitmap s') = length (bitmap s)"
proof (cases "unat lo \<le> Suc (unat hi)")
  case True
  then have "unat lo + (Suc (unat hi) - unat lo) = Suc (unat hi)" by simp
  moreover have "Suc (unat hi) < 2 ^ 32"
  proof (rule ccontr)
    assume "\<not> Suc (unat hi) < 2 ^ 32"
    then have "unat hi = 4294967295" using u32_unat_lt [of hi] by simp
    then show False using assms bm by simp
  qed
  ultimately show ?thesis
    using pmm_reserve_from_defined [of lo "Suc (unat hi) - unat lo" s] assms
    by (simp add: pmm_reserve_range_def)
next
  case False
  then have "Suc (unat hi) - unat lo = 0" by simp
  then show ?thesis by (simp add: pmm_reserve_range_def)
qed

section \<open>Properties\<close>

lemma pmm_example_inv: "pmm_inv \<lparr>bitmap = [0xFFFFFFFD], total_pages = 8, free_pages = 1\<rparr>"
proof -
  let ?s = "\<lparr>bitmap = [0xFFFFFFFD], total_pages = 8, free_pages = 1\<rparr>"
  have "bit (0xFFFFFFFD :: u32) p \<longleftrightarrow> p \<noteq> 1" if "p < 32" for p
    using that by (auto simp: less_Suc_eq numeral_eq_Suc)
  then have used: "page_used ?s p \<longleftrightarrow> p \<noteq> 1" if "p < 32" for p
    using that by (simp add: page_used_def)
  then have "free_set ?s = {1}" by (auto simp: free_set_def)
  with used show ?thesis by (auto simp: pmm_inv_def pmm_wf_def)
qed

text \<open>C1: in a well-formed manager \<open>pmm_alloc_page\<close> returns the lowest free frame, page aligned,
  takes exactly that frame out of the free set and the free count, and returns 0 exactly when no
  frame is free, without changing anything; the invariant is kept.\<close>

theorem pmm_alloc_page_correct:
  assumes "pmm_inv s" and "pmm_alloc_page s = (a, s')"
  shows "pmm_inv s' \<and>
    (if a = 0 then free_frames s = {} \<and> s' = s
     else a \<in> free_frames s \<and> a AND 0xFFF = 0 \<and> (\<forall>b \<in> free_frames s. a \<le> b)
        \<and> free_frames s' = free_frames s - {a}
        \<and> unat (free_pages s) = Suc (unat (free_pages s')))"
  using assms(1)
proof (cases rule: pmm_alloc_page_cases)
  case 1
  with assms show ?thesis by (simp add: free_frames_def)
next
  case (2 p t)
  with assms(2) have a: "a = of_nat p * PAGE_SIZE" "s' = t" by auto
  have wf: "pmm_wf s" "pmm_wf s'" using assms(1) 2 a by (simp_all add: pmm_inv_def)
  have "a \<noteq> 0" using unat_mult_page [OF 2(4)] 2(3) a by auto
  moreover have "a \<le> b" if "b \<in> free_frames s" for b
  proof -
    obtain q where q: "q \<in> free_set s" "b = of_nat q * PAGE_SIZE"
      using \<open>b \<in> free_frames s\<close> by (auto simp: free_frames_def)
    then show ?thesis
      using 2(2,4) unat_mult_page free_set_less [OF wf(1) q(1)] a by (simp add: word_le_nat_alt)
  qed
  moreover have "card (free_set s) = Suc (card (free_set s'))"
    using 2(1,6) a by (metis card.remove free_set_finite)
  ultimately show ?thesis
    using 2 a wf pmm_frames.alloc_take [OF assms] pmm_frames.frames_aligned [OF assms(1), of a]
    by (auto simp: pmm_wf_def)
qed

theorem pmm_alloc_page_correct_witness:
  "snd (pmm_alloc_page \<lparr>bitmap = [0xFFFFFFFD], total_pages = 8, free_pages = 1\<rparr>)
    = \<lparr>bitmap = [0xFFFFFFFF], total_pages = 8, free_pages = 0\<rparr>
   \<and> pmm_inv \<lparr>bitmap = [0xFFFFFFFF], total_pages = 8, free_pages = 0\<rparr>"
proof -
  let ?s = "\<lparr>bitmap = [0xFFFFFFFD], total_pages = 8, free_pages = 1\<rparr>"
  have "pmm_alloc_page ?s = (4096, \<lparr>bitmap = [0xFFFFFFFF], total_pages = 8, free_pages = 0\<rparr>)"
    by code_simp
  with pmm_alloc_page_correct [OF pmm_example_inv this] show ?thesis by simp
qed

lemma free_frames_page:
  "pmm_inv s \<Longrightarrow> a \<in> free_frames s \<Longrightarrow>
   \<exists>p. p \<in> free_set s \<and> a = of_nat p * PAGE_SIZE \<and> p \<noteq> 0 \<and> p < 2 ^ 20"
  unfolding free_frames_def pmm_inv_def by (metis (no_types, lifting) free_set_less imageE)

lemma pmm_ext:
  "length (bitmap s) = length (bitmap t) \<Longrightarrow> total_pages s = total_pages t \<Longrightarrow>
   free_pages s = free_pages t \<Longrightarrow> (\<And>i k. i < length (bitmap s) \<Longrightarrow> k < 32 \<Longrightarrow>
     bit (bitmap s ! i) k = bit (bitmap t ! i) k) \<Longrightarrow> s = (t :: pmm)"
  by (cases s; cases t) (auto intro!: nth_equalityI bit_word_eqI)

lemma pmm_eq_free_set:
  assumes "pmm_wf s" "pmm_wf t" "total_pages s = total_pages t" "free_set s = free_set t"
  shows "s = t"
proof (rule pmm_ext)
  show "length (bitmap s) = length (bitmap t)" using assms by (simp add: pmm_wf_def)
  show "total_pages s = total_pages t" by fact
  show "free_pages s = free_pages t" using assms by (simp add: pmm_wf_def word_eq_unat_iff)
  fix i k :: nat
  assume i: "i < length (bitmap s)" "k < 32"
  define p where "p = 32 * i + k"
  have p: "p div 32 = i" "p mod 32 = k" "p < 32 * length (bitmap s)" using i by (simp_all add: p_def)
  have "page_used s p = page_used t p"
  proof (cases "p < unat (total_pages s)")
    case True
    then have "page_used s p \<longleftrightarrow> p \<notin> free_set s" "page_used t p \<longleftrightarrow> p \<notin> free_set t"
      using assms(3) by (simp_all add: free_set_def)
    then show ?thesis using assms(4) by simp
  next
    case False
    then show ?thesis using assms p by (simp add: pmm_wf_def)
  qed
  then show "bit (bitmap s ! i) k = bit (bitmap t ! i) k" by (simp add: page_used_def p)
qed

text \<open>Giving back a page that was just allocated restores the manager exactly: bitmap, count
  and free set are those before the allocation.  A second release of the same page is ignored.\<close>

theorem pmm_free_alloc_roundtrip:
  assumes "pmm_inv s" and "pmm_alloc_page s = (a, s')" and "a \<noteq> 0"
  shows "pmm_free_page s' a = s \<and> pmm_free_page (pmm_free_page s' a) a = s"
  using assms(1)
proof (cases rule: pmm_alloc_page_cases)
  case 1
  with assms show ?thesis by simp
next
  case (2 p t)
  with assms(2) have a: "a = of_nat p * PAGE_SIZE" "s' = t" by auto
  have tot: "total_pages s' = total_pages s"
    using assms(2,3) by (auto simp: pmm_alloc_page_def split: option.splits if_splits)
  have p: "p < unat (total_pages s')" "p \<notin> free_set s'" "p \<noteq> 0" "pmm_inv s'"
    using 2 a tot by (auto simp: free_set_def)
  have "free_set (pmm_free_page s' a) = free_set s"
    using pmm_free_page_take(2) [OF p(4,1,2,3)] 2 a by auto
  moreover have "pmm_wf (pmm_free_page s' a)"
    using pmm_free_page_take(1) [OF p(4,1,2,3)] a by (simp add: pmm_inv_def)
  moreover have "total_pages (pmm_free_page s' a) = total_pages s"
    using tot by (simp add: pmm_free_page_def Let_def)
  ultimately have one: "pmm_free_page s' a = s"
    using assms(1) pmm_eq_free_set pmm_inv_def by metis
  have "unat (a div PAGE_SIZE) = p"
    using 2(4) by (simp only: a unat_div unat_mult_page) simp
  then have "pmm_free_page s a = s"
    using pmm_free_page_ignored [OF assms(1), of a] 2(1) by simp
  with one show ?thesis by simp
qed

theorem pmm_free_alloc_roundtrip_witness:
  "pmm_free_page (snd (pmm_alloc_page \<lparr>bitmap = [0xFFFFFFFD], total_pages = 8, free_pages = 1\<rparr>)) 4096
     = \<lparr>bitmap = [0xFFFFFFFD], total_pages = 8, free_pages = 1\<rparr>"
proof -
  let ?s = "\<lparr>bitmap = [0xFFFFFFFD], total_pages = 8, free_pages = 1\<rparr>"
  have "pmm_alloc_page ?s = (4096, snd (pmm_alloc_page ?s))" by code_simp
  with pmm_free_alloc_roundtrip [OF pmm_example_inv this] show ?thesis by simp
qed

text \<open>When the memory map can be walked, and the kernel image and the bitmap behind it lie
  below the top of memory, \<open>pmm_init\<close> touches nothing outside the bitmap and sets up a manager that satisfies the
  invariant, covers \<open>max_addr / 4096\<close> pages, and does not hand out page 0, a page of
  the kernel image or a page of the bitmap.\<close>

theorem pmm_init_correct:
  assumes "mmap_entries mem mbi = Some es"
    and "tot = pmm_max_addr es mbi div PAGE_SIZE"
    and "bitmap_pg = ALIGN_UP kernel_end PAGE_SIZE div PAGE_SIZE"
    and "end_pg = (ALIGN_UP kernel_end PAGE_SIZE + (tot + 31) div 32 * 4) div PAGE_SIZE"
    and "kernel_end div PAGE_SIZE < tot" and "end_pg < tot"
  shows "\<exists>s. pmm_init kernel_start kernel_end mem mbi = Some s \<and> pmm_inv s \<and> total_pages s = tot
    \<and> free_set s \<inter> ({0} \<union> {unat (kernel_start div PAGE_SIZE)..unat (kernel_end div PAGE_SIZE)}
                       \<union> {unat bitmap_pg..unat end_pg}) = {}"
proof -
  define s0 where "s0 = \<lparr>bitmap = replicate (unat ((tot + 31) div 32)) 0xFFFFFFFF,
                 total_pages = tot, free_pages = 0\<rparr>"
  define s1 where "s1 = (if mmap_present mbi then mmap_release es s0 else fallback_release s0)"
  note s0 = pmm_init_start_wf [OF assms(2) s0_def]
  have s1: "pmm_wf s1" "total_pages s1 = tot"
    using mmap_release_wf [OF s0(1), of es] fallback_release_wf [OF s0] by (simp_all add: s1_def s0_def)
  have tot: "unat tot < 2 ^ 20" "0 < unat tot"
    using assms(2,6) unat_div_page by (auto simp: word_less_nat_alt)
  then have len: "length (bitmap s1) = (unat tot + 31) div 32" "unat tot \<le> 32 * length (bitmap s1)"
    "length (bitmap s1) \<le> 2 ^ 15" using s1 by (simp_all add: pmm_wf_def)
  have "\<exists>s2. pmm_reserve 0 s1 = Some s2 \<and> length (bitmap s2) = length (bitmap s1)"
    using len tot by (cases "bitmap_test (bitmap s1) 0")
      (simp_all add: pmm_reserve_def bitmap_in_range_def)
  then obtain s2 where s2: "pmm_reserve 0 s1 = Some s2" "length (bitmap s2) = length (bitmap s1)"
    by blast
  note w2 = pmm_reserve_wf [OF s1(1) s2(1)]
  obtain s3 where s3: "pmm_reserve_range (kernel_start div PAGE_SIZE) (kernel_end div PAGE_SIZE) s2
      = Some s3" "length (bitmap s3) = length (bitmap s2)"
    using pmm_reserve_range_defined [of "kernel_end div PAGE_SIZE" s2] assms(5) s2 len
    by (auto simp: word_less_nat_alt)
  note w3 = pmm_reserve_range_wf [OF conjunct1 [OF w2] unat_div_page s3(1)]
  obtain s4 where s4: "pmm_reserve_range bitmap_pg end_pg s3 = Some s4"
    using pmm_reserve_range_defined [of end_pg s3 bitmap_pg] assms(6) s2 s3 len
    by (auto simp: word_less_nat_alt)
  have e: "unat end_pg < 2 ^ 20" using assms(4) unat_div_page by simp
  note w4 = pmm_reserve_range_wf [OF conjunct1 [OF w3] e s4]
  have "pmm_init kernel_start kernel_end mem mbi = Some s4"
    using s2(1) s3(1) s4 unfolding pmm_init_def assms(1) Let_def s1_def s0_def assms(3,4)
    by (simp add: assms(2) [symmetric] del: unat_div_32 split: if_splits)
  with w2 w3 w4 s1 show ?thesis by (auto simp: pmm_inv_def)
qed

theorem pmm_init_correct_witness:
  "\<exists>s. pmm_init 0x100000 0x110000 (\<lambda>_. undefined) None = Some s \<and> pmm_inv s \<and> total_pages s = 4096
     \<and> free_set s \<inter> ({0} \<union> {256..272} \<union> {272..272}) = {}"
proof -
  have 1: "mmap_entries (\<lambda>_. undefined) None = Some []" by (simp add: mmap_entries_def)
  have 2: "(4096 :: u32) = pmm_max_addr [] None div PAGE_SIZE"
    by (simp add: pmm_max_addr_def mmap_present_def)
  have 3: "(272 :: u32) = ALIGN_UP 0x110000 PAGE_SIZE div PAGE_SIZE" by code_simp
  have 4: "(272 :: u32) = (ALIGN_UP 0x110000 PAGE_SIZE + (4096 + 31) div 32 * 4) div PAGE_SIZE"
    by code_simp
  have 5: "(0x110000 :: u32) div PAGE_SIZE < 4096" "(272 :: u32) < 4096" by simp_all
  have 6: "unat ((0x100000 :: u32) div PAGE_SIZE) = 256" "unat ((0x110000 :: u32) div PAGE_SIZE) = 272"
    "unat (272 :: u32) = 272"
    by simp_all
  show ?thesis
    using pmm_init_correct [OF 1 2 3 4 5, of "0x100000"] unfolding 6 by blast
qed

end
