(* ===== verification/Virt_Memory.thy ===== *)
theory Virt_Memory
  imports Phys_Memory
begin

text \<open>
  The virtual memory manager, \<^verbatim>\<open>mm/vmm.c\<close>: two-level x86 page tables.  Physical memory is a
  store of 32-bit words indexed by their byte address; the page directory and the page tables
  are frames of it, obtained from the physical memory manager.  The code reaches the frames by
  their physical address, so the model has it run on memory that is identity mapped (the first
  4 MB, from which the frame allocator hands out the lowest frames first).

  The machine state the code touches is modelled too: \<^verbatim>\<open>cr3\<close>, \<^verbatim>\<open>cr0\<close> and the translation
  buffer that \<^verbatim>\<open>invlpg\<close> and a load of \<^verbatim>\<open>cr3\<close> invalidate.
\<close>

record vm =
  mem :: "u32 \<Rightarrow> u32"
  page_directory :: u32
  phys_mgr :: pmm
  cr3 :: u32
  cr0 :: u32
  tlb :: "u32 \<rightharpoonup> u32"

abbreviation VMM_PRESENT :: u32 where "VMM_PRESENT \<equiv> 1"
abbreviation VMM_WRITABLE :: u32 where "VMM_WRITABLE \<equiv> 2"
abbreviation VMM_USER :: u32 where "VMM_USER \<equiv> 4"

definition PAGE_DIR_INDEX :: "u32 \<Rightarrow> u32" where
  "PAGE_DIR_INDEX virt = drop_bit 22 virt AND 0x3FF"

definition PAGE_TBL_INDEX :: "u32 \<Rightarrow> u32" where
  "PAGE_TBL_INDEX virt = drop_bit 12 virt AND 0x3FF"

text \<open>The frame an entry points to, and the address of the entry \<open>i\<close> of a table.\<close>

definition entry_frame :: "u32 \<Rightarrow> u32" where
  "entry_frame e = e AND 0xFFFFF000"

definition entry_addr :: "u32 \<Rightarrow> u32 \<Rightarrow> u32" where
  "entry_addr table i = table + 4 * i"

text \<open>\<^verbatim>\<open>for (int i = 0; i < 1024; i++) table[i] = f(i);\<close>\<close>

definition fill_table :: "u32 \<Rightarrow> (u32 \<Rightarrow> u32) \<Rightarrow> (u32 \<Rightarrow> u32) \<Rightarrow> (u32 \<Rightarrow> u32)" where
  "fill_table table f m = fold (\<lambda>i m. m(entry_addr table (of_nat i) := f (of_nat i))) [0..<1024] m"

definition invlpg :: "u32 \<Rightarrow> vm \<Rightarrow> vm" where
  "invlpg virt s = s\<lparr>tlb := (tlb s)(drop_bit 12 virt := None)\<rparr>"

definition vmm_init :: "vm \<Rightarrow> vm" where
  "vmm_init s =
     (let (pd, p1) = pmm_alloc_page (phys_mgr s);
          m1 = fill_table pd (\<lambda>i. 0) (mem s);
          (first_pt, p2) = pmm_alloc_page p1;
          m2 = fill_table first_pt (\<lambda>i. (i * PAGE_SIZE) OR VMM_PRESENT OR VMM_WRITABLE) m1;
          m3 = m2(entry_addr pd 0 := first_pt OR VMM_PRESENT OR VMM_WRITABLE)
      in s\<lparr>mem := m3, page_directory := pd, phys_mgr := p2, cr3 := pd,
           cr0 := cr0 s OR 0x80000000, tlb := Map.empty\<rparr>)"

text \<open>The first half of \<open>vmm_map_page\<close>: the page table is created where the directory has none.\<close>

definition vmm_ensure_table :: "u32 \<Rightarrow> u32 \<Rightarrow> vm \<Rightarrow> vm" where
  "vmm_ensure_table pd_idx flags s =
     (let pde = entry_addr (page_directory s) pd_idx
      in if mem s pde AND VMM_PRESENT = 0
         then (let (new_pt, p) = pmm_alloc_page (phys_mgr s);
                   m = fill_table new_pt (\<lambda>i. 0) (mem s)
               in s\<lparr>phys_mgr := p,
                    mem := m(pde := new_pt OR VMM_PRESENT OR VMM_WRITABLE OR (flags AND VMM_USER))\<rparr>)
         else s)"

definition vmm_map_page :: "u32 \<Rightarrow> u32 \<Rightarrow> u32 \<Rightarrow> vm \<Rightarrow> vm" where
  "vmm_map_page virt phys flags s =
     (let pd_idx = PAGE_DIR_INDEX virt;
          pt_idx = PAGE_TBL_INDEX virt;
          s = vmm_ensure_table pd_idx flags s;
          pt = entry_frame (mem s (entry_addr (page_directory s) pd_idx));
          s = s\<lparr>mem := (mem s)(entry_addr pt pt_idx := (phys AND 0xFFFFF000) OR flags OR VMM_PRESENT)\<rparr>
      in invlpg virt s)"

definition vmm_unmap_page :: "u32 \<Rightarrow> vm \<Rightarrow> vm" where
  "vmm_unmap_page virt s =
     (let pde = mem s (entry_addr (page_directory s) (PAGE_DIR_INDEX virt))
      in if pde AND VMM_PRESENT \<noteq> 0
         then invlpg virt
           (s\<lparr>mem := (mem s)(entry_addr (entry_frame pde) (PAGE_TBL_INDEX virt) := 0)\<rparr>)
         else s)"

definition vmm_get_phys :: "u32 \<Rightarrow> vm \<Rightarrow> u32" where
  "vmm_get_phys virt s =
     (let pde = mem s (entry_addr (page_directory s) (PAGE_DIR_INDEX virt))
      in if pde AND VMM_PRESENT = 0 then 0
         else (let entry = mem s (entry_addr (entry_frame pde) (PAGE_TBL_INDEX virt))
               in if entry AND VMM_PRESENT = 0 then 0
                  else (entry AND 0xFFFFF000) OR (virt AND 0xFFF)))"

section \<open>Addresses of table entries\<close>

definition frame_aligned :: "u32 \<Rightarrow> bool" where
  "frame_aligned a \<longleftrightarrow> a AND 0xFFF = 0"

lemma frame_mask: "(a :: u32) AND 0xFFFFF000 = a AND NOT (mask 12)"
proof -
  have "(0xFFFFF000 :: u32) = NOT (mask 12)" by (simp add: mask_eq_exp_minus_1)
  then show ?thesis by simp
qed

lemma offset_mask: "(a :: u32) AND 0xFFF = a AND mask 12"
  by (simp add: page_offset_mask take_bit_eq_mask)

lemma entry_frame_aligned [simp]: "frame_aligned (entry_frame e)"
  by (simp add: frame_aligned_def entry_frame_def frame_mask offset_mask and.assoc)

lemma frame_aligned_unat: "frame_aligned a \<longleftrightarrow> unat a mod 4096 = 0"
  by (simp add: frame_aligned_def page_offset_mask word_eq_unat_iff unsigned_take_bit_eq
      take_bit_eq_mod unat_mod)

lemma unat_entry_addr:
  assumes "frame_aligned t" and "unat i < 1024"
  shows "unat (entry_addr t i) = unat t + 4 * unat i"
proof -
  have "unat t + 4 * unat i < 2 ^ 32"
  proof -
    obtain k where "unat t = 4096 * k" using assms(1) by (auto simp: frame_aligned_unat)
    then show ?thesis using assms(2) u32_unat_lt [of t] by simp
  qed
  moreover have "4 * i = of_nat (4 * unat i)" by simp
  ultimately show ?thesis unfolding entry_addr_def by (metis unat_Suc_small)
qed

lemma entry_addr_inj:
  assumes "frame_aligned t" "frame_aligned u" "unat i < 1024" "unat j < 1024"
  shows "entry_addr t i = entry_addr u j \<longleftrightarrow> t = u \<and> i = j"
proof
  assume "entry_addr t i = entry_addr u j"
  then have e: "unat t + 4 * unat i = unat u + 4 * unat j"
    using assms by (metis unat_entry_addr)
  obtain k l where k: "unat t = 4096 * k" and l: "unat u = 4096 * l"
    using assms(1,2) by (auto simp: frame_aligned_unat elim!: dvdE)
  from e have "1024 * k + unat i = 1024 * l + unat j" unfolding k l by linarith
  then have "(1024 * k + unat i) div 1024 = (1024 * l + unat j) div 1024" by simp
  then have "k = l" using assms(3,4) by simp
  with e k l have "unat t = unat u \<and> unat i = unat j" by simp
  then show "t = u \<and> i = j" by (simp add: word_eq_unat_iff)
qed simp

lemma unat_PAGE_DIR_INDEX: "unat (PAGE_DIR_INDEX v) = unat v div 2 ^ 22"
  and unat_PAGE_TBL_INDEX: "unat (PAGE_TBL_INDEX v) = unat v div 2 ^ 12 mod 1024"
proof -
  have m: "(0x3FF :: u32) = mask 10" by (simp add: mask_eq_exp_minus_1)
  show "unat (PAGE_TBL_INDEX v) = unat v div 2 ^ 12 mod 1024"
    by (simp add: PAGE_TBL_INDEX_def m take_bit_eq_mask [symmetric] unsigned_take_bit_eq
        take_bit_eq_mod unat_drop_bit_eq drop_bit_eq_div unat_div unat_mod)
  have "unat v div 2 ^ 22 mod 1024 = unat v div 2 ^ 22"
    using u32_unat_lt [of v] by simp
  then show "unat (PAGE_DIR_INDEX v) = unat v div 2 ^ 22"
    by (simp add: PAGE_DIR_INDEX_def m take_bit_eq_mask [symmetric] unsigned_take_bit_eq
        take_bit_eq_mod unat_drop_bit_eq drop_bit_eq_div unat_div unat_mod)
qed

lemma index_less [simp]: "unat (PAGE_DIR_INDEX v) < 1024" "unat (PAGE_TBL_INDEX v) < 1024"
  using u32_unat_lt [of v] by (simp_all add: unat_PAGE_DIR_INDEX unat_PAGE_TBL_INDEX)

lemma same_page_iff:
  "PAGE_DIR_INDEX v = PAGE_DIR_INDEX w \<and> PAGE_TBL_INDEX v = PAGE_TBL_INDEX w
   \<longleftrightarrow> drop_bit 12 v = drop_bit 12 w"
proof -
  have "drop_bit 12 v = drop_bit 12 w \<longleftrightarrow> unat v div 4096 = unat w div 4096"
    by (simp add: word_eq_unat_iff unat_drop_bit_eq drop_bit_eq_div unat_div)
  moreover have "a div 4096 = b div 4096 \<longleftrightarrow>
      a div 2 ^ 22 = b div 2 ^ 22 \<and> a div 2 ^ 12 mod 1024 = b div 2 ^ 12 mod 1024" for a b :: nat
  proof -
    have 1: "c div 2 ^ 22 = c div 4096 div 1024" for c :: nat by (simp add: div_mult2_eq [symmetric])
    have 2: "(2::nat) ^ 12 = 4096" by simp
    show ?thesis unfolding 1 2 by (metis div_mult_mod_eq)
  qed
  ultimately show ?thesis by (simp add: word_eq_unat_iff unat_PAGE_DIR_INDEX unat_PAGE_TBL_INDEX)
qed

section \<open>The tables as a store\<close>

lemma fill_table_entry:
  assumes "frame_aligned t" "frame_aligned u" "unat i < 1024"
  shows "fill_table t f m (entry_addr u i) = (if u = t then f i else m (entry_addr u i))"
proof -
  define F where "F n = fold (\<lambda>i m. m(entry_addr t (of_nat i) := f (of_nat i))) [0..<n] m" for n
  have step: "F (Suc n) = (F n)(entry_addr t (of_nat n) := f (of_nat n))" for n by (simp add: F_def)
  have "F n (entry_addr u i) = (if u = t \<and> unat i < n then f i else m (entry_addr u i))"
    if "n \<le> 1024" for n
    using that
  proof (induction n)
    case 0
    then show ?case by (simp add: F_def)
  next
    case (Suc n)
    have n: "unat (of_nat n :: u32) = n" using Suc.prems by (intro unat_of_nat_small) simp
    then have eq: "entry_addr u i = entry_addr t (of_nat n) \<longleftrightarrow> u = t \<and> i = of_nat n"
      using entry_addr_inj [of u t i "of_nat n"] assms Suc.prems by simp
    have i: "i = of_nat n \<longleftrightarrow> unat i = n" by (simp only: word_eq_unat_iff n)
    have IH: "F n (entry_addr u i) = (if u = t \<and> unat i < n then f i else m (entry_addr u i))"
      using Suc by (simp only: Suc_leD)
    show ?case
    proof (cases "u = t \<and> unat i = n")
      case True
      then have "f (of_nat n) = f i" using i by metis
      with True show ?thesis unfolding step fun_upd_apply eq i by (simp only: lessI simp_thms if_True)
    next
      case False
      then have "u = t \<and> unat i < Suc n \<longleftrightarrow> u = t \<and> unat i < n" using less_Suc_eq by blast
      with False show ?thesis unfolding step fun_upd_apply eq i IH by (simp only: if_False)
    qed
  qed
  from this [OF order_refl]
  have "fill_table t f m (entry_addr u i) = (if u = t \<and> unat i < 1024 then f i else m (entry_addr u i))"
    unfolding fill_table_def F_def .
  then show ?thesis by (simp only: assms(3) simp_thms)
qed

definition vmm_pde :: "vm \<Rightarrow> u32 \<Rightarrow> u32" where
  "vmm_pde s i = mem s (entry_addr (page_directory s) i)"

definition pde_present :: "vm \<Rightarrow> u32 \<Rightarrow> bool" where
  "pde_present s i \<longleftrightarrow> unat i < 1024 \<and> vmm_pde s i AND VMM_PRESENT \<noteq> 0"

text \<open>What the processor's table walk finds for an address, 0 where it finds no table.\<close>

definition vmm_pte :: "vm \<Rightarrow> u32 \<Rightarrow> u32" where
  "vmm_pte s v =
     (if pde_present s (PAGE_DIR_INDEX v)
      then mem s (entry_addr (entry_frame (vmm_pde s (PAGE_DIR_INDEX v))) (PAGE_TBL_INDEX v)) else 0)"

lemma vmm_get_phys_pte:
  "vmm_get_phys v s =
     (if vmm_pte s v AND VMM_PRESENT = 0 then 0 else (vmm_pte s v AND 0xFFFFF000) OR (v AND 0xFFF))"
  by (simp add: vmm_get_phys_def vmm_pte_def pde_present_def vmm_pde_def)

text \<open>
  The invariant: the directory and the tables its present entries point to are frames that the
  physical memory manager does not hand out again, all different from each other.
\<close>

definition vmm_inv :: "vm \<Rightarrow> bool" where
  "vmm_inv s \<longleftrightarrow> pmm_inv (phys_mgr s)
     \<and> frame_aligned (page_directory s) \<and> page_directory s \<notin> free_frames (phys_mgr s)
     \<and> (\<forall>i. pde_present s i \<longrightarrow> entry_frame (vmm_pde s i) \<noteq> page_directory s
              \<and> entry_frame (vmm_pde s i) \<notin> free_frames (phys_mgr s))
     \<and> (\<forall>i j. pde_present s i \<and> pde_present s j \<and> entry_frame (vmm_pde s i) = entry_frame (vmm_pde s j)
              \<longrightarrow> i = j)"

lemma vmm_invD:
  "vmm_inv s \<Longrightarrow> pde_present s i \<Longrightarrow> entry_frame (vmm_pde s i) \<noteq> page_directory s"
  "vmm_inv s \<Longrightarrow> pde_present s i \<Longrightarrow> entry_frame (vmm_pde s i) \<notin> free_frames (phys_mgr s)"
  "vmm_inv s \<Longrightarrow> pde_present s i \<Longrightarrow> pde_present s j \<Longrightarrow>
     entry_frame (vmm_pde s i) = entry_frame (vmm_pde s j) \<Longrightarrow> i = j"
  unfolding vmm_inv_def by blast+

lemma vmm_invI:
  "pmm_inv (phys_mgr s) \<Longrightarrow> frame_aligned (page_directory s) \<Longrightarrow>
   page_directory s \<notin> free_frames (phys_mgr s) \<Longrightarrow>
   (\<And>i. pde_present s i \<Longrightarrow> entry_frame (vmm_pde s i) \<noteq> page_directory s
       \<and> entry_frame (vmm_pde s i) \<notin> free_frames (phys_mgr s)) \<Longrightarrow>
   (\<And>i j. pde_present s i \<Longrightarrow> pde_present s j \<Longrightarrow>
       entry_frame (vmm_pde s i) = entry_frame (vmm_pde s j) \<Longrightarrow> i = j) \<Longrightarrow> vmm_inv s"
  unfolding vmm_inv_def by blast

lemma free_frame_aligned: "pmm_inv p \<Longrightarrow> a \<in> free_frames p \<Longrightarrow> frame_aligned a"
  using pmm_frames.frames_aligned [of p a] by (simp add: frame_aligned_def)

lemma or_one_present: "((x :: u32) OR 1) AND 1 \<noteq> 0"
proof
  assume "(x OR 1) AND 1 = 0"
  then have "\<not> bit ((x OR 1) AND 1) 0" by (metis bit_0_eq bot_apply bot_bool_def)
  then show False by (simp add: bit_simps)
qed

lemma table_entry_masks:
  assumes "frame_aligned a"
  shows "entry_frame (a OR 1 OR 2 OR (flags AND 4)) = a"
    and "(a OR 1 OR 2 OR (flags AND 4)) AND 1 \<noteq> 0"
proof -
  have "a AND mask 12 = 0" using assms by (simp add: frame_aligned_def offset_mask)
  moreover have "a = (a AND mask 12) OR (a AND NOT (mask 12))"
    by (simp add: bit.conj_disj_distrib [symmetric])
  ultimately have a: "a AND NOT (mask 12) = a" by simp
  have "NOT (mask 12 :: u32) = 0xFFFFF000" by (simp add: mask_eq_exp_minus_1)
  then have z: "(1 :: u32) AND NOT (mask 12) = 0" "(2 :: u32) AND NOT (mask 12) = 0"
    "(4 :: u32) AND NOT (mask 12) = 0"
    by simp_all
  then have "(flags AND 4) AND NOT (mask 12) = 0" by (simp only: and.assoc) simp
  with a z show "entry_frame (a OR 1 OR 2 OR (flags AND 4)) = a"
    by (simp add: entry_frame_def frame_mask bit.conj_disj_distrib2)
  have "a OR 1 OR 2 OR (flags AND 4) = (a OR 2 OR (flags AND 4)) OR 1" by (simp add: or.assoc or.commute or.left_commute)
  then show "(a OR 1 OR 2 OR (flags AND 4)) AND 1 \<noteq> 0" by (simp only: or_one_present not_False_eq_True)
qed

lemma vmm_ensure_table:
  assumes inv: "vmm_inv s" and i: "unat i < 1024"
    and room: "pde_present s i \<or> free_frames (phys_mgr s) \<noteq> {}"
    and s': "s' = vmm_ensure_table i flags s"
  shows "vmm_inv s'" and "pde_present s' i" and "vmm_pte s' = vmm_pte s"
    and "page_directory s' = page_directory s" and "tlb s' = tlb s"
    and "pde_present s' = (pde_present s)(i := True)"
    and "card (free_frames (phys_mgr s)) = card (free_frames (phys_mgr s')) + (if pde_present s i then 0 else 1)"
proof -
  have "vmm_inv s' \<and> pde_present s' = (pde_present s)(i := True) \<and> vmm_pte s' = vmm_pte s
      \<and> page_directory s' = page_directory s \<and> tlb s' = tlb s
      \<and> card (free_frames (phys_mgr s)) = card (free_frames (phys_mgr s')) + (if pde_present s i then 0 else 1)"
  proof (cases "pde_present s i")
    case True
    then have "s' = s" by (simp add: s' vmm_ensure_table_def pde_present_def vmm_pde_def)
    with inv True show ?thesis by (simp add: fun_eq_iff)
  next
    case False
    have p: "pmm_inv (phys_mgr s)" "frame_aligned (page_directory s)"
      using inv by (simp_all add: vmm_inv_def)
    obtain a p' where a: "pmm_alloc_page (phys_mgr s) = (a, p')" by fastforce
    have a0: "a \<noteq> 0" using pmm_frames.alloc_fail [OF p(1)] a room False by auto
    note take = pmm_frames.alloc_take [OF p(1) a a0]
    have al: "frame_aligned a" using free_frame_aligned p(1) take by blast
    have ap: "a \<noteq> page_directory s" using inv take by (auto simp: vmm_inv_def)
    define e where "e = a OR 1 OR 2 OR (flags AND 4)"
    define m where "m = fill_table a (\<lambda>i. 0) (mem s)"
    have s'_eq: "s' = s\<lparr>phys_mgr := p', mem := m(entry_addr (page_directory s) i := e)\<rparr>"
      using False i a by (simp add: s' vmm_ensure_table_def pde_present_def vmm_pde_def e_def m_def or.assoc)
    note e = table_entry_masks [OF al, of flags, folded e_def]
    have pde: "vmm_pde s' j = (if j = i then e else vmm_pde s j)" if "unat j < 1024" for j
      using that i p(2) al ap
      by (simp add: vmm_pde_def s'_eq m_def fill_table_entry entry_addr_inj)
    have pres: "pde_present s' j \<longleftrightarrow> j = i \<or> pde_present s j" for j
    proof (cases "unat j < 1024")
      case True
      from pde [OF True] show ?thesis using i e(2) True by (simp add: pde_present_def)
    qed (use i in \<open>auto simp: pde_present_def\<close>)
    have tab: "entry_frame (vmm_pde s j) \<noteq> a" "entry_frame (vmm_pde s j) \<noteq> page_directory s"
      "entry_frame (vmm_pde s j) \<notin> free_frames p'" if "pde_present s j" for j
      using vmm_invD(1,2) [OF inv that] take by auto
    have old: "pde_present s j \<and> vmm_pde s' j = vmm_pde s j" if "pde_present s' j" "j \<noteq> i" for j
      using that pres [of j] pde [of j] by (simp add: pde_present_def)
    have new: "entry_frame (vmm_pde s' i) = a" using pde [OF i] e(1) by simp
    have "vmm_inv s'"
    proof (rule vmm_invI)
      show "pmm_inv (phys_mgr s')" using pmm_frames.alloc_inv [OF p(1) a] by (simp add: s'_eq)
      show "frame_aligned (page_directory s')" using p(2) by (simp add: s'_eq)
      show "page_directory s' \<notin> free_frames (phys_mgr s')" using inv take by (simp add: s'_eq vmm_inv_def)
      show "entry_frame (vmm_pde s' j) \<noteq> page_directory s' \<and>
          entry_frame (vmm_pde s' j) \<notin> free_frames (phys_mgr s')" if "pde_present s' j" for j
        using new old [OF that] tab [of j] ap take by (cases "j = i") (simp_all add: s'_eq)
      show "j = k" if "pde_present s' j" "pde_present s' k"
        "entry_frame (vmm_pde s' j) = entry_frame (vmm_pde s' k)" for j k
        using new old [OF that(1)] old [OF that(2)] tab(1) [of j] tab(1) [of k] vmm_invD(3) [OF inv, of j k]
          that(3) by (cases "j = i"; cases "k = i") simp_all
    qed
    moreover have "vmm_pte s' v = vmm_pte s v" for v
    proof (cases "PAGE_DIR_INDEX v = i")
      case True
      then show ?thesis using False pres pde e i p(2) al ap
        by (simp add: vmm_pte_def s'_eq m_def entry_addr_inj fill_table_entry)
    next
      case v: False
      show ?thesis
        using v pres [of "PAGE_DIR_INDEX v"] pde [of "PAGE_DIR_INDEX v"] p(2) al i
          tab(1,2) [of "PAGE_DIR_INDEX v"]
        by (auto simp: vmm_pte_def s'_eq m_def entry_addr_inj fill_table_entry)
    qed
    moreover have "card (free_frames (phys_mgr s)) = card (free_frames p') + 1"
      using take pmm_frames.frames_finite [OF p(1)] card_Suc_Diff1 [of "free_frames (phys_mgr s)" a] by simp
    ultimately show ?thesis using pres False by (auto simp: s'_eq fun_eq_iff)
  qed
  then show "vmm_inv s'" and "pde_present s' i" and "vmm_pte s' = vmm_pte s"
    and "page_directory s' = page_directory s" and "tlb s' = tlb s"
    and "pde_present s' = (pde_present s)(i := True)"
    and "card (free_frames (phys_mgr s)) = card (free_frames (phys_mgr s')) + (if pde_present s i then 0 else 1)"
    by auto
qed

text \<open>An entry is written into a table that is already there.\<close>

lemma vmm_write_entry:
  assumes inv: "vmm_inv s" and pres: "pde_present s (PAGE_DIR_INDEX v)"
    and s': "s' = s\<lparr>mem := (mem s)(entry_addr (entry_frame (vmm_pde s (PAGE_DIR_INDEX v)))
                                  (PAGE_TBL_INDEX v) := e)\<rparr>"
  shows "vmm_inv s'" and "page_directory s' = page_directory s" and "tlb s' = tlb s"
    and "vmm_pte s' w = (if drop_bit 12 w = drop_bit 12 v then e else vmm_pte s w)"
    and "pde_present s' = pde_present s"
proof -
  let ?i = "PAGE_DIR_INDEX v"
  have p: "frame_aligned (page_directory s)" "entry_frame (vmm_pde s ?i) \<noteq> page_directory s"
    using inv pres by (auto simp: vmm_inv_def)
  have pde: "vmm_pde s' j = vmm_pde s j" if "unat j < 1024" for j
    using that p by (simp add: vmm_pde_def s' entry_addr_inj)
  have present: "pde_present s' j \<longleftrightarrow> pde_present s j" for j
    using pde [of j] by (auto simp: pde_present_def)
  have eq: "entry_frame (vmm_pde s' j) = entry_frame (vmm_pde s j)" if "pde_present s j" for j
    using that pde [of j] by (simp add: pde_present_def)
  show "vmm_inv s'"
  proof (rule vmm_invI)
    show "pmm_inv (phys_mgr s')" "frame_aligned (page_directory s')"
      "page_directory s' \<notin> free_frames (phys_mgr s')"
      using inv by (simp_all add: vmm_inv_def s')
    show "entry_frame (vmm_pde s' j) \<noteq> page_directory s' \<and>
        entry_frame (vmm_pde s' j) \<notin> free_frames (phys_mgr s')" if "pde_present s' j" for j
      using that eq vmm_invD(1,2) [OF inv] by (simp only: present) (simp add: s')
    show "j = k" if "pde_present s' j" "pde_present s' k"
      "entry_frame (vmm_pde s' j) = entry_frame (vmm_pde s' k)" for j k
      using that eq vmm_invD(3) [OF inv] by (simp add: present)
  qed
  show "page_directory s' = page_directory s" and "tlb s' = tlb s" by (simp_all add: s')
  show "pde_present s' = pde_present s" by (simp add: fun_eq_iff present)
  show "vmm_pte s' w = (if drop_bit 12 w = drop_bit 12 v then e else vmm_pte s w)"
  proof (cases "pde_present s (PAGE_DIR_INDEX w)")
    case True
    have "entry_frame (vmm_pde s (PAGE_DIR_INDEX w)) = entry_frame (vmm_pde s ?i)
        \<longleftrightarrow> PAGE_DIR_INDEX w = ?i"
      using vmm_invD(3) [OF inv True pres] by auto
    with True same_page_iff [of w v] pres show ?thesis
      by (auto simp: vmm_pte_def present eq) (auto simp: s' entry_addr_inj)
  next
    case False
    then have "drop_bit 12 w \<noteq> drop_bit 12 v" using pres same_page_iff by metis
    with False show ?thesis by (simp add: vmm_pte_def present)
  qed
qed

definition map_room :: "u32 \<Rightarrow> vm \<Rightarrow> bool" where
  "map_room virt s \<longleftrightarrow> pde_present s (PAGE_DIR_INDEX virt) \<or> free_frames (phys_mgr s) \<noteq> {}"

lemma invlpg_simps [simp]:
  "mem (invlpg v s) = mem s" "page_directory (invlpg v s) = page_directory s"
  "phys_mgr (invlpg v s) = phys_mgr s" "vmm_inv (invlpg v s) = vmm_inv s"
  "vmm_pte (invlpg v s) = vmm_pte s" "pde_present (invlpg v s) = pde_present s" "tlb (invlpg v s) = (tlb s)(drop_bit 12 v := None)"
  by (auto simp: invlpg_def vmm_inv_def pde_present_def vmm_pde_def vmm_pte_def fun_eq_iff)

lemma vmm_map_page_pte:
  assumes inv: "vmm_inv s" and room: "map_room virt s"
    and s': "s' = vmm_map_page virt phys flags s"
  shows "vmm_inv s'" and "page_directory s' = page_directory s"
    and "tlb s' = (tlb s)(drop_bit 12 virt := None)"
    and "vmm_pte s' w = (if drop_bit 12 w = drop_bit 12 virt
           then (phys AND 0xFFFFF000) OR flags OR VMM_PRESENT else vmm_pte s w)"
    and "pde_present s' = (pde_present s)(PAGE_DIR_INDEX virt := True)"
    and "card (free_frames (phys_mgr s)) = card (free_frames (phys_mgr s'))
           + (if pde_present s (PAGE_DIR_INDEX virt) then 0 else 1)"
proof -
  define t where "t = vmm_ensure_table (PAGE_DIR_INDEX virt) flags s"
  note ensure = vmm_ensure_table [OF inv _ _ t_def]
  have t: "vmm_inv t" "pde_present t (PAGE_DIR_INDEX virt)" "vmm_pte t = vmm_pte s"
    "page_directory t = page_directory s" "tlb t = tlb s"
    "pde_present t = (pde_present s)(PAGE_DIR_INDEX virt := True)"
    "card (free_frames (phys_mgr s)) = card (free_frames (phys_mgr t))
       + (if pde_present s (PAGE_DIR_INDEX virt) then 0 else 1)"
    using ensure room by (simp_all add: map_room_def)
  define u where "u = t\<lparr>mem := (mem t)(entry_addr (entry_frame (vmm_pde t (PAGE_DIR_INDEX virt)))
      (PAGE_TBL_INDEX virt) := (phys AND 0xFFFFF000) OR flags OR VMM_PRESENT)\<rparr>"
  have "phys_mgr u = phys_mgr t" by (simp add: u_def)
  moreover have "s' = invlpg virt u" by (simp add: s' vmm_map_page_def Let_def u_def t_def vmm_pde_def)
  ultimately
  show "vmm_inv s'" and "page_directory s' = page_directory s"
    and "tlb s' = (tlb s)(drop_bit 12 virt := None)"
    and "vmm_pte s' w = (if drop_bit 12 w = drop_bit 12 virt
           then (phys AND 0xFFFFF000) OR flags OR VMM_PRESENT else vmm_pte s w)"
    and "pde_present s' = (pde_present s)(PAGE_DIR_INDEX virt := True)"
    and "card (free_frames (phys_mgr s)) = card (free_frames (phys_mgr s'))
           + (if pde_present s (PAGE_DIR_INDEX virt) then 0 else 1)"
    using vmm_write_entry [OF t(1,2) u_def] t by simp_all
qed

lemma vmm_unmap_page_tables:
  assumes "vmm_inv s"
  shows "phys_mgr (vmm_unmap_page virt s) = phys_mgr s"
    and "pde_present (vmm_unmap_page virt s) = pde_present s"
proof -
  show "phys_mgr (vmm_unmap_page virt s) = phys_mgr s" by (simp add: vmm_unmap_page_def Let_def)
  show "pde_present (vmm_unmap_page virt s) = pde_present s"
  proof (cases "pde_present s (PAGE_DIR_INDEX virt)")
    case True
    from vmm_write_entry(5) [OF assms True refl, of 0] True show ?thesis
      by (simp add: vmm_unmap_page_def vmm_pde_def pde_present_def)
  qed (simp add: vmm_unmap_page_def vmm_pde_def pde_present_def)
qed

lemma vmm_unmap_page_pte:
  assumes inv: "vmm_inv s" and s': "s' = vmm_unmap_page virt s"
  shows "vmm_inv s'" and "page_directory s' = page_directory s"
    and "vmm_pte s' w = (if drop_bit 12 w = drop_bit 12 virt then 0 else vmm_pte s w)"
    and "tlb s' = (if pde_present s (PAGE_DIR_INDEX virt) then (tlb s)(drop_bit 12 virt := None) else tlb s)"
proof -
  have "vmm_inv s' \<and> page_directory s' = page_directory s
    \<and> vmm_pte s' w = (if drop_bit 12 w = drop_bit 12 virt then 0 else vmm_pte s w)
    \<and> tlb s' = (if pde_present s (PAGE_DIR_INDEX virt) then (tlb s)(drop_bit 12 virt := None) else tlb s)"
  proof (cases "pde_present s (PAGE_DIR_INDEX virt)")
    case True
    define u where "u = s\<lparr>mem := (mem s)(entry_addr (entry_frame (vmm_pde s (PAGE_DIR_INDEX virt)))
      (PAGE_TBL_INDEX virt) := 0)\<rparr>"
    have "s' = invlpg virt u"
      using True by (simp add: s' vmm_unmap_page_def u_def vmm_pde_def pde_present_def)
    with vmm_write_entry [OF inv True u_def] True show ?thesis by simp
  next
    case False
    then have "s' = s" by (simp add: s' vmm_unmap_page_def vmm_pde_def pde_present_def)
    moreover have "vmm_pte s w = 0" if "drop_bit 12 w = drop_bit 12 virt"
      using False same_page_iff that by (metis vmm_pte_def)
    ultimately show ?thesis using inv False by simp
  qed
  then show "vmm_inv s'" and "page_directory s' = page_directory s"
    and "vmm_pte s' w = (if drop_bit 12 w = drop_bit 12 virt then 0 else vmm_pte s w)"
    and "tlb s' = (if pde_present s (PAGE_DIR_INDEX virt) then (tlb s)(drop_bit 12 virt := None) else tlb s)"
    by blast+
qed

section \<open>Properties\<close>

lemma pte_masks:
  assumes "flags AND 0xFFFFF000 = 0"
  shows "((phys AND 0xFFFFF000) OR flags OR 1) AND 0xFFFFF000 = phys AND (0xFFFFF000 :: u32)"
    and "((phys AND 0xFFFFF000) OR flags OR (1 :: u32)) AND 1 \<noteq> 0"
proof -
  have "(1 :: u32) AND 0xFFFFF000 = 0" by simp
  with assms show "((phys AND 0xFFFFF000) OR flags OR 1) AND 0xFFFFF000 = phys AND 0xFFFFF000"
    by (simp only: bit.conj_disj_distrib2 and.assoc and.idem or.right_neutral or.left_neutral)
  show "((phys AND 0xFFFFF000) OR flags OR (1 :: u32)) AND 1 \<noteq> 0"
    by (simp only: or.assoc [symmetric] or_one_present not_False_eq_True)
qed


text \<open>C2: when the page table of an address exists or a frame is free for it, \<open>vmm_map_page\<close> makes
  \<open>vmm_get_phys\<close> translate every address of that page to the given frame, leaves the translation of
  every address of another page as it was, and keeps the directory and tables on frames of their own.\<close>

theorem vmm_map_page_correct:
  assumes "vmm_inv s" and "map_room virt s" and "flags AND 0xFFFFF000 = 0"
  shows "vmm_inv (vmm_map_page virt phys flags s)
    \<and> vmm_get_phys w (vmm_map_page virt phys flags s)
      = (if drop_bit 12 w = drop_bit 12 virt then (phys AND 0xFFFFF000) OR (w AND 0xFFF)
         else vmm_get_phys w s)"
  using vmm_map_page_pte [OF assms(1,2) refl, of phys flags] pte_masks [OF assms(3)]
  by (simp add: vmm_get_phys_pte or.assoc)

text \<open>\<open>vmm_unmap_page\<close> always undoes a mapping: the addresses of the page translate to 0
  afterwards and no other translation changes.\<close>

theorem vmm_unmap_page_correct:
  assumes "vmm_inv s"
  shows "vmm_inv (vmm_unmap_page virt s)
    \<and> vmm_get_phys w (vmm_unmap_page virt s)
      = (if drop_bit 12 w = drop_bit 12 virt then 0 else vmm_get_phys w s)"
  using vmm_unmap_page_pte [OF assms refl] by (simp add: vmm_get_phys_pte)

section \<open>The translation buffer\<close>

text \<open>
  What happens to an address space: the kernel maps and unmaps pages, and between its calls the
  processor walks the tables and puts the present entry it finds into the buffer.
\<close>

datatype vmm_op = Map u32 u32 u32 | Unmap u32 | Walk u32

fun vmm_apply :: "vmm_op \<Rightarrow> vm \<Rightarrow> vm" where
  "vmm_apply (Map virt phys flags) s = vmm_map_page virt phys flags s"
| "vmm_apply (Unmap virt) s = vmm_unmap_page virt s"
| "vmm_apply (Walk v) s =
     (if vmm_pte s v AND VMM_PRESENT \<noteq> 0 then s\<lparr>tlb := (tlb s)(drop_bit 12 v \<mapsto> vmm_pte s v)\<rparr> else s)"

text \<open>The 4 MB regions for which a sequence of operations needs a new page table, each of which
  takes a frame.\<close>

fun map_targets :: "vmm_op list \<Rightarrow> u32 set" where
  "map_targets [] = {}"
| "map_targets (Map v p f # ops) = insert (PAGE_DIR_INDEX v) (map_targets ops)"
| "map_targets (Unmap v # ops) = map_targets ops"
| "map_targets (Walk v # ops) = map_targets ops"

definition new_tables :: "vm \<Rightarrow> vmm_op list \<Rightarrow> u32 set" where
  "new_tables s ops = {i \<in> map_targets ops. \<not> pde_present s i}"

definition tlb_coherent :: "vm \<Rightarrow> bool" where
  "tlb_coherent s \<longleftrightarrow> (\<forall>v e. tlb s (drop_bit 12 v) = Some e \<longrightarrow> vmm_pte s v = e \<and> e AND VMM_PRESENT \<noteq> 0)"

lemma tlb_coherentI:
  "(\<And>v e. tlb s (drop_bit 12 v) = Some e \<Longrightarrow> vmm_pte s v = e \<and> e AND VMM_PRESENT \<noteq> 0) \<Longrightarrow>
   tlb_coherent s"
  unfolding tlb_coherent_def by (intro allI impI)

lemma tlb_update_simps [simp]:
  "vmm_inv (s\<lparr>tlb := t\<rparr>) = vmm_inv s" "vmm_pte (s\<lparr>tlb := t\<rparr>) = vmm_pte s"
  "pde_present (s\<lparr>tlb := t\<rparr>) = pde_present s"
  by (auto simp: vmm_inv_def pde_present_def vmm_pde_def vmm_pte_def fun_eq_iff)

lemma vmm_pte_page: "drop_bit 12 v = drop_bit 12 w \<Longrightarrow> vmm_pte s v = vmm_pte s w"
  using same_page_iff [of v w] by (simp add: vmm_pte_def)

lemma finite_new_tables [simp, intro]: "finite (new_tables s ops)"
proof -
  have "finite (map_targets ops)" by (induction ops rule: map_targets.induct) simp_all
  then show ?thesis by (simp add: new_tables_def)
qed

text \<open>One operation keeps the buffer coherent, and leaves frames for the tables still to come.\<close>

definition enough_frames :: "vm \<Rightarrow> vmm_op list \<Rightarrow> bool" where
  "enough_frames s ops \<longleftrightarrow> card (new_tables s ops) \<le> card (free_frames (phys_mgr s))"

lemma map_step_coherent:
  assumes inv: "vmm_inv s" and coh: "tlb_coherent s" and fr: "enough_frames s (Map v p f # ops)"
    and s': "s' = vmm_map_page v p f s"
  shows "vmm_inv s' \<and> tlb_coherent s' \<and> enough_frames s' ops"
proof -
  let ?i = "PAGE_DIR_INDEX v"
  have room: "map_room v s"
  proof (rule ccontr)
    assume "\<not> map_room v s"
    then have "?i \<in> new_tables s (Map v p f # ops)" "free_frames (phys_mgr s) = {}"
      by (simp_all add: map_room_def new_tables_def)
    with fr show False by (auto simp: enough_frames_def dest: card_gt_0_iff [THEN iffD2, OF conjI])
  qed
  note m = vmm_map_page_pte [OF inv room s']
  have sub: "new_tables s' ops \<subseteq> new_tables s (Map v p f # ops) - {?i}" using m(5) by (auto simp: new_tables_def)
  have "card (new_tables s' ops) + (if pde_present s ?i then 0 else 1) \<le> card (new_tables s (Map v p f # ops))"
  proof (cases "pde_present s ?i")
    case True
    with sub show ?thesis by (auto intro!: card_mono)
  next
    case False
    then have "?i \<in> new_tables s (Map v p f # ops)" by (simp add: new_tables_def)
    with card_mono [OF _ sub] False show ?thesis
      using card_Suc_Diff1 [of "new_tables s (Map v p f # ops)" ?i] by simp
  qed
  with fr m(6) have "enough_frames s' ops" by (simp add: enough_frames_def)
  moreover have "tlb_coherent s'" unfolding tlb_coherent_def using m(3,4) coh by (simp add: tlb_coherent_def)
  ultimately show ?thesis using m(1) by simp
qed

lemma unmap_step_coherent:
  assumes inv: "vmm_inv s" and coh: "tlb_coherent s" and s': "s' = vmm_unmap_page virt s"
  shows "vmm_inv s' \<and> tlb_coherent s'"
proof -
  note pte = vmm_unmap_page_pte [OF inv s']
  have "vmm_pte s' v = e \<and> e AND VMM_PRESENT \<noteq> 0" if e: "tlb s' (drop_bit 12 v) = Some e" for v e
  proof -
    have old: "tlb s (drop_bit 12 v) = Some e" using e pte(4) by (auto split: if_splits)
    then have v: "vmm_pte s v = e" "e AND VMM_PRESENT \<noteq> 0" using coh by (auto simp: tlb_coherent_def)
    have "drop_bit 12 v \<noteq> drop_bit 12 virt"
    proof
      assume same: "drop_bit 12 v = drop_bit 12 virt"
      then have "pde_present s (PAGE_DIR_INDEX virt)"
        using v same_page_iff [of v virt] by (auto simp: vmm_pte_def split: if_splits)
      then show False using e pte(4) same by simp
    qed
    then show ?thesis using v pte(3) by simp
  qed
  then have "tlb_coherent s'" by (rule tlb_coherentI)
  with pte(1) show ?thesis ..
qed

lemma walk_step_coherent:
  assumes "tlb_coherent s" and "vmm_pte s v AND VMM_PRESENT \<noteq> 0"
  shows "tlb_coherent (s\<lparr>tlb := (tlb s)(drop_bit 12 v \<mapsto> vmm_pte s v)\<rparr>)"
proof (rule tlb_coherentI)
  fix u e
  assume e: "tlb (s\<lparr>tlb := (tlb s)(drop_bit 12 v \<mapsto> vmm_pte s v)\<rparr>) (drop_bit 12 u) = Some e"
  show "vmm_pte (s\<lparr>tlb := (tlb s)(drop_bit 12 v \<mapsto> vmm_pte s v)\<rparr>) u = e \<and> e AND VMM_PRESENT \<noteq> 0"
  proof (cases "drop_bit 12 u = drop_bit 12 v")
    case True
    with e assms(2) vmm_pte_page [OF True] show ?thesis by simp
  next
    case False
    with e assms(1) show ?thesis by (simp add: tlb_coherent_def)
  qed
qed

lemma vmm_apply_coherent [inv_intros]:
  assumes "vmm_inv s" and "tlb_coherent s" and "enough_frames s (op # ops)"
  shows "vmm_inv (vmm_apply op s) \<and> tlb_coherent (vmm_apply op s) \<and> enough_frames (vmm_apply op s) ops"
proof (cases op)
  case (Map v p f)
  then show ?thesis using map_step_coherent [OF assms(1,2) _ refl] assms(3) by simp
next
  case (Unmap v)
  then show ?thesis
    using unmap_step_coherent [OF assms(1,2) refl] vmm_unmap_page_tables [OF assms(1)] assms(3)
    by (simp add: enough_frames_def new_tables_def)
next
  case (Walk v)
  then show ?thesis using walk_step_coherent [OF assms(2), of v] assms
    by (simp add: enough_frames_def new_tables_def)
qed

text \<open>C3: whatever pages are mapped and unmapped, and whatever the processor's table walks put into the
  translation buffer between these calls, the buffer never holds a stale or an absent translation: what
  it holds for an address is the entry of the tables, the frame of which is the one \<open>vmm_get_phys\<close>
  returns.  This needs a free frame for each page table the sequence has to create, one for every
  4 MB region that is mapped and has none: without frames the buffer does go stale, as \<open>vmm_map_page\<close>
  does not test the frame it gets (\<open>vmm_map_page_out_of_memory\<close>).\<close>

theorem vmm_tlb_never_stale:
  assumes "vmm_inv s" and "tlb_coherent s"
    and "card {i \<in> map_targets ops. \<not> pde_present s i} \<le> card (free_frames (phys_mgr s))"
    and "s' = fold vmm_apply ops s" and "tlb s' (drop_bit 12 v) = Some e"
  shows "vmm_inv s' \<and> vmm_pte s' v = e \<and> e AND VMM_PRESENT \<noteq> 0
    \<and> vmm_get_phys v s' = (e AND 0xFFFFF000) OR (v AND 0xFFF)"
proof -
  have "enough_frames s ops" using assms(3) by (simp add: enough_frames_def new_tables_def)
  with assms(1,2) have "vmm_inv (fold vmm_apply ops s) \<and> tlb_coherent (fold vmm_apply ops s)"
  proof (induction ops arbitrary: s)
    case (Cons op ops)
    from vmm_apply_coherent [OF Cons.prems] Cons.IH show ?case by simp
  qed simp
  then show ?thesis using assms(4,5) by (auto simp: tlb_coherent_def vmm_get_phys_pte)
qed

lemma identity_entry:
  assumes "PAGE_DIR_INDEX w = 0"
  shows "PAGE_TBL_INDEX w * PAGE_SIZE = w AND 0xFFFFF000"
proof -
  have "unat w < 2 ^ 22" using assms unat_PAGE_DIR_INDEX [of w] by (simp add: div_eq_0_iff)
  then have "PAGE_TBL_INDEX w = drop_bit 12 w"
    by (simp add: word_eq_unat_iff unat_PAGE_TBL_INDEX unat_drop_bit_eq drop_bit_eq_div unat_div)
  then have "PAGE_TBL_INDEX w * PAGE_SIZE = push_bit 12 (drop_bit 12 w)"
    by (simp add: push_bit_eq_mult)
  also have "\<dots> = w AND 0xFFFFF000"
    unfolding frame_mask by (rule bit_word_eqI) (auto simp: bit_simps)
  finally show ?thesis .
qed

text \<open>With two frames free, \<open>vmm_init\<close> sets up a directory that maps the first 4 MB, each
  address to itself, and nothing else, with paging on, \<open>cr3\<close> at the
  directory, an empty translation buffer, and the invariant of the manager.\<close>

theorem vmm_init_correct:
  assumes "pmm_inv (phys_mgr s)" and "2 \<le> card (free_frames (phys_mgr s))"
  shows "vmm_inv (vmm_init s) \<and> tlb_coherent (vmm_init s)
    \<and> cr3 (vmm_init s) = page_directory (vmm_init s) \<and> bit (cr0 (vmm_init s)) 31
    \<and> vmm_get_phys w (vmm_init s) = (if w < 0x400000 then w else 0)"
proof -
  obtain a p1 where a: "pmm_alloc_page (phys_mgr s) = (a, p1)" by fastforce
  obtain b p2 where b: "pmm_alloc_page p1 = (b, p2)" by fastforce
  have "alloc_pages pmm_alloc_page 2 (phys_mgr s) = ([a, b], p2)"
    using a b by (simp add: numeral_2_eq_2)
  from pmm_frames.alloc_pages_complete [OF assms(1) this assms(2)]
    pmm_frames.alloc_pages_fresh [OF assms(1) this] pmm_frames.alloc_pages_frames [OF assms(1) this]
    pmm_frames.alloc_pages_inv [OF assms(1) this]
  have ab: "a \<noteq> 0" "b \<noteq> 0" "a \<noteq> b" "a \<in> free_frames (phys_mgr s)" "b \<in> free_frames (phys_mgr s)"
    "free_frames p2 = free_frames (phys_mgr s) - {a, b}" "pmm_inv p2"
    by auto
  have al: "frame_aligned a" "frame_aligned b" using free_frame_aligned assms(1) ab by blast+
  define t where "t = vmm_init s"
  define e where "e = b OR 1 OR 2 OR (0 AND 4)"
  note e = table_entry_masks [OF al(2), of 0, folded e_def]
  define id_entry where "id_entry i = (i * PAGE_SIZE) OR VMM_PRESENT OR VMM_WRITABLE" for i
  define m where "m = (fill_table b id_entry (fill_table a (\<lambda>i. 0) (mem s)))(entry_addr a 0 := e)"
  have t: "t = s\<lparr>mem := m, page_directory := a, phys_mgr := p2, cr3 := a,
      cr0 := cr0 s OR 0x80000000, tlb := Map.empty\<rparr>"
    by (simp add: t_def vmm_init_def a b m_def e_def id_entry_def [abs_def] or.assoc)
  have pde: "vmm_pde t i = (if i = 0 then e else 0)" if "unat i < 1024" for i
    using that al ab(3) by (simp add: vmm_pde_def t m_def entry_addr_inj fill_table_entry)
  have present: "pde_present t i \<longleftrightarrow> i = 0" for i
    using pde [of i] e(2) by (cases "i = 0") (auto simp: pde_present_def)
  have "vmm_inv t"
  proof -
    have "phys_mgr t = p2" "page_directory t = a" by (simp_all add: t)
    moreover have "vmm_pde t 0 = e" using pde [of 0] by simp
    ultimately show ?thesis unfolding vmm_inv_def present using ab al e(1) by simp
  qed
  moreover have "tlb_coherent t" "cr3 t = page_directory t" by (simp_all add: t tlb_coherent_def)
  moreover have "bit (cr0 t) 31" by (simp add: t bit_simps)
  moreover have "vmm_get_phys w t = (if w < 0x400000 then w else 0)"
  proof (cases "w < 0x400000")
    case True
    then have dir: "PAGE_DIR_INDEX w = 0"
      by (simp add: word_eq_unat_iff unat_PAGE_DIR_INDEX word_less_nat_alt)
    have "vmm_pte t w = id_entry (PAGE_TBL_INDEX w)"
      using pde [of 0] e(1) al ab(3) dir
      by (simp add: vmm_pte_def present) (simp add: t m_def entry_addr_inj fill_table_entry)
    then have "vmm_pte t w = (w AND 0xFFFFF000) OR 2 OR 1"
      using identity_entry [OF dir] by (simp add: id_entry_def or.assoc or.commute)
    with True pte_masks [of 2 w] show ?thesis
      by (simp add: vmm_get_phys_pte or.assoc) (simp add: frame_mask offset_mask bit.conj_disj_distrib [symmetric])
  next
    case False
    then have "PAGE_DIR_INDEX w \<noteq> 0"
      by (simp add: word_eq_unat_iff unat_PAGE_DIR_INDEX word_less_nat_alt div_eq_0_iff)
    with False show ?thesis by (simp add: vmm_get_phys_pte vmm_pte_def present)
  qed
  ultimately show ?thesis by (simp add: t_def)
qed

lemma vmm_ensure_table_oom:
  assumes "pmm_alloc_page (phys_mgr s) = (0, p)" and "\<not> pde_present s i" and "unat i < 1024"
    and "frame_aligned (page_directory s)" and "page_directory s \<noteq> 0"
    and s': "s' = vmm_ensure_table i flags s"
  shows "phys_mgr s' = p" and "page_directory s' = page_directory s"
    and "unat j < 1024 \<Longrightarrow> vmm_pde s' j = (if j = i then 1 OR 2 OR (flags AND 4) else vmm_pde s j)"
    and "unat j < 1024 \<Longrightarrow> mem s' (entry_addr 0 j) = 0"
proof -
  have al: "frame_aligned 0" by (simp add: frame_aligned_def)
  have s'_eq: "s' = s\<lparr>phys_mgr := p, mem := (fill_table 0 (\<lambda>i. 0) (mem s))
      (entry_addr (page_directory s) i := 1 OR 2 OR (flags AND 4))\<rparr>"
    using assms(1-3) by (simp add: s' vmm_ensure_table_def pde_present_def vmm_pde_def or.assoc)
  show "phys_mgr s' = p" and "page_directory s' = page_directory s" by (simp_all add: s'_eq)
  show "unat j < 1024 \<Longrightarrow> vmm_pde s' j = (if j = i then 1 OR 2 OR (flags AND 4) else vmm_pde s j)"
    using assms(3-5) al by (simp add: vmm_pde_def s'_eq entry_addr_inj fill_table_entry)
  show "unat j < 1024 \<Longrightarrow> mem s' (entry_addr 0 j) = 0"
    using assms(3-5) al by (simp add: s'_eq entry_addr_inj fill_table_entry)
qed

lemma vmm_map_page_oom:
  assumes "pmm_inv (phys_mgr s)" and "free_frames (phys_mgr s) = {}"
    and "frame_aligned (page_directory s)" and "page_directory s \<noteq> 0"
    and "\<not> pde_present s (PAGE_DIR_INDEX v1)" and "\<not> pde_present s (PAGE_DIR_INDEX v2)"
    and "PAGE_DIR_INDEX v1 \<noteq> PAGE_DIR_INDEX v2"
  shows "vmm_pte (vmm_map_page v1 p1 flags s) v1 = (p1 AND 0xFFFFF000) OR flags OR 1"
    and "vmm_pte (vmm_map_page v2 p2 flags (vmm_map_page v1 p1 flags s)) v1
    = (if PAGE_TBL_INDEX v1 = PAGE_TBL_INDEX v2 then (p2 AND 0xFFFFF000) OR flags OR 1 else 0)"
proof -
  have oom: "pmm_alloc_page (phys_mgr s) = (0, phys_mgr s)"
    using pmm_frames.alloc_take [OF assms(1)] pmm_frames.alloc_fail [OF assms(1)] assms(2)
    by (metis empty_iff surj_pair)
  have al: "frame_aligned 0" by (simp add: frame_aligned_def)
  have frame: "entry_frame (1 OR 2 OR (f AND 4)) = 0" "(1 OR 2 OR (f AND 4)) AND 1 \<noteq> (0 :: u32)" for f
    using table_entry_masks [OF al, of f] by simp_all
  define d where "d = page_directory s"
  define s1 where "s1 = vmm_ensure_table (PAGE_DIR_INDEX v1) flags s"
  note e1 = vmm_ensure_table_oom [OF oom assms(5) _ assms(3,4) s1_def, simplified]
  define t1 where "t1 = vmm_map_page v1 p1 flags s"
  have pde1: "vmm_pde s1 (PAGE_DIR_INDEX v1) = 1 OR 2 OR (flags AND 4)" using e1(3) by simp
  have t1: "t1 = invlpg v1 (s1\<lparr>mem := (mem s1)(entry_addr 0 (PAGE_TBL_INDEX v1)
       := (p1 AND 0xFFFFF000) OR flags OR 1)\<rparr>)"
    using pde1 frame(1) by (simp add: t1_def vmm_map_page_def Let_def s1_def [symmetric] vmm_pde_def)
  have pd: "page_directory t1 = d" "phys_mgr t1 = phys_mgr s" using e1 by (simp_all add: t1 d_def)
  have t1_pde: "vmm_pde t1 j = (if j = PAGE_DIR_INDEX v1 then 1 OR 2 OR (flags AND 4) else vmm_pde s j)"
    if "unat j < 1024" for j
    using e1(2) e1(3) [of j] that al assms(3,4)
    by (simp add: vmm_pde_def t1 entry_addr_inj)
  define s2 where "s2 = vmm_ensure_table (PAGE_DIR_INDEX v2) flags t1"
  have "\<not> pde_present t1 (PAGE_DIR_INDEX v2)"
    using assms(6,7) t1_pde by (simp add: pde_present_def)
  note e2 = vmm_ensure_table_oom [OF oom [folded pd(2)] this _ _ _ s2_def, unfolded pd, folded d_def]
  have e2: "page_directory s2 = d"
    "\<And>j. unat j < 1024 \<Longrightarrow> vmm_pde s2 j = (if j = PAGE_DIR_INDEX v2 then 1 OR 2 OR (flags AND 4) else vmm_pde t1 j)"
    "\<And>j. unat j < 1024 \<Longrightarrow> mem s2 (entry_addr 0 j) = 0"
    using e2 assms(3,4) by (simp_all add: d_def)
  define t2 where "t2 = vmm_map_page v2 p2 flags t1"
  have pde2: "vmm_pde s2 (PAGE_DIR_INDEX v2) = 1 OR 2 OR (flags AND 4)" using e2(2) by simp
  have t2: "t2 = invlpg v2 (s2\<lparr>mem := (mem s2)(entry_addr 0 (PAGE_TBL_INDEX v2)
       := (p2 AND 0xFFFFF000) OR flags OR 1)\<rparr>)"
    using pde2 frame(1) by (simp add: t2_def vmm_map_page_def Let_def s2_def [symmetric] vmm_pde_def)
  have "vmm_pde t2 (PAGE_DIR_INDEX v1) = 1 OR 2 OR (flags AND 4)"
    using e2(1,2) t1_pde al assms(3,4)
    by (simp add: vmm_pde_def t2 entry_addr_inj d_def)
  then have "vmm_pte t2 v1 = mem t2 (entry_addr 0 (PAGE_TBL_INDEX v1))"
    using frame by (simp add: vmm_pte_def pde_present_def)
  also have "\<dots> = (if PAGE_TBL_INDEX v1 = PAGE_TBL_INDEX v2 then (p2 AND 0xFFFFF000) OR flags OR 1 else 0)"
    using e2(3) al by (simp add: t2 entry_addr_inj)
  finally show "vmm_pte (vmm_map_page v2 p2 flags (vmm_map_page v1 p1 flags s)) v1
    = (if PAGE_TBL_INDEX v1 = PAGE_TBL_INDEX v2 then (p2 AND 0xFFFFF000) OR flags OR 1 else 0)"
    by (simp add: t1_def t2_def)
  have "vmm_pte t1 v1 = mem t1 (entry_addr 0 (PAGE_TBL_INDEX v1))"
    using t1_pde [of "PAGE_DIR_INDEX v1"] frame by (simp add: vmm_pte_def pde_present_def)
  then show "vmm_pte (vmm_map_page v1 p1 flags s) v1 = (p1 AND 0xFFFFF000) OR flags OR 1"
    by (simp add: t1_def [symmetric]) (simp add: t1)
qed

text \<open>\<open>vmm_map_page\<close> does not check that the frame for a new page table exists.  When no frame
  is free, the table is placed at physical address 0, which is cleared, and every directory entry created this way
  shares it: a second mapping in another 4 MB region wipes out or replaces the first.\<close>

theorem vmm_map_page_out_of_memory:
  assumes "pmm_inv (phys_mgr s)" and "free_frames (phys_mgr s) = {}"
    and "frame_aligned (page_directory s)" and "page_directory s \<noteq> 0"
    and "\<not> pde_present s (PAGE_DIR_INDEX v1)" and "\<not> pde_present s (PAGE_DIR_INDEX v2)"
    and "PAGE_DIR_INDEX v1 \<noteq> PAGE_DIR_INDEX v2" and "flags AND 0xFFFFF000 = 0"
  shows "vmm_get_phys v1 (vmm_map_page v2 p2 flags (vmm_map_page v1 p1 flags s))
    = (if PAGE_TBL_INDEX v1 = PAGE_TBL_INDEX v2 then (p2 AND 0xFFFFF000) OR (v1 AND 0xFFF) else 0)"
  using vmm_map_page_oom(2) [OF assms(1-7), of p2 flags p1] pte_masks [OF assms(8), of p2]
  by (simp add: vmm_get_phys_pte or.assoc)

text \<open>A mapping does not read the translation buffer, and drops its own page from it.\<close>

lemma vmm_map_page_tlb:
  "vmm_map_page virt phys flags (s\<lparr>tlb := t\<rparr>)
   = (vmm_map_page virt phys flags s)\<lparr>tlb := t(drop_bit 12 virt := None)\<rparr>"
  by (simp add: vmm_map_page_def vmm_ensure_table_def Let_def invlpg_def split: prod.split)

text \<open>C24: a stale translation buffer.  No frame is free and two pages in different 4 MB regions, neither of which has a table, and at
  different places of their tables, are mapped one after the other; the processor uses the first in between.  Both tables come to lie at
  physical address 0, the second call clears the entry of the first page and invalidates only its own: the buffer then holds a translation that the tables do not have.\<close>

theorem vmm_tlb_stale_out_of_memory:
  assumes "pmm_inv (phys_mgr s)" and "free_frames (phys_mgr s) = {}"
    and "frame_aligned (page_directory s)" and "page_directory s \<noteq> 0"
    and "\<not> pde_present s (PAGE_DIR_INDEX v1)" and "\<not> pde_present s (PAGE_DIR_INDEX v2)"
    and "PAGE_DIR_INDEX v1 \<noteq> PAGE_DIR_INDEX v2" and "PAGE_TBL_INDEX v1 \<noteq> PAGE_TBL_INDEX v2"
  shows "\<not> tlb_coherent (fold vmm_apply [Map v1 p1 flags, Walk v1, Map v2 p2 flags] s)"
proof -
  let ?t = "vmm_map_page v1 p1 flags s"
  let ?e = "vmm_pte ?t v1"
  have page: "drop_bit 12 v1 \<noteq> drop_bit 12 v2" using assms(8) same_page_iff [of v1 v2] by auto
  define u where "u = fold vmm_apply [Map v1 p1 flags, Walk v1, Map v2 p2 flags] s"
  note oom = vmm_map_page_oom [OF assms(1-7)]
  have e: "?e AND VMM_PRESENT \<noteq> 0" using oom(1) or_one_present by (simp add: or.assoc [symmetric])
  then have u: "u = (vmm_map_page v2 p2 flags ?t)
      \<lparr>tlb := ((tlb ?t)(drop_bit 12 v1 \<mapsto> ?e))(drop_bit 12 v2 := None)\<rparr>"
    by (simp add: u_def vmm_map_page_tlb)
  have "tlb u (drop_bit 12 v1) = Some ?e" using page by (simp add: u)
  moreover have "vmm_pte u v1 = 0" using oom(2) assms(8) by (simp add: u)
  ultimately have "\<not> tlb_coherent u" using e by (metis tlb_coherent_def zero_and_eq)
  then show ?thesis unfolding u_def .
qed

section \<open>A concrete machine\<close>

text \<open>Eight frames, of which 1 and 2 are free; an empty directory in frame 3.\<close>

definition vm_example :: vm where
  "vm_example = \<lparr>mem = \<lambda>_. 0, page_directory = 0x3000,
     phys_mgr = \<lparr>bitmap = [0xFFFFFFF9], total_pages = 8, free_pages = 2\<rparr>,
     cr3 = 0x3000, cr0 = 0, tlb = Map.empty\<rparr>"

lemma vm_example_free:
  "pmm_inv (phys_mgr vm_example)" "free_set (phys_mgr vm_example) = {1, 2}"
proof -
  let ?p = "phys_mgr vm_example"
  have "bit (0xFFFFFFF9 :: u32) p \<longleftrightarrow> p \<noteq> 1 \<and> p \<noteq> 2" if "p < 32" for p
    using that by (auto simp: less_Suc_eq numeral_eq_Suc)
  then have used: "page_used ?p p \<longleftrightarrow> p \<noteq> 1 \<and> p \<noteq> 2" if "p < 32" for p
    using that by (simp add: page_used_def vm_example_def)
  then show fs: "free_set ?p = {1, 2}" by (auto simp: free_set_def vm_example_def)
  have "page_used ?p p" if "8 \<le> p" "p < 32" for p using used that by simp
  then show "pmm_inv ?p" by (auto simp: pmm_inv_def pmm_wf_def fs) (auto simp: vm_example_def)
qed

lemma vm_example_inv: "vmm_inv vm_example"
  and vm_example_coherent: "tlb_coherent vm_example"
  and vm_example_room: "map_room v vm_example"
  and vm_example_frames: "card (free_frames (phys_mgr vm_example)) = 2"
proof -
  have fr: "free_frames (phys_mgr vm_example) = {0x1000, 0x2000}"
    using vm_example_free(2) by (simp add: free_frames_def)
  have "\<not> pde_present vm_example i" for i by (simp add: pde_present_def vmm_pde_def vm_example_def)
  then show "vmm_inv vm_example"
    using vm_example_free(1) fr
    by (intro vmm_invI) (simp_all add: vm_example_def frame_aligned_def)
  show "tlb_coherent vm_example" by (simp add: tlb_coherent_def vm_example_def)
  show "map_room v vm_example" by (simp add: map_room_def fr)
  show "card (free_frames (phys_mgr vm_example)) = 2" by (simp add: fr)
qed

theorem vmm_map_page_correct_witness:
  "vmm_get_phys 0x403123 (vmm_map_page 0x403000 0x7000 VMM_WRITABLE vm_example) = 0x7123
   \<and> vmm_get_phys 0x404123 (vmm_map_page 0x403000 0x7000 VMM_WRITABLE vm_example) = 0"
proof -
  have "vmm_get_phys 0x404123 vm_example = 0" by (simp add: vmm_get_phys_def vm_example_def)
  then show ?thesis
    using vmm_map_page_correct [OF vm_example_inv vm_example_room, where flags = 2 and w = "0x403123" and virt = "0x403000" and phys = "0x7000"]
      vmm_map_page_correct [OF vm_example_inv vm_example_room, where flags = 2 and w = "0x404123" and virt = "0x403000" and phys = "0x7000"]
    by simp
qed

theorem vmm_unmap_page_correct_witness:
  "vmm_get_phys 0x403123 (vmm_unmap_page 0x403000 vm_example) = 0"
  using vmm_unmap_page_correct [OF vm_example_inv, of "0x403000" "0x403123"] by simp

theorem vmm_tlb_never_stale_witness:
  "vmm_pte (fold vmm_apply [Map 0x403000 0x7000 2, Walk 0x403000] vm_example) 0x403000 = 0x7003"
proof -
  let ?ops = "[Map 0x403000 0x7000 2, Walk 0x403000]"
  let ?m = "vmm_map_page 0x403000 0x7000 2 vm_example"
  have e: "vmm_pte ?m 0x403000 = 0x7003"
    using vmm_map_page_pte(4) [OF vm_example_inv vm_example_room refl, where w = "0x403000" and virt = "0x403000" and phys = "0x7000" and flags = 2]
    by simp
  have "{i \<in> map_targets ?ops. \<not> pde_present vm_example i} \<subseteq> {PAGE_DIR_INDEX 0x403000}" by auto
  from card_mono [OF _ this]
  have fr: "card {i \<in> map_targets ?ops. \<not> pde_present vm_example i} \<le> card (free_frames (phys_mgr vm_example))"
    unfolding vm_example_frames by simp
  have p: "(0x7003 :: u32) AND 1 \<noteq> 0" by simp
  have "tlb (fold vmm_apply ?ops vm_example) (drop_bit 12 0x403000) = Some 0x7003"
    using e p by (simp only: fold_simps vmm_apply.simps id_apply comp_apply if_True not_False_eq_True) simp
  from vmm_tlb_never_stale [OF vm_example_inv vm_example_coherent fr refl this] show ?thesis by (rule conjunct1 [OF conjunct2])
qed

theorem vmm_init_correct_witness:
  "vmm_get_phys 0x1234 (vmm_init vm_example) = 0x1234 \<and> vmm_get_phys 0x400000 (vmm_init vm_example) = 0"
  using vmm_init_correct [of vm_example "0x1234"] vmm_init_correct [of vm_example "0x400000"]
    vm_example_free(1) vm_example_frames
  by simp

definition vm_exhausted :: vm where
  "vm_exhausted = vm_example\<lparr>phys_mgr := \<lparr>bitmap = [0xFFFFFFFF], total_pages = 8, free_pages = 0\<rparr>\<rparr>"

lemma vm_exhausted:
  "pmm_inv (phys_mgr vm_exhausted)" "free_frames (phys_mgr vm_exhausted) = {}"
  "frame_aligned (page_directory vm_exhausted)" "page_directory vm_exhausted \<noteq> 0"
  "\<not> pde_present vm_exhausted i"
proof -
  have used: "page_used (phys_mgr vm_exhausted) p" if "p < 32" for p
    using that full_word_iff [of "0xFFFFFFFF"] by (simp add: page_used_def vm_exhausted_def)
  then have fs: "free_set (phys_mgr vm_exhausted) = {}" by (auto simp: free_set_def vm_exhausted_def)
  then show "pmm_inv (phys_mgr vm_exhausted)" using used by (auto simp: pmm_inv_def pmm_wf_def vm_exhausted_def)
  show "free_frames (phys_mgr vm_exhausted) = {}" by (simp only: free_frames_def fs image_empty)
qed (simp_all add: vm_exhausted_def vm_example_def frame_aligned_def pde_present_def vmm_pde_def)

theorem vmm_map_page_out_of_memory_witness:
  "vmm_get_phys 0x400000 (vmm_map_page 0x801000 0x8000 2 (vmm_map_page 0x400000 0x7000 2 vm_exhausted)) = 0"
  using vmm_map_page_out_of_memory [OF vm_exhausted(1-4) vm_exhausted(5) vm_exhausted(5), of "0x400000" "0x801000" 2 "0x8000" "0x7000"]
  by (simp add: PAGE_DIR_INDEX_def PAGE_TBL_INDEX_def)

theorem vmm_tlb_stale_out_of_memory_witness:
  "\<not> tlb_coherent (fold vmm_apply [Map 0x400000 0x7000 2, Walk 0x400000, Map 0x801000 0x8000 2] vm_exhausted)"
  by (rule vmm_tlb_stale_out_of_memory [OF vm_exhausted(1-4) vm_exhausted(5) vm_exhausted(5)])
    (simp_all add: PAGE_DIR_INDEX_def PAGE_TBL_INDEX_def)

end
