(* ===== verification/Kernel_Heap.thy ===== *)
theory Kernel_Heap
  imports Phys_Memory
begin

text \<open>
  The kernel heap, \<^verbatim>\<open>mm/heap.c\<close>: a linked list of blocks, each a 13-byte packed header (magic
  number, size, free flag, next) followed by its payload.  Headers live in a store indexed by
  their address; \<^term>\<open>None\<close> there is memory that holds no header.  A function returns
  \<^term>\<open>None\<close> when the code would follow a pointer to memory that holds no header (or not
  return), \<^term>\<open>Inl\<close> when it panics and \<^term>\<open>Inr\<close> otherwise.  Payload bytes are a store of
  their own, which \<open>krealloc\<close> and \<open>kcalloc\<close> write.
\<close>

record heap_block =
  hb_magic :: u32
  hb_size :: u32
  hb_free :: bool
  hb_next :: u32

record heap =
  blocks :: "u32 \<rightharpoonup> heap_block"
  heap_start :: u32
  heap_end_addr :: u32
  heap_pmm :: pmm
  bytes :: "u32 \<Rightarrow> u8"

type_synonym 'a outcome = "(string + 'a) option"

abbreviation HEAP_MAGIC :: u32 where "HEAP_MAGIC \<equiv> 0xDEADBEEF"

text \<open>\<^verbatim>\<open>sizeof(heap_block_t)\<close> of the packed structure.\<close>

abbreviation HDR :: u32 where "HDR \<equiv> 13"

section \<open>Code\<close>

partial_function (option) heap_coalesce_from ::
  "(u32 \<rightharpoonup> heap_block) \<Rightarrow> u32 \<Rightarrow> (u32 \<rightharpoonup> heap_block) outcome" where
  "heap_coalesce_from bs cur =
     (if cur = 0 then Some (Inr bs)
      else do {
        c \<leftarrow> bs cur;
        if hb_next c = 0 then Some (Inr bs)
        else if hb_magic c \<noteq> HEAP_MAGIC then Some (Inl ''Heap corruption detected in coalesce'')
        else do {
          n \<leftarrow> bs (hb_next c);
          if hb_free c \<and> hb_free n
          then (if hb_magic n \<noteq> HEAP_MAGIC
                then Some (Inl ''Heap corruption detected in coalesce next'')
                else heap_coalesce_from
                  (bs(cur \<mapsto> c\<lparr>hb_size := hb_size c + (HDR + hb_size n), hb_next := hb_next n\<rparr>)) cur)
          else heap_coalesce_from bs (hb_next c)
        }
      })"

definition heap_coalesce :: "heap \<Rightarrow> heap outcome" where
  "heap_coalesce s =
     map_option (map_sum id (\<lambda>bs. s\<lparr>blocks := bs\<rparr>)) (heap_coalesce_from (blocks s) (heap_start s))"

text \<open>The loop of \<open>heap_init\<close> over the pages: the address of the first one, \<^term>\<open>None\<close> for a panic.\<close>

primrec heap_grab :: "nat \<Rightarrow> bool \<Rightarrow> u32 \<Rightarrow> pmm \<Rightarrow> (u32 \<times> pmm) option" where
  "heap_grab 0 is_first start p = Some (start, p)"
| "heap_grab (Suc n) is_first start p =
     (let (a, p') = pmm_alloc_page p
      in if a = 0 then None
         else heap_grab n False (if is_first then a else start) p')"

definition heap_init :: "u32 \<Rightarrow> u32 \<Rightarrow> u32 \<Rightarrow> heap \<Rightarrow> string + heap" where
  "heap_init kernel_end start sz s =
     (let start = (if start = 0 then ALIGN_UP (kernel_end + 0x100000) PAGE_SIZE else start);
          sz = (if sz < 0x100000 then 0x100000 else sz);
          pages = (sz + PAGE_SIZE - 1) div PAGE_SIZE
      in case heap_grab (unat pages) True start (heap_pmm s) of
           None \<Rightarrow> Inl ''Heap: Out of memory allocating initial heap pages''
         | Some (start, p) \<Rightarrow>
             Inr (s\<lparr>blocks := (blocks s)(start \<mapsto> \<lparr>hb_magic = HEAP_MAGIC,
                      hb_size = pages * PAGE_SIZE - HDR, hb_free = True, hb_next = 0\<rparr>),
                    heap_start := start, heap_end_addr := start + pages * PAGE_SIZE,
                    heap_pmm := p\<rparr>))"

text \<open>The search of \<open>kmalloc\<close>: the first free block that is large enough, and the last block visited.\<close>

partial_function (option) heap_find ::
  "(u32 \<rightharpoonup> heap_block) \<Rightarrow> u32 \<Rightarrow> u32 \<Rightarrow> u32 \<Rightarrow> (u32 option \<times> u32) outcome" where
  "heap_find bs req cur last_blk =
     (if cur = 0 then Some (Inr (None, last_blk))
      else do {
        c \<leftarrow> bs cur;
        if hb_magic c \<noteq> HEAP_MAGIC then Some (Inl ''Heap corruption detected'')
        else if hb_free c \<and> hb_size c \<ge> req then Some (Inr (Some cur, last_blk))
        else heap_find bs req (hb_next c) cur
      })"

definition heap_split :: "u32 \<Rightarrow> u32 \<Rightarrow> heap_block \<Rightarrow> (u32 \<rightharpoonup> heap_block) \<Rightarrow> (u32 \<rightharpoonup> heap_block)" where
  "heap_split req cur c bs =
     (if hb_size c \<ge> req + HDR + 16
      then (let nb = cur + HDR + req
            in bs(nb \<mapsto> \<lparr>hb_magic = HEAP_MAGIC, hb_size = hb_size c - req - HDR, hb_free = True,
                          hb_next = hb_next c\<rparr>,
                  cur \<mapsto> c\<lparr>hb_size := req, hb_next := nb, hb_free := False\<rparr>))
      else bs(cur \<mapsto> c\<lparr>hb_free := False\<rparr>))"

definition heap_expand :: "u32 \<Rightarrow> u32 \<Rightarrow> heap \<Rightarrow> (u32 \<times> heap) option" where
  "heap_expand req last_blk s =
     (let needed_pages = (req + HDR + PAGE_SIZE - 1) div PAGE_SIZE;
          (na, p1) = pmm_alloc_page (heap_pmm s)
      in if na = 0 then Some (0, s\<lparr>heap_pmm := p1\<rparr>)
         else do {
           let p2 = snd (alloc_pages pmm_alloc_page (unat needed_pages - 1) p1);
           let nb = \<lparr>hb_magic = HEAP_MAGIC, hb_size = needed_pages * PAGE_SIZE - HDR,
                     hb_free = False, hb_next = 0\<rparr>;
           let bs = (blocks s)(na \<mapsto> nb);
           s' \<leftarrow> (if last_blk \<noteq> 0
                 then do { l \<leftarrow> bs last_blk; Some (s\<lparr>blocks := bs(last_blk \<mapsto> l\<lparr>hb_next := na\<rparr>)\<rparr>) }
                 else Some (s\<lparr>blocks := bs, heap_start := na\<rparr>));
           Some (na + HDR, s'\<lparr>heap_end_addr := na + needed_pages * PAGE_SIZE, heap_pmm := p2,
                    blocks := heap_split req na nb (blocks s')\<rparr>)
         })"

definition kmalloc :: "u32 \<Rightarrow> heap \<Rightarrow> (u32 \<times> heap) outcome" where
  "kmalloc sz s =
     (if sz = 0 then Some (Inr (0, s))
      else do {
        let req = ALIGN_UP sz 4;
        r \<leftarrow> heap_find (blocks s) req (heap_start s) 0;
        case r of
          Inl e \<Rightarrow> Some (Inl e)
        | Inr (Some cur, _) \<Rightarrow> do {
            c \<leftarrow> blocks s cur;
            Some (Inr (cur + HDR, s\<lparr>blocks := heap_split req cur c (blocks s)\<rparr>))
          }
        | Inr (None, last_blk) \<Rightarrow> map_option Inr (heap_expand req last_blk s)
      })"

definition kfree :: "u32 \<Rightarrow> heap \<Rightarrow> heap outcome" where
  "kfree ptr s =
     (if ptr = 0 then Some (Inr s)
      else do {
        b \<leftarrow> blocks s (ptr - HDR);
        if hb_magic b \<noteq> HEAP_MAGIC then Some (Inl ''Heap corruption detected'')
        else heap_coalesce (s\<lparr>blocks := (blocks s)(ptr - HDR \<mapsto> b\<lparr>hb_free := True\<rparr>)\<rparr>)
      })"

text \<open>\<open>memcpy\<close> and \<open>memset\<close> on the byte store, byte by byte.\<close>

primrec store_copy :: "nat \<Rightarrow> u32 \<Rightarrow> u32 \<Rightarrow> (u32 \<Rightarrow> u8) \<Rightarrow> (u32 \<Rightarrow> u8)" where
  "store_copy 0 d s m = m"
| "store_copy (Suc n) d s m = store_copy n (d + 1) (s + 1) (m(d := m s))"

primrec store_fill :: "nat \<Rightarrow> u32 \<Rightarrow> u8 \<Rightarrow> (u32 \<Rightarrow> u8) \<Rightarrow> (u32 \<Rightarrow> u8)" where
  "store_fill 0 d c m = m"
| "store_fill (Suc n) d c m = store_fill n (d + 1) c (m(d := c))"

definition krealloc :: "u32 \<Rightarrow> u32 \<Rightarrow> heap \<Rightarrow> (u32 \<times> heap) outcome" where
  "krealloc ptr new_size s =
     (if ptr = 0 then kmalloc new_size s
      else if new_size = 0 then map_option (map_sum id (\<lambda>t. (0, t))) (kfree ptr s)
      else do {
        b \<leftarrow> blocks s (ptr - HDR);
        if hb_magic b \<noteq> HEAP_MAGIC then Some (Inl ''Heap corruption detected'')
        else if hb_size b \<ge> new_size then Some (Inr (ptr, s))
        else do {
          r \<leftarrow> kmalloc new_size s;
          case r of
            Inl e \<Rightarrow> Some (Inl e)
          | Inr (new_ptr, t) \<Rightarrow>
              if new_ptr = 0 then Some (Inr (0, t))
              else do {
                old \<leftarrow> blocks t (ptr - HDR);
                map_option (map_sum id (\<lambda>u. (new_ptr, u)))
                  (kfree ptr (t\<lparr>bytes := store_copy (unat (hb_size old)) new_ptr ptr (bytes t)\<rparr>))
              }
        }
      })"

definition kcalloc :: "u32 \<Rightarrow> u32 \<Rightarrow> heap \<Rightarrow> (u32 \<times> heap) outcome" where
  "kcalloc count sz s =
     map_option (map_sum id (\<lambda>(ptr, t).
        (ptr, if ptr \<noteq> 0 then t\<lparr>bytes := store_fill (unat (count * sz)) ptr 0 (bytes t)\<rparr> else t)))
       (kmalloc (count * sz) s)"

partial_function (option) heap_sum_from ::
  "(heap_block \<Rightarrow> bool) \<Rightarrow> (u32 \<rightharpoonup> heap_block) \<Rightarrow> u32 \<Rightarrow> u32 \<Rightarrow> u32 option" where
  "heap_sum_from want bs cur acc =
     (if cur = 0 then Some acc
      else do {
        c \<leftarrow> bs cur;
        heap_sum_from want bs (hb_next c)
          (if hb_magic c = HEAP_MAGIC \<and> want c then acc + hb_size c else acc)
      })"

definition heap_get_free :: "heap \<Rightarrow> u32 option" where
  "heap_get_free s = heap_sum_from hb_free (blocks s) (heap_start s) 0"

definition heap_get_used :: "heap \<Rightarrow> u32 option" where
  "heap_get_used s = heap_sum_from (\<lambda>c. \<not> hb_free c) (blocks s) (heap_start s) 0"

section \<open>The abstract heap: the list of its blocks\<close>

text \<open>A block is its address, its size and whether it is free.\<close>

type_synonym blk = "u32 \<times> u32 \<times> bool"

fun fit_alloc :: "u32 \<Rightarrow> blk list \<Rightarrow> (u32 \<times> blk list) option" where
  "fit_alloc req [] = None"
| "fit_alloc req ((a, sz, fr) # xs) =
     (if fr \<and> sz \<ge> req
      then Some (a + HDR, if sz \<ge> req + HDR + 16
                          then (a, req, False) # (a + HDR + req, sz - req - HDR, True) # xs
                          else (a, sz, False) # xs)
      else map_option (\<lambda>(p, ys). (p, (a, sz, fr) # ys)) (fit_alloc req xs))"

function merge_free :: "blk list \<Rightarrow> blk list" where
  "merge_free ((a, sz, fa) # (b, tz, fb) # xs) =
     (if fa \<and> fb then merge_free ((a, sz + (HDR + tz), True) # xs)
      else (a, sz, fa) # merge_free ((b, tz, fb) # xs))"
| "merge_free [] = []"
| "merge_free [x] = [x]"
  by pat_completeness auto
termination by (relation "measure length") auto

definition release :: "u32 \<Rightarrow> blk list \<Rightarrow> blk list" where
  "release a xs = map (\<lambda>(b, sz, fr). (b, sz, fr \<or> b = a)) xs"

text \<open>The headers in the store form the list.\<close>

fun heap_seg :: "(u32 \<rightharpoonup> heap_block) \<Rightarrow> u32 \<Rightarrow> blk list \<Rightarrow> bool" where
  "heap_seg bs p [] \<longleftrightarrow> p = 0"
| "heap_seg bs p ((a, sz, fr) # xs) \<longleftrightarrow> p = a \<and> a \<noteq> 0 \<and>
     (\<exists>n. bs a = Some \<lparr>hb_magic = HEAP_MAGIC, hb_size = sz, hb_free = fr, hb_next = n\<rparr> \<and> heap_seg bs n xs)"

text \<open>The blocks tile the addresses from \<open>lo\<close> to \<open>hi\<close> without gap or overlap.\<close>

fun tiles :: "nat \<Rightarrow> nat \<Rightarrow> blk list \<Rightarrow> bool" where
  "tiles lo hi [] \<longleftrightarrow> lo = hi"
| "tiles lo hi ((a, sz, fr) # xs) \<longleftrightarrow> unat a = lo \<and> tiles (lo + 13 + unat sz) hi xs"

definition heap_wf :: "heap \<Rightarrow> blk list \<Rightarrow> bool" where
  "heap_wf s xs \<longleftrightarrow> heap_seg (blocks s) (heap_start s) xs \<and> PAGE_SIZE \<le> heap_start s
     \<and> tiles (unat (heap_start s)) (unat (heap_end_addr s)) xs"

section \<open>Tilings\<close>

definition used_blocks :: "blk list \<Rightarrow> (u32 \<times> u32) set" where
  "used_blocks xs = {(a, sz). (a, sz, False) \<in> set xs}"

lemma used_blocks_simps [simp]:
  "used_blocks [] = {}"
  "used_blocks ((a, sz, fr) # xs) = (if fr then used_blocks xs else insert (a, sz) (used_blocks xs))"
  by (auto simp: used_blocks_def)

fun no_adjacent_free :: "blk list \<Rightarrow> bool" where
  "no_adjacent_free (x # y # xs) \<longleftrightarrow> \<not> (snd (snd x) \<and> snd (snd y)) \<and> no_adjacent_free (y # xs)"
| "no_adjacent_free _ \<longleftrightarrow> True"

lemma tiles_le: "tiles lo hi xs \<Longrightarrow> lo \<le> hi"
  by (induction lo hi xs rule: tiles.induct) auto

lemma tiles_mem:
  "tiles lo hi xs \<Longrightarrow> (a, sz, fr) \<in> set xs \<Longrightarrow> lo \<le> unat a \<and> unat a + 13 + unat sz \<le> hi"
  by (induction lo hi xs rule: tiles.induct) (auto dest: tiles_le)

lemma tiles_distinct: "tiles lo hi xs \<Longrightarrow> distinct (map fst xs)"
  by (induction lo hi xs rule: tiles.induct) (fastforce dest: tiles_mem)+

lemma heap_seg_frame:
  "heap_seg bs p xs \<Longrightarrow> (\<And>a. a \<in> fst ` set xs \<Longrightarrow> bs' a = bs a) \<Longrightarrow> heap_seg bs' p xs"
  by (induction bs p xs rule: heap_seg.induct) auto

lemma tiles_below:
  "tiles lo hi xs \<Longrightarrow> a \<in> fst ` set xs \<Longrightarrow> lo \<le> unat a"
  by (auto dest: tiles_mem)

section \<open>kmalloc refines the first fit on the list\<close>

lemma heap_split_seg:
  assumes seg: "heap_seg bs a ((a, sz, True) # xs)" and tiles: "tiles lo hi ((a, sz, True) # xs)"
    and bound: "4096 \<le> lo" "hi < 2 ^ 32" and req: "req \<le> sz"
    and ys: "ys = (if sz \<ge> req + HDR + 16
                   then (a, req, False) # (a + HDR + req, sz - req - HDR, True) # xs
                   else (a, sz, False) # xs)"
    and c: "bs a = Some c"
  shows "heap_seg (heap_split req a c bs) a ys" and "tiles lo hi ys"
    and "unat q < lo \<Longrightarrow> heap_split req a c bs q = bs q"
proof -
  obtain n where n: "bs a = Some \<lparr>hb_magic = HEAP_MAGIC, hb_size = sz, hb_free = True, hb_next = n\<rparr>"
    "heap_seg bs n xs" "a \<noteq> 0"
    using seg by auto
  then have c: "c = \<lparr>hb_magic = HEAP_MAGIC, hb_size = sz, hb_free = True, hb_next = n\<rparr>"
    using c by simp
  have a: "unat a = lo" and rest: "tiles (lo + 13 + unat sz) hi xs" using tiles by auto
  have le: "lo + 13 + unat sz \<le> hi" using tiles_le [OF rest] .
  have above: "lo + 13 + unat sz \<le> unat b" if "b \<in> fst ` set xs" for b
    using tiles_below [OF rest that] .
  have r: "unat req \<le> unat sz" using req by (simp add: word_le_nat_alt)
  have "heap_seg (heap_split req a c bs) a ys \<and> tiles lo hi ys
      \<and> (unat q < lo \<longrightarrow> heap_split req a c bs q = bs q)"
  proof (cases "sz \<ge> req + HDR + 16")
    case True
    have "req + HDR + 16 = req + of_nat 29" by simp
    then have "unat (req + HDR + 16) = unat req + 29"
      using unat_Suc_small [of req 29] r le bound by (simp add: add.commute)
    then have big: "unat req + 29 \<le> unat sz" using True by (simp add: word_le_nat_alt)
    have "a + HDR + req = a + of_nat (13 + unat req)" by simp
    then have nb: "unat (a + HDR + req) = lo + 13 + unat req"
      using unat_Suc_small [of a "13 + unat req"] a le bound big by (simp add: add.assoc)
    have "sz = (req + HDR) + of_nat (unat sz - unat req - 13)"
      using big by (simp add: of_nat_diff)
    then have "sz - req - HDR = of_nat (unat sz - unat req - 13)"
      by (metis (no_types) add_diff_cancel_left' diff_diff_eq)
    then have rem: "unat (sz - req - HDR) = unat sz - unat req - 13"
      using u32_unat_lt [of sz] unat_of_nat_small [of "unat sz - unat req - 13", where 'a = 32] by simp
    have ne: "a + HDR + req \<noteq> a" "a + HDR + req \<noteq> 0"
      using nb a bound by (auto simp: word_eq_unat_iff)
    have ne': "a + HDR + req \<notin> fst ` set xs"
      by (rule notI, drule above) (use nb big in linarith)
    have "a \<notin> fst ` set xs" by (rule notI, drule above) (use a in linarith)
    note ne = ne ne' this
    let ?bs = "heap_split req a c bs"
    have bs: "?bs = bs(a + HDR + req \<mapsto> \<lparr>hb_magic = HEAP_MAGIC, hb_size = sz - req - HDR,
        hb_free = True, hb_next = n\<rparr>, a \<mapsto> c\<lparr>hb_size := req, hb_next := a + HDR + req, hb_free := False\<rparr>)"
      using True by (simp add: heap_split_def c Let_def)
    have "?bs b = bs b" if "b \<in> fst ` set xs" for b
    proof -
      have "b \<noteq> a" "b \<noteq> a + HDR + req" using ne that by metis+
      then show ?thesis unfolding bs by (simp only: fun_upd_other not_False_eq_True)
    qed
    with n(2) have "heap_seg ?bs n xs" by (rule heap_seg_frame)
    moreover have "?bs a = Some (c\<lparr>hb_size := req, hb_next := a + HDR + req, hb_free := False\<rparr>)"
      unfolding bs by (rule fun_upd_same)
    moreover have "?bs (a + HDR + req) = Some \<lparr>hb_magic = HEAP_MAGIC, hb_size = sz - req - HDR,
        hb_free = True, hb_next = n\<rparr>"
      unfolding bs using ne(1) by (simp only: fun_upd_other fun_upd_same not_False_eq_True)
    ultimately have 1: "heap_seg ?bs a ys" using True n(3) ne(2) ys by (simp add: c)
    have e: "lo + 13 + unat req + 13 + unat (sz - req - HDR) = lo + 13 + unat sz"
      using rem big by linarith
    have "tiles (lo + 13 + unat req + 13 + unat (sz - req - HDR)) hi xs" unfolding e by (rule rest)
    then have 2: "tiles lo hi ys" using True a nb ys by simp
    have 3: "?bs q = bs q" if "unat q < lo"
    proof -
      have "q \<noteq> a" "q \<noteq> a + HDR + req" using that a nb by auto
      then show ?thesis by (simp add: bs)
    qed
    from 1 2 3 show ?thesis by blast
  next
    case False
    then have bs: "heap_split req a c bs = bs(a \<mapsto> c\<lparr>hb_free := False\<rparr>)"
      by (simp add: heap_split_def c)
    have "a \<notin> fst ` set xs" using above a by fastforce
    then have "heap_seg (heap_split req a c bs) n xs"
      by (intro heap_seg_frame [OF n(2)]) (auto simp: bs)
    moreover have "heap_split req a c bs a = Some (c\<lparr>hb_free := False\<rparr>)" by (simp add: bs)
    ultimately have 1: "heap_seg (heap_split req a c bs) a ys" using n(3) False ys by (simp add: c)
    have 2: "tiles lo hi ys" using False a rest ys by simp
    have 3: "heap_split req a c bs q = bs q" if "unat q < lo" using that a by (auto simp: bs)
    from 1 2 3 show ?thesis by blast
  qed
  then show "heap_seg (heap_split req a c bs) a ys" and "tiles lo hi ys"
    and "unat q < lo \<Longrightarrow> heap_split req a c bs q = bs q" by blast+
qed

lemma heap_find_None:
  "heap_seg bs p xs \<Longrightarrow> fit_alloc req xs = None \<Longrightarrow>
   heap_find bs req p l = Some (Inr (None, if xs = [] then l else fst (last xs)))"
proof (induction xs arbitrary: p l)
  case Nil
  then show ?case by (simp add: heap_find.simps)
next
  case (Cons x xs)
  obtain a sz fr where x: "x = (a, sz, fr)" by (cases x)
  obtain n where n: "bs a = Some \<lparr>hb_magic = HEAP_MAGIC, hb_size = sz, hb_free = fr, hb_next = n\<rparr>"
    "heap_seg bs n xs" "a \<noteq> 0" "p = a"
    using Cons.prems x by auto
  have "\<not> (fr \<and> sz \<ge> req)" "fit_alloc req xs = None" using Cons.prems(2) x by (auto split: if_splits)
  with Cons.IH [OF n(2), of p] n x show ?case by (subst heap_find.simps) simp
qed

lemma heap_find_Some:
  "heap_seg bs p xs \<Longrightarrow> tiles lo hi xs \<Longrightarrow> 4096 \<le> lo \<Longrightarrow> hi < 2 ^ 32 \<Longrightarrow>
   fit_alloc req xs = Some (r, ys) \<Longrightarrow>
   \<exists>cur l' c. heap_find bs req p l = Some (Inr (Some cur, l')) \<and> bs cur = Some c \<and> r = cur + HDR
     \<and> heap_seg (heap_split req cur c bs) p ys \<and> tiles lo hi ys
     \<and> (\<forall>q. unat q < lo \<longrightarrow> heap_split req cur c bs q = bs q)"
proof (induction xs arbitrary: p l lo ys)
  case Nil
  then show ?case by simp
next
  case (Cons x xs)
  obtain a sz fr where x: "x = (a, sz, fr)" by (cases x)
  obtain n where n: "bs a = Some \<lparr>hb_magic = HEAP_MAGIC, hb_size = sz, hb_free = fr, hb_next = n\<rparr>"
    "heap_seg bs n xs" "a \<noteq> 0" "p = a"
    using Cons.prems x by auto
  show ?case
  proof (cases "fr \<and> sz \<ge> req")
    case True
    then have "heap_find bs req p l = Some (Inr (Some a, l))" using n by (subst heap_find.simps) simp
    moreover have "r = a + HDR" using Cons.prems(5) x True by simp
    moreover have ys: "ys = (if sz \<ge> req + HDR + 16
                   then (a, req, False) # (a + HDR + req, sz - req - HDR, True) # xs
                   else (a, sz, False) # xs)"
      using Cons.prems(5) x True by simp
    moreover have seg: "heap_seg bs a ((a, sz, True) # xs)" "tiles lo hi ((a, sz, True) # xs)"
      using Cons.prems(1,2) x n True by simp_all
    ultimately show ?thesis
      using heap_split_seg [OF seg Cons.prems(3,4) _ ys n(1)] True n(1,4) by auto
  next
    case False
    obtain zs where zs: "fit_alloc req xs = Some (r, zs)" "ys = (a, sz, fr) # zs"
      using Cons.prems(5) x False by (auto split: if_splits)
    have rest: "tiles (lo + 13 + unat sz) hi xs" "4096 \<le> lo + 13 + unat sz" "unat a = lo"
      using Cons.prems x by auto
    from Cons.IH [OF n(2) rest(1,2) Cons.prems(4) zs(1), of a]
    obtain cur l' c where IH: "heap_find bs req n a = Some (Inr (Some cur, l'))" "bs cur = Some c"
      "r = cur + HDR" "heap_seg (heap_split req cur c bs) n zs" "tiles (lo + 13 + unat sz) hi zs"
      "\<forall>q. unat q < lo + 13 + unat sz \<longrightarrow> heap_split req cur c bs q = bs q"
      by blast
    have "heap_find bs req p l = Some (Inr (Some cur, l'))"
      using n False IH(1) by (subst heap_find.simps) auto
    moreover have "heap_seg (heap_split req cur c bs) p ys" "tiles lo hi ys"
      using IH n zs rest(3) by simp_all
    ultimately show ?thesis using IH by auto
  qed
qed


lemma fit_alloc_Some:
  assumes "fit_alloc req xs = Some (p, ys)"
  shows "\<exists>a sz sz'. p = a + HDR \<and> (a, sz, True) \<in> set xs \<and> req \<le> sz' \<and> sz' \<le> sz
    \<and> (a, sz', False) \<in> set ys \<and> used_blocks ys = insert (a, sz') (used_blocks xs)"
  using assms
proof (induction req xs arbitrary: ys rule: fit_alloc.induct)
  case (2 req a sz fr xs)
  show ?case
  proof (cases "fr \<and> sz \<ge> req")
    case True
    show ?thesis
      by (rule exI [of _ a], rule exI [of _ sz], rule exI [of _ "if sz \<ge> req + HDR + 16 then req else sz"])
        (use 2(2) True in auto)
  next
    case False
    then obtain zs where "fit_alloc req xs = Some (p, zs)" "ys = (a, sz, fr) # zs"
      using 2(2) by (auto split: if_splits)
    with 2(1) [OF False] show ?thesis by (auto split: if_splits)
  qed
qed simp

section \<open>kfree refines release and merge on the list\<close>

lemma heap_coalesce_from_seg:
  "heap_seg bs p xs \<Longrightarrow> distinct (map fst xs) \<Longrightarrow>
   \<exists>bs'. heap_coalesce_from bs p = Some (Inr bs') \<and> heap_seg bs' p (merge_free xs)
     \<and> (\<forall>q. q \<notin> fst ` set xs \<longrightarrow> bs' q = bs q)"
proof (induction xs arbitrary: bs p rule: merge_free.induct)
  case (1 a sz fa b tz fb xs)
  obtain n where n: "bs a = Some \<lparr>hb_magic = HEAP_MAGIC, hb_size = sz, hb_free = fa, hb_next = b\<rparr>"
    "bs b = Some \<lparr>hb_magic = HEAP_MAGIC, hb_size = tz, hb_free = fb, hb_next = n\<rparr>"
    "heap_seg bs n xs" "a \<noteq> 0" "b \<noteq> 0" "p = a"
    using 1(3) by auto
  show ?case
  proof (cases "fa \<and> fb")
    case True
    define bs1 where "bs1 = bs(a \<mapsto> \<lparr>hb_magic = HEAP_MAGIC, hb_size = sz + (HDR + tz), hb_free = True, hb_next = n\<rparr>)"
    have "heap_seg bs1 n xs" using n(3) by (rule heap_seg_frame) (use 1(4) in \<open>auto simp: bs1_def\<close>)
    then have "heap_seg bs1 p ((a, sz + (HDR + tz), True) # xs)" using n by (simp add: bs1_def)
    from 1(1) [OF True this] 1(4) obtain bs' where IH: "heap_coalesce_from bs1 p = Some (Inr bs')"
      "heap_seg bs' p (merge_free ((a, sz + (HDR + tz), True) # xs))"
      "\<forall>q. q \<notin> insert a (fst ` set xs) \<longrightarrow> bs' q = bs1 q"
      by auto
    have "heap_coalesce_from bs p = heap_coalesce_from bs1 p"
      using n True by (subst heap_coalesce_from.simps) (simp add: bs1_def)
    with IH True show ?thesis by (auto simp: bs1_def)
  next
    case False
    have "heap_seg bs b ((b, tz, fb) # xs)" using n by simp
    from 1(2) [OF False this] 1(4) obtain bs' where IH: "heap_coalesce_from bs b = Some (Inr bs')"
      "heap_seg bs' b (merge_free ((b, tz, fb) # xs))"
      "\<forall>q. q \<notin> insert b (fst ` set xs) \<longrightarrow> bs' q = bs q"
      by auto
    have "bs' a = bs a" using IH(3) 1(4) by auto
    then have "heap_seg bs' p (merge_free ((a, sz, fa) # (b, tz, fb) # xs))"
      using False IH(2) n by auto
    moreover have "heap_coalesce_from bs p = heap_coalesce_from bs b"
      using n False by (subst heap_coalesce_from.simps) auto
    ultimately show ?thesis using IH by auto
  qed
next
  case 2
  then show ?case by (simp add: heap_coalesce_from.simps)
next
  case (3 x)
  then show ?case by (cases x) (auto simp: heap_coalesce_from.simps)
qed

lemma tiles_merge:
  "tiles lo hi xs \<Longrightarrow> hi < 2 ^ 32 \<Longrightarrow> tiles lo hi (merge_free xs)"
proof (induction xs arbitrary: lo rule: merge_free.induct)
  case (1 a sz fa b tz fb xs)
  show ?case
  proof (cases "fa \<and> fb")
    case True
    have "sz + (HDR + tz) = sz + of_nat (13 + unat tz)" by simp
    moreover have "unat sz + (13 + unat tz) < 2 ^ 32"
      using 1(3,4) tiles_le by fastforce
    ultimately have "unat (sz + (HDR + tz)) = unat sz + (13 + unat tz)" using unat_Suc_small by metis
    with 1 True show ?thesis by (simp add: add.assoc)
  qed (use 1 in auto)
qed simp_all

lemma used_merge: "used_blocks (merge_free xs) = used_blocks xs"
  by (induction xs rule: merge_free.induct) auto

lemma merge_free_hd: "xs \<noteq> [] \<Longrightarrow> merge_free xs \<noteq> [] \<and> (snd (snd (hd (merge_free xs))) = snd (snd (hd xs)))"
  by (induction xs rule: merge_free.induct) auto

lemma no_adjacent_merge: "no_adjacent_free (merge_free xs)"
proof (induction xs rule: merge_free.induct)
  case (1 a sz fa b tz fb xs)
  show ?case
  proof (cases "fa \<and> fb")
    case False
    obtain y ys where "merge_free ((b, tz, fb) # xs) = y # ys"
      using merge_free_hd [of "(b, tz, fb) # xs"] by (cases "merge_free ((b, tz, fb) # xs)") auto
    with 1(2) [OF False] False merge_free_hd [of "(b, tz, fb) # xs"] show ?thesis by auto
  qed (use 1 in auto)
qed simp_all

lemma merge_free_id: "no_adjacent_free xs \<Longrightarrow> merge_free xs = xs"
  by (induction xs rule: merge_free.induct) auto

lemma release_simps [simp]:
  "release c [] = []" "release c ((a, sz, fr) # xs) = (a, sz, fr \<or> a = c) # release c xs"
  by (auto simp: release_def)

lemma fst_release [simp]: "map fst (release c xs) = map fst xs" "fst ` set (release c xs) = fst ` set xs"
proof -
  show "map fst (release c xs) = map fst xs" by (induction xs) auto
  then show "fst ` set (release c xs) = fst ` set xs" by (metis list.set_map)
qed

lemma tiles_release [simp]: "tiles lo hi (release c xs) = tiles lo hi xs"
  by (induction lo hi xs rule: tiles.induct) auto

lemma used_release: "used_blocks (release c xs) = {(a, sz) \<in> used_blocks xs. a \<noteq> c}"
  by (induction xs) (auto split: if_splits)

lemma release_absent: "c \<notin> fst ` set xs \<Longrightarrow> release c xs = xs"
  by (induction xs) auto

lemma heap_seg_release:
  "heap_seg bs p xs \<Longrightarrow> distinct (map fst xs) \<Longrightarrow> bs c = Some b \<Longrightarrow> c \<in> fst ` set xs \<Longrightarrow>
   heap_seg (bs(c \<mapsto> b\<lparr>hb_free := True\<rparr>)) p (release c xs)"
proof (induction xs arbitrary: p)
  case (Cons x xs)
  obtain a sz fr where x: "x = (a, sz, fr)" by (cases x)
  obtain n where n: "bs a = Some \<lparr>hb_magic = HEAP_MAGIC, hb_size = sz, hb_free = fr, hb_next = n\<rparr>"
    "heap_seg bs n xs" "a \<noteq> 0" "p = a"
    using Cons.prems x by auto
  show ?case
  proof (cases "a = c")
    case True
    have "release c xs = xs" using Cons.prems(2) x True by (intro release_absent) auto
    moreover have "heap_seg (bs(c \<mapsto> b\<lparr>hb_free := True\<rparr>)) n xs"
      using n(2) by (rule heap_seg_frame) (use Cons.prems(2) x True in auto)
    ultimately show ?thesis using n x True Cons.prems(3) by (auto simp del: fun_upd_apply simp: fun_upd_same)
  next
    case False
    then show ?thesis using Cons n x by auto
  qed
qed simp

section \<open>The operations on a well-formed heap\<close>

lemma tiles_disjoint:
  assumes "tiles lo hi xs" "(a, sz, fa) \<in> set xs" "(b, tz, fb) \<in> set xs" "a \<noteq> b"
  shows "unat a + 13 + unat sz \<le> unat b \<or> unat b + 13 + unat tz \<le> unat a"
  using assms by (induction lo hi xs rule: tiles.induct) (auto dest: tiles_mem)

lemma tiles_unique:
  "tiles lo hi xs \<Longrightarrow> (a, sz, fa) \<in> set xs \<Longrightarrow> (a, tz, fb) \<in> set xs \<Longrightarrow> sz = tz \<and> fa = fb"
  by (drule tiles_distinct) (auto dest: eq_key_imp_eq_value)

lemma heap_wfD:
  assumes "heap_wf s xs"
  shows "heap_seg (blocks s) (heap_start s) xs"
    and "tiles (unat (heap_start s)) (unat (heap_end_addr s)) xs"
    and "4096 \<le> unat (heap_start s)" and "unat (heap_end_addr s) < 2 ^ 32"
  using assms u32_unat_lt [of "heap_end_addr s"] by (simp_all add: heap_wf_def word_le_nat_alt)

lemma heap_seg_mem:
  "heap_seg bs p xs \<Longrightarrow> (a, sz, fr) \<in> set xs \<Longrightarrow>
   \<exists>n. bs a = Some \<lparr>hb_magic = HEAP_MAGIC, hb_size = sz, hb_free = fr, hb_next = n\<rparr>"
  by (induction bs p xs rule: heap_seg.induct) auto

lemma unat_ALIGN_UP_4:
  assumes "x \<le> 0xFFFFFFFC"
  shows "unat (ALIGN_UP x 4) = (unat x + 3) div 4 * 4"
proof -
  have x: "unat (x + 3) = unat x + 3"
    using assms unat_Suc_small [of x 3] by (simp add: word_le_nat_alt)
  have "ALIGN_UP x 4 = (x + 3) AND NOT (mask 2)"
    by (simp add: ALIGN_UP_def mask_eq_exp_minus_1 add.commute)
  then show ?thesis by (simp only: and_not_mask_unat x) simp
qed

lemma ALIGN_UP_4_ge: "x \<le> 0xFFFFFFFC \<Longrightarrow> x \<le> ALIGN_UP x 4"
  by (simp add: word_le_nat_alt unat_ALIGN_UP_4)


lemma kmalloc_fits:
  assumes wf: "heap_wf s xs" and "sz \<noteq> 0" and fit: "fit_alloc (ALIGN_UP sz 4) xs = Some (p, ys)"
  shows "\<exists>t. kmalloc sz s = Some (Inr (p, t)) \<and> heap_wf t ys \<and> bytes t = bytes s"
proof -
  note w = heap_wfD [OF wf]
  from heap_find_Some [OF w fit, of 0] obtain cur l' c where f:
    "heap_find (blocks s) (ALIGN_UP sz 4) (heap_start s) 0 = Some (Inr (Some cur, l'))"
    "blocks s cur = Some c" "p = cur + HDR"
    "heap_seg (heap_split (ALIGN_UP sz 4) cur c (blocks s)) (heap_start s) ys"
    "tiles (unat (heap_start s)) (unat (heap_end_addr s)) ys"
    by blast
  then have "kmalloc sz s = Some (Inr (p, s\<lparr>blocks := heap_split (ALIGN_UP sz 4) cur c (blocks s)\<rparr>))"
    using assms(2) by (simp add: kmalloc_def Let_def)
  with f wf show ?thesis by (simp add: heap_wf_def)
qed

lemma kfree_used:
  assumes wf: "heap_wf s xs" and mem: "(a, sz) \<in> used_blocks xs"
  shows "\<exists>t. kfree (a + HDR) s = Some (Inr t) \<and> heap_wf t (merge_free (release a xs)) \<and> bytes t = bytes s
    \<and> heap_end_addr t = heap_end_addr s \<and> heap_start t = heap_start s"
proof -
  note w = heap_wfD [OF wf]
  have m: "(a, sz, False) \<in> set xs" using mem by (simp add: used_blocks_def)
  obtain b where b: "blocks s a = Some b" "hb_magic b = HEAP_MAGIC"
    using heap_seg_mem [OF w(1) m] by auto
  have d: "distinct (map fst xs)" using tiles_distinct [OF w(2)] .
  define bs where "bs = (blocks s)(a \<mapsto> b\<lparr>hb_free := True\<rparr>)"
  have "a \<in> fst ` set xs" using m by force
  from heap_seg_release [OF w(1) d b(1) this]
  have "heap_seg bs (heap_start s) (release a xs)" by (simp add: bs_def)
  from heap_coalesce_from_seg [OF this] d obtain bs' where bs':
    "heap_coalesce_from bs (heap_start s) = Some (Inr bs')"
    "heap_seg bs' (heap_start s) (merge_free (release a xs))"
    by auto
  have "13 \<le> unat (a + HDR)"
  proof -
    have "unat a + 13 < 2 ^ 32" using tiles_mem [OF w(2) m] w(4) by linarith
    then show ?thesis using unat_Suc_small [of a 13] by simp
  qed
  then have "a + HDR \<noteq> 0" by auto
  then have "kfree (a + HDR) s = Some (Inr (s\<lparr>blocks := bs'\<rparr>))"
    using b bs'(1) by (simp add: kfree_def heap_coalesce_def bs_def)
  moreover have "heap_wf (s\<lparr>blocks := bs'\<rparr>) (merge_free (release a xs))"
    using bs'(2) tiles_merge [OF _ w(4), of _ "release a xs"] w(2) wf by (simp add: heap_wf_def)
  ultimately show ?thesis by simp
qed

section \<open>Properties\<close>

lemma fit_alloc_exists:
  "(a, sz, True) \<in> set xs \<Longrightarrow> req \<le> sz \<Longrightarrow> \<exists>p ys. fit_alloc req xs = Some (p, ys)"
  by (induction req xs rule: fit_alloc.induct) (auto split: if_splits)

lemma heap_wf_disjoint:
  "heap_wf s xs \<Longrightarrow> (a, sz) \<in> used_blocks xs \<Longrightarrow> (b, tz) \<in> used_blocks xs \<Longrightarrow> a \<noteq> b \<Longrightarrow>
   unat a + 13 + unat sz \<le> unat b \<or> unat b + 13 + unat tz \<le> unat a"
  using tiles_disjoint heap_wfD(2) by (fastforce simp: used_blocks_def)

text \<open>C4: in a well-formed heap with a free block that is large enough, \<open>kmalloc\<close> returns a block of at
  least the requested size, which overlaps no block in use; the blocks in use are the old ones and
  this one, and the list stays a tiling of the heap.\<close>

theorem kmalloc_correct:
  assumes "heap_wf s xs" and "0 < sz" and "sz \<le> 0xFFFFFFFC"
    and "(b, bz, True) \<in> set xs" and "ALIGN_UP sz 4 \<le> bz"
  shows "\<exists>a az t ys. kmalloc sz s = Some (Inr (a + HDR, t)) \<and> sz \<le> az \<and> heap_wf t ys
    \<and> used_blocks ys = insert (a, az) (used_blocks xs)
    \<and> (\<forall>(c, cz) \<in> used_blocks xs. unat c + 13 + unat cz \<le> unat a \<or> unat a + 13 + unat az \<le> unat c)"
proof -
  obtain p ys where fit: "fit_alloc (ALIGN_UP sz 4) xs = Some (p, ys)"
    using fit_alloc_exists [OF assms(4,5)] by blast
  obtain a az0 az where a: "p = a + HDR" "(a, az0, True) \<in> set xs" "ALIGN_UP sz 4 \<le> az"
    "used_blocks ys = insert (a, az) (used_blocks xs)"
    using fit_alloc_Some [OF fit] by blast
  obtain t where t: "kmalloc sz s = Some (Inr (p, t))" "heap_wf t ys"
    using kmalloc_fits [OF assms(1) _ fit] assms(2) by auto
  have "unat c + 13 + unat cz \<le> unat a \<or> unat a + 13 + unat az \<le> unat c"
    if c: "(c, cz) \<in> used_blocks xs" for c cz
  proof -
    have "c \<noteq> a" using tiles_unique [OF heap_wfD(2) [OF assms(1)] a(2)] c by (auto simp: used_blocks_def)
    with heap_wf_disjoint [OF t(2), of c cz a az] c a(4) show ?thesis by simp
  qed
  moreover have "sz \<le> az" using ALIGN_UP_4_ge [OF assms(3)] a(3) by simp
  ultimately show ?thesis using t a by blast
qed

text \<open>C5: \<open>kfree\<close> of a block in use gives back exactly that block: every other block in use keeps
  its place and size, the list stays a tiling of the heap, and no two free blocks are left adjacent.\<close>

theorem kfree_correct:
  assumes "heap_wf s xs" and "(a, sz) \<in> used_blocks xs"
  shows "\<exists>t ys. kfree (a + HDR) s = Some (Inr t) \<and> heap_wf t ys
    \<and> used_blocks ys = used_blocks xs - {(a, sz)} \<and> no_adjacent_free ys"
proof -
  have "{(b, tz) \<in> used_blocks xs. b \<noteq> a} = used_blocks xs - {(a, sz)}"
    using assms(2) tiles_unique [OF heap_wfD(2) [OF assms(1)]] by (auto simp: used_blocks_def)
  then have "used_blocks (merge_free (release a xs)) = used_blocks xs - {(a, sz)}"
    by (simp only: used_merge used_release)
  with kfree_used [OF assms] no_adjacent_merge show ?thesis by blast
qed

lemma merge_release_fit:
  assumes "fit_alloc req xs = Some (p, ys)" and "no_adjacent_free xs" and "tiles lo hi xs"
    and "hi < 2 ^ 32" and "4096 \<le> lo"
  shows "merge_free (release (p - HDR) ys) = xs"
  using assms
proof (induction req xs arbitrary: ys lo rule: fit_alloc.induct)
  case (2 req a sz fr xs)
  show ?case
  proof (cases "fr \<and> sz \<ge> req")
    case True
    have above: "unat a < unat b" if "b \<in> fst ` set xs" for b
      using 2(4) tiles_below [of "lo + 13 + unat sz" hi xs b] that by auto
    then have abs: "release a xs = xs" by (intro release_absent) blast
    have xs: "\<not> (xs \<noteq> [] \<and> snd (snd (hd xs)))" "no_adjacent_free xs"
      using 2(3) True by (cases xs; auto)+
    have id: "merge_free ((a, sz, True) # xs) = (a, sz, True) # xs"
      using 2(3) True by (intro merge_free_id) simp
    show ?thesis
      using 2(2) True abs id by (cases "sz \<ge> req + HDR + 16") (auto simp: algebra_simps)
  next
    case False
    obtain zs where zs: "fit_alloc req xs = Some (p, zs)" "ys = (a, sz, fr) # zs"
      using 2(2) False by (auto split: if_splits)
    have na: "no_adjacent_free xs" using 2(3) by (cases xs) auto
    have t: "tiles (lo + 13 + unat sz) hi xs" "unat a = lo" using 2(4) by auto
    have IH: "merge_free (release (p - HDR) zs) = xs"
      using 2(1) [OF False zs(1) na t(1) 2(5)] 2(6) by simp
    obtain b bz where b: "p = b + HDR" "(b, bz, True) \<in> set xs" using fit_alloc_Some [OF zs(1)] by blast
    have "a \<noteq> p - HDR" using tiles_mem [OF t(1) b(2)] t(2) b(1) by auto
    then have rel: "release (p - HDR) ys = (a, sz, fr) # release (p - HDR) zs" using zs by simp
    show ?thesis
    proof (cases "release (p - HDR) zs")
      case Nil
      with IH rel show ?thesis by simp
    next
      case (Cons y us)
      obtain c cz fc where y: "y = (c, cz, fc)" by (cases y)
      have "merge_free ((c, cz, fc) # us) = xs" using IH Cons y by simp
      moreover from this have "xs \<noteq> [] \<and> snd (snd (hd xs)) = fc"
        using merge_free_hd [of "(c, cz, fc) # us"] by simp
      then have "\<not> (fr \<and> fc)" using 2(3) by (cases xs) auto
      ultimately show ?thesis using rel Cons y by auto
    qed
  qed
qed simp

text \<open>Releasing a block that was just allocated restores the block list: \<open>kmalloc\<close> followed by
  \<open>kfree\<close> loses no memory and leaves no fragmentation behind.\<close>

theorem kmalloc_kfree_roundtrip:
  assumes "heap_wf s xs" and "no_adjacent_free xs" and "0 < sz"
    and "(b, bz, True) \<in> set xs" and "ALIGN_UP sz 4 \<le> bz"
  shows "\<exists>p t u. kmalloc sz s = Some (Inr (p, t)) \<and> kfree p t = Some (Inr u) \<and> heap_wf u xs"
proof -
  obtain p ys where fit: "fit_alloc (ALIGN_UP sz 4) xs = Some (p, ys)"
    using fit_alloc_exists [OF assms(4,5)] by blast
  obtain a az where a: "p = a + HDR" "(a, az) \<in> used_blocks ys"
    using fit_alloc_Some [OF fit] by (auto simp: used_blocks_def)
  obtain t where t: "kmalloc sz s = Some (Inr (p, t))" "heap_wf t ys"
    using kmalloc_fits [OF assms(1) _ fit] assms(3) by auto
  have "merge_free (release a ys) = xs"
    using merge_release_fit [OF fit assms(2) heap_wfD(2,4,3) [OF assms(1)]] a by simp
  with kfree_used [OF t(2) a(2)] t(1) a(1) show ?thesis by auto
qed

lemma heap_sum_from_seg:
  assumes w: "\<And>sz fr n. want \<lparr>hb_magic = HEAP_MAGIC, hb_size = sz, hb_free = fr, hb_next = n\<rparr> = w fr"
  shows "heap_seg bs p xs \<Longrightarrow>
    heap_sum_from want bs p acc = Some (acc + (\<Sum>(a, sz, fr) \<leftarrow> xs. if w fr then sz else 0))"
proof (induction xs arbitrary: p acc)
  case Nil
  then show ?case by (simp add: heap_sum_from.simps)
next
  case (Cons x xs)
  obtain a sz fr where x: "x = (a, sz, fr)" by (cases x)
  obtain n where n: "bs a = Some \<lparr>hb_magic = HEAP_MAGIC, hb_size = sz, hb_free = fr, hb_next = n\<rparr>"
    "heap_seg bs n xs" "a \<noteq> 0" "p = a"
    using Cons.prems x by auto
  with Cons.IH [OF n(2)] w x show ?case by (subst heap_sum_from.simps) (simp add: add.assoc)
qed

lemma tiles_sum:
  "tiles lo hi xs \<Longrightarrow> (of_nat lo :: u32) + (\<Sum>(a, sz, fr) \<leftarrow> xs. if fr then sz else 0)
     + (\<Sum>(a, sz, fr) \<leftarrow> xs. if \<not> fr then sz else 0) + HDR * of_nat (length xs) = of_nat hi"
  by (induction lo hi xs rule: tiles.induct) (auto simp: algebra_simps)

text \<open>The accounting functions are exact: on a well-formed heap the bytes free, the bytes in use
  and the headers add up to the extent of the heap.\<close>

theorem heap_accounting:
  assumes "heap_wf s xs"
  shows "\<exists>f u. heap_get_free s = Some f \<and> heap_get_used s = Some u
    \<and> f + u + HDR * of_nat (length xs) = heap_end_addr s - heap_start s"
proof -
  note w = heap_wfD [OF assms]
  let ?f = "\<Sum>(a, sz, fr) \<leftarrow> xs. if fr then sz else 0"
  let ?u = "\<Sum>(a, sz, fr) \<leftarrow> xs. if \<not> fr then sz else 0"
  have "heap_get_free s = Some (0 + ?f)"
    unfolding heap_get_free_def using w(1) by (intro heap_sum_from_seg) simp_all
  moreover have "heap_get_used s = Some (0 + ?u)"
    unfolding heap_get_used_def using w(1) by (intro heap_sum_from_seg) simp_all
  moreover have "heap_start s + ?f + ?u + HDR * of_nat (length xs) = heap_end_addr s"
    using tiles_sum [OF w(2)] by simp
  then have "?f + ?u + HDR * of_nat (length xs) = heap_end_addr s - heap_start s"
    by (metis (no_types, lifting) add.assoc add_diff_cancel_left')
  ultimately show ?thesis by simp
qed

section \<open>krealloc\<close>

lemma store_copy_other:
  "(\<And>i. i < n \<Longrightarrow> q \<noteq> d + of_nat i) \<Longrightarrow> store_copy n d s m q = m q"
proof (induction n arbitrary: d s m)
  case (Suc n)
  have "q \<noteq> d" using Suc.prems [of 0] by simp
  moreover have "q \<noteq> d + 1 + of_nat i" if "i < n" for i
    using Suc.prems [of "Suc i"] that by (simp add: add.assoc)
  ultimately show ?case using Suc.IH [of "d + 1" "s + 1"] by simp
qed simp

lemma store_copy_disjoint:
  "unat s + n < 2 ^ 32 \<Longrightarrow> unat d + n < 2 ^ 32 \<Longrightarrow> unat s + n \<le> unat d \<or> unat d + n \<le> unat s \<Longrightarrow>
   i < n \<Longrightarrow> store_copy n d s m (d + of_nat i) = m (s + of_nat i)"
proof (induction n arbitrary: d s m i)
  case (Suc n)
  have s: "unat (s + 1) = Suc (unat s)" and d: "unat (d + 1) = Suc (unat d)"
    using unat_Suc_small [of s 1] unat_Suc_small [of d 1] Suc.prems by simp_all
  show ?case
  proof (cases i)
    case 0
    have "d \<noteq> d + 1 + of_nat j" if "j < n" for j
    proof -
      have "unat (d + 1 + of_nat j) = Suc (unat d) + j"
        using unat_Suc_small [of "d + 1" j] d that Suc.prems by simp
      then show ?thesis by (metis Suc_n_not_le_n add_Suc le_add1)
    qed
    then show ?thesis using 0 store_copy_other [of n d "d + 1" "s + 1"] by simp
  next
    case (Suc j)
    have u: "unat (s + 1 + of_nat j) = Suc (unat s) + j"
      using unat_Suc_small [of "s + 1" j] s Suc Suc.prems by simp
    then have "s + 1 + of_nat j \<noteq> d" using Suc Suc.prems by auto
    moreover have "store_copy n (d + 1) (s + 1) (m(d := m s)) (d + 1 + of_nat j)
        = (m(d := m s)) (s + 1 + of_nat j)"
      using Suc.prems s d Suc by (intro Suc.IH) auto
    ultimately show ?thesis using Suc by (simp add: add.assoc)
  qed
qed simp


text \<open>Growing a block in use with \<open>krealloc\<close> preserves its contents: the result is a block of at least
  the new size that holds the bytes of the old one, the old block is released, and every other
  block in use is untouched.\<close>

theorem krealloc_correct:
  assumes wf: "heap_wf s xs" and mem: "(a, sz) \<in> used_blocks xs" and grow: "sz < new_size"
    and small: "new_size \<le> 0xFFFFFFFC" and fit: "(b, bz, True) \<in> set xs" "ALIGN_UP new_size 4 \<le> bz"
  shows "\<exists>c cz t ys. krealloc (a + HDR) new_size s = Some (Inr (c + HDR, t)) \<and> heap_wf t ys
    \<and> new_size \<le> cz \<and> used_blocks ys = insert (c, cz) (used_blocks xs - {(a, sz)})
    \<and> (\<forall>i < unat sz. bytes t (c + HDR + of_nat i) = bytes s (a + HDR + of_nat i))"
proof -
  have new: "0 < new_size" using grow by (metis word_gt_0 word_less_nat_alt not_less_zero unat_0)
  obtain c cz t ys where m: "kmalloc new_size s = Some (Inr (c + HDR, t))" "new_size \<le> cz"
    "heap_wf t ys" "used_blocks ys = insert (c, cz) (used_blocks xs)"
    "\<forall>(c', cz') \<in> used_blocks xs. unat c' + 13 + unat cz' \<le> unat c \<or> unat c + 13 + unat cz \<le> unat c'"
    using kmalloc_correct [OF wf new small fit] by blast
  have kb: "bytes t = bytes s"
    using fit_alloc_exists [OF fit] kmalloc_fits [OF wf] new m(1) by (metis less_irrefl option.inject prod.inject sum.inject(2))
  define u where "u = t\<lparr>bytes := store_copy (unat sz) (c + HDR) (a + HDR) (bytes t)\<rparr>"
  have u: "heap_wf u ys" using m(3) by (simp add: u_def heap_wf_def)
  have used: "(a, sz) \<in> used_blocks ys" "(c, cz) \<in> used_blocks ys" using m(4) mem by simp_all
  obtain v where v: "kfree (a + HDR) u = Some (Inr v)" "heap_wf v (merge_free (release a ys))"
    "bytes v = bytes u"
    using kfree_used [OF u used(1)] by blast
  have am: "(a, sz, False) \<in> set xs" using mem by (simp add: used_blocks_def)
  have amy: "(a, sz, False) \<in> set ys" "(c, cz, False) \<in> set ys" using used by (simp_all add: used_blocks_def)
  have sep: "unat a + 13 + unat sz \<le> unat c \<or> unat c + 13 + unat cz \<le> unat a" using m(5) mem by blast
  obtain h where h: "blocks s a = Some h" "hb_magic h = HEAP_MAGIC" "hb_size h = sz"
    using heap_seg_mem [OF heap_wfD(1) [OF wf] am] by auto
  obtain h' where h': "blocks t a = Some h'" "hb_size h' = sz"
    using heap_seg_mem [OF heap_wfD(1) [OF m(3)] amy(1)] by auto
  have bounds: "unat a + 13 + unat sz < 2 ^ 32" "unat c + 13 + unat cz < 2 ^ 32"
    using tiles_mem [OF heap_wfD(2) [OF m(3)] amy(1)] tiles_mem [OF heap_wfD(2) [OF m(3)] amy(2)]
      heap_wfD(4) [OF m(3)] by linarith+
  have ua: "unat (a + HDR) = unat a + 13" and uc: "unat (c + HDR) = unat c + 13"
    using unat_Suc_small [of a 13] unat_Suc_small [of c 13] bounds by simp_all
  then have nz: "a + HDR \<noteq> 0" "c + HDR \<noteq> 0" by (auto simp: word_eq_unat_iff)
  have "krealloc (a + HDR) new_size s = Some (Inr (c + HDR, v))"
    using nz new h h' m(1) grow v(1) by (simp add: krealloc_def u_def not_le [symmetric])
  moreover have "used_blocks (merge_free (release a ys)) = insert (c, cz) (used_blocks xs - {(a, sz)})"
  proof -
    have "c \<noteq> a" using sep by auto
    moreover have "{(b, tz) \<in> used_blocks xs. b \<noteq> a} = used_blocks xs - {(a, sz)}"
      using am tiles_unique [OF heap_wfD(2) [OF wf]] by (auto simp: used_blocks_def)
    ultimately show ?thesis by (auto simp: used_merge used_release m(4))
  qed
  moreover have "bytes v (c + HDR + of_nat i) = bytes s (a + HDR + of_nat i)" if "i < unat sz" for i
  proof -
    have le: "unat sz < unat cz" using grow m(2) by (simp add: word_less_nat_alt word_le_nat_alt)
    have "store_copy (unat sz) (c + HDR) (a + HDR) (bytes t) (c + HDR + of_nat i) = bytes t (a + HDR + of_nat i)"
      using ua uc bounds sep le that by (intro store_copy_disjoint) auto
    then show ?thesis using v(3) kb by (simp add: u_def)
  qed
  ultimately show ?thesis using v(2) m(2) by blast
qed

section \<open>Two ways to get more memory than there is\<close>

text \<open>A request within three bytes of 4 GB is rounded up to 0 and succeeds: \<open>kmalloc\<close> returns the first
  free block of the heap, however small.\<close>

theorem kmalloc_wraps:
  assumes "heap_wf s xs" and "0xFFFFFFFD \<le> sz" and "(b, bz, True) \<in> set xs"
  shows "\<exists>a az t ys. kmalloc sz s = Some (Inr (a + HDR, t)) \<and> heap_wf t ys
    \<and> (a, az) \<in> used_blocks ys \<and> az < sz"
proof -
  have "sz = 0xFFFFFFFD \<or> sz = 0xFFFFFFFE \<or> sz = 0xFFFFFFFF"
    using assms(2) u32_unat_lt [of sz] by (auto simp: word_le_nat_alt word_eq_unat_iff)
  then have z: "ALIGN_UP sz 4 = 0" "sz \<noteq> 0" by (auto simp: ALIGN_UP_def)
  obtain p ys where fit: "fit_alloc (ALIGN_UP sz 4) xs = Some (p, ys)"
    using fit_alloc_exists [OF assms(3)] z(1) by fastforce
  obtain a az where a: "p = a + HDR" "(a, az) \<in> used_blocks ys"
    using fit_alloc_Some [OF fit] by (auto simp: used_blocks_def)
  obtain t where t: "kmalloc sz s = Some (Inr (p, t))" "heap_wf t ys"
    using kmalloc_fits [OF assms(1) z(2) fit] by auto
  have "(a, az, False) \<in> set ys" using a(2) by (simp add: used_blocks_def)
  from tiles_mem [OF heap_wfD(2) [OF t(2)] this] heap_wfD(3,4) [OF t(2)]
  have "unat az + 4096 < 2 ^ 32" by linarith
  then have "az < sz" using assms(2) by (simp add: word_less_nat_alt word_le_nat_alt)
  with t a show ?thesis by blast
qed

text \<open>\<open>heap_coalesce\<close> merges free blocks that follow each other in the list without looking at their
  addresses: two free blocks of which the second lies anywhere else in memory become one block, which claims the
  bytes behind the first block whoever owns them.\<close>

theorem heap_coalesce_ignores_addresses:
  assumes "heap_seg (blocks s) (heap_start s) [(a, sz, True), (b, tz, True)]" and "a \<noteq> b"
  shows "\<exists>t. heap_coalesce s = Some (Inr t)
    \<and> heap_seg (blocks t) (heap_start t) [(a, sz + (HDR + tz), True)]"
  using heap_coalesce_from_seg [OF assms(1)] assms(2) by (auto simp: heap_coalesce_def)

section \<open>Initialisation and a concrete heap\<close>

lemma heap_grab_alloc:
  "alloc_pages pmm_alloc_page n p = (as, q) \<Longrightarrow> 0 \<notin> set as \<Longrightarrow>
   heap_grab n f start p = Some (if f \<and> as \<noteq> [] then hd as else start, q)"
  by (induction n arbitrary: f start p as) (auto split: prod.splits simp: Let_def)

text \<open>With enough frames the heap starts as one free block that fills the pages.\<close>

lemma heap_init_wf:
  assumes "pages = (max 0x100000 sz + PAGE_SIZE - 1) div PAGE_SIZE"
    and "alloc_pages pmm_alloc_page (unat pages) (heap_pmm s) = (as, q)" and "0 \<notin> set as" and "as \<noteq> []"
    and "PAGE_SIZE \<le> hd as" and "unat (hd as) + unat (pages * PAGE_SIZE) < 2 ^ 32" and "HDR \<le> pages * PAGE_SIZE"
  shows "\<exists>t. heap_init kernel_end start sz s = Inr t \<and> heap_wf t [(hd as, pages * PAGE_SIZE - HDR, True)]"
proof -
  have m: "(if sz < 0x100000 then 0x100000 else sz) = max 0x100000 sz" by (auto simp: max_def not_le)
  have "unat (hd as + pages * PAGE_SIZE) = unat (hd as) + unat (pages * PAGE_SIZE)"
    using assms(6) unat_Suc_small [of "hd as" "unat (pages * PAGE_SIZE)"] by simp
  moreover have "unat (pages * PAGE_SIZE - HDR) = unat (pages * PAGE_SIZE) - 13"
    using assms(7) by (simp add: unat_sub)
  moreover have "13 \<le> unat (pages * PAGE_SIZE)" using assms(7) by (simp add: word_le_nat_alt)
  moreover have "hd as \<noteq> 0" using assms(3,4) by (metis hd_in_set)
  ultimately show ?thesis
    using heap_grab_alloc [OF assms(2,3)] assms(4,5)
    unfolding heap_init_def Let_def m assms(1) [symmetric] by (simp add: heap_wf_def)
qed

text \<open>A block of 64 bytes in use and one of 200 bytes free.\<close>

definition heap_example :: heap where
  "heap_example = \<lparr>blocks =
     [0x1000 \<mapsto> \<lparr>hb_magic = HEAP_MAGIC, hb_size = 64, hb_free = False, hb_next = 0x104D\<rparr>,
      0x104D \<mapsto> \<lparr>hb_magic = HEAP_MAGIC, hb_size = 200, hb_free = True, hb_next = 0\<rparr>],
     heap_start = 0x1000, heap_end_addr = 0x1122,
     heap_pmm = \<lparr>bitmap = [], total_pages = 0, free_pages = 0\<rparr>, bytes = \<lambda>a. ucast a\<rparr>"

lemma heap_example_wf: "heap_wf heap_example [(0x1000, 64, False), (0x104D, 200, True)]"
  by (simp add: heap_wf_def heap_example_def)

lemma heap_example_no_adj: "no_adjacent_free [(0x1000, 64, False), (0x104D, 200, True)]"
  by simp

lemma align_100: "ALIGN_UP 100 4 = 100" by code_simp

theorem kmalloc_correct_witness:
  "\<exists>a az t ys. kmalloc 100 heap_example = Some (Inr (a + HDR, t)) \<and> 100 \<le> az \<and> heap_wf t ys
    \<and> used_blocks ys = {(a, az), (0x1000, 64)}"
  using kmalloc_correct [OF heap_example_wf, of 100 "0x104D" 200] by (auto simp: align_100)

theorem kfree_correct_witness:
  "\<exists>t ys. kfree (0x1000 + HDR) heap_example = Some (Inr t) \<and> heap_wf t ys \<and> used_blocks ys = {}"
  using kfree_correct [OF heap_example_wf, of "0x1000" 64] by auto

theorem kmalloc_kfree_roundtrip_witness:
  "\<exists>p t u. kmalloc 100 heap_example = Some (Inr (p, t)) \<and> kfree p t = Some (Inr u)
    \<and> heap_wf u [(0x1000, 64, False), (0x104D, 200, True)]"
  using kmalloc_kfree_roundtrip [OF heap_example_wf heap_example_no_adj, of 100 "0x104D" 200]
  by (simp add: align_100)

theorem heap_accounting_witness:
  "\<exists>f u. heap_get_free heap_example = Some f \<and> heap_get_used heap_example = Some u \<and> f + u + 26 = 290"
  using heap_accounting [OF heap_example_wf] by (simp add: heap_example_def)

theorem krealloc_correct_witness:
  "\<exists>c t. krealloc (0x1000 + HDR) 100 heap_example = Some (Inr (c + HDR, t))
    \<and> (\<forall>i < 64. bytes t (c + HDR + of_nat i) = ucast (0x1000 + HDR + of_nat i :: u32))"
proof -
  have m: "(0x1000, 64) \<in> used_blocks [(0x1000 :: u32, 64, False), (0x104D, 200 :: u32, True)]" by simp
  have b: "bytes heap_example = (\<lambda>a. ucast a)" by (simp add: heap_example_def)
  have u: "unat (64 :: u32) = 64" by simp
  have "(64 :: u32) < 100" "(100 :: u32) \<le> 0xFFFFFFFC"
    "(0x104D, 200, True) \<in> set [(0x1000 :: u32, 64 :: u32, False), (0x104D, 200, True)]"
    "ALIGN_UP 100 4 \<le> (200 :: u32)"
    by (simp_all add: align_100)
  from krealloc_correct [OF heap_example_wf m this] show ?thesis unfolding b u by blast
qed

theorem kmalloc_wraps_witness:
  "\<exists>a az t ys. kmalloc 0xFFFFFFFF heap_example = Some (Inr (a + HDR, t)) \<and> heap_wf t ys
    \<and> (a, az) \<in> used_blocks ys \<and> az < 0xFFFFFFFF"
  by (rule kmalloc_wraps [OF heap_example_wf, of _ "0x104D" 200]) simp_all

theorem heap_coalesce_ignores_addresses_witness:
  "\<exists>t. heap_coalesce (heap_example\<lparr>blocks :=
     [0x1000 \<mapsto> \<lparr>hb_magic = HEAP_MAGIC, hb_size = 4083, hb_free = True, hb_next = 0x9000\<rparr>,
      0x9000 \<mapsto> \<lparr>hb_magic = HEAP_MAGIC, hb_size = 4083, hb_free = True, hb_next = 0\<rparr>]\<rparr>) = Some (Inr t)
    \<and> heap_seg (blocks t) (heap_start t) [(0x1000, 8179, True)]"
proof -
  let ?s = "heap_example\<lparr>blocks :=
     [0x1000 \<mapsto> \<lparr>hb_magic = HEAP_MAGIC, hb_size = 4083, hb_free = True, hb_next = 0x9000\<rparr>,
      0x9000 \<mapsto> \<lparr>hb_magic = HEAP_MAGIC, hb_size = 4083, hb_free = True, hb_next = 0\<rparr>]\<rparr>"
  have "heap_seg (blocks ?s) (heap_start ?s) [(0x1000, 4083, True), (0x9000, 4083, True)]"
    by (simp add: heap_example_def)
  from heap_coalesce_ignores_addresses [OF this] show ?thesis by simp
qed

end
