(* ===== verification/Console.thy ===== *)
theory Console
  imports C_String
begin

text \<open>
  The console: the VGA text screen (\<^verbatim>\<open>drivers/vga.c\<close>), the serial port (\<^verbatim>\<open>drivers/serial.c\<close>) and
  the formatted output on both (\<^verbatim>\<open>kernel/printk.c\<close>).  The screen is the list of its 2000 cells; a
  write outside it is \<^term>\<open>None\<close>.  What is sent to I/O ports is a list of port and value, oldest
  first.  The wait of \<open>serial_putchar\<close> for the transmitter changes no state and is left out; the
  line status that the other functions read is an argument.
\<close>

abbreviation VGA_WIDTH :: nat where "VGA_WIDTH \<equiv> 80"
abbreviation VGA_HEIGHT :: nat where "VGA_HEIGHT \<equiv> 25"

record console =
  vga_buffer :: "u16 list"
  vga_row :: u8
  vga_col :: u8
  vga_color :: u8
  ports :: "(u16 \<times> u8) list"

definition outb :: "u16 \<Rightarrow> u8 \<Rightarrow> console \<Rightarrow> console" where
  "outb port v s = s\<lparr>ports := ports s @ [(port, v)]\<rparr>"

definition char_byte :: "char \<Rightarrow> u8" where
  "char_byte c = of_char c"

section \<open>The screen\<close>

text \<open>\<^verbatim>\<open>char\<close> is signed: a character from 0x80 on is extended with ones over the attribute byte.\<close>

definition vga_entry :: "char \<Rightarrow> u8 \<Rightarrow> u16" where
  "vga_entry c color = scast (char_byte c) OR push_bit 8 (ucast color)"

definition vga_cell :: "console \<Rightarrow> nat" where
  "vga_cell s = unat (vga_row s) * VGA_WIDTH + unat (vga_col s)"

definition vga_memmove :: "nat \<Rightarrow> nat \<Rightarrow> nat \<Rightarrow> u16 list \<Rightarrow> u16 list option" where
  "vga_memmove dst src count buf = move_up buf dst src count"

definition vga_update_cursor :: "console \<Rightarrow> console" where
  "vga_update_cursor s =
     (let pos = of_nat (vga_cell s) :: u16
      in outb 0x3D5 (ucast (drop_bit 8 pos AND 0xFF)) (outb 0x3D4 0x0E
           (outb 0x3D5 (ucast (pos AND 0xFF)) (outb 0x3D4 0x0F s))))"

definition vga_scroll :: "console \<Rightarrow> console option" where
  "vga_scroll s = do {
     buf \<leftarrow> vga_memmove 0 VGA_WIDTH (VGA_WIDTH * (VGA_HEIGHT - 1)) (vga_buffer s);
     buf \<leftarrow> memset_at buf ((VGA_HEIGHT - 1) * VGA_WIDTH) (vga_entry CHR '' '' (vga_color s)) VGA_WIDTH;
     Some (s\<lparr>vga_buffer := buf, vga_row := of_nat (VGA_HEIGHT - 1)\<rparr>)
   }"

definition vga_clear :: "console \<Rightarrow> console option" where
  "vga_clear s = do {
     buf \<leftarrow> memset_at (vga_buffer s) 0 (vga_entry CHR '' '' (vga_color s)) (VGA_WIDTH * VGA_HEIGHT);
     Some (vga_update_cursor (s\<lparr>vga_buffer := buf, vga_row := 0, vga_col := 0\<rparr>))
   }"

definition vga_init :: "console \<Rightarrow> console option" where
  "vga_init s = vga_clear (s\<lparr>vga_color := 0x0F\<rparr>)"

definition vga_set_color :: "u8 \<Rightarrow> u8 \<Rightarrow> console \<Rightarrow> console" where
  "vga_set_color fg bg s = s\<lparr>vga_color := push_bit 4 bg OR (fg AND 0x0F)\<rparr>"

definition vga_put_cell :: "char \<Rightarrow> console \<Rightarrow> console option" where
  "vga_put_cell c s =
     map_option (\<lambda>b. s\<lparr>vga_buffer := b\<rparr>) (put_at (vga_buffer s) (vga_cell s) (vga_entry c (vga_color s)))"

text \<open>The two halves of \<open>vga_putchar\<close>: what the character does, then the wrap at the right edge, the
  scroll at the bottom and the hardware cursor.\<close>

definition vga_act :: "char \<Rightarrow> console \<Rightarrow> console option" where
  "vga_act c s =
     (if c = CHR 0x0A then Some (s\<lparr>vga_col := 0, vga_row := vga_row s + 1\<rparr>)
      else if c = CHR 0x0D then Some (s\<lparr>vga_col := 0\<rparr>)
      else if c = CHR 0x09 then Some (s\<lparr>vga_col := (vga_col s + 8) AND NOT 7\<rparr>)
      else if c = CHR 0x08
      then (if vga_col s > 0 then vga_put_cell CHR '' '' (s\<lparr>vga_col := vga_col s - 1\<rparr>) else Some s)
      else map_option (\<lambda>s. s\<lparr>vga_col := vga_col s + 1\<rparr>) (vga_put_cell c s))"

definition vga_wrap :: "console \<Rightarrow> console option" where
  "vga_wrap s = do {
     let s = (if vga_col s \<ge> of_nat VGA_WIDTH then s\<lparr>vga_col := 0, vga_row := vga_row s + 1\<rparr> else s);
     s \<leftarrow> (if vga_row s \<ge> of_nat VGA_HEIGHT then vga_scroll s else Some s);
     Some (vga_update_cursor s)
   }"

definition vga_putchar :: "char \<Rightarrow> console \<Rightarrow> console option" where
  "vga_putchar c s = Option.bind (vga_act c s) vga_wrap"

fun vga_write_buf :: "char list \<Rightarrow> console \<Rightarrow> console option" where
  "vga_write_buf [] s = None"
| "vga_write_buf (c # cs) s =
     (if c = NUL then Some s else Option.bind (vga_putchar c s) (vga_write_buf cs))"

definition vga_write :: "cptr \<Rightarrow> console \<Rightarrow> console option" where
  "vga_write p s = (case p of None \<Rightarrow> Some s | Some b \<Rightarrow> vga_write_buf b s)"

primrec vga_put_list :: "char list \<Rightarrow> console \<Rightarrow> console option" where
  "vga_put_list [] s = Some s"
| "vga_put_list (c # cs) s = Option.bind (vga_putchar c s) (vga_put_list cs)"

definition hex_upper :: "u32 \<Rightarrow> char" where
  "hex_upper d = ''0123456789ABCDEF'' ! unat d"

definition vga_write_hex :: "u32 \<Rightarrow> console \<Rightarrow> console option" where
  "vga_write_hex val s = do {
     s \<leftarrow> vga_write_buf (''0x'' @ [NUL]) s;
     vga_put_list (map (\<lambda>i. hex_upper (drop_bit i val AND 0x0F)) [28, 24, 20, 16, 12, 8, 4, 0]) s
   }"

text \<open>The loop \<open>while (val > 0)\<close> that fills a local buffer, least significant digit first.\<close>

function dec_digits :: "u32 \<Rightarrow> char list" where
  "dec_digits val = (if val > 0 then char_of (48 + unat (val mod 10)) # dec_digits (val div 10) else [])"
  by pat_completeness auto
termination
proof (relation "measure unat")
  fix val :: u32
  assume "0 < val"
  then have "0 < unat val" by (simp add: unat_gt_0)
  then show "(val div 10, val) \<in> measure unat" by (simp add: unat_div)
qed simp

declare dec_digits.simps [simp del]

definition vga_write_dec :: "u32 \<Rightarrow> console \<Rightarrow> console option" where
  "vga_write_dec val s =
     (if val = 0 then vga_putchar CHR ''0'' s else vga_put_list (rev (dec_digits val)) s)"

section \<open>The serial port\<close>

abbreviation COM1_PORT :: u16 where "COM1_PORT \<equiv> 0x3F8"

definition serial_init :: "console \<Rightarrow> console" where
  "serial_init s =
     fold (\<lambda>(port, v). outb port v)
       [(COM1_PORT + 1, 0x00), (COM1_PORT + 3, 0x80), (COM1_PORT + 0, 0x01), (COM1_PORT + 1, 0x00),
        (COM1_PORT + 3, 0x03), (COM1_PORT + 2, 0xC7), (COM1_PORT + 4, 0x0B)] s"

definition serial_is_transmit_empty :: "u8 \<Rightarrow> bool" where
  "serial_is_transmit_empty line_status \<longleftrightarrow> line_status AND 0x20 \<noteq> 0"

definition serial_received :: "u8 \<Rightarrow> bool" where
  "serial_received line_status \<longleftrightarrow> line_status AND 0x01 \<noteq> 0"

definition serial_has_input :: "u8 \<Rightarrow> bool" where
  "serial_has_input line_status = serial_received line_status"

text \<open>The polling loop over what the status port returns: the character that is then at the data port.\<close>

fun serial_getchar :: "(u8 \<times> u8) list \<Rightarrow> (u8 \<times> (u8 \<times> u8) list) option" where
  "serial_getchar [] = None"
| "serial_getchar ((line_status, data) # polls) =
     (if \<not> serial_received line_status then serial_getchar polls else Some (data, polls))"

definition serial_putchar :: "char \<Rightarrow> console \<Rightarrow> console" where
  "serial_putchar c s = outb COM1_PORT (char_byte c) s"

fun serial_write_buf :: "char list \<Rightarrow> console \<Rightarrow> console option" where
  "serial_write_buf [] s = None"
| "serial_write_buf (c # cs) s =
     (if c = NUL then Some s
      else serial_write_buf cs (serial_putchar c (if c = CHR 0x0A then serial_putchar CHR 0x0D s else s)))"

definition serial_write :: "cptr \<Rightarrow> console \<Rightarrow> console option" where
  "serial_write p s = (case p of None \<Rightarrow> Some s | Some b \<Rightarrow> serial_write_buf b s)"

section \<open>printk\<close>

text \<open>What the caller passes for \<^verbatim>\<open>...\<close>: pointers to strings and 32-bit numbers.\<close>

datatype va_arg = VA_str cptr | VA_word u32

function printk_tmp :: "u32 \<Rightarrow> u32 \<Rightarrow> bool \<Rightarrow> char list" where
  "printk_tmp val base uppercase =
     (if val > 0 \<and> base > 1
      then (if uppercase then hex_upper (val mod base) else digit_char (val mod base))
             # printk_tmp (val div base) base uppercase
      else [])"
  by pat_completeness auto
termination
proof (relation "measure (\<lambda>(val, base, uppercase). unat val)")
  fix val base :: u32 and u :: bool
  assume "0 < val \<and> 1 < base"
  then have "0 < unat val" "1 < unat base" by (auto simp: word_less_nat_alt unat_gt_0)
  then show "((val div base, base, u), val, base, u) \<in> measure (\<lambda>(val, base, uppercase). unat val)"
    by (simp add: unat_div)
qed simp

declare printk_tmp.simps [simp del]

definition printk_utoa :: "u32 \<Rightarrow> u32 \<Rightarrow> bool \<Rightarrow> char list" where
  "printk_utoa val base uppercase =
     (if val = 0 then ''0'' else rev (printk_tmp val base uppercase))"

definition printk_itoa :: "u32 \<Rightarrow> u32 \<Rightarrow> char list" where
  "printk_itoa val base =
     (if sint val < 0 \<and> base = 10 then CHR ''-'' # printk_utoa (- val) base False
      else printk_utoa val base False)"

definition printk_out_char :: "char \<Rightarrow> console \<Rightarrow> console option" where
  "printk_out_char c s = do {
     s \<leftarrow> vga_putchar c s;
     Some (serial_putchar c (if c = CHR 0x0A then serial_putchar CHR 0x0D s else s))
   }"

fun printk_out_str :: "char list \<Rightarrow> console \<Rightarrow> console option" where
  "printk_out_str [] s = None"
| "printk_out_str (c # cs) s =
     (if c = NUL then Some s else Option.bind (printk_out_char c s) (printk_out_str cs))"

text \<open>
  The loop of \<open>printk\<close> over the format; \<^term>\<open>None\<close> also when the arguments run out or
  are not of the kind that the format asks for.
\<close>

fun printk_loop :: "char list \<Rightarrow> va_arg list \<Rightarrow> console \<Rightarrow> console option" where
  "printk_loop [] args s = None"
| "printk_loop (f # fmt) args s =
     (if f = NUL then Some s
      else if f \<noteq> CHR ''%'' then Option.bind (printk_out_char f s) (printk_loop fmt args)
      else (case fmt of
              [] \<Rightarrow> None
            | g # fmt \<Rightarrow>
                if g = NUL then Some s
                else if g = CHR ''s'' then
                  (case args of
                     VA_str p # args \<Rightarrow>
                       Option.bind (printk_out_str (case p of None \<Rightarrow> ''(null)'' @ [NUL] | Some b \<Rightarrow> b) s)
                         (printk_loop fmt args)
                   | _ \<Rightarrow> None)
                else if g = CHR ''d'' \<or> g = CHR ''i'' then
                  (case args of
                     VA_word v # args \<Rightarrow>
                       Option.bind (printk_out_str (printk_itoa v 10 @ [NUL]) s) (printk_loop fmt args)
                   | _ \<Rightarrow> None)
                else if g = CHR ''u'' \<or> g = CHR ''x'' \<or> g = CHR ''X'' then
                  (case args of
                     VA_word v # args \<Rightarrow>
                       Option.bind (printk_out_str
                         (printk_utoa v (if g = CHR ''u'' then 10 else 16) (g = CHR ''X'') @ [NUL]) s)
                         (printk_loop fmt args)
                   | _ \<Rightarrow> None)
                else if g = CHR ''c'' then
                  (case args of
                     VA_word v # args \<Rightarrow>
                       Option.bind (printk_out_char (char_of (unat v)) s) (printk_loop fmt args)
                   | _ \<Rightarrow> None)
                else if g = CHR ''%'' then Option.bind (printk_out_char CHR ''%'' s) (printk_loop fmt args)
                else do {
                  s \<leftarrow> printk_out_char CHR ''%'' s;
                  s \<leftarrow> printk_out_char g s;
                  printk_loop fmt args s
                }))"

definition printk :: "cptr \<Rightarrow> va_arg list \<Rightarrow> console \<Rightarrow> console option" where
  "printk fmt args s = (case fmt of None \<Rightarrow> Some s | Some f \<Rightarrow> printk_loop f args s)"

section \<open>The screen refines a terminal with a linear cursor\<close>

definition vga_ok :: "console \<Rightarrow> bool" where
  "vga_ok s \<longleftrightarrow> length (vga_buffer s) = 2000 \<and> unat (vga_row s) < 25 \<and> unat (vga_col s) < 80"

text \<open>
  The reference: the cells and the position of the cursor in them.  A character advances the
  cursor; past the last cell everything moves up by one line.
\<close>

definition term_scroll :: "u16 \<Rightarrow> u16 list \<times> nat \<Rightarrow> u16 list \<times> nat" where
  "term_scroll blank = (\<lambda>(cells, p).
     if p < 2000 then (cells, p) else (drop 80 cells @ replicate 80 blank, p - 80))"

definition term_put :: "u8 \<Rightarrow> char \<Rightarrow> u16 list \<times> nat \<Rightarrow> u16 list \<times> nat" where
  "term_put color c = (\<lambda>(cells, p).
     let blank = vga_entry CHR '' '' color in
     term_scroll blank
       (if c = CHR 0x0A then (cells, (p div 80 + 1) * 80)
        else if c = CHR 0x0D then (cells, p div 80 * 80)
        else if c = CHR 0x09 then (cells, (p div 8 + 1) * 8)
        else if c = CHR 0x08 then (if p mod 80 = 0 then (cells, p) else (cells[p - 1 := blank], p - 1))
        else (cells[p := vga_entry c color], p + 1)))"

definition screen :: "console \<Rightarrow> u16 list \<times> nat" where
  "screen s = (vga_buffer s, vga_cell s)"

lemma u8_inc: "unat (w :: u8) < 255 \<Longrightarrow> unat (w + 1) = Suc (unat w)"
  by (simp add: unat_word_ariths)

lemma u8_dec: "(w :: u8) > 0 \<Longrightarrow> unat (w - 1) = unat w - 1"
  by (metis unat_minus_one word_gt_0)

lemma u8_tab: "unat (w :: u8) < 80 \<Longrightarrow> unat ((w + 8) AND NOT 7) = (unat w div 8 + 1) * 8"
proof -
  assume w: "unat w < 80"
  then have "unat (w + 8) = unat w + 8" by (simp add: unat_word_ariths)
  moreover have "(7 :: u8) = mask 3" by (simp add: mask_eq_exp_minus_1)
  ultimately show ?thesis by (simp only: and_not_mask_unat power_numeral Num.pow.simps) (simp, presburger)
qed

lemma vga_cursor_simps [simp]:
  "vga_buffer (vga_update_cursor s) = vga_buffer s" "vga_row (vga_update_cursor s) = vga_row s"
  "vga_col (vga_update_cursor s) = vga_col s" "vga_color (vga_update_cursor s) = vga_color s"
  "vga_cell (vga_update_cursor s) = vga_cell s"
  by (simp_all add: vga_update_cursor_def outb_def vga_cell_def Let_def)

lemma vga_scroll_eq:
  assumes "length (vga_buffer s) = 2000"
  shows "vga_scroll s = Some (s\<lparr>vga_buffer := drop 80 (vga_buffer s)
      @ replicate 80 (vga_entry CHR '' '' (vga_color s)), vga_row := 24\<rparr>)"
proof -
  have m: "vga_memmove 0 80 1920 (vga_buffer s) = Some (drop 80 (vga_buffer s) @ drop 1920 (vga_buffer s))"
    using memmove_ok [of 0 1920 "vga_buffer s" 80] assms by (simp add: vga_memmove_def memmove_def)
  have "memset_at (drop 80 (vga_buffer s) @ drop 1920 (vga_buffer s)) 1920 c 80
      = Some (drop 80 (vga_buffer s) @ replicate 80 c)" for c
    using assms by (simp add: memset_at_eq)
  with m show ?thesis by (simp add: vga_scroll_def)
qed

text \<open>What happens after the character: wrap at the right edge, scroll at the bottom.\<close>

lemma vga_wrap_refines:
  assumes "length (vga_buffer s) = 2000" "vga_cell s = p"
    and "unat (vga_row s) < 25 \<and> unat (vga_col s) \<le> 80 \<or> unat (vga_row s) = 25 \<and> unat (vga_col s) = 0"
  shows "\<exists>t. vga_wrap s = Some t \<and> vga_ok t \<and> vga_color t = vga_color s
    \<and> screen t = term_scroll (vga_entry CHR '' '' (vga_color s)) (vga_buffer s, p)"
proof -
  define u where "u = (if vga_col s \<ge> of_nat VGA_WIDTH then s\<lparr>vga_col := 0, vga_row := vga_row s + 1\<rparr> else s)"
  have "vga_buffer u = vga_buffer s \<and> vga_color u = vga_color s
    \<and> unat (vga_row u) * 80 + unat (vga_col u) = p \<and> unat (vga_col u) < 80
    \<and> (unat (vga_row u) < 25 \<or> unat (vga_row u) = 25 \<and> unat (vga_col u) = 0)"
  proof (cases "vga_col s \<ge> of_nat VGA_WIDTH")
    case True
    then have "unat (vga_col s) \<ge> 80" by (simp add: word_le_nat_alt)
    then show ?thesis using assms u8_inc [of "vga_row s"] True by (auto simp: u_def vga_cell_def)
  next
    case False
    then have "unat (vga_col s) < 80" by (simp add: word_le_nat_alt)
    then show ?thesis using assms False by (auto simp: u_def vga_cell_def)
  qed
  then have u: "vga_buffer u = vga_buffer s" "vga_color u = vga_color s"
    "unat (vga_row u) * 80 + unat (vga_col u) = p" "unat (vga_col u) < 80"
    "unat (vga_row u) < 25 \<or> unat (vga_row u) = 25 \<and> unat (vga_col u) = 0" by blast+
  have w: "vga_wrap s = Option.bind (if vga_row u \<ge> of_nat VGA_HEIGHT then vga_scroll u else Some u)
      (\<lambda>s. Some (vga_update_cursor s))"
    by (simp only: vga_wrap_def Let_def u_def)
  show ?thesis
  proof (cases "unat (vga_row u) < 25")
    case True
    then have r: "\<not> vga_row u \<ge> of_nat VGA_HEIGHT" "p < 2000" using u by (auto simp: word_le_nat_alt)
    have "vga_wrap s = Some (vga_update_cursor u)"
      using r by (simp add: w)
    with True u assms(1) r show ?thesis
      by (simp add: vga_ok_def screen_def term_scroll_def vga_cell_def)
  next
    case False
    then have r: "vga_row u \<ge> of_nat VGA_HEIGHT" "p = 2000" "unat (vga_col u) = 0"
      using u by (auto simp: word_le_nat_alt)
    have "vga_wrap s = Option.bind (vga_scroll u) (\<lambda>s. Some (vga_update_cursor s))"
      using r by (simp add: w)
    with u assms(1) r show ?thesis
      by (simp add: vga_scroll_eq vga_ok_def screen_def term_scroll_def vga_cell_def)
  qed
qed

lemma vga_put_cell_eq:
  "length (vga_buffer s) = 2000 \<Longrightarrow> vga_cell s < 2000 \<Longrightarrow>
   vga_put_cell c s = Some (s\<lparr>vga_buffer := (vga_buffer s)[vga_cell s := vga_entry c (vga_color s)]\<rparr>)"
  by (simp add: vga_put_cell_def put_at_def)

lemma vga_act_refines:
  assumes "vga_ok s"
  shows "\<exists>u p. vga_act c s = Some u \<and> length (vga_buffer u) = 2000 \<and> vga_cell u = p
    \<and> vga_color u = vga_color s
    \<and> (unat (vga_row u) < 25 \<and> unat (vga_col u) \<le> 80 \<or> unat (vga_row u) = 25 \<and> unat (vga_col u) = 0)
    \<and> term_scroll (vga_entry CHR '' '' (vga_color s)) (vga_buffer u, p) = term_put (vga_color s) c (screen s)"
proof -
  have len: "length (vga_buffer s) = 2000" and r: "unat (vga_row s) < 25" and k: "unat (vga_col s) < 80"
    using assms by (simp_all add: vga_ok_def)
  have cell: "vga_cell s < 2000" "vga_cell s div 80 = unat (vga_row s)" "vga_cell s mod 80 = unat (vga_col s)"
    using r k by (auto simp: vga_cell_def)
  have r': "unat (vga_row s) < 24 \<or> unat (vga_row s) = 24" using r by linarith
  have inc: "unat (vga_row s + 1) = Suc (unat (vga_row s))" "unat (vga_col s + 1) = Suc (unat (vga_col s))"
    using u8_inc r k by simp_all
  consider "c = CHR 0x0A" | "c = CHR 0x0D" | "c = CHR 0x09" | "c = CHR 0x08" "vga_col s = 0"
    | "c = CHR 0x08" "0 < vga_col s" | "c \<notin> {CHR 0x0A, CHR 0x0D, CHR 0x09, CHR 0x08}"
    by (auto simp: word_gt_0)
  then show ?thesis
  proof cases
    case 1
    then show ?thesis using len r' cell inc by (simp add: vga_act_def term_put_def screen_def vga_cell_def)
  next
    case 2
    then show ?thesis using len r cell by (simp add: vga_act_def term_put_def screen_def vga_cell_def)
  next
    case 3
    have "(vga_cell s div 8 + 1) * 8 = unat (vga_row s) * 80 + (unat (vga_col s) div 8 + 1) * 8"
      by (simp add: vga_cell_def) presburger
    moreover have "unat (vga_col s) div 8 \<le> 9" using k by simp
    ultimately show ?thesis using 3 len r k u8_tab [OF k]
      by (simp add: vga_act_def term_put_def screen_def) (simp add: vga_cell_def add.left_commute)
  next
    case 4
    then show ?thesis using len r k cell by (simp add: vga_act_def term_put_def screen_def vga_cell_def)
  next
    case 5
    let ?u = "s\<lparr>vga_col := vga_col s - 1\<rparr>"
    have "0 < unat (vga_col s)" using 5(2) by (simp add: word_less_nat_alt)
    then obtain j where j: "unat (vga_col s) = Suc j" by (auto simp: gr0_conv_Suc)
    then have d: "unat (vga_col s - 1) = j" using 5(2) u8_dec by simp
    with j have c': "vga_cell ?u = vga_cell s - 1" by (simp add: vga_cell_def)
    then have "vga_act c s = Some (?u\<lparr>vga_buffer := (vga_buffer s)[vga_cell s - 1 := vga_entry CHR '' '' (vga_color s)]\<rparr>)"
      using 5 len cell vga_put_cell_eq [of ?u] by (simp add: vga_act_def)
    moreover have "vga_cell s mod 80 \<noteq> 0" using cell j by simp
    ultimately show ?thesis using 5(1) len r k c' d j by (simp add: Let_def term_put_def screen_def vga_cell_def)
  next
    case 6
    have "vga_act c s = Some (s\<lparr>vga_buffer := (vga_buffer s)[vga_cell s := vga_entry c (vga_color s)],
        vga_col := vga_col s + 1\<rparr>)"
      using 6 len cell by (simp add: vga_act_def vga_put_cell_eq)
    then show ?thesis using 6 len r k inc by (simp add: term_put_def screen_def vga_cell_def)
  qed
qed

lemma vga_putchar_terminal:
  assumes "vga_ok s"
  shows "\<exists>t. vga_putchar c s = Some t \<and> vga_ok t \<and> vga_color t = vga_color s
    \<and> screen t = term_put (vga_color s) c (screen s)"
proof -
  obtain u where u: "vga_act c s = Some u" "length (vga_buffer u) = 2000" "vga_color u = vga_color s"
    "unat (vga_row u) < 25 \<and> unat (vga_col u) \<le> 80 \<or> unat (vga_row u) = 25 \<and> unat (vga_col u) = 0"
    "term_scroll (vga_entry CHR '' '' (vga_color s)) (vga_buffer u, vga_cell u) = term_put (vga_color s) c (screen s)"
    using vga_act_refines [OF assms] by blast
  from vga_wrap_refines [OF u(2) refl u(4)] u show ?thesis by (auto simp: vga_putchar_def)
qed

text \<open>C6: on a valid screen \<open>vga_putchar\<close> never writes outside the 2000 cells; it keeps the cursor on the
  screen and acts on cells and cursor as the reference terminal does, for every character, control
  characters, line wrap and scrolling included.\<close>

theorem vga_putchar_refines:
  assumes "vga_ok s"
  shows "\<exists>t. vga_putchar c s = Some t \<and> vga_ok t \<and> vga_color t = vga_color s
    \<and> screen t = term_put (vga_color s) c (screen s)"
  using assms by (rule vga_putchar_terminal)

definition console_example :: console where
  "console_example = \<lparr>vga_buffer = replicate 2000 0, vga_row = 24, vga_col = 79, vga_color = 0x0F, ports = []\<rparr>"

lemma console_example_ok: "vga_ok console_example"
  by (simp add: console_example_def vga_ok_def)

theorem vga_putchar_refines_witness:
  "\<exists>t. vga_putchar CHR ''A'' console_example = Some t \<and> vga_ok t \<and> snd (screen t) = 1920"
  using vga_putchar_refines [OF console_example_ok, of "CHR ''A''"]
  by (auto simp: term_put_def term_scroll_def screen_def vga_cell_def console_example_def)

section \<open>What printk prints\<close>

primrec printk_chars :: "char list \<Rightarrow> console \<Rightarrow> console option" where
  "printk_chars [] s = Some s"
| "printk_chars (c # cs) s = Option.bind (printk_out_char c s) (printk_chars cs)"

lemma printk_chars_append:
  "printk_chars (xs @ ys) s = Option.bind (printk_chars xs s) (printk_chars ys)"
  by (induction xs arbitrary: s) (auto split: Option.bind_splits)

lemma printk_out_str_chars: "NUL \<in> set b \<Longrightarrow> printk_out_str b s = printk_chars (cstr b) s"
  by (induction b arbitrary: s) (auto intro!: Option.bind_cong)

lemma digit_char_0: "digit_char 0 = CHR ''0''"
  by code_simp

lemma printk_tmp_lower:
  "2 \<le> unat base \<Longrightarrow> 0 < val \<Longrightarrow> rev (printk_tmp val base False) = num_digits (unat base) (unat val)"
proof (induction "unat val" arbitrary: val rule: less_induct)
  case less
  have b: "1 < base" using less.prems(1) by (simp add: word_less_nat_alt)
  have md: "val mod base = of_nat (unat val mod unat base)" "unat (val div base) = unat val div unat base"
    by (simp_all add: unat_div flip: unat_mod)
  show ?case
  proof (cases "unat val < unat base")
    case True
    then have "val div base = 0" using md(2) by (simp add: word_eq_unat_iff)
    with True b less.prems md show ?thesis
      by (subst printk_tmp.simps, subst num_digits.simps) (simp add: printk_tmp.simps)
  next
    case False
    then have "0 < unat (val div base)" using md(2) less.prems(1) by (simp add: div_greater_zero_iff)
    then have nz: "0 < val div base" by (simp add: word_less_nat_alt)
    have "unat (val div base) < unat val"
      using md(2) less.prems by (simp add: word_less_nat_alt)
    from less.hyps [OF this less.prems(1) nz] False b less.prems md show ?thesis
      by (subst printk_tmp.simps, subst num_digits.simps) simp
  qed
qed

lemma printk_utoa_lower:
  assumes "2 \<le> unat base"
  shows "printk_utoa val base False = num_digits (unat base) (unat val)"
proof (cases "val = 0")
  case True
  then show ?thesis using assms
    by (simp add: printk_utoa_def num_digits.simps digit_char_0)
next
  case False
  then show ?thesis using assms printk_tmp_lower [of base val] by (simp add: printk_utoa_def word_gt_0)
qed


definition upcase :: "char \<Rightarrow> char" where
  "upcase c = (if c \<in> set ''abcdef'' then char_of (of_char c - 32 :: nat) else c)"

lemma hex_upper_upcase:
  assumes "unat d < 16"
  shows "hex_upper d = upcase (digit_char d)"
proof -
  have "list_all (\<lambda>n. hex_upper (of_nat n) = upcase (digit_char (of_nat n))) [0..<16]" by code_simp
  moreover have "unat d \<in> set [0..<16]" using assms by simp
  ultimately have "hex_upper (of_nat (unat d)) = upcase (digit_char (of_nat (unat d)))"
    unfolding list_all_iff by (rule bspec)
  then show ?thesis by simp
qed

lemma printk_tmp_upper: "printk_tmp val 16 True = map upcase (printk_tmp val 16 False)"
proof (induction "unat val" arbitrary: val rule: less_induct)
  case less
  have "hex_upper (val mod 16) = upcase (digit_char (val mod 16))"
    by (rule hex_upper_upcase) (simp add: unat_mod)
  moreover have "unat (val div 16) < unat val" if "0 < val"
    using that by (simp add: unat_div word_less_nat_alt)
  ultimately show ?case
    using less.hyps by (subst (1 2) printk_tmp.simps) simp
qed

text \<open>The reference: the text that one conversion stands for, and that a format stands for.\<close>

definition signed_digits :: "u32 \<Rightarrow> char list" where
  "signed_digits v = (if sint v < 0 then CHR ''-'' # num_digits 10 (unat (- v)) else num_digits 10 (unat v))"

fun conv_text :: "char \<Rightarrow> va_arg \<Rightarrow> char list option" where
  "conv_text g (VA_str p) =
     (if g = CHR ''s'' then (case p of None \<Rightarrow> Some ''(null)''
        | Some b \<Rightarrow> if NUL \<in> set b then Some (cstr b) else None) else None)"
| "conv_text g (VA_word v) =
     (if g = CHR ''d'' \<or> g = CHR ''i'' then Some (signed_digits v)
      else if g = CHR ''u'' then Some (num_digits 10 (unat v))
      else if g = CHR ''x'' then Some (num_digits 16 (unat v))
      else if g = CHR ''X'' then Some (map upcase (num_digits 16 (unat v)))
      else if g = CHR ''c'' then Some [char_of (unat v)]
      else None)"

fun printk_text :: "char list \<Rightarrow> va_arg list \<Rightarrow> char list option" where
  "printk_text [] args = Some []"
| "printk_text (f # fmt) args =
     (if f \<noteq> CHR ''%'' then map_option ((#) f) (printk_text fmt args)
      else (case fmt of
              [] \<Rightarrow> Some []
            | g # fmt \<Rightarrow>
                if g = CHR ''%'' then map_option ((#) CHR ''%'') (printk_text fmt args)
                else if g \<in> set ''sdiuxXc'' then
                  (case args of [] \<Rightarrow> None
                   | a # args \<Rightarrow> Option.bind (conv_text g a) (\<lambda>t. map_option ((@) t) (printk_text fmt args)))
                else map_option (\<lambda>t. CHR ''%'' # g # t) (printk_text fmt args)))"

lemma printk_itoa_signed: "printk_itoa v 10 = signed_digits v"
  by (simp add: printk_itoa_def signed_digits_def printk_utoa_lower)

lemma printk_utoa_upper: "printk_utoa v 16 True = map upcase (num_digits 16 (unat v))"
proof (cases "v = 0")
  case True
  then show ?thesis by (simp add: printk_utoa_def num_digits.simps digit_char_0 upcase_def)
next
  case False
  then show ?thesis
    using printk_tmp_lower [of 16 v] by (simp add: printk_utoa_def printk_tmp_upper word_gt_0 rev_map)
qed

lemma NUL_notin_digits: "NUL \<notin> set (num_digits b n)" if "2 \<le> b" "b \<le> 36"
  using that
proof (induction b n rule: num_digits.induct)
  case (1 b n)
  have digit: "digit_char (of_nat m) \<noteq> NUL" if "m < 36" for m
  proof -
    have "list_all (\<lambda>m. digit_char (of_nat m) \<noteq> NUL) [0..<36]" by code_simp
    moreover have "m \<in> set [0..<36]" using that by simp
    ultimately show ?thesis unfolding list_all_iff by (rule bspec)
  qed
  show ?case
  proof (cases "n < b")
    case True
    then show ?thesis using 1 digit [of n] by (subst num_digits.simps) auto
  next
    case False
    have "n mod b < 36" using 1(2,3) mod_less_divisor [of b n] by linarith
    from digit [OF this] False 1 show ?thesis by (subst num_digits.simps) auto
  qed
qed


lemma NUL_notin_conversions:
  "NUL \<notin> set (signed_digits v)" "NUL \<notin> set (num_digits 10 n)" "NUL \<notin> set (num_digits 16 n)"
  "NUL \<notin> set (map upcase (num_digits 16 n))"
proof -
  show 10: "NUL \<notin> set (num_digits 10 n)" and 16: "NUL \<notin> set (num_digits 16 n)" for n
    by (rule NUL_notin_digits; simp)+
  show "NUL \<notin> set (signed_digits v)" using 10 by (simp add: signed_digits_def)
  have up: "upcase c \<noteq> NUL" if "c \<noteq> NUL" for c
  proof -
    have all: "list_all (\<lambda>c. char_of (of_char c - 32 :: nat) \<noteq> NUL) ''abcdef''" by code_simp
    show ?thesis
    proof (cases "c \<in> set ''abcdef''")
      case True
      with all have "char_of (of_char c - 32 :: nat) \<noteq> NUL" unfolding list_all_iff by (rule bspec)
      then show ?thesis using True by (simp only: upcase_def if_True not_False_eq_True)
    next
      case False
      then show ?thesis using that by (simp only: upcase_def if_False not_False_eq_True)
    qed
  qed
  have "NUL \<notin> upcase ` set (num_digits 16 n)"
  proof
    assume "NUL \<in> upcase ` set (num_digits 16 n)"
    then obtain c where c: "NUL = upcase c" "c \<in> set (num_digits 16 n)" by (rule imageE)
    then have "c = NUL" using up by metis
    with c(2) 16 show False by metis
  qed
  then show "NUL \<notin> set (map upcase (num_digits 16 n))" by (simp only: set_map not_False_eq_True)
qed

lemma printk_loop_text:
  "NUL \<notin> set fmt \<Longrightarrow> printk_text fmt args = Some out \<Longrightarrow>
   printk_loop (fmt @ [NUL]) args s = printk_chars out s"
proof (induction fmt args arbitrary: out s rule: printk_text.induct)
  case (1 args)
  then show ?case by simp
next
  case (2 f fmt args)
  show ?case
  proof (cases "f = CHR ''%''")
    case False
    then show ?thesis using 2 by (auto intro!: Option.bind_cong)
  next
    case True
    show ?thesis
    proof (cases fmt)
      case Nil
      then show ?thesis using 2 True by simp
    next
      case (Cons g fmt')
      have g: "g \<noteq> NUL" "NUL \<notin> set fmt'" using 2(5) Cons by auto
      consider "g = CHR ''%''" | "g \<noteq> CHR ''%''" "g \<in> set ''sdiuxXc''"
        | "g \<noteq> CHR ''%''" "g \<notin> set ''sdiuxXc''" by blast
      then show ?thesis
      proof cases
        case 1
        then obtain o' where o': "printk_text fmt' args = Some o'" "out = CHR ''%'' # o'"
          using 2(6) True Cons by auto
        have "printk_loop (fmt' @ [NUL]) args t = printk_chars o' t" for t
          using 2(2) [OF _ Cons] True 1 g o' by simp
        then show ?thesis using True 1 Cons o' by (auto intro!: Option.bind_cong)
      next
        case conv: 2
        then obtain a as ct o' where o': "args = a # as" "conv_text g a = Some ct"
          "printk_text fmt' as = Some o'" "out = ct @ o'"
          using 2(6) True Cons by (auto split: list.splits Option.bind_splits)
        have IH: "printk_loop (fmt' @ [NUL]) as = printk_chars o'"
          by (rule ext) (use 2(3) [OF _ Cons conv o'(1) o'(2)] True g o' in simp)
        have str: "printk_out_str (u @ [NUL]) t = printk_chars u t" if "NUL \<notin> set u" for u t
          using that printk_out_str_chars [of "u @ [NUL]" t] by simp
        show ?thesis
        proof (cases a)
          case (VA_str p)
          then have "g = CHR ''s''" using o'(2) by (simp split: if_splits)
          moreover have "printk_out_str (case p of None \<Rightarrow> ''(null)'' @ [NUL] | Some b \<Rightarrow> b) t = printk_chars ct t" for t
            using o'(2) VA_str str [of "''(null)''" t] by (auto simp: printk_out_str_chars split: option.splits if_splits)
          ultimately show ?thesis
            using True Cons o' VA_str IH by (simp add: printk_chars_append)
        next
          case (VA_word v)
          consider "g = CHR ''d'' \<or> g = CHR ''i''" "ct = signed_digits v"
            | "g = CHR ''u''" "ct = num_digits 10 (unat v)" | "g = CHR ''x''" "ct = num_digits 16 (unat v)"
            | "g = CHR ''X''" "ct = map upcase (num_digits 16 (unat v))" | "g = CHR ''c''" "ct = [char_of (unat v)]"
            using o'(2) VA_word by (auto split: if_splits)
          then show ?thesis
            using True Cons o' VA_word IH str NUL_notin_conversions
            by cases (auto simp: printk_chars_append printk_itoa_signed printk_utoa_lower printk_utoa_upper)
        qed
      next
        case 3
        then obtain o' where o': "printk_text fmt' args = Some o'" "out = CHR ''%'' # g # o'"
          using 2(6) True Cons by auto
        have IH: "printk_loop (fmt' @ [NUL]) args t = printk_chars o' t" for t
          using 2(4) [OF _ Cons] True 3 g o' by simp
        then show ?thesis using True 3 g Cons o' by (auto intro!: Option.bind_cong)
      qed
    qed
  qed
qed

definition serial_sent :: "console \<Rightarrow> u8 list" where
  "serial_sent s = map snd (filter (\<lambda>(port, v). port = COM1_PORT) (ports s))"

text \<open>On the wire a line feed is preceded by a carriage return.\<close>

definition crlf :: "char list \<Rightarrow> char list" where
  "crlf t = concat (map (\<lambda>c. if c = CHR 0x0A then [CHR 0x0D, c] else [c]) t)"

lemma serial_sent_cursor [simp]: "serial_sent (vga_update_cursor s) = serial_sent s"
  by (simp add: vga_update_cursor_def outb_def serial_sent_def Let_def)

lemma serial_sent_putchar [simp]: "serial_sent (serial_putchar c s) = serial_sent s @ [char_byte c]"
  by (simp add: serial_putchar_def outb_def serial_sent_def)

lemma serial_putchar_screen [simp]:
  "vga_ok (serial_putchar c s) = vga_ok s" "screen (serial_putchar c s) = screen s"
  "vga_color (serial_putchar c s) = vga_color s"
  by (simp_all add: serial_putchar_def outb_def vga_ok_def screen_def vga_cell_def)

lemma vga_putchar_ports: "vga_putchar c s = Some t \<Longrightarrow> serial_sent t = serial_sent s"
  by (auto simp: vga_putchar_def vga_act_def vga_wrap_def vga_scroll_def vga_put_cell_def
      Let_def split: if_splits Option.bind_splits) (auto simp: serial_sent_def vga_update_cursor_def outb_def Let_def)

lemma printk_chars_output:
  "vga_ok s \<Longrightarrow> \<exists>t. printk_chars cs s = Some t \<and> vga_ok t \<and> vga_color t = vga_color s
    \<and> screen t = fold (term_put (vga_color s)) cs (screen s)
    \<and> serial_sent t = serial_sent s @ map char_byte (crlf cs)"
proof (induction cs arbitrary: s)
  case Nil
  then show ?case by (simp add: crlf_def)
next
  case (Cons c cs)
  obtain u where u: "vga_putchar c s = Some u" "vga_ok u" "vga_color u = vga_color s"
    "screen u = term_put (vga_color s) c (screen s)"
    using vga_putchar_terminal [OF Cons.prems] by blast
  define v where "v = serial_putchar c (if c = CHR 0x0A then serial_putchar CHR 0x0D u else u)"
  have v: "vga_ok v" "vga_color v = vga_color s" "screen v = screen u"
    "serial_sent v = serial_sent s @ map char_byte (if c = CHR 0x0A then [CHR 0x0D, c] else [c])"
    using u vga_putchar_ports [OF u(1)] by (simp_all add: v_def)
  have "printk_out_char c s = Some v" using u(1) by (simp add: printk_out_char_def v_def)
  with Cons.IH [OF v(1)] v u(4) show ?case by (auto simp: crlf_def)
qed

lemma printk_defined:
  assumes "vga_ok s" and "NUL \<notin> set fmt" and "printk_text fmt args = Some out"
  shows "\<exists>t. printk (Some (fmt @ [NUL])) args s = Some t \<and> vga_ok t"
  using printk_chars_output [OF assms(1), of out] printk_loop_text [OF assms(2,3), of s]
  by (auto simp: printk_def)

text \<open>C7: \<open>printk\<close> prints, for every format of the conversions it supports, the text that the reference
  gives for the format and the arguments: on the screen as the reference terminal shows it and
  on the serial line byte for byte with CR LF line ends.\<close>

theorem printk_correct:
  assumes "vga_ok s" and "NUL \<notin> set fmt" and "printk_text fmt args = Some out"
  shows "\<exists>t. printk (Some (fmt @ [NUL])) args s = Some t \<and> vga_ok t
    \<and> screen t = fold (term_put (vga_color s)) out (screen s)
    \<and> serial_sent t = serial_sent s @ map char_byte (crlf out)"
  using printk_chars_output [OF assms(1), of out] printk_loop_text [OF assms(2,3), of s]
  by (auto simp: printk_def)

theorem printk_correct_witness:
  "\<exists>t. printk (Some (''n=%d 0x%X%%'' @ [NUL])) [VA_word 42, VA_word 255] console_example = Some t
    \<and> serial_sent t = map char_byte ''n=42 0xFF%''"
proof -
  have "printk_text ''n=%d 0x%X%%'' [VA_word 42, VA_word 255] = Some ''n=42 0xFF%''" by code_simp
  from printk_correct [OF console_example_ok _ this] show ?thesis
    by (auto simp: crlf_def serial_sent_def console_example_def)
qed

text \<open>\<open>printk\<close> knows no field widths: a conversion such as \<open>%08x\<close> prints its own letters, the
  argument is not printed, and the next conversion takes the argument meant for it.\<close>

theorem printk_ignores_width:
  "printk (Some (''%08x'' @ [NUL])) (VA_word v # args) s = printk (Some (''%%08x'' @ [NUL])) [] s
   \<and> printk (Some (''%04u %s'' @ [NUL])) [VA_word v, VA_str p] s = None"
  by (auto simp: printk_def fun_eq_iff split: Option.bind_splits)

end
