(* ===== verification/Byte_Queue.thy ===== *)
theory Byte_Queue
  imports Kernel_Prelude
begin

text \<open>
  The contract shared by the two ring buffers of the kernel (the kernel log and the keyboard
  buffer): pushing keeps a bounded part of what was pushed, and reading takes bytes out in order.
  \<open>view\<close> is the list of bytes held, oldest first; \<open>clip\<close> says which part is kept.
\<close>

locale byte_queue =
  fixes put :: "'s \<Rightarrow> 'a \<Rightarrow> 's" and view :: "'s \<Rightarrow> 'a list" and inv :: "'s \<Rightarrow> bool"
    and clip :: "'a list \<Rightarrow> 'a list"
  assumes put_inv: "inv s \<Longrightarrow> inv (put s c)"
    and put_view: "inv s \<Longrightarrow> view (put s c) = clip (view s @ [c])"
    and clip_clip: "clip (clip xs @ ys) = clip (xs @ ys)"
    and view_clip: "inv s \<Longrightarrow> clip (view s) = view s"
begin

lemma puts_inv: "inv s \<Longrightarrow> inv (foldl put s cs)"
  by (induction cs arbitrary: s) (auto intro: put_inv)

lemma puts_view: "inv s \<Longrightarrow> view (foldl put s cs) = clip (view s @ cs)"
proof (induction cs arbitrary: s)
  case Nil
  then show ?case by (simp add: view_clip)
next
  case (Cons c cs)
  then show ?case by (simp add: put_inv put_view clip_clip)
qed

end

locale byte_fifo = byte_queue +
  fixes get :: "'s \<Rightarrow> ('a \<times> 's) option"
  assumes get_empty: "inv s \<Longrightarrow> view s = [] \<Longrightarrow> get s = None"
    and get_view: "inv s \<Longrightarrow> view s = c # cs \<Longrightarrow> \<exists>t. get s = Some (c, t) \<and> inv t \<and> view t = cs"
begin

lemma get_Some: "inv s \<Longrightarrow> get s = Some (c, t) \<Longrightarrow> inv t \<and> view s = c # view t"
  using get_empty [of s] get_view [of s] by (cases "view s") fastforce+

lemma get_after_put:
  "inv s \<Longrightarrow> view s = [] \<Longrightarrow> clip [c] = [c] \<Longrightarrow> \<exists>t. get (put s c) = Some (c, t) \<and> inv t \<and> view t = []"
  using get_view [of "put s c" c "[]"] put_inv [of s c] put_view [of s c] by simp

end

section \<open>Rings\<close>

text \<open>The bytes of a ring from position \<open>tail\<close> on.\<close>

definition ring :: "'a list \<Rightarrow> nat \<Rightarrow> nat \<Rightarrow> 'a list" where
  "ring buf tail n = map (\<lambda>i. buf ! ((tail + i) mod length buf)) [0..<n]"

lemma length_ring [simp]: "length (ring buf tail n) = n"
  by (simp add: ring_def)

lemma ring_0 [simp]: "ring buf tail 0 = []"
  by (simp add: ring_def)

lemma ring_Suc: "ring buf tail (Suc n) = buf ! (tail mod length buf) # ring buf (Suc tail) n"
proof (rule nth_equalityI)
  fix i assume "i < length (ring buf tail (Suc n))"
  then show "ring buf tail (Suc n) ! i = (buf ! (tail mod length buf) # ring buf (Suc tail) n) ! i"
    by (cases i) (auto simp: ring_def simp del: upt_Suc)
qed simp

lemma ring_tail_mod: "ring buf (tail mod length buf) n = ring buf tail n"
  by (simp add: ring_def mod_add_left_eq)

lemma ring_update:
  assumes "n < length buf" and "tail < length buf"
  shows "ring (buf[(tail + n) mod length buf := c]) tail (Suc n) = ring buf tail n @ [c]"
proof -
  have "buf[(tail + n) mod length buf := c] ! ((tail + i) mod length buf) = buf ! ((tail + i) mod length buf)"
    if "i < n" for i
  proof -
    have "(tail + i) mod length buf \<noteq> (tail + n) mod length buf"
    proof
      assume "(tail + i) mod length buf = (tail + n) mod length buf"
      then have "length buf dvd (tail + n) - (tail + i)"
        by (metis mod_eq_dvd_iff_nat nat_add_left_cancel_le less_imp_le that)
      then have "length buf dvd n - i" by simp
      then show False using that assms(1) by (auto dest: dvd_imp_le)
    qed
    then show ?thesis by simp
  qed
  moreover have "(tail + n) mod length buf < length buf" using assms(1) by (intro mod_less_divisor) linarith
  ultimately show ?thesis by (simp add: ring_def)
qed

lemma ring_full_update:
  assumes "tail < length buf"
  shows "ring (buf[tail := c]) (Suc tail) (length buf) = tl (ring buf tail (length buf)) @ [c]"
proof -
  obtain n where n: "length buf = Suc n" using assms by (cases "length buf") auto
  have "ring (buf[tail := c]) (Suc tail) (length buf)
      = ring (buf[tail := c]) (Suc tail) n @ [buf[tail := c] ! ((Suc tail + n) mod length buf)]"
    by (simp add: ring_def n)
  also have "(Suc tail + n) mod length buf = tail"
    using assms n mod_add_self2 [of tail "Suc n"] by simp
  also have "ring (buf[tail := c]) (Suc tail) n = ring buf (Suc tail) n"
  proof (rule nth_equalityI)
    fix i assume "i < length (ring (buf[tail := c]) (Suc tail) n)"
    then have i: "i < n" by simp
    have "(Suc tail + i) mod Suc n \<noteq> tail"
    proof
      assume eq: "(Suc tail + i) mod Suc n = tail"
      show False
      proof (cases "Suc tail + i < Suc n")
        case True
        then show False using eq by simp
      next
        case False
        then have "(Suc tail + i) mod Suc n = Suc tail + i - Suc n"
          using assms i n by (simp add: mod_if le_mod_geq)
        then show False using eq i False by simp
      qed
    qed
    then show "ring (buf[tail := c]) (Suc tail) n ! i = ring buf (Suc tail) n ! i"
      using i n by (simp add: ring_def)
  qed simp
  finally show ?thesis using assms by (simp add: n ring_Suc)
qed

end
