(* ===== verification/Klog.thy ===== *)
theory Klog
  imports Byte_Queue Console
begin

text \<open>
  The kernel log, \<^verbatim>\<open>kernel/klog.c\<close>: a ring of 4096 bytes that keeps the newest, and the
  formatter that fills it through a buffer of 512 bytes on the stack.  \<open>timer_get_ticks\<close> is the
  argument \<open>ticks\<close>.
\<close>

abbreviation DIONNEX_KLOG_SIZE :: u32 where "DIONNEX_KLOG_SIZE \<equiv> 4096"

record klog_ring =
  klog_buffer :: "char list"
  klog_head :: u32
  klog_tail :: u32
  klog_count :: u32

definition klog_push_char :: "klog_ring \<Rightarrow> char \<Rightarrow> klog_ring" where
  "klog_push_char s c =
     (let s = s\<lparr>klog_buffer := (klog_buffer s)[unat (klog_head s) := c],
                klog_head := (klog_head s + 1) mod DIONNEX_KLOG_SIZE\<rparr>
      in if klog_count s < DIONNEX_KLOG_SIZE then s\<lparr>klog_count := klog_count s + 1\<rparr>
         else s\<lparr>klog_tail := (klog_tail s + 1) mod DIONNEX_KLOG_SIZE\<rparr>)"

fun klog_push_buf :: "char list \<Rightarrow> klog_ring \<Rightarrow> klog_ring option" where
  "klog_push_buf [] s = None"
| "klog_push_buf (c # cs) s = (if c = NUL then Some s else klog_push_buf cs (klog_push_char s c))"

definition klog_push_string :: "cptr \<Rightarrow> klog_ring \<Rightarrow> klog_ring option" where
  "klog_push_string p s = (case p of None \<Rightarrow> Some s | Some b \<Rightarrow> klog_push_buf b s)"

definition klog_init :: "klog_ring" where
  "klog_init = \<lparr>klog_buffer = replicate 4096 NUL, klog_head = 0, klog_tail = 0, klog_count = 0\<rparr>"

definition klog_clear :: "klog_ring" where
  "klog_clear = \<lparr>klog_buffer = replicate 4096 NUL, klog_head = 0, klog_tail = 0, klog_count = 0\<rparr>"

definition klog_get_count :: "klog_ring \<Rightarrow> u32" where
  "klog_get_count s = klog_count s"

text \<open>\<^verbatim>\<open>while (*s) *out_ptr++ = *s++;\<close>\<close>

fun copy_out :: "char list \<Rightarrow> char list \<Rightarrow> nat \<Rightarrow> (char list \<times> nat) option" where
  "copy_out [] b p = None"
| "copy_out (c # cs) b p =
     (if c = NUL then Some (b, p)
      else Option.bind (put_at b p c) (\<lambda>b. copy_out cs b (Suc p)))"

definition level_strings :: "char list list" where
  "level_strings = [''[DEBUG]'', ''[INFO] '', ''[WARN] '', ''[ERROR]'', ''[PANIC]'']"

text \<open>
  The loop over the format; \<open>num_buf\<close> has 32 bytes.  After a \<^verbatim>\<open>%\<close> the code steps over the next
  character even when that is the terminator.
\<close>

fun klog_format :: "char list \<Rightarrow> va_arg list \<Rightarrow> char list \<Rightarrow> nat \<Rightarrow> (char list \<times> nat) option" where
  "klog_format [] args b p = None"
| "klog_format (f # fmt) args b p =
     (if f = NUL then Some (b, p)
      else if f = CHR ''%'' then
        (case fmt of
           [] \<Rightarrow> None
         | g # fmt \<Rightarrow>
             if g = CHR ''s'' then
               (case args of
                  VA_str s # args \<Rightarrow>
                    Option.bind (copy_out (case s of None \<Rightarrow> ''(null)'' @ [NUL] | Some t \<Rightarrow> t) b p)
                      (\<lambda>(b, p). klog_format fmt args b p)
                | _ \<Rightarrow> None)
             else if g = CHR ''d'' then
               (case args of
                  VA_word v # args \<Rightarrow>
                    do { n \<leftarrow> itoa v (replicate 32 NUL) 10; (b, p) \<leftarrow> copy_out n b p; klog_format fmt args b p }
                | _ \<Rightarrow> None)
             else if g = CHR ''u'' then
               (case args of
                  VA_word v # args \<Rightarrow>
                    do { n \<leftarrow> utoa v (replicate 32 NUL) 10; (b, p) \<leftarrow> copy_out n b p; klog_format fmt args b p }
                | _ \<Rightarrow> None)
             else if g = CHR ''x'' \<or> g = CHR ''X'' then
               (case args of
                  VA_word v # args \<Rightarrow>
                    do { n \<leftarrow> utoa v (replicate 32 NUL) 16; (b, p) \<leftarrow> copy_out n b p; klog_format fmt args b p }
                | _ \<Rightarrow> None)
             else if g = CHR ''c'' then
               (case args of
                  VA_word v # args \<Rightarrow>
                    Option.bind (put_at b p (char_of (unat v))) (\<lambda>b. klog_format fmt args b (Suc p))
                | _ \<Rightarrow> None)
             else if g = CHR ''%'' then
               Option.bind (put_at b p CHR ''%'') (\<lambda>b. klog_format fmt args b (Suc p))
             else klog_format fmt args b p)
      else Option.bind (put_at b p f) (\<lambda>b. klog_format fmt args b (Suc p)))"

definition klog_header :: "u8 \<Rightarrow> u32 \<Rightarrow> char list option" where
  "klog_header level ticks = do {
     b \<leftarrow> put_at (replicate 512 NUL) 0 NUL;
     b \<leftarrow> strcat b (''['' @ [NUL]);
     n \<leftarrow> utoa ticks (replicate 32 NUL) 10;
     b \<leftarrow> strcat b n;
     b \<leftarrow> strcat b (''] '' @ [NUL]);
     b \<leftarrow> strcat b (level_strings ! unat level @ [NUL]);
     strcat b ('' '' @ [NUL])
   }"

definition klog :: "u8 \<Rightarrow> char list \<Rightarrow> va_arg list \<Rightarrow> u32 \<Rightarrow> klog_ring \<times> console \<Rightarrow> (klog_ring \<times> console) option" where
  "klog level fmt args ticks = (\<lambda>(s, con). do {
     let level = (if level > 4 then 1 else level);
     b \<leftarrow> klog_header level ticks;
     hdr_len \<leftarrow> strlen_buf b;
     (b, p) \<leftarrow> klog_format fmt args b hdr_len;
     b \<leftarrow> put_at b p NUL;
     s \<leftarrow> klog_push_string (Some b) s;
     con \<leftarrow> serial_write (Some b) con;
     Some (s, con)
   })"

primrec klog_dump_loop :: "nat \<Rightarrow> u32 \<Rightarrow> klog_ring \<Rightarrow> console \<Rightarrow> console option" where
  "klog_dump_loop 0 idx s con = Some con"
| "klog_dump_loop (Suc n) idx s con = do {
     con \<leftarrow> vga_putchar (klog_buffer s ! unat idx) con;
     klog_dump_loop n ((idx + 1) mod DIONNEX_KLOG_SIZE) s
       (serial_putchar (klog_buffer s ! unat idx) con)
   }"

definition klog_dump :: "klog_ring \<Rightarrow> console \<Rightarrow> console option" where
  "klog_dump s con = klog_dump_loop (unat (klog_count s)) (klog_tail s) s con"

primrec klog_read_loop :: "nat \<Rightarrow> nat \<Rightarrow> u32 \<Rightarrow> klog_ring \<Rightarrow> char list \<Rightarrow> char list option" where
  "klog_read_loop 0 i idx s buf = Some buf"
| "klog_read_loop (Suc n) i idx s buf = do {
     buf \<leftarrow> put_at buf i (klog_buffer s ! unat idx);
     klog_read_loop n (Suc i) ((idx + 1) mod DIONNEX_KLOG_SIZE) s buf
   }"

definition klog_read_bytes :: "cptr \<Rightarrow> u32 \<Rightarrow> klog_ring \<Rightarrow> (u32 \<times> cptr) option" where
  "klog_read_bytes buf max_len s =
     (case buf of
        None \<Rightarrow> Some (0, None)
      | Some b \<Rightarrow>
          if max_len = 0 then Some (0, Some b)
          else (let read_cnt = (if klog_count s < max_len then klog_count s else max_len)
                in map_option (\<lambda>b. (read_cnt, Some b)) (klog_read_loop (unat read_cnt) 0 (klog_tail s) s b)))"

section \<open>The log as a queue that keeps the newest bytes\<close>

definition klog_wf :: "klog_ring \<Rightarrow> bool" where
  "klog_wf s \<longleftrightarrow> length (klog_buffer s) = 4096 \<and> unat (klog_tail s) < 4096 \<and> unat (klog_count s) \<le> 4096
     \<and> unat (klog_head s) = (unat (klog_tail s) + unat (klog_count s)) mod 4096"

definition klog_view :: "klog_ring \<Rightarrow> char list" where
  "klog_view s = ring (klog_buffer s) (unat (klog_tail s)) (unat (klog_count s))"

definition keep_last :: "nat \<Rightarrow> 'a list \<Rightarrow> 'a list" where
  "keep_last n xs = drop (length xs - n) xs"

lemma keep_last_append: "keep_last n (keep_last n xs @ ys) = keep_last n (xs @ ys)"
proof (cases "length xs \<le> n")
  case False
  then have "keep_last n xs @ ys = drop (length xs - n) (xs @ ys)" by (simp add: keep_last_def)
  then show ?thesis using False by (simp add: keep_last_def add.commute)
qed (simp add: keep_last_def)

lemma u32_inc_mod: "unat (w :: u32) < 4096 \<Longrightarrow> unat ((w + 1) mod 4096) = Suc (unat w) mod 4096"
  using unat_Suc_small [of w 1] by (simp add: unat_mod)

lemma klog_wf_init: "klog_wf klog_init" "klog_view klog_init = []"
  by (simp_all add: klog_wf_def klog_view_def klog_init_def)

interpretation klog_queue: byte_queue klog_push_char klog_view klog_wf "keep_last 4096"
proof
  fix s c
  assume wf: "klog_wf s"
  define h where "h = unat (klog_head s)"
  define t where "t = unat (klog_tail s)"
  define n where "n = unat (klog_count s)"
  have len: "length (klog_buffer s) = 4096" and t: "t < 4096" and n: "n \<le> 4096" and h: "h = (t + n) mod 4096"
    using wf by (simp_all add: klog_wf_def h_def t_def n_def)
  have "h < 4096" using h by simp
  then have h': "unat ((klog_head s + 1) mod DIONNEX_KLOG_SIZE) = Suc h mod 4096"
    using u32_inc_mod by (simp add: h_def)
  show "klog_wf (klog_push_char s c)" and "klog_view (klog_push_char s c) = keep_last 4096 (klog_view s @ [c])"
  proof -
    have "klog_wf (klog_push_char s c) \<and> klog_view (klog_push_char s c) = keep_last 4096 (klog_view s @ [c])"
    proof (cases "n < 4096")
      case True
      then have lt: "klog_count s < DIONNEX_KLOG_SIZE" by (simp add: n_def word_less_nat_alt)
      have n1: "unat (klog_count s + 1) = Suc n"
        using unat_Suc_small [of "klog_count s" 1] True by (simp add: n_def)
      have eq: "klog_push_char s c = s\<lparr>klog_buffer := (klog_buffer s)[h := c],
          klog_head := (klog_head s + 1) mod DIONNEX_KLOG_SIZE, klog_count := klog_count s + 1\<rparr>"
        using lt by (simp add: klog_push_char_def h_def)
      have "ring ((klog_buffer s)[h := c]) t (Suc n) = ring (klog_buffer s) t n @ [c]"
        using ring_update [of n "klog_buffer s" t c] True t len h by simp
      moreover have "Suc h mod 4096 = (t + Suc n) mod 4096" using h by (simp add: mod_Suc_eq)
      ultimately show ?thesis using len t True n1 h'
        by (simp add: eq klog_wf_def klog_view_def keep_last_def t_def [symmetric] n_def [symmetric])
    next
      case False
      then have full: "n = 4096" "\<not> klog_count s < DIONNEX_KLOG_SIZE"
        using n by (simp_all add: n_def word_less_nat_alt)
      then have ht: "h = t" using h t by simp
      have t': "unat ((klog_tail s + 1) mod DIONNEX_KLOG_SIZE) = Suc t mod 4096"
        using u32_inc_mod t by (simp add: t_def)
      have eq: "klog_push_char s c = s\<lparr>klog_buffer := (klog_buffer s)[h := c],
          klog_head := (klog_head s + 1) mod DIONNEX_KLOG_SIZE,
          klog_tail := (klog_tail s + 1) mod DIONNEX_KLOG_SIZE\<rparr>"
        using full by (simp add: klog_push_char_def h_def)
      have "ring ((klog_buffer s)[t := c]) (Suc t mod 4096) 4096 = tl (ring (klog_buffer s) t 4096) @ [c]"
        using ring_full_update [of t "klog_buffer s" c] ring_tail_mod [of "(klog_buffer s)[t := c]" "Suc t" 4096]
          t len by simp
      moreover have "tl (ring (klog_buffer s) t 4096) @ [c] = keep_last 4096 (ring (klog_buffer s) t 4096 @ [c])"
        by (simp add: keep_last_def drop_Suc)
      moreover have "unat (klog_count s) = 4096" using full by (simp add: n_def)
      ultimately show ?thesis using len t' h' ht
        by (simp add: eq klog_wf_def klog_view_def t_def [symmetric])
    qed
    then show "klog_wf (klog_push_char s c)"
      and "klog_view (klog_push_char s c) = keep_last 4096 (klog_view s @ [c])" by simp_all
  qed
  show "keep_last 4096 (klog_view s) = klog_view s"
    using n by (simp add: keep_last_def klog_view_def n_def)
qed (rule keep_last_append)

lemma klog_push_buf_eq:
  "NUL \<in> set b \<Longrightarrow> klog_push_buf b s = Some (foldl klog_push_char s (cstr b))"
  by (induction b arbitrary: s) auto

text \<open>Reading copies the ring from the tail on.\<close>

lemma klog_read_loop_eq:
  "length (klog_buffer s) = 4096 \<Longrightarrow> unat idx < 4096 \<Longrightarrow> i + n \<le> length buf \<Longrightarrow>
   klog_read_loop n i idx s buf = Some (take i buf @ ring (klog_buffer s) (unat idx) n @ drop (i + n) buf)"
proof (induction n arbitrary: i idx buf)
  case (Suc n)
  let ?buf = "buf[i := klog_buffer s ! unat idx]"
  have "klog_read_loop (Suc n) i idx s buf = klog_read_loop n (Suc i) ((idx + 1) mod DIONNEX_KLOG_SIZE) s ?buf"
    using Suc.prems by (simp add: put_at_def)
  also have "\<dots> = Some (take (Suc i) ?buf @ ring (klog_buffer s) (Suc (unat idx) mod 4096) n @ drop (Suc i + n) ?buf)"
    using Suc.IH [of "(idx + 1) mod DIONNEX_KLOG_SIZE" "Suc i" ?buf] Suc.prems u32_inc_mod [of idx] by simp
  also have "ring (klog_buffer s) (Suc (unat idx) mod 4096) n = ring (klog_buffer s) (Suc (unat idx)) n"
    using ring_tail_mod [of "klog_buffer s"] Suc.prems by metis
  finally show ?case using Suc.prems by (simp add: ring_Suc take_Suc_conv_app_nth)
qed simp

lemma take_ring: "take m (ring buf tail n) = ring buf tail (min m n)"
  by (rule nth_equalityI) (auto simp: ring_def)

lemma copy_out_eq:
  "NUL \<in> set t \<Longrightarrow> copy_out t b p = (if p + length (cstr t) \<le> length b
     then Some (take p b @ cstr t @ drop (p + length (cstr t)) b, p + length (cstr t))
     else None)" if "p \<le> length b"
  using that
proof (induction t arbitrary: b p)
  case (Cons c cs)
  show ?case
  proof (cases "c = NUL \<or> p = length b")
    case False
    then show ?thesis using Cons
      by (auto simp: put_at_def take_Suc_conv_app_nth)
  qed (use Cons in \<open>auto simp: put_at_def\<close>)
qed simp

lemma copy_out_too_long:
  "NUL \<in> set t \<Longrightarrow> p \<le> length b \<Longrightarrow> length b < p + length (cstr t) \<Longrightarrow> copy_out t b p = None"
  by (simp add: copy_out_eq)

section \<open>Properties\<close>

text \<open>C8: whatever strings are pushed, the log holds the last 4096 bytes of all of them in order, and
  \<open>klog_read_bytes\<close> copies the oldest of these that fit in the caller's buffer to its front.\<close>

theorem klog_keeps_last:
  assumes "\<forall>b \<in> set bs. NUL \<in> set b" and "unat max_len \<le> length buf" and "max_len \<noteq> 0"
    and "s = foldl klog_push_char klog_init (concat (map cstr bs))"
    and "kept = keep_last 4096 (concat (map cstr bs))"
  shows "fold (\<lambda>b r. Option.bind r (klog_push_string (Some b))) bs (Some klog_init) = Some s
    \<and> klog_wf s \<and> klog_view s = kept
    \<and> klog_read_bytes (Some buf) max_len s =
        Some (of_nat (min (length kept) (unat max_len)),
              Some (take (unat max_len) kept @ drop (min (length kept) (unat max_len)) buf))"
proof -
  have "fold (\<lambda>b r. Option.bind r (klog_push_string (Some b))) bs (Some u)
      = Some (foldl klog_push_char u (concat (map cstr bs)))" for u
    using assms(1) by (induction bs arbitrary: u) (auto simp: klog_push_string_def klog_push_buf_eq)
  then have 1: "fold (\<lambda>b r. Option.bind r (klog_push_string (Some b))) bs (Some klog_init) = Some s"
    by (simp add: assms(4))
  have wf: "klog_wf s" using klog_queue.puts_inv [OF klog_wf_init(1)] by (simp add: assms(4))
  have view: "klog_view s = kept"
    using klog_queue.puts_view [OF klog_wf_init(1)] by (simp add: assms(4,5) klog_wf_init)
  define m where "m = min (length kept) (unat max_len)"
  have cnt: "unat (klog_count s) = length kept" using view by (auto simp: klog_view_def)
  have rc: "unat (if klog_count s < max_len then klog_count s else max_len) = m"
    by (simp add: m_def cnt [symmetric] word_less_nat_alt)
  have m_lt: "m < 2 ^ 32" using u32_unat_lt [of max_len] by (simp add: m_def)
  have um: "unat (of_nat m :: u32) = m" using m_lt by (intro unat_of_nat_small) simp
  have rc': "(if klog_count s < max_len then klog_count s else max_len) = of_nat m"
    by (simp only: word_eq_unat_iff rc um)
  have "klog_read_loop m 0 (klog_tail s) s buf = Some (ring (klog_buffer s) (unat (klog_tail s)) m @ drop m buf)"
    using klog_read_loop_eq [of s "klog_tail s" 0 m buf] wf assms(2) by (simp add: klog_wf_def m_def)
  moreover have "ring (klog_buffer s) (unat (klog_tail s)) m = take (unat max_len) kept"
    unfolding view [symmetric] klog_view_def by (simp add: take_ring m_def cnt min.commute)
  ultimately have "klog_read_bytes (Some buf) max_len s
      = Some (of_nat m, Some (take (unat max_len) kept @ drop m buf))"
    using assms(3) by (simp only: klog_read_bytes_def rc' Let_def option.case if_False rc [unfolded rc']) simp
  with 1 wf view show ?thesis by (simp add: m_def)
qed

theorem klog_keeps_last_witness:
  "klog_view (foldl klog_push_char klog_init ''boot'') = ''boot''"
  using klog_keeps_last [of "[''boot'' @ [NUL]]" 2 "replicate 2 NUL" "foldl klog_push_char klog_init ''boot''" "''boot''"]
  by (simp add: keep_last_def)




section \<open>The formatter\<close>

text \<open>The reference: the text of a message.  Unlike \<open>printk\<close>, \<open>klog\<close> prints hexadecimal digits in lower
  case only and drops a conversion it does not know.\<close>

fun klog_conv :: "char \<Rightarrow> va_arg \<Rightarrow> char list option" where
  "klog_conv g (VA_str p) =
     (if g = CHR ''s'' then (case p of None \<Rightarrow> Some ''(null)''
        | Some b \<Rightarrow> if NUL \<in> set b then Some (cstr b) else None) else None)"
| "klog_conv g (VA_word v) =
     (if g = CHR ''d'' then Some (signed_digits v)
      else if g = CHR ''u'' then Some (num_digits 10 (unat v))
      else if g = CHR ''x'' \<or> g = CHR ''X'' then Some (num_digits 16 (unat v))
      else if g = CHR ''c'' then Some [char_of (unat v)]
      else None)"

fun klog_text :: "char list \<Rightarrow> va_arg list \<Rightarrow> char list option" where
  "klog_text [] args = Some []"
| "klog_text (f # fmt) args =
     (if f \<noteq> CHR ''%'' then map_option ((#) f) (klog_text fmt args)
      else (case fmt of
              [] \<Rightarrow> None
            | g # fmt \<Rightarrow>
                if g = CHR ''%'' then map_option ((#) CHR ''%'') (klog_text fmt args)
                else if g \<in> set ''sduxXc'' then
                  (case args of [] \<Rightarrow> None
                   | a # args \<Rightarrow> Option.bind (klog_conv g a) (\<lambda>t. map_option ((@) t) (klog_text fmt args)))
                else klog_text fmt args))"

text \<open>Writing a text at the cursor of the message buffer.\<close>

definition text_at :: "char list \<Rightarrow> char list \<Rightarrow> nat \<Rightarrow> (char list \<times> nat) option" where
  "text_at t b p = (if p + length t \<le> length b
     then Some (take p b @ t @ drop (p + length t) b, p + length t) else None)"

lemma text_at_append:
  "p \<le> length b \<Longrightarrow> Option.bind (text_at t b p) (\<lambda>(b, p). text_at u b p) = text_at (t @ u) b p"
  by (auto simp: text_at_def ac_simps)

lemma text_at_Nil: "p \<le> length b \<Longrightarrow> text_at [] b p = Some (b, p)"
  by (simp add: text_at_def)

lemma copy_out_text: "NUL \<in> set t \<Longrightarrow> p \<le> length b \<Longrightarrow> copy_out t b p = text_at (cstr t) b p"
  by (simp add: copy_out_eq text_at_def)

lemma put_at_text:
  "p \<le> length b \<Longrightarrow> Option.bind (put_at b p c) (\<lambda>b. g b (Suc p)) = Option.bind (text_at [c] b p) (\<lambda>(b, p). g b p)"
  by (auto simp: put_at_def text_at_def list_update_split)

lemma text_at_bound: "p \<le> length b \<Longrightarrow> text_at t b p = Some (b', p') \<Longrightarrow> p' \<le> length b'"
  by (auto simp: text_at_def split: if_splits)

lemma digits_fit: "length (num_digits 10 (unat (v :: u32))) < 32" "length (num_digits 16 (unat v)) < 32"
  "length (signed_digits v) < 32" "length (num_digits 10 (unat (- v))) < 31"
proof -
  have d: "length (num_digits 10 (unat (w :: u32))) \<le> 10" "length (num_digits 16 (unat w)) \<le> 8" for w
    using length_num_digits_le [of 10 "unat w" 9] length_num_digits_le [of 16 "unat w" 7] u32_unat_lt [of w]
    by simp_all
  from d [of v] d(1) [of "- v"] show "length (num_digits 10 (unat v)) < 32" "length (num_digits 16 (unat v)) < 32"
    "length (signed_digits v) < 32" "length (num_digits 10 (unat (- v))) < 31"
    by (simp_all add: signed_digits_def)
qed

lemma klog_numbers:
  "itoa v (replicate 32 NUL) 10 = Some (signed_digits v @ NUL # drop (Suc (length (signed_digits v))) (replicate 32 NUL))"
  "utoa v (replicate 32 NUL) 10 = Some (num_digits 10 (unat v) @ NUL # drop (Suc (length (num_digits 10 (unat v)))) (replicate 32 NUL))"
  "utoa v (replicate 32 NUL) 16 = Some (num_digits 16 (unat v) @ NUL # drop (Suc (length (num_digits 16 (unat v)))) (replicate 32 NUL))"
  using digits_fit [of v] by (simp_all add: itoa_eq utoa_eq Let_def signed_digits_def del: drop_replicate)

lemma klog_format_text:
  "NUL \<notin> set fmt \<Longrightarrow> klog_text fmt args = Some out \<Longrightarrow> p \<le> length b \<Longrightarrow>
   klog_format (fmt @ [NUL]) args b p = text_at out b p"
proof (induction fmt args arbitrary: out b p rule: klog_text.induct)
  case (1 args)
  then show ?case by (simp add: text_at_Nil)
next
  case (2 f fmt args)
  have bind: "Option.bind (text_at t b p) (\<lambda>(b, p). klog_format (x @ [NUL]) as b p) = text_at (t @ o') b p"
    if "\<And>b p. p \<le> length b \<Longrightarrow> klog_format (x @ [NUL]) as b p = text_at o' b p" for t x as o'
    using that text_at_bound [OF 2(7), of t] text_at_append [OF 2(7), of t o', symmetric]
    by (auto intro!: Option.bind_cong)
  show ?case
  proof (cases "f = CHR ''%''")
    case False
    then obtain o' where o': "klog_text fmt args = Some o'" "out = f # o'" using 2(6) by auto
    have "klog_format (fmt @ [NUL]) args b p = text_at o' b p" if "p \<le> length b" for b p
      using 2(1) [OF False _ o'(1) that] 2(5) by simp
    moreover have "f \<noteq> NUL" using 2(5) by auto
    ultimately show ?thesis using bind [of fmt args o' "[f]"] False 2(7) o' by (simp add: put_at_text)
  next
    case True
    show ?thesis
    proof (cases fmt)
      case Nil
      then show ?thesis using 2 True by simp
    next
      case (Cons g fmt')
      have g: "g \<noteq> NUL" "NUL \<notin> set fmt'" using 2(5) Cons by auto
      consider "g = CHR ''%''" | "g \<noteq> CHR ''%''" "g \<in> set ''sduxXc''"
        | "g \<noteq> CHR ''%''" "g \<notin> set ''sduxXc''" by blast
      then show ?thesis
      proof cases
        case 1
        then obtain o' where o': "klog_text fmt' args = Some o'" "out = CHR ''%'' # o'"
          using 2(6) True Cons by auto
        have "klog_format (fmt' @ [NUL]) args b p = text_at o' b p" if "p \<le> length b" for b p
          using 2(2) [OF _ Cons] True 1 g o' that by simp
        from bind [OF this, of "[g]"] True 1 Cons 2(7) o' show ?thesis by (simp add: put_at_text)
      next
        case conv: 2
        then obtain a as ct o' where o': "args = a # as" "klog_conv g a = Some ct"
          "klog_text fmt' as = Some o'" "out = ct @ o'"
          using 2(6) True Cons by (auto split: list.splits Option.bind_splits)
        have "klog_format (fmt' @ [NUL]) as b p = text_at o' b p" if "p \<le> length b" for b p
          using 2(3) [OF _ Cons conv o'(1) o'(2)] True g o' that by simp
        note IH = bind [OF this, of ct]
        show ?thesis
        proof (cases a)
          case (VA_str s)
          then have "g = CHR ''s''" using o'(2) by (simp split: if_splits)
          moreover have "copy_out (case s of None \<Rightarrow> ''(null)'' @ [NUL] | Some t \<Rightarrow> t) b p = text_at ct b p"
            using o'(2) VA_str 2(7) copy_out_text [of "''(null)'' @ [NUL]" p b]
            by (auto simp: copy_out_text split: option.splits if_splits)
          ultimately show ?thesis using True Cons o' VA_str IH by simp
        next
          case (VA_word v)
          have str: "copy_out (u @ NUL # w) b p = text_at u b p" if "NUL \<notin> set u" for u w
            using copy_out_text [of "u @ NUL # w" p b] that 2(7) by simp
          consider "g = CHR ''d''" "ct = signed_digits v" | "g = CHR ''u''" "ct = num_digits 10 (unat v)"
            | "g = CHR ''x'' \<or> g = CHR ''X''" "ct = num_digits 16 (unat v)" | "g = CHR ''c''" "ct = [char_of (unat v)]"
            using o'(2) VA_word by (auto split: if_splits)
          then show ?thesis
            using True Cons o' VA_word IH 2(7)
            by cases (auto simp: klog_numbers str NUL_notin_conversions put_at_text)
        qed
      next
        case 3
        have "klog_format (fmt' @ [NUL]) args b p = text_at out b p"
          using 2(4) [OF _ Cons] True 3 g 2(6,7) Cons by simp
        then show ?thesis using True 3 g Cons by simp
      qed
    qed
  qed
qed

section \<open>A whole log call\<close>

lemma strcat_blank:
  assumes "NUL \<notin> set u" "NUL \<notin> set t" "length t < n"
  shows "strcat (u @ replicate n NUL) (t @ NUL # w) = Some (u @ t @ replicate (n - length t) NUL)"
proof -
  obtain k where k: "n = Suc k" using assms(3) by (cases n) auto
  have c: "cstr (u @ replicate n NUL) = u" using assms(1) by (simp add: k)
  have "strcat (u @ replicate n NUL) (t @ NUL # w)
      = Some (u @ t @ NUL # drop (Suc (length u + length t)) (u @ replicate n NUL))"
    using strcat_eq [of "u @ replicate n NUL" "t @ NUL # w"] assms c k by simp
  also have "NUL # drop (Suc (length u + length t)) (u @ replicate n NUL) = replicate (n - length t) NUL"
    using assms(3) by (simp add: replicate_Suc [symmetric] Suc_diff_Suc del: replicate_Suc)
  finally show ?thesis .
qed

lemma cstr_blank: "NUL \<notin> set u \<Longrightarrow> cstr (u @ replicate n NUL) = u"
  by (cases n) (auto simp: cstr_def takeWhile_eq_all_conv intro!: takeWhile_append_stop)

definition header_text :: "u8 \<Rightarrow> u32 \<Rightarrow> char list" where
  "header_text level ticks = ''['' @ num_digits 10 (unat ticks) @ ''] '' @ level_strings ! unat level @ '' ''"

lemma level_string:
  assumes "level \<le> (4 :: u8)"
  shows "NUL \<notin> set (level_strings ! unat level)" "length (level_strings ! unat level) = 7"
proof -
  have "unat level < 5" using assms by (simp add: word_le_nat_alt)
  then have "unat level \<in> {0, 1, 2, 3, 4}" by auto
  then show "NUL \<notin> set (level_strings ! unat level)" "length (level_strings ! unat level) = 7"
    by (auto simp: level_strings_def)
qed

lemma klog_header_eq:
  assumes "level \<le> 4"
  shows "klog_header level ticks
    = Some (header_text level ticks @ replicate (512 - length (header_text level ticks)) NUL)"
    and "NUL \<notin> set (header_text level ticks)" and "length (header_text level ticks) \<le> 42"
proof -
  note lev = level_string [OF assms]
  have d: "length (num_digits 10 (unat ticks)) < 32" "NUL \<notin> set (num_digits 10 (unat ticks))"
    using digits_fit(1) NUL_notin_conversions(2) by blast+
  let ?d = "num_digits 10 (unat ticks)"
  let ?l = "level_strings ! unat level"
  have 0: "put_at (replicate 512 NUL) 0 NUL = Some (replicate 512 NUL)"
    by (simp add: put_at_def list_update_same_conv)
  have 1: "strcat (replicate 512 NUL) (''['' @ [NUL]) = Some (''['' @ replicate 511 NUL)"
    using strcat_blank [of "[]" "''[''" 512 "[]"] by simp
  have 2: "strcat (''['' @ replicate 511 NUL) (?d @ NUL # w)
      = Some ((''['' @ ?d) @ replicate (511 - length ?d) NUL)" for w
    using strcat_blank [of "''[''" ?d 511 w] d by simp
  have 3: "strcat ((''['' @ ?d) @ replicate (511 - length ?d) NUL) ('']'' @ '' '' @ [NUL])
      = Some ((''['' @ ?d @ ''] '') @ replicate (509 - length ?d) NUL)"
    using strcat_blank [of "''['' @ ?d" "''] ''" "511 - length ?d" "[]"] d by simp
  have 4: "strcat ((''['' @ ?d @ ''] '') @ replicate (509 - length ?d) NUL) (?l @ [NUL])
      = Some ((''['' @ ?d @ ''] '' @ ?l) @ replicate (502 - length ?d) NUL)"
    using strcat_blank [of "''['' @ ?d @ ''] ''" ?l "509 - length ?d" "[]"] d lev by simp
  have 5: "strcat ((''['' @ ?d @ ''] '' @ ?l) @ replicate (502 - length ?d) NUL) ('' '' @ [NUL])
      = Some (header_text level ticks @ replicate (501 - length ?d) NUL)"
    using strcat_blank [of "''['' @ ?d @ ''] '' @ ?l" "'' ''" "502 - length ?d" "[]"] d lev
    by (simp add: header_text_def)
  have n: "512 - length (header_text level ticks) = 501 - length ?d" using lev by (simp add: header_text_def)
  show "klog_header level ticks
    = Some (header_text level ticks @ replicate (512 - length (header_text level ticks)) NUL)"
    unfolding n klog_header_def using 0 1 2 3 4 5 by (simp add: klog_numbers)
  show "NUL \<notin> set (header_text level ticks)" "length (header_text level ticks) \<le> 42"
    using d lev by (simp_all add: header_text_def)
qed

lemma serial_write_defined: "NUL \<in> set b \<Longrightarrow> \<exists>con'. serial_write (Some b) con = Some con'"
  unfolding serial_write_def option.case by (induction b arbitrary: con) auto

lemma serial_write_sent:
  "NUL \<in> set b \<Longrightarrow> \<exists>con'. serial_write (Some b) con = Some con'
    \<and> serial_sent con' = serial_sent con @ map char_byte (crlf (cstr b)) \<and> screen con' = screen con"
  unfolding serial_write_def option.case
proof (induction b arbitrary: con)
  case (Cons c cs)
  show ?case
  proof (cases "c = NUL")
    case True
    then show ?thesis by (simp add: cstr_def crlf_def)
  next
    case False
    then have "NUL \<in> set cs" using Cons.prems by simp
    from Cons.IH [OF this, of "serial_putchar c (if c = CHR 0x0A then serial_putchar CHR 0x0D con else con)"] False
    show ?thesis by (auto simp: cstr_def crlf_def)
  qed
qed simp

text \<open>A message that fits the 512-byte buffer of \<open>klog\<close> is appended to the log as its header (time and
  level) and the text that the reference gives for the format and the arguments; only the oldest bytes are given up.
  The same text goes to the serial line, and nothing to the screen.\<close>

theorem klog_correct:
  assumes "klog_wf s" and "NUL \<notin> set fmt" and "klog_text fmt args = Some out" and "NUL \<notin> set out"
    and "level \<le> 4" and "length (header_text level ticks) + length out < 512"
  shows "\<exists>s' con'. klog level (fmt @ [NUL]) args ticks (s, con) = Some (s', con') \<and> klog_wf s'
    \<and> klog_view s' = keep_last 4096 (klog_view s @ header_text level ticks @ out)
    \<and> serial_sent con' = serial_sent con @ map char_byte (crlf (header_text level ticks @ out)) \<and> screen con' = screen con"
proof -
  let ?h = "header_text level ticks"
  let ?b = "?h @ replicate (512 - length ?h) NUL"
  note hd = klog_header_eq [OF assms(5), of ticks]
  have len: "length ?b = 512" using hd(3) by simp
  have "NUL \<in> set ?b" using hd(3) by (simp add: set_replicate_conv_if)
  then have strl: "strlen_buf ?b = Some (length ?h)"
    using hd(2,3) strlen_buf_eq [of ?b] by (simp add: cstr_blank)
  define m where "m = ?h @ out @ drop (length out) (replicate (512 - length ?h) NUL)"
  have f: "klog_format (fmt @ [NUL]) args ?b (length ?h) = Some (m, length ?h + length out)"
    using klog_format_text [OF assms(2,3), of "length ?h" ?b] len assms(6) by (simp add: text_at_def m_def)
  have lm: "length m = 512" using assms(6) by (simp add: m_def)
  have z: "put_at m (length ?h + length out) NUL = Some m"
    using assms(6) lm by (simp add: put_at_def list_update_same_conv) (simp add: m_def nth_append)
  have nul: "NUL \<in> set m" and cm: "cstr m = ?h @ out"
  proof -
    have "drop (length out) (replicate (512 - length ?h) NUL) = NUL # replicate (511 - length ?h - length out) NUL"
      using assms(6) by (simp add: replicate_Suc [symmetric] Suc_diff_le del: replicate_Suc)
    then show "NUL \<in> set m" "cstr m = ?h @ out"
      using hd(2) assms(4) by (simp_all add: m_def cstr_append_NUL [of "?h @ out", simplified])
  qed
  obtain con' where con': "serial_write (Some m) con = Some con'"
    "serial_sent con' = serial_sent con @ map char_byte (crlf (?h @ out))" "screen con' = screen con"
    using serial_write_sent [OF nul, of con] unfolding cm by blast
  define s' where "s' = foldl klog_push_char s (?h @ out)"
  have "\<not> level > 4" using assms(5) by simp
  then have "klog level (fmt @ [NUL]) args ticks (s, con) = Some (s', con')"
    using hd(1) strl f z nul con'(1) by (simp add: klog_def klog_push_string_def klog_push_buf_eq cm s'_def)
  moreover have "klog_wf s'" "klog_view s' = keep_last 4096 (klog_view s @ ?h @ out)"
    using klog_queue.puts_inv [OF assms(1)] klog_queue.puts_view [OF assms(1)] unfolding s'_def by blast+
  ultimately show ?thesis using con'(2,3) by blast
qed

text \<open>The message buffer is not bounded: a string argument of 512 bytes or more makes \<open>klog\<close>
  write past the end of its stack buffer, whatever the level and the time.\<close>

theorem klog_overflow:
  assumes "NUL \<in> set t" and "512 \<le> length (cstr t)"
  shows "klog level (''%s'' @ [NUL]) [VA_str (Some t)] ticks st = None"
proof -
  define l where "l = (if level > 4 then 1 else level)"
  have l: "l \<le> 4" by (auto simp: l_def not_less)
  note hd = klog_header_eq [OF l, of ticks]
  let ?h = "header_text l ticks"
  let ?b = "?h @ replicate (512 - length ?h) NUL"
  have "copy_out t ?b p = None" if "0 < p" "p \<le> 512" for p
  proof (rule copy_out_too_long [OF assms(1)])
    have "length ?b = 512" using hd(3) by simp
    then show "p \<le> length ?b" "length ?b < p + length (cstr t)" using that assms(2) by linarith+
  qed
  moreover have "0 < length ?h" by (simp add: header_text_def)
  moreover have "strlen_buf ?b = Some (length ?h)"
    using hd(2,3) strlen_buf_eq [of ?b] by (simp add: cstr_blank set_replicate_conv_if)
  moreover have "length ?h \<le> 512" using hd(3) by simp
  ultimately show ?thesis
    using hd(1) by (cases st) (simp add: klog_def l_def [symmetric] Let_def)
qed

theorem klog_correct_witness:
  "\<exists>s' con'. klog 1 (''up %u'' @ [NUL]) [VA_word 7] 5 (klog_init, console_example) = Some (s', con')
    \<and> klog_view s' = ''[5] [INFO]  up 7''"
proof -
  have t: "klog_text ''up %u'' [VA_word 7] = Some ''up 7''" by code_simp
  have h: "header_text 1 5 = ''[5] [INFO]  ''" by code_simp
  show ?thesis
    using klog_correct [OF klog_wf_init(1) _ t, of 1 5 console_example]
    by (auto simp: h keep_last_def klog_wf_init)
qed

theorem klog_overflow_witness:
  "klog 1 (''%s'' @ [NUL]) [VA_str (Some (replicate 512 CHR ''x'' @ [NUL]))] 0 (klog_init, console_example) = None"
  by (rule klog_overflow) (simp_all add: cstr_append_NUL)

end
