(* ===== verification/Keyboard.thy ===== *)
theory Keyboard
  imports Byte_Queue
begin

text \<open>
  The keyboard driver, \<^verbatim>\<open>drivers/keyboard.c\<close>: the interrupt handler turns scan codes into
  characters and puts them into a ring of 256 bytes with byte-sized indices, which
  \<open>keyboard_read\<close> empties.  \<open>keyboard_read\<close> waits while the ring is empty; that is
  \<^term>\<open>None\<close> here, since only another interrupt can end the wait.  \<open>keyboard_init\<close> only
  registers the handler.
\<close>

record keyboard =
  kb_buffer :: "char list"
  kb_head :: u8
  kb_tail :: u8
  shift_pressed :: bool
  caps_lock :: bool

text \<open>The tables, filled up with zeros to 128 entries as C does.\<close>

definition scancode_set1 :: "char list" where
  "scancode_set1 =
     [NUL, CHR 0x1B] @ ''1234567890-='' @ [CHR 0x08] @
     [CHR 0x09] @ ''qwertyuiop[]'' @ [CHR 0x0A] @
     [NUL] @ ''asdfghjkl;'' @ [CHR 0x27, CHR 0x60] @
     [NUL, CHR 0x5C] @ ''zxcvbnm,./'' @ [NUL] @
     ''*'' @ [NUL] @ '' '' @ replicate 70 NUL"

definition scancode_set1_shift :: "char list" where
  "scancode_set1_shift =
     [NUL, CHR 0x1B] @ ''!@#$%^&*()_+'' @ [CHR 0x08] @
     [CHR 0x09] @ ''QWERTYUIOP{}'' @ [CHR 0x0A] @
     [NUL] @ ''ASDFGHJKL:'' @ [CHR 0x22, CHR 0x7E] @
     [NUL] @ ''|ZXCVBNM<>?'' @ [NUL] @
     ''*'' @ [NUL] @ '' '' @ replicate 70 NUL"

definition in_range :: "char \<Rightarrow> char \<Rightarrow> char \<Rightarrow> bool" where
  "in_range lo hi c \<longleftrightarrow> (of_char lo :: nat) \<le> of_char c \<and> (of_char c :: nat) \<le> of_char hi"

definition apply_caps :: "bool \<Rightarrow> char \<Rightarrow> char" where
  "apply_caps caps c =
     (if caps \<and> in_range CHR ''a'' CHR ''z'' c then char_of (of_char c - 97 + 65 :: nat)
      else if caps \<and> in_range CHR ''A'' CHR ''Z'' c then char_of (of_char c - 65 + 97 :: nat)
      else c)"

definition kb_put :: "keyboard \<Rightarrow> char \<Rightarrow> keyboard" where
  "kb_put s c =
     (let next_head = kb_head s + 1
      in if next_head \<noteq> kb_tail s
         then s\<lparr>kb_buffer := (kb_buffer s)[unat (kb_head s) := c], kb_head := next_head\<rparr>
         else s)"

definition keyboard_handler :: "u8 \<Rightarrow> keyboard \<Rightarrow> keyboard" where
  "keyboard_handler scancode s =
     (if scancode = 0x2A \<or> scancode = 0x36 then s\<lparr>shift_pressed := True\<rparr>
      else if scancode = 0xAA \<or> scancode = 0xB6 then s\<lparr>shift_pressed := False\<rparr>
      else if scancode = 0x3A then s\<lparr>caps_lock := \<not> caps_lock s\<rparr>
      else if scancode AND 0x80 \<noteq> 0 then s
      else (let c = (if scancode < 128
                     then apply_caps (caps_lock s)
                       ((if shift_pressed s then scancode_set1_shift else scancode_set1) ! unat scancode)
                     else NUL)
            in if c \<noteq> NUL then kb_put s c else s))"

definition keyboard_has_input :: "keyboard \<Rightarrow> bool" where
  "keyboard_has_input s \<longleftrightarrow> kb_head s \<noteq> kb_tail s"

definition keyboard_read :: "keyboard \<Rightarrow> (char \<times> keyboard) option" where
  "keyboard_read s =
     (if kb_head s = kb_tail s then None
      else Some (kb_buffer s ! unat (kb_tail s), s\<lparr>kb_tail := kb_tail s + 1\<rparr>))"

section \<open>The buffer as a queue\<close>

definition kb_wf :: "keyboard \<Rightarrow> bool" where
  "kb_wf s \<longleftrightarrow> length (kb_buffer s) = 256"

definition kb_view :: "keyboard \<Rightarrow> char list" where
  "kb_view s = ring (kb_buffer s) (unat (kb_tail s)) (unat (kb_head s - kb_tail s))"

lemma u8_add_unat: "unat (a + b :: u8) = (unat a + unat b) mod 256"
  by (simp add: unat_word_ariths)

lemma kb_head_eq: "unat (kb_head s) = (unat (kb_tail s) + unat (kb_head s - kb_tail s)) mod 256"
  using u8_add_unat [of "kb_tail s" "kb_head s - kb_tail s"] by simp

lemma u8_Suc: "unat (w :: u8) < 255 \<Longrightarrow> unat (w + 1) = Suc (unat w)"
  by (simp add: unat_word_ariths)

lemma u8_max: "w + 1 \<noteq> (0 :: u8) \<longleftrightarrow> unat w < 255"
proof -
  have "w + 1 = 0 \<longleftrightarrow> unat w = 255"
    using u8_unat_lt [of w] by (auto simp: word_eq_unat_iff u8_add_unat mod_if)
  then show ?thesis using u8_unat_lt [of w] by auto
qed

interpretation kb_fifo: byte_fifo kb_put kb_view kb_wf "take 255" keyboard_read
proof
  fix s c and cs :: "char list"
  assume wf: "kb_wf s"
  define t where "t = unat (kb_tail s)"
  define n where "n = unat (kb_head s - kb_tail s)"
  have len: "length (kb_buffer s) = 256" using wf by (simp add: kb_wf_def)
  have t: "t < 256" and n: "n < 256" using u8_unat_lt by (simp_all add: t_def n_def)
  have h: "unat (kb_head s) = (t + n) mod 256" using kb_head_eq by (simp add: t_def n_def)
  have full: "kb_head s + 1 \<noteq> kb_tail s \<longleftrightarrow> n < 255"
    using u8_max [of "kb_head s - kb_tail s"] by (simp add: n_def algebra_simps)
  show "kb_wf (kb_put s c)" using wf by (simp add: kb_wf_def kb_put_def Let_def)
  show "kb_view (kb_put s c) = take 255 (kb_view s @ [c])"
  proof (cases "n < 255")
    case True
    then have "unat (kb_head s + 1 - kb_tail s) = Suc n"
      using u8_Suc [of "kb_head s - kb_tail s"] by (simp add: n_def algebra_simps)
    moreover have "ring ((kb_buffer s)[(t + n) mod 256 := c]) t (Suc n) = ring (kb_buffer s) t n @ [c]"
      using ring_update [of n "kb_buffer s" t c] len t n by simp
    ultimately show ?thesis using True full h
      by (simp add: kb_put_def kb_view_def Let_def t_def [symmetric] n_def [symmetric])
  next
    case False
    then show ?thesis using full n
      by (simp add: kb_put_def kb_view_def Let_def t_def [symmetric] n_def [symmetric])
  qed
  show "take 255 (kb_view s) = kb_view s" using n by (simp add: kb_view_def n_def)
  show "keyboard_read s = None" if "kb_view s = []"
  proof -
    have "n = 0" using that length_ring by (metis kb_view_def list.size(3) n_def)
    then have "kb_head s - kb_tail s = 0" by (simp add: word_eq_unat_iff n_def)
    then have "kb_head s = kb_tail s" by simp
    then show ?thesis by (simp add: keyboard_read_def)
  qed
  show "\<exists>t. keyboard_read s = Some (c, t) \<and> kb_wf t \<and> kb_view t = cs" if v: "kb_view s = c # cs"
  proof -
    have "n = Suc (length cs)" using v length_ring by (metis kb_view_def length_Cons n_def)
    then obtain m where m: "n = Suc m" by blast
    then have ne: "kb_head s \<noteq> kb_tail s" by (auto simp: n_def)
    have "kb_view s = kb_buffer s ! t # ring (kb_buffer s) (Suc t) m"
      using t len by (simp add: kb_view_def t_def [symmetric] n_def [symmetric] m ring_Suc)
    then have c: "c = kb_buffer s ! t" "cs = ring (kb_buffer s) (Suc t) m" using v by simp_all
    have "unat (kb_head s - (kb_tail s + 1)) = m"
    proof -
      have "unat (kb_head s - kb_tail s - 1) = m"
        using m n_def by (metis diff_Suc_1 nat.simps(3) unat_0 unat_minus_one)
      then show ?thesis by (simp add: algebra_simps)
    qed
    moreover have "ring (kb_buffer s) (unat (kb_tail s + 1)) m = ring (kb_buffer s) (Suc t) m"
      using ring_tail_mod [of "kb_buffer s" "Suc t" m] len by (simp add: u8_add_unat t_def)
    ultimately show ?thesis using ne c wf
      by (simp add: keyboard_read_def kb_view_def kb_wf_def t_def)
  qed
qed (auto simp: min_def)

section \<open>Properties\<close>

text \<open>The reference: the keys pressed, with the state of the shift and caps lock keys.\<close>

datatype key = Shift_down | Shift_up | Caps | Release | Press nat

definition key_of :: "u8 \<Rightarrow> key" where
  "key_of code =
     (if code \<in> {0x2A, 0x36} then Shift_down else if code \<in> {0xAA, 0xB6} then Shift_up
      else if code = 0x3A then Caps else if unat code \<ge> 128 then Release else Press (unat code))"

fun typed :: "bool \<Rightarrow> bool \<Rightarrow> key list \<Rightarrow> char list" where
  "typed sh caps [] = []"
| "typed sh caps (Shift_down # ks) = typed True caps ks"
| "typed sh caps (Shift_up # ks) = typed False caps ks"
| "typed sh caps (Caps # ks) = typed sh (\<not> caps) ks"
| "typed sh caps (Release # ks) = typed sh caps ks"
| "typed sh caps (Press k # ks) =
     filter (\<lambda>c. c \<noteq> NUL) [apply_caps caps ((if sh then scancode_set1_shift else scancode_set1) ! k)]
       @ typed sh caps ks"

lemma bit7_iff: "code AND 0x80 \<noteq> (0 :: u8) \<longleftrightarrow> 128 \<le> unat code"
proof -
  have "(0x80 :: u8) = 2 ^ 7" by simp
  then have "code AND 0x80 \<noteq> 0 \<longleftrightarrow> bit code 7"
    by (metis and_exp_eq_0_iff_not_bit)
  also have "\<dots> \<longleftrightarrow> bit (unat code) 7" by (simp only: bit_unsigned_iff) simp
  also have "\<dots> \<longleftrightarrow> odd (unat code div 2 ^ 7)" by (rule bit_iff_odd)
  also have "\<dots> \<longleftrightarrow> 128 \<le> unat code"
  proof (cases "128 \<le> unat code")
    case True
    then have "unat code div 2 ^ 7 = 1" using u8_unat_lt [of code] by (intro div_nat_eqI) simp_all
    with True show ?thesis by simp
  qed simp
  finally show ?thesis .
qed


lemma handler_key:
  "keyboard_handler code s =
    (case key_of code of
       Shift_down \<Rightarrow> s\<lparr>shift_pressed := True\<rparr> | Shift_up \<Rightarrow> s\<lparr>shift_pressed := False\<rparr>
     | Caps \<Rightarrow> s\<lparr>caps_lock := \<not> caps_lock s\<rparr> | Release \<Rightarrow> s
     | Press k \<Rightarrow> foldl kb_put s (filter (\<lambda>c. c \<noteq> NUL)
         [apply_caps (caps_lock s) ((if shift_pressed s then scancode_set1_shift else scancode_set1) ! k)]))"
  by (auto simp: keyboard_handler_def key_of_def bit7_iff word_less_nat_alt Let_def)

lemma kb_state_simps [simp]:
  "kb_view (s\<lparr>shift_pressed := b\<rparr>) = kb_view s" "kb_view (s\<lparr>caps_lock := b\<rparr>) = kb_view s"
  "kb_wf (s\<lparr>shift_pressed := b\<rparr>) = kb_wf s" "kb_wf (s\<lparr>caps_lock := b\<rparr>) = kb_wf s"
  "shift_pressed (kb_put s c) = shift_pressed s" "caps_lock (kb_put s c) = caps_lock s"
  by (simp_all add: kb_view_def kb_wf_def kb_put_def Let_def)

text \<open>C9: the characters waiting in the keyboard buffer are, in the order of the key presses, those the
  reference types for the scan codes received; when the buffer is full new ones are dropped and
  none already there is overwritten.\<close>

theorem keyboard_fifo:
  assumes "kb_wf s"
  shows "kb_wf (foldl (\<lambda>s code. keyboard_handler code s) s codes)
    \<and> kb_view (foldl (\<lambda>s code. keyboard_handler code s) s codes)
      = take 255 (kb_view s @ typed (shift_pressed s) (caps_lock s) (map key_of codes))"
  using assms
proof (induction codes arbitrary: s)
  case Nil
  then show ?case by (simp add: kb_fifo.view_clip)
next
  case (Cons code codes)
  show ?case
  proof (cases "key_of code")
    case (Press k)
    define cs where "cs = filter (\<lambda>c. c \<noteq> NUL)
         [apply_caps (caps_lock s) ((if shift_pressed s then scancode_set1_shift else scancode_set1) ! k)]"
    define t where "t = foldl kb_put s cs"
    have t: "kb_wf t" "kb_view t = take 255 (kb_view s @ cs)" "shift_pressed t = shift_pressed s"
      "caps_lock t = caps_lock s"
      using kb_fifo.puts_inv [OF Cons.prems] kb_fifo.puts_view [OF Cons.prems]
      by (simp_all add: t_def) (simp_all add: cs_def)
    have "keyboard_handler code s = t" by (simp add: handler_key Press t_def cs_def)
    moreover have "typed (shift_pressed s) (caps_lock s) (map key_of (code # codes))
        = cs @ typed (shift_pressed s) (caps_lock s) (map key_of codes)"
      by (simp add: Press cs_def)
    ultimately show ?thesis
      using Cons.IH [OF t(1)] t kb_fifo.clip_clip [of "kb_view s @ cs"] by simp
  qed (use Cons in \<open>simp_all add: handler_key\<close>)
qed

text \<open>\<open>keyboard_read\<close> takes out exactly the oldest waiting character, and waits exactly when
  \<open>keyboard_has_input\<close> is false.\<close>

theorem keyboard_read_correct:
  assumes "kb_wf s"
  shows "(case keyboard_read s of
            None \<Rightarrow> kb_view s = [] \<and> \<not> keyboard_has_input s
          | Some (c, t) \<Rightarrow> kb_view s = c # kb_view t \<and> kb_wf t \<and> keyboard_has_input s)"
proof (cases "kb_view s")
  case Nil
  then show ?thesis using kb_fifo.get_empty [OF assms Nil]
    by (simp add: keyboard_has_input_def keyboard_read_def split: if_splits)
next
  case (Cons c cs)
  then show ?thesis using kb_fifo.get_view [OF assms Cons]
    by (auto simp: keyboard_has_input_def keyboard_read_def split: if_splits)
qed

definition caps_ok :: "char \<Rightarrow> char \<Rightarrow> bool \<Rightarrow> bool \<Rightarrow> bool" where
  "caps_ok plain shifted sh caps \<longleftrightarrow>
     apply_caps caps (if sh then shifted else plain) =
       (if in_range CHR ''a'' CHR ''z'' plain then (if sh \<noteq> caps then shifted else plain)
        else if sh then shifted else plain)"

text \<open>On a letter key, caps lock and shift cancel out: the letter typed is upper case exactly when one of
  the two is in effect, and no other key is affected by caps lock.\<close>

theorem caps_lock_correct:
  "\<forall>k \<in> {..<128}. caps_ok (scancode_set1 ! k) (scancode_set1_shift ! k) sh caps"
proof
  let ?z = "zip scancode_set1 scancode_set1_shift"
  have len: "length scancode_set1 = 128" "length scancode_set1_shift = 128"
    by (simp_all add: scancode_set1_def scancode_set1_shift_def)
  have all: "list_all (\<lambda>(a, b). list_all (\<lambda>(sh, caps). caps_ok a b sh caps)
      [(False, False), (False, True), (True, False), (True, True)]) ?z"
    by code_simp
  fix k :: nat
  assume "k \<in> {..<128}"
  then have "(scancode_set1 ! k, scancode_set1_shift ! k) \<in> set ?z" using len by (auto simp: set_zip)
  with all have "list_all (\<lambda>(sh, caps). caps_ok (scancode_set1 ! k) (scancode_set1_shift ! k) sh caps)
      [(False, False), (False, True), (True, False), (True, True)]"
    unfolding list_all_iff by blast
  then show "caps_ok (scancode_set1 ! k) (scancode_set1_shift ! k) sh caps"
    by (cases sh; cases caps) simp_all
qed

definition kb_example :: keyboard where
  "kb_example = \<lparr>kb_buffer = replicate 256 NUL, kb_head = 250, kb_tail = 250, shift_pressed = False, caps_lock = False\<rparr>"

lemma kb_example_wf: "kb_wf kb_example" "kb_view kb_example = []"
  by (simp_all add: kb_wf_def kb_view_def kb_example_def)

theorem keyboard_fifo_witness:
  "kb_view (foldl (\<lambda>s code. keyboard_handler code s) kb_example [0x2A, 0x23, 0xAA, 0x17, 0x97]) = ''Hi''"
proof -
  have "typed False False (map key_of [0x2A, 0x23, 0xAA, 0x17, 0x97]) = ''Hi''" by code_simp
  then show ?thesis
    using keyboard_fifo [OF kb_example_wf(1), of "[0x2A, 0x23, 0xAA, 0x17, 0x97]"] kb_example_wf(2)
    by (simp add: kb_example_def)
qed

theorem keyboard_read_correct_witness: "keyboard_read kb_example = None"
  using keyboard_read_correct [OF kb_example_wf(1)]
  by (auto simp: keyboard_has_input_def kb_example_def split: option.splits)

theorem caps_lock_correct_witness: "apply_caps True (scancode_set1 ! 16) = scancode_set1_shift ! 16"
proof -
  have "(16 :: nat) \<in> {..<128}" by simp
  then have "caps_ok (scancode_set1 ! 16) (scancode_set1_shift ! 16) False True"
    using caps_lock_correct by blast
  moreover have "in_range CHR ''a'' CHR ''z'' (scancode_set1 ! 16)" by code_simp
  ultimately show ?thesis by (simp add: caps_ok_def)
qed

end
