(* ===== verification/Rtc.thy ===== *)
theory Rtc
  imports Console
begin

text \<open>
  The real time clock, \<^verbatim>\<open>drivers/rtc.c\<close>.  The CMOS chip is hardware that changes on its own: it
  is a parameter \<open>h\<close>, where \<open>h n r\<close> is what the \<open>n\<close>th access of the driver finds in register
  \<open>r\<close>, and the driver's state is the number of accesses made so far.  The waiting loops are
  \<open>partial_function\<close>s: a chip that never stops updating is the value \<^term>\<open>None\<close>.
\<close>

type_synonym cmos = "nat \<Rightarrow> u8 \<Rightarrow> u8"

record rtc_time =
  second :: u8
  minute :: u8
  hour :: u8
  day :: u8
  month :: u8
  year :: u16

definition cmos_read :: "cmos \<Rightarrow> u8 \<Rightarrow> nat \<Rightarrow> u8 \<times> nat" where
  "cmos_read h reg n = (h n reg, Suc n)"

definition cmos_is_updating :: "cmos \<Rightarrow> nat \<Rightarrow> bool \<times> nat" where
  "cmos_is_updating h n = (h n 0x0A AND 0x80 \<noteq> 0, Suc n)"

definition bcd_to_bin :: "u8 \<Rightarrow> u8" where
  "bcd_to_bin val = drop_bit 4 val * 10 + (val AND 0x0F)"

text \<open>\<^verbatim>\<open>while (cmos_is_updating()) ;\<close>\<close>

partial_function (option) cmos_wait :: "cmos \<Rightarrow> nat \<Rightarrow> nat option" where
  "cmos_wait h n = (let (updating, n) = cmos_is_updating h n in if updating then cmos_wait h n else Some n)"

definition rtc_sample :: "cmos \<Rightarrow> nat \<Rightarrow> rtc_time \<times> nat" where
  "rtc_sample h n =
     (let (s, n) = cmos_read h 0x00 n;
          (mi, n) = cmos_read h 0x02 n;
          (ho, n) = cmos_read h 0x04 n;
          (d, n) = cmos_read h 0x07 n;
          (mo, n) = cmos_read h 0x08 n;
          (y, n) = cmos_read h 0x09 n
      in (\<lparr>second = s, minute = mi, hour = ho, day = d, month = mo, year = ucast y\<rparr>, n))"

text \<open>The \<^verbatim>\<open>do \<dots> while\<close> loop: samples until two in a row agree.\<close>

partial_function (option) rtc_settle :: "cmos \<Rightarrow> rtc_time \<Rightarrow> nat \<Rightarrow> (rtc_time \<times> nat) option" where
  "rtc_settle h last_t n = do {
     n \<leftarrow> cmos_wait h n;
     let (t, n) = rtc_sample h n;
     if t \<noteq> last_t then rtc_settle h t n else Some (t, n)
   }"

definition rtc_convert :: "u8 \<Rightarrow> rtc_time \<Rightarrow> rtc_time" where
  "rtc_convert reg_b t =
     (let t = (if reg_b AND 0x04 = 0
               then t\<lparr>second := bcd_to_bin (second t), minute := bcd_to_bin (minute t),
                      hour := bcd_to_bin (hour t AND 0x7F) OR (hour t AND 0x80),
                      day := bcd_to_bin (day t), month := bcd_to_bin (month t),
                      year := ucast (bcd_to_bin (ucast (year t)))\<rparr>
               else t);
          t = (if reg_b AND 0x02 = 0 \<and> hour t AND 0x80 \<noteq> 0
               then t\<lparr>hour := ((hour t AND 0x7F) + 12) mod 24\<rparr> else t)
      in t\<lparr>year := year t + 2000\<rparr>)"

definition rtc_read_time :: "cmos \<Rightarrow> nat \<Rightarrow> (rtc_time \<times> nat) option" where
  "rtc_read_time h n = do {
     n \<leftarrow> cmos_wait h n;
     let (t, n) = rtc_sample h n;
     (t, n) \<leftarrow> rtc_settle h t n;
     let (reg_b, n) = cmos_read h 0x0B n;
     Some (rtc_convert reg_b t, n)
   }"

text \<open>The arithmetic of \<open>rtc_get_ticks\<close>, all of it in \<^verbatim>\<open>uint32_t\<close>.\<close>

definition rtc_seconds :: "rtc_time \<Rightarrow> u32" where
  "rtc_seconds t =
     (let (y, m) = (if month t \<le> 2 then (year t - 1, month t + 12) else (year t, month t));
          era = ucast y div 400 :: u32;
          yoe = ucast y - era * 400;
          doy = (153 * (ucast m - 3) + 2) div 5 + ucast (day t) - 1;
          doe = yoe * 365 + yoe div 4 - yoe div 100 + doy;
          days = era * 146097 + doe - 719468
      in days * 86400 + ucast (hour t) * 3600 + ucast (minute t) * 60 + ucast (second t))"

definition rtc_get_ticks :: "cmos \<Rightarrow> nat \<Rightarrow> (u32 \<times> nat) option" where
  "rtc_get_ticks h n = map_option (\<lambda>(t, n). (rtc_seconds t, n)) (rtc_read_time h n)"

definition rtc_init :: "cmos \<Rightarrow> nat \<Rightarrow> console \<Rightarrow> (nat \<times> console) option" where
  "rtc_init h n con = do {
     (t, n) \<leftarrow> rtc_read_time h n;
     con \<leftarrow> printk (Some (''RTC: %04u-%02u-%02u %02u:%02u:%02u'' @ [CHR 0x0A, NUL]))
              [VA_word (ucast (year t)), VA_word (ucast (month t)), VA_word (ucast (day t)),
               VA_word (ucast (hour t)), VA_word (ucast (minute t)), VA_word (ucast (second t))] con;
     Some (n, con)
   }"

section \<open>The clock registers\<close>

text \<open>
  The specification of the chip: the registers for a time, in the format that register B selects
  (bit 2: binary instead of BCD; bit 1: 24 instead of 12 hours).
\<close>

definition to_bcd :: "u8 \<Rightarrow> u8" where
  "to_bcd v = push_bit 4 (v div 10) OR (v mod 10)"

definition rtc_registers :: "u8 \<Rightarrow> rtc_time \<Rightarrow> rtc_time" where
  "rtc_registers reg_b t =
     (let enc = (if reg_b AND 0x04 = 0 then to_bcd else id);
          ho = (if reg_b AND 0x02 = 0
                then enc (if hour t mod 12 = 0 then 12 else hour t mod 12) OR (if hour t \<ge> 12 then 0x80 else 0)
                else enc (hour t))
      in \<lparr>second = enc (second t), minute = enc (minute t), hour = ho, day = enc (day t),
          month = enc (month t), year = ucast (enc (ucast (year t - 2000)))\<rparr>)"

definition rtc_valid :: "rtc_time \<Rightarrow> bool" where
  "rtc_valid t \<longleftrightarrow> second t < 60 \<and> minute t < 60 \<and> hour t < 24 \<and> 1 \<le> day t \<and> day t \<le> 31
     \<and> 1 \<le> month t \<and> month t \<le> 12 \<and> 2000 \<le> year t \<and> year t < 2100"

lemma u8_all:
  assumes "list_all (\<lambda>n. P (of_nat n :: u8)) [0..<k]" and "unat v < k"
  shows "P v"
proof -
  have "P (of_nat (unat v))" using assms unfolding list_all_iff by (metis atLeastLessThan_iff le0 set_upt)
  then show ?thesis by simp
qed

lemma bcd_to_bin_to_bcd:
  assumes "v < 100"
  shows "bcd_to_bin (to_bcd v) = v"
  by (rule u8_all [of _ 100], code_simp) (use assms in \<open>simp add: word_less_nat_alt\<close>)

text \<open>Every hour, in each of the four formats.\<close>

definition hour_shown :: "bool \<Rightarrow> bool \<Rightarrow> u8 \<Rightarrow> u8" where
  "hour_shown bcd h12 v =
     (let enc = (if bcd then to_bcd else id)
      in if h12 then enc (if v mod 12 = 0 then 12 else v mod 12) OR (if v \<ge> 12 then 0x80 else 0) else enc v)"

definition hour_read :: "bool \<Rightarrow> bool \<Rightarrow> u8 \<Rightarrow> u8" where
  "hour_read bcd h12 v =
     (let v = (if bcd then bcd_to_bin (v AND 0x7F) OR (v AND 0x80) else v)
      in if h12 \<and> v AND 0x80 \<noteq> 0 then ((v AND 0x7F) + 12) mod 24 else v)"

lemma hour_read_shown:
  assumes "v < 24"
  shows "hour_read bcd h12 (hour_shown bcd h12 v) = (if h12 \<and> v mod 12 = 0 then 12 - v else v)"
proof (rule u8_all [of "\<lambda>v. hour_read bcd h12 (hour_shown bcd h12 v) = (if h12 \<and> v mod 12 = 0 then 12 - v else v)" 24])
  have "\<forall>bcd \<in> {True, False}. \<forall>h12 \<in> {True, False}. list_all (\<lambda>n. let v = of_nat n :: u8 in
      hour_read bcd h12 (hour_shown bcd h12 v) = (if h12 \<and> v mod 12 = 0 then 12 - v else v)) [0..<24]"
    by code_simp
  then show "list_all (\<lambda>n. hour_read bcd h12 (hour_shown bcd h12 (of_nat n))
      = (if h12 \<and> of_nat n mod 12 = (0 :: u8) then 12 - of_nat n else of_nat n)) [0..<24]"
    by (cases bcd; cases h12) (simp_all only: Let_def ball_simps insert_iff simp_thms)
  show "unat v < 24" using assms by (simp add: word_less_nat_alt)
qed

text \<open>For every valid time and every format of the registers the driver decodes the time that the chip
  shows, except that in the 12-hour formats it exchanges noon and midnight.\<close>

theorem rtc_convert_correct:
  assumes "rtc_valid t"
  shows "rtc_convert reg_b (rtc_registers reg_b t)
    = (if reg_b AND 0x02 = 0 \<and> hour t mod 12 = 0 then t\<lparr>hour := 12 - hour t\<rparr> else t)"
proof -
  let ?bcd = "reg_b AND 0x04 = 0" and ?h12 = "reg_b AND 0x02 = 0"
  let ?enc = "if ?bcd then to_bcd else id" and ?dec = "if ?bcd then bcd_to_bin else id"
  have v: "second t < 60" "minute t < 60" "hour t < 24" "day t \<le> 31" "month t \<le> 12"
    "2000 \<le> year t" "year t < 2100"
    using assms by (simp_all add: rtc_valid_def)
  have de: "?dec (?enc w) = w" if "w < 100" for w using bcd_to_bin_to_bcd [OF that] by simp
  have y: "ucast (year t - 2000) < (100 :: u8)" and y': "ucast (ucast (year t - 2000) :: u8) = year t - 2000"
  proof -
    have n: "unat (year t - 2000) < 100"
      using v(6,7) by (simp add: unat_sub word_le_nat_alt word_less_nat_alt)
    then show "ucast (year t - 2000) < (100 :: u8)"
      by (simp add: word_less_nat_alt unsigned_ucast_eq take_bit_nat_def)
    show "ucast (ucast (year t - 2000) :: u8) = year t - 2000"
      using n by (intro word_unat_eq_iff [THEN iffD2]) (simp add: unsigned_ucast_eq unsigned_take_bit_eq take_bit_nat_def)
  qed
  have f: "?dec (?enc (second t)) = second t" "?dec (?enc (minute t)) = minute t"
    "?dec (?enc (day t)) = day t" "?dec (?enc (month t)) = month t"
    "?dec (?enc (ucast (year t - 2000))) = ucast (year t - 2000)"
    by (rule de, use v y in \<open>simp add: word_less_nat_alt word_le_nat_alt\<close>)+
  have ho: "hour (rtc_registers reg_b t) = hour_shown ?bcd ?h12 (hour t)"
    by (simp add: rtc_registers_def hour_shown_def Let_def)
  have conv: "rtc_convert reg_b r = \<lparr>second = ?dec (second r), minute = ?dec (minute r),
      hour = hour_read ?bcd ?h12 (hour r), day = ?dec (day r), month = ?dec (month r),
      year = (if ?bcd then ucast (bcd_to_bin (ucast (year r))) else year r) + 2000\<rparr>" for r
    by (cases r) (simp add: rtc_convert_def hour_read_def Let_def)
  have uu: "ucast (ucast w :: u16) = (w :: u8)" for w by (intro bit_word_eqI) (simp add: bit_simps)
  have yr: "(if ?bcd then ucast (bcd_to_bin (ucast (year (rtc_registers reg_b t)))) else year (rtc_registers reg_b t)) + 2000 = year t"
    using f(5) y' by (cases ?bcd) (simp_all add: rtc_registers_def Let_def uu)
  show ?thesis
    unfolding conv ho hour_read_shown [OF v(3)] yr
    using f(1-4) by (cases t) (simp add: rtc_registers_def Let_def)
qed


section \<open>The driver returns\<close>

text \<open>From access \<open>N\<close> on the chip is not updating and its registers do not change.\<close>

definition rtc_quiet :: "cmos \<Rightarrow> nat \<Rightarrow> bool" where
  "rtc_quiet h N \<longleftrightarrow> (\<forall>n \<ge> N. h n 0x0A AND 0x80 = 0 \<and> (\<forall>r. r \<noteq> 0x0A \<longrightarrow> h n r = h N r))"

lemma rtc_quiet_reg: "rtc_quiet h N \<Longrightarrow> N \<le> n \<Longrightarrow> r \<noteq> 0x0A \<Longrightarrow> h n r = h N r"
  unfolding rtc_quiet_def by blast

lemma cmos_wait_quiet:
  assumes "rtc_quiet h N"
  shows "\<exists>n'. cmos_wait h n = Some n' \<and> n < n' \<and> (N \<le> n \<longrightarrow> n' = Suc n)"
proof (induction "N - n" arbitrary: n)
  case 0
  then have "h n 0x0A AND 0x80 = 0" using assms by (simp add: rtc_quiet_def)
  then show ?case by (subst cmos_wait.simps) (simp add: cmos_is_updating_def)
next
  case (Suc k)
  then have k: "k = N - Suc n" by simp
  show ?case
  proof (cases "h n 0x0A AND 0x80 = 0")
    case False
    then have "cmos_wait h n = cmos_wait h (Suc n)"
      by (subst cmos_wait.simps) (simp add: cmos_is_updating_def)
    then show ?thesis using Suc(1) [OF k] Suc(2) by fastforce
  qed (subst cmos_wait.simps, use Suc(2) in \<open>simp add: cmos_is_updating_def\<close>)
qed

lemma rtc_sample_time [simp]: "snd (rtc_sample h n) = n + 6"
  by (simp add: rtc_sample_def cmos_read_def)

lemma rtc_sample_quiet:
  assumes "rtc_quiet h N" and "N \<le> n"
  shows "fst (rtc_sample h n) = fst (rtc_sample h N)"
proof -
  obtain R where "\<And>m r. N \<le> m \<Longrightarrow> r \<noteq> 0x0A \<Longrightarrow> h m r = R r"
    using assms(1) unfolding rtc_quiet_def by metis
  then show ?thesis using assms(2) by (simp add: rtc_sample_def cmos_read_def)
qed

text \<open>One turn of the loop.\<close>

lemma rtc_settle_step:
  "cmos_wait h n = Some n' \<Longrightarrow> rtc_settle h last_t n
    = (if fst (rtc_sample h n') = last_t then Some (last_t, n' + 6)
       else rtc_settle h (fst (rtc_sample h n')) (n' + 6))"
  using rtc_sample_time [of h n'] by (subst rtc_settle.simps) (cases "rtc_sample h n'"; simp)

lemma rtc_settle_quiet_end:
  assumes q: "rtc_quiet h N" and le: "N \<le> n"
  shows "\<exists>n'. rtc_settle h last_t n = Some (fst (rtc_sample h N), n') \<and> n < n'"
proof -
  let ?t = "fst (rtc_sample h N)"
  have w: "cmos_wait h m = Some (Suc m)" if "N \<le> m" for m
    using cmos_wait_quiet [OF q, of m] that by auto
  have s: "fst (rtc_sample h (Suc m)) = ?t" if "N \<le> m" for m
    using rtc_sample_quiet [OF q, of "Suc m"] that by simp
  have "rtc_settle h ?t m = Some (?t, Suc m + 6)" if "N \<le> m" for m
    using rtc_settle_step [OF w [OF that]] s [OF that] by simp
  then show ?thesis
    using rtc_settle_step [OF w [OF le], of last_t] s [OF le] le by (cases "last_t = ?t") auto
qed

lemma rtc_settle_quiet:
  assumes q: "rtc_quiet h N"
  shows "\<exists>t n'. rtc_settle h last_t n = Some (t, n') \<and> n < n'"
proof (induction "N - n" arbitrary: n last_t rule: less_induct)
  case less
  show ?case
  proof (cases "N \<le> n")
    case True
    then show ?thesis using rtc_settle_quiet_end [OF q] by blast
  next
    case False
    obtain m where m: "cmos_wait h n = Some m" "n < m" using cmos_wait_quiet [OF q] by blast
    note step = rtc_settle_step [OF m(1), of last_t]
    have "N - (m + 6) < N - n" using False m(2) by simp
    then obtain t n' where n': "rtc_settle h (fst (rtc_sample h m)) (m + 6) = Some (t, n')" "m + 6 < n'"
      using less by blast
    show ?thesis
    proof (cases "fst (rtc_sample h m) = last_t")
      case True
      then have "rtc_settle h last_t n = Some (last_t, m + 6)" "n < m + 6" using step m(2) by simp_all
      then show ?thesis by blast
    next
      case False
      then have "rtc_settle h last_t n = Some (t, n')" "n < n'" using step n' m(2) by simp_all
      then show ?thesis by blast
    qed
  qed
qed

lemma rtc_read_time_settle:
  "cmos_wait h n = Some m \<Longrightarrow> rtc_settle h (fst (rtc_sample h m)) (m + 6) = Some (t, n')
    \<Longrightarrow> rtc_read_time h n = Some (rtc_convert (h n' 0x0B) t, Suc n')"
  using rtc_sample_time [of h m] by (cases "rtc_sample h m") (simp add: rtc_read_time_def cmos_read_def)

text \<open>Whenever the chip comes to rest the driver returns, however it behaved before; and a call made
  when the chip is at rest returns the registers, converted.\<close>

theorem rtc_read_time_returns:
  assumes "rtc_quiet h N"
  shows "\<exists>t n'. rtc_read_time h n = Some (t, n') \<and> n < n'
    \<and> (N \<le> n \<longrightarrow> t = rtc_convert (h N 0x0B) (fst (rtc_sample h N)))"
proof -
  obtain m where m: "cmos_wait h n = Some m" "n < m" using cmos_wait_quiet [OF assms] by blast
  obtain t n' where s: "rtc_settle h (fst (rtc_sample h m)) (m + 6) = Some (t, n')" "m + 6 < n'"
    using rtc_settle_quiet [OF assms] by blast
  have "t = fst (rtc_sample h N) \<and> h n' 0x0B = h N 0x0B" if "N \<le> n"
  proof -
    have "N \<le> m + 6" "N \<le> n'" using that m(2) s(2) by simp_all
    then have "t = fst (rtc_sample h N)"
      using rtc_settle_quiet_end [OF assms, of "m + 6" "fst (rtc_sample h m)"] s(1) by auto
    moreover have "h n' 0x0B = h N 0x0B" by (rule rtc_quiet_reg [OF assms \<open>N \<le> n'\<close>]) simp
    ultimately show ?thesis by blast
  qed
  then show ?thesis using rtc_read_time_settle [OF m(1) s(1)] m(2) s(2) by auto
qed

section \<open>Seconds since 1970\<close>

text \<open>The reference: count the days of the years and months gone by.\<close>

definition leap :: "nat \<Rightarrow> bool" where
  "leap y \<longleftrightarrow> y mod 4 = 0 \<and> (y mod 100 \<noteq> 0 \<or> y mod 400 = 0)"

definition month_days :: "bool \<Rightarrow> nat \<Rightarrow> nat" where
  "month_days l m = (if m = 2 then (if l then 29 else 28) else if m \<in> {4, 6, 9, 11} then 30 else 31)"

definition civil_days :: "nat \<Rightarrow> nat \<Rightarrow> nat \<Rightarrow> nat" where
  "civil_days y m d = sum_list (map (\<lambda>y. if leap y then 366 else 365) [1970..<y])
     + sum_list (map (month_days (leap y)) [1..<m]) + (d - 1)"

definition civil_seconds :: "rtc_time \<Rightarrow> nat" where
  "civil_seconds t = civil_days (unat (year t)) (unat (month t)) (unat (day t)) * 86400
     + unat (hour t) * 3600 + unat (minute t) * 60 + unat (second t)"

text \<open>Days of the years 1 to \<open>n\<close>.\<close>

definition era_days :: "nat \<Rightarrow> int" where
  "era_days n = 365 * int n + int (n div 4) - int (n div 100) + int (n div 400)"

lemma era_days_Suc: "era_days (Suc n) = era_days n + (if leap (Suc n) then 366 else 365)"
proof -
  have "Suc n mod 100 = 0 \<Longrightarrow> Suc n mod 4 = 0" "Suc n mod 400 = 0 \<Longrightarrow> Suc n mod 100 = 0"
    by presburger+
  then show ?thesis unfolding era_days_def leap_def div_Suc [of n] by auto
qed

lemma civil_years:
  "1970 \<le> y \<Longrightarrow> int (sum_list (map (\<lambda>y. if leap y then 366 else 365) [1970..<y])) = era_days (y - 1) - 719162"
proof (induction y rule: nat_induct_at_least)
  case base
  show ?case by (simp add: era_days_def)
next
  case (Suc y)
  have "era_days (Suc y - 1) = era_days (y - 1) + (if leap y then 366 else 365)"
    using era_days_Suc [of "y - 1"] Suc(1) by simp
  then show ?case using Suc by simp
qed

lemma u32_div_of_nat:
  assumes "a < 2 ^ 32" "b < 2 ^ 32"
  shows "(of_nat a :: u32) div of_nat b = of_nat (a div b)"
proof -
  have "a div b < 2 ^ 32" using assms(1) div_le_dividend [of a b] by linarith
  then show ?thesis
    using assms by (intro word_unat_eq_iff [THEN iffD2]) (simp add: unat_div unat_of_nat_small)
qed

text \<open>The months of a year that starts in March, as the driver counts them.\<close>

lemma civil_months:
  assumes "1 \<le> m" "m \<le> 12"
  shows "int (sum_list (map (month_days (leap y)) [1..<m]))
    = (if m \<le> 2 then int ((153 * (m + 9) + 2) div 5) - 306
       else int ((153 * (m - 3) + 2) div 5) + (if leap y then 60 else 59))"
proof -
  have "\<forall>l \<in> {True, False}. \<forall>m \<in> set [1..<13]. int (sum_list (map (month_days l) [1..<m]))
      = (if m \<le> 2 then int ((153 * (m + 9) + 2) div 5) - 306
         else int ((153 * (m - 3) + 2) div 5) + (if l then 60 else 59))" by code_simp
  moreover have "leap y \<in> {True, False}" "m \<in> set [1..<13]" using assms by auto
  ultimately show ?thesis by blast
qed


text \<open>The driver's day number, over the natural numbers.\<close>

lemma civil_days_eq:
  assumes "1970 \<le> y" "1 \<le> m" "m \<le> 12" "1 \<le> d"
  defines "y' \<equiv> if m \<le> 2 then y - 1 else y" and "k \<equiv> if m \<le> 2 then m + 9 else m - 3"
  shows "civil_days y m d = 365 * y' + y' div 4 + y' div 400 + ((153 * k + 2) div 5 + d - 1) - y' div 100 - 719468"
    and "719468 + y' div 100 \<le> 365 * y' + y' div 4 + y' div 400 + ((153 * k + 2) div 5 + d - 1)"
proof -
  let ?s = "365 * y' + y' div 4 + y' div 400 + ((153 * k + 2) div 5 + d - 1)"
  have c: "int (civil_days y m d) = era_days (y - 1) - 719162 + int (sum_list (map (month_days (leap y)) [1..<m])) + int d - 1"
    using assms(1,4) by (simp add: civil_days_def civil_years)
  have y: "era_days y = era_days (y - 1) + (if leap y then 366 else 365)"
    using era_days_Suc [of "y - 1"] assms(1) by simp
  have "int (civil_days y m d) = era_days y' + int ((153 * k + 2) div 5) + int d - 1 - 719468"
    using c y unfolding civil_months [OF assms(2,3)] y'_def k_def by (auto split: if_splits)
  then have e: "int (civil_days y m d) = int ?s - int (y' div 100) - 719468"
    using assms(4) by (simp add: era_days_def)
  show "719468 + y' div 100 \<le> ?s" and "civil_days y m d = ?s - y' div 100 - 719468" using e by linarith+
qed


lemma civil_era_split:
  assumes "y = r + 400 * e" "r4 + e * 100 = y4" "r100 + e * 4 = y100"
    and "days = 365 * y + y4 + e + doy - y100 - 719468" "719468 + y100 \<le> 365 * y + y4 + e + doy"
  shows "int e * 146097 + (int r * 365 + int r4 - int r100 + int doy) - 719468 = int days"
  using assms by linarith

lemma rtc_seconds_eq:
  assumes "1970 \<le> year t" "year t < 2106" "1 \<le> month t" "month t \<le> 12" "1 \<le> day t"
  shows "rtc_seconds t = of_nat (civil_seconds t)"
proof -
  define y where "y = unat (year t)"
  define m where "m = unat (month t)"
  define d where "d = unat (day t)"
  define y' where "y' = (if m \<le> 2 then y - 1 else y)"
  define k where "k = (if m \<le> 2 then m + 9 else m - 3)"
  have b: "1970 \<le> y" "y < 2106" "1 \<le> m" "m \<le> 12" "1 \<le> d"
    using assms by (simp_all add: y_def m_def d_def word_le_nat_alt word_less_nat_alt)
  have yw: "ucast (if month t \<le> 2 then year t - 1 else year t) = (of_nat y' :: u32)"
  proof -
    have "unat (if month t \<le> 2 then year t - 1 else year t) = y'"
      using b(1) by (simp add: y'_def y_def m_def word_le_nat_alt unat_minus_one unat_gt_0 [symmetric])
    then show ?thesis by (metis of_nat_unat)
  qed
  have kw: "ucast (if month t \<le> 2 then month t + 12 else month t) - 3 = (of_nat k :: u32)"
  proof -
    have u: "unat (if month t \<le> 2 then month t + 12 else month t) = k + 3"
      using b(3,4) by (auto simp: k_def m_def word_le_nat_alt unat_word_ariths)
    have "ucast w - 3 = (of_nat k :: u32)" if "unat (w :: u8) = k + 3" for w
    proof -
      have "ucast w = (of_nat (k + 3) :: u32)" using that by (metis of_nat_unat)
      then show ?thesis by simp
    qed
    then show ?thesis using u by blast
  qed
  have dw: "ucast (day t) = (of_nat d :: u32)" by (simp add: d_def)
  have y'b: "y' < 2106" and kb: "k \<le> 11" using b by (auto simp: y'_def k_def)
  define doy where "doy = (153 * k + 2) div 5 + d - 1"
  have e: "(of_nat y' :: u32) div 400 = of_nat (y' div 400)"
    using u32_div_of_nat [of y' 400] y'b by simp
  have yoe: "(of_nat y' :: u32) - of_nat (y' div 400) * 400 = of_nat (y' mod 400)"
    by (simp add: minus_div_mult_eq_mod [symmetric] of_nat_diff)
  have q: "(of_nat (y' mod 400) :: u32) div 4 = of_nat (y' mod 400 div 4)"
    "(of_nat (y' mod 400) :: u32) div 100 = of_nat (y' mod 400 div 100)"
    using u32_div_of_nat [of "y' mod 400" 4] u32_div_of_nat [of "y' mod 400" 100] y'b by (simp_all add: le_less_trans)
  have dd: "(153 * (of_nat k :: u32) + 2) div 5 + of_nat d - 1 = of_nat doy"
  proof -
    have "(153 * (of_nat k :: u32) + 2) div 5 = of_nat ((153 * k + 2) div 5)"
      using u32_div_of_nat [of "153 * k + 2" 5] kb by (simp add: algebra_simps)
    then show ?thesis using b(5) by (simp add: doy_def of_nat_diff)
  qed
  have s: "civil_days y m d = 365 * y' + y' div 4 + y' div 400 + doy - y' div 100 - 719468"
    "719468 + y' div 100 \<le> 365 * y' + y' div 4 + y' div 400 + doy"
    using civil_days_eq [of y m d] b by (simp_all only: y'_def k_def doy_def add_diff_assoc2 add_diff_assoc)
  have y400: "y' = y' mod 400 + 400 * (y' div 400)" by simp
  have "(y' mod 400 + 4 * (y' div 400 * 100)) div 4 = y' mod 400 div 4 + y' div 400 * 100"
    "(y' mod 400 + 100 * (y' div 400 * 4)) div 100 = y' mod 400 div 100 + y' div 400 * 4"
    using div_mult_self2 [of 4 "y' mod 400" "y' div 400 * 100"] div_mult_self2 [of 100 "y' mod 400" "y' div 400 * 4"]
    by (simp_all only: add.commute simp_thms zero_neq_numeral [symmetric] not_False_eq_True)
  then have split: "y' mod 400 div 4 + y' div 400 * 100 = y' div 4" "y' mod 400 div 100 + y' div 400 * 4 = y' div 100"
    using y400 by (simp_all add: mult.assoc)
  have i: "int (y' div 400) * 146097 + (int (y' mod 400) * 365 + int (y' mod 400 div 4) - int (y' mod 400 div 100) + int doy) - 719468
      = int (civil_days y m d)"
    by (rule civil_era_split [OF y400 split s])
  have days: "of_nat (y' div 400) * 146097 + (of_nat (y' mod 400) * 365 + of_nat (y' mod 400 div 4)
      - of_nat (y' mod 400 div 100) + of_nat doy) - 719468 = (of_nat (civil_days y m d) :: u32)"
    using arg_cong [OF i, of "of_int :: int \<Rightarrow> u32"]
    by (simp only: of_int_add of_int_diff of_int_mult of_int_numeral of_int_of_nat_eq)
  define Y where "Y = (if month t \<le> 2 then year t - 1 else year t)"
  define M where "M = (if month t \<le> 2 then month t + 12 else month t)"
  have "rtc_seconds t = (ucast Y div 400 * 146097 + ((ucast Y - ucast Y div 400 * 400) * 365
        + (ucast Y - ucast Y div 400 * 400) div 4 - (ucast Y - ucast Y div 400 * 400) div 100
        + ((153 * (ucast M - 3) + 2) div 5 + ucast (day t) - 1)) - 719468) * 86400
      + ucast (hour t) * 3600 + ucast (minute t) * 60 + ucast (second t)"
    unfolding rtc_seconds_def Let_def Y_def M_def by (cases "month t \<le> 2") (simp_all only: if_True if_False prod.case)
  also have "\<dots> = of_nat (civil_days y m d) * 86400 + ucast (hour t) * 3600 + ucast (minute t) * 60 + ucast (second t)"
    using yw kw unfolding Y_def [symmetric] M_def [symmetric] by (simp only: dw e yoe q dd days)
  finally show ?thesis
    by (simp add: civil_seconds_def y_def [symmetric] m_def [symmetric] d_def [symmetric])
qed


text \<open>For a clock at rest in a 24-hour format, set to a valid time of this century, \<open>rtc_get_ticks\<close>
  returns the number of seconds since 1970 by the calendar.\<close>

theorem rtc_get_ticks_correct:
  assumes "rtc_quiet h N" and "N \<le> n" and "h N 0x0B AND 0x02 \<noteq> 0" and "rtc_valid t"
    and "fst (rtc_sample h N) = rtc_registers (h N 0x0B) t"
  shows "\<exists>n'. rtc_get_ticks h n = Some (of_nat (civil_seconds t), n') \<and> civil_seconds t < 2 ^ 32"
proof -
  obtain n' where "rtc_read_time h n = Some (t, n')"
    using rtc_read_time_returns [OF assms(1), of n] assms(2,3,5) rtc_convert_correct [OF assms(4), of "h N 0x0B"]
    by auto
  moreover have "rtc_seconds t = of_nat (civil_seconds t)"
    using assms(4) by (intro rtc_seconds_eq) (auto simp: rtc_valid_def word_le_nat_alt word_less_nat_alt)
  moreover have "civil_seconds t < 2 ^ 32"
  proof -
    define y where "y = unat (year t)"
    define m where "m = unat (month t)"
    define d where "d = unat (day t)"
    have b: "2000 \<le> y" "y < 2100" "1 \<le> m" "m \<le> 12" "1 \<le> d" "d \<le> 31" and
      h: "unat (hour t) < 24" "unat (minute t) < 60" "unat (second t) < 60"
      using assms(4) by (simp_all add: rtc_valid_def y_def m_def d_def word_le_nat_alt word_less_nat_alt)
    have "civil_days y m d < 49000"
    proof -
      have "sum_list (map (\<lambda>y. if leap y then 366 else 365 :: nat) [1970..<y]) \<le> (\<Sum>y \<leftarrow> [1970..<y]. 366)"
        by (rule sum_list_mono) simp
      moreover have "sum_list (map (month_days (leap y)) [1..<m]) \<le> (\<Sum>m \<leftarrow> [1..<m]. 31)"
        by (rule sum_list_mono) (simp add: month_days_def)
      ultimately show ?thesis using b unfolding civil_days_def by (simp add: sum_list_triv)
    qed
    then show ?thesis
      using h by (simp add: civil_seconds_def y_def [symmetric] m_def [symmetric] d_def [symmetric])
  qed
  ultimately show ?thesis by (simp add: rtc_get_ticks_def)
qed

text \<open>A clock that stands at 2024-02-29 13:37:42, with BCD registers that read 24 hours.\<close>

definition rtc_example_time :: rtc_time where
  "rtc_example_time = \<lparr>second = 42, minute = 37, hour = 13, day = 29, month = 2, year = 2024\<rparr>"

definition rtc_example :: cmos where
  "rtc_example n r =
     (if r = 0 then 0x42 else if r = 2 then 0x37 else if r = 4 then 0x13 else if r = 7 then 0x29
      else if r = 8 then 0x02 else if r = 9 then 0x24 else if r = 0x0B then 0x02
      else if r = 0x0A then (if n < 5 then 0x80 else 0) else 0)"

lemma rtc_example_quiet: "rtc_quiet rtc_example 5"
  by (simp add: rtc_quiet_def rtc_example_def)

lemma rtc_example_valid: "rtc_valid rtc_example_time"
  by code_simp

theorem rtc_convert_correct_witness:
  "rtc_convert 0x00 (rtc_registers 0x00 (rtc_example_time\<lparr>hour := 12\<rparr>)) = rtc_example_time\<lparr>hour := 0\<rparr>"
  by (subst rtc_convert_correct, code_simp) (simp add: rtc_example_time_def)

theorem rtc_read_time_returns_witness: "rtc_read_time rtc_example 0 \<noteq> None"
  using rtc_read_time_returns [OF rtc_example_quiet, of 0] by auto

theorem rtc_get_ticks_correct_witness:
  "\<exists>n'. rtc_get_ticks rtc_example 5 = Some (1709213862, n')"
proof -
  have "fst (rtc_sample rtc_example 5) = rtc_registers (rtc_example 5 0x0B) rtc_example_time" by code_simp
  moreover have "civil_seconds rtc_example_time = 1709213862"
    using civil_days_eq(1) [of 2024 2 29] by (simp add: civil_seconds_def rtc_example_time_def)
  moreover have "rtc_example 5 0x0B AND 0x02 \<noteq> 0" by (simp add: rtc_example_def)
  ultimately show ?thesis
    using rtc_get_ticks_correct [OF rtc_example_quiet _ _ rtc_example_valid, of 5] by auto
qed

end
