(* ===== verification/Ram_Fs.thy ===== *)
theory Ram_Fs
  imports Kernel_Heap Console
begin

text \<open>
  The nodes of the file systems (\<^verbatim>\<open>fs/vfs.h\<close>) and the file system in memory,
  \<^verbatim>\<open>fs/ramfs.c\<close>.  Nodes point to each other, so they live in a store: a \<open>node_ref\<close> says which
  object of the source a pointer stands for, and \<open>nodes\<close> gives the object.  The node inside the
  \<open>i\<close>th \<open>ramfs_file\<close> is \<open>Ram_Node i\<close>.  A table of operations is named by the file system it belongs
  to.  The bytes of files are characters, as the code casts between \<^verbatim>\<open>char *\<close> and
  \<^verbatim>\<open>uint8_t *\<close> freely.
\<close>

datatype node_ref = Heap_Node u32 | Ram_Root | Ram_Node nat | Proc_Root | Proc_Node nat

datatype fs_ops = Vfs_Root_Ops | Ramfs_Ops | Procfs_Ops

abbreviation VFS_FILE :: u32 where "VFS_FILE \<equiv> 0x01"
abbreviation VFS_DIR :: u32 where "VFS_DIR \<equiv> 0x02"
abbreviation VFS_MOUNT :: u32 where "VFS_MOUNT \<equiv> 0x10"

record vfs_node =
  vn_name :: "char list"
  vn_flags :: u32
  vn_size :: u32
  vn_inode :: u32
  vn_parent :: "node_ref option"
  vn_children :: "node_ref option"
  vn_next_sibling :: "node_ref option"
  vn_private_data :: "nat option"
  vn_ops :: "fs_ops option"

abbreviation RAMFS_MAX_FILES :: nat where "RAMFS_MAX_FILES \<equiv> 64"
abbreviation RAMFS_MAX_NAME :: nat where "RAMFS_MAX_NAME \<equiv> 64"
abbreviation RAMFS_MAX_DATA :: u32 where "RAMFS_MAX_DATA \<equiv> 1024"

record ramfs_file =
  rf_name :: "char list"
  rf_data :: "char list"
  rf_size :: u32
  rf_used :: bool

record fs =
  nodes :: "node_ref \<Rightarrow> vfs_node"
  ramfs_files :: "ramfs_file list"
  vfs_root :: "node_ref option"

text \<open>\<^verbatim>\<open>memset(node, 0, sizeof(vfs_node_t))\<close>\<close>

definition zero_node :: vfs_node where
  "zero_node = \<lparr>vn_name = replicate 128 NUL, vn_flags = 0, vn_size = 0, vn_inode = 0, vn_parent = None,
     vn_children = None, vn_next_sibling = None, vn_private_data = None, vn_ops = None\<rparr>"

definition set_node :: "node_ref \<Rightarrow> vfs_node \<Rightarrow> fs \<Rightarrow> fs" where
  "set_node r n s = s\<lparr>nodes := (nodes s)(r := n)\<rparr>"

definition set_file :: "nat \<Rightarrow> ramfs_file \<Rightarrow> fs \<Rightarrow> fs" where
  "set_file i f s = s\<lparr>ramfs_files := (ramfs_files s)[i := f]\<rparr>"

section \<open>The operations on names\<close>

fun ramfs_find_from :: "char list \<Rightarrow> int \<Rightarrow> ramfs_file list \<Rightarrow> int option" where
  "ramfs_find_from name i [] = Some (-1)"
| "ramfs_find_from name i (f # fs) =
     (if rf_used f
      then do { c \<leftarrow> strcmp (Some (rf_name f)) (Some name);
                if c = 0 then Some i else ramfs_find_from name (i + 1) fs }
      else ramfs_find_from name (i + 1) fs)"

definition ramfs_find :: "cptr \<Rightarrow> fs \<Rightarrow> int option" where
  "ramfs_find name s = (case name of None \<Rightarrow> Some (-1) | Some n \<Rightarrow> ramfs_find_from n 0 (ramfs_files s))"

text \<open>The loop of \<open>ramfs_create\<close>: the first slot that is not used.\<close>

definition ramfs_free_slot :: "fs \<Rightarrow> nat option" where
  "ramfs_free_slot s = find (\<lambda>i. \<not> rf_used (ramfs_files s ! i)) [0..<length (ramfs_files s)]"

definition ramfs_create :: "cptr \<Rightarrow> fs \<Rightarrow> (int \<times> fs) option" where
  "ramfs_create name s =
     (case name of
        None \<Rightarrow> Some (-1, s)
      | Some b \<Rightarrow> do {
          idx \<leftarrow> ramfs_find name s;
          if idx \<ge> 0 then Some (-1, s)
          else (case ramfs_free_slot s of
                  None \<Rightarrow> Some (-1, s)
                | Some i \<Rightarrow> do {
                    let f = ramfs_files s ! i;
                    fname \<leftarrow> strncpy (rf_name f) b (RAMFS_MAX_NAME - 1);
                    fdata \<leftarrow> put_at (rf_data f) 0 NUL;
                    nname \<leftarrow> strncpy (vn_name zero_node) b 127;
                    Some (0, set_node (Ram_Node i)
                               (zero_node\<lparr>vn_name := nname, vn_flags := VFS_FILE, vn_size := 0,
                                          vn_inode := of_nat i + 1, vn_private_data := Some i,
                                          vn_ops := Some Ramfs_Ops\<rparr>)
                           (set_file i \<lparr>rf_name = fname, rf_data = fdata, rf_size = 0, rf_used = True\<rparr> s))
                  })
        })"

definition ramfs_delete :: "cptr \<Rightarrow> fs \<Rightarrow> (int \<times> fs) option" where
  "ramfs_delete name s = do {
     idx \<leftarrow> ramfs_find name s;
     if idx < 0 then Some (-1, s)
     else do {
       let f = ramfs_files s ! nat idx;
       fname \<leftarrow> put_at (rf_name f) 0 NUL;
       Some (0, set_file (nat idx) (f\<lparr>rf_used := False, rf_size := 0, rf_name := fname\<rparr>) s)
     }
   }"

definition ramfs_read :: "cptr \<Rightarrow> cptr \<Rightarrow> u32 \<Rightarrow> fs \<Rightarrow> (int \<times> cptr) option" where
  "ramfs_read name buf len s = do {
     idx \<leftarrow> ramfs_find name s;
     case buf of
       None \<Rightarrow> Some (-1, buf)
     | Some b \<Rightarrow>
         if idx < 0 then Some (-1, buf)
         else do {
           let f = ramfs_files s ! nat idx;
           let to_read = (if len < rf_size f then len else rf_size f);
           b \<leftarrow> memcpy_at b 0 (rf_data f) 0 (unat to_read);
           Some (sint to_read, Some b)
         }
   }"

definition ramfs_write :: "cptr \<Rightarrow> cptr \<Rightarrow> u32 \<Rightarrow> fs \<Rightarrow> (int \<times> fs) option" where
  "ramfs_write name buf len s = do {
     idx \<leftarrow> ramfs_find name s;
     case buf of
       None \<Rightarrow> Some (-1, s)
     | Some b \<Rightarrow>
         if idx < 0 then Some (-1, s)
         else do {
           let i = nat idx;
           let f = ramfs_files s ! i;
           let to_write = (if len > RAMFS_MAX_DATA then RAMFS_MAX_DATA else len);
           d \<leftarrow> memcpy_at (rf_data f) 0 b 0 (unat to_write);
           Some (sint to_write,
                 set_node (Ram_Node i) ((nodes s (Ram_Node i))\<lparr>vn_size := to_write\<rparr>)
                   (set_file i (f\<lparr>rf_data := d, rf_size := to_write\<rparr>) s))
         }
   }"

fun ramfs_list_from :: "nat \<Rightarrow> ramfs_file list \<Rightarrow> console \<Rightarrow> (nat \<times> console) option" where
  "ramfs_list_from n [] con = Some (n, con)"
| "ramfs_list_from n (f # fs) con =
     (if rf_used f
      then do { con \<leftarrow> printk (Some (''%-20s %u bytes'' @ [CHR 0x0A, NUL]))
                          [VA_str (Some (rf_name f)), VA_word (rf_size f)] con;
                ramfs_list_from (Suc n) fs con }
      else ramfs_list_from n fs con)"

definition ramfs_list :: "fs \<Rightarrow> console \<Rightarrow> console option" where
  "ramfs_list s con = do {
     con \<leftarrow> printk (Some (''NAME                 SIZE'' @ [CHR 0x0A, NUL])) [] con;
     con \<leftarrow> printk (Some (''----                 ----'' @ [CHR 0x0A, NUL])) [] con;
     (count, con) \<leftarrow> ramfs_list_from 0 (ramfs_files s) con;
     if count = 0 then printk (Some (''(empty)'' @ [CHR 0x0A, NUL])) [] con else Some con
   }"

definition ramfs_get_file_count :: "fs \<Rightarrow> u32" where
  "ramfs_get_file_count s = fold (\<lambda>f n. if rf_used f then n + 1 else n) (ramfs_files s) 0"

definition ramfs_get_root_node :: node_ref where
  "ramfs_get_root_node = Ram_Root"

section \<open>The operations of its nodes\<close>

text \<open>The file that \<^verbatim>\<open>private_data\<close> points to, when there is one and it is in use.\<close>

definition ramfs_file_of :: "node_ref option \<Rightarrow> fs \<Rightarrow> (nat \<times> ramfs_file) option" where
  "ramfs_file_of node s = do {
     r \<leftarrow> node;
     i \<leftarrow> vn_private_data (nodes s r);
     if rf_used (ramfs_files s ! i) then Some (i, ramfs_files s ! i) else None
   }"

definition ramfs_vfs_read :: "node_ref option \<Rightarrow> u32 \<Rightarrow> u32 \<Rightarrow> cptr \<Rightarrow> fs \<Rightarrow> (int \<times> cptr) option" where
  "ramfs_vfs_read node offset len buf s =
     (case (buf, ramfs_file_of node s) of
        (Some b, Some (i, f)) \<Rightarrow>
          if offset \<ge> rf_size f then Some (0, buf)
          else do {
            let to_read = (if offset + len > rf_size f then rf_size f - offset else len);
            b \<leftarrow> memcpy_at b 0 (rf_data f) (unat offset) (unat to_read);
            Some (sint to_read, Some b)
          }
      | _ \<Rightarrow> Some (-1, buf))"

definition ramfs_vfs_write :: "node_ref option \<Rightarrow> u32 \<Rightarrow> u32 \<Rightarrow> cptr \<Rightarrow> fs \<Rightarrow> (int \<times> fs) option" where
  "ramfs_vfs_write node offset len buf s =
     (case (buf, ramfs_file_of node s) of
        (Some b, Some (i, f)) \<Rightarrow>
          if offset \<ge> RAMFS_MAX_DATA then Some (-1, s)
          else do {
            let to_write = (if offset + len > RAMFS_MAX_DATA then RAMFS_MAX_DATA - offset else len);
            d \<leftarrow> memcpy_at (rf_data f) (unat offset) b 0 (unat to_write);
            let end_pos = offset + to_write;
            Some (sint to_write,
                  if end_pos > rf_size f
                  then set_node (the node) ((nodes s (the node))\<lparr>vn_size := end_pos\<rparr>)
                         (set_file i (f\<lparr>rf_data := d, rf_size := end_pos\<rparr>) s)
                  else set_file i (f\<lparr>rf_data := d\<rparr>) s)
          }
      | _ \<Rightarrow> Some (-1, s))"

definition ramfs_vfs_readdir :: "u32 \<Rightarrow> fs \<Rightarrow> node_ref option" where
  "ramfs_vfs_readdir index s =
     (let active = filter (\<lambda>i. rf_used (ramfs_files s ! i)) [0..<length (ramfs_files s)]
      in if unat index < length active then Some (Ram_Node (active ! unat index)) else None)"

fun ramfs_finddir_from :: "char list \<Rightarrow> nat \<Rightarrow> ramfs_file list \<Rightarrow> node_ref option option" where
  "ramfs_finddir_from name i [] = Some None"
| "ramfs_finddir_from name i (f # fs) =
     (if rf_used f
      then do { c \<leftarrow> strcmp (Some (rf_name f)) (Some name);
                if c = 0 then Some (Some (Ram_Node i)) else ramfs_finddir_from name (Suc i) fs }
      else ramfs_finddir_from name (Suc i) fs)"

definition ramfs_vfs_finddir :: "cptr \<Rightarrow> fs \<Rightarrow> node_ref option option" where
  "ramfs_vfs_finddir name s =
     (case name of None \<Rightarrow> Some None | Some n \<Rightarrow> ramfs_finddir_from n 0 (ramfs_files s))"

definition ramfs_vfs_create :: "cptr \<Rightarrow> u32 \<Rightarrow> fs \<Rightarrow> (int \<times> fs) option" where
  "ramfs_vfs_create name flags s = ramfs_create name s"

definition ramfs_vfs_delete :: "cptr \<Rightarrow> fs \<Rightarrow> (int \<times> fs) option" where
  "ramfs_vfs_delete name s = ramfs_delete name s"

definition ramfs_init :: "fs \<Rightarrow> console \<Rightarrow> (fs \<times> console) option" where
  "ramfs_init s con = do {
     let s = s\<lparr>ramfs_files := replicate RAMFS_MAX_FILES
                 \<lparr>rf_name = replicate RAMFS_MAX_NAME NUL, rf_data = replicate (unat RAMFS_MAX_DATA) NUL,
                  rf_size = 0, rf_used = False\<rparr>,
               nodes := (\<lambda>r. case r of Ram_Node i \<Rightarrow> zero_node | _ \<Rightarrow> nodes s r)\<rparr>;
     rname \<leftarrow> strcpy (vn_name zero_node) (''ram'' @ [NUL]);
     let s = set_node Ram_Root (zero_node\<lparr>vn_name := rname, vn_flags := VFS_DIR, vn_ops := Some Ramfs_Ops\<rparr>) s;
     (r, s) \<leftarrow> ramfs_create (Some (''readme.txt'' @ [NUL])) s;
     let welcome = ''Welcome to Dionnex Monolithic Kernel v0.1!'' @ [NUL];
     n \<leftarrow> strlen (Some welcome);
     (r, s) \<leftarrow> ramfs_write (Some (''readme.txt'' @ [NUL])) (Some welcome) (of_nat n) s;
     con \<leftarrow> printk (Some (''RAMFS: Initialized in-memory Virtual Filesystem (%d slots)'' @ [CHR 0x0A, NUL]))
              [VA_word (of_nat RAMFS_MAX_FILES)] con;
     Some (s, con)
   }"

section \<open>The abstract file system: a map from names to contents\<close>

definition rf_ok :: "ramfs_file \<Rightarrow> bool" where
  "rf_ok f \<longleftrightarrow> length (rf_name f) = 64 \<and> rf_name f ! 63 = NUL \<and> length (rf_data f) = 1024
     \<and> unat (rf_size f) \<le> 1024"

definition file_name :: "ramfs_file \<Rightarrow> string" where
  "file_name f = cstr (rf_name f)"

definition file_content :: "ramfs_file \<Rightarrow> string" where
  "file_content f = take (unat (rf_size f)) (rf_data f)"

fun slot_of :: "string \<Rightarrow> ramfs_file list \<Rightarrow> nat option" where
  "slot_of n [] = None"
| "slot_of n (f # fs) = (if rf_used f \<and> file_name f = n then Some 0 else map_option Suc (slot_of n fs))"

definition names_distinct :: "ramfs_file list \<Rightarrow> bool" where
  "names_distinct fs \<longleftrightarrow> (\<forall>i < length fs. \<forall>j < length fs.
     rf_used (fs ! i) \<longrightarrow> rf_used (fs ! j) \<longrightarrow> file_name (fs ! i) = file_name (fs ! j) \<longrightarrow> i = j)"

definition ramfs_wf :: "fs \<Rightarrow> bool" where
  "ramfs_wf s \<longleftrightarrow> length (ramfs_files s) = 64 \<and> (\<forall>f \<in> set (ramfs_files s). rf_ok f)
     \<and> names_distinct (ramfs_files s)"

definition ramfs_view :: "fs \<Rightarrow> string \<rightharpoonup> string" where
  "ramfs_view s n = map_option (\<lambda>i. file_content (ramfs_files s ! i)) (slot_of n (ramfs_files s))"

definition ramfs_full :: "fs \<Rightarrow> bool" where
  "ramfs_full s \<longleftrightarrow> (\<forall>f \<in> set (ramfs_files s). rf_used f)"

lemma rf_ok_NUL: "rf_ok f \<Longrightarrow> NUL \<in> set (rf_name f)"
  unfolding rf_ok_def using nth_mem [of 63 "rf_name f"] by auto

lemma slot_of_Some:
  "slot_of n fs = Some i \<Longrightarrow> i < length fs \<and> rf_used (fs ! i) \<and> file_name (fs ! i) = n"
  by (induction fs arbitrary: i) (auto split: if_splits)

lemma slot_of_None_iff: "slot_of n fs = None \<longleftrightarrow> (\<forall>f \<in> set fs. rf_used f \<longrightarrow> file_name f \<noteq> n)"
  by (induction fs) auto

lemma slot_of_iff:
  assumes "names_distinct fs"
  shows "slot_of n fs = Some i \<longleftrightarrow> i < length fs \<and> rf_used (fs ! i) \<and> file_name (fs ! i) = n"
proof
  assume R: "i < length fs \<and> rf_used (fs ! i) \<and> file_name (fs ! i) = n"
  then have "slot_of n fs \<noteq> None" by (auto simp: slot_of_None_iff)
  then obtain j where "slot_of n fs = Some j" by auto
  then show "slot_of n fs = Some i" using slot_of_Some [of n fs j] R assms by (auto simp: names_distinct_def)
qed (rule slot_of_Some)

lemma option_eqI: "(\<And>x. a = Some x \<longleftrightarrow> b = Some x) \<Longrightarrow> a = b"
  by (cases a; cases b) auto

lemma names_distinct_update:
  assumes "names_distinct fs" and "i < length fs"
    and "rf_used f \<Longrightarrow> slot_of (file_name f) fs \<in> {None, Some i}"
  shows "names_distinct (fs[i := f])"
proof -
  have "j = i" if "rf_used f" "j < length fs" "rf_used (fs ! j)" "file_name (fs ! j) = file_name f" for j
  proof -
    have "slot_of (file_name f) fs = Some j" using that by (simp add: slot_of_iff [OF assms(1)])
    then show ?thesis using assms(3) [OF that(1)] by auto
  qed
  then show ?thesis using assms(1,2) unfolding names_distinct_def
    by (auto simp: nth_list_update)
qed

lemma slot_of_update:
  assumes "names_distinct fs" and "i < length fs"
    and "rf_used f \<Longrightarrow> slot_of (file_name f) fs \<in> {None, Some i}"
  shows "slot_of n (fs[i := f])
    = (if rf_used f \<and> file_name f = n then Some i else if slot_of n fs = Some i then None else slot_of n fs)"
proof (rule option_eqI)
  fix j
  have *: "slot_of n (fs[i := f]) = Some j \<longleftrightarrow> j < length fs \<and> rf_used (fs[i := f] ! j) \<and> file_name (fs[i := f] ! j) = n"
    using slot_of_iff [OF names_distinct_update [OF assms]] by simp
  show "slot_of n (fs[i := f]) = Some j \<longleftrightarrow>
      (if rf_used f \<and> file_name f = n then Some i else if slot_of n fs = Some i then None else slot_of n fs) = Some j"
  proof (cases "j = i")
    case True
    then show ?thesis using assms(2) slot_of_iff [OF assms(1)] unfolding * by auto
  next
    case False
    then have "slot_of n (fs[i := f]) = Some j \<longleftrightarrow> slot_of n fs = Some j"
      unfolding * slot_of_iff [OF assms(1)] by simp
    then show ?thesis using False assms(3) by auto
  qed
qed

text \<open>Writing one slot: what it does to the map.\<close>

lemma ramfs_set_file:
  assumes "ramfs_wf s" and "i < 64" and "rf_ok f"
    and "rf_used f \<Longrightarrow> slot_of (file_name f) (ramfs_files s) \<in> {None, Some i}"
  shows "ramfs_wf (set_file i f s)"
    and "ramfs_view (set_file i f s) n
      = (if rf_used f \<and> file_name f = n then Some (file_content f)
         else if slot_of n (ramfs_files s) = Some i then None else ramfs_view s n)"
proof -
  have wf: "length (ramfs_files s) = 64" "names_distinct (ramfs_files s)" "\<forall>f \<in> set (ramfs_files s). rf_ok f"
    using assms(1) by (simp_all add: ramfs_wf_def)
  show "ramfs_wf (set_file i f s)"
    using wf assms(2,3) names_distinct_update [OF wf(2) _ assms(4)]
    by (auto simp: ramfs_wf_def set_file_def dest!: set_update_subset_insert [THEN subsetD])
  show "ramfs_view (set_file i f s) n
      = (if rf_used f \<and> file_name f = n then Some (file_content f)
         else if slot_of n (ramfs_files s) = Some i then None else ramfs_view s n)"
    using wf(1) assms(2) slot_of_update [OF wf(2) _ assms(4), where n = n]
    by (cases "slot_of n (ramfs_files s)") (auto simp: ramfs_view_def set_file_def)
qed

lemma ramfs_set_node [simp]:
  "ramfs_wf (set_node r n s) = ramfs_wf s" "ramfs_view (set_node r n s) = ramfs_view s"
  "ramfs_full (set_node r n s) = ramfs_full s" "ramfs_files (set_node r n s) = ramfs_files s"
  by (auto simp: set_node_def ramfs_wf_def ramfs_view_def ramfs_full_def fun_eq_iff)

section \<open>The operations on the map\<close>

lemma ramfs_find_from_eq:
  assumes "\<forall>f \<in> set fs. rf_ok f" and "NUL \<in> set b"
  shows "ramfs_find_from b i fs = Some (case slot_of (cstr b) fs of None \<Rightarrow> -1 | Some k \<Rightarrow> i + int k)"
  using assms
proof (induction fs arbitrary: i)
  case (Cons f fs)
  have n: "NUL \<in> set (rf_name f)" using Cons rf_ok_NUL by simp
  then obtain c where c: "strcmp_buf (rf_name f) b = Some c"
    using strcmp_buf_defined Cons(3) by blast
  have "c = 0 \<longleftrightarrow> file_name f = cstr b"
    using strcmp_buf_0_iff [OF n Cons(3)] c by (simp add: file_name_def)
  then show ?case using Cons c by (auto simp: strcmp_def split: option.splits)
qed simp

lemma ramfs_find_eq:
  assumes "ramfs_wf s" and "NUL \<in> set b"
  shows "ramfs_find (Some b) s = Some (case slot_of (cstr b) (ramfs_files s) of None \<Rightarrow> -1 | Some k \<Rightarrow> int k)"
  using ramfs_find_from_eq [of "ramfs_files s" b 0] assms by (simp add: ramfs_find_def ramfs_wf_def cong: option.case_cong)

lemma ramfs_finddir_from_eq:
  assumes "\<forall>f \<in> set fs. rf_ok f" and "NUL \<in> set b"
  shows "ramfs_finddir_from b i fs = Some (map_option (\<lambda>k. Ram_Node (i + k)) (slot_of (cstr b) fs))"
  using assms
proof (induction fs arbitrary: i)
  case (Cons f fs)
  have n: "NUL \<in> set (rf_name f)" using Cons rf_ok_NUL by simp
  then obtain c where c: "strcmp_buf (rf_name f) b = Some c"
    using strcmp_buf_defined Cons(3) by blast
  have "c = 0 \<longleftrightarrow> file_name f = cstr b"
    using strcmp_buf_0_iff [OF n Cons(3)] c by (simp add: file_name_def)
  then show ?case using Cons c by (auto simp: strcmp_def option.map_comp comp_def)
qed simp

lemma ramfs_slot:
  assumes "ramfs_wf s" and "slot_of n (ramfs_files s) = Some i"
  shows "i < 64" "rf_ok (ramfs_files s ! i)" "rf_used (ramfs_files s ! i)" "file_name (ramfs_files s ! i) = n"
    "ramfs_view s n = Some (file_content (ramfs_files s ! i))"
  using assms slot_of_Some [OF assms(2)] by (auto simp: ramfs_wf_def ramfs_view_def)

lemma ramfs_view_None: "ramfs_view s n = None \<longleftrightarrow> slot_of n (ramfs_files s) = None"
  by (simp add: ramfs_view_def)


lemma ramfs_free_slot_Some:
  assumes "ramfs_wf s" and "ramfs_free_slot s = Some i"
  shows "i < 64" "\<not> rf_used (ramfs_files s ! i)" "rf_ok (ramfs_files s ! i)"
    "slot_of n (ramfs_files s) \<noteq> Some i"
  using assms slot_of_Some [of n "ramfs_files s" i]
  by (auto simp: ramfs_free_slot_def find_upt_Some_iff ramfs_wf_def)

lemma ramfs_free_slot_None: "ramfs_free_slot s = None \<longleftrightarrow> ramfs_full s"
  by (auto simp: ramfs_free_slot_def find_upt_None_iff ramfs_full_def all_set_conv_all_nth)

text \<open>\<open>ramfs_create\<close> on a name of at most 63 characters adds an empty file of that name and changes no
  other, unless the name exists or all 64 slots are in use: then it answers \<open>-1\<close> and changes nothing.\<close>

lemma ramfs_create_eq:
  assumes "ramfs_wf s" and "NUL \<in> set b" and "length (cstr b) \<le> 63"
  shows "\<exists>r s'. ramfs_create (Some b) s = Some (r, s') \<and> ramfs_wf s'
    \<and> (if ramfs_view s (cstr b) \<noteq> None \<or> ramfs_full s then r = -1 \<and> s' = s
       else r = 0 \<and> ramfs_view s' = (ramfs_view s)(cstr b \<mapsto> []))"
proof (cases "ramfs_view s (cstr b) \<noteq> None \<or> ramfs_full s")
  case True
  then have "ramfs_create (Some b) s = Some (-1, s)"
    using ramfs_find_eq [OF assms(1,2)] ramfs_free_slot_None [of s]
    by (auto simp: ramfs_create_def ramfs_view_None split: option.splits)
  then show ?thesis using True assms(1) by simp
next
  case False
  then have none: "slot_of (cstr b) (ramfs_files s) = None" by (simp add: ramfs_view_None)
  obtain i where i: "ramfs_free_slot s = Some i" using False ramfs_free_slot_None [of s] by auto
  note fr = ramfs_free_slot_Some [OF assms(1) i]
  let ?f = "ramfs_files s ! i"
  have ok: "length (rf_name ?f) = 64" "rf_name ?f ! 63 = NUL" "length (rf_data ?f) = 1024"
    using fr(3) by (simp_all add: rf_ok_def)
  obtain fname where fname: "strncpy (rf_name ?f) b 63 = Some fname"
    using strncpy_eq [OF assms(2), of 63 "rf_name ?f"] ok(1) by simp
  have name: "cstr fname = cstr b" "length fname = 64" "fname ! 63 = NUL"
    using cstr_strncpy [OF assms(2) _ ok(2) fname] ok(1) assms(3) by simp_all
  obtain nname where nname: "strncpy (vn_name zero_node) b 127 = Some nname"
    using strncpy_eq [OF assms(2), of 127 "vn_name zero_node"] by (simp add: zero_node_def)
  define f' where "f' = \<lparr>rf_name = fname, rf_data = (rf_data ?f)[0 := NUL], rf_size = 0, rf_used = True\<rparr>"
  have f': "rf_ok f'" "file_name f' = cstr b" "rf_used f'" "file_content f' = []"
    using ok name by (simp_all add: rf_ok_def file_name_def file_content_def f'_def)
  have "\<exists>nd. ramfs_create (Some b) s = Some (0, set_node (Ram_Node i) nd (set_file i f' s))"
    using ramfs_find_eq [OF assms(1,2)] none i fname nname ok
    by (auto simp: ramfs_create_def put_at_def f'_def Let_def)
  moreover have "ramfs_wf (set_file i f' s)" and "ramfs_view (set_file i f' s) = (ramfs_view s)(cstr b \<mapsto> [])"
    using ramfs_set_file [OF assms(1) fr(1) f'(1)] f' none fr(4) by (auto simp: fun_eq_iff)
  ultimately show ?thesis using False by auto
qed

text \<open>\<open>ramfs_delete\<close> removes exactly the file of that name, and answers \<open>-1\<close> when there is none.\<close>

lemma ramfs_delete_eq:
  assumes "ramfs_wf s" and "NUL \<in> set b"
  shows "\<exists>r s'. ramfs_delete (Some b) s = Some (r, s') \<and> ramfs_wf s'
    \<and> ramfs_view s' = (ramfs_view s)(cstr b := None) \<and> (r = (if ramfs_view s (cstr b) = None then -1 else 0))"
proof (cases "slot_of (cstr b) (ramfs_files s)")
  case None
  then have "ramfs_delete (Some b) s = Some (-1, s)"
    using ramfs_find_eq [OF assms] by (simp add: ramfs_delete_def)
  then show ?thesis using None assms(1) by (auto simp: ramfs_view_None fun_eq_iff)
next
  case (Some i)
  note sl = ramfs_slot [OF assms(1) Some]
  let ?f = "ramfs_files s ! i"
  define f' where "f' = ?f\<lparr>rf_used := False, rf_size := 0, rf_name := (rf_name ?f)[0 := NUL]\<rparr>"
  have f': "rf_ok f'" "\<not> rf_used f'" using sl(2) by (simp_all add: f'_def rf_ok_def)
  have "rf_name ?f \<noteq> []" using sl(2) by (auto simp: rf_ok_def)
  then have "ramfs_delete (Some b) s = Some (0, set_file i f' s)"
    using ramfs_find_eq [OF assms] Some by (simp add: ramfs_delete_def put_at_def f'_def Let_def)
  moreover have "slot_of n (ramfs_files s) = Some i \<longleftrightarrow> n = cstr b" for n
    using Some slot_of_Some [of n "ramfs_files s" i] sl(4) by auto
  then have "ramfs_wf (set_file i f' s)" "ramfs_view (set_file i f' s) = (ramfs_view s)(cstr b := None)"
    using ramfs_set_file [OF assms(1) sl(1) f'(1)] f'(2) by (auto simp: fun_eq_iff)
  ultimately show ?thesis using sl(5) by simp
qed


text \<open>Replacing the data of a file in use.\<close>

lemma ramfs_set_data:
  assumes "ramfs_wf s" and "slot_of n (ramfs_files s) = Some i" and "length d = 1024" and "unat k \<le> 1024"
  defines "s' \<equiv> set_file i ((ramfs_files s ! i)\<lparr>rf_data := d, rf_size := k\<rparr>) s"
  shows "ramfs_wf s'" and "ramfs_view s' = (ramfs_view s)(n \<mapsto> take (unat k) d)"
proof -
  note sl = ramfs_slot [OF assms(1,2)]
  let ?f = "(ramfs_files s ! i)\<lparr>rf_data := d, rf_size := k\<rparr>"
  have f: "rf_ok ?f" "file_name ?f = n" "rf_used ?f" "file_content ?f = take (unat k) d"
    using sl(2-4) assms(3,4) by (simp_all add: rf_ok_def file_name_def file_content_def)
  have u: "slot_of m (ramfs_files s) = Some i \<longleftrightarrow> m = n" for m
    using slot_of_Some [of m "ramfs_files s" i] sl(4) assms(2) by auto
  have c: "rf_used ?f \<Longrightarrow> slot_of (file_name ?f) (ramfs_files s) \<in> {None, Some i}"
    using f(2) assms(2) by simp
  show "ramfs_wf s'" unfolding s'_def by (rule ramfs_set_file(1) [OF assms(1) sl(1) f(1) c])
  show "ramfs_view s' = (ramfs_view s)(n \<mapsto> take (unat k) d)"
  proof
    fix m
    show "ramfs_view s' m = ((ramfs_view s)(n \<mapsto> take (unat k) d)) m"
      using ramfs_set_file(2) [OF assms(1) sl(1) f(1) c, of m] f(2-4) u [of m] unfolding s'_def by auto
  qed
qed

text \<open>\<open>ramfs_write\<close> replaces the content of an existing file by the first 1024 bytes given and returns
  their number; the other files are unchanged, and a name that does not exist is refused.\<close>

lemma ramfs_write_eq:
  assumes "ramfs_wf s" and "NUL \<in> set b" and "min (unat len) 1024 \<le> length data"
  shows "\<exists>r s'. ramfs_write (Some b) (Some data) len s = Some (r, s') \<and> ramfs_wf s'
    \<and> (if ramfs_view s (cstr b) = None then r = -1 \<and> s' = s
       else r = int (min (unat len) 1024)
          \<and> ramfs_view s' = (ramfs_view s)(cstr b \<mapsto> take (min (unat len) 1024) data))"
proof (cases "slot_of (cstr b) (ramfs_files s)")
  case None
  then have "ramfs_write (Some b) (Some data) len s = Some (-1, s)"
    using ramfs_find_eq [OF assms(1,2)] by (simp add: ramfs_write_def)
  then show ?thesis using None assms(1) by (simp add: ramfs_view_None)
next
  case (Some i)
  note sl = ramfs_slot [OF assms(1) Some]
  let ?f = "ramfs_files s ! i"
  define k where "k = (if len > RAMFS_MAX_DATA then RAMFS_MAX_DATA else len)"
  have k: "unat k = min (unat len) 1024" by (simp add: k_def word_less_nat_alt min_def)
  have sk: "sint k = int (unat k)" using k by (intro sint_small) simp
  have len: "length (rf_data ?f) = 1024" using sl(2) by (simp add: rf_ok_def)
  define d where "d = take (unat k) data @ drop (unat k) (rf_data ?f)"
  have m: "memcpy_at (rf_data ?f) 0 data 0 (unat k) = Some d"
    using memcpy_at_eq [of 0 "unat k" "rf_data ?f" 0 data] len k assms(3) by (simp add: d_def)
  have "length d = 1024" and t: "take (unat k) d = take (min (unat len) 1024) data"
    using len k assms(3) by (auto simp: d_def)
  note v = ramfs_set_data [OF assms(1) Some this(1), of k]
  show ?thesis
    using ramfs_find_eq [OF assms(1,2)] Some v k sk m t sl(5)
    by (auto simp: ramfs_write_def Let_def k_def [symmetric] simp del: split_paired_Ex)
qed


lemma ramfs_read_eq:
  assumes "ramfs_wf s" and "NUL \<in> set b" and "ramfs_view s (cstr b) = Some c"
    and "min (unat len) (length c) \<le> length buf"
  shows "ramfs_read (Some b) (Some buf) len s
    = Some (int (min (unat len) (length c)),
        Some (take (unat len) c @ drop (min (unat len) (length c)) buf))"
proof -
  obtain i where i: "slot_of (cstr b) (ramfs_files s) = Some i"
    using assms(3) ramfs_view_None [of s "cstr b"] by (cases "slot_of (cstr b) (ramfs_files s)") auto
  note sl = ramfs_slot [OF assms(1) i]
  let ?f = "ramfs_files s ! i"
  have f: "length (rf_data ?f) = 1024" "unat (rf_size ?f) \<le> 1024" using sl(2) by (simp_all add: rf_ok_def)
  have c: "c = take (unat (rf_size ?f)) (rf_data ?f)" using assms(3) sl(5) by (simp add: file_content_def)
  then have cl: "length c = unat (rf_size ?f)" using f by simp
  define k where "k = (if len < rf_size ?f then len else rf_size ?f)"
  have k: "unat k = min (unat len) (length c)" by (simp add: k_def word_less_nat_alt min_def cl)
  have sk: "sint k = int (unat k)" using k f(2) cl by (intro sint_small) simp
  have "memcpy_at buf 0 (rf_data ?f) 0 (unat k) = Some (take (unat len) c @ drop (unat k) buf)"
    using memcpy_at_eq [of 0 "unat k" buf 0 "rf_data ?f"] f assms(4) k c cl by (simp add: min.commute)
  then show ?thesis
    using ramfs_find_eq [OF assms(1,2)] i sk k
    by (simp add: ramfs_read_def Let_def k_def [symmetric])
qed

lemma ramfs_read_missing:
  assumes "ramfs_wf s" and "NUL \<in> set b" and "ramfs_view s (cstr b) = None"
  shows "ramfs_read (Some b) (Some buf) len s = Some (-1, Some buf)"
  using ramfs_find_eq [OF assms(1,2)] assms(3) by (simp add: ramfs_read_def ramfs_view_None)

section \<open>A store of named files\<close>

text \<open>
  The contract that the shell and the start-up code rely on.  \<open>new\<close>, \<open>remove\<close> and \<open>store\<close> are
  \<^term>\<open>None\<close> where the operation is refused.
\<close>

locale named_store =
  fixes view :: "'s \<Rightarrow> 'k \<rightharpoonup> 'v" and inv :: "'s \<Rightarrow> bool" and full :: "'s \<Rightarrow> bool"
    and ok :: "'k \<Rightarrow> bool" and fits :: "'v \<Rightarrow> bool" and blank :: 'v
    and new :: "'k \<Rightarrow> 's \<Rightarrow> 's option" and remove :: "'k \<Rightarrow> 's \<Rightarrow> 's option"
    and store :: "'k \<Rightarrow> 'v \<Rightarrow> 's \<Rightarrow> 's option" and fetch :: "'k \<Rightarrow> 's \<Rightarrow> 'v option"
  assumes new_refused: "inv s \<Longrightarrow> ok n \<Longrightarrow> view s n \<noteq> None \<or> full s \<Longrightarrow> new n s = None"
    and new_view: "inv s \<Longrightarrow> ok n \<Longrightarrow> view s n = None \<Longrightarrow> \<not> full s
      \<Longrightarrow> \<exists>t. new n s = Some t \<and> inv t \<and> view t = (view s)(n \<mapsto> blank)"
    and remove_view: "inv s \<Longrightarrow> ok n \<Longrightarrow> view s n \<noteq> None
      \<Longrightarrow> \<exists>t. remove n s = Some t \<and> inv t \<and> view t = (view s)(n := None)"
    and store_view: "inv s \<Longrightarrow> ok n \<Longrightarrow> fits v \<Longrightarrow> view s n \<noteq> None
      \<Longrightarrow> \<exists>t. store n v s = Some t \<and> inv t \<and> view t = (view s)(n \<mapsto> v)"
    and fetch_view: "inv s \<Longrightarrow> ok n \<Longrightarrow> fetch n s = view s n"
begin

lemma new_store_fetch:
  assumes "inv s" and "ok n" and "view s n = None" and "\<not> full s" and "fits v"
  shows "\<exists>t u. new n s = Some t \<and> store n v t = Some u \<and> inv u \<and> fetch n u = Some v
    \<and> (\<forall>m. ok m \<longrightarrow> m \<noteq> n \<longrightarrow> fetch m u = fetch m s)"
proof -
  obtain t where t: "new n s = Some t" "inv t" "view t = (view s)(n \<mapsto> blank)"
    using new_view assms(1-4) by blast
  then obtain u where u: "store n v t = Some u" "inv u" "view u = (view t)(n \<mapsto> v)"
    using store_view assms(2,5) by force
  show ?thesis using t u fetch_view assms(1,2) by auto
qed

lemma new_remove:
  assumes "inv s" and "ok n" and "view s n = None" and "\<not> full s"
  shows "\<exists>t u. new n s = Some t \<and> remove n t = Some u \<and> inv u \<and> view u = view s"
proof -
  obtain t where t: "new n s = Some t" "inv t" "view t = (view s)(n \<mapsto> blank)"
    using new_view assms by blast
  then obtain u where "remove n t = Some u" "inv u" "view u = (view t)(n := None)"
    using remove_view assms(2) by force
  then show ?thesis using t assms(3) by auto
qed

end

text \<open>The calls as a client of the file system makes them, with the name as a string literal.\<close>

definition ramfs_new :: "string \<Rightarrow> fs \<Rightarrow> fs option" where
  "ramfs_new n s = do { (r, s) \<leftarrow> ramfs_create (Some (n @ [NUL])) s; if r = 0 then Some s else None }"

definition ramfs_remove :: "string \<Rightarrow> fs \<Rightarrow> fs option" where
  "ramfs_remove n s = do { (r, s) \<leftarrow> ramfs_delete (Some (n @ [NUL])) s; if r = 0 then Some s else None }"

definition ramfs_store :: "string \<Rightarrow> string \<Rightarrow> fs \<Rightarrow> fs option" where
  "ramfs_store n v s = do {
     (r, s) \<leftarrow> ramfs_write (Some (n @ [NUL])) (Some v) (of_nat (length v)) s;
     if r = int (length v) then Some s else None }"

definition ramfs_fetch :: "string \<Rightarrow> fs \<Rightarrow> string option" where
  "ramfs_fetch n s = do {
     (r, b) \<leftarrow> ramfs_read (Some (n @ [NUL])) (Some (replicate 1024 NUL)) 1024 s;
     b \<leftarrow> b;
     if r \<ge> 0 then Some (take (nat r) b) else None }"

definition name_ok :: "string \<Rightarrow> bool" where
  "name_ok n \<longleftrightarrow> NUL \<notin> set n \<and> length n \<le> 63"

lemma ramfs_content_length: "ramfs_wf s \<Longrightarrow> ramfs_view s n = Some c \<Longrightarrow> length c \<le> 1024"
  using slot_of_Some [of n "ramfs_files s"]
  by (fastforce simp: ramfs_view_def file_content_def ramfs_wf_def rf_ok_def)

interpretation ramfs_store: named_store ramfs_view ramfs_wf ramfs_full name_ok "\<lambda>v. length v \<le> 1024" "[]"
  ramfs_new ramfs_remove ramfs_store ramfs_fetch
proof
  fix s n v
  assume wf: "ramfs_wf s" and "name_ok n"
  then have n: "cstr (n @ [NUL]) = n" "NUL \<in> set (n @ [NUL])" "length (cstr (n @ [NUL])) \<le> 63"
    by (simp_all add: name_ok_def cstr_append_NUL)
  note create = ramfs_create_eq [OF wf n(2,3)] and delete = ramfs_delete_eq [OF wf n(2)]
  show "ramfs_new n s = None" if "ramfs_view s n \<noteq> None \<or> ramfs_full s"
    using create that n(1) by (auto simp: ramfs_new_def)
  show "\<exists>t. ramfs_new n s = Some t \<and> ramfs_wf t \<and> ramfs_view t = (ramfs_view s)(n \<mapsto> [])"
    if "ramfs_view s n = None" "\<not> ramfs_full s"
    using create that n(1) by (auto simp: ramfs_new_def)
  show "\<exists>t. ramfs_remove n s = Some t \<and> ramfs_wf t \<and> ramfs_view t = (ramfs_view s)(n := None)"
    if "ramfs_view s n \<noteq> None"
    using delete that n(1) by (auto simp: ramfs_remove_def)
  show "\<exists>t. ramfs_store n v s = Some t \<and> ramfs_wf t \<and> ramfs_view t = (ramfs_view s)(n \<mapsto> v)"
    if "length v \<le> 1024" "ramfs_view s n \<noteq> None"
  proof -
    have "unat (of_nat (length v) :: u32) = length v" using that by (intro unat_of_nat_small) simp
    then show ?thesis
      using ramfs_write_eq [OF wf n(2), of "of_nat (length v)" v] that n(1)
      by (auto simp: ramfs_store_def)
  qed
  show "ramfs_fetch n s = ramfs_view s n"
  proof (cases "ramfs_view s n")
    case None
    then show ?thesis using ramfs_read_missing [OF wf n(2)] n(1) by (simp add: ramfs_fetch_def)
  next
    case (Some c)
    note len = ramfs_content_length [OF wf Some]
    then show ?thesis
      using ramfs_read_eq [OF wf n(2), of c 1024 "replicate 1024 NUL"] Some n(1)
      by (simp add: ramfs_fetch_def)
  qed
qed

text \<open>C10: the file system in memory is the map from names to contents: creating, deleting and writing files
  (names of at most 63 characters, data cut at 1024 bytes) act on the map as their names say, answer
  \<open>-1\<close> when a name exists, is missing or no slot is left, and keep the representation well formed.\<close>

theorem ramfs_refines_map:
  assumes "ramfs_wf s" and "NUL \<in> set b" and "length (cstr b) \<le> 63" and "min (unat len) 1024 \<le> length data"
  shows "(\<exists>r t. ramfs_create (Some b) s = Some (r, t) \<and> ramfs_wf t
      \<and> (if ramfs_view s (cstr b) \<noteq> None \<or> ramfs_full s then r = -1 \<and> t = s
         else r = 0 \<and> ramfs_view t = (ramfs_view s)(cstr b \<mapsto> [])))
    \<and> (\<exists>r t. ramfs_delete (Some b) s = Some (r, t) \<and> ramfs_wf t
      \<and> ramfs_view t = (ramfs_view s)(cstr b := None) \<and> r = (if ramfs_view s (cstr b) = None then -1 else 0))
    \<and> (\<exists>r t. ramfs_write (Some b) (Some data) len s = Some (r, t) \<and> ramfs_wf t
      \<and> (if ramfs_view s (cstr b) = None then r = -1 \<and> t = s
         else r = int (min (unat len) 1024)
           \<and> ramfs_view t = (ramfs_view s)(cstr b \<mapsto> take (min (unat len) 1024) data)))"
  using ramfs_create_eq [OF assms(1-3)] ramfs_delete_eq [OF assms(1,2)] ramfs_write_eq [OF assms(1,2,4)]
  by blast

text \<open>A file that is created and written reads back byte for byte, the other files keep their
  contents, and creating and deleting leaves the file system as it was.\<close>

theorem ramfs_roundtrip:
  assumes "ramfs_wf s" and "name_ok n" and "ramfs_view s n = None" and "\<not> ramfs_full s" and "length v \<le> 1024"
  shows "\<exists>t u. ramfs_new n s = Some t \<and> ramfs_store n v t = Some u \<and> ramfs_fetch n u = Some v
    \<and> (\<forall>m. name_ok m \<longrightarrow> m \<noteq> n \<longrightarrow> ramfs_fetch m u = ramfs_fetch m s)
    \<and> (\<exists>w. ramfs_remove n t = Some w \<and> ramfs_wf w \<and> ramfs_view w = ramfs_view s)"
  using ramfs_store.new_store_fetch [OF assms] ramfs_store.new_remove [OF assms(1-4)] by force

section \<open>Reading and writing through a node\<close>

definition ram_node_ok :: "fs \<Rightarrow> nat \<Rightarrow> bool" where
  "ram_node_ok s i \<longleftrightarrow> i < 64 \<and> rf_used (ramfs_files s ! i) \<and> vn_private_data (nodes s (Ram_Node i)) = Some i"

abbreviation node_file :: "fs \<Rightarrow> nat \<Rightarrow> ramfs_file" where
  "node_file s i \<equiv> ramfs_files s ! i"

lemma ramfs_file_of_eq: "ram_node_ok s i \<Longrightarrow> ramfs_file_of (Some (Ram_Node i)) s = Some (i, node_file s i)"
  by (simp add: ram_node_ok_def ramfs_file_of_def)

lemma rf_ok_slot: "ramfs_wf s \<Longrightarrow> i < 64 \<Longrightarrow> rf_ok (node_file s i)"
  by (simp add: ramfs_wf_def)

lemma ramfs_vfs_read_eq:
  assumes "ramfs_wf s" and "ram_node_ok s i" and "unat offset + unat len < 2 ^ 32" and "unat len \<le> length buf"
  defines "c \<equiv> take (unat len) (drop (unat offset) (file_content (node_file s i)))"
  shows "ramfs_vfs_read (Some (Ram_Node i)) offset len (Some buf) s
    = Some (int (length c), Some (c @ drop (length c) buf))"
proof -
  let ?f = "node_file s i"
  have f: "length (rf_data ?f) = 1024" "unat (rf_size ?f) \<le> 1024"
    using rf_ok_slot [OF assms(1)] assms(2) by (simp_all add: rf_ok_def ram_node_ok_def)
  show ?thesis
  proof (cases "offset \<ge> rf_size ?f")
    case True
    then have "c = []" using f by (simp add: c_def file_content_def word_le_nat_alt)
    then show ?thesis using True ramfs_file_of_eq [OF assms(2)] by (simp add: ramfs_vfs_read_def)
  next
    case False
    then have lt: "unat offset < unat (rf_size ?f)" by (simp add: word_le_nat_alt)
    define k where "k = (if offset + len > rf_size ?f then rf_size ?f - offset else len)"
    have k: "unat k = min (unat len) (unat (rf_size ?f) - unat offset)"
      using lt unat_add_small [OF assms(3)]
      by (auto simp: k_def word_less_nat_alt unat_sub word_le_nat_alt min_def)
    have c: "c = take (unat k) (drop (unat offset) (rf_data ?f))"
      using k by (simp add: c_def file_content_def drop_take min.commute)
    have lc: "length c = unat k" using c k f by simp
    have "memcpy_at buf 0 (rf_data ?f) (unat offset) (unat k) = Some (c @ drop (unat k) buf)"
      using memcpy_at_eq [of 0 "unat k" buf "unat offset" "rf_data ?f"] c k f lt assms(4) by simp
    moreover have "sint k = int (unat k)" using k f by (intro sint_small) simp
    ultimately show ?thesis
      using ramfs_file_of_eq [OF assms(2)] False lc
      by (simp add: ramfs_vfs_read_def Let_def k_def [symmetric])
  qed
qed

text \<open>Reading at an offset copies exactly the bytes of the file from there on, as many as are asked for and
  there, into the front of the caller's buffer.\<close>

theorem ramfs_vfs_read_correct:
  assumes "ramfs_wf s" and "ram_node_ok s i" and "unat offset + unat len < 2 ^ 32" and "unat len \<le> length buf"
  defines "c \<equiv> take (unat len) (drop (unat offset) (file_content (node_file s i)))"
  shows "ramfs_vfs_read (Some (Ram_Node i)) offset len (Some buf) s
    = Some (int (length c), Some (c @ drop (length c) buf))"
  unfolding c_def by (rule ramfs_vfs_read_eq [OF assms(1-4)])

lemma take_splice:
  assumes "p + k \<le> length d" and "k \<le> length x" and "n \<le> length d"
  shows "take (max (p + k) n) (take p d @ take k x @ drop (p + k) d)
    = (if p \<le> n then take p (take n d) @ take k x @ drop (p + k) (take n d) else take p d @ take k x)"
proof (cases "p + k \<le> n")
  case True
  then obtain m where m: "n = p + k + m" by (auto simp: le_iff_add)
  show ?thesis using assms by (simp add: m take_drop add.assoc add.commute [of m])
next
  case False
  then show ?thesis using assms by (simp add: max_def min_def)
qed

lemma ramfs_vfs_write_eq:
  assumes "ramfs_wf s" and "ram_node_ok s i" and "unat offset + unat len < 2 ^ 32" and "unat len \<le> length data"
    and "unat offset < 1024"
  defines "k \<equiv> min (unat len) (1024 - unat offset)" and "f \<equiv> node_file s i"
  shows "\<exists>s'. ramfs_vfs_write (Some (Ram_Node i)) offset len (Some data) s = Some (int k, s') \<and> ramfs_wf s'
    \<and> (\<forall>n. n \<noteq> file_name f \<longrightarrow> ramfs_view s' n = ramfs_view s n)
    \<and> ramfs_view s' (file_name f) = Some
        (if unat offset \<le> unat (rf_size f)
         then take (unat offset) (file_content f) @ take k data @ drop (unat offset + k) (file_content f)
         else take (unat offset) (rf_data f) @ take k data)"
proof -
  have i: "i < 64" "rf_used f" using assms(2) by (simp_all add: ram_node_ok_def f_def)
  have f: "length (rf_data f) = 1024" "unat (rf_size f) \<le> 1024"
    using rf_ok_slot [OF assms(1) i(1)] by (simp_all add: rf_ok_def f_def)
  have sl: "slot_of (file_name f) (ramfs_files s) = Some i"
    using assms(1) i slot_of_iff [of "ramfs_files s"] by (simp add: ramfs_wf_def f_def)
  define w where "w = (if offset + len > RAMFS_MAX_DATA then RAMFS_MAX_DATA - offset else len)"
  have w: "unat w = k"
    using assms(5) unat_add_small [OF assms(3)]
    by (auto simp: w_def k_def word_less_nat_alt unat_sub word_le_nat_alt min_def)
  have ok: "unat offset + k \<le> 1024" "k \<le> length data" using assms(4,5) by (simp_all add: k_def)
  have e: "unat (offset + w) = unat offset + k" using w ok by (subst unat_add_small) simp_all
  have sk: "sint w = int k" using w ok by (simp add: sint_small)
  define d where "d = take (unat offset) (rf_data f) @ take k data @ drop (unat offset + k) (rf_data f)"
  have m: "memcpy_at (rf_data f) (unat offset) data 0 (unat w) = Some d"
    using memcpy_at_eq [of "unat offset" k "rf_data f" 0 data] ok f w by (simp add: d_def)
  have ld: "length d = 1024" using f ok by (simp add: d_def)
  define z where "z = (if offset + w > rf_size f then offset + w else rf_size f)"
  have z: "unat z = max (unat offset + k) (unat (rf_size f))" by (simp add: z_def word_less_nat_alt e max_def)
  define s' where "s' = set_file i ((ramfs_files s ! i)\<lparr>rf_data := d, rf_size := z\<rparr>) s"
  have z1024: "unat z \<le> 1024" using z f ok by simp
  note v = ramfs_set_data [OF assms(1) sl ld z1024, folded s'_def]
  have "\<exists>t. ramfs_vfs_write (Some (Ram_Node i)) offset len (Some data) s = Some (int k, t)
      \<and> ramfs_wf t = ramfs_wf s' \<and> ramfs_view t = ramfs_view s'"
    using ramfs_file_of_eq [OF assms(2)] assms(5) m sk
    by (auto simp: ramfs_vfs_write_def Let_def w_def [symmetric] f_def [symmetric] s'_def z_def word_le_nat_alt)
  moreover have "take (unat z) d = (if unat offset \<le> unat (rf_size f)
         then take (unat offset) (file_content f) @ take k data @ drop (unat offset + k) (file_content f)
         else take (unat offset) (rf_data f) @ take k data)"
    using take_splice [of "unat offset" k "rf_data f" data "unat (rf_size f)"] f ok
    by (simp add: d_def z file_content_def)
  ultimately show ?thesis using v by auto
qed

text \<open>C11: writing at an offset up to the end of the file replaces exactly the bytes written, at most to the
  capacity of 1024; an offset past the end brings the bytes that the slot held before into the file.\<close>

theorem ramfs_vfs_write_correct:
  assumes "ramfs_wf s" and "ram_node_ok s i" and "unat offset + unat len < 2 ^ 32" and "unat len \<le> length data"
    and "unat offset < 1024"
  defines "k \<equiv> min (unat len) (1024 - unat offset)" and "f \<equiv> node_file s i"
  shows "\<exists>s'. ramfs_vfs_write (Some (Ram_Node i)) offset len (Some data) s = Some (int k, s') \<and> ramfs_wf s'
    \<and> (\<forall>n. n \<noteq> file_name f \<longrightarrow> ramfs_view s' n = ramfs_view s n)
    \<and> ramfs_view s' (file_name f) = Some
        (if unat offset \<le> unat (rf_size f)
         then take (unat offset) (file_content f) @ take k data @ drop (unat offset + k) (file_content f)
         else take (unat offset) (rf_data f) @ take k data)"
  unfolding k_def f_def by (rule ramfs_vfs_write_eq [OF assms(1-5)])

text \<open>The check of the end of the file is made on a sum that wraps: an offset inside the file and a size
  that carry past 4 GB pass it, and the copy leaves the file's data.\<close>

theorem ramfs_vfs_wraps:
  assumes "ramfs_wf s" and "ram_node_ok s i" and "2 ^ 32 \<le> unat offset + unat len"
    and "unat offset < unat (rf_size (node_file s i))"
  shows "ramfs_vfs_read (Some (Ram_Node i)) offset len (Some buf) s = None
    \<and> ramfs_vfs_write (Some (Ram_Node i)) offset len (Some data) s = None"
proof -
  let ?f = "node_file s i"
  have f: "length (rf_data ?f) = 1024" "unat (rf_size ?f) \<le> 1024"
    using rf_ok_slot [OF assms(1)] assms(2) by (simp_all add: rf_ok_def ram_node_ok_def)
  have u: "unat (offset + len) = unat offset + unat len - 2 ^ 32"
  proof -
    have "unat offset + unat len < 2 * 2 ^ 32" using u32_unat_lt [of offset] u32_unat_lt [of len] by simp
    then show ?thesis using assms(3) by (simp add: unat_word_ariths mod_if)
  qed
  have sm: "unat (offset + len) < unat offset"
    using u u32_unat_lt [of len] assms(3) by simp
  have big: "1024 < unat len" using assms(3,4) f(2) by simp
  have "\<not> offset + len > rf_size ?f" "\<not> offset \<ge> rf_size ?f"
    using sm assms(4) by (simp_all add: word_less_nat_alt word_le_nat_alt)
  moreover have "\<not> offset + len > RAMFS_MAX_DATA" "\<not> offset \<ge> RAMFS_MAX_DATA"
    using sm assms(4) f(2) by (simp_all add: word_less_nat_alt word_le_nat_alt)
  moreover have "memcpy_at buf 0 (rf_data ?f) (unat offset) (unat len) = None"
    using memcpy_at_outside [of "unat len" buf 0 "rf_data ?f" "unat offset"] f big by simp
  moreover have "memcpy_at (rf_data ?f) (unat offset) data 0 (unat len) = None"
    using memcpy_at_outside [of "unat len" "rf_data ?f" "unat offset" data 0] f big by simp
  ultimately show ?thesis
    using ramfs_file_of_eq [OF assms(2)] by (simp add: ramfs_vfs_read_def ramfs_vfs_write_def Let_def)
qed

lemma rf_ok_name_length: "rf_ok f \<Longrightarrow> length (file_name f) \<le> 63"
  using nth_takeWhile_neq [of 63 NUL "rf_name f"]
  unfolding rf_ok_def file_name_def cstr_def by (meson not_le)

lemma ramfs_find_long:
  assumes "\<forall>f \<in> set (ramfs_files s). rf_ok f" and "NUL \<in> set b" and "64 \<le> length (cstr b)"
  shows "ramfs_find (Some b) s = Some (-1)"
proof -
  have "slot_of (cstr b) (ramfs_files s) = None"
    using assms(1,3) rf_ok_name_length unfolding slot_of_None_iff by fastforce
  then show ?thesis using ramfs_find_from_eq [OF assms(1,2), of 0] by (simp add: ramfs_find_def)
qed

text \<open>A name of 64 characters or more is cut to 63 when the file is created and is never found
  again: creating it a second time makes a second file instead of failing.\<close>

theorem ramfs_long_name:
  assumes "ramfs_wf s" and "NUL \<in> set b" and "64 \<le> length (cstr b)" and "\<not> ramfs_full s"
  shows "\<exists>s' i. ramfs_create (Some b) s = Some (0, s') \<and> i < 64 \<and> \<not> rf_used (node_file s i)
    \<and> rf_used (node_file s' i) \<and> file_name (node_file s' i) = take 63 (cstr b)
    \<and> ramfs_find (Some b) s' = Some (-1) \<and> (\<not> ramfs_full s' \<longrightarrow> (\<exists>s''. ramfs_create (Some b) s' = Some (0, s'')))"
proof -
  have any: "\<exists>t i. ramfs_create (Some b) u = Some (0, t) \<and> i < 64 \<and> \<not> rf_used (node_file u i)
      \<and> rf_used (node_file t i) \<and> file_name (node_file t i) = take 63 (cstr b)
      \<and> (\<forall>f \<in> set (ramfs_files t). rf_ok f) \<and> length (ramfs_files t) = 64"
    if u: "\<forall>f \<in> set (ramfs_files u). rf_ok f" "length (ramfs_files u) = 64" "\<not> ramfs_full u" for u
  proof -
    obtain i where i: "ramfs_free_slot u = Some i" using u(3) ramfs_free_slot_None [of u] by auto
    then have i64: "i < 64" "\<not> rf_used (node_file u i)" using u(2) by (auto simp: ramfs_free_slot_def find_upt_Some_iff)
    let ?f = "node_file u i"
    have "rf_ok ?f" using u i64 by simp
    then have ok: "length (rf_name ?f) = 64" "rf_name ?f ! 63 = NUL" "length (rf_data ?f) = 1024"
      by (simp_all add: rf_ok_def)
    obtain fname where fname: "strncpy (rf_name ?f) b 63 = Some fname"
      using strncpy_eq [OF assms(2), of 63 "rf_name ?f"] ok(1) by simp
    have name: "cstr fname = take 63 (cstr b)" "length fname = 64" "fname ! 63 = NUL"
      using cstr_strncpy [OF assms(2) _ ok(2) fname] ok(1) by simp_all
    obtain nname where nname: "strncpy (vn_name zero_node) b 127 = Some nname"
      using strncpy_eq [OF assms(2), of 127 "vn_name zero_node"] by (simp add: zero_node_def)
    define f' where "f' = \<lparr>rf_name = fname, rf_data = (rf_data ?f)[0 := NUL], rf_size = 0, rf_used = True\<rparr>"
    have f': "rf_ok f'" "file_name f' = take 63 (cstr b)" "rf_used f'"
      using ok name by (simp_all add: rf_ok_def file_name_def f'_def)
    have "\<exists>nd. ramfs_create (Some b) u = Some (0, set_node (Ram_Node i) nd (set_file i f' u))"
      using ramfs_find_long [OF u(1) assms(2,3)] i fname nname ok
      by (auto simp: ramfs_create_def put_at_def f'_def Let_def)
    moreover have "\<forall>f \<in> set (ramfs_files (set_file i f' u)). rf_ok f"
      using u(1) f'(1) by (auto simp: set_file_def dest!: set_update_subset_insert [THEN subsetD])
    ultimately show ?thesis using f' i64 u(2) by (auto simp: set_file_def intro!: exI [of _ i])
  qed
  have wf: "\<forall>f \<in> set (ramfs_files s). rf_ok f" "length (ramfs_files s) = 64"
    using assms(1) by (simp_all add: ramfs_wf_def)
  obtain t i where t: "ramfs_create (Some b) s = Some (0, t)" "i < 64" "\<not> rf_used (node_file s i)"
    "rf_used (node_file t i)" "file_name (node_file t i) = take 63 (cstr b)"
    "\<forall>f \<in> set (ramfs_files t). rf_ok f" "length (ramfs_files t) = 64"
    using any [OF wf assms(4)] by blast
  moreover have "ramfs_find (Some b) t = Some (-1)" by (rule ramfs_find_long [OF t(6) assms(2,3)])
  moreover have "\<exists>v. ramfs_create (Some b) t = Some (0, v)" if "\<not> ramfs_full t"
    using any [OF t(6,7) that] by blast
  ultimately show ?thesis by blast
qed

section \<open>The state after start-up\<close>

definition ramfs_blank :: fs where
  "ramfs_blank = \<lparr>nodes = (\<lambda>r. zero_node),
     ramfs_files = replicate 64 \<lparr>rf_name = replicate 64 NUL, rf_data = replicate 1024 NUL, rf_size = 0, rf_used = False\<rparr>,
     vfs_root = None\<rparr>"

lemma ramfs_blank_wf: "ramfs_wf ramfs_blank" "ramfs_view ramfs_blank = Map.empty" "\<not> ramfs_full ramfs_blank"
proof -
  have "slot_of n (replicate k f) = None" if "\<not> rf_used f" for n k f using that by (induction k) auto
  then show "ramfs_view ramfs_blank = Map.empty" by (simp add: ramfs_view_def ramfs_blank_def fun_eq_iff)
  show "ramfs_wf ramfs_blank" "\<not> ramfs_full ramfs_blank"
    by (simp_all add: ramfs_wf_def ramfs_blank_def rf_ok_def names_distinct_def ramfs_full_def)
qed

theorem ramfs_refines_map_witness:
  "\<exists>t. ramfs_create (Some (''a'' @ [NUL])) ramfs_blank = Some (0, t) \<and> ramfs_view t = [''a'' \<mapsto> []]"
  using ramfs_refines_map [OF ramfs_blank_wf(1), of "''a'' @ [NUL]" 0 "[]"] ramfs_blank_wf
  by (auto simp: cstr_append_NUL)

theorem ramfs_roundtrip_witness:
  "\<exists>t u. ramfs_new ''a'' ramfs_blank = Some t \<and> ramfs_store ''a'' ''hello'' t = Some u \<and> ramfs_fetch ''a'' u = Some ''hello''"
  using ramfs_roundtrip [OF ramfs_blank_wf(1), of "''a''" "''hello''"] ramfs_blank_wf
  by (auto simp: name_ok_def)

theorem ramfs_long_name_witness:
  "\<exists>s'. ramfs_create (Some (replicate 64 CHR ''x'' @ [NUL])) ramfs_blank = Some (0, s')
     \<and> ramfs_find (Some (replicate 64 CHR ''x'' @ [NUL])) s' = Some (-1)"
  using ramfs_long_name [OF ramfs_blank_wf(1), of "replicate 64 CHR ''x'' @ [NUL]"] ramfs_blank_wf(3)
  by (auto simp: cstr_append_NUL)

text \<open>A file system with one file of five bytes in slot 0.\<close>

definition ramfs_example :: fs where
  "ramfs_example = set_node (Ram_Node 0) (zero_node\<lparr>vn_private_data := Some 0\<rparr>)
     (set_file 0 \<lparr>rf_name = CHR ''a'' # replicate 63 NUL, rf_data = ''hello'' @ replicate 1019 NUL,
        rf_size = 5, rf_used = True\<rparr> ramfs_blank)"

lemma ramfs_example_wf: "ramfs_wf ramfs_example" "ram_node_ok ramfs_example 0" 
  "file_name (node_file ramfs_example 0) = ''a''" "file_content (node_file ramfs_example 0) = ''hello''"
proof -
  let ?f = "\<lparr>rf_name = CHR ''a'' # replicate 63 NUL, rf_data = ''hello'' @ replicate 1019 NUL, rf_size = 5, rf_used = True\<rparr>"
  have "slot_of n (ramfs_files ramfs_blank) = None" for n
    using ramfs_blank_wf(2) unfolding fun_eq_iff by (simp add: ramfs_view_None)
  then have "ramfs_wf (set_file 0 ?f ramfs_blank)"
    by (intro ramfs_set_file(1) [OF ramfs_blank_wf(1)]) (simp_all add: rf_ok_def)
  then show "ramfs_wf ramfs_example" by (simp add: ramfs_example_def)
  show "ram_node_ok ramfs_example 0" "file_name (node_file ramfs_example 0) = ''a''"
    "file_content (node_file ramfs_example 0) = ''hello''"
    by (simp_all add: ram_node_ok_def ramfs_example_def set_file_def set_node_def ramfs_blank_def file_name_def
        file_content_def cstr_def)
qed

theorem ramfs_vfs_read_correct_witness:
  "ramfs_vfs_read (Some (Ram_Node 0)) 1 3 (Some ''....'') ramfs_example = Some (3, Some ''ell.'')"
  using ramfs_vfs_read_correct [OF ramfs_example_wf(1,2), of 1 3 "''....''"] ramfs_example_wf(4) by simp

theorem ramfs_vfs_write_correct_witness:
  "\<exists>s'. ramfs_vfs_write (Some (Ram_Node 0)) 4 2 (Some ''p!'') ramfs_example = Some (2, s')
     \<and> ramfs_view s' ''a'' = Some ''hellp!''"
  using ramfs_vfs_write_correct [OF ramfs_example_wf(1,2), of 4 2 "''p!''"] ramfs_example_wf(3,4)
  by (auto simp: ramfs_example_def set_file_def set_node_def ramfs_blank_def)

theorem ramfs_vfs_wraps_witness:
  "ramfs_vfs_read (Some (Ram_Node 0)) 4 0xFFFFFFFF (Some []) ramfs_example = None"
  using ramfs_vfs_wraps [OF ramfs_example_wf(1,2), where offset = 4 and len = "0xFFFFFFFF" and buf = "[]" and data = "[]"]
  by (auto simp: ramfs_example_def set_file_def set_node_def ramfs_blank_def)

end
