(* ===== verification/Pick_Min.thy ===== *)
theory Pick_Min
  imports Kernel_Prelude
begin

text \<open>
  The contract of the two schedulers of the kernel: out of a list, pick the first of the candidates
  with the least key.
\<close>

locale min_pick =
  fixes cand :: "'a \<Rightarrow> bool" and key :: "'a \<Rightarrow> 'k::linorder" and pick :: "'a list \<Rightarrow> 'a option"
  assumes pick_None: "pick xs = None \<longleftrightarrow> (\<forall>x \<in> set xs. \<not> cand x)"
    and pick_Some: "pick xs = Some x \<Longrightarrow> \<exists>ys zs. xs = ys @ x # zs \<and> cand x
      \<and> (\<forall>y \<in> set ys. cand y \<longrightarrow> key x < key y) \<and> (\<forall>z \<in> set zs. cand z \<longrightarrow> key x \<le> key z)"
begin

lemma pick_least: "pick xs = Some x \<Longrightarrow> x \<in> set xs \<and> cand x \<and> (\<forall>y \<in> set xs. cand y \<longrightarrow> key x \<le> key y)"
  using pick_Some [of xs x] by (auto simp: less_imp_le)

lemma pick_exists: "x \<in> set xs \<Longrightarrow> cand x \<Longrightarrow> \<exists>y. pick xs = Some y \<and> cand y \<and> key y \<le> key x"
  using pick_None [of xs] pick_least [of xs] by (cases "pick xs") auto

lemma pick_head:
  assumes "cand x" and "\<forall>y \<in> set xs. cand y \<longrightarrow> key x \<le> key y"
  shows "pick (x # xs) = Some x"
proof -
  obtain y where y: "pick (x # xs) = Some y" using pick_exists [of x "x # xs"] assms(1) by auto
  then obtain ys zs where s: "x # xs = ys @ y # zs" "\<forall>z \<in> set ys. cand z \<longrightarrow> key y < key z" "cand y"
    using pick_Some by blast
  show ?thesis
  proof (cases ys)
    case Nil
    then show ?thesis using s(1) y by simp
  next
    case (Cons z ws)
    then have "key y < key x" "y \<in> set xs" using s assms(1) by auto
    then show ?thesis using assms(2) s(3) by auto
  qed
qed

text \<open>A candidate below all others is the one that is picked.\<close>

lemma pick_strict:
  assumes "x \<in> set xs" and "cand x" and "\<forall>y \<in> set xs. cand y \<longrightarrow> y \<noteq> x \<longrightarrow> key x < key y"
  shows "pick xs = Some x"
  using pick_exists [OF assms(1,2)] pick_least [of xs] assms(3) by force

end

end
