(* ===== verification/Task_Sched.thy ===== *)
theory Task_Sched
  imports Phys_Memory Console Pick_Min
begin

text \<open>
  Kernel tasks and their scheduler: \<^verbatim>\<open>sched/task.c\<close> and \<^verbatim>\<open>sched/scheduler.c\<close>.  Tasks are
  objects that point to each other: the static \<open>kernel_task\<close>, and one per page that
  \<open>task_create\<close> takes from the frame allocator.  \<open>tasks\<close> is the store of these objects, and
  \<open>stack_words\<close> the words of the kernel stacks.  \<open>context_switch\<close> is assembly; a call is recorded
  in \<open>switches\<close> with the task left and the stack pointer loaded.
\<close>

datatype task_ref = Kernel_Task | Page_Task u32

abbreviation (input) TASK_RUNNING :: u32 where "TASK_RUNNING \<equiv> 0"
abbreviation (input) TASK_READY :: u32 where "TASK_READY \<equiv> 1"
abbreviation (input) TASK_BLOCKED :: u32 where "TASK_BLOCKED \<equiv> 2"
abbreviation (input) TASK_DEAD :: u32 where "TASK_DEAD \<equiv> 3"
abbreviation (input) TASK_STACK_SIZE :: u32 where "TASK_STACK_SIZE \<equiv> 8192"

record task =
  tk_pid :: u32
  tk_name :: "char list"
  tk_state :: u32
  tk_esp :: u32
  tk_stack_base :: u32
  tk_vruntime :: u32
  tk_priority :: u32
  tk_next :: "task_ref option"

record sched =
  tasks :: "task_ref \<rightharpoonup> task"
  current_task :: "task_ref option"
  task_list_head :: "task_ref option"
  next_pid :: u32
  task_pmm :: pmm
  stack_words :: "u32 \<Rightarrow> u32"
  switches :: "(task_ref \<times> u32) list"

definition upd_task :: "task_ref \<Rightarrow> (task \<Rightarrow> task) \<Rightarrow> sched \<Rightarrow> sched option" where
  "upd_task r f s = map_option (\<lambda>t. s\<lparr>tasks := (tasks s)(r \<mapsto> f t)\<rparr>) (tasks s r)"

section \<open>The scheduler\<close>

text \<open>The last element of the list from a task on.\<close>

partial_function (option) list_end :: "(task_ref \<rightharpoonup> task) \<Rightarrow> task_ref \<Rightarrow> task_ref option" where
  "list_end ts r = do { t \<leftarrow> ts r; case tk_next t of None \<Rightarrow> Some r | Some n \<Rightarrow> list_end ts n }"

text \<open>The loop of \<open>scheduler_add_task\<close>: \<^term>\<open>Inl ()\<close> when the task is already present.\<close>

partial_function (option) add_scan ::
  "(task_ref \<rightharpoonup> task) \<Rightarrow> task_ref \<Rightarrow> task_ref \<Rightarrow> (unit + task_ref) option" where
  "add_scan ts r cur = do {
     t \<leftarrow> ts cur;
     case tk_next t of None \<Rightarrow> Some (Inr cur)
     | Some n \<Rightarrow> if cur = r then Some (Inl ()) else add_scan ts r n }"

definition scheduler_add_task :: "task_ref option \<Rightarrow> sched \<Rightarrow> sched option" where
  "scheduler_add_task task s =
     (case (task, task_list_head s) of
        (Some r, Some h) \<Rightarrow> do {
          e \<leftarrow> add_scan (tasks s) r h;
          case e of
            Inl _ \<Rightarrow> Some s
          | Inr l \<Rightarrow> do { s \<leftarrow> upd_task l (\<lambda>t. t\<lparr>tk_next := Some r\<rparr>) s;
                        upd_task r (\<lambda>t. t\<lparr>tk_next := None\<rparr>) s }
        }
      | _ \<Rightarrow> Some s)"

partial_function (option) remove_scan :: "task_ref \<Rightarrow> task_ref \<Rightarrow> sched \<Rightarrow> sched option" where
  "remove_scan r cur s = do {
     c \<leftarrow> tasks s cur;
     case tk_next c of
       None \<Rightarrow> Some s
     | Some n \<Rightarrow>
         if n = r then do { t \<leftarrow> tasks s r; upd_task cur (\<lambda>c. c\<lparr>tk_next := tk_next t\<rparr>) s }
         else remove_scan r n s }"

definition scheduler_remove_task :: "task_ref option \<Rightarrow> sched \<Rightarrow> sched option" where
  "scheduler_remove_task task s =
     (case (task, task_list_head s) of
        (Some r, Some h) \<Rightarrow>
          if h = r then map_option (\<lambda>t. s\<lparr>task_list_head := tk_next t\<rparr>) (tasks s h)
          else remove_scan r h s
      | _ \<Rightarrow> Some s)"

partial_function (option) count_from :: "(task_ref \<rightharpoonup> task) \<Rightarrow> task_ref option \<Rightarrow> u32 \<Rightarrow> u32 option" where
  "count_from ts cur n =
     (case cur of None \<Rightarrow> Some n | Some r \<Rightarrow> do { t \<leftarrow> ts r; count_from ts (tk_next t) (n + 1) })"

definition scheduler_get_task_count :: "sched \<Rightarrow> u32 option" where
  "scheduler_get_task_count s = count_from (tasks s) (task_list_head s) 0"

text \<open>The loop of \<open>schedule\<close> that finds the task with the least \<open>vruntime\<close>.\<close>

partial_function (option) min_scan ::
  "(task_ref \<rightharpoonup> task) \<Rightarrow> task_ref option \<Rightarrow> task_ref option \<Rightarrow> u32 \<Rightarrow> task_ref option option" where
  "min_scan ts cur min_task min_vruntime =
     (case cur of
        None \<Rightarrow> Some min_task
      | Some r \<Rightarrow> do {
          t \<leftarrow> ts r;
          if (tk_state t = TASK_READY \<or> tk_state t = TASK_RUNNING) \<and> tk_vruntime t < min_vruntime
          then min_scan ts (tk_next t) (Some r) (tk_vruntime t)
          else min_scan ts (tk_next t) min_task min_vruntime })"

definition schedule_switch :: "task_ref \<Rightarrow> task_ref \<Rightarrow> sched \<Rightarrow> sched option" where
  "schedule_switch prev min_task s = do {
     s \<leftarrow> upd_task prev (\<lambda>t. if tk_state t = TASK_RUNNING
             then t\<lparr>tk_state := TASK_READY, tk_vruntime := tk_vruntime t + (10 - tk_priority t)\<rparr> else t) s;
     s \<leftarrow> upd_task min_task (\<lambda>t. t\<lparr>tk_state := TASK_RUNNING\<rparr>) (s\<lparr>current_task := Some min_task\<rparr>);
     t \<leftarrow> tasks s min_task;
     Some (s\<lparr>switches := switches s @ [(prev, tk_esp t)]\<rparr>)
   }"

definition schedule :: "sched \<Rightarrow> sched option" where
  "schedule s =
     (case (current_task s, task_list_head s) of
        (Some c, Some h) \<Rightarrow> do {
          ct \<leftarrow> tasks s c;
          s \<leftarrow> (if tk_state ct = TASK_DEAD then scheduler_remove_task (Some c) s else Some s);
          m \<leftarrow> min_scan (tasks s) (task_list_head s) None 0xFFFFFFFF;
          case m of
            None \<Rightarrow> Some s
          | Some m \<Rightarrow> if m \<noteq> c then schedule_switch c m s else Some s
        }
      | _ \<Rightarrow> Some s)"

definition scheduler_init :: "console \<Rightarrow> console option" where
  "scheduler_init con = printk (Some (''Scheduler: Vruntime scheduler initialized'' @ [CHR 0x0A, NUL])) [] con"

definition task_state_string :: "u32 \<Rightarrow> char list" where
  "task_state_string st =
     (if st = TASK_RUNNING then ''RUNNING'' else if st = TASK_READY then ''READY  ''
      else if st = TASK_BLOCKED then ''BLOCKED'' else if st = TASK_DEAD then ''DEAD   '' else ''UNKNOWN'') @ [NUL]"

partial_function (option) scheduler_list_from ::
  "(task_ref \<rightharpoonup> task) \<Rightarrow> task_ref option \<Rightarrow> console \<Rightarrow> console option" where
  "scheduler_list_from ts cur con =
     (case cur of
        None \<Rightarrow> Some con
      | Some r \<Rightarrow> do {
          t \<leftarrow> ts r;
          con \<leftarrow> printk (Some (''%u    %s          %s   %u'' @ [CHR 0x0A, NUL]))
                   [VA_word (tk_pid t), VA_str (Some (tk_name t)), VA_str (Some (task_state_string (tk_state t))),
                    VA_word (tk_vruntime t)] con;
          scheduler_list_from ts (tk_next t) con })"

definition scheduler_list :: "sched \<Rightarrow> console \<Rightarrow> console option" where
  "scheduler_list s con = do {
     con \<leftarrow> printk (Some (''PID  NAME             STATE     VRUNTIME'' @ [CHR 0x0A, NUL])) [] con;
     con \<leftarrow> printk (Some (''---  ----             -----     --------'' @ [CHR 0x0A, NUL])) [] con;
     scheduler_list_from (tasks s) (task_list_head s) con }"

section \<open>Tasks\<close>

text \<open>The loop of \<open>strncpy_manual\<close>; \<open>room\<close> is \<^verbatim>\<open>max_len - 1 - i\<close>.\<close>

fun strncpy_manual :: "char list \<Rightarrow> char list \<Rightarrow> nat \<Rightarrow> char list option" where
  "strncpy_manual [] src room = None"
| "strncpy_manual (d # ds) [] room = None"
| "strncpy_manual (d # ds) (c # cs) room =
     (if c \<noteq> NUL \<and> room > 0 then map_option ((#) c) (strncpy_manual ds cs (room - 1)) else Some (NUL # ds))"

definition task_init :: "sched \<Rightarrow> console \<Rightarrow> (sched \<times> console) option" where
  "task_init s con = do {
     nm \<leftarrow> strncpy_manual (case tasks s Kernel_Task of None \<Rightarrow> replicate 32 NUL | Some t \<Rightarrow> tk_name t)
             (''kernel_idle'' @ [NUL]) 31;
     let k = \<lparr>tk_pid = 0, tk_name = nm, tk_state = TASK_RUNNING, tk_esp = 0, tk_stack_base = 0,
              tk_vruntime = 0, tk_priority = 0, tk_next = None\<rparr>;
     con \<leftarrow> printk (Some (''Task: Kernel idle task created (pid 0)'' @ [CHR 0x0A, NUL])) [] con;
     Some (s\<lparr>tasks := (tasks s)(Kernel_Task \<mapsto> k), current_task := Some Kernel_Task,
             task_list_head := Some Kernel_Task, next_pid := 1\<rparr>, con)
   }"

text \<open>\<^verbatim>\<open>*(--stack_top) = v\<close> for each of the words, the first one highest.\<close>

fun push_words :: "u32 list \<Rightarrow> u32 \<Rightarrow> (u32 \<Rightarrow> u32) \<Rightarrow> u32 \<times> (u32 \<Rightarrow> u32)" where
  "push_words [] sp m = (sp, m)"
| "push_words (v # vs) sp m = push_words vs (sp - 4) (m(sp - 4 := v))"

text \<open>\<open>old_name\<close> is what the page of the new task holds where its name will be.\<close>

definition task_create ::
  "cptr \<Rightarrow> u32 \<Rightarrow> u32 \<Rightarrow> char list \<Rightarrow> sched \<times> console \<Rightarrow> (u32 \<times> sched \<times> console) option" where
  "task_create name entry priority old_name = (\<lambda>(s, con).
     let (page, p1) = pmm_alloc_page (task_pmm s) in
     if page = 0 then Some (0, s\<lparr>task_pmm := p1\<rparr>, con)
     else do {
       let pid = next_pid s;
       nm \<leftarrow> strncpy_manual old_name (case name of None \<Rightarrow> ''task'' @ [NUL] | Some n \<Rightarrow> n) 31;
       let (stack_base, p2) = pmm_alloc_page p1;
       if stack_base = 0
       then Some (0, s\<lparr>next_pid := pid + 1, task_pmm := pmm_free_page p2 page\<rparr>, con)
       else do {
         let p3 = snd (pmm_alloc_page p2);
         let (sp, words) = push_words ([entry, 0x202] @ replicate 8 0) (stack_base + TASK_STACK_SIZE) (stack_words s);
         let t = \<lparr>tk_pid = pid, tk_name = nm, tk_state = TASK_READY, tk_esp = sp, tk_stack_base = stack_base,
                  tk_vruntime = 0, tk_priority = priority, tk_next = None\<rparr>;
         let s = s\<lparr>tasks := (tasks s)(Page_Task page \<mapsto> t), next_pid := pid + 1, task_pmm := p3, stack_words := words\<rparr>;
         h \<leftarrow> task_list_head s;
         l \<leftarrow> list_end (tasks s) h;
         s \<leftarrow> upd_task l (\<lambda>t. t\<lparr>tk_next := Some (Page_Task page)\<rparr>) s;
         con \<leftarrow> printk (Some (''Task: Created '' @ CHR 0x27 # ''%s'' @ CHR 0x27 # '' (pid %u)'' @ [CHR 0x0A, NUL]))
                  [VA_str (Some nm), VA_word pid] con;
         Some (page, s, con)
       }
     })"

definition task_exit :: "sched \<Rightarrow> sched option" where
  "task_exit s =
     (case current_task s of
        None \<Rightarrow> Some s
      | Some c \<Rightarrow> Option.bind (upd_task c (\<lambda>t. t\<lparr>tk_state := TASK_DEAD\<rparr>) s) schedule)"

definition task_get_current :: "sched \<Rightarrow> task_ref option" where
  "task_get_current s = current_task s"

definition task_yield :: "sched \<Rightarrow> sched option" where
  "task_yield s = schedule s"


section \<open>The list of tasks\<close>

fun task_path :: "(task_ref \<rightharpoonup> task) \<Rightarrow> task_ref option \<Rightarrow> task_ref list \<Rightarrow> bool" where
  "task_path ts p [] \<longleftrightarrow> p = None"
| "task_path ts p (x # xs) \<longleftrightarrow> p = Some x \<and> (\<exists>t. ts x = Some t \<and> task_path ts (tk_next t) xs)"

lemma task_path_upd:
  "x \<notin> set xs \<Longrightarrow> task_path (ts(x \<mapsto> t)) p xs = task_path ts p xs"
  by (induction xs arbitrary: p) auto

lemma task_path_same:
  "(\<And>x. x \<in> set xs \<Longrightarrow> map_option tk_next (us x) = map_option tk_next (ts x)) \<Longrightarrow> task_path us p xs = task_path ts p xs"
proof (induction xs arbitrary: p)
  case (Cons x xs)
  have "map_option tk_next (us x) = map_option tk_next (ts x)" using Cons(2) by simp
  then show ?case using Cons by (cases "us x"; cases "ts x") auto
qed simp

lemma task_path_stored: "task_path ts p xs \<Longrightarrow> x \<in> set xs \<Longrightarrow> ts x \<noteq> None"
  by (induction xs arbitrary: p) auto

lemma task_path_end: "task_path ts p (xs @ [l]) \<Longrightarrow> \<exists>t. ts l = Some t \<and> tk_next t = None"
  by (induction xs arbitrary: p) auto

lemma list_end_path: "task_path ts (Some h) (xs @ [l]) \<Longrightarrow> list_end ts h = Some l"
proof (induction xs arbitrary: h)
  case Nil
  then show ?case by (subst list_end.simps) auto
next
  case (Cons x xs)
  then obtain t where t: "ts h = Some t" "task_path ts (tk_next t) (xs @ [l])" by auto
  then obtain n where "tk_next t = Some n" by (cases xs) auto
  then show ?case using Cons(1) [of n] t by (subst list_end.simps) simp
qed

lemma task_path_append:
  assumes "task_path ts p (xs @ [l])" and "ts r = Some t" and "tk_next t = None" and "r \<notin> set (xs @ [l])"
    and "ts l = Some u" and "l \<notin> set xs"
  shows "task_path (ts(l \<mapsto> u\<lparr>tk_next := Some r\<rparr>)) p (xs @ [l, r])"
  using assms by (induction xs arbitrary: p) (auto simp: task_path_upd)

text \<open>\<open>scheduler_get_task_count\<close> counts the list.\<close>

lemma count_from_path: "task_path ts p xs \<Longrightarrow> count_from ts p n = Some (n + of_nat (length xs))"
proof (induction xs arbitrary: p n)
  case Nil
  then show ?case by (subst count_from.simps) simp
next
  case (Cons x xs)
  then show ?case by (subst count_from.simps) (auto simp: add.assoc)
qed

lemma scheduler_get_task_count_path:
  "task_path (tasks s) (task_list_head s) xs \<Longrightarrow> scheduler_get_task_count s = Some (of_nat (length xs))"
  by (simp add: scheduler_get_task_count_def count_from_path)



section \<open>The task that is picked\<close>

definition task_cand :: "(task_ref \<rightharpoonup> task) \<Rightarrow> task_ref \<Rightarrow> bool" where
  "task_cand ts r \<longleftrightarrow> (case ts r of None \<Rightarrow> False
     | Some t \<Rightarrow> (tk_state t = TASK_READY \<or> tk_state t = TASK_RUNNING) \<and> tk_vruntime t < 0xFFFFFFFF)"

definition task_key :: "(task_ref \<rightharpoonup> task) \<Rightarrow> task_ref \<Rightarrow> u32" where
  "task_key ts r = (case ts r of None \<Rightarrow> 0 | Some t \<Rightarrow> tk_vruntime t)"

text \<open>The loop over the list as a function of the list.\<close>

fun min_fold :: "(task_ref \<rightharpoonup> task) \<Rightarrow> task_ref list \<Rightarrow> task_ref option \<Rightarrow> u32 \<Rightarrow> task_ref option" where
  "min_fold ts [] m v = m"
| "min_fold ts (r # rs) m v =
     (if task_cand ts r \<and> task_key ts r < v then min_fold ts rs (Some r) (task_key ts r) else min_fold ts rs m v)"

lemma min_scan_path:
  "task_path ts p xs \<Longrightarrow> min_scan ts p m v = Some (min_fold ts xs m v)"
proof (induction xs arbitrary: p m v)
  case Nil
  then show ?case by (subst min_scan.simps) simp
next
  case (Cons x xs)
  then obtain t where t: "p = Some x" "ts x = Some t" "task_path ts (tk_next t) xs" by auto
  have "tk_vruntime t < v \<Longrightarrow> tk_vruntime t < 0xFFFFFFFF"
    using u32_unat_lt [of v] by (simp add: word_less_nat_alt)
  then show ?case using t Cons(1) [OF t(3)] by (subst min_scan.simps) (auto simp: task_cand_def task_key_def)
qed












section \<open>What the scheduler never does\<close>

lemmas min_scan_induct = min_scan.raw_induct [rotated 1, consumes 1, case_names step]
lemmas remove_scan_induct = remove_scan.raw_induct [rotated 1, consumes 1, case_names step]

lemma min_scan_zero: "min_scan ts p m v = Some r \<Longrightarrow> v = 0 \<Longrightarrow> r = m"
  by (induction rule: min_scan_induct) (auto split: option.splits bind_splits if_splits)

text \<open>
  The kernel's own task at the head of the list, running and not charged yet: the state that
  \<open>task_init\<close> sets up.
\<close>

definition kernel_first :: "sched \<Rightarrow> bool" where
  "kernel_first s \<longleftrightarrow> current_task s = Some Kernel_Task \<and> task_list_head s = Some Kernel_Task
     \<and> (\<exists>t. tasks s Kernel_Task = Some t \<and> tk_state t = TASK_RUNNING \<and> tk_vruntime t = 0)"

lemma schedule_kernel_first:
  assumes "kernel_first s" and "schedule s = Some s'"
  shows "s' = s"
proof -
  obtain t where t: "tasks s Kernel_Task = Some t" "tk_state t = TASK_RUNNING" "tk_vruntime t = 0"
    using assms(1) by (auto simp: kernel_first_def)
  obtain m where m: "min_scan (tasks s) (Some Kernel_Task) None 0xFFFFFFFF = Some m"
    "s' = s \<or> m \<noteq> Some Kernel_Task"
    using assms t by (auto simp: kernel_first_def schedule_def split: bind_splits option.splits if_splits)
  have "min_scan (tasks s) (tk_next t) (Some Kernel_Task) 0 = Some m"
    using m(1) t by (subst (asm) min_scan.simps) simp
  then show ?thesis using m(2) min_scan_zero by blast
qed

text \<open>
  What can happen after start-up: timer ticks and yields, new tasks, and other tasks that are taken
  off the list or put back.
\<close>

inductive sched_step :: "sched \<Rightarrow> sched \<Rightarrow> bool" where
  tick: "schedule s = Some s' \<Longrightarrow> sched_step s s'"
| create: "task_create name entry priority old_name (s, con) = Some (p, s', con') \<Longrightarrow> sched_step s s'"
| add: "r \<noteq> Kernel_Task \<Longrightarrow> scheduler_add_task (Some r) s = Some s' \<Longrightarrow> sched_step s s'"
| remove: "r \<noteq> Kernel_Task \<Longrightarrow> scheduler_remove_task (Some r) s = Some s' \<Longrightarrow> sched_step s s'"

lemma upd_next_kernel_first:
  "upd_task r (\<lambda>t. t\<lparr>tk_next := n\<rparr>) s = Some s' \<Longrightarrow> kernel_first s \<Longrightarrow> kernel_first s' \<and> switches s' = switches s"
  by (auto simp: kernel_first_def upd_task_def)

lemma remove_scan_kernel_first:
  "remove_scan r h s = Some s' \<Longrightarrow> kernel_first s \<Longrightarrow> kernel_first s' \<and> switches s' = switches s"
proof (induction rule: remove_scan_induct)
  case (step remove_scan r h s s')
  from step.hyps step.prems step.IH show ?case
    by (fastforce dest: upd_next_kernel_first split: bind_splits option.splits if_splits)
qed

lemma sched_step_kernel_first:
  assumes "sched_step s s'" and "kernel_first s"
  shows "kernel_first s' \<and> switches s' = switches s"
  using assms(1)
proof (cases rule: sched_step.cases)
  case tick
  then show ?thesis using schedule_kernel_first assms(2) by blast
next
  case (create name entry priority old_name con p con')
  then show ?thesis using assms(2)
    by (auto simp: task_create_def kernel_first_def upd_task_def Let_def split: prod.splits if_splits bind_splits)
next
  case (add r)
  then show ?thesis using assms(2)
    by (auto simp: scheduler_add_task_def split: option.splits bind_splits sum.splits dest!: upd_next_kernel_first)
next
  case (remove r)
  then show ?thesis using assms(2) remove_scan_kernel_first
    by (auto simp: scheduler_remove_task_def kernel_first_def split: option.splits if_splits)
qed

lemma task_init_kernel_first: "task_init s con = Some (s', con') \<Longrightarrow> kernel_first s' \<and> switches s' = switches s"
  by (auto simp: task_init_def kernel_first_def Let_def split: bind_splits)

text \<open>C13: after \<open>task_init\<close>, whatever tasks are created, added and removed and however often the timer
  calls \<open>schedule\<close>, the kernel's own task keeps the processor: its \<open>vruntime\<close> is only charged when it is
  switched out, so it stays the least and first, and no context switch ever happens.\<close>

theorem scheduler_never_switches:
  assumes "task_init s con = Some (s0, con')" and "sched_step\<^sup>*\<^sup>* s0 s'"
  shows "current_task s' = Some Kernel_Task \<and> switches s' = switches s"
proof -
  have "kernel_first s' \<and> switches s' = switches s"
    using assms(2)
  proof (induction rule: rtranclp_induct)
    case base
    show ?case by (rule task_init_kernel_first [OF assms(1)])
  next
    case (step t u)
    then show ?case using sched_step_kernel_first by simp
  qed
  then show ?thesis by (simp add: kernel_first_def)
qed

section \<open>A new task\<close>

lemma strncpy_manual_eq:
  assumes "NUL \<in> set src" and "room < length dst"
  shows "strncpy_manual dst src room = Some (take room (cstr src) @ NUL # drop (Suc (min room (length (cstr src)))) dst)"
  using assms by (induction dst src room rule: strncpy_manual.induct) (auto simp: take_Cons' min_def)

text \<open>What \<open>context_switch\<close> will pop: eight registers, the flags with interrupts enabled, and the entry point.\<close>

definition initial_frame :: "u32 \<Rightarrow> u32 list" where
  "initial_frame entry = replicate 8 0 @ [0x202, entry]"

definition read_words :: "(u32 \<Rightarrow> u32) \<Rightarrow> u32 \<Rightarrow> nat \<Rightarrow> u32 list" where
  "read_words m a n = map (\<lambda>i. m (a + 4 * of_nat i)) [0..<n]"

lemma push_initial_frame:
  "push_words ([entry, 0x202] @ replicate 8 0) sp m = (sp - 40, snd (push_words ([entry, 0x202] @ replicate 8 0) sp m))"
  "read_words (snd (push_words ([entry, 0x202] @ replicate 8 0) sp m)) (sp - 40) 10 = initial_frame entry"
proof -
  have r: "replicate 8 (0 :: u32) = [0, 0, 0, 0, 0, 0, 0, 0]" by (simp add: eval_nat_numeral)
  have u: "[0..<10] = [0, 1, 2, 3, 4, 5, 6, 7, 8, 9 :: nat]" by (simp add: upt_rec)
  show "push_words ([entry, 0x202] @ replicate 8 0) sp m = (sp - 40, snd (push_words ([entry, 0x202] @ replicate 8 0) sp m))"
    unfolding r by simp
  show "read_words (snd (push_words ([entry, 0x202] @ replicate 8 0) sp m)) (sp - 40) 10 = initial_frame entry"
    unfolding r read_words_def initial_frame_def u by simp
qed

text \<open>\<open>task_create\<close> appends a ready task of its own frame to the list, its stack pointer on the frame that
  \<open>context_switch\<close> pops to start at the entry point with interrupts enabled; no other task changes but for the
  link of the last one.\<close>

theorem task_create_correct:
  assumes "task_path (tasks s) (task_list_head s) (xs @ [l])" and "distinct (xs @ [l])" and "vga_ok con"
    and "pmm_alloc_page (task_pmm s) = (page, p1)" and "page \<noteq> 0" and "Page_Task page \<notin> set (xs @ [l])"
    and "pmm_alloc_page p1 = (sb, p2)" and "sb \<noteq> 0"
    and "NUL \<in> set name" and "length old_name = 32"
  shows "\<exists>s' con' t. task_create (Some name) entry priority old_name (s, con) = Some (page, s', con')
    \<and> task_path (tasks s') (task_list_head s') (xs @ [l, Page_Task page])
    \<and> tasks s' (Page_Task page) = Some t \<and> tk_state t = TASK_READY \<and> tk_pid t = next_pid s
    \<and> cstr (tk_name t) = take 31 (cstr name) \<and> tk_stack_base t = sb
    \<and> read_words (stack_words s') (tk_esp t) 10 = initial_frame entry
    \<and> next_pid s' = next_pid s + 1 \<and> current_task s' = current_task s
    \<and> task_pmm s' = snd (pmm_alloc_page p2)
    \<and> (\<forall>r. r \<noteq> Page_Task page \<longrightarrow> r \<noteq> l \<longrightarrow> tasks s' r = tasks s r)"
proof -
  let ?r = "Page_Task page"
  define nm where "nm = take 31 (cstr name) @ NUL # drop (Suc (min 31 (length (cstr name)))) old_name"
  have nm: "strncpy_manual old_name name 31 = Some nm" using assms(9,10) by (simp add: strncpy_manual_eq nm_def)
  have cn: "cstr nm = take 31 (cstr name)"
    unfolding nm_def by (rule cstr_append_NUL) (meson NUL_notin_cstr in_set_takeD)
  define words where "words = snd (push_words ([entry, 0x202] @ replicate 8 0) (sb + TASK_STACK_SIZE) (stack_words s))"
  define t where "t = \<lparr>tk_pid = next_pid s, tk_name = nm, tk_state = TASK_READY, tk_esp = 8152 + sb,
    tk_stack_base = sb, tk_vruntime = 0, tk_priority = priority, tk_next = None\<rparr>"
  define ts where "ts = (tasks s)(?r \<mapsto> t)"
  have path: "task_path ts (task_list_head s) (xs @ [l])"
    using assms(1) unfolding ts_def by (subst task_path_upd [OF assms(6)])
  obtain h where h: "task_list_head s = Some h" using assms(1) by (cases xs) auto
  obtain u where u: "ts l = Some u" "tk_next u = None" using task_path_end [OF path] by blast
  have le: "list_end ts h = Some l" using list_end_path path h by simp
  have newpath: "task_path (ts(l \<mapsto> u\<lparr>tk_next := Some ?r\<rparr>)) (task_list_head s) (xs @ [l, ?r])"
    by (rule task_path_append [OF path, of _ t]) (use assms(2,6) u in \<open>auto simp: ts_def t_def\<close>)
  obtain con' where con': "printk (Some (''Task: Created '' @ CHR 0x27 # ''%s'' @ CHR 0x27 # '' (pid %u)'' @ [CHR 0x0A, NUL]))
      [VA_str (Some nm), VA_word (next_pid s)] con = Some con'"
    using printk_defined [OF assms(3), of "''Task: Created '' @ CHR 0x27 # ''%s'' @ CHR 0x27 # '' (pid %u)'' @ [CHR 0x0A]"
        "[VA_str (Some nm), VA_word (next_pid s)]"]
    by (auto simp: nm_def)
  define s' where "s' = s\<lparr>tasks := ts(l \<mapsto> u\<lparr>tk_next := Some ?r\<rparr>), next_pid := next_pid s + 1,
    task_pmm := snd (pmm_alloc_page p2), stack_words := words\<rparr>"
  have fr: "push_words (entry # 0x202 # replicate 8 0) (sb + TASK_STACK_SIZE) (stack_words s)
      = (sb + TASK_STACK_SIZE - 40, words)"
    using push_initial_frame(1) [of entry "sb + TASK_STACK_SIZE" "stack_words s"] by (simp add: words_def)
  have "task_create (Some name) entry priority old_name (s, con) = Some (page, s', con')"
    using assms(4,5,7,8) nm h le u con' fr
    by (simp add: task_create_def Let_def upd_task_def s'_def ts_def [symmetric] t_def [symmetric] del: fun_upd_apply)
  moreover have "l \<noteq> ?r" using assms(6) by auto
  moreover have rd: "read_words words (8152 + sb) 10 = initial_frame entry"
  proof -
    have "sb + TASK_STACK_SIZE - 40 = 8152 + sb" by simp
    then show ?thesis
      using push_initial_frame(2) [of entry "sb + TASK_STACK_SIZE" "stack_words s"] unfolding words_def by (simp only:)
  qed
  ultimately show ?thesis
    using newpath cn rd
    by (intro exI [of _ s'] exI [of _ con'] exI [of _ t]) (simp add: s'_def ts_def t_def)
qed


section \<open>Witnesses\<close>

definition sched_blank :: sched where
  "sched_blank = \<lparr>tasks = Map.empty, current_task = None, task_list_head = None, next_pid = 0,
     task_pmm = \<lparr>bitmap = [0xFFFFFFE1], total_pages = 8, free_pages = 4\<rparr>, stack_words = (\<lambda>a. 0), switches = []\<rparr>"

definition idle_task :: task where
  "idle_task = \<lparr>tk_pid = 0, tk_name = ''kernel_idle'' @ replicate 21 NUL, tk_state = TASK_RUNNING, tk_esp = 0,
     tk_stack_base = 0, tk_vruntime = 0, tk_priority = 0, tk_next = None\<rparr>"

definition sched_booted :: sched where
  "sched_booted = sched_blank\<lparr>tasks := [Kernel_Task \<mapsto> idle_task], current_task := Some Kernel_Task,
     task_list_head := Some Kernel_Task, next_pid := 1\<rparr>"




theorem scheduler_never_switches_witness:
  "\<exists>s0 con' s'. task_init sched_blank console_example = Some (s0, con') \<and> sched_step s0 s'
     \<and> current_task s' = Some Kernel_Task"
proof -
  obtain con' where con': "printk (Some (''Task: Kernel idle task created (pid 0)'' @ [CHR 0x0A, NUL])) [] console_example = Some con'"
    using printk_defined [OF console_example_ok, of "''Task: Kernel idle task created (pid 0)'' @ [CHR 0x0A]" "[]"] by auto
  have i: "task_init sched_blank console_example = Some (sched_booted, con')"
  proof -
    have "strncpy_manual (replicate 32 NUL) (''kernel_idle'' @ [NUL]) 31 = Some (''kernel_idle'' @ replicate 21 NUL)"
      by code_simp
    then show ?thesis using con'
      by (simp add: task_init_def sched_blank_def sched_booted_def idle_task_def Let_def)
  qed
  have st: "sched_step sched_booted sched_booted"
  proof (rule sched_step.tick)
    have "task_path (tasks sched_booted) (Some Kernel_Task) [Kernel_Task]" by (simp add: sched_booted_def idle_task_def)
    note min_scan_path [OF this, of None "0xFFFFFFFF"]
    moreover have "min_fold (tasks sched_booted) [Kernel_Task] None 0xFFFFFFFF = Some Kernel_Task"
      by (simp add: sched_booted_def idle_task_def task_cand_def task_key_def)
    moreover have "current_task sched_booted = Some Kernel_Task" "task_list_head sched_booted = Some Kernel_Task"
      "tasks sched_booted Kernel_Task = Some idle_task" "tk_state idle_task = TASK_RUNNING"
      by (simp_all add: sched_booted_def idle_task_def)
    ultimately show "schedule sched_booted = Some sched_booted" by (simp add: schedule_def)
  qed
  show ?thesis using scheduler_never_switches [OF i r_into_rtranclp [of sched_step, OF st]] i st by blast
qed

theorem task_create_correct_witness:
  "\<exists>s' con' t. task_create (Some (''job'' @ [NUL])) 0x100000 5 (replicate 32 NUL) (sched_booted, console_example)
      = Some (0x1000, s', con')
    \<and> task_path (tasks s') (task_list_head s') [Kernel_Task, Page_Task 0x1000]
    \<and> tasks s' (Page_Task 0x1000) = Some t \<and> read_words (stack_words s') (tk_esp t) 10 = initial_frame 0x100000"
proof -
  have a: "pmm_alloc_page (task_pmm sched_booted) = (0x1000, \<lparr>bitmap = [0xFFFFFFE3], total_pages = 8, free_pages = 3\<rparr>)"
    unfolding sched_booted_def sched_blank_def by code_simp
  have b: "pmm_alloc_page \<lparr>bitmap = [0xFFFFFFE3], total_pages = 8, free_pages = 3\<rparr>
      = (0x2000, \<lparr>bitmap = [0xFFFFFFE7], total_pages = 8, free_pages = 2\<rparr>)" by code_simp
  show ?thesis
    using task_create_correct [of sched_booted "[]" Kernel_Task console_example "0x1000" _ "0x2000"
        "\<lparr>bitmap = [0xFFFFFFE7], total_pages = 8, free_pages = 2\<rparr>" "''job'' @ [NUL]" "replicate 32 NUL" "0x100000" 5]
      a b console_example_ok
    by (force simp: sched_booted_def idle_task_def)
qed

end
