(* ===== verification/Address_Space.thy ===== *)
theory Address_Space
  imports Virt_Memory Kernel_Heap Console
begin

text \<open>
  What the parts of the kernel that build address spaces share: the loop that takes a frame for each
  page of a region and maps it (\<^verbatim>\<open>process_create\<close>, \<^verbatim>\<open>sys_sbrk_impl\<close>, \<^verbatim>\<open>sys_mmap_impl\<close>), access to
  memory through the page tables, and the state in which memory managers, heap and console work
  together: they use one frame allocator, \<open>k_pmm\<close>, which replaces the ones in the components'
  own records.
\<close>

section \<open>Mapping fresh frames\<close>

text \<open>\<^verbatim>\<open>for (p = 0; p < n; p++) { paddr = pmm_alloc_page(); if (paddr) vmm_map_page(base + p * 4096, paddr, flags); }\<close>\<close>

primrec map_fresh :: "nat \<Rightarrow> u32 \<Rightarrow> u32 \<Rightarrow> vm \<Rightarrow> vm" where
  "map_fresh 0 base flags s = s"
| "map_fresh (Suc n) base flags s =
     (let (paddr, p) = pmm_alloc_page (phys_mgr s); s = s\<lparr>phys_mgr := p\<rparr>
      in map_fresh n (base + 4096) flags (if paddr \<noteq> 0 then vmm_map_page base paddr flags s else s))"

text \<open>\<^verbatim>\<open>for (i = 0; i < n; i++) vmm_unmap_page(addr + i * 4096);\<close>\<close>

primrec unmap_range :: "nat \<Rightarrow> u32 \<Rightarrow> vm \<Rightarrow> vm" where
  "unmap_range 0 addr s = s"
| "unmap_range (Suc n) addr s = unmap_range n (addr + 4096) (vmm_unmap_page addr s)"

text \<open>The loop of \<open>process_create\<close> that maps a range to itself.\<close>

primrec map_identity :: "nat \<Rightarrow> u32 \<Rightarrow> u32 \<Rightarrow> vm \<Rightarrow> vm" where
  "map_identity 0 addr flags s = s"
| "map_identity (Suc n) addr flags s = map_identity n (addr + 4096) flags (vmm_map_page addr addr flags s)"

definition page_of :: "u32 \<Rightarrow> u32" where
  "page_of v = drop_bit 12 v"

definition region :: "u32 \<Rightarrow> nat \<Rightarrow> u32 set" where
  "region base n = (\<lambda>i. page_of (base + 4096 * of_nat i)) ` {..<n}"

lemma region_0 [simp]: "region base 0 = {}"
  by (simp add: region_def)

lemma region_Suc: "region base (Suc n) = insert (page_of base) (region (base + 4096) n)"
proof -
  have "page_of (base + 4096 * of_nat (Suc i)) = page_of (base + 4096 + 4096 * of_nat i)" for i
    by (simp add: algebra_simps)
  then show ?thesis
    unfolding region_def lessThan_Suc_eq_insert_0 image_insert image_image by simp
qed

lemma unat_page_of: "unat (page_of v) = unat v div 4096"
  by (simp add: page_of_def drop_bit_eq_div unat_div)

lemma unat_page_of_add:
  "unat (page_of (base + 4096 * of_nat i)) = (unat base div 4096 + i) mod 2 ^ 20"
proof -
  have "unat (base + 4096 * of_nat i) = (unat base + 4096 * i) mod 2 ^ 32"
    by (simp add: unat_word_ariths unsigned_of_nat take_bit_nat_def mod_add_right_eq mod_mult_right_eq)
  then have "unat (page_of (base + 4096 * of_nat i)) = (unat base + 4096 * i) mod (4096 * 2 ^ 20) div 4096"
    by (simp add: unat_page_of)
  also have "\<dots> = (unat base + 4096 * i) div 4096 mod 2 ^ 20" by (rule mod_mult2_eq [THEN arg_cong, THEN trans]) simp
  finally show ?thesis by (simp add: add.commute)
qed


lemma mod_shift_neq: "q < M \<Longrightarrow> 0 < k \<Longrightarrow> k < M \<Longrightarrow> (q + k) mod M \<noteq> (q :: nat)"
  by (cases "q + k < M") (simp_all add: le_mod_geq)

lemma page_of_region:
  assumes "n \<le> 2 ^ 20"
  shows "page_of base \<notin> region (base + 4096) (n - 1)"
proof
  assume "page_of base \<in> region (base + 4096) (n - 1)"
  then obtain i where i: "i < n - 1" "page_of base = page_of (base + 4096 + 4096 * of_nat i)"
    by (auto simp: region_def)
  then have "unat (page_of (base + 4096 * of_nat 0)) = unat (page_of (base + 4096 * of_nat (Suc i)))"
    by (simp add: algebra_simps)
  then have eq: "(unat base div 4096) mod 2 ^ 20 = (unat base div 4096 + Suc i) mod 2 ^ 20"
    unfolding unat_page_of_add by simp
  have b: "unat base div 4096 < 2 ^ 20" using u32_unat_lt [of base] by simp
  have "Suc i < 2 ^ 20" using i(1) assms by simp
  then show False using eq b mod_shift_neq [of "unat base div 4096" "2 ^ 20" "Suc i"] by simp
qed

lemma vmm_phys_mgr_simps [simp]:
  "vmm_pte (s\<lparr>phys_mgr := p\<rparr>) = vmm_pte s" "page_directory (s\<lparr>phys_mgr := p\<rparr>) = page_directory s"
  "pde_present (s\<lparr>phys_mgr := p\<rparr>) = pde_present s" "vmm_pde (s\<lparr>phys_mgr := p\<rparr>) = vmm_pde s"
  by (auto simp: vmm_pte_def pde_present_def vmm_pde_def fun_eq_iff)

lemma vmm_inv_alloc:
  assumes "vmm_inv s" and "pmm_alloc_page (phys_mgr s) = (a, p)"
  shows "vmm_inv (s\<lparr>phys_mgr := p\<rparr>)" "free_frames p = free_frames (phys_mgr s) - {a}" "pmm_inv p"
proof -
  have inv: "pmm_inv (phys_mgr s)" using assms(1) by (simp add: vmm_inv_def)
  show p: "pmm_inv p" by (rule pmm_frames.alloc_inv [OF inv assms(2)])
  show f: "free_frames p = free_frames (phys_mgr s) - {a}" by (rule pmm_frames.alloc_frames [OF inv assms(2)])
  show "vmm_inv (s\<lparr>phys_mgr := p\<rparr>)"
    using assms(1) p f vmm_invD [OF assms(1)] by (intro vmm_invI) (auto simp: vmm_inv_def)
qed

lemma vmm_map_page_frames:
  assumes "vmm_inv s"
  shows "\<exists>a. free_frames (phys_mgr (vmm_map_page v p f s)) = free_frames (phys_mgr s) - {a}"
proof -
  have inv: "pmm_inv (phys_mgr s)" using assms by (simp add: vmm_inv_def)
  then have z: "0 \<notin> free_frames (phys_mgr s)" using pmm_frames.frames_aligned by blast
  obtain a q where a: "pmm_alloc_page (phys_mgr s) = (a, q)" by fastforce
  have "free_frames q = free_frames (phys_mgr s) - {a}" by (rule pmm_frames.alloc_frames [OF inv a])
  moreover have "phys_mgr (vmm_map_page v p f s) \<in> {q, phys_mgr s}"
    using a by (auto simp: vmm_map_page_def vmm_ensure_table_def Let_def invlpg_def)
  ultimately show ?thesis using z by (auto intro: exI [of _ 0])
qed

definition fresh_pte :: "u32 \<Rightarrow> u32 \<Rightarrow> u32" where
  "fresh_pte flags frame = frame OR flags OR VMM_PRESENT"

lemma frame_aligned_mask: "frame_aligned a \<Longrightarrow> a AND 0xFFFFF000 = a"
proof -
  assume "frame_aligned a"
  then have "a AND mask 12 = 0" by (simp add: frame_aligned_def offset_mask)
  moreover have "a = (a AND mask 12) OR (a AND NOT (mask 12))"
    by (simp add: bit.conj_disj_distrib [symmetric])
  ultimately show ?thesis unfolding frame_mask by simp
qed

text \<open>
  The loop: with frames enough for the pages and their tables, each page of the region is mapped to
  a frame of its own that was free before, and no other page changes.
\<close>

lemma map_fresh_correct:
  assumes "vmm_inv s" and "2 * n \<le> card (free_frames (phys_mgr s))" and "n \<le> 2 ^ 20"
  shows "vmm_inv (map_fresh n base flags s)
    \<and> page_directory (map_fresh n base flags s) = page_directory s
    \<and> free_frames (phys_mgr (map_fresh n base flags s)) \<subseteq> free_frames (phys_mgr s)
    \<and> (\<exists>frame. inj_on frame (region base n)
        \<and> frame ` region base n \<subseteq> free_frames (phys_mgr s) - free_frames (phys_mgr (map_fresh n base flags s))
        \<and> (\<forall>w. vmm_pte (map_fresh n base flags s) w
             = (if page_of w \<in> region base n then fresh_pte flags (frame (page_of w)) else vmm_pte s w)))"
  using assms
proof (induction n arbitrary: base s)
  case 0
  then show ?case by simp
next
  case (Suc n)
  let ?F = "free_frames (phys_mgr s)"
  have inv: "pmm_inv (phys_mgr s)" using Suc.prems(1) by (simp add: vmm_inv_def)
  have fin: "finite ?F" by (rule pmm_frames.frames_finite [OF inv])
  obtain a p where a: "pmm_alloc_page (phys_mgr s) = (a, p)" by fastforce
  note t = vmm_inv_alloc [OF Suc.prems(1) a]
  let ?t = "s\<lparr>phys_mgr := p\<rparr>"
  have ne: "?F \<noteq> {}" using Suc.prems(2) by auto
  have a0: "a \<noteq> 0" using pmm_frames.alloc_fail [OF inv] a ne by auto
  have aF: "a \<in> ?F" using pmm_frames.alloc_take [OF inv a a0] by simp
  have cp: "2 * n + 1 \<le> card (free_frames p)" using Suc.prems(2) aF fin t(2) by simp
  then have "free_frames p \<noteq> {}" by auto
  then have room: "map_room base ?t" by (simp add: map_room_def)
  define u where "u = vmm_map_page base a flags ?t"
  note u = vmm_map_page_pte [OF t(1) room u_def]
  obtain b where b: "free_frames (phys_mgr u) = free_frames p - {b}"
    using vmm_map_page_frames [OF t(1), of base a flags] unfolding u_def by auto
  have cu: "2 * n \<le> card (free_frames (phys_mgr u))"
    using cp b card_Diff_singleton_if [of "free_frames p" b] by (auto split: if_splits)
  have "n \<le> 2 ^ 20" using Suc.prems(3) by simp
  note ih = Suc.IH [OF u(1) cu this, of "base + 4096"]
  define s' where "s' = map_fresh n (base + 4096) flags u"
  have eq: "map_fresh (Suc n) base flags s = s'" using a a0 by (simp add: s'_def u_def Let_def)
  obtain frame where fr: "inj_on frame (region (base + 4096) n)"
    "frame ` region (base + 4096) n \<subseteq> free_frames (phys_mgr u) - free_frames (phys_mgr s')"
    "\<And>w. vmm_pte s' w = (if page_of w \<in> region (base + 4096) n then fresh_pte flags (frame (page_of w)) else vmm_pte u w)"
    using ih unfolding s'_def by blast
  have sub: "free_frames (phys_mgr s') \<subseteq> free_frames (phys_mgr u)" using ih unfolding s'_def by blast
  have notin: "page_of base \<notin> region (base + 4096) n" using page_of_region [OF Suc.prems(3), of base] by simp
  have am: "a AND 0xFFFFF000 = a" by (rule frame_aligned_mask [OF free_frame_aligned [OF inv aF]])
  define fr' where "fr' = frame(page_of base := a)"
  have img: "fr' ` region (base + 4096) n = frame ` region (base + 4096) n"
    using notin by (auto simp: fr'_def)
  have au: "a \<notin> free_frames (phys_mgr u)" using b t(2) by simp
  have "inj_on fr' (region base (Suc n))"
    unfolding region_Suc
    using fr(1,2) notin au by (auto simp: fr'_def inj_on_def)
  moreover have "fr' ` region base (Suc n) \<subseteq> ?F - free_frames (phys_mgr s')"
    unfolding region_Suc image_insert img using fr(2) b t(2) aF au sub by (auto simp: fr'_def)
  moreover have "vmm_pte s' w = (if page_of w \<in> region base (Suc n) then fresh_pte flags (fr' (page_of w)) else vmm_pte s w)" for w
    unfolding region_Suc using fr(3) [of w] u(4) [of w] notin am
    by (auto simp: fr'_def page_of_def fresh_pte_def)
  moreover have "vmm_inv s'" "page_directory s' = page_directory s" "free_frames (phys_mgr s') \<subseteq> ?F"
    using ih u(2) b t(2) sub unfolding s'_def by auto
  ultimately show ?case unfolding eq by blast
qed


lemma unmap_range_correct:
  "vmm_inv s \<Longrightarrow> vmm_inv (unmap_range n base s)
    \<and> (\<forall>w. vmm_pte (unmap_range n base s) w = (if page_of w \<in> region base n then 0 else vmm_pte s w))"
proof (induction n arbitrary: base s)
  case (Suc n)
  note u = vmm_unmap_page_pte [OF Suc.prems refl, of base]
  show ?case using Suc.IH [OF u(1), of "base + 4096"] u(3) by (auto simp: region_Suc page_of_def)
qed simp

lemma map_identity_correct:
  assumes "vmm_inv s" and "n \<le> card (free_frames (phys_mgr s))"
  shows "vmm_inv (map_identity n base flags s)
    \<and> (\<forall>w. page_of w \<notin> region base n \<longrightarrow> vmm_pte (map_identity n base flags s) w = vmm_pte s w)
    \<and> card (free_frames (phys_mgr s)) \<le> card (free_frames (phys_mgr (map_identity n base flags s))) + n
    \<and> free_frames (phys_mgr (map_identity n base flags s)) \<subseteq> free_frames (phys_mgr s)"
  using assms
proof (induction n arbitrary: base s)
  case (Suc n)
  let ?u = "vmm_map_page base base flags s"
  have fin: "finite (free_frames (phys_mgr s))"
    by (rule pmm_frames.frames_finite) (use Suc.prems(1) in \<open>simp add: vmm_inv_def\<close>)
  have "map_room base s" using Suc.prems(2) by (auto simp: map_room_def)
  note u = vmm_map_page_pte [OF Suc.prems(1) this refl, of base flags]
  obtain b where b: "free_frames (phys_mgr ?u) = free_frames (phys_mgr s) - {b}"
    using vmm_map_page_frames [OF Suc.prems(1), of base base flags] by auto
  have c: "card (free_frames (phys_mgr s)) \<le> card (free_frames (phys_mgr ?u)) + 1"
    using diff_card_le_card_Diff [of "{b}" "free_frames (phys_mgr s)"] unfolding b by simp
  then have "n \<le> card (free_frames (phys_mgr ?u))" using Suc.prems(2) by simp
  note ih = Suc.IH [OF u(1) this, of "base + 4096"]
  have "free_frames (phys_mgr ?u) \<subseteq> free_frames (phys_mgr s)" unfolding b by blast
  with ih u(4) c show ?case by (auto simp: region_Suc page_of_def)
qed simp

section \<open>The memory managers, the heap and the console together\<close>

record kern =
  k_pmm :: pmm
  k_heap :: heap
  k_vm :: vm
  k_con :: console

text \<open>A call that may panic (\<^term>\<open>Inl\<close> and the message) followed by the rest.\<close>

definition obind :: "'a outcome \<Rightarrow> ('a \<Rightarrow> 'b outcome) \<Rightarrow> 'b outcome" where
  "obind m f = (case m of None \<Rightarrow> None | Some (Inl e) \<Rightarrow> Some (Inl e) | Some (Inr a) \<Rightarrow> f a)"

lemma obind_simps [simp]:
  "obind None f = None" "obind (Some (Inl e)) f = Some (Inl e)" "obind (Some (Inr a)) f = f a"
  by (simp_all add: obind_def)

lemma obind_Some_Inr:
  "obind m f = Some (Inr b) \<longleftrightarrow> (\<exists>a. m = Some (Inr a) \<and> f a = Some (Inr b))"
  by (auto simp: obind_def split: option.splits sum.splits)

definition no_panic :: "'a option \<Rightarrow> 'a outcome" where
  "no_panic m = map_option Inr m"

lemma no_panic_simps [simp]: "no_panic None = None" "no_panic (Some a) = Some (Inr a)"
  by (simp_all add: no_panic_def)

definition k_kmalloc :: "u32 \<Rightarrow> 'a kern_scheme \<Rightarrow> (u32 \<times> 'a kern_scheme) outcome" where
  "k_kmalloc sz k = obind (kmalloc sz ((k_heap k)\<lparr>heap_pmm := k_pmm k\<rparr>))
     (\<lambda>(p, h). Some (Inr (p, k\<lparr>k_heap := h, k_pmm := heap_pmm h\<rparr>)))"

definition k_kfree :: "u32 \<Rightarrow> 'a kern_scheme \<Rightarrow> 'a kern_scheme outcome" where
  "k_kfree p k = obind (kfree p ((k_heap k)\<lparr>heap_pmm := k_pmm k\<rparr>))
     (\<lambda>h. Some (Inr (k\<lparr>k_heap := h, k_pmm := heap_pmm h\<rparr>)))"

definition k_alloc_page :: "'a kern_scheme \<Rightarrow> u32 \<times> 'a kern_scheme" where
  "k_alloc_page k = (let (a, p) = pmm_alloc_page (k_pmm k) in (a, k\<lparr>k_pmm := p\<rparr>))"

definition k_on_vm :: "(vm \<Rightarrow> vm) \<Rightarrow> 'a kern_scheme \<Rightarrow> 'a kern_scheme" where
  "k_on_vm f k = (let v = f ((k_vm k)\<lparr>phys_mgr := k_pmm k\<rparr>) in k\<lparr>k_vm := v, k_pmm := phys_mgr v\<rparr>)"

definition k_printk :: "char list \<Rightarrow> va_arg list \<Rightarrow> 'a kern_scheme \<Rightarrow> 'a kern_scheme option" where
  "k_printk fmt args k = map_option (\<lambda>c. k\<lparr>k_con := c\<rparr>) (printk (Some (fmt @ [NUL])) args (k_con k))"

lemma k_printk_ok:
  assumes "vga_ok (k_con k)" and "NUL \<notin> set fmt" and "printk_text fmt args = Some out"
  obtains c where "k_printk fmt args k = Some (k\<lparr>k_con := c\<rparr>)" and "vga_ok c"
  using printk_defined [OF assms] by (auto simp: k_printk_def)

section \<open>Memory through the page tables\<close>

text \<open>
  An access at a virtual address reaches the byte at the physical address that the tables give; the
  bytes are those of the heap's store, which the kernel addresses directly.  Without a translation the
  access is a page fault, \<^term>\<open>None\<close>.
\<close>

definition virt_write :: "u32 \<Rightarrow> u8 \<Rightarrow> 'a kern_scheme \<Rightarrow> 'a kern_scheme option" where
  "virt_write v b k =
     (let p = vmm_get_phys v (k_vm k)
      in if p = 0 then None else Some (k\<lparr>k_heap := (k_heap k)\<lparr>bytes := (bytes (k_heap k))(p := b)\<rparr>\<rparr>))"

definition virt_read :: "u32 \<Rightarrow> 'a kern_scheme \<Rightarrow> u8 option" where
  "virt_read v k = (let p = vmm_get_phys v (k_vm k) in if p = 0 then None else Some (bytes (k_heap k) p))"

text \<open>\<^verbatim>\<open>memset((void*)v, c, n)\<close> and \<^verbatim>\<open>memcpy((void*)v, data + off, n)\<close>.\<close>

primrec virt_fill :: "nat \<Rightarrow> u32 \<Rightarrow> u8 \<Rightarrow> 'a kern_scheme \<Rightarrow> 'a kern_scheme option" where
  "virt_fill 0 v c k = Some k"
| "virt_fill (Suc n) v c k = Option.bind (virt_write v c k) (virt_fill n (v + 1) c)"

primrec virt_copy :: "nat \<Rightarrow> u32 \<Rightarrow> u8 list \<Rightarrow> nat \<Rightarrow> 'a kern_scheme \<Rightarrow> 'a kern_scheme option" where
  "virt_copy 0 v data off k = Some k"
| "virt_copy (Suc n) v data off k =
     (if off < length data then Option.bind (virt_write v (data ! off) k) (virt_copy n (v + 1) data (Suc off)) else None)"

text \<open>Each page takes at most two frames.\<close>

lemma map_fresh_card:
  assumes "vmm_inv s" and "2 * n \<le> card (free_frames (phys_mgr s))"
  shows "card (free_frames (phys_mgr s)) \<le> card (free_frames (phys_mgr (map_fresh n base flags s))) + 2 * n"
  using assms
proof (induction n arbitrary: base s)
  case (Suc n)
  have inv: "pmm_inv (phys_mgr s)" using Suc.prems(1) by (simp add: vmm_inv_def)
  obtain a p where a: "pmm_alloc_page (phys_mgr s) = (a, p)" by fastforce
  note t = vmm_inv_alloc [OF Suc.prems(1) a]
  let ?t = "s\<lparr>phys_mgr := p\<rparr>"
  have "free_frames (phys_mgr s) \<noteq> {}" using Suc.prems(2) by auto
  then have a0: "a \<noteq> 0" using pmm_frames.alloc_fail [OF inv] a by auto
  have cp: "card (free_frames (phys_mgr s)) \<le> card (free_frames p) + 1"
    using diff_card_le_card_Diff [of "{a}" "free_frames (phys_mgr s)"] t(2) by simp
  then have "0 < card (free_frames p)" using Suc.prems(2) by simp
  then have room: "map_room base ?t" by (auto simp: map_room_def)
  define u where "u = vmm_map_page base a flags ?t"
  note u = vmm_map_page_pte [OF t(1) room u_def]
  obtain b where b: "free_frames (phys_mgr u) = free_frames p - {b}"
    using vmm_map_page_frames [OF t(1), of base a flags] unfolding u_def by auto
  have cu: "card (free_frames p) \<le> card (free_frames (phys_mgr u)) + 1"
    using diff_card_le_card_Diff [of "{b}" "free_frames p"] unfolding b by simp
  then have "2 * n \<le> card (free_frames (phys_mgr u))" using cp Suc.prems(2) by simp
  from Suc.IH [OF u(1) this, of "base + 4096"] cu cp
  have "card (free_frames (phys_mgr s)) \<le> card (free_frames (phys_mgr (map_fresh n (base + 4096) flags u))) + 2 * Suc n"
    by simp
  then show ?case using a a0 by (simp add: u_def Let_def)
qed simp

lemma region_iff:
  assumes "unat base div 4096 + n \<le> 2 ^ 20"
  shows "page_of w \<in> region base n \<longleftrightarrow> unat base div 4096 \<le> unat w div 4096 \<and> unat w div 4096 < unat base div 4096 + n"
proof -
  have m: "unat (page_of (base + 4096 * of_nat i)) = unat base div 4096 + i" if "i < n" for i
    using that assms unfolding unat_page_of_add by simp
  have "page_of w \<in> region base n \<longleftrightarrow> (\<exists>i<n. unat (page_of w) = unat (page_of (base + 4096 * of_nat i)))"
    by (auto simp: region_def word_eq_unat_iff)
  also have "\<dots> \<longleftrightarrow> (\<exists>i<n. unat w div 4096 = unat base div 4096 + i)"
    by (simp add: m [unfolded unat_page_of] unat_page_of cong: conj_cong)
  also have "\<dots> \<longleftrightarrow> unat base div 4096 \<le> unat w div 4096 \<and> unat w div 4096 < unat base div 4096 + n"
    by (auto intro: exI [of _ "unat w div 4096 - unat base div 4096"])
  finally show ?thesis .
qed

lemma fresh_pte_phys:
  assumes "flags AND 0xFFFFF000 = 0" and "frame_aligned a"
  shows "fresh_pte flags a AND 0xFFFFF000 = a" and "fresh_pte flags a AND VMM_PRESENT \<noteq> 0"
  using pte_masks [OF assms(1), of a] frame_aligned_mask [OF assms(2)] by (simp_all add: fresh_pte_def)

text \<open>The same as \<open>map_fresh_correct\<close>, in terms of translations.\<close>

lemma map_fresh_phys:
  assumes "vmm_inv s" and "2 * n \<le> card (free_frames (phys_mgr s))" and "n \<le> 2 ^ 20" and "flags AND 0xFFFFF000 = 0"
  shows "\<exists>frame. inj_on frame (region base n)
        \<and> frame ` region base n \<subseteq> free_frames (phys_mgr s) - free_frames (phys_mgr (map_fresh n base flags s))
        \<and> (\<forall>w. vmm_get_phys w (map_fresh n base flags s)
             = (if page_of w \<in> region base n then frame (page_of w) OR (w AND 0xFFF) else vmm_get_phys w s))"
proof -
  obtain frame where f: "inj_on frame (region base n)"
    "frame ` region base n \<subseteq> free_frames (phys_mgr s) - free_frames (phys_mgr (map_fresh n base flags s))"
    "\<And>w. vmm_pte (map_fresh n base flags s) w
             = (if page_of w \<in> region base n then fresh_pte flags (frame (page_of w)) else vmm_pte s w)"
    using map_fresh_correct [OF assms(1-3)] by blast
  have inv: "pmm_inv (phys_mgr s)" using assms(1) by (simp add: vmm_inv_def)
  have al: "frame_aligned (frame q)" if "q \<in> region base n" for q
    using that f(2) free_frame_aligned [OF inv] by blast
  have "vmm_get_phys w (map_fresh n base flags s)
      = (if page_of w \<in> region base n then frame (page_of w) OR (w AND 0xFFF) else vmm_get_phys w s)" for w
    using fresh_pte_phys [OF assms(4) al] by (simp add: vmm_get_phys_pte f(3))
  then show ?thesis using f(1,2) by blast
qed

end
