(* ===== verification/User_Process.thy ===== *)
theory User_Process
  imports Address_Space Pick_Min
begin

text \<open>
  User processes: the loader \<^verbatim>\<open>kernel/elf_loader.c\<close>, the process table \<^verbatim>\<open>kernel/process.c\<close> and the
  process scheduler \<^verbatim>\<open>kernel/scheduler_process.c\<close>.  A \<^verbatim>\<open>process_t\<close> lives in a heap block; \<open>procs\<close>
  maps its address to its fields and loses the entry when the block is freed, so that using a
  freed process is \<^term>\<open>None\<close>.  The fields of the processes are kept apart from the bytes of memory: what
  a write through an address of a process record would do to it is outside the model.

  \<^verbatim>\<open>enter_userspace\<close> is assembly that ends in \<^verbatim>\<open>iret\<close> and does not return.  A call is recorded in
  \<open>entered\<close>, and the state it gives is the one in which the program is entered.  \<open>schedule_process\<close>,
  \<open>sched_proc_tick\<close> and \<open>process_exit\<close> call it last, so this is the state they leave; their callers have to
  look at \<open>entered\<close> before they go on, as \<open>irq_handler\<close> does.
\<close>

section \<open>Reading the ELF image\<close>

definition rd8 :: "u8 list \<Rightarrow> nat \<Rightarrow> u8 option" where
  "rd8 d i = (if i < length d then Some (d ! i) else None)"

definition rd16 :: "u8 list \<Rightarrow> nat \<Rightarrow> u16 option" where
  "rd16 d i = do { a \<leftarrow> rd8 d i; b \<leftarrow> rd8 d (i + 1); Some (ucast a OR push_bit 8 (ucast b)) }"

definition rd32 :: "u8 list \<Rightarrow> nat \<Rightarrow> u32 option" where
  "rd32 d i = do { a \<leftarrow> rd16 d i; b \<leftarrow> rd16 d (i + 2); Some (ucast a OR push_bit 16 (ucast b)) }"

text \<open>The fields of \<^verbatim>\<open>elf32_header_t\<close> and \<^verbatim>\<open>elf32_phdr_t\<close> that are used, at their offsets.\<close>

definition e_type :: "u8 list \<Rightarrow> u16 option" where "e_type d = rd16 d 16"
definition e_machine :: "u8 list \<Rightarrow> u16 option" where "e_machine d = rd16 d 18"
definition e_entry :: "u8 list \<Rightarrow> u32 option" where "e_entry d = rd32 d 24"
definition e_phoff :: "u8 list \<Rightarrow> u32 option" where "e_phoff d = rd32 d 28"
definition e_shoff :: "u8 list \<Rightarrow> u32 option" where "e_shoff d = rd32 d 32"
definition e_phnum :: "u8 list \<Rightarrow> u16 option" where "e_phnum d = rd16 d 44"
definition e_shnum :: "u8 list \<Rightarrow> u16 option" where "e_shnum d = rd16 d 48"

record elf32_phdr =
  p_type :: u32
  p_offset :: u32
  p_vaddr :: u32
  p_filesz :: u32
  p_memsz :: u32
  p_flags :: u32

definition read_phdr :: "u8 list \<Rightarrow> nat \<Rightarrow> elf32_phdr option" where
  "read_phdr d i = do {
     ty \<leftarrow> rd32 d i; off \<leftarrow> rd32 d (i + 4); va \<leftarrow> rd32 d (i + 8);
     fsz \<leftarrow> rd32 d (i + 16); msz \<leftarrow> rd32 d (i + 20); fl \<leftarrow> rd32 d (i + 24);
     Some \<lparr>p_type = ty, p_offset = off, p_vaddr = va, p_filesz = fsz, p_memsz = msz, p_flags = fl\<rparr> }"

abbreviation (input) ELF_MAGIC :: u32 where "ELF_MAGIC \<equiv> 0x464C457F"
abbreviation (input) PT_LOAD :: u32 where "PT_LOAD \<equiv> 1"
abbreviation (input) PF_W :: u32 where "PF_W \<equiv> 2"

definition elf_validate :: "u8 list option \<Rightarrow> u32 \<Rightarrow> bool option" where
  "elf_validate data sz =
     (case data of
        None \<Rightarrow> Some False
      | Some d \<Rightarrow>
          if sz < 52 then Some False
          else do {
            magic \<leftarrow> rd32 d 0;
            if magic \<noteq> ELF_MAGIC then Some False
            else do {
              cls \<leftarrow> rd8 d 4;
              if cls \<noteq> 1 then Some False
              else do {
                enc \<leftarrow> rd8 d 5;
                if enc \<noteq> 1 then Some False
                else do { ty \<leftarrow> e_type d; Some (\<not> (ty \<noteq> 2 \<and> ty \<noteq> 3)) } } } })"

definition elf_get_entry :: "u8 list option \<Rightarrow> u32 option" where
  "elf_get_entry data = do { ok \<leftarrow> elf_validate data 52; if \<not> ok then Some 0 else e_entry (the data) }"

text \<open>The loop over the pages of a segment; \<^term>\<open>False\<close> when no frame is left.\<close>

partial_function (option) elf_map_pages :: "u32 \<Rightarrow> u32 \<Rightarrow> u32 \<Rightarrow> 'a kern_scheme \<Rightarrow> (bool \<times> 'a kern_scheme) option" where
  "elf_map_pages page page_end flags k =
     (if page < page_end
      then let (phys, k) = k_alloc_page k
           in if phys = 0 then Some (False, k)
              else elf_map_pages (page + 4096) page_end flags (k_on_vm (vmm_map_page page phys flags) k)
      else Some (True, k))"

definition segment_flags :: "elf32_phdr \<Rightarrow> u32" where
  "segment_flags ph = (VMM_PRESENT OR VMM_USER) OR (if p_flags ph AND PF_W \<noteq> 0 then VMM_WRITABLE else 0)"

text \<open>One turn of the loop over the program headers: \<^term>\<open>False\<close> where the source returns \<open>-1\<close>.\<close>

definition elf_load_segment :: "elf32_phdr \<Rightarrow> u8 list \<Rightarrow> u32 \<Rightarrow> 'a kern_scheme \<Rightarrow> (bool \<times> 'a kern_scheme) option" where
  "elf_load_segment ph d sz k = do {
     let page_start = p_vaddr ph AND NOT 0xFFF;
     let page_end = (p_vaddr ph + p_memsz ph + 0xFFF) AND NOT 0xFFF;
     (ok, k) \<leftarrow> elf_map_pages page_start page_end (segment_flags ph) k;
     if \<not> ok
     then do { k \<leftarrow> k_printk (''ELF: Memory allocation failed during segment load'' @ [CHR 0x0A]) [] k; Some (False, k) }
     else do {
       k \<leftarrow> virt_fill (unat (p_memsz ph)) (p_vaddr ph) 0 k;
       k \<leftarrow> (if p_filesz ph > 0 \<and> p_offset ph + p_filesz ph \<le> sz
            then virt_copy (unat (p_filesz ph)) (p_vaddr ph) d (unat (p_offset ph)) k else Some k);
       Some (True, k)
     }
   }"

primrec elf_segments :: "nat \<Rightarrow> nat \<Rightarrow> u32 \<Rightarrow> u8 list \<Rightarrow> u32 \<Rightarrow> 'a kern_scheme \<Rightarrow> (u32 option \<times> 'a kern_scheme) option" where
  "elf_segments 0 ph count d sz k = Some (Some count, k)"
| "elf_segments (Suc n) ph count d sz k = do {
     h \<leftarrow> read_phdr d ph;
     if p_type h \<noteq> PT_LOAD then elf_segments n (ph + 32) count d sz k
     else do {
       (ok, k) \<leftarrow> elf_load_segment h d sz k;
       if \<not> ok then Some (None, k) else elf_segments n (ph + 32) (count + 1) d sz k
     }
   }"

definition elf_load_segments :: "u8 list option \<Rightarrow> u32 \<Rightarrow> 'a kern_scheme \<Rightarrow> (int \<times> 'a kern_scheme) option" where
  "elf_load_segments data sz k = do {
     ok \<leftarrow> elf_validate data sz;
     if \<not> ok then Some (-1, k)
     else do {
       let d = the data;
       phoff \<leftarrow> e_phoff d;
       phnum \<leftarrow> e_phnum d;
       (r, k) \<leftarrow> elf_segments (unat phnum) (unat phoff) 0 d sz k;
       case r of
         None \<Rightarrow> Some (-1, k)
       | Some count \<Rightarrow> do {
           entry \<leftarrow> e_entry d;
           k \<leftarrow> k_printk (''ELF: Loaded %u PT_LOAD segments, entry point at 0x%x'' @ [CHR 0x0A])
                  [VA_word count, VA_word entry] k;
           Some (0, k)
         }
     }
   }"

section \<open>Processes\<close>

abbreviation (input) PROC_NEW :: u32 where "PROC_NEW \<equiv> 0"
abbreviation (input) PROC_READY :: u32 where "PROC_READY \<equiv> 1"
abbreviation (input) PROC_RUNNING :: u32 where "PROC_RUNNING \<equiv> 2"
abbreviation (input) PROC_BLOCKED :: u32 where "PROC_BLOCKED \<equiv> 3"
abbreviation (input) PROC_ZOMBIE :: u32 where "PROC_ZOMBIE \<equiv> 4"
abbreviation (input) PROC_DEAD :: u32 where "PROC_DEAD \<equiv> 5"
abbreviation (input) PROC_STACK_SIZE :: u32 where "PROC_STACK_SIZE \<equiv> 0x100000"
abbreviation (input) PROC_STACK_BASE :: u32 where "PROC_STACK_BASE \<equiv> 0xBFFFFFFF"
abbreviation (input) PROC_HEAP_BASE :: u32 where "PROC_HEAP_BASE \<equiv> 0x08100000"
abbreviation (input) PROC_BYTES :: u32 where "PROC_BYTES \<equiv> 184"

record process =
  pr_pid :: u32
  pr_name :: "char list"
  pr_state :: u32
  pr_page_directory :: u32
  pr_esp0 :: u32
  pr_kernel_stack :: u32
  pr_user_esp :: u32
  pr_user_eip :: u32
  pr_entry_point :: u32
  pr_brk :: u32
  pr_brk_max :: u32
  pr_fds :: "int list"
  pr_exit_code :: u32
  pr_vruntime :: u32
  pr_parent :: u32
  pr_next :: u32

record pkern = kern +
  procs :: "u32 \<rightharpoonup> process"
  proc_list :: u32
  current_process :: u32
  proc_next_pid :: u32
  sched_queue :: u32
  tss_esp0 :: u32
  entered :: "(u32 \<times> u32) list"

definition zero_process :: process where
  "zero_process = \<lparr>pr_pid = 0, pr_name = replicate 64 NUL, pr_state = 0, pr_page_directory = 0, pr_esp0 = 0,
     pr_kernel_stack = 0, pr_user_esp = 0, pr_user_eip = 0, pr_entry_point = 0, pr_brk = 0, pr_brk_max = 0,
     pr_fds = replicate 16 0, pr_exit_code = 0, pr_vruntime = 0, pr_parent = 0, pr_next = 0\<rparr>"

definition set_proc :: "u32 \<Rightarrow> process \<Rightarrow> 'a pkern_scheme \<Rightarrow> 'a pkern_scheme" where
  "set_proc a p k = k\<lparr>procs := (procs k)(a \<mapsto> p)\<rparr>"

definition upd_proc :: "u32 \<Rightarrow> (process \<Rightarrow> process) \<Rightarrow> 'a pkern_scheme \<Rightarrow> 'a pkern_scheme option" where
  "upd_proc a f k = map_option (\<lambda>p. set_proc a (f p) k) (procs k a)"

text \<open>\<^verbatim>\<open>kfree(proc)\<close>\<close>

definition free_proc :: "u32 \<Rightarrow> 'a pkern_scheme \<Rightarrow> 'a pkern_scheme outcome" where
  "free_proc a k = obind (k_kfree a k) (\<lambda>k. Some (Inr (k\<lparr>procs := (procs k)(a := None)\<rparr>)))"

definition process_init :: "'a pkern_scheme \<Rightarrow> 'a pkern_scheme option" where
  "process_init k = k_printk (''Process: User process manager initialized'' @ [CHR 0x0A]) []
     (k\<lparr>proc_list := 0, current_process := 0, proc_next_pid := 1\<rparr>)"

text \<open>The part of \<open>process_create\<close> that builds the address space (lines 49--70).\<close>

definition process_address_space :: "vm \<Rightarrow> vm" where
  "process_address_space v =
     (let v = map_identity 1024 0 (VMM_PRESENT OR VMM_WRITABLE) v;
          v = map_fresh (unat (PROC_STACK_SIZE div 4096)) (PROC_STACK_BASE - PROC_STACK_SIZE)
                (VMM_PRESENT OR VMM_WRITABLE OR VMM_USER) v
      in map_fresh 16 PROC_HEAP_BASE (VMM_PRESENT OR VMM_WRITABLE OR VMM_USER) v)"

definition std_fds :: "int list" where
  "std_fds = (replicate 16 (-1))[0 := 0, 1 := 1, 2 := 2]"

text \<open>From line 72 on: \<open>a\<close> is the address of the process, \<open>p\<close> its fields so far.\<close>

definition process_finish :: "u32 \<Rightarrow> process \<Rightarrow> u8 list option \<Rightarrow> u32 \<Rightarrow> 'a pkern_scheme \<Rightarrow> (u32 \<times> 'a pkern_scheme) outcome" where
  "process_finish a p elf_data elf_size k =
     obind (no_panic (elf_load_segments elf_data elf_size k)) (\<lambda>(r, k).
     if r \<noteq> 0 then obind (free_proc a k) (\<lambda>k. Some (Inr (0, k)))
     else obind (no_panic (elf_get_entry elf_data)) (\<lambda>entry.
     obind (k_kmalloc 8192 k) (\<lambda>(stack, k).
     if stack = 0 then obind (free_proc a k) (\<lambda>k. Some (Inr (0, k)))
     else
       let p = p\<lparr>pr_brk := PROC_HEAP_BASE, pr_brk_max := PROC_HEAP_BASE + 16 * 4096, pr_entry_point := entry,
                 pr_user_eip := entry, pr_user_esp := PROC_STACK_BASE - 16, pr_kernel_stack := stack,
                 pr_esp0 := stack + 8192, pr_fds := std_fds, pr_state := PROC_READY, pr_next := proc_list k\<rparr>
       in obind (no_panic (k_printk (''Process: Created '' @ CHR 0x27 # ''%s'' @ CHR 0x27 # '' (pid %u, entry 0x%x)'' @ [CHR 0x0A])
            [VA_str (Some (pr_name p)), VA_word (pr_pid p), VA_word (pr_entry_point p)]
            (set_proc a p (k\<lparr>proc_list := a\<rparr>))))
          (\<lambda>k. Some (Inr (a, k))))))"

definition process_create :: "cptr \<Rightarrow> u8 list option \<Rightarrow> u32 \<Rightarrow> 'a pkern_scheme \<Rightarrow> (u32 \<times> 'a pkern_scheme) outcome" where
  "process_create name elf_data elf_size k =
     obind (no_panic (elf_validate elf_data elf_size)) (\<lambda>ok.
     if \<not> ok
     then obind (no_panic (k_printk (''Process: Cannot create process '' @ CHR 0x27 # ''%s'' @ CHR 0x27 # '' - Invalid ELF payload'' @ [CHR 0x0A])
            [VA_str (Some (case name of None \<Rightarrow> ''unknown'' @ [NUL] | Some n \<Rightarrow> n))] k)) (\<lambda>k. Some (Inr (0, k)))
     else obind (k_kmalloc PROC_BYTES k) (\<lambda>(a, k).
     if a = 0 then Some (Inr (0, k))
     else obind (no_panic (strncpy (pr_name zero_process) (case name of None \<Rightarrow> ''user_proc'' @ [NUL] | Some n \<Rightarrow> n) 63)) (\<lambda>nm.
       let pid = proc_next_pid k;
           k = k\<lparr>proc_next_pid := pid + 1\<rparr>;
           (pd, k) = k_alloc_page k;
           p = zero_process\<lparr>pr_pid := pid, pr_name := nm, pr_state := PROC_NEW, pr_page_directory := pd\<rparr>;
           k = set_proc a p k
       in if pd = 0 then obind (free_proc a k) (\<lambda>k. Some (Inr (0, k)))
          else process_finish a p elf_data elf_size
                 (k_on_vm process_address_space (k_on_vm (\<lambda>v. v\<lparr>mem := fill_table pd (\<lambda>i. 0) (mem v)\<rparr>) k)))))"

section \<open>The process scheduler\<close>

definition sched_proc_init :: "'a pkern_scheme \<Rightarrow> 'a pkern_scheme option" where
  "sched_proc_init k = k_printk (''Scheduler: Process preemptive scheduler initialized'' @ [CHR 0x0A]) [] (k\<lparr>sched_queue := 0\<rparr>)"

definition sched_proc_add :: "u32 \<Rightarrow> 'a pkern_scheme \<Rightarrow> 'a pkern_scheme option" where
  "sched_proc_add a k =
     (if a = 0 then Some k
      else map_option (\<lambda>k. k\<lparr>sched_queue := a\<rparr>)
             (upd_proc a (\<lambda>p. p\<lparr>pr_state := PROC_READY, pr_next := sched_queue k\<rparr>) k))"

text \<open>The search for the predecessor, shared by \<open>sched_proc_remove\<close> and \<open>process_destroy\<close>.\<close>

partial_function (option) unlink_after :: "u32 \<Rightarrow> u32 \<Rightarrow> 'a pkern_scheme \<Rightarrow> 'a pkern_scheme option" where
  "unlink_after a cur k = do {
     c \<leftarrow> procs k cur;
     if pr_next c = 0 then Some k
     else if pr_next c = a then do { p \<leftarrow> procs k a; upd_proc cur (\<lambda>c. c\<lparr>pr_next := pr_next p\<rparr>) k }
     else unlink_after a (pr_next c) k
   }"

definition sched_proc_remove :: "u32 \<Rightarrow> 'a pkern_scheme \<Rightarrow> 'a pkern_scheme option" where
  "sched_proc_remove a k =
     (if a = 0 \<or> sched_queue k = 0 then Some k
      else if sched_queue k = a then map_option (\<lambda>p. k\<lparr>sched_queue := pr_next p\<rparr>) (procs k a)
      else unlink_after a (sched_queue k) k)"

definition tss_set_kernel_stack :: "u32 \<Rightarrow> 'a pkern_scheme \<Rightarrow> 'a pkern_scheme" where
  "tss_set_kernel_stack esp0 k = k\<lparr>tss_esp0 := esp0\<rparr>"

definition enter_userspace :: "u32 \<Rightarrow> u32 \<Rightarrow> 'a pkern_scheme \<Rightarrow> 'a pkern_scheme" where
  "enter_userspace eip esp k = k\<lparr>entered := entered k @ [(eip, esp)]\<rparr>"

partial_function (option) best_scan :: "(u32 \<rightharpoonup> process) \<Rightarrow> u32 \<Rightarrow> u32 \<Rightarrow> u32 option" where
  "best_scan ps cur best =
     (if cur = 0 then Some best
      else do {
        c \<leftarrow> ps cur;
        best \<leftarrow> (if pr_state c \<noteq> PROC_READY then Some best
                else if best = 0 then Some cur
                else map_option (\<lambda>b. if pr_vruntime c < pr_vruntime b then cur else best) (ps best));
        best_scan ps (pr_next c) best
      })"

definition schedule_process :: "'a pkern_scheme \<Rightarrow> 'a pkern_scheme option" where
  "schedule_process k =
     (if sched_queue k = 0 then Some k
      else do {
        best \<leftarrow> best_scan (procs k) (sched_queue k) 0;
        if best = 0 then Some k
        else do {
          k \<leftarrow> (if current_process k \<noteq> 0
               then upd_proc (current_process k) (\<lambda>p. if pr_state p = PROC_RUNNING then p\<lparr>pr_state := PROC_READY\<rparr> else p) k
               else Some k);
          k \<leftarrow> upd_proc best (\<lambda>p. p\<lparr>pr_state := PROC_RUNNING\<rparr>) (k\<lparr>current_process := best\<rparr>);
          p \<leftarrow> procs k best;
          let k = tss_set_kernel_stack (pr_esp0 p) k;
          if pr_vruntime p = 0
          then map_option (enter_userspace (pr_user_eip p) (pr_user_esp p)) (upd_proc best (\<lambda>p. p\<lparr>pr_vruntime := 1\<rparr>) k)
          else Some k
        }
      })"

definition sched_proc_tick :: "'a pkern_scheme \<Rightarrow> 'a pkern_scheme option" where
  "sched_proc_tick k =
     (if current_process k = 0 then Some k
      else do {
        p \<leftarrow> procs k (current_process k);
        if pr_state p = PROC_RUNNING
        then Option.bind (upd_proc (current_process k) (\<lambda>p. p\<lparr>pr_vruntime := pr_vruntime p + 10\<rparr>) k) schedule_process
        else Some k
      })"

section \<open>The process table\<close>

definition process_exit :: "u32 \<Rightarrow> 'a pkern_scheme \<Rightarrow> 'a pkern_scheme option" where
  "process_exit code k =
     (if current_process k = 0 then Some k
      else do {
        k \<leftarrow> upd_proc (current_process k) (\<lambda>p. p\<lparr>pr_exit_code := code, pr_state := PROC_ZOMBIE\<rparr>) k;
        p \<leftarrow> procs k (current_process k);
        k \<leftarrow> k_printk (''Process: '' @ CHR 0x27 # ''%s'' @ CHR 0x27 # '' (pid %u) exited with code %d'' @ [CHR 0x0A])
               [VA_str (Some (pr_name p)), VA_word (pr_pid p), VA_word code] k;
        schedule_process k
      })"

definition process_destroy :: "u32 \<Rightarrow> 'a pkern_scheme \<Rightarrow> 'a pkern_scheme outcome" where
  "process_destroy a k =
     (if a = 0 then Some (Inr k)
      else obind (no_panic (procs k a)) (\<lambda>p.
        obind (no_panic (if proc_list k = a then Some (k\<lparr>proc_list := pr_next p\<rparr>)
                         else if proc_list k \<noteq> 0 then unlink_after a (proc_list k) k else Some k)) (\<lambda>k.
        obind (if pr_kernel_stack p \<noteq> 0 then k_kfree (pr_kernel_stack p) k else Some (Inr k)) (\<lambda>k.
        obind (no_panic (upd_proc a (\<lambda>p. p\<lparr>pr_state := PROC_DEAD\<rparr>) k)) (free_proc a)))))"

definition process_get_current :: "'a pkern_scheme \<Rightarrow> u32" where
  "process_get_current k = current_process k"

partial_function (option) pid_scan :: "(u32 \<rightharpoonup> process) \<Rightarrow> u32 \<Rightarrow> u32 \<Rightarrow> u32 option" where
  "pid_scan ps pid cur =
     (if cur = 0 then Some 0
      else do { c \<leftarrow> ps cur; if pr_pid c = pid then Some cur else pid_scan ps pid (pr_next c) })"

definition process_get_by_pid :: "u32 \<Rightarrow> 'a pkern_scheme \<Rightarrow> u32 option" where
  "process_get_by_pid pid k = pid_scan (procs k) pid (proc_list k)"

partial_function (option) proc_count_from :: "(u32 \<rightharpoonup> process) \<Rightarrow> u32 \<Rightarrow> u32 \<Rightarrow> u32 option" where
  "proc_count_from ps cur n = (if cur = 0 then Some n else do { c \<leftarrow> ps cur; proc_count_from ps (pr_next c) (n + 1) })"

definition process_get_count :: "'a pkern_scheme \<Rightarrow> u32 option" where
  "process_get_count k = proc_count_from (procs k) (proc_list k) 0"

definition proc_state_string :: "u32 \<Rightarrow> char list" where
  "proc_state_string st =
     (if st = PROC_READY then ''READY'' else if st = PROC_RUNNING then ''RUNNING''
      else if st = PROC_BLOCKED then ''BLOCKED'' else if st = PROC_ZOMBIE then ''ZOMBIE''
      else if st = PROC_DEAD then ''DEAD'' else ''NEW'') @ [NUL]"

partial_function (option) process_list_from :: "u32 \<Rightarrow> 'a pkern_scheme \<Rightarrow> 'a pkern_scheme option" where
  "process_list_from cur k =
     (if cur = 0 then Some k
      else do {
        c \<leftarrow> procs k cur;
        k \<leftarrow> k_printk (''%-4u %-16s %-10s %-10u %-4u'' @ [CHR 0x0A])
               [VA_word (pr_pid c), VA_str (Some (pr_name c)), VA_str (Some (proc_state_string (pr_state c))),
                VA_word (pr_vruntime c), VA_word (pr_exit_code c)] k;
        process_list_from (pr_next c) k
      })"

definition process_list :: "'a pkern_scheme \<Rightarrow> 'a pkern_scheme option" where
  "process_list k = do {
     k \<leftarrow> k_printk (''PID  NAME             STATE      VRUNTIME   EXIT'' @ [CHR 0x0A]) [] k;
     k \<leftarrow> k_printk (''---  ---------------  ---------  ---------  ----'' @ [CHR 0x0A]) [] k;
     process_list_from (proc_list k) k
   }"

section \<open>The process queue\<close>

text \<open>The processes met from \<open>p\<close> on along \<open>next\<close>.\<close>

fun proc_path :: "(u32 \<rightharpoonup> process) \<Rightarrow> u32 \<Rightarrow> u32 list \<Rightarrow> bool" where
  "proc_path ps p [] \<longleftrightarrow> p = 0"
| "proc_path ps p (x # xs) \<longleftrightarrow> p = x \<and> x \<noteq> 0 \<and> (\<exists>t. ps x = Some t \<and> proc_path ps (pr_next t) xs)"

definition proc_cand :: "(u32 \<rightharpoonup> process) \<Rightarrow> u32 \<Rightarrow> bool" where
  "proc_cand ps x \<longleftrightarrow> x \<noteq> 0 \<and> (case ps x of None \<Rightarrow> False | Some p \<Rightarrow> pr_state p = PROC_READY)"

definition proc_key :: "(u32 \<rightharpoonup> process) \<Rightarrow> u32 \<Rightarrow> u32" where
  "proc_key ps x = (case ps x of None \<Rightarrow> 0 | Some p \<Rightarrow> pr_vruntime p)"

fun best_fold :: "(u32 \<rightharpoonup> process) \<Rightarrow> u32 list \<Rightarrow> u32 \<Rightarrow> u32" where
  "best_fold ps [] b = b"
| "best_fold ps (x # xs) b =
     best_fold ps xs (if proc_cand ps x \<and> (b = 0 \<or> proc_key ps x < proc_key ps b) then x else b)"

definition best_of :: "(u32 \<rightharpoonup> process) \<Rightarrow> u32 list \<Rightarrow> u32 option" where
  "best_of ps xs = (if best_fold ps xs 0 = 0 then None else Some (best_fold ps xs 0))"

lemma proc_path_mem: "proc_path ps p xs \<Longrightarrow> x \<in> set xs \<Longrightarrow> x \<noteq> 0 \<and> ps x \<noteq> None"
  by (induction xs arbitrary: p) auto

lemma proc_path_frame:
  "proc_path ps p xs \<Longrightarrow> (\<And>x t. x \<in> set xs \<Longrightarrow> ps x = Some t \<Longrightarrow> \<exists>t'. ps' x = Some t' \<and> pr_next t' = pr_next t)
    \<Longrightarrow> proc_path ps' p xs"
  by (induction xs arbitrary: p) (auto, metis)

lemma best_scan_path:
  "proc_path ps p xs \<Longrightarrow> b = 0 \<or> ps b \<noteq> None \<Longrightarrow> best_scan ps p b = Some (best_fold ps xs b)"
proof (induction xs arbitrary: p b)
  case Nil
  then show ?case by (subst best_scan.simps) simp
next
  case (Cons x xs)
  then obtain t where t: "p = x" "x \<noteq> 0" "ps x = Some t" "proc_path ps (pr_next t) xs" by auto
  show ?case
    using t Cons.prems(2) Cons.IH [OF t(4)]
    by (subst best_scan.simps) (auto simp: proc_cand_def proc_key_def)
qed

lemma best_fold_cases:
  "(best_fold ps xs b = b \<and> (\<forall>x \<in> set xs. proc_cand ps x \<longrightarrow> b \<noteq> 0 \<and> proc_key ps b \<le> proc_key ps x))
   \<or> (\<exists>ys x zs. xs = ys @ x # zs \<and> best_fold ps xs b = x \<and> proc_cand ps x \<and> (b \<noteq> 0 \<longrightarrow> proc_key ps x < proc_key ps b)
     \<and> (\<forall>y \<in> set ys. proc_cand ps y \<longrightarrow> proc_key ps x < proc_key ps y)
     \<and> (\<forall>z \<in> set zs. proc_cand ps z \<longrightarrow> proc_key ps x \<le> proc_key ps z))"
proof (induction xs arbitrary: b)
  case (Cons r rs)
  show ?case
  proof (cases "proc_cand ps r \<and> (b = 0 \<or> proc_key ps r < proc_key ps b)")
    case True
    then have eq: "best_fold ps (r # rs) b = best_fold ps rs r" by simp
    from Cons [of r] show ?thesis
    proof (elim disjE exE conjE)
      assume "best_fold ps rs r = r" "\<forall>x \<in> set rs. proc_cand ps x \<longrightarrow> r \<noteq> 0 \<and> proc_key ps r \<le> proc_key ps x"
      with True show ?thesis unfolding eq by (intro disjI2 exI [of _ "[]"] exI [of _ r] exI [of _ rs]) auto
    next
      fix ys x zs
      assume h: "rs = ys @ x # zs" "best_fold ps rs r = x" "proc_cand ps x" "r \<noteq> 0 \<longrightarrow> proc_key ps x < proc_key ps r"
        "\<forall>y \<in> set ys. proc_cand ps y \<longrightarrow> proc_key ps x < proc_key ps y"
        "\<forall>z \<in> set zs. proc_cand ps z \<longrightarrow> proc_key ps x \<le> proc_key ps z"
      have "r \<noteq> 0" using True by (simp add: proc_cand_def)
      with h True show ?thesis
        unfolding eq by (intro disjI2 exI [of _ "r # ys"] exI [of _ x] exI [of _ zs]) auto
    qed
  next
    case False
    then have eq: "best_fold ps (r # rs) b = best_fold ps rs b" by (simp only: best_fold.simps if_False simp_thms)
    from Cons [of b] show ?thesis
    proof (elim disjE exE conjE)
      assume "best_fold ps rs b = b" "\<forall>x \<in> set rs. proc_cand ps x \<longrightarrow> b \<noteq> 0 \<and> proc_key ps b \<le> proc_key ps x"
      with False show ?thesis unfolding eq by (intro disjI1) (auto simp: not_less)
    next
      fix ys x zs
      assume h: "rs = ys @ x # zs" "best_fold ps rs b = x" "proc_cand ps x" "b \<noteq> 0 \<longrightarrow> proc_key ps x < proc_key ps b"
        "\<forall>y \<in> set ys. proc_cand ps y \<longrightarrow> proc_key ps x < proc_key ps y"
        "\<forall>z \<in> set zs. proc_cand ps z \<longrightarrow> proc_key ps x \<le> proc_key ps z"
      with False show ?thesis
        unfolding eq by (intro disjI2 exI [of _ "r # ys"] exI [of _ x] exI [of _ zs]) (auto simp: not_less)
    qed
  qed
qed simp

interpretation proc_pick: min_pick "proc_cand ps" "proc_key ps" "best_of ps" for ps
proof
  fix xs x
  have nz: "proc_cand ps y \<Longrightarrow> y \<noteq> 0" for y by (simp add: proc_cand_def)
  show "best_of ps xs = None \<longleftrightarrow> (\<forall>x \<in> set xs. \<not> proc_cand ps x)"
    using best_fold_cases [of ps xs 0] nz by (fastforce simp: best_of_def)
  show "\<exists>ys zs. xs = ys @ x # zs \<and> proc_cand ps x \<and> (\<forall>y \<in> set ys. proc_cand ps y \<longrightarrow> proc_key ps x < proc_key ps y)
      \<and> (\<forall>z \<in> set zs. proc_cand ps z \<longrightarrow> proc_key ps x \<le> proc_key ps z)"
    if "best_of ps xs = Some x"
    using best_fold_cases [of ps xs 0] that by (auto simp: best_of_def split: if_splits)
qed

text \<open>What a switch to the process \<open>m\<close> makes of the processes.\<close>

definition preempt :: "u32 \<Rightarrow> (u32 \<rightharpoonup> process) \<Rightarrow> (u32 \<rightharpoonup> process)" where
  "preempt c ps = (case ps c of None \<Rightarrow> ps
     | Some p \<Rightarrow> if c \<noteq> 0 \<and> pr_state p = PROC_RUNNING then ps(c \<mapsto> p\<lparr>pr_state := PROC_READY\<rparr>) else ps)"

definition run_proc :: "process \<Rightarrow> process" where
  "run_proc p = p\<lparr>pr_state := PROC_RUNNING, pr_vruntime := (if pr_vruntime p = 0 then 1 else pr_vruntime p)\<rparr>"

lemma preempt_cand:
  "proc_cand ps m \<Longrightarrow> preempt c ps m = ps m"
  by (auto simp: preempt_def proc_cand_def split: option.splits)

lemma schedule_process_eq:
  assumes path: "proc_path (procs k) (sched_queue k) xs"
    and c: "current_process k = 0 \<or> procs k (current_process k) \<noteq> None"
  shows "schedule_process k =
    (case best_of (procs k) xs of
       None \<Rightarrow> Some k
     | Some m \<Rightarrow> (case procs k m of None \<Rightarrow> None | Some p \<Rightarrow>
         Some (k\<lparr>current_process := m, tss_esp0 := pr_esp0 p,
                entered := entered k @ (if pr_vruntime p = 0 then [(pr_user_eip p, pr_user_esp p)] else []),
                procs := (preempt (current_process k) (procs k))(m \<mapsto> run_proc p)\<rparr>)))"
proof (cases "sched_queue k = 0")
  case True
  then have "xs = []" using path by (cases xs) auto
  then show ?thesis using True by (simp add: schedule_process_def best_of_def)
next
  case False
  have scan: "best_scan (procs k) (sched_queue k) 0 = Some (best_fold (procs k) xs 0)"
    using best_scan_path [OF path] by simp
  show ?thesis
  proof (cases "best_of (procs k) xs")
    case None
    then have "best_fold (procs k) xs 0 = 0" by (simp add: best_of_def split: if_splits)
    with None scan False show ?thesis by (simp add: schedule_process_def)
  next
    case (Some m)
    have cand: "proc_cand (procs k) m" using proc_pick.pick_least [OF Some] by blast
    then obtain p where p: "procs k m = Some p" "pr_state p = PROC_READY" "m \<noteq> 0"
      by (auto simp: proc_cand_def split: option.splits)
    have m: "best_fold (procs k) xs 0 = m" using Some by (simp add: best_of_def split: if_splits)
    have pr: "preempt (current_process k) (procs k) m = Some p" using preempt_cand [OF cand] p by simp
    have step: "(if current_process k \<noteq> 0
               then upd_proc (current_process k) (\<lambda>p. if pr_state p = PROC_RUNNING then p\<lparr>pr_state := PROC_READY\<rparr> else p) k
               else Some k) = Some (k\<lparr>procs := preempt (current_process k) (procs k)\<rparr>)"
    proof (cases "current_process k = 0")
      case True
      then show ?thesis by (simp add: preempt_def split: option.split)
    next
      case False
      then obtain q where q: "procs k (current_process k) = Some q" using c by auto
      then show ?thesis
        using False by (cases "pr_state q = PROC_RUNNING") (simp_all add: upd_proc_def set_proc_def preempt_def fun_upd_idem)
    qed
    let ?k = "k\<lparr>procs := preempt (current_process k) (procs k)\<rparr>"
    have "schedule_process k = do {
          k \<leftarrow> upd_proc m (\<lambda>p. p\<lparr>pr_state := PROC_RUNNING\<rparr>) (?k\<lparr>current_process := m\<rparr>);
          p \<leftarrow> procs k m;
          let k = tss_set_kernel_stack (pr_esp0 p) k;
          if pr_vruntime p = 0
          then map_option (enter_userspace (pr_user_eip p) (pr_user_esp p)) (upd_proc m (\<lambda>p. p\<lparr>pr_vruntime := 1\<rparr>) k)
          else Some k }"
      using False p(3) unfolding schedule_process_def scan m step by simp
    also have "\<dots> = Some (k\<lparr>current_process := m, tss_esp0 := pr_esp0 p,
                entered := entered k @ (if pr_vruntime p = 0 then [(pr_user_eip p, pr_user_esp p)] else []),
                procs := (preempt (current_process k) (procs k))(m \<mapsto> run_proc p)\<rparr>)"
      using pr by (simp add: upd_proc_def set_proc_def run_proc_def enter_userspace_def tss_set_kernel_stack_def)
    finally show ?thesis using Some p(1) by simp
  qed
qed

lemma run_proc_simps [simp]:
  "pr_next (run_proc p) = pr_next p" "pr_state (run_proc p) = PROC_RUNNING"
  "pr_vruntime (run_proc p) = (if pr_vruntime p = 0 then 1 else pr_vruntime p)"
  by (simp_all add: run_proc_def)

lemma preempt_other: "x \<noteq> c \<Longrightarrow> preempt c ps x = ps x"
  by (simp add: preempt_def split: option.split)

lemma preempt_next: "ps x = Some p \<Longrightarrow> \<exists>p'. preempt c ps x = Some p' \<and> pr_next p' = pr_next p
   \<and> pr_vruntime p' = pr_vruntime p \<and> (pr_state p' = pr_state p \<or> pr_state p' = PROC_READY)"
  by (auto simp: preempt_def split: option.split)

text \<open>C14: \<open>schedule_process\<close> on a well-formed queue gives the processor to the first \<open>READY\<close> process of least
  \<open>vruntime\<close>: it becomes the current one and \<open>RUNNING\<close>, the one that was running goes back to \<open>READY\<close>, the
  kernel stack of the new one is loaded into the task state segment, and it is entered at its saved
  address exactly when it has never run.  Without a \<open>READY\<close> process nothing changes.\<close>

theorem schedule_process_correct:
  assumes "proc_path (procs k) (sched_queue k) xs"
    and "current_process k = 0 \<or> procs k (current_process k) \<noteq> None"
  shows "(schedule_process k = Some k \<and> (\<forall>x \<in> set xs. \<not> proc_cand (procs k) x))
    \<or> (\<exists>ys m zs p k'. xs = ys @ m # zs \<and> procs k m = Some p \<and> pr_state p = PROC_READY
        \<and> (\<forall>y \<in> set ys. proc_cand (procs k) y \<longrightarrow> pr_vruntime p < proc_key (procs k) y)
        \<and> (\<forall>z \<in> set zs. proc_cand (procs k) z \<longrightarrow> pr_vruntime p \<le> proc_key (procs k) z)
        \<and> schedule_process k = Some k' \<and> current_process k' = m \<and> tss_esp0 k' = pr_esp0 p
        \<and> entered k' = entered k @ (if pr_vruntime p = 0 then [(pr_user_eip p, pr_user_esp p)] else [])
        \<and> procs k' = (preempt (current_process k) (procs k))(m \<mapsto> run_proc p)
        \<and> sched_queue k' = sched_queue k \<and> proc_list k' = proc_list k)"
proof (cases "best_of (procs k) xs")
  case None
  then have "\<forall>x \<in> set xs. \<not> proc_cand (procs k) x" using proc_pick.pick_None [of "procs k" xs] by blast
  then show ?thesis using None schedule_process_eq [OF assms] by (intro disjI1) simp
next
  case (Some m)
  obtain ys zs where s: "xs = ys @ m # zs" "proc_cand (procs k) m"
    "\<forall>y \<in> set ys. proc_cand (procs k) y \<longrightarrow> proc_key (procs k) m < proc_key (procs k) y"
    "\<forall>z \<in> set zs. proc_cand (procs k) z \<longrightarrow> proc_key (procs k) m \<le> proc_key (procs k) z"
    using proc_pick.pick_Some [OF Some] by blast
  then obtain p where p: "procs k m = Some p" "pr_state p = PROC_READY"
    by (auto simp: proc_cand_def split: option.splits)
  have key: "proc_key (procs k) m = pr_vruntime p" using p by (simp add: proc_key_def)
  obtain k' where "schedule_process k = Some k'" "current_process k' = m" "tss_esp0 k' = pr_esp0 p"
    "entered k' = entered k @ (if pr_vruntime p = 0 then [(pr_user_eip p, pr_user_esp p)] else [])"
    "procs k' = (preempt (current_process k) (procs k))(m \<mapsto> run_proc p)"
    "sched_queue k' = sched_queue k" "proc_list k' = proc_list k"
    using schedule_process_eq [OF assms] Some p(1) by simp
  then show ?thesis using s p unfolding key by blast
qed

section \<open>Every ready process runs\<close>

text \<open>The timer ticks \<open>n\<close> times.\<close>

primrec run_ticks :: "nat \<Rightarrow> 'a pkern_scheme \<Rightarrow> 'a pkern_scheme option" where
  "run_ticks 0 k = Some k"
| "run_ticks (Suc n) k = Option.bind (sched_proc_tick k) (run_ticks n)"

text \<open>The processes of the queue that may be chosen before one of virtual run time \<open>v\<close>.\<close>

definition lag :: "nat \<Rightarrow> (u32 \<rightharpoonup> process) \<Rightarrow> u32 list \<Rightarrow> nat" where
  "lag v ps xs = (\<Sum>y \<in> set xs. v + 11 - unat (proc_key ps y))"

definition waiting :: "u32 \<Rightarrow> process \<Rightarrow> u32 list \<Rightarrow> 'a pkern_scheme \<Rightarrow> bool" where
  "waiting x p xs k \<longleftrightarrow> proc_path (procs k) (sched_queue k) xs \<and> x \<in> set xs \<and> procs k x = Some p
     \<and> pr_state p = PROC_READY
     \<and> (\<exists>c. procs k (current_process k) = Some c \<and> current_process k \<noteq> 0 \<and> pr_state c = PROC_RUNNING)"

lemma upd_path:
  "proc_path ps q xs \<Longrightarrow> ps c = Some r \<Longrightarrow> pr_next r' = pr_next r \<Longrightarrow> proc_path (ps(c \<mapsto> r')) q xs"
  by (rule proc_path_frame, assumption) auto

text \<open>One tick with a process \<open>x\<close> waiting: it is chosen, or another of no larger run time.\<close>

lemma tick_waiting:
  assumes w: "waiting x p xs k"
  shows "\<exists>k' m. sched_proc_tick k = Some k' \<and> current_process k' = m \<and> m \<in> set xs \<and> m \<noteq> current_process k
    \<and> (m = x \<or> waiting x p xs k' \<and> proc_key (procs k') m \<le> max 1 (pr_vruntime p))
    \<and> (\<forall>y. y \<noteq> m \<longrightarrow> y \<noteq> current_process k \<longrightarrow> proc_key (procs k') y = proc_key (procs k) y)
    \<and> proc_key (procs k) m \<le> proc_key (procs k') m
    \<and> proc_key (procs k') (current_process k) = proc_key (procs k) (current_process k) + 10"
proof -
  obtain c where c: "procs k (current_process k) = Some c" "current_process k \<noteq> 0" "pr_state c = PROC_RUNNING"
    and path: "proc_path (procs k) (sched_queue k) xs" and x: "x \<in> set xs" "procs k x = Some p" "pr_state p = PROC_READY"
    using w by (auto simp: waiting_def)
  let ?c = "current_process k"
  let ?c' = "c\<lparr>pr_vruntime := pr_vruntime c + 10\<rparr>"
  define ps where "ps = (procs k)(?c \<mapsto> ?c')"
  let ?k = "k\<lparr>procs := ps\<rparr>"
  have path': "proc_path (procs ?k) (sched_queue ?k) xs" using upd_path [OF path c(1), of ?c'] by (simp add: ps_def)
  have tick: "sched_proc_tick k = schedule_process ?k"
    using c by (simp add: sched_proc_tick_def upd_proc_def set_proc_def ps_def)
  have xc: "x \<noteq> ?c" using x c by auto
  have candx: "proc_cand ps x" using x proc_path_mem [OF path x(1)] xc by (simp add: proc_cand_def ps_def)
  obtain m where m: "best_of ps xs = Some m" "proc_key ps m \<le> proc_key ps x"
    using proc_pick.pick_exists [OF x(1) candx] by blast
  note least = proc_pick.pick_least [OF m(1)]
  have mc: "m \<noteq> ?c" using least c by (auto simp: proc_cand_def ps_def)
  obtain q where q: "procs k m = Some q" "pr_state q = PROC_READY"
    using least mc by (auto simp: proc_cand_def ps_def split: option.splits)
  have psm: "ps m = Some q" using q mc by (simp add: ps_def)
  have cd: "current_process ?k = 0 \<or> procs ?k (current_process ?k) \<noteq> None" by (simp add: ps_def)
  define k' where "k' = ?k\<lparr>current_process := m, tss_esp0 := pr_esp0 q,
      entered := entered k @ (if pr_vruntime q = 0 then [(pr_user_eip q, pr_user_esp q)] else []),
      procs := (preempt ?c ps)(m \<mapsto> run_proc q)\<rparr>"
  have "best_of (procs ?k) xs = Some m" "procs ?k m = Some q" using m psm by simp_all
  then have sk: "sched_proc_tick k = Some k'"
    unfolding tick schedule_process_eq [OF path' cd] by (simp add: k'_def)
  have ps': "procs k' = (preempt ?c ps)(m \<mapsto> run_proc q)" and sq: "sched_queue k' = sched_queue k" and ck: "current_process k' = m"
    by (simp_all add: k'_def)
  have pc: "preempt ?c ps ?c = Some (?c'\<lparr>pr_state := PROC_READY\<rparr>)" using c by (simp add: preempt_def ps_def)
  have other: "procs k' y = procs k y" if "y \<noteq> m" "y \<noteq> ?c" for y
    using that by (simp add: ps' preempt_other ps_def)
  have m0: "m \<noteq> 0" using least proc_path_mem [OF path] by blast
  have km: "procs k' m = Some (run_proc q)" by (simp add: ps')
  have kc: "procs k' ?c = Some (?c'\<lparr>pr_state := PROC_READY\<rparr>)" using pc mc by (simp add: ps')
  have pathk': "proc_path (procs k') (sched_queue k') xs"
    unfolding sq
  proof (rule proc_path_frame [OF path])
    fix y t assume "y \<in> set xs" "procs k y = Some t"
    then show "\<exists>t'. procs k' y = Some t' \<and> pr_next t' = pr_next t"
      using km kc other [of y] q c by (cases "y = m"; cases "y = ?c") auto
  qed
  have wait: "waiting x p xs k'" if "m \<noteq> x"
    using that pathk' x xc other [of x] km m0 by (auto simp: waiting_def ck)
  have key: "proc_key (procs k') m = (if pr_vruntime q = 0 then 1 else pr_vruntime q)" by (simp add: proc_key_def km)
  have "pr_vruntime q \<le> pr_vruntime p" using m(2) psm x xc by (simp add: proc_key_def ps_def)
  then have "proc_key (procs k') m \<le> max 1 (pr_vruntime p)" using key by (auto simp: max_def)
  moreover have "proc_key (procs k) m \<le> proc_key (procs k') m" using key q by (simp add: proc_key_def)
  moreover have "proc_key (procs k') ?c = proc_key (procs k) ?c + 10" by (simp add: proc_key_def kc c)
  moreover have "proc_key (procs k') y = proc_key (procs k) y" if "y \<noteq> m" "y \<noteq> ?c" for y
    using other [OF that] by (simp add: proc_key_def)
  ultimately show ?thesis using sk ck mc wait least by blast
qed

lemma lag_less:
  assumes "finite A" and "c \<in> A" and "\<And>y. y \<in> A \<Longrightarrow> y \<noteq> c \<Longrightarrow> g y \<le> (f y :: nat)" and "g c < f c"
  shows "sum g A < sum f A"
  using assms by (intro sum_strict_mono_ex1) (auto intro: less_imp_le)

lemma runs_from:
  assumes "waiting x p xs k" and "pr_vruntime p \<le> 0xFFFFFFF0"
    and "current_process k \<in> set xs" and "proc_key (procs k) (current_process k) \<le> max 1 (pr_vruntime p)"
  shows "\<exists>n k'. run_ticks n k = Some k' \<and> current_process k' = x"
  using assms
proof (induction "lag (unat (pr_vruntime p)) (procs k) xs" arbitrary: k rule: less_induct)
  case less
  let ?c = "current_process k"
  let ?v = "unat (pr_vruntime p)"
  obtain k' m where t: "sched_proc_tick k = Some k'" "current_process k' = m" "m \<in> set xs" "m \<noteq> ?c"
    "m = x \<or> waiting x p xs k' \<and> proc_key (procs k') m \<le> max 1 (pr_vruntime p)"
    "\<And>y. y \<noteq> m \<Longrightarrow> y \<noteq> ?c \<Longrightarrow> proc_key (procs k') y = proc_key (procs k) y"
    "proc_key (procs k) m \<le> proc_key (procs k') m"
    "proc_key (procs k') ?c = proc_key (procs k) ?c + 10"
    using tick_waiting [OF less.prems(1)] by blast
  show ?case
  proof (cases "m = x")
    case True
    then have "run_ticks (Suc 0) k = Some k' \<and> current_process k' = x" using t(1,2) by simp
    then show ?thesis by blast
  next
    case False
    have v: "?v \<le> 0xFFFFFFF0" using less.prems(2) by (simp add: word_le_nat_alt)
    have ck: "unat (proc_key (procs k) ?c) \<le> ?v + 1"
    proof -
      have "unat (max 1 (pr_vruntime p)) \<le> ?v + 1" by (simp add: max_def)
      then show ?thesis using less.prems(4) by (meson order_trans word_le_nat_alt)
    qed
    have "unat (proc_key (procs k) ?c + 10) = unat (proc_key (procs k) ?c) + 10"
      using unat_Suc_small [of "proc_key (procs k) ?c" 10] ck v by simp
    then have cless: "?v + 11 - unat (proc_key (procs k') ?c) < ?v + 11 - unat (proc_key (procs k) ?c)"
      using t(8) ck by simp
    have "?v + 11 - unat (proc_key (procs k') y) \<le> ?v + 11 - unat (proc_key (procs k) y)" if "y \<noteq> ?c" for y
      using t(6) [of y] t(7) that by (cases "y = m") (auto simp: word_le_nat_alt)
    then have "lag ?v (procs k') xs < lag ?v (procs k) xs"
      unfolding lag_def using less.prems(3) cless by (intro lag_less [of _ ?c]) auto
    from less.hyps [OF this _ less.prems(2)] t(2,3,5) False
    obtain n k'' where "run_ticks n k' = Some k''" "current_process k'' = x" by blast
    then have "run_ticks (Suc n) k = Some k'' \<and> current_process k'' = x" using t(1) by simp
    then show ?thesis by blast
  qed
qed

text \<open>C15: the process scheduler starves nobody: while some process runs, every \<open>READY\<close> process of the queue
  becomes the current process after finitely many ticks of the timer, provided its virtual run time is
  not within 15 of the wrap-around.\<close>

theorem ready_process_runs:
  assumes "proc_path (procs k) (sched_queue k) xs" and "x \<in> set xs"
    and "procs k x = Some p" and "pr_state p = PROC_READY" and "pr_vruntime p \<le> 0xFFFFFFF0"
    and "procs k (current_process k) = Some c" and "pr_state c = PROC_RUNNING" and "current_process k \<noteq> 0"
  shows "\<exists>n k'. run_ticks n k = Some k' \<and> current_process k' = x"
proof -
  have "waiting x p xs k" using assms by (auto simp: waiting_def)
  then obtain k' m where t: "sched_proc_tick k = Some k'" "current_process k' = m" "m \<in> set xs"
    "m = x \<or> waiting x p xs k' \<and> proc_key (procs k') m \<le> max 1 (pr_vruntime p)"
    using tick_waiting by blast
  have "\<exists>n k''. run_ticks n k' = Some k'' \<and> current_process k'' = x"
  proof (cases "m = x")
    case True
    then show ?thesis using t(2) by (intro exI [of _ 0]) auto
  next
    case False
    then show ?thesis using t assms(5) by (intro runs_from) auto
  qed
  then obtain n k'' where "run_ticks n k' = Some k''" "current_process k'' = x" by blast
  then have "run_ticks (Suc n) k = Some k'' \<and> current_process k'' = x" using t(1) by simp
  then show ?thesis by blast
qed

section \<open>The address space of a process\<close>

abbreviation user_stack_region :: "u32 set" where "user_stack_region \<equiv> region 0xBFEFFFFF 256"
abbreviation user_heap_region :: "u32 set" where "user_heap_region \<equiv> region 0x08100000 16"
abbreviation kernel_region :: "u32 set" where "kernel_region \<equiv> region 0 1024"

lemma process_regions:
  "page_of w \<in> user_stack_region \<longleftrightarrow> 0xBFEFF \<le> unat w div 4096 \<and> unat w div 4096 < 0xBFFFF"
  "page_of w \<in> user_heap_region \<longleftrightarrow> 0x8100 \<le> unat w div 4096 \<and> unat w div 4096 < 0x8110"
  "page_of w \<in> kernel_region \<longleftrightarrow> unat w div 4096 < 1024"
  by (simp_all add: region_iff)

text \<open>With frames enough, \<open>process_create\<close> gives the process 256 pages of stack and 16 of heap, each on
  a frame of its own that was free before, and no page but these and the identity-mapped first 4 MB
  changes.  The stack lies one page too low: the page of the initial stack pointer is not among them
  and stays as it was, so that the first push of a program in a fresh address space faults.\<close>

theorem process_address_space_correct:
  assumes "vmm_inv v" and "1568 \<le> card (free_frames (phys_mgr v))"
  shows "vmm_inv (process_address_space v)
    \<and> (\<exists>frame. inj_on frame (user_stack_region \<union> user_heap_region)
        \<and> frame ` (user_stack_region \<union> user_heap_region)
            \<subseteq> free_frames (phys_mgr v) - free_frames (phys_mgr (process_address_space v))
        \<and> (\<forall>w. page_of w \<in> user_stack_region \<union> user_heap_region
             \<longrightarrow> vmm_get_phys w (process_address_space v) = frame (page_of w) OR (w AND 0xFFF)))
    \<and> (\<forall>w. page_of w \<notin> user_stack_region \<union> user_heap_region \<union> kernel_region
             \<longrightarrow> vmm_get_phys w (process_address_space v) = vmm_get_phys w v)
    \<and> vmm_get_phys (PROC_STACK_BASE - 16) (process_address_space v) = vmm_get_phys (PROC_STACK_BASE - 16) v"
proof -
  let ?S = user_stack_region and ?H = user_heap_region
  define v1 where "v1 = map_identity 1024 0 (VMM_PRESENT OR VMM_WRITABLE) v"
  define v2 where "v2 = map_fresh 256 0xBFEFFFFF (VMM_PRESENT OR VMM_WRITABLE OR VMM_USER) v1"
  define v3 where "v3 = map_fresh 16 0x08100000 (VMM_PRESENT OR VMM_WRITABLE OR VMM_USER) v2"
  have eq: "process_address_space v = v3"
    by (simp add: process_address_space_def v1_def v2_def v3_def Let_def)
  have "1024 \<le> card (free_frames (phys_mgr v))" using assms(2) by simp
  note i = map_identity_correct [OF assms(1) this, of 0 "VMM_PRESENT OR VMM_WRITABLE", folded v1_def]
  have inv1: "vmm_inv v1" using i by blast
  have c1: "544 \<le> card (free_frames (phys_mgr v1))" using i assms(2) by linarith
  have fl: "(VMM_PRESENT OR VMM_WRITABLE OR VMM_USER) AND 0xFFFFF000 = 0" by simp
  have c1': "2 * 256 \<le> card (free_frames (phys_mgr v1))" using c1 by simp
  note m1 = map_fresh_correct [OF inv1 c1', of "0xBFEFFFFF" "VMM_PRESENT OR VMM_WRITABLE OR VMM_USER", folded v2_def]
  have inv2: "vmm_inv v2" and sub2: "free_frames (phys_mgr v2) \<subseteq> free_frames (phys_mgr v1)" using m1 by simp_all
  have "card (free_frames (phys_mgr v1)) \<le> card (free_frames (phys_mgr v2)) + 2 * 256"
    unfolding v2_def by (rule map_fresh_card [OF inv1 c1'])
  then have c2: "2 * 16 \<le> card (free_frames (phys_mgr v2))" using c1 by simp
  note m2 = map_fresh_correct [OF inv2 c2, of "0x08100000" "VMM_PRESENT OR VMM_WRITABLE OR VMM_USER", folded v3_def]
  have inv3: "vmm_inv v3" and sub3: "free_frames (phys_mgr v3) \<subseteq> free_frames (phys_mgr v2)" using m2 by simp_all
  have subi: "free_frames (phys_mgr v1) \<subseteq> free_frames (phys_mgr v)"
    using i by blast
  obtain f where f: "inj_on f ?S" "f ` ?S \<subseteq> free_frames (phys_mgr v1) - free_frames (phys_mgr v2)"
    "\<And>w. vmm_get_phys w v2 = (if page_of w \<in> ?S then f (page_of w) OR (w AND 0xFFF) else vmm_get_phys w v1)"
    using map_fresh_phys [OF inv1 c1' _ fl, of "0xBFEFFFFF", folded v2_def] by auto
  obtain g where g: "inj_on g ?H" "g ` ?H \<subseteq> free_frames (phys_mgr v2) - free_frames (phys_mgr v3)"
    "\<And>w. vmm_get_phys w v3 = (if page_of w \<in> ?H then g (page_of w) OR (w AND 0xFFF) else vmm_get_phys w v2)"
    using map_fresh_phys [OF inv2 c2 _ fl, of "0x08100000", folded v3_def] by auto
  have disj: "q \<notin> ?H" if "q \<in> ?S" for q
  proof -
    obtain w where "q = page_of w" using \<open>q \<in> ?S\<close> by (auto simp: region_def)
    then show ?thesis using that by (simp add: process_regions)
  qed
  define fr where "fr q = (if q \<in> ?S then f q else g q)" for q
  have img: "fr q = g q" if "q \<in> ?H" for q using that disj by (auto simp: fr_def)
  have inS: "fr q \<in> free_frames (phys_mgr v1) - free_frames (phys_mgr v2)" if "q \<in> ?S" for q
    using that f(2) by (auto simp: fr_def)
  have inH: "fr q \<in> free_frames (phys_mgr v2) - free_frames (phys_mgr v3)" if "q \<in> ?H" for q
    using that g(2) img by auto
  have "inj_on fr ?S" using f(1) by (simp add: fr_def inj_on_def)
  moreover have "inj_on fr ?H" using g(1) img by (auto simp: inj_on_def)
  moreover have "fr ` (?S - ?H) \<inter> fr ` (?H - ?S) = {}" using inS inH by fastforce
  ultimately have inj: "inj_on fr (?S \<union> ?H)" by (subst inj_on_Un) blast
  have frames: "fr ` (?S \<union> ?H) \<subseteq> free_frames (phys_mgr v) - free_frames (phys_mgr v3)"
    using inS inH sub2 sub3 subi by blast
  have trans: "vmm_get_phys w v3 = fr (page_of w) OR (w AND 0xFFF)" if "page_of w \<in> ?S \<union> ?H" for w
    using that img disj by (auto simp: f(3) g(3) fr_def)
  have id: "vmm_get_phys w v1 = vmm_get_phys w v" if "page_of w \<notin> kernel_region" for w
    using that i by (simp add: vmm_get_phys_pte)
  have other: "vmm_get_phys w v3 = vmm_get_phys w v" if "page_of w \<notin> ?S \<union> ?H \<union> kernel_region" for w
    using that id by (simp add: f(3) g(3))
  have "page_of (PROC_STACK_BASE - 16) \<notin> ?S \<union> ?H \<union> kernel_region" by (simp add: process_regions)
  then show ?thesis unfolding eq using inv3 inj frames trans other by blast
qed

section \<open>A machine with frames enough\<close>

text \<open>2048 frames, of which the first four are taken; the directory in frame 3 is empty.\<close>

definition vm_large :: vm where
  "vm_large = \<lparr>mem = \<lambda>_. 0, page_directory = 0x3000,
     phys_mgr = \<lparr>bitmap = 0xF # replicate 63 0, total_pages = 2048, free_pages = 2044\<rparr>,
     cr3 = 0x3000, cr0 = 0, tlb = Map.empty\<rparr>"

lemma vm_large_inv: "vmm_inv vm_large" and vm_large_frames: "card (free_frames (phys_mgr vm_large)) = 2044"
proof -
  let ?p = "phys_mgr vm_large"
  have f: "bit (0xF :: u32) q \<longleftrightarrow> q < 4" for q
  proof -
    have "(0xF :: u32) = mask 4" by (simp add: mask_eq_exp_minus_1)
    then show ?thesis by (simp only: bit_mask_iff) auto
  qed
  have used: "page_used ?p q \<longleftrightarrow> q < 4" if "q < 2048" for q
  proof -
    have "q div 32 < 64" using that by simp
    then have "bitmap ?p ! (q div 32) = (if q < 32 then 0xF else 0)"
      by (cases "q div 32") (auto simp: vm_large_def)
    then have "page_used ?p q = bit (if q < 32 then 0xF else 0 :: u32) (q mod 32)" by (simp only: page_used_def)
    then show ?thesis using f by (cases "q < 32") (simp_all only: if_True if_False mod_less bit_0_eq bot_apply simp_thms, auto)
  qed
  have fs: "free_set ?p = {4..<2048}" using used by (auto simp: free_set_def vm_large_def)
  then have "pmm_inv ?p" by (auto simp: pmm_inv_def pmm_wf_def) (auto simp: vm_large_def)
  moreover have "0x3000 \<notin> free_frames ?p"
  proof
    assume "0x3000 \<in> free_frames ?p"
    then obtain q where q: "q < 2048" "4 \<le> q" "0x3000 = of_nat q * (4096 :: u32)" by (auto simp: free_frames_def fs)
    have "unat (of_nat q * (4096 :: u32)) = q * 4096"
      using q(1) by (simp add: unat_word_ariths unsigned_of_nat take_bit_nat_def)
    then have "q * 4096 = 0x3000" using arg_cong [OF q(3), of unat] by simp
    then show False using q(2) by simp
  qed
  moreover have "\<not> pde_present vm_large i" for i by (simp add: pde_present_def vmm_pde_def vm_large_def)
  ultimately show "vmm_inv vm_large" by (intro vmm_invI) (simp_all add: vm_large_def frame_aligned_def)
  have "inj_on (\<lambda>q. of_nat q * (4096 :: u32)) {4..<2048}"
  proof (rule inj_onI)
    fix a b :: nat
    assume h: "a \<in> {4..<2048}" "b \<in> {4..<2048}" "of_nat a * (4096 :: u32) = of_nat b * 4096"
    have u: "unat (of_nat q * (4096 :: u32)) = q * 4096" if "q < 2048" for q
      using that by (simp add: unat_word_ariths unsigned_of_nat take_bit_nat_def)
    then have "a * 4096 = b * 4096" using h(1,2) arg_cong [OF h(3), of unat] by simp
    then show "a = b" by simp
  qed
  then show "card (free_frames ?p) = 2044" by (simp add: free_frames_def fs card_image)
qed

theorem process_address_space_correct_witness:
  "vmm_inv (process_address_space vm_large) \<and> vmm_get_phys 0xBFFFFFEF (process_address_space vm_large) = 0"
proof -
  have "vmm_get_phys 0xBFFFFFEF vm_large = 0" by (simp add: vmm_get_phys_def vm_large_def)
  then show ?thesis using process_address_space_correct [OF vm_large_inv] vm_large_frames by simp
qed

section \<open>Loading an image\<close>

definition vm_of :: "'a kern_scheme \<Rightarrow> vm" where
  "vm_of k = (k_vm k)\<lparr>phys_mgr := k_pmm k\<rparr>"

lemma vmm_get_phys_of [simp]: "vmm_get_phys w (vm_of k) = vmm_get_phys w (k_vm k)"
  by (simp add: vmm_get_phys_pte vm_of_def)

lemma k_on_vm_simps [simp]:
  "k_pmm (k_on_vm f k) = phys_mgr (f (vm_of k))" "k_vm (k_on_vm f k) = f (vm_of k)"
  "k_heap (k_on_vm f k) = k_heap k" "k_con (k_on_vm f k) = k_con k"
  "vm_of (k_on_vm f k) = f (vm_of k)" "k_on_vm f (k_on_vm g k) = k_on_vm (\<lambda>v. f (g v)) k"
  by (simp_all add: k_on_vm_def vm_of_def Let_def)

lemma elf_map_pages_fresh:
  assumes "vmm_inv (vm_of k)" and "2 * n \<le> card (free_frames (k_pmm k))"
    and "unat page + 4096 * n < 2 ^ 32" and "page_end = page + 4096 * of_nat n"
  shows "\<exists>k'. elf_map_pages page page_end flags k = Some (True, k')
    \<and> vm_of k' = map_fresh n page flags (vm_of k) \<and> k_heap k' = k_heap k \<and> k_con k' = k_con k"
  using assms
proof (induction n arbitrary: page k)
  case 0
  then show ?case by (subst elf_map_pages.simps) simp
next
  case (Suc n)
  have inv: "pmm_inv (phys_mgr (vm_of k))" using Suc.prems(1) by (simp add: vmm_inv_def)
  have ph: "phys_mgr (vm_of k) = k_pmm k" by (simp add: vm_of_def)
  obtain a p where a: "pmm_alloc_page (k_pmm k) = (a, p)" by fastforce
  then have a': "pmm_alloc_page (phys_mgr (vm_of k)) = (a, p)" by (simp add: ph)
  note t = vmm_inv_alloc [OF Suc.prems(1) a']
  let ?t = "(vm_of k)\<lparr>phys_mgr := p\<rparr>"
  have "free_frames (k_pmm k) \<noteq> {}" using Suc.prems(2) by auto
  then have a0: "a \<noteq> 0" using pmm_frames.alloc_fail [OF inv] a' by (auto simp: ph)
  have cp: "card (free_frames (k_pmm k)) \<le> card (free_frames p) + 1"
    using diff_card_le_card_Diff [of "{a}" "free_frames (k_pmm k)"] t(2) by (simp add: ph)
  then have "0 < card (free_frames p)" using Suc.prems(2) by simp
  then have room: "map_room page ?t" by (auto simp: map_room_def)
  define u where "u = vmm_map_page page a flags ?t"
  note u = vmm_map_page_pte [OF t(1) room u_def]
  obtain b where b: "free_frames (phys_mgr u) = free_frames p - {b}"
    using vmm_map_page_frames [OF t(1), of page a flags] unfolding u_def by auto
  have cu: "card (free_frames p) \<le> card (free_frames (phys_mgr u)) + 1"
    using diff_card_le_card_Diff [of "{b}" "free_frames p"] unfolding b by simp
  have up: "unat (page + 4096) = unat page + 4096" using unat_Suc_small [of page 4096] Suc.prems(3) by simp
  have lt: "page < page_end"
  proof -
    have "unat page_end = unat page + 4096 * Suc n"
      using unat_Suc_small [of page "4096 * Suc n"] Suc.prems(3,4) by simp
    then show ?thesis by (simp add: word_less_nat_alt)
  qed
  define k' where "k' = k_on_vm (vmm_map_page page a flags) (k\<lparr>k_pmm := p\<rparr>)"
  have vk: "vm_of k' = u" by (simp add: k'_def u_def vm_of_def)
  then have pk: "k_pmm k' = phys_mgr u" by (simp add: k'_def u_def vm_of_def)
  have "elf_map_pages page page_end flags k = elf_map_pages (page + 4096) page_end flags k'"
    using lt a a0 by (subst elf_map_pages.simps) (simp add: k_alloc_page_def k'_def)
  then have eq: "elf_map_pages page page_end flags k = elf_map_pages (page + 4096) page_end flags k'" .
  have mf: "map_fresh (Suc n) page flags (vm_of k) = map_fresh n (page + 4096) flags (vm_of k')"
    using a' a0 by (simp add: vk u_def)
  have "2 * n \<le> card (free_frames (k_pmm k'))" using cu cp Suc.prems(2) pk by simp
  moreover have "unat (page + 4096) + 4096 * n < 2 ^ 32" using up Suc.prems(3) by simp
  moreover have "page_end = page + 4096 + 4096 * of_nat n" using Suc.prems(4) by (simp add: algebra_simps)
  moreover have "vmm_inv (vm_of k')" using u(1) vk by simp
  moreover have "k_heap k' = k_heap k" "k_con k' = k_con k" by (simp_all add: k'_def)
  ultimately show ?case unfolding eq mf using Suc.IH [of k' "page + 4096"] by simp
qed

text \<open>Bytes written one after the other through the page tables.\<close>

primrec virt_put :: "u32 \<Rightarrow> u8 list \<Rightarrow> 'a kern_scheme \<Rightarrow> 'a kern_scheme option" where
  "virt_put v [] k = Some k"
| "virt_put v (b # bs) k = Option.bind (virt_write v b k) (virt_put (v + 1) bs)"

lemma virt_fill_put: "virt_fill n v c k = virt_put v (replicate n c) k"
  by (induction n arbitrary: v k) (auto cong: bind_option_cong)

lemma virt_copy_put:
  "off + n \<le> length d \<Longrightarrow> virt_copy n v d off k = virt_put v (take n (drop off d)) k"
  by (induction n arbitrary: v k off) (auto simp: Cons_nth_drop_Suc [symmetric] cong: bind_option_cong)

lemma virt_put_correct:
  assumes "\<And>i. i < length bs \<Longrightarrow> vmm_get_phys (v + of_nat i) (k_vm k) \<noteq> 0"
    and "inj_on (\<lambda>i. vmm_get_phys (v + of_nat i) (k_vm k)) {..<length bs}"
  shows "\<exists>m. virt_put v bs k = Some (k\<lparr>k_heap := (k_heap k)\<lparr>bytes := m\<rparr>\<rparr>)
    \<and> (\<forall>i < length bs. m (vmm_get_phys (v + of_nat i) (k_vm k)) = bs ! i)
    \<and> (\<forall>p. p \<notin> (\<lambda>i. vmm_get_phys (v + of_nat i) (k_vm k)) ` {..<length bs} \<longrightarrow> m p = bytes (k_heap k) p)"
  using assms
proof (induction bs arbitrary: v k)
  case Nil
  show ?case by (rule exI [of _ "bytes (k_heap k)"]) simp
next
  case (Cons b bs)
  let ?T = "\<lambda>i. vmm_get_phys (v + of_nat i) (k_vm k)"
  let ?k = "k\<lparr>k_heap := (k_heap k)\<lparr>bytes := (bytes (k_heap k))(?T 0 := b)\<rparr>\<rparr>"
  have w: "virt_write v b k = Some ?k" using Cons.prems(1) [of 0] by (simp add: virt_write_def)
  have shift: "vmm_get_phys (v + 1 + of_nat i) (k_vm ?k) = ?T (Suc i)" for i by (simp add: algebra_simps)
  have inj: "inj_on (\<lambda>i. ?T (Suc i)) {..<length bs}"
  proof (rule inj_onI)
    fix i j assume "i \<in> {..<length bs}" "j \<in> {..<length bs}" "?T (Suc i) = ?T (Suc j)"
    then have "Suc i = Suc j" by (intro inj_onD [OF Cons.prems(2)]) auto
    then show "i = j" by simp
  qed
  have nz: "?T (Suc i) \<noteq> 0" if "i < length bs" for i using Cons.prems(1) [of "Suc i"] that by simp
  obtain m where m: "virt_put (v + 1) bs ?k = Some (?k\<lparr>k_heap := (k_heap ?k)\<lparr>bytes := m\<rparr>\<rparr>)"
    "\<forall>i < length bs. m (?T (Suc i)) = bs ! i"
    "\<forall>p. p \<notin> (\<lambda>i. ?T (Suc i)) ` {..<length bs} \<longrightarrow> m p = bytes (k_heap ?k) p"
    using Cons.IH [of "v + 1" ?k, unfolded shift, OF nz inj] by blast
  have T0: "?T 0 \<notin> (\<lambda>i. ?T (Suc i)) ` {..<length bs}"
  proof
    assume "?T 0 \<in> (\<lambda>i. ?T (Suc i)) ` {..<length bs}"
    then obtain i where "i < length bs" "?T 0 = ?T (Suc i)" by auto
    then have "0 = Suc i" by (intro inj_onD [OF Cons.prems(2)]) auto
    then show False by simp
  qed
  then have m0: "m (?T 0) = b" using m(3) by simp
  have "m (?T i) = (b # bs) ! i" if "i < length (b # bs)" for i
    using that m(2) m0 by (cases i) auto
  moreover have "m p = bytes (k_heap k) p" if "p \<notin> ?T ` {..<length (b # bs)}" for p
  proof -
    have "p \<noteq> ?T 0" using that by (metis imageI length_greater_0_conv lessThan_iff list.distinct(1))
    moreover have "p \<notin> (\<lambda>i. ?T (Suc i)) ` {..<length bs}"
    proof
      assume "p \<in> (\<lambda>i. ?T (Suc i)) ` {..<length bs}"
      then obtain i where i: "i < length bs" "p = ?T (Suc i)" by blast
      have "?T (Suc i) \<in> ?T ` {..<length (b # bs)}" by (rule imageI) (simp add: i(1))
      then show False using that i(2) by blast
    qed
    ultimately show ?thesis using m(3) by simp
  qed
  moreover have "virt_put v (b # bs) k = Some (k\<lparr>k_heap := (k_heap k)\<lparr>bytes := m\<rparr>\<rparr>)"
    using m(1) w by simp
  ultimately show ?case by blast
qed

lemma frame_or_offset:
  assumes "frame_aligned a" and "frame_aligned b" and "a OR (v AND 0xFFF) = b OR (w AND (0xFFF :: u32))"
  shows "a = b" and "v AND 0xFFF = w AND 0xFFF"
proof -
  have *: "(a OR (v AND mask 12)) AND NOT (mask 12) = a" "(a OR (v AND mask 12)) AND mask 12 = v AND mask 12"
    if "frame_aligned a" for a v :: u32
  proof -
    have a: "a AND mask 12 = 0" using that by (simp add: frame_aligned_def offset_mask)
    have "a AND NOT (mask 12) = a" using frame_aligned_mask [OF that] frame_mask by simp
    then show "(a OR (v AND mask 12)) AND NOT (mask 12) = a"
      by (simp add: bit.conj_disj_distrib2 and.assoc)
    show "(a OR (v AND mask 12)) AND mask 12 = v AND mask 12"
      by (simp add: bit.conj_disj_distrib2 a and.assoc)
  qed
  show "a = b" "v AND 0xFFF = w AND 0xFFF"
    using *(1) [OF assms(1), of v] *(1) [OF assms(2), of w] *(2) [OF assms(1), of v] *(2) [OF assms(2), of w] assms(3)
    by (simp_all add: offset_mask)
qed

lemma page_offset_eq: "page_of v = page_of w \<Longrightarrow> v AND 0xFFF = w AND 0xFFF \<Longrightarrow> v = w"
proof -
  assume h: "page_of v = page_of w" "v AND 0xFFF = w AND 0xFFF"
  have "unat (x AND mask 12 :: u32) = unat x mod 4096" for x 
    by (simp add: take_bit_eq_mask [symmetric] unsigned_take_bit_eq take_bit_eq_mod unat_mod)
  then have "unat v mod 4096 = unat w mod 4096" using h(2) by (metis offset_mask)
  moreover have "unat v div 4096 = unat w div 4096" using h(1) by (metis unat_page_of)
  ultimately show "v = w" by (metis div_mult_mod_eq word_unat_eq_iff)
qed


text \<open>The pages of a segment: as many as its bytes touch.\<close>

definition seg_start :: "elf32_phdr \<Rightarrow> u32" where
  "seg_start h = p_vaddr h AND NOT 0xFFF"

definition seg_npages :: "elf32_phdr \<Rightarrow> nat" where
  "seg_npages h = (unat (p_vaddr h) mod 4096 + unat (p_memsz h) + 4095) div 4096"

definition seg_pages :: "elf32_phdr \<Rightarrow> u32 set" where
  "seg_pages h = region (seg_start h) (seg_npages h)"

definition seg_fits :: "elf32_phdr \<Rightarrow> u8 list \<Rightarrow> bool" where
  "seg_fits h d \<longleftrightarrow> unat (p_vaddr h) + unat (p_memsz h) + 0xFFF < 2 ^ 32 \<and> p_filesz h \<le> p_memsz h
     \<and> unat (p_offset h) + unat (p_filesz h) \<le> length d \<and> length d < 2 ^ 32"

lemma unat_seg_start: "unat (seg_start h) = unat (p_vaddr h) div 4096 * 4096"
proof -
  have "(NOT 0xFFF :: u32) = NOT (mask 12)" by (simp add: mask_eq_exp_minus_1)
  then show ?thesis unfolding seg_start_def using and_not_mask_unat [of "p_vaddr h" 12] by simp
qed

lemma div_add_mod: "v div 4096 + (v mod 4096 + m) div 4096 = (v + m) div (4096 :: nat)"
proof -
  have "v + m = (v mod 4096 + m) + v div 4096 * 4096" by simp
  then have "(v + m) div 4096 = (v mod 4096 + m + v div 4096 * 4096) div 4096" by (rule arg_cong)
  also have "\<dots> = v div 4096 + (v mod 4096 + m) div 4096" by (rule div_mult_self1) simp
  finally show ?thesis by simp
qed

lemma seg_pages_end:
  "unat (p_vaddr h) div 4096 + seg_npages h = (unat (p_vaddr h) + unat (p_memsz h) + 0xFFF) div 4096"
  using div_add_mod [of "unat (p_vaddr h)" "unat (p_memsz h) + 4095"] by (simp add: seg_npages_def add.assoc)

lemma seg_end:
  assumes "seg_fits h d"
  shows "(p_vaddr h + p_memsz h + 0xFFF) AND NOT 0xFFF = seg_start h + 4096 * of_nat (seg_npages h)"
    and "unat (seg_start h) + 4096 * seg_npages h < 2 ^ 32"
proof -
  let ?v = "unat (p_vaddr h)" and ?m = "unat (p_memsz h)"
  have lt: "?v + ?m + 0xFFF < 2 ^ 32" using assms by (simp add: seg_fits_def)
  have e: "?v div 4096 * 4096 + 4096 * seg_npages h = (?v + ?m + 0xFFF) div 4096 * 4096"
    unfolding seg_pages_end [symmetric] by simp
  also have "\<dots> \<le> ?v + ?m + 0xFFF" by simp
  finally show l: "unat (seg_start h) + 4096 * seg_npages h < 2 ^ 32" using lt unfolding unat_seg_start by linarith
  have "unat (p_vaddr h + p_memsz h + 0xFFF) = ?v + ?m + 0xFFF"
    using lt by (simp add: unat_word_ariths)
  moreover have "(NOT 0xFFF :: u32) = NOT (mask 12)" by (simp add: mask_eq_exp_minus_1)
  ultimately have "unat ((p_vaddr h + p_memsz h + 0xFFF) AND NOT 0xFFF) = (?v + ?m + 0xFFF) div 4096 * 4096"
    using and_not_mask_unat [of "p_vaddr h + p_memsz h + 0xFFF" 12] by simp
  moreover have "unat (seg_start h + 4096 * of_nat (seg_npages h)) = unat (seg_start h) + 4096 * seg_npages h"
    using unat_Suc_small [of "seg_start h" "4096 * seg_npages h"] l by simp
  ultimately show "(p_vaddr h + p_memsz h + 0xFFF) AND NOT 0xFFF = seg_start h + 4096 * of_nat (seg_npages h)"
    using e by (simp add: word_unat_eq_iff unat_seg_start)
qed

lemma seg_page:
  assumes "seg_fits h d" and "i < unat (p_memsz h)"
  shows "page_of (p_vaddr h + of_nat i) \<in> seg_pages h" and "unat (p_vaddr h + of_nat i) = unat (p_vaddr h) + i"
proof -
  let ?v = "unat (p_vaddr h)" and ?m = "unat (p_memsz h)"
  show u: "unat (p_vaddr h + of_nat i) = ?v + i"
    using assms by (intro unat_Suc_small) (simp add: seg_fits_def)
  have sd: "unat (seg_start h) div 4096 = ?v div 4096" by (simp add: unat_seg_start)
  note e = seg_pages_end [of h]
  have "unat (seg_start h) div 4096 + seg_npages h \<le> 2 ^ 20"
    using seg_end(2) [OF assms(1)] unat_seg_start [of h] by simp
  then have "page_of (p_vaddr h + of_nat i) \<in> seg_pages h \<longleftrightarrow> ?v div 4096 \<le> (?v + i) div 4096 \<and> (?v + i) div 4096 < (?v + ?m + 0xFFF) div 4096"
    unfolding seg_pages_def by (simp add: region_iff u sd e)
  moreover have "(?v + i) div 4096 < (?v + ?m + 0xFFF) div 4096"
  proof -
    have "(?v + i) + 4096 \<le> ?v + ?m + 0xFFF" using assms(2) by simp
    then have "((?v + i) + 4096) div 4096 \<le> (?v + ?m + 0xFFF) div 4096" by (rule div_le_mono)
    then show ?thesis by simp
  qed
  ultimately show "page_of (p_vaddr h + of_nat i) \<in> seg_pages h" by (simp add: div_le_mono)
qed

text \<open>A segment in memory as the image has it, on frames that are not free any more.\<close>

definition seg_loaded :: "elf32_phdr \<Rightarrow> u8 list \<Rightarrow> 'a kern_scheme \<Rightarrow> bool" where
  "seg_loaded h d k \<longleftrightarrow> (\<forall>i < unat (p_memsz h).
     virt_read (p_vaddr h + of_nat i) k
       = Some (if i < unat (p_filesz h) then d ! (unat (p_offset h) + i) else 0)
     \<and> vmm_get_phys (p_vaddr h + of_nat i) (k_vm k) AND 0xFFFFF000 \<notin> free_frames (k_pmm k))"

lemma or_offset_mask:
  assumes "frame_aligned a"
  shows "(a OR (v AND 0xFFF)) AND 0xFFFFF000 = (a :: u32)"
proof -
  have "((a OR (v AND 0xFFF)) AND 0xFFFFF000) = (a AND 0xFFFFF000) OR (v AND (0xFFF AND 0xFFFFF000))"
    by (simp only: bit.conj_disj_distrib2 and.assoc)
  then show ?thesis using frame_aligned_mask [OF assms] by simp
qed

lemma elf_load_segment_correct:
  assumes inv: "vmm_inv (vm_of k)" and fit: "seg_fits h d"
    and room: "2 * seg_npages h \<le> card (free_frames (k_pmm k))"
    and sz: "unat sz = length d"
  shows "\<exists>k'. elf_load_segment h d sz k = Some (True, k') \<and> vmm_inv (vm_of k') \<and> seg_loaded h d k'
    \<and> (\<forall>w. page_of w \<notin> seg_pages h \<longrightarrow> vmm_get_phys w (k_vm k') = vmm_get_phys w (k_vm k))
    \<and> (\<forall>p. p AND 0xFFFFF000 \<notin> free_frames (k_pmm k) \<longrightarrow> bytes (k_heap k') p = bytes (k_heap k) p)
    \<and> free_frames (k_pmm k') \<subseteq> free_frames (k_pmm k) \<and> k_con k' = k_con k
    \<and> card (free_frames (k_pmm k)) \<le> card (free_frames (k_pmm k')) + 2 * seg_npages h
    \<and> inj_on (\<lambda>i. vmm_get_phys (p_vaddr h + of_nat i) (k_vm k')) {..<unat (p_memsz h)}"
proof -
  let ?n = "seg_npages h" and ?fl = "segment_flags h" and ?F = "free_frames (k_pmm k)"
  let ?v = "p_vaddr h" and ?m = "unat (p_memsz h)" and ?f = "unat (p_filesz h)"
  note se = seg_end [OF fit]
  have ph: "phys_mgr (vm_of s) = k_pmm s" for s :: "'a kern_scheme" by (simp add: vm_of_def)
  have pinv: "pmm_inv (k_pmm k)" using inv by (simp add: vmm_inv_def ph)
  obtain k1 where k1: "elf_map_pages (seg_start h) ((?v + p_memsz h + 0xFFF) AND NOT 0xFFF) ?fl k = Some (True, k1)"
    "vm_of k1 = map_fresh ?n (seg_start h) ?fl (vm_of k)" "k_heap k1 = k_heap k" "k_con k1 = k_con k"
    using elf_map_pages_fresh [OF inv room se(2,1)] by blast
  have room': "2 * ?n \<le> card (free_frames (phys_mgr (vm_of k)))" using room by (simp add: ph)
  have n: "?n \<le> 2 ^ 20" using se(2) by simp
  have fl: "?fl AND 0xFFFFF000 = 0" by (simp add: segment_flags_def)
  have mf: "vmm_inv (vm_of k1)" "free_frames (k_pmm k1) \<subseteq> ?F"
    using map_fresh_correct [OF inv room' n, of "seg_start h" ?fl] unfolding k1(2) [symmetric] ph by auto
  have card: "card ?F \<le> card (free_frames (k_pmm k1)) + 2 * ?n"
    using map_fresh_card [OF inv room', of "seg_start h" ?fl] unfolding k1(2) [symmetric] ph .
  obtain fr where fr: "inj_on fr (seg_pages h)" "fr ` seg_pages h \<subseteq> ?F - free_frames (k_pmm k1)"
    "\<And>w. vmm_get_phys w (k_vm k1) = (if page_of w \<in> seg_pages h then fr (page_of w) OR (w AND 0xFFF) else vmm_get_phys w (k_vm k))"
    using map_fresh_phys [OF inv room' n fl, of "seg_start h"]
    unfolding k1(2) [symmetric] ph seg_pages_def [symmetric] vmm_get_phys_of by blast
  let ?T = "\<lambda>i. vmm_get_phys (?v + of_nat i) (k_vm k1)"
  have al: "frame_aligned (fr q)" "fr q \<noteq> 0" if "q \<in> seg_pages h" for q
    using that fr(2) free_frame_aligned [OF pinv] pmm_frames.frames_aligned [OF pinv] by blast+
  have T: "?T i = fr (page_of (?v + of_nat i)) OR ((?v + of_nat i) AND 0xFFF)" if "i < ?m" for i
    using fr(3) seg_page(1) [OF fit that] by simp
  have Tm: "?T i AND 0xFFFFF000 = fr (page_of (?v + of_nat i))" if "i < ?m" for i
    using T [OF that] or_offset_mask [OF al(1) [OF seg_page(1) [OF fit that]]] by simp
  have Tnz: "?T i \<noteq> 0" if "i < ?m" for i
    using Tm [OF that] al(2) [OF seg_page(1) [OF fit that]] by auto
  have Tinj: "inj_on ?T {..<?m}"
  proof (rule inj_onI)
    fix i j assume ij: "i \<in> {..<?m}" "j \<in> {..<?m}" "?T i = ?T j"
    then have lt: "i < ?m" "j < ?m" by auto
    note pi = seg_page [OF fit lt(1)] and pj = seg_page [OF fit lt(2)]
    note fo = frame_or_offset [OF al(1) [OF pi(1)] al(1) [OF pj(1)] ij(3) [unfolded T [OF lt(1)] T [OF lt(2)]]]
    have "page_of (?v + of_nat i) = page_of (?v + of_nat j)" by (rule inj_onD [OF fr(1) fo(1) pi(1) pj(1)])
    then have "?v + of_nat i = ?v + of_nat j" using fo(2) by (rule page_offset_eq)
    then have "unat (?v + of_nat i) = unat (?v + of_nat j)" by (rule arg_cong)
    then show "i = j" unfolding pi(2) pj(2) by (rule add_left_imp_eq)
  qed
  have frF: "fr (page_of (?v + of_nat i)) \<in> ?F - free_frames (k_pmm k1)" if "i < ?m" for i
    using fr(2) seg_page(1) [OF fit that] by blast
  have TF: "p AND 0xFFFFF000 \<in> ?F" if pl: "p \<in> ?T ` {..<l}" "l \<le> ?m" for p l
  proof -
    obtain i where "i < l" "p = ?T i" using pl(1) by blast
    then have i: "i < ?m" "p = ?T i" using pl(2) by auto
    show ?thesis unfolding i(2) Tm [OF i(1)] using frF [OF i(1)] by blast
  qed
  obtain m1 where m1: "virt_fill ?m ?v 0 k1 = Some (k1\<lparr>k_heap := (k_heap k1)\<lparr>bytes := m1\<rparr>\<rparr>)"
    "\<forall>i < ?m. m1 (?T i) = 0" "\<forall>p. p \<notin> ?T ` {..<?m} \<longrightarrow> m1 p = bytes (k_heap k1) p"
    using virt_put_correct [of "replicate ?m 0" ?v k1] Tnz Tinj unfolding virt_fill_put by auto
  define k2 where "k2 = k1\<lparr>k_heap := (k_heap k1)\<lparr>bytes := m1\<rparr>\<rparr>"
  have k2: "k_vm k2 = k_vm k1" "k_pmm k2 = k_pmm k1" "bytes (k_heap k2) = m1" "vm_of k2 = vm_of k1"
    by (simp_all add: k2_def vm_of_def)
  let ?bs = "take ?f (drop (unat (p_offset h)) d)"
  have fm: "?f \<le> ?m" and od: "unat (p_offset h) + ?f \<le> length d"
    using fit by (simp_all add: seg_fits_def word_le_nat_alt)
  then have lbs: "length ?bs = ?f" by simp
  have "unat (p_offset h + p_filesz h) = unat (p_offset h) + ?f"
    using od fit by (simp add: seg_fits_def unat_word_ariths)
  then have ok: "p_offset h + p_filesz h \<le> sz" using od sz by (simp add: word_le_nat_alt)
  have Tf: "\<And>i. i < length ?bs \<Longrightarrow> vmm_get_phys (?v + of_nat i) (k_vm k2) \<noteq> 0"
    "inj_on (\<lambda>i. vmm_get_phys (?v + of_nat i) (k_vm k2)) {..<length ?bs}"
    using Tnz fm Tinj unfolding lbs k2 by (auto intro: inj_on_subset)
  obtain m2 where m2: "virt_copy ?f ?v d (unat (p_offset h)) k2 = Some (k2\<lparr>k_heap := (k_heap k2)\<lparr>bytes := m2\<rparr>\<rparr>)"
    "\<forall>i < ?f. m2 (?T i) = d ! (unat (p_offset h) + i)" "\<forall>p. p \<notin> ?T ` {..<?f} \<longrightarrow> m2 p = m1 p"
    using virt_put_correct [OF Tf] od unfolding virt_copy_put [OF od] lbs k2 by (auto simp: add.commute)
  define k3 where "k3 = k2\<lparr>k_heap := (k_heap k2)\<lparr>bytes := m2\<rparr>\<rparr>"
  have k3: "k_vm k3 = k_vm k1" "k_pmm k3 = k_pmm k1" "bytes (k_heap k3) = m2" "vm_of k3 = vm_of k1" "k_con k3 = k_con k"
    by (simp_all add: k3_def k2 k2_def vm_of_def k1(4))
  have copy: "(if p_filesz h > 0 \<and> p_offset h + p_filesz h \<le> sz
            then virt_copy ?f ?v d (unat (p_offset h)) k2 else Some k2) = Some k3"
  proof (cases "p_filesz h > 0")
    case True
    then show ?thesis using ok m2(1) by (simp add: k3_def)
  next
    case False
    then have f0: "p_filesz h = 0" by (simp add: word_greater_zero_iff)
    then have "Some k3 = Some k2" using m2(1) by (simp add: k3_def)
    then show ?thesis using f0 by simp
  qed
  have run: "elf_load_segment h d sz k = Some (True, k3)"
    using k1(1) m1(1) copy unfolding elf_load_segment_def Let_def seg_start_def [symmetric] k2_def [symmetric] by simp
  have val: "m2 (?T i) = (if i < ?f then d ! (unat (p_offset h) + i) else 0)" if "i < ?m" for i
  proof (cases "i < ?f")
    case False
    have "?T i \<notin> ?T ` {..<?f}"
    proof
      assume "?T i \<in> ?T ` {..<?f}"
      then obtain j where j: "j < ?f" "?T i = ?T j" by auto
      then have "i = j" using that fm by (intro inj_onD [OF Tinj]) auto
      then show False using j False by simp
    qed
    then show ?thesis using False m2(3) m1(2) that by simp
  qed (use m2(2) in simp)
  have fresh: "?T i AND 0xFFFFF000 \<notin> free_frames (k_pmm k3)" if "i < ?m" for i
    unfolding k3 Tm [OF that] using frF [OF that] by blast
  have "seg_loaded h d k3"
    unfolding seg_loaded_def virt_read_def Let_def k3(1,3) using val fresh Tnz by simp
  moreover have "bytes (k_heap k3) p = bytes (k_heap k) p" if "p AND 0xFFFFF000 \<notin> ?F" for p
  proof -
    have "p \<notin> ?T ` {..<?m}" "p \<notin> ?T ` {..<?f}" using TF [of p ?m] TF [of p ?f] fm that by auto
    then show ?thesis using m2(3) m1(3) k1(3) by (simp add: k3(3))
  qed
  moreover have "vmm_get_phys w (k_vm k3) = vmm_get_phys w (k_vm k)" if "page_of w \<notin> seg_pages h" for w
    using that fr(3) by (simp add: k3(1))
  ultimately show ?thesis using run mf card k3(2,4,5) Tinj k3(1) by (intro exI [of _ k3]) simp
qed

lemma seg_loaded_frame:
  assumes "seg_loaded g d k" and "seg_fits g d"
    and "\<And>w. page_of w \<in> seg_pages g \<Longrightarrow> vmm_get_phys w (k_vm k') = vmm_get_phys w (k_vm k)"
    and "\<And>p. p AND 0xFFFFF000 \<notin> free_frames (k_pmm k) \<Longrightarrow> bytes (k_heap k') p = bytes (k_heap k) p"
    and "free_frames (k_pmm k') \<subseteq> free_frames (k_pmm k)"
  shows "seg_loaded g d k'"
  unfolding seg_loaded_def
proof (intro allI impI conjI)
  fix i assume i: "i < unat (p_memsz g)"
  let ?w = "p_vaddr g + of_nat i"
  have v: "virt_read ?w k = Some (if i < unat (p_filesz g) then d ! (unat (p_offset g) + i) else 0)"
    "vmm_get_phys ?w (k_vm k) AND 0xFFFFF000 \<notin> free_frames (k_pmm k)"
    using assms(1) i unfolding seg_loaded_def by blast+
  have w: "vmm_get_phys ?w (k_vm k') = vmm_get_phys ?w (k_vm k)" by (rule assms(3) [OF seg_page(1) [OF assms(2) i]])
  show "virt_read ?w k' = Some (if i < unat (p_filesz g) then d ! (unat (p_offset g) + i) else 0)"
    using v assms(4) [OF v(2)] unfolding virt_read_def Let_def w by (simp split: if_splits)
  show "vmm_get_phys ?w (k_vm k') AND 0xFFFFF000 \<notin> free_frames (k_pmm k')"
    using v(2) assms(5) unfolding w by blast
qed

lemma elf_segments_correct:
  fixes k :: "'a kern_scheme"
  assumes "\<And>i. i < length hs \<Longrightarrow> read_phdr d (ph + 32 * i) = Some (hs ! i)"
    and "\<forall>h \<in> set hs. p_type h = PT_LOAD \<longrightarrow> seg_fits h d"
    and "sorted_wrt (\<lambda>g h. seg_pages g \<inter> seg_pages h = {}) (filter (\<lambda>h. p_type h = PT_LOAD) hs)"
    and "vmm_inv (vm_of k)" and "unat sz = length d"
    and "2 * sum_list (map seg_npages (filter (\<lambda>h. p_type h = PT_LOAD) hs)) \<le> card (free_frames (k_pmm k))"
  shows "\<exists>k' :: 'a kern_scheme. elf_segments (length hs) ph count d sz k
        = Some (Some (count + of_nat (length (filter (\<lambda>h. p_type h = PT_LOAD) hs))), k')
    \<and> vmm_inv (vm_of k') \<and> (\<forall>h \<in> set hs. p_type h = PT_LOAD \<longrightarrow> seg_loaded h d k')
    \<and> (\<forall>w. (\<forall>h \<in> set hs. p_type h = PT_LOAD \<longrightarrow> page_of w \<notin> seg_pages h) \<longrightarrow> vmm_get_phys w (k_vm k') = vmm_get_phys w (k_vm k))
    \<and> (\<forall>p. p AND 0xFFFFF000 \<notin> free_frames (k_pmm k) \<longrightarrow> bytes (k_heap k') p = bytes (k_heap k) p)
    \<and> free_frames (k_pmm k') \<subseteq> free_frames (k_pmm k) \<and> k_con k' = k_con k"
  using assms
proof (induction hs arbitrary: ph count k)
  case Nil
  then show ?case by simp
next
  case (Cons h hs)
  have h: "read_phdr d ph = Some h" using Cons.prems(1) [of 0] by simp
  have tail: "read_phdr d (ph + 32 + 32 * i) = Some (hs ! i)" if "i < length hs" for i
    using Cons.prems(1) [of "Suc i"] that by (simp add: algebra_simps)
  have fits: "\<forall>h \<in> set hs. p_type h = PT_LOAD \<longrightarrow> seg_fits h d" using Cons.prems(2) by simp
  show ?case
  proof (cases "p_type h = PT_LOAD")
    case False
    note ih = Cons.IH [OF tail fits, of k count]
    have "elf_segments (length (h # hs)) ph count d sz k = elf_segments (length hs) (ph + 32) count d sz k"
      using h False by simp
    then show ?thesis using ih Cons.prems(3-6) False by simp
  next
    case True
    have hf: "seg_fits h d" using Cons.prems(2) True by simp
    have "2 * seg_npages h \<le> card (free_frames (k_pmm k))" using Cons.prems(6) True by simp
    from elf_load_segment_correct [OF Cons.prems(4) hf this Cons.prems(5)]
    obtain k1 where k1: "elf_load_segment h d sz k = Some (True, k1)" "vmm_inv (vm_of k1)" "seg_loaded h d k1"
      "\<forall>w. page_of w \<notin> seg_pages h \<longrightarrow> vmm_get_phys w (k_vm k1) = vmm_get_phys w (k_vm k)"
      "\<forall>p. p AND 0xFFFFF000 \<notin> free_frames (k_pmm k) \<longrightarrow> bytes (k_heap k1) p = bytes (k_heap k) p"
      "free_frames (k_pmm k1) \<subseteq> free_frames (k_pmm k)"
      "card (free_frames (k_pmm k)) \<le> card (free_frames (k_pmm k1)) + 2 * seg_npages h" "k_con k1 = k_con k"
      by blast
    have srt: "sorted_wrt (\<lambda>g h. seg_pages g \<inter> seg_pages h = {}) (filter (\<lambda>h. p_type h = PT_LOAD) hs)"
      and dis: "\<And>g. g \<in> set hs \<Longrightarrow> p_type g = PT_LOAD \<Longrightarrow> seg_pages h \<inter> seg_pages g = {}"
      using Cons.prems(3) True by auto
    have "2 * sum_list (map seg_npages (filter (\<lambda>h. p_type h = PT_LOAD) hs)) \<le> card (free_frames (k_pmm k1))"
      using Cons.prems(6) True k1(7) by simp
    from Cons.IH [OF tail fits srt k1(2) Cons.prems(5) this, of "count + 1"]
    obtain k2 where k2: "elf_segments (length hs) (ph + 32) (count + 1) d sz k1
        = Some (Some (count + 1 + of_nat (length (filter (\<lambda>h. p_type h = PT_LOAD) hs))), k2)"
      "vmm_inv (vm_of k2)" "\<forall>h \<in> set hs. p_type h = PT_LOAD \<longrightarrow> seg_loaded h d k2"
      "\<forall>w. (\<forall>h \<in> set hs. p_type h = PT_LOAD \<longrightarrow> page_of w \<notin> seg_pages h) \<longrightarrow> vmm_get_phys w (k_vm k2) = vmm_get_phys w (k_vm k1)"
      "\<forall>p. p AND 0xFFFFF000 \<notin> free_frames (k_pmm k1) \<longrightarrow> bytes (k_heap k2) p = bytes (k_heap k1) p"
      "free_frames (k_pmm k2) \<subseteq> free_frames (k_pmm k1)" "k_con k2 = k_con k1" by blast
    have "seg_loaded h d k2"
    proof (rule seg_loaded_frame [OF k1(3) hf])
      show "vmm_get_phys w (k_vm k2) = vmm_get_phys w (k_vm k1)" if "page_of w \<in> seg_pages h" for w
        using that dis k2(4) by blast
    qed (use k2 in blast)+
    moreover have "elf_segments (length (h # hs)) ph count d sz k
        = Some (Some (count + of_nat (length (filter (\<lambda>h. p_type h = PT_LOAD) (h # hs)))), k2)"
      using h True k1(1) k2(1) by (simp add: algebra_simps)
    moreover have "bytes (k_heap k2) p = bytes (k_heap k) p" if "p AND 0xFFFFF000 \<notin> free_frames (k_pmm k)" for p
      using that k2(5) k1(5,6) by (metis subsetD)
    moreover have "free_frames (k_pmm k2) \<subseteq> free_frames (k_pmm k)" using k2(6) k1(6) by blast
    moreover have "vmm_get_phys w (k_vm k2) = vmm_get_phys w (k_vm k)"
      if "\<forall>g \<in> set (h # hs). p_type g = PT_LOAD \<longrightarrow> page_of w \<notin> seg_pages g" for w
      using that True k2(4) k1(4) by simp
    ultimately show ?thesis using k2(2,3,7) k1(8) by (intro exI [of _ k2]) simp
  qed
qed

text \<open>C16: an image whose loadable segments lie inside the file, do not wrap around the address space and
  share no page is loaded exactly, given frames enough: every byte of every segment reads back through
  the page tables as the byte of the file, or 0 beyond \<open>p_filesz\<close>; no translation outside the segments
  changes, and no memory but frames that were free.\<close>

theorem elf_load_segments_correct:
  fixes k :: "'a kern_scheme"
  assumes "elf_validate (Some d) sz = Some True" and "unat sz = length d"
    and "e_phoff d = Some off" and "e_phnum d = Some n" and "e_entry d = Some entry"
    and "length hs = unat n" and "\<And>i. i < length hs \<Longrightarrow> read_phdr d (unat off + 32 * i) = Some (hs ! i)"
    and "\<forall>h \<in> set hs. p_type h = PT_LOAD \<longrightarrow> seg_fits h d"
    and "sorted_wrt (\<lambda>g h. seg_pages g \<inter> seg_pages h = {}) (filter (\<lambda>h. p_type h = PT_LOAD) hs)"
    and "vmm_inv (vm_of k)"
    and "2 * sum_list (map seg_npages (filter (\<lambda>h. p_type h = PT_LOAD) hs)) \<le> card (free_frames (k_pmm k))"
    and "vga_ok (k_con k)"
  shows "\<exists>k' :: 'a kern_scheme. elf_load_segments (Some d) sz k = Some (0, k') \<and> vmm_inv (vm_of k')
    \<and> (\<forall>h \<in> set hs. p_type h = PT_LOAD \<longrightarrow> seg_loaded h d k')
    \<and> (\<forall>w. (\<forall>h \<in> set hs. p_type h = PT_LOAD \<longrightarrow> page_of w \<notin> seg_pages h) \<longrightarrow> vmm_get_phys w (k_vm k') = vmm_get_phys w (k_vm k))
    \<and> (\<forall>p. p AND 0xFFFFF000 \<notin> free_frames (k_pmm k) \<longrightarrow> bytes (k_heap k') p = bytes (k_heap k) p)"
proof -
  obtain k1 where k1: "elf_segments (length hs) (unat off) 0 d sz k
        = Some (Some (of_nat (length (filter (\<lambda>h. p_type h = PT_LOAD) hs))), k1)"
    "vmm_inv (vm_of k1)" "\<forall>h \<in> set hs. p_type h = PT_LOAD \<longrightarrow> seg_loaded h d k1"
    "\<forall>w. (\<forall>h \<in> set hs. p_type h = PT_LOAD \<longrightarrow> page_of w \<notin> seg_pages h) \<longrightarrow> vmm_get_phys w (k_vm k1) = vmm_get_phys w (k_vm k)"
    "\<forall>p. p AND 0xFFFFF000 \<notin> free_frames (k_pmm k) \<longrightarrow> bytes (k_heap k1) p = bytes (k_heap k) p"
    "k_con k1 = k_con k"
    using elf_segments_correct [OF assms(7,8,9,10,2,11), where count = 0] by auto
  let ?fmt = "''ELF: Loaded %u PT_LOAD segments, entry point at 0x%x'' @ [CHR 0x0A]"
  have "NUL \<notin> set ?fmt" by simp
  moreover have "\<exists>out. printk_text ?fmt [VA_word c, VA_word e] = Some out" for c e by simp
  ultimately obtain t where t: "k_printk ?fmt [VA_word (of_nat (length (filter (\<lambda>h. p_type h = PT_LOAD) hs))), VA_word entry] k1
      = Some (k1\<lparr>k_con := t\<rparr>)"
    using printk_defined [of "k_con k1" ?fmt] assms(12) k1(6) unfolding k_printk_def by (metis option.simps(9))
  let ?k = "k1\<lparr>k_con := t\<rparr>"
  have same: "vm_of ?k = vm_of k1" "k_vm ?k = k_vm k1" "k_heap ?k = k_heap k1" "k_pmm ?k = k_pmm k1"
    by (simp_all add: vm_of_def)
  have "seg_loaded h d ?k = seg_loaded h d k1" for h
    unfolding seg_loaded_def virt_read_def same ..
  moreover have "elf_load_segments (Some d) sz k = Some (0, ?k)"
    using assms(1,3,4,5) k1(1) t unfolding elf_load_segments_def by (simp add: assms(6))
  ultimately show ?thesis using k1(2-5) same by (intro exI [of _ ?k]) simp
qed

section \<open>At most one process runs\<close>

lemma more_pkern:
  assumes "kern.more k' = kern.more (k :: 'a pkern_scheme)"
  shows "procs k' = procs k" "current_process k' = current_process k" "proc_list k' = proc_list k"
    "sched_queue k' = sched_queue k"
  using assms by (cases k; cases k'; simp)+

lemma more_frame:
  "kern.more k' = kern.more (k :: 'a pkern_scheme) \<Longrightarrow> procs k' = procs k \<and> current_process k' = current_process k
     \<and> proc_list k' = proc_list k \<and> sched_queue k' = sched_queue k"
  using more_pkern [of k' k] by simp

lemma k_printk_more: "k_printk fmt args k = Some k' \<Longrightarrow> kern.more k' = kern.more k"
  by (auto simp: k_printk_def)

lemma k_kmalloc_more: "k_kmalloc n k = Some (Inr (p, k')) \<Longrightarrow> kern.more k' = kern.more k"
  by (auto simp: k_kmalloc_def obind_Some_Inr)

lemma k_kfree_more: "k_kfree p k = Some (Inr k') \<Longrightarrow> kern.more k' = kern.more k"
  by (auto simp: k_kfree_def obind_Some_Inr)

lemma k_alloc_page_more: "k_alloc_page k = (p, k') \<Longrightarrow> kern.more k' = kern.more k"
  by (auto simp: k_alloc_page_def Let_def split: prod.splits)

lemma k_on_vm_more: "kern.more (k_on_vm f k) = kern.more k"
  by (simp add: k_on_vm_def Let_def)

lemma virt_write_more: "virt_write v b k = Some k' \<Longrightarrow> kern.more k' = kern.more k"
  by (auto simp: virt_write_def Let_def split: if_splits)

lemma virt_fill_more: "virt_fill n v c k = Some k' \<Longrightarrow> kern.more k' = kern.more k"
  by (induction n arbitrary: v k) (auto split: bind_splits dest: virt_write_more)

lemma virt_copy_more: "virt_copy n v d off k = Some k' \<Longrightarrow> kern.more k' = kern.more k"
  by (induction n arbitrary: v k off) (auto split: bind_splits if_splits dest: virt_write_more)

lemmas elf_map_pages_induct = elf_map_pages.raw_induct [rotated 1, consumes 1, case_names step]

lemma elf_map_pages_more: "elf_map_pages page e fl k = Some r \<Longrightarrow> kern.more (snd r) = kern.more k"
proof (induction rule: elf_map_pages_induct)
  case (step elf_map_pages page e fl k r)
  then show ?case
    by (auto simp: k_on_vm_more split: if_splits prod.splits dest: k_alloc_page_more)
qed

lemma elf_load_segment_more: "elf_load_segment h d sz k = Some (ok, k') \<Longrightarrow> kern.more k' = kern.more k"
  by (auto simp: elf_load_segment_def Let_def split: bind_splits if_splits prod.splits
      dest!: elf_map_pages_more virt_fill_more virt_copy_more k_printk_more)

lemma elf_segments_more: "elf_segments n ph c d sz k = Some (r, k') \<Longrightarrow> kern.more k' = kern.more k"
  by (induction n arbitrary: ph c k) (auto split: bind_splits if_splits prod.splits dest!: elf_load_segment_more)

lemma elf_load_segments_more: "elf_load_segments data sz k = Some (r, k') \<Longrightarrow> kern.more k' = kern.more k"
  by (auto simp: elf_load_segments_def Let_def split: bind_splits if_splits option.splits
      dest!: elf_segments_more k_printk_more)

definition running_ok :: "'a pkern_scheme \<Rightarrow> bool" where
  "running_ok k \<longleftrightarrow> procs k 0 = None
     \<and> (\<forall>x p. procs k x = Some p \<longrightarrow> pr_state p = PROC_RUNNING \<longrightarrow> x = current_process k)"

lemma running_ok_more: "kern.more k' = kern.more k \<Longrightarrow> running_ok k \<Longrightarrow> running_ok k'"
  using more_pkern [of k' k] by (simp add: running_ok_def)

text \<open>The calls of the process table and of the scheduler, in any order.\<close>

inductive proc_step :: "pkern \<Rightarrow> pkern \<Rightarrow> bool" where
  create: "process_create name d n k = Some (Inr (a, k')) \<Longrightarrow> proc_step k k'"
| add: "sched_proc_add a k = Some k' \<Longrightarrow> proc_step k k'"
| remove: "sched_proc_remove a k = Some k' \<Longrightarrow> proc_step k k'"
| tick: "sched_proc_tick k = Some k' \<Longrightarrow> proc_step k k'"
| schedule: "schedule_process k = Some k' \<Longrightarrow> proc_step k k'"
| exit: "process_exit code k = Some k' \<Longrightarrow> proc_step k k'"
| destroy: "process_destroy a k = Some (Inr k') \<Longrightarrow> proc_step k k'"

lemma upd_proc_ok:
  "upd_proc a f k = Some k' \<Longrightarrow> running_ok k \<Longrightarrow> (\<And>p. procs k a = Some p \<Longrightarrow> pr_state (f p) = PROC_RUNNING \<Longrightarrow> pr_state p = PROC_RUNNING)
    \<Longrightarrow> running_ok k' \<and> current_process k' = current_process k \<and> sched_queue k' = sched_queue k"
  by (auto simp: upd_proc_def set_proc_def running_ok_def split: if_splits)

lemma free_proc_ok: "free_proc a k = Some (Inr k') \<Longrightarrow> running_ok k \<Longrightarrow> running_ok k'"
  by (auto simp: free_proc_def obind_Some_Inr running_ok_def split: if_splits dest!: k_kfree_more more_frame)

lemmas unlink_after_induct = unlink_after.raw_induct [rotated 1, consumes 1, case_names step]

lemma unlink_after_ok: "unlink_after a c k = Some k' \<Longrightarrow> running_ok k \<Longrightarrow> running_ok k'"
proof (induction rule: unlink_after_induct)
  case (step unlink_after a c k k')
  from step.hyps step.prems show ?case
    by (auto split: bind_splits if_splits dest: step.IH dest!: upd_proc_ok)
qed

lemmas best_scan_induct = best_scan.raw_induct [rotated 1, consumes 1, case_names step]

lemma best_scan_ready:
  "best_scan ps c b = Some r \<Longrightarrow> b = 0 \<or> (\<exists>p. ps b = Some p \<and> pr_state p = PROC_READY) \<Longrightarrow>
     r = 0 \<or> (\<exists>p. ps r = Some p \<and> pr_state p = PROC_READY)"
proof (induction rule: best_scan_induct)
  case (step best_scan ps c b r)
  from step.hyps step.prems show ?case
    by (auto split: bind_splits if_splits dest: step.IH)
qed

lemma schedule_process_ok:
  assumes "schedule_process k = Some k'" and "running_ok k"
  shows "running_ok k'"
proof (cases "k' = k")
  case False
  then obtain m k1 k2 p where m: "m \<noteq> 0"
    and k1: "(if current_process k \<noteq> 0
               then upd_proc (current_process k) (\<lambda>p. if pr_state p = PROC_RUNNING then p\<lparr>pr_state := PROC_READY\<rparr> else p) k
               else Some k) = Some k1"
    and k2: "upd_proc m (\<lambda>p. p\<lparr>pr_state := PROC_RUNNING\<rparr>) (k1\<lparr>current_process := m\<rparr>) = Some k2"
    and p: "procs k2 m = Some p"
    and k': "(if pr_vruntime p = 0
          then map_option (enter_userspace (pr_user_eip p) (pr_user_esp p)) (upd_proc m (\<lambda>p. p\<lparr>pr_vruntime := 1\<rparr>) (tss_set_kernel_stack (pr_esp0 p) k2))
          else Some (tss_set_kernel_stack (pr_esp0 p) k2)) = Some k'"
    using assms(1) by (auto simp: schedule_process_def Let_def split: if_splits bind_splits)
  have "(\<forall>x q. procs k1 x = Some q \<longrightarrow> pr_state q \<noteq> PROC_RUNNING) \<and> procs k1 0 = None"
  proof (cases "current_process k = 0")
    case True
    then have "k1 = k" using k1 by simp
    moreover have "procs k x = Some q \<Longrightarrow> pr_state q \<noteq> PROC_RUNNING" for x q
      using assms(2) True unfolding running_ok_def by (metis option.distinct(1))
    ultimately show ?thesis using assms(2) by (auto simp: running_ok_def)
  next
    case False
    then obtain c where c: "procs k (current_process k) = Some c"
      "procs k1 = (procs k)(current_process k \<mapsto> (if pr_state c = PROC_RUNNING then c\<lparr>pr_state := PROC_READY\<rparr> else c))"
      using k1 by (auto simp: upd_proc_def set_proc_def)
    show ?thesis unfolding c(2) using assms(2) False by (auto simp: running_ok_def)
  qed
  then have none: "procs k1 x = Some q \<Longrightarrow> pr_state q \<noteq> PROC_RUNNING" "procs k1 0 = None" for x q by blast+
  have "procs k2 x = Some q \<Longrightarrow> pr_state q = PROC_RUNNING \<Longrightarrow> x = current_process k2"
    and c2: "current_process k2 = m" and z2: "procs k2 0 = None" for x q
    using k2 none m by (auto simp: upd_proc_def set_proc_def split: if_splits)
  then have "running_ok k2" by (simp add: running_ok_def)
  then show ?thesis
    using k' p by (auto simp: upd_proc_def set_proc_def tss_set_kernel_stack_def enter_userspace_def running_ok_def split: if_splits)
qed (use assms in simp)

lemma sched_proc_tick_ok: "sched_proc_tick k = Some k' \<Longrightarrow> running_ok k \<Longrightarrow> running_ok k'"
  by (auto simp: sched_proc_tick_def split: bind_splits if_splits dest!: upd_proc_ok schedule_process_ok)

lemma sched_proc_add_ok: "sched_proc_add a k = Some k' \<Longrightarrow> running_ok k \<Longrightarrow> running_ok k'"
  by (auto simp: sched_proc_add_def upd_proc_def set_proc_def running_ok_def split: if_splits)

lemma sched_proc_remove_ok: "sched_proc_remove a k = Some k' \<Longrightarrow> running_ok k \<Longrightarrow> running_ok k'"
  by (auto simp: sched_proc_remove_def running_ok_def split: if_splits dest: unlink_after_ok [unfolded running_ok_def])

lemma process_exit_ok: "process_exit c k = Some k' \<Longrightarrow> running_ok k \<Longrightarrow> running_ok k'"
proof (cases "current_process k = 0")
  case False
  assume h: "process_exit c k = Some k'" "running_ok k"
  then obtain k1 k2 where "upd_proc (current_process k) (\<lambda>p. p\<lparr>pr_exit_code := c, pr_state := PROC_ZOMBIE\<rparr>) k = Some k1"
    "kern.more k2 = kern.more k1" "schedule_process k2 = Some k'"
    using False by (auto simp: process_exit_def split: bind_splits dest!: k_printk_more)
  moreover from this(1) h(2) have "running_ok k1" using upd_proc_ok by fastforce
  ultimately show ?thesis using schedule_process_ok running_ok_more by blast
qed (simp add: process_exit_def)

lemma process_destroy_ok: "process_destroy a k = Some (Inr k') \<Longrightarrow> running_ok k \<Longrightarrow> running_ok k'"
proof (cases "a = 0")
  case False
  assume h: "process_destroy a k = Some (Inr k')" "running_ok k"
  then obtain p :: process and k1 k2 k3 where
      k1: "(if proc_list k = a then Some (k\<lparr>proc_list := pr_next p\<rparr>)
                         else if proc_list k \<noteq> 0 then unlink_after a (proc_list k) k else Some k) = Some k1"
    and k2: "(if pr_kernel_stack p \<noteq> 0 then k_kfree (pr_kernel_stack p) k1 else Some (Inr k1)) = Some (Inr k2)"
    and k3: "upd_proc a (\<lambda>p. p\<lparr>pr_state := PROC_DEAD\<rparr>) k2 = Some k3" and k': "free_proc a k3 = Some (Inr k')"
    using False unfolding process_destroy_def
    by (simp add: obind_Some_Inr no_panic_def split del: if_split) blast
  have "running_ok k1" using k1 h(2) unlink_after_ok by (auto simp: running_ok_def split: if_splits)
  then have "running_ok k2" using k2 by (auto split: if_splits dest!: k_kfree_more intro: running_ok_more)
  then have "running_ok k3" using upd_proc_ok [OF k3] by simp
  then show ?thesis by (rule free_proc_ok [OF k'])
qed (simp add: process_destroy_def)


lemma set_proc_ok: "running_ok k \<Longrightarrow> a \<noteq> 0 \<Longrightarrow> pr_state p \<noteq> PROC_RUNNING \<Longrightarrow> running_ok (set_proc a p k)"
  by (auto simp: running_ok_def set_proc_def)

lemma process_finish_ok:
  assumes "process_finish a p d n k = Some (Inr (r, k'))" and "running_ok k" and "a \<noteq> 0"
  shows "running_ok k'"
proof -
  obtain e k1 where k1: "elf_load_segments d n k = Some (e, k1)"
    using assms(1) by (cases "elf_load_segments d n k") (auto simp: process_finish_def)
  have r1: "running_ok k1" by (rule running_ok_more [OF elf_load_segments_more [OF k1] assms(2)])
  show ?thesis
  proof (cases "e = 0")
    case False
    then show ?thesis using assms(1) k1 free_proc_ok [OF _ r1]
      by (auto simp: process_finish_def obind_Some_Inr)
  next
    case True
    then obtain en st k2 where k2: "k_kmalloc 8192 k1 = Some (Inr (st, k2))" "elf_get_entry d = Some en"
      using assms(1) k1 by (auto simp: process_finish_def obind_Some_Inr no_panic_def)
    have r2: "running_ok k2" by (rule running_ok_more [OF k_kmalloc_more [OF k2(1)] r1])
    show ?thesis
    proof (cases "st = 0")
      case True
      then show ?thesis using assms(1) k1 k2 \<open>e = 0\<close> free_proc_ok [OF _ r2]
        by (auto simp: process_finish_def obind_Some_Inr)
    next
      case False
      define q where "q = p\<lparr>pr_brk := PROC_HEAP_BASE, pr_brk_max := PROC_HEAP_BASE + 16 * 4096, pr_entry_point := en,
                 pr_user_eip := en, pr_user_esp := PROC_STACK_BASE - 16, pr_kernel_stack := st,
                 pr_esp0 := st + 8192, pr_fds := std_fds, pr_state := PROC_READY, pr_next := proc_list k2\<rparr>"
      have "pr_state q = PROC_READY" by (simp add: q_def)
      moreover have "\<exists>fm ar. k_printk fm ar (set_proc a q (k2\<lparr>proc_list := a\<rparr>)) = Some k'"
        using assms(1) k1 k2 \<open>e = 0\<close> False
        unfolding process_finish_def q_def by (auto simp: obind_Some_Inr no_panic_def Let_def)
      moreover have "running_ok (k2\<lparr>proc_list := a\<rparr>)" using r2 by (simp add: running_ok_def)
      ultimately have "running_ok (set_proc a q (k2\<lparr>proc_list := a\<rparr>))" "\<exists>fm ar. k_printk fm ar (set_proc a q (k2\<lparr>proc_list := a\<rparr>)) = Some k'"
        using assms(3) by (auto intro: set_proc_ok)
      then show ?thesis using running_ok_more k_printk_more by blast
    qed
  qed
qed

lemma process_create_ok:
  assumes "process_create name d n k = Some (Inr (r, k'))" and "running_ok k"
  shows "running_ok k'"
proof -
  obtain v where v: "elf_validate d n = Some v"
    using assms(1) by (cases "elf_validate d n") (auto simp: process_create_def)
  show ?thesis
  proof (cases v)
    case False
    then show ?thesis using assms v
      by (auto simp: process_create_def obind_Some_Inr no_panic_def dest!: k_printk_more intro: running_ok_more)
  next
    case True
    then obtain a k1 where k1: "k_kmalloc PROC_BYTES k = Some (Inr (a, k1))"
      using assms(1) v by (auto simp: process_create_def obind_Some_Inr)
    have r1: "running_ok k1" by (rule running_ok_more [OF k_kmalloc_more [OF k1] assms(2)])
    show ?thesis
    proof (cases "a = 0")
      case True
      then show ?thesis using assms(1) v \<open>v\<close> k1 r1 by (auto simp: process_create_def)
    next
      case False
      obtain pd k2 where k2: "k_alloc_page (k1\<lparr>proc_next_pid := proc_next_pid k1 + 1\<rparr>) = (pd, k2)" by fastforce
      obtain nm where nm: "strncpy (pr_name zero_process) (case name of None \<Rightarrow> ''user_proc'' @ [NUL] | Some n \<Rightarrow> n) 63 = Some nm"
        using assms(1) v \<open>v\<close> k1 False
        by (cases "strncpy (pr_name zero_process) (case name of None \<Rightarrow> ''user_proc'' @ [NUL] | Some n \<Rightarrow> n) 63")
          (auto simp: process_create_def)
      have "running_ok (k1\<lparr>proc_next_pid := proc_next_pid k1 + 1\<rparr>)" using r1 by (simp add: running_ok_def)
      then have r2: "running_ok k2" using running_ok_more [OF k_alloc_page_more [OF k2]] by simp
      define p where "p = zero_process\<lparr>pr_pid := proc_next_pid k1, pr_name := nm, pr_state := PROC_NEW, pr_page_directory := pd\<rparr>"
      have r3: "running_ok (set_proc a p k2)" using set_proc_ok [OF r2 False] by (simp add: p_def)
      define k3 where "k3 = k_on_vm process_address_space (k_on_vm (\<lambda>v. v\<lparr>mem := fill_table pd (\<lambda>i. 0) (mem v)\<rparr>) (set_proc a p k2))"
      have "running_ok k3"
        by (rule running_ok_more [OF _ r3]) (simp only: k3_def k_on_vm_more)
      moreover have "(if pd = 0 then obind (free_proc a (set_proc a p k2)) (\<lambda>k. Some (Inr (0, k)))
          else process_finish a p d n k3) = Some (Inr (r, k'))"
        unfolding k3_def p_def using assms(1) v \<open>v\<close> k1 k2 nm False
        by (simp add: process_create_def Let_def del: k_on_vm_simps split del: if_split)
      ultimately show ?thesis
        using free_proc_ok [OF _ r3] process_finish_ok [OF _ _ False] by (auto simp: obind_Some_Inr split: if_splits)
    qed
  qed
qed

text \<open>Whatever sequence of calls is made, at most one process is in the state \<open>RUNNING\<close>, and it is the
  current process.\<close>

theorem one_process_runs:
  assumes "proc_step\<^sup>*\<^sup>* k k'" and "running_ok k"
    and "procs k' x = Some p" and "pr_state p = PROC_RUNNING"
  shows "x = current_process k' \<and> running_ok k'"
proof -
  have "running_ok k'" using assms(1,2)
  proof (induction rule: rtranclp_induct)
    case (step y z)
    from step(2,3) step(4) show ?case
      by (cases rule: proc_step.cases)
        (auto intro: process_create_ok sched_proc_add_ok sched_proc_remove_ok sched_proc_tick_ok
           schedule_process_ok process_exit_ok process_destroy_ok)
  qed
  then show ?thesis using assms(3,4) by (auto simp: running_ok_def)
qed

section \<open>One link for two lists\<close>

text \<open>\<open>next\<close> links a process into the process table and into the queue of the scheduler alike: putting the
  first process of the table into an empty queue cuts all others off the table, so that they are not
  counted any more and not found by their number.\<close>

theorem sched_proc_add_truncates:
  assumes "proc_path (procs k) (proc_list k) (b # xs)" and "sched_queue k = 0" and "procs k b = Some p"
    and "pid \<noteq> pr_pid p"
  shows "\<exists>k'. sched_proc_add b k = Some k' \<and> process_get_count k' = Some 1 \<and> process_get_by_pid pid k' = Some 0"
proof -
  have b: "b \<noteq> 0" "proc_list k = b" using assms(1) by auto
  let ?k = "k\<lparr>procs := (procs k)(b \<mapsto> p\<lparr>pr_state := PROC_READY, pr_next := 0\<rparr>), sched_queue := b\<rparr>"
  have "sched_proc_add b k = Some ?k"
    using b assms(2,3) by (simp add: sched_proc_add_def upd_proc_def set_proc_def)
  moreover have "process_get_count ?k = Some 1"
    using b by (simp add: process_get_count_def proc_count_from.simps)
  moreover have "process_get_by_pid pid ?k = Some 0"
    using b assms(4) by (simp add: process_get_by_pid_def pid_scan.simps)
  ultimately show ?thesis by blast
qed

text \<open>\<open>process_destroy\<close> does not take a process out of the queue of the scheduler: when the process at the
  head of the queue is destroyed, the next run of the scheduler uses the freed block.\<close>

lemma unlink_after_queue: "unlink_after a c k = Some k' \<Longrightarrow> sched_queue k' = sched_queue k"
proof (induction rule: unlink_after_induct)
  case (step unlink_after a c k k')
  from step.hyps step.prems show ?case
    by (auto simp: upd_proc_def set_proc_def split: bind_splits if_splits dest: step.IH)
qed

theorem process_destroy_dangles:
  assumes "process_destroy a k = Some (Inr k')" and "sched_queue k = a" and "a \<noteq> 0"
  shows "schedule_process k' = None"
proof -
  obtain p :: process and k1 k2 k3 where
      k1: "(if proc_list k = a then Some (k\<lparr>proc_list := pr_next p\<rparr>)
                         else if proc_list k \<noteq> 0 then unlink_after a (proc_list k) k else Some k) = Some k1"
    and k2: "(if pr_kernel_stack p \<noteq> 0 then k_kfree (pr_kernel_stack p) k1 else Some (Inr k1)) = Some (Inr k2)"
    and k3: "upd_proc a (\<lambda>p. p\<lparr>pr_state := PROC_DEAD\<rparr>) k2 = Some k3" and k': "free_proc a k3 = Some (Inr k')"
    using assms(1,3) unfolding process_destroy_def
    by (simp add: obind_Some_Inr no_panic_def split del: if_split) blast
  have "sched_queue k1 = a" using k1 assms(2) by (auto split: if_splits dest: unlink_after_queue)
  then have "sched_queue k2 = a" using k2 by (auto split: if_splits dest!: k_kfree_more more_frame)
  then have "sched_queue k3 = a" using k3 by (auto simp: upd_proc_def set_proc_def)
  then have "sched_queue k' = a" "procs k' a = None"
    using k' by (auto simp: free_proc_def obind_Some_Inr dest!: k_kfree_more more_frame)
  then show ?thesis using assms(3) by (simp add: schedule_process_def best_scan.simps)
qed

section \<open>Concrete machines\<close>

definition proc_a :: process where
  "proc_a = zero_process\<lparr>pr_pid := 1, pr_state := PROC_RUNNING, pr_vruntime := 40, pr_esp0 := 0x9000, pr_next := 0x5000\<rparr>"

definition proc_b :: process where
  "proc_b = zero_process\<lparr>pr_pid := 2, pr_state := PROC_READY, pr_vruntime := 0, pr_esp0 := 0xB000,
     pr_user_eip := 0x8048000, pr_user_esp := 0xBFFFFFEF\<rparr>"

text \<open>Two processes, the first of which is current and heads both lists.\<close>

definition pkern_example :: pkern where
  "pkern_example = \<lparr>k_pmm = phys_mgr vm_large, k_heap = heap_example, k_vm = vm_large, k_con = console_example,
     procs = [0x100D \<mapsto> proc_a, 0x5000 \<mapsto> proc_b], proc_list = 0x100D, current_process = 0x100D,
     proc_next_pid = 3, sched_queue = 0x100D, tss_esp0 = 0, entered = []\<rparr>"

lemma pkern_example_path: "proc_path (procs pkern_example) 0x100D [0x100D, 0x5000]"
  by (simp add: pkern_example_def proc_a_def proc_b_def zero_process_def)

lemma pkern_example_simps [simp]:
  "sched_queue pkern_example = 0x100D" "proc_list pkern_example = 0x100D" "current_process pkern_example = 0x100D"
  "procs pkern_example 0x100D = Some proc_a" "procs pkern_example 0x5000 = Some proc_b" "entered pkern_example = []"
  "k_con pkern_example = console_example"
  by (simp_all add: pkern_example_def)

theorem schedule_process_correct_witness:
  "\<exists>k'. schedule_process pkern_example = Some k' \<and> current_process k' = 0x5000 \<and> tss_esp0 k' = 0xB000
     \<and> entered k' = [(0x8048000, 0xBFFFFFEF)]"
  using schedule_process_correct [of pkern_example "[0x100D, 0x5000]"] pkern_example_path
  by (auto simp: proc_cand_def proc_b_def proc_a_def zero_process_def Cons_eq_append_conv)

theorem ready_process_runs_witness:
  "\<exists>n k'. run_ticks n pkern_example = Some k' \<and> current_process k' = 0x5000"
  using pkern_example_path
  by (intro ready_process_runs [of _ "[0x100D, 0x5000]" _ proc_b proc_a]) (simp_all add: proc_a_def proc_b_def zero_process_def)

lemma pkern_example_running: "running_ok pkern_example"
  by (auto simp: running_ok_def pkern_example_def proc_b_def proc_a_def zero_process_def split: if_splits)

theorem one_process_runs_witness:
  "\<exists>k'. proc_step pkern_example k' \<and> procs k' 0x5000 = Some (run_proc proc_b) \<and> current_process k' = 0x5000"
proof -
  have eq: "schedule_process pkern_example = Some (pkern_example\<lparr>current_process := 0x5000, tss_esp0 := 0xB000,
      entered := [(0x8048000, 0xBFFFFFEF)],
      procs := (preempt 0x100D (procs pkern_example))(0x5000 \<mapsto> run_proc proc_b)\<rparr>)"
    using schedule_process_eq [of pkern_example "[0x100D, 0x5000]"] pkern_example_path
    by (simp add: best_of_def proc_cand_def proc_a_def proc_b_def zero_process_def)
  let ?k = "pkern_example\<lparr>current_process := 0x5000, tss_esp0 := 0xB000,
      entered := [(0x8048000, 0xBFFFFFEF)],
      procs := (preempt 0x100D (procs pkern_example))(0x5000 \<mapsto> run_proc proc_b)\<rparr>"
  have st: "proc_step pkern_example ?k" by (rule proc_step.schedule [OF eq])
  have p: "procs ?k 0x5000 = Some (run_proc proc_b)" by simp
  from one_process_runs [OF r_into_rtranclp [of proc_step, OF st] pkern_example_running p] show ?thesis
    using st p by (intro exI [of _ ?k]) simp
qed

theorem sched_proc_add_truncates_witness:
  "\<exists>k'. sched_proc_add 0x100D (pkern_example\<lparr>sched_queue := 0\<rparr>) = Some k' \<and> process_get_by_pid 2 k' = Some 0"
proof -
  have "proc_path (procs (pkern_example\<lparr>sched_queue := 0\<rparr>)) (proc_list (pkern_example\<lparr>sched_queue := 0\<rparr>)) [0x100D, 0x5000]"
    using pkern_example_path by simp
  from sched_proc_add_truncates [OF this, of proc_a 2] show ?thesis by (auto simp: proc_a_def)
qed

theorem process_destroy_dangles_witness:
  "\<exists>k'. process_destroy 0x100D pkern_example = Some (Inr k') \<and> schedule_process k' = None"
proof -
  have wf: "heap_wf (heap_example\<lparr>heap_pmm := phys_mgr vm_large\<rparr>) [(0x1000, 64, False), (0x104D, 200, True)]"
    using heap_example_wf by (simp add: heap_wf_def)
  obtain t where t: "kfree 0x100D (heap_example\<lparr>heap_pmm := phys_mgr vm_large\<rparr>) = Some (Inr t)"
    using kfree_correct [OF wf, of "0x1000" 64] by auto
  have "\<exists>k'. process_destroy 0x100D pkern_example = Some (Inr k')"
    using t by (simp add: process_destroy_def upd_proc_def set_proc_def free_proc_def k_kfree_def pkern_example_def proc_a_def zero_process_def)
  then show ?thesis using process_destroy_dangles [of "0x100D" pkern_example] by auto
qed

text \<open>A program of one segment: four bytes of code and four of zeroed data at \<open>0x08048000\<close>.\<close>

definition elf_example :: "u8 list" where
  "elf_example = [0x7F, 0x45, 0x4C, 0x46, 1, 1, 1, 0, 0, 0, 0, 0, 0, 0, 0, 0, 2, 0, 3, 0, 1, 0, 0, 0,
     0x00, 0x80, 0x04, 0x08, 52, 0, 0, 0, 0, 0, 0, 0, 0, 0, 0, 0, 52, 0, 32, 0, 1, 0, 0, 0, 0, 0, 0, 0,
     1, 0, 0, 0, 84, 0, 0, 0, 0x00, 0x80, 0x04, 0x08, 0, 0, 0, 0, 4, 0, 0, 0, 8, 0, 0, 0, 5, 0, 0, 0, 0, 16, 0, 0,
     0xB8, 0xC3, 0x90, 0x91]"

definition elf_example_phdr :: elf32_phdr where
  "elf_example_phdr = \<lparr>p_type = 1, p_offset = 84, p_vaddr = 0x08048000, p_filesz = 4, p_memsz = 8, p_flags = 5\<rparr>"

theorem elf_load_segments_correct_witness:
  "\<exists>k'. elf_load_segments (Some elf_example) 88 pkern_example = Some (0, k')
     \<and> virt_read 0x08048003 k' = Some 0x91 \<and> virt_read 0x08048004 k' = Some 0"
proof -
  let ?h = elf_example_phdr
  have vo: "vm_of pkern_example = vm_large" by (simp add: vm_of_def pkern_example_def)
  have sp: "seg_npages ?h = 1" by (simp add: seg_npages_def elf_example_phdr_def)
  have h: "read_phdr elf_example (unat (52 :: u32) + 32 * i) = Some ([?h] ! i)" if "i < length [?h]" for i
  proof -
    have "read_phdr elf_example 52 = Some ?h" by code_simp
    then show ?thesis using that by simp
  qed
  have fit: "seg_fits ?h elf_example" by (simp add: seg_fits_def elf_example_phdr_def elf_example_def)
  have v: "elf_validate (Some elf_example) 88 = Some True" by code_simp
  have o: "e_phoff elf_example = Some 52" by code_simp
  have n: "e_phnum elf_example = Some 1" by code_simp
  have e: "e_entry elf_example = Some 0x08048000" by code_simp
  have "length elf_example = 88" by (simp add: elf_example_def)
  moreover have "k_pmm pkern_example = phys_mgr vm_large" by (simp add: pkern_example_def)
  ultimately obtain k' where k': "elf_load_segments (Some elf_example) 88 pkern_example = Some (0, k')" "seg_loaded ?h elf_example k'"
    using elf_load_segments_correct [OF v _ o n e _ h, where k = pkern_example] fit vm_large_inv vm_large_frames sp console_example_ok
    by (auto simp: vo elf_example_phdr_def)
  have "virt_read (0x08048000 + of_nat i) k' = Some (if i < 4 then elf_example ! (84 + i) else 0)" if "i < 8" for i
    using k'(2) that by (simp add: seg_loaded_def elf_example_phdr_def)
  from this [of 3] this [of 4] have "virt_read 0x08048003 k' = Some 0x91" "virt_read 0x08048004 k' = Some 0"
    by (simp_all add: elf_example_def)
  then show ?thesis using k'(1) by blast
qed

end
