(* ===== verification/Interrupts.thy ===== *)
theory Interrupts
  imports User_Process Task_Sched Keyboard
begin

text \<open>
  Interrupts: the 8259 controllers \<^verbatim>\<open>drivers/pic.c\<close>, the descriptor tables
  \<^verbatim>\<open>kernel/gdt.c\<close>, \<^verbatim>\<open>kernel/idt.c\<close> and \<^verbatim>\<open>kernel/tss.c\<close>, the dispatch of
  exceptions and interrupts, and the timer \<^verbatim>\<open>kernel/timer.c\<close>.  Port output goes to the log
  \<open>ports\<close> of the console; what a port reads is a parameter.  The addresses of the assembly stubs and
  of the tables are parameters too.
\<close>

section \<open>The interrupt controllers\<close>

abbreviation (input) PIC1_CMD :: u16 where "PIC1_CMD \<equiv> 0x20"
abbreviation (input) PIC1_DATA :: u16 where "PIC1_DATA \<equiv> 0x21"
abbreviation (input) PIC2_CMD :: u16 where "PIC2_CMD \<equiv> 0xA0"
abbreviation (input) PIC2_DATA :: u16 where "PIC2_DATA \<equiv> 0xA1"

definition io_wait :: "console \<Rightarrow> console" where
  "io_wait s = outb 0x80 0 s"

definition pic_remap :: "(u16 \<Rightarrow> u8) \<Rightarrow> console \<Rightarrow> console" where
  "pic_remap inb s =
     (let a1 = inb PIC1_DATA; a2 = inb PIC2_DATA;
          s = fold (\<lambda>(port, v) s. io_wait (outb port v s))
                [(PIC1_CMD, 0x10 OR 0x01), (PIC2_CMD, 0x10 OR 0x01), (PIC1_DATA, 0x20), (PIC2_DATA, 0x28),
                 (PIC1_DATA, 0x04), (PIC2_DATA, 0x02), (PIC1_DATA, 0x01), (PIC2_DATA, 0x01)] s
      in outb PIC2_DATA a2 (outb PIC1_DATA a1 s))"

definition pic_send_eoi :: "u8 \<Rightarrow> console \<Rightarrow> console" where
  "pic_send_eoi irq s = outb PIC1_CMD 0x20 (if irq \<ge> 8 then outb PIC2_CMD 0x20 s else s)"

definition pic_disable :: "console \<Rightarrow> console" where
  "pic_disable s = outb PIC2_DATA 0xFF (outb PIC1_DATA 0xFF s)"

definition pic_line :: "u8 \<Rightarrow> u16 \<times> nat" where
  "pic_line irq = (if irq < 8 then (PIC1_DATA, unat irq) else (PIC2_DATA, unat (irq - 8)))"

text \<open>\<^verbatim>\<open>1 << irq\<close> is an \<^verbatim>\<open>int\<close>; the processor masks the distance to five bits.\<close>

definition pic_enable_irq :: "(u16 \<Rightarrow> u8) \<Rightarrow> u8 \<Rightarrow> console \<Rightarrow> console" where
  "pic_enable_irq inb irq s =
     (let (port, n) = pic_line irq
      in outb port (ucast (ucast (inb port) AND NOT (push_bit (n mod 32) 1 :: u32))) s)"

definition pic_disable_irq :: "(u16 \<Rightarrow> u8) \<Rightarrow> u8 \<Rightarrow> console \<Rightarrow> console" where
  "pic_disable_irq inb irq s =
     (let (port, n) = pic_line irq
      in outb port (ucast (ucast (inb port) OR (push_bit (n mod 32) 1 :: u32))) s)"

section \<open>Descriptor tables\<close>

record idt_entry =
  ie_base_low :: u16
  ie_sel :: u16
  ie_always0 :: u8
  ie_flags :: u8
  ie_base_high :: u16

record gdt_entry =
  ge_limit_low :: u16
  ge_base_low :: u16
  ge_base_mid :: u8
  ge_access :: u8
  ge_granularity :: u8
  ge_base_high :: u8

record tss_entry =
  ts_ss0 :: u32
  ts_iomap_base :: u16

datatype irq_function = Timer_Handler | Keyboard_Handler

record registers =
  rg_eax :: u32
  rg_ebx :: u32
  rg_ecx :: u32
  rg_edx :: u32
  rg_esi :: u32
  rg_edi :: u32
  rg_int_no :: u32
  rg_err_code :: u32
  rg_eip :: u32
  rg_cs :: u32

record machine =
  idt_entries :: "idt_entry list"
  interrupt_handlers :: "irq_function option list"
  gdt_entries :: "gdt_entry list"
  idt_ptr :: "u16 \<times> u32"
  gdt_ptr :: "u16 \<times> u32"
  tss :: tss_entry
  timer_ticks :: u32
  timer_freq :: u32
  lapic_writes :: "(u32 \<times> u32) list"
  m_sched :: sched
  m_keyboard :: keyboard
  m_proc :: pkern

definition on_con :: "(console \<Rightarrow> console) \<Rightarrow> machine \<Rightarrow> machine" where
  "on_con f m = m\<lparr>m_proc := (m_proc m)\<lparr>k_con := f (k_con (m_proc m))\<rparr>\<rparr>"

definition m_printk :: "char list \<Rightarrow> va_arg list \<Rightarrow> machine \<Rightarrow> machine option" where
  "m_printk fmt args m = map_option (\<lambda>k. m\<lparr>m_proc := k\<rparr>) (k_printk fmt args (m_proc m))"

definition list_set :: "nat \<Rightarrow> 'a \<Rightarrow> 'a list \<Rightarrow> 'a list option" where
  "list_set i x xs = (if i < length xs then Some (xs[i := x]) else None)"

definition idt_set_gate :: "u8 \<Rightarrow> u32 \<Rightarrow> u16 \<Rightarrow> u8 \<Rightarrow> machine \<Rightarrow> machine" where
  "idt_set_gate num base sel flags m = m\<lparr>idt_entries := (idt_entries m)[unat num :=
     \<lparr>ie_base_low = ucast (base AND 0xFFFF), ie_sel = sel, ie_always0 = 0, ie_flags = flags,
      ie_base_high = ucast (drop_bit 16 base AND 0xFFFF)\<rparr>]\<rparr>"

definition isr_register_handler :: "u8 \<Rightarrow> irq_function \<Rightarrow> machine \<Rightarrow> machine" where
  "isr_register_handler n h m = m\<lparr>interrupt_handlers := (interrupt_handlers m)[unat n := Some h]\<rparr>"

definition isr_unregister_handler :: "u8 \<Rightarrow> machine \<Rightarrow> machine" where
  "isr_unregister_handler n m = m\<lparr>interrupt_handlers := (interrupt_handlers m)[unat n := None]\<rparr>"

definition zero_gate :: idt_entry where
  "zero_gate = \<lparr>ie_base_low = 0, ie_sel = 0, ie_always0 = 0, ie_flags = 0, ie_base_high = 0\<rparr>"

definition idt_init :: "(u16 \<Rightarrow> u8) \<Rightarrow> (nat \<Rightarrow> u32) \<Rightarrow> (nat \<Rightarrow> u32) \<Rightarrow> u32 \<Rightarrow> machine \<Rightarrow> machine option" where
  "idt_init inb isr irq idt_addr m =
     (let m = m\<lparr>idt_ptr := (8 * 256 - 1, idt_addr), idt_entries := replicate 256 zero_gate,
                interrupt_handlers := replicate 256 None\<rparr>;
          m = on_con (pic_remap inb) m;
          m = fold (\<lambda>i. idt_set_gate (of_nat i) (isr i) 0x08 0x8E) [0..<32] m;
          m = fold (\<lambda>i. idt_set_gate (of_nat (32 + i)) (irq i) 0x08 0x8E) [0..<16] m
      in m_printk (''IDT: Loaded 256 gates & remapped 8259 PIC'' @ [CHR 0x0A]) [] m)"

definition gdt_set_gate :: "nat \<Rightarrow> u32 \<Rightarrow> u32 \<Rightarrow> u8 \<Rightarrow> u8 \<Rightarrow> machine \<Rightarrow> machine option" where
  "gdt_set_gate num base limit access gran m =
     map_option (\<lambda>g. m\<lparr>gdt_entries := g\<rparr>)
       (list_set num
         \<lparr>ge_limit_low = ucast (limit AND 0xFFFF), ge_base_low = ucast (base AND 0xFFFF),
          ge_base_mid = ucast (drop_bit 16 base AND 0xFF), ge_access = access,
          ge_granularity = ucast (drop_bit 16 limit AND 0x0F) OR (gran AND 0xF0),
          ge_base_high = ucast (drop_bit 24 base AND 0xFF)\<rparr> (gdt_entries m))"

definition gdt_init :: "u32 \<Rightarrow> machine \<Rightarrow> machine option" where
  "gdt_init gdt_addr m = do {
     m \<leftarrow> gdt_set_gate 0 0 0 0 0 (m\<lparr>gdt_ptr := (8 * 6 - 1, gdt_addr)\<rparr>);
     m \<leftarrow> gdt_set_gate 1 0 0xFFFFFFFF 0x9A 0xCF m;
     m \<leftarrow> gdt_set_gate 2 0 0xFFFFFFFF 0x92 0xCF m;
     m \<leftarrow> gdt_set_gate 3 0 0xFFFFFFFF 0xFA 0xCF m;
     m \<leftarrow> gdt_set_gate 4 0 0xFFFFFFFF 0xF2 0xCF m;
     m \<leftarrow> gdt_set_gate 5 0 0 0 0 m;
     m_printk (''GDT: Loaded 6 GDT descriptors'' @ [CHR 0x0A]) [] m
   }"

text \<open>\<^verbatim>\<open>sizeof(tss_entry_t)\<close> is 104; the field \<open>esp0\<close> of the segment is \<^const>\<open>tss_esp0\<close>.\<close>

definition tss_init :: "u32 \<Rightarrow> machine \<Rightarrow> machine option" where
  "tss_init tss_addr m = do {
     let m = m\<lparr>tss := \<lparr>ts_ss0 = 0x10, ts_iomap_base = 104\<rparr>, m_proc := (m_proc m)\<lparr>tss_esp0 := 0\<rparr>\<rparr>;
     m \<leftarrow> gdt_set_gate 5 tss_addr (104 - 1) 0xE9 0x00 m;
     m_printk (''TSS: Task State Segment initialized at 0x%x'' @ [CHR 0x0A]) [VA_word tss_addr] m
   }"

section \<open>The timer\<close>

abbreviation (input) PIT_FREQUENCY :: u32 where "PIT_FREQUENCY \<equiv> 1193182"

definition timer_handler :: "machine \<Rightarrow> machine option" where
  "timer_handler m =
     (let m = m\<lparr>timer_ticks := timer_ticks m + 1\<rparr>
      in if timer_ticks m mod 10 = 0 then map_option (\<lambda>s. m\<lparr>m_sched := s\<rparr>) (schedule (m_sched m)) else Some m)"

text \<open>A division by zero is a processor exception, \<^term>\<open>None\<close>.\<close>

definition timer_init :: "(u16 \<Rightarrow> u8) \<Rightarrow> u32 \<Rightarrow> machine \<Rightarrow> machine option" where
  "timer_init inb frequency m =
     (let m = m\<lparr>timer_freq := frequency\<rparr>
      in if frequency = 0 then None
         else let divisor = PIT_FREQUENCY div frequency;
                  m = on_con (\<lambda>s. outb 0x40 (ucast (drop_bit 8 divisor AND 0xFF))
                              (outb 0x40 (ucast (divisor AND 0xFF)) (outb 0x43 0x36 s))) m;
                  m = isr_register_handler 32 Timer_Handler m;
                  m = on_con (pic_enable_irq inb 0) m
              in m_printk (''Timer: PIT initialized at %u Hz (divisor: %u)'' @ [CHR 0x0A])
                   [VA_word frequency, VA_word divisor] m)"

definition timer_get_ticks :: "machine \<Rightarrow> u32" where
  "timer_get_ticks m = timer_ticks m"

text \<open>The loop of \<open>timer_sleep\<close>: \<open>wake\<close> is what happens until \<^verbatim>\<open>hlt\<close> returns.\<close>

partial_function (option) timer_wait :: "(machine \<Rightarrow> machine option) \<Rightarrow> u32 \<Rightarrow> machine \<Rightarrow> machine option" where
  "timer_wait wake target m =
     (if timer_ticks m < target then Option.bind (wake m) (timer_wait wake target) else Some m)"

definition timer_sleep :: "(machine \<Rightarrow> machine option) \<Rightarrow> u32 \<Rightarrow> machine \<Rightarrow> machine option" where
  "timer_sleep wake ms m = timer_wait wake (timer_ticks m + ms * timer_freq m div 1000) m"

definition keyboard_init :: "(u16 \<Rightarrow> u8) \<Rightarrow> machine \<Rightarrow> machine option" where
  "keyboard_init inb m =
     (let m = isr_register_handler 33 Keyboard_Handler m;
          m = on_con (pic_enable_irq inb 1) m
      in m_printk (''Keyboard: PS/2 Keyboard Driver initialized on IRQ1'' @ [CHR 0x0A]) [] m)"

section \<open>Dispatch\<close>

abbreviation (input) LAPIC_EOI :: u32 where "LAPIC_EOI \<equiv> 0xB0"

definition apic_write :: "u32 \<Rightarrow> u32 \<Rightarrow> machine \<Rightarrow> machine" where
  "apic_write reg v m = m\<lparr>lapic_writes := lapic_writes m @ [(reg, v)]\<rparr>"

definition apic_eoi :: "machine \<Rightarrow> machine" where
  "apic_eoi m = apic_write LAPIC_EOI 0 m"

text \<open>A call through the table; \<open>inb\<close> gives the scan code to the keyboard handler.\<close>

definition call_handler :: "(u16 \<Rightarrow> u8) \<Rightarrow> irq_function \<Rightarrow> machine \<Rightarrow> machine option" where
  "call_handler inb h m =
     (case h of
        Timer_Handler \<Rightarrow> timer_handler m
      | Keyboard_Handler \<Rightarrow> Some (m\<lparr>m_keyboard := keyboard_handler (inb 0x60) (m_keyboard m)\<rparr>))"

definition handler_at :: "u32 \<Rightarrow> machine \<Rightarrow> irq_function option option" where
  "handler_at n m = (if unat n < length (interrupt_handlers m) then Some (interrupt_handlers m ! unat n) else None)"

text \<open>Two calls do not come back to the interrupt handler: \<^verbatim>\<open>context_switch\<close>, which continues another task
  (\<^const>\<open>switches\<close> grows), and \<^verbatim>\<open>enter_userspace\<close>, which ends in \<^verbatim>\<open>iret\<close> (\<open>entered\<close> grows).  What
  the code has after such a call is not executed.\<close>

definition left_context :: "machine \<Rightarrow> machine \<Rightarrow> bool" where
  "left_context m m' \<longleftrightarrow> switches (m_sched m') \<noteq> switches (m_sched m) \<or> entered (m_proc m') \<noteq> entered (m_proc m)"

definition irq_ack :: "registers \<Rightarrow> machine \<Rightarrow> machine" where
  "irq_ack regs m =
     (if 32 \<le> rg_int_no regs \<and> rg_int_no regs < 48
      then on_con (pic_send_eoi (ucast (rg_int_no regs - 32))) (apic_eoi m) else m)"

definition irq_handler :: "(u16 \<Rightarrow> u8) \<Rightarrow> registers \<Rightarrow> machine \<Rightarrow> machine option" where
  "irq_handler inb regs m = do {
     h \<leftarrow> handler_at (rg_int_no regs) m;
     m1 \<leftarrow> (case h of None \<Rightarrow> Some m | Some h \<Rightarrow> call_handler inb h m);
     if left_context m m1 then Some m1
     else do {
       m2 \<leftarrow> (if rg_int_no regs = 32
             then map_option (\<lambda>k. m1\<lparr>m_proc := k\<rparr>) (sched_proc_tick (m_proc m1)) else Some m1);
       Some (if left_context m1 m2 then m2 else irq_ack regs m2)
     }
   }"

definition isr_handler :: "(u16 \<Rightarrow> u8) \<Rightarrow> registers \<Rightarrow> machine \<Rightarrow> machine outcome" where
  "isr_handler inb regs m =
     obind (no_panic (handler_at (rg_int_no regs) m)) (\<lambda>h.
     case h of
       Some h \<Rightarrow> no_panic (call_handler inb h m)
     | None \<Rightarrow>
         if rg_cs regs AND 3 \<noteq> 0 \<and> current_process (m_proc m) \<noteq> 0
         then no_panic (do {
                p \<leftarrow> procs (m_proc m) (current_process (m_proc m));
                m \<leftarrow> m_printk (''Process '' @ CHR 0x27 # ''%s'' @ CHR 0x27 # '' (pid %u) caused exception %u at 0x%x (Error: 0x%x)'' @ [CHR 0x0A])
                       [VA_str (Some (pr_name p)), VA_word (pr_pid p), VA_word (rg_int_no regs), VA_word (rg_eip regs),
                        VA_word (rg_err_code regs)] m;
                k \<leftarrow> process_exit (128 + rg_int_no regs) (m_proc m);
                Some (m\<lparr>m_proc := k\<rparr>)
              })
         else obind (no_panic (m_printk (''Unhandled exception: %u (Error code: 0x%x)'' @ [CHR 0x0A])
                      [VA_word (rg_int_no regs), VA_word (rg_err_code regs)] m))
                (\<lambda>m. Some (Inl ''Unhandled CPU Exception'')))"

section \<open>Properties\<close>

definition gate_base :: "idt_entry \<Rightarrow> u32" where
  "gate_base e = ucast (ie_base_low e) OR push_bit 16 (ucast (ie_base_high e))"

lemma split_base:
  "(ucast (ucast (b AND 0xFFFF) :: u16) OR push_bit 16 (ucast (ucast (drop_bit 16 b AND 0xFFFF) :: u16))) = (b :: u32)"
proof (rule bit_word_eqI)
  fix n assume "n < LENGTH(32)"
  have m: "(0xFFFF :: u32) = mask 16" by (simp add: mask_eq_exp_minus_1)
  show "bit (ucast (ucast (b AND 0xFFFF) :: u16) OR push_bit 16 (ucast (ucast (drop_bit 16 b AND 0xFFFF) :: u16)) :: u32) n = bit b n"
    unfolding m using \<open>n < LENGTH(32)\<close> by (auto simp: bit_simps)
qed

lemma idt_set_gate_simps [simp]:
  "interrupt_handlers (idt_set_gate n b s f m) = interrupt_handlers m" "m_proc (idt_set_gate n b s f m) = m_proc m"
  "idt_ptr (idt_set_gate n b s f m) = idt_ptr m" "timer_ticks (idt_set_gate n b s f m) = timer_ticks m"
  by (simp_all add: idt_set_gate_def)

lemma fold_gates:
  assumes "off + n \<le> 256" and "length (idt_entries m) = 256"
  shows "let m' = fold (\<lambda>i. idt_set_gate (of_nat (off + i)) (f i) 0x08 0x8E) [0..<n] m in
    length (idt_entries m') = 256 \<and> interrupt_handlers m' = interrupt_handlers m \<and> m_proc m' = m_proc m \<and> idt_ptr m' = idt_ptr m
    \<and> (\<forall>v < 256. if off \<le> v \<and> v < off + n
        then gate_base (idt_entries m' ! v) = f (v - off) \<and> ie_sel (idt_entries m' ! v) = 0x08 \<and> ie_flags (idt_entries m' ! v) = 0x8E
        else idt_entries m' ! v = idt_entries m ! v)"
  using assms
proof (induction n)
  case 0
  then show ?case by (auto simp: Let_def)
next
  case (Suc n)
  define m1 where "m1 = fold (\<lambda>i. idt_set_gate (of_nat (off + i)) (f i) 0x08 0x8E) [0..<n] m"
  have u: "unat (of_nat (off + n) :: u8) = off + n" using Suc.prems(1) by (intro unat_of_nat_small) simp
  have e: "fold (\<lambda>i. idt_set_gate (of_nat (off + i)) (f i) 0x08 0x8E) [0..<Suc n] m
      = idt_set_gate (of_nat (off + n)) (f n) 0x08 0x8E m1" by (simp add: m1_def)
  have ih: "length (idt_entries m1) = 256" "interrupt_handlers m1 = interrupt_handlers m" "m_proc m1 = m_proc m" "idt_ptr m1 = idt_ptr m"
    "\<And>v. v < 256 \<Longrightarrow> if off \<le> v \<and> v < off + n
        then gate_base (idt_entries m1 ! v) = f (v - off) \<and> ie_sel (idt_entries m1 ! v) = 0x08 \<and> ie_flags (idt_entries m1 ! v) = 0x8E
        else idt_entries m1 ! v = idt_entries m ! v"
    using Suc unfolding m1_def [symmetric] Let_def by auto
  have nth: "idt_entries (idt_set_gate (of_nat (off + n)) (f n) 0x08 0x8E m1) ! v
      = (if v = off + n then \<lparr>ie_base_low = ucast (f n AND 0xFFFF), ie_sel = 0x08, ie_always0 = 0, ie_flags = 0x8E,
          ie_base_high = ucast (drop_bit 16 (f n) AND 0xFFFF)\<rparr> else idt_entries m1 ! v)" if "v < 256" for v
    using that ih(1) u Suc.prems(1) by (simp add: idt_set_gate_def nth_list_update)
  have len: "length (idt_entries (idt_set_gate (of_nat (off + n)) (f n) 0x08 0x8E m1)) = 256"
    using ih(1) by (simp add: idt_set_gate_def)
  show ?case
    unfolding e Let_def
  proof (intro conjI allI impI)
    fix v assume v: "v < (256 :: nat)"
    let ?e = "idt_entries (idt_set_gate (of_nat (off + n)) (f n) 0x08 0x8E m1) ! v"
    show "if off \<le> v \<and> v < off + Suc n then gate_base ?e = f (v - off) \<and> ie_sel ?e = 0x08 \<and> ie_flags ?e = 0x8E
        else ?e = idt_entries m ! v"
    proof (cases "v = off + n")
      case True
      then show ?thesis unfolding nth [OF v] using split_base [of "f n"] by (simp add: gate_base_def)
    next
      case False
      then show ?thesis using ih(5) [OF v] unfolding nth [OF v] by auto
    qed
  qed (use len ih in simp_all)
qed

lemma on_con_simps [simp]:
  "idt_entries (on_con f m) = idt_entries m" "interrupt_handlers (on_con f m) = interrupt_handlers m"
  "k_con (m_proc (on_con f m)) = f (k_con (m_proc m))" "timer_ticks (on_con f m) = timer_ticks m"
  "lapic_writes (on_con f m) = lapic_writes m" "idt_ptr (on_con f m) = idt_ptr m"
  by (simp_all add: on_con_def)

lemma outb_ok [simp]: "vga_ok (outb p v s) = vga_ok s" "ports (outb p v s) = ports s @ [(p, v)]"
  by (simp_all add: outb_def vga_ok_def)

lemma m_printk_defined:
  assumes "vga_ok (k_con (m_proc m))" and "NUL \<notin> set fmt" and "printk_text fmt args = Some out"
  shows "\<exists>c. m_printk fmt args m = Some (m\<lparr>m_proc := (m_proc m)\<lparr>k_con := c\<rparr>\<rparr>) \<and> vga_ok c"
  using printk_defined [OF assms] by (auto simp: m_printk_def k_printk_def)

lemma pic_remap_ok: "vga_ok (pic_remap inb s) = vga_ok s"
  by (simp add: pic_remap_def Let_def io_wait_def)

text \<open>After \<open>idt_init\<close> the 32 exceptions and the 16 interrupt lines have present ring-0 interrupt gates in
  the kernel code segment that decode to the address of their own stub, all other vectors have none, and no
  handler is registered.\<close>

theorem idt_init_correct:
  assumes "vga_ok (k_con (m_proc m))"
  shows "\<exists>m'. idt_init inb isr irq addr m = Some m' \<and> idt_ptr m' = (2047, addr)
    \<and> length (idt_entries m') = 256 \<and> interrupt_handlers m' = replicate 256 None
    \<and> (\<forall>v < 48. gate_base (idt_entries m' ! v) = (if v < 32 then isr v else irq (v - 32))
         \<and> ie_sel (idt_entries m' ! v) = 0x08 \<and> ie_flags (idt_entries m' ! v) = 0x8E)
    \<and> (\<forall>v. 48 \<le> v \<longrightarrow> v < 256 \<longrightarrow> idt_entries m' ! v = zero_gate)"
proof -
  define m0 where "m0 = on_con (pic_remap inb) (m\<lparr>idt_ptr := (8 * 256 - 1, addr), idt_entries := replicate 256 zero_gate,
                interrupt_handlers := replicate 256 None\<rparr>)"
  define m1 where "m1 = fold (\<lambda>i. idt_set_gate (of_nat (0 + i)) (isr i) 0x08 0x8E) [0..<32] m0"
  define m2 where "m2 = fold (\<lambda>i. idt_set_gate (of_nat (32 + i)) (irq i) 0x08 0x8E) [0..<16] m1"
  have m0: "length (idt_entries m0) = 256" "interrupt_handlers m0 = replicate 256 None" "idt_ptr m0 = (2047, addr)"
    "vga_ok (k_con (m_proc m0))" "\<And>v. v < 256 \<Longrightarrow> idt_entries m0 ! v = zero_gate"
    using assms by (simp_all add: m0_def pic_remap_ok)
  note g1 = fold_gates [of 0 32 m0 isr, folded m1_def, unfolded Let_def]
  have l1: "length (idt_entries m1) = 256" using g1 m0 by simp
  note g2 = fold_gates [of 32 16 m1 irq, folded m2_def, unfolded Let_def]
  let ?fmt = "''IDT: Loaded 256 gates & remapped 8259 PIC'' @ [CHR 0x0A]"
  have "\<exists>out. printk_text ?fmt [] = Some out" by simp
  then obtain c where c: "m_printk ?fmt [] m2 = Some (m2\<lparr>m_proc := (m_proc m2)\<lparr>k_con := c\<rparr>\<rparr>)"
    using m_printk_defined [of m2 ?fmt "[]"] g1 g2 l1 m0 by auto
  let ?m = "m2\<lparr>m_proc := (m_proc m2)\<lparr>k_con := c\<rparr>\<rparr>"
  have run: "idt_init inb isr irq addr m = Some ?m"
    using c unfolding idt_init_def Let_def m0_def [symmetric] m2_def m1_def by simp
  have a: "gate_base (idt_entries m2 ! v) = (if v < 32 then isr v else irq (v - 32))
         \<and> ie_sel (idt_entries m2 ! v) = 0x08 \<and> ie_flags (idt_entries m2 ! v) = 0x8E" if "v < 48" for v
    using g1 g2 l1 m0(1) that by (auto split: if_splits)
  have b: "idt_entries m2 ! v = zero_gate" if "48 \<le> v" "v < 256" for v
    using g1 g2 l1 m0(1,5) that by (auto split: if_splits)
  have "idt_ptr m2 = (2047, addr)" "length (idt_entries m2) = 256" "interrupt_handlers m2 = replicate 256 None"
    using g1 g2 l1 m0 by auto
  then show ?thesis using run a b by (intro exI [of _ ?m]) simp
qed

lemma call_handler_frame:
  "call_handler inb h m = Some m' \<Longrightarrow> m_proc m' = m_proc m \<and> lapic_writes m' = lapic_writes m"
  by (auto simp: call_handler_def timer_handler_def Let_def split: irq_function.splits if_splits)

lemma upd_proc_con: "upd_proc a f k = Some k' \<Longrightarrow> k_con k' = k_con k"
  by (auto simp: upd_proc_def set_proc_def)

lemma sched_proc_tick_con: "sched_proc_tick k = Some k' \<Longrightarrow> k_con k' = k_con k"
  by (auto simp: sched_proc_tick_def schedule_process_def tss_set_kernel_stack_def enter_userspace_def Let_def
      split: bind_splits if_splits dest!: upd_proc_con)

text \<open>C17: a hardware interrupt runs the handler of its line, then, on the timer interrupt only, the
  scheduler of the processes, and is then acknowledged exactly once at both controllers: at the local APIC, and at
  the 8259 pair, the second one first when the line is 8 or higher.  An interrupt whose timer handler switches to another
  task stops there, and one whose tick enters a fresh process (which \<^verbatim>\<open>iret\<close> does
  not return from) is not acknowledged at all: nothing is sent to either controller.\<close>

theorem irq_handler_correct:
  assumes "rg_int_no regs = 32 + of_nat n" and "n < 16"
    and "length (interrupt_handlers m) = 256"
    and "(case interrupt_handlers m ! (32 + n) of None \<Rightarrow> Some m | Some h \<Rightarrow> call_handler inb h m) = Some m1"
    and "(if n = 0 then map_option (\<lambda>k. m1\<lparr>m_proc := k\<rparr>) (sched_proc_tick (m_proc m1)) else Some m1) = Some m2"
  shows "\<exists>m'. irq_handler inb regs m = Some m'
    \<and> (if switches (m_sched m1) \<noteq> switches (m_sched m) then m' = m1 \<and> lapic_writes m' = lapic_writes m \<and> ports (k_con (m_proc m')) = ports (k_con (m_proc m))
       else if entered (m_proc m2) \<noteq> entered (m_proc m1)
       then n = 0 \<and> m' = m2 \<and> lapic_writes m' = lapic_writes m \<and> ports (k_con (m_proc m')) = ports (k_con (m_proc m))
       else lapic_writes m' = lapic_writes m @ [(0xB0, 0)]
         \<and> ports (k_con (m_proc m')) = ports (k_con (m_proc m)) @ (if n \<ge> 8 then [(0xA0, 0x20)] else []) @ [(0x20, 0x20)]
         \<and> timer_ticks m' = timer_ticks m2 \<and> m_keyboard m' = m_keyboard m2 \<and> m_sched m' = m_sched m2
         \<and> procs (m_proc m') = procs (m_proc m2) \<and> current_process (m_proc m') = current_process (m_proc m2))"
proof -
  have u: "unat (rg_int_no regs) = 32 + n"
    using unat_Suc_small [of 32 n] assms(1,2) by simp
  have n: "unat (of_nat n :: u32) = n" using assms(2) by (intro unat_of_nat_small) simp
  have h: "handler_at (rg_int_no regs) m = Some (interrupt_handlers m ! (32 + n))"
    using assms(2,3) by (simp add: handler_at_def u)
  have z: "rg_int_no regs = 32 \<longleftrightarrow> n = 0" using u by (auto simp: word_unat_eq_iff)
  have r: "32 \<le> rg_int_no regs" "rg_int_no regs < 48" using u assms(2) by (simp_all add: word_le_nat_alt word_less_nat_alt)
  have "unat (ucast (of_nat n :: u32) :: u8) = n" using assms(2) n by (simp add: unsigned_ucast_eq take_bit_nat_eq_self)
  then have e: "(8 :: u8) \<le> ucast (rg_int_no regs - 32) \<longleftrightarrow> 8 \<le> n"
    by (simp add: assms(1) word_le_nat_alt)
  have m1: "m_proc m1 = m_proc m" "lapic_writes m1 = lapic_writes m"
    using assms(4) call_handler_frame by (auto split: option.splits)
  have m2: "m_sched m2 = m_sched m1" "lapic_writes m2 = lapic_writes m1" "ports (k_con (m_proc m2)) = ports (k_con (m_proc m1))"
    "entered (m_proc m2) \<noteq> entered (m_proc m1) \<Longrightarrow> n = 0"
    using assms(5) by (auto split: if_splits dest: sched_proc_tick_con)
  have run: "irq_handler inb regs m = Some (if left_context m m1 then m1 else if left_context m1 m2 then m2 else irq_ack regs m2)"
    using assms(4,5) by (simp add: irq_handler_def h z)
  have "irq_ack regs m2 = on_con (pic_send_eoi (ucast (rg_int_no regs - 32))) (apic_eoi m2)"
    using r by (simp add: irq_ack_def)
  then show ?thesis
    using run e m1 m2 by (auto simp: left_context_def apic_eoi_def apic_write_def pic_send_eoi_def on_con_def)
qed

lemma timer_wait_returns:
  assumes wake: "\<And>m. \<exists>m'. wake m = Some m' \<and> timer_ticks m' = timer_ticks m + 1"
  shows "\<exists>m'. timer_wait wake target m = Some m' \<and> timer_ticks m' = max target (timer_ticks m)"
proof (induction "unat target - unat (timer_ticks m)" arbitrary: m)
  case 0
  then have "\<not> timer_ticks m < target" by (simp add: word_less_nat_alt)
  then show ?case by (subst timer_wait.simps) (auto simp: max_def not_less)
next
  case (Suc d)
  then have lt: "timer_ticks m < target" by (simp add: word_less_nat_alt)
  obtain m1 where m1: "wake m = Some m1" "timer_ticks m1 = timer_ticks m + 1" using wake by blast
  have "unat (timer_ticks m) + 1 < 2 ^ 32"
    using lt u32_unat_lt [of target] by (simp add: word_less_nat_alt)
  then have u: "unat (timer_ticks m1) = unat (timer_ticks m) + 1"
    using unat_Suc_small [of "timer_ticks m" 1] m1(2) by simp
  then have "d = unat target - unat (timer_ticks m1)" using Suc(2) by simp
  from Suc(1) [OF this] obtain m2 where m2: "timer_wait wake target m1 = Some m2" "timer_ticks m2 = max target (timer_ticks m1)"
    by blast
  have "timer_ticks m1 \<le> target" using u lt by (simp add: word_le_nat_alt word_less_nat_alt)
  then have "timer_ticks m2 = max target (timer_ticks m)" using m2(2) lt by (auto simp: max_def not_le [symmetric])
  moreover have "timer_wait wake target m = Some m2" using lt m1 m2 by (subst timer_wait.simps) simp
  ultimately show ?case by blast
qed

text \<open>When the timer interrupt wakes the processor, \<open>timer_sleep\<close> returns, after exactly the ticks asked for
  as long as the target does not wrap; when the sum wraps it does not sleep at all.\<close>

theorem timer_sleep_returns:
  assumes "\<And>m. \<exists>m'. wake m = Some m' \<and> timer_ticks m' = timer_ticks m + 1"
  shows "\<exists>m'. timer_sleep wake ms m = Some m'
    \<and> (if unat (timer_ticks m) + unat (ms * timer_freq m div 1000) < 2 ^ 32
       then unat (timer_ticks m') = unat (timer_ticks m) + unat (ms * timer_freq m div 1000)
       else timer_ticks m' = timer_ticks m)"
proof -
  let ?d = "ms * timer_freq m div 1000"
  obtain m' where m': "timer_sleep wake ms m = Some m'" "timer_ticks m' = max (timer_ticks m + ?d) (timer_ticks m)"
    using timer_wait_returns [OF assms] unfolding timer_sleep_def by blast
  show ?thesis
  proof (cases "unat (timer_ticks m) + unat ?d < 2 ^ 32")
    case True
    then have u: "unat (timer_ticks m + ?d) = unat (timer_ticks m) + unat ?d" by (rule unat_add_small)
    then have "timer_ticks m \<le> timer_ticks m + ?d" by (simp add: word_le_nat_alt)
    then show ?thesis using m' True u by (auto simp: max_def)
  next
    case False
    then have "unat (timer_ticks m + ?d) = unat (timer_ticks m) + unat ?d - 2 ^ 32"
      using u32_unat_lt [of "timer_ticks m"] u32_unat_lt [of ?d] by (simp add: unat_word_ariths le_mod_geq)
    then have "timer_ticks m + ?d < timer_ticks m"
      using u32_unat_lt [of ?d] False by (simp add: word_less_nat_alt)
    then show ?thesis using m' False by (auto simp: max_def)
  qed
qed

text \<open>The mask that \<open>pic_enable_irq\<close> and \<open>pic_disable_irq\<close> write differs from the one read in the bit of the line only.\<close>

lemma pic_line_port:
  assumes "irq < 16"
  shows "pic_line irq = (if irq < 8 then (0x21, unat irq) else (0xA1, unat irq - 8))" and "snd (pic_line irq) < 8"
proof -
  have "unat irq < 16" using assms by (simp add: word_less_nat_alt)
  moreover have "unat (irq - 8) = unat irq - 8" if "\<not> irq < 8"
    using that by (simp add: unat_sub word_less_nat_alt word_le_nat_alt)
  ultimately show "pic_line irq = (if irq < 8 then (0x21, unat irq) else (0xA1, unat irq - 8))" "snd (pic_line irq) < 8"
    by (auto simp: pic_line_def word_less_nat_alt)
qed

lemma pic_mask_bits:
  assumes "irq < 16" and "n < 8"
  shows "bit (snd (last (ports (pic_enable_irq inb irq s)))) n
      \<longleftrightarrow> bit (inb (fst (pic_line irq))) n \<and> n \<noteq> snd (pic_line irq)"
    and "bit (snd (last (ports (pic_disable_irq inb irq s)))) n
      \<longleftrightarrow> bit (inb (fst (pic_line irq))) n \<or> n = snd (pic_line irq)"
  using assms pic_line_port(2) [OF assms(1)]
  by (auto simp: pic_enable_irq_def pic_disable_irq_def Let_def bit_simps split: prod.splits)

text \<open>The segments of \<open>gdt_init\<close>: flat 4 GB segments, code and data for ring 0 and ring 3.\<close>

definition gdt_base :: "gdt_entry \<Rightarrow> u32" where
  "gdt_base g = ucast (ge_base_low g) OR push_bit 16 (ucast (ge_base_mid g)) OR push_bit 24 (ucast (ge_base_high g))"

definition gdt_limit :: "gdt_entry \<Rightarrow> u32" where
  "gdt_limit g = ucast (ge_limit_low g) OR push_bit 16 (ucast (ge_granularity g AND 0x0F))"

lemma gdt_decode:
  assumes "gdt_set_gate n b l a gr m = Some m'"
  shows "gdt_base (gdt_entries m' ! n) = b" "gdt_limit (gdt_entries m' ! n) = l AND 0xFFFFF"
    "ge_access (gdt_entries m' ! n) = a" "ge_granularity (gdt_entries m' ! n) AND 0xF0 = gr AND 0xF0"
proof -
  have n: "n < length (gdt_entries m)" and m': "gdt_entries m' = (gdt_entries m)[n :=
     \<lparr>ge_limit_low = ucast (l AND 0xFFFF), ge_base_low = ucast (b AND 0xFFFF),
          ge_base_mid = ucast (drop_bit 16 b AND 0xFF), ge_access = a,
          ge_granularity = ucast (drop_bit 16 l AND 0x0F) OR (gr AND 0xF0),
          ge_base_high = ucast (drop_bit 24 b AND 0xFF)\<rparr>]"
    using assms by (auto simp: gdt_set_gate_def list_set_def split: if_splits)
  have masks: "(0xFFFF :: u32) = mask 16" "(0xFF :: u32) = mask 8" "(0x0F :: u32) = mask 4" "(0xFFFFF :: u32) = mask 20"
    "(0x0F :: u8) = mask 4" "(0xF0 :: u8) = NOT (mask 4)"
    by (simp_all add: mask_eq_exp_minus_1)
  show "gdt_base (gdt_entries m' ! n) = b"
  proof (rule bit_word_eqI)
    fix i assume "i < LENGTH(32)"
    then consider "i < 16" | "16 \<le> i" "i < 24" | "24 \<le> i" "i < 32" by fastforce
    then show "bit (gdt_base (gdt_entries m' ! n)) i = bit b i"
      unfolding m' gdt_base_def masks using n by cases (auto simp: bit_simps)
  qed
  show "gdt_limit (gdt_entries m' ! n) = l AND 0xFFFFF"
    unfolding m' gdt_limit_def masks using n by (intro bit_word_eqI) (auto simp: bit_simps)
  show "ge_access (gdt_entries m' ! n) = a" "ge_granularity (gdt_entries m' ! n) AND 0xF0 = gr AND 0xF0"
    unfolding m' masks using n by (simp, intro bit_word_eqI) (auto simp: bit_simps)
qed

section \<open>A concrete machine\<close>

definition machine_example :: machine where
  "machine_example = \<lparr>idt_entries = replicate 256 zero_gate,
     interrupt_handlers = (replicate 256 None)[32 := Some Timer_Handler, 33 := Some Keyboard_Handler],
     gdt_entries = [], idt_ptr = (0, 0), gdt_ptr = (0, 0), tss = \<lparr>ts_ss0 = 0, ts_iomap_base = 0\<rparr>,
     timer_ticks = 4, timer_freq = 1000, lapic_writes = [], m_sched = sched_booted,
     m_keyboard = \<lparr>kb_buffer = replicate 256 NUL, kb_head = 0, kb_tail = 0, shift_pressed = False, caps_lock = False\<rparr>,
     m_proc = pkern_example\<rparr>"

theorem idt_init_correct_witness:
  "\<exists>m'. idt_init (\<lambda>_. 0xFF) (\<lambda>i. 0x101000 + of_nat i) (\<lambda>i. 0x102000) 0x5000 machine_example = Some m'
     \<and> gate_base (idt_entries m' ! 14) = 0x10100E \<and> idt_entries m' ! 200 = zero_gate"
proof -
  have "vga_ok (k_con (m_proc machine_example))" using console_example_ok by (simp add: machine_example_def)
  from idt_init_correct [OF this, of "\<lambda>_. 0xFF" "\<lambda>i. 0x101000 + of_nat i" "\<lambda>i. 0x102000" "0x5000"] show ?thesis by auto
qed

lemma pkern_example_tick: "\<exists>k. sched_proc_tick pkern_example = Some k \<and> entered k = [(0x8048000, 0xBFFFFFEF)]"
proof -
  define k1 where "k1 = pkern_example\<lparr>procs := (procs pkern_example)(0x100D \<mapsto> proc_a\<lparr>pr_vruntime := 50\<rparr>)\<rparr>"
  have t: "sched_proc_tick pkern_example = schedule_process k1"
    by (simp add: sched_proc_tick_def upd_proc_def set_proc_def k1_def) (simp add: proc_a_def)
  have "proc_path (procs k1) (sched_queue k1) [0x100D, 0x5000]"
    by (simp add: k1_def proc_a_def proc_b_def zero_process_def)
  from schedule_process_eq [OF this] t show ?thesis
    by (simp add: k1_def best_of_def proc_cand_def proc_a_def proc_b_def zero_process_def)
qed

definition regs_irq :: "u32 \<Rightarrow> registers" where
  "regs_irq n = \<lparr>rg_eax = 0, rg_ebx = 0, rg_ecx = 0, rg_edx = 0, rg_esi = 0, rg_edi = 0,
     rg_int_no = n, rg_err_code = 0, rg_eip = 0, rg_cs = 8\<rparr>"

text \<open>A key is acknowledged at both controllers; a tick that starts the second process is not acknowledged.\<close>

theorem irq_handler_correct_witness:
  "(\<exists>m'. irq_handler (\<lambda>_. 0x1E) (regs_irq 33) machine_example = Some m'
     \<and> m_keyboard m' = keyboard_handler 0x1E (m_keyboard machine_example) \<and> ports (k_con (m_proc m')) = [(0x20, 0x20)]
     \<and> lapic_writes m' = [(0xB0, 0)])
   \<and> (\<exists>m'. irq_handler (\<lambda>_. 0) (regs_irq 32) machine_example = Some m'
     \<and> entered (m_proc m') = [(0x8048000, 0xBFFFFFEF)] \<and> ports (k_con (m_proc m')) = [] \<and> lapic_writes m' = [])"
proof
  let ?m1 = "machine_example\<lparr>m_keyboard := keyboard_handler 0x1E (m_keyboard machine_example)\<rparr>"
  have "(case interrupt_handlers machine_example ! (32 + 1) of None \<Rightarrow> Some machine_example
        | Some h \<Rightarrow> call_handler (\<lambda>_. 0x1E) h machine_example) = Some ?m1"
    by (simp add: machine_example_def call_handler_def)
  moreover have len: "length (interrupt_handlers machine_example) = 256" by (simp add: machine_example_def)
  moreover have io: "ports (k_con (m_proc machine_example)) = []" "lapic_writes machine_example = []"
    by (simp_all add: machine_example_def console_example_def)
  ultimately show "\<exists>m'. irq_handler (\<lambda>_. 0x1E) (regs_irq 33) machine_example = Some m'
     \<and> m_keyboard m' = keyboard_handler 0x1E (m_keyboard machine_example) \<and> ports (k_con (m_proc m')) = [(0x20, 0x20)]
     \<and> lapic_writes m' = [(0xB0, 0)]"
    using irq_handler_correct [of "regs_irq 33" 1 machine_example "\<lambda>_. 0x1E" ?m1 ?m1] by (auto simp: regs_irq_def)
  let ?t = "machine_example\<lparr>timer_ticks := 5\<rparr>"
  have t: "(case interrupt_handlers machine_example ! (32 + 0) of None \<Rightarrow> Some machine_example
        | Some h \<Rightarrow> call_handler (\<lambda>_. 0) h machine_example) = Some ?t"
    by (simp add: machine_example_def call_handler_def timer_handler_def)
  obtain k where k: "sched_proc_tick pkern_example = Some k" "entered k = [(0x8048000, 0xBFFFFFEF)]"
    using pkern_example_tick by blast
  have mp: "m_proc ?t = pkern_example" "m_sched ?t = m_sched machine_example" by (simp_all add: machine_example_def)
  then have "(if 0 = (0 :: nat) then map_option (\<lambda>k. ?t\<lparr>m_proc := k\<rparr>) (sched_proc_tick (m_proc ?t)) else Some ?t)
      = Some (?t\<lparr>m_proc := k\<rparr>)" using k(1) by simp
  from irq_handler_correct [OF _ _ len t this, of "regs_irq 32"] k(2) io mp
  show "\<exists>m'. irq_handler (\<lambda>_. 0) (regs_irq 32) machine_example = Some m'
     \<and> entered (m_proc m') = [(0x8048000, 0xBFFFFFEF)] \<and> ports (k_con (m_proc m')) = [] \<and> lapic_writes m' = []"
    by (auto simp: regs_irq_def)
qed

theorem timer_sleep_returns_witness:
  "\<exists>m'. timer_sleep (\<lambda>m. Some (m\<lparr>timer_ticks := timer_ticks m + 1\<rparr>)) 20 machine_example = Some m' \<and> timer_ticks m' = 24"
proof -
  have "\<exists>m'. Some (m\<lparr>timer_ticks := timer_ticks m + 1\<rparr>) = Some m' \<and> timer_ticks m' = timer_ticks m + 1" for m :: machine by simp
  from timer_sleep_returns [of "\<lambda>m. Some (m\<lparr>timer_ticks := timer_ticks m + 1\<rparr>)", OF this, of 20 machine_example]
  show ?thesis by (auto simp: machine_example_def word_unat_eq_iff)
qed

end
