(* ===== verification/Cpu_Id.thy ===== *)
theory Cpu_Id
  imports Console
begin

text \<open>
  Identification of the processor, \<^verbatim>\<open>kernel/cpuid.c\<close>.  The instruction \<^verbatim>\<open>cpuid\<close> is the
  parameter \<open>native_cpuid\<close>: for a leaf, what it leaves in \<^verbatim>\<open>eax\<close>, \<^verbatim>\<open>ebx\<close>, \<^verbatim>\<open>ecx\<close>
  and \<^verbatim>\<open>edx\<close>.  The flags before and after the attempt to flip bit 21 are a parameter too.
\<close>

type_synonym cpuid_regs = "u32 \<times> u32 \<times> u32 \<times> u32"

definition cpuid_supported :: "u32 \<times> u32 \<Rightarrow> bool" where
  "cpuid_supported = (\<lambda>(eax, ecx). (eax XOR ecx) AND 0x00200000 \<noteq> 0)"

text \<open>\<^verbatim>\<open>((uint32_t*)b)[i] = w\<close>: four bytes, the least significant one first.\<close>

definition word_chars :: "u32 \<Rightarrow> char list" where
  "word_chars w = map (\<lambda>i. char_of (unat (drop_bit (8 * i) w AND 0xFF))) [0, 1, 2, 3]"

definition put_word :: "char list \<Rightarrow> nat \<Rightarrow> u32 \<Rightarrow> char list option" where
  "put_word b i w = memcpy_at b (4 * i) (word_chars w) 0 4"

definition cpuid_get_vendor :: "u32 \<times> u32 \<Rightarrow> (u32 \<Rightarrow> cpuid_regs) \<Rightarrow> cptr \<Rightarrow> cptr option" where
  "cpuid_get_vendor flags native_cpuid vendor =
     (case vendor of
        None \<Rightarrow> Some None
      | Some v \<Rightarrow>
          if \<not> cpuid_supported flags then map_option Some (strcpy v (''Unknown'' @ [NUL]))
          else do {
            let (eax, ebx, ecx, edx) = native_cpuid 0;
            v \<leftarrow> put_word v 0 ebx;
            v \<leftarrow> put_word v 1 edx;
            v \<leftarrow> put_word v 2 ecx;
            v \<leftarrow> put_at v 12 NUL;
            Some (Some v)
          })"

fun brand_words :: "nat list \<Rightarrow> (u32 \<Rightarrow> cpuid_regs) \<Rightarrow> char list \<Rightarrow> char list option" where
  "brand_words [] native_cpuid b = Some b"
| "brand_words (i # is) native_cpuid b = do {
     let (eax, ebx, ecx, edx) = native_cpuid (0x80000002 + of_nat i);
     b \<leftarrow> put_word b (i * 4 + 0) eax;
     b \<leftarrow> put_word b (i * 4 + 1) ebx;
     b \<leftarrow> put_word b (i * 4 + 2) ecx;
     b \<leftarrow> put_word b (i * 4 + 3) edx;
     brand_words is native_cpuid b
   }"

text \<open>\<^verbatim>\<open>while (*p == ' ') p++;\<close>\<close>

fun skip_spaces :: "char list \<Rightarrow> nat option" where
  "skip_spaces [] = None"
| "skip_spaces (c # cs) = (if c = CHR '' '' then map_option Suc (skip_spaces cs) else Some 0)"

definition cpuid_get_brand :: "u32 \<times> u32 \<Rightarrow> (u32 \<Rightarrow> cpuid_regs) \<Rightarrow> cptr \<Rightarrow> cptr option" where
  "cpuid_get_brand flags native_cpuid brand =
     (case brand of
        None \<Rightarrow> Some None
      | Some b \<Rightarrow>
          if \<not> cpuid_supported flags then map_option Some (strcpy b (''Generic x86 Processor'' @ [NUL]))
          else
            let (eax, ebx, ecx, edx) = native_cpuid 0x80000000
            in if eax < 0x80000004 then map_option Some (strcpy b (''x86 Processor'' @ [NUL]))
               else do {
                 b \<leftarrow> brand_words [0, 1, 2] native_cpuid b;
                 b \<leftarrow> put_at b 48 NUL;
                 p \<leftarrow> skip_spaces b;
                 if p \<noteq> 0
                 then do { n \<leftarrow> strlen_buf (drop p b); map_option Some (memmove b 0 p (n + 1)) }
                 else Some (Some b)
               })"

definition cpuid_get_features :: "u32 \<times> u32 \<Rightarrow> (u32 \<Rightarrow> cpuid_regs) \<Rightarrow> u32 \<times> u32" where
  "cpuid_get_features flags native_cpuid =
     (if \<not> cpuid_supported flags then (0, 0)
      else let (eax, ebx, ecx, edx) = native_cpuid 1 in (ecx, edx))"

definition cpuid_has_feature :: "u32 \<times> u32 \<Rightarrow> (u32 \<Rightarrow> cpuid_regs) \<Rightarrow> u32 \<Rightarrow> bool" where
  "cpuid_has_feature flags native_cpuid feature_bit \<longleftrightarrow> snd (cpuid_get_features flags native_cpuid) AND feature_bit \<noteq> 0"

text \<open>The features that \<open>cpuid_print_info\<close> tests, in its order.\<close>

definition cpuid_feature_names :: "(nat \<times> char list) list" where
  "cpuid_feature_names =
     [(0, '' FPU''), (4, '' TSC''), (5, '' MSR''), (6, '' PAE''), (8, '' CX8''), (9, '' APIC''), (11, '' SEP''),
      (12, '' MTRR''), (13, '' PGE''), (14, '' MCA''), (15, '' CMOV''), (16, '' PAT''), (17, '' PSE36''),
      (23, '' MMX''), (24, '' FXSR''), (25, '' SSE''), (26, '' SSE2''), (28, '' HTT'')]"

fun print_features :: "(nat \<times> char list) list \<Rightarrow> u32 \<Rightarrow> console \<Rightarrow> console option" where
  "print_features [] edx con = Some con"
| "print_features ((i, name) # fs) edx con = do {
     con \<leftarrow> (if edx AND push_bit i 1 \<noteq> 0 then printk (Some (name @ [NUL])) [] con else Some con);
     print_features fs edx con
   }"

definition cpuid_print_info :: "u32 \<times> u32 \<Rightarrow> (u32 \<Rightarrow> cpuid_regs) \<Rightarrow> char list \<Rightarrow> char list \<Rightarrow> console \<Rightarrow> console option" where
  "cpuid_print_info flags native_cpuid vendor brand con =
     (if \<not> cpuid_supported flags
      then printk (Some (''CPU: CPUID instruction not supported'' @ [CHR 0x0A, NUL])) [] con
      else do {
        vendor \<leftarrow> cpuid_get_vendor flags native_cpuid (Some vendor);
        brand \<leftarrow> cpuid_get_brand flags native_cpuid (Some brand);
        con \<leftarrow> printk (Some (''CPU: Vendor: %s'' @ [CHR 0x0A, NUL])) [VA_str vendor] con;
        con \<leftarrow> printk (Some (''CPU: Brand: %s'' @ [CHR 0x0A, NUL])) [VA_str brand] con;
        let (ecx, edx) = cpuid_get_features flags native_cpuid;
        con \<leftarrow> printk (Some (''CPU: Features:'' @ [NUL])) [] con;
        con \<leftarrow> print_features cpuid_feature_names edx con;
        printk (Some [CHR 0x0A, NUL]) [] con
      })"

section \<open>What the buffers hold\<close>


lemma cstr_append_NUL_end: "cstr (s @ [NUL]) = cstr s"
  by (induction s) auto

lemma drop_last: "length b = Suc n \<Longrightarrow> \<exists>l. drop n b = [l]"
  by (metis Cons_nth_drop_Suc drop_all le_refl lessI)

lemma length_word_chars [simp]: "length (word_chars w) = 4"
  by (simp add: word_chars_def)

lemma put_word_append:
  "length pre = 4 * i \<Longrightarrow> 4 \<le> length rest \<Longrightarrow>
   put_word (pre @ rest) i w = Some ((pre @ word_chars w) @ drop 4 rest)"
  by (simp add: put_word_def memcpy_at_eq)

definition brand_chunk :: "(u32 \<Rightarrow> cpuid_regs) \<Rightarrow> nat \<Rightarrow> char list" where
  "brand_chunk native_cpuid i =
     (let (eax, ebx, ecx, edx) = native_cpuid (0x80000002 + of_nat i)
      in word_chars eax @ word_chars ebx @ word_chars ecx @ word_chars edx)"

definition brand_text :: "(u32 \<Rightarrow> cpuid_regs) \<Rightarrow> char list" where
  "brand_text native_cpuid = concat (map (brand_chunk native_cpuid) [0, 1, 2])"

lemma length_brand_chunk [simp]: "length (brand_chunk c i) = 16"
  by (simp add: brand_chunk_def split: prod.split)

lemma length_brand_text [simp]: "length (brand_text c) = 48"
  by (simp add: brand_text_def)

lemma brand_words_step:
  assumes "length pre = 16 * i" and "16 \<le> length rest"
  shows "brand_words (i # is) c (pre @ rest) = brand_words is c ((pre @ brand_chunk c i) @ drop 16 rest)"
proof -
  obtain a b e d where r: "c (0x80000002 + of_nat i) = (a, b, e, d)" by (metis prod_cases4)
  have "put_word (pre @ rest) (i * 4 + 0) a = Some ((pre @ word_chars a) @ drop 4 rest)"
    using assms by (intro put_word_append) simp_all
  moreover have "put_word ((pre @ word_chars a) @ drop 4 rest) (i * 4 + 1) b
      = Some (((pre @ word_chars a) @ word_chars b) @ drop 4 (drop 4 rest))"
    using assms by (intro put_word_append) simp_all
  moreover have "put_word (((pre @ word_chars a) @ word_chars b) @ drop 4 (drop 4 rest)) (i * 4 + 2) e
      = Some ((((pre @ word_chars a) @ word_chars b) @ word_chars e) @ drop 4 (drop 4 (drop 4 rest)))"
    using assms by (intro put_word_append) simp_all
  moreover have "put_word ((((pre @ word_chars a) @ word_chars b) @ word_chars e) @ drop 4 (drop 4 (drop 4 rest))) (i * 4 + 3) d
      = Some (((((pre @ word_chars a) @ word_chars b) @ word_chars e) @ word_chars d) @ drop 4 (drop 4 (drop 4 (drop 4 rest))))"
    using assms by (intro put_word_append) simp_all
  ultimately show ?thesis by (simp only: brand_words.simps r Let_def prod.case bind.bind_lunit) (simp add: brand_chunk_def r)
qed

lemma brand_words_eq:
  assumes "48 \<le> length b"
  shows "brand_words [0, 1, 2] c b = Some (brand_text c @ drop 48 b)"
proof -
  have "brand_words [0, 1, 2] c ([] @ b) = brand_words [1, 2] c (([] @ brand_chunk c 0) @ drop 16 b)"
    using assms by (intro brand_words_step) simp_all
  also have "\<dots> = brand_words [2] c ((([] @ brand_chunk c 0) @ brand_chunk c 1) @ drop 16 (drop 16 b))"
    using assms by (intro brand_words_step) simp_all
  also have "\<dots> = brand_words [] c (((([] @ brand_chunk c 0) @ brand_chunk c 1) @ brand_chunk c 2) @ drop 16 (drop 16 (drop 16 b)))"
    using assms by (intro brand_words_step) simp_all
  finally show ?thesis by (simp add: brand_text_def)
qed

lemma skip_spaces_eq:
  "\<exists>c \<in> set b. c \<noteq> CHR '' '' \<Longrightarrow> skip_spaces b = Some (length (takeWhile (\<lambda>c. c = CHR '' '') b))"
  by (induction b) auto

text \<open>\<open>cpuid_get_brand\<close> leaves in a buffer of 49 bytes, and nowhere else, the text of the three brand leaves up
  to its first zero byte, at most 48 characters, with the leading spaces cut off and a terminator.\<close>

theorem cpuid_get_brand_correct:
  assumes "length b = 49" and "cpuid_supported flags" and "0x80000004 \<le> fst (native_cpuid 0x80000000)"
  shows "\<exists>b'. cpuid_get_brand flags native_cpuid (Some b) = Some (Some b') \<and> length b' = 49 \<and> NUL \<in> set b'
    \<and> cstr b' = dropWhile (\<lambda>c. c = CHR '' '') (cstr (brand_text native_cpuid))"
proof -
  let ?t = "brand_text native_cpuid" and ?sp = "\<lambda>c. c = CHR '' ''"
  define d where "d = ?t @ [NUL]"
  obtain l where l: "drop 48 b = [l]" using drop_last [of b 48] assms(1) by auto
  have w: "brand_words [0, 1, 2] native_cpuid b = Some (?t @ [l])" using brand_words_eq [of b native_cpuid] assms(1) l by simp
  have p: "put_at (?t @ [l]) 48 NUL = Some d" by (simp add: put_at_def d_def list_update_append)
  have N: "NUL \<in> set d" by (simp add: d_def)
  let ?p = "length (takeWhile ?sp d)"
  have sk: "skip_spaces d = Some ?p" by (rule skip_spaces_eq) (auto simp: d_def)
  have dp: "drop ?p d = dropWhile ?sp d" by (metis dropWhile_eq_drop)
  have "NUL \<notin> set (takeWhile ?sp d)" by (auto dest: set_takeWhileD)
  moreover have "set d = set (takeWhile ?sp d) \<union> set (dropWhile ?sp d)"
    by (metis set_append takeWhile_dropWhile_id)
  ultimately have Np: "NUL \<in> set (drop ?p d)" using N unfolding dp by blast
  let ?n = "length (cstr (drop ?p d))"
  have cd: "cstr (drop ?p d) = dropWhile ?sp (cstr ?t)"
    unfolding dp by (subst cstr_dropWhile) (simp_all add: d_def cstr_append_NUL_end)
  have n: "strlen_buf (drop ?p d) = Some ?n" using Np by (simp add: strlen_buf_eq)
  obtain eax ebx ecx edx where r: "native_cpuid 0x80000000 = (eax, ebx, ecx, edx)" by (metis prod_cases4)
  then have max: "\<not> eax < 0x80000004" using assms(3) by (simp add: not_less)
  have run: "cpuid_get_brand flags native_cpuid (Some b)
      = (if ?p \<noteq> 0 then map_option Some (memmove d 0 ?p (?n + 1)) else Some (Some d))"
    using assms(2) max w p sk n by (simp add: cpuid_get_brand_def r)
  show ?thesis
  proof (cases "?p = 0")
    case True
    then show ?thesis using run N cd by (intro exI [of _ d]) (simp add: d_def)
  next
    case False
    have lt: "?n < length (drop ?p d)" by (rule length_cstr_less [OF Np])
    then have bounds: "0 + (?n + 1) \<le> length d" "?p + (?n + 1) \<le> length d" by simp_all
    have tk: "take (?n + 1) (drop ?p d) = cstr (drop ?p d) @ [NUL]"
      by (subst (2) cstr_split [OF Np]) simp
    have "memmove d 0 ?p (?n + 1) = Some (cstr (drop ?p d) @ [NUL] @ drop (?n + 1) d)"
      using memmove_ok [OF bounds] tk by simp
    moreover have "length (cstr (drop ?p d) @ [NUL] @ drop (?n + 1) d) = 49" using bounds by (simp add: d_def)
    moreover have "cstr (cstr (drop ?p d) @ [NUL] @ drop (?n + 1) d) = cstr (drop ?p d)"
      using cstr_append_NUL [of "cstr (drop ?p d)" "drop (?n + 1) d"] by simp
    moreover have "NUL \<in> set (cstr (drop ?p d) @ [NUL] @ drop (?n + 1) d)" by simp
    ultimately show ?thesis unfolding cd [symmetric] using run False by auto
  qed
qed

text \<open>The vendor: twelve characters from \<^verbatim>\<open>ebx\<close>, \<^verbatim>\<open>edx\<close> and \<^verbatim>\<open>ecx\<close>.\<close>

lemma cpuid_get_vendor_correct:
  assumes "length v = 13" and "cpuid_supported flags" and "native_cpuid 0 = (eax, ebx, ecx, edx)"
  shows "cpuid_get_vendor flags native_cpuid (Some v)
    = Some (Some (word_chars ebx @ word_chars edx @ word_chars ecx @ [NUL]))"
proof -
  obtain l where l: "drop 12 v = [l]" using drop_last [of v 12] assms(1) by auto
  have "put_word ([] @ v) 0 ebx = Some (([] @ word_chars ebx) @ drop 4 v)"
    using assms(1) by (intro put_word_append) simp_all
  moreover have "put_word (([] @ word_chars ebx) @ drop 4 v) 1 edx = Some ((([] @ word_chars ebx) @ word_chars edx) @ drop 4 (drop 4 v))"
    using assms(1) by (intro put_word_append) simp_all
  moreover have "put_word ((([] @ word_chars ebx) @ word_chars edx) @ drop 4 (drop 4 v)) 2 ecx
      = Some (((([] @ word_chars ebx) @ word_chars edx) @ word_chars ecx) @ drop 4 (drop 4 (drop 4 v)))"
    using assms(1) by (intro put_word_append) simp_all
  moreover have "drop 4 (drop 4 (drop 4 v)) = [l]" using l by simp
  ultimately show ?thesis
    using assms(2,3) by (simp add: cpuid_get_vendor_def put_at_def list_update_append)
qed

theorem cpuid_get_brand_correct_witness:
  "\<exists>b'. cpuid_get_brand (0x200000, 0) (\<lambda>leaf. if leaf = 0x80000002 then (0x20202020, 0x55504320, 0x00003120, 0) else (0x80000004, 0, 0, 0))
     (Some (replicate 49 CHR ''x'')) = Some (Some b') \<and> cstr b' = ''CPU 1''"
proof -
  let ?c = "\<lambda>leaf :: u32. if leaf = 0x80000002 then (0x20202020, 0x55504320, 0x00003120, 0) else (0x80000004 :: u32, 0 :: u32, 0 :: u32, 0 :: u32)"
  have s: "cpuid_supported (0x200000, 0)" by (simp add: cpuid_supported_def)
  have "cstr (brand_text ?c) = ''     CPU 1''" by code_simp
  then show ?thesis using cpuid_get_brand_correct [of "replicate 49 CHR ''x''" "(0x200000, 0)" ?c] s by auto
qed
end
