(* ===== verification/Pci.thy ===== *)
theory Pci
  imports Address_Space
begin

text \<open>
  Enumeration of the PCI bus, \<^verbatim>\<open>drivers/pci.c\<close>.  The host bridge is the documented configuration
  mechanism: the port \<^verbatim>\<open>0xCF8\<close> selects a doubleword of the configuration space, \<^verbatim>\<open>0xCFC\<close> reads and
  writes it.  What the functions on the bus make of a write is not the kernel's: read-only registers, bits
  that are cleared by writing 1, functions that are absent.  It is the parameter \<open>pci_react\<close> of the host, which
  gives the configuration space after a write; \<open>pci_space\<close> is what reads give.  A \<^verbatim>\<open>pci_device_t\<close> lives in a block of the heap; \<open>pci_devs\<close> maps its address to its fields.
\<close>

section \<open>Configuration space\<close>

record pci_host =
  pci_latch :: u32
  pci_space :: "u32 \<Rightarrow> u32"
  pci_react :: "u32 \<Rightarrow> u32 \<Rightarrow> (u32 \<Rightarrow> u32) \<Rightarrow> (u32 \<Rightarrow> u32)"
  pci_writes :: "(u32 \<times> u32) list"

definition outl :: "u16 \<Rightarrow> u32 \<Rightarrow> pci_host \<Rightarrow> pci_host" where
  "outl port v h =
     (if port = 0xCF8 then h\<lparr>pci_latch := v\<rparr>
      else if port = 0xCFC
      then h\<lparr>pci_space := pci_react h (pci_latch h) v (pci_space h), pci_writes := pci_writes h @ [(pci_latch h, v)]\<rparr>
      else h)"

definition inl :: "u16 \<Rightarrow> pci_host \<Rightarrow> u32" where
  "inl port h = (if port = 0xCFC then pci_space h (pci_latch h) else 0xFFFFFFFF)"

definition pci_address :: "u8 \<Rightarrow> u8 \<Rightarrow> u8 \<Rightarrow> u8 \<Rightarrow> u32" where
  "pci_address bus slot func offset =
     push_bit 16 (ucast bus) OR push_bit 11 (ucast slot) OR push_bit 8 (ucast func)
     OR (ucast offset AND 0xFC) OR 0x80000000"

definition pci_config_read32 :: "u8 \<Rightarrow> u8 \<Rightarrow> u8 \<Rightarrow> u8 \<Rightarrow> pci_host \<Rightarrow> u32 \<times> pci_host" where
  "pci_config_read32 bus slot func offset h =
     (let h = outl 0xCF8 (pci_address bus slot func offset) h in (inl 0xCFC h, h))"

definition pci_config_read16 :: "u8 \<Rightarrow> u8 \<Rightarrow> u8 \<Rightarrow> u8 \<Rightarrow> pci_host \<Rightarrow> u16 \<times> pci_host" where
  "pci_config_read16 bus slot func offset h =
     (let (val, h) = pci_config_read32 bus slot func offset h
      in (ucast (drop_bit (unat (offset AND 2) * 8) val AND 0xFFFF), h))"

definition pci_config_read8 :: "u8 \<Rightarrow> u8 \<Rightarrow> u8 \<Rightarrow> u8 \<Rightarrow> pci_host \<Rightarrow> u8 \<times> pci_host" where
  "pci_config_read8 bus slot func offset h =
     (let (val, h) = pci_config_read32 bus slot func offset h
      in (ucast (drop_bit (unat (offset AND 3) * 8) val AND 0xFF), h))"

definition pci_config_write32 :: "u8 \<Rightarrow> u8 \<Rightarrow> u8 \<Rightarrow> u8 \<Rightarrow> u32 \<Rightarrow> pci_host \<Rightarrow> pci_host" where
  "pci_config_write32 bus slot func offset val h =
     outl 0xCFC val (outl 0xCF8 (pci_address bus slot func offset) h)"

definition pci_config_write16 :: "u8 \<Rightarrow> u8 \<Rightarrow> u8 \<Rightarrow> u8 \<Rightarrow> u16 \<Rightarrow> pci_host \<Rightarrow> pci_host" where
  "pci_config_write16 bus slot func offset val h =
     (let (old_val, h) = pci_config_read32 bus slot func offset h;
          shift = unat (offset AND 2) * 8;
          new_val = (old_val AND NOT (push_bit shift 0xFFFF)) OR push_bit shift (ucast val)
      in pci_config_write32 bus slot func offset new_val h)"

definition pci_config_write8 :: "u8 \<Rightarrow> u8 \<Rightarrow> u8 \<Rightarrow> u8 \<Rightarrow> u8 \<Rightarrow> pci_host \<Rightarrow> pci_host" where
  "pci_config_write8 bus slot func offset val h =
     (let (old_val, h) = pci_config_read32 bus slot func offset h;
          shift = unat (offset AND 3) * 8;
          new_val = (old_val AND NOT (push_bit shift 0xFF)) OR push_bit shift (ucast val)
      in pci_config_write32 bus slot func offset new_val h)"

section \<open>The scan\<close>

record pci_device =
  pd_bus :: u8
  pd_slot :: u8
  pd_func :: u8
  pd_vendor_id :: u16
  pd_device_id :: u16
  pd_class_code :: u16
  pd_subclass :: u16
  pd_bar :: "u32 list"
  pd_irq_line :: u8
  pd_next :: u32

record pci =
  pci_host :: pci_host
  pci_devs :: "u32 \<rightharpoonup> pci_device"
  pci_device_list :: u32
  pci_device_count :: u32
  pci_kern :: kern

abbreviation (input) PCI_DEVICE_BYTES :: u32 where "PCI_DEVICE_BYTES \<equiv> 44"

fun read_bars :: "nat list \<Rightarrow> u8 \<Rightarrow> u8 \<Rightarrow> u8 \<Rightarrow> pci_host \<Rightarrow> u32 list \<times> pci_host" where
  "read_bars [] bus slot func h = ([], h)"
| "read_bars (b # bs) bus slot func h =
     (let (v, h) = pci_config_read32 bus slot func (0x10 + of_nat b * 4) h;
          (vs, h) = read_bars bs bus slot func h
      in (v # vs, h))"

text \<open>\<^verbatim>\<open>if (last_dev) last_dev->next = dev; else pci_device_list = dev;\<close> and the lines around it.\<close>

definition pci_append :: "u32 \<Rightarrow> pci_device \<Rightarrow> u32 \<Rightarrow> pci \<Rightarrow> pci option" where
  "pci_append a d last_dev s =
     (let s = s\<lparr>pci_devs := (pci_devs s)(a \<mapsto> d)\<rparr>
      in map_option (\<lambda>s. s\<lparr>pci_device_count := pci_device_count s + 1\<rparr>)
           (if last_dev \<noteq> 0
            then map_option (\<lambda>l. s\<lparr>pci_devs := (pci_devs s)(last_dev \<mapsto> l\<lparr>pd_next := a\<rparr>)\<rparr>) (pci_devs s last_dev)
            else Some (s\<lparr>pci_device_list := a\<rparr>)))"

text \<open>The reads of one function that is present, with the device they describe.\<close>

definition pci_read_device :: "u8 \<Rightarrow> u8 \<Rightarrow> u8 \<Rightarrow> u16 \<Rightarrow> pci_host \<Rightarrow> pci_device \<times> pci_host" where
  "pci_read_device bus slot func vendor h =
     (let (device, h) = pci_config_read16 bus slot func 0x02 h;
          (class_code, h) = pci_config_read8 bus slot func 0x0B h;
          (subclass, h) = pci_config_read8 bus slot func 0x0A h;
          (irq_line, h) = pci_config_read8 bus slot func 0x3C h
      in (\<lparr>pd_bus = bus, pd_slot = slot, pd_func = func, pd_vendor_id = vendor, pd_device_id = device,
           pd_class_code = ucast class_code, pd_subclass = ucast subclass, pd_bar = [],
           pd_irq_line = irq_line, pd_next = 0\<rparr>, h))"

fun scan_funcs :: "nat list \<Rightarrow> u8 \<Rightarrow> u8 \<Rightarrow> u32 \<times> pci \<Rightarrow> (u32 \<times> pci) outcome" where
  "scan_funcs [] bus slot st = Some (Inr st)"
| "scan_funcs (f # fs) bus slot (last_dev, s) =
     (let func = of_nat f;
          (vendor, h) = pci_config_read16 bus slot func 0x00 (pci_host s);
          s = s\<lparr>pci_host := h\<rparr>
      in if vendor = 0xFFFF then scan_funcs fs bus slot (last_dev, s)
         else
           let (d, h) = pci_read_device bus slot func vendor (pci_host s);
               s = s\<lparr>pci_host := h\<rparr>
           in obind (k_kmalloc PCI_DEVICE_BYTES (pci_kern s)) (\<lambda>(a, k).
              let s = s\<lparr>pci_kern := k\<rparr>
              in if a = 0 then scan_funcs fs bus slot (last_dev, s)
                 else
                   let (bars, h) = read_bars [0..<6] bus slot func (pci_host s)
                   in obind (no_panic (pci_append a (d\<lparr>pd_bar := bars\<rparr>) last_dev (s\<lparr>pci_host := h\<rparr>))) (\<lambda>s.
                      let (header_type, h) = pci_config_read8 bus slot 0 0x0E (pci_host s);
                          s = s\<lparr>pci_host := h\<rparr>
                      in if f = 0 \<and> header_type AND 0x80 = 0 then Some (Inr (a, s))
                         else scan_funcs fs bus slot (a, s))))"

fun scan_slots :: "nat list \<Rightarrow> u8 \<Rightarrow> u32 \<times> pci \<Rightarrow> (u32 \<times> pci) outcome" where
  "scan_slots [] bus st = Some (Inr st)"
| "scan_slots (slot # slots) bus st = obind (scan_funcs [0..<8] bus (of_nat slot) st) (scan_slots slots bus)"

fun scan_buses :: "nat list \<Rightarrow> u32 \<times> pci \<Rightarrow> (u32 \<times> pci) outcome" where
  "scan_buses [] st = Some (Inr st)"
| "scan_buses (bus # buses) st = obind (scan_slots [0..<32] (of_nat bus) st) (scan_buses buses)"

definition pci_scan :: "pci \<Rightarrow> pci outcome" where
  "pci_scan s = obind (scan_buses [0..<256] (0, s\<lparr>pci_device_count := 0, pci_device_list := 0\<rparr>)) (\<lambda>(_, s). Some (Inr s))"

section \<open>Looking devices up\<close>

partial_function (option) pci_find :: "(pci_device \<Rightarrow> bool) \<Rightarrow> (u32 \<rightharpoonup> pci_device) \<Rightarrow> u32 \<Rightarrow> u32 option" where
  "pci_find P ds cur =
     (if cur = 0 then Some 0
      else do { d \<leftarrow> ds cur; if P d then Some cur else pci_find P ds (pd_next d) })"

definition pci_get_device :: "u16 \<Rightarrow> u16 \<Rightarrow> pci \<Rightarrow> u32 option" where
  "pci_get_device vendor device s =
     pci_find (\<lambda>d. pd_vendor_id d = vendor \<and> pd_device_id d = device) (pci_devs s) (pci_device_list s)"

definition pci_get_class :: "u8 \<Rightarrow> u8 \<Rightarrow> pci \<Rightarrow> u32 option" where
  "pci_get_class class_code subclass s =
     pci_find (\<lambda>d. pd_class_code d = ucast class_code \<and> pd_subclass d = ucast subclass) (pci_devs s) (pci_device_list s)"

partial_function (option) pci_list_from :: "(u32 \<rightharpoonup> pci_device) \<Rightarrow> u32 \<Rightarrow> kern \<Rightarrow> kern option" where
  "pci_list_from ds cur k =
     (if cur = 0 then Some k
      else do {
        d \<leftarrow> ds cur;
        k \<leftarrow> k_printk (''%02u   %02u    %02u    0x%04x  0x%04x  0x%02x   0x%02x      %u'' @ [CHR 0x0A])
               [VA_word (ucast (pd_bus d)), VA_word (ucast (pd_slot d)), VA_word (ucast (pd_func d)),
                VA_word (ucast (pd_vendor_id d)), VA_word (ucast (pd_device_id d)),
                VA_word (ucast (pd_class_code d)), VA_word (ucast (pd_subclass d)), VA_word (ucast (pd_irq_line d))] k;
        pci_list_from ds (pd_next d) k
      })"

definition pci_list :: "pci \<Rightarrow> pci option" where
  "pci_list s = do {
     k \<leftarrow> k_printk (''BUS  SLOT  FUNC  VENDOR  DEVICE  CLASS  SUBCLASS  IRQ'' @ [CHR 0x0A]) [] (pci_kern s);
     k \<leftarrow> k_printk (''---  ----  ----  ------  ------  -----  --------  ---'' @ [CHR 0x0A]) [] k;
     k \<leftarrow> pci_list_from (pci_devs s) (pci_device_list s) k;
     Some (s\<lparr>pci_kern := k\<rparr>)
   }"

definition pci_get_count :: "pci \<Rightarrow> u32" where
  "pci_get_count s = pci_device_count s"

definition pci_init :: "pci \<Rightarrow> pci outcome" where
  "pci_init s = obind (pci_scan s) (\<lambda>s.
     obind (no_panic (k_printk (''PCI: Found %u devices'' @ [CHR 0x0A]) [VA_word (pci_device_count s)] (pci_kern s)))
       (\<lambda>k. Some (Inr (s\<lparr>pci_kern := k\<rparr>))))"

section \<open>Properties of the configuration space\<close>

lemma pci_read32_eq: "pci_config_read32 b s f off h
    = (pci_space h (pci_address b s f off), h\<lparr>pci_latch := pci_address b s f off\<rparr>)"
  by (simp add: pci_config_read32_def outl_def inl_def Let_def)

lemma pci_write32_eq: "pci_config_write32 b s f off v h
    = h\<lparr>pci_latch := pci_address b s f off, pci_space := pci_react h (pci_address b s f off) v (pci_space h),
         pci_writes := pci_writes h @ [(pci_address b s f off, v)]\<rparr>"
  by (simp add: pci_config_write32_def outl_def)

text \<open>The byte of a function's configuration space at an offset.\<close>

definition pci_byte :: "pci_host \<Rightarrow> u8 \<Rightarrow> u8 \<Rightarrow> u8 \<Rightarrow> u8 \<Rightarrow> u8" where
  "pci_byte h b s f off = ucast (drop_bit (8 * unat (off AND 3)) (pci_space h (pci_address b s f off)))"

lemma byte_lane:
  assumes "i < (4 :: nat)" and "j < 4"
  shows "(ucast (drop_bit (8 * j) ((w AND NOT (push_bit (8 * i) 0xFF)) OR push_bit (8 * i) (ucast v))) :: u8)
    = (if j = i then v else ucast (drop_bit (8 * j) (w :: u32)))"
proof (rule bit_word_eqI)
  fix n assume n: "n < LENGTH(8)"
  have m: "(0xFF :: u32) = mask 8" by (simp add: mask_eq_exp_minus_1)
  have v: "bit v k \<Longrightarrow> k < 8" for k using bit_imp_le_length [of v k] by simp
  have "j = i \<or> j < i \<or> i < j" by auto
  then show "bit (ucast (drop_bit (8 * j) ((w AND NOT (push_bit (8 * i) 0xFF)) OR push_bit (8 * i) (ucast v))) :: u8) n
    = bit (if j = i then v else ucast (drop_bit (8 * j) w)) n"
    unfolding m using n assms by (auto simp: bit_simps dest!: v)
qed

lemma and3_less: "unat ((off :: u8) AND 3) < 4"
proof -
  have "off AND 3 = take_bit 2 off" by (simp add: take_bit_eq_mask mask_eq_exp_minus_1)
  then have "unat (off AND 3) = unat off mod 4" by (simp add: unsigned_take_bit_eq take_bit_eq_mod unat_mod)
  then show ?thesis by simp
qed

lemma bit_small:
  assumes "unat (x :: u8) < 2 ^ k" and "bit x n"
  shows "n < k"
proof -
  have "take_bit k x = x" using assms(1) by (simp add: word_eq_unat_iff unsigned_take_bit_eq take_bit_nat_eq_self)
  then have "bit (take_bit k x) n" using assms(2) by simp
  then show ?thesis by (simp add: bit_take_bit_iff)
qed

lemma pci_address_bits:
  assumes "s < 32" and "f < 8"
  shows "n < 8 \<Longrightarrow> bit (pci_address b s f off) (16 + n) = bit b n"
    and "n < 5 \<Longrightarrow> bit (pci_address b s f off) (11 + n) = bit s n"
    and "n < 3 \<Longrightarrow> bit (pci_address b s f off) (8 + n) = bit f n"
    and "2 \<le> n \<Longrightarrow> n < 8 \<Longrightarrow> bit (pci_address b s f off) n = bit off n"
proof -
  have s: "bit s k \<Longrightarrow> k < 5" for k using bit_small [of s 5 k] assms(1) by (simp add: word_less_nat_alt)
  have f: "bit f k \<Longrightarrow> k < 3" for k using bit_small [of f 3 k] assms(2) by (simp add: word_less_nat_alt)
  have o: "bit off k \<Longrightarrow> k < 8" for k using bit_imp_le_length [of off k] by simp
  have b: "bit b k \<Longrightarrow> k < 8" for k using bit_imp_le_length [of b k] by simp
  have c: "(0xFC :: u32) = mask 8 AND NOT (mask 2)" by (simp add: mask_eq_exp_minus_1)
  have "(0x80000000 :: u32) = push_bit 31 1" by simp
  then have t: "bit (0x80000000 :: u32) k \<longleftrightarrow> k = 31" for k by (simp only: bit_push_bit_iff) (auto simp: bit_1_iff)
  show "n < 8 \<Longrightarrow> bit (pci_address b s f off) (16 + n) = bit b n"
    unfolding pci_address_def c by (auto simp: bit_simps t dest!: s f o simp del: bit_numeral_word_iff)
  show "n < 5 \<Longrightarrow> bit (pci_address b s f off) (11 + n) = bit s n"
    unfolding pci_address_def c by (auto simp: bit_simps t dest!: f o simp del: bit_numeral_word_iff)
  show "n < 3 \<Longrightarrow> bit (pci_address b s f off) (8 + n) = bit f n"
    unfolding pci_address_def c by (auto simp: bit_simps t dest!: o simp del: bit_numeral_word_iff)
  show "2 \<le> n \<Longrightarrow> n < 8 \<Longrightarrow> bit (pci_address b s f off) n = bit off n"
    unfolding pci_address_def c by (auto simp: bit_simps t simp del: bit_numeral_word_iff)
qed

text \<open>Different functions, and different doublewords of a function, have different addresses.\<close>

lemma pci_address_inj:
  assumes "s < 32" "f < 8" "s' < 32" "f' < 8"
  shows "pci_address b s f off = pci_address b' s' f' off' \<longleftrightarrow> b = b' \<and> s = s' \<and> f = f' \<and> drop_bit 2 off = drop_bit 2 off'"
proof
  assume eq: "pci_address b s f off = pci_address b' s' f' off'"
  have "bit s k \<Longrightarrow> k < 5" "bit s' k \<Longrightarrow> k < 5" "bit f k \<Longrightarrow> k < 3" "bit f' k \<Longrightarrow> k < 3" for k
    using bit_small [of s 5 k] bit_small [of s' 5 k] bit_small [of f 3 k] bit_small [of f' 3 k] assms
    by (simp_all add: word_less_nat_alt)
  note small = this
  show "b = b' \<and> s = s' \<and> f = f' \<and> drop_bit 2 off = drop_bit 2 off'"
  proof (intro conjI)
    show "b = b'"
    proof (rule bit_word_eqI)
      fix n assume "n < LENGTH(8)"
      then show "bit b n = bit b' n"
        using pci_address_bits(1) [OF assms(1,2), of n b off] pci_address_bits(1) [OF assms(3,4), of n b' off'] eq by simp
    qed
    show "s = s'"
    proof (rule bit_word_eqI)
      fix n show "bit s n = bit s' n"
        using pci_address_bits(2) [OF assms(1,2), of n b off] pci_address_bits(2) [OF assms(3,4), of n b' off'] eq small(1,2) [of n] by (cases "n < 5") auto
    qed
    show "f = f'"
    proof (rule bit_word_eqI)
      fix n show "bit f n = bit f' n"
        using pci_address_bits(3) [OF assms(1,2), of n b off] pci_address_bits(3) [OF assms(3,4), of n b' off'] eq small(3,4) [of n] by (cases "n < 3") auto
    qed
    show "drop_bit 2 off = drop_bit 2 off'"
    proof (rule bit_word_eqI)
      fix n assume "n < LENGTH(8)"
      show "bit (drop_bit 2 off) n = bit (drop_bit 2 off') n"
        using pci_address_bits(4) [OF assms(1,2), of "2 + n" b off] pci_address_bits(4) [OF assms(3,4), of "2 + n" b' off'] eq
          bit_imp_le_length [of off "2 + n"] bit_imp_le_length [of off' "2 + n"]
        by (auto simp: bit_simps)
    qed
  qed
next
  assume h: "b = b' \<and> s = s' \<and> f = f' \<and> drop_bit 2 off = drop_bit 2 off'"
  have c: "(0xFC :: u32) = mask 8 AND NOT (mask 2)" by (simp add: mask_eq_exp_minus_1)
  have "ucast off AND (mask 8 AND NOT (mask 2)) = (push_bit 2 (ucast (drop_bit 2 off)) :: u32)" for off :: u8
  proof (rule bit_word_eqI)
    fix n assume "n < LENGTH(32)"
    show "bit (ucast off AND (mask 8 AND NOT (mask 2)) :: u32) n = bit (push_bit 2 (ucast (drop_bit 2 off)) :: u32) n"
    proof (cases "n < 2")
      case False
      then obtain k where "n = 2 + k" using le_Suc_ex [of 2 n] by auto
      then show ?thesis using \<open>n < LENGTH(32)\<close> by (auto simp: bit_simps dest: bit_imp_le_length)
    qed (auto simp: bit_simps)
  qed
  then show "pci_address b s f off = pci_address b' s' f' off'" using h unfolding pci_address_def c by simp
qed

lemma same_offset: "off = off' \<longleftrightarrow> drop_bit 2 off = drop_bit 2 off' \<and> (off :: u8) AND 3 = off' AND 3"
proof -
  have *: "off = push_bit 2 (drop_bit 2 off) OR (off AND 3)" for off :: u8
  proof (rule bit_word_eqI)
    fix n assume "n < LENGTH(8)"
    have m: "(3 :: u8) = mask 2" by (simp add: mask_eq_exp_minus_1)
    show "bit off n = bit (push_bit 2 (drop_bit 2 off) OR (off AND 3)) n"
    proof (cases "n < 2")
      case False
      then obtain k where "n = 2 + k" using le_Suc_ex [of 2 n] by auto
      then show ?thesis unfolding m using \<open>n < LENGTH(8)\<close> by (auto simp: bit_simps)
    qed (unfold m, auto simp: bit_simps)
  qed
  show ?thesis using * [of off] * [of off'] by metis
qed

lemma pci_read8_eq: "fst (pci_config_read8 b s f off h) = pci_byte h b s f off"
proof -
  have m: "(0xFF :: u32) = mask 8" by (simp add: mask_eq_exp_minus_1)
  have "(ucast (w AND 0xFF) :: u8) = ucast w" for w :: u32
    unfolding m by (rule bit_word_eqI) (auto simp: bit_simps)
  then show ?thesis by (simp add: pci_config_read8_def pci_read32_eq pci_byte_def mult.commute)
qed

lemma pci_byte_same: "drop_bit 2 off' = drop_bit 2 off \<Longrightarrow> s < 32 \<Longrightarrow> f < 8 \<Longrightarrow>
    pci_byte h b s f off' = ucast (drop_bit (8 * unat (off' AND 3)) (pci_space h (pci_address b s f off)))"
  using pci_address_inj [of s f s f b off' b off] by (simp add: pci_byte_def)

text \<open>C18: \<open>pci_config_write8\<close> is one write of the doubleword that holds the byte: it has the new byte in the place
  of the offset, and in the three other places what \<open>pci_config_read8\<close> gives for them.  The configuration space
  becomes what the functions make of this write, whatever that is (the three other bytes are written too, which
  clears bits that are cleared by writing 1).  If the function stores the doubleword, and nothing else, the
  byte is read back and every other byte of every function is as before.\<close>

theorem pci_config_write8_correct:
  assumes "s < 32" and "f < 8"
    and "h' = pci_config_write8 b s f off val h"
  shows "\<exists>w. pci_writes h' = pci_writes h @ [(pci_address b s f off, w)]
    \<and> pci_space h' = pci_react h (pci_address b s f off) w (pci_space h)
    \<and> (\<forall>off'. drop_bit 2 off' = drop_bit 2 off \<longrightarrow> ucast (drop_bit (8 * unat (off' AND 3)) w)
          = (if off' = off then val else fst (pci_config_read8 b s f off' h)))
    \<and> (pci_react h (pci_address b s f off) w (pci_space h) = (pci_space h)(pci_address b s f off := w)
        \<longrightarrow> (\<forall>b' s' f' off'. s' < 32 \<longrightarrow> f' < 8 \<longrightarrow> fst (pci_config_read8 b' s' f' off' h')
               = (if (b', s', f', off') = (b, s, f, off) then val else fst (pci_config_read8 b' s' f' off' h))))"
proof -
  let ?i = "unat (off AND 3)"
  let ?a = "pci_address b s f off"
  define w where "w = (pci_space h ?a AND NOT (push_bit (8 * ?i) 0xFF)) OR push_bit (8 * ?i) (ucast val)"
  have h': "pci_writes h' = pci_writes h @ [(?a, w)]" "pci_space h' = pci_react h ?a w (pci_space h)"
    by (simp_all add: assms(3) pci_config_write8_def pci_read32_eq pci_write32_eq Let_def mult.commute w_def)
  have lane: "ucast (drop_bit (8 * unat (off' AND 3)) w) = (if off' = off then val else pci_byte h b s f off')"
    if "drop_bit 2 off' = drop_bit 2 off" for off'
    using byte_lane [OF and3_less [of off] and3_less [of off'], of "pci_space h ?a" val] same_offset [of off' off] that
      pci_byte_same [OF that assms(1,2), of h b]
    by (auto simp: w_def word_eq_unat_iff)
  have "pci_byte h' b' s' f' off' = (if (b', s', f', off') = (b, s, f, off) then val else pci_byte h b' s' f' off')"
    if st: "pci_react h ?a w (pci_space h) = (pci_space h)(?a := w)" and r: "s' < 32" "f' < 8" for b' s' f' off'
  proof (cases "pci_address b' s' f' off' = ?a")
    case True
    then have same: "b' = b" "s' = s" "f' = f" "drop_bit 2 off' = drop_bit 2 off"
      using pci_address_inj [OF r assms(1,2), of b' off' b off] by simp_all
    have "pci_byte h' b' s' f' off' = ucast (drop_bit (8 * unat (off' AND 3)) w)"
      using True by (simp add: pci_byte_def h'(2) st)
    then show ?thesis using lane [OF same(4)] same(1-3) by simp
  next
    case False
    then show ?thesis using pci_address_inj [OF r assms(1,2), of b' off' b off] by (auto simp: pci_byte_def h'(2) st)
  qed
  then show ?thesis using h' lane unfolding pci_read8_eq by (intro exI [of _ w]) blast
qed

section \<open>The scan finds every function\<close>

definition sp16 :: "(u32 \<Rightarrow> u32) \<Rightarrow> u8 \<Rightarrow> u8 \<Rightarrow> u8 \<Rightarrow> u8 \<Rightarrow> u16" where
  "sp16 sp b s f off = ucast (drop_bit (unat (off AND 2) * 8) (sp (pci_address b s f off)) AND 0xFFFF)"

definition sp8 :: "(u32 \<Rightarrow> u32) \<Rightarrow> u8 \<Rightarrow> u8 \<Rightarrow> u8 \<Rightarrow> u8 \<Rightarrow> u8" where
  "sp8 sp b s f off = ucast (drop_bit (unat (off AND 3) * 8) (sp (pci_address b s f off)) AND 0xFF)"

text \<open>The functions of a slot that the scan reports: all that are present, but only the first when function 0 is
  present and the device has a single function.\<close>

definition single_function :: "(u32 \<Rightarrow> u32) \<Rightarrow> u8 \<Rightarrow> u8 \<Rightarrow> bool" where
  "single_function sp b s \<longleftrightarrow> sp8 sp b s 0 0x0E AND 0x80 = 0"

fun slot_functions :: "(u32 \<Rightarrow> u32) \<Rightarrow> u8 \<Rightarrow> u8 \<Rightarrow> nat list \<Rightarrow> nat list" where
  "slot_functions sp b s [] = []"
| "slot_functions sp b s (f # fs) =
     (if sp16 sp b s (of_nat f) 0x00 = 0xFFFF then slot_functions sp b s fs
      else f # (if f = 0 \<and> single_function sp b s then [] else slot_functions sp b s fs))"

definition describe :: "(u32 \<Rightarrow> u32) \<Rightarrow> u8 \<Rightarrow> u8 \<Rightarrow> u8 \<Rightarrow> pci_device" where
  "describe sp b s f = \<lparr>pd_bus = b, pd_slot = s, pd_func = f, pd_vendor_id = sp16 sp b s f 0x00,
     pd_device_id = sp16 sp b s f 0x02, pd_class_code = ucast (sp8 sp b s f 0x0B), pd_subclass = ucast (sp8 sp b s f 0x0A),
     pd_bar = map (\<lambda>i. sp (pci_address b s f (0x10 + of_nat i * 4))) [0..<6], pd_irq_line = sp8 sp b s f 0x3C, pd_next = 0\<rparr>"

definition slot_devices :: "(u32 \<Rightarrow> u32) \<Rightarrow> u8 \<Rightarrow> nat \<Rightarrow> pci_device list" where
  "slot_devices sp b s = map (\<lambda>f. describe sp b (of_nat s) (of_nat f)) (slot_functions sp b (of_nat s) [0..<8])"

definition bus_devices :: "(u32 \<Rightarrow> u32) \<Rightarrow> u8 \<Rightarrow> pci_device list" where
  "bus_devices sp b = concat (map (slot_devices sp b) [0..<32])"

definition all_devices :: "(u32 \<Rightarrow> u32) \<Rightarrow> pci_device list" where
  "all_devices sp = concat (map (\<lambda>b. bus_devices sp (of_nat b)) [0..<256])"

lemma slot_functions_multi:
  "\<not> single_function sp b s \<or> 0 \<notin> set fs \<or> sp16 sp b s 0 0 = 0xFFFF \<Longrightarrow>
     slot_functions sp b s fs = filter (\<lambda>f. sp16 sp b s (of_nat f) 0 \<noteq> 0xFFFF) fs"
  by (induction fs) auto

text \<open>Successive requests for a device structure, with the addresses that the heap gives.\<close>

primrec device_allocs :: "kern \<Rightarrow> u32 list \<Rightarrow> kern \<Rightarrow> bool" where
  "device_allocs k [] k' \<longleftrightarrow> k' = k"
| "device_allocs k (a # as) k' \<longleftrightarrow> (\<exists>k1. k_kmalloc PCI_DEVICE_BYTES k = Some (Inr (a, k1)) \<and> device_allocs k1 as k')"

lemma device_allocs_append:
  "device_allocs k (as @ bs) k' \<longleftrightarrow> (\<exists>k1. device_allocs k as k1 \<and> device_allocs k1 bs k')"
  by (induction as arbitrary: k) auto

text \<open>The list from \<open>p\<close> on has the devices \<open>ds\<close> at the addresses \<open>as\<close>.\<close>

fun dev_path :: "(u32 \<rightharpoonup> pci_device) \<Rightarrow> u32 \<Rightarrow> u32 list \<Rightarrow> pci_device list \<Rightarrow> bool" where
  "dev_path m p [] [] \<longleftrightarrow> p = 0"
| "dev_path m p (a # as) (d # ds) \<longleftrightarrow> p = a \<and> a \<noteq> 0
     \<and> (\<exists>t. m a = Some t \<and> t\<lparr>pd_next := 0\<rparr> = d \<and> dev_path m (pd_next t) as ds)"
| "dev_path m p _ _ \<longleftrightarrow> False"

lemma dev_path_frame: "dev_path m p as ds \<Longrightarrow> (\<And>x. x \<in> set as \<Longrightarrow> m' x = m x) \<Longrightarrow> dev_path m' p as ds"
  by (induction m p as ds rule: dev_path.induct) auto

lemma dev_path_nz: "dev_path m p as ds \<Longrightarrow> x \<in> set as \<Longrightarrow> x \<noteq> 0"
  by (induction m p as ds rule: dev_path.induct) auto

lemma dev_path_append:
  assumes "dev_path m p as ds" and "as \<noteq> []" and "distinct as" and "a \<notin> set as" and "a \<noteq> 0" and "pd_next d = 0"
  shows "\<exists>l. m (last as) = Some l \<and> dev_path (m(a \<mapsto> d, last as \<mapsto> l\<lparr>pd_next := a\<rparr>)) p (as @ [a]) (ds @ [d])"
  using assms
proof (induction m p as ds rule: dev_path.induct)
  case (2 m p b as e ds)
  then obtain t where t: "m b = Some t" "t\<lparr>pd_next := 0\<rparr> = e" "dev_path m (pd_next t) as ds" "p = b" "b \<noteq> 0" by auto
  show ?case
  proof (cases "as = []")
    case True
    then have "ds = []" using t(3) by (cases ds) auto
    have "d\<lparr>pd_next := 0\<rparr> = d" using 2(7) by (cases d) simp
    then show ?thesis using t True \<open>ds = []\<close> 2(5,6,7) by auto
  next
    case False
    have "distinct as" "a \<notin> set as" "b \<noteq> last as" "b \<noteq> a" using 2(4,5) False by auto
    obtain l where l: "m (last as) = Some l"
      "dev_path (m(a \<mapsto> d, last as \<mapsto> l\<lparr>pd_next := a\<rparr>)) (pd_next t) (as @ [a]) (ds @ [d])"
      using 2(1) [OF t(3) False \<open>distinct as\<close> \<open>a \<notin> set as\<close> 2(6,7)] by blast
    have "(m(a \<mapsto> d, last as \<mapsto> l\<lparr>pd_next := a\<rparr>)) b = Some t" using t(1) \<open>b \<noteq> last as\<close> \<open>b \<noteq> a\<close> by simp
    then show ?thesis using l t(2,4,5) False by (intro exI [of _ l]) (simp del: fun_upd_apply)
  qed
qed auto

definition scan_ok :: "(u32 \<Rightarrow> u32) \<Rightarrow> u32 list \<Rightarrow> pci_device list \<Rightarrow> u32 \<times> pci \<Rightarrow> bool" where
  "scan_ok sp as ds st \<longleftrightarrow> (case st of (l, s) \<Rightarrow> pci_space (pci_host s) = sp
     \<and> dev_path (pci_devs s) (pci_device_list s) as ds \<and> l = (if as = [] then 0 else last as)
     \<and> pci_device_count s = of_nat (length as))"

lemma read_bars_eq:
  "\<exists>h'. read_bars bs b s f h = (map (\<lambda>i. pci_space h (pci_address b s f (0x10 + of_nat i * 4))) bs, h')
     \<and> pci_space h' = pci_space h"
proof (induction bs arbitrary: h)
  case (Cons i bs)
  let ?h = "h\<lparr>pci_latch := pci_address b s f (0x10 + of_nat i * 4)\<rparr>"
  obtain h' where "read_bars bs b s f ?h = (map (\<lambda>i. pci_space ?h (pci_address b s f (0x10 + of_nat i * 4))) bs, h')"
    "pci_space h' = pci_space ?h" using Cons [of ?h] by blast
  then show ?case by (simp add: pci_read32_eq Let_def)
qed simp

lemma scan_append:
  assumes "scan_ok sp as ds (l, s)" and "a \<noteq> 0" and "a \<notin> set as" and "distinct as" and "pd_next d = 0"
  shows "\<exists>s'. pci_append a d l s = Some s' \<and> scan_ok sp (as @ [a]) (ds @ [d]) (a, s') \<and> pci_kern s' = pci_kern s"
proof (cases "as = []")
  case True
  then have "ds = []" "l = 0" using assms(1) by (cases ds; auto simp: scan_ok_def)+
  have "d\<lparr>pd_next := 0\<rparr> = d" using assms(5) by (cases d) simp
  then show ?thesis using assms True \<open>ds = []\<close> \<open>l = 0\<close> by (auto simp: pci_append_def scan_ok_def Let_def)
next
  case False
  have path: "dev_path (pci_devs s) (pci_device_list s) as ds" and l: "l = last as" using assms(1) False by (simp_all add: scan_ok_def)
  obtain e where e: "pci_devs s (last as) = Some e"
    "dev_path ((pci_devs s)(a \<mapsto> d, last as \<mapsto> e\<lparr>pd_next := a\<rparr>)) (pci_device_list s) (as @ [a]) (ds @ [d])"
    using dev_path_append [OF path False assms(4,3,2,5)] by blast
  have "last as \<noteq> a" "last as \<noteq> 0"
    using assms(3) False path dev_path_nz [OF path] by (auto dest: last_in_set)
  then show ?thesis using assms(1) e l False by (auto simp: pci_append_def scan_ok_def Let_def)
qed

lemma read_device_eq:
  "\<exists>h'. pci_read_device b s f (sp16 (pci_space h) b s f 0) h = ((describe (pci_space h) b s f)\<lparr>pd_bar := []\<rparr>, h')
     \<and> pci_space h' = pci_space h"
  by (simp add: pci_read_device_def pci_config_read16_def pci_config_read8_def pci_read32_eq sp16_def sp8_def Let_def describe_def)

lemma scan_funcs_ok:
  assumes "scan_ok sp as ds (l, s)" and "device_allocs (pci_kern s) bs k'"
    and "length bs = length (slot_functions sp b sl fs)" and "distinct (as @ bs)" and "0 \<notin> set bs"
  shows "\<exists>l' s'. scan_funcs fs b sl (l, s) = Some (Inr (l', s')) \<and> pci_kern s' = k'
    \<and> scan_ok sp (as @ bs) (ds @ map (\<lambda>f. describe sp b sl (of_nat f)) (slot_functions sp b sl fs)) (l', s')"
  using assms
proof (induction fs arbitrary: as ds l s bs)
  case Nil
  then show ?case by simp
next
  case (Cons f fs)
  have sp: "pci_space (pci_host s) = sp" using Cons.prems(1) by (simp add: scan_ok_def)
  have r16: "\<exists>h'. pci_config_read16 b sl g off h = (sp16 (pci_space h) b sl g off, h') \<and> pci_space h' = pci_space h"
    and r8: "\<exists>h'. pci_config_read8 b sl g off h = (sp8 (pci_space h) b sl g off, h') \<and> pci_space h' = pci_space h" for g off h
    by (simp_all add: pci_config_read16_def pci_config_read8_def pci_read32_eq sp16_def sp8_def)
  obtain h1 where h1: "pci_config_read16 b sl (of_nat f) 0 (pci_host s) = (sp16 sp b sl (of_nat f) 0, h1)" "pci_space h1 = sp"
    using r16 sp by metis
  let ?s1 = "s\<lparr>pci_host := h1\<rparr>"
  show ?case
  proof (cases "sp16 sp b sl (of_nat f) 0 = 0xFFFF")
    case True
    have "scan_ok sp as ds (l, ?s1)" using Cons.prems(1) h1(2) by (simp add: scan_ok_def)
    then show ?thesis using Cons.IH [of as ds l ?s1 bs] Cons.prems True h1 by simp
  next
    case False
    obtain d h2 where d: "pci_read_device b sl (of_nat f) (sp16 sp b sl (of_nat f) 0) h1 = (d, h2)" "pci_space h2 = sp"
      "d = (describe sp b sl (of_nat f))\<lparr>pd_bar := []\<rparr>"
      using read_device_eq [of b sl "of_nat f" h1] h1(2) by auto
    obtain a cs where bs: "bs = a # cs" using Cons.prems(3) False by (cases bs) auto
    then obtain k1 where k1: "k_kmalloc PCI_DEVICE_BYTES (pci_kern s) = Some (Inr (a, k1))" "device_allocs k1 cs k'"
      using Cons.prems(2) by auto
    let ?s2 = "?s1\<lparr>pci_host := h2, pci_kern := k1\<rparr>"
    obtain h3 where h3: "read_bars [0..<6] b sl (of_nat f) h2 = (map (\<lambda>i. sp (pci_address b sl (of_nat f) (0x10 + of_nat i * 4))) [0..<6], h3)"
      "pci_space h3 = sp" using read_bars_eq [of "[0..<6]" b sl "of_nat f" h2] d(2) by auto
    have dd: "d\<lparr>pd_bar := map (\<lambda>i. sp (pci_address b sl (of_nat f) (0x10 + of_nat i * 4))) [0..<6]\<rparr> = describe sp b sl (of_nat f)"
      unfolding d(3) describe_def by simp
    have a: "a \<noteq> 0" "a \<notin> set as" "distinct as" "distinct ((as @ [a]) @ cs)" "0 \<notin> set cs" using Cons.prems(4,5) bs by auto
    have ok2: "scan_ok sp as ds (l, ?s2\<lparr>pci_host := h3\<rparr>)" using Cons.prems(1) h3(2) by (simp add: scan_ok_def)
    have "pd_next (describe sp b sl (of_nat f)) = 0" by (simp add: describe_def)
    from scan_append [OF ok2 a(1,2,3) this] obtain s3 where s3:
      "pci_append a (describe sp b sl (of_nat f)) l (?s2\<lparr>pci_host := h3\<rparr>) = Some s3"
      "scan_ok sp (as @ [a]) (ds @ [describe sp b sl (of_nat f)]) (a, s3)" "pci_kern s3 = k1" by auto
    have sp3: "pci_space (pci_host s3) = sp" using s3(2) by (simp add: scan_ok_def)
    obtain h4 where h4: "pci_config_read8 b sl 0 0x0E (pci_host s3) = (sp8 sp b sl 0 0x0E, h4)" "pci_space h4 = sp"
      using r8 sp3 by metis
    let ?s4 = "s3\<lparr>pci_host := h4\<rparr>"
    have ok4: "scan_ok sp (as @ [a]) (ds @ [describe sp b sl (of_nat f)]) (a, ?s4)" using s3(2) h4(2) by (simp add: scan_ok_def)
    have run: "scan_funcs (f # fs) b sl (l, s)
        = (if f = 0 \<and> sp8 sp b sl 0 0x0E AND 0x80 = 0 then Some (Inr (a, ?s4)) else scan_funcs fs b sl (a, ?s4))"
      using False h1 d(1) k1(1) a(1) h3(1) dd s3(1) h4(1) by (simp add: Let_def)
    show ?thesis
    proof (cases "f = 0 \<and> single_function sp b sl")
      case True
      then have "cs = []" using Cons.prems(3) bs False by simp
      then show ?thesis using run True ok4 bs k1(2) s3(3) False by (auto simp: single_function_def)
    next
      case F2: False
      have "length cs = length (slot_functions sp b sl fs)" using Cons.prems(3) bs False F2 by auto
      moreover have "device_allocs (pci_kern ?s4) cs k'" using k1(2) s3(3) by simp
      ultimately show ?thesis using Cons.IH [OF ok4 _ _ a(4,5)] run F2 bs False by (auto simp: single_function_def)
    qed
  qed
qed

lemma device_allocs_split:
  assumes "device_allocs k bs k'" and "length bs = m + n" and "distinct (as @ bs)" and "0 \<notin> set bs"
  obtains b1 b2 k1 where "bs = b1 @ b2" "length b1 = m" "length b2 = n" "device_allocs k b1 k1" "device_allocs k1 b2 k'"
    "distinct (as @ b1)" "distinct ((as @ b1) @ b2)" "0 \<notin> set b1" "0 \<notin> set b2"
proof -
  have bs: "bs = take m bs @ drop m bs" by simp
  obtain k1 where "device_allocs k (take m bs) k1" "device_allocs k1 (drop m bs) k'"
    using assms(1) device_allocs_append [of k "take m bs" "drop m bs" k'] by auto
  moreover have "distinct ((as @ take m bs) @ drop m bs)" using assms(3) bs by (metis append_assoc)
  ultimately show ?thesis using that [OF bs] assms(2,4) by (auto dest: in_set_takeD in_set_dropD)
qed

lemma scan_slots_ok:
  assumes "scan_ok sp as ds st" and "device_allocs (pci_kern (snd st)) bs k'"
    and "length bs = length (concat (map (slot_devices sp b) slots))" and "distinct (as @ bs)" and "0 \<notin> set bs"
  shows "\<exists>st'. scan_slots slots b st = Some (Inr st') \<and> pci_kern (snd st') = k'
    \<and> scan_ok sp (as @ bs) (ds @ concat (map (slot_devices sp b) slots)) st'"
  using assms
proof (induction slots arbitrary: as ds st bs)
  case (Cons sl slots)
  let ?m = "length (slot_devices sp b sl)" and ?r = "concat (map (slot_devices sp b) slots)"
  have "length bs = ?m + length ?r" using Cons.prems(3) by simp
  from device_allocs_split [OF Cons.prems(2) this Cons.prems(4,5)] obtain b1 b2 k1 where b:
    "bs = b1 @ b2" "length b1 = ?m" "length b2 = length ?r"
    "device_allocs (pci_kern (snd st)) b1 k1" "device_allocs k1 b2 k'"
    "distinct (as @ b1)" "distinct ((as @ b1) @ b2)" "0 \<notin> set b1" "0 \<notin> set b2" .
  obtain l s where st: "st = (l, s)" by (cases st)
  have "length b1 = length (slot_functions sp b (of_nat sl) [0..<8])" using b(2) by (simp add: slot_devices_def)
  from scan_funcs_ok [OF Cons.prems(1) [unfolded st] b(4) [unfolded st snd_conv] this b(6,8)] obtain l1 s1 where s1:
    "scan_funcs [0..<8] b (of_nat sl) (l, s) = Some (Inr (l1, s1))" "pci_kern s1 = k1"
    "scan_ok sp (as @ b1) (ds @ slot_devices sp b sl) (l1, s1)"
    unfolding slot_devices_def by blast
  from Cons.IH [OF s1(3) _ b(3,7,9)] obtain st' where st': "scan_slots slots b (l1, s1) = Some (Inr st')" "pci_kern (snd st') = k'"
    "scan_ok sp ((as @ b1) @ b2) ((ds @ slot_devices sp b sl) @ ?r) st'"
    using b(5) s1(2) by auto
  then show ?case using s1(1) b(1) st by simp
qed auto

lemma scan_buses_ok:
  assumes "scan_ok sp as ds st" and "device_allocs (pci_kern (snd st)) bs k'"
    and "length bs = length (concat (map (\<lambda>b. bus_devices sp (of_nat b)) buses))"
    and "distinct (as @ bs)" and "0 \<notin> set bs"
  shows "\<exists>st'. scan_buses buses st = Some (Inr st') \<and> pci_kern (snd st') = k'
    \<and> scan_ok sp (as @ bs) (ds @ concat (map (\<lambda>b. bus_devices sp (of_nat b)) buses)) st'"
  using assms
proof (induction buses arbitrary: as ds st bs)
  case (Cons bu buses)
  let ?D = "bus_devices sp (of_nat bu)" and ?r = "concat (map (\<lambda>b. bus_devices sp (of_nat b)) buses)"
  have "length bs = length ?D + length ?r" using Cons.prems(3) by simp
  from device_allocs_split [OF Cons.prems(2) this Cons.prems(4,5)] obtain b1 b2 k1 where b:
    "bs = b1 @ b2" "length b1 = length ?D" "length b2 = length ?r"
    "device_allocs (pci_kern (snd st)) b1 k1" "device_allocs k1 b2 k'"
    "distinct (as @ b1)" "distinct ((as @ b1) @ b2)" "0 \<notin> set b1" "0 \<notin> set b2" .
  from scan_slots_ok [OF Cons.prems(1) b(4) b(2) [unfolded bus_devices_def] b(6,8)] obtain s1 where s1:
    "scan_slots [0..<32] (of_nat bu) st = Some (Inr s1)" "pci_kern (snd s1) = k1" "scan_ok sp (as @ b1) (ds @ ?D) s1"
    unfolding bus_devices_def by blast
  from Cons.IH [OF s1(3) _ b(3,7,9)] obtain st' where st': "scan_buses buses s1 = Some (Inr st')" "pci_kern (snd st') = k'"
    "scan_ok sp ((as @ b1) @ b2) ((ds @ ?D) @ ?r) st'"
    using b(5) s1(2) by blast
  have "scan_buses (bu # buses) st = Some (Inr st')" using s1(1) st'(1) by simp
  moreover have "as @ bs = (as @ b1) @ b2" "ds @ concat (map (\<lambda>b. bus_devices sp (of_nat b)) (bu # buses)) = (ds @ ?D) @ ?r"
    using b(1) by simp_all
  ultimately show ?case using st'(2,3) by metis
qed auto

text \<open>The scan lists exactly the functions of the bus, in the order of their addresses, each with the fields of its
  configuration space; of a device with a single function only function 0 is looked at.\<close>

theorem pci_scan_correct:
  assumes "device_allocs (pci_kern s) as k'" and "length as = length (all_devices (pci_space (pci_host s)))"
    and "distinct as" and "0 \<notin> set as"
  shows "\<exists>s'. pci_scan s = Some (Inr s') \<and> dev_path (pci_devs s') (pci_device_list s') as (all_devices (pci_space (pci_host s)))
    \<and> pci_device_count s' = of_nat (length as) \<and> pci_space (pci_host s') = pci_space (pci_host s) \<and> pci_kern s' = k'"
proof -
  let ?sp = "pci_space (pci_host s)"
  let ?s = "s\<lparr>pci_device_count := 0, pci_device_list := 0\<rparr>"
  have "scan_ok ?sp [] [] (0, ?s)" by (simp add: scan_ok_def)
  then obtain st where "scan_buses [0..<256] (0, ?s) = Some (Inr st)" "pci_kern (snd st) = k'"
    "scan_ok ?sp as (all_devices ?sp) st"
    using scan_buses_ok [of ?sp "[]" "[]" "(0, ?s)" as k' "[0..<256]"] assms by (auto simp: all_devices_def simp del: upt_Suc)
  then show ?thesis by (cases st) (simp add: pci_scan_def scan_ok_def)
qed

text \<open>The lookups return the first device of the list that matches.\<close>

lemma pci_find_first:
  assumes "dev_path m p as ds" and P: "\<And>t. P (t\<lparr>pd_next := 0\<rparr>) = P t"
  shows "pci_find P m p = Some (case filter (\<lambda>(a, d). P d) (zip as ds) of [] \<Rightarrow> 0 | (a, d) # _ \<Rightarrow> a)"
  using assms(1)
proof (induction m p as ds rule: dev_path.induct)
  case (1 m p)
  then show ?case by (simp add: pci_find.simps)
next
  case (2 m p a as d ds)
  then obtain t where t: "p = a" "a \<noteq> 0" "m a = Some t" "t\<lparr>pd_next := 0\<rparr> = d" "dev_path m (pd_next t) as ds" by auto
  have "P d = P t" using P [of t] t(4) by simp
  then show ?case using 2(1) [OF t(5)] t(1-3) by (subst pci_find.simps) simp
qed auto

lemma pci_get_device_first:
  assumes "dev_path (pci_devs s) (pci_device_list s) as ds"
  shows "pci_get_device v d s = Some (case filter (\<lambda>(a, x). pd_vendor_id x = v \<and> pd_device_id x = d) (zip as ds)
    of [] \<Rightarrow> 0 | (a, x) # _ \<Rightarrow> a)"
  unfolding pci_get_device_def by (rule pci_find_first [OF assms]) simp

section \<open>A bus with one device\<close>

definition pci_space_example :: "u32 \<Rightarrow> u32" where
  "pci_space_example a = (if a = pci_address 0 0 0 0 then 0x12378086 else 0xFFFFFFFF)"

text \<open>Of its registers only the command register stores what is written; the status register above it is cleared
  where a 1 is written, and absent functions ignore writes.\<close>

definition pci_react_example :: "u32 \<Rightarrow> u32 \<Rightarrow> (u32 \<Rightarrow> u32) \<Rightarrow> (u32 \<Rightarrow> u32)" where
  "pci_react_example a w sp =
     (if a = pci_address 0 0 0 4 then sp(a := (w AND 0xFFFF) OR (sp a AND NOT w AND 0xFFFF0000)) else sp)"

definition pci_example :: pci where
  "pci_example = \<lparr>pci_host = \<lparr>pci_latch = 0, pci_space = pci_space_example, pci_react = pci_react_example, pci_writes = []\<rparr>, pci_devs = (\<lambda>_. None), pci_device_list = 0,
     pci_device_count = 0,
     pci_kern = \<lparr>k_pmm = heap_pmm heap_example, k_heap = heap_example, k_vm = vm_example, k_con = console_example\<rparr>\<rparr>"

lemma pci_example_vendor:
  assumes "s < 32" "f < 8"
  shows "sp16 pci_space_example b s f 0 = (if b = 0 \<and> s = 0 \<and> f = 0 then 0x8086 else 0xFFFF)"
  using pci_address_inj [OF assms, of 0 0 b 0 0 0] by (simp add: sp16_def pci_space_example_def)

lemma pci_example_multi: "\<not> single_function pci_space_example 0 0"
  using pci_address_inj [of 0 0 0 0 0 "0x0E" 0 0] by (simp add: single_function_def sp8_def pci_space_example_def)

lemma pci_example_slots:
  assumes "b < 256" and "s < 32"
  shows "slot_functions pci_space_example (of_nat b) (of_nat s) [0..<8] = (if b = 0 \<and> s = 0 then [0] else [])"
proof -
  have b: "(of_nat b :: u8) = 0 \<longleftrightarrow> b = 0" using assms(1) by (simp add: word_eq_unat_iff unat_of_nat)
  have s: "(of_nat s :: u8) = 0 \<longleftrightarrow> s = 0" "(of_nat s :: u8) < 32"
    using assms(2) by (simp_all add: word_eq_unat_iff word_less_nat_alt unat_of_nat)
  have l: "[0..<8] = [0 :: nat, 1, 2, 3, 4, 5, 6, 7]" by (simp add: upt_rec)
  show ?thesis unfolding l by (simp add: pci_example_vendor b s)
qed

lemma pci_example_devices: "all_devices pci_space_example = [describe pci_space_example 0 0 0]"
proof -
  have nil: "slot_devices pci_space_example (of_nat b) s = []" if "b < 256" "s < 32" "b \<noteq> 0 \<or> s \<noteq> 0" for b s
    using pci_example_slots [OF that(1,2)] that(3) by (auto simp: slot_devices_def)
  have one: "slot_devices pci_space_example 0 0 = [describe pci_space_example 0 0 0]"
    using pci_example_slots [of 0 0] by (simp add: slot_devices_def)
  have 1: "bus_devices pci_space_example (of_nat b) = []" if "b < 256" "b \<noteq> 0" for b
    unfolding bus_devices_def concat_eq_Nil_conv using nil that by auto
  have "concat (map (slot_devices pci_space_example 0) [1..<32]) = []"
    unfolding concat_eq_Nil_conv using nil [of 0] by auto
  moreover have "[0..<32] = 0 # [1..<32::nat]" using upt_conv_Cons [of 0 32] by simp
  ultimately have 2: "bus_devices pci_space_example 0 = [describe pci_space_example 0 0 0]"
    using one by (simp add: bus_devices_def del: upt_rec_numeral)
  have "concat (map (\<lambda>b. bus_devices pci_space_example (of_nat b)) [1..<256]) = []"
    unfolding concat_eq_Nil_conv using 1 by auto
  moreover have "[0..<256] = 0 # [1..<256::nat]" using upt_conv_Cons [of 0 256] by simp
  ultimately show ?thesis using 2 by (simp add: all_devices_def del: upt_rec_numeral)
qed

text \<open>Writing the command byte of the example clears its status register; on a function that stores its
  registers, the interrupt line is read back.\<close>

theorem pci_config_write8_correct_witness:
  "(let h' = pci_config_write8 0 0 0 4 7 (pci_host pci_example)
    in fst (pci_config_read8 0 0 0 4 h') = 7 \<and> fst (pci_config_read8 0 0 0 5 h') = 0xFF \<and> fst (pci_config_read8 0 0 0 6 h') = 0)
   \<and> (let h' = pci_config_write8 0 0 0 0x3C 11 ((pci_host pci_example)\<lparr>pci_react := \<lambda>a w sp. sp(a := w)\<rparr>)
    in fst (pci_config_read8 0 0 0 0x3C h') = 11 \<and> fst (pci_config_read8 0 0 0 0x3D h') = 0xFF)"
proof
  let ?h = "pci_host pci_example"
  let ?h' = "pci_config_write8 0 0 0 4 7 ?h"
  have sp: "pci_space ?h (pci_address 0 0 0 4) = 0xFFFFFFFF"
    using pci_address_inj [of 0 0 0 0 0 4 0 0] by (simp add: pci_example_def pci_space_example_def)
  obtain w where w: "pci_writes ?h' = pci_writes ?h @ [(pci_address 0 0 0 4, w)]"
    "pci_space ?h' = pci_react ?h (pci_address 0 0 0 4) w (pci_space ?h)"
    using pci_config_write8_correct [of 0 0 ?h' 0 4 7 ?h] by auto
  have "pci_writes ?h' = pci_writes ?h @ [(pci_address 0 0 0 4, 0xFFFFFF07)]"
    using sp by (simp add: pci_config_write8_def pci_read32_eq pci_write32_eq Let_def)
  with w(1) have "w = 0xFFFFFF07" by simp
  moreover have "pci_react ?h = pci_react_example" by (simp add: pci_example_def)
  ultimately have "pci_space ?h' (pci_address 0 0 0 4) = 0x0000FF07"
    using w(2) sp by (simp add: pci_react_example_def)
  moreover have "pci_address 0 0 0 5 = pci_address 0 0 0 4" "pci_address 0 0 0 6 = pci_address 0 0 0 4"
    by (simp_all add: pci_address_inj)
  ultimately show "let h' = ?h' in fst (pci_config_read8 0 0 0 4 h') = 7 \<and> fst (pci_config_read8 0 0 0 5 h') = 0xFF
      \<and> fst (pci_config_read8 0 0 0 6 h') = 0"
    by (simp add: pci_read8_eq pci_byte_def Let_def)
  let ?g = "?h\<lparr>pci_react := \<lambda>a w sp. sp(a := w)\<rparr>"
  let ?g' = "pci_config_write8 0 0 0 0x3C 11 ?g"
  have st: "pci_react ?g a w sp = sp(a := w)" for a w sp by simp
  have "fst (pci_config_read8 0 0 0 0x3D ?g) = 0xFF"
    using pci_address_inj [of 0 0 0 0 0 "0x3D" 0 0] by (simp add: pci_read8_eq pci_byte_def pci_example_def pci_space_example_def)
  then show "let h' = ?g' in fst (pci_config_read8 0 0 0 0x3C h') = 11 \<and> fst (pci_config_read8 0 0 0 0x3D h') = 0xFF"
    using pci_config_write8_correct [of 0 0 ?g' 0 "0x3C" 11 ?g] unfolding st by (auto simp: Let_def)
qed

lemma used_block_payload:
  assumes "heap_wf t ys" and "(a, az) \<in> used_blocks ys"
  shows "a + HDR \<noteq> 0"
proof -
  have "unat a + 13 + unat az \<le> unat (heap_end_addr t)"
    using assms by (auto simp: heap_wf_def used_blocks_def dest: tiles_mem)
  then have "unat a + 13 < 2 ^ 32" using unsigned_less [of "heap_end_addr t", where 'a = nat] by simp
  then have "unat (a + HDR) = unat a + 13" by (simp add: unat_word_ariths)
  then show ?thesis by (metis add_is_0 unat_0 zero_neq_numeral)
qed

theorem pci_scan_correct_witness:
  "\<exists>s' t. pci_scan pci_example = Some (Inr s') \<and> pci_device_count s' = 1 \<and> pci_device_list s' \<noteq> 0
     \<and> pci_devs s' (pci_device_list s') = Some t \<and> pd_vendor_id t = 0x8086 \<and> pd_device_id t = 0x1237"
proof -
  have h: "heap_example\<lparr>heap_pmm := heap_pmm heap_example\<rparr> = heap_example" by simp
  obtain a az t ys where m: "kmalloc PCI_DEVICE_BYTES heap_example = Some (Inr (a + HDR, t))"
    "heap_wf t ys" "used_blocks ys = insert (a, az) (used_blocks [(0x1000, 64, False), (0x104D, 200, True)])"
    using kmalloc_correct [OF heap_example_wf, of PCI_DEVICE_BYTES "0x104D" 200] by (auto simp: ALIGN_UP_def)
  have "a + HDR \<noteq> 0" using used_block_payload [OF m(2)] m(3) by blast
  then obtain k' where "device_allocs (pci_kern pci_example) [a + HDR] k'"
    using m(1) h by (auto simp: pci_example_def k_kmalloc_def)
  moreover have sp: "pci_space (pci_host pci_example) = pci_space_example" by (simp add: pci_example_def)
  moreover have "length [a + HDR] = length (all_devices pci_space_example)" by (simp add: pci_example_devices)
  ultimately obtain s' where s': "pci_scan pci_example = Some (Inr s')"
    "dev_path (pci_devs s') (pci_device_list s') [a + HDR] [describe pci_space_example 0 0 0]" "pci_device_count s' = 1"
    using pci_scan_correct [of pci_example "[a + HDR]" k'] \<open>a + HDR \<noteq> 0\<close> by (auto simp: pci_example_devices)
  obtain t where "pci_devs s' (pci_device_list s') = Some t" "t\<lparr>pd_next := 0\<rparr> = describe pci_space_example 0 0 0" "pci_device_list s' \<noteq> 0"
    using s'(2) by auto
  moreover have "pd_vendor_id (t\<lparr>pd_next := 0\<rparr>) = pd_vendor_id t" "pd_device_id (t\<lparr>pd_next := 0\<rparr>) = pd_device_id t" for t :: pci_device
    by simp_all
  moreover have "pd_vendor_id (describe pci_space_example 0 0 0) = 0x8086" by (simp add: describe_def pci_example_vendor)
  moreover have "pd_device_id (describe pci_space_example 0 0 0) = 0x1237"
    using pci_address_inj [of 0 0 0 0 0 2 0 0] by (simp add: describe_def sp16_def pci_space_example_def)
  ultimately show ?thesis using s'(1,3) by metis
qed


end
