(* ===== verification/Ata.thy ===== *)
theory Ata
  imports Console
begin

text \<open>
  The disk driver \<^verbatim>\<open>drivers/ata.c\<close>.  The controller is a parameter: \<open>ata_port\<close> holds what the
  port instructions do to its state, which may change with every access.  A wait for the controller that
  never ends is \<^term>\<open>None\<close>, as is an access outside a buffer.
\<close>

section \<open>The controller and the state of the driver\<close>

record 'd ata_port =
  p_inb :: "u16 \<Rightarrow> 'd \<Rightarrow> u8 \<times> 'd"
  p_inw :: "u16 \<Rightarrow> 'd \<Rightarrow> u16 \<times> 'd"
  p_outb :: "u16 \<Rightarrow> u8 \<Rightarrow> 'd \<Rightarrow> 'd"
  p_outw :: "u16 \<Rightarrow> u16 \<Rightarrow> 'd \<Rightarrow> 'd"

abbreviation ATA_PRIMARY_IO :: u16 where "ATA_PRIMARY_IO \<equiv> 0x1F0"
abbreviation ATA_PRIMARY_CTRL :: u16 where "ATA_PRIMARY_CTRL \<equiv> 0x3F6"
abbreviation ATA_SECONDARY_IO :: u16 where "ATA_SECONDARY_IO \<equiv> 0x170"
abbreviation ATA_SECONDARY_CTRL :: u16 where "ATA_SECONDARY_CTRL \<equiv> 0x376"

definition io_base :: "u8 \<Rightarrow> u16" where
  "io_base bus = (if bus = 0 then ATA_PRIMARY_IO else ATA_SECONDARY_IO)"

definition ctrl_base :: "u8 \<Rightarrow> u16" where
  "ctrl_base bus = (if bus = 0 then ATA_PRIMARY_CTRL else ATA_SECONDARY_CTRL)"

record ata_drive =
  dr_exists :: bool
  dr_is_master :: bool
  dr_bus :: u8
  dr_size_sectors :: u32
  dr_model :: "char list"
  dr_serial :: "char list"

record ata =
  ata_drives :: "ata_drive list"
  active_drive_count :: u8

definition zero_drive :: ata_drive where
  "zero_drive = \<lparr>dr_exists = False, dr_is_master = False, dr_bus = 0, dr_size_sectors = 0,
     dr_model = replicate 41 NUL, dr_serial = replicate 21 NUL\<rparr>"

definition ata_400ns_delay :: "'d ata_port \<Rightarrow> u16 \<Rightarrow> 'd \<Rightarrow> 'd" where
  "ata_400ns_delay pt port d = (let rd = \<lambda>d. snd (p_inb pt port d) in rd (rd (rd (rd d))))"

section \<open>Text of the identification\<close>

function swap_from :: "nat \<Rightarrow> nat \<Rightarrow> char list \<Rightarrow> char list option" where
  "swap_from i len str =
     (if i < len
      then if i + 1 < length str then swap_from (i + 2) len (str[i := str ! (i + 1), i + 1 := str ! i]) else None
      else Some str)"
  by pat_completeness auto

termination by (relation "measure (\<lambda>(i, len, str). len - i)") auto

declare swap_from.simps [simp del]

text \<open>The second loop, over the positions below the first argument from the last one down.\<close>

primrec trim_from :: "nat \<Rightarrow> char list \<Rightarrow> char list" where
  "trim_from 0 str = str"
| "trim_from (Suc i) str = (if str ! i = CHR '' '' \<or> str ! i = NUL then trim_from i (str[i := NUL]) else str)"

definition ata_fix_string :: "char list \<Rightarrow> nat \<Rightarrow> char list option" where
  "ata_fix_string str len = do {
     str \<leftarrow> swap_from 0 len str;
     str \<leftarrow> put_at str len NUL;
     Some (trim_from len str)
   }"

section \<open>Identification\<close>

partial_function (option) ata_poll :: "(u8 \<Rightarrow> bool) \<Rightarrow> 'd ata_port \<Rightarrow> u16 \<Rightarrow> u8 \<Rightarrow> 'd \<Rightarrow> (u8 \<times> 'd) option" where
  "ata_poll again pt port status d =
     (if again status then let (status, d) = p_inb pt port d in ata_poll again pt port status d
      else Some (status, d))"

abbreviation (input) not_ready :: "u8 \<Rightarrow> bool" where
  "not_ready status \<equiv> status AND 0x08 = 0 \<and> status AND 0x01 = 0"

primrec read_words :: "nat \<Rightarrow> 'd ata_port \<Rightarrow> u16 \<Rightarrow> 'd \<Rightarrow> u16 list \<times> 'd" where
  "read_words 0 pt port d = ([], d)"
| "read_words (Suc n) pt port d =
     (let (w, d) = p_inw pt port d; (ws, d) = read_words n pt port d in (w # ws, d))"

definition words_text :: "u16 list \<Rightarrow> char list" where
  "words_text ws = concat (map (\<lambda>w. [char_of (unat (w AND 0xFF)), char_of (unat (drop_bit 8 w))]) ws)"

definition ata_identify :: "'d ata_port \<Rightarrow> u8 \<Rightarrow> bool \<Rightarrow> ata_drive \<Rightarrow> 'd \<Rightarrow> (int \<times> ata_drive \<times> 'd) option" where
  "ata_identify pt bus is_slave drive d =
     (let io = io_base bus; ctrl = ctrl_base bus;
          d = p_outb pt (io + 6) (if is_slave then 0xB0 else 0xA0) d;
          d = ata_400ns_delay pt ctrl d;
          d = p_outb pt (io + 5) 0 (p_outb pt (io + 4) 0 (p_outb pt (io + 3) 0 (p_outb pt (io + 2) 0 d)));
          d = p_outb pt (io + 7) 0xEC d;
          d = ata_400ns_delay pt ctrl d;
          (status, d) = p_inb pt (io + 7) d
      in if status = 0 then Some (-1, drive, d)
         else do {
           (status, d) \<leftarrow> ata_poll (\<lambda>st. st AND 0x80 \<noteq> 0) pt (io + 7) status d;
           let (mid, d) = p_inb pt (io + 4) d;
           let (high, d) = p_inb pt (io + 5) d;
           if mid \<noteq> 0 \<or> high \<noteq> 0 then Some (-1, drive, d)
           else do {
             (status, d) \<leftarrow> ata_poll (\<lambda>st. not_ready st) pt (io + 7) status d;
             if status AND 0x01 \<noteq> 0 then Some (-1, drive, d)
             else do {
               let (identify_data, d) = read_words 256 pt io d;
               serial \<leftarrow> memcpy_at (dr_serial drive) 0 (words_text identify_data) 20 20;
               serial \<leftarrow> ata_fix_string serial 20;
               model \<leftarrow> memcpy_at (dr_model drive) 0 (words_text identify_data) 54 40;
               model \<leftarrow> ata_fix_string model 40;
               Some (0, drive\<lparr>dr_exists := True, dr_bus := bus, dr_is_master := \<not> is_slave, dr_serial := serial,
                              dr_model := model,
                              dr_size_sectors := push_bit 16 (ucast (identify_data ! 61)) OR ucast (identify_data ! 60)\<rparr>, d)
             }
           }
         })"

definition drive_mb :: "ata_drive \<Rightarrow> u32" where
  "drive_mb dr = dr_size_sectors dr * 512 div (1024 * 1024)"

text \<open>The body of the loops of \<open>ata_init\<close>: bus, slave and index.\<close>

fun ata_init_loop :: "(u8 \<times> bool \<times> nat) list \<Rightarrow> 'd ata_port \<Rightarrow> ata \<Rightarrow> 'd \<Rightarrow> console \<Rightarrow> (ata \<times> 'd \<times> console) option" where
  "ata_init_loop [] pt s d con = Some (s, d, con)"
| "ata_init_loop ((bus, slave, idx) # rest) pt s d con = do {
     (r, dr, d) \<leftarrow> ata_identify pt bus slave (ata_drives s ! idx) d;
     let s = s\<lparr>ata_drives := (ata_drives s)[idx := dr]\<rparr>;
     if r = 0
     then do {
       con \<leftarrow> printk (Some (''ATA: %s %s - %s (%u MB)'' @ [CHR 0x0A, NUL]))
               [VA_str (Some ((if bus = 0 then ''Primary'' else ''Secondary'') @ [NUL])),
                VA_str (Some ((if slave then ''Slave'' else ''Master'') @ [NUL])),
                VA_str (Some (dr_model dr)), VA_word (drive_mb dr)] con;
       ata_init_loop rest pt (s\<lparr>active_drive_count := active_drive_count s + 1\<rparr>) d con
     }
     else ata_init_loop rest pt s d con
   }"

definition ata_init :: "'d ata_port \<Rightarrow> ata \<Rightarrow> 'd \<Rightarrow> console \<Rightarrow> (ata \<times> 'd \<times> console) option" where
  "ata_init pt s d con = do {
     let s = s\<lparr>active_drive_count := 0, ata_drives := replicate 4 zero_drive\<rparr>;
     (s, d, con) \<leftarrow> ata_init_loop [(0, False, 0), (0, True, 1), (1, False, 2), (1, True, 3)] pt s d con;
     con \<leftarrow> (if active_drive_count s = 0 then printk (Some (''ATA: No drives detected'' @ [CHR 0x0A, NUL])) [] con
            else Some con);
     Some (s, d, con)
   }"

section \<open>Transfers\<close>

text \<open>The six bytes that start a transfer.\<close>

definition ata_command :: "'d ata_port \<Rightarrow> u8 \<Rightarrow> u8 \<Rightarrow> u32 \<Rightarrow> u8 \<Rightarrow> u8 \<Rightarrow> 'd \<Rightarrow> 'd" where
  "ata_command pt bus drive_type lba count cmd d =
     (let io = io_base bus;
          d = p_outb pt (io + 6) (0xE0 OR ucast (push_bit 4 (ucast drive_type :: u32)) OR ucast (drop_bit 24 lba AND 0x0F)) d;
          d = p_outb pt (io + 2) count d;
          d = p_outb pt (io + 3) (ucast lba) d;
          d = p_outb pt (io + 4) (ucast (drop_bit 8 lba)) d;
          d = p_outb pt (io + 5) (ucast (drop_bit 16 lba)) d
      in p_outb pt (io + 7) cmd d)"

text \<open>The wait before each sector: the delay, then until the controller is not busy, then until it has or wants data.\<close>

definition ata_wait :: "'d ata_port \<Rightarrow> u8 \<Rightarrow> 'd \<Rightarrow> (u8 \<times> 'd) option" where
  "ata_wait pt bus d = do {
     let d = ata_400ns_delay pt (ctrl_base bus) d;
     let (status, d) = p_inb pt (io_base bus + 7) d;
     (status, d) \<leftarrow> ata_poll (\<lambda>st. st AND 0x80 \<noteq> 0 \<and> st AND 0x01 = 0) pt (io_base bus + 7) status d;
     ata_poll (\<lambda>st. not_ready st) pt (io_base bus + 7) status d
   }"

text \<open>\<^verbatim>\<open>*ptr++ = inw(io_base)\<close> for a number of words, from the byte \<open>pos\<close> of the buffer on.\<close>

primrec ata_get_words :: "nat \<Rightarrow> nat \<Rightarrow> 'd ata_port \<Rightarrow> u16 \<Rightarrow> u8 list \<Rightarrow> 'd \<Rightarrow> (u8 list \<times> 'd) option" where
  "ata_get_words 0 pos pt port buf d = Some (buf, d)"
| "ata_get_words (Suc n) pos pt port buf d =
     (let (w, d) = p_inw pt port d
      in if pos + 1 < length buf
         then ata_get_words n (pos + 2) pt port (buf[pos := ucast w, pos + 1 := ucast (drop_bit 8 w)]) d else None)"

primrec ata_read_loop :: "nat \<Rightarrow> nat \<Rightarrow> 'd ata_port \<Rightarrow> u8 \<Rightarrow> u8 list \<Rightarrow> 'd \<Rightarrow> (int \<times> u8 list \<times> 'd) option" where
  "ata_read_loop 0 pos pt bus buf d = Some (0, buf, d)"
| "ata_read_loop (Suc n) pos pt bus buf d = do {
     (status, d) \<leftarrow> ata_wait pt bus d;
     if status AND 0x01 \<noteq> 0 then Some (-1, buf, d)
     else do {
       (buf, d) \<leftarrow> ata_get_words 256 pos pt (io_base bus) buf d;
       ata_read_loop n (pos + 512) pt bus buf d
     }
   }"

definition ata_read_sectors :: "'d ata_port \<Rightarrow> u8 \<Rightarrow> u8 \<Rightarrow> u32 \<Rightarrow> u8 \<Rightarrow> u8 list \<Rightarrow> 'd \<Rightarrow> (int \<times> u8 list \<times> 'd) option" where
  "ata_read_sectors pt bus drive_type lba count buf d =
     (if count = 0 then Some (0, buf, d)
      else ata_read_loop (unat count) 0 pt bus buf (ata_command pt bus drive_type lba count 0x20 d))"

primrec ata_put_words :: "nat \<Rightarrow> nat \<Rightarrow> 'd ata_port \<Rightarrow> u16 \<Rightarrow> u8 list \<Rightarrow> 'd \<Rightarrow> 'd option" where
  "ata_put_words 0 pos pt port buf d = Some d"
| "ata_put_words (Suc n) pos pt port buf d =
     (if pos + 1 < length buf
      then ata_put_words n (pos + 2) pt port buf
             (p_outw pt port (ucast (buf ! pos) OR push_bit 8 (ucast (buf ! (pos + 1)))) d)
      else None)"

primrec ata_write_loop :: "nat \<Rightarrow> nat \<Rightarrow> 'd ata_port \<Rightarrow> u8 \<Rightarrow> u8 list \<Rightarrow> 'd \<Rightarrow> (int \<times> 'd) option" where
  "ata_write_loop 0 pos pt bus buf d = Some (0, d)"
| "ata_write_loop (Suc n) pos pt bus buf d = do {
     (status, d) \<leftarrow> ata_wait pt bus d;
     if status AND 0x01 \<noteq> 0 then Some (-1, d)
     else do {
       d \<leftarrow> ata_put_words 256 pos pt (io_base bus) buf d;
       ata_write_loop n (pos + 512) pt bus buf d
     }
   }"

definition ata_write_sectors :: "'d ata_port \<Rightarrow> u8 \<Rightarrow> u8 \<Rightarrow> u32 \<Rightarrow> u8 \<Rightarrow> u8 list \<Rightarrow> 'd \<Rightarrow> (int \<times> 'd) option" where
  "ata_write_sectors pt bus drive_type lba count buf d =
     (if count = 0 then Some (0, d)
      else do {
        (r, d) \<leftarrow> ata_write_loop (unat count) 0 pt bus buf (ata_command pt bus drive_type lba count 0x30 d);
        if r \<noteq> 0 then Some (r, d) else Some (0, p_outb pt (io_base bus + 7) 0xE7 d)
      })"

section \<open>Queries\<close>

definition ata_get_drive :: "u8 \<Rightarrow> u8 \<Rightarrow> ata \<Rightarrow> nat option" where
  "ata_get_drive bus drive_idx s =
     (let idx = bus * 2 + drive_idx
      in if idx < 4 \<and> dr_exists (ata_drives s ! unat idx) then Some (unat idx) else None)"

definition ata_get_drive_count :: "ata \<Rightarrow> u8" where
  "ata_get_drive_count s = active_drive_count s"

fun ata_list_from :: "ata_drive list \<Rightarrow> console \<Rightarrow> console option" where
  "ata_list_from [] con = Some con"
| "ata_list_from (dr # drs) con =
     (if dr_exists dr
      then do {
        con \<leftarrow> printk (Some (''%-10s %-7s %-40s %-20s %u MB'' @ [CHR 0x0A, NUL]))
                [VA_str (Some ((if dr_bus dr = 0 then ''Primary'' else ''Secondary'') @ [NUL])),
                 VA_str (Some ((if dr_is_master dr then ''Master'' else ''Slave'') @ [NUL])),
                 VA_str (Some (dr_model dr)), VA_str (Some (dr_serial dr)), VA_word (drive_mb dr)] con;
        ata_list_from drs con
      }
      else ata_list_from drs con)"

definition ata_list_drives :: "ata \<Rightarrow> console \<Rightarrow> console option" where
  "ata_list_drives s con = do {
     con \<leftarrow> printk (Some (''BUS        ROLE    MODEL                                    SERIAL                SIZE'' @ [CHR 0x0A, NUL])) [] con;
     con \<leftarrow> printk (Some (''---        ----    -----                                    ------                ----'' @ [CHR 0x0A, NUL])) [] con;
     ata_list_from (ata_drives s) con
   }"

section \<open>The waits\<close>

text \<open>The controller settles: after finitely many reads of the status register that show neither data nor an
  error it shows one of them, data without the busy bit.\<close>

inductive settles :: "'d ata_port \<Rightarrow> u16 \<Rightarrow> 'd \<Rightarrow> u8 \<Rightarrow> 'd \<Rightarrow> bool" for pt port where
  now: "p_inb pt port d = (st, d') \<Longrightarrow> st AND 0x01 \<noteq> 0 \<or> st AND 0x80 = 0 \<and> st AND 0x08 \<noteq> 0 \<Longrightarrow> settles pt port d st d'"
| later: "p_inb pt port d = (st, d') \<Longrightarrow> not_ready st \<Longrightarrow> settles pt port d' st' d'' \<Longrightarrow> settles pt port d st' d''"

lemma poll_ready:
  assumes "settles pt port d st d'" and "not_ready st0"
  shows "ata_poll (\<lambda>st. not_ready st) pt port st0 d = Some (st, d')"
  using assms
proof (induction arbitrary: st0 rule: settles.induct)
  case (now d st d')
  then show ?case by (subst ata_poll.simps) (auto simp: ata_poll.simps)
next
  case (later d st d' st' d'')
  then show ?case by (subst ata_poll.simps) simp
qed

lemma poll_settles:
  assumes "settles pt port d st d'"
  shows "do { let (st, d) = p_inb pt port d;
              (st, d) \<leftarrow> ata_poll (\<lambda>st. st AND 0x80 \<noteq> 0 \<and> st AND 0x01 = 0) pt port st d;
              ata_poll (\<lambda>st. not_ready st) pt port st d } = Some (st, d')"
  using assms
proof (induction rule: settles.induct)
  case (now d st d')
  then show ?case by (auto simp: ata_poll.simps)
next
  case (later d st d' st' d'')
  show ?case
  proof (cases "st AND 0x80 = 0")
    case True
    then show ?thesis using later poll_ready [OF later(3,2)] by (simp add: ata_poll.simps [where status = st])
  next
    case False
    then have "ata_poll (\<lambda>st. st AND 0x80 \<noteq> 0 \<and> st AND 0x01 = 0) pt port st d'
        = (let (st, d) = p_inb pt port d' in ata_poll (\<lambda>st. st AND 0x80 \<noteq> 0 \<and> st AND 0x01 = 0) pt port st d)"
      using later(2) by (subst ata_poll.simps) simp
    then show ?thesis using later(1,4) by (simp add: Let_def split: prod.splits)
  qed
qed

lemma wait_settles:
  assumes "settles pt (io_base bus + 7) (ata_400ns_delay pt (ctrl_base bus) d) st d'"
  shows "ata_wait pt bus d = Some (st, d')"
  using poll_settles [OF assms] by (simp add: ata_wait_def)

section \<open>Reading sectors\<close>

definition words_bytes :: "u16 list \<Rightarrow> u8 list" where
  "words_bytes ws = concat (map (\<lambda>w. [ucast w, ucast (drop_bit 8 w)]) ws)"

lemma words_bytes_simps [simp]:
  "words_bytes [] = []" "words_bytes (w # ws) = ucast w # ucast (drop_bit 8 w) # words_bytes ws"
  "words_bytes (ws @ vs) = words_bytes ws @ words_bytes vs" "length (words_bytes ws) = 2 * length ws"
  by (induction ws) (auto simp: words_bytes_def)

text \<open>What the controller promises for a read: with sectors still to deliver it settles without an error and
  hands out the words of the next one; when it fails after the last one it settles with an error.\<close>

definition ata_delivers :: "'d ata_port \<Rightarrow> u8 \<Rightarrow> ('d \<Rightarrow> u16 list list \<Rightarrow> bool) \<Rightarrow> ('d \<Rightarrow> u16 list \<Rightarrow> u16 list list \<Rightarrow> bool)
    \<Rightarrow> bool \<Rightarrow> bool" where
  "ata_delivers pt bus pending data fails \<longleftrightarrow>
     (\<forall>d ss. pending d ss \<longrightarrow> pending (snd (p_inb pt (ctrl_base bus) d)) ss)
   \<and> (\<forall>d s ss. pending d (s # ss) \<longrightarrow> length s = 256
        \<and> (\<exists>st d'. settles pt (io_base bus + 7) d st d' \<and> st AND 0x01 = 0 \<and> data d' s ss))
   \<and> (\<forall>d w ws ss. data d (w # ws) ss \<longrightarrow> (\<exists>d'. p_inw pt (io_base bus) d = (w, d') \<and> data d' ws ss))
   \<and> (\<forall>d ss. data d [] ss \<longrightarrow> pending d ss)
   \<and> (fails \<longrightarrow> (\<forall>d. pending d [] \<longrightarrow> (\<exists>st d'. settles pt (io_base bus + 7) d st d' \<and> st AND 0x01 \<noteq> 0)))"

lemma get_words_data:
  assumes del: "ata_delivers pt bus pending data fails" and "data d ws ss" and "pos + 2 * length ws \<le> length buf"
  shows "\<exists>d'. ata_get_words (length ws) pos pt (io_base bus) buf d
      = Some (take pos buf @ words_bytes ws @ drop (pos + 2 * length ws) buf, d') \<and> pending d' ss"
  using assms(2,3)
proof (induction ws arbitrary: pos buf d)
  case Nil
  then show ?case using del by (auto simp: ata_delivers_def)
next
  case (Cons w ws)
  obtain d1 where d1: "p_inw pt (io_base bus) d = (w, d1)" "data d1 ws ss"
    using del Cons.prems(1) unfolding ata_delivers_def by blast
  let ?b = "buf[pos := ucast w, pos + 1 := ucast (drop_bit 8 w)]"
  have "take (pos + 2) ?b = take pos buf @ [ucast w, ucast (drop_bit 8 w)]"
    using Cons.prems(2) by (intro nth_equalityI) (auto simp: nth_append nth_list_update less_Suc_eq)
  moreover have "drop (pos + 2 + 2 * length ws) ?b = drop (pos + 2 * length (w # ws)) buf" by simp
  ultimately show ?case using Cons.IH [OF d1(2), of "pos + 2" ?b] d1(1) Cons.prems(2) by auto
qed

lemma read_loop_data:
  assumes del: "ata_delivers pt bus pending data fails"
    and "pending d ss" and "length ss \<le> n" and "length ss < n \<longrightarrow> fails" and "pos + 512 * length ss \<le> length buf"
  shows "\<exists>d'. ata_read_loop n pos pt bus buf d
      = Some (if length ss = n then 0 else -1, take pos buf @ words_bytes (concat ss) @ drop (pos + 512 * length ss) buf, d')"
  using assms(2-)
proof (induction n arbitrary: pos buf d ss)
  case (Suc n)
  have del1: "pending (ata_400ns_delay pt (ctrl_base bus) d) ss"
    using del Suc.prems(1) by (simp add: ata_delivers_def ata_400ns_delay_def)
  show ?case
  proof (cases ss)
    case Nil
    then have f: fails using Suc.prems(3) by simp
    obtain st d' where "settles pt (io_base bus + 7) (ata_400ns_delay pt (ctrl_base bus) d) st d'" "st AND 0x01 \<noteq> 0"
      using del f del1 unfolding ata_delivers_def Nil by blast
    then show ?thesis using Nil wait_settles [of pt bus d st d'] by simp
  next
    case (Cons s rest)
    obtain st d1 where st: "settles pt (io_base bus + 7) (ata_400ns_delay pt (ctrl_base bus) d) st d1"
      "st AND 0x01 = 0" "data d1 s rest" "length s = 256"
      using del del1 unfolding ata_delivers_def Cons by blast
    have "pos + 2 * length s \<le> length buf" using Suc.prems(4) st(4) Cons by simp
    from get_words_data [OF del st(3) this] obtain d2 where d2:
      "ata_get_words 256 pos pt (io_base bus) buf d1 = Some (take pos buf @ words_bytes s @ drop (pos + 512) buf, d2)" "pending d2 rest"
      using st(4) by auto
    let ?b = "take pos buf @ words_bytes s @ drop (pos + 512) buf"
    have len: "length ?b = length buf" "length (take pos buf) = pos" using Suc.prems(4) st(4) Cons by simp_all
    have "take (pos + 512) ?b = take pos buf @ words_bytes s"
      using len(2) st(4) by simp
    moreover have "drop (pos + 512 + 512 * length rest) ?b = drop (pos + 512 * length ss) buf"
      using len(2) st(4) Cons by (simp add: ac_simps)
    ultimately show ?thesis
      using Suc.IH [OF d2(2), of "pos + 512" ?b] Suc.prems(2,3,4) wait_settles [OF st(1)] st(2) d2(1) Cons len(1) by auto
  qed
qed simp

text \<open>A read stores the sectors that the controller delivers at the start of the buffer, in order and with the
  low byte of each word first, and touches nothing behind them; it returns 0 when all came and -1 when the
  controller reports an error after fewer.\<close>

theorem ata_read_sectors_correct:
  assumes "ata_delivers pt bus pending data fails" and "pending (ata_command pt bus drive lba count 0x20 d) ss"
    and "length ss \<le> unat count" and "length ss < unat count \<longrightarrow> fails" and "512 * length ss \<le> length buf"
  shows "\<exists>d'. ata_read_sectors pt bus drive lba count buf d
    = Some (if length ss = unat count then 0 else -1, words_bytes (concat ss) @ drop (512 * length ss) buf, d')"
proof (cases "count = 0")
  case True
  then show ?thesis using assms(3) by (auto simp: ata_read_sectors_def)
next
  case False
  then show ?thesis using read_loop_data [OF assms(1-4), of 0 buf] assms(5) by (auto simp: ata_read_sectors_def)
qed

section \<open>Writing sectors\<close>

text \<open>What it promises for a write: while sectors are missing it settles without an error and takes words.\<close>

definition ata_accepts :: "'d ata_port \<Rightarrow> u8 \<Rightarrow> nat \<Rightarrow> ('d \<Rightarrow> u16 list \<Rightarrow> bool) \<Rightarrow> ('d \<Rightarrow> u16 list \<Rightarrow> bool) \<Rightarrow> bool" where
  "ata_accepts pt bus count waiting taking \<longleftrightarrow>
     (\<forall>d ws. waiting d ws \<longrightarrow> waiting (snd (p_inb pt (ctrl_base bus) d)) ws)
   \<and> (\<forall>d ws. waiting d ws \<and> length ws < 256 * count \<longrightarrow>
        (\<exists>st d'. settles pt (io_base bus + 7) d st d' \<and> st AND 0x01 = 0 \<and> taking d' ws))
   \<and> (\<forall>d w ws. taking d ws \<longrightarrow> taking (p_outw pt (io_base bus) w d) (ws @ [w]))
   \<and> (\<forall>d ws. taking d ws \<and> 256 dvd length ws \<longrightarrow> waiting d ws)"

lemma join_bytes: "(ucast (ucast w :: u8) OR push_bit 8 (ucast (ucast (drop_bit 8 w) :: u8))) = (w :: u16)"
  by (rule bit_word_eqI) (auto simp: bit_simps)

lemma put_words_taken:
  assumes acc: "ata_accepts pt bus count waiting taking" and "taking d vs" and "drop pos buf = words_bytes ws @ rest"
  shows "\<exists>d'. ata_put_words (length ws) pos pt (io_base bus) buf d = Some d' \<and> taking d' (vs @ ws)"
  using assms(2,3)
proof (induction ws arbitrary: pos d vs)
  case (Cons w ws)
  have d: "drop pos buf = ucast w # ucast (drop_bit 8 w) # (words_bytes ws @ rest)" using Cons.prems(2) by simp
  from arg_cong [OF this, of length] have pos: "pos + 1 < length buf" by simp
  have "buf ! (pos + i) = drop pos buf ! i" for i using pos by simp
  from this [of 0] this [of 1] have nth: "buf ! pos = ucast w" "buf ! (pos + 1) = ucast (drop_bit 8 w)" unfolding d by simp_all
  have "drop (pos + 2) buf = drop 2 (drop pos buf)" by (simp add: add.commute)
  then have "drop (pos + 2) buf = words_bytes ws @ rest" unfolding d by simp
  moreover have "taking (p_outw pt (io_base bus) w d) (vs @ [w])" using acc Cons.prems(1) unfolding ata_accepts_def by blast
  ultimately show ?case using Cons.IH [of "p_outw pt (io_base bus) w d" "vs @ [w]" "pos + 2"] pos
    by (simp add: nth join_bytes del: One_nat_def)
qed simp

lemma write_loop_taken:
  assumes acc: "ata_accepts pt bus count waiting taking"
    and "waiting d vs" and "length vs + 256 * length ss \<le> 256 * count" and "256 dvd length vs"
    and "\<forall>s \<in> set ss. length s = 256" and "drop pos buf = words_bytes (concat ss) @ rest"
  shows "\<exists>d'. ata_write_loop (length ss) pos pt bus buf d = Some (0, d') \<and> waiting d' (vs @ concat ss)"
  using assms(2-)
proof (induction ss arbitrary: pos d vs)
  case (Cons s ss)
  have "waiting (ata_400ns_delay pt (ctrl_base bus) d) vs" using acc Cons.prems(1) by (simp add: ata_accepts_def ata_400ns_delay_def)
  moreover have "length vs < 256 * count" using Cons.prems(2) by simp
  ultimately obtain st d1 where st: "settles pt (io_base bus + 7) (ata_400ns_delay pt (ctrl_base bus) d) st d1" "st AND 0x01 = 0" "taking d1 vs"
    using acc unfolding ata_accepts_def by blast
  have s: "length s = 256" using Cons.prems(4) by simp
  have dr: "drop pos buf = words_bytes s @ (words_bytes (concat ss) @ rest)" using Cons.prems(5) by simp
  from put_words_taken [OF acc st(3) this] obtain d2 where d2: "ata_put_words 256 pos pt (io_base bus) buf d1 = Some d2" "taking d2 (vs @ s)"
    using s by auto
  have len: "256 dvd length (vs @ s)" using Cons.prems(3) s by simp
  have w: "waiting d2 (vs @ s)" using acc d2(2) len unfolding ata_accepts_def by blast
  have "drop (pos + 512) buf = words_bytes (concat ss) @ rest" using arg_cong [OF dr, of "drop 512"] s by (simp add: add.commute)
  then show ?case using Cons.IH [OF w _ len] Cons.prems(2,4) s wait_settles [OF st(1)] st(2) d2(1) by simp
qed simp

text \<open>A write hands the controller exactly the words of the first \<open>count\<close> sectors of the buffer, then asks it to
  empty its cache.\<close>

theorem ata_write_sectors_correct:
  assumes "ata_accepts pt bus (unat count) waiting taking" and "waiting (ata_command pt bus drive lba count 0x30 d) []"
    and "length ss = unat count" and "\<forall>s \<in> set ss. length s = 256" and "buf = words_bytes (concat ss) @ rest" and "count \<noteq> 0"
  shows "\<exists>d'. ata_write_sectors pt bus drive lba count buf d = Some (0, p_outb pt (io_base bus + 7) 0xE7 d')
    \<and> waiting d' (concat ss)"
  using write_loop_taken [OF assms(1,2), of ss 0 buf rest] assms(3-) by (auto simp: ata_write_sectors_def)

section \<open>A bus without a drive\<close>

lemmas ata_poll_induct = ata_poll.raw_induct [rotated 1, consumes 1, case_names step]

lemma poll_forever:
  assumes "ata_poll again pt port st d = Some y" and "again st" and "\<And>d. again (fst (p_inb pt port d))"
  shows False
proof -
  have "again st \<longrightarrow> (\<forall>d. again (fst (p_inb pt port d))) \<longrightarrow> False"
    using assms(1) by (induction rule: ata_poll_induct) (auto simp: split_beta split: if_splits; blast)
  then show False using assms(2,3) by blast
qed

text \<open>Where no controller is attached every port reads \<^verbatim>\<open>0xFF\<close>: the busy bit never clears, and
  \<open>ata_init\<close> never returns.\<close>

theorem ata_init_hangs:
  assumes "\<forall>port d. fst (p_inb pt port d) = 0xFF"
  shows "ata_init pt s d con = None"
proof -
  have "ata_poll (\<lambda>st. st AND 0x80 \<noteq> 0) pt port 0xFF d = None" for port d
    using poll_forever [of "\<lambda>st. st AND 0x80 \<noteq> 0" pt port "0xFF" d] assms by (cases "ata_poll (\<lambda>st. st AND 0x80 \<noteq> 0) pt port 0xFF d") auto
  then have "ata_identify pt bus sl dr d = None" for bus sl dr d
    using assms by (auto simp: ata_identify_def Let_def split_beta)
  then show ?thesis by (simp add: ata_init_def)
qed

section \<open>The text of the identification\<close>

lemma swap_from_pairs:
  "swap_from (length pre) (length pre + 2 * length ps) (pre @ concat (map (\<lambda>(a, b). [a, b]) ps) @ rest)
    = Some (pre @ concat (map (\<lambda>(a, b). [b, a]) ps) @ rest)"
proof (induction ps arbitrary: pre)
  case Nil
  then show ?case by (simp add: swap_from.simps)
next
  case (Cons p ps)
  obtain a b where p: "p = (a, b)" by (cases p)
  have "(pre @ a # b # r)[length pre := b, Suc (length pre) := a] = (pre @ [b, a]) @ r" for r :: "char list"
    by (simp add: list_update_append)
  then show ?case using Cons.IH [of "pre @ [b, a]"] by (subst swap_from.simps) (simp add: p nth_append)
qed

definition trim_right :: "char list \<Rightarrow> char list" where
  "trim_right t = rev (dropWhile (\<lambda>c. c = CHR '' '' \<or> c = NUL) (rev t))"

lemma length_trim_right: "length (trim_right t) \<le> length t"
  by (metis length_dropWhile_le length_rev trim_right_def)

lemma trim_from_eq:
  "trim_from (length t) (t @ r) = trim_right t @ replicate (length t - length (trim_right t)) NUL @ r"
proof (induction t arbitrary: r rule: rev_induct)
  case Nil
  then show ?case by (simp add: trim_right_def)
next
  case (snoc c t)
  show ?case
  proof (cases "c = CHR '' '' \<or> c = NUL")
    case True
    have "trim_from (length (t @ [c])) ((t @ [c]) @ r) = trim_from (length t) (t @ NUL # r)" using True by (auto simp: nth_append)
    moreover have "trim_right (t @ [c]) = trim_right t" using True by (auto simp: trim_right_def)
    ultimately show ?thesis
      using snoc [of "NUL # r"] length_trim_right [of t] by (simp add: Suc_diff_le replicate_append_same [symmetric])
  next
    case False
    then show ?thesis by (simp add: nth_append trim_right_def)
  qed
qed

text \<open>The bytes of each word are exchanged and what follows the last visible character is cleared.\<close>

lemma ata_fix_string_correct:
  assumes "n = 2 * length ps"
  shows "ata_fix_string (concat (map (\<lambda>(a, b). [a, b]) ps) @ [c]) n
    = Some (let t = concat (map (\<lambda>(a, b). [b, a]) ps) in trim_right t @ replicate (n - length (trim_right t)) NUL @ [NUL])"
proof -
  let ?t = "concat (map (\<lambda>(a, b). [b, a]) ps)"
  have len: "length ?t = n" using assms by (simp add: length_concat comp_def case_prod_beta sum_list_triv)
  have "swap_from 0 n (concat (map (\<lambda>(a, b). [a, b]) ps) @ [c]) = Some (?t @ [c])"
    using swap_from_pairs [of "[]" ps "[c]"] assms by simp
  moreover have "put_at (?t @ [c]) n NUL = Some (?t @ [NUL])" using len by (simp add: put_at_def list_update_append)
  ultimately show ?thesis using trim_from_eq [of ?t "[NUL]"] len by (simp add: ata_fix_string_def Let_def)
qed

section \<open>Two controllers\<close>

lemma busy_byte: "(0x80 :: u8) AND 0x08 = 0" "(0x80 :: u8) AND 0x01 = 0"
  by code_simp+

lemma bytes_1234: "words_bytes (replicate n 0x1234) = concat (replicate n [0x34, 0x12])"
proof -
  have b: "(0x1234 :: u8) = 0x34" by code_simp
  show ?thesis by (simp add: words_bytes_def map_replicate_const b)
qed

text \<open>A controller that is busy once, delivers one sector and then fails.\<close>

definition ata_one_sector :: "(bool \<times> u16 list list \<times> u16 list) ata_port" where
  "ata_one_sector =
     \<lparr>p_inb = (\<lambda>port (busy, ss, ws).
        if port = 0x1F7
        then if busy then (0x80, (False, ss, ws))
             else (case ss of [] \<Rightarrow> (0x01, (False, ss, ws)) | s # ss \<Rightarrow> (0x08, (False, ss, s)))
        else (0, (busy, ss, ws))),
      p_inw = (\<lambda>port (busy, ss, ws). (hd ws, (busy, ss, tl ws))),
      p_outb = (\<lambda>port v d. if port = 0x1F7 then (True, [replicate 256 0x1234], []) else d),
      p_outw = (\<lambda>port w d. d)\<rparr>"

lemma ata_one_sector_delivers:
  "ata_delivers ata_one_sector 0 (\<lambda>(busy, ss', ws) ss. ss' = ss \<and> (\<forall>s \<in> set ss. length s = 256))
     (\<lambda>(busy, ss', ws') ws ss. ws' = ws \<and> ss' = ss \<and> (\<forall>s \<in> set ss. length s = 256)) True"
proof -
  have settle: "\<exists>st d'. settles ata_one_sector 0x1F7 (b, ss, ws) st d' \<and> st AND 0x01 = 0
      \<and> (case d' of (busy, ss', ws') \<Rightarrow> ws' = s \<and> ss' = rest)" if "ss = s # rest" for b ss ws s rest
  proof -
    have now: "settles ata_one_sector 0x1F7 (False, ss, ws') 0x08 (False, rest, s)" for ws'
      using that by (intro settles.now) (simp_all add: ata_one_sector_def)
    have "settles ata_one_sector 0x1F7 (True, ss, ws) 0x08 (False, rest, s)"
      by (rule settles.later [where st = "0x80", OF _ _ now]) (simp_all add: ata_one_sector_def busy_byte)
    with now show ?thesis by (cases b) (rule exI [of _ "0x08"], rule exI [of _ "(False, rest, s)"], simp)+
  qed
  have fail: "\<exists>st d'. settles ata_one_sector 0x1F7 (b, [], ws) st d' \<and> st AND 0x01 \<noteq> 0" for b ws
  proof -
    have now: "settles ata_one_sector 0x1F7 (False, [], ws') 0x01 (False, [], ws')" for ws'
      by (intro settles.now) (simp_all add: ata_one_sector_def)
    have "settles ata_one_sector 0x1F7 (True, [], ws) 0x01 (False, [], ws)"
      by (rule settles.later [where st = "0x80", OF _ _ now]) (simp_all add: ata_one_sector_def busy_byte)
    with now show ?thesis by (cases b) (rule exI [of _ "0x01"], rule exI [of _ "(False, [], ws)"], simp)+
  qed
  have "(\<exists>st d'. settles ata_one_sector (io_base 0 + 7) d st d' \<and> st AND 0x01 = 0
      \<and> (case d' of (busy, ss', ws') \<Rightarrow> \<lambda>ws ss. ws' = ws \<and> ss' = ss \<and> (\<forall>s \<in> set ss. length s = 256)) s ss)"
    if "(case d of (busy, ss', ws) \<Rightarrow> \<lambda>ss. ss' = ss \<and> (\<forall>s \<in> set ss. length s = 256)) (s # ss)" for d s ss
    using that settle [of "fst (snd d)" s ss "fst d" "snd (snd d)"] by (cases d) (auto simp: io_base_def)
  then show ?thesis
    unfolding ata_delivers_def using fail
    by (auto simp: io_base_def ctrl_base_def ata_one_sector_def split: list.splits)
qed

theorem ata_read_sectors_correct_witness:
  "\<exists>d'. ata_read_sectors ata_one_sector 0 0 7 2 (replicate 1024 0xAA) (False, [], [])
    = Some (-1, concat (replicate 256 [0x34, 0x12]) @ replicate 512 0xAA, d')"
proof -
  let ?s = "replicate 256 (0x1234 :: u16)"
  have "\<exists>d'. ata_read_sectors ata_one_sector 0 0 7 2 (replicate 1024 0xAA) (False, [], [])
    = Some (if length [?s] = unat (2 :: u8) then 0 else -1,
        words_bytes (concat [?s]) @ drop (512 * length [?s]) (replicate 1024 0xAA), d')"
    by (rule ata_read_sectors_correct [OF ata_one_sector_delivers])
      (simp_all add: ata_command_def io_base_def ata_one_sector_def)
  moreover have "drop 512 (replicate 1024 (0xAA :: u8)) = replicate 512 0xAA" by simp
  ultimately show ?thesis using bytes_1234 [of 256] by simp
qed

text \<open>A controller that takes every word.\<close>

definition ata_sink :: "(bool \<times> u16 list) ata_port" where
  "ata_sink =
     \<lparr>p_inb = (\<lambda>port (busy, ws). (if port = 0x1F7 then if busy then 0x80 else 0x08 else 0, (False, ws))),
      p_inw = (\<lambda>port d. (0, d)),
      p_outb = (\<lambda>port v (busy, ws). (True, ws)),
      p_outw = (\<lambda>port w (busy, ws). (busy, ws @ [w]))\<rparr>"

lemma ata_sink_accepts: "ata_accepts ata_sink 0 n (\<lambda>d ws. snd d = ws) (\<lambda>d ws. snd d = ws)"
proof -
  have now: "settles ata_sink 0x1F7 (False, ws) 0x08 (False, ws)" for ws
    by (intro settles.now) (simp_all add: ata_sink_def)
  have "settles ata_sink 0x1F7 (True, ws) 0x08 (False, ws)" for ws
    by (rule settles.later [where st = "0x80", OF _ _ now]) (simp_all add: ata_sink_def busy_byte)
  with now have st: "\<exists>st d'. settles ata_sink 0x1F7 (b, ws) st d' \<and> st AND 0x01 = 0 \<and> snd d' = ws" for b ws
    by (cases b) (rule exI [of _ "0x08"], rule exI [of _ "(False, ws)"], simp)+
  show ?thesis unfolding ata_accepts_def using st by (auto simp: io_base_def ctrl_base_def ata_sink_def)
qed

theorem ata_write_sectors_correct_witness:
  "\<exists>d'. ata_write_sectors ata_sink 0 0 7 1 (concat (replicate 256 [0x34, 0x12])) (False, [])
    = Some (0, p_outb ata_sink 0x1F7 0xE7 d') \<and> snd d' = replicate 256 0x1234"
proof -
  let ?s = "replicate 256 (0x1234 :: u16)"
  have b: "concat (replicate 256 [0x34, 0x12]) = words_bytes (concat [?s]) @ []" using bytes_1234 [of 256] by simp
  have "\<exists>d'. ata_write_sectors ata_sink 0 0 7 1 (concat (replicate 256 [0x34, 0x12])) (False, [])
    = Some (0, p_outb ata_sink (io_base 0 + 7) 0xE7 d') \<and> snd d' = concat [?s]"
    by (rule ata_write_sectors_correct [OF ata_sink_accepts _ _ _ b])
      (simp_all add: ata_command_def io_base_def ata_sink_def)
  then show ?thesis by (simp add: io_base_def)
qed

theorem ata_init_hangs_witness:
  "ata_init \<lparr>p_inb = (\<lambda>port d. (0xFF, d)), p_inw = (\<lambda>port d. (0xFFFF, d)), p_outb = (\<lambda>port v d. d), p_outw = (\<lambda>port v d. d)\<rparr>
     \<lparr>ata_drives = [], active_drive_count = 0\<rparr> () console_example = None"
  by (rule ata_init_hangs) simp

end
