(* ===== verification/Module_Loader.thy ===== *)
theory Module_Loader
  imports User_Process
begin

text \<open>
  Kernel modules: the symbols that the kernel exports, \<^verbatim>\<open>kernel/module_symbols.c\<close>, and the loader of
  relocatable images, \<^verbatim>\<open>kernel/module_loader.c\<close>.  The image is a list of bytes that the loader
  writes into; the block that a module is loaded into is in the store of the heap.  A
  \<^verbatim>\<open>kernel_module_t\<close> lives in a block of the heap and \<open>kmods\<close> maps its address to its fields.  The
  addresses that the linker gives to the exported functions are the parameter \<open>sym_addr\<close>; what a call of
  the module's code does to the kernel is the parameter \<open>call\<close>.
\<close>

section \<open>The exported symbols\<close>

definition kernel_symbol_names :: "string list" where
  "kernel_symbol_names =
     [''printk'', ''klog'', ''klog_dump'',
      ''kmalloc'', ''kfree'', ''krealloc'', ''kcalloc'', ''pmm_alloc_page'', ''pmm_free_page'', ''pmm_get_free_count'',
      ''pmm_get_total_count'', ''vmm_map_page'', ''vmm_unmap_page'', ''vmm_get_phys'',
      ''memset'', ''memcpy'', ''memmove'', ''memcmp'', ''strlen'', ''strcpy'', ''strncpy'', ''strcmp'', ''strncmp'',
      ''strcat'', ''strchr'', ''strstr'', ''itoa'', ''utoa'', ''atoi'',
      ''vga_clear'', ''vga_putchar'', ''vga_write'', ''vga_set_color'', ''vga_write_hex'', ''vga_write_dec'',
      ''serial_write'', ''serial_putchar'',
      ''vfs_open'', ''vfs_read'', ''vfs_write'', ''vfs_list'', ''vfs_mount'',
      ''timer_get_ticks'', ''timer_sleep'',
      ''process_get_current'', ''process_get_by_pid'', ''process_get_count'',
      ''pci_get_device'', ''pci_get_class'', ''pci_get_count'', ''pci_config_read32'', ''pci_config_write32'',
      ''cpuid_print_info'', ''apic_eoi'',
      ''module_load_binary'', ''module_unload_binary'', ''module_list_loaded'', ''kernel_panic'']"

fun resolve_from :: "(string \<Rightarrow> u32) \<Rightarrow> char list \<Rightarrow> string list \<Rightarrow> u32 option option" where
  "resolve_from sym_addr name [] = Some None"
| "resolve_from sym_addr name (n # ns) = do {
     c \<leftarrow> strcmp (Some name) (Some (n @ [NUL]));
     if c = 0 then Some (Some (sym_addr n)) else resolve_from sym_addr name ns
   }"

text \<open>\<^term>\<open>None\<close> inside where the source returns \<open>-1\<close>.\<close>

definition module_resolve_symbol :: "(string \<Rightarrow> u32) \<Rightarrow> cptr \<Rightarrow> u32 option option" where
  "module_resolve_symbol sym_addr name =
     (case name of None \<Rightarrow> Some None | Some n \<Rightarrow> resolve_from sym_addr n kernel_symbol_names)"

section \<open>The image\<close>

record elf32_shdr =
  sh_type :: u32
  sh_flags :: u32
  sh_addr :: u32
  sh_offset :: u32
  sh_size :: u32
  sh_link :: u32
  sh_info :: u32

record elf32_sym =
  st_name :: u32
  st_value :: u32
  st_shndx :: u16

abbreviation (input) SHT_SYMTAB :: u32 where "SHT_SYMTAB \<equiv> 2"
abbreviation (input) SHT_NOBITS :: u32 where "SHT_NOBITS \<equiv> 8"
abbreviation (input) SHT_REL :: u32 where "SHT_REL \<equiv> 9"
abbreviation (input) SHF_ALLOC :: u32 where "SHF_ALLOC \<equiv> 2"
abbreviation (input) ET_REL :: u16 where "ET_REL \<equiv> 1"

definition wr32 :: "u8 list \<Rightarrow> nat \<Rightarrow> u32 \<Rightarrow> u8 list option" where
  "wr32 d i w =
     (if i + 4 \<le> length d
      then Some (d[i := ucast w, i + 1 := ucast (drop_bit 8 w), i + 2 := ucast (drop_bit 16 w), i + 3 := ucast (drop_bit 24 w)])
      else None)"

text \<open>The section header and the symbol at a byte position.\<close>

definition read_shdr :: "u8 list \<Rightarrow> nat \<Rightarrow> elf32_shdr option" where
  "read_shdr d p = do {
     ty \<leftarrow> rd32 d (p + 4); fl \<leftarrow> rd32 d (p + 8); ad \<leftarrow> rd32 d (p + 12); off \<leftarrow> rd32 d (p + 16);
     sz \<leftarrow> rd32 d (p + 20); li \<leftarrow> rd32 d (p + 24); inf \<leftarrow> rd32 d (p + 28);
     Some \<lparr>sh_type = ty, sh_flags = fl, sh_addr = ad, sh_offset = off, sh_size = sz, sh_link = li, sh_info = inf\<rparr> }"

definition read_sym :: "u8 list \<Rightarrow> nat \<Rightarrow> elf32_sym option" where
  "read_sym d p = do {
     nm \<leftarrow> rd32 d p; v \<leftarrow> rd32 d (p + 4); ndx \<leftarrow> rd16 d (p + 14);
     Some \<lparr>st_name = nm, st_value = v, st_shndx = ndx\<rparr> }"

definition shdr_at :: "u32 \<Rightarrow> nat \<Rightarrow> nat" where "shdr_at shoff i = unat shoff + 40 * i"

definition image_text :: "u8 list \<Rightarrow> nat \<Rightarrow> char list" where
  "image_text d p = map (\<lambda>b. char_of (unat b)) (drop p d)"

definition module_validate_elf :: "u8 list option \<Rightarrow> u32 \<Rightarrow> bool option" where
  "module_validate_elf data sz =
     (case data of
        None \<Rightarrow> Some False
      | Some d \<Rightarrow>
          if sz < 52 then Some False
          else do {
            a \<leftarrow> rd8 d 0; b \<leftarrow> rd8 d 1; c \<leftarrow> rd8 d 2; e \<leftarrow> rd8 d 3;
            if a \<noteq> 0x7F \<or> b \<noteq> 0x45 \<or> c \<noteq> 0x4C \<or> e \<noteq> 0x46 then Some False
            else do {
              cls \<leftarrow> rd8 d 4; enc \<leftarrow> rd8 d 5;
              if cls \<noteq> 1 \<or> enc \<noteq> 1 then Some False
              else do {
                ty \<leftarrow> e_type d;
                if ty \<noteq> ET_REL then Some False
                else do { shoff \<leftarrow> e_shoff d; shnum \<leftarrow> e_shnum d; Some (\<not> (shoff = 0 \<or> shnum = 0)) } } } })"

text \<open>\<^verbatim>\<open>(size + 3) & ~3\<close>\<close>

definition align4 :: "u32 \<Rightarrow> u32" where "align4 n = (n + 3) AND NOT 3"

fun calc_size_from :: "nat list \<Rightarrow> u8 list \<Rightarrow> u32 \<Rightarrow> u32 \<Rightarrow> u32 option" where
  "calc_size_from [] d shoff tot = Some tot"
| "calc_size_from (i # is) d shoff tot = do {
     sh \<leftarrow> read_shdr d (shdr_at shoff i);
     calc_size_from is d shoff (if sh_flags sh AND SHF_ALLOC \<noteq> 0 then tot + align4 (sh_size sh) else tot)
   }"

definition module_calc_size :: "u8 list \<Rightarrow> u32 option" where
  "module_calc_size d = do {
     shoff \<leftarrow> e_shoff d; shnum \<leftarrow> e_shnum d;
     calc_size_from [0..<unat shnum] d shoff 0
   }"

section \<open>Memory of the kernel\<close>

primrec store_put :: "u32 \<Rightarrow> u8 list \<Rightarrow> (u32 \<Rightarrow> u8) \<Rightarrow> (u32 \<Rightarrow> u8)" where
  "store_put a [] m = m"
| "store_put a (b # bs) m = store_put (a + 1) bs (m(a := b))"

definition le_bytes :: "nat \<Rightarrow> u32 \<Rightarrow> u8 list" where
  "le_bytes n w = map (\<lambda>i. ucast (drop_bit (8 * i) w)) [0..<n]"

definition get32 :: "(u32 \<Rightarrow> u8) \<Rightarrow> u32 \<Rightarrow> u32" where
  "get32 m a = ucast (m a) OR push_bit 8 (ucast (m (a + 1))) OR push_bit 16 (ucast (m (a + 2))) OR push_bit 24 (ucast (m (a + 3)))"

definition get16 :: "(u32 \<Rightarrow> u8) \<Rightarrow> u32 \<Rightarrow> u16" where
  "get16 m a = ucast (m a) OR push_bit 8 (ucast (m (a + 1)))"

definition put32 :: "u32 \<Rightarrow> u32 \<Rightarrow> (u32 \<Rightarrow> u8) \<Rightarrow> (u32 \<Rightarrow> u8)" where
  "put32 a w = store_put a (le_bytes 4 w)"

definition put16 :: "u32 \<Rightarrow> u16 \<Rightarrow> (u32 \<Rightarrow> u8) \<Rightarrow> (u32 \<Rightarrow> u8)" where
  "put16 a w = store_put a (le_bytes 2 (ucast w))"

definition on_bytes :: "((u32 \<Rightarrow> u8) \<Rightarrow> (u32 \<Rightarrow> u8)) \<Rightarrow> 'a kern_scheme \<Rightarrow> 'a kern_scheme" where
  "on_bytes f k = k\<lparr>k_heap := (k_heap k)\<lparr>bytes := f (bytes (k_heap k))\<rparr>\<rparr>"

section \<open>Loading\<close>

record kmodule =
  km_name :: "char list"
  km_version :: u32
  km_loaded :: u8
  km_base_addr :: u32
  km_total_size :: u32
  km_init_func :: u32
  km_cleanup_func :: u32
  km_next :: u32

record modules =
  module_list_head :: u32
  kmods :: "u32 \<rightharpoonup> kmodule"

abbreviation (input) KMODULE_BYTES :: u32 where "KMODULE_BYTES \<equiv> 92"

definition module_loader_init :: "modules \<Rightarrow> 'a kern_scheme \<Rightarrow> (modules \<times> 'a kern_scheme) option" where
  "module_loader_init ms k =
     map_option (Pair (ms\<lparr>module_list_head := 0\<rparr>))
       (k_printk (''Module Loader: ELF relocatable module support initialized'' @ [CHR 0x0A]) [] k)"

text \<open>The search of the list for a name: the address found, 0 when there is none.\<close>

partial_function (option) find_module :: "char list \<Rightarrow> (u32 \<rightharpoonup> kmodule) \<Rightarrow> u32 \<Rightarrow> u32 option" where
  "find_module name mods cur =
     (if cur = 0 then Some 0
      else do {
        m \<leftarrow> mods cur;
        c \<leftarrow> strcmp (Some (km_name m)) (Some name);
        if c = 0 then Some cur else find_module name mods (km_next m)
      })"

fun copy_sections :: "nat list \<Rightarrow> u32 \<Rightarrow> u32 \<Rightarrow> u32 \<Rightarrow> u8 list \<Rightarrow> (u32 \<Rightarrow> u8) \<Rightarrow> (u8 list \<times> (u32 \<Rightarrow> u8)) option" where
  "copy_sections [] shoff base cur d m = Some (d, m)"
| "copy_sections (i # is) shoff base cur d m = do {
     sh \<leftarrow> read_shdr d (shdr_at shoff i);
     if sh_flags sh AND SHF_ALLOC \<noteq> 0
     then do {
       d \<leftarrow> wr32 d (shdr_at shoff i + 12) (base + cur);
       m \<leftarrow> (if sh_type sh = SHT_NOBITS then Some (store_fill (unat (sh_size sh)) (base + cur) 0 m)
            else if sh_size sh > 0
            then if unat (sh_offset sh) + unat (sh_size sh) \<le> length d
                 then Some (store_put (base + cur) (take (unat (sh_size sh)) (drop (unat (sh_offset sh)) d)) m)
                 else None
            else Some m);
       copy_sections is shoff base (cur + align4 (sh_size sh)) d m
     }
     else copy_sections is shoff base cur d m
   }"

fun find_symtab :: "nat list \<Rightarrow> u32 \<Rightarrow> u8 list \<Rightarrow> elf32_shdr option option" where
  "find_symtab [] shoff d = Some None"
| "find_symtab (i # is) shoff d = do {
     sh \<leftarrow> read_shdr d (shdr_at shoff i);
     if sh_type sh = SHT_SYMTAB then Some (Some sh) else find_symtab is shoff d
   }"

fun update_symbols :: "nat list \<Rightarrow> nat \<Rightarrow> u32 \<Rightarrow> u16 \<Rightarrow> u8 list \<Rightarrow> u8 list option" where
  "update_symbols [] syms shoff shnum d = Some d"
| "update_symbols (i # is) syms shoff shnum d = do {
     s \<leftarrow> read_sym d (syms + 16 * i);
     if st_shndx s \<noteq> 0 \<and> st_shndx s < shnum
     then do {
       sh \<leftarrow> read_shdr d (shdr_at shoff (unat (st_shndx s)));
       d \<leftarrow> wr32 d (syms + 16 * i + 4) (sh_addr sh + st_value s);
       update_symbols is syms shoff shnum d
     }
     else update_symbols is syms shoff shnum d
   }"

text \<open>The name of the first symbol that the kernel does not export, when there is one.\<close>

fun resolve_symbols :: "(string \<Rightarrow> u32) \<Rightarrow> nat list \<Rightarrow> nat \<Rightarrow> nat \<Rightarrow> u8 list \<Rightarrow> (char list option \<times> u8 list) option" where
  "resolve_symbols sym_addr [] syms strtab d = Some (None, d)"
| "resolve_symbols sym_addr (i # is) syms strtab d = do {
     s \<leftarrow> read_sym d (syms + 16 * i);
     if st_shndx s = 0 \<and> st_name s \<noteq> 0
     then do {
       let name = image_text d (strtab + unat (st_name s));
       r \<leftarrow> module_resolve_symbol sym_addr (Some name);
       case r of
         None \<Rightarrow> Some (Some name, d)
       | Some a \<Rightarrow> do { d \<leftarrow> wr32 d (syms + 16 * i + 4) a; resolve_symbols sym_addr is syms strtab d }
     }
     else resolve_symbols sym_addr is syms strtab d
   }"

text \<open>One relocation: symbol value \<open>S\<close>, place \<open>P\<close>.\<close>

definition apply_rel :: "u8 \<Rightarrow> u32 \<Rightarrow> u32 \<Rightarrow> 'a kern_scheme \<Rightarrow> 'a kern_scheme option" where
  "apply_rel type S P k =
     (if type = 1 then Some (on_bytes (\<lambda>m. put32 P (get32 m P + S) m) k)
      else if type = 2 then Some (on_bytes (\<lambda>m. put32 P (get32 m P + (S - P)) m) k)
      else if type = 4 then Some (on_bytes (\<lambda>m. put16 P (get16 m P + ucast S) m) k)
      else if type = 5 then Some (on_bytes (\<lambda>m. m(P := m P + ucast S)) k)
      else k_printk (''Module: Unknown relocation type %u'' @ [CHR 0x0A]) [VA_word (ucast type)] k)"

fun apply_rels :: "nat list \<Rightarrow> nat \<Rightarrow> u32 \<Rightarrow> nat \<Rightarrow> u32 \<Rightarrow> u8 list \<Rightarrow> 'a kern_scheme \<Rightarrow> 'a kern_scheme option" where
  "apply_rels [] rels target_base syms sym_count d k = Some k"
| "apply_rels (r # rs) rels target_base syms sym_count d k = do {
     r_offset \<leftarrow> rd32 d (rels + 8 * r);
     r_info \<leftarrow> rd32 d (rels + 8 * r + 4);
     let sym_idx = drop_bit 8 r_info;
     if sym_idx \<ge> sym_count then apply_rels rs rels target_base syms sym_count d k
     else do {
       s \<leftarrow> read_sym d (syms + 16 * unat sym_idx);
       k \<leftarrow> apply_rel (ucast r_info) (st_value s) (target_base + r_offset) k;
       apply_rels rs rels target_base syms sym_count d k
     }
   }"

fun relocate_sections :: "nat list \<Rightarrow> u32 \<Rightarrow> u16 \<Rightarrow> nat \<Rightarrow> u32 \<Rightarrow> u8 list \<Rightarrow> 'a kern_scheme \<Rightarrow> 'a kern_scheme option" where
  "relocate_sections [] shoff shnum syms sym_count d k = Some k"
| "relocate_sections (i # is) shoff shnum syms sym_count d k = do {
     sh \<leftarrow> read_shdr d (shdr_at shoff i);
     if sh_type sh = SHT_REL \<and> sh_info sh < ucast shnum
     then do {
       target \<leftarrow> read_shdr d (shdr_at shoff (unat (sh_info sh)));
       k \<leftarrow> apply_rels [0..<unat (sh_size sh div 8)] (unat (sh_offset sh)) (sh_addr target) syms sym_count d k;
       relocate_sections is shoff shnum syms sym_count d k
     }
     else relocate_sections is shoff shnum syms sym_count d k
   }"

text \<open>The values of the last symbols with the two names, 0 when there is none.\<close>

fun find_entry_points :: "nat list \<Rightarrow> nat \<Rightarrow> nat \<Rightarrow> u8 list \<Rightarrow> u32 \<times> u32 \<Rightarrow> (u32 \<times> u32) option" where
  "find_entry_points [] syms strtab d fs = Some fs"
| "find_entry_points (i # is) syms strtab d (init_func, cleanup_func) = do {
     s \<leftarrow> read_sym d (syms + 16 * i);
     if st_name s \<noteq> 0
     then do {
       let name = image_text d (strtab + unat (st_name s));
       a \<leftarrow> strcmp (Some name) (Some (''module_init'' @ [NUL]));
       if a = 0 then find_entry_points is syms strtab d (st_value s, cleanup_func)
       else do {
         b \<leftarrow> strcmp (Some name) (Some (''module_cleanup'' @ [NUL]));
         find_entry_points is syms strtab d (init_func, if b = 0 then st_value s else cleanup_func)
       }
     }
     else find_entry_points is syms strtab d (init_func, cleanup_func)
   }"

text \<open>The error exits after line 99: the block at \<open>base\<close> is released.  The result is the value returned, the image,
  the modules and the kernel.\<close>

definition load_error :: "char list \<Rightarrow> va_arg list \<Rightarrow> u32 \<Rightarrow> u8 list \<Rightarrow> modules \<Rightarrow> 'a kern_scheme
    \<Rightarrow> (int \<times> u8 list \<times> modules \<times> 'a kern_scheme) outcome" where
  "load_error msg args base d ms k =
     obind (no_panic (k_printk msg args k)) (\<lambda>k. obind (k_kfree base k) (\<lambda>k. Some (Inr (-1, d, ms, k))))"

definition module_register_loaded :: "(u32 \<Rightarrow> 'a kern_scheme \<Rightarrow> 'a kern_scheme option) \<Rightarrow> char list \<Rightarrow> u32 \<Rightarrow> u32 \<Rightarrow> u32 \<Rightarrow> u32
    \<Rightarrow> u8 list \<Rightarrow> modules \<Rightarrow> 'a kern_scheme \<Rightarrow> (int \<times> u8 list \<times> modules \<times> 'a kern_scheme) outcome" where
  "module_register_loaded call name base total_size init_func cleanup_func d ms k =
     obind (k_kmalloc KMODULE_BYTES k) (\<lambda>(a, k).
     if a = 0 then load_error (''Module: Failed to allocate module structure'' @ [CHR 0x0A]) [] base d ms k
     else obind (no_panic (do {
            nm \<leftarrow> strncpy (replicate 64 NUL) name 63;
            let m = \<lparr>km_name = nm, km_version = 1, km_loaded = 1, km_base_addr = base, km_total_size = total_size,
                     km_init_func = init_func, km_cleanup_func = cleanup_func, km_next = module_list_head ms\<rparr>;
            let ms = ms\<lparr>module_list_head := a, kmods := (kmods ms)(a \<mapsto> m)\<rparr>;
            k \<leftarrow> k_printk (''Module: Loading '' @ CHR 0x27 # ''%s'' @ CHR 0x27 # '' (%u bytes)'' @ [CHR 0x0A])
                   [VA_str (Some name), VA_word total_size] k;
            k \<leftarrow> call init_func k;
            k \<leftarrow> k_printk (''Module: '' @ CHR 0x27 # ''%s'' @ CHR 0x27 # '' loaded successfully'' @ [CHR 0x0A])
                   [VA_str (Some name)] k;
            Some (0, d, ms, k) })) (\<lambda>r. Some (Inr r)))"

text \<open>From line 130 on: symbols, relocations and entry points.\<close>

definition module_link_symbols :: "(string \<Rightarrow> u32) \<Rightarrow> (u32 \<Rightarrow> 'a kern_scheme \<Rightarrow> 'a kern_scheme option) \<Rightarrow> char list \<Rightarrow> u32 \<Rightarrow> u32
    \<Rightarrow> u32 \<Rightarrow> u16 \<Rightarrow> elf32_shdr \<Rightarrow> u8 list \<Rightarrow> modules \<Rightarrow> 'a kern_scheme \<Rightarrow> (int \<times> u8 list \<times> modules \<times> 'a kern_scheme) outcome" where
  "module_link_symbols sym_addr call name base total_size shoff shnum st d ms k =
     obind (no_panic (do {
       strsh \<leftarrow> read_shdr d (shdr_at shoff (unat (sh_link st)));
       let syms = unat (sh_offset st);
       let strtab = unat (sh_offset strsh);
       let sym_count = sh_size st div 16;
       d \<leftarrow> update_symbols [0..<unat sym_count] syms shoff shnum d;
       (missing, d) \<leftarrow> resolve_symbols sym_addr [0..<unat sym_count] syms strtab d;
       Some (syms, strtab, sym_count, missing, d) })) (\<lambda>(syms, strtab, sym_count, missing, d).
     case missing of
       Some nm \<Rightarrow> load_error (''Module: Undefined symbol '' @ CHR 0x27 # ''%s'' @ CHR 0x27 # [CHR 0x0A]) [VA_str (Some nm)] base d ms k
     | None \<Rightarrow>
         obind (no_panic (do {
           k \<leftarrow> relocate_sections [0..<unat shnum] shoff shnum syms sym_count d k;
           fs \<leftarrow> find_entry_points [0..<unat sym_count] syms strtab d (0, 0);
           Some (fs, k) })) (\<lambda>((init_func, cleanup_func), k).
         if init_func = 0 then load_error (''Module: No module_init found'' @ [CHR 0x0A]) [] base d ms k
         else module_register_loaded call name base total_size init_func cleanup_func d ms k))"

text \<open>From line 99 on: the block at \<open>base\<close> is allocated.\<close>

definition module_link :: "(string \<Rightarrow> u32) \<Rightarrow> (u32 \<Rightarrow> 'a kern_scheme \<Rightarrow> 'a kern_scheme option) \<Rightarrow> char list \<Rightarrow> u32 \<Rightarrow> u32
    \<Rightarrow> u8 list \<Rightarrow> modules \<Rightarrow> 'a kern_scheme \<Rightarrow> (int \<times> u8 list \<times> modules \<times> 'a kern_scheme) outcome" where
  "module_link sym_addr call name base total_size d ms k =
     obind (no_panic (do {
       shoff \<leftarrow> e_shoff d; shnum \<leftarrow> e_shnum d;
       (d, m) \<leftarrow> copy_sections [0..<unat shnum] shoff base 0 d (store_fill (unat total_size) base 0 (bytes (k_heap k)));
       symtab \<leftarrow> find_symtab [0..<unat shnum] shoff d;
       Some (shoff, shnum, d, on_bytes (\<lambda>_. m) k, symtab) })) (\<lambda>(shoff, shnum, d, k, symtab).
     case symtab of
       None \<Rightarrow> load_error (''Module: No symbol table found'' @ [CHR 0x0A]) [] base d ms k
     | Some st \<Rightarrow>
         if sh_link st \<ge> ucast shnum then load_error (''Module: No symbol table found'' @ [CHR 0x0A]) [] base d ms k
         else module_link_symbols sym_addr call name base total_size shoff shnum st d ms k)"

definition module_load_binary :: "(string \<Rightarrow> u32) \<Rightarrow> (u32 \<Rightarrow> 'a kern_scheme \<Rightarrow> 'a kern_scheme option) \<Rightarrow> cptr \<Rightarrow> u8 list option
    \<Rightarrow> u32 \<Rightarrow> modules \<Rightarrow> 'a kern_scheme \<Rightarrow> (int \<times> u8 list option \<times> modules \<times> 'a kern_scheme) outcome" where
  "module_load_binary sym_addr call name data sz ms k =
     (case (name, data) of
        (Some nm, Some d) \<Rightarrow>
          if sz = 0 then Some (Inr (-1, data, ms, k))
          else obind (no_panic (find_module nm (kmods ms) (module_list_head ms))) (\<lambda>old.
            if old \<noteq> 0
            then obind (no_panic (k_printk (''Module: '' @ CHR 0x27 # ''%s'' @ CHR 0x27 # '' is already loaded'' @ [CHR 0x0A]) [VA_str name] k))
                   (\<lambda>k. Some (Inr (-1, data, ms, k)))
            else obind (no_panic (module_validate_elf data sz)) (\<lambda>ok.
              if \<not> ok
              then obind (no_panic (k_printk (''Module: Invalid ELF'' @ [CHR 0x0A]) [] k)) (\<lambda>k. Some (Inr (-1, data, ms, k)))
              else obind (no_panic (module_calc_size d)) (\<lambda>t.
                let total_size = (if t = 0 then 1024 else t)
                in obind (k_kmalloc total_size k) (\<lambda>(base, k).
                   if base = 0
                   then obind (no_panic (k_printk (''Module: No memory'' @ [CHR 0x0A]) [] k)) (\<lambda>k. Some (Inr (-1, data, ms, k)))
                   else obind (module_link sym_addr call nm base total_size d ms k)
                          (\<lambda>(r, d, ms, k). Some (Inr (r, Some d, ms, k)))))))
      | _ \<Rightarrow> Some (Inr (-1, data, ms, k)))"

section \<open>Unloading and queries\<close>

text \<open>The search of \<open>module_unload_binary\<close>: predecessor and module, 0 and 0 when the name is not found.\<close>

partial_function (option) find_with_prev :: "char list \<Rightarrow> (u32 \<rightharpoonup> kmodule) \<Rightarrow> u32 \<Rightarrow> u32 \<Rightarrow> (u32 \<times> u32) option" where
  "find_with_prev name mods prev cur =
     (if cur = 0 then Some (prev, 0)
      else do {
        m \<leftarrow> mods cur;
        c \<leftarrow> strcmp (Some (km_name m)) (Some name);
        if c = 0 then Some (prev, cur) else find_with_prev name mods cur (km_next m)
      })"

definition module_unload_binary :: "(u32 \<Rightarrow> 'a kern_scheme \<Rightarrow> 'a kern_scheme option) \<Rightarrow> cptr \<Rightarrow> modules \<Rightarrow> 'a kern_scheme
    \<Rightarrow> (int \<times> modules \<times> 'a kern_scheme) outcome" where
  "module_unload_binary call name ms k =
     (case name of
        None \<Rightarrow> Some (Inr (-1, ms, k))
      | Some nm \<Rightarrow>
          obind (no_panic (find_with_prev nm (kmods ms) 0 (module_list_head ms))) (\<lambda>(prev, cur).
          if cur = 0
          then obind (no_panic (k_printk (''Module: '' @ CHR 0x27 # ''%s'' @ CHR 0x27 # '' not found'' @ [CHR 0x0A]) [VA_str name] k))
                 (\<lambda>k. Some (Inr (-1, ms, k)))
          else obind (no_panic (do {
                 m \<leftarrow> kmods ms cur;
                 k \<leftarrow> (if km_cleanup_func m \<noteq> 0 then call (km_cleanup_func m) k else Some k);
                 k \<leftarrow> k_printk (''Module: Unloading '' @ CHR 0x27 # ''%s'' @ CHR 0x27 # [CHR 0x0A]) [VA_str name] k;
                 ms \<leftarrow> (if prev \<noteq> 0
                       then map_option (\<lambda>p. ms\<lparr>kmods := (kmods ms)(prev \<mapsto> p\<lparr>km_next := km_next m\<rparr>)\<rparr>) (kmods ms prev)
                       else Some (ms\<lparr>module_list_head := km_next m\<rparr>));
                 Some (m, ms, k) })) (\<lambda>(m, ms, k).
               obind (if km_base_addr m \<noteq> 0 then k_kfree (km_base_addr m) k else Some (Inr k)) (\<lambda>k.
               obind (k_kfree cur k) (\<lambda>k. Some (Inr (0, ms\<lparr>kmods := (kmods ms)(cur := None)\<rparr>, k)))))))"

partial_function (option) list_loaded_from :: "(u32 \<rightharpoonup> kmodule) \<Rightarrow> u32 \<Rightarrow> u32 \<Rightarrow> 'a kern_scheme \<Rightarrow> (u32 \<times> 'a kern_scheme) option" where
  "list_loaded_from mods cur count k =
     (if cur = 0 then Some (count, k)
      else do {
        m \<leftarrow> mods cur;
        k \<leftarrow> k_printk (''%-20s %-8u %s'' @ [CHR 0x0A])
               [VA_str (Some (km_name m)), VA_word (km_total_size m),
                VA_str (Some ((if km_loaded m \<noteq> 0 then ''loaded'' else ''unloaded'') @ [NUL]))] k;
        list_loaded_from mods (km_next m) (count + 1) k
      })"

definition module_list_loaded :: "modules \<Rightarrow> 'a kern_scheme \<Rightarrow> 'a kern_scheme option" where
  "module_list_loaded ms k = do {
     k \<leftarrow> k_printk (''NAME                 SIZE     STATUS'' @ [CHR 0x0A]) [] k;
     k \<leftarrow> k_printk (''----                 ----     ------'' @ [CHR 0x0A]) [] k;
     (count, k) \<leftarrow> list_loaded_from (kmods ms) (module_list_head ms) 0 k;
     if count = 0 then k_printk (''(no modules loaded)'' @ [CHR 0x0A]) [] k else Some k
   }"

partial_function (option) loaded_count_from :: "(u32 \<rightharpoonup> kmodule) \<Rightarrow> u32 \<Rightarrow> u32 \<Rightarrow> u32 option" where
  "loaded_count_from mods cur count =
     (if cur = 0 then Some count
      else do {
        m \<leftarrow> mods cur;
        loaded_count_from mods (km_next m) (if km_loaded m \<noteq> 0 then count + 1 else count)
      })"

definition module_get_loaded_count :: "modules \<Rightarrow> u32 option" where
  "module_get_loaded_count ms = loaded_count_from (kmods ms) (module_list_head ms) 0"

definition append_all :: "char list list \<Rightarrow> char list \<Rightarrow> char list option" where
  "append_all ss buf = foldr (\<lambda>s f buf. Option.bind (strcat buf s) f) ss Some buf"

partial_function (option) proc_info_from :: "(u32 \<rightharpoonup> kmodule) \<Rightarrow> u32 \<Rightarrow> u32 \<Rightarrow> char list \<Rightarrow> char list option" where
  "proc_info_from mods max_len cur buf =
     (if cur = 0 then Some buf
      else do {
        n \<leftarrow> strlen_buf buf;
        if of_nat n < max_len - 128
        then do {
          m \<leftarrow> mods cur;
          sz \<leftarrow> utoa (km_total_size m) (replicate 64 NUL) 10;
          ad \<leftarrow> utoa (km_base_addr m) (replicate 64 NUL) 16;
          buf \<leftarrow> append_all [km_name m, '' '' @ [NUL], sz, '' 0 - Live 0x'' @ [NUL], ad, [CHR 0x0A, NUL]] buf;
          proc_info_from mods max_len (km_next m) buf
        }
        else Some buf
      })"

definition module_get_proc_info :: "modules \<Rightarrow> cptr \<Rightarrow> u32 \<Rightarrow> (nat \<times> cptr) option" where
  "module_get_proc_info ms buf max_len =
     (case buf of
        None \<Rightarrow> Some (0, None)
      | Some b \<Rightarrow>
          if max_len = 0 then Some (0, buf)
          else do {
            b \<leftarrow> put_at b 0 NUL;
            b \<leftarrow> proc_info_from (kmods ms) max_len (module_list_head ms) b;
            n \<leftarrow> strlen_buf b;
            Some (n, Some b)
          })"

section \<open>Fields of the image\<close>

lemma rd8_wr32:
  assumes "wr32 d i w = Some d'"
  shows "length d' = length d" and "j < i \<or> i + 4 \<le> j \<Longrightarrow> rd8 d' j = rd8 d j" and "i + 4 \<le> length d"
    and "rd8 d' i = Some (ucast w)" and "rd8 d' (i + 1) = Some (ucast (drop_bit 8 w))"
    and "rd8 d' (i + 2) = Some (ucast (drop_bit 16 w))" and "rd8 d' (i + 3) = Some (ucast (drop_bit 24 w))"
  using assms by (auto simp: wr32_def rd8_def nth_list_update split: if_splits)

lemma join32:
  "(ucast (ucast (ucast w :: u8) OR push_bit 8 (ucast (ucast (drop_bit 8 w) :: u8)) :: u16)
    OR push_bit 16 (ucast (ucast (ucast (drop_bit 16 w) :: u8) OR push_bit 8 (ucast (ucast (drop_bit 24 w) :: u8)) :: u16))) = (w :: u32)"
proof (rule bit_word_eqI)
  fix n assume n: "n < LENGTH(32)"
  consider "n < 16" | k where "n = 16 + k" using le_Suc_ex [of 16 n] by (metis not_less)
  then show "bit (ucast (ucast (ucast w :: u8) OR push_bit 8 (ucast (ucast (drop_bit 8 w) :: u8)) :: u16)
    OR push_bit 16 (ucast (ucast (ucast (drop_bit 16 w) :: u8) OR push_bit 8 (ucast (ucast (drop_bit 24 w) :: u8)) :: u16)) :: u32) n = bit w n"
    by cases (use n in \<open>auto simp: bit_simps\<close>)
qed

lemma rd32_wr32: "wr32 d i w = Some d' \<Longrightarrow> rd32 d' i = Some w"
  using rd8_wr32(4-7) [of d i w d'] join32 [of w] by (simp add: rd32_def rd16_def eval_nat_numeral)

lemma rd16_wr32_other:
  assumes "wr32 d i w = Some d'" and "j + 2 \<le> i \<or> i + 4 \<le> j"
  shows "rd16 d' j = rd16 d j"
proof -
  have "rd8 d' j = rd8 d j" "rd8 d' (j + 1) = rd8 d (j + 1)" using assms(2) by (auto intro!: rd8_wr32(2) [OF assms(1)])
  then show ?thesis by (simp add: rd16_def)
qed

lemma rd32_wr32_other:
  assumes "wr32 d i w = Some d'" and "j + 4 \<le> i \<or> i + 4 \<le> j"
  shows "rd32 d' j = rd32 d j"
proof -
  have "rd16 d' j = rd16 d j" "rd16 d' (j + 2) = rd16 d (j + 2)" using assms(2) by (auto intro!: rd16_wr32_other [OF assms(1)])
  then show ?thesis by (simp add: rd32_def)
qed

lemma rd32_in_range: "wr32 d i w = Some d' \<Longrightarrow> \<exists>v. rd32 d i = Some v"
  using rd8_wr32(3) [of d i w d'] by (simp add: rd32_def rd16_def rd8_def)

lemma read_shdr_other:
  assumes "wr32 d i w = Some d'" and "p + 40 \<le> i \<or> i + 4 \<le> p"
  shows "read_shdr d' p = read_shdr d p"
proof -
  have "rd32 d' (p + q) = rd32 d (p + q)" if "q \<le> 36" for q using that assms(2) by (intro rd32_wr32_other [OF assms(1)]) auto
  then show ?thesis by (simp add: read_shdr_def)
qed

lemma read_shdr_addr:
  assumes "wr32 d (p + 12) w = Some d'"
  shows "read_shdr d' p = map_option (\<lambda>sh. sh\<lparr>sh_addr := w\<rparr>) (read_shdr d p)"
proof -
  have o: "rd32 d' (p + 4) = rd32 d (p + 4)" "rd32 d' (p + 8) = rd32 d (p + 8)" "rd32 d' (p + 16) = rd32 d (p + 16)"
    "rd32 d' (p + 20) = rd32 d (p + 20)" "rd32 d' (p + 24) = rd32 d (p + 24)" "rd32 d' (p + 28) = rd32 d (p + 28)"
    by (auto intro!: rd32_wr32_other [OF assms])
  obtain v where "rd32 d (p + 12) = Some v" using rd32_in_range [OF assms] by blast
  then show ?thesis
    unfolding read_shdr_def o rd32_wr32 [OF assms]
    by (cases "rd32 d (p + 4)"; cases "rd32 d (p + 8)"; cases "rd32 d (p + 16)"; cases "rd32 d (p + 20)";
        cases "rd32 d (p + 24)"; cases "rd32 d (p + 28)"; simp)
qed

lemma read_sym_other:
  assumes "wr32 d i w = Some d'" and "p + 16 \<le> i \<or> i + 4 \<le> p"
  shows "read_sym d' p = read_sym d p"
proof -
  have "rd32 d' p = rd32 d p" "rd32 d' (p + 4) = rd32 d (p + 4)" "rd16 d' (p + 14) = rd16 d (p + 14)"
    using assms(2) by (auto intro!: rd32_wr32_other [OF assms(1)] rd16_wr32_other [OF assms(1)])
  then show ?thesis by (simp add: read_sym_def)
qed

lemma read_sym_value:
  assumes "wr32 d (p + 4) w = Some d'"
  shows "read_sym d' p = map_option (\<lambda>s. s\<lparr>st_value := w\<rparr>) (read_sym d p)"
proof -
  have o: "rd32 d' p = rd32 d p" "rd16 d' (p + 14) = rd16 d (p + 14)"
    by (auto intro!: rd32_wr32_other [OF assms] rd16_wr32_other [OF assms])
  obtain v where "rd32 d (p + 4) = Some v" using rd32_in_range [OF assms] by blast
  then show ?thesis
    unfolding read_sym_def o rd32_wr32 [OF assms] by (cases "rd32 d p"; cases "rd16 d (p + 14)"; simp)
qed

lemma shdr_at_apart: "i < j \<Longrightarrow> shdr_at shoff i + 40 \<le> shdr_at shoff j"
  by (simp add: shdr_at_def)

section \<open>The layout of the sections\<close>

definition alloc_size :: "elf32_shdr \<Rightarrow> nat" where
  "alloc_size sh = (if sh_flags sh AND SHF_ALLOC \<noteq> 0 then 4 * ((unat (sh_size sh) + 3) div 4) else 0)"

lemma unat_align4: "unat n + 3 < 2 ^ 32 \<Longrightarrow> unat (align4 n) = 4 * ((unat n + 3) div 4)"
proof -
  assume "unat n + 3 < 2 ^ 32"
  then have "unat (n + 3) = unat n + 3" using unat_add_small [of n 3] by simp
  moreover have "align4 n = push_bit 2 (drop_bit 2 (n + 3))"
  proof -
    have m: "(3 :: u32) = mask 2" by (simp add: mask_eq_exp_minus_1)
    have "w AND NOT (mask 2) = push_bit 2 (drop_bit 2 w)" for w :: u32
    proof (rule bit_word_eqI)
      fix i assume "i < LENGTH(32)"
      show "bit (w AND NOT (mask 2)) i = bit (push_bit 2 (drop_bit 2 w)) i"
      proof (cases "i < 2")
        case False
        then obtain j where "i = 2 + j" using le_Suc_ex [of 2 i] by auto
        then show ?thesis using \<open>i < LENGTH(32)\<close> by (auto simp: bit_simps)
      qed (auto simp: bit_simps)
    qed
    then show ?thesis by (simp add: align4_def flip: m)
  qed
  moreover have "unat (push_bit 2 (drop_bit 2 w)) = 4 * (unat w div 4)" for w :: u32
  proof -
    have "4 * (unat w div 4) < 2 ^ 32" using unsigned_less [of w, where 'a = nat] by simp
    then show ?thesis
      by (simp add: push_bit_eq_mult drop_bit_eq_div unat_word_ariths unat_div)
  qed
  ultimately show ?thesis by simp
qed

lemma store_put_eq:
  "unat a + length bs \<le> 2 ^ 32 \<Longrightarrow>
   store_put a bs m p = (if unat a \<le> unat p \<and> unat p < unat a + length bs then bs ! (unat p - unat a) else m p)"
proof (induction bs arbitrary: a m)
  case (Cons b bs)
  show ?case
  proof (cases "bs = []")
    case True
    then show ?thesis by (auto simp: word_eq_unat_iff)
  next
    case False
    then have "unat (a + 1) = unat a + 1" using Cons.prems unat_add_small [of a 1] by (cases bs) auto
    then show ?thesis using Cons.IH [of "a + 1"] Cons.prems by (auto simp: word_eq_unat_iff nth_Cons')
  qed
qed auto

lemma store_fill_eq:
  "unat a + n \<le> 2 ^ 32 \<Longrightarrow>
   store_fill n a c m p = (if unat a \<le> unat p \<and> unat p < unat a + n then c else m p)"
proof (induction n arbitrary: a m)
  case (Suc n)
  show ?case
  proof (cases "n = 0")
    case True
    then show ?thesis by (auto simp: word_eq_unat_iff)
  next
    case False
    then have "unat (a + 1) = unat a + 1" using Suc.prems unat_add_small [of a 1] by (cases n) auto
    then show ?thesis using Suc.IH [of "a + 1"] Suc.prems by (auto simp: word_eq_unat_iff)
  qed
qed auto

text \<open>The headers of an image, and the offset of a section in the block.\<close>

definition has_shdrs :: "u8 list \<Rightarrow> u32 \<Rightarrow> elf32_shdr list \<Rightarrow> bool" where
  "has_shdrs d shoff shs \<longleftrightarrow> (\<forall>i < length shs. read_shdr d (shdr_at shoff i) = Some (shs ! i))"

definition section_offset :: "elf32_shdr list \<Rightarrow> nat \<Rightarrow> nat" where
  "section_offset shs i = sum_list (map alloc_size (take i shs))"

abbreviation is_alloc :: "elf32_shdr \<Rightarrow> bool" where
  "is_alloc sh \<equiv> sh_flags sh AND SHF_ALLOC \<noteq> 0"

lemma section_offset_Suc: "i < length shs \<Longrightarrow> section_offset shs (Suc i) = section_offset shs i + alloc_size (shs ! i)"
  by (simp add: section_offset_def take_Suc_conv_app_nth)

lemma section_offset_mono: "i \<le> j \<Longrightarrow> j \<le> length shs \<Longrightarrow> section_offset shs i \<le> section_offset shs j"
  by (induction j rule: dec_induct) (auto simp: section_offset_Suc)

lemma alloc_size_align:
  assumes "is_alloc sh" and "alloc_size sh < 2 ^ 32"
  shows "unat (align4 (sh_size sh)) = alloc_size sh" and "unat (sh_size sh) \<le> alloc_size sh"
  using assms unat_align4 [of "sh_size sh"] by (auto simp: alloc_size_def)

lemma calc_size_eq:
  assumes "has_shdrs d shoff shs" and "i \<le> length shs" and "section_offset shs (length shs) < 2 ^ 32"
    and "tot = of_nat (section_offset shs i)"
  shows "calc_size_from [i..<length shs] d shoff tot = Some (of_nat (section_offset shs (length shs)))"
  using assms(2,4)
proof (induction "length shs - i" arbitrary: i tot)
  case (Suc k)
  then have i: "i < length shs" by simp
  have sz: "alloc_size (shs ! i) < 2 ^ 32"
    using section_offset_Suc [OF i] section_offset_mono [of "Suc i" "length shs" shs] i assms(3) by simp
  have "(if is_alloc (shs ! i) then tot + align4 (sh_size (shs ! i)) else tot) = of_nat (section_offset shs (Suc i))"
  proof (cases "is_alloc (shs ! i)")
    case True
    have "align4 (sh_size (shs ! i)) = of_nat (alloc_size (shs ! i))"
      using alloc_size_align(1) [OF True sz] by (metis of_nat_unat ucast_id)
    then show ?thesis using True Suc.prems(2) by (simp add: section_offset_Suc [OF i])
  next
    case False
    then show ?thesis using Suc.prems(2) by (simp add: section_offset_Suc [OF i] alloc_size_def)
  qed
  moreover have "read_shdr d (shdr_at shoff i) = Some (shs ! i)" using assms(1) i by (simp add: has_shdrs_def)
  ultimately show ?case using Suc.hyps(1) [of "Suc i"] Suc.hyps(2) i by (simp add: upt_conv_Cons)
qed simp

text \<open>What the sections must satisfy: contents inside the image and apart from the headers.\<close>

definition contents_ok :: "u8 list \<Rightarrow> u32 \<Rightarrow> elf32_shdr list \<Rightarrow> bool" where
  "contents_ok d shoff shs \<longleftrightarrow> (\<forall>sh \<in> set shs. is_alloc sh \<and> sh_type sh \<noteq> SHT_NOBITS \<longrightarrow>
     unat (sh_offset sh) + unat (sh_size sh) \<le> length d
     \<and> (unat (sh_offset sh) + unat (sh_size sh) \<le> unat shoff \<or> shdr_at shoff (length shs) \<le> unat (sh_offset sh)))"

definition placed :: "u32 \<Rightarrow> elf32_shdr list \<Rightarrow> nat \<Rightarrow> elf32_shdr" where
  "placed base shs j = (if is_alloc (shs ! j) then (shs ! j)\<lparr>sh_addr := base + of_nat (section_offset shs j)\<rparr> else shs ! j)"

definition section_byte :: "u8 list \<Rightarrow> elf32_shdr \<Rightarrow> nat \<Rightarrow> u8" where
  "section_byte d sh t = (if sh_type sh = SHT_NOBITS then 0 else d ! (unat (sh_offset sh) + t))"

text \<open>The state after the sections from \<open>i\<close> on are copied.\<close>

definition copied :: "u32 \<Rightarrow> u32 \<Rightarrow> elf32_shdr list \<Rightarrow> nat \<Rightarrow> u8 list \<Rightarrow> (u32 \<Rightarrow> u8) \<Rightarrow> u8 list \<Rightarrow> (u32 \<Rightarrow> u8) \<Rightarrow> bool" where
  "copied base shoff shs i d m d' m' \<longleftrightarrow> length d' = length d
    \<and> (\<forall>x. x < unat shoff \<or> shdr_at shoff (length shs) \<le> x \<longrightarrow> d' ! x = d ! x)
    \<and> (\<forall>j < i. read_shdr d' (shdr_at shoff j) = read_shdr d (shdr_at shoff j))
    \<and> (\<forall>j < length shs. i \<le> j \<longrightarrow> read_shdr d' (shdr_at shoff j) = Some (placed base shs j))
    \<and> (\<forall>p. unat p < unat base + section_offset shs i \<or> unat base + section_offset shs (length shs) \<le> unat p \<longrightarrow> m' p = m p)
    \<and> (\<forall>j < length shs. i \<le> j \<and> is_alloc (shs ! j) \<longrightarrow> (\<forall>t < unat (sh_size (shs ! j)).
         m' (base + of_nat (section_offset shs j + t)) = section_byte d (shs ! j) t))"

lemma copied_skip:
  assumes "copied base shoff shs (Suc i) d m d' m'" and "i < length shs" and "\<not> is_alloc (shs ! i)"
    and "read_shdr d (shdr_at shoff i) = Some (shs ! i)"
  shows "copied base shoff shs i d m d' m'"
proof -
  have o: "section_offset shs (Suc i) = section_offset shs i" using section_offset_Suc [OF assms(2)] assms(3) by (simp add: alloc_size_def)
  have p: "placed base shs i = shs ! i" using assms(3) by (simp add: placed_def)
  note c = assms(1) [unfolded copied_def o]
  show ?thesis
    unfolding copied_def
  proof (intro conjI)
    show "\<forall>j<length shs. i \<le> j \<longrightarrow> read_shdr d' (shdr_at shoff j) = Some (placed base shs j)"
    proof (intro allI impI)
      fix j assume "j < length shs" "i \<le> j"
      then show "read_shdr d' (shdr_at shoff j) = Some (placed base shs j)" using c p assms(4) by (cases "j = i") auto
    qed
    show "\<forall>j<length shs. i \<le> j \<and> is_alloc (shs ! j) \<longrightarrow> (\<forall>t < unat (sh_size (shs ! j)).
         m' (base + of_nat (section_offset shs j + t)) = section_byte d (shs ! j) t)"
    proof (intro allI impI)
      fix j t assume "j < length shs" "i \<le> j \<and> is_alloc (shs ! j)" "t < unat (sh_size (shs ! j))"
      then show "m' (base + of_nat (section_offset shs j + t)) = section_byte d (shs ! j) t" using c assms(3) by (cases "j = i") auto
    qed
  qed (use c in auto)
qed

lemma read_shdr_len: "read_shdr d p = Some sh \<Longrightarrow> p + 32 \<le> length d"
  by (auto simp: read_shdr_def rd32_def rd16_def rd8_def bind_eq_Some_conv split: if_splits)

lemma wr32_nth:
  assumes "wr32 d i w = Some d'" and "x < i \<or> i + 4 \<le> x"
  shows "d' ! x = d ! x"
  using assms by (auto simp: wr32_def nth_list_update split: if_splits)

lemma section_byte_same:
  assumes "contents_ok d shoff shs" and "sh \<in> set shs" and "is_alloc sh" and "t < unat (sh_size sh)"
    and "\<And>x. x < unat shoff \<or> shdr_at shoff (length shs) \<le> x \<Longrightarrow> d' ! x = d ! x"
  shows "section_byte d' sh t = section_byte d sh t"
proof (cases "sh_type sh = SHT_NOBITS")
  case False
  then have "unat (sh_offset sh) + t < unat shoff \<or> shdr_at shoff (length shs) \<le> unat (sh_offset sh) + t"
    using assms(1-4) by (fastforce simp: contents_ok_def)
  then show ?thesis using assms(5) by (simp add: section_byte_def)
qed (simp add: section_byte_def)

text \<open>One section.\<close>

lemma copy_section_step:
  assumes con: "contents_ok d shoff shs" and mem: "sh \<in> set shs" "is_alloc sh" and len: "length d1 = length d"
    and fits: "0 < unat (sh_size sh) \<longrightarrow> unat a + unat (sh_size sh) \<le> 2 ^ 32"
  shows "\<exists>m1. (if sh_type sh = SHT_NOBITS then Some (store_fill (unat (sh_size sh)) a 0 m)
          else if sh_size sh > 0
          then if unat (sh_offset sh) + unat (sh_size sh) \<le> length d1
               then Some (store_put a (take (unat (sh_size sh)) (drop (unat (sh_offset sh)) d1)) m) else None
          else Some m) = Some m1
    \<and> (\<forall>p. m1 p = (if unat a \<le> unat p \<and> unat p < unat a + unat (sh_size sh) then section_byte d1 sh (unat p - unat a) else m p))"
proof (cases "sh_size sh = 0")
  case True
  then show ?thesis by (intro exI [of _ m]) auto
next
  case False
  then have sz: "0 < unat (sh_size sh)" "0 < sh_size sh" by (simp_all add: unat_gt_0 word_gt_0)
  show ?thesis
  proof (cases "sh_type sh = SHT_NOBITS")
    case True
    then show ?thesis using store_fill_eq [of a "unat (sh_size sh)" 0 m] fits sz by (auto simp: section_byte_def)
  next
    case F: False
    then have off: "unat (sh_offset sh) + unat (sh_size sh) \<le> length d1" using con mem len by (auto simp: contents_ok_def)
    let ?bs = "take (unat (sh_size sh)) (drop (unat (sh_offset sh)) d1)"
    have "length ?bs = unat (sh_size sh)" using off by simp
    then show ?thesis using store_put_eq [of a ?bs m] fits sz off F by (auto simp: section_byte_def)
  qed
qed

lemma copied_step:
  assumes i: "i < length shs" and al0: "is_alloc (shs ! i)" and con: "contents_ok d shoff shs"
    and fits: "unat base + section_offset shs (length shs) \<le> 2 ^ 32" and b0: "base \<noteq> 0" and len: "length d1 = length d"
    and same: "\<And>x. x < unat shoff \<or> shdr_at shoff (length shs) \<le> x \<Longrightarrow> d1 ! x = d ! x"
    and hd1: "\<And>j. j \<noteq> i \<Longrightarrow> read_shdr d1 (shdr_at shoff j) = read_shdr d (shdr_at shoff j)"
    and hdi: "read_shdr d1 (shdr_at shoff i) = Some (placed base shs i)"
    and ua: "0 < unat (sh_size (shs ! i)) \<Longrightarrow> unat a = unat base + section_offset shs i"
    and m1: "\<And>p. m1 p = (if unat a \<le> unat p \<and> unat p < unat a + unat (sh_size (shs ! i))
         then section_byte d1 (shs ! i) (unat p - unat a) else m p)"
    and rest: "copied base shoff shs (Suc i) d1 m1 d' m'"
  shows "copied base shoff shs i d m d' m'"
proof -
  let ?n = "length shs" and ?sh = "shs ! i" and ?o = "section_offset shs"
  have le: "?o (Suc i) \<le> ?o ?n" using section_offset_mono [of "Suc i" ?n shs] i by simp
  have os: "?o (Suc i) = ?o i + alloc_size ?sh" by (rule section_offset_Suc [OF i])
  have o32: "?o ?n < 2 ^ 32" using fits b0 by (simp add: unat_gt_0 [symmetric])
  have sz: "alloc_size ?sh < 2 ^ 32" using os le o32 by simp
  note al = alloc_size_align [OF al0 sz]
  note c = rest [unfolded copied_def]
  show ?thesis
    unfolding copied_def
  proof (intro conjI)
    show "\<forall>j < ?n. i \<le> j \<longrightarrow> read_shdr d' (shdr_at shoff j) = Some (placed base shs j)"
    proof (intro allI impI)
      fix j assume "j < ?n" "i \<le> j"
      then show "read_shdr d' (shdr_at shoff j) = Some (placed base shs j)" using c hdi by (cases "j = i") auto
    qed
    show "\<forall>j < i. read_shdr d' (shdr_at shoff j) = read_shdr d (shdr_at shoff j)" using c hd1 by auto
    show "\<forall>p. unat p < unat base + ?o i \<or> unat base + ?o ?n \<le> unat p \<longrightarrow> m' p = m p"
    proof (intro allI impI)
      fix p :: u32 assume p: "unat p < unat base + ?o i \<or> unat base + ?o ?n \<le> unat p"
      then have "m' p = m1 p" using c os by auto
      moreover have "m1 p = m p"
      proof (cases "unat (sh_size ?sh) = 0")
        case F: False
        then have "\<not> (unat a \<le> unat p \<and> unat p < unat a + unat (sh_size ?sh))"
          using p ua al(2) os le by auto
        then show ?thesis using m1 [of p] by auto
      qed (use m1 [of p] in auto)
      ultimately show "m' p = m p" by simp
    qed
    show "\<forall>j < ?n. i \<le> j \<and> is_alloc (shs ! j) \<longrightarrow> (\<forall>t < unat (sh_size (shs ! j)).
       m' (base + of_nat (?o j + t)) = section_byte d (shs ! j) t)"
    proof (intro allI impI)
      fix j t assume j: "j < ?n" "i \<le> j \<and> is_alloc (shs ! j)" "t < unat (sh_size (shs ! j))"
      have sb: "section_byte d1 (shs ! j) t = section_byte d (shs ! j) t"
        using section_byte_same [OF con nth_mem [OF j(1)] _ j(3) same] j(2) by blast
      show "m' (base + of_nat (?o j + t)) = section_byte d (shs ! j) t"
      proof (cases "j = i")
        case J: True
        have bound: "?o i + t < 2 ^ 32" using j(3) J al(2) os le o32 by simp
        then have "unat (of_nat (?o i + t) :: u32) = ?o i + t" by (intro unat_of_nat_small) simp
        moreover have "unat base + (?o i + t) < 2 ^ 32" using j(3) J al(2) os le fits by simp
        ultimately have up: "unat (base + of_nat (?o i + t)) = unat base + (?o i + t)"
          using unat_add_small [of base "of_nat (?o i + t)"] by simp
        have "m' (base + of_nat (?o i + t)) = m1 (base + of_nat (?o i + t))"
          using c up j(3) J al(2) os by auto
        also have "\<dots> = section_byte d1 ?sh t" using m1 [of "base + of_nat (?o i + t)"] up ua j(3) J by auto
        finally show ?thesis using sb J by simp
      next
        case J: False
        then show ?thesis using c j sb by auto
      qed
    qed
  qed (use c len same in auto)
qed

lemma copy_sections_ok:
  assumes "i \<le> length shs" and "\<And>j. i \<le> j \<Longrightarrow> j < length shs \<Longrightarrow> read_shdr d (shdr_at shoff j) = Some (shs ! j)"
    and "contents_ok d shoff shs" and fits: "unat base + section_offset shs (length shs) \<le> 2 ^ 32" and "base \<noteq> 0"
    and "cur = of_nat (section_offset shs i)"
  shows "\<exists>d' m'. copy_sections [i..<length shs] shoff base cur d m = Some (d', m') \<and> copied base shoff shs i d m d' m'"
  using assms(1-3,6)
proof (induction "length shs - i" arbitrary: i d m cur)
  case 0
  then show ?case by (auto simp: copied_def)
next
  case (Suc k)
  let ?n = "length shs" and ?sh = "shs ! i" and ?o = "section_offset shs"
  have i: "i < ?n" "?sh \<in> set shs" using Suc.hyps(2) by simp_all
  have rd: "read_shdr d (shdr_at shoff i) = Some ?sh" using Suc.prems(2) i by simp
  have le: "?o (Suc i) \<le> ?o ?n" using section_offset_mono [of "Suc i" ?n shs] i by simp
  have os: "?o (Suc i) = ?o i + alloc_size ?sh" by (rule section_offset_Suc [OF i(1)])
  have b0: "0 < unat base" using \<open>base \<noteq> 0\<close> by (simp add: unat_gt_0)
  have o32: "?o ?n < 2 ^ 32" using fits b0 by simp
  show ?case
  proof (cases "is_alloc ?sh")
    case False
    have "?o (Suc i) = ?o i" using os False by (simp add: alloc_size_def)
    moreover have "k = ?n - Suc i" "Suc i \<le> ?n" using Suc.hyps(2) by simp_all
    ultimately obtain d' m' where "copy_sections [Suc i..<?n] shoff base cur d m = Some (d', m')" "copied base shoff shs (Suc i) d m d' m'"
      using Suc.hyps(1) [of "Suc i" d cur m] Suc.prems(2,3,4) by (metis Suc_leD)
    then show ?thesis using copied_skip [OF _ i(1) False rd] rd False i(1) by (simp add: upt_conv_Cons)
  next
    case True
    have sz: "alloc_size ?sh < 2 ^ 32" using os le o32 by simp
    note al = alloc_size_align [OF True sz]
    have "shdr_at shoff i + 12 + 4 \<le> length d" using read_shdr_len [OF rd] by simp
    then obtain d1 where d1: "wr32 d (shdr_at shoff i + 12) (base + cur) = Some d1" by (auto simp: wr32_def)
    have len: "length d1 = length d" using rd8_wr32(1) [OF d1] .
    have same: "d1 ! x = d ! x" if "x < unat shoff \<or> shdr_at shoff ?n \<le> x" for x
      using that i(1) shdr_at_apart [of i ?n shoff] by (intro wr32_nth [OF d1]) (auto simp: shdr_at_def)
    have hd1: "read_shdr d1 (shdr_at shoff j) = read_shdr d (shdr_at shoff j)" if "j \<noteq> i" for j
      using that shdr_at_apart [of i j shoff] shdr_at_apart [of j i shoff] by (intro read_shdr_other [OF d1]) linarith
    have hdi: "read_shdr d1 (shdr_at shoff i) = Some (placed base shs i)"
      using read_shdr_addr [OF d1] rd True Suc.prems(4) by (simp add: placed_def)
    have uo: "unat (of_nat (?o i) :: u32) = ?o i" using os le o32 by (intro unat_of_nat_small) simp
    have ua: "unat (base + cur) = unat base + ?o i" if "0 < unat (sh_size ?sh)"
      using that al(2) os le fits uo Suc.prems(4) unat_add_small [of base cur] by simp
    obtain m1 where m1: "(if sh_type ?sh = SHT_NOBITS then Some (store_fill (unat (sh_size ?sh)) (base + cur) 0 m)
          else if sh_size ?sh > 0
          then if unat (sh_offset ?sh) + unat (sh_size ?sh) \<le> length d1
               then Some (store_put (base + cur) (take (unat (sh_size ?sh)) (drop (unat (sh_offset ?sh)) d1)) m) else None
          else Some m) = Some m1"
      "\<And>p. m1 p = (if unat (base + cur) \<le> unat p \<and> unat p < unat (base + cur) + unat (sh_size ?sh)
         then section_byte d1 ?sh (unat p - unat (base + cur)) else m p)"
      using copy_section_step [OF Suc.prems(3) i(2) True len, of "base + cur" m] ua al(2) os le fits by fastforce
    have con1: "contents_ok d1 shoff shs" using Suc.prems(3) len by (simp add: contents_ok_def)
    have cur1: "cur + align4 (sh_size ?sh) = of_nat (?o (Suc i))"
      using al(1) Suc.prems(4) os by (metis of_nat_add of_nat_unat ucast_id)
    have "read_shdr d1 (shdr_at shoff j) = Some (shs ! j)" if "Suc i \<le> j" "j < ?n" for j
      using hd1 [of j] Suc.prems(2) [of j] that by simp
    then obtain d' m' where d': "copy_sections [Suc i..<?n] shoff base (cur + align4 (sh_size ?sh)) d1 m1 = Some (d', m')"
      "copied base shoff shs (Suc i) d1 m1 d' m'"
      using Suc.hyps(1) [of "Suc i" d1 "cur + align4 (sh_size ?sh)" m1, OF _ _ _ con1 cur1] Suc.hyps(2) by fastforce
    have run: "copy_sections [i..<?n] shoff base cur d m = Some (d', m')"
      using i(1) rd True d1 m1(1) d'(1) by (simp add: upt_conv_Cons)
    have "copied base shoff shs i d m d' m'"
      using copied_step [OF i(1) True Suc.prems(3) fits \<open>base \<noteq> 0\<close> len same hd1 hdi ua m1(2) d'(2)] by simp
    with run show ?thesis by blast
  qed
qed

text \<open>The loader computes the size of the block without error, writes nothing outside it, gives every
  allocated section the address of its own part of the block, and puts its bytes, or zeros, there.\<close>

theorem module_layout_correct:
  assumes "e_shoff d = Some shoff" and "e_shnum d = Some (of_nat (length shs))" and "length shs < 2 ^ 16"
    and "has_shdrs d shoff shs" and "contents_ok d shoff shs"
    and "section_offset shs (length shs) < 2 ^ 32" and "base \<noteq> 0" and "unat base + section_offset shs (length shs) \<le> 2 ^ 32"
  shows "module_calc_size d = Some (of_nat (section_offset shs (length shs)))
    \<and> (\<exists>d' m'. copy_sections [0..<length shs] shoff base 0 d m = Some (d', m')
        \<and> (\<forall>p. unat p < unat base \<or> unat base + section_offset shs (length shs) \<le> unat p \<longrightarrow> m' p = m p)
        \<and> (\<forall>j < length shs. read_shdr d' (shdr_at shoff j) = Some (placed base shs j)
            \<and> (is_alloc (shs ! j) \<longrightarrow> (\<forall>t < unat (sh_size (shs ! j)).
                 m' (base + of_nat (section_offset shs j + t)) = section_byte d (shs ! j) t))))"
proof -
  have u: "unat (of_nat (length shs) :: u16) = length shs" using assms(3) by (intro unat_of_nat_small) simp
  have s0: "section_offset shs 0 = 0" by (simp add: section_offset_def)
  have "read_shdr d (shdr_at shoff j) = Some (shs ! j)" if "j < length shs" for j
    using assms(4) that by (simp add: has_shdrs_def)
  then obtain d' m' where d': "copy_sections [0..<length shs] shoff base 0 d m = Some (d', m')" "copied base shoff shs 0 d m d' m'"
    using copy_sections_ok [of 0 shs d shoff base 0 m] assms(5-8) s0 by auto
  moreover have "module_calc_size d = Some (of_nat (section_offset shs (length shs)))"
    using calc_size_eq [OF assms(4) _ assms(6), of 0 0] assms(1,2) u s0 by (simp add: module_calc_size_def)
  ultimately show ?thesis using s0 by (intro conjI exI [of _ d'] exI [of _ m']) (auto simp: copied_def)
qed

section \<open>Symbols\<close>

definition linked :: "elf32_shdr list \<Rightarrow> elf32_sym \<Rightarrow> elf32_sym" where
  "linked shs s = (if st_shndx s \<noteq> 0 \<and> unat (st_shndx s) < length shs
     then s\<lparr>st_value := sh_addr (shs ! unat (st_shndx s)) + st_value s\<rparr> else s)"

lemma read_sym_len: "read_sym d p = Some s \<Longrightarrow> p + 16 \<le> length d"
  by (auto simp: read_sym_def rd16_def rd8_def bind_eq_Some_conv split: if_splits)

lemma update_symbols_ok:
  assumes "has_shdrs d shoff shs" and "length shs = unat shnum" and "distinct is"
    and apart: "\<And>i. i \<in> set is \<Longrightarrow> syms + 16 * i + 16 \<le> unat shoff \<or> shdr_at shoff (length shs) \<le> syms + 16 * i"
    and "\<And>i. i \<in> set is \<Longrightarrow> read_sym d (syms + 16 * i) = Some (sy i)"
  shows "\<exists>d'. update_symbols is syms shoff shnum d = Some d' \<and> has_shdrs d' shoff shs
    \<and> (\<forall>i. read_sym d' (syms + 16 * i) = (if i \<in> set is then Some (linked shs (sy i)) else read_sym d (syms + 16 * i)))"
  using assms(1,3-5)
proof (induction "is" arbitrary: d)
  case (Cons i "is")
  have s: "read_sym d (syms + 16 * i) = Some (sy i)" using Cons.prems(4) by simp
  have i: "i \<notin> set is" "distinct is" using Cons.prems(2) by simp_all
  show ?case
  proof (cases "st_shndx (sy i) \<noteq> 0 \<and> st_shndx (sy i) < shnum")
    case False
    then have lk: "linked shs (sy i) = sy i" using assms(2) by (auto simp: linked_def word_less_nat_alt)
    show ?thesis using Cons.IH [of d] Cons.prems s lk False i by (auto split: if_splits)
  next
    case True
    let ?x = "unat (st_shndx (sy i))"
    have x: "?x < length shs" using True assms(2) by (simp add: word_less_nat_alt)
    then have sh: "read_shdr d (shdr_at shoff ?x) = Some (shs ! ?x)" using Cons.prems(1) by (simp add: has_shdrs_def)
    obtain d1 where d1: "wr32 d (syms + 16 * i + 4) (sh_addr (shs ! ?x) + st_value (sy i)) = Some d1"
      using read_sym_len [OF s] by (auto simp: wr32_def)
    have "read_shdr d1 (shdr_at shoff j) = read_shdr d (shdr_at shoff j)" if "j < length shs" for j
      using Cons.prems(3) [of i] that shdr_at_apart [of j "length shs" shoff]
      by (intro read_shdr_other [OF d1]) (auto simp: shdr_at_def)
    then have hs: "has_shdrs d1 shoff shs" using Cons.prems(1) by (simp add: has_shdrs_def)
    have other: "read_sym d1 (syms + 16 * j) = read_sym d (syms + 16 * j)" if "j \<noteq> i" for j
    proof -
      have "syms + 16 * j + 16 \<le> syms + 16 * i + 4 \<or> syms + 16 * i + 4 + 4 \<le> syms + 16 * j" using that by linarith
      then show ?thesis by (rule read_sym_other [OF d1])
    qed
    have own: "read_sym d1 (syms + 16 * i) = Some (linked shs (sy i))"
      using read_sym_value [OF d1] s True x by (simp add: linked_def)
    have "read_sym d1 (syms + 16 * j) = Some (sy j)" if "j \<in> set is" for j
      using other [of j] Cons.prems(4) [of j] that i(1) by auto
    then obtain d' where "update_symbols is syms shoff shnum d1 = Some d'" "has_shdrs d' shoff shs"
      "\<forall>j. read_sym d' (syms + 16 * j) = (if j \<in> set is then Some (linked shs (sy j)) else read_sym d1 (syms + 16 * j))"
      using Cons.IH [OF hs i(2)] Cons.prems(3) by auto
    then show ?thesis using s True sh d1 other own i(1) by auto
  qed
qed auto

text \<open>The values of the symbols defined in sections are the addresses of their sections plus their offsets,
  but the loader keeps them in the image: when the same image is loaded again, to other addresses, the values are off
  by the old addresses.\<close>

theorem module_reload_stale:
  assumes "has_shdrs d shoff shs" and "length shs = unat shnum"
    and "\<forall>i < n. syms + 16 * i + 16 \<le> unat shoff \<or> shdr_at shoff (length shs) \<le> syms + 16 * i"
    and "\<forall>i < n. read_sym d (syms + 16 * i) = Some (sy i)"
    and "has_shdrs d2 shoff shs2" and "length shs2 = length shs"
    and "\<forall>d1. update_symbols [0..<n] syms shoff shnum d = Some d1 \<longrightarrow> (\<forall>i < n. read_sym d2 (syms + 16 * i) = read_sym d1 (syms + 16 * i))"
  shows "\<exists>d1 d3. update_symbols [0..<n] syms shoff shnum d = Some d1 \<and> update_symbols [0..<n] syms shoff shnum d2 = Some d3
    \<and> (\<forall>i < n. st_shndx (sy i) \<noteq> 0 \<and> st_shndx (sy i) < shnum \<longrightarrow>
         map_option st_value (read_sym d1 (syms + 16 * i)) = Some (sh_addr (shs ! unat (st_shndx (sy i))) + st_value (sy i))
       \<and> map_option st_value (read_sym d3 (syms + 16 * i)) = Some (sh_addr (shs2 ! unat (st_shndx (sy i)))
            + (sh_addr (shs ! unat (st_shndx (sy i))) + st_value (sy i))))"
proof -
  obtain d1 where d1: "update_symbols [0..<n] syms shoff shnum d = Some d1"
    "\<And>i. i < n \<Longrightarrow> read_sym d1 (syms + 16 * i) = Some (linked shs (sy i))"
    using update_symbols_ok [OF assms(1,2), of "[0..<n]" syms sy] assms(3,4) by auto
  have "read_sym d2 (syms + 16 * i) = Some (linked shs (sy i))" if "i < n" for i using assms(7) d1 that by simp
  then obtain d3 where d3: "update_symbols [0..<n] syms shoff shnum d2 = Some d3"
    "\<And>i. i < n \<Longrightarrow> read_sym d3 (syms + 16 * i) = Some (linked shs2 (linked shs (sy i)))"
    using update_symbols_ok [OF assms(5), of shnum "[0..<n]" syms "\<lambda>i. linked shs (sy i)"] assms(2,3,6) by auto
  have "st_value (linked shs (sy i)) = sh_addr (shs ! unat (st_shndx (sy i))) + st_value (sy i)"
    "st_value (linked shs2 (linked shs (sy i))) = sh_addr (shs2 ! unat (st_shndx (sy i))) + (sh_addr (shs ! unat (st_shndx (sy i))) + st_value (sy i))"
    if "st_shndx (sy i) \<noteq> 0 \<and> st_shndx (sy i) < shnum" for i
    using that assms(2,6) by (auto simp: linked_def word_less_nat_alt)
  then show ?thesis using d1 d3 by auto
qed

section \<open>Relocation\<close>

definition word_place :: "u32 \<Rightarrow> u32 set" where
  "word_place a = {a, a + 1, a + 2, a + 3}"

lemma put32_eq: "put32 a w m p =
    (if p = a then ucast w else if p = a + 1 then ucast (drop_bit 8 w) else if p = a + 2 then ucast (drop_bit 16 w)
     else if p = a + 3 then ucast (drop_bit 24 w) else m p)"
proof -
  have "[0..<4] = [0, 1, 2, 3 :: nat]" by (simp add: upt_rec)
  then have "le_bytes 4 w = [ucast w, ucast (drop_bit 8 w), ucast (drop_bit 16 w), ucast (drop_bit 24 w)]" by (simp add: le_bytes_def)
  then show ?thesis by (simp add: put32_def add.assoc)
qed

lemma get32_put32: "get32 (put32 a w m) a = w"
proof -
  have "get32 (put32 a w m) a = (ucast (ucast w :: u8) OR push_bit 8 (ucast (ucast (drop_bit 8 w) :: u8))
    OR push_bit 16 (ucast (ucast (drop_bit 16 w) :: u8)) OR push_bit 24 (ucast (ucast (drop_bit 24 w) :: u8)) :: u32)"
    by (simp add: get32_def put32_eq)
  also have "\<dots> = w"
  proof (rule bit_word_eqI)
    fix n assume n: "n < LENGTH(32)"
    consider "n < 16" | k where "n = 16 + k" using le_Suc_ex [of 16 n] by (metis not_less)
    then show "bit (ucast (ucast w :: u8) OR push_bit 8 (ucast (ucast (drop_bit 8 w) :: u8))
      OR push_bit 16 (ucast (ucast (drop_bit 16 w) :: u8)) OR push_bit 24 (ucast (ucast (drop_bit 24 w) :: u8)) :: u32) n = bit w n"
      by cases (use n in \<open>auto simp: bit_simps\<close>)
  qed
  finally show ?thesis .
qed

lemma get32_same: "(\<And>p. p \<in> word_place a \<Longrightarrow> m' p = m p) \<Longrightarrow> get32 m' a = get32 m a"
  by (simp add: get32_def word_place_def)

lemma put32_other: "p \<notin> word_place a \<Longrightarrow> put32 a w m p = m p"
  by (auto simp: put32_eq word_place_def)

definition rel_word :: "u8 \<Rightarrow> u32 \<Rightarrow> u32 \<Rightarrow> u32 \<Rightarrow> u32" where
  "rel_word type S P old = (if type = 1 then old + S else old + (S - P))"

lemma on_bytes_simps [simp]: "bytes (k_heap (on_bytes f k)) = f (bytes (k_heap k))" "on_bytes f (on_bytes g k) = on_bytes (\<lambda>m. f (g m)) k"
  by (simp_all add: on_bytes_def)

lemma on_bytes_id: "on_bytes (\<lambda>m. m) k = k"
  by (simp add: on_bytes_def)

lemma apply_rels_ok:
  assumes "distinct rs"
    and "\<And>r. r \<in> set rs \<Longrightarrow> rd32 d (rels + 8 * r) = Some (off r)"
    and "\<And>r. r \<in> set rs \<Longrightarrow> rd32 d (rels + 8 * r + 4) = Some (info r)"
    and "\<And>r. r \<in> set rs \<Longrightarrow> drop_bit 8 (info r) < sym_count \<and> (ucast (info r) :: u8) \<in> {1, 2}"
    and "\<And>r. r \<in> set rs \<Longrightarrow> read_sym d (syms + 16 * unat (drop_bit 8 (info r))) = Some (sy r)"
    and "\<And>r s. r \<in> set rs \<Longrightarrow> s \<in> set rs \<Longrightarrow> r \<noteq> s \<Longrightarrow> word_place (tb + off r) \<inter> word_place (tb + off s) = {}"
  shows "\<exists>f. apply_rels rs rels tb syms sym_count d k = Some (on_bytes f k)
    \<and> (\<forall>r \<in> set rs. get32 (f (bytes (k_heap k))) (tb + off r)
         = rel_word (ucast (info r)) (st_value (sy r)) (tb + off r) (get32 (bytes (k_heap k)) (tb + off r)))
    \<and> (\<forall>p. (\<forall>r \<in> set rs. p \<notin> word_place (tb + off r)) \<longrightarrow> f (bytes (k_heap k)) p = bytes (k_heap k) p)"
  using assms
proof (induction rs arbitrary: k)
  case Nil
  show ?case by (rule exI [of _ "\<lambda>m. m"]) (simp add: on_bytes_id)
next
  case (Cons r rs)
  let ?P = "tb + off r" and ?m = "bytes (k_heap k)"
  let ?w = "rel_word (ucast (info r)) (st_value (sy r)) ?P (get32 ?m ?P)"
  let ?g = "\<lambda>m. put32 ?P (rel_word (ucast (info r)) (st_value (sy r)) ?P (get32 m ?P)) m"
  let ?k1 = "on_bytes ?g k"
  have one: "apply_rel (ucast (info r)) (st_value (sy r)) ?P k = Some ?k1"
    using Cons.prems(4) [of r] by (auto simp: apply_rel_def rel_word_def)
  have sub: "r' \<in> set rs \<Longrightarrow> r' \<in> set (r # rs)" for r' by simp
  obtain f where f: "apply_rels rs rels tb syms sym_count d ?k1 = Some (on_bytes f ?k1)"
    "\<And>s. s \<in> set rs \<Longrightarrow> get32 (f (?g ?m)) (tb + off s)
         = rel_word (ucast (info s)) (st_value (sy s)) (tb + off s) (get32 (?g ?m) (tb + off s))"
    "\<And>p. (\<forall>s \<in> set rs. p \<notin> word_place (tb + off s)) \<Longrightarrow> f (?g ?m) p = ?g ?m p"
    using Cons.IH [of ?k1] Cons.prems by (auto simp del: word_place_def)
  have run: "apply_rels (r # rs) rels tb syms sym_count d k = Some (on_bytes (\<lambda>m. f (?g m)) k)"
    using Cons.prems(2-5) [of r] one f(1) by (auto simp: Let_def not_le)
  have apart: "word_place ?P \<inter> word_place (tb + off s) = {}" if "s \<in> set rs" for s
    using Cons.prems(1) Cons.prems(6) [of r s] that by auto
  have "get32 (f (?g ?m)) ?P = get32 (?g ?m) ?P"
    using f(3) apart by (intro get32_same) blast
  then have head: "get32 (f (?g ?m)) ?P = ?w" by (simp add: get32_put32)
  have tail: "get32 (?g ?m) (tb + off s) = get32 ?m (tb + off s)" if "s \<in> set rs" for s
    using apart [OF that] by (intro get32_same put32_other) blast
  show ?case
    using run head tail f(2,3) put32_other [of _ ?P] by (intro exI [of _ "\<lambda>m. f (?g m)"]) auto
qed

text \<open>C19: the relocations of a section, of types 32 and PC32 and with places that do not overlap, change each place to
  the sum that the type asks for and no other byte.\<close>

theorem module_relocation_correct:
  assumes "\<forall>r < n. rd32 d (rels + 8 * r) = Some (off r) \<and> rd32 d (rels + 8 * r + 4) = Some (info r)"
    and "\<forall>r < n. drop_bit 8 (info r) < sym_count \<and> (ucast (info r) :: u8) \<in> {1, 2}"
    and "\<forall>r < n. read_sym d (syms + 16 * unat (drop_bit 8 (info r))) = Some (sy r)"
    and "\<forall>r < n. \<forall>s < n. r \<noteq> s \<longrightarrow> word_place (tb + off r) \<inter> word_place (tb + off s) = {}"
  shows "\<exists>k'. apply_rels [0..<n] rels tb syms sym_count d k = Some k'
    \<and> (\<forall>r < n. get32 (bytes (k_heap k')) (tb + off r) = get32 (bytes (k_heap k)) (tb + off r) + st_value (sy r)
         - (if (ucast (info r) :: u8) = 1 then 0 else tb + off r))
    \<and> (\<forall>p. (\<forall>r < n. p \<notin> word_place (tb + off r)) \<longrightarrow> bytes (k_heap k') p = bytes (k_heap k) p)"
proof -
  obtain f where f: "apply_rels [0..<n] rels tb syms sym_count d k = Some (on_bytes f k)"
    "\<forall>r \<in> set [0..<n]. get32 (f (bytes (k_heap k))) (tb + off r)
         = rel_word (ucast (info r)) (st_value (sy r)) (tb + off r) (get32 (bytes (k_heap k)) (tb + off r))"
    "\<forall>p. (\<forall>r \<in> set [0..<n]. p \<notin> word_place (tb + off r)) \<longrightarrow> f (bytes (k_heap k)) p = bytes (k_heap k) p"
    using apply_rels_ok [of "[0..<n]" d rels off info sym_count syms sy tb k] assms by auto
  then show ?thesis by (intro exI [of _ "on_bytes f k"]) (auto simp: rel_word_def)
qed

section \<open>Exported symbols\<close>

lemma kernel_symbol_names_no_NUL: "n \<in> set kernel_symbol_names \<Longrightarrow> NUL \<notin> set n"
  by (auto simp: kernel_symbol_names_def)

lemma resolve_from_eq:
  "NUL \<in> set b \<Longrightarrow> (\<And>n. n \<in> set ns \<Longrightarrow> NUL \<notin> set n) \<Longrightarrow>
   resolve_from sym_addr b ns = Some (if cstr b \<in> set ns then Some (sym_addr (cstr b)) else None)"
proof (induction ns)
  case (Cons n ns)
  have "strcmp_buf b (n @ [NUL]) \<noteq> None" using strcmp_buf_defined [of b "n @ [NUL]"] Cons.prems(1) by simp
  then obtain c where c: "strcmp_buf b (n @ [NUL]) = Some c" by blast
  have "cstr (n @ [NUL]) = n" using Cons.prems(2) [of n] cstr_append_NUL [of n "[]"] by simp
  then have "c = 0 \<longleftrightarrow> cstr b = n" using strcmp_buf_0_iff [of b "n @ [NUL]"] c Cons.prems(1) by auto
  then show ?case using Cons c by (auto simp: strcmp_def)
qed simp

text \<open>A name resolves to the address of the exported function of that name, and to nothing when the kernel does
  not export it.\<close>

theorem module_resolve_symbol_correct:
  assumes "NUL \<in> set b"
  shows "module_resolve_symbol sym_addr (Some b)
    = Some (if cstr b \<in> set kernel_symbol_names then Some (sym_addr (cstr b)) else None)"
  using resolve_from_eq [OF assms, of kernel_symbol_names sym_addr] kernel_symbol_names_no_NUL
  by (simp add: module_resolve_symbol_def)

section \<open>The list of modules\<close>

lemma load_error_result: "load_error msg args b d ms k = Some (Inr (r, d', ms', k')) \<Longrightarrow> r = -1 \<and> ms' = ms"
  by (auto simp: load_error_def obind_Some_Inr)

definition registered :: "char list \<Rightarrow> modules \<Rightarrow> modules \<Rightarrow> bool" where
  "registered name ms ms' \<longleftrightarrow> (\<exists>a m. a \<noteq> 0 \<and> ms' = ms\<lparr>module_list_head := a, kmods := (kmods ms)(a \<mapsto> m)\<rparr>
     \<and> strncpy (replicate 64 NUL) name 63 = Some (km_name m) \<and> km_next m = module_list_head ms \<and> km_init_func m \<noteq> 0
     \<and> km_loaded m = 1 \<and> km_base_addr m \<noteq> 0)"

lemma no_panic_Some_Inr: "no_panic m = Some (Inr a) \<longleftrightarrow> m = Some a"
  by (auto simp: no_panic_def)

lemma module_register_loaded_result:
  assumes "module_register_loaded call name b t i c d ms k = Some (Inr (r, d', ms', k'))" and "i \<noteq> 0" and "b \<noteq> 0"
  shows "r = -1 \<and> ms' = ms \<or> r = 0 \<and> registered name ms ms'"
proof -
  obtain a k1 where a: "k_kmalloc KMODULE_BYTES k = Some (Inr (a, k1))"
    using assms(1) by (auto simp: module_register_loaded_def obind_Some_Inr)
  show ?thesis
  proof (cases "a = 0")
    case True
    then have "load_error (''Module: Failed to allocate module structure'' @ [CHR 0x0A]) [] b d ms k1 = Some (Inr (r, d', ms', k'))"
      using assms(1) a by (simp add: module_register_loaded_def)
    from load_error_result [OF this] show ?thesis by simp
  next
    case False
    then obtain nm where nm: "strncpy (replicate 64 NUL) name 63 = Some nm" "r = 0"
      "ms' = ms\<lparr>module_list_head := a, kmods := (kmods ms)(a \<mapsto> \<lparr>km_name = nm, km_version = 1, km_loaded = 1, km_base_addr = b,
         km_total_size = t, km_init_func = i, km_cleanup_func = c, km_next = module_list_head ms\<rparr>)\<rparr>"
      using assms(1) a by (auto simp: module_register_loaded_def obind_Some_Inr no_panic_Some_Inr bind_eq_Some_conv Let_def)
    then show ?thesis using False assms(2,3) unfolding registered_def
      by (intro disjI2 conjI exI [of _ a] exI) (auto)
  qed
qed

lemma obind_elim:
  assumes "obind m f = Some (Inr x)"
  obtains a where "m = Some (Inr a)" and "f a = Some (Inr x)"
  using assms by (auto simp: obind_Some_Inr)

lemma module_link_symbols_result:
  assumes "module_link_symbols sa call name b t shoff shnum st d ms k = Some (Inr (r, d', ms', k'))" and "b \<noteq> 0"
  shows "r = -1 \<and> ms' = ms \<or> r = 0 \<and> registered name ms ms'"
  using assms(1) unfolding module_link_symbols_def
  by (elim obind_elim)
    (auto split: option.split_asm if_split_asm elim!: obind_elim dest!: load_error_result module_register_loaded_result [OF _ _ assms(2)])

lemma module_link_result:
  assumes "module_link sa call name b t d ms k = Some (Inr (r, d', ms', k'))" and "b \<noteq> 0"
  shows "r = -1 \<and> ms' = ms \<or> r = 0 \<and> registered name ms ms'"
  using assms(1) unfolding module_link_def
  by (elim obind_elim)
    (auto split: option.split_asm if_split_asm dest!: load_error_result module_link_symbols_result [OF _ assms(2)])

text \<open>A load either fails with -1 and leaves the list of modules alone, or returns 0 with the module at the head of
  the list, under a name that no module of the list had before.\<close>

theorem module_load_binary_result:
  assumes "module_load_binary sa call name data sz ms k = Some (Inr (r, data', ms', k'))"
  shows "r = -1 \<and> ms' = ms
    \<or> r = 0 \<and> (\<exists>nm. name = Some nm \<and> registered nm ms ms' \<and> find_module nm (kmods ms) (module_list_head ms) = Some 0
         \<and> module_validate_elf data sz = Some True)"
proof (cases "name = None \<or> data = None \<or> sz = 0")
  case True
  then show ?thesis using assms by (auto simp: module_load_binary_def split: option.splits)
next
  case False
  then obtain nm d where nd: "name = Some nm" "data = Some d" "sz \<noteq> 0" by auto
  then obtain old where old: "find_module nm (kmods ms) (module_list_head ms) = Some old"
    using assms by (auto simp: module_load_binary_def obind_Some_Inr no_panic_Some_Inr)
  show ?thesis
  proof (cases "old = 0")
    case F: False
    then show ?thesis using assms nd old by (auto simp: module_load_binary_def obind_Some_Inr)
  next
    case T: True
    obtain ok where ok: "module_validate_elf data sz = Some ok"
      using assms nd old T by (auto simp: module_load_binary_def obind_Some_Inr no_panic_Some_Inr)
    show ?thesis
    proof (cases ok)
      case F: False
      then show ?thesis using assms nd old T ok by (auto simp: module_load_binary_def obind_Some_Inr)
    next
      case ok2: True
      obtain t b k1 where k1: "module_calc_size d = Some t" "k_kmalloc (if t = 0 then 1024 else t) k = Some (Inr (b, k1))"
        using assms nd old T ok ok2 by (auto simp: module_load_binary_def obind_Some_Inr no_panic_Some_Inr Let_def)
      show ?thesis
      proof (cases "b = 0")
        case B: True
        then show ?thesis using assms nd old T ok ok2 k1 by (auto simp: module_load_binary_def obind_Some_Inr Let_def)
      next
        case B: False
        then obtain d' where "module_link sa call nm b (if t = 0 then 1024 else t) d ms k1 = Some (Inr (r, d', ms', k'))"
          using assms nd old T ok ok2 k1 by (auto simp: module_load_binary_def obind_Some_Inr Let_def)
        from module_link_result [OF this B] show ?thesis using nd old T ok ok2 by auto
      qed
    qed
  qed
qed

section \<open>Small images\<close>

definition shdr_bytes :: "elf32_shdr \<Rightarrow> u8 list" where
  "shdr_bytes sh = le_bytes 4 0 @ le_bytes 4 (sh_type sh) @ le_bytes 4 (sh_flags sh) @ le_bytes 4 (sh_addr sh) @ le_bytes 4 (sh_offset sh)
     @ le_bytes 4 (sh_size sh) @ le_bytes 4 (sh_link sh) @ le_bytes 4 (sh_info sh) @ le_bytes 4 0 @ le_bytes 4 0"

definition zero_shdr :: elf32_shdr where
  "zero_shdr = \<lparr>sh_type = 0, sh_flags = 0, sh_addr = 0, sh_offset = 0, sh_size = 0, sh_link = 0, sh_info = 0\<rparr>"

text \<open>An image with one section of five bytes.\<close>

definition text_shdr :: elf32_shdr where
  "text_shdr = zero_shdr\<lparr>sh_type := 1, sh_flags := 6, sh_offset := 132, sh_size := 5\<rparr>"

definition layout_example :: "u8 list" where
  "layout_example = replicate 32 0 @ le_bytes 4 52 @ replicate 12 0 @ [2, 0, 0, 0] @ shdr_bytes zero_shdr @ shdr_bytes text_shdr
     @ [0x55, 0x89, 0xE5, 0x5D, 0xC3]"

lemma layout_example_reads:
  "e_shoff layout_example = Some 52" "e_shnum layout_example = Some 2"
  "read_shdr layout_example 52 = Some zero_shdr" "read_shdr layout_example 92 = Some text_shdr" "length layout_example = 137"
  by code_simp+

theorem module_layout_correct_witness:
  "module_calc_size layout_example = Some 8
    \<and> (\<exists>d' m'. copy_sections [0..<2] 52 0x5000 0 layout_example (\<lambda>_. 0xAA) = Some (d', m')
        \<and> m' 0x5000 = 0x55 \<and> m' 0x5004 = 0xC3 \<and> m' 0x5008 = 0xAA)"
proof -
  let ?shs = "[zero_shdr, text_shdr]"
  have b: "is_alloc text_shdr" "\<not> is_alloc zero_shdr" by code_simp+
  then have o: "section_offset ?shs (length ?shs) = 8" "section_offset ?shs 1 = 0"
    by (simp_all add: section_offset_def alloc_size_def text_shdr_def zero_shdr_def)
  have h: "has_shdrs layout_example 52 ?shs"
    using layout_example_reads by (auto simp: has_shdrs_def less_Suc_eq shdr_at_def)
  have c: "contents_ok layout_example 52 ?shs"
    using layout_example_reads(5) by (auto simp: contents_ok_def shdr_at_def text_shdr_def zero_shdr_def)
  have n: "e_shnum layout_example = Some (of_nat (length ?shs))" using layout_example_reads(2) by simp
  obtain d' m' where 1: "module_calc_size layout_example = Some (of_nat 8)"
    "copy_sections [0..<length ?shs] 52 0x5000 0 layout_example (\<lambda>_. 0xAA) = Some (d', m')"
    "\<forall>p. unat p < unat (0x5000 :: u32) \<or> unat (0x5000 :: u32) + 8 \<le> unat p \<longrightarrow> m' p = 0xAA"
    "\<forall>j < length ?shs. is_alloc (?shs ! j) \<longrightarrow> (\<forall>t < unat (sh_size (?shs ! j)).
       m' (0x5000 + of_nat (section_offset ?shs j + t)) = section_byte layout_example (?shs ! j) t)"
    using module_layout_correct [OF layout_example_reads(1) n _ h c, of "0x5000" "\<lambda>_. 0xAA"] o(1) by auto
  have t: "m' (0x5000 + of_nat t) = layout_example ! (132 + t)" if "t < 5" for t
    using 1(4) [rule_format, of 1 t] b(1) o(2) that by (simp add: section_byte_def text_shdr_def zero_shdr_def)
  have "layout_example ! 132 = 0x55" "layout_example ! 136 = 0xC3" by code_simp+
  then have "m' 0x5000 = 0x55" "m' 0x5004 = 0xC3" using t [of 0] t [of 4] by simp_all
  moreover have "m' 0x5008 = 0xAA" using 1(3) by simp
  moreover have l: "length ?shs = 2" by simp
  ultimately show ?thesis using 1(1) 1(2) [unfolded l] by (simp only: of_nat_numeral) blast
qed

text \<open>A symbol at offset 8 of a section, in an image loaded first at \<^verbatim>\<open>0x1000\<close> and then at \<^verbatim>\<open>0x2000\<close>.\<close>

definition sym_bytes :: "u32 \<Rightarrow> u8 list" where
  "sym_bytes v = le_bytes 4 1 @ le_bytes 4 v @ replicate 6 0 @ [1, 0]"

definition reload_image :: "u32 \<Rightarrow> u32 \<Rightarrow> u8 list" where
  "reload_image v a = sym_bytes v @ shdr_bytes zero_shdr @ shdr_bytes (text_shdr\<lparr>sh_addr := a\<rparr>)"

lemma reload_image_reads:
  "read_sym (reload_image 8 0x1000) 0 = Some \<lparr>st_name = 1, st_value = 8, st_shndx = 1\<rparr>"
  "read_sym (reload_image 0x1008 0x2000) 0 = Some \<lparr>st_name = 1, st_value = 0x1008, st_shndx = 1\<rparr>"
  "read_shdr (reload_image 8 0x1000) 16 = Some zero_shdr" "read_shdr (reload_image 8 0x1000) 56 = Some (text_shdr\<lparr>sh_addr := 0x1000\<rparr>)"
  "read_shdr (reload_image 0x1008 0x2000) 16 = Some zero_shdr"
  "read_shdr (reload_image 0x1008 0x2000) 56 = Some (text_shdr\<lparr>sh_addr := 0x2000\<rparr>)"
  "map_option (\<lambda>d. read_sym d 0) (update_symbols [0] 0 16 2 (reload_image 8 0x1000))
     = Some (Some \<lparr>st_name = 1, st_value = 0x1008, st_shndx = 1\<rparr>)"
  by code_simp+

theorem module_reload_stale_witness:
  "\<exists>d1 d3. update_symbols [0..<1] 0 16 2 (reload_image 8 0x1000) = Some d1
    \<and> update_symbols [0..<1] 0 16 2 (reload_image 0x1008 0x2000) = Some d3
    \<and> map_option st_value (read_sym d1 0) = Some 0x1008 \<and> map_option st_value (read_sym d3 0) = Some 0x3008"
proof -
  let ?shs = "\<lambda>a. [zero_shdr, text_shdr\<lparr>sh_addr := a\<rparr>]"
  let ?sy = "\<lambda>i :: nat. \<lparr>st_name = 1, st_value = 8, st_shndx = 1\<rparr> :: elf32_sym"
  have h: "has_shdrs (reload_image 8 0x1000) 16 (?shs 0x1000)" "has_shdrs (reload_image 0x1008 0x2000) 16 (?shs 0x2000)"
    using reload_image_reads by (auto simp: has_shdrs_def less_Suc_eq shdr_at_def)
  obtain d1 d3 where "update_symbols [0..<1] 0 16 2 (reload_image 8 0x1000) = Some d1"
    "update_symbols [0..<1] 0 16 2 (reload_image 0x1008 0x2000) = Some d3"
    "map_option st_value (read_sym d1 (0 + 16 * 0)) = Some (0x1000 + 8)"
    "map_option st_value (read_sym d3 (0 + 16 * 0)) = Some (0x2000 + (0x1000 + 8))"
    using module_reload_stale [OF h(1), of 2 1 0 ?sy "reload_image 0x1008 0x2000" "?shs 0x2000"] h(2) reload_image_reads(1,2,7)
    by (auto simp: shdr_at_def)
  then show ?thesis by auto
qed

text \<open>One relocation of type PC32 at offset 4 against a symbol with value \<^verbatim>\<open>0x9000\<close>.\<close>

definition rel_example :: "u8 list" where
  "rel_example = [4, 0, 0, 0, 2, 0, 0, 0] @ sym_bytes 0x9000"

lemma rel_example_reads:
  "rd32 rel_example 0 = Some 4" "rd32 rel_example 4 = Some 2"
  "read_sym rel_example 8 = Some \<lparr>st_name = 1, st_value = 0x9000, st_shndx = 1\<rparr>"
  by code_simp+

theorem module_relocation_correct_witness:
  "\<exists>k'. apply_rels [0..<1] 0 0x5000 8 1 rel_example pkern_example = Some k'
    \<and> get32 (bytes (k_heap k')) 0x5004 = get32 (bytes (k_heap pkern_example)) 0x5004 + 0x3FFC
    \<and> bytes (k_heap k') 0x5008 = bytes (k_heap pkern_example) 0x5008"
proof -
  have i: "(drop_bit 8 2 :: u32) = 0" "(ucast (2 :: u32) :: u8) = 2" by code_simp+
  obtain k' where k': "apply_rels [0..<1] 0 0x5000 8 1 rel_example pkern_example = Some k'"
    "\<forall>r < (1 :: nat). get32 (bytes (k_heap k')) (0x5000 + 4) = get32 (bytes (k_heap pkern_example)) (0x5000 + 4) + 0x9000
         - (if (ucast (2 :: u32) :: u8) = 1 then 0 else 0x5000 + 4)"
    "\<forall>p. (\<forall>r < (1 :: nat). p \<notin> word_place (0x5000 + 4)) \<longrightarrow> bytes (k_heap k') p = bytes (k_heap pkern_example) p"
    using module_relocation_correct [of 1 rel_example 0 "\<lambda>_. 4" "\<lambda>_. 2" 1 8 "\<lambda>_. \<lparr>st_name = 1, st_value = 0x9000, st_shndx = 1\<rparr>" "0x5000" pkern_example]
      rel_example_reads i by auto
  have "0x5008 \<notin> word_place (0x5004 :: u32)" by (simp add: word_place_def)
  then show ?thesis using k' i(2) by (intro exI [of _ k']) (auto simp: algebra_simps)
qed

theorem module_resolve_symbol_correct_witness:
  "module_resolve_symbol (\<lambda>n. if n = ''kfree'' then 0x100200 else 0) (Some (''kfree'' @ [NUL])) = Some (Some 0x100200)
    \<and> module_resolve_symbol (\<lambda>n. 0) (Some (''vmm_init'' @ [NUL])) = Some None"
  using module_resolve_symbol_correct [of "''kfree'' @ [NUL]" "\<lambda>n. if n = ''kfree'' then 0x100200 else 0"]
    module_resolve_symbol_correct [of "''vmm_init'' @ [NUL]" "\<lambda>n. 0"]
  by (simp add: kernel_symbol_names_def)

theorem module_load_binary_result_witness:
  "\<exists>k'. module_load_binary (\<lambda>n. 0) (\<lambda>a k. Some k) (Some (''m'' @ [NUL])) (Some (replicate 60 0)) 60
      \<lparr>module_list_head = 0, kmods = (\<lambda>_. None)\<rparr> pkern_example
    = Some (Inr (-1, Some (replicate 60 0), \<lparr>module_list_head = 0, kmods = (\<lambda>_. None)\<rparr>, k'))"
proof -
  let ?ms = "\<lparr>module_list_head = 0, kmods = (\<lambda>_. None)\<rparr> :: modules"
  let ?load = "module_load_binary (\<lambda>n. 0) (\<lambda>a k. Some k) (Some (''m'' @ [NUL])) (Some (replicate 60 0)) 60 ?ms pkern_example"
  have v: "module_validate_elf (Some (replicate 60 0)) 60 = Some False" by code_simp
  have "\<exists>c. k_printk (''Module: Invalid ELF'' @ [CHR 0x0A]) [] pkern_example = Some (pkern_example\<lparr>k_con := c\<rparr>)"
    using printk_defined [of console_example "''Module: Invalid ELF'' @ [CHR 0x0A]" "[]"] console_example_ok
    by (auto simp: k_printk_def)
  then obtain c where "k_printk (''Module: Invalid ELF'' @ [CHR 0x0A]) [] pkern_example = Some (pkern_example\<lparr>k_con := c\<rparr>)" by blast
  then obtain r d' ms' k' where l: "?load = Some (Inr (r, d', ms', k'))" "d' = Some (replicate 60 0)"
    using v by (auto simp: module_load_binary_def find_module.simps)
  from module_load_binary_result [OF l(1)] v show ?thesis using l by auto
qed

end
