(* ===== verification/Module_Registry.thy ===== *)
theory Module_Registry
  imports User_Process
begin

text \<open>
  The registry of modules, \<^verbatim>\<open>kernel/module.c\<close>.  A \<^verbatim>\<open>module_t\<close> belongs to its caller;
  \<open>mr_mods\<close> maps its address to its fields.  A call through a function pointer is a parameter: \<open>run\<close> gives the value
  that the function returns and its effect on the kernel.
\<close>

section \<open>The registry\<close>

record module_t =
  md_name :: "char list"
  md_author :: "char list"
  md_version :: "char list"
  md_init :: u32
  md_cleanup :: u32
  md_state :: u8
  md_next :: u32

record registry =
  mr_head :: u32
  mr_count :: u32
  mr_mods :: "u32 \<rightharpoonup> module_t"

abbreviation (input) MODULE_STATE_UNLOADED :: u8 where "MODULE_STATE_UNLOADED \<equiv> 0"
abbreviation (input) MODULE_STATE_LOADED :: u8 where "MODULE_STATE_LOADED \<equiv> 1"

definition module_init_subsystem :: "registry \<Rightarrow> 'a kern_scheme \<Rightarrow> (registry \<times> 'a kern_scheme) option" where
  "module_init_subsystem s k =
     map_option (Pair (s\<lparr>mr_head := 0, mr_count := 0\<rparr>)) (k_printk (''Module: Subsystem initialized'' @ [CHR 0x0A]) [] k)"

partial_function (option) module_find_from :: "char list \<Rightarrow> (u32 \<rightharpoonup> module_t) \<Rightarrow> u32 \<Rightarrow> u32 \<Rightarrow> (u32 \<times> u32) option" where
  "module_find_from name mods prev cur =
     (if cur = 0 then Some (prev, 0)
      else do {
        m \<leftarrow> mods cur;
        c \<leftarrow> strcmp (Some (md_name m)) (Some name);
        if c = 0 then Some (prev, cur) else module_find_from name mods cur (md_next m)
      })"

definition module_find :: "cptr \<Rightarrow> registry \<Rightarrow> u32 option" where
  "module_find name s =
     (case name of None \<Rightarrow> Some 0 | Some n \<Rightarrow> map_option snd (module_find_from n (mr_mods s) 0 (mr_head s)))"

text \<open>The call of \<^verbatim>\<open>mod->init\<close>; a null pointer counts as success.\<close>

definition run_init :: "(u32 \<Rightarrow> 'a kern_scheme \<Rightarrow> (u32 \<times> 'a kern_scheme) option) \<Rightarrow> u32 \<Rightarrow> 'a kern_scheme \<Rightarrow> (u32 \<times> 'a kern_scheme) option" where
  "run_init run f k = (if f \<noteq> 0 then run f k else Some (0, k))"

definition module_register :: "(u32 \<Rightarrow> 'a kern_scheme \<Rightarrow> (u32 \<times> 'a kern_scheme) option) \<Rightarrow> u32 \<Rightarrow> registry \<Rightarrow> 'a kern_scheme
    \<Rightarrow> (u32 \<times> registry \<times> 'a kern_scheme) option" where
  "module_register run a s k =
     (if a = 0 then Some (-1, s, k)
      else do {
        m \<leftarrow> mr_mods s a;
        if md_name m ! 0 = NUL then Some (-1, s, k)
        else do {
          old \<leftarrow> module_find (Some (md_name m)) s;
          if old \<noteq> 0
          then do {
            k \<leftarrow> k_printk (''Module: Module '' @ CHR 0x27 # ''%s'' @ CHR 0x27 # '' is already registered'' @ [CHR 0x0A]) [VA_str (Some (md_name m))] k;
            Some (-1, s, k)
          }
          else do {
            (res, k) \<leftarrow> run_init run (md_init m) k;
            if res \<noteq> 0
            then do {
              k \<leftarrow> k_printk (''Module: Initialization of '' @ CHR 0x27 # ''%s'' @ CHR 0x27 # '' failed with error %d'' @ [CHR 0x0A])
                     [VA_str (Some (md_name m)), VA_word res] k;
              Some (res, s, k)
            }
            else do {
              let s = s\<lparr>mr_mods := (mr_mods s)(a \<mapsto> m\<lparr>md_state := MODULE_STATE_LOADED, md_next := mr_head s\<rparr>),
                        mr_head := a, mr_count := mr_count s + 1\<rparr>;
              k \<leftarrow> k_printk (''Module: Loaded '' @ CHR 0x27 # ''%s'' @ CHR 0x27 # '' v%s by %s'' @ [CHR 0x0A])
                     [VA_str (Some (md_name m)), VA_str (Some (md_version m)), VA_str (Some (md_author m))] k;
              Some (0, s, k)
            }
          }
        }
      })"

definition module_unregister :: "(u32 \<Rightarrow> 'a kern_scheme \<Rightarrow> (u32 \<times> 'a kern_scheme) option) \<Rightarrow> cptr \<Rightarrow> registry \<Rightarrow> 'a kern_scheme
    \<Rightarrow> (u32 \<times> registry \<times> 'a kern_scheme) option" where
  "module_unregister run name s k =
     (case name of
        None \<Rightarrow> Some (-1, s, k)
      | Some n \<Rightarrow> do {
          (prev, cur) \<leftarrow> module_find_from n (mr_mods s) 0 (mr_head s);
          if cur = 0
          then do {
            k \<leftarrow> k_printk (''Module: Module '' @ CHR 0x27 # ''%s'' @ CHR 0x27 # '' not found'' @ [CHR 0x0A]) [VA_str name] k;
            Some (-1, s, k)
          }
          else do {
            m \<leftarrow> mr_mods s cur;
            (_, k) \<leftarrow> run_init run (md_cleanup m) k;
            let s = s\<lparr>mr_mods := (mr_mods s)(cur \<mapsto> m\<lparr>md_state := MODULE_STATE_UNLOADED\<rparr>)\<rparr>;
            s \<leftarrow> (if prev \<noteq> 0
                 then map_option (\<lambda>p. s\<lparr>mr_mods := (mr_mods s)(prev \<mapsto> p\<lparr>md_next := md_next m\<rparr>)\<rparr>) (mr_mods s prev)
                 else Some (s\<lparr>mr_head := md_next m\<rparr>));
            k \<leftarrow> k_printk (''Module: Unloaded '' @ CHR 0x27 # ''%s'' @ CHR 0x27 # [CHR 0x0A]) [VA_str name] k;
            Some (0, s\<lparr>mr_count := mr_count s - 1\<rparr>, k)
          }
        })"

partial_function (option) module_list_from :: "(u32 \<rightharpoonup> module_t) \<Rightarrow> u32 \<Rightarrow> 'a kern_scheme \<Rightarrow> 'a kern_scheme option" where
  "module_list_from mods cur k =
     (if cur = 0 then Some k
      else do {
        m \<leftarrow> mods cur;
        k \<leftarrow> k_printk (''%-20s %-10s %-20s %s'' @ [CHR 0x0A])
               [VA_str (Some (md_name m)), VA_str (Some (md_version m)), VA_str (Some (md_author m)),
                VA_str (Some ((if md_state m = MODULE_STATE_LOADED then ''LOADED'' else ''UNLOADED'') @ [NUL]))] k;
        module_list_from mods (md_next m) k
      })"

definition module_list :: "registry \<Rightarrow> 'a kern_scheme \<Rightarrow> 'a kern_scheme option" where
  "module_list s k = do {
     k \<leftarrow> k_printk (''NAME                 VERSION    AUTHOR               STATE'' @ [CHR 0x0A]) [] k;
     k \<leftarrow> k_printk (''----                 -------    ------               -----'' @ [CHR 0x0A]) [] k;
     k \<leftarrow> module_list_from (mr_mods s) (mr_head s) k;
     if mr_head s = 0 then k_printk (''(no modules loaded)'' @ [CHR 0x0A]) [] k else Some k
   }"

text \<open>The fields of a \<^verbatim>\<open>module_t\<close> of 160 bytes.\<close>

definition parse_module :: "u8 list \<Rightarrow> module_t option" where
  "parse_module d = do {
     i \<leftarrow> rd32 d 144; c \<leftarrow> rd32 d 148; st \<leftarrow> rd8 d 152; nx \<leftarrow> rd32 d 156;
     let text = (\<lambda>p n. map (\<lambda>b. char_of (unat b)) (take n (drop p d)));
     Some \<lparr>md_name = text 0 64, md_author = text 64 64, md_version = text 128 16, md_init = i, md_cleanup = c, md_state = st,
           md_next = nx\<rparr>
   }"

definition module_load_from_memory :: "(u32 \<Rightarrow> 'a kern_scheme \<Rightarrow> (u32 \<times> 'a kern_scheme) option) \<Rightarrow> u8 list option \<Rightarrow> u32 \<Rightarrow> registry
    \<Rightarrow> 'a kern_scheme \<Rightarrow> (u32 \<times> registry \<times> 'a kern_scheme) outcome" where
  "module_load_from_memory run data sz s k =
     (case data of
        None \<Rightarrow> Some (Inr (-1, s, k))
      | Some d \<Rightarrow>
          if sz < 160 then Some (Inr (-1, s, k))
          else obind (k_kmalloc 160 k) (\<lambda>(a, k).
               if a = 0 then Some (Inr (-1, s, k))
               else no_panic (do { m \<leftarrow> parse_module d; module_register run a (s\<lparr>mr_mods := (mr_mods s)(a \<mapsto> m)\<rparr>) k })))"

section \<open>The registry is a list of modules with different names\<close>

fun mod_path :: "(u32 \<rightharpoonup> module_t) \<Rightarrow> u32 \<Rightarrow> u32 list \<Rightarrow> bool" where
  "mod_path mods p [] \<longleftrightarrow> p = 0"
| "mod_path mods p (a # as) \<longleftrightarrow> p = a \<and> a \<noteq> 0 \<and> (\<exists>m. mods a = Some m \<and> NUL \<in> set (md_name m) \<and> mod_path mods (md_next m) as)"

definition mod_name :: "(u32 \<rightharpoonup> module_t) \<Rightarrow> u32 \<Rightarrow> string" where
  "mod_name mods a = (case mods a of Some m \<Rightarrow> cstr (md_name m) | None \<Rightarrow> [])"

definition registry_ok :: "registry \<Rightarrow> u32 list \<Rightarrow> bool" where
  "registry_ok s as \<longleftrightarrow> mod_path (mr_mods s) (mr_head s) as \<and> distinct as \<and> inj_on (mod_name (mr_mods s)) (set as)
     \<and> mr_count s = of_nat (length as) \<and> (\<forall>a \<in> set as. \<exists>m. mr_mods s a = Some m \<and> md_state m = MODULE_STATE_LOADED)"

lemma mod_path_frame: "mod_path mods p as \<Longrightarrow> (\<And>x. x \<in> set as \<Longrightarrow> mods' x = mods x) \<Longrightarrow> mod_path mods' p as"
  by (induction as arbitrary: p) auto

lemma find_from_eq:
  assumes "mod_path mods cur as" and "NUL \<in> set n"
  shows "\<exists>pr. module_find_from n mods prev cur = Some (pr, case find (\<lambda>a. mod_name mods a = cstr n) as of None \<Rightarrow> 0 | Some a \<Rightarrow> a)
    \<and> (\<forall>xs a ys. as = xs @ a # ys \<and> mod_name mods a = cstr n \<and> (\<forall>x \<in> set xs. mod_name mods x \<noteq> cstr n)
         \<longrightarrow> pr = last (prev # xs))"
  using assms(1)
proof (induction as arbitrary: cur prev)
  case Nil
  then show ?case by (simp add: module_find_from.simps)
next
  case (Cons b as)
  then obtain m where m: "cur = b" "b \<noteq> 0" "mods b = Some m" "NUL \<in> set (md_name m)" "mod_path mods (md_next m) as" by auto
  obtain c where c: "strcmp_buf (md_name m) n = Some c" using strcmp_buf_defined [OF m(4) assms(2)] by blast
  have eq: "c = 0 \<longleftrightarrow> mod_name mods b = cstr n" using strcmp_buf_0_iff [OF m(4) assms(2)] c m(3) by (auto simp: mod_name_def)
  show ?case
  proof (cases "c = 0")
    case True
    have "xs = []" if "b # as = xs @ a # ys" "\<forall>x \<in> set xs. mod_name mods x \<noteq> cstr n" for xs a ys
      using that True eq by (cases xs) auto
    then show ?thesis using m c True eq by (subst module_find_from.simps) (auto simp: strcmp_def)
  next
    case False
    obtain pr where pr: "module_find_from n mods b (md_next m) = Some (pr, case find (\<lambda>a. mod_name mods a = cstr n) as of None \<Rightarrow> 0 | Some a \<Rightarrow> a)"
      "\<And>xs a ys. as = xs @ a # ys \<Longrightarrow> mod_name mods a = cstr n \<Longrightarrow> \<forall>x \<in> set xs. mod_name mods x \<noteq> cstr n \<Longrightarrow> pr = last (b # xs)"
      using Cons.IH [OF m(5), of b] by auto
    have "pr = last (prev # xs)" if h: "b # as = xs @ a # ys" "mod_name mods a = cstr n" "\<forall>x \<in> set xs. mod_name mods x \<noteq> cstr n" for xs a ys
    proof -
      obtain xs' where "xs = b # xs'" "as = xs' @ a # ys" using h(1,2) False eq by (cases xs) auto
      then show ?thesis using pr(2) [of xs' a ys] h(2,3) by simp
    qed
    then show ?thesis using m c False eq pr(1) by (subst module_find_from.simps) (auto simp: strcmp_def)
  qed
qed

lemma mod_name_upd: "mod_name (mods(a \<mapsto> m)) b = (if b = a then cstr (md_name m) else mod_name mods b)"
  by (simp add: mod_name_def)

lemma registry_mem:
  assumes "mod_path mods p as" and "a \<in> set as"
  shows "a \<noteq> 0 \<and> (\<exists>m. mods a = Some m \<and> NUL \<in> set (md_name m))"
  using assms by (induction as arbitrary: p) auto

lemma module_find_correct:
  assumes "registry_ok s as" and "NUL \<in> set n"
  shows "module_find (Some n) s = Some (case find (\<lambda>a. mod_name (mr_mods s) a = cstr n) as of None \<Rightarrow> 0 | Some a \<Rightarrow> a)"
  using find_from_eq [of "mr_mods s" "mr_head s" as n 0] assms by (auto simp: registry_ok_def module_find_def)

lemma find_zero_iff:
  assumes "mod_path mods p as"
  shows "(case find P as of None \<Rightarrow> 0 | Some a \<Rightarrow> a) = 0 \<longleftrightarrow> (\<forall>a \<in> set as. \<not> P a)"
  using registry_mem [OF assms] by (auto simp: find_None_iff find_Some_iff split: option.split)

lemma register_cases:
  assumes "module_register run a s k = Some (r, s', k')" and "mr_mods s a = Some m"
  shows "r \<noteq> 0 \<and> s' = s \<or> r = 0 \<and> a \<noteq> 0 \<and> module_find (Some (md_name m)) s = Some 0
    \<and> s' = s\<lparr>mr_mods := (mr_mods s)(a \<mapsto> m\<lparr>md_state := MODULE_STATE_LOADED, md_next := mr_head s\<rparr>),
             mr_head := a, mr_count := mr_count s + 1\<rparr>"
  using assms by (auto simp: module_register_def bind_eq_Some_conv Let_def split: if_split_asm)

lemma register_ok:
  assumes ok: "registry_ok s as" and m: "mr_mods s a = Some m" "NUL \<in> set (md_name m)"
    and run: "module_register run a s k = Some (r, s', k')"
  shows "if r = 0 then registry_ok s' (a # as) \<and> a \<notin> set as else s' = s"
proof (cases "r = 0")
  case True
  then have c: "a \<noteq> 0" "module_find (Some (md_name m)) s = Some 0"
    "s' = s\<lparr>mr_mods := (mr_mods s)(a \<mapsto> m\<lparr>md_state := MODULE_STATE_LOADED, md_next := mr_head s\<rparr>), mr_head := a, mr_count := mr_count s + 1\<rparr>"
    using register_cases [OF run m(1)] by simp_all
  have path: "mod_path (mr_mods s) (mr_head s) as" using ok by (simp add: registry_ok_def)
  have new: "\<forall>b \<in> set as. mod_name (mr_mods s) b \<noteq> cstr (md_name m)"
    using c(2) module_find_correct [OF ok m(2)] find_zero_iff [OF path] by simp
  then have a: "a \<notin> set as" using m(1) by (auto simp: mod_name_def)
  have names: "x \<in> set as \<Longrightarrow> mod_name (mr_mods s') x = mod_name (mr_mods s) x" for x using a by (auto simp: c(3) mod_name_upd)
  have "mod_path (mr_mods s') (mr_head s) as" by (rule mod_path_frame [OF path]) (use a in \<open>auto simp: c(3)\<close>)
  moreover have "mod_name (mr_mods s') a = cstr (md_name m)" by (simp add: c(3) mod_name_upd)
  moreover have "inj_on (mod_name (mr_mods s')) (set (a # as))"
    using ok new names a calculation(2) by (auto simp: registry_ok_def inj_on_def)
  ultimately have "registry_ok s' (a # as)"
    using ok c(1) m(2) a by (auto simp: registry_ok_def c(3))
  then show ?thesis using True a by simp
qed (use register_cases [OF run m(1)] in simp)

text \<open>Taking the module after \<open>pr\<close> out of the path.\<close>

lemma mod_path_unlink:
  assumes "mod_path mods p (xs @ a # ys)" and "mods a = Some m" and "xs \<noteq> []" and "distinct (xs @ a # ys)"
  shows "\<exists>q. mods (last xs) = Some q
    \<and> mod_path (mods(a \<mapsto> m', last xs \<mapsto> q\<lparr>md_next := md_next m\<rparr>)) p (xs @ ys)"
  using assms
proof (induction xs arbitrary: p)
  case (Cons x xs)
  obtain q where q: "p = x" "x \<noteq> 0" "mods x = Some q" "NUL \<in> set (md_name q)" "mod_path mods (md_next q) (xs @ a # ys)"
    using Cons.prems(1) by auto
  show ?case
  proof (cases "xs = []")
    case True
    have "mod_path mods (md_next m) ys" using q(5) Cons.prems(2) True by auto
    then have "mod_path (mods(a \<mapsto> m', x \<mapsto> q\<lparr>md_next := md_next m\<rparr>)) (md_next m) ys"
      by (rule mod_path_frame) (use Cons.prems(4) in auto)
    then show ?thesis using True q by (simp del: fun_upd_apply add: fun_upd_same)
  next
    case False
    then obtain q' where q': "mods (last xs) = Some q'"
      "mod_path (mods(a \<mapsto> m', last xs \<mapsto> q'\<lparr>md_next := md_next m\<rparr>)) (md_next q) (xs @ ys)"
      using Cons.IH [OF q(5) Cons.prems(2) False] Cons.prems(4) by (auto simp del: fun_upd_apply)
    have "x \<noteq> a" "x \<noteq> last xs" using Cons.prems(4) False by auto
    then show ?thesis using q q' False by (simp del: fun_upd_apply add: fun_upd_other)
  qed
qed simp

lemma unregister_cases:
  assumes "module_unregister run (Some n) s k = Some (r, s', k')" and "module_find_from n (mr_mods s) 0 (mr_head s) = Some (pr, a)"
  shows "a = 0 \<and> r = -1 \<and> s' = s \<or> a \<noteq> 0 \<and> r = 0 \<and> (\<exists>m. mr_mods s a = Some m
    \<and> (let mods = (mr_mods s)(a \<mapsto> m\<lparr>md_state := MODULE_STATE_UNLOADED\<rparr>) in
        if pr \<noteq> 0 then \<exists>p. mods pr = Some p \<and> s' = s\<lparr>mr_mods := mods(pr \<mapsto> p\<lparr>md_next := md_next m\<rparr>), mr_count := mr_count s - 1\<rparr>
        else s' = s\<lparr>mr_mods := mods, mr_head := md_next m, mr_count := mr_count s - 1\<rparr>))"
  using assms by (auto simp: module_unregister_def bind_eq_Some_conv Let_def split: if_split_asm)

lemma find_split:
  "(case find P as of None \<Rightarrow> 0 | Some a \<Rightarrow> a) = (b :: u32) \<Longrightarrow> b \<noteq> 0 \<Longrightarrow>
    \<exists>xs ys. as = xs @ b # ys \<and> P b \<and> (\<forall>x \<in> set xs. \<not> P x)"
proof (induction as)
  case (Cons c as)
  show ?case
  proof (cases "P c")
    case False
    then obtain xs ys where "as = xs @ b # ys" "P b" "\<forall>x \<in> set xs. \<not> P x" using Cons by auto
    then show ?thesis using False by (intro exI [of _ "c # xs"] exI [of _ ys]) auto
  next
    case True
    then show ?thesis using Cons.prems by (intro exI [of _ "[]"] exI [of _ as]) auto
  qed
qed auto

lemma unregister_ok:
  assumes ok: "registry_ok s as" and n: "NUL \<in> set n" and run: "module_unregister run (Some n) s k = Some (r, s', k')"
  shows "r = -1 \<and> s' = s \<and> (\<forall>a \<in> set as. mod_name (mr_mods s) a \<noteq> cstr n)
    \<or> r = 0 \<and> (\<exists>a \<in> set as. mod_name (mr_mods s) a = cstr n \<and> registry_ok s' (remove1 a as))"
proof -
  let ?M = "mr_mods s"
  have path: "mod_path ?M (mr_head s) as" and dist: "distinct as" "inj_on (mod_name ?M) (set as)"
    using ok by (simp_all add: registry_ok_def)
  obtain pr where pr: "module_find_from n ?M 0 (mr_head s) = Some (pr, case find (\<lambda>a. mod_name ?M a = cstr n) as of None \<Rightarrow> 0 | Some a \<Rightarrow> a)"
    "\<And>xs a ys. as = xs @ a # ys \<Longrightarrow> mod_name ?M a = cstr n \<Longrightarrow> \<forall>x \<in> set xs. mod_name ?M x \<noteq> cstr n \<Longrightarrow> pr = last (0 # xs)"
    using find_from_eq [OF path n, of 0] by auto
  define a where "a = (case find (\<lambda>a. mod_name ?M a = cstr n) as of None \<Rightarrow> 0 | Some a \<Rightarrow> a)"
  note c = unregister_cases [OF run pr(1), folded a_def]
  show ?thesis
  proof (cases "a = 0")
    case True
    then show ?thesis using c find_zero_iff [OF path, of "\<lambda>a. mod_name ?M a = cstr n"] a_def by auto
  next
    case False
    then obtain xs ys where xs: "as = xs @ a # ys" "mod_name ?M a = cstr n" "\<forall>x \<in> set xs. mod_name ?M x \<noteq> cstr n"
      using find_split [OF a_def [symmetric]] by blast
    have prl: "pr = last (0 # xs)" using pr(2) xs by blast
    obtain m where m: "?M a = Some m" "r = 0" using c False by auto
    let ?m = "m\<lparr>md_state := MODULE_STATE_UNLOADED\<rparr>"
    have a: "a \<notin> set xs" "a \<notin> set ys" using dist(1) xs(1) by auto
    have rem: "remove1 a as = xs @ ys" using a xs(1) by (simp add: remove1_append)
    have s': "mod_path (mr_mods s') (mr_head s') (xs @ ys) \<and> mr_count s' = mr_count s - 1
      \<and> (\<forall>x \<in> set as. x \<noteq> a \<longrightarrow> (\<exists>q e. ?M x = Some q \<and> mr_mods s' x = Some (q\<lparr>md_next := e\<rparr>)))"
    proof (cases "xs = []")
      case True
      then have "s' = s\<lparr>mr_mods := ?M(a \<mapsto> ?m), mr_head := md_next m, mr_count := mr_count s - 1\<rparr>"
        using c False prl m(1) by (auto simp: Let_def)
      moreover have "mod_path (?M(a \<mapsto> ?m)) (md_next m) ys"
        by (rule mod_path_frame [where mods = ?M]) (use path xs(1) True m(1) a in auto)
      moreover have "\<exists>q e. ?M x = Some q \<and> ?M x = Some (q\<lparr>md_next := e\<rparr>)" if h: "x \<in> set as" for x
      proof -
        obtain q where "?M x = Some q" using registry_mem [OF path h] by auto
        then show ?thesis by (intro exI [of _ q] exI [of _ "md_next q"]) simp
      qed
      ultimately show ?thesis using True by simp
    next
      case F: False
      have mem: "last xs \<in> set as" "last xs \<noteq> a" "last xs \<noteq> 0" using F xs(1) a registry_mem [OF path, of "last xs"] by auto
      obtain q where q: "?M (last xs) = Some q" "mod_path (?M(a \<mapsto> ?m, last xs \<mapsto> q\<lparr>md_next := md_next m\<rparr>)) (mr_head s) (xs @ ys)"
        using mod_path_unlink [OF path [unfolded xs(1)] m(1) F] dist(1) xs(1) by blast
      have "s' = s\<lparr>mr_mods := ?M(a \<mapsto> ?m, last xs \<mapsto> q\<lparr>md_next := md_next m\<rparr>), mr_count := mr_count s - 1\<rparr>"
        using c False prl m(1) F mem q(1) by (auto simp: Let_def)
      moreover have "\<exists>q' e. ?M x = Some q' \<and> (?M(a \<mapsto> ?m, last xs \<mapsto> q\<lparr>md_next := md_next m\<rparr>)) x = Some (q'\<lparr>md_next := e\<rparr>)"
        if h: "x \<in> set as" "x \<noteq> a" for x
      proof -
        obtain q' where "?M x = Some q'" using registry_mem [OF path h(1)] by auto
        then show ?thesis using h(2) q(1) by (cases "x = last xs") (auto intro: exI [of _ "md_next m"] exI [of _ "md_next q'"])
      qed
      ultimately show ?thesis using q(2) by simp
    qed
    have sub: "x \<in> set as" "x \<noteq> a" if "x \<in> set (xs @ ys)" for x using that a xs(1) by auto
    have nm: "mod_name (mr_mods s') x = mod_name ?M x" if "x \<in> set (xs @ ys)" for x
      using s' sub [OF that] by (auto simp: mod_name_def)
    have st: "\<exists>m. mr_mods s' x = Some m \<and> md_state m = MODULE_STATE_LOADED" if "x \<in> set (xs @ ys)" for x
      using s' sub [OF that] ok by (fastforce simp: registry_ok_def)
    have "inj_on (mod_name (mr_mods s')) (set (xs @ ys))"
      using dist(2) xs(1) nm by (simp add: inj_on_def)
    moreover have "mr_count s' = of_nat (length (xs @ ys))" using s' ok xs(1) by (simp add: registry_ok_def)
    ultimately have "registry_ok s' (xs @ ys)"
      using s' st dist(1) xs(1) by (auto simp: registry_ok_def)
    then show ?thesis using m(2) xs rem by auto
  qed
qed

section \<open>Every history\<close>

inductive registry_step :: "(u32 \<Rightarrow> 'a kern_scheme \<Rightarrow> (u32 \<times> 'a kern_scheme) option) \<Rightarrow> registry \<Rightarrow> registry \<Rightarrow> bool" for run where
  caller: "mr_mods s a = None \<Longrightarrow> NUL \<in> set (md_name m) \<Longrightarrow> registry_step run s (s\<lparr>mr_mods := (mr_mods s)(a \<mapsto> m)\<rparr>)"
| register: "module_register run a s k = Some (r, s', k') \<Longrightarrow> registry_step run s s'"
| unregister: "NUL \<in> set n \<Longrightarrow> module_unregister run (Some n) s k = Some (r, s', k') \<Longrightarrow> registry_step run s s'"

definition registry_inv :: "registry \<Rightarrow> bool" where
  "registry_inv s \<longleftrightarrow> (\<exists>as. registry_ok s as) \<and> (\<forall>a m. mr_mods s a = Some m \<longrightarrow> NUL \<in> set (md_name m))"

lemma registry_step_names:
  assumes "registry_step run s s'" and "\<forall>a m. mr_mods s a = Some m \<longrightarrow> NUL \<in> set (md_name m)"
  shows "\<forall>a m. mr_mods s' a = Some m \<longrightarrow> NUL \<in> set (md_name m)"
  using assms
proof (induction rule: registry_step.induct)
  case (register a s k r s' k')
  then obtain m where "mr_mods s a = Some m \<or> s' = s" by (auto simp: module_register_def bind_eq_Some_conv split: if_split_asm)
  then show ?case using register_cases [OF register(1), of m] register(2) by (auto split: if_split_asm)
next
  case (unregister n s k r s' k')
  obtain pr a where f: "module_find_from n (mr_mods s) 0 (mr_head s) = Some (pr, a)"
    using unregister(2) by (auto simp: module_unregister_def bind_eq_Some_conv)
  show ?case
    using unregister_cases [OF unregister(2) f] unregister(3) by (auto simp: Let_def split: if_split_asm)
qed (auto split: if_split_asm)

lemma registry_step_inv:
  assumes "registry_step run s s'" and "registry_inv s"
  shows "registry_inv s'"
proof -
  obtain as where as: "registry_ok s as" and names: "\<forall>a m. mr_mods s a = Some m \<longrightarrow> NUL \<in> set (md_name m)"
    using assms(2) by (auto simp: registry_inv_def)
  have "\<exists>as. registry_ok s' as"
    using assms(1)
  proof cases
    case (caller a m)
    have path: "mod_path (mr_mods s) (mr_head s) as" using as by (simp add: registry_ok_def)
    have a: "a \<notin> set as" using registry_mem [OF path, of a] caller(2) by auto
    have "mod_path (mr_mods s') (mr_head s) as" by (rule mod_path_frame [OF path]) (use a caller(1) in auto)
    moreover have "x \<in> set as \<Longrightarrow> mod_name (mr_mods s') x = mod_name (mr_mods s) x" for x using a caller(1) by (auto simp: mod_name_upd)
    ultimately have "registry_ok s' as" using as a caller(1) by (auto simp: registry_ok_def inj_on_def)
    then show ?thesis by blast
  next
    case (register a k r k')
    show ?thesis
    proof (cases "mr_mods s a")
      case None
      then have "s' = s" using register by (auto simp: module_register_def split: if_split_asm)
      then show ?thesis using as by blast
    next
      case (Some m)
      then show ?thesis using register_ok [OF as Some _ register] names as by (auto split: if_split_asm)
    qed
  next
    case (unregister n k r k')
    then show ?thesis using unregister_ok [OF as unregister] as by auto
  qed
  then show ?thesis using registry_step_names [OF assms(1) names] by (simp add: registry_inv_def)
qed

text \<open>In every history of the registry its list holds different modules under different names, each in state
  LOADED, and the count is the length of the list.\<close>

theorem registry_names_distinct:
  assumes "(registry_step run)\<^sup>*\<^sup>* \<lparr>mr_head = 0, mr_count = 0, mr_mods = (\<lambda>_. None)\<rparr> s"
  shows "\<exists>as. registry_ok s as"
proof -
  have "registry_inv \<lparr>mr_head = 0, mr_count = 0, mr_mods = (\<lambda>_. None)\<rparr>"
    by (auto simp: registry_inv_def registry_ok_def intro!: exI [of _ "[]"])
  with assms have "registry_inv s" by (induction rule: rtranclp_induct) (auto intro: registry_step_inv)
  then show ?thesis by (simp add: registry_inv_def)
qed

theorem registry_names_distinct_witness:
  "\<exists>s as. (registry_step (\<lambda>f k. Some (0, k :: pkern)))\<^sup>*\<^sup>* \<lparr>mr_head = 0, mr_count = 0, mr_mods = (\<lambda>_. None)\<rparr> s
    \<and> registry_ok s as \<and> mr_head s = 0x3000"
proof -
  let ?s0 = "\<lparr>mr_head = 0, mr_count = 0, mr_mods = (\<lambda>_. None)\<rparr> :: registry"
  let ?m = "\<lparr>md_name = ''net'' @ [NUL], md_author = [NUL], md_version = [NUL], md_init = 0, md_cleanup = 0, md_state = 0, md_next = 0\<rparr>"
  let ?s1 = "?s0\<lparr>mr_mods := [0x3000 \<mapsto> ?m]\<rparr>" and ?run = "\<lambda>f k. Some (0, k :: pkern)"
  let ?s2 = "?s1\<lparr>mr_mods := [0x3000 \<mapsto> ?m\<lparr>md_state := 1\<rparr>], mr_head := 0x3000, mr_count := 1\<rparr>"
  have 1: "registry_step ?run ?s0 ?s1" using registry_step.caller [of ?s0 "0x3000" ?m ?run] by simp
  let ?fmt = "''Module: Loaded '' @ CHR 0x27 # ''%s'' @ CHR 0x27 # '' v%s by %s'' @ [CHR 0x0A]"
  let ?args = "[VA_str (Some (''net'' @ [NUL])), VA_str (Some [NUL]), VA_str (Some [NUL])]"
  have "\<exists>out. printk_text ?fmt ?args = Some out" by simp
  then obtain out where "printk_text ?fmt ?args = Some out" by blast
  from printk_defined [OF console_example_ok _ this] have "\<exists>c. printk (Some (?fmt @ [NUL])) ?args console_example = Some c" by auto
  then obtain c where "module_register ?run 0x3000 ?s1 pkern_example = Some (0, ?s2, pkern_example\<lparr>k_con := c\<rparr>)"
    by (auto simp: module_register_def module_find_def module_find_from.simps run_init_def k_printk_def)
  then have 2: "registry_step ?run ?s1 ?s2" by (rule registry_step.register)
  from 1 2 have "(registry_step ?run)\<^sup>*\<^sup>* ?s0 ?s2" by (meson converse_rtranclp_into_rtranclp r_into_rtranclp)
  with registry_names_distinct [OF this] show ?thesis by auto
qed

end
