(* ===== verification/Initrd.thy ===== *)
theory Initrd
  imports Address_Space
begin

text \<open>
  The table of the programs linked into the kernel, \<^verbatim>\<open>kernel/initrd.c\<close>.  The linker's symbols
  \<^verbatim>\<open>_binary_..._start\<close> and \<^verbatim>\<open>_binary_..._end\<close> delimit an array that is not part of the source: a
  \<open>blob\<close>, its address and its bytes, is a parameter of \<open>initrd_init\<close>.
\<close>

record blob =
  bl_addr :: u32
  bl_bytes :: "u8 list"

record initrd_file =
  id_name :: "char list"
  id_data :: "blob option"
  id_size :: u32

record initrd =
  id_files :: "initrd_file list"
  id_count :: u32

abbreviation (input) MAX_INITRD_FILES :: nat where "MAX_INITRD_FILES \<equiv> 32"

definition blob_size :: "blob \<Rightarrow> u32" where
  "blob_size b = of_nat (length (bl_bytes b))"

text \<open>The stanza that \<open>initrd_init\<close> repeats for each array; \<open>m\<close> is \<^verbatim>\<open>mod_count\<close>.\<close>

definition initrd_add :: "bool \<Rightarrow> string \<Rightarrow> blob \<Rightarrow> initrd \<times> u32 \<Rightarrow> (initrd \<times> u32) option" where
  "initrd_add is_module name b = (\<lambda>(s, m).
     if blob_size b > 0
     then if unat (id_count s) < length (id_files s)
          then do {
            let i = unat (id_count s);
            nm \<leftarrow> strncpy (id_name (id_files s ! i)) (name @ [NUL]) 63;
            Some (s\<lparr>id_files := (id_files s)[i := \<lparr>id_name = nm, id_data = Some b, id_size = blob_size b\<rparr>],
                    id_count := id_count s + 1\<rparr>,
                  if is_module then m + 1 else m)
          }
          else None
     else Some (s, m))"

definition initrd_init :: "blob \<Rightarrow> blob \<Rightarrow> blob \<Rightarrow> blob \<Rightarrow> blob \<Rightarrow> initrd \<Rightarrow> 'a kern_scheme \<Rightarrow> (initrd \<times> 'a kern_scheme) option" where
  "initrd_init init_elf shell_user_elf hello_ko counter_ko sysinfo_mod_ko s k = do {
     st \<leftarrow> initrd_add False ''init.elf'' init_elf (s\<lparr>id_count := 0\<rparr>, 0);
     st \<leftarrow> initrd_add False ''shell_user.elf'' shell_user_elf st;
     st \<leftarrow> initrd_add True ''hello.ko'' hello_ko st;
     st \<leftarrow> initrd_add True ''counter.ko'' counter_ko st;
     (s, m) \<leftarrow> initrd_add True ''sysinfo_mod.ko'' sysinfo_mod_ko st;
     k \<leftarrow> k_printk (''Initrd: Embedded RAM disk loaded with %u binary files (including %u modules)'' @ [CHR 0x0A])
            [VA_word (id_count s), VA_word m] k;
     Some (s, k)
   }"

fun find_file :: "char list \<Rightarrow> initrd_file list \<Rightarrow> initrd_file option option" where
  "find_file name [] = Some None"
| "find_file name (f # fs) = do {
     c \<leftarrow> strcmp (Some (id_name f)) (Some name);
     if c = 0 then Some (Some f) else find_file name fs
   }"

text \<open>\<open>out\<close> is what \<^verbatim>\<open>size\<close> points to, \<^term>\<open>None\<close> for a null pointer.\<close>

definition initrd_get_file :: "cptr \<Rightarrow> u32 option \<Rightarrow> initrd \<Rightarrow> (blob option \<times> u32 option) option" where
  "initrd_get_file name out s =
     (case name of
        None \<Rightarrow> Some (None, out)
      | Some n \<Rightarrow> do {
          hit \<leftarrow> find_file n (take (unat (id_count s)) (id_files s));
          Some (case hit of
                  None \<Rightarrow> (None, map_option (\<lambda>_. 0) out)
                | Some f \<Rightarrow> (id_data f, map_option (\<lambda>_. id_size f) out))
        })"

fun initrd_list_from :: "initrd_file list \<Rightarrow> 'a kern_scheme \<Rightarrow> 'a kern_scheme option" where
  "initrd_list_from [] k = Some k"
| "initrd_list_from (f # fs) k = do {
     k \<leftarrow> k_printk (''  %-20s %u bytes (Address: 0x%x)'' @ [CHR 0x0A])
            [VA_str (Some (id_name f)), VA_word (id_size f),
             VA_word (case id_data f of None \<Rightarrow> 0 | Some b \<Rightarrow> bl_addr b)] k;
     initrd_list_from fs k
   }"

definition initrd_list :: "initrd \<Rightarrow> 'a kern_scheme \<Rightarrow> 'a kern_scheme option" where
  "initrd_list s k = do {
     k \<leftarrow> k_printk (''INITRD EMBEDDED BINARIES:'' @ [CHR 0x0A]) [] k;
     k \<leftarrow> k_printk (''----------------------------------------'' @ [CHR 0x0A]) [] k;
     initrd_list_from (take (unat (id_count s)) (id_files s)) k
   }"

section \<open>The table as an association list\<close>

text \<open>The entries in use, as name and array.\<close>

definition initrd_view :: "initrd \<Rightarrow> (string \<times> blob option) list" where
  "initrd_view s = map (\<lambda>f. (cstr (id_name f), id_data f)) (take (unat (id_count s)) (id_files s))"

definition id_ok :: "initrd_file \<Rightarrow> bool" where
  "id_ok f \<longleftrightarrow> length (id_name f) = 64 \<and> id_name f ! 63 = NUL"

definition initrd_wf :: "initrd \<Rightarrow> bool" where
  "initrd_wf s \<longleftrightarrow> length (id_files s) = 32 \<and> (\<forall>f \<in> set (id_files s). id_ok f)
     \<and> (\<forall>f \<in> set (take (unat (id_count s)) (id_files s)). \<exists>b. id_data f = Some b \<and> id_size f = blob_size b)"

definition embedded :: "string \<Rightarrow> blob \<Rightarrow> (string \<times> blob option) list" where
  "embedded n b = (if bl_bytes b = [] then [] else [(n, Some b)])"

lemma blob_size_pos: "length (bl_bytes b) < 2 ^ 32 \<Longrightarrow> blob_size b > 0 \<longleftrightarrow> bl_bytes b \<noteq> []"
  by (simp add: blob_size_def word_less_nat_alt unat_of_nat take_bit_nat_eq_self)

lemma initrd_add_ok:
  assumes "initrd_wf s" and "unat (id_count s) < 31" and "length (bl_bytes b) < 2 ^ 32"
    and "NUL \<notin> set n" and "length n < 64"
  shows "\<exists>s' m'. initrd_add q n b (s, m) = Some (s', m') \<and> initrd_wf s' \<and> unat (id_count s') \<le> Suc (unat (id_count s))
    \<and> initrd_view s' = initrd_view s @ embedded n b"
proof (cases "bl_bytes b = []")
  case True
  then show ?thesis using blob_size_pos [OF assms(3)] assms(1) by (simp add: initrd_add_def embedded_def)
next
  case False
  let ?i = "unat (id_count s)"
  let ?f = "id_files s ! ?i"
  have len: "length (id_files s) = 32" and i: "?i < 32" and all: "\<forall>f \<in> set (id_files s). id_ok f"
    using assms(1,2) by (auto simp: initrd_wf_def)
  then have ok: "length (id_name ?f) = 64" "id_name ?f ! 63 = NUL" by (auto simp: id_ok_def)
  obtain nm where nm: "strncpy (id_name ?f) (n @ [NUL]) 63 = Some nm"
    using strncpy_eq [of "n @ [NUL]" 63 "id_name ?f"] ok(1) by simp
  have c: "cstr nm = n" "length nm = 64" "nm ! 63 = NUL"
    using cstr_strncpy [of "n @ [NUL]" 63 "id_name ?f" nm] ok nm assms(4,5) by simp_all
  define f where "f = \<lparr>id_name = nm, id_data = Some b, id_size = blob_size b\<rparr>"
  define s' where "s' = s\<lparr>id_files := (id_files s)[?i := f], id_count := id_count s + 1\<rparr>"
  have u: "unat (id_count s + 1) = Suc ?i" using unat_Suc_small [of "id_count s" 1] assms(2) by simp
  have t: "take (Suc ?i) ((id_files s)[?i := f]) = take ?i (id_files s) @ [f]"
    using i len by (simp add: take_Suc_conv_app_nth)
  have "id_ok f" "\<exists>b. id_data f = Some b \<and> id_size f = blob_size b" using c by (simp_all add: f_def id_ok_def)
  then have "initrd_wf s'"
    using assms(1) all by (auto simp: initrd_wf_def s'_def u t dest!: set_update_subset_insert [THEN subsetD])
  moreover have "initrd_view s' = initrd_view s @ embedded n b"
    unfolding initrd_view_def s'_def using False c by (simp add: u t embedded_def) (simp add: f_def)
  moreover have "\<exists>m'. initrd_add q n b (s, m) = Some (s', m')"
    using nm False blob_size_pos [OF assms(3)] i len by (simp add: initrd_add_def Let_def s'_def f_def)
  ultimately show ?thesis using u by (auto simp: s'_def)
qed

lemma find_file_eq:
  assumes "\<forall>f \<in> set fs. id_ok f" and "NUL \<in> set b"
  shows "find_file b fs = Some (find (\<lambda>f. cstr (id_name f) = cstr b) fs)"
  using assms(1)
proof (induction fs)
  case (Cons f fs)
  have "NUL \<in> set (id_name f)" using Cons.prems nth_mem [of 63 "id_name f"] by (auto simp: id_ok_def)
  from strcmp_ok [OF this assms(2)] obtain c where "strcmp (Some (id_name f)) (Some b) = Some c"
    "c = 0 \<longleftrightarrow> cstr (id_name f) = cstr b" .
  then show ?case using Cons by simp
qed simp

lemma initrd_get_file_eq:
  assumes "initrd_wf s" and "NUL \<in> set b"
  shows "initrd_get_file (Some b) (Some z) s = Some (case map_of (initrd_view s) (cstr b) of
      Some (Some bl) \<Rightarrow> (Some bl, Some (blob_size bl)) | _ \<Rightarrow> (None, Some 0))"
proof -
  let ?fs = "take (unat (id_count s)) (id_files s)"
  have ok: "\<forall>f \<in> set ?fs. id_ok f" using assms(1) by (auto simp: initrd_wf_def dest: in_set_takeD)
  have d: "\<forall>f \<in> set ?fs. \<exists>b. id_data f = Some b \<and> id_size f = blob_size b" using assms(1) by (simp add: initrd_wf_def)
  have "(case find (\<lambda>f. cstr (id_name f) = cstr b) fs of None \<Rightarrow> (None, Some 0) | Some f \<Rightarrow> (id_data f, Some (id_size f)))
     = (case map_of (map (\<lambda>f. (cstr (id_name f), id_data f)) fs) (cstr b) of
          Some (Some bl) \<Rightarrow> (Some bl, Some (blob_size bl)) | _ \<Rightarrow> (None, Some 0))"
    if "\<forall>f \<in> set fs. \<exists>b. id_data f = Some b \<and> id_size f = blob_size b" for fs
    using that by (induction fs) auto
  from this [OF d] show ?thesis
    using find_file_eq [OF ok assms(2)] unfolding initrd_get_file_def initrd_view_def by (auto split: option.splits)
qed

definition initrd_names :: "string list" where
  "initrd_names = [''init.elf'', ''shell_user.elf'', ''hello.ko'', ''counter.ko'', ''sysinfo_mod.ko'']"

lemma initrd_start:
  "length (id_files s) = 32 \<Longrightarrow> \<forall>f \<in> set (id_files s). id_ok f \<Longrightarrow> initrd_wf (s\<lparr>id_count := 0\<rparr>)
     \<and> initrd_view (s\<lparr>id_count := 0\<rparr>) = []"
  by (simp add: initrd_wf_def initrd_view_def)

text \<open>The five steps of \<open>initrd_init\<close>.\<close>

lemma initrd_init_view:
  assumes "length (id_files s) = 32" and "\<forall>f \<in> set (id_files s). id_ok f" and "vga_ok (k_con k)"
    and "\<forall>b \<in> {b0, b1, b2, b3, b4}. length (bl_bytes b) < 2 ^ 32"
  shows "\<exists>s' c. initrd_init b0 b1 b2 b3 b4 s k = Some (s', k\<lparr>k_con := c\<rparr>) \<and> vga_ok c \<and> initrd_wf s'
    \<and> initrd_view s' = concat (map (\<lambda>(n, b). embedded n b) (zip initrd_names [b0, b1, b2, b3, b4]))"
proof -
  note add = initrd_add_ok
  obtain s1 m1 where 1: "initrd_add False ''init.elf'' b0 (s\<lparr>id_count := 0\<rparr>, 0) = Some (s1, m1)" "initrd_wf s1"
    "unat (id_count s1) \<le> 1" "initrd_view s1 = embedded ''init.elf'' b0"
    using add [of "s\<lparr>id_count := 0\<rparr>" b0 "''init.elf''" False 0] initrd_start [OF assms(1,2)] assms(4) by auto
  obtain s2 m2 where 2: "initrd_add False ''shell_user.elf'' b1 (s1, m1) = Some (s2, m2)" "initrd_wf s2"
    "unat (id_count s2) \<le> 2" "initrd_view s2 = initrd_view s1 @ embedded ''shell_user.elf'' b1"
    using add [OF 1(2), of b1 "''shell_user.elf''" False m1] 1(3) assms(4) by auto
  obtain s3 m3 where 3: "initrd_add True ''hello.ko'' b2 (s2, m2) = Some (s3, m3)" "initrd_wf s3"
    "unat (id_count s3) \<le> 3" "initrd_view s3 = initrd_view s2 @ embedded ''hello.ko'' b2"
    using add [OF 2(2), of b2 "''hello.ko''" True m2] 2(3) assms(4) by auto
  obtain s4 m4 where 4: "initrd_add True ''counter.ko'' b3 (s3, m3) = Some (s4, m4)" "initrd_wf s4"
    "unat (id_count s4) \<le> 4" "initrd_view s4 = initrd_view s3 @ embedded ''counter.ko'' b3"
    using add [OF 3(2), of b3 "''counter.ko''" True m3] 3(3) assms(4) by auto
  obtain s5 m5 where 5: "initrd_add True ''sysinfo_mod.ko'' b4 (s4, m4) = Some (s5, m5)" "initrd_wf s5"
    "initrd_view s5 = initrd_view s4 @ embedded ''sysinfo_mod.ko'' b4"
    using add [OF 4(2), of b4 "''sysinfo_mod.ko''" True m4] 4(3) assms(4) by auto
  let ?fmt = "''Initrd: Embedded RAM disk loaded with %u binary files (including %u modules)'' @ [CHR 0x0A]"
  have "\<exists>out. printk_text ?fmt [VA_word (id_count s5), VA_word m5] = Some out" by simp
  then obtain out where o: "printk_text ?fmt [VA_word (id_count s5), VA_word m5] = Some out" ..
  have "NUL \<notin> set ?fmt" by simp
  from k_printk_ok [OF assms(3) this o] obtain c where c: "k_printk ?fmt [VA_word (id_count s5), VA_word m5] k = Some (k\<lparr>k_con := c\<rparr>)"
    "vga_ok c" .
  have "initrd_init b0 b1 b2 b3 b4 s k = Some (s5, k\<lparr>k_con := c\<rparr>)"
    using 1(1) 2(1) 3(1) 4(1) 5(1) c(1) by (simp add: initrd_init_def)
  then show ?thesis using 1(4) 2(4) 3(4) 4(4) 5(2,3) c(2) by (auto simp: initrd_names_def)
qed

lemma map_of_embedded:
  "distinct (map fst xs) \<Longrightarrow> map_of (concat (map (\<lambda>(n, b). embedded n b) xs)) n
     = (case map_of xs n of Some b \<Rightarrow> if bl_bytes b = [] then None else Some (Some b) | None \<Rightarrow> None)"
proof (induction xs)
  case (Cons x xs)
  obtain m b where x: "x = (m, b)" by (cases x)
  then have "map_of xs m = None" using Cons.prems by (simp add: map_of_eq_None_iff)
  then show ?case using Cons x by (auto simp: embedded_def map_add_def split: option.splits)
qed simp

text \<open>After \<open>initrd_init\<close> each of the five names finds exactly the array linked under it and its size, when
  that array is not empty, and every other name finds a null pointer and size 0; what the table held before does not
  matter.\<close>

theorem initrd_get_file_correct:
  assumes "length (id_files s) = 32" and "\<forall>f \<in> set (id_files s). id_ok f" and "vga_ok (k_con k)"
    and "\<forall>b \<in> {b0, b1, b2, b3, b4}. length (bl_bytes b) < 2 ^ 32" and "NUL \<in> set n"
  shows "\<exists>s' k'. initrd_init b0 b1 b2 b3 b4 s k = Some (s', k') \<and> initrd_get_file (Some n) (Some z) s' = Some
    (case map_of (zip initrd_names [b0, b1, b2, b3, b4]) (cstr n) of
       Some b \<Rightarrow> if bl_bytes b = [] then (None, Some 0) else (Some b, Some (blob_size b))
     | None \<Rightarrow> (None, Some 0))"
proof -
  obtain s' c where s': "initrd_init b0 b1 b2 b3 b4 s k = Some (s', k\<lparr>k_con := c\<rparr>)" "initrd_wf s'"
    "initrd_view s' = concat (map (\<lambda>(n, b). embedded n b) (zip initrd_names [b0, b1, b2, b3, b4]))"
    using initrd_init_view [OF assms(1-4)] by blast
  have d: "distinct (map fst (zip initrd_names [b0, b1, b2, b3, b4]))" by (simp add: initrd_names_def)
  show ?thesis
    using s'(1) initrd_get_file_eq [OF s'(2) assms(5), of z] unfolding s'(3) map_of_embedded [OF d]
    by (auto split: option.splits)
qed

definition initrd_blank :: initrd where
  "initrd_blank = \<lparr>id_files = replicate 32 \<lparr>id_name = replicate 64 NUL, id_data = None, id_size = 0\<rparr>, id_count = 0\<rparr>"

definition kern_blank :: kern where
  "kern_blank = \<lparr>k_pmm = phys_mgr vm_example, k_heap = heap_example, k_vm = vm_example, k_con = console_example\<rparr>"

theorem initrd_get_file_correct_witness:
  "\<exists>s' k'. initrd_init \<lparr>bl_addr = 0x1000, bl_bytes = [1, 2, 3]\<rparr> \<lparr>bl_addr = 0x2000, bl_bytes = []\<rparr> \<lparr>bl_addr = 0x2000, bl_bytes = [9]\<rparr>
       \<lparr>bl_addr = 0x3000, bl_bytes = []\<rparr> \<lparr>bl_addr = 0x3000, bl_bytes = []\<rparr> initrd_blank kern_blank = Some (s', k')
     \<and> initrd_get_file (Some (''hello.ko'' @ [NUL])) (Some 0) s' = Some (Some \<lparr>bl_addr = 0x2000, bl_bytes = [9]\<rparr>, Some 1)"
  using initrd_get_file_correct [of initrd_blank kern_blank "\<lparr>bl_addr = 0x1000, bl_bytes = [1, 2, 3]\<rparr>"
      "\<lparr>bl_addr = 0x2000, bl_bytes = []\<rparr>" "\<lparr>bl_addr = 0x2000, bl_bytes = [9]\<rparr>" "\<lparr>bl_addr = 0x3000, bl_bytes = []\<rparr>"
      "\<lparr>bl_addr = 0x3000, bl_bytes = []\<rparr>" "''hello.ko'' @ [NUL]" 0] console_example_ok
  by (simp add: initrd_blank_def id_ok_def kern_blank_def initrd_names_def blob_size_def)

end
