(* ===== verification/Procfs.thy ===== *)
theory Procfs
  imports Ram_Fs Klog Cpu_Id Module_Loader
begin

text \<open>
  The file system of kernel information, \<^verbatim>\<open>fs/procfs.c\<close>.  Its nodes are \<open>Proc_Root\<close> and
  \<open>Proc_Node i\<close> of the store of \<open>Ram_Fs\<close>.  What its files report on is the state of other parts of the
  kernel: the memory managers are those of \<open>kern\<close>, the others are the record \<open>proc_env\<close>.
\<close>

record proc_env =
  pe_ticks :: u32
  pe_flags :: "u32 \<times> u32"
  pe_cpuid :: "u32 \<Rightarrow> cpuid_regs"
  pe_modules :: modules
  pe_pci_count :: u32
  pe_ata_count :: u8
  pe_klog :: klog_ring

abbreviation (input) PROC_NUM_FILES :: nat where "PROC_NUM_FILES \<equiv> 10"

definition proc_file_names :: "string list" where
  "proc_file_names = [''version'', ''uptime'', ''meminfo'', ''cpuinfo'', ''devices'', ''modules'', ''tasks'', ''pci'',
     ''disk'', ''klog'']"

section \<open>The contents\<close>

text \<open>\<^verbatim>\<open>utoa(v, tmp, 10)\<close> with \<^verbatim>\<open>char tmp[128]\<close>, and \<^verbatim>\<open>strcat(buf, tmp)\<close>.\<close>

definition append_num :: "u32 \<Rightarrow> char list \<Rightarrow> char list option" where
  "append_num v buf = do { tmp \<leftarrow> utoa v (replicate 128 NUL) 10; strcat buf tmp }"

definition proc_line :: "string \<Rightarrow> u32 \<Rightarrow> string \<Rightarrow> char list \<Rightarrow> char list option" where
  "proc_line before v after buf = do {
     buf \<leftarrow> strcat buf (before @ [NUL]);
     buf \<leftarrow> append_num v buf;
     strcat buf (after @ [NUL])
   }"

definition proc_version :: "char list \<Rightarrow> char list option" where
  "proc_version buf = strcat buf (''Dionnex Monolithic Kernel v0.1.0 (Genesis)'' @ [CHR 0x0A] @ ''x86 32-bit Monolithic'' @ [CHR 0x0A]
     @ ''GPLv2'' @ [CHR 0x0A, NUL])"

definition proc_uptime :: "proc_env \<Rightarrow> char list \<Rightarrow> char list option" where
  "proc_uptime env buf = do {
     buf \<leftarrow> append_num (pe_ticks env div 1000) buf;
     strcat buf ('' seconds'' @ [CHR 0x0A, NUL])
   }"

definition proc_meminfo :: "'a kern_scheme \<Rightarrow> char list \<Rightarrow> char list option" where
  "proc_meminfo k buf = do {
     let total_p = pmm_get_total_count (k_pmm k);
     let free_p = pmm_get_free_count (k_pmm k);
     buf \<leftarrow> proc_line ''MemTotal:  '' (total_p * 4) ('' KB'' @ [CHR 0x0A]) buf;
     buf \<leftarrow> proc_line ''MemFree:   '' (free_p * 4) ('' KB'' @ [CHR 0x0A]) buf;
     buf \<leftarrow> proc_line ''MemUsed:   '' ((total_p - free_p) * 4) ('' KB'' @ [CHR 0x0A]) buf;
     hf \<leftarrow> heap_get_free (k_heap k);
     buf \<leftarrow> proc_line ''HeapFree:  '' (hf div 1024) ('' KB'' @ [CHR 0x0A]) buf;
     hu \<leftarrow> heap_get_used (k_heap k);
     proc_line ''HeapUsed:  '' (hu div 1024) ('' KB'' @ [CHR 0x0A]) buf
   }"

definition proc_cpuinfo :: "proc_env \<Rightarrow> char list \<Rightarrow> char list option" where
  "proc_cpuinfo env buf = do {
     v \<leftarrow> cpuid_get_vendor (pe_flags env) (pe_cpuid env) (Some (replicate 13 NUL));
     b \<leftarrow> cpuid_get_brand (pe_flags env) (pe_cpuid env) (Some (replicate 49 NUL));
     vendor \<leftarrow> v;
     brand \<leftarrow> b;
     append_all [''Vendor:   '' @ [NUL], vendor, [CHR 0x0A, NUL], ''Model:    '' @ [NUL], brand, [CHR 0x0A, NUL],
       ''Arch:     x86 32-bit'' @ [CHR 0x0A, NUL]] buf
   }"

definition proc_devices :: "char list \<Rightarrow> char list option" where
  "proc_devices buf = append_all
     [''Character Devices:'' @ [CHR 0x0A, NUL],
      ''  1 tty/vga'' @ [CHR 0x0A] @ ''  2 keyboard'' @ [CHR 0x0A] @ ''  3 serial/com1'' @ [CHR 0x0A] @ ''  4 rtc''
        @ [CHR 0x0A, CHR 0x0A, NUL],
      ''Block Devices:'' @ [CHR 0x0A, NUL],
      ''  1 ata/primary-master'' @ [CHR 0x0A] @ ''  2 ata/primary-slave'' @ [CHR 0x0A, NUL]] buf"

definition proc_tasks :: "char list \<Rightarrow> char list option" where
  "proc_tasks buf = append_all [''PID  NAME             STATE'' @ [CHR 0x0A, NUL], ''0    kernel_idle      RUNNING'' @ [CHR 0x0A, NUL]] buf"

text \<open>The chain of comparisons of \<open>procfs_generate_content\<close>: the first name that is equal decides.\<close>

fun select_file :: "char list \<Rightarrow> (string \<times> (char list \<Rightarrow> char list option)) list \<Rightarrow> char list \<Rightarrow> char list option" where
  "select_file name [] buf = Some buf"
| "select_file name ((n, gen) # files) buf = do {
     c \<leftarrow> strcmp (Some name) (Some (n @ [NUL]));
     if c = 0 then gen buf else select_file name files buf
   }"

definition proc_generators :: "proc_env \<Rightarrow> 'a kern_scheme \<Rightarrow> u32 \<Rightarrow> (string \<times> (char list \<Rightarrow> char list option)) list" where
  "proc_generators env k max_len =
     [(''version'', proc_version),
      (''uptime'', proc_uptime env),
      (''meminfo'', proc_meminfo k),
      (''cpuinfo'', proc_cpuinfo env),
      (''devices'', proc_devices),
      (''modules'', \<lambda>buf. Option.bind (module_get_proc_info (pe_modules env) (Some buf) max_len) snd),
      (''tasks'', proc_tasks),
      (''pci'', proc_line ''PCI Devices Count: '' (pe_pci_count env) [CHR 0x0A]),
      (''disk'', proc_line ''ATA Hard Disk Drives: '' (ucast (pe_ata_count env)) [CHR 0x0A]),
      (''klog'', \<lambda>buf. Option.bind (klog_read_bytes (Some buf) (max_len - 1) (pe_klog env)) snd)]"

definition procfs_generate_content :: "proc_env \<Rightarrow> 'a kern_scheme \<Rightarrow> cptr \<Rightarrow> cptr \<Rightarrow> u32 \<Rightarrow> (nat \<times> cptr) option" where
  "procfs_generate_content env k name buf max_len =
     (case (name, buf) of
        (Some n, Some b) \<Rightarrow>
          if max_len = 0 then Some (0, buf)
          else do {
            b \<leftarrow> put_at b 0 NUL;
            b \<leftarrow> select_file n (proc_generators env k max_len) b;
            len \<leftarrow> strlen_buf b;
            Some (len, Some b)
          }
      | _ \<Rightarrow> Some (0, buf))"

section \<open>The operations of its nodes\<close>

text \<open>The bytes of a block of the heap as characters, and back.\<close>

definition load_chars :: "u32 \<Rightarrow> nat \<Rightarrow> (u32 \<Rightarrow> u8) \<Rightarrow> char list" where
  "load_chars a n m = map (\<lambda>i. char_of (unat (m (a + of_nat i)))) [0..<n]"

definition store_chars :: "u32 \<Rightarrow> char list \<Rightarrow> (u32 \<Rightarrow> u8) \<Rightarrow> (u32 \<Rightarrow> u8)" where
  "store_chars a cs = store_put a (map of_char cs)"

definition procfs_vfs_read :: "proc_env \<Rightarrow> node_ref option \<Rightarrow> u32 \<Rightarrow> u32 \<Rightarrow> cptr \<Rightarrow> fs \<Rightarrow> 'a kern_scheme
    \<Rightarrow> (int \<times> cptr \<times> 'a kern_scheme) outcome" where
  "procfs_vfs_read env node offset len buf s k =
     (case (node, buf) of
        (Some r, Some b) \<Rightarrow>
          obind (k_kmalloc 2048 k) (\<lambda>(dyn, k).
          if dyn = 0 then Some (Inr (-1, buf, k))
          else obind (no_panic (procfs_generate_content env k (Some (vn_name (nodes s r)))
                        (Some (load_chars dyn 2048 (bytes (k_heap k)))) 2048)) (\<lambda>(total_len, content).
            let content = the content;
                k = on_bytes (store_chars dyn content) k
            in if offset \<ge> of_nat total_len
               then obind (k_kfree dyn k) (\<lambda>k. Some (Inr (0, buf, k)))
               else let to_read = (if offset + len > of_nat total_len then of_nat total_len - offset else len)
                    in obind (no_panic (memcpy_at b 0 content (unat offset) (unat to_read))) (\<lambda>b.
                       obind (k_kfree dyn k) (\<lambda>k. Some (Inr (sint to_read, Some b, k))))))
      | _ \<Rightarrow> Some (Inr (-1, buf, k)))"

definition procfs_vfs_readdir :: "u32 \<Rightarrow> node_ref option" where
  "procfs_vfs_readdir index = (if unat index < PROC_NUM_FILES then Some (Proc_Node (unat index)) else None)"

fun proc_find_from :: "char list \<Rightarrow> nat \<Rightarrow> string list \<Rightarrow> node_ref option option" where
  "proc_find_from name i [] = Some None"
| "proc_find_from name i (n # ns) = do {
     c \<leftarrow> strcmp (Some (n @ [NUL])) (Some name);
     if c = 0 then Some (Some (Proc_Node i)) else proc_find_from name (Suc i) ns
   }"

definition procfs_vfs_finddir :: "cptr \<Rightarrow> node_ref option option" where
  "procfs_vfs_finddir name = (case name of None \<Rightarrow> Some None | Some n \<Rightarrow> proc_find_from n 0 proc_file_names)"

definition procfs_get_root_node :: node_ref where
  "procfs_get_root_node = Proc_Root"

fun proc_init_nodes :: "nat list \<Rightarrow> fs \<Rightarrow> fs option" where
  "proc_init_nodes [] s = Some s"
| "proc_init_nodes (i # is) s = do {
     nm \<leftarrow> strncpy (vn_name zero_node) (proc_file_names ! i @ [NUL]) 127;
     proc_init_nodes is (set_node (Proc_Node i)
       (zero_node\<lparr>vn_name := nm, vn_flags := VFS_FILE, vn_inode := 100 + of_nat i, vn_ops := Some Procfs_Ops\<rparr>) s)
   }"

definition procfs_init :: "fs \<Rightarrow> 'a kern_scheme \<Rightarrow> (fs \<times> 'a kern_scheme) option" where
  "procfs_init s k = do {
     nm \<leftarrow> strcpy (vn_name zero_node) (''proc'' @ [NUL]);
     let s = set_node Proc_Root (zero_node\<lparr>vn_name := nm, vn_flags := VFS_DIR, vn_ops := Some Procfs_Ops\<rparr>) s;
     s \<leftarrow> proc_init_nodes [0..<PROC_NUM_FILES] s;
     k \<leftarrow> k_printk (''Procfs: /proc mounted'' @ [CHR 0x0A]) [] k;
     Some (s, k)
   }"

section \<open>Appending text to the buffer\<close>

text \<open>\<open>gen\<close> appends the text \<open>t\<close> to the string in its buffer whenever that fits.\<close>

definition appends :: "(char list \<Rightarrow> char list option) \<Rightarrow> string \<Rightarrow> bool" where
  "appends gen t \<longleftrightarrow> (\<forall>b. NUL \<in> set b \<longrightarrow> length (cstr b) + length t < length b \<longrightarrow>
     (\<exists>b'. gen b = Some b' \<and> NUL \<in> set b' \<and> cstr b' = cstr b @ t \<and> length b' = length b))"

lemma appendsD:
  assumes "appends gen t" and "NUL \<in> set b" and "length (cstr b) + length t < length b"
  obtains b' where "gen b = Some b'" "NUL \<in> set b'" "cstr b' = cstr b @ t" "length b' = length b"
  using assms unfolding appends_def by blast

lemma appends_strcat: "NUL \<in> set src \<Longrightarrow> appends (\<lambda>b. strcat b src) (cstr src)"
  by (auto simp: appends_def strcat_eq append_assoc [symmetric] simp del: append_assoc)

lemma appends_bind:
  assumes "appends f t" and "appends g u"
  shows "appends (\<lambda>b. Option.bind (f b) g) (t @ u)"
  unfolding appends_def
proof (intro allI impI)
  fix b assume b: "NUL \<in> set b" "length (cstr b) + length (t @ u) < length b"
  from appendsD [OF assms(1) b(1)] b(2) obtain b1 where b1: "f b = Some b1" "NUL \<in> set b1" "cstr b1 = cstr b @ t"
    "length b1 = length b" by auto
  with appendsD [OF assms(2) b1(2)] b(2) obtain b2 where "g b1 = Some b2" "NUL \<in> set b2" "cstr b2 = cstr b1 @ u"
    "length b2 = length b1" by auto
  with b1 show "\<exists>b'. Option.bind (f b) g = Some b' \<and> NUL \<in> set b' \<and> cstr b' = cstr b @ t @ u \<and> length b' = length b" by simp
qed

lemma appends_all: "\<forall>x \<in> set xs. NUL \<in> set x \<Longrightarrow> appends (append_all xs) (concat (map cstr xs))"
proof (induction xs)
  case Nil
  then show ?case by (simp add: append_all_def appends_def)
next
  case (Cons x xs)
  have "append_all (x # xs) = (\<lambda>b. Option.bind (strcat b x) (append_all xs))"
    by (intro ext) (simp add: append_all_def [abs_def])
  then show ?case using appends_bind [OF appends_strcat [of x] Cons.IH] Cons.prems by simp
qed

definition dec :: "u32 \<Rightarrow> string" where
  "dec v = num_digits 10 (unat v)"

lemma dec_ok: "NUL \<notin> set (dec v)" "length (dec v) \<le> 10"
  using NUL_notin_digits [of 10] length_num_digits_le [of 10 "unat v" 9] u32_unat_lt [of v] by (simp_all add: dec_def)

lemma appends_num: "appends (append_num v) (dec v)"
proof -
  let ?tmp = "dec v @ NUL # drop (Suc (length (dec v))) (replicate 128 NUL)"
  have "utoa v (replicate 128 NUL) 10 = Some ?tmp" using dec_ok(2) [of v] by (simp add: utoa_eq dec_def Let_def)
  then have "append_num v = (\<lambda>b. strcat b ?tmp)" by (simp add: append_num_def fun_eq_iff)
  moreover have "cstr ?tmp = dec v" by (rule cstr_append_NUL [OF dec_ok(1)])
  ultimately show ?thesis using appends_strcat [of ?tmp] by simp
qed

lemma appends_line:
  assumes "NUL \<notin> set l" and "NUL \<notin> set r"
  shows "appends (proc_line l v r) (l @ dec v @ r)"
proof -
  have "appends (\<lambda>b. Option.bind (strcat b (l @ [NUL])) (\<lambda>b. Option.bind (append_num v b) (\<lambda>b. strcat b (r @ [NUL]))))
          (cstr (l @ [NUL]) @ dec v @ cstr (r @ [NUL]))"
    by (intro appends_bind appends_strcat appends_num) simp_all
  moreover have "cstr (l @ [NUL]) = l" "cstr (r @ [NUL]) = r" using assms by simp_all
  ultimately show ?thesis by (simp add: proc_line_def [abs_def])
qed

section \<open>The texts\<close>

definition mem_lines :: "'a kern_scheme \<Rightarrow> (string \<times> u32) list" where
  "mem_lines k = [(''MemTotal:  '', total_pages (k_pmm k) * 4), (''MemFree:   '', free_pages (k_pmm k) * 4),
     (''MemUsed:   '', (total_pages (k_pmm k) - free_pages (k_pmm k)) * 4),
     (''HeapFree:  '', the (heap_get_free (k_heap k)) div 1024),
     (''HeapUsed:  '', the (heap_get_used (k_heap k)) div 1024)]"

definition mem_text :: "'a kern_scheme \<Rightarrow> string" where
  "mem_text k = concat (map (\<lambda>(l, v). l @ dec v @ '' KB'' @ [CHR 0x0A]) (mem_lines k))"

text \<open>The text of each file whose contents do not depend on a stale buffer.  The processor's names are given for a
  processor with \<^verbatim>\<open>cpuid\<close> and a brand string.\<close>

definition cpu_text :: "proc_env \<Rightarrow> string" where
  "cpu_text env = (let (eax, ebx, ecx, edx) = pe_cpuid env 0
     in ''Vendor:   '' @ cstr (word_chars ebx @ word_chars edx @ word_chars ecx @ [NUL]) @ [CHR 0x0A] @ ''Model:    ''
        @ dropWhile (\<lambda>c. c = CHR '' '') (cstr (brand_text (pe_cpuid env))) @ [CHR 0x0A] @ ''Arch:     x86 32-bit'' @ [CHR 0x0A])"

definition proc_texts :: "proc_env \<Rightarrow> 'a kern_scheme \<Rightarrow> (string \<times> string) list" where
  "proc_texts env k =
     [(''version'', ''Dionnex Monolithic Kernel v0.1.0 (Genesis)'' @ [CHR 0x0A] @ ''x86 32-bit Monolithic'' @ [CHR 0x0A]
         @ ''GPLv2'' @ [CHR 0x0A]),
      (''uptime'', dec (pe_ticks env div 1000) @ '' seconds'' @ [CHR 0x0A]),
      (''meminfo'', mem_text k),
      (''cpuinfo'', cpu_text env),
      (''devices'', ''Character Devices:'' @ [CHR 0x0A] @ ''  1 tty/vga'' @ [CHR 0x0A] @ ''  2 keyboard'' @ [CHR 0x0A]
         @ ''  3 serial/com1'' @ [CHR 0x0A] @ ''  4 rtc'' @ [CHR 0x0A, CHR 0x0A] @ ''Block Devices:'' @ [CHR 0x0A]
         @ ''  1 ata/primary-master'' @ [CHR 0x0A] @ ''  2 ata/primary-slave'' @ [CHR 0x0A]),
      (''tasks'', ''PID  NAME             STATE'' @ [CHR 0x0A] @ ''0    kernel_idle      RUNNING'' @ [CHR 0x0A]),
      (''pci'', ''PCI Devices Count: '' @ dec (pe_pci_count env) @ [CHR 0x0A]),
      (''disk'', ''ATA Hard Disk Drives: '' @ dec (ucast (pe_ata_count env)) @ [CHR 0x0A])]"

definition cpu_named :: "proc_env \<Rightarrow> bool" where
  "cpu_named env \<longleftrightarrow> cpuid_supported (pe_flags env) \<and> 0x80000004 \<le> fst (pe_cpuid env 0x80000000)"

lemma heap_counts:
  assumes "heap_wf h xs"
  obtains f u where "heap_get_free h = Some f" "heap_get_used h = Some u"
proof -
  note w = heap_wfD (1) [OF assms]
  have "heap_get_free h = Some (0 + (\<Sum>(a, sz, fr) \<leftarrow> xs. if fr then sz else 0))"
    unfolding heap_get_free_def using w by (intro heap_sum_from_seg) simp_all
  moreover have "heap_get_used h = Some (0 + (\<Sum>(a, sz, fr) \<leftarrow> xs. if \<not> fr then sz else 0))"
    unfolding heap_get_used_def using w by (intro heap_sum_from_seg) simp_all
  ultimately show ?thesis by (rule that)
qed

lemma appends_meminfo:
  assumes "heap_wf (k_heap k) xs"
  shows "appends (proc_meminfo k) (mem_text k)"
proof -
  obtain f u where fu: "heap_get_free (k_heap k) = Some f" "heap_get_used (k_heap k) = Some u"
    using heap_counts [OF assms] .
  let ?kb = "'' KB'' @ [CHR 0x0A]"
  let ?T = "total_pages (k_pmm k)" and ?F = "free_pages (k_pmm k)"
  have "appends (\<lambda>b. Option.bind (proc_line ''MemTotal:  '' (?T * 4) ?kb b)
      (\<lambda>b. Option.bind (proc_line ''MemFree:   '' (?F * 4) ?kb b)
      (\<lambda>b. Option.bind (proc_line ''MemUsed:   '' ((?T - ?F) * 4) ?kb b)
      (\<lambda>b. Option.bind (proc_line ''HeapFree:  '' (f div 1024) ?kb b) (proc_line ''HeapUsed:  '' (u div 1024) ?kb)))))
    ((''MemTotal:  '' @ dec (?T * 4) @ ?kb) @ (''MemFree:   '' @ dec (?F * 4) @ ?kb)
      @ (''MemUsed:   '' @ dec ((?T - ?F) * 4) @ ?kb)
      @ (''HeapFree:  '' @ dec (f div 1024) @ ?kb) @ (''HeapUsed:  '' @ dec (u div 1024) @ ?kb))" (is "appends ?g ?t")
    by (intro appends_bind appends_line) simp_all
  moreover have "proc_meminfo k = ?g"
    by (rule ext) (simp only: proc_meminfo_def Let_def fu pmm_get_total_count_def pmm_get_free_count_def Option.bind.simps)
  moreover have "mem_text k = ?t"
    by (simp only: mem_text_def mem_lines_def list.map concat.simps fu option.sel prod.case append_Nil2)
  ultimately show ?thesis by metis
qed

lemma appends_cpuinfo:
  assumes "cpu_named env"
  shows "appends (proc_cpuinfo env) (cpu_text env)"
proof -
  obtain eax ebx ecx edx where r: "pe_cpuid env 0 = (eax, ebx, ecx, edx)" by (cases "pe_cpuid env 0") auto
  let ?v = "word_chars ebx @ word_chars edx @ word_chars ecx @ [NUL]"
  have v: "cpuid_get_vendor (pe_flags env) (pe_cpuid env) (Some (replicate 13 NUL)) = Some (Some ?v)"
    using cpuid_get_vendor_correct [of "replicate 13 NUL" "pe_flags env" "pe_cpuid env" eax ebx ecx edx] r assms by (simp add: cpu_named_def)
  obtain b where b: "cpuid_get_brand (pe_flags env) (pe_cpuid env) (Some (replicate 49 NUL)) = Some (Some b)" "NUL \<in> set b"
    "cstr b = dropWhile (\<lambda>c. c = CHR '' '') (cstr (brand_text (pe_cpuid env)))"
    using cpuid_get_brand_correct [of "replicate 49 NUL" "pe_flags env" "pe_cpuid env"] assms by (auto simp: cpu_named_def)
  let ?l = "[''Vendor:   '' @ [NUL], ?v, [CHR 0x0A, NUL], ''Model:    '' @ [NUL], b, [CHR 0x0A, NUL],
       ''Arch:     x86 32-bit'' @ [CHR 0x0A, NUL]]"
  have "appends (append_all ?l) (concat (map cstr ?l))" using b(2) by (intro appends_all) simp
  moreover have "concat (map cstr ?l) = cpu_text env" by (simp add: cpu_text_def r b(3))
  moreover have "proc_cpuinfo env = append_all ?l" by (simp add: proc_cpuinfo_def [abs_def] v b(1))
  ultimately show ?thesis by metis
qed

lemma select_file_eq:
  assumes "NUL \<in> set name" and "\<forall>(n, g) \<in> set files. NUL \<notin> set n"
  shows "select_file name files buf = (case map_of files (cstr name) of None \<Rightarrow> Some buf | Some g \<Rightarrow> g buf)"
  using assms(2)
proof (induction files)
  case (Cons f files)
  obtain n g where f: "f = (n, g)" by (cases f)
  have n: "NUL \<in> set (n @ [NUL])" "cstr (n @ [NUL]) = n" using Cons.prems f by simp_all
  from strcmp_ok [OF assms(1) n(1)] obtain c where "strcmp (Some name) (Some (n @ [NUL])) = Some c" "c = 0 \<longleftrightarrow> cstr name = n"
    using n(2) by metis
  then show ?case using Cons f by auto
qed simp

lemma mem_text_length: "length (mem_text k) \<le> 125"
proof -
  have "length (concat (map (\<lambda>(l, v). l @ dec v @ '' KB'' @ [CHR 0x0A]) xs)) \<le> (\<Sum>(l, v) \<leftarrow> xs. length l + 14)"
    for xs :: "(string \<times> u32) list"
  proof (induction xs)
    case (Cons x xs)
    then show ?case using dec_ok(2) [of "snd x"] by (cases x) simp
  qed simp
  from this [of "mem_lines k"] show ?thesis by (simp add: mem_text_def) (simp add: mem_lines_def)
qed

lemma cpu_text_length: "length (cpu_text env) \<le> 110"
proof -
  have d: "length (dropWhile P (cstr (brand_text c))) \<le> 48" for P c
    using length_dropWhile_le [of P "cstr (brand_text c)"] length_cstr_le [of "brand_text c"] by simp
  have v: "length (cstr (word_chars a @ word_chars b @ word_chars c @ [NUL])) \<le> 13" for a b c
    using length_cstr_le [of "word_chars a @ word_chars b @ word_chars c @ [NUL]"] by simp
  obtain eax ebx ecx edx where r: "pe_cpuid env 0 = (eax, ebx, ecx, edx)" by (cases "pe_cpuid env 0") auto
  show ?thesis
    using d [of "\<lambda>c. c = CHR '' ''" "pe_cpuid env"] v [of ebx edx ecx] by (simp add: cpu_text_def r)
qed

lemma appends_cstr: "NUL \<in> set src \<Longrightarrow> cstr src = t \<Longrightarrow> appends (\<lambda>b. strcat b src) t"
  using appends_strcat [of src] by simp

lemma appends_uptime: "appends (proc_uptime env) (dec (pe_ticks env div 1000) @ '' seconds'' @ [CHR 0x0A])"
  using appends_bind [OF appends_num appends_cstr [of "'' seconds'' @ [CHR 0x0A, NUL]" "'' seconds'' @ [CHR 0x0A]"]]
  by (simp add: proc_uptime_def [abs_def])

lemma appends_list:
  assumes "\<forall>x \<in> set xs. NUL \<in> set x" and "concat (map cstr xs) = t"
  shows "appends (append_all xs) t"
  using appends_all [OF assms(1)] assms(2) by simp

lemma proc_generator:
  assumes "map_of (proc_texts env k) n = Some t" and "n = ''cpuinfo'' \<longrightarrow> cpu_named env" and "heap_wf (k_heap k) xs"
  shows "\<exists>g. map_of (proc_generators env k m) n = Some g \<and> appends g t \<and> length t \<le> 200"
proof -
  have v: "appends proc_version (''Dionnex Monolithic Kernel v0.1.0 (Genesis)'' @ [CHR 0x0A] @ ''x86 32-bit Monolithic'' @ [CHR 0x0A]
         @ ''GPLv2'' @ [CHR 0x0A])"
    unfolding proc_version_def [abs_def] by (rule appends_cstr) simp_all
  have d: "appends proc_devices (''Character Devices:'' @ [CHR 0x0A] @ ''  1 tty/vga'' @ [CHR 0x0A] @ ''  2 keyboard'' @ [CHR 0x0A]
         @ ''  3 serial/com1'' @ [CHR 0x0A] @ ''  4 rtc'' @ [CHR 0x0A, CHR 0x0A] @ ''Block Devices:'' @ [CHR 0x0A]
         @ ''  1 ata/primary-master'' @ [CHR 0x0A] @ ''  2 ata/primary-slave'' @ [CHR 0x0A])"
    unfolding proc_devices_def [abs_def] by (rule appends_list) simp_all
  have t: "appends proc_tasks (''PID  NAME             STATE'' @ [CHR 0x0A] @ ''0    kernel_idle      RUNNING'' @ [CHR 0x0A])"
    unfolding proc_tasks_def [abs_def] by (rule appends_list) simp_all
  note lines = appends_line [of "''PCI Devices Count: ''" "[CHR 0x0A]" "pe_pci_count env"]
    appends_line [of "''ATA Hard Disk Drives: ''" "[CHR 0x0A]" "ucast (pe_ata_count env)"]
  have "t \<in> snd ` {x \<in> set (proc_texts env k). fst x = n}" using map_of_SomeD [OF assms(1)] by force
  note cases = assms(1) [unfolded proc_texts_def map_of.simps fun_upd_apply fst_conv snd_conv]
  have len: "length t \<le> 200"
    using cases mem_text_length [of k] cpu_text_length [of env] dec_ok(2) [of "pe_ticks env div 1000"] dec_ok(2) [of "pe_pci_count env"]
      dec_ok(2) [of "ucast (pe_ata_count env)"]
    by (auto split: if_split_asm)
  have "\<exists>g. map_of (proc_generators env k m) n = Some g \<and> appends g t"
    using cases v d t lines appends_uptime [of env] appends_meminfo [OF assms(3)] appends_cpuinfo [of env] assms(2)
    by (auto simp: proc_generators_def split: if_split_asm)
  then show ?thesis using len by blast
qed

lemma generator_names: "\<forall>(n, g) \<in> set (proc_generators env k m). NUL \<notin> set n"
  by (simp add: proc_generators_def)

lemma procfs_generate_ok:
  assumes "map_of (proc_texts env k) (cstr name) = Some t" and "cstr name = ''cpuinfo'' \<longrightarrow> cpu_named env"
    and "heap_wf (k_heap k) xs" and "NUL \<in> set name" and "length b = 2048"
  obtains b' where "procfs_generate_content env k (Some name) (Some b) 2048 = Some (length t, Some b')"
    "length b' = 2048" "NUL \<in> set b'" "cstr b' = t"
proof -
  obtain c bs where b: "b = c # bs" using assms(5) by (cases b) auto
  obtain g where g: "map_of (proc_generators env k 2048) (cstr name) = Some g" "appends g t" "length t \<le> 200"
    using proc_generator [OF assms(1-3)] by blast
  from appendsD [OF g(2), of "NUL # bs"] g(3) assms(5) b obtain b' where b': "g (NUL # bs) = Some b'" "NUL \<in> set b'"
    "cstr b' = t" "length b' = 2048" by auto
  have "put_at b 0 NUL = Some (NUL # bs)" by (simp add: b put_at_def)
  then have "procfs_generate_content env k (Some name) (Some b) 2048 = Some (length t, Some b')"
    using b' g(1) by (simp add: procfs_generate_content_def select_file_eq [OF assms(4) generator_names] strlen_buf_eq)
  from that [OF this b'(4,2,3)] show ?thesis .
qed

section \<open>A block taken for the duration of a call\<close>

lemma k_kmalloc_ok:
  assumes "heap_wf (k_heap k) xs" and "0 < sz" and "(b, bz, True) \<in> set xs" and "ALIGN_UP sz 4 \<le> bz"
  obtains a az k1 ys where "k_kmalloc sz k = Some (Inr (a + HDR, k1))" "a + HDR \<noteq> 0" "heap_wf (k_heap k1) ys"
    "used_blocks ys = insert (a, az) (used_blocks xs)" "(a, az) \<notin> used_blocks xs"
    "k_vm k1 = k_vm k" "k_con k1 = k_con k" "k_pmm k1 = heap_pmm (k_heap k1)"
proof -
  let ?h = "(k_heap k)\<lparr>heap_pmm := k_pmm k\<rparr>"
  have wf: "heap_wf ?h xs" using assms(1) by (simp add: heap_wf_def)
  obtain p ys where fit: "fit_alloc (ALIGN_UP sz 4) xs = Some (p, ys)" using fit_alloc_exists [OF assms(3,4)] by blast
  obtain a sz1 az where a: "p = a + HDR" "(a, sz1, True) \<in> set xs" "(a, az, False) \<in> set ys"
    "used_blocks ys = insert (a, az) (used_blocks xs)"
    using fit_alloc_Some [OF fit] by blast
  obtain t where t: "kmalloc sz ?h = Some (Inr (p, t))" "heap_wf t ys" using kmalloc_fits [OF wf _ fit] assms(2) by auto
  have "13 \<le> unat (a + HDR)"
  proof -
    have "unat a + 13 < 2 ^ 32" using tiles_mem [OF heap_wfD(2) [OF wf] a(2)] heap_wfD(4) [OF wf] by linarith
    then show ?thesis using unat_Suc_small [of a 13] by simp
  qed
  then have "a + HDR \<noteq> 0" by auto
  moreover have "(a, az) \<notin> used_blocks xs"
    using tiles_unique [OF heap_wfD(2) [OF wf] a(2)] by (auto simp: used_blocks_def)
  ultimately show ?thesis
    using t a by (intro that [of a "k\<lparr>k_heap := t, k_pmm := heap_pmm t\<rparr>" ys az]) (simp_all add: k_kmalloc_def)
qed

lemma k_kfree_ok:
  assumes "heap_wf (k_heap k) xs" and "(a, sz) \<in> used_blocks xs"
  obtains k1 ys where "k_kfree (a + HDR) k = Some (Inr k1)" "heap_wf (k_heap k1) ys"
    "used_blocks ys = used_blocks xs - {(a, sz)}" "k_vm k1 = k_vm k" "k_con k1 = k_con k"
proof -
  let ?h = "(k_heap k)\<lparr>heap_pmm := k_pmm k\<rparr>"
  have wf: "heap_wf ?h xs" using assms(1) by (simp add: heap_wf_def)
  obtain t where t: "kfree (a + HDR) ?h = Some (Inr t)" "heap_wf t (merge_free (release a xs))"
    using kfree_used [OF wf assms(2)] by blast
  have "{(b, tz) \<in> used_blocks xs. b \<noteq> a} = used_blocks xs - {(a, sz)}"
    using assms(2) tiles_unique [OF heap_wfD(2) [OF wf]] by (auto simp: used_blocks_def)
  then have "used_blocks (merge_free (release a xs)) = used_blocks xs - {(a, sz)}" by (simp only: used_merge used_release)
  then show ?thesis
    using t by (intro that [of "k\<lparr>k_heap := t, k_pmm := heap_pmm t\<rparr>" "merge_free (release a xs)"]) (simp_all add: k_kfree_def)
qed

lemma on_bytes_kern_simps [simp]:
  "k_pmm (on_bytes f k) = k_pmm k" "k_vm (on_bytes f k) = k_vm k" "k_con (on_bytes f k) = k_con k"
  "heap_wf (k_heap (on_bytes f k)) xs = heap_wf (k_heap k) xs"
  by (simp_all add: on_bytes_def heap_wf_def)

lemma length_load_chars [simp]: "length (load_chars a n m) = n"
  by (simp add: load_chars_def)

section \<open>Properties\<close>

text \<open>Reading a file of \<^verbatim>\<open>/proc\<close> at an offset delivers exactly the bytes of the text that the file
  stands for from that offset on, at most as many as asked for; the buffer it takes from the heap is given back on every
  path, and neither the translation tables nor the screen change.\<close>

theorem procfs_vfs_read_correct:
  assumes "heap_wf (k_heap k) xs" and "(fb, fz, True) \<in> set xs" and "2048 \<le> fz"
    and "NUL \<in> set (vn_name (nodes s r))" and "cstr (vn_name (nodes s r)) = n" and "n = ''cpuinfo'' \<longrightarrow> cpu_named env"
    and "n \<in> fst ` set (proc_texts env k)"
    and "unat offset + unat len < 2 ^ 32" and "unat len \<le> length buf"
  shows "\<exists>k1 k2 ys t c a. k_kmalloc 2048 k = Some (Inr (a, k1)) \<and> map_of (proc_texts env k1) n = Some t
    \<and> c = take (unat len) (drop (unat offset) t)
    \<and> procfs_vfs_read env (Some r) offset len (Some buf) s k = Some (Inr (int (length c), Some (c @ drop (length c) buf), k2))
    \<and> heap_wf (k_heap k2) ys \<and> used_blocks ys = used_blocks xs \<and> k_vm k2 = k_vm k \<and> k_con k2 = k_con k"
proof -
  have "ALIGN_UP 2048 4 = 2048" by code_simp
  with assms(3) have fz: "ALIGN_UP 2048 4 \<le> fz" by simp
  have pos: "(0 :: u32) < 2048" by simp
  from k_kmalloc_ok [OF assms(1) pos assms(2) fz] obtain a az k1 ys where
    a: "k_kmalloc 2048 k = Some (Inr (a + HDR, k1))" "a + HDR \<noteq> 0" "heap_wf (k_heap k1) ys"
    "used_blocks ys = insert (a, az) (used_blocks xs)" "(a, az) \<notin> used_blocks xs" "k_vm k1 = k_vm k" "k_con k1 = k_con k"
    "k_pmm k1 = heap_pmm (k_heap k1)" .
  have "fst ` set (proc_texts env k) = fst ` set (proc_texts env k1)" by (simp add: proc_texts_def)
  then obtain t where t: "map_of (proc_texts env k1) n = Some t" using assms(7) by (metis map_of_eq_None_iff not_None_eq)
  obtain b' where b': "procfs_generate_content env k1 (Some (vn_name (nodes s r)))
      (Some (load_chars (a + HDR) 2048 (bytes (k_heap k1)))) 2048 = Some (length t, Some b')"
    "length b' = 2048" "NUL \<in> set b'" "cstr b' = t"
    using procfs_generate_ok [of env k1 "vn_name (nodes s r)" t ys "load_chars (a + HDR) 2048 (bytes (k_heap k1))"]
      t a(3) assms(4-6) by auto
  have lt: "length t < 2048" using length_cstr_less [OF b'(3)] b'(2,4) by simp
  let ?k = "on_bytes (store_chars (a + HDR) b') k1"
  have "(a, az) \<in> used_blocks ys" "heap_wf (k_heap ?k) ys" using a(3,4) by simp_all
  from k_kfree_ok [OF this(2,1)] obtain k2 zs where k2: "k_kfree (a + HDR) ?k = Some (Inr k2)" "heap_wf (k_heap k2) zs"
    "used_blocks zs = used_blocks ys - {(a, az)}" "k_vm k2 = k_vm ?k" "k_con k2 = k_con ?k" .
  have us: "used_blocks zs = used_blocks xs" using k2(3) a(4,5) by simp
  define c where "c = take (unat len) (drop (unat offset) t)"
  have tl: "unat (of_nat (length t) :: u32) = length t" using lt by (simp add: unat_of_nat take_bit_nat_eq_self)
  have "procfs_vfs_read env (Some r) offset len (Some buf) s k = Some (Inr (int (length c), Some (c @ drop (length c) buf), k2))"
  proof (cases "of_nat (length t) \<le> offset")
    case True
    then have "c = []" using tl by (simp add: c_def word_le_nat_alt)
    then show ?thesis using True a b'(1) k2(1) by (simp add: procfs_vfs_read_def Let_def)
  next
    case False
    then have lt_off: "unat offset < length t" using tl by (simp add: word_le_nat_alt)
    define w where "w = (if offset + len > of_nat (length t) then of_nat (length t) - offset else len)"
    have w: "unat w = length c"
      using lt_off tl unat_add_small [OF assms(8)] by (auto simp: w_def c_def word_less_nat_alt unat_sub word_le_nat_alt)
    have "b' = t @ NUL # drop (Suc (length t)) b'" using cstr_split [OF b'(3)] b'(4) by simp
    then have "drop (unat offset) b' = drop (unat offset) t @ NUL # drop (Suc (length t)) b'"
      using lt_off by (metis (no_types) drop_append drop_0 diff_is_0_eq less_imp_le)
    moreover have "length c \<le> length (drop (unat offset) t)" "take (length c) (drop (unat offset) t) = c"
      unfolding c_def by (simp_all add: min_def)
    ultimately have "take (length c) (drop (unat offset) b') = c" by simp
    moreover have "unat offset + length c \<le> length b'" "length c \<le> length buf"
      using lt lt_off b'(2) assms(9) by (simp_all add: c_def)
    ultimately have m: "memcpy_at buf 0 b' (unat offset) (unat w) = Some (c @ drop (length c) buf)"
      by (simp add: memcpy_at_eq w)
    have "sint w = int (length c)" using w lt by (subst sint_small) (simp_all add: c_def)
    then show ?thesis
      using False a b'(1) k2(1) m by (simp add: procfs_vfs_read_def Let_def w_def [symmetric])
  qed
  then show ?thesis using a(1,6,7) t us k2(2,4,5) c_def by fastforce
qed

lemma cstr_append_left: "NUL \<notin> set v \<Longrightarrow> cstr (v @ w) = v @ cstr w"
  by (induction v) auto

text \<open>The file \<^verbatim>\<open>klog\<close> is not terminated: the text is the bytes of the log followed by whatever
  the buffer held before, up to the first zero byte there, and without one the search for the end leaves the buffer.\<close>

theorem procfs_klog_stale:
  assumes "klog_wf (pe_klog env)" and "klog_view (pe_klog env) = v" and "0 < length v" and "length v < 2048" and "NUL \<notin> set v"
    and "length b = 2048" and "NUL \<in> set name" and "cstr name = ''klog''"
  shows "procfs_generate_content env k (Some name) (Some b) 2048 =
    (if NUL \<in> set (drop (length v) b)
     then Some (length v + length (cstr (drop (length v) b)), Some (v @ drop (length v) b)) else None)"
proof -
  let ?s = "pe_klog env"
  let ?n = "unat (klog_count ?s)"
  have n: "length v = ?n" using assms(2) by (auto simp: klog_view_def)
  have "?n \<le> 2047" using assms(4) n by simp
  then have rc: "(if klog_count ?s < 2048 - 1 then klog_count ?s else 2048 - 1) = klog_count ?s"
    by (auto simp: word_less_nat_alt word_eq_unat_iff)
  obtain c bs where b: "b = c # bs" using assms(6) by (cases b) auto
  have d: "drop (length v) (NUL # bs) = drop (length v) b" using assms(3) b by (cases "length v") auto
  have "klog_read_loop ?n 0 (klog_tail ?s) ?s (NUL # bs) = Some (v @ drop ?n (NUL # bs))"
    using klog_read_loop_eq [of ?s "klog_tail ?s" 0 ?n "NUL # bs"] assms(1,2,4,6) b n
    by (simp add: klog_wf_def klog_view_def)
  then have r: "klog_read_bytes (Some (NUL # bs)) (2048 - 1) ?s = Some (klog_count ?s, Some (v @ drop (length v) b))"
    unfolding klog_read_bytes_def option.case Let_def rc using d n by simp
  have g: "map_of (proc_generators env k 2048) (cstr name) = Some (\<lambda>buf. Option.bind (klog_read_bytes (Some buf) (2048 - 1) ?s) snd)"
    unfolding assms(8) proc_generators_def by simp
  have put: "put_at b 0 NUL = Some (NUL # bs)" by (simp add: b put_at_def)
  have "procfs_generate_content env k (Some name) (Some b) 2048
      = Option.bind (strlen_buf (v @ drop (length v) b)) (\<lambda>len. Some (len, Some (v @ drop (length v) b)))"
    using r by (simp add: procfs_generate_content_def put select_file_eq [OF assms(7) generator_names] g)
  moreover have "cstr (v @ drop (length v) b) = v @ cstr (drop (length v) b)"
    by (rule cstr_append_left [OF assms(5)])
  ultimately show ?thesis using assms(5) by (auto simp: strlen_buf_eq)
qed

section \<open>The nodes\<close>

lemma proc_find_from_eq:
  assumes "NUL \<in> set b" and "\<forall>n \<in> set ns. NUL \<notin> set n"
  shows "proc_find_from b i ns = Some (map_option (\<lambda>j. Proc_Node (i + j)) (find (\<lambda>j. ns ! j = cstr b) [0..<length ns]))"
  using assms(2)
proof (induction ns arbitrary: i)
  case (Cons n ns)
  have n: "NUL \<in> set (n @ [NUL])" "cstr (n @ [NUL]) = n" using Cons.prems by simp_all
  from strcmp_ok [OF n(1) assms(1)] obtain c where c: "strcmp (Some (n @ [NUL])) (Some b) = Some c" "c = 0 \<longleftrightarrow> n = cstr b"
    using n(2) by metis
  have u: "[0..<length (n # ns)] = 0 # map Suc [0..<length ns]" using map_Suc_upt [of 0 "length ns"] by (simp add: upt_rec)
  have "find (\<lambda>j. (n # ns) ! j = cstr b) (map Suc l) = map_option Suc (find (\<lambda>j. ns ! j = cstr b) l)" for l
    by (induction l) auto
  then show ?case using c Cons unfolding u by (auto simp: option.map_comp comp_def)
qed simp

definition proc_node_ok :: "nat \<Rightarrow> vfs_node \<Rightarrow> bool" where
  "proc_node_ok i n \<longleftrightarrow> cstr (vn_name n) = proc_file_names ! i \<and> NUL \<in> set (vn_name n) \<and> vn_flags n = VFS_FILE
     \<and> vn_ops n = Some Procfs_Ops"

lemma proc_init_nodes_eq:
  assumes "\<forall>i \<in> set is. i < 10"
  shows "\<exists>s'. proc_init_nodes is s = Some s' \<and> ramfs_files s' = ramfs_files s \<and> vfs_root s' = vfs_root s
    \<and> (\<forall>r. (\<forall>i \<in> set is. r \<noteq> Proc_Node i) \<longrightarrow> nodes s' r = nodes s r)
    \<and> (\<forall>i \<in> set is. proc_node_ok i (nodes s' (Proc_Node i)))"
  using assms
proof (induction "is" arbitrary: s)
  case (Cons i js)
  let ?n = "proc_file_names ! i"
  have "?n \<in> set proc_file_names" using Cons.prems by (intro nth_mem) (simp add: proc_file_names_def)
  then have n: "NUL \<notin> set ?n" "length ?n < 20" by (auto simp: proc_file_names_def)
  obtain nm where nm: "strncpy (vn_name zero_node) (?n @ [NUL]) 127 = Some nm"
    using strncpy_eq [of "?n @ [NUL]" 127 "vn_name zero_node"] by (simp add: zero_node_def)
  have c: "cstr nm = ?n" "NUL \<in> set nm"
    using cstr_strncpy [of "?n @ [NUL]" 127 "vn_name zero_node" nm] n nm nth_mem [of 127 nm] by (auto simp: zero_node_def)
  define nd where "nd = zero_node\<lparr>vn_name := nm, vn_flags := VFS_FILE, vn_inode := 100 + of_nat i, vn_ops := Some Procfs_Ops\<rparr>"
  have nd: "proc_node_ok i nd" using c by (simp add: proc_node_ok_def nd_def)
  define s1 where "s1 = set_node (Proc_Node i) nd s"
  have s1: "ramfs_files s1 = ramfs_files s" "vfs_root s1 = vfs_root s" "nodes s1 (Proc_Node i) = nd"
    "\<And>r. r \<noteq> Proc_Node i \<Longrightarrow> nodes s1 r = nodes s r"
    by (simp_all add: s1_def set_node_def)
  obtain s2 where s2: "proc_init_nodes js s1 = Some s2" "ramfs_files s2 = ramfs_files s1" "vfs_root s2 = vfs_root s1"
    "\<And>r. \<forall>i \<in> set js. r \<noteq> Proc_Node i \<Longrightarrow> nodes s2 r = nodes s1 r"
    "\<And>i. i \<in> set js \<Longrightarrow> proc_node_ok i (nodes s2 (Proc_Node i))"
    using Cons.IH [of s1] Cons.prems by auto
  have "proc_init_nodes (i # js) s = Some s2" using nm s2(1) by (simp add: s1_def nd_def)
  moreover have "proc_node_ok i (nodes s2 (Proc_Node i))"
  proof (cases "i \<in> set js")
    case False
    then have "\<forall>j \<in> set js. Proc_Node i \<noteq> Proc_Node j" by auto
    from s2(4) [OF this] show ?thesis using s1(3) nd by simp
  qed (rule s2(5))
  ultimately show ?case using s2(2-5) s1(1,2,4) by (intro exI [of _ s2]) auto
qed simp

lemma procfs_init_ok:
  assumes "vga_ok (k_con k)"
  obtains s' c where "procfs_init s k = Some (s', k\<lparr>k_con := c\<rparr>)" "vga_ok c" "ramfs_files s' = ramfs_files s"
    "vfs_root s' = vfs_root s" "\<And>r. r \<noteq> Proc_Root \<Longrightarrow> \<forall>i < 10. r \<noteq> Proc_Node i \<Longrightarrow> nodes s' r = nodes s r"
    "\<And>i. i < 10 \<Longrightarrow> proc_node_ok i (nodes s' (Proc_Node i))"
    "nodes s' Proc_Root = zero_node\<lparr>vn_name := ''proc'' @ replicate 124 NUL, vn_flags := VFS_DIR, vn_ops := Some Procfs_Ops\<rparr>"
proof -
  define nd where "nd = zero_node\<lparr>vn_name := ''proc'' @ replicate 124 NUL, vn_flags := VFS_DIR, vn_ops := Some Procfs_Ops\<rparr>"
  have nm: "strcpy (vn_name zero_node) (''proc'' @ [NUL]) = Some (''proc'' @ replicate 124 NUL)"
    by (subst strcpy_eq) (simp_all add: zero_node_def Cons_replicate_eq)
  define s1 where "s1 = set_node Proc_Root nd s"
  obtain s2 where s2: "proc_init_nodes [0..<10] s1 = Some s2" "ramfs_files s2 = ramfs_files s1" "vfs_root s2 = vfs_root s1"
    "\<And>r. \<forall>i < 10. r \<noteq> Proc_Node i \<Longrightarrow> nodes s2 r = nodes s1 r"
    "\<And>i. i < 10 \<Longrightarrow> proc_node_ok i (nodes s2 (Proc_Node i))"
    using proc_init_nodes_eq [of "[0..<10]" s1] by auto
  let ?fmt = "''Procfs: /proc mounted'' @ [CHR 0x0A]"
  have "NUL \<notin> set ?fmt" "\<exists>out. printk_text ?fmt [] = Some out" by simp_all
  then obtain out where o: "NUL \<notin> set ?fmt" "printk_text ?fmt [] = Some out" by blast
  from k_printk_ok [OF assms o] obtain c where c: "k_printk ?fmt [] k = Some (k\<lparr>k_con := c\<rparr>)" "vga_ok c" .
  have "procfs_init s k = Some (s2, k\<lparr>k_con := c\<rparr>)"
    unfolding procfs_init_def nm using s2(1) c(1) by (simp add: s1_def nd_def)
  from that [OF this c(2)] show ?thesis using s2(2-5) by (auto simp: s1_def set_node_def nd_def)
qed

section \<open>A kernel with a free heap block of one page\<close>

definition proc_kern :: kern where
  "proc_kern = \<lparr>k_pmm = \<lparr>bitmap = [], total_pages = 1024, free_pages = 1000\<rparr>,
     k_heap = \<lparr>blocks = [0x1000 \<mapsto> \<lparr>hb_magic = HEAP_MAGIC, hb_size = 4083, hb_free = True, hb_next = 0\<rparr>],
       heap_start = 0x1000, heap_end_addr = 0x2000, heap_pmm = \<lparr>bitmap = [], total_pages = 0, free_pages = 0\<rparr>,
       bytes = \<lambda>a. 0x41\<rparr>,
     k_vm = vm_example, k_con = console_example\<rparr>"

lemma proc_kern_heap: "heap_wf (k_heap proc_kern) [(0x1000, 4083, True)]"
  by (simp add: heap_wf_def proc_kern_def)

definition env_example :: proc_env where
  "env_example = \<lparr>pe_ticks = 61500, pe_flags = (0, 0), pe_cpuid = (\<lambda>_. (0, 0, 0, 0)), pe_modules = \<lparr>module_list_head = 0, kmods = Map.empty\<rparr>,
     pe_pci_count = 3, pe_ata_count = 1,
     pe_klog = \<lparr>klog_buffer = ''hi'' @ replicate 4094 NUL, klog_head = 2, klog_tail = 0, klog_count = 2\<rparr>\<rparr>"

definition proc_fs :: "string \<Rightarrow> fs" where
  "proc_fs n = \<lparr>nodes = (\<lambda>r. zero_node\<lparr>vn_name := n @ [NUL]\<rparr>), ramfs_files = [], vfs_root = None\<rparr>"

theorem procfs_vfs_read_correct_witness:
  "\<exists>k2. procfs_vfs_read env_example (Some (Proc_Node 1)) 3 4 (Some ''......'') (proc_fs ''uptime'') proc_kern
     = Some (Inr (4, Some ''seco..'', k2))"
proof -
  have d: "dec (61500 div 1000) = ''61''" by code_simp
  have n: "''uptime'' \<in> fst ` set (proc_texts env_example proc_kern)" by (simp add: proc_texts_def)
  have m: "map_of (proc_texts env_example k1) ''uptime'' = Some t \<longleftrightarrow> t = ''61 seconds'' @ [CHR 0x0A]" for k1 :: kern and t
    using d by (auto simp: proc_texts_def env_example_def)
  have h: "(0x1000, 4083, True) \<in> set [(0x1000 :: u32, 4083 :: u32, True)]" "(2048 :: u32) \<le> 4083" by simp_all
  have nn: "NUL \<in> set (vn_name (nodes (proc_fs ''uptime'') (Proc_Node 1)))" "cstr (vn_name (nodes (proc_fs ''uptime'') (Proc_Node 1))) = ''uptime''"
    by (simp_all add: proc_fs_def)
  from procfs_vfs_read_correct [OF proc_kern_heap h nn _ n, of 3 4 "''......''"] show ?thesis by (auto simp: m)
qed

theorem procfs_klog_stale_witness:
  "procfs_generate_content env_example proc_kern (Some (''klog'' @ [NUL])) (Some (replicate 2048 CHR ''A'')) 2048 = None"
  using procfs_klog_stale [of env_example "''hi''" "replicate 2048 CHR ''A''" "''klog'' @ [NUL]" proc_kern]
  by (simp add: env_example_def klog_wf_def klog_view_def ring_def upt_rec)

end
