(* ===== verification/Vfs_Layer.thy ===== *)
theory Vfs_Layer
  imports Procfs
begin

text \<open>
  The layer above the file systems, \<^verbatim>\<open>fs/vfs.c\<close>: the mount tree, the walk along a path and the calls
  through the tables of operations.  A member of a table that is null is a missing case of the dispatch functions below; none of
  the three tables has an \<^verbatim>\<open>open\<close> or a \<^verbatim>\<open>close\<close>.  \<open>vfs_finddir\<close> tests \<^verbatim>\<open>dir->finddir\<close>,
  a member that a node does not have; it is read as \<^verbatim>\<open>dir->ops->finddir\<close>.
\<close>

definition slash :: "char list" where
  "slash = ''/'' @ [NUL]"

section \<open>The operations of the root\<close>

partial_function (option) nth_child :: "fs \<Rightarrow> u32 \<Rightarrow> u32 \<Rightarrow> node_ref option \<Rightarrow> node_ref option option" where
  "nth_child s index idx cur =
     (if cur = None then Some None
      else if idx = index then Some cur
      else nth_child s index (idx + 1) (vn_next_sibling (nodes s (the cur))))"

definition is_dir :: "fs \<Rightarrow> node_ref \<Rightarrow> bool" where
  "is_dir s r \<longleftrightarrow> vn_flags (nodes s r) AND VFS_DIR \<noteq> 0"

definition vfs_root_readdir :: "node_ref \<Rightarrow> u32 \<Rightarrow> fs \<Rightarrow> node_ref option option" where
  "vfs_root_readdir node index s =
     (if \<not> is_dir s node then Some None else nth_child s index 0 (vn_children (nodes s node)))"

partial_function (option) child_named :: "fs \<Rightarrow> char list \<Rightarrow> node_ref option \<Rightarrow> node_ref option option" where
  "child_named s name cur =
     (if cur = None then Some None
      else do {
        d \<leftarrow> strcmp (Some (vn_name (nodes s (the cur)))) (Some name);
        if d = 0 then Some cur else child_named s name (vn_next_sibling (nodes s (the cur)))
      })"

definition vfs_root_finddir :: "node_ref \<Rightarrow> cptr \<Rightarrow> fs \<Rightarrow> node_ref option option" where
  "vfs_root_finddir node name s =
     (case name of
        None \<Rightarrow> Some None
      | Some n \<Rightarrow> if \<not> is_dir s node then Some None else child_named s n (vn_children (nodes s node)))"

section \<open>Calls through the table of operations\<close>

definition vfs_readdir :: "node_ref option \<Rightarrow> u32 \<Rightarrow> fs \<Rightarrow> node_ref option option" where
  "vfs_readdir dir index s =
     (case dir of
        None \<Rightarrow> Some None
      | Some d \<Rightarrow>
          (case vn_ops (nodes s d) of
             None \<Rightarrow> Some None
           | Some Vfs_Root_Ops \<Rightarrow> vfs_root_readdir d index s
           | Some Ramfs_Ops \<Rightarrow> Some (ramfs_vfs_readdir index s)
           | Some Procfs_Ops \<Rightarrow> Some (procfs_vfs_readdir index)))"

definition vfs_finddir :: "node_ref option \<Rightarrow> cptr \<Rightarrow> fs \<Rightarrow> node_ref option option" where
  "vfs_finddir dir name s =
     (case dir of
        None \<Rightarrow> Some None
      | Some d \<Rightarrow>
          (case vn_ops (nodes s d) of
             None \<Rightarrow> Some None
           | Some Vfs_Root_Ops \<Rightarrow> vfs_root_finddir d name s
           | Some Ramfs_Ops \<Rightarrow> ramfs_vfs_finddir name s
           | Some Procfs_Ops \<Rightarrow> procfs_vfs_finddir name))"

definition vfs_close :: "node_ref option \<Rightarrow> int" where
  "vfs_close node = 0"

definition vfs_read :: "proc_env \<Rightarrow> node_ref option \<Rightarrow> u32 \<Rightarrow> u32 \<Rightarrow> cptr \<Rightarrow> fs \<Rightarrow> 'a kern_scheme
    \<Rightarrow> (int \<times> cptr \<times> 'a kern_scheme) outcome" where
  "vfs_read env node offset len buf s k =
     (case Option.bind node (\<lambda>d. vn_ops (nodes s d)) of
        Some Ramfs_Ops \<Rightarrow> obind (no_panic (ramfs_vfs_read node offset len buf s)) (\<lambda>(r, buf). Some (Inr (r, buf, k)))
      | Some Procfs_Ops \<Rightarrow> procfs_vfs_read env node offset len buf s k
      | _ \<Rightarrow> Some (Inr (-1, buf, k)))"

definition vfs_write :: "node_ref option \<Rightarrow> u32 \<Rightarrow> u32 \<Rightarrow> cptr \<Rightarrow> fs \<Rightarrow> (int \<times> fs) option" where
  "vfs_write node offset len buf s =
     (case Option.bind node (\<lambda>d. vn_ops (nodes s d)) of
        Some Ramfs_Ops \<Rightarrow> ramfs_vfs_write node offset len buf s
      | _ \<Rightarrow> Some (-1, s))"

section \<open>Paths\<close>

definition vfs_init :: "fs \<Rightarrow> 'a kern_scheme \<Rightarrow> (fs \<times> 'a kern_scheme) outcome" where
  "vfs_init s k =
     obind (k_kmalloc 160 k) (\<lambda>(a, k).
     if a = 0
     then obind (no_panic (k_printk (''VFS: Failed to allocate root node'' @ [CHR 0x0A]) [] k)) (\<lambda>k. Some (Inr (s\<lparr>vfs_root := None\<rparr>, k)))
     else obind (no_panic (do {
            nm \<leftarrow> strcpy (vn_name zero_node) slash;
            let s = set_node (Heap_Node a) (zero_node\<lparr>vn_name := nm, vn_flags := VFS_DIR, vn_ops := Some Vfs_Root_Ops\<rparr>)
                      (s\<lparr>vfs_root := Some (Heap_Node a)\<rparr>);
            k \<leftarrow> k_printk (''VFS: Virtual filesystem layer initialized'' @ [CHR 0x0A]) [] k;
            Some (s, k) })) (\<lambda>r. Some (Inr r)))"

definition vfs_get_root :: "fs \<Rightarrow> node_ref option" where
  "vfs_get_root s = vfs_root s"

text \<open>The loop over the tokens: the copy of the path, the position that \<open>strtok\<close> saved, the token and the node reached.\<close>

partial_function (option) vfs_walk :: "fs \<Rightarrow> char list \<Rightarrow> nat option \<Rightarrow> nat option \<Rightarrow> node_ref \<Rightarrow> node_ref option option" where
  "vfs_walk s tmp_path saved token cur =
     (if token = None then Some (Some cur)
      else if \<not> is_dir s cur then Some None
      else do {
        found \<leftarrow> vfs_finddir (Some cur) (Some (drop (the token) tmp_path)) s;
        case found of
          None \<Rightarrow> Some None
        | Some f \<Rightarrow> do {
            (token, tmp_path, saved) \<leftarrow> strtok None slash tmp_path saved;
            vfs_walk s tmp_path saved token f
          }
      })"

definition vfs_lookup_path :: "cptr \<Rightarrow> fs \<Rightarrow> node_ref option option" where
  "vfs_lookup_path path s =
     (case (path, vfs_root s) of
        (Some p, Some root) \<Rightarrow> do {
          c \<leftarrow> strcmp (Some p) (Some slash);
          if c = 0 then Some (Some root)
          else do {
            tmp_path \<leftarrow> strncpy (replicate 256 NUL) p 255;
            tmp_path \<leftarrow> put_at tmp_path 255 NUL;
            (token, tmp_path, saved) \<leftarrow> strtok (Some 0) slash tmp_path None;
            vfs_walk s tmp_path saved token root
          }
        }
      | _ \<Rightarrow> Some None)"

text \<open>The cut at the last slash that \<open>vfs_mount\<close>, \<open>vfs_create\<close> and \<open>vfs_delete\<close> make: the path of the
  parent and the last name; the inner \<^term>\<open>None\<close> when there is no slash.\<close>

definition split_path :: "char list \<Rightarrow> (char list \<times> char list) option option" where
  "split_path path = do {
     parent_path \<leftarrow> strncpy (replicate 256 NUL) path 255;
     parent_path \<leftarrow> put_at parent_path 255 NUL;
     last_slash \<leftarrow> strrchr parent_path (CHR ''/'');
     case last_slash of
       None \<Rightarrow> Some None
     | Some i \<Rightarrow> do {
         name \<leftarrow> strcpy (replicate 128 NUL) (drop (Suc i) parent_path);
         parent_path \<leftarrow> (if i = 0 then strcpy parent_path slash else put_at parent_path i NUL);
         Some (Some (parent_path, name))
       }
   }"

text \<open>The parent directory and the last name of a path, when both exist.\<close>

definition vfs_parent :: "char list \<Rightarrow> fs \<Rightarrow> (node_ref \<times> char list) option option" where
  "vfs_parent path s = do {
     sp \<leftarrow> split_path path;
     case sp of
       None \<Rightarrow> Some None
     | Some (parent_path, name) \<Rightarrow> do {
         parent_node \<leftarrow> vfs_lookup_path (Some parent_path) s;
         case parent_node of
           None \<Rightarrow> Some None
         | Some q \<Rightarrow> Some (if is_dir s q then Some (q, name) else None)
       }
   }"

definition vfs_mount :: "cptr \<Rightarrow> node_ref option \<Rightarrow> fs \<Rightarrow> (int \<times> fs) option" where
  "vfs_mount path node s =
     (case (path, node, vfs_root s) of
        (Some p, Some n, Some root) \<Rightarrow> do {
          c \<leftarrow> strcmp (Some p) (Some slash);
          if c = 0 then Some (0, s\<lparr>vfs_root := Some n\<rparr>)
          else do {
            pn \<leftarrow> vfs_parent p s;
            case pn of
              None \<Rightarrow> Some (-1, s)
            | Some (q, mount_name) \<Rightarrow> do {
                nm \<leftarrow> strncpy (vn_name (nodes s n)) mount_name 127;
                let s = set_node n ((nodes s n)\<lparr>vn_name := nm, vn_parent := Some q,
                          vn_flags := vn_flags (nodes s n) OR VFS_MOUNT, vn_next_sibling := vn_children (nodes s q)\<rparr>) s;
                Some (0, set_node q ((nodes s q)\<lparr>vn_children := Some n\<rparr>) s)
              }
          }
        }
      | _ \<Rightarrow> Some (-1, s))"

definition vfs_open :: "cptr \<Rightarrow> fs \<Rightarrow> node_ref option option" where
  "vfs_open path s = vfs_lookup_path path s"

definition vfs_create :: "cptr \<Rightarrow> u32 \<Rightarrow> fs \<Rightarrow> (int \<times> fs) option" where
  "vfs_create path flags s =
     (case path of
        None \<Rightarrow> Some (-1, s)
      | Some p \<Rightarrow> do {
          pn \<leftarrow> vfs_parent p s;
          case pn of
            None \<Rightarrow> Some (-1, s)
          | Some (q, fname) \<Rightarrow>
              if vn_ops (nodes s q) = Some Ramfs_Ops then ramfs_vfs_create (Some fname) flags s else Some (-1, s)
        })"

definition vfs_delete :: "cptr \<Rightarrow> fs \<Rightarrow> (int \<times> fs) option" where
  "vfs_delete path s =
     (case path of
        None \<Rightarrow> Some (-1, s)
      | Some p \<Rightarrow> do {
          pn \<leftarrow> vfs_parent p s;
          case pn of
            None \<Rightarrow> Some (-1, s)
          | Some (q, fname) \<Rightarrow>
              if vn_ops (nodes s q) = Some Ramfs_Ops then ramfs_vfs_delete (Some fname) s else Some (-1, s)
        })"

record vfs_stat_t =
  st_name :: "char list"
  st_flags :: u32
  st_size :: u32
  st_inode :: u32

definition vfs_stat :: "cptr \<Rightarrow> vfs_stat_t option \<Rightarrow> fs \<Rightarrow> (int \<times> vfs_stat_t option) option" where
  "vfs_stat path st s = do {
     node \<leftarrow> vfs_lookup_path path s;
     case (node, st) of
       (Some r, Some b) \<Rightarrow> do {
         nm \<leftarrow> strncpy (st_name b) (vn_name (nodes s r)) 127;
         Some (0, Some \<lparr>st_name = nm, st_flags = vn_flags (nodes s r), st_size = vn_size (nodes s r), st_inode = vn_inode (nodes s r)\<rparr>)
       }
     | _ \<Rightarrow> Some (-1, st)
   }"

partial_function (option) list_children :: "node_ref \<Rightarrow> u32 \<Rightarrow> fs \<Rightarrow> 'a kern_scheme \<Rightarrow> (u32 \<times> 'a kern_scheme) option" where
  "list_children dir i s k = do {
     child \<leftarrow> vfs_readdir (Some dir) i s;
     case child of
       None \<Rightarrow> Some (i, k)
     | Some c \<Rightarrow> do {
         k \<leftarrow> k_printk (''%-20s %s    %u bytes'' @ [CHR 0x0A])
                [VA_str (Some (vn_name (nodes s c))), VA_str (Some ((if is_dir s c then ''DIR '' else ''FILE'') @ [NUL])),
                 VA_word (vn_size (nodes s c))] k;
         list_children dir (i + 1) s k
       }
   }"

definition vfs_list :: "cptr \<Rightarrow> fs \<Rightarrow> 'a kern_scheme \<Rightarrow> 'a kern_scheme option" where
  "vfs_list path s k = do {
     dir \<leftarrow> vfs_lookup_path path s;
     case dir of
       None \<Rightarrow> k_printk (''ls: %s: No such file or directory'' @ [CHR 0x0A]) [VA_str path] k
     | Some d \<Rightarrow>
         if \<not> is_dir s d
         then k_printk (''%-20s %u bytes'' @ [CHR 0x0A]) [VA_str (Some (vn_name (nodes s d))), VA_word (vn_size (nodes s d))] k
         else do {
           k \<leftarrow> k_printk (''NAME                 TYPE    SIZE'' @ [CHR 0x0A]) [] k;
           k \<leftarrow> k_printk (''----                 ----    ----'' @ [CHR 0x0A]) [] k;
           (i, k) \<leftarrow> list_children d 0 s k;
           if i = 0 then k_printk (''(empty)'' @ [CHR 0x0A]) [] k else Some k
         }
   }"

text \<open>Lines 105 to 113 of \<^verbatim>\<open>kernel/main.c\<close>.\<close>

definition fs_boot :: "fs \<Rightarrow> 'a kern_scheme \<Rightarrow> (fs \<times> 'a kern_scheme) outcome" where
  "fs_boot s k =
     obind (vfs_init s k) (\<lambda>(s, k).
     no_panic (do {
       (s, con) \<leftarrow> ramfs_init s (k_con k);
       (_, s) \<leftarrow> vfs_mount (Some (''/ram'' @ [NUL])) (Some ramfs_get_root_node) s;
       (s, k) \<leftarrow> procfs_init s (k\<lparr>k_con := con\<rparr>);
       (_, s) \<leftarrow> vfs_mount (Some (''/proc'' @ [NUL])) (Some procfs_get_root_node) s;
       Some (s, k) }))"

section \<open>The tree that paths are resolved in\<close>

text \<open>\<open>kids r\<close> lists the nodes mounted on the directory \<open>r\<close>; the sibling pointers thread them.\<close>

fun sib_chain :: "(node_ref \<Rightarrow> vfs_node) \<Rightarrow> node_ref option \<Rightarrow> node_ref list \<Rightarrow> bool" where
  "sib_chain nd cur [] \<longleftrightarrow> cur = None"
| "sib_chain nd cur (x # xs) \<longleftrightarrow> cur = Some x \<and> sib_chain nd (vn_next_sibling (nd x)) xs"

definition vfs_wf :: "(node_ref \<Rightarrow> node_ref list) \<Rightarrow> fs \<Rightarrow> bool" where
  "vfs_wf kids s \<longleftrightarrow> (\<forall>r. NUL \<in> set (vn_name (nodes s r))) \<and> ramfs_wf s
     \<and> (\<forall>r. vn_ops (nodes s r) = Some Vfs_Root_Ops \<longrightarrow> sib_chain (nodes s) (vn_children (nodes s r)) (kids r))"

definition node_name :: "fs \<Rightarrow> node_ref \<Rightarrow> string" where
  "node_name s r = cstr (vn_name (nodes s r))"

definition proc_index :: "string \<Rightarrow> nat option" where
  "proc_index t = find (\<lambda>j. proc_file_names ! j = t) [0..<10]"

definition dir_entry :: "(node_ref \<Rightarrow> node_ref list) \<Rightarrow> fs \<Rightarrow> node_ref \<Rightarrow> string \<Rightarrow> node_ref option" where
  "dir_entry kids s r t =
     (case vn_ops (nodes s r) of
        None \<Rightarrow> None
      | Some Vfs_Root_Ops \<Rightarrow> if is_dir s r then find (\<lambda>c. node_name s c = t) (kids r) else None
      | Some Ramfs_Ops \<Rightarrow> map_option Ram_Node (slot_of t (ramfs_files s))
      | Some Procfs_Ops \<Rightarrow> map_option Proc_Node (proc_index t))"

fun resolve :: "(node_ref \<Rightarrow> node_ref list) \<Rightarrow> fs \<Rightarrow> string list \<Rightarrow> node_ref \<Rightarrow> node_ref option" where
  "resolve kids s [] r = Some r"
| "resolve kids s (t # ts) r =
     (if is_dir s r then Option.bind (dir_entry kids s r t) (resolve kids s ts) else None)"

lemma child_named_eq:
  assumes "\<forall>r. NUL \<in> set (vn_name (nodes s r))" and "NUL \<in> set b"
  shows "sib_chain (nodes s) cur xs \<Longrightarrow> child_named s b cur = Some (find (\<lambda>c. node_name s c = cstr b) xs)"
proof (induction xs arbitrary: cur)
  case Nil
  then show ?case by (simp add: child_named.simps)
next
  case (Cons x xs)
  from strcmp_ok [OF assms(1) [rule_format, of x] assms(2)] obtain d where
    "strcmp (Some (vn_name (nodes s x))) (Some b) = Some d" "d = 0 \<longleftrightarrow> node_name s x = cstr b"
    unfolding node_name_def .
  then show ?case using Cons by (subst child_named.simps) auto
qed

lemma proc_names_NUL: "\<forall>n \<in> set proc_file_names. NUL \<notin> set n" and proc_names_length: "length proc_file_names = 10"
  by (simp_all add: proc_file_names_def)

lemma vfs_finddir_eq:
  assumes "vfs_wf kids s" and "NUL \<in> set b"
  shows "vfs_finddir (Some r) (Some b) s = Some (dir_entry kids s r (cstr b))"
proof -
  have p: "procfs_vfs_finddir (Some b) = Some (map_option Proc_Node (proc_index (cstr b)))"
    using proc_find_from_eq [OF assms(2) proc_names_NUL, of 0]
    by (simp add: procfs_vfs_finddir_def proc_index_def proc_names_length)
  have "ramfs_vfs_finddir (Some b) s = Some (map_option Ram_Node (slot_of (cstr b) (ramfs_files s)))"
    using ramfs_finddir_from_eq [of "ramfs_files s" b 0] assms by (simp add: ramfs_vfs_finddir_def vfs_wf_def ramfs_wf_def)
  moreover have "child_named s b (vn_children (nodes s r)) = Some (find (\<lambda>c. node_name s c = cstr b) (kids r))"
    if "vn_ops (nodes s r) = Some Vfs_Root_Ops"
    using child_named_eq assms that by (simp add: vfs_wf_def)
  ultimately show ?thesis
    using p by (auto simp: vfs_finddir_def dir_entry_def vfs_root_finddir_def split: option.split fs_ops.split)
qed

lemma skip_out_less: "skip_out d s = Some m \<Longrightarrow> m < length s"
  by (induction s arbitrary: m) (auto split: if_splits option.splits)

lemma strtok_NUL:
  assumes "strtok str d buf saved = Some (Some q, buf', saved')"
  shows "NUL \<in> set (drop q buf')"
proof -
  obtain m where m: "skip_out d (drop q buf) = Some m"
    "buf' = (if buf ! (q + m) \<noteq> NUL then buf[q + m := NUL] else buf)"
    using assms unfolding strtok_def Let_def
    by (auto split: option.splits if_splits simp: bind_eq_Some_conv)
  have lt: "q + m < length buf'" using skip_out_less [OF m(1)] m(2) by auto
  have "buf' ! (q + m) = NUL" using m(2) lt by auto
  then have "drop q buf' ! m = NUL" "m < length (drop q buf')" using lt by simp_all
  then show ?thesis by (metis nth_mem)
qed

lemma slash_simps: "NUL \<in> set slash" "cstr slash = ''/''" "set (cstr slash) = {CHR ''/''}"
  by (simp_all add: slash_def)

definition toks :: "string \<Rightarrow> string list" where
  "toks p = tokens {CHR ''/''} p"

lemma vfs_walk_eq:
  assumes "vfs_wf kids s"
  shows "NUL \<in> set (drop q buf) \<Longrightarrow> cstr (drop q buf) = t \<Longrightarrow>
     (case saved of None \<Rightarrow> ts = []
      | Some e \<Rightarrow> e \<le> length buf \<and> NUL \<in> set (drop e buf) \<and> toks (cstr (drop e buf)) = ts) \<Longrightarrow>
     vfs_walk s buf saved (Some q) r = Some (resolve kids s (t # ts) r)"
proof (induction ts arbitrary: q buf saved r t)
  case (Nil q buf saved r t)
  have fin: "\<exists>b v. strtok None slash buf saved = Some (None, b, v)"
  proof (cases saved)
    case None
    then show ?thesis by (simp add: strtok_def)
  next
    case (Some e)
    then show ?thesis
      using strtok_step [of slash e buf saved None] Nil(3) slash_simps by (auto simp: toks_def)
  qed
  then obtain b v where fin: "strtok None slash buf saved = Some (None, b, v)" by blast
  have "vfs_walk s b v None f = Some (Some f)" for f by (simp add: vfs_walk.simps)
  then show ?case
    using Nil(2) fin vfs_finddir_eq [OF assms Nil(1), of r]
    by (subst vfs_walk.simps) (auto split: option.split)
next
  case (Cons u ts q buf saved r t)
  obtain e where e: "saved = Some e" "e \<le> length buf" "NUL \<in> set (drop e buf)" "toks (cstr (drop e buf)) = u # ts"
    using Cons.prems(3) by (cases saved) auto
  obtain q' b v where st: "strtok None slash buf saved = Some (Some q', b, v)" "length b = length buf" "cstr (drop q' b) = u"
    "case v of None \<Rightarrow> ts = [] | Some e \<Rightarrow> e \<le> length b \<and> NUL \<in> set (drop e b) \<and> toks (cstr (drop e b)) = ts"
    using strtok_step [of slash e buf saved None] e slash_simps by (auto simp: toks_def split: option.splits)
  from Cons.IH [OF strtok_NUL [OF st(1)] st(3,4)]
  have "vfs_walk s b v (Some q') f = Some (resolve kids s (u # ts) f)" for f .
  then show ?case
    using Cons.prems(2) st(1) vfs_finddir_eq [OF assms Cons.prems(1), of r]
    by (subst vfs_walk.simps) (auto split: option.split)
qed

lemma vfs_lookup_eq:
  assumes "vfs_wf kids s" and "vfs_root s = Some root" and "NUL \<in> set p"
  shows "vfs_lookup_path (Some p) s = Some (resolve kids s (toks (take 255 (cstr p))) root)"
proof -
  from strcmp_ok [OF assms(3) slash_simps(1)] obtain c where c: "strcmp (Some p) (Some slash) = Some c" "c = 0 \<longleftrightarrow> cstr p = ''/''"
    using slash_simps(2) by metis
  show ?thesis
  proof (cases "cstr p = ''/''")
    case True
    have "toks ''/'' = []" unfolding toks_def by (subst tokens.simps) simp
    then show ?thesis using c True assms(2) by (simp add: vfs_lookup_path_def)
  next
    case False
    obtain b0 where b0: "strncpy (replicate 256 NUL) p 255 = Some b0"
      using strncpy_eq [OF assms(3), of 255 "replicate 256 NUL"] by simp
    have cb: "cstr b0 = take 255 (cstr p)" "length b0 = 256" "b0 ! 255 = NUL"
      using cstr_strncpy [OF assms(3) _ _ b0] by simp_all
    then have put: "put_at b0 255 NUL = Some b0" using list_update_id [of b0 255] by (simp add: put_at_def)
    have N: "NUL \<in> set b0" using cb nth_mem [of 255 b0] by simp
    have walk: "Option.bind (strtok (Some 0) slash b0 None) (\<lambda>(token, b, v). vfs_walk s b v token root)
        = Some (resolve kids s (toks (cstr b0)) root)"
    proof (cases "toks (cstr b0)")
      case Nil
      then show ?thesis
        using strtok_step [of slash 0 b0 None "Some 0"] slash_simps N by (auto simp: toks_def vfs_walk.simps)
    next
      case (Cons t ts)
      then obtain q b v where st: "strtok (Some 0) slash b0 None = Some (Some q, b, v)" "cstr (drop q b) = t"
        "case v of None \<Rightarrow> ts = [] | Some e \<Rightarrow> e \<le> length b \<and> NUL \<in> set (drop e b) \<and> toks (cstr (drop e b)) = ts"
        using strtok_step [of slash 0 b0 None "Some 0"] slash_simps N by (auto simp: toks_def split: option.splits)
      show ?thesis using vfs_walk_eq [OF assms(1) strtok_NUL [OF st(1)] st(2,3)] st(1) Cons by simp
    qed
    then show ?thesis
      using c False assms(2) b0 put cb(1) by (simp add: vfs_lookup_path_def)
  qed
qed

text \<open>C20: the walk along a path reaches the node that resolving the names between its slashes one by one
  from the root gives, names and directories checked at each step, and a null pointer when that fails; a path of more than
  255 characters is cut.\<close>

theorem vfs_lookup_path_correct:
  assumes "vfs_wf kids s" and "vfs_root s = Some root" and "NUL \<in> set p"
  shows "vfs_lookup_path (Some p) s = Some (resolve kids s (toks (take 255 (cstr p))) root)"
  by (rule vfs_lookup_eq [OF assms])

section \<open>Cutting a path\<close>

lemma strrchr_from_absent:
  "c \<noteq> NUL \<Longrightarrow> NUL \<in> set s \<Longrightarrow> c \<notin> set (cstr s) \<Longrightarrow> strrchr_from i h s c = Some h"
  by (induction s arbitrary: i) (auto simp: Let_def)

lemma strrchr_from_hit:
  assumes "c \<noteq> NUL" and "NUL \<in> set s" and "cstr s = d @ c # n" and "c \<notin> set n"
  shows "strrchr_from i h s c = Some (Some (i + length d))"
  using assms(2,3)
proof (induction d arbitrary: i h s)
  case Nil
  then obtain r where r: "s = c # r" by (cases s) (auto split: if_splits)
  have "cstr r = n" "NUL \<in> set r" using Nil assms(1) r by auto
  then show ?case using r assms(1,4) strrchr_from_absent [of c r "Suc i" "Some i"] by (simp add: Let_def)
next
  case (Cons x d)
  then obtain r where r: "s = x # r" "x \<noteq> NUL" by (cases s) (auto split: if_splits)
  then show ?case using Cons by (simp add: Let_def)
qed

lemma drop_cstr_NUL: "NUL \<in> set s \<Longrightarrow> cstr s = d @ x # n \<Longrightarrow> NUL \<in> set (drop (Suc (length d)) s) \<and> cstr (drop (Suc (length d)) s) = n"
  using NUL_in_drop [of s "Suc (length d)"] cstr_drop [of "Suc (length d)" s] by simp

lemma cstr_cut: "cstr s = d @ x # n \<Longrightarrow> NUL \<notin> set d \<Longrightarrow> cstr (s[length d := NUL]) = d \<and> NUL \<in> set (s[length d := NUL])"
proof (induction d arbitrary: s)
  case Nil
  then show ?case by (cases s) auto
next
  case (Cons y d)
  then show ?case by (cases s) (auto split: if_splits)
qed

lemma split_path_eq:
  assumes "NUL \<in> set p" and "take 255 (cstr p) = d @ CHR ''/'' # n" and "CHR ''/'' \<notin> set n" and "length n < 128"
  shows "\<exists>pp nm. split_path p = Some (Some (pp, nm)) \<and> NUL \<in> set pp \<and> NUL \<in> set nm \<and> cstr nm = n \<and> length nm = 128
    \<and> cstr pp = (if d = [] then ''/'' else d)"
proof -
  obtain b where b: "strncpy (replicate 256 NUL) p 255 = Some b"
    using strncpy_eq [OF assms(1), of 255 "replicate 256 NUL"] by simp
  have cb: "cstr b = d @ CHR ''/'' # n" "length b = 256" "b ! 255 = NUL"
    using cstr_strncpy [OF assms(1) _ _ b] assms(2) by simp_all
  then have N: "NUL \<in> set b" using nth_mem [of 255 b] by simp
  have put: "put_at b 255 NUL = Some b" using cb list_update_id [of b 255] by (simp add: put_at_def)
  have r: "strrchr b (CHR ''/'') = Some (Some (length d))"
    unfolding strrchr_def using strrchr_from_hit [OF _ N cb(1) assms(3)] by simp
  note dr = drop_cstr_NUL [OF N cb(1)]
  define nm where "nm = n @ NUL # drop (Suc (length n)) (replicate 128 NUL)"
  have nn: "NUL \<notin> set n" "NUL \<notin> set d" using NUL_notin_cstr [of b] cb(1) by auto
  have nm: "strcpy (replicate 128 NUL) (drop (Suc (length d)) b) = Some nm"
    using dr assms(4) by (simp add: strcpy_eq nm_def)
  have nmc: "cstr nm = n" "NUL \<in> set nm" "length nm = 128" using nn(1) assms(4) by (simp_all add: nm_def)
  have ld: "length d < 256" using length_cstr_less [OF N] cb by simp
  have "\<exists>pp. (if length d = 0 then strcpy b slash else put_at b (length d) NUL) = Some pp \<and> NUL \<in> set pp
      \<and> cstr pp = (if d = [] then ''/'' else d)"
    using cstr_cut [OF cb(1) nn(2)] ld cb(2) by (auto simp: strcpy_eq put_at_def slash_def)
  then obtain pp where pp: "(if length d = 0 then strcpy b slash else put_at b (length d) NUL) = Some pp"
    "NUL \<in> set pp" "cstr pp = (if d = [] then ''/'' else d)" by blast
  have "split_path p = Some (Some (pp, nm))"
    using b put r nm pp(1) by (simp add: split_path_def)
  then show ?thesis using pp nmc by blast
qed

section \<open>Tokens of a path\<close>

lemma tokens_all: "\<forall>c \<in> set d. c \<in> D \<Longrightarrow> tokens D d = []"
  by (subst tokens.simps) (metis (no_types, lifting) dropWhile_eq_Nil_conv list.simps(4))

lemma tokens_delim: "c \<in> D \<Longrightarrow> tokens D (c # e) = tokens D e"
  by (subst (1 2) tokens.simps) simp

lemma while_stop:
  assumes "\<not> P c"
  shows "takeWhile P (xs @ c # ys) = takeWhile P xs" and "dropWhile P (xs @ c # ys) = dropWhile P xs @ c # ys"
  using assms by (induction xs) auto

lemma tokens_append:
  "c \<in> D \<Longrightarrow> tokens D (d @ c # e) = tokens D d @ tokens D e"
proof (induction D d rule: tokens.induct)
  case (1 D s)
  show ?case
  proof (cases "dropWhile (\<lambda>c. c \<in> D) s")
    case Nil
    then have all: "\<forall>x \<in> set s. x \<in> D" by (simp add: dropWhile_eq_Nil_conv)
    have "tokens D (s @ c # e) = tokens D e" using all 1(2) by (subst (1 2) tokens.simps) (simp add: dropWhile_append)
    then show ?thesis using tokens_all [OF all] by simp
  next
    case (Cons x xs)
    have "dropWhile (\<lambda>c. c \<in> D) (s @ c # e) = x # xs @ c # e" using Cons by (simp add: dropWhile_append dropWhile_eq_Nil_conv [symmetric])
    moreover have "tokens D (dropWhile (\<lambda>c. c \<notin> D) (x # xs) @ c # e) = tokens D (dropWhile (\<lambda>c. c \<notin> D) (x # xs)) @ tokens D e"
      by (rule 1(1) [OF Cons 1(2)])
    ultimately show ?thesis
      using while_stop [of "\<lambda>c. c \<notin> D" c "x # xs" e] 1(2) Cons by (subst (1 2) tokens.simps) simp
  qed
qed

lemma toks_simps [simp]: "toks [] = []" "toks ''/'' = []"
  unfolding toks_def by (simp_all add: tokens_all)

lemma toks_single:
  assumes "n \<noteq> []" and "CHR ''/'' \<notin> set n"
  shows "toks n = [n]"
proof -
  obtain x xs where x: "n = x # xs" "x \<noteq> CHR ''/''" using assms by (cases n) auto
  have "tokens {CHR ''/''} n = takeWhile (\<lambda>c. c \<notin> {CHR ''/''}) n # tokens {CHR ''/''} (dropWhile (\<lambda>c. c \<notin> {CHR ''/''}) n)"
    by (subst tokens.simps) (simp add: x)
  moreover have "takeWhile (\<lambda>c. c \<notin> {CHR ''/''}) n = n" using assms(2) by (auto simp: takeWhile_eq_all_conv)
  moreover have "dropWhile (\<lambda>c. c \<notin> {CHR ''/''}) n = []" using assms(2) by (auto simp: dropWhile_eq_Nil_conv)
  ultimately show ?thesis by (simp only: toks_def tokens_all) (simp add: tokens_all)
qed

lemma toks_append: "toks (d @ CHR ''/'' # n) = toks d @ toks n"
  by (simp add: toks_def tokens_append)

lemma resolve_append: "resolve kids s (xs @ ys) r = Option.bind (resolve kids s xs r) (resolve kids s ys)"
  by (induction xs arbitrary: r) (auto simp: bind_assoc split: option.split bind_splits)

section \<open>Parents and mounting\<close>

lemma vfs_parent_eq:
  assumes "vfs_wf kids s" and "vfs_root s = Some root" and "NUL \<in> set p"
    and "take 255 (cstr p) = d @ CHR ''/'' # n" and "CHR ''/'' \<notin> set n" and "length n < 128"
  shows "\<exists>nm. vfs_parent p s = Some (case resolve kids s (toks d) root of
        None \<Rightarrow> None | Some q \<Rightarrow> if is_dir s q then Some (q, nm) else None)
     \<and> cstr nm = n \<and> NUL \<in> set nm \<and> length nm = 128"
proof -
  obtain pp nm where sp: "split_path p = Some (Some (pp, nm))" "NUL \<in> set pp" "NUL \<in> set nm" "cstr nm = n" "length nm = 128"
    "cstr pp = (if d = [] then ''/'' else d)"
    using split_path_eq [OF assms(3-6)] by blast
  have "length (take 255 (cstr p)) \<le> 255" by simp
  then have "length d \<le> 255" unfolding assms(4) by simp
  then have "take 255 (cstr pp) = cstr pp" using sp(6) by simp
  moreover have "toks (cstr pp) = toks d" using sp(6) by simp
  ultimately have "vfs_lookup_path (Some pp) s = Some (resolve kids s (toks d) root)"
    using vfs_lookup_eq [OF assms(1,2) sp(2)] by simp
  then show ?thesis using sp(1,3-5) by (auto simp: vfs_parent_def split: option.split)
qed

lemma mount_dir: "((f :: u32) OR VFS_MOUNT) AND VFS_DIR = f AND VFS_DIR"
proof -
  have "(VFS_MOUNT :: u32) AND VFS_DIR = 0" by code_simp
  then show ?thesis by (simp only: bit.conj_disj_distrib2 or.right_neutral)
qed

lemma vfs_mount_eq:
  assumes "vfs_wf kids s" and "vfs_root s = Some root" and "NUL \<in> set p"
    and "cstr p = d @ CHR ''/'' # n" and "length (cstr p) \<le> 255" and "CHR ''/'' \<notin> set n" and "n \<noteq> []" and "length n < 128"
    and "resolve kids s (toks d) root = Some q" and "is_dir s q"
    and "m \<noteq> q" and "\<forall>r. m \<notin> set (kids r)" and "length (vn_name (nodes s m)) = 128" and "vn_name (nodes s m) ! 127 = NUL"
  defines "own \<equiv> vn_ops (nodes s q) = Some Vfs_Root_Ops"
  defines "kids' \<equiv> if own then kids(q := m # kids q) else kids"
  shows "\<exists>s'. vfs_mount (Some p) (Some m) s = Some (0, s') \<and> vfs_wf kids' s' \<and> vfs_root s' = Some root
    \<and> ramfs_files s' = ramfs_files s \<and> (\<forall>r. is_dir s' r = is_dir s r \<and> vn_ops (nodes s' r) = vn_ops (nodes s r)
        \<and> (r \<noteq> m \<longrightarrow> r \<noteq> q \<longrightarrow> nodes s' r = nodes s r) \<and> (r \<noteq> m \<longrightarrow> vn_name (nodes s' r) = vn_name (nodes s r)))
    \<and> node_name s' m = n
    \<and> (\<forall>r t. dir_entry kids' s' r t = (if own \<and> r = q \<and> t = n then Some m else dir_entry kids s r t))"
proof -
  have c1: "cstr p \<noteq> ''/''" using assms(4,7) by (cases d) auto
  from strcmp_ok [OF assms(3) slash_simps(1)] obtain c where c: "strcmp (Some p) (Some slash) = Some c" "c \<noteq> 0"
    using slash_simps(2) c1 by metis
  have "take 255 (cstr p) = d @ CHR ''/'' # n" using assms(4,5) by simp
  from vfs_parent_eq [OF assms(1-3) this assms(6,8)] obtain nm where nm: "vfs_parent p s = Some (Some (q, nm))"
    "cstr nm = n" "NUL \<in> set nm" "length nm = 128"
    using assms(9,10) by auto
  obtain nm' where nm': "strncpy (vn_name (nodes s m)) nm 127 = Some nm'"
    using strncpy_eq [OF nm(3), of 127 "vn_name (nodes s m)"] assms(13) by auto
  have cn: "cstr nm' = n" "length nm' = 128" "nm' ! 127 = NUL"
    using cstr_strncpy [OF nm(3) _ assms(14) nm'] assms(8,13) nm(2) by simp_all
  then have Nn: "NUL \<in> set nm'" using nth_mem [of 127 nm'] by simp
  define ndm where "ndm = (nodes s m)\<lparr>vn_name := nm', vn_parent := Some q, vn_flags := vn_flags (nodes s m) OR VFS_MOUNT,
      vn_next_sibling := vn_children (nodes s q)\<rparr>"
  define s' where "s' = set_node q ((nodes s q)\<lparr>vn_children := Some m\<rparr>) (set_node m ndm s)"
  have call: "vfs_mount (Some p) (Some m) s = Some (0, s')"
    using assms(2,11) c nm(1) nm' by (simp add: vfs_mount_def s'_def ndm_def set_node_def)
  have nd: "nodes s' q = (nodes s q)\<lparr>vn_children := Some m\<rparr>" "nodes s' m = ndm" "\<And>r. r \<noteq> q \<Longrightarrow> r \<noteq> m \<Longrightarrow> nodes s' r = nodes s r"
    using assms(11) by (simp_all add: s'_def set_node_def)
  have rf: "ramfs_files s' = ramfs_files s" by (simp add: s'_def set_node_def)
  have same: "vn_ops (nodes s' r) = vn_ops (nodes s r)" "r \<noteq> m \<Longrightarrow> vn_name (nodes s' r) = vn_name (nodes s r)"
    "r \<noteq> m \<Longrightarrow> vn_next_sibling (nodes s' r) = vn_next_sibling (nodes s r)"
    "r \<noteq> q \<Longrightarrow> vn_children (nodes s' r) = vn_children (nodes s r)" for r
    subgoal by (cases "r = q"; cases "r = m") (simp_all add: nd ndm_def)
    subgoal by (cases "r = q") (simp_all add: nd)
    subgoal by (cases "r = q") (simp_all add: nd)
    subgoal by (cases "r = m") (simp_all add: nd ndm_def)
    done
  have dir: "is_dir s' r = is_dir s r" for r
    by (cases "r = q"; cases "r = m") (simp_all add: nd is_dir_def ndm_def mount_dir)
  have chain: "sib_chain (nodes s') cur xs \<longleftrightarrow> sib_chain (nodes s) cur xs" if "m \<notin> set xs" for cur xs
    using that
  proof (induction xs arbitrary: cur)
    case (Cons x xs)
    then have "x \<noteq> m" "m \<notin> set xs" by auto
    with Cons.IH same(3) [of x] show ?case by simp
  qed simp
  have wf: "sib_chain (nodes s) (vn_children (nodes s r)) (kids r)" if "vn_ops (nodes s r) = Some Vfs_Root_Ops" for r
    using assms(1) that by (simp add: vfs_wf_def)
  have "sib_chain (nodes s') (vn_children (nodes s' r)) (kids' r)" if "vn_ops (nodes s' r) = Some Vfs_Root_Ops" for r
  proof (cases "r = q")
    case True
    then show ?thesis using that same(1) nd(1,2) chain assms(12) wf [of q] by (simp add: kids'_def own_def ndm_def)
  next
    case False
    then show ?thesis using that same(1,4) chain assms(12) wf [of r] by (simp add: kids'_def)
  qed
  moreover have "NUL \<in> set (vn_name (nodes s' r))" for r
    using assms(1) same(2) [of r] nd(2) Nn by (cases "r = m") (simp_all add: vfs_wf_def ndm_def)
  ultimately have "vfs_wf kids' s'" using assms(1) by (simp add: vfs_wf_def s'_def)
  moreover have "dir_entry kids' s' r t = (if own \<and> r = q \<and> t = n then Some m else dir_entry kids s r t)" for r t
  proof -
    have f: "find (\<lambda>c. node_name s' c = t) xs = find (\<lambda>c. node_name s c = t) xs" if "m \<notin> set xs" for xs
    proof (rule find_cong [OF refl])
      fix x assume "x \<in> set xs"
      then have "x \<noteq> m" using that by auto
      then show "(node_name s' x = t) = (node_name s x = t)" using same(2) [of x] by (simp add: node_name_def)
    qed
    have nm: "node_name s' m = n" using nd(2) cn(1) by (simp add: node_name_def ndm_def)
    show ?thesis
    proof (cases "vn_ops (nodes s r) = Some Vfs_Root_Ops")
      case True
      then show ?thesis
        using f [of "kids r"] nm assms(10,12) same(1) [of r] dir [of r] by (cases "r = q") (simp_all add: dir_entry_def kids'_def own_def)
    next
      case False
      then show ?thesis
        using same(1) [of r] dir [of r] rf by (auto simp: dir_entry_def own_def split: option.split fs_ops.split)
    qed
  qed
  moreover have "node_name s' m = n" using nd(2) cn(1) by (simp add: node_name_def ndm_def)
  moreover have "vfs_root s' = Some root" using assms(2) by (simp add: s'_def set_node_def)
  ultimately show ?thesis using call dir same(1,2) nd(3) rf by blast
qed

text \<open>Mounting a node that is on no directory yet under \<^verbatim>\<open>d/n\<close>, for an existing directory \<open>d\<close>,
  answers 0 and adds exactly one entry to the tree, the name \<open>n\<close> of \<open>d\<close>, in front of an older entry of that name --
  provided that \<open>d\<close> belongs to the root file system: below a directory of another file system the call answers 0 too and the
  node cannot be reached.\<close>

theorem vfs_mount_correct:
  assumes "vfs_wf kids s" and "vfs_root s = Some root" and "NUL \<in> set p"
    and "cstr p = d @ CHR ''/'' # n" and "length (cstr p) \<le> 255" and "CHR ''/'' \<notin> set n" and "n \<noteq> []" and "length n < 128"
    and "resolve kids s (toks d) root = Some q" and "is_dir s q"
    and "m \<noteq> q" and "\<forall>r. m \<notin> set (kids r)" and "length (vn_name (nodes s m)) = 128" and "vn_name (nodes s m) ! 127 = NUL"
  defines "own \<equiv> vn_ops (nodes s q) = Some Vfs_Root_Ops"
  defines "kids' \<equiv> if own then kids(q := m # kids q) else kids"
  shows "\<exists>s'. vfs_mount (Some p) (Some m) s = Some (0, s') \<and> vfs_wf kids' s' \<and> vfs_root s' = Some root
    \<and> ramfs_files s' = ramfs_files s \<and> (\<forall>r. is_dir s' r = is_dir s r)
    \<and> (\<forall>r t. dir_entry kids' s' r t = (if own \<and> r = q \<and> t = n then Some m else dir_entry kids s r t))"
  using vfs_mount_eq [OF assms(1-14)] unfolding own_def kids'_def by blast

section \<open>The tree after start-up\<close>

text \<open>What the nodes of the files in memory look like.\<close>

definition ram_nodes_ok :: "fs \<Rightarrow> bool" where
  "ram_nodes_ok s \<longleftrightarrow> (\<forall>i. NUL \<in> set (vn_name (nodes s (Ram_Node i))) \<and> \<not> is_dir s (Ram_Node i)
     \<and> vn_ops (nodes s (Ram_Node i)) \<noteq> Some Vfs_Root_Ops
     \<and> (i < 64 \<longrightarrow> rf_used (node_file s i) \<longrightarrow> ram_node_ok s i \<and> vn_ops (nodes s (Ram_Node i)) = Some Ramfs_Ops))"

definition boot_kids :: "node_ref \<Rightarrow> node_ref \<Rightarrow> node_ref list" where
  "boot_kids root r = (if r = root then [Proc_Root, Ram_Root] else [])"

definition fs_booted :: "node_ref \<Rightarrow> fs \<Rightarrow> bool" where
  "fs_booted root s \<longleftrightarrow> vfs_root s = Some root \<and> vfs_wf (boot_kids root) s \<and> ram_nodes_ok s
     \<and> (\<forall>i < 10. proc_node_ok i (nodes s (Proc_Node i))) \<and> (\<exists>a. root = Heap_Node a)
     \<and> is_dir s root \<and> is_dir s Ram_Root \<and> is_dir s Proc_Root
     \<and> vn_ops (nodes s root) = Some Vfs_Root_Ops \<and> vn_ops (nodes s Ram_Root) = Some Ramfs_Ops
     \<and> vn_ops (nodes s Proc_Root) = Some Procfs_Ops \<and> node_name s Ram_Root = ''ram'' \<and> node_name s Proc_Root = ''proc''"

definition boot_tree :: "node_ref \<Rightarrow> fs \<Rightarrow> string list \<Rightarrow> node_ref option" where
  "boot_tree root s ts =
     (case ts of
        [] \<Rightarrow> Some root
      | [d] \<Rightarrow> if d = ''ram'' then Some Ram_Root else if d = ''proc'' then Some Proc_Root else None
      | [d, f] \<Rightarrow> if d = ''ram'' then map_option Ram_Node (slot_of f (ramfs_files s))
                 else if d = ''proc'' then map_option Proc_Node (proc_index f) else None
      | _ \<Rightarrow> None)"

lemma proc_index_less: "proc_index t = Some i \<Longrightarrow> i < 10 \<and> proc_file_names ! i = t"
  unfolding proc_index_def by (auto simp: find_Some_iff)

lemma fs_booted_resolve:
  assumes "fs_booted root s"
  shows "resolve (boot_kids root) s ts root = boot_tree root s ts"
proof -
  note b = assms [unfolded fs_booted_def]
  let ?R = "resolve (boot_kids root) s"
  have "root \<noteq> Ram_Root" "root \<noteq> Proc_Root" using b by auto
  then have d: "dir_entry (boot_kids root) s root t = (if t = ''ram'' then Some Ram_Root else if t = ''proc'' then Some Proc_Root else None)" for t
    using b by (auto simp: dir_entry_def boot_kids_def)
  have r: "dir_entry (boot_kids root) s Ram_Root t = map_option Ram_Node (slot_of t (ramfs_files s))"
    "dir_entry (boot_kids root) s Proc_Root t = map_option Proc_Node (proc_index t)" for t
    using b by (simp_all add: dir_entry_def)
  have leaf: "\<not> is_dir s (Ram_Node i)" for i using b by (simp add: ram_nodes_ok_def)
  have leaf': "\<not> is_dir s (Proc_Node i)" if "proc_index t = Some i" for i t
    using b proc_index_less [OF that] by (auto simp: proc_node_ok_def is_dir_def)
  show ?thesis
  proof (cases ts)
    case (Cons t us)
    show ?thesis
    proof (cases us)
      case (Cons u vs)
      have "?R (u # vs) Ram_Root = (if vs = [] then map_option Ram_Node (slot_of u (ramfs_files s)) else None)"
        using b r leaf by (cases vs) (auto split: bind_splits)
      moreover have "?R (u # vs) Proc_Root = (if vs = [] then map_option Proc_Node (proc_index u) else None)"
        using b r leaf' by (cases vs) (auto split: bind_splits)
      ultimately show ?thesis
        using b d \<open>ts = t # us\<close> Cons by (cases vs) (auto simp: boot_tree_def)
    qed (use b d Cons in \<open>auto simp: boot_tree_def\<close>)
  qed (simp add: boot_tree_def)
qed

lemma fs_booted_lookup:
  assumes "fs_booted root s" and "NUL \<in> set p"
  shows "vfs_lookup_path (Some p) s = Some (boot_tree root s (toks (take 255 (cstr p))))"
proof -
  have "vfs_wf (boot_kids root) s" "vfs_root s = Some root" using assms(1) by (simp_all add: fs_booted_def)
  from vfs_lookup_eq [OF this assms(2)] show ?thesis using fs_booted_resolve [OF assms(1)] by simp
qed

text \<open>Operations on the files in memory keep the tree.\<close>

lemma fs_booted_update:
  assumes "fs_booted root s" and "vfs_root s' = vfs_root s" and "\<And>r. (\<And>i. r \<noteq> Ram_Node i) \<Longrightarrow> nodes s' r = nodes s r"
    and "ramfs_wf s'" and "ram_nodes_ok s'"
  shows "fs_booted root s'"
proof -
  note b = assms(1) [unfolded fs_booted_def]
  have same: "nodes s' root = nodes s root" "nodes s' Ram_Root = nodes s Ram_Root" "nodes s' Proc_Root = nodes s Proc_Root"
    "nodes s' (Proc_Node i) = nodes s (Proc_Node i)" for i
    using assms(3) b by auto
  have N: "NUL \<in> set (vn_name (nodes s' r))" for r
  proof (cases "\<exists>i. r = Ram_Node i")
    case False
    then show ?thesis using assms(3) [of r] b by (auto simp: vfs_wf_def)
  qed (use assms(5) in \<open>auto simp: ram_nodes_ok_def\<close>)
  have ops: "vn_ops (nodes s' r) = Some Vfs_Root_Ops \<Longrightarrow> nodes s' r = nodes s r" for r
    using assms(3) [of r] assms(5) by (cases "\<exists>i. r = Ram_Node i") (auto simp: ram_nodes_ok_def)
  have "sib_chain (nodes s') (vn_children (nodes s' r)) (boot_kids root r)" if o: "vn_ops (nodes s' r) = Some Vfs_Root_Ops" for r
  proof -
    have "sib_chain (nodes s) (vn_children (nodes s r)) (boot_kids root r)" using b o ops [OF o] by (simp add: vfs_wf_def)
    then show ?thesis using ops [OF o] same by (auto simp: boot_kids_def)
  qed
  then have "vfs_wf (boot_kids root) s'" using N assms(4) by (simp add: vfs_wf_def)
  then show ?thesis using b assms(2,5) same by (simp add: fs_booted_def is_dir_def node_name_def)
qed

section \<open>Files through the tree\<close>

lemma ramfs_create_form:
  assumes "ramfs_create (Some b) s = Some (0, s')"
  obtains i f nm where "ramfs_free_slot s = Some i" "rf_used f" "strncpy (vn_name zero_node) b 127 = Some nm"
    "s' = set_node (Ram_Node i) (zero_node\<lparr>vn_name := nm, vn_flags := VFS_FILE, vn_size := 0, vn_inode := of_nat i + 1,
            vn_private_data := Some i, vn_ops := Some Ramfs_Ops\<rparr>) (set_file i f s)"
proof -
  obtain i fn fd nm where i: "ramfs_free_slot s = Some i" "strncpy (vn_name zero_node) b 127 = Some nm"
    "s' = set_node (Ram_Node i) (zero_node\<lparr>vn_name := nm, vn_flags := VFS_FILE, vn_size := 0, vn_inode := of_nat i + 1,
            vn_private_data := Some i, vn_ops := Some Ramfs_Ops\<rparr>)
          (set_file i \<lparr>rf_name = fn, rf_data = fd, rf_size = 0, rf_used = True\<rparr> s)"
    using assms unfolding ramfs_create_def Let_def
    by (auto split: option.splits if_split_asm simp: bind_eq_Some_conv)
  show ?thesis by (rule that [OF i(1) _ i(2,3)]) simp
qed

lemma ramfs_create_nodes:
  assumes "ramfs_wf s" and "ram_nodes_ok s" and "NUL \<in> set b" and "length (cstr b) \<le> 63"
    and "ramfs_view s (cstr b) = None" and "\<not> ramfs_full s"
  obtains s' where "ramfs_create (Some b) s = Some (0, s')" "ramfs_wf s'" "ramfs_view s' = (ramfs_view s)(cstr b \<mapsto> [])"
    "ram_nodes_ok s'" "vfs_root s' = vfs_root s" "\<forall>r. (\<forall>i. r \<noteq> Ram_Node i) \<longrightarrow> nodes s' r = nodes s r"
proof -
  obtain s' where s': "ramfs_create (Some b) s = Some (0, s')" "ramfs_wf s'" "ramfs_view s' = (ramfs_view s)(cstr b \<mapsto> [])"
    using ramfs_create_eq [OF assms(1,3,4)] assms(5,6) by auto
  obtain i f nm where f: "ramfs_free_slot s = Some i" "rf_used f" "strncpy (vn_name zero_node) b 127 = Some nm"
    "s' = set_node (Ram_Node i) (zero_node\<lparr>vn_name := nm, vn_flags := VFS_FILE, vn_size := 0, vn_inode := of_nat i + 1,
            vn_private_data := Some i, vn_ops := Some Ramfs_Ops\<rparr>) (set_file i f s)"
    using ramfs_create_form [OF s'(1)] .
  have i: "i < 64" using ramfs_free_slot_Some [OF assms(1) f(1)] by simp
  have nm: "NUL \<in> set nm"
    using cstr_strncpy [OF assms(3) _ _ f(3)] nth_mem [of 127 nm] by (auto simp: zero_node_def)
  have "length (ramfs_files s) = 64" using assms(1) by (simp add: ramfs_wf_def)
  then have "ram_nodes_ok s'"
    using assms(2) i nm f(2) unfolding ram_nodes_ok_def f(4)
    by (auto simp: set_node_def set_file_def is_dir_def ram_node_ok_def nth_list_update)
  moreover have "vfs_root s' = vfs_root s" "\<forall>r. (\<forall>i. r \<noteq> Ram_Node i) \<longrightarrow> nodes s' r = nodes s r"
    unfolding f(4) by (simp_all add: set_node_def set_file_def)
  ultimately show ?thesis using s' that by blast
qed

text \<open>Writing changes no more of the nodes than the size of a file.\<close>

definition file_id :: "ramfs_file \<Rightarrow> bool \<times> char list" where
  "file_id f = (rf_used f, rf_name f)"

definition same_nodes :: "fs \<Rightarrow> fs \<Rightarrow> bool" where
  "same_nodes s s' \<longleftrightarrow> vfs_root s' = vfs_root s \<and> map file_id (ramfs_files s') = map file_id (ramfs_files s)
     \<and> (\<forall>r. \<exists>z. nodes s' r = (nodes s r)\<lparr>vn_size := z\<rparr>) \<and> (\<forall>r. (\<forall>i. r \<noteq> Ram_Node i) \<longrightarrow> nodes s' r = nodes s r)"

lemma same_nodesI:
  "same_nodes s s"
  "file_id f' = file_id (node_file s i) \<Longrightarrow> same_nodes s (set_file i f' s)"
  "file_id f' = file_id (node_file s i) \<Longrightarrow> same_nodes s (set_node (Ram_Node j) ((nodes s (Ram_Node j))\<lparr>vn_size := z\<rparr>) (set_file i f' s))"
proof -
  have e: "\<exists>z. n = n\<lparr>vn_size := z\<rparr>" for n :: vfs_node by (rule exI [of _ "vn_size n"]) simp
  show "same_nodes s s" unfolding same_nodes_def by (intro conjI allI impI refl e)
  have m: "map file_id ((ramfs_files s)[i := f']) = map file_id (ramfs_files s)" if "file_id f' = file_id (node_file s i)"
    using that by (cases "i < length (ramfs_files s)") (simp_all add: map_update list_update_same_conv list_update_beyond)
  show "same_nodes s (set_file i f' s)" if "file_id f' = file_id (node_file s i)"
    unfolding same_nodes_def using m [OF that] by (intro conjI allI impI) (simp_all add: set_file_def e)
  show "same_nodes s (set_node (Ram_Node j) ((nodes s (Ram_Node j))\<lparr>vn_size := z\<rparr>) (set_file i f' s))"
    if "file_id f' = file_id (node_file s i)"
  proof -
    have "\<exists>y. nodes (set_node (Ram_Node j) ((nodes s (Ram_Node j))\<lparr>vn_size := z\<rparr>) (set_file i f' s)) r = (nodes s r)\<lparr>vn_size := y\<rparr>" for r
    proof (cases "r = Ram_Node j")
      case True
      then show ?thesis by (intro exI [of _ z]) (simp add: set_node_def set_file_def)
    next
      case False
      then show ?thesis by (intro exI [of _ "vn_size (nodes s r)"]) (simp add: set_node_def set_file_def)
    qed
    then show ?thesis
      unfolding same_nodes_def using m [OF that] by (intro conjI allI impI) (simp_all add: set_file_def set_node_def)
  qed
qed

lemma same_nodes_ok:
  assumes "same_nodes s s'" and "ram_nodes_ok s" and "length (ramfs_files s) = 64"
  shows "ram_nodes_ok s'"
proof -
  have len: "length (ramfs_files s') = 64" using assms(1,3) unfolding same_nodes_def by (metis length_map)
  have u: "rf_used (node_file s' i) = rf_used (node_file s i)" if "i < 64" for i
    using assms(1,3) len that unfolding same_nodes_def by (metis file_id_def fst_conv nth_map)
  have n: "vn_name (nodes s' r) = vn_name (nodes s r) \<and> vn_flags (nodes s' r) = vn_flags (nodes s r)
      \<and> vn_ops (nodes s' r) = vn_ops (nodes s r) \<and> vn_private_data (nodes s' r) = vn_private_data (nodes s r)" for r
  proof -
    obtain z where "nodes s' r = (nodes s r)\<lparr>vn_size := z\<rparr>" using assms(1) unfolding same_nodes_def by blast
    then show ?thesis by simp
  qed
  show ?thesis using assms(2) u by (auto simp: ram_nodes_ok_def is_dir_def ram_node_ok_def n)
qed

lemma ramfs_write_same: "ramfs_write b d len s = Some (r, s') \<Longrightarrow> same_nodes s s'"
  unfolding ramfs_write_def Let_def
  by (auto split: option.splits if_splits simp: bind_eq_Some_conv file_id_def intro!: same_nodesI)

lemma ramfs_vfs_write_same: "ramfs_vfs_write (Some (Ram_Node i)) off len d s = Some (r, s') \<Longrightarrow> same_nodes s s'"
  unfolding ramfs_vfs_write_def Let_def
  by (auto split: option.splits if_splits simp: bind_eq_Some_conv ramfs_file_of_def file_id_def intro!: same_nodesI)

text \<open>The files that a fresh file system in memory holds.\<close>

definition welcome_text :: string where
  "welcome_text = ''Welcome to Dionnex Monolithic Kernel v0.1!''"

lemma ramfs_init_ok:
  assumes "vga_ok con"
  obtains s' c where "ramfs_init s con = Some (s', c)" "vga_ok c" "ramfs_wf s'" "ram_nodes_ok s'"
    "ramfs_view s' = [''readme.txt'' \<mapsto> welcome_text]" "vfs_root s' = vfs_root s"
    "nodes s' Ram_Root = zero_node\<lparr>vn_name := ''ram'' @ replicate 125 NUL, vn_flags := VFS_DIR, vn_ops := Some Ramfs_Ops\<rparr>"
    "\<forall>r. r \<noteq> Ram_Root \<longrightarrow> (\<forall>i. r \<noteq> Ram_Node i) \<longrightarrow> nodes s' r = nodes s r"
proof -
  define nd where "nd = zero_node\<lparr>vn_name := ''ram'' @ replicate 125 NUL, vn_flags := VFS_DIR, vn_ops := Some Ramfs_Ops\<rparr>"
  have nm: "strcpy (vn_name zero_node) (''ram'' @ [NUL]) = Some (''ram'' @ replicate 125 NUL)"
    by (subst strcpy_eq) (simp_all add: zero_node_def Cons_replicate_eq)
  define s0 where "s0 = s\<lparr>ramfs_files := replicate RAMFS_MAX_FILES
                 \<lparr>rf_name = replicate RAMFS_MAX_NAME NUL, rf_data = replicate (unat RAMFS_MAX_DATA) NUL, rf_size = 0, rf_used = False\<rparr>,
               nodes := (\<lambda>r. case r of Ram_Node i \<Rightarrow> zero_node | _ \<Rightarrow> nodes s r)\<rparr>"
  define s1 where "s1 = set_node Ram_Root nd s0"
  have f1: "ramfs_files s1 = ramfs_files ramfs_blank" by (simp add: s1_def s0_def set_node_def ramfs_blank_def)
  have wf1: "ramfs_wf s1" "ramfs_view s1 = Map.empty" "\<not> ramfs_full s1"
    using ramfs_blank_wf unfolding ramfs_wf_def ramfs_full_def ramfs_view_def [abs_def] f1 by simp_all
  have n1: "nodes s1 (Ram_Node i) = zero_node" for i by (simp add: s1_def s0_def set_node_def)
  have ok1: "ram_nodes_ok s1"
    unfolding ram_nodes_ok_def n1 f1 is_dir_def by (simp add: zero_node_def ramfs_blank_def)
  let ?b = "''readme.txt'' @ [NUL]"
  have b: "NUL \<in> set ?b" "cstr ?b = ''readme.txt''" "length (cstr ?b) \<le> 63" by simp_all
  have "ramfs_view s1 (cstr ?b) = None" using wf1(2) by simp
  from ramfs_create_nodes [OF wf1(1) ok1 b(1,3) this wf1(3)] obtain s2 where
    s2: "ramfs_create (Some ?b) s1 = Some (0, s2)" "ramfs_wf s2" "ramfs_view s2 = (ramfs_view s1)(cstr ?b \<mapsto> [])"
    "ram_nodes_ok s2" "vfs_root s2 = vfs_root s1" "\<forall>r. (\<forall>i. r \<noteq> Ram_Node i) \<longrightarrow> nodes s2 r = nodes s1 r" .
  let ?w = "welcome_text @ [NUL]"
  have w: "strlen_buf ?w = Some 42" "length ?w = 43" "take 42 ?w = welcome_text" by (simp_all add: welcome_text_def strlen_buf_eq)
  have u: "unat (of_nat 42 :: u32) = 42" by simp
  obtain r s3 where s3: "ramfs_write (Some ?b) (Some ?w) (of_nat 42) s2 = Some (r, s3)" "ramfs_wf s3"
    "ramfs_view s3 = [''readme.txt'' \<mapsto> welcome_text]"
    using ramfs_write_eq [OF s2(2) b(1), of "of_nat 42" ?w] s2(3) wf1(2) w u by (auto simp: b(2))
  note same = ramfs_write_same [OF s3(1)]
  have ok3: "ram_nodes_ok s3" using same_nodes_ok [OF same s2(4)] s2(2) by (simp add: ramfs_wf_def)
  have n3: "nodes s3 r = nodes s1 r" if "\<And>i. r \<noteq> Ram_Node i" for r
    using same s2(6) that by (simp add: same_nodes_def)
  have root: "vfs_root s3 = vfs_root s" using same s2(5) by (simp add: same_nodes_def s1_def s0_def set_node_def)
  let ?fmt = "''RAMFS: Initialized in-memory Virtual Filesystem (%d slots)'' @ [CHR 0x0A]" and ?args = "[VA_word (of_nat RAMFS_MAX_FILES)]"
  have "\<exists>out. printk_text ?fmt ?args = Some out" by simp
  then obtain out where o: "printk_text ?fmt ?args = Some out" ..
  have "NUL \<notin> set ?fmt" by simp
  from printk_defined [OF assms this o] obtain c where c: "printk (Some (?fmt @ [NUL])) ?args con = Some c" "vga_ok c" by blast
  have "ramfs_init s con = Some (s3, c)"
    unfolding ramfs_init_def Let_def s0_def [symmetric] nm Option.bind.simps nd_def [symmetric] s1_def [symmetric] s2(1) prod.case
      welcome_text_def [symmetric] strlen_def option.case w(1) s3(1)
    using c(1) by simp
  moreover have "nodes s3 Ram_Root = nd" using n3 [of Ram_Root] by (simp add: s1_def set_node_def)
  moreover have "nodes s3 r = nodes s r" if "r \<noteq> Ram_Root" "\<And>i. r \<noteq> Ram_Node i" for r
  proof -
    have "\<forall>i. r \<noteq> Ram_Node i" using that(2) by blast
    then show ?thesis using n3 [OF that(2)] that(1) by (cases r) (simp_all add: s1_def s0_def set_node_def)
  qed
  ultimately show ?thesis using that c(2) s3(2,3) ok3 root unfolding nd_def by blast
qed

section \<open>Start-up\<close>

lemma vfs_init_ok:
  assumes "heap_wf (k_heap k) xs" and "(fb, fz, True) \<in> set xs" and "160 \<le> fz" and "vga_ok (k_con k)"
  obtains a k' where "vfs_init s k = Some (Inr (set_node (Heap_Node a)
        (zero_node\<lparr>vn_name := ''/'' @ replicate 127 NUL, vn_flags := VFS_DIR, vn_ops := Some Vfs_Root_Ops\<rparr>)
        (s\<lparr>vfs_root := Some (Heap_Node a)\<rparr>), k'))" "vga_ok (k_con k')"
proof -
  have "ALIGN_UP 160 4 = 160" by code_simp
  with assms(3) have "ALIGN_UP 160 4 \<le> fz" by simp
  moreover have "(0 :: u32) < 160" by simp
  ultimately obtain a az k1 ys where a: "k_kmalloc 160 k = Some (Inr (a + HDR, k1))" "a + HDR \<noteq> 0" "k_con k1 = k_con k"
    using k_kmalloc_ok [OF assms(1) _ assms(2)] by metis
  have nm: "strcpy (vn_name zero_node) slash = Some (''/'' @ replicate 127 NUL)"
    unfolding slash_def by (subst strcpy_eq) (simp_all add: zero_node_def Cons_replicate_eq)
  let ?fmt = "''VFS: Virtual filesystem layer initialized'' @ [CHR 0x0A]"
  have "NUL \<notin> set ?fmt" "\<exists>out. printk_text ?fmt [] = Some out" by simp_all
  then obtain out where o: "NUL \<notin> set ?fmt" "printk_text ?fmt [] = Some out" by blast
  have "vga_ok (k_con k1)" using assms(4) a(3) by simp
  from k_printk_ok [OF this o] obtain c where c: "k_printk ?fmt [] k1 = Some (k1\<lparr>k_con := c\<rparr>)" "vga_ok c" .
  show ?thesis
    by (rule that [of "a + HDR" "k1\<lparr>k_con := c\<rparr>"]) (use a nm c in \<open>simp_all add: vfs_init_def\<close>)
qed

lemma boot_paths: "NUL \<in> set (''/ram'' @ [NUL])" "cstr (''/ram'' @ [NUL]) = [] @ CHR ''/'' # ''ram''"
  "NUL \<in> set (''/proc'' @ [NUL])" "cstr (''/proc'' @ [NUL]) = [] @ CHR ''/'' # ''proc''"
  by simp_all

text \<open>The mount of a node on an empty name of the root directory.\<close>

lemma mount_at_root:
  assumes "vfs_wf kids s" and "vfs_root s = Some (Heap_Node a)" and "NUL \<in> set p" and "cstr p = [] @ CHR ''/'' # n"
    and "CHR ''/'' \<notin> set n" and "n \<noteq> []" and "length n < 128"
    and "is_dir s (Heap_Node a)" and "vn_ops (nodes s (Heap_Node a)) = Some Vfs_Root_Ops"
    and "m \<noteq> Heap_Node a" and "\<forall>r. m \<notin> set (kids r)" and "length (vn_name (nodes s m)) = 128" and "vn_name (nodes s m) ! 127 = NUL"
  shows "\<exists>s'. vfs_mount (Some p) (Some m) s = Some (0, s') \<and> vfs_wf (kids(Heap_Node a := m # kids (Heap_Node a))) s'
    \<and> vfs_root s' = Some (Heap_Node a) \<and> ramfs_files s' = ramfs_files s
    \<and> (\<forall>r. is_dir s' r = is_dir s r \<and> vn_ops (nodes s' r) = vn_ops (nodes s r)
        \<and> (r \<noteq> m \<longrightarrow> r \<noteq> Heap_Node a \<longrightarrow> nodes s' r = nodes s r) \<and> (r \<noteq> m \<longrightarrow> vn_name (nodes s' r) = vn_name (nodes s r)))
    \<and> node_name s' m = n"
proof -
  have r: "resolve kids s (toks []) (Heap_Node a) = Some (Heap_Node a)" by simp
  have len: "length (cstr p) \<le> 255" using assms(4,7) by simp
  have q: "m \<noteq> Heap_Node a" by fact
  show ?thesis
    using vfs_mount_eq [OF assms(1-4) len assms(5-7) r assms(8) q assms(11-13)] assms(9) by auto
qed

lemma ram_nodes_cong:
  "ram_nodes_ok s \<Longrightarrow> ramfs_files s' = ramfs_files s \<Longrightarrow> \<forall>i. nodes s' (Ram_Node i) = nodes s (Ram_Node i) \<Longrightarrow> ram_nodes_ok s'"
  by (simp add: ram_nodes_ok_def is_dir_def ram_node_ok_def)

lemma sib_chain_cong:
  "sib_chain nd cur xs \<Longrightarrow> \<forall>x \<in> set xs. vn_next_sibling (nd' x) = vn_next_sibling (nd x) \<Longrightarrow> sib_chain nd' cur xs"
  by (induction xs arbitrary: cur) auto

lemma fs_boot_eq:
  assumes "heap_wf (k_heap k) xs" and "(fb, fz, True) \<in> set xs" and "160 \<le> fz" and "vga_ok (k_con k)"
    and "\<forall>r. NUL \<in> set (vn_name (nodes s r)) \<and> vn_ops (nodes s r) = None"
  shows "\<exists>s' k' root. fs_boot s k = Some (Inr (s', k')) \<and> fs_booted root s'
    \<and> ramfs_view s' = [''readme.txt'' \<mapsto> welcome_text]
    \<and> (\<forall>p. NUL \<in> set p \<longrightarrow> vfs_lookup_path (Some p) s' = Some (boot_tree root s' (toks (take 255 (cstr p)))))"
proof -
  define nd where "nd = zero_node\<lparr>vn_name := ''/'' @ replicate 127 NUL, vn_flags := VFS_DIR, vn_ops := Some Vfs_Root_Ops\<rparr>"
  obtain a k1 where 1: "vfs_init s k = Some (Inr (set_node (Heap_Node a) nd (s\<lparr>vfs_root := Some (Heap_Node a)\<rparr>), k1))" "vga_ok (k_con k1)"
    using vfs_init_ok [OF assms(1-4), of s] unfolding nd_def by blast
  let ?s1 = "set_node (Heap_Node a) nd (s\<lparr>vfs_root := Some (Heap_Node a)\<rparr>)" and ?root = "Heap_Node a"
  obtain s2 c2 where 2: "ramfs_init ?s1 (k_con k1) = Some (s2, c2)" "vga_ok c2" "ramfs_wf s2" "ram_nodes_ok s2"
    "ramfs_view s2 = [''readme.txt'' \<mapsto> welcome_text]" "vfs_root s2 = vfs_root ?s1"
    "nodes s2 Ram_Root = zero_node\<lparr>vn_name := ''ram'' @ replicate 125 NUL, vn_flags := VFS_DIR, vn_ops := Some Ramfs_Ops\<rparr>"
    "\<forall>r. r \<noteq> Ram_Root \<longrightarrow> (\<forall>i. r \<noteq> Ram_Node i) \<longrightarrow> nodes s2 r = nodes ?s1 r"
    using ramfs_init_ok [OF 1(2), of ?s1] .
  have nroot: "nodes s2 ?root = nd" using 2(8) by (simp add: set_node_def)
  have N: "NUL \<in> set (vn_name (nodes s2 r)) \<and> (r \<noteq> ?root \<longrightarrow> vn_ops (nodes s2 r) \<noteq> Some Vfs_Root_Ops)" for r
  proof (cases "\<exists>i. r = Ram_Node i")
    case True
    then show ?thesis using 2(4) by (auto simp: ram_nodes_ok_def)
  next
    case False
    then show ?thesis using 2(7,8) assms(5) nroot by (cases "r = Ram_Root"; cases "r = ?root") (auto simp: nd_def set_node_def)
  qed
  have "sib_chain (nodes s2) (vn_children (nodes s2 r)) []" if "vn_ops (nodes s2 r) = Some Vfs_Root_Ops" for r
    using N [of r] that nroot by (cases "r = ?root") (simp_all add: nd_def zero_node_def)
  then have wf2: "vfs_wf (\<lambda>_. []) s2" using N 2(3) by (simp add: vfs_wf_def)
  have root2: "vfs_root s2 = Some ?root" using 2(6) by (simp add: set_node_def)
  have dir2: "is_dir s2 ?root" "vn_ops (nodes s2 ?root) = Some Vfs_Root_Ops" by (simp_all add: is_dir_def nroot nd_def)
  obtain s3 where 3: "vfs_mount (Some (''/ram'' @ [NUL])) (Some Ram_Root) s2 = Some (0, s3)"
    "vfs_wf ((\<lambda>_. [])(?root := [Ram_Root])) s3" "vfs_root s3 = Some ?root" "ramfs_files s3 = ramfs_files s2"
    "\<forall>r. is_dir s3 r = is_dir s2 r \<and> vn_ops (nodes s3 r) = vn_ops (nodes s2 r)
       \<and> (r \<noteq> Ram_Root \<longrightarrow> r \<noteq> ?root \<longrightarrow> nodes s3 r = nodes s2 r) \<and> (r \<noteq> Ram_Root \<longrightarrow> vn_name (nodes s3 r) = vn_name (nodes s2 r))"
    "node_name s3 Ram_Root = ''ram''"
    using mount_at_root [OF wf2 root2 boot_paths(1,2) _ _ _ dir2, of Ram_Root] 2(7) by auto
  have con3: "vga_ok (k_con (k1\<lparr>k_con := c2\<rparr>))" using 2(2) by simp
  obtain s4 c4 where 4: "procfs_init s3 (k1\<lparr>k_con := c2\<rparr>) = Some (s4, k1\<lparr>k_con := c2\<rparr>\<lparr>k_con := c4\<rparr>)"
    "ramfs_files s4 = ramfs_files s3" "vfs_root s4 = vfs_root s3"
    "\<And>r. r \<noteq> Proc_Root \<Longrightarrow> \<forall>i < 10. r \<noteq> Proc_Node i \<Longrightarrow> nodes s4 r = nodes s3 r"
    "\<And>i. i < 10 \<Longrightarrow> proc_node_ok i (nodes s4 (Proc_Node i))"
    "nodes s4 Proc_Root = zero_node\<lparr>vn_name := ''proc'' @ replicate 124 NUL, vn_flags := VFS_DIR, vn_ops := Some Procfs_Ops\<rparr>"
    using procfs_init_ok [OF con3, of s3 thesis] by blast
  have n4: "nodes s4 ?root = nodes s3 ?root" "nodes s4 Ram_Root = nodes s3 Ram_Root" "nodes s4 (Ram_Node i) = nodes s3 (Ram_Node i)" for i
    by (rule 4(4); simp)+
  have wf4: "vfs_wf ((\<lambda>_. [])(?root := [Ram_Root])) s4"
  proof -
    have "NUL \<in> set (vn_name (nodes s4 r)) \<and> (vn_ops (nodes s4 r) = Some Vfs_Root_Ops \<longrightarrow> nodes s4 r = nodes s3 r)" for r
    proof (cases "r = Proc_Root \<or> (\<exists>i < 10. r = Proc_Node i)")
      case True
      then show ?thesis using 4(5,6) by (auto simp: proc_node_ok_def)
    next
      case False
      then show ?thesis using 4(4) [of r] 3(2) by (auto simp: vfs_wf_def)
    qed
    moreover have "sib_chain (nodes s4) cur (((\<lambda>_. [])(?root := [Ram_Root])) r)"
      if "sib_chain (nodes s3) cur (((\<lambda>_. [])(?root := [Ram_Root])) r)" for cur r
      using sib_chain_cong [OF that, of "nodes s4"] n4(2) by auto
    ultimately show ?thesis using 3(2) 4(2) unfolding vfs_wf_def by (metis ramfs_wf_def)
  qed
  have root4: "vfs_root s4 = Some ?root" using 3(3) 4(3) by simp
  have dir4: "is_dir s4 ?root" "vn_ops (nodes s4 ?root) = Some Vfs_Root_Ops"
    using dir2 3(5) n4(1) by (simp_all add: is_dir_def)
  obtain s5 where 5: "vfs_mount (Some (''/proc'' @ [NUL])) (Some Proc_Root) s4 = Some (0, s5)"
    "vfs_wf ((\<lambda>_. [])(?root := [Proc_Root, Ram_Root])) s5" "vfs_root s5 = Some ?root" "ramfs_files s5 = ramfs_files s4"
    "\<forall>r. is_dir s5 r = is_dir s4 r \<and> vn_ops (nodes s5 r) = vn_ops (nodes s4 r)
       \<and> (r \<noteq> Proc_Root \<longrightarrow> r \<noteq> ?root \<longrightarrow> nodes s5 r = nodes s4 r) \<and> (r \<noteq> Proc_Root \<longrightarrow> vn_name (nodes s5 r) = vn_name (nodes s4 r))"
    "node_name s5 Proc_Root = ''proc''"
    using mount_at_root [OF wf4 root4 boot_paths(3,4) _ _ _ dir4, of Proc_Root] 4(6) by auto
  have files: "ramfs_files s5 = ramfs_files s2" using 3(4) 4(2) 5(4) by simp
  have "nodes s5 (Ram_Node i) = nodes s2 (Ram_Node i)" for i using 3(5) n4(3) 5(5) by simp
  then have "ram_nodes_ok s5" using ram_nodes_cong [OF 2(4) files] by simp
  moreover have "(\<lambda>_. [])(?root := [Proc_Root, Ram_Root]) = boot_kids ?root" by (auto simp: boot_kids_def)
  moreover have "proc_node_ok i (nodes s5 (Proc_Node i))" if "i < 10" for i using 4(5) [OF that] 5(5) by simp
  moreover have "is_dir s5 Ram_Root" "is_dir s5 Proc_Root" "vn_ops (nodes s5 Ram_Root) = Some Ramfs_Ops"
    "vn_ops (nodes s5 Proc_Root) = Some Procfs_Ops" "node_name s5 Ram_Root = ''ram''"
    using 2(7) 3(5,6) 4(6) 5(5) n4(2) by (simp_all add: is_dir_def node_name_def)
  ultimately have booted: "fs_booted ?root s5" using 5(2,3,5,6) dir4 by (simp add: fs_booted_def)
  have "fs_boot s k = Some (Inr (s5, k1\<lparr>k_con := c2\<rparr>\<lparr>k_con := c4\<rparr>))"
    using 1(1) 2(1) 3(1) 4(1) 5(1) by (simp add: fs_boot_def nd_def [symmetric] ramfs_get_root_node_def procfs_get_root_node_def)
  moreover have "ramfs_view s5 = [''readme.txt'' \<mapsto> welcome_text]"
    using 2(5) unfolding ramfs_view_def [abs_def] files .
  ultimately show ?thesis using booted fs_booted_lookup [OF booted] by blast
qed

text \<open>C21: after the mounts of \<^verbatim>\<open>kernel_main\<close> every path is decided by the names between its slashes: the
  root, \<^verbatim>\<open>ram\<close> with the files in memory (one, the welcome text), \<^verbatim>\<open>proc\<close> with its ten files, and
  nothing else.\<close>

theorem fs_boot_correct:
  assumes "heap_wf (k_heap k) xs" and "(fb, fz, True) \<in> set xs" and "160 \<le> fz" and "vga_ok (k_con k)"
    and "\<forall>r. NUL \<in> set (vn_name (nodes s r)) \<and> vn_ops (nodes s r) = None"
  shows "\<exists>s' k' root. fs_boot s k = Some (Inr (s', k')) \<and> fs_booted root s'
    \<and> ramfs_view s' = [''readme.txt'' \<mapsto> welcome_text]
    \<and> (\<forall>p. NUL \<in> set p \<longrightarrow> vfs_lookup_path (Some p) s' = Some (boot_tree root s' (toks (take 255 (cstr p)))))"
  by (rule fs_boot_eq [OF assms])

section \<open>Files through paths\<close>

lemma slot_of_cong: "map file_id xs = map file_id ys \<Longrightarrow> slot_of n xs = slot_of n ys"
proof (induction xs arbitrary: ys)
  case (Cons x xs)
  then show ?case by (cases ys) (auto simp: file_id_def file_name_def)
qed simp

definition ram_path :: "string \<Rightarrow> char list" where
  "ram_path f = ''/ram/'' @ f @ [NUL]"

definition component_ok :: "string \<Rightarrow> bool" where
  "component_ok f \<longleftrightarrow> NUL \<notin> set f \<and> CHR ''/'' \<notin> set f \<and> f \<noteq> [] \<and> length f \<le> 63"

lemma ram_path:
  assumes "component_ok f"
  shows "NUL \<in> set (ram_path f)" and "take 255 (cstr (ram_path f)) = ''/ram'' @ CHR ''/'' # f"
    and "toks (take 255 (cstr (ram_path f))) = [''ram'', f]"
proof -
  have "cstr (ram_path f) = ''/ram/'' @ f" using assms by (simp add: ram_path_def component_ok_def)
  then show t: "take 255 (cstr (ram_path f)) = ''/ram'' @ CHR ''/'' # f" using assms by (simp add: component_ok_def)
  have "toks ''/ram'' = [''ram'']" by code_simp
  then show "toks (take 255 (cstr (ram_path f))) = [''ram'', f]"
    unfolding t toks_append using toks_single [of f] assms by (simp add: component_ok_def)
qed (simp add: ram_path_def)

lemma fs_booted_same:
  assumes "fs_booted root s" and "same_nodes s s'" and "ramfs_wf s'"
  shows "fs_booted root s'"
proof (rule fs_booted_update [OF assms(1) _ _ assms(3)])
  have "length (ramfs_files s) = 64" "ram_nodes_ok s" using assms(1) by (simp_all add: fs_booted_def vfs_wf_def ramfs_wf_def)
  then show "ram_nodes_ok s'" using same_nodes_ok [OF assms(2)] by blast
qed (use assms(2) in \<open>auto simp: same_nodes_def\<close>)

lemma fs_booted_slot:
  assumes "fs_booted root s" and "slot_of f (ramfs_files s) = Some i"
  shows "ram_node_ok s i" "vn_ops (nodes s (Ram_Node i)) = Some Ramfs_Ops" "file_name (node_file s i) = f" "ramfs_wf s"
proof -
  show wf: "ramfs_wf s" using assms(1) by (simp add: fs_booted_def vfs_wf_def)
  have "i < 64" "rf_used (node_file s i)" "file_name (node_file s i) = f" using slot_of_Some [OF assms(2)] wf by (auto simp: ramfs_wf_def)
  then show "ram_node_ok s i" "vn_ops (nodes s (Ram_Node i)) = Some Ramfs_Ops" "file_name (node_file s i) = f"
    using assms(1) by (simp_all add: fs_booted_def ram_nodes_ok_def)
qed

lemma vfs_create_ram:
  assumes "fs_booted root s" and "component_ok f" and "ramfs_view s f = None" and "\<not> ramfs_full s"
  obtains s1 i where "vfs_create (Some (ram_path f)) flags s = Some (0, s1)" "fs_booted root s1"
    "ramfs_view s1 = (ramfs_view s)(f \<mapsto> [])" "slot_of f (ramfs_files s1) = Some i"
proof -
  note b = assms(1) [unfolded fs_booted_def] and p = ram_path [OF assms(2)]
  have c: "CHR ''/'' \<notin> set f" "length f < 128" using assms(2) by (simp_all add: component_ok_def)
  have t: "toks ''/ram'' = [''ram'']" by code_simp
  have r: "resolve (boot_kids root) s (toks ''/ram'') root = Some Ram_Root"
    unfolding t fs_booted_resolve [OF assms(1)] by (simp add: boot_tree_def)
  obtain nm where nm: "vfs_parent (ram_path f) s = Some (Some (Ram_Root, nm))" "cstr nm = f" "NUL \<in> set nm"
    using vfs_parent_eq [OF _ _ p(1,2) c, of "boot_kids root" s root] b r by auto
  have "ramfs_wf s" "ram_nodes_ok s" "length (cstr nm) \<le> 63" "ramfs_view s (cstr nm) = None"
    using b assms(2,3) nm(2) by (simp_all add: vfs_wf_def component_ok_def)
  from ramfs_create_nodes [OF this(1,2) nm(3) this(3,4) assms(4)] obtain s1 where
    s1: "ramfs_create (Some nm) s = Some (0, s1)" "ramfs_wf s1" "ramfs_view s1 = (ramfs_view s)(cstr nm \<mapsto> [])"
    "ram_nodes_ok s1" "vfs_root s1 = vfs_root s" "\<forall>r. (\<forall>i. r \<noteq> Ram_Node i) \<longrightarrow> nodes s1 r = nodes s r" .
  have "fs_booted root s1" by (rule fs_booted_update [OF assms(1) s1(5) _ s1(2,4)]) (use s1(6) in auto)
  moreover have "slot_of f (ramfs_files s1) \<noteq> None" using s1(3) nm(2) ramfs_view_None [of s1 f] by simp
  moreover have "vfs_create (Some (ram_path f)) flags s = Some (0, s1)"
    using nm(1) s1(1) b by (simp add: vfs_create_def ramfs_vfs_create_def)
  ultimately show ?thesis using that s1(3) nm(2) by auto
qed

text \<open>C22: a file created under \<^verbatim>\<open>/ram\<close> through its path, opened, written through the node that the path
  leads to and read back through it gives the bytes written; the tree of directories and every other file stay as they
  were.\<close>

theorem vfs_file_roundtrip:
  assumes "fs_booted root s" and "component_ok f" and "ramfs_view s f = None" and "\<not> ramfs_full s"
    and "length data \<le> 1024" and "length data \<le> length buf"
  shows "\<exists>s1 s2 i. vfs_create (Some (ram_path f)) flags s = Some (0, s1)
    \<and> vfs_open (Some (ram_path f)) s1 = Some (Some (Ram_Node i))
    \<and> vfs_write (Some (Ram_Node i)) 0 (of_nat (length data)) (Some data) s1 = Some (int (length data), s2)
    \<and> vfs_open (Some (ram_path f)) s2 = Some (Some (Ram_Node i))
    \<and> vfs_read env (Some (Ram_Node i)) 0 (of_nat (length data)) (Some buf) s2 k
        = Some (Inr (int (length data), Some (data @ drop (length data) buf), k))
    \<and> fs_booted root s2 \<and> ramfs_view s2 = (ramfs_view s)(f \<mapsto> data)"
proof -
  note p = ram_path [OF assms(2)]
  obtain s1 i where 1: "vfs_create (Some (ram_path f)) flags s = Some (0, s1)" "fs_booted root s1"
    "ramfs_view s1 = (ramfs_view s)(f \<mapsto> [])" "slot_of f (ramfs_files s1) = Some i"
    using vfs_create_ram [OF assms(1-4)] .
  note sl = fs_booted_slot [OF 1(2,4)]
  have len: "unat (of_nat (length data) :: u32) = length data" using assms(5) by (simp add: unat_of_nat take_bit_nat_eq_self)
  have ct: "file_content (node_file s1 i) = []" using 1(3,4) by (simp add: ramfs_view_def fun_eq_iff) (metis option.inject option.simps(9))
  obtain s2 where 2: "ramfs_vfs_write (Some (Ram_Node i)) 0 (of_nat (length data)) (Some data) s1 = Some (int (length data), s2)"
    "ramfs_wf s2" "\<forall>n. n \<noteq> f \<longrightarrow> ramfs_view s2 n = ramfs_view s1 n" "ramfs_view s2 f = Some data"
    using ramfs_vfs_write_eq [OF sl(4,1), of 0 "of_nat (length data)" data] assms(5) len ct sl(3) by auto
  note same = ramfs_vfs_write_same [OF 2(1)]
  have b2: "fs_booted root s2" by (rule fs_booted_same [OF 1(2) same 2(2)])
  have "slot_of f (ramfs_files s2) = slot_of f (ramfs_files s1)"
    using same by (intro slot_of_cong) (simp add: same_nodes_def)
  then have i2: "slot_of f (ramfs_files s2) = Some i" using 1(4) by simp
  note sl2 = fs_booted_slot [OF b2 i2]
  have ct2: "file_content (node_file s2 i) = data" using 2(4) i2 by (simp add: ramfs_view_def)
  have opened: "vfs_open (Some (ram_path f)) t = Some (Some (Ram_Node i))"
    if "fs_booted root t" "slot_of f (ramfs_files t) = Some i" for t
    using fs_booted_lookup [OF that(1) p(1)] that(2) unfolding p(3) by (simp add: vfs_open_def boot_tree_def)
  have "ramfs_vfs_read (Some (Ram_Node i)) 0 (of_nat (length data)) (Some buf) s2
      = Some (int (length data), Some (data @ drop (length data) buf))"
    using ramfs_vfs_read_eq [OF sl2(4,1), of 0 "of_nat (length data)" buf] len assms(5,6) ct2 by simp
  then have "vfs_read env (Some (Ram_Node i)) 0 (of_nat (length data)) (Some buf) s2 k
        = Some (Inr (int (length data), Some (data @ drop (length data) buf), k))"
    using sl2(2) by (simp add: vfs_read_def)
  moreover have "vfs_write (Some (Ram_Node i)) 0 (of_nat (length data)) (Some data) s1 = Some (int (length data), s2)"
    using 2(1) sl(2) by (simp add: vfs_write_def)
  moreover have "ramfs_view s2 = (ramfs_view s)(f \<mapsto> data)" using 2(3,4) 1(3) by (auto simp: fun_eq_iff)
  ultimately show ?thesis using 1(1) opened [OF 1(2,4)] opened [OF b2 i2] b2 by blast
qed

section \<open>Concrete file systems\<close>

definition fs_zero :: fs where
  "fs_zero = \<lparr>nodes = (\<lambda>r. zero_node), ramfs_files = [], vfs_root = None\<rparr>"

lemma not_full:
  assumes "ramfs_wf s" and "ramfs_view s = [n \<mapsto> v]"
  shows "\<not> ramfs_full s"
proof
  assume "ramfs_full s"
  moreover have len: "length (ramfs_files s) = 64" using assms(1) by (simp add: ramfs_wf_def)
  ultimately have u: "rf_used (node_file s 0)" "rf_used (node_file s 1)" by (simp_all add: ramfs_full_def)
  have "file_name (node_file s i) = n" if "i < 64" "rf_used (node_file s i)" for i
  proof -
    have "slot_of (file_name (node_file s i)) (ramfs_files s) = Some i"
      using assms(1) that slot_of_iff [of "ramfs_files s"] by (simp add: ramfs_wf_def)
    then have "ramfs_view s (file_name (node_file s i)) \<noteq> None" by (simp add: ramfs_view_def)
    then show ?thesis using assms(2) by (auto split: if_split_asm)
  qed
  then have "file_name (node_file s 0) = file_name (node_file s 1)" using u by simp
  moreover have "names_distinct (ramfs_files s)" using assms(1) by (simp add: ramfs_wf_def)
  ultimately have "(0 :: nat) = 1" using u len unfolding names_distinct_def by (metis numeral_less_iff one_less_numeral_iff semiring_norm(76) zero_less_numeral)
  then show False by simp
qed

text \<open>A root directory with the file system of \<open>ramfs_example\<close> mounted as \<^verbatim>\<open>ram\<close>.\<close>

definition vfs_example :: fs where
  "vfs_example = set_node (Heap_Node 0x100)
     (zero_node\<lparr>vn_flags := VFS_DIR, vn_children := Some Ram_Root, vn_ops := Some Vfs_Root_Ops\<rparr>)
     (set_node Ram_Root (zero_node\<lparr>vn_name := ''ram'' @ replicate 125 NUL, vn_flags := VFS_DIR, vn_ops := Some Ramfs_Ops\<rparr>)
     (ramfs_example\<lparr>vfs_root := Some (Heap_Node 0x100)\<rparr>))"

definition kids_example :: "node_ref \<Rightarrow> node_ref list" where
  "kids_example = (\<lambda>_. [])(Heap_Node 0x100 := [Ram_Root])"

lemma vfs_example_nodes:
  "nodes vfs_example r = (if r = Heap_Node 0x100 then zero_node\<lparr>vn_flags := VFS_DIR, vn_children := Some Ram_Root, vn_ops := Some Vfs_Root_Ops\<rparr>
     else if r = Ram_Root then zero_node\<lparr>vn_name := ''ram'' @ replicate 125 NUL, vn_flags := VFS_DIR, vn_ops := Some Ramfs_Ops\<rparr>
     else if r = Ram_Node 0 then zero_node\<lparr>vn_private_data := Some 0\<rparr> else zero_node)"
  by (simp add: vfs_example_def set_node_def ramfs_example_def set_file_def ramfs_blank_def)

lemma vfs_example_wf: "vfs_wf kids_example vfs_example" "vfs_root vfs_example = Some (Heap_Node 0x100)"
proof -
  have "ramfs_files vfs_example = ramfs_files ramfs_example" by (simp add: vfs_example_def set_node_def)
  then have "ramfs_wf vfs_example" using ramfs_example_wf(1) unfolding ramfs_wf_def by simp
  then show "vfs_wf kids_example vfs_example" by (auto simp: vfs_wf_def vfs_example_nodes kids_example_def zero_node_def)
  show "vfs_root vfs_example = Some (Heap_Node 0x100)" by (simp add: vfs_example_def set_node_def)
qed

theorem vfs_lookup_path_correct_witness:
  "vfs_lookup_path (Some (''//ram/a'' @ [NUL])) vfs_example = Some (Some (Ram_Node 0))"
proof -
  have t: "toks (take 255 (cstr (''//ram/a'' @ [NUL]))) = [''ram'', ''a'']" by code_simp
  have N: "NUL \<in> set (''//ram/a'' @ [NUL])" by simp
  have f: "ramfs_files vfs_example = ramfs_files ramfs_example" by (simp add: vfs_example_def set_node_def)
  have r: "cstr (''ram'' @ replicate 125 NUL) = ''ram''" by code_simp
  have "ramfs_files ramfs_example \<noteq> []" using ramfs_example_wf(1) by (auto simp: ramfs_wf_def)
  then have "slot_of ''a'' (ramfs_files ramfs_example) = Some 0"
    using slot_of_iff [of "ramfs_files ramfs_example" "''a''" 0] ramfs_example_wf by (simp add: ramfs_wf_def ram_node_ok_def)
  then have "resolve kids_example vfs_example [''ram'', ''a''] (Heap_Node 0x100) = Some (Ram_Node 0)"
    using r by (simp add: is_dir_def dir_entry_def f vfs_example_nodes kids_example_def node_name_def)
  then show ?thesis using vfs_lookup_path_correct [OF vfs_example_wf N] unfolding t by simp
qed

theorem vfs_mount_correct_witness:
  "\<exists>s'. vfs_mount (Some (''/proc'' @ [NUL])) (Some Proc_Root) vfs_example = Some (0, s')
     \<and> dir_entry (kids_example(Heap_Node 0x100 := [Proc_Root, Ram_Root])) s' (Heap_Node 0x100) ''proc'' = Some Proc_Root"
proof -
  have c: "cstr (''/proc'' @ [NUL]) = [] @ CHR ''/'' # ''proc''" "NUL \<in> set (''/proc'' @ [NUL])" by simp_all
  have r: "resolve kids_example vfs_example (toks []) (Heap_Node 0x100) = Some (Heap_Node 0x100)" by simp
  have d: "is_dir vfs_example (Heap_Node 0x100)" "vn_ops (nodes vfs_example (Heap_Node 0x100)) = Some Vfs_Root_Ops"
    "nodes vfs_example Proc_Root = zero_node"
    by (simp_all add: is_dir_def vfs_example_def set_node_def ramfs_example_def set_file_def ramfs_blank_def)
  show ?thesis
    using vfs_mount_correct [OF vfs_example_wf c(2,1) _ _ _ _ r d(1), of Proc_Root] d(2,3)
    by (auto simp: kids_example_def zero_node_def)
qed

lemma boot_example:
  "\<exists>s' k' root. fs_boot fs_zero proc_kern = Some (Inr (s', k')) \<and> fs_booted root s'
    \<and> ramfs_view s' = [''readme.txt'' \<mapsto> welcome_text]"
  using fs_boot_eq [OF proc_kern_heap, where fb = "0x1000" and fz = "4083" and s = fs_zero] console_example_ok
  by (auto simp: proc_kern_def fs_zero_def zero_node_def)

theorem fs_boot_correct_witness:
  "\<exists>s' k'. fs_boot fs_zero proc_kern = Some (Inr (s', k')) \<and> vfs_lookup_path (Some (''/proc/uptime'' @ [NUL])) s' = Some (Some (Proc_Node 1))"
proof -
  have t: "toks (take 255 (cstr (''/proc/uptime'' @ [NUL]))) = [''proc'', ''uptime'']" by code_simp
  have u: "proc_index ''uptime'' = Some 1" by code_simp
  obtain s' k' root where s': "fs_boot fs_zero proc_kern = Some (Inr (s', k'))"
    "\<forall>p. NUL \<in> set p \<longrightarrow> vfs_lookup_path (Some p) s' = Some (boot_tree root s' (toks (take 255 (cstr p))))"
    using fs_boot_correct [OF proc_kern_heap, where fb = "0x1000" and fz = "4083" and s = fs_zero] console_example_ok
    by (auto simp: proc_kern_def fs_zero_def zero_node_def)
  have "NUL \<in> set (''/proc/uptime'' @ [NUL])" by simp
  then show ?thesis using s' t u by (intro exI [of _ s'] exI [of _ k']) (simp only: boot_tree_def, simp)
qed

theorem vfs_file_roundtrip_witness:
  "\<exists>s k s1 s2 i. fs_boot fs_zero proc_kern = Some (Inr (s, k)) \<and> vfs_create (Some (ram_path ''a.txt'')) 0 s = Some (0, s1)
    \<and> vfs_write (Some (Ram_Node i)) 0 5 (Some ''hello'') s1 = Some (5, s2)
    \<and> vfs_open (Some (ram_path ''a.txt'')) s2 = Some (Some (Ram_Node i))
    \<and> vfs_read env_example (Some (Ram_Node i)) 0 5 (Some ''........'') s2 k = Some (Inr (5, Some ''hello...'', k))"
proof -
  obtain s k root where s: "fs_boot fs_zero proc_kern = Some (Inr (s, k))" "fs_booted root s" "ramfs_view s = [''readme.txt'' \<mapsto> welcome_text]"
    using boot_example by blast
  have "\<not> ramfs_full s" using not_full [OF _ s(3)] s(2) by (simp add: fs_booted_def vfs_wf_def)
  moreover have "component_ok ''a.txt''" by (simp add: component_ok_def)
  moreover have "ramfs_view s ''a.txt'' = None" using s(3) by simp
  ultimately show ?thesis
    using vfs_file_roundtrip [OF s(2), of "''a.txt''" "''hello''" "''........''" 0 env_example k] s(1) by auto
qed

end
