(* ===== verification/Syscalls.thy ===== *)
theory Syscalls
  imports Interrupts Initrd Vfs_Layer
begin

unbundle bit_operations_syntax

text \<open>
  The system calls, \<^verbatim>\<open>kernel/syscall.c\<close>: the table of handlers, the dispatch of interrupt 0x80, and
  the handlers, on the state of the whole kernel.  An address that a program passes is used as it is, so
  every access to it goes through the page tables; without a translation it is a page fault,
  \<^term>\<open>None\<close>.  What the file takes from elsewhere is the record \<open>sys_env\<close>: what happens until
  \<^verbatim>\<open>hlt\<close> returns, the addresses of nodes, the clock (\<^verbatim>\<open>rtc_get_unix_time\<close> has no definition), the
  addresses of kernel symbols and of the interrupt stub, and the effect of a call into a module.
\<close>

section \<open>The state of the kernel\<close>

record sys_env =
  env_wake :: "machine \<Rightarrow> machine option"
  env_node_addr :: "node_ref \<Rightarrow> u32"
  env_node_at :: "u32 \<Rightarrow> node_ref option"
  env_unix_time :: u32
  env_symbols :: "string \<Rightarrow> u32"
  env_call :: "u32 \<Rightarrow> pkern \<Rightarrow> pkern option"
  env_stub :: u32

datatype syscall_fn =
  Sys_Exit | Sys_Fork | Sys_Read | Sys_Write | Sys_Open | Sys_Close | Sys_Waitpid | Sys_Exec | Sys_Sbrk
| Sys_Getpid | Sys_Getppid | Sys_Kill | Sys_Mmap | Sys_Munmap | Sys_Gettimeofday | Sys_Uname | Sys_Nanosleep
| Sys_Init_Module | Sys_Delete_Module | Sys_Query_Module

record system =
  sy_machine :: machine
  sy_fs :: fs
  sy_initrd :: initrd
  sy_modules :: modules
  syscall_table :: "syscall_fn option list"

abbreviation DIONNEX_MAX_SYSCALLS :: u32 where "DIONNEX_MAX_SYSCALLS \<equiv> 256"

definition kp :: "system \<Rightarrow> pkern" where
  "kp s = m_proc (sy_machine s)"

definition set_kp :: "pkern \<Rightarrow> system \<Rightarrow> system" where
  "set_kp k s = s\<lparr>sy_machine := (sy_machine s)\<lparr>m_proc := k\<rparr>\<rparr>"

section \<open>Memory of the program\<close>

text \<open>A string at an address, up to its terminating zero.\<close>

partial_function (option) user_string :: "u32 \<Rightarrow> 'a kern_scheme \<Rightarrow> char list option" where
  "user_string v k = do {
     b \<leftarrow> virt_read v k;
     if b = 0 then Some [NUL] else do { cs \<leftarrow> user_string (v + 1) k; Some (char_of (unat b) # cs) }
   }"

primrec user_bytes :: "nat \<Rightarrow> u32 \<Rightarrow> 'a kern_scheme \<Rightarrow> u8 list option" where
  "user_bytes 0 v k = Some []"
| "user_bytes (Suc n) v k = do { b \<leftarrow> virt_read v k; map_option ((#) b) (user_bytes n (v + 1) k) }"

definition user_put32 :: "u32 \<Rightarrow> u32 \<Rightarrow> 'a kern_scheme \<Rightarrow> 'a kern_scheme option" where
  "user_put32 v w = virt_put v (le_bytes 4 w)"

text \<open>\<^verbatim>\<open>strncpy((char*)v, text, n)\<close> for a text without zeros.\<close>

definition user_strncpy :: "u32 \<Rightarrow> string \<Rightarrow> nat \<Rightarrow> 'a kern_scheme \<Rightarrow> 'a kern_scheme option" where
  "user_strncpy v text n = virt_put v (take n (map char_byte text @ replicate n 0))"

section \<open>Processes\<close>

text \<open>The value of \<open>sys_exit_impl\<close> reaches a program only when no process could be entered: otherwise
  \<^verbatim>\<open>process_exit\<close> has left for the program of that process and does not return here.\<close>

definition sys_exit_impl :: "u32 \<Rightarrow> system \<Rightarrow> (u32 \<times> system) outcome" where
  "sys_exit_impl code s = no_panic (do { k \<leftarrow> process_exit code (kp s); Some (0, set_kp k s) })"

definition sys_fork_impl :: "system \<Rightarrow> (u32 \<times> system) outcome" where
  "sys_fork_impl s =
     (let parent = current_process (kp s)
      in if parent = 0 then Some (Inr (-1, s))
         else obind (k_kmalloc PROC_BYTES (kp s)) (\<lambda>(child, k).
           if child = 0 then Some (Inr (-1, set_kp k s))
           else obind (no_panic (procs k parent)) (\<lambda>p.
           let c = p\<lparr>pr_pid := pr_pid p + 1000, pr_parent := parent\<rparr>
           in obind (k_kmalloc 8192 k) (\<lambda>(stack, k).
           let c = c\<lparr>pr_kernel_stack := stack\<rparr>;
               (c, k) = (if stack \<noteq> 0
                         then (c\<lparr>pr_esp0 := stack + 8192\<rparr>, on_bytes (store_copy 8192 stack (pr_kernel_stack p)) k)
                         else (c, k));
               c = c\<lparr>pr_state := PROC_READY\<rparr>
           in obind (no_panic (k_printk (''Syscall: Forked process PID %u -> Child PID %u'' @ [CHR 0x0A])
                [VA_word (pr_pid p), VA_word (pr_pid c)] (set_proc child c k)))
              (\<lambda>k. Some (Inr (pr_pid c, set_kp k s)))))))"

text \<open>The loop of \<open>sys_waitpid_impl\<close>, on the process at \<open>a\<close>.\<close>

partial_function (option) wait_dead :: "(machine \<Rightarrow> machine option) \<Rightarrow> u32 \<Rightarrow> machine \<Rightarrow> machine option" where
  "wait_dead wake a m = do {
     p \<leftarrow> procs (m_proc m) a;
     if pr_state p \<noteq> PROC_ZOMBIE \<and> pr_state p \<noteq> PROC_DEAD
     then Option.bind (timer_sleep wake 10 m) (wait_dead wake a)
     else Some m
   }"

definition sys_waitpid_impl :: "sys_env \<Rightarrow> u32 \<Rightarrow> u32 \<Rightarrow> system \<Rightarrow> (u32 \<times> system) outcome" where
  "sys_waitpid_impl env pid status_addr s =
     obind (no_panic (process_get_by_pid pid (kp s))) (\<lambda>target.
     if target = 0 then Some (Inr (-1, s))
     else obind (no_panic (wait_dead (env_wake env) target (sy_machine s))) (\<lambda>m.
       let s = s\<lparr>sy_machine := m\<rparr>
       in obind (no_panic (if status_addr \<noteq> 0
                           then do { p \<leftarrow> procs (kp s) target; user_put32 status_addr (pr_exit_code p) (kp s) }
                           else Some (kp s))) (\<lambda>k.
          obind (process_destroy target k) (\<lambda>k. Some (Inr (pid, set_kp k s))))))"

definition sys_exec_impl :: "u32 \<Rightarrow> system \<Rightarrow> (u32 \<times> system) outcome" where
  "sys_exec_impl path_addr s =
     (if path_addr = 0 then Some (Inr (-1, s))
      else no_panic (do {
        path \<leftarrow> user_string path_addr (kp s);
        (found, sz) \<leftarrow> initrd_get_file (Some path) (Some 0) (sy_initrd s);
        if found = None
        then do {
          k \<leftarrow> k_printk (''Syscall exec: Executable '' @ CHR 0x27 # ''%s'' @ CHR 0x27 # '' not found in initrd'' @ [CHR 0x0A])
                 [VA_str (Some path)] (kp s);
          Some (-1, set_kp k s)
        }
        else if current_process (kp s) = 0 then Some (-1, s)
        else do {
          let data = map_option bl_bytes found;
          let a = current_process (kp s);
          (r, k) \<leftarrow> elf_load_segments data (the sz) (kp s);
          if r = 0
          then do {
            entry \<leftarrow> elf_get_entry data;
            k \<leftarrow> upd_proc a (\<lambda>p. p\<lparr>pr_entry_point := entry, pr_user_eip := entry, pr_user_esp := PROC_STACK_BASE - 16\<rparr>) k;
            path \<leftarrow> user_string path_addr k;
            p \<leftarrow> procs k a;
            nm \<leftarrow> strncpy (pr_name p) path 63;
            k \<leftarrow> k_printk (''Syscall exec: Replaced process image with '' @ CHR 0x27 # ''%s'' @ CHR 0x27 # [CHR 0x0A])
                   [VA_str (Some path)] (set_proc a (p\<lparr>pr_name := nm\<rparr>) k);
            Some (0, set_kp k s)
          }
          else Some (-1, set_kp k s)
        }
      }))"

definition sys_getpid_impl :: "system \<Rightarrow> (u32 \<times> system) outcome" where
  "sys_getpid_impl s =
     (if current_process (kp s) = 0 then Some (Inr (0, s))
      else no_panic (do { p \<leftarrow> procs (kp s) (current_process (kp s)); Some (pr_pid p, s) }))"

definition sys_getppid_impl :: "system \<Rightarrow> (u32 \<times> system) outcome" where
  "sys_getppid_impl s =
     (if current_process (kp s) = 0 then Some (Inr (0, s))
      else no_panic (do {
        p \<leftarrow> procs (kp s) (current_process (kp s));
        if pr_parent p = 0 then Some (0, s)
        else do { q \<leftarrow> procs (kp s) (pr_parent p); Some (pr_pid q, s) }
      }))"

definition sys_kill_impl :: "u32 \<Rightarrow> u32 \<Rightarrow> system \<Rightarrow> (u32 \<times> system) outcome" where
  "sys_kill_impl pid sig s = no_panic (do {
     target \<leftarrow> process_get_by_pid pid (kp s);
     if target = 0 then Some (-1, s)
     else if sig = 9
     then do {
       k \<leftarrow> upd_proc target (\<lambda>p. p\<lparr>pr_state := PROC_ZOMBIE, pr_exit_code := 137\<rparr>) (kp s);
       k \<leftarrow> k_printk (''Syscall kill: Process PID %u killed by signal 9'' @ [CHR 0x0A]) [VA_word pid] k;
       Some (0, set_kp k s)
     }
     else Some (-1, s)
   })"

section \<open>Memory\<close>

abbreviation (input) USER_PAGE :: u32 where "USER_PAGE \<equiv> VMM_PRESENT OR VMM_WRITABLE OR VMM_USER"

definition sys_sbrk_impl :: "u32 \<Rightarrow> system \<Rightarrow> (u32 \<times> system) outcome" where
  "sys_sbrk_impl increment s =
     (let a = current_process (kp s)
      in if a = 0 then Some (Inr (-1, s))
         else no_panic (do {
           p \<leftarrow> procs (kp s) a;
           let old_brk = pr_brk p;
           if old_brk + increment \<le> pr_brk_max p
           then do {
             k \<leftarrow> upd_proc a (\<lambda>p. p\<lparr>pr_brk := pr_brk p + increment\<rparr>) (kp s);
             Some (old_brk, set_kp k s)
           }
           else do {
             let new_pages = (increment + 4095) div 4096;
             let k = k_on_vm (map_fresh (unat new_pages) (pr_brk_max p) USER_PAGE) (kp s);
             k \<leftarrow> upd_proc a (\<lambda>p. p\<lparr>pr_brk_max := pr_brk_max p + new_pages * 4096, pr_brk := pr_brk p + increment\<rparr>) k;
             Some (old_brk, set_kp k s)
           }
         }))"

definition sys_mmap_impl :: "u32 \<Rightarrow> u32 \<Rightarrow> system \<Rightarrow> (u32 \<times> system) outcome" where
  "sys_mmap_impl addr len s =
     (if len = 0 then Some (Inr (0, s))
      else let pages = (len + 4095) div 4096;
               start_vaddr = (if addr \<noteq> 0 then addr else 0x40000000)
           in Some (Inr (start_vaddr, set_kp (k_on_vm (map_fresh (unat pages) start_vaddr USER_PAGE) (kp s)) s)))"

definition sys_munmap_impl :: "u32 \<Rightarrow> u32 \<Rightarrow> system \<Rightarrow> (u32 \<times> system) outcome" where
  "sys_munmap_impl addr len s =
     (let pages = (len + 4095) div 4096
      in Some (Inr (0, set_kp (k_on_vm (unmap_range (unat pages) addr) (kp s)) s)))"

section \<open>Input and output\<close>

text \<open>\<open>keyboard_read\<close> waits for an interrupt while the buffer is empty.\<close>

partial_function (option) keyboard_wait :: "(machine \<Rightarrow> machine option) \<Rightarrow> machine \<Rightarrow> (char \<times> machine) option" where
  "keyboard_wait wake m =
     (if keyboard_has_input (m_keyboard m)
      then map_option (\<lambda>(c, kb). (c, m\<lparr>m_keyboard := kb\<rparr>)) (keyboard_read (m_keyboard m))
      else Option.bind (wake m) (keyboard_wait wake))"

text \<open>The loop of \<open>sys_read_impl\<close>: \<open>n\<close> bytes left, \<open>i\<close> read.\<close>

primrec stdin_loop :: "(machine \<Rightarrow> machine option) \<Rightarrow> nat \<Rightarrow> u32 \<Rightarrow> u32 \<Rightarrow> machine \<Rightarrow> (u32 \<times> machine) option" where
  "stdin_loop wake 0 buf i m = Some (i, m)"
| "stdin_loop wake (Suc n) buf i m = do {
     (c, m) \<leftarrow> keyboard_wait wake m;
     if c = NUL then Some (i, m)
     else do {
       k \<leftarrow> virt_write (buf + i) (char_byte c) (m_proc m);
       let m = m\<lparr>m_proc := k\<rparr>;
       if c = CHR 0x0A \<or> c = CHR 0x0D then Some (i + 1, m) else stdin_loop wake n buf (i + 1) m
     }
   }"

definition sys_read_impl :: "sys_env \<Rightarrow> u32 \<Rightarrow> u32 \<Rightarrow> u32 \<Rightarrow> system \<Rightarrow> (u32 \<times> system) outcome" where
  "sys_read_impl env fd buf_addr len s =
     (if buf_addr = 0 \<or> len = 0 then Some (Inr (0, s))
      else if fd = 0
      then no_panic (do {
        (r, m) \<leftarrow> stdin_loop (env_wake env) (unat len) buf_addr 0 (sy_machine s);
        Some (r, s\<lparr>sy_machine := m\<rparr>)
      })
      else Some (Inr (-1, s)))"

primrec stdout_loop :: "nat \<Rightarrow> u32 \<Rightarrow> 'a kern_scheme \<Rightarrow> 'a kern_scheme option" where
  "stdout_loop 0 v k = Some k"
| "stdout_loop (Suc n) v k = do {
     b \<leftarrow> virt_read v k;
     c \<leftarrow> vga_putchar (char_of (unat b)) (k_con k);
     stdout_loop n (v + 1) (k\<lparr>k_con := c\<rparr>)
   }"

definition sys_write_impl :: "u32 \<Rightarrow> u32 \<Rightarrow> u32 \<Rightarrow> system \<Rightarrow> (u32 \<times> system) outcome" where
  "sys_write_impl fd buf_addr len s =
     (if buf_addr = 0 then Some (Inr (-1, s))
      else if fd = 1 \<or> fd = 2
      then no_panic (do { k \<leftarrow> stdout_loop (unat len) buf_addr (kp s); Some (len, set_kp k s) })
      else Some (Inr (-1, s)))"

definition sys_open_impl :: "sys_env \<Rightarrow> u32 \<Rightarrow> system \<Rightarrow> (u32 \<times> system) outcome" where
  "sys_open_impl env path_addr s =
     (if path_addr = 0 then Some (Inr (-1, s))
      else no_panic (do {
        path \<leftarrow> user_string path_addr (kp s);
        node \<leftarrow> vfs_open (Some path) (sy_fs s);
        Some (case node of None \<Rightarrow> -1 | Some d \<Rightarrow> env_node_addr env d, s)
      }))"

text \<open>The handle is used as a pointer: what is not the address of a node has no meaning.\<close>

definition sys_close_impl :: "sys_env \<Rightarrow> u32 \<Rightarrow> system \<Rightarrow> (u32 \<times> system) outcome" where
  "sys_close_impl env handle s =
     (if handle = 0 then Some (Inr (of_int (vfs_close None), s))
      else no_panic (do { d \<leftarrow> env_node_at env handle; Some (of_int (vfs_close (Some d)), s) }))"

section \<open>The system\<close>

definition sys_gettimeofday_impl :: "sys_env \<Rightarrow> u32 \<Rightarrow> system \<Rightarrow> (u32 \<times> system) outcome" where
  "sys_gettimeofday_impl env tv_addr s =
     (if tv_addr = 0 then Some (Inr (-1, s))
      else no_panic (do {
        k \<leftarrow> user_put32 tv_addr (env_unix_time env) (kp s);
        k \<leftarrow> user_put32 (tv_addr + 4) 0 k;
        Some (0, set_kp k s)
      }))"

definition sys_uname_impl :: "u32 \<Rightarrow> system \<Rightarrow> (u32 \<times> system) outcome" where
  "sys_uname_impl buf_addr s =
     (if buf_addr = 0 then Some (Inr (-1, s))
      else no_panic (do {
        k \<leftarrow> user_strncpy buf_addr ''Dionnex'' 64 (kp s);
        k \<leftarrow> user_strncpy (buf_addr + 65) ''0.1'' 64 k;
        k \<leftarrow> user_strncpy (buf_addr + 130) ''i686'' 64 k;
        Some (0, set_kp k s)
      }))"

definition sys_nanosleep_impl :: "sys_env \<Rightarrow> u32 \<Rightarrow> system \<Rightarrow> (u32 \<times> system) outcome" where
  "sys_nanosleep_impl env ms s =
     no_panic (do { m \<leftarrow> timer_sleep (env_wake env) ms (sy_machine s); Some (0, s\<lparr>sy_machine := m\<rparr>) })"

definition sys_init_module_impl :: "sys_env \<Rightarrow> u32 \<Rightarrow> u32 \<Rightarrow> u32 \<Rightarrow> system \<Rightarrow> (u32 \<times> system) outcome" where
  "sys_init_module_impl env buf_addr sz name_addr s =
     (if buf_addr = 0 \<or> sz = 0 \<or> name_addr = 0 then Some (Inr (-1, s))
      else obind (no_panic (do {
             name \<leftarrow> user_string name_addr (kp s);
             d \<leftarrow> user_bytes (unat sz) buf_addr (kp s);
             Some (name, d) })) (\<lambda>(name, d).
           obind (module_load_binary (env_symbols env) (env_call env) (Some name) (Some d) sz (sy_modules s) (kp s))
             (\<lambda>(r, d, ms, k).
           obind (no_panic (virt_put buf_addr (the d) k)) (\<lambda>k.
             Some (Inr (of_int r, set_kp k (s\<lparr>sy_modules := ms\<rparr>)))))))"

definition sys_delete_module_impl :: "sys_env \<Rightarrow> u32 \<Rightarrow> system \<Rightarrow> (u32 \<times> system) outcome" where
  "sys_delete_module_impl env name_addr s =
     (if name_addr = 0 then Some (Inr (-1, s))
      else obind (no_panic (user_string name_addr (kp s))) (\<lambda>name.
           obind (module_unload_binary (env_call env) (Some name) (sy_modules s) (kp s)) (\<lambda>(r, ms, k).
             Some (Inr (of_int r, set_kp k (s\<lparr>sy_modules := ms\<rparr>))))))"

definition sys_query_module_impl :: "system \<Rightarrow> (u32 \<times> system) outcome" where
  "sys_query_module_impl s = Some (Inr (0, s))"

section \<open>Dispatch\<close>

text \<open>A call through the table: \<^verbatim>\<open>f(ebx, ecx, edx, esi, edi)\<close>.\<close>

fun call_syscall :: "sys_env \<Rightarrow> syscall_fn \<Rightarrow> u32 \<Rightarrow> u32 \<Rightarrow> u32 \<Rightarrow> u32 \<Rightarrow> u32 \<Rightarrow> system \<Rightarrow> (u32 \<times> system) outcome" where
  "call_syscall env Sys_Exit a b c d e s = sys_exit_impl a s"
| "call_syscall env Sys_Fork a b c d e s = sys_fork_impl s"
| "call_syscall env Sys_Read a b c d e s = sys_read_impl env a b c s"
| "call_syscall env Sys_Write a b c d e s = sys_write_impl a b c s"
| "call_syscall env Sys_Open a b c d e s = sys_open_impl env a s"
| "call_syscall env Sys_Close a b c d e s = sys_close_impl env a s"
| "call_syscall env Sys_Waitpid a b c d e s = sys_waitpid_impl env a b s"
| "call_syscall env Sys_Exec a b c d e s = sys_exec_impl a s"
| "call_syscall env Sys_Sbrk a b c d e s = sys_sbrk_impl a s"
| "call_syscall env Sys_Getpid a b c d e s = sys_getpid_impl s"
| "call_syscall env Sys_Getppid a b c d e s = sys_getppid_impl s"
| "call_syscall env Sys_Kill a b c d e s = sys_kill_impl a b s"
| "call_syscall env Sys_Mmap a b c d e s = sys_mmap_impl a b s"
| "call_syscall env Sys_Munmap a b c d e s = sys_munmap_impl a b s"
| "call_syscall env Sys_Gettimeofday a b c d e s = sys_gettimeofday_impl env a s"
| "call_syscall env Sys_Uname a b c d e s = sys_uname_impl a s"
| "call_syscall env Sys_Nanosleep a b c d e s = sys_nanosleep_impl env a s"
| "call_syscall env Sys_Init_Module a b c d e s = sys_init_module_impl env a b c s"
| "call_syscall env Sys_Delete_Module a b c d e s = sys_delete_module_impl env a s"
| "call_syscall env Sys_Query_Module a b c d e s = sys_query_module_impl s"

definition syscall_handler :: "sys_env \<Rightarrow> registers option \<Rightarrow> system \<Rightarrow> (registers option \<times> system) outcome" where
  "syscall_handler env regs s =
     (case regs of
        None \<Rightarrow> Some (Inr (None, s))
      | Some r \<Rightarrow>
          let num = rg_eax r
          in case (if num < DIONNEX_MAX_SYSCALLS then syscall_table s ! unat num else None) of
               Some f \<Rightarrow>
                 obind (call_syscall env f (rg_ebx r) (rg_ecx r) (rg_edx r) (rg_esi r) (rg_edi r) s)
                   (\<lambda>(v, s). Some (Inr (Some (r\<lparr>rg_eax := v\<rparr>), s)))
             | None \<Rightarrow>
                 obind (no_panic (k_printk (''Syscall: Invalid syscall number %u'' @ [CHR 0x0A]) [VA_word num] (kp s)))
                   (\<lambda>k. Some (Inr (Some (r\<lparr>rg_eax := -1\<rparr>), set_kp k s))))"

text \<open>The entries of the table, in the order in which they are set.\<close>

definition syscall_entries :: "(nat \<times> syscall_fn) list" where
  "syscall_entries =
     [(1, Sys_Exit), (2, Sys_Fork), (3, Sys_Read), (4, Sys_Write), (5, Sys_Open), (6, Sys_Close), (7, Sys_Waitpid),
      (11, Sys_Exec), (12, Sys_Sbrk), (20, Sys_Getpid), (21, Sys_Getppid), (22, Sys_Kill), (23, Sys_Mmap), (24, Sys_Munmap),
      (78, Sys_Gettimeofday), (122, Sys_Uname), (162, Sys_Nanosleep), (175, Sys_Init_Module), (176, Sys_Delete_Module),
      (177, Sys_Query_Module), (252, Sys_Exit)]"

definition syscall_init :: "sys_env \<Rightarrow> system \<Rightarrow> system option" where
  "syscall_init env s =
     (let s = s\<lparr>syscall_table := fold (\<lambda>(n, f) t. t[n := Some f]) syscall_entries (replicate 256 None)\<rparr>
      in map_option (\<lambda>m. s\<lparr>sy_machine := m\<rparr>)
           (m_printk (''Syscall: System call interface initialized (int 0x80)'' @ [CHR 0x0A]) []
             (idt_set_gate 0x80 (env_stub env) 0x08 0xEE (sy_machine s))))"

section \<open>The table and the dispatch\<close>

lemma kp_simps [simp]:
  "kp (set_kp k s) = k" "sy_fs (set_kp k s) = sy_fs s" "sy_initrd (set_kp k s) = sy_initrd s"
  "sy_modules (set_kp k s) = sy_modules s" "syscall_table (set_kp k s) = syscall_table s"
  "set_kp k (set_kp k' s) = set_kp k s" "kp (s\<lparr>sy_machine := m\<rparr>) = m_proc m" "m_proc (sy_machine s) = kp s"
  "kp (s\<lparr>syscall_table := t\<rparr>) = kp s" "kp (s\<lparr>sy_modules := ms\<rparr>) = kp s"
  by (simp_all add: kp_def set_kp_def)

lemma set_kp_inject [simp]: "set_kp k s = set_kp k' s \<longleftrightarrow> k = k'"
  by (metis kp_simps(1))

lemma fold_table:
  "distinct (map fst es) \<Longrightarrow> \<forall>n \<in> fst ` set es. n < length t \<Longrightarrow>
     length (fold (\<lambda>(n, f) t. t[n := Some f]) es t) = length t
   \<and> (\<forall>i. fold (\<lambda>(n, f) t. t[n := Some f]) es t ! i = (case map_of es i of None \<Rightarrow> t ! i | Some f \<Rightarrow> Some f))"
proof (induction es arbitrary: t)
  case (Cons e es)
  obtain n f where e: "e = (n, f)" by fastforce
  have nes: "map_of es n = None" using Cons.prems(1) e by (auto simp: map_of_eq_None_iff)
  show ?case using Cons.IH [of "t[n := Some f]"] Cons.prems nes e
    by (auto simp: nth_list_update split: option.split)
qed simp

lemma syscall_table_entry:
  assumes "n < 256"
  shows "fold (\<lambda>(n, f) t. t[n := Some f]) syscall_entries (replicate 256 None) ! n = map_of syscall_entries n"
proof -
  have "distinct (map fst syscall_entries)" "\<forall>n \<in> fst ` set syscall_entries. n < length (replicate 256 (None :: syscall_fn option))"
    by (simp_all add: syscall_entries_def)
  from fold_table [OF this] show ?thesis using assms by (auto split: option.split)
qed

lemma syscall_entries_bound: "256 \<le> n \<Longrightarrow> map_of syscall_entries n = None"
  by (auto simp: map_of_eq_None_iff syscall_entries_def)

text \<open>C23: The interface to user programs.  After \<open>syscall_init\<close>, gate 0x80 leads to the stub and is open to
  user code, and every other gate is what it was.  From then on a call with a number of \<open>syscall_entries\<close>
  runs the function with this number on the five argument registers and returns its value in \<open>eax\<close>; every
  other number, 256 and above included, changes nothing but the console and returns \<open>-1\<close> in \<open>eax\<close>; no other register
  changes.\<close>

theorem syscall_dispatch_correct:
  assumes "vga_ok (k_con (kp s))" and "length (idt_entries (sy_machine s)) = 256"
  shows "\<exists>s1. syscall_init env s = Some s1
    \<and> gate_base (idt_entries (sy_machine s1) ! 128) = env_stub env \<and> ie_flags (idt_entries (sy_machine s1) ! 128) = 0xEE
    \<and> (\<forall>v. v \<noteq> 128 \<longrightarrow> idt_entries (sy_machine s1) ! v = idt_entries (sy_machine s) ! v)
    \<and> (\<forall>s2 r. syscall_table s2 = syscall_table s1 \<longrightarrow> vga_ok (k_con (kp s2)) \<longrightarrow>
         (case map_of syscall_entries (unat (rg_eax r)) of
            Some f \<Rightarrow> syscall_handler env (Some r) s2
              = obind (call_syscall env f (rg_ebx r) (rg_ecx r) (rg_edx r) (rg_esi r) (rg_edi r) s2)
                  (\<lambda>(v, s3). Some (Inr (Some (r\<lparr>rg_eax := v\<rparr>), s3)))
          | None \<Rightarrow> \<exists>c. syscall_handler env (Some r) s2
              = Some (Inr (Some (r\<lparr>rg_eax := -1\<rparr>), set_kp ((kp s2)\<lparr>k_con := c\<rparr>) s2)) \<and> vga_ok c))"
proof -
  let ?fmt = "''Syscall: System call interface initialized (int 0x80)'' @ [CHR 0x0A]"
  let ?bad = "''Syscall: Invalid syscall number %u'' @ [CHR 0x0A]"
  let ?m = "idt_set_gate 0x80 (env_stub env) 0x08 0xEE (sy_machine s)"
  define t where "t = fold (\<lambda>(n, f) t. t[n := Some f]) syscall_entries (replicate 256 None)"
  have out: "NUL \<notin> set ?fmt" "\<exists>out. printk_text ?fmt [] = Some out" by simp_all
  then obtain c where c: "k_printk ?fmt [] (kp s) = Some ((kp s)\<lparr>k_con := c\<rparr>)"
    using k_printk_ok [OF assms(1) out(1)] by blast
  have km: "m_proc ?m = kp s" by (simp add: idt_set_gate_def)
  define s1 where "s1 = s\<lparr>syscall_table := t, sy_machine := ?m\<lparr>m_proc := (kp s)\<lparr>k_con := c\<rparr>\<rparr>\<rparr>"
  have "syscall_init env s = Some s1"
    using c unfolding syscall_init_def m_printk_def t_def [symmetric] s1_def by (simp add: km Let_def)
  moreover have "gate_base (idt_entries (sy_machine s1) ! 128) = env_stub env" "ie_flags (idt_entries (sy_machine s1) ! 128) = 0xEE"
    "\<forall>v. v \<noteq> 128 \<longrightarrow> idt_entries (sy_machine s1) ! v = idt_entries (sy_machine s) ! v"
    using assms(2) split_base [of "env_stub env"] by (simp_all add: s1_def idt_set_gate_def gate_base_def)
  moreover have "case map_of syscall_entries (unat (rg_eax r)) of
            Some f \<Rightarrow> syscall_handler env (Some r) s2
              = obind (call_syscall env f (rg_ebx r) (rg_ecx r) (rg_edx r) (rg_esi r) (rg_edi r) s2)
                  (\<lambda>(v, s3). Some (Inr (Some (r\<lparr>rg_eax := v\<rparr>), s3)))
          | None \<Rightarrow> \<exists>c. syscall_handler env (Some r) s2
              = Some (Inr (Some (r\<lparr>rg_eax := -1\<rparr>), set_kp ((kp s2)\<lparr>k_con := c\<rparr>) s2)) \<and> vga_ok c"
    if s2: "syscall_table s2 = syscall_table s1" and ok: "vga_ok (k_con (kp s2))" for s2 r
  proof -
    have tab: "(if rg_eax r < DIONNEX_MAX_SYSCALLS then syscall_table s2 ! unat (rg_eax r) else None)
        = map_of syscall_entries (unat (rg_eax r))"
      using syscall_table_entry [of "unat (rg_eax r)"] syscall_entries_bound [of "unat (rg_eax r)"] s2
      by (simp add: s1_def t_def word_less_nat_alt)
    have out: "NUL \<notin> set ?bad" "\<exists>out. printk_text ?bad [VA_word (rg_eax r)] = Some out" by simp_all
    then obtain d where "k_printk ?bad [VA_word (rg_eax r)] (kp s2) = Some ((kp s2)\<lparr>k_con := d\<rparr>)" "vga_ok d"
      using k_printk_ok [OF ok out(1)] by blast
    then show ?thesis by (auto simp: syscall_handler_def Let_def tab split: option.split)
  qed
  ultimately show ?thesis by blast
qed

end
