(* ===== verification/Syscall_Memory.thy ===== *)
theory Syscall_Memory
  imports Syscalls
begin

text \<open>
  The system calls that change the address space (\<^verbatim>\<open>sbrk\<close>, \<^verbatim>\<open>mmap\<close>, \<^verbatim>\<open>munmap\<close>) and those that move bytes
  between a program and the console or the keyboard (\<^verbatim>\<open>write\<close>, \<^verbatim>\<open>read\<close>).
\<close>

section \<open>Break, map, unmap\<close>

lemma phys_mgr_vm_of [simp]: "phys_mgr (vm_of k) = k_pmm k"
  by (simp add: vm_of_def)

text \<open>The pages of a region get frames of their own that were free; nothing else changes.\<close>

definition fresh_region :: "u32 \<Rightarrow> nat \<Rightarrow> (u32 \<Rightarrow> u32) \<Rightarrow> 'a kern_scheme \<Rightarrow> 'a kern_scheme \<Rightarrow> bool" where
  "fresh_region base n frame k k' \<longleftrightarrow>
     inj_on frame (region base n)
   \<and> frame ` region base n \<subseteq> free_frames (k_pmm k) - free_frames (k_pmm k')
   \<and> (\<forall>w. vmm_get_phys w (k_vm k')
        = (if page_of w \<in> region base n then frame (page_of w) OR (w AND 0xFFF) else vmm_get_phys w (k_vm k)))"

lemma map_fresh_region:
  assumes "vmm_inv (vm_of k)" and "2 * n \<le> card (free_frames (k_pmm k))" and "n \<le> 2 ^ 20"
    and k': "k' = k_on_vm (map_fresh n base USER_PAGE) k"
  shows "vmm_inv (vm_of k') \<and> free_frames (k_pmm k') \<subseteq> free_frames (k_pmm k) \<and> kern.more k' = kern.more k
    \<and> k_con k' = k_con k \<and> k_heap k' = k_heap k \<and> (\<exists>frame. fresh_region base n frame k k')"
proof -
  have f: "USER_PAGE AND 0xFFFFF000 = (0 :: u32)" by simp
  obtain frame where "inj_on frame (region base n)"
    "frame ` region base n \<subseteq> free_frames (k_pmm k) - free_frames (k_pmm k')"
    "\<And>w. vmm_get_phys w (k_vm k') = (if page_of w \<in> region base n then frame (page_of w) OR (w AND 0xFFF) else vmm_get_phys w (vm_of k))"
    using map_fresh_phys [of "vm_of k" n USER_PAGE base, OF assms(1) _ assms(3) f] assms(2) unfolding k' k_on_vm_simps phys_mgr_vm_of by blast
  then have "fresh_region base n frame k k'" by (simp add: fresh_region_def)
  then show ?thesis
    using map_fresh_correct [OF assms(1) _ assms(3), of base USER_PAGE] assms(2) by (auto simp: k' k_on_vm_more)
qed

lemma fresh_region_mapped:
  assumes "fresh_region base n frame k k'" and "vmm_inv (vm_of k)" and "page_of w \<in> region base n"
  shows "vmm_get_phys w (k_vm k') \<noteq> 0"
proof -
  have "frame (page_of w) \<in> free_frames (k_pmm k)" using assms(1,3) by (auto simp: fresh_region_def)
  moreover have inv: "pmm_inv (k_pmm k)" using assms(2) by (simp add: vmm_inv_def)
  ultimately have "frame (page_of w) \<noteq> 0" "frame_aligned (frame (page_of w))"
    using pmm_frames.frames_aligned free_frame_aligned [OF inv] by blast+
  then show ?thesis
    using frame_or_offset(1) [of "frame (page_of w)" 0 w 0] assms(1,3) by (auto simp: fresh_region_def frame_aligned_def)
qed

text \<open>The heap of a process: the break lies below the limit, and everything from the base to the limit is mapped.\<close>

definition heap_ok :: "process \<Rightarrow> 'a kern_scheme \<Rightarrow> bool" where
  "heap_ok p k \<longleftrightarrow> pr_brk p \<le> pr_brk_max p \<and> PROC_HEAP_BASE \<le> pr_brk_max p \<and> unat (pr_brk_max p) mod 4096 = 0
     \<and> (\<forall>w. PROC_HEAP_BASE \<le> w \<and> w < pr_brk_max p \<longrightarrow> vmm_get_phys w (k_vm k) \<noteq> 0)"

lemma div_less_aligned: "(m :: nat) mod 4096 = 0 \<Longrightarrow> w < m + 4096 * n \<Longrightarrow> w div 4096 < m div 4096 + n"
  by (auto simp: mod_eq_0_iff_dvd elim!: dvdE)

lemma sys_sbrk_eq:
  assumes cur: "current_process (kp s) = a" "a \<noteq> 0" "procs (kp s) a = Some p" and heap: "heap_ok p (kp s)"
    and inv: "vmm_inv (vm_of (kp s))"
    and fits: "unat (pr_brk_max p) + unat increment + 4096 \<le> 2 ^ 32"
    and n: "n = (if pr_brk p + increment \<le> pr_brk_max p then 0 else (unat increment + 4095) div 4096)"
    and room: "2 * n \<le> card (free_frames (k_pmm (kp s)))"
  shows "\<exists>s' q frame. sys_sbrk_impl increment s = Some (Inr (pr_brk p, s'))
     \<and> q = p\<lparr>pr_brk := pr_brk p + increment, pr_brk_max := pr_brk_max p + 4096 * of_nat n\<rparr>
     \<and> procs (kp s') = (procs (kp s))(a \<mapsto> q) \<and> unat (pr_brk q) = unat (pr_brk p) + unat increment
     \<and> heap_ok q (kp s') \<and> fresh_region (pr_brk_max p) n frame (kp s) (kp s') \<and> vmm_inv (vm_of (kp s'))"
proof -
  let ?k = "if pr_brk p + increment \<le> pr_brk_max p then kp s else k_on_vm (map_fresh n (pr_brk_max p) USER_PAGE) (kp s)"
  define q where "q = p\<lparr>pr_brk := pr_brk p + increment, pr_brk_max := pr_brk_max p + 4096 * of_nat n\<rparr>"
  have bounds: "unat (pr_brk p) \<le> unat (pr_brk_max p)" using heap by (simp add: heap_ok_def word_le_nat_alt)
  have brk: "unat (pr_brk p + increment) = unat (pr_brk p) + unat increment"
    using bounds fits by (intro unat_add_lem [THEN iffD1]) simp
  have n20: "n \<le> 2 ^ 20" using fits n by (auto simp: unat_add_lem)
  have np: "unat ((increment + 4095) div 4096) = (unat increment + 4095) div 4096"
    using fits by (simp add: unat_div unat_word_ariths)
  have mx: "unat (pr_brk_max p + 4096 * of_nat n) = unat (pr_brk_max p) + 4096 * n"
  proof -
    have "4096 * n \<le> unat increment + 4095" using n by simp
    then show ?thesis using fits n20 by (simp add: unat_word_ariths unat_of_nat take_bit_nat_eq_self)
  qed
  have r: "vmm_inv (vm_of ?k) \<and> kern.more ?k = kern.more (kp s) \<and> (\<exists>frame. fresh_region (pr_brk_max p) n frame (kp s) ?k)"
    using map_fresh_region [OF inv room n20 refl, of "pr_brk_max p"] inv n by (auto simp: fresh_region_def)
  then obtain frame where fr: "fresh_region (pr_brk_max p) n frame (kp s) ?k" by blast
  define k' where "k' = set_proc a q ?k"
  have "procs ?k = procs (kp s)" using r more_pkern by blast
  then have up: "procs ?k a = Some p" "procs k' = (procs (kp s))(a \<mapsto> q)" using cur(3) by (simp_all add: k'_def set_proc_def)
  have vm: "k_vm k' = k_vm ?k" "k_pmm k' = k_pmm ?k" by (simp_all add: k'_def set_proc_def)
  then have vmk: "vm_of k' = vm_of ?k" unfolding vm_of_def by simp
  have run: "sys_sbrk_impl increment s = Some (Inr (pr_brk p, set_kp k' s))"
  proof (cases "pr_brk p + increment \<le> pr_brk_max p")
    case True
    then show ?thesis using True n cur by (simp add: sys_sbrk_impl_def Let_def upd_proc_def k'_def q_def)
  next
    case False
    then have "unat ((increment + 4095) div 4096) = n" using np n by simp
    moreover from this have "(increment + 4095) div 4096 = of_nat n" by auto
    ultimately show ?thesis using False up(1) cur
      by (simp add: sys_sbrk_impl_def Let_def upd_proc_def k'_def q_def mult.commute, cases p, simp)
  qed
  have le: "pr_brk q \<le> pr_brk_max q"
  proof -
    have "unat (pr_brk p) + unat increment \<le> unat (pr_brk_max p) + 4096 * n"
    proof (cases "pr_brk p + increment \<le> pr_brk_max p")
      case True
      then show ?thesis using brk by (simp add: word_le_nat_alt)
    next
      case False
      then have "unat increment \<le> 4096 * n" using n by simp
      then show ?thesis using bounds by simp
    qed
    then show ?thesis unfolding word_le_nat_alt q_def by (simp add: brk mx)
  qed
  have al: "unat (pr_brk_max p) mod 4096 = 0" and base: "PROC_HEAP_BASE \<le> pr_brk_max p" using heap by (simp_all add: heap_ok_def)
  have "vmm_get_phys w (k_vm k') \<noteq> 0" if w: "PROC_HEAP_BASE \<le> w" "w < pr_brk_max q" for w
  proof (cases "w < pr_brk_max p")
    case True
    then have "page_of w \<notin> region (pr_brk_max p) n"
    proof -
      have "unat (pr_brk_max p) div 4096 + n \<le> 2 ^ 20" using mx u32_unat_lt [of "pr_brk_max p + 4096 * of_nat n"] by simp
      moreover have "unat w div 4096 < unat (pr_brk_max p) div 4096"
        using True al div_less_aligned [of _ _ 0] unfolding word_less_nat_alt by simp
      ultimately show ?thesis by (simp add: region_iff)
    qed
    then show ?thesis using True w heap fr vm by (simp add: heap_ok_def fresh_region_def)
  next
    case False
    have "unat (pr_brk_max p) div 4096 + n \<le> 2 ^ 20" using mx u32_unat_lt [of "pr_brk_max p + 4096 * of_nat n"] by simp
    moreover have "unat (pr_brk_max p) \<le> unat w" "unat w < unat (pr_brk_max p) + 4096 * n"
      using False w(2) mx by (simp_all add: q_def word_less_nat_alt)
    moreover from this(2) al have "unat w div 4096 < unat (pr_brk_max p) div 4096 + n"
      by (intro div_less_aligned)
    ultimately have "page_of w \<in> region (pr_brk_max p) n" by (simp add: region_iff div_le_mono)
    then show ?thesis using fresh_region_mapped [OF fr inv] vm by simp
  qed
  moreover have "unat (pr_brk_max q) mod 4096 = 0" using al mx by (simp add: q_def)
  moreover have "PROC_HEAP_BASE \<le> pr_brk_max q" using base mx by (simp add: q_def word_le_nat_alt)
  ultimately have "heap_ok q k'" using le by (simp add: heap_ok_def)
  moreover have "fresh_region (pr_brk_max p) n frame (kp s) k'" using fr vm by (simp add: fresh_region_def)
  moreover have "vmm_inv (vm_of k')" using r vmk by simp
  ultimately show ?thesis using run up(2) brk
    by (intro exI [of _ "set_kp k' s"] exI [of _ q] exI [of _ frame]) (simp add: q_def)
qed

text \<open>C25: \<open>sbrk\<close>.  For a process whose heap is mapped up to its limit, \<open>sbrk(n)\<close> returns the old break and
  raises it by \<open>n\<close>; if the new break passes the limit, the limit rises by whole pages, and exactly the pages
  added get frames, distinct and free before.  The heap is mapped up to the new limit again, the break does not
  pass it, and no other translation and no other process changes.  The frames are to be there, and the end of the
  heap not beyond the address space: the code tests neither.\<close>

theorem sys_sbrk_correct:
  assumes "current_process (kp s) = a" and "a \<noteq> 0" and "procs (kp s) a = Some p" and "heap_ok p (kp s)"
    and "vmm_inv (vm_of (kp s))"
    and "unat (pr_brk_max p) + unat increment + 4096 \<le> 2 ^ 32"
    and "n = (if pr_brk p + increment \<le> pr_brk_max p then 0 else (unat increment + 4095) div 4096)"
    and "2 * n \<le> card (free_frames (k_pmm (kp s)))"
  shows "\<exists>s' q frame. sys_sbrk_impl increment s = Some (Inr (pr_brk p, s'))
     \<and> q = p\<lparr>pr_brk := pr_brk p + increment, pr_brk_max := pr_brk_max p + 4096 * of_nat n\<rparr>
     \<and> procs (kp s') = (procs (kp s))(a \<mapsto> q) \<and> unat (pr_brk q) = unat (pr_brk p) + unat increment
     \<and> heap_ok q (kp s') \<and> fresh_region (pr_brk_max p) n frame (kp s) (kp s') \<and> vmm_inv (vm_of (kp s'))"
  using assms by (rule sys_sbrk_eq)

text \<open>The comparison is made with the wrapped sum: an increment that leaves the address space passes it, and
  \<open>sbrk\<close> reports success while the break falls below where it was.\<close>

theorem sys_sbrk_wraps:
  assumes "current_process (kp s) = a" and "a \<noteq> 0" and "procs (kp s) a = Some p" and "pr_brk p \<le> pr_brk_max p"
    and "2 ^ 32 \<le> unat (pr_brk p) + unat increment"
  shows "\<exists>q. sys_sbrk_impl increment s = Some (Inr (pr_brk p, set_kp (set_proc a q (kp s)) s)) \<and> pr_brk q < pr_brk p"
proof -
  have "pr_brk p + increment < pr_brk p"
    using assms(5) u32_unat_lt [of increment] u32_unat_lt [of "pr_brk p"]
    by (simp add: word_less_nat_alt unat_word_ariths mod_if) arith
  moreover from this have "pr_brk p + increment \<le> pr_brk_max p" using assms(4) by simp
  ultimately show ?thesis using assms(1-3) by (auto simp: sys_sbrk_impl_def Let_def upd_proc_def)
qed

lemma unmap_range_phys_mgr [simp]: "phys_mgr (unmap_range n base v) = phys_mgr v"
  by (induction n arbitrary: base v) (simp_all add: vmm_unmap_page_def invlpg_def Let_def)

lemma unmap_range_phys:
  "vmm_inv v \<Longrightarrow> vmm_get_phys w (unmap_range n base v) = (if page_of w \<in> region base n then 0 else vmm_get_phys w v)"
  using unmap_range_correct [of v n base] by (simp add: vmm_get_phys_pte)

lemma unat_pages: "unat len + 4095 < 2 ^ 32 \<Longrightarrow> unat ((len + 4095) div (4096 :: u32)) = (unat len + 4095) div 4096"
  by (simp add: unat_div unat_word_ariths)

lemma sys_mmap_eq:
  assumes "vmm_inv (vm_of (kp s))" and "0 < len" and "unat len + 4095 < 2 ^ 32" and n: "n = (unat len + 4095) div 4096"
    and "2 * n \<le> card (free_frames (k_pmm (kp s)))" and st: "start = (if addr \<noteq> 0 then addr else 0x40000000)"
  obtains s1 frame where "sys_mmap_impl addr len s = Some (Inr (start, s1))" "s1 = set_kp (kp s1) s"
    "fresh_region start n frame (kp s) (kp s1)" "vmm_inv (vm_of (kp s1))" "kern.more (kp s1) = kern.more (kp s)"
proof -
  let ?s1 = "set_kp (k_on_vm (map_fresh n start USER_PAGE) (kp s)) s"
  have n20: "n \<le> 2 ^ 20" using n assms(3) by simp
  have "sys_mmap_impl addr len s = Some (Inr (start, ?s1))"
    using assms(2) [unfolded word_gt_0] unat_pages [OF assms(3)] st by (simp add: sys_mmap_impl_def Let_def n)
  with map_fresh_region [OF assms(1,5) n20 refl, of start] that [of ?s1] show thesis by auto
qed

text \<open>C26: \<open>mmap\<close> and \<open>munmap\<close>.  \<open>mmap\<close> gives every page of the range a frame of its own that was free, at the address
  asked for, or at 0x40000000; \<open>munmap\<close> of the same range takes the translations away and leaves every other page
  as it was.  The frames do not come back: none of those given out is free again, so that a program
  that maps and unmaps uses up the memory.\<close>

theorem mmap_munmap_roundtrip:
  assumes "vmm_inv (vm_of (kp s))" and "0 < len" and "unat len + 4095 < 2 ^ 32" and "n = (unat len + 4095) div 4096"
    and "2 * n \<le> card (free_frames (k_pmm (kp s)))" and "start = (if addr \<noteq> 0 then addr else 0x40000000)"
  shows "\<exists>s1 s2 frame. sys_mmap_impl addr len s = Some (Inr (start, s1)) \<and> sys_munmap_impl start len s1 = Some (Inr (0, s2))
    \<and> fresh_region start n frame (kp s) (kp s1)
    \<and> (\<forall>w. vmm_get_phys w (k_vm (kp s2)) = (if page_of w \<in> region start n then 0 else vmm_get_phys w (k_vm (kp s))))
    \<and> free_frames (k_pmm (kp s2)) = free_frames (k_pmm (kp s1))
    \<and> frame ` region start n \<inter> free_frames (k_pmm (kp s2)) = {}"
proof -
  from sys_mmap_eq [OF assms] obtain s1 frame where s1: "sys_mmap_impl addr len s = Some (Inr (start, s1))"
    "fresh_region start n frame (kp s) (kp s1)" "vmm_inv (vm_of (kp s1))" by blast
  let ?s2 = "set_kp (k_on_vm (unmap_range n start) (kp s1)) s1"
  have "sys_munmap_impl start len s1 = Some (Inr (0, ?s2))"
    using unat_pages [OF assms(3)] by (simp add: sys_munmap_impl_def assms(4))
  moreover have "vmm_get_phys w (k_vm (kp ?s2)) = (if page_of w \<in> region start n then 0 else vmm_get_phys w (k_vm (kp s)))" for w
    using unmap_range_phys [OF s1(3)] s1(2) by (simp add: fresh_region_def)
  moreover have "free_frames (k_pmm (kp ?s2)) = free_frames (k_pmm (kp s1))" by simp
  moreover have "frame ` region start n \<inter> free_frames (k_pmm (kp ?s2)) = {}" using s1(2) by (auto simp: fresh_region_def)
  ultimately show ?thesis using s1(1,2) by blast
qed

text \<open>The number of pages does not take the offset of the address into account: a range that is a whole number
  of pages long and starts inside a page keeps the translation of its last byte, so that this byte is not
  mapped by \<open>mmap\<close> if it was not before.\<close>

theorem mmap_unaligned_tail:
  assumes "vmm_inv (vm_of (kp s))" and "0 < m" and "len = 4096 * of_nat m" and "unat addr mod 4096 \<noteq> 0"
    and "unat addr + 4096 * m < 2 ^ 32" and "2 * m \<le> card (free_frames (k_pmm (kp s)))"
  shows "\<exists>s1. sys_mmap_impl addr len s = Some (Inr (addr, s1))
    \<and> vmm_get_phys (addr + len - 1) (k_vm (kp s1)) = vmm_get_phys (addr + len - 1) (k_vm (kp s))"
proof -
  have m20: "m < 2 ^ 20" using assms(5) by simp
  have ul: "unat len = 4096 * m" using m20 by (simp add: assms(3) unat_word_ariths unat_of_nat take_bit_nat_eq_self)
  have len: "0 < len" "unat len + 4095 < 2 ^ 32" "m = (unat len + 4095) div 4096" "addr = (if addr \<noteq> 0 then addr else 0x40000000)"
    using ul assms(2,4) m20 by (auto simp: word_less_nat_alt)
  from sys_mmap_eq [OF assms(1) len(1-3) assms(6) len(4)] obtain s1 frame where
    s1: "sys_mmap_impl addr len s = Some (Inr (addr, s1))" "fresh_region addr m frame (kp s) (kp s1)" by blast
  have le: "unat (addr + len) = unat addr + 4096 * m" using assms(5) ul by (simp add: unat_add_small)
  moreover have "unat (addr + len - 1) = unat (addr + len) - 1"
    using le assms(2) by (intro unat_minus_one) auto
  ultimately have "unat (addr + len - 1) = unat addr - 1 + 4096 * m" using assms(4) by (cases "unat addr") auto
  then have "unat (addr + len - 1) div 4096 = unat addr div 4096 + m" using assms(4) by (cases "unat addr") (auto simp: div_Suc)
  then have "page_of (addr + len - 1) \<notin> region addr m" using assms(5) by (subst region_iff) auto
  then show ?thesis using s1 by (auto simp: fresh_region_def)
qed

section \<open>Console and keyboard\<close>

text \<open>The bytes of the program from an address on, as characters.\<close>

definition user_text :: "u32 \<Rightarrow> nat \<Rightarrow> 'a kern_scheme \<Rightarrow> string" where
  "user_text v n k = map (\<lambda>i. char_of (unat (bytes (k_heap k) (vmm_get_phys (v + of_nat i) (k_vm k))))) [0..<n]"

definition user_mapped :: "u32 \<Rightarrow> nat \<Rightarrow> 'a kern_scheme \<Rightarrow> bool" where
  "user_mapped v n k \<longleftrightarrow> (\<forall>i < n. vmm_get_phys (v + of_nat i) (k_vm k) \<noteq> 0)"

lemma user_mapped_Suc: "user_mapped v (Suc n) k \<longleftrightarrow> vmm_get_phys v (k_vm k) \<noteq> 0 \<and> user_mapped (v + 1) n k"
  unfolding user_mapped_def by (auto simp: less_Suc_eq_0_disj algebra_simps)

lemma user_text_Suc:
  "user_text v (Suc n) k = char_of (unat (bytes (k_heap k) (vmm_get_phys v (k_vm k)))) # user_text (v + 1) n k"
  unfolding user_text_def by (simp add: upt_conv_Cons map_Suc_upt [symmetric] algebra_simps del: upt_Suc)

lemma user_con_simps [simp]:
  "user_mapped v n (k\<lparr>k_con := c\<rparr>) = user_mapped v n k" "user_text v n (k\<lparr>k_con := c\<rparr>) = user_text v n k"
  by (simp_all add: user_mapped_def user_text_def)

lemma stdout_loop_correct:
  assumes "user_mapped v n k" and "vga_ok (k_con k)"
  shows "\<exists>c. stdout_loop n v k = Some (k\<lparr>k_con := c\<rparr>) \<and> vga_ok c \<and> vga_color c = vga_color (k_con k)
    \<and> screen c = fold (term_put (vga_color (k_con k))) (user_text v n k) (screen (k_con k))"
  using assms
proof (induction n arbitrary: v k)
  case 0
  then show ?case by (intro exI [of _ "k_con k"]) (simp add: user_text_def)
next
  case (Suc n)
  let ?c = "char_of (unat (bytes (k_heap k) (vmm_get_phys v (k_vm k)))) :: char"
  obtain t where t: "vga_putchar ?c (k_con k) = Some t" "vga_ok t" "vga_color t = vga_color (k_con k)"
    "screen t = term_put (vga_color (k_con k)) ?c (screen (k_con k))"
    using vga_putchar_terminal [OF Suc.prems(2)] by blast
  have m: "vmm_get_phys v (k_vm k) \<noteq> 0" "user_mapped (v + 1) n (k\<lparr>k_con := t\<rparr>)" using Suc.prems(1) by (simp_all add: user_mapped_Suc)
  from Suc.IH [OF m(2)] t obtain d where "stdout_loop n (v + 1) (k\<lparr>k_con := t\<rparr>) = Some (k\<lparr>k_con := d\<rparr>)" "vga_ok d"
    "vga_color d = vga_color (k_con k)" "screen d = fold (term_put (vga_color (k_con k))) (user_text (v + 1) n k) (screen t)" by auto
  then show ?case using m(1) t by (intro exI [of _ d]) (simp add: virt_read_def user_text_Suc)
qed

text \<open>C28: Writing to standard output or standard error.  With the buffer mapped, \<open>write\<close> shows exactly its bytes, in order,
  as the terminal does, returns their number, and changes nothing but the console; another descriptor and
  a null pointer are refused without any effect.\<close>

theorem sys_write_correct:
  assumes "vga_ok (k_con (kp s))" and "buf \<noteq> 0 \<longrightarrow> fd = 1 \<or> fd = 2 \<longrightarrow> user_mapped buf (unat len) (kp s)"
  shows "if buf = 0 \<or> fd \<noteq> 1 \<and> fd \<noteq> 2 then sys_write_impl fd buf len s = Some (Inr (-1, s))
    else \<exists>c. sys_write_impl fd buf len s = Some (Inr (len, set_kp ((kp s)\<lparr>k_con := c\<rparr>) s)) \<and> vga_ok c
      \<and> screen c = fold (term_put (vga_color (k_con (kp s)))) (user_text buf (unat len) (kp s)) (screen (k_con (kp s)))"
proof (cases "buf = 0 \<or> fd \<noteq> 1 \<and> fd \<noteq> 2")
  case False
  then have "user_mapped buf (unat len) (kp s)" using assms(2) by auto
  from stdout_loop_correct [OF this assms(1)] obtain c where "stdout_loop (unat len) buf (kp s) = Some ((kp s)\<lparr>k_con := c\<rparr>)" "vga_ok c"
    "screen c = fold (term_put (vga_color (k_con (kp s)))) (user_text buf (unat len) (kp s)) (screen (k_con (kp s)))" by blast
  moreover have "sys_write_impl fd buf len s = no_panic (do { k \<leftarrow> stdout_loop (unat len) buf (kp s); Some (len, set_kp k s) })"
    using False by (auto simp: sys_write_impl_def)
  ultimately show ?thesis unfolding if_not_P [OF False] by (intro exI [of _ c]) simp
qed (auto simp: sys_write_impl_def)

text \<open>Reading what is already in the keyboard buffer: no waiting.\<close>

lemma keyboard_wait_queued:
  assumes "kb_wf (m_keyboard m)" and "kb_view (m_keyboard m) = c # cs"
  obtains kb where "keyboard_wait wake m = Some (c, m\<lparr>m_keyboard := kb\<rparr>)" "kb_wf kb" "kb_view kb = cs"
proof -
  obtain kb where kb: "keyboard_read (m_keyboard m) = Some (c, kb)" "kb_wf kb" "kb_view kb = cs"
    using kb_fifo.get_view [OF assms] by (auto split: option.splits prod.splits)
  then have "keyboard_has_input (m_keyboard m)" by (simp add: keyboard_read_def keyboard_has_input_def split: if_splits)
  then have "keyboard_wait wake m = Some (c, m\<lparr>m_keyboard := kb\<rparr>)" using kb(1) by (subst keyboard_wait.simps) simp
  then show thesis using that kb by blast
qed

definition line_end :: "char \<Rightarrow> bool" where
  "line_end c \<longleftrightarrow> c = CHR 0x0A \<or> c = CHR 0x0D"

lemma stdin_loop_line:
  assumes "kb_wf (m_keyboard m)" and "kb_view (m_keyboard m) = line @ c # rest" and "line_end c"
    and "\<forall>x \<in> set line. x \<noteq> NUL \<and> \<not> line_end x" and "length line < n" and "n < 2 ^ 32 - unat i"
    and "\<forall>j \<le> length line. vmm_get_phys (buf + i + of_nat j) (k_vm (m_proc m)) \<noteq> 0"
  shows "\<exists>m' k'. stdin_loop wake n buf i m = Some (i + of_nat (length line) + 1, m')
     \<and> virt_put (buf + i) (map char_byte (line @ [c])) (m_proc m) = Some k'
     \<and> m' = m\<lparr>m_proc := k', m_keyboard := m_keyboard m'\<rparr> \<and> kb_wf (m_keyboard m') \<and> kb_view (m_keyboard m') = rest"
  using assms
proof (induction line arbitrary: n i m)
  case Nil
  obtain n' where n: "n = Suc n'" using Nil.prems(5) by (cases n) auto
  from keyboard_wait_queued [OF Nil.prems(1), of c rest wake] Nil.prems(2) obtain kb where
    kb: "keyboard_wait wake m = Some (c, m\<lparr>m_keyboard := kb\<rparr>)" "kb_wf kb" "kb_view kb = rest" by auto
  have "c \<noteq> NUL" using Nil.prems(3) by (auto simp: line_end_def)
  then show ?case using kb Nil.prems(3,7) n by (auto simp: line_end_def virt_write_def)
next
  case (Cons x line)
  obtain n' where n: "n = Suc n'" using Cons.prems(5) by (cases n) auto
  from keyboard_wait_queued [OF Cons.prems(1), of x "line @ c # rest" wake] Cons.prems(2) obtain kb where
    kb: "keyboard_wait wake m = Some (x, m\<lparr>m_keyboard := kb\<rparr>)" "kb_wf kb" "kb_view kb = line @ c # rest" by auto
  have x: "x \<noteq> NUL" "x \<noteq> CHR 0x0A" "x \<noteq> CHR 0x0D" using Cons.prems(4) by (auto simp: line_end_def)
  have "vmm_get_phys (buf + i) (k_vm (m_proc m)) \<noteq> 0" using Cons.prems(7) [rule_format, of 0] by simp
  then obtain k where k: "virt_write (buf + i) (char_byte x) (m_proc m) = Some k" "k_vm k = k_vm (m_proc m)" by (simp add: virt_write_def)
  let ?m = "m\<lparr>m_keyboard := kb, m_proc := k\<rparr>"
  have "\<forall>j \<le> length line. vmm_get_phys (buf + (i + 1) + of_nat j) (k_vm (m_proc ?m)) \<noteq> 0"
  proof (intro allI impI)
    fix j assume "j \<le> length line"
    then have "vmm_get_phys (buf + i + of_nat (Suc j)) (k_vm (m_proc m)) \<noteq> 0" using Cons.prems(7) [rule_format, of "Suc j"] by simp
    then show "vmm_get_phys (buf + (i + 1) + of_nat j) (k_vm (m_proc ?m)) \<noteq> 0" using k(2) by (simp add: algebra_simps)
  qed
  moreover have "n' < 2 ^ 32 - unat (i + 1)"
    using Cons.prems(6) n unat_add_small [of i 1] by simp
  ultimately obtain m' k' where m': "stdin_loop wake n' buf (i + 1) ?m = Some (i + 1 + of_nat (length line) + 1, m')"
    "virt_put (buf + (i + 1)) (map char_byte (line @ [c])) k = Some k'"
    "m' = ?m\<lparr>m_proc := k', m_keyboard := m_keyboard m'\<rparr>" "kb_wf (m_keyboard m')" "kb_view (m_keyboard m') = rest"
    using Cons.IH [of ?m n' "i + 1"] kb(2,3) Cons.prems(3,4,5) n by auto
  have "stdin_loop wake n buf i m = Some (i + of_nat (length (x # line)) + 1, m')"
    using m'(1) kb(1) x k(1) n by (simp add: algebra_simps)
  moreover have "virt_put (buf + i) (map char_byte ((x # line) @ [c])) (m_proc m) = Some k'"
    using m'(2) k(1) by (simp add: algebra_simps)
  moreover have "m' = m\<lparr>m_proc := k', m_keyboard := m_keyboard m'\<rparr>" using m'(3) by (cases m; cases m') simp
  ultimately show ?case using m'(4,5) by blast
qed

lemma char_byte_char [simp]: "char_of (unat (char_byte c)) = c"
proof -
  have "unat (of_char c :: u8) = (of_char c :: nat)"
    by (cases c) (simp add: of_char_def unat_of_nat take_bit_nat_eq_self horner_sum_simps)
  then show ?thesis by (simp add: char_byte_def)
qed

text \<open>Reading a line.  When a line waits in the keyboard buffer and fits, \<open>read\<close> from standard input takes exactly this line
  with its terminator out of the buffer, without waiting, puts it at the address given, returns its length,
  and changes no other byte of memory.\<close>

theorem sys_read_line:
  assumes "kb_wf (m_keyboard (sy_machine s))" and "kb_view (m_keyboard (sy_machine s)) = line @ c # rest" and "line_end c"
    and "\<forall>x \<in> set line. x \<noteq> NUL \<and> \<not> line_end x" and "length line < unat len" and "buf \<noteq> 0"
    and "user_mapped buf (length line + 1) (kp s)"
    and "inj_on (\<lambda>i. vmm_get_phys (buf + of_nat i) (k_vm (kp s))) {..<length line + 1}"
  shows "\<exists>s'. sys_read_impl env 0 buf len s = Some (Inr (of_nat (length line + 1), s'))
    \<and> user_text buf (length line + 1) (kp s') = line @ [c]
    \<and> kb_wf (m_keyboard (sy_machine s')) \<and> kb_view (m_keyboard (sy_machine s')) = rest
    \<and> (\<forall>p. p \<notin> (\<lambda>i. vmm_get_phys (buf + of_nat i) (k_vm (kp s))) ` {..<length line + 1}
         \<longrightarrow> bytes (k_heap (kp s')) p = bytes (k_heap (kp s)) p)"
proof -
  let ?bs = "map char_byte (line @ [c])"
  let ?T = "\<lambda>i. vmm_get_phys (buf + of_nat i) (k_vm (kp s))"
  have phys: "\<forall>j \<le> length line. vmm_get_phys (buf + 0 + of_nat j) (k_vm (kp s)) \<noteq> 0"
    using assms(7) by (auto simp: user_mapped_def)
  have l: "unat len < 2 ^ 32 - unat (0 :: u32)" using u32_unat_lt [of len] by simp
  from stdin_loop_line [OF assms(1-5) l, of buf "env_wake env"] phys obtain m' k' where
    m': "stdin_loop (env_wake env) (unat len) buf 0 (sy_machine s) = Some (of_nat (length line) + 1, m')"
    "virt_put buf ?bs (kp s) = Some k'" "m' = (sy_machine s)\<lparr>m_proc := k', m_keyboard := m_keyboard m'\<rparr>"
    "kb_wf (m_keyboard m')" "kb_view (m_keyboard m') = rest" by auto
  obtain m where m: "virt_put buf ?bs (kp s) = Some ((kp s)\<lparr>k_heap := (k_heap (kp s))\<lparr>bytes := m\<rparr>\<rparr>)"
    "\<forall>i < length ?bs. m (?T i) = ?bs ! i" "\<forall>p. p \<notin> ?T ` {..<length ?bs} \<longrightarrow> m p = bytes (k_heap (kp s)) p"
    using virt_put_correct [of ?bs buf "kp s"] assms(7,8) by (auto simp: user_mapped_def)
  have k': "k' = (kp s)\<lparr>k_heap := (k_heap (kp s))\<lparr>bytes := m\<rparr>\<rparr>" using m(1) m'(2) by simp
  have mp: "m_proc m' = k'" by (subst m'(3)) simp
  have "len \<noteq> 0" using assms(5) by auto
  then have "sys_read_impl env 0 buf len s = Some (Inr (of_nat (length line + 1), s\<lparr>sy_machine := m'\<rparr>))"
    using m'(1) assms(6) by (simp add: sys_read_impl_def add.commute)
  moreover have "user_text buf (length line + 1) k' = line @ [c]"
  proof (rule nth_equalityI)
    fix i assume "i < length (user_text buf (length line + 1) k')"
    then have i: "i < length ?bs" by (simp add: user_text_def)
    then have "user_text buf (length line + 1) k' ! i = char_of (unat (?bs ! i))"
      using m(2) [rule_format, OF i] by (simp add: user_text_def k' nth_upt del: upt_Suc)
    then show "user_text buf (length line + 1) k' ! i = (line @ [c]) ! i" using i by (simp add: nth_map [of i "line @ [c]"] del: map_append)
  qed (simp add: user_text_def)
  ultimately show ?thesis using m'(4,5) m(3) mp k'
    by (intro exI [of _ "s\<lparr>sy_machine := m'\<rparr>"]) simp
qed

end
