(* ===== verification/Syscall_Process.thy ===== *)
theory Syscall_Process
  imports Syscall_Memory
begin

text \<open>
  The system calls on processes: what becomes of the child of \<^verbatim>\<open>fork\<close>, \<^verbatim>\<open>kill\<close> followed by \<^verbatim>\<open>waitpid\<close>, and the
  invariant that at most one process runs, along every sequence of system calls, interrupts and
  exceptions.  At the end a concrete system, on which the theorems of the three theories are applied.
\<close>

section \<open>The table of processes\<close>

lemma pid_scan_path:
  "proc_path ps p xs \<Longrightarrow> pid_scan ps pid p = Some (case find (\<lambda>x. pr_pid (the (ps x)) = pid) xs of None \<Rightarrow> 0 | Some x \<Rightarrow> x)"
proof (induction xs arbitrary: p)
  case Nil
  then show ?case by (subst pid_scan.simps) simp
next
  case (Cons x xs)
  then show ?case by (subst pid_scan.simps) auto
qed

text \<open>What \<open>fork\<close> does: it fails and the processes are untouched, or there is one more.\<close>

lemma sys_fork_cases:
  assumes "sys_fork_impl s = Some (Inr (v, s'))"
  obtains (failed) "v = -1" "kern.more (kp s') = kern.more (kp s)"
  | (child) p child st e0 k3 k4 c where "child \<noteq> 0" "procs (kp s) (current_process (kp s)) = Some p"
      "kern.more k3 = kern.more (kp s)" "v = pr_pid p + 1000" "s' = set_kp k4 s"
      "c = p\<lparr>pr_pid := pr_pid p + 1000, pr_parent := current_process (kp s), pr_kernel_stack := st, pr_esp0 := e0,
         pr_state := PROC_READY\<rparr>"
      "kern.more k4 = kern.more (set_proc child c k3)"
proof -
  let ?a = "current_process (kp s)"
  consider "v = -1 \<and> kern.more (kp s') = kern.more (kp s)"
  | child k1 st k2 where "k_kmalloc PROC_BYTES (kp s) = Some (Inr (child, k1))" "child \<noteq> 0"
    "k_kmalloc 8192 k1 = Some (Inr (st, k2))" "obind (no_panic (procs k1 ?a)) (\<lambda>p.
           let c = p\<lparr>pr_pid := pr_pid p + 1000, pr_parent := ?a\<rparr>;
               c = c\<lparr>pr_kernel_stack := st\<rparr>;
               (c, k) = (if st \<noteq> 0
                         then (c\<lparr>pr_esp0 := st + 8192\<rparr>, on_bytes (store_copy 8192 st (pr_kernel_stack p)) k2)
                         else (c, k2));
               c = c\<lparr>pr_state := PROC_READY\<rparr>
           in obind (no_panic (k_printk (''Syscall: Forked process PID %u -> Child PID %u'' @ [CHR 0x0A])
                [VA_word (pr_pid p), VA_word (pr_pid c)] (set_proc child c k)))
              (\<lambda>k. Some (Inr (pr_pid c, set_kp k s)))) = Some (Inr (v, s'))"
    using assms unfolding sys_fork_impl_def Let_def
    by (auto simp: obind_Some_Inr no_panic_def split: if_splits prod.splits dest: k_kmalloc_more)
  then show thesis
  proof cases
    case 1
    then show thesis using failed by blast
  next
    case (2 child k1 st k2)
    note rest = 2(4)
    obtain p where p: "procs k1 ?a = Some p" using rest by (auto simp: obind_Some_Inr no_panic_def)
    then have ps: "procs (kp s) ?a = Some p" using k_kmalloc_more [OF 2(1)] more_pkern(1) by fastforce
    have "\<exists>e0 k3 k4. kern.more k3 = kern.more k2 \<and> v = pr_pid p + 1000 \<and> s' = set_kp k4 s
      \<and> kern.more k4 = kern.more (set_proc child (p\<lparr>pr_pid := pr_pid p + 1000, pr_parent := ?a, pr_kernel_stack := st, pr_esp0 := e0,
             pr_state := PROC_READY\<rparr>) k3)"
    proof (cases "st = 0")
      case True
      then show ?thesis using rest p
        by (intro exI [of _ "pr_esp0 p"] exI [of _ k2] exI [of _ "kp s'"]) (cases p, auto simp: obind_Some_Inr no_panic_def dest: k_printk_more)
    next
      case False
      then show ?thesis using rest p
        by (intro exI [of _ "st + 8192"] exI [of _ "on_bytes (store_copy 8192 st (pr_kernel_stack p)) k2"] exI [of _ "kp s'"])
          (cases p, auto simp: obind_Some_Inr no_panic_def on_bytes_def dest: k_printk_more)
    qed
    moreover have "kern.more k2 = kern.more (kp s)" using k_kmalloc_more [OF 2(1)] k_kmalloc_more [OF 2(3)] by simp
    ultimately show thesis using child [OF 2(2) ps] by (metis (no_types, lifting))
  qed
qed

section \<open>The child of fork\<close>

text \<open>Room for the record of a process leaves room for a stack.\<close>

lemma fit_alloc_rest:
  assumes "fit_alloc 184 hs = Some (p, ys)" and "(b, bz, True) \<in> set hs" and "8389 \<le> bz"
  shows "\<exists>b' bz'. (b', bz', True) \<in> set ys \<and> 8192 \<le> bz'"
  using assms
proof (induction "184 :: u32" hs arbitrary: ys rule: fit_alloc.induct)
  case (2 a sz fr xs)
  show ?case
  proof (cases "fr \<and> sz \<ge> 184")
    case taken: True
    show ?thesis
    proof (cases "(b, bz, True) \<in> set xs")
      case True
      then have "(b, bz, True) \<in> set ys" using 2(2) taken by (auto split: if_splits)
      moreover have "8192 \<le> bz" using 2(4) by (simp add: word_le_nat_alt)
      ultimately show ?thesis by blast
    next
      case False
      then have "sz = bz" using 2(3) by simp
      moreover have "8192 \<le> bz - 184 - HDR"
        using 2(4) by (simp add: word_le_nat_alt unat_sub)
      moreover have "bz \<ge> 184 + HDR + 16" using 2(4) by (simp add: word_le_nat_alt)
      ultimately have "(a + HDR + 184, sz - 184 - HDR, True) \<in> set ys" "8192 \<le> sz - 184 - HDR"
        using 2(2) taken by auto
      then show ?thesis by blast
    qed
  next
    case False
    then obtain zs where zs: "fit_alloc 184 xs = Some (p, zs)" "ys = (a, sz, fr) # zs"
      using 2(2) by (auto split: if_splits)
    show ?thesis
    proof (cases "(b, bz, True) \<in> set xs")
      case True
      from 2(1) [OF False zs(1) True 2(4)] zs(2) show ?thesis by auto
    next
      case head: False
      then have "fr" "sz = bz" using 2(3) by auto
      moreover have "184 \<le> bz" using 2(4) by (simp add: word_le_nat_alt)
      ultimately show ?thesis using False by simp
    qed
  qed
qed simp

lemma k_kmalloc_fits:
  assumes "heap_wf (k_heap k) hs" and "sz \<noteq> 0" and "fit_alloc (ALIGN_UP sz 4) hs = Some (p, ys)"
  obtains h where "k_kmalloc sz k = Some (Inr (p, k\<lparr>k_heap := h, k_pmm := heap_pmm h\<rparr>))"
    and "heap_wf h ys" and "bytes h = bytes (k_heap k)"
proof -
  have "heap_wf ((k_heap k)\<lparr>heap_pmm := k_pmm k\<rparr>) hs" using assms(1) by (simp add: heap_wf_def)
  from kmalloc_fits [OF this assms(2,3)] that show thesis by (auto simp: k_kmalloc_def)
qed

text \<open>A process outside the queue stays outside it, and is never made the current one.\<close>

definition off_queue :: "u32 \<Rightarrow> u32 list \<Rightarrow> 'a pkern_scheme \<Rightarrow> bool" where
  "off_queue c ys k \<longleftrightarrow> proc_path (procs k) (sched_queue k) ys \<and> c \<notin> set ys \<and> current_process k \<noteq> c"

lemma schedule_off_queue:
  assumes "off_queue c ys k" and "procs k (current_process k) \<noteq> None" and "schedule_process k = Some k'"
  shows "off_queue c ys k'"
proof -
  have path: "proc_path (procs k) (sched_queue k) ys" using assms(1) by (simp add: off_queue_def)
  note eq = schedule_process_eq [OF path disjI2 [OF assms(2)]]
  show ?thesis
  proof (cases "best_of (procs k) ys")
    case None
    then show ?thesis using eq assms(1,3) by simp
  next
    case (Some m)
    have m: "m \<in> set ys" using proc_pick.pick_least [OF Some] by blast
    obtain p where p: "procs k m = Some p" using proc_path_mem [OF path m] by blast
    let ?ps = "(preempt (current_process k) (procs k))(m \<mapsto> run_proc p)"
    have k': "procs k' = ?ps" "sched_queue k' = sched_queue k" "current_process k' = m"
      using eq Some p assms(3) by auto
    have "proc_path ?ps (sched_queue k) ys"
    proof (rule proc_path_frame [OF path])
      fix x t assume x: "x \<in> set ys" "procs k x = Some t"
      show "\<exists>t'. ?ps x = Some t' \<and> pr_next t' = pr_next t"
        using preempt_next [of "procs k" x t "current_process k", OF x(2)] x(2) p by (cases "x = m") auto
    qed
    then show ?thesis using k' m assms(1) by (auto simp: off_queue_def)
  qed
qed

lemma tick_off_queue:
  assumes "off_queue c ys k" and "sched_proc_tick k = Some k'"
  shows "off_queue c ys k'"
proof (cases "current_process k = 0")
  case True
  then show ?thesis using assms by (simp add: sched_proc_tick_def)
next
  case False
  obtain p where p: "procs k (current_process k) = Some p"
    using assms(2) False by (auto simp: sched_proc_tick_def bind_eq_Some_conv)
  let ?k = "set_proc (current_process k) (p\<lparr>pr_vruntime := pr_vruntime p + 10\<rparr>) k"
  have "off_queue c ys ?k"
    using assms(1) upd_path [of "procs k" "sched_queue k" ys "current_process k" p] p
    by (simp add: off_queue_def set_proc_def)
  moreover have "procs ?k (current_process ?k) \<noteq> None" by (simp add: set_proc_def)
  ultimately show ?thesis
    using assms p False schedule_off_queue [of c ys ?k k']
    by (simp add: sched_proc_tick_def upd_proc_def split: if_splits)
qed

lemma ticks_off_queue: "run_ticks n k = Some k' \<Longrightarrow> off_queue c ys k \<Longrightarrow> off_queue c ys k'"
  by (induction n arbitrary: k) (auto simp: bind_eq_Some_conv dest: tick_off_queue)

text \<open>A process outside the list is not found by a number.\<close>

lemma pid_off_list:
  assumes "proc_path (procs k) (proc_list k) xs" and "c \<notin> set xs"
    and "procs k' = (procs k)(c \<mapsto> p)" and "proc_list k' = proc_list k"
  shows "process_get_by_pid pid k' = process_get_by_pid pid k"
proof -
  have "proc_path (procs k') (proc_list k') xs"
    unfolding assms(3,4) using assms(2) by (intro proc_path_frame [OF assms(1)]) auto
  moreover have "find (\<lambda>x. pr_pid (the (procs k' x)) = pid) xs = find (\<lambda>x. pr_pid (the (procs k x)) = pid) xs"
    using assms(2,3) by (intro find_cong) auto
  ultimately show ?thesis unfolding process_get_by_pid_def by (simp add: pid_scan_path [OF assms(1)] pid_scan_path)
qed

text \<open>The two allocations of \<open>fork\<close>, and the copy of the stack.\<close>

lemma sys_fork_run:
  assumes wf: "heap_wf (k_heap (kp s)) hs" and room: "(b, bz, True) \<in> set hs" "8389 \<le> bz"
    and con: "vga_ok (k_con (kp s))"
    and cur: "current_process (kp s) \<noteq> 0" "procs (kp s) (current_process (kp s)) = Some p"
    and old: "pr_kernel_stack p = sb + HDR" "(sb, sz) \<in> used_blocks hs" "8192 \<le> sz"
  shows "\<exists>s' c cz st stz hs'. sys_fork_impl s = Some (Inr (pr_pid p + 1000, s'))
    \<and> 184 \<le> cz \<and> 8192 \<le> stz \<and> c \<noteq> st \<and> c \<notin> fst ` used_blocks hs \<and> st \<notin> fst ` used_blocks hs
    \<and> heap_wf (k_heap (kp s')) hs' \<and> used_blocks hs' = insert (st, stz) (insert (c, cz) (used_blocks hs))
    \<and> bytes (k_heap (kp s')) = store_copy 8192 (st + HDR) (sb + HDR) (bytes (k_heap (kp s)))
    \<and> procs (kp s') = (procs (kp s))(c + HDR \<mapsto> p\<lparr>pr_pid := pr_pid p + 1000, pr_parent := current_process (kp s),
          pr_kernel_stack := st + HDR, pr_esp0 := st + HDR + 8192, pr_state := PROC_READY\<rparr>)
    \<and> proc_list (kp s') = proc_list (kp s) \<and> sched_queue (kp s') = sched_queue (kp s)
    \<and> current_process (kp s') = current_process (kp s)"
proof -
  have al: "ALIGN_UP 184 4 = 184" "ALIGN_UP 8192 4 = 8192" by code_simp+
  have "184 \<le> bz" using room(2) by (simp add: word_le_nat_alt)
  then obtain q1 ys1 where f1: "fit_alloc 184 hs = Some (q1, ys1)" using fit_alloc_exists [OF room(1)] by blast
  obtain b2 bz2 where r2: "(b2, bz2, True) \<in> set ys1" "8192 \<le> bz2" using fit_alloc_rest [OF f1 room] by blast
  obtain q2 ys2 where f2: "fit_alloc 8192 ys1 = Some (q2, ys2)" using fit_alloc_exists [OF r2] by blast
  obtain c cz0 cz where c: "q1 = c + HDR" "(c, cz0, True) \<in> set hs" "184 \<le> cz" "used_blocks ys1 = insert (c, cz) (used_blocks hs)"
    using fit_alloc_Some [OF f1] by blast
  obtain st st0 stz where st: "q2 = st + HDR" "(st, st0, True) \<in> set ys1" "8192 \<le> stz"
    "used_blocks ys2 = insert (st, stz) (used_blocks ys1)"
    using fit_alloc_Some [OF f2] by blast
  have "(184 :: u32) \<noteq> 0" "(8192 :: u32) \<noteq> 0" by simp_all
  from k_kmalloc_fits [OF wf this(1), unfolded al, OF f1] obtain h1 where
    h1: "k_kmalloc 184 (kp s) = Some (Inr (q1, (kp s)\<lparr>k_heap := h1, k_pmm := heap_pmm h1\<rparr>))"
      "heap_wf h1 ys1" "bytes h1 = bytes (k_heap (kp s))" by blast
  let ?k1 = "(kp s)\<lparr>k_heap := h1, k_pmm := heap_pmm h1\<rparr>"
  from k_kmalloc_fits [of ?k1 ys1 8192, unfolded al, OF _ _ f2] h1(2) obtain h2 where
    h2: "k_kmalloc 8192 ?k1 = Some (Inr (q2, ?k1\<lparr>k_heap := h2, k_pmm := heap_pmm h2\<rparr>))"
      "heap_wf h2 ys2" "bytes h2 = bytes h1" by auto
  have nz: "a + HDR \<noteq> 0" if w: "heap_wf h zs" "(a, az) \<in> used_blocks zs" for h zs a az
  proof -
    have "(a, az, False) \<in> set zs" using w(2) by (simp add: used_blocks_def)
    then have "unat a + 13 < 2 ^ 32" using tiles_mem [OF heap_wfD(2) [OF w(1)]] heap_wfD(4) [OF w(1)] by fastforce
    then have "unat (a + HDR) = unat a + 13" using unat_Suc_small [of a 13] by simp
    then show ?thesis by (metis add_is_0 unat_0 zero_neq_numeral)
  qed
  have z: "q1 \<noteq> 0" "q2 \<noteq> 0" using nz [OF h1(2), of c cz] nz [OF h2(2), of st stz] c st by simp_all
  have fresh: "c \<notin> fst ` used_blocks hs" "st \<notin> fst ` used_blocks ys1"
    using tiles_unique [OF heap_wfD(2) [OF wf] c(2)] tiles_unique [OF heap_wfD(2) [OF h1(2)] st(2)]
    by (auto simp: used_blocks_def) blast+
  let ?p = "p\<lparr>pr_pid := pr_pid p + 1000, pr_parent := current_process (kp s), pr_kernel_stack := q2,
      pr_esp0 := q2 + 8192, pr_state := PROC_READY\<rparr>"
  let ?k2 = "?k1\<lparr>k_heap := h2, k_pmm := heap_pmm h2\<rparr>"
  let ?k3 = "set_proc q1 ?p (on_bytes (store_copy 8192 q2 (pr_kernel_stack p)) ?k2)"
  let ?fmt = "''Syscall: Forked process PID %u -> Child PID %u'' @ [CHR 0x0A]"
  have "vga_ok (k_con ?k3)" using con by (simp add: set_proc_def on_bytes_def)
  moreover have "NUL \<notin> set ?fmt" by simp
  moreover have "printk_text ?fmt [VA_word (pr_pid p), VA_word (pr_pid p + 1000)] \<noteq> None" by simp
  ultimately obtain con' where out: "k_printk ?fmt [VA_word (pr_pid p), VA_word (pr_pid p + 1000)] ?k3 = Some (?k3\<lparr>k_con := con'\<rparr>)"
    by (metis k_printk_ok not_None_eq)
  have run: "sys_fork_impl s = Some (Inr (pr_pid p + 1000, set_kp (?k3\<lparr>k_con := con'\<rparr>) s))"
    using cur h1(1) h2(1) z out by (simp add: sys_fork_impl_def Let_def)
  have "c \<noteq> st" using fresh(2) c(4) by auto
  then show ?thesis
    using run c(1,3,4) st(1,3,4) fresh h2(2,3) h1(3) old(1)
    by (rule_tac x = "set_kp (?k3\<lparr>k_con := con'\<rparr>) s" in exI, rule_tac x = c in exI, rule_tac x = cz in exI,
        rule_tac x = st in exI, rule_tac x = stz in exI, rule_tac x = ys2 in exI)
      (simp add: set_proc_def on_bytes_def heap_wf_def)
qed

text \<open>C27: the child of \<open>fork\<close>.  When a free block has room for the record and the stack, and the processes are in
  blocks of the heap that are in use, as \<open>process_create\<close> puts them, \<open>fork\<close> returns the number of the caller plus 1000.
  The child is a block of its own that holds the fields of the caller with that number, the caller as parent,
  the state READY and a stack of its own: another fresh block, apart from the stack of the caller and with the same
  8192 bytes; no other byte changes.  But it is put in no list: no call finds a process by number
  that it did not find before, so that waiting for the child fails at once unless another process has its number, and
  whatever number of ticks follow, the child is never made the current process.\<close>

theorem sys_fork_unlinked:
  assumes "heap_wf (k_heap (kp s)) hs" and "(b, bz, True) \<in> set hs" and "8389 \<le> bz" and "vga_ok (k_con (kp s))"
    and "current_process (kp s) \<noteq> 0" and "procs (kp s) (current_process (kp s)) = Some p"
    and "\<And>x. x \<in> dom (procs (kp s)) \<Longrightarrow> \<exists>c cz. x = c + HDR \<and> (c, cz) \<in> used_blocks hs"
    and "pr_kernel_stack p = sb + HDR" and "(sb, sz) \<in> used_blocks hs" and "8192 \<le> sz"
    and "proc_path (procs (kp s)) (proc_list (kp s)) xs" and "proc_path (procs (kp s)) (sched_queue (kp s)) ys"
  shows "\<exists>s' child stack. sys_fork_impl s = Some (Inr (pr_pid p + 1000, s'))
    \<and> child \<notin> dom (procs (kp s))
    \<and> procs (kp s') = (procs (kp s))(child \<mapsto> p\<lparr>pr_pid := pr_pid p + 1000, pr_parent := current_process (kp s),
          pr_kernel_stack := stack, pr_esp0 := stack + 8192, pr_state := PROC_READY\<rparr>)
    \<and> (\<exists>cz stz hs'. 184 \<le> cz \<and> 8192 \<le> stz \<and> heap_wf (k_heap (kp s')) hs'
        \<and> used_blocks hs' = insert (stack - HDR, stz) (insert (child - HDR, cz) (used_blocks hs))
        \<and> stack \<noteq> child \<and> {stack - HDR, child - HDR} \<inter> fst ` used_blocks hs = {})
    \<and> (unat (pr_kernel_stack p) + 8192 \<le> unat stack \<or> unat stack + 8192 \<le> unat (pr_kernel_stack p))
    \<and> (\<forall>i < 8192. bytes (k_heap (kp s')) (stack + of_nat i) = bytes (k_heap (kp s)) (pr_kernel_stack p + of_nat i))
    \<and> (\<forall>q. (\<forall>i < 8192. q \<noteq> stack + of_nat i) \<longrightarrow> bytes (k_heap (kp s')) q = bytes (k_heap (kp s)) q)
    \<and> proc_list (kp s') = proc_list (kp s) \<and> sched_queue (kp s') = sched_queue (kp s)
    \<and> (\<forall>pid. process_get_by_pid pid (kp s') = process_get_by_pid pid (kp s))
    \<and> ((\<forall>x \<in> set xs. pr_pid (the (procs (kp s) x)) \<noteq> pr_pid p + 1000) \<longrightarrow>
         (\<forall>env status. sys_waitpid_impl env (pr_pid p + 1000) status s' = Some (Inr (-1, s'))))
    \<and> (\<forall>n k. run_ticks n (kp s') = Some k \<longrightarrow> current_process k \<noteq> child)"
proof -
  let ?v = "pr_pid p + 1000"
  obtain s' c cz st stz hs' where f: "sys_fork_impl s = Some (Inr (?v, s'))"
    "184 \<le> cz" "8192 \<le> stz" "c \<noteq> st" "c \<notin> fst ` used_blocks hs" "st \<notin> fst ` used_blocks hs"
    "heap_wf (k_heap (kp s')) hs'" "used_blocks hs' = insert (st, stz) (insert (c, cz) (used_blocks hs))"
    and copy: "bytes (k_heap (kp s')) = store_copy 8192 (st + HDR) (sb + HDR) (bytes (k_heap (kp s)))"
    and ps: "procs (kp s') = (procs (kp s))(c + HDR \<mapsto> p\<lparr>pr_pid := ?v, pr_parent := current_process (kp s),
          pr_kernel_stack := st + HDR, pr_esp0 := st + HDR + 8192, pr_state := PROC_READY\<rparr>)"
    and same: "proc_list (kp s') = proc_list (kp s)" "sched_queue (kp s') = sched_queue (kp s)"
      "current_process (kp s') = current_process (kp s)"
    using sys_fork_run [OF assms(1-6,8-10)] by blast
  let ?child = "c + HDR"
  let ?stack = "st + HDR"
  have new: "?child \<notin> dom (procs (kp s))" using assms(7) f(5) by (force simp: image_iff)
  have off: "?child \<notin> set xs" "?child \<notin> set ys" "?child \<noteq> current_process (kp s)"
    using new proc_path_mem [OF assms(11)] proc_path_mem [OF assms(12)] assms(6) by auto
  have u: "unat (a + HDR) = unat a + 13" "unat a + 13 + unat az < 2 ^ 32" if "(a, az) \<in> used_blocks hs'" for a az
  proof -
    have "(a, az, False) \<in> set hs'" using that by (simp add: used_blocks_def)
    then show "unat a + 13 + unat az < 2 ^ 32" using tiles_mem [OF heap_wfD(2) [OF f(7)]] heap_wfD(4) [OF f(7)] by fastforce
    then show "unat (a + HDR) = unat a + 13" using unat_Suc_small [of a 13] by simp
  qed
  have m: "(sb, sz) \<in> used_blocks hs'" "(st, stz) \<in> used_blocks hs'" "sb \<noteq> st" using assms(9) f(6,8) by force+
  have le: "8192 \<le> unat sz" "8192 \<le> unat stz" using assms(10) f(3) by (simp_all add: word_le_nat_alt)
  have sep: "unat (sb + HDR) + 8192 \<le> unat ?stack \<or> unat ?stack + 8192 \<le> unat (sb + HDR)"
    using heap_wf_disjoint [OF f(7) m] u [OF m(1)] u [OF m(2)] le by linarith
  have bytes1: "bytes (k_heap (kp s')) (?stack + of_nat i) = bytes (k_heap (kp s)) (pr_kernel_stack p + of_nat i)" if "i < 8192" for i
    unfolding copy assms(8) using u [OF m(1)] u [OF m(2)] le sep that by (intro store_copy_disjoint) auto
  have bytes2: "bytes (k_heap (kp s')) q = bytes (k_heap (kp s)) q" if "\<forall>i < 8192. q \<noteq> ?stack + of_nat i" for q
    unfolding copy using that by (intro store_copy_other) blast
  have pid: "process_get_by_pid pid (kp s') = process_get_by_pid pid (kp s)" for pid
    by (rule pid_off_list [OF assms(11) off(1) ps same(1)])
  have wait: "sys_waitpid_impl env ?v status s' = Some (Inr (-1, s'))"
    if "\<forall>x \<in> set xs. pr_pid (the (procs (kp s) x)) \<noteq> ?v" for env status
  proof -
    have "find (\<lambda>x. pr_pid (the (procs (kp s) x)) = ?v) xs = None" using that by (simp add: find_None_iff)
    then have "process_get_by_pid ?v (kp s') = Some 0"
      unfolding pid by (simp add: process_get_by_pid_def pid_scan_path [OF assms(11)])
    then show ?thesis by (simp add: sys_waitpid_impl_def)
  qed
  have "proc_path (procs (kp s')) (sched_queue (kp s')) ys"
    unfolding ps same using off(2) by (intro proc_path_frame [OF assms(12)]) auto
  then have "off_queue ?child ys (kp s')" using off same by (simp add: off_queue_def)
  then have never: "current_process k \<noteq> ?child" if "run_ticks n (kp s') = Some k" for n k
    using ticks_off_queue [OF that, of ?child ys] by (simp add: off_queue_def)
  show ?thesis
    apply (rule exI [of _ s'], rule exI [of _ ?child], rule exI [of _ ?stack], intro conjI)
              apply (rule f(1))
             apply (rule new)
            apply (rule ps)
           apply (rule exI [of _ cz], rule exI [of _ stz], rule exI [of _ hs'])
           apply (use f in simp)
          apply (use sep assms(8) in simp)
    using bytes1 bytes2 same pid wait never by blast+
qed

text \<open>Taking a process out of the list.\<close>

lemma proc_path_start: "proc_path ps p xs \<Longrightarrow> p = (case xs of [] \<Rightarrow> 0 | x # _ \<Rightarrow> x)"
  by (cases xs) auto

definition relinked :: "(u32 \<rightharpoonup> process) \<Rightarrow> (u32 \<rightharpoonup> process) \<Rightarrow> bool" where
  "relinked ps ps' \<longleftrightarrow> (\<forall>x. \<exists>f. ps' x = map_option (\<lambda>p. p\<lparr>pr_next := f\<rparr>) (ps x))"

lemma relinked_refl [simp]: "relinked ps ps"
proof -
  have "\<exists>f. ps x = map_option (\<lambda>p. p\<lparr>pr_next := f\<rparr>) (ps x)" for x
    by (cases "ps x") (auto intro: exI [of _ "pr_next (the (ps x))"])
  then show ?thesis by (simp add: relinked_def)
qed

lemma relinked_upd:
  assumes "ps c = Some p"
  shows "relinked ps (ps(c \<mapsto> p\<lparr>pr_next := f\<rparr>))"
  unfolding relinked_def
proof
  fix x
  show "\<exists>g. (ps(c \<mapsto> p\<lparr>pr_next := f\<rparr>)) x = map_option (\<lambda>p. p\<lparr>pr_next := g\<rparr>) (ps x)"
  proof (cases "x = c")
    case False
    then have "(ps(c \<mapsto> p\<lparr>pr_next := f\<rparr>)) x = ps x" by simp
    then show ?thesis using relinked_refl [of ps, unfolded relinked_def, THEN spec, of x] by simp
  qed (use assms in auto)
qed

lemma unlink_after_path:
  assumes "proc_path (procs k) c (c # ys)" and "distinct (c # ys)" and "a \<in> set ys"
  shows "\<exists>ps'. unlink_after a c k = Some (k\<lparr>procs := ps'\<rparr>) \<and> proc_path ps' c (c # remove1 a ys)
    \<and> ps' a = procs k a \<and> relinked (procs k) ps' \<and> (\<forall>x. x \<notin> set (c # ys) \<longrightarrow> ps' x = procs k x)"
  using assms
proof (induction ys arbitrary: c)
  case (Cons d ys)
  from Cons.prems(1) obtain p q where pq: "c \<noteq> 0" "procs k c = Some p" "pr_next p = d" "d \<noteq> 0" "procs k d = Some q"
    "proc_path (procs k) (pr_next q) ys" by auto
  show ?case
  proof (cases "a = d")
    case True
    let ?ps = "(procs k)(c \<mapsto> p\<lparr>pr_next := pr_next q\<rparr>)"
    have "proc_path ?ps (pr_next q) ys"
      using proc_path_frame [OF pq(6), of ?ps] Cons.prems(2) by force
    moreover have "unlink_after a c k = Some (k\<lparr>procs := ?ps\<rparr>)"
      using pq True by (subst unlink_after.simps) (simp add: upd_proc_def set_proc_def)
    moreover have "relinked (procs k) ?ps"
      using relinked_upd pq(2) by blast
    moreover have "?ps a = procs k a" "?ps c = Some (p\<lparr>pr_next := pr_next q\<rparr>)" "remove1 a (d # ys) = ys"
      using True Cons.prems(2) by auto
    moreover have "\<forall>x. x \<notin> set (c # d # ys) \<longrightarrow> ?ps x = procs k x" by simp
    ultimately show ?thesis using pq(1) by (intro exI [of _ ?ps]) (simp del: fun_upd_apply remove1.simps)
  next
    case False
    then have "a \<in> set ys" using Cons.prems(3) by simp
    have "proc_path (procs k) d (d # ys)" "distinct (d # ys)" using pq Cons.prems(2) by simp_all
    from Cons.IH [OF this \<open>a \<in> set ys\<close>] obtain ps' where ps':
      "unlink_after a d k = Some (k\<lparr>procs := ps'\<rparr>)" "proc_path ps' d (d # remove1 a ys)"
      "ps' a = procs k a" "relinked (procs k) ps'" "\<forall>x. x \<notin> set (d # ys) \<longrightarrow> ps' x = procs k x" by blast
    have "unlink_after a c k = Some (k\<lparr>procs := ps'\<rparr>)"
      using pq False ps'(1) by (subst unlink_after.simps) simp
    moreover have "ps' c = Some p" using ps'(5) pq Cons.prems(2) by auto
    ultimately show ?thesis using ps' pq False Cons.prems(2) by (intro exI [of _ ps']) auto
  qed
qed simp

lemma relinked_pid: "relinked ps ps' \<Longrightarrow> ps x = Some p \<Longrightarrow> pr_pid (the (ps' x)) = pr_pid p"
  by (auto simp: relinked_def) (metis option.sel option.simps(9) process.select_convs(1) process.surjective process.update_convs(16))

text \<open>\<open>process_destroy\<close> of a process of the list: it leaves the list, and its two blocks go back to the heap.\<close>

lemma process_destroy_path:
  assumes path: "proc_path (procs k) (proc_list k) xs" "distinct xs" "a \<in> set xs" and p: "procs k a = Some p"
    and heap: "heap_wf (k_heap k) bs" "a = b + HDR" "(b, bz) \<in> used_blocks bs"
    and stack: "pr_kernel_stack p = 0 \<and> S = {}
      \<or> (\<exists>c cz. pr_kernel_stack p = c + HDR \<and> c + HDR \<noteq> 0 \<and> (c, cz) \<in> used_blocks bs \<and> c \<noteq> b \<and> S = {(c, cz)})"
  obtains k' bs' where "process_destroy a k = Some (Inr k')" "proc_path (procs k') (proc_list k') (remove1 a xs)"
    "\<forall>x p'. x \<noteq> a \<longrightarrow> procs k x = Some p' \<longrightarrow> pr_pid (the (procs k' x)) = pr_pid p'"
    "procs k' a = None" "heap_wf (k_heap k') bs'"
    "used_blocks bs' = used_blocks bs - S - {(b, bz)}" "k_con k' = k_con k"
proof -
  have a0: "a \<noteq> 0" using proc_path_mem [OF path(1,3)] by simp
  obtain k1 where k1: "(if proc_list k = a then Some (k\<lparr>proc_list := pr_next p\<rparr>)
         else if proc_list k \<noteq> 0 then unlink_after a (proc_list k) k else Some k) = Some k1"
    "proc_path (procs k1) (proc_list k1) (remove1 a xs)" "procs k1 a = Some p" "relinked (procs k) (procs k1)"
    "k_heap k1 = k_heap k" "k_con k1 = k_con k"
  proof (cases xs)
    case (Cons c ys)
    show thesis
    proof (cases "c = a")
      case True
      then show thesis using Cons path p by (intro that [of "k\<lparr>proc_list := pr_next p\<rparr>"]) auto
    next
      case False
      then have "a \<in> set ys" "proc_list k = c" using Cons path by auto
      with unlink_after_path [of k c ys a] Cons path obtain ps' where "unlink_after a c k = Some (k\<lparr>procs := ps'\<rparr>)"
        "proc_path ps' c (c # remove1 a ys)" "ps' a = procs k a" "relinked (procs k) ps'" by auto
      then show thesis using False Cons p \<open>proc_list k = c\<close> path
        by (intro that [of "k\<lparr>procs := ps'\<rparr>"]) auto
    qed
  qed (use path in simp)
  obtain k2 cs where k2: "(if pr_kernel_stack p \<noteq> 0 then k_kfree (pr_kernel_stack p) k1 else Some (Inr k1)) = Some (Inr k2)"
    "kern.more k2 = kern.more k1" "heap_wf (k_heap k2) cs" "used_blocks cs = used_blocks bs - S" "k_con k2 = k_con k"
    "(b, bz) \<in> used_blocks cs"
  proof (cases "pr_kernel_stack p = 0")
    case True
    then show thesis using stack heap k1 by (intro that [of k1 bs]) auto
  next
    case False
    then obtain c cz where c: "pr_kernel_stack p = c + HDR" "(c, cz) \<in> used_blocks bs" "c \<noteq> b" "S = {(c, cz)}" using stack by blast
    have wf: "heap_wf (k_heap k1) bs" using heap(1) k1(5) by simp
    from k_kfree_ok [OF wf c(2)] obtain k2 cs where k2: "k_kfree (c + HDR) k1 = Some (Inr k2)" "heap_wf (k_heap k2) cs"
      "used_blocks cs = used_blocks bs - {(c, cz)}" "k_con k2 = k_con k1" by metis
    then show thesis using False c heap(3) k1(6) by (intro that [of k2 cs]) (auto dest: k_kfree_more)
  qed
  note f2 = more_pkern [OF k2(2)]
  let ?k3 = "set_proc a (p\<lparr>pr_state := PROC_DEAD\<rparr>) k2"
  have k3: "upd_proc a (\<lambda>p. p\<lparr>pr_state := PROC_DEAD\<rparr>) k2 = Some ?k3" using f2 k1(3) by (simp add: upd_proc_def)
  have "heap_wf (k_heap ?k3) cs" using k2(3) by (simp add: set_proc_def)
  from k_kfree_ok [OF this k2(6)] obtain k4 ds where k4: "k_kfree (b + HDR) ?k3 = Some (Inr k4)" "heap_wf (k_heap k4) ds"
    "used_blocks ds = used_blocks cs - {(b, bz)}" "k_con k4 = k_con ?k3" by metis
  note f4 = more_pkern [OF k_kfree_more [OF k4(1)]]
  let ?k' = "k4\<lparr>procs := (procs k4)(a := None)\<rparr>"
  have run: "process_destroy a k = Some (Inr ?k')"
    using a0 p k1(1) k2(1) k3 k4(1) [folded heap(2)] by (simp add: process_destroy_def free_proc_def split del: if_split)
  have ps: "procs ?k' = (procs k1)(a := None)" "proc_list ?k' = proc_list k1"
    using f4 f2 by (simp_all add: set_proc_def)
  have "a \<notin> set (remove1 a xs)" using path(2) by simp
  then have "proc_path (procs ?k') (proc_list ?k') (remove1 a xs)"
    unfolding ps using proc_path_frame [OF k1(2), of "(procs k1)(a := None)"] by force
  moreover have "\<forall>x p'. x \<noteq> a \<longrightarrow> procs k x = Some p' \<longrightarrow> pr_pid (the (procs ?k' x)) = pr_pid p'"
    unfolding ps using relinked_pid [OF k1(4)] by simp
  ultimately show thesis
    using that [OF run] k4 k2(4,5) ps by (simp add: set_proc_def)
qed

lemma find_remove1: "\<not> P a \<Longrightarrow> find P (remove1 a xs) = find P xs"
  by (induction xs) auto

lemma find_unique: "a \<in> set xs \<Longrightarrow> P a \<Longrightarrow> \<forall>x \<in> set xs. P x \<longrightarrow> x = a \<Longrightarrow> find P xs = Some a"
proof (induction xs)
  case (Cons y ys)
  show ?case
  proof (cases "P y")
    case True
    then have "y = a" using Cons.prems(3) [THEN bspec, of y] by simp
    then show ?thesis using True by simp
  next
    case False
    then have a: "a \<in> set ys" using Cons.prems(1,2) by auto
    have "\<forall>x \<in> set ys. P x \<longrightarrow> x = a" using Cons.prems(3) by (blast intro: list.set_intros)
    from Cons.IH [OF a Cons.prems(2) this] show ?thesis using False by simp
  qed
qed simp

text \<open>Kill and wait.  A process that is killed with signal 9 becomes a zombie with exit code 137, and waiting for
  it then returns its number without waiting for any interrupt: the process leaves the table, its block
  and its stack go back to the heap, its number is not found any more, and every other process is found
  as before.\<close>

theorem kill_waitpid_reaps:
  assumes ok: "vga_ok (k_con (kp s))" and path: "proc_path (procs (kp s)) (proc_list (kp s)) xs" "distinct xs" "a \<in> set xs"
    and p: "procs (kp s) a = Some p"
    and uniq: "\<forall>x \<in> set xs. pr_pid (the (procs (kp s) x)) = pr_pid p \<longrightarrow> x = a"
    and heap: "heap_wf (k_heap (kp s)) bs" "a = b + HDR" "(b, bz) \<in> used_blocks bs"
    and stack: "pr_kernel_stack p = 0 \<and> S = {}
      \<or> (\<exists>c cz. pr_kernel_stack p = c + HDR \<and> c + HDR \<noteq> 0 \<and> (c, cz) \<in> used_blocks bs \<and> c \<noteq> b \<and> S = {(c, cz)})"
  shows "\<exists>s1 s2 bs'. sys_kill_impl (pr_pid p) 9 s = Some (Inr (0, s1))
    \<and> procs (kp s1) = (procs (kp s))(a \<mapsto> p\<lparr>pr_state := PROC_ZOMBIE, pr_exit_code := 137\<rparr>)
    \<and> sys_waitpid_impl env (pr_pid p) 0 s1 = Some (Inr (pr_pid p, s2))
    \<and> process_get_by_pid (pr_pid p) (kp s2) = Some 0
    \<and> (\<forall>pid. pid \<noteq> pr_pid p \<longrightarrow> process_get_by_pid pid (kp s2) = process_get_by_pid pid (kp s))
    \<and> heap_wf (k_heap (kp s2)) bs' \<and> used_blocks bs' = used_blocks bs - S - {(b, bz)}"
proof -
  let ?q = "p\<lparr>pr_state := PROC_ZOMBIE, pr_exit_code := 137\<rparr>"
  let ?fmt = "''Syscall kill: Process PID %u killed by signal 9'' @ [CHR 0x0A]"
  let ?k = "set_proc a ?q (kp s)"
  have a0: "a \<noteq> 0" using proc_path_mem [OF path(1,3)] by simp
  have "find (\<lambda>x. pr_pid (the (procs (kp s) x)) = pr_pid p) xs = Some a"
    by (rule find_unique [OF path(3) _ uniq]) (simp add: p)
  then have get: "process_get_by_pid (pr_pid p) (kp s) = Some a"
    by (simp add: process_get_by_pid_def pid_scan_path [OF path(1)])
  have out: "NUL \<notin> set ?fmt" "\<exists>out. printk_text ?fmt [VA_word (pr_pid p)] = Some out" by simp_all
  have "vga_ok (k_con ?k)" using ok by (simp add: set_proc_def)
  then obtain c where c: "k_printk ?fmt [VA_word (pr_pid p)] ?k = Some (?k\<lparr>k_con := c\<rparr>)"
    using k_printk_ok [OF _ out(1)] out(2) by blast
  define s1 where "s1 = set_kp (?k\<lparr>k_con := c\<rparr>) s"
  have kill: "sys_kill_impl (pr_pid p) 9 s = Some (Inr (0, s1))"
    using get a0 p c by (simp add: sys_kill_impl_def upd_proc_def s1_def)
  have ps: "procs (kp s1) = (procs (kp s))(a \<mapsto> ?q)" "proc_list (kp s1) = proc_list (kp s)" "k_heap (kp s1) = k_heap (kp s)"
    by (simp_all add: s1_def set_proc_def)
  have pid1: "pr_pid (the (procs (kp s1) x)) = pr_pid (the (procs (kp s) x))" for x using p by (simp add: ps)
  have path1: "proc_path (procs (kp s1)) (proc_list (kp s1)) xs"
    unfolding ps by (rule proc_path_frame [OF path(1)]) (use p in \<open>auto split: if_splits\<close>)
  then have get1: "process_get_by_pid pid (kp s1) = process_get_by_pid pid (kp s)" for pid
    using path(1) pid1 by (simp add: process_get_by_pid_def pid_scan_path)
  have q: "procs (kp s1) a = Some ?q" and h1: "heap_wf (k_heap (kp s1)) bs" using heap(1) by (simp_all add: ps)
  have st: "pr_kernel_stack ?q = 0 \<and> S = {}
      \<or> (\<exists>c cz. pr_kernel_stack ?q = c + HDR \<and> c + HDR \<noteq> 0 \<and> (c, cz) \<in> used_blocks bs \<and> c \<noteq> b \<and> S = {(c, cz)})"
    using stack by simp
  from process_destroy_path [OF path1 path(2,3) q h1 heap(2,3) st] obtain k2 bs' where
    d: "process_destroy a (kp s1) = Some (Inr k2)" "proc_path (procs k2) (proc_list k2) (remove1 a xs)"
    "\<forall>x p'. x \<noteq> a \<longrightarrow> procs (kp s1) x = Some p' \<longrightarrow> pr_pid (the (procs k2 x)) = pr_pid p'"
    "procs k2 a = None" "heap_wf (k_heap k2) bs'" "used_blocks bs' = used_blocks bs - S - {(b, bz)}" "k_con k2 = k_con (kp s1)" .
  have wd: "wait_dead (env_wake env) a (sy_machine s1) = Some (sy_machine s1)"
    by (subst wait_dead.simps) (simp add: q)
  have wait: "sys_waitpid_impl env (pr_pid p) 0 s1 = Some (Inr (pr_pid p, set_kp k2 s1))"
    using get get1 a0 wd d(1) by (simp add: sys_waitpid_impl_def)
  have pid2: "pr_pid (the (procs k2 x)) = pr_pid (the (procs (kp s) x))" if "x \<in> set (remove1 a xs)" for x
  proof -
    have "x \<noteq> a" "x \<in> set xs" using that path(2) by auto
    moreover from this obtain p' where "procs (kp s1) x = Some p'" using proc_path_mem [OF path1] by blast
    ultimately show ?thesis using d(3) pid1 [of x] by simp
  qed
  have get2: "process_get_by_pid pid k2 = Some (case find (\<lambda>x. pr_pid (the (procs (kp s) x)) = pid) (remove1 a xs) of None \<Rightarrow> 0 | Some x \<Rightarrow> x)" for pid
    using find_cong [of "remove1 a xs" "remove1 a xs" "\<lambda>x. pr_pid (the (procs k2 x)) = pid" "\<lambda>x. pr_pid (the (procs (kp s) x)) = pid"] pid2
    by (simp add: process_get_by_pid_def pid_scan_path [OF d(2)])
  have "find (\<lambda>x. pr_pid (the (procs (kp s) x)) = pr_pid p) (remove1 a xs) = None"
    using uniq path(2) by (auto simp: find_None_iff)
  then have gone: "process_get_by_pid (pr_pid p) k2 = Some 0" by (simp add: get2)
  have "process_get_by_pid pid k2 = process_get_by_pid pid (kp s)" if "pid \<noteq> pr_pid p" for pid
    unfolding get2 using that p by (simp add: find_remove1 process_get_by_pid_def pid_scan_path [OF path(1)])
  then show ?thesis using kill ps(1) wait gone d(5,6) by (intro exI [of _ s1] exI [of _ "set_kp k2 s1"] exI [of _ bs']) simp
qed

section \<open>At most one process runs, whatever the programs do\<close>

text \<open>Loading and unloading a module leaves the processes alone, if the module's own functions do.\<close>

lemma on_bytes_more [simp]: "kern.more (on_bytes f k) = kern.more k"
  by (simp add: on_bytes_def)

lemma virt_put_more: "virt_put v bs k = Some k' \<Longrightarrow> kern.more k' = kern.more k"
  by (induction bs arbitrary: v k) (auto split: bind_splits dest: virt_write_more)

lemma apply_rel_more: "apply_rel t S P k = Some k' \<Longrightarrow> kern.more k' = kern.more k"
  by (auto simp: apply_rel_def split: if_splits dest: k_printk_more)

lemma apply_rels_more: "apply_rels rs rels tb syms n d k = Some k' \<Longrightarrow> kern.more k' = kern.more k"
  by (induction rs arbitrary: k) (auto simp: Let_def split: bind_splits if_splits dest!: apply_rel_more)

lemma relocate_sections_more: "relocate_sections is shoff shnum syms n d k = Some k' \<Longrightarrow> kern.more k' = kern.more k"
  by (induction "is" arbitrary: k) (auto simp: Let_def split: bind_splits if_splits dest!: apply_rels_more)

lemma no_panic_Some [simp]: "no_panic x = Some (Inr y) \<longleftrightarrow> x = Some y"
  by (cases x) auto

lemma load_error_more: "load_error msg args base d ms k = Some (Inr (r, d', ms', k')) \<Longrightarrow> kern.more k' = kern.more k"
  by (auto simp: load_error_def obind_Some_Inr dest!: k_printk_more k_kfree_more)

text \<open>The functions of a module do not touch the processes and the scheduler.\<close>

definition keeps_procs :: "(u32 \<Rightarrow> 'a kern_scheme \<Rightarrow> 'a kern_scheme option) \<Rightarrow> bool" where
  "keeps_procs call \<longleftrightarrow> (\<forall>a k k'. call a k = Some k' \<longrightarrow> kern.more k' = kern.more k)"

lemma keeps_procsD: "call a k = Some k' \<Longrightarrow> keeps_procs call \<Longrightarrow> kern.more k' = kern.more k"
  by (simp add: keeps_procs_def)

lemma module_register_loaded_more:
  "module_register_loaded call nm base t i c d ms k = Some (Inr (r, d', ms', k')) \<Longrightarrow> keeps_procs call \<Longrightarrow> kern.more k' = kern.more k"
  by (auto simp: module_register_loaded_def obind_Some_Inr Let_def split: if_splits bind_splits
      dest!: k_printk_more k_kmalloc_more load_error_more keeps_procsD)

lemma module_link_symbols_more:
  "module_link_symbols sa call nm base t shoff shnum st d ms k = Some (Inr (r, d', ms', k')) \<Longrightarrow> keeps_procs call \<Longrightarrow> kern.more k' = kern.more k"
  by (auto simp: module_link_symbols_def obind_Some_Inr Let_def bind_eq_Some_conv split: if_split_asm option.split_asm prod.split_asm
      dest!: load_error_more module_register_loaded_more relocate_sections_more)

lemma module_link_more:
  "module_link sa call nm base t d ms k = Some (Inr (r, d', ms', k')) \<Longrightarrow> keeps_procs call \<Longrightarrow> kern.more k' = kern.more k"
  by (auto simp: module_link_def obind_Some_Inr Let_def bind_eq_Some_conv split: if_split_asm option.split_asm prod.split_asm
      dest!: load_error_more module_link_symbols_more)

lemma module_load_binary_more:
  "module_load_binary sa call nm d sz ms k = Some (Inr (r, d', ms', k')) \<Longrightarrow> keeps_procs call \<Longrightarrow> kern.more k' = kern.more k"
  by (auto simp: module_load_binary_def obind_Some_Inr Let_def bind_eq_Some_conv split: if_split_asm option.split_asm prod.split_asm
      dest!: k_printk_more k_kmalloc_more module_link_more)

lemma module_unload_binary_more:
  "module_unload_binary call nm ms k = Some (Inr (r, ms', k')) \<Longrightarrow> keeps_procs call \<Longrightarrow> kern.more k' = kern.more k"
  by (auto simp: module_unload_binary_def obind_Some_Inr Let_def bind_eq_Some_conv split: if_split_asm option.split_asm prod.split_asm
      dest!: k_printk_more k_kfree_more keeps_procsD)

text \<open>Interrupts keep the invariant.\<close>

lemma on_con_more: "kern.more (m_proc (on_con f m)) = kern.more (m_proc m)"
  by (simp add: on_con_def)

lemma running_on_con [simp]: "running_ok (m_proc (on_con f m)) = running_ok (m_proc m)"
  using running_ok_more on_con_more by metis

lemma call_handler_proc: "call_handler inb h m = Some m' \<Longrightarrow> m_proc m' = m_proc m"
  using call_handler_frame by blast

lemma irq_handler_ok:
  assumes "irq_handler inb r m = Some m'" and "running_ok (m_proc m)"
  shows "running_ok (m_proc m')"
proof -
  obtain h m1 where h: "(case h of None \<Rightarrow> Some m | Some h \<Rightarrow> call_handler inb h m) = Some m1"
    and run: "(if left_context m m1 then Some m1
      else Option.bind (if rg_int_no r = 32
             then map_option (\<lambda>k. m1\<lparr>m_proc := k\<rparr>) (sched_proc_tick (m_proc m1)) else Some m1)
        (\<lambda>m2. Some (if left_context m1 m2 then m2 else irq_ack r m2))) = Some m'"
    using assms(1) unfolding irq_handler_def bind_eq_Some_conv by blast
  have ok: "running_ok (m_proc m1)" using h call_handler_proc assms(2) by (auto split: option.splits)
  have ack: "running_ok (m_proc (irq_ack r m2)) = running_ok (m_proc m2)" for m2
    by (simp add: irq_ack_def apic_eoi_def apic_write_def)
  from run ok show ?thesis
    by (auto simp: ack bind_eq_Some_conv split: if_split_asm dest: sched_proc_tick_ok)
qed

lemma isr_handler_ok: "isr_handler inb r m = Some (Inr m') \<Longrightarrow> running_ok (m_proc m) \<Longrightarrow> running_ok (m_proc m')"
  by (auto simp: isr_handler_def obind_Some_Inr bind_eq_Some_conv m_printk_def split: if_split_asm option.split_asm
      dest!: call_handler_proc k_printk_more elim!: process_exit_ok intro: running_ok_more)

text \<open>A wait ends with an interrupt: what \<^verbatim>\<open>hlt\<close> returns to has run one of the handlers, which came
  back.\<close>

locale halting =
  fixes wake :: "machine \<Rightarrow> machine option"
  assumes wake_irq: "wake m = Some m' \<Longrightarrow> \<exists>inb r. irq_handler inb r m = Some m' \<and> \<not> left_context m m'"
begin

lemma wake_ok: "wake m = Some m' \<Longrightarrow> running_ok (m_proc m) \<Longrightarrow> running_ok (m_proc m')"
  using wake_irq irq_handler_ok by blast

lemma timer_wait_ok: "timer_wait w target m = Some m' \<Longrightarrow> w = wake \<Longrightarrow> running_ok (m_proc m) \<Longrightarrow> running_ok (m_proc m')"
proof (induction rule: timer_wait.raw_induct [rotated 1, consumes 1, case_names step])
  case (step f w target m m')
  from step.hyps step.prems show ?case
    by (auto simp: bind_eq_Some_conv split: if_split_asm intro: step.IH wake_ok)
qed

lemma timer_sleep_ok: "timer_sleep wake ms m = Some m' \<Longrightarrow> running_ok (m_proc m) \<Longrightarrow> running_ok (m_proc m')"
  by (auto simp: timer_sleep_def intro: timer_wait_ok)

lemma wait_dead_ok: "wait_dead w a m = Some m' \<Longrightarrow> w = wake \<Longrightarrow> running_ok (m_proc m) \<Longrightarrow> running_ok (m_proc m')"
proof (induction rule: wait_dead.raw_induct [rotated 1, consumes 1, case_names step])
  case (step f w a m m')
  from step.hyps step.prems show ?case
    by (auto simp: bind_eq_Some_conv split: if_split_asm intro: step.IH timer_sleep_ok)
qed

lemma keyboard_wait_ok: "keyboard_wait w m = Some r \<Longrightarrow> w = wake \<Longrightarrow> running_ok (m_proc m) \<Longrightarrow> running_ok (m_proc (snd r))"
proof (induction rule: keyboard_wait.raw_induct [rotated 1, consumes 1, case_names step])
  case (step f w m r)
  from step.hyps step.prems show ?case
    by (auto simp: bind_eq_Some_conv split: if_split_asm intro: step.IH wake_ok)
qed

lemma stdin_loop_ok: "stdin_loop wake n buf i m = Some (v, m') \<Longrightarrow> running_ok (m_proc m) \<Longrightarrow> running_ok (m_proc m')"
proof (induction n arbitrary: i m)
  case (Suc n)
  from Suc.prems(1) obtain c m1 where kw: "keyboard_wait wake m = Some (c, m1)" by (auto simp: bind_eq_Some_conv)
  have ok1: "running_ok (m_proc m1)" using keyboard_wait_ok [OF kw refl Suc.prems(2)] by simp
  show ?case
  proof (cases "c = NUL")
    case True
    then show ?thesis using Suc.prems(1) kw ok1 by simp
  next
    case False
    with Suc.prems(1) kw obtain k where k: "virt_write (buf + i) (char_byte c) (m_proc m1) = Some k"
      "(if c = CHR 0x0A \<or> c = CHR 0x0D then Some (i + 1, m1\<lparr>m_proc := k\<rparr>) else stdin_loop wake n buf (i + 1) (m1\<lparr>m_proc := k\<rparr>)) = Some (v, m')"
      by (auto simp: bind_eq_Some_conv Let_def)
    have "running_ok (m_proc (m1\<lparr>m_proc := k\<rparr>))" using running_ok_more [OF virt_write_more [OF k(1)] ok1] by simp
    then show ?thesis using k(2) Suc.IH by (auto split: if_split_asm)
  qed
qed simp

end

text \<open>The interrupts of the timer and the keyboard end a wait.\<close>

definition hlt_irq :: "(u16 \<Rightarrow> u8) \<Rightarrow> registers \<Rightarrow> machine \<Rightarrow> machine option" where
  "hlt_irq inb r m = Option.bind (irq_handler inb r m) (\<lambda>m'. if left_context m m' then None else Some m')"

interpretation timer_irq: halting "hlt_irq inb r" for inb r
  by unfold_locales (auto simp: hlt_irq_def bind_eq_Some_conv split: if_splits)

definition env_ok :: "sys_env \<Rightarrow> bool" where
  "env_ok env \<longleftrightarrow> (\<forall>m m'. env_wake env m = Some m' \<longrightarrow> (\<exists>inb r. irq_handler inb r m = Some m' \<and> \<not> left_context m m')) \<and> keeps_procs (env_call env)"

lemma env_okD: "env_ok env \<Longrightarrow> halting (env_wake env)" "env_ok env \<Longrightarrow> keeps_procs (env_call env)"
  by (simp_all add: env_ok_def halting_def)

lemma set_proc_running:
  "running_ok k \<Longrightarrow> a \<noteq> 0 \<Longrightarrow> pr_state p = PROC_RUNNING \<longrightarrow> a = current_process k \<Longrightarrow> running_ok (set_proc a p k)"
  by (auto simp: running_ok_def set_proc_def)

lemma sys_exit_ok: "sys_exit_impl a s = Some (Inr (v, s')) \<Longrightarrow> running_ok (kp s) \<Longrightarrow> running_ok (kp s')"
  by (auto simp: sys_exit_impl_def bind_eq_Some_conv intro: process_exit_ok)

lemma sys_fork_ok:
  assumes "sys_fork_impl s = Some (Inr (v, s'))" and "running_ok (kp s)"
  shows "running_ok (kp s')"
  using assms(1)
proof (cases rule: sys_fork_cases)
  case failed
  then show ?thesis using running_ok_more assms(2) by blast
next
  case (child p a st e0 k3 k4 c)
  have "running_ok (set_proc a c k3)" using running_ok_more [OF child(3) assms(2)] child(1,6) by (intro set_proc_ok) simp_all
  then show ?thesis using running_ok_more [OF child(7)] child(5) by simp
qed

lemma sys_read_ok: "sys_read_impl env fd a b s = Some (Inr (v, s')) \<Longrightarrow> env_ok env \<Longrightarrow> running_ok (kp s) \<Longrightarrow> running_ok (kp s')"
  by (auto simp: sys_read_impl_def bind_eq_Some_conv split: if_split_asm dest!: halting.stdin_loop_ok [OF env_okD(1)])

lemma stdout_loop_more: "stdout_loop n v k = Some k' \<Longrightarrow> kern.more k' = kern.more k"
  by (induction n arbitrary: v k) (auto simp: bind_eq_Some_conv)

lemma sys_write_ok: "sys_write_impl fd a b s = Some (Inr (v, s')) \<Longrightarrow> running_ok (kp s) \<Longrightarrow> running_ok (kp s')"
  by (auto simp: sys_write_impl_def bind_eq_Some_conv split: if_split_asm dest!: stdout_loop_more intro: running_ok_more)

lemma user_put32_more: "user_put32 v w k = Some k' \<Longrightarrow> kern.more k' = kern.more k"
  by (auto simp: user_put32_def dest: virt_put_more)

lemma user_strncpy_more: "user_strncpy v t n k = Some k' \<Longrightarrow> kern.more k' = kern.more k"
  by (auto simp: user_strncpy_def dest: virt_put_more)

lemma sys_waitpid_ok:
  "sys_waitpid_impl env a b s = Some (Inr (v, s')) \<Longrightarrow> env_ok env \<Longrightarrow> running_ok (kp s) \<Longrightarrow> running_ok (kp s')"
  by (auto simp: sys_waitpid_impl_def bind_eq_Some_conv obind_Some_Inr Let_def split: if_split_asm
      dest!: halting.wait_dead_ok [OF env_okD(1) _ refl] user_put32_more intro: process_destroy_ok running_ok_more)

lemma sys_exec_ok:
  assumes "sys_exec_impl a s = Some (Inr (v, s'))" and "running_ok (kp s)"
  shows "running_ok (kp s')"
proof -
  let ?c = "current_process (kp s)"
  have *: "running_ok k4" if "elf_load_segments d sz (kp s) = Some (r, k1)"
     "upd_proc ?c (\<lambda>p. p\<lparr>pr_entry_point := e, pr_user_eip := e, pr_user_esp := u\<rparr>) k1 = Some k2"
     "procs k2 ?c = Some p" "k_printk fmt args (set_proc ?c (p\<lparr>pr_name := nm\<rparr>) k2) = Some k4"
     for d sz r k1 k2 k4 e u p nm fmt args
  proof -
    have k1: "running_ok k1" "current_process k1 = ?c"
      using running_ok_more [OF elf_load_segments_more [OF that(1)] assms(2)] more_pkern(2) [OF elf_load_segments_more [OF that(1)]] by simp_all
    have k2: "running_ok k2 \<and> current_process k2 = current_process k1 \<and> sched_queue k2 = sched_queue k1"
      using upd_proc_ok [OF that(2) k1(1)] by simp
    have "?c \<noteq> 0" using that(3) k2 by (auto simp: running_ok_def)
    then have "running_ok (set_proc ?c (p\<lparr>pr_name := nm\<rparr>) k2)"
      using k2 k1(2) by (auto intro: set_proc_running)
    then show ?thesis using running_ok_more [OF k_printk_more [OF that(4)]] by simp
  qed
  show ?thesis
    using assms unfolding sys_exec_impl_def Let_def
    by (auto simp: bind_eq_Some_conv split: if_split_asm prod.split_asm intro: * running_ok_more [OF k_printk_more]
        running_ok_more [OF elf_load_segments_more])
qed

lemma sys_sbrk_ok: "sys_sbrk_impl a s = Some (Inr (v, s')) \<Longrightarrow> running_ok (kp s) \<Longrightarrow> running_ok (kp s')"
proof -
  assume h: "sys_sbrk_impl a s = Some (Inr (v, s'))" "running_ok (kp s)"
  have 1: "running_ok k'" if "upd_proc c (\<lambda>p. p\<lparr>pr_brk := pr_brk p + x\<rparr>) k = Some k'" "running_ok k" for c x k k'
    using upd_proc_ok [OF that] by simp
  have 2: "running_ok k'" if "upd_proc c (\<lambda>p. p\<lparr>pr_brk_max := pr_brk_max p + y, pr_brk := pr_brk p + x\<rparr>) k = Some k'" "running_ok k" for c x y k k'
    using upd_proc_ok [OF that] by simp
  have 3: "running_ok (k_on_vm f (kp s))" for f using running_ok_more [OF k_on_vm_more h(2)] .
  show ?thesis
    using h unfolding sys_sbrk_impl_def Let_def
    by (auto simp: bind_eq_Some_conv split: if_split_asm intro: 1 2 [OF _ 3])
qed

lemma sys_kill_ok: "sys_kill_impl a b s = Some (Inr (v, s')) \<Longrightarrow> running_ok (kp s) \<Longrightarrow> running_ok (kp s')"
proof -
  assume h: "sys_kill_impl a b s = Some (Inr (v, s'))" "running_ok (kp s)"
  have "running_ok k''" if "upd_proc c (\<lambda>p. p\<lparr>pr_state := 4, pr_exit_code := x\<rparr>) (kp s) = Some k'" "k_printk fmt args k' = Some k''"
    for c x k' k'' fmt args
    using upd_proc_ok [OF that(1) h(2)] running_ok_more [OF k_printk_more [OF that(2)]] by simp
  then show ?thesis using h unfolding sys_kill_impl_def by (auto simp: bind_eq_Some_conv split: if_split_asm)
qed

lemma sys_init_module_ok:
  "sys_init_module_impl env a b c s = Some (Inr (v, s')) \<Longrightarrow> env_ok env \<Longrightarrow> running_ok (kp s) \<Longrightarrow> running_ok (kp s')"
  by (auto simp: sys_init_module_impl_def bind_eq_Some_conv obind_Some_Inr split: if_split_asm
      dest!: module_load_binary_more [OF _ env_okD(2)] virt_put_more intro: running_ok_more)

lemma sys_delete_module_ok:
  "sys_delete_module_impl env a s = Some (Inr (v, s')) \<Longrightarrow> env_ok env \<Longrightarrow> running_ok (kp s) \<Longrightarrow> running_ok (kp s')"
  by (auto simp: sys_delete_module_impl_def bind_eq_Some_conv obind_Some_Inr split: if_split_asm
      dest!: module_unload_binary_more [OF _ env_okD(2)] intro: running_ok_more)

lemma sys_uname_ok: "sys_uname_impl a s = Some (Inr (v, s')) \<Longrightarrow> running_ok (kp s) \<Longrightarrow> running_ok (kp s')"
  by (auto simp: sys_uname_impl_def bind_eq_Some_conv split: if_split_asm dest!: user_strncpy_more intro: running_ok_more)

lemma sys_gettimeofday_ok: "sys_gettimeofday_impl env a s = Some (Inr (v, s')) \<Longrightarrow> running_ok (kp s) \<Longrightarrow> running_ok (kp s')"
  by (auto simp: sys_gettimeofday_impl_def bind_eq_Some_conv split: if_split_asm dest!: user_put32_more intro: running_ok_more)

lemma sys_nanosleep_ok: "sys_nanosleep_impl env a s = Some (Inr (v, s')) \<Longrightarrow> env_ok env \<Longrightarrow> running_ok (kp s) \<Longrightarrow> running_ok (kp s')"
  by (auto simp: sys_nanosleep_impl_def bind_eq_Some_conv dest!: halting.timer_sleep_ok [OF env_okD(1)])

lemma sys_pure_ok:
  "sys_open_impl env a s = Some (Inr (v, s')) \<Longrightarrow> kp s' = kp s" "sys_close_impl env a s = Some (Inr (v, s')) \<Longrightarrow> kp s' = kp s"
  "sys_getpid_impl s = Some (Inr (v, s')) \<Longrightarrow> kp s' = kp s" "sys_getppid_impl s = Some (Inr (v, s')) \<Longrightarrow> kp s' = kp s"
  "sys_query_module_impl s = Some (Inr (v, s')) \<Longrightarrow> kp s' = kp s"
  by (auto simp: sys_open_impl_def sys_close_impl_def sys_getpid_impl_def sys_getppid_impl_def sys_query_module_impl_def bind_eq_Some_conv
      split: if_split_asm)

lemma sys_map_ok:
  "sys_mmap_impl a b s = Some (Inr (v, s')) \<Longrightarrow> running_ok (kp s) \<Longrightarrow> running_ok (kp s')"
  "sys_munmap_impl a b s = Some (Inr (v, s')) \<Longrightarrow> running_ok (kp s) \<Longrightarrow> running_ok (kp s')"
  by (auto simp: sys_mmap_impl_def sys_munmap_impl_def Let_def split: if_split_asm intro: running_ok_more [OF k_on_vm_more])

lemmas syscall_ok = sys_exit_ok sys_fork_ok sys_read_ok sys_write_ok sys_waitpid_ok sys_exec_ok sys_sbrk_ok sys_kill_ok sys_map_ok
  sys_gettimeofday_ok sys_uname_ok sys_nanosleep_ok sys_init_module_ok sys_delete_module_ok

lemma call_syscall_ok:
  "call_syscall env f a b c d e s = Some (Inr (v, s')) \<Longrightarrow> env_ok env \<Longrightarrow> running_ok (kp s) \<Longrightarrow> running_ok (kp s')"
  by (cases f) (auto intro: syscall_ok dest: sys_pure_ok)

lemma syscall_handler_ok:
  "syscall_handler env r s = Some (Inr (r', s')) \<Longrightarrow> env_ok env \<Longrightarrow> running_ok (kp s) \<Longrightarrow> running_ok (kp s')"
  by (auto simp: syscall_handler_def Let_def obind_Some_Inr split: option.split_asm
      intro: call_syscall_ok running_ok_more [OF k_printk_more])

text \<open>What happens to the kernel: a system call, an interrupt, an exception.\<close>

inductive sys_step :: "sys_env \<Rightarrow> system \<Rightarrow> system \<Rightarrow> bool" for env where
  call: "syscall_handler env r s = Some (Inr (r', s')) \<Longrightarrow> sys_step env s s'"
| irq: "irq_handler inb r (sy_machine s) = Some m \<Longrightarrow> sys_step env s (s\<lparr>sy_machine := m\<rparr>)"
| exn: "isr_handler inb r (sy_machine s) = Some (Inr m) \<Longrightarrow> sys_step env s (s\<lparr>sy_machine := m\<rparr>)"

inductive_cases sys_step_cases: "sys_step env s s'"

text \<open>One process at a time, as far as the model goes.  Along every sequence of system calls, interrupts and
  exceptions, the process that is RUNNING is the current one.  Waits end with interrupts, and the functions of a
  module leave the processes alone.  The fields of the processes are not bytes of memory here: a call that is
  given the address of a process record to write to (the status of \<^verbatim>\<open>waitpid\<close>, the buffer of \<^verbatim>\<open>read\<close>)
  can break the invariant in the kernel, which checks no address.\<close>

theorem syscalls_one_process:
  assumes "(sys_step env)\<^sup>*\<^sup>* s s'" and "running_ok (kp s)" and "env_ok env"
    and "procs (kp s') x = Some p" and "pr_state p = PROC_RUNNING"
  shows "x = current_process (kp s')"
proof -
  have "running_ok (kp s')" using assms(1,2)
  proof (induction rule: rtranclp_induct)
    case (step y z)
    have ok: "running_ok (kp y)" using step by blast
    from step(2) show ?case
    proof (rule sys_step_cases)
      fix r r' assume "syscall_handler env r y = Some (Inr (r', z))"
      then show ?thesis by (rule syscall_handler_ok [OF _ assms(3) ok])
    next
      fix inb r m assume "z = y\<lparr>sy_machine := m\<rparr>" "irq_handler inb r (sy_machine y) = Some m"
      then show ?thesis using irq_handler_ok ok by simp
    next
      fix inb r m assume "z = y\<lparr>sy_machine := m\<rparr>" "isr_handler inb r (sy_machine y) = Some (Inr m)"
      then show ?thesis using isr_handler_ok ok by simp
    qed
  qed
  then show ?thesis using assms(4,5) by (auto simp: running_ok_def)
qed

section \<open>A concrete system\<close>

text \<open>The process at \<open>0x100D\<close> runs, its heap is empty; the other one of \<^const>\<open>pkern_example\<close> is ready.\<close>

definition sys_proc :: process where
  "sys_proc = proc_a\<lparr>pr_brk := 0x08100000, pr_brk_max := 0x08100000\<rparr>"

definition system_example :: system where
  "system_example = \<lparr>sy_machine = machine_example\<lparr>m_proc := pkern_example\<lparr>procs := (procs pkern_example)(0x100D \<mapsto> sys_proc)\<rparr>\<rparr>,
     sy_fs = fs_zero, sy_initrd = initrd_blank, sy_modules = \<lparr>module_list_head = 0, kmods = Map.empty\<rparr>,
     syscall_table = replicate 256 None\<rparr>"

lemma system_example_kp [simp]:
  "k_con (kp system_example) = console_example" "current_process (kp system_example) = 0x100D"
  "procs (kp system_example) = (procs pkern_example)(0x100D \<mapsto> sys_proc)" "k_heap (kp system_example) = heap_example"
  "proc_list (kp system_example) = 0x100D" "sched_queue (kp system_example) = 0x100D"
  "vm_of (kp system_example) = vm_large" "k_pmm (kp system_example) = phys_mgr vm_large"
  by (simp_all add: system_example_def kp_def pkern_example_def vm_of_def)

lemma system_example_path: "proc_path ((procs pkern_example)(0x100D \<mapsto> sys_proc)) 0x100D [0x100D, 0x5000]"
  by (simp add: sys_proc_def proc_a_def proc_b_def zero_process_def)

lemma system_example_running: "running_ok (kp system_example)"
  using pkern_example_running by (auto simp: running_ok_def sys_proc_def split: if_splits)

definition sys_env_example :: sys_env where
  "sys_env_example = \<lparr>env_wake = (\<lambda>_. None), env_node_addr = (\<lambda>_. 0x9000), env_node_at = (\<lambda>_. None), env_unix_time = 0,
     env_symbols = (\<lambda>_. 0), env_call = (\<lambda>_ _. None), env_stub = 0x101234\<rparr>"

definition regs_call :: "u32 \<Rightarrow> registers" where
  "regs_call n = \<lparr>rg_eax = n, rg_ebx = 0, rg_ecx = 0, rg_edx = 0, rg_esi = 0, rg_edi = 0, rg_int_no = 0, rg_err_code = 0,
     rg_eip = 0, rg_cs = 0x1B\<rparr>"

theorem syscall_dispatch_correct_witness:
  "\<exists>s1 c. syscall_init sys_env_example system_example = Some s1 \<and> gate_base (idt_entries (sy_machine s1) ! 128) = 0x101234
    \<and> syscall_handler sys_env_example (Some (regs_call 300)) (set_kp (kp system_example) s1)
      = Some (Inr (Some (regs_call (-1)), set_kp ((kp system_example)\<lparr>k_con := c\<rparr>) s1))"
proof -
  have m: "vga_ok (k_con (kp system_example))" "length (idt_entries (sy_machine system_example)) = 256"
    using console_example_ok by (simp_all, simp add: system_example_def machine_example_def)
  have n: "map_of syscall_entries (unat (rg_eax (regs_call 300))) = None" by (simp add: regs_call_def syscall_entries_def)
  from syscall_dispatch_correct [OF m, of sys_env_example] obtain s1 where s1: "syscall_init sys_env_example system_example = Some s1"
    "gate_base (idt_entries (sy_machine s1) ! 128) = env_stub sys_env_example"
    "\<forall>s2 r. syscall_table s2 = syscall_table s1 \<longrightarrow> vga_ok (k_con (kp s2)) \<longrightarrow>
         (case map_of syscall_entries (unat (rg_eax r)) of
            Some f \<Rightarrow> syscall_handler sys_env_example (Some r) s2
              = obind (call_syscall sys_env_example f (rg_ebx r) (rg_ecx r) (rg_edx r) (rg_esi r) (rg_edi r) s2)
                  (\<lambda>(v, s3). Some (Inr (Some (r\<lparr>rg_eax := v\<rparr>), s3)))
          | None \<Rightarrow> \<exists>c. syscall_handler sys_env_example (Some r) s2
              = Some (Inr (Some (r\<lparr>rg_eax := -1\<rparr>), set_kp ((kp s2)\<lparr>k_con := c\<rparr>) s2)) \<and> vga_ok c)" by blast
  from s1(3) [rule_format, of "set_kp (kp system_example) s1" "regs_call 300"] m(1) n
  obtain c where "syscall_handler sys_env_example (Some (regs_call 300)) (set_kp (kp system_example) s1)
      = Some (Inr (Some ((regs_call 300)\<lparr>rg_eax := -1\<rparr>), set_kp ((kp system_example)\<lparr>k_con := c\<rparr>) s1))" by auto
  moreover have "(regs_call 300)\<lparr>rg_eax := -1\<rparr> = regs_call (-1)" by (simp add: regs_call_def)
  ultimately show ?thesis using s1(1,2) by (auto simp: sys_env_example_def)
qed

theorem sys_sbrk_correct_witness:
  "\<exists>s' q frame. sys_sbrk_impl 5000 system_example = Some (Inr (0x08100000, s')) \<and> procs (kp s') 0x100D = Some q
    \<and> pr_brk q = 0x08101388 \<and> pr_brk_max q = 0x08102000 \<and> fresh_region 0x08100000 2 frame (kp system_example) (kp s')"
proof -
  have p: "procs (kp system_example) 0x100D = Some sys_proc" "current_process (kp system_example) = 0x100D" "(0x100D :: u32) \<noteq> 0"
    by simp_all
  have h: "heap_ok sys_proc (kp system_example)" by (auto simp: heap_ok_def sys_proc_def)
  have v: "vmm_inv (vm_of (kp system_example))" by (simp add: vm_large_inv)
  have n: "unat (pr_brk_max sys_proc) + unat (5000 :: u32) + 4096 \<le> 2 ^ 32"
    "(2 :: nat) = (if pr_brk sys_proc + 5000 \<le> pr_brk_max sys_proc then 0 else (unat (5000 :: u32) + 4095) div 4096)"
    by (simp_all add: sys_proc_def)
  have c: "2 * 2 \<le> card (free_frames (k_pmm (kp system_example)))" by (simp add: vm_large_frames)
  from sys_sbrk_correct [OF p(2,3,1) h v n c] show ?thesis by (auto simp: sys_proc_def)
qed

lemma system_example_mmap: "vmm_inv (vm_of (kp system_example))" "2 * 2 \<le> card (free_frames (k_pmm (kp system_example)))"
  by (simp_all add: vm_large_inv vm_large_frames)

theorem mmap_munmap_roundtrip_witness:
  "\<exists>s1 s2. sys_mmap_impl 0 8192 system_example = Some (Inr (0x40000000, s1)) \<and> sys_munmap_impl 0x40000000 8192 s1 = Some (Inr (0, s2))
    \<and> free_frames (k_pmm (kp s2)) = free_frames (k_pmm (kp s1))"
proof -
  have "(0 :: u32) < 8192" "unat (8192 :: u32) + 4095 < 2 ^ 32" "(2 :: nat) = (unat (8192 :: u32) + 4095) div 4096" by simp_all
  moreover have "(0x40000000 :: u32) = (if (0 :: u32) \<noteq> 0 then 0 else 0x40000000)" by simp
  ultimately show ?thesis
    using mmap_munmap_roundtrip [OF system_example_mmap(1) _ _ _ system_example_mmap(2), of 8192 "0x40000000" 0] by blast
qed

theorem mmap_unaligned_tail_witness:
  "\<exists>s1. sys_mmap_impl 0x40000800 4096 system_example = Some (Inr (0x40000800, s1))
    \<and> vmm_get_phys 0x400017FF (k_vm (kp s1)) = vmm_get_phys 0x400017FF (k_vm (kp system_example))"
proof -
  have "(0 :: nat) < 1" "(4096 :: u32) = 4096 * of_nat 1" "unat (0x40000800 :: u32) mod 4096 \<noteq> 0"
    "unat (0x40000800 :: u32) + 4096 * 1 < 2 ^ 32" "2 * 1 \<le> card (free_frames (k_pmm (kp system_example)))"
    "(0x40000800 :: u32) + 4096 - 1 = 0x400017FF"
    by (simp_all add: vm_large_frames)
  with mmap_unaligned_tail [OF system_example_mmap(1) this(1-5)] show ?thesis by simp
qed

text \<open>The two processes and the stack of the first in blocks of a heap with a free block for more.\<close>

definition fork_blocks :: "blk list" where
  "fork_blocks = [(0x1000, 184, False), (0x10C5, 8192, False), (0x30D2, 0x1F14, False), (0x4FF3, 184, False),
     (0x50B8, 20000, True)]"

definition fork_example :: system where
  "fork_example = set_kp ((kp system_example)\<lparr>
     procs := [0x100D \<mapsto> sys_proc\<lparr>pr_kernel_stack := 0x10D2\<rparr>, 0x5000 \<mapsto> proc_b],
     k_heap := heap_example\<lparr>heap_end_addr := 0x9EE5, blocks :=
      [0x1000 \<mapsto> \<lparr>hb_magic = HEAP_MAGIC, hb_size = 184, hb_free = False, hb_next = 0x10C5\<rparr>,
       0x10C5 \<mapsto> \<lparr>hb_magic = HEAP_MAGIC, hb_size = 8192, hb_free = False, hb_next = 0x30D2\<rparr>,
       0x30D2 \<mapsto> \<lparr>hb_magic = HEAP_MAGIC, hb_size = 0x1F14, hb_free = False, hb_next = 0x4FF3\<rparr>,
       0x4FF3 \<mapsto> \<lparr>hb_magic = HEAP_MAGIC, hb_size = 184, hb_free = False, hb_next = 0x50B8\<rparr>,
       0x50B8 \<mapsto> \<lparr>hb_magic = HEAP_MAGIC, hb_size = 20000, hb_free = True, hb_next = 0\<rparr>]\<rparr>\<rparr>) system_example"

lemma fork_example:
  "heap_wf (k_heap (kp fork_example)) fork_blocks" "vga_ok (k_con (kp fork_example))"
  "current_process (kp fork_example) = 0x100D"
  "procs (kp fork_example) = [0x100D \<mapsto> sys_proc\<lparr>pr_kernel_stack := 0x10D2\<rparr>, 0x5000 \<mapsto> proc_b]"
  "proc_path (procs (kp fork_example)) (proc_list (kp fork_example)) [0x100D, 0x5000]"
  "proc_path (procs (kp fork_example)) (sched_queue (kp fork_example)) [0x100D, 0x5000]"
proof -
  show "heap_wf (k_heap (kp fork_example)) fork_blocks"
    by (simp add: heap_wf_def fork_example_def fork_blocks_def heap_example_def)
  show "vga_ok (k_con (kp fork_example))" using console_example_ok by (simp add: fork_example_def)
qed (simp_all add: fork_example_def sys_proc_def proc_a_def proc_b_def zero_process_def)

theorem sys_fork_unlinked_witness:
  "\<exists>s' child. sys_fork_impl fork_example = Some (Inr (1001, s')) \<and> procs (kp s') child \<noteq> None
    \<and> sys_waitpid_impl sys_env_example 1001 0 s' = Some (Inr (-1, s'))
    \<and> (\<forall>n k. run_ticks n (kp s') = Some k \<longrightarrow> current_process k \<noteq> child)"
proof -
  let ?p = "sys_proc\<lparr>pr_kernel_stack := 0x10D2\<rparr>"
  have used: "(0x1000, 184) \<in> used_blocks fork_blocks" "(0x4FF3, 184) \<in> used_blocks fork_blocks"
    "(0x10C5, 8192) \<in> used_blocks fork_blocks" and room: "(0x50B8, 20000, True) \<in> set fork_blocks"
    by (simp_all add: fork_blocks_def)
  have "\<exists>c cz. x = c + HDR \<and> (c, cz) \<in> used_blocks fork_blocks" if "x \<in> dom (procs (kp fork_example))" for x
  proof -
    have "x = 0x1000 + HDR \<or> x = 0x4FF3 + HDR" using that by (auto simp: fork_example(4) split: if_splits)
    with used(1,2) show ?thesis by blast
  qed
  note it = sys_fork_unlinked [OF fork_example(1) room _ fork_example(2) _ _ this _ used(3) _ fork_example(5,6), of ?p]
  have "pr_pid ?p + 1000 = 1001" "\<forall>x \<in> set [0x100D, 0x5000]. pr_pid (the (procs (kp fork_example) x)) \<noteq> pr_pid ?p + 1000"
    by (simp_all add: fork_example(4) sys_proc_def proc_a_def proc_b_def zero_process_def)
  moreover have "current_process (kp fork_example) \<noteq> 0" "procs (kp fork_example) (current_process (kp fork_example)) = Some ?p"
    "pr_kernel_stack ?p = 0x10C5 + HDR" "(8389 :: u32) \<le> 20000" "(8192 :: u32) \<le> 8192"
    by (simp_all add: fork_example(3,4))
  ultimately show ?thesis using it by (metis (no_types, lifting) fun_upd_same option.distinct(1))
qed

theorem kill_waitpid_reaps_witness:
  "\<exists>s1 s2. sys_kill_impl 1 9 system_example = Some (Inr (0, s1)) \<and> sys_waitpid_impl sys_env_example 1 0 s1 = Some (Inr (1, s2))
    \<and> process_get_by_pid 1 (kp s2) = Some 0"
proof -
  have ok: "vga_ok (k_con (kp system_example))" using console_example_ok by simp
  have path: "proc_path (procs (kp system_example)) (proc_list (kp system_example)) [0x100D, 0x5000]" using system_example_path by simp
  have ps: "procs (kp system_example) 0x100D = Some sys_proc" by simp
  have uniq: "\<forall>x \<in> set [0x100D, 0x5000]. pr_pid (the (procs (kp system_example) x)) = pr_pid sys_proc \<longrightarrow> x = 0x100D"
    by (simp add: sys_proc_def proc_a_def proc_b_def zero_process_def)
  have heap: "heap_wf (k_heap (kp system_example)) [(0x1000, 64, False), (0x104D, 200, True)]" "(0x100D :: u32) = 0x1000 + HDR"
    "(0x1000, 64) \<in> used_blocks [(0x1000 :: u32, 64 :: u32, False), (0x104D, 200, True)]"
    using heap_example_wf by simp_all
  have st: "pr_kernel_stack sys_proc = 0" "pr_pid sys_proc = 1" by (simp_all add: sys_proc_def proc_a_def zero_process_def)
  from kill_waitpid_reaps [OF ok path _ _ ps uniq heap, of "{}" sys_env_example] st show ?thesis by auto
qed

theorem syscalls_one_process_witness:
  "\<exists>s'. sys_step sys_env_example system_example s' \<and> procs (kp s') (current_process (kp s')) = Some sys_proc
    \<and> (\<forall>x p. procs (kp s') x = Some p \<longrightarrow> pr_state p = PROC_RUNNING \<longrightarrow> x = 0x100D)"
proof -
  let ?s = "system_example"
  have ok: "env_ok sys_env_example" by (simp add: env_ok_def keeps_procs_def sys_env_example_def)
  let ?bad = "''Syscall: Invalid syscall number %u'' @ [CHR 0x0A]"
  have out: "NUL \<notin> set ?bad" "\<exists>out. printk_text ?bad [VA_word 300] = Some out" by simp_all
  then obtain out where o: "printk_text ?bad [VA_word 300] = Some out" by blast
  have "vga_ok (k_con (kp ?s))" using console_example_ok by simp
  from k_printk_ok [OF this out(1) o] obtain d where d: "k_printk ?bad [VA_word 300] (kp ?s) = Some ((kp ?s)\<lparr>k_con := d\<rparr>)" .
  let ?t = "set_kp ((kp ?s)\<lparr>k_con := d\<rparr>) ?s"
  have "syscall_handler sys_env_example (Some (regs_call 300)) ?s = Some (Inr (Some ((regs_call 300)\<lparr>rg_eax := -1\<rparr>), ?t))"
    using d by (simp add: syscall_handler_def regs_call_def Let_def)
  then have st: "sys_step sys_env_example ?s ?t" by (rule sys_step.call)
  then have steps: "(sys_step sys_env_example)\<^sup>*\<^sup>* ?s ?t" by blast
  have cur: "current_process (kp ?t) = 0x100D" "procs (kp ?t) 0x100D = Some sys_proc" by simp_all
  have "x = 0x100D" if "procs (kp ?t) x = Some p" "pr_state p = PROC_RUNNING" for x p
    using syscalls_one_process [OF steps system_example_running ok that] unfolding cur(1) .
  with st cur show ?thesis by (intro exI [of _ ?t]) (simp only: , blast)
qed

text \<open>A line waits in the keyboard buffer.\<close>

definition line_example :: system where
  "line_example = system_example\<lparr>sy_machine := (sy_machine system_example)\<lparr>m_keyboard :=
     \<lparr>kb_buffer = ''a'' @ CHR 0x0A # replicate 254 NUL, kb_head = 2, kb_tail = 0, shift_pressed = False, caps_lock = False\<rparr>\<rparr>\<rparr>"

lemma line_example_kb: "kb_wf (m_keyboard (sy_machine line_example))" "kb_view (m_keyboard (sy_machine line_example)) = ''a'' @ CHR 0x0A # []"
  by (simp_all add: line_example_def kb_wf_def kb_view_def ring_def upt_rec)

lemma line_example_kp: "kp line_example = kp system_example"
  by (simp add: line_example_def)

text \<open>A mapped buffer, through \<open>mmap\<close>.\<close>

lemma mapped_example:
  assumes "kp s = kp system_example"
  obtains s1 where "sys_mmap_impl 0 8192 s = Some (Inr (0x40000000, s1))" "user_mapped 0x40000000 2 (kp s1)"
    "inj_on (\<lambda>i. vmm_get_phys (0x40000000 + of_nat i) (k_vm (kp s1))) {..<2}" "k_con (kp s1) = console_example"
    "m_keyboard (sy_machine s1) = m_keyboard (sy_machine s)"
proof -
  let ?v = "\<lambda>i. 0x40000000 + of_nat i :: u32"
  have m: "vmm_inv (vm_of (kp s))" "2 * 2 \<le> card (free_frames (k_pmm (kp s)))" using assms system_example_mmap by simp_all
  have a: "(0 :: u32) < 8192" "unat (8192 :: u32) + 4095 < 2 ^ 32" "(2 :: nat) = (unat (8192 :: u32) + 4095) div 4096"
    "(0x40000000 :: u32) = (if (0 :: u32) \<noteq> 0 then 0 else 0x40000000)" by simp_all
  from sys_mmap_eq [OF m(1) a(1-3) m(2) a(4)] obtain s1 frame where
    s1: "sys_mmap_impl 0 8192 s = Some (Inr (0x40000000, s1))" "s1 = set_kp (kp s1) s"
    "fresh_region 0x40000000 2 frame (kp s) (kp s1)" by blast
  have kk: "kp s1 = k_on_vm (map_fresh 2 0x40000000 USER_PAGE) (kp s)" using s1(1) by (auto simp: sys_mmap_impl_def Let_def)
  have pg: "page_of (?v i) = 0x40000" "page_of (?v i) \<in> region 0x40000000 2" if "i < 2" for i
  proof -
    have "i = 0 \<or> i = 1" using that by auto
    then show "page_of (?v i) = 0x40000" by (auto simp: page_of_def)
    moreover have "page_of (0x40000000 + 4096 * of_nat 0) \<in> region 0x40000000 2" unfolding region_def by (intro imageI) simp
    ultimately show "page_of (?v i) \<in> region 0x40000000 2" by (simp add: page_of_def)
  qed
  have map: "user_mapped 0x40000000 2 (kp s1)"
    unfolding user_mapped_def using fresh_region_mapped [OF s1(3) m(1)] pg by simp
  have al: "frame_aligned (frame 0x40000)"
    using s1(3) pg [of 0] m(1) free_frame_aligned [of "k_pmm (kp s)" "frame 0x40000"] by (auto simp: fresh_region_def vmm_inv_def)
  have inj: "inj_on (\<lambda>i. vmm_get_phys (?v i) (k_vm (kp s1))) {..<2}"
  proof (rule inj_onI)
    fix i j assume ij: "i \<in> {..<2 :: nat}" "j \<in> {..<2}" "vmm_get_phys (?v i) (k_vm (kp s1)) = vmm_get_phys (?v j) (k_vm (kp s1))"
    then have "frame 0x40000 OR (?v i AND 0xFFF) = frame 0x40000 OR (?v j AND 0xFFF)"
      using s1(3) pg by (simp add: fresh_region_def)
    from frame_or_offset(2) [OF al al this] have "?v i AND 0xFFF = ?v j AND 0xFFF" .
    moreover have "i = 0 \<or> i = 1" "j = 0 \<or> j = 1" using ij(1,2) by auto
    ultimately show "i = j" by auto
  qed
  show thesis
  proof (rule that [OF s1(1) map inj])
    show "k_con (kp s1) = console_example" using kk assms by simp
    show "m_keyboard (sy_machine s1) = m_keyboard (sy_machine s)" by (subst s1(2)) (simp add: set_kp_def)
  qed
qed

theorem sys_write_correct_witness:
  "\<exists>s1 c. sys_mmap_impl 0 8192 system_example = Some (Inr (0x40000000, s1))
    \<and> sys_write_impl 1 0x40000000 2 s1 = Some (Inr (2, set_kp ((kp s1)\<lparr>k_con := c\<rparr>) s1)) \<and> vga_ok c"
proof -
  from mapped_example [OF refl] obtain s1 where s1: "sys_mmap_impl 0 8192 system_example = Some (Inr (0x40000000, s1))"
    "user_mapped 0x40000000 2 (kp s1)" "k_con (kp s1) = console_example" by metis
  have "vga_ok (k_con (kp s1))" "(0x40000000 :: u32) \<noteq> 0 \<longrightarrow> (1 :: u32) = 1 \<or> (1 :: u32) = 2 \<longrightarrow> user_mapped 0x40000000 (unat (2 :: u32)) (kp s1)"
    using s1 console_example_ok by simp_all
  from sys_write_correct [OF this] s1(1) show ?thesis by auto
qed

theorem sys_read_line_witness:
  "\<exists>s1 s2. sys_mmap_impl 0 8192 line_example = Some (Inr (0x40000000, s1))
    \<and> sys_read_impl sys_env_example 0 0x40000000 80 s1 = Some (Inr (2, s2)) \<and> user_text 0x40000000 2 (kp s2) = ''a'' @ [CHR 0x0A]"
proof -
  from mapped_example [OF line_example_kp] obtain s1 where s1: "sys_mmap_impl 0 8192 line_example = Some (Inr (0x40000000, s1))"
    "user_mapped 0x40000000 2 (kp s1)" "inj_on (\<lambda>i. vmm_get_phys (0x40000000 + of_nat i) (k_vm (kp s1))) {..<2}"
    "m_keyboard (sy_machine s1) = m_keyboard (sy_machine line_example)" by metis
  have kb: "kb_wf (m_keyboard (sy_machine s1))" "kb_view (m_keyboard (sy_machine s1)) = ''a'' @ CHR 0x0A # []"
    using line_example_kb s1(4) by simp_all
  have l: "length ''a'' + 1 = (2 :: nat)" by simp
  have c: "line_end CHR 0x0A" "\<forall>x \<in> set ''a''. x \<noteq> NUL \<and> \<not> line_end x" "length ''a'' < unat (80 :: u32)" "(0x40000000 :: u32) \<noteq> 0"
    by (simp_all add: line_end_def)
  have m: "user_mapped 0x40000000 (length ''a'' + 1) (kp s1)"
    "inj_on (\<lambda>i. vmm_get_phys (0x40000000 + of_nat i) (k_vm (kp s1))) {..<length ''a'' + 1}"
    unfolding l by (fact s1(2), fact s1(3))
  from sys_read_line [OF kb c m, of sys_env_example, unfolded l] s1(1) show ?thesis by auto
qed

end
