(* ===== verification/Vesa.thy ===== *)
theory Vesa
  imports Module_Loader
begin

unbundle bit_operations_syntax

text \<open>
  The framebuffer driver, \<^verbatim>\<open>drivers/vesa.c\<close>.  The framebuffer is part of the memory that the kernel
  addresses directly, the store \<open>bytes\<close> of the heap, so that drawing is a function on this store.  Coordinates that the source
  keeps in \<^verbatim>\<open>int\<close> are integers; where a computation leaves the range of \<^verbatim>\<open>int\<close>, it has no value.
\<close>

section \<open>The driver\<close>

record vesa =
  vesa_width :: u32
  vesa_height :: u32
  vesa_bpp :: u32
  vesa_pitch :: u32
  vesa_framebuffer :: u32
  vesa_enabled :: bool

definition vesa_initial :: vesa where
  "vesa_initial = \<lparr>vesa_width = 800, vesa_height = 600, vesa_bpp = 32, vesa_pitch = 3200, vesa_framebuffer = 0, vesa_enabled = False\<rparr>"

text \<open>The glyphs of the table; all other entries are zero.\<close>

definition font8x8_basic :: "(char \<times> u8 list) list" where
  "font8x8_basic =
     [(CHR ''A'', [0x18, 0x3C, 0x66, 0x76, 0x7E, 0x66, 0x66, 0x00]),
      (CHR ''B'', [0x7C, 0x66, 0x66, 0x7C, 0x66, 0x66, 0x7C, 0x00]),
      (CHR ''C'', [0x3C, 0x66, 0x06, 0x06, 0x06, 0x66, 0x3C, 0x00]),
      (CHR ''D'', [0x78, 0x6C, 0x66, 0x66, 0x66, 0x6C, 0x78, 0x00]),
      (CHR ''E'', [0x7E, 0x06, 0x06, 0x3E, 0x06, 0x06, 0x7E, 0x00]),
      (CHR ''F'', [0x7E, 0x06, 0x06, 0x3E, 0x06, 0x06, 0x06, 0x00]),
      (CHR ''G'', [0x3C, 0x66, 0x06, 0x76, 0x66, 0x66, 0x3C, 0x00]),
      (CHR ''H'', [0x66, 0x66, 0x66, 0x7E, 0x66, 0x66, 0x66, 0x00]),
      (CHR ''I'', [0x3E, 0x18, 0x18, 0x18, 0x18, 0x18, 0x3E, 0x00]),
      (CHR ''J'', [0x1C, 0x0C, 0x0C, 0x0C, 0x0C, 0x6C, 0x38, 0x00]),
      (CHR ''K'', [0x66, 0x6C, 0x78, 0x30, 0x78, 0x6C, 0x66, 0x00]),
      (CHR ''L'', [0x06, 0x06, 0x06, 0x06, 0x06, 0x06, 0x7E, 0x00]),
      (CHR ''M'', [0x63, 0x77, 0x7F, 0x6B, 0x63, 0x63, 0x63, 0x00]),
      (CHR ''N'', [0x66, 0x76, 0x7E, 0x7E, 0x6E, 0x66, 0x66, 0x00]),
      (CHR ''O'', [0x3C, 0x66, 0x66, 0x66, 0x66, 0x66, 0x3C, 0x00]),
      (CHR ''P'', [0x7C, 0x66, 0x66, 0x7C, 0x06, 0x06, 0x06, 0x00]),
      (CHR ''Q'', [0x3C, 0x66, 0x66, 0x66, 0x66, 0x3C, 0x50, 0x00]),
      (CHR ''R'', [0x7C, 0x66, 0x66, 0x7C, 0x6C, 0x66, 0x66, 0x00]),
      (CHR ''S'', [0x3C, 0x66, 0x06, 0x3C, 0x60, 0x66, 0x3C, 0x00]),
      (CHR ''T'', [0x7E, 0x18, 0x18, 0x18, 0x18, 0x18, 0x18, 0x00]),
      (CHR ''U'', [0x66, 0x66, 0x66, 0x66, 0x66, 0x66, 0x3C, 0x00]),
      (CHR ''V'', [0x66, 0x66, 0x66, 0x66, 0x66, 0x3C, 0x18, 0x00]),
      (CHR ''W'', [0x63, 0x63, 0x63, 0x6B, 0x7F, 0x77, 0x63, 0x00]),
      (CHR ''X'', [0x66, 0x66, 0x3C, 0x18, 0x3C, 0x66, 0x66, 0x00]),
      (CHR ''Y'', [0x66, 0x66, 0x66, 0x3C, 0x18, 0x18, 0x18, 0x00]),
      (CHR ''Z'', [0x7E, 0x60, 0x30, 0x18, 0x0C, 0x06, 0x7E, 0x00]),
      (CHR ''0'', [0x3C, 0x66, 0x6E, 0x76, 0x66, 0x66, 0x3C, 0x00]),
      (CHR ''1'', [0x18, 0x18, 0x38, 0x18, 0x18, 0x18, 0x7E, 0x00]),
      (CHR ''2'', [0x3C, 0x66, 0x60, 0x3C, 0x06, 0x06, 0x7E, 0x00]),
      (CHR ''3'', [0x3C, 0x66, 0x60, 0x3C, 0x60, 0x66, 0x3C, 0x00]),
      (CHR ''4'', [0x60, 0x66, 0x66, 0x7E, 0x60, 0x60, 0x60, 0x00]),
      (CHR ''5'', [0x7E, 0x06, 0x3C, 0x60, 0x60, 0x66, 0x3C, 0x00]),
      (CHR ''6'', [0x3C, 0x66, 0x06, 0x3C, 0x66, 0x66, 0x3C, 0x00]),
      (CHR ''7'', [0x7E, 0x60, 0x30, 0x18, 0x0C, 0x0C, 0x0C, 0x00]),
      (CHR ''8'', [0x3C, 0x66, 0x66, 0x3C, 0x66, 0x66, 0x3C, 0x00]),
      (CHR ''9'', [0x3C, 0x66, 0x66, 0x7C, 0x60, 0x66, 0x3C, 0x00]),
      (CHR '':'', [0x00, 0x18, 0x18, 0x00, 0x18, 0x18, 0x00, 0x00]),
      (CHR ''-'', [0x00, 0x00, 0x00, 0x7E, 0x00, 0x00, 0x00, 0x00]),
      (CHR ''!'', [0x18, 0x18, 0x18, 0x18, 0x18, 0x00, 0x18, 0x00]),
      (CHR '' '', [0x00, 0x00, 0x00, 0x00, 0x00, 0x00, 0x00, 0x00])]"

text \<open>The table has 128 rows: an access beyond them has no value.\<close>

definition font_glyph :: "u8 \<Rightarrow> u8 list option" where
  "font_glyph uc =
     (if uc < 128 then Some (case map_of font8x8_basic (char_of (unat uc)) of None \<Rightarrow> replicate 8 0 | Some g \<Rightarrow> g) else None)"

text \<open>The fields of the Multiboot information and of the mode information that are used.\<close>

record vbe_info =
  vi_flags :: u32
  vi_mode_info :: u32

definition mode_of :: "u32 \<Rightarrow> (u32 \<Rightarrow> u8) \<Rightarrow> vesa" where
  "mode_of a m = \<lparr>vesa_width = ucast (get16 m (a + 18)), vesa_height = ucast (get16 m (a + 20)), vesa_bpp = ucast (m (a + 25)),
     vesa_pitch = ucast (get16 m (a + 16)), vesa_framebuffer = get32 m (a + 40), vesa_enabled = True\<rparr>"

definition vesa_init :: "vbe_info option \<Rightarrow> vesa \<Rightarrow> 'a kern_scheme \<Rightarrow> (vesa \<times> 'a kern_scheme) outcome" where
  "vesa_init mb v k =
     (let not_available = (''VESA: Not available (VGA text mode fallback)'' @ [CHR 0x0A])
      in case mb of
        None \<Rightarrow> obind (no_panic (k_printk not_available [] k)) (\<lambda>k. Some (Inr (v\<lparr>vesa_enabled := False\<rparr>, k)))
      | Some mb \<Rightarrow>
          if vi_flags mb AND push_bit 11 1 \<noteq> 0 \<and> vi_mode_info mb \<noteq> 0
          then let v = mode_of (vi_mode_info mb) (bytes (k_heap k));
                   fb_size = vesa_pitch v * vesa_height v;
                   fb_pages = (fb_size + PAGE_SIZE - 1) div PAGE_SIZE;
                   k = k_on_vm (map_identity (unat fb_pages) (vesa_framebuffer v) (VMM_PRESENT OR VMM_WRITABLE)) k
               in obind (no_panic (k_printk (''VESA: %ux%u %ubpp framebuffer at 0x%x'' @ [CHR 0x0A])
                    [VA_word (vesa_width v), VA_word (vesa_height v), VA_word (vesa_bpp v), VA_word (vesa_framebuffer v)] k))
                    (\<lambda>k. Some (Inr (v, k)))
          else let sz = vesa_width v * vesa_height v * 4
               in obind (k_kmalloc sz k) (\<lambda>(a, k).
                  if a \<noteq> 0
                  then let k = on_bytes (store_fill (unat sz) a 0) k
                       in obind (no_panic (k_printk (''VESA: Software Canvas %ux%u 32bpp allocated at 0x%x'' @ [CHR 0x0A])
                            [VA_word (vesa_width v), VA_word (vesa_height v), VA_word a] k))
                            (\<lambda>k. Some (Inr (v\<lparr>vesa_framebuffer := a, vesa_enabled := True\<rparr>, k)))
                  else obind (no_panic (k_printk not_available [] k))
                         (\<lambda>k. Some (Inr (v\<lparr>vesa_framebuffer := 0, vesa_enabled := False\<rparr>, k)))))"

definition vesa_is_enabled :: "vesa \<Rightarrow> int" where
  "vesa_is_enabled v = (if vesa_enabled v then 1 else 0)"

definition vesa_get_width :: "vesa \<Rightarrow> u32" where "vesa_get_width v = vesa_width v"

definition vesa_get_height :: "vesa \<Rightarrow> u32" where "vesa_get_height v = vesa_height v"

definition vesa_get_bpp :: "vesa \<Rightarrow> u32" where "vesa_get_bpp v = vesa_bpp v"

section \<open>Pixels\<close>

definition vesa_putpixel :: "vesa \<Rightarrow> u32 \<Rightarrow> u32 \<Rightarrow> u32 \<Rightarrow> (u32 \<Rightarrow> u8) \<Rightarrow> (u32 \<Rightarrow> u8)" where
  "vesa_putpixel v x y color m =
     (if \<not> vesa_enabled v \<or> vesa_framebuffer v = 0 then m
      else if x \<ge> vesa_width v \<or> y \<ge> vesa_height v then m
      else if vesa_bpp v = 32 then put32 (vesa_framebuffer v + y * vesa_pitch v + 4 * x) color m
      else if vesa_bpp v = 24
      then let fb = vesa_framebuffer v + y * vesa_pitch v + x * 3
           in m(fb := ucast (color AND 0xFF), fb + 1 := ucast (drop_bit 8 color AND 0xFF), fb + 2 := ucast (drop_bit 16 color AND 0xFF))
      else m)"

definition vesa_getpixel :: "vesa \<Rightarrow> u32 \<Rightarrow> u32 \<Rightarrow> (u32 \<Rightarrow> u8) \<Rightarrow> u32" where
  "vesa_getpixel v x y m =
     (if \<not> vesa_enabled v \<or> vesa_framebuffer v = 0 then 0
      else if x \<ge> vesa_width v \<or> y \<ge> vesa_height v then 0
      else if vesa_bpp v = 32 then get32 m (vesa_framebuffer v + y * vesa_pitch v + 4 * x)
      else 0)"

text \<open>\<^verbatim>\<open>for (i = 0; i < n; i++)\<close> over 32-bit counters.\<close>

definition for_u32 :: "u32 \<Rightarrow> (u32 \<Rightarrow> 's \<Rightarrow> 's) \<Rightarrow> 's \<Rightarrow> 's" where
  "for_u32 n body s = fold (\<lambda>i. body (of_nat i)) [0..<unat n] s"

definition vesa_clear :: "vesa \<Rightarrow> u32 \<Rightarrow> (u32 \<Rightarrow> u8) \<Rightarrow> (u32 \<Rightarrow> u8)" where
  "vesa_clear v color m =
     (if \<not> vesa_enabled v then m
      else for_u32 (vesa_height v) (\<lambda>y. for_u32 (vesa_width v) (\<lambda>x. vesa_putpixel v x y color)) m)"

definition vesa_fill_rect :: "vesa \<Rightarrow> u32 \<Rightarrow> u32 \<Rightarrow> u32 \<Rightarrow> u32 \<Rightarrow> u32 \<Rightarrow> (u32 \<Rightarrow> u8) \<Rightarrow> (u32 \<Rightarrow> u8)" where
  "vesa_fill_rect v x y w h color m =
     for_u32 h (\<lambda>i. for_u32 w (\<lambda>j. vesa_putpixel v (x + j) (y + i) color)) m"

definition vesa_draw_rect :: "vesa \<Rightarrow> u32 \<Rightarrow> u32 \<Rightarrow> u32 \<Rightarrow> u32 \<Rightarrow> u32 \<Rightarrow> (u32 \<Rightarrow> u8) \<Rightarrow> (u32 \<Rightarrow> u8)" where
  "vesa_draw_rect v x y w h color m =
     for_u32 h (\<lambda>i m. vesa_putpixel v (x + w - 1) (y + i) color (vesa_putpixel v x (y + i) color m))
       (for_u32 w (\<lambda>i m. vesa_putpixel v (x + i) (y + h - 1) color (vesa_putpixel v (x + i) y color m)) m)"

section \<open>Lines and circles\<close>

text \<open>A value of type \<^verbatim>\<open>int\<close>.\<close>

definition int32 :: "int \<Rightarrow> int option" where
  "int32 i = (if - (2 ^ 31) \<le> i \<and> i < 2 ^ 31 then Some i else None)"

definition put_int :: "vesa \<Rightarrow> int \<Rightarrow> int \<Rightarrow> u32 \<Rightarrow> (u32 \<Rightarrow> u8) \<Rightarrow> (u32 \<Rightarrow> u8)" where
  "put_int v x y = vesa_putpixel v (of_int x) (of_int y)"

text \<open>The loop of \<open>vesa_draw_line\<close>.\<close>

partial_function (option) line_loop :: "vesa \<Rightarrow> u32 \<Rightarrow> int \<Rightarrow> int \<Rightarrow> int \<Rightarrow> int \<Rightarrow> int \<Rightarrow> int \<Rightarrow> int \<Rightarrow> int \<Rightarrow> int \<Rightarrow> (u32 \<Rightarrow> u8) \<Rightarrow> (u32 \<Rightarrow> u8) option" where
  "line_loop v color x2 y2 dx dy sx sy x1 y1 err m =
     (let m = put_int v x1 y1 color m
      in if x1 = x2 \<and> y1 = y2 then Some m
         else do {
           e2 \<leftarrow> int32 (2 * err);
           (err, x1) \<leftarrow> (if e2 > - dy then do { err \<leftarrow> int32 (err - dy); x1 \<leftarrow> int32 (x1 + sx); Some (err, x1) } else Some (err, x1));
           (err, y1) \<leftarrow> (if e2 < dx then do { err \<leftarrow> int32 (err + dx); y1 \<leftarrow> int32 (y1 + sy); Some (err, y1) } else Some (err, y1));
           line_loop v color x2 y2 dx dy sx sy x1 y1 err m
         })"

definition vesa_draw_line :: "vesa \<Rightarrow> int \<Rightarrow> int \<Rightarrow> int \<Rightarrow> int \<Rightarrow> u32 \<Rightarrow> (u32 \<Rightarrow> u8) \<Rightarrow> (u32 \<Rightarrow> u8) option" where
  "vesa_draw_line v x1 y1 x2 y2 color m = do {
     dx \<leftarrow> int32 (if x2 > x1 then x2 - x1 else x1 - x2);
     dy \<leftarrow> int32 (if y2 > y1 then y2 - y1 else y1 - y2);
     let sx = (if x1 < x2 then 1 else -1);
     let sy = (if y1 < y2 then 1 else -1);
     err \<leftarrow> int32 (dx - dy);
     line_loop v color x2 y2 dx dy sx sy x1 y1 err m
   }"

definition circle_points :: "int \<Rightarrow> int \<Rightarrow> int \<Rightarrow> int \<Rightarrow> (int \<times> int) list" where
  "circle_points xc yc x y =
     [(xc + x, yc + y), (xc - x, yc + y), (xc + x, yc - y), (xc - x, yc - y),
      (xc + y, yc + x), (xc - y, yc + x), (xc + y, yc - x), (xc - y, yc - x)]"

partial_function (option) circle_loop :: "vesa \<Rightarrow> u32 \<Rightarrow> int \<Rightarrow> int \<Rightarrow> int \<Rightarrow> int \<Rightarrow> int \<Rightarrow> (u32 \<Rightarrow> u8) \<Rightarrow> (u32 \<Rightarrow> u8) option" where
  "circle_loop v color xc yc x y d m =
     (if y \<ge> x
      then if list_all (\<lambda>(a, b). int32 a \<noteq> None \<and> int32 b \<noteq> None) (circle_points xc yc x y)
      then let m = fold (\<lambda>(a, b). put_int v a b color) (circle_points xc yc x y) m
      in do {
        x \<leftarrow> int32 (x + 1);
        (y, d) \<leftarrow> (if d > 0
                  then do { y \<leftarrow> int32 (y - 1); t \<leftarrow> int32 (x - y); t \<leftarrow> int32 (4 * t); t \<leftarrow> int32 (d + t); d \<leftarrow> int32 (t + 10); Some (y, d) }
                  else do { t \<leftarrow> int32 (4 * x); t \<leftarrow> int32 (d + t); d \<leftarrow> int32 (t + 6); Some (y, d) });
        circle_loop v color xc yc x y d m
      }
      else None
      else Some m)"

definition vesa_draw_circle :: "vesa \<Rightarrow> int \<Rightarrow> int \<Rightarrow> int \<Rightarrow> u32 \<Rightarrow> (u32 \<Rightarrow> u8) \<Rightarrow> (u32 \<Rightarrow> u8) option" where
  "vesa_draw_circle v xc yc r color m = do {
     t \<leftarrow> int32 (2 * r);
     d \<leftarrow> int32 (3 - t);
     circle_loop v color xc yc 0 r d m
   }"

section \<open>Text\<close>

definition vesa_draw_char :: "vesa \<Rightarrow> u32 \<Rightarrow> u32 \<Rightarrow> char \<Rightarrow> u32 \<Rightarrow> u32 \<Rightarrow> (u32 \<Rightarrow> u8) \<Rightarrow> (u32 \<Rightarrow> u8) option" where
  "vesa_draw_char v x y c fg bg m = do {
     glyph \<leftarrow> font_glyph (char_byte c);
     Some (fold (\<lambda>i. fold (\<lambda>j m.
             if bit (glyph ! i) (7 - j) then vesa_putpixel v (x + of_nat j) (y + of_nat i) fg m
             else if bg \<noteq> 0xFFFFFFFF then vesa_putpixel v (x + of_nat j) (y + of_nat i) bg m
             else m) [0..<8]) [0..<8] m)
   }"

fun draw_string_buf :: "vesa \<Rightarrow> u32 \<Rightarrow> u32 \<Rightarrow> char list \<Rightarrow> u32 \<Rightarrow> u32 \<Rightarrow> (u32 \<Rightarrow> u8) \<Rightarrow> (u32 \<Rightarrow> u8) option" where
  "draw_string_buf v cur_x y [] fg bg m = None"
| "draw_string_buf v cur_x y (c # cs) fg bg m =
     (if c = NUL then Some m
      else do { m \<leftarrow> vesa_draw_char v cur_x y c fg bg m; draw_string_buf v (cur_x + 8) y cs fg bg m })"

definition vesa_draw_string :: "vesa \<Rightarrow> u32 \<Rightarrow> u32 \<Rightarrow> cptr \<Rightarrow> u32 \<Rightarrow> u32 \<Rightarrow> (u32 \<Rightarrow> u8) \<Rightarrow> (u32 \<Rightarrow> u8) option" where
  "vesa_draw_string v x y str fg bg m =
     (case str of None \<Rightarrow> Some m | Some cs \<Rightarrow> draw_string_buf v x y cs fg bg m)"

section \<open>The demonstration\<close>

definition demo_gradient :: "vesa \<Rightarrow> (u32 \<Rightarrow> u8) \<Rightarrow> (u32 \<Rightarrow> u8)" where
  "demo_gradient v = fold (\<lambda>x.
     let red = of_nat x * 255 div 750; green = 128; blue = 255 - red;
         color = push_bit 16 red OR push_bit 8 green OR blue
     in fold (\<lambda>y. vesa_putpixel v (of_nat x) (of_nat y) color) [50..<80]) [50..<750]"

definition vesa_test_demo :: "vesa \<Rightarrow> 'a kern_scheme \<Rightarrow> 'a kern_scheme option" where
  "vesa_test_demo v k =
     (if \<not> vesa_enabled v then k_printk (''VESA: Canvas not enabled'' @ [CHR 0x0A]) [] k
      else do {
        let m = demo_gradient v (vesa_clear v 0x000B1E (bytes (k_heap k)));
        let m = vesa_fill_rect v 100 150 120 80 0x00FF88 m;
        let m = vesa_draw_rect v 250 150 120 80 0xFFCC00 m;
        m \<leftarrow> vesa_draw_circle v 450 190 40 0xFF0055 m;
        m \<leftarrow> vesa_draw_line v 550 150 700 230 0x00FFFF m;
        m \<leftarrow> vesa_draw_string v 100 300 (Some (''DIONNEX MONOLITHIC KERNEL VESA DEMO'' @ [NUL])) 0xFFFFFF 0xFFFFFFFF m;
        m \<leftarrow> vesa_draw_string v 100 320 (Some (''FRAMEBUFFER GRAPHICS TEST OK!'' @ [NUL])) 0x00FF00 0xFFFFFFFF m;
        k_printk (''VESA: Test graphics rendered to framebuffer'' @ [CHR 0x0A]) [] (on_bytes (\<lambda>_. m) k)
      })"

section \<open>Properties of pixels\<close>

text \<open>A linear mode of 32 bits per pixel whose lines do not overlap and whose end is in the address space.\<close>

definition canvas_ok :: "vesa \<Rightarrow> bool" where
  "canvas_ok v \<longleftrightarrow> vesa_enabled v \<and> vesa_framebuffer v \<noteq> 0 \<and> vesa_bpp v = 32 \<and> 4 * unat (vesa_width v) \<le> unat (vesa_pitch v)
     \<and> unat (vesa_framebuffer v) + unat (vesa_pitch v) * unat (vesa_height v) \<le> 2 ^ 32"

definition pixel_addr :: "vesa \<Rightarrow> u32 \<Rightarrow> u32 \<Rightarrow> u32" where
  "pixel_addr v x y = vesa_framebuffer v + y * vesa_pitch v + 4 * x"

definition on_canvas :: "vesa \<Rightarrow> u32 \<Rightarrow> u32 \<Rightarrow> bool" where
  "on_canvas v x y \<longleftrightarrow> x < vesa_width v \<and> y < vesa_height v"

lemma put_pixel_eq:
  "canvas_ok v \<Longrightarrow> vesa_putpixel v x y c m = (if on_canvas v x y then put32 (pixel_addr v x y) c m else m)"
  "canvas_ok v \<Longrightarrow> vesa_getpixel v x y m = (if on_canvas v x y then get32 m (pixel_addr v x y) else 0)"
  by (auto simp: vesa_putpixel_def vesa_getpixel_def canvas_ok_def on_canvas_def pixel_addr_def not_le)

lemma unat_pixel_addr:
  assumes "canvas_ok v" and "on_canvas v x y"
  shows "unat (pixel_addr v x y) = unat (vesa_framebuffer v) + unat y * unat (vesa_pitch v) + 4 * unat x"
    and "4 * unat x + 4 \<le> unat (vesa_pitch v)"
    and "unat (pixel_addr v x y) + 4 \<le> unat (vesa_framebuffer v) + unat (vesa_pitch v) * unat (vesa_height v)"
proof -
  have x: "unat x < unat (vesa_width v)" and y: "unat y < unat (vesa_height v)" using assms(2) by (simp_all add: on_canvas_def word_less_nat_alt)
  show p: "4 * unat x + 4 \<le> unat (vesa_pitch v)" using x assms(1) by (simp add: canvas_ok_def)
  have "Suc (unat y) * unat (vesa_pitch v) \<le> unat (vesa_height v) * unat (vesa_pitch v)" using y by (intro mult_right_mono) simp_all
  then have le: "unat y * unat (vesa_pitch v) + 4 * unat x + 4 \<le> unat (vesa_pitch v) * unat (vesa_height v)" using p by (simp add: mult.commute)
  then have b: "unat (vesa_framebuffer v) + unat y * unat (vesa_pitch v) + 4 * unat x + 4 \<le> 2 ^ 32" using assms(1) by (simp add: canvas_ok_def)
  then have "unat (y * vesa_pitch v) = unat y * unat (vesa_pitch v)" "unat (4 * x) = 4 * unat x" by (simp_all add: unat_word_ariths)
  then show e: "unat (pixel_addr v x y) = unat (vesa_framebuffer v) + unat y * unat (vesa_pitch v) + 4 * unat x"
    using b by (simp add: pixel_addr_def unat_add_small)
  show "unat (pixel_addr v x y) + 4 \<le> unat (vesa_framebuffer v) + unat (vesa_pitch v) * unat (vesa_height v)"
    unfolding e using le by simp
qed

lemma word_place_unat: "unat a + 4 \<le> 2 ^ 32 \<Longrightarrow> p \<in> word_place a \<Longrightarrow> unat a \<le> unat p \<and> unat p < unat a + 4"
  by (auto simp: word_place_def unat_add_small)

lemma pixels_disjoint:
  assumes "canvas_ok v" and "on_canvas v x y" and "on_canvas v x' y'" and "(x, y) \<noteq> (x', y')"
  shows "word_place (pixel_addr v x y) \<inter> word_place (pixel_addr v x' y') = {}"
proof -
  let ?p = "unat (vesa_pitch v)"
  note a = unat_pixel_addr [OF assms(1,2)] and b = unat_pixel_addr [OF assms(1,3)]
  have ends: "unat (pixel_addr v x y) + 4 \<le> 2 ^ 32" "unat (pixel_addr v x' y') + 4 \<le> 2 ^ 32"
    using a(3) b(3) assms(1) by (simp_all add: canvas_ok_def)
  have step: "j * ?p + 4 * c + 4 \<le> k * ?p" if "j < k" "4 * c + 4 \<le> ?p" for j k c
  proof -
    have "Suc j * ?p \<le> k * ?p" using that(1) by (intro mult_right_mono) simp_all
    then show ?thesis using that(2) by simp
  qed
  consider "unat y < unat y'" | "unat y' < unat y" | "y = y'" "x \<noteq> x'"
    using assms(4) by (metis linorder_neqE_nat word_unat_eq_iff)
  then have "unat (pixel_addr v x y) + 4 \<le> unat (pixel_addr v x' y') \<or> unat (pixel_addr v x' y') + 4 \<le> unat (pixel_addr v x y)"
  proof cases
    case 1
    then show ?thesis using step [OF 1 a(2)] unfolding a(1) b(1) by simp
  next
    case 2
    then show ?thesis using step [OF 2 b(2)] unfolding a(1) b(1) by simp
  next
    case 3
    then have "unat x < unat x' \<or> unat x' < unat x" by (metis linorder_neqE_nat word_unat_eq_iff)
    then show ?thesis using 3(1) unfolding a(1) b(1) by auto
  qed
  then show ?thesis using word_place_unat [OF ends(1)] word_place_unat [OF ends(2)] by fastforce
qed

lemma getpixel_putpixel:
  assumes "canvas_ok v"
  shows "vesa_getpixel v a b (vesa_putpixel v x y c m)
    = (if a = x \<and> b = y \<and> on_canvas v x y then c else vesa_getpixel v a b m)"
proof (cases "on_canvas v x y \<and> on_canvas v a b \<and> (a, b) \<noteq> (x, y)")
  case True
  then have "word_place (pixel_addr v a b) \<inter> word_place (pixel_addr v x y) = {}" using pixels_disjoint [OF assms] by simp
  then have "get32 (put32 (pixel_addr v x y) c m) (pixel_addr v a b) = get32 m (pixel_addr v a b)"
    by (intro get32_same put32_other) auto
  then show ?thesis using True assms by (auto simp: put_pixel_eq)
qed (use assms in \<open>auto simp: put_pixel_eq get32_put32\<close>)

lemma putpixel_outside:
  assumes "canvas_ok v"
    and "unat p < unat (vesa_framebuffer v) \<or> unat (vesa_framebuffer v) + unat (vesa_pitch v) * unat (vesa_height v) \<le> unat p"
  shows "vesa_putpixel v x y c m p = m p"
proof (cases "on_canvas v x y")
  case True
  note a = unat_pixel_addr [OF assms(1) True]
  have "unat (pixel_addr v x y) + 4 \<le> 2 ^ 32" using a(3) assms(1) by (simp add: canvas_ok_def)
  then have "p \<notin> word_place (pixel_addr v x y)"
    using word_place_unat [of "pixel_addr v x y" p] a(1,3) assms(2) by auto
  then show ?thesis using True assms(1) by (simp add: put_pixel_eq put32_other)
qed (use assms in \<open>simp add: put_pixel_eq\<close>)

text \<open>Modes of 24 bits per pixel: three bytes from \<open>place24\<close> on.\<close>

definition mode_fits :: "vesa \<Rightarrow> bool" where
  "mode_fits v \<longleftrightarrow> vesa_enabled v \<and> vesa_framebuffer v \<noteq> 0 \<and> unat (vesa_bpp v) div 8 * unat (vesa_width v) \<le> unat (vesa_pitch v)
     \<and> unat (vesa_framebuffer v) + unat (vesa_pitch v) * unat (vesa_height v) \<le> 2 ^ 32"

definition place24 :: "vesa \<Rightarrow> u32 \<Rightarrow> u32 \<Rightarrow> u32" where
  "place24 v x y = vesa_framebuffer v + y * vesa_pitch v + x * 3"

lemma mode_fits_canvas: "mode_fits v \<Longrightarrow> vesa_bpp v = 32 \<Longrightarrow> canvas_ok v"
  by (simp add: mode_fits_def canvas_ok_def)

lemma unat_place24:
  assumes "mode_fits v" and "vesa_bpp v = 24" and "on_canvas v x y"
  shows "unat (place24 v x y) = unat (vesa_framebuffer v) + unat y * unat (vesa_pitch v) + 3 * unat x"
    and "3 * unat x + 3 \<le> unat (vesa_pitch v)"
    and "unat (place24 v x y) + 3 \<le> unat (vesa_framebuffer v) + unat (vesa_pitch v) * unat (vesa_height v)"
proof -
  have x: "unat x < unat (vesa_width v)" and y: "unat y < unat (vesa_height v)" using assms(3) by (simp_all add: on_canvas_def word_less_nat_alt)
  have w: "3 * unat (vesa_width v) \<le> unat (vesa_pitch v)" using assms(1,2) by (simp add: mode_fits_def)
  show p: "3 * unat x + 3 \<le> unat (vesa_pitch v)" using x w by simp
  have "Suc (unat y) * unat (vesa_pitch v) \<le> unat (vesa_height v) * unat (vesa_pitch v)" using y by (intro mult_right_mono) simp_all
  then have le: "unat y * unat (vesa_pitch v) + 3 * unat x + 3 \<le> unat (vesa_pitch v) * unat (vesa_height v)" using p by (simp add: mult.commute)
  then have b: "unat (vesa_framebuffer v) + unat y * unat (vesa_pitch v) + 3 * unat x + 3 \<le> 2 ^ 32" using assms(1) by (simp add: mode_fits_def)
  then have "unat (y * vesa_pitch v) = unat y * unat (vesa_pitch v)" "unat (x * 3) = 3 * unat x" by (simp_all add: unat_word_ariths)
  then show e: "unat (place24 v x y) = unat (vesa_framebuffer v) + unat y * unat (vesa_pitch v) + 3 * unat x"
    using b by (simp add: place24_def unat_add_small)
  show "unat (place24 v x y) + 3 \<le> unat (vesa_framebuffer v) + unat (vesa_pitch v) * unat (vesa_height v)"
    unfolding e using le by simp
qed

lemma places24_disjoint:
  assumes "mode_fits v" and "vesa_bpp v = 24" and "on_canvas v x y" and "on_canvas v x' y'" and "(x, y) \<noteq> (x', y')"
  shows "unat (place24 v x y) + 3 \<le> unat (place24 v x' y') \<or> unat (place24 v x' y') + 3 \<le> unat (place24 v x y)"
proof -
  let ?p = "unat (vesa_pitch v)"
  note a = unat_place24 [OF assms(1-3)] and b = unat_place24 [OF assms(1,2,4)]
  have step: "j * ?p + 3 * c + 3 \<le> k * ?p" if "j < k" "3 * c + 3 \<le> ?p" for j k c
  proof -
    have "Suc j * ?p \<le> k * ?p" using that(1) by (intro mult_right_mono) simp_all
    then show ?thesis using that(2) by simp
  qed
  consider "unat y < unat y'" | "unat y' < unat y" | "y = y'" "x \<noteq> x'"
    using assms(5) by (metis linorder_neqE_nat word_unat_eq_iff)
  then show ?thesis
  proof cases
    case 1
    then show ?thesis using step [OF 1 a(2)] unfolding a(1) b(1) by simp
  next
    case 2
    then show ?thesis using step [OF 2 b(2)] unfolding a(1) b(1) by simp
  next
    case 3
    then have "unat x < unat x' \<or> unat x' < unat x" by (metis linorder_neqE_nat word_unat_eq_iff)
    then show ?thesis using 3(1) unfolding a(1) b(1) by auto
  qed
qed

lemma put24_eq:
  assumes "mode_fits v" and "vesa_bpp v = 24" and "on_canvas v x y"
  shows "i < 3 \<Longrightarrow> vesa_putpixel v x y c m (place24 v x y + of_nat i) = ucast (drop_bit (8 * i) c)"
    and "unat q < unat (place24 v x y) \<or> unat (place24 v x y) + 3 \<le> unat q \<Longrightarrow> vesa_putpixel v x y c m q = m q"
proof -
  let ?a = "place24 v x y"
  have cut: "(ucast (w AND 0xFF) :: u8) = ucast w" for w :: u32
  proof -
    have m: "(0xFF :: u32) = mask 8" by (simp add: mask_eq_exp_minus_1)
    show ?thesis unfolding m by (rule bit_word_eqI) (auto simp: bit_simps)
  qed
  have put: "vesa_putpixel v x y c m = m(?a := ucast c, ?a + 1 := ucast (drop_bit 8 c), ?a + 2 := ucast (drop_bit 16 c))"
    using assms by (auto simp: vesa_putpixel_def mode_fits_def on_canvas_def place24_def Let_def cut not_le)
  have end_ok: "unat ?a + 3 \<le> 2 ^ 32" using unat_place24(3) [OF assms] assms(1) by (simp add: mode_fits_def)
  have u: "unat (?a + 1) = unat ?a + 1" "unat (?a + 2) = unat ?a + 2"
    using unat_Suc_small [of ?a 1] unat_Suc_small [of ?a 2] end_ok by simp_all
  show "vesa_putpixel v x y c m (?a + of_nat i) = ucast (drop_bit (8 * i) c)" if "i < 3"
  proof -
    consider "i = 0" | "i = 1" | "i = 2" using \<open>i < 3\<close> by linarith
    then show ?thesis by cases (simp_all add: put)
  qed
  show "vesa_putpixel v x y c m q = m q" if "unat q < unat ?a \<or> unat ?a + 3 \<le> unat q"
  proof -
    have "q \<noteq> ?a" "q \<noteq> ?a + 1" "q \<noteq> ?a + 2" using that u by (auto simp: word_unat_eq_iff)
    then show ?thesis by (simp add: put)
  qed
qed

lemma put24_pixel:
  assumes "mode_fits v" and "vesa_bpp v = 24" and "on_canvas v a b" and "i < 3"
  shows "vesa_putpixel v x y c m (place24 v a b + of_nat i)
    = (if a = x \<and> b = y then ucast (drop_bit (8 * i) c) else m (place24 v a b + of_nat i))"
proof (cases "(a, b) = (x, y)")
  case True
  then show ?thesis using put24_eq(1) [OF assms(1-4)] by simp
next
  case other: False
  show ?thesis
  proof (cases "on_canvas v x y")
    case True
    have "unat (place24 v a b) + 3 \<le> 2 ^ 32" using unat_place24(3) [OF assms(1-3)] assms(1) by (simp add: mode_fits_def)
    then have "unat (place24 v a b + of_nat i) = unat (place24 v a b) + i"
      using unat_Suc_small [of "place24 v a b" i] assms(4) by simp
    then show ?thesis
      using put24_eq(2) [OF assms(1,2) True] places24_disjoint [OF assms(1-3) True other] other assms(4) by auto
  next
    case False
    then show ?thesis using other by (auto simp: vesa_putpixel_def on_canvas_def not_less)
  qed
qed

lemma putpixel_outside_fits:
  assumes "mode_fits v"
    and "unat p < unat (vesa_framebuffer v) \<or> unat (vesa_framebuffer v) + unat (vesa_pitch v) * unat (vesa_height v) \<le> unat p"
  shows "vesa_putpixel v x y c m p = m p"
proof (cases "on_canvas v x y")
  case True
  consider "vesa_bpp v = 32" | "vesa_bpp v = 24" | "vesa_bpp v \<noteq> 32" "vesa_bpp v \<noteq> 24" by blast
  then show ?thesis
  proof cases
    case 1
    then show ?thesis using putpixel_outside [OF mode_fits_canvas [OF assms(1) 1] assms(2)] by simp
  next
    case 2
    note a = unat_place24 [OF assms(1) 2 True]
    show ?thesis using put24_eq(2) [OF assms(1) 2 True, of p] a(1,3) assms(2) by auto
  qed (simp add: vesa_putpixel_def)
next
  case False
  then show ?thesis by (auto simp: vesa_putpixel_def on_canvas_def not_less)
qed

text \<open>C29: pixels, in every mode whose lines hold its pixels and whose end is in the address space.  In a mode of 32
  bits per pixel a pixel written reads back, and every other pixel is unchanged.  In a mode of 24 bits the
  three bytes of the pixel become the blue, green and red of the colour and those of every other pixel are unchanged, but
  \<open>vesa_getpixel\<close> does not serve this mode: it answers 0 for every pixel.  In any other depth nothing is written and
  every pixel reads as 0.  A pixel outside the mode is ignored and reads as 0, and no byte outside the framebuffer changes.\<close>

theorem vesa_pixel_roundtrip:
  assumes "mode_fits v"
  shows "vesa_getpixel v a b (vesa_putpixel v x y c m)
      = (if vesa_bpp v \<noteq> 32 then 0 else if a = x \<and> b = y \<and> on_canvas v x y then c else vesa_getpixel v a b m)
    \<and> (vesa_bpp v = 24 \<longrightarrow> on_canvas v a b \<longrightarrow> (\<forall>i < 3. vesa_putpixel v x y c m (place24 v a b + of_nat i)
          = (if a = x \<and> b = y then ucast (drop_bit (8 * i) c) else m (place24 v a b + of_nat i))))
    \<and> (vesa_bpp v \<notin> {24, 32} \<or> \<not> on_canvas v x y \<longrightarrow> vesa_putpixel v x y c m = m)
    \<and> (\<not> on_canvas v a b \<longrightarrow> vesa_getpixel v a b m = 0)
    \<and> (unat p < unat (vesa_framebuffer v) \<or> unat (vesa_framebuffer v) + unat (vesa_pitch v) * unat (vesa_height v) \<le> unat p
        \<longrightarrow> vesa_putpixel v x y c m p = m p)"
proof (intro conjI impI)
  show "vesa_getpixel v a b (vesa_putpixel v x y c m)
      = (if vesa_bpp v \<noteq> 32 then 0 else if a = x \<and> b = y \<and> on_canvas v x y then c else vesa_getpixel v a b m)"
    using getpixel_putpixel [OF mode_fits_canvas [OF assms]] by (simp add: vesa_getpixel_def)
  show "\<forall>i < 3. vesa_putpixel v x y c m (place24 v a b + of_nat i)
      = (if a = x \<and> b = y then ucast (drop_bit (8 * i) c) else m (place24 v a b + of_nat i))"
    if "vesa_bpp v = 24" "on_canvas v a b"
    using put24_pixel [OF assms that] by blast
  show "vesa_putpixel v x y c m = m" if "vesa_bpp v \<notin> {24, 32} \<or> \<not> on_canvas v x y"
    using that by (auto simp: vesa_putpixel_def on_canvas_def not_less)
  show "vesa_getpixel v a b m = 0" if "\<not> on_canvas v a b"
    using that by (auto simp: vesa_getpixel_def on_canvas_def not_less)
qed (rule putpixel_outside_fits [OF assms])

section \<open>Painting\<close>

definition paint :: "vesa \<Rightarrow> u32 \<Rightarrow> (u32 \<times> u32) list \<Rightarrow> (u32 \<Rightarrow> u8) \<Rightarrow> (u32 \<Rightarrow> u8)" where
  "paint v c ps = fold (\<lambda>(x, y). vesa_putpixel v x y c) ps"

lemma paint_simps [simp]:
  "paint v c [] m = m" "paint v c ((x, y) # ps) m = paint v c ps (vesa_putpixel v x y c m)"
  "paint v c (ps @ qs) m = paint v c qs (paint v c ps m)"
  by (simp_all add: paint_def)

lemma getpixel_paint:
  "canvas_ok v \<Longrightarrow> vesa_getpixel v a b (paint v c ps m) = (if (a, b) \<in> set ps \<and> on_canvas v a b then c else vesa_getpixel v a b m)"
proof (induction ps arbitrary: m)
  case (Cons q ps)
  then show ?case by (cases q) (simp add: getpixel_putpixel, blast)
qed simp

lemma paint_concat: "fold (\<lambda>i. paint v c (f i)) is m = paint v c (concat (map f is)) m"
  by (induction "is" arbitrary: m) auto

definition rect_points :: "u32 \<Rightarrow> u32 \<Rightarrow> u32 \<Rightarrow> u32 \<Rightarrow> (u32 \<times> u32) list" where
  "rect_points x y w h = concat (map (\<lambda>i. map (\<lambda>j. (x + of_nat j, y + of_nat i)) [0..<unat w]) [0..<unat h])"

lemma fill_rect_paint: "vesa_fill_rect v x y w h c = paint v c (rect_points x y w h)"
proof -
  have "fold (\<lambda>j. vesa_putpixel v (x + of_nat j) (y + of_nat i) c) js = paint v c (map (\<lambda>j. (x + of_nat j, y + of_nat i)) js)" for i js
    by (simp add: paint_def fold_map comp_def)
  then show ?thesis
    unfolding rect_points_def vesa_fill_rect_def for_u32_def
    by (intro ext) (subst paint_concat [symmetric], simp add: fun_eq_iff [symmetric])
qed

lemma rect_points_mem:
  assumes "unat x + unat w \<le> 2 ^ 32" and "unat y + unat h \<le> 2 ^ 32"
  shows "(a, b) \<in> set (rect_points x y w h) \<longleftrightarrow>
    unat x \<le> unat a \<and> unat a < unat x + unat w \<and> unat y \<le> unat b \<and> unat b < unat y + unat h"
proof -
  have line: "(\<exists>j < unat n. a = s + of_nat j) \<longleftrightarrow> unat s \<le> unat a \<and> unat a < unat s + unat n"
    if "unat s + unat n \<le> 2 ^ 32" for s n a :: u32
  proof
    assume "\<exists>j < unat n. a = s + of_nat j"
    then obtain j where j: "j < unat n" "a = s + of_nat j" by blast
    have "unat (of_nat j :: u32) = j" using j(1) u32_unat_lt [of n] by (simp add: unat_of_nat take_bit_nat_eq_self)
    then have "unat a = unat s + j" using j that by (simp add: unat_add_small)
    then show "unat s \<le> unat a \<and> unat a < unat s + unat n" using j(1) by simp
  next
    assume h: "unat s \<le> unat a \<and> unat a < unat s + unat n"
    then have "a = s + of_nat (unat a - unat s)" by (simp add: of_nat_diff)
    then show "\<exists>j < unat n. a = s + of_nat j" using h by (intro exI [of _ "unat a - unat s"]) auto
  qed
  have "set (rect_points x y w h) = (\<Union>i < unat h. (\<lambda>j. (x + of_nat j, y + of_nat i)) ` {..<unat w})"
    by (simp add: rect_points_def atLeast0LessThan)
  then have "(a, b) \<in> set (rect_points x y w h) \<longleftrightarrow> (\<exists>j < unat w. a = x + of_nat j) \<and> (\<exists>i < unat h. b = y + of_nat i)"
    by (auto simp: image_iff)
  then show ?thesis using line [OF assms(1)] line [OF assms(2)] by simp
qed

text \<open>A filled rectangle, clipped at the borders of the mode, has the colour, and every pixel outside keeps its own.\<close>

theorem vesa_fill_rect_correct:
  assumes "canvas_ok v" and "unat x + unat w \<le> 2 ^ 32" and "unat y + unat h \<le> 2 ^ 32"
  shows "vesa_getpixel v a b (vesa_fill_rect v x y w h c m)
    = (if on_canvas v a b \<and> unat x \<le> unat a \<and> unat a < unat x + unat w \<and> unat y \<le> unat b \<and> unat b < unat y + unat h
       then c else vesa_getpixel v a b m)"
  using getpixel_paint [OF assms(1)] rect_points_mem [OF assms(2,3)] by (auto simp: fill_rect_paint)

text \<open>After \<open>vesa_clear\<close> every pixel has the colour.\<close>

theorem vesa_clear_correct:
  assumes "canvas_ok v" and "on_canvas v a b"
  shows "vesa_getpixel v a b (vesa_clear v c m) = c"
proof -
  have "vesa_clear v c m = vesa_fill_rect v 0 0 (vesa_width v) (vesa_height v) c m"
    using assms(1) by (simp add: vesa_clear_def vesa_fill_rect_def canvas_ok_def)
  moreover have "unat a < unat (vesa_width v)" "unat b < unat (vesa_height v)" using assms(2) by (simp_all add: on_canvas_def word_less_nat_alt)
  moreover have "unat (0 :: u32) + unat (vesa_width v) \<le> 2 ^ 32" "unat (0 :: u32) + unat (vesa_height v) \<le> 2 ^ 32"
    using u32_unat_lt [of "vesa_width v"] u32_unat_lt [of "vesa_height v"] by simp_all
  ultimately show ?thesis using assms by (simp add: fill_rect_paint getpixel_paint rect_points_mem)
qed

section \<open>Lines\<close>

text \<open>
  Along the loop \<open>i\<close> and \<open>j\<close> steps have been made in the two directions, and \<open>err\<close> is \<open>D + dx - dy\<close> with
  \<open>D = dx * j - dy * i\<close>, the deviation from the ideal line.  One turn never passes the end point, always moves, and keeps
  the deviation below half a pixel.
\<close>

lemma bresenham_step:
  fixes dx dy i j D err :: int
  assumes ij: "0 \<le> i" "i \<le> dx" "0 \<le> j" "j \<le> dy" "\<not> (i = dx \<and> j = dy)"
    and D: "D = dx * j - dy * i" and err: "err = D + dx - dy" and dev: "2 * \<bar>D\<bar> \<le> max dx dy"
  shows "2 * err > - dy \<Longrightarrow> i < dx" and "2 * err < dx \<Longrightarrow> j < dy" and "2 * err > - dy \<or> 2 * err < dx"
    and "2 * \<bar>D - (if 2 * err > - dy then dy else 0) + (if 2 * err < dx then dx else 0)\<bar> \<le> max dx dy"
proof -
  show "i < dx" if "2 * err > - dy"
  proof (rule ccontr)
    assume "\<not> i < dx"
    then have i: "i = dx" "1 \<le> dy - j" using ij by auto
    have "D = - (dx * (dy - j))" unfolding D i(1) by (simp add: algebra_simps)
    moreover have "dx * 1 \<le> dx * (dy - j)" using i ij by (intro mult_left_mono) auto
    ultimately show False using that ij unfolding err by simp
  qed
  show "j < dy" if "2 * err < dx"
  proof (rule ccontr)
    assume "\<not> j < dy"
    then have j: "j = dy" "1 \<le> dx - i" using ij by auto
    have "D = dy * (dx - i)" unfolding D j(1) by (simp add: algebra_simps)
    moreover have "dy * 1 \<le> dy * (dx - i)" using j ij by (intro mult_left_mono) auto
    ultimately show False using that ij unfolding err by simp
  qed
  show "2 * err > - dy \<or> 2 * err < dx" using ij by auto
  show "2 * \<bar>D - (if 2 * err > - dy then dy else 0) + (if 2 * err < dx then dx else 0)\<bar> \<le> max dx dy"
  proof (cases "2 * err > - dy")
    case X: True
    show ?thesis
    proof (cases "2 * err < dx")
      case True
      then show ?thesis using X dev ij(1-4) unfolding err by (auto simp: max_def abs_if split: if_splits)
    next
      case False
      then show ?thesis using X dev ij(1-4) unfolding err by (auto simp: max_def abs_if split: if_splits)
    qed
  next
    case False
    then show ?thesis using dev ij unfolding err by (auto simp: max_def abs_if split: if_splits)
  qed
qed

definition near_line :: "int \<Rightarrow> int \<Rightarrow> int \<Rightarrow> int \<Rightarrow> int \<times> int \<Rightarrow> bool" where
  "near_line x1 y1 dx dy = (\<lambda>(x, y). \<bar>x - x1\<bar> \<le> dx \<and> \<bar>y - y1\<bar> \<le> dy \<and> 2 * \<bar>dx * \<bar>y - y1\<bar> - dy * \<bar>x - x1\<bar>\<bar> \<le> max dx dy)"

definition neighbours :: "int \<times> int \<Rightarrow> int \<times> int \<Rightarrow> bool" where
  "neighbours = (\<lambda>(x, y) (x', y'). (x, y) \<noteq> (x', y') \<and> \<bar>x' - x\<bar> \<le> 1 \<and> \<bar>y' - y\<bar> \<le> 1)"

definition paint_int :: "vesa \<Rightarrow> u32 \<Rightarrow> (int \<times> int) list \<Rightarrow> (u32 \<Rightarrow> u8) \<Rightarrow> (u32 \<Rightarrow> u8)" where
  "paint_int v c ps = fold (\<lambda>(x, y). put_int v x y c) ps"

lemma line_loop_correct:
  fixes dx dy i j xs ys sx sy err :: int
  assumes "0 \<le> i" "i \<le> dx" "0 \<le> j" "j \<le> dy" and "dx \<le> 2 ^ 28" "dy \<le> 2 ^ 28" and s: "sx = 1 \<or> sx = -1" "sy = 1 \<or> sy = -1"
    and "\<bar>xs\<bar> \<le> 2 ^ 28" "\<bar>ys\<bar> \<le> 2 ^ 28"
    and "err = dx * j - dy * i + dx - dy" and "2 * \<bar>dx * j - dy * i\<bar> \<le> max dx dy"
  shows "\<exists>ps. line_loop v c (xs + sx * dx) (ys + sy * dy) dx dy sx sy (xs + sx * i) (ys + sy * j) err m = Some (paint_int v c ps m)
    \<and> ps \<noteq> [] \<and> hd ps = (xs + sx * i, ys + sy * j) \<and> last ps = (xs + sx * dx, ys + sy * dy)
    \<and> successively neighbours ps \<and> list_all (near_line xs ys dx dy) ps \<and> int (length ps) \<le> (dx - i) + (dy - j) + 1"
  using assms
proof (induction "nat (dx - i + (dy - j))" arbitrary: i j err m rule: less_induct)
  case less
  let ?p = "(xs + sx * i, ys + sy * j)"
  let ?m = "put_int v (xs + sx * i) (ys + sy * j) c m"
  have near: "near_line xs ys dx dy ?p" using less.prems by (auto simp: near_line_def)
  have fin: "xs + sx * i = xs + sx * dx \<and> ys + sy * j = ys + sy * dy \<longleftrightarrow> i = dx \<and> j = dy" using s by auto
  show ?case
  proof (cases "i = dx \<and> j = dy")
    case True
    then show ?thesis
      by (subst line_loop.simps) (use near in \<open>auto simp: Let_def paint_int_def intro!: exI [of _ "[?p]"]\<close>)
  next
    case False
    let ?D = "dx * j - dy * i"
    let ?X = "2 * err > - dy" and ?Y = "2 * err < dx"
    note st = bresenham_step [OF less.prems(1-4) False refl less.prems(11,12)]
    define i' where "i' = (if ?X then i + 1 else i)"
    define j' where "j' = (if ?Y then j + 1 else j)"
    define err' where "err' = err - (if ?X then dy else 0) + (if ?Y then dx else 0)"
    have b: "0 \<le> i'" "i' \<le> dx" "0 \<le> j'" "j' \<le> dy" using less.prems(1-4) st(1,2) by (auto simp: i'_def j'_def)
    have D': "dx * j' - dy * i' = ?D - (if ?X then dy else 0) + (if ?Y then dx else 0)"
      by (auto simp: i'_def j'_def algebra_simps)
    have e': "err' = dx * j' - dy * i' + dx - dy" unfolding D' err'_def less.prems(11) by simp
    have dev: "2 * \<bar>dx * j' - dy * i'\<bar> \<le> max dx dy" unfolding D' using st(4) .
    have dec: "nat (dx - i' + (dy - j')) < nat (dx - i + (dy - j))" and dec': "(dx - i') + (dy - j') + 1 \<le> (dx - i) + (dy - j)"
      using b st(3) less.prems(1-4) by (auto simp: i'_def j'_def)
    have "max dx dy \<le> 2 ^ 28" using less.prems(5,6) by simp
    then have "2 * \<bar>?D\<bar> \<le> 2 ^ 28" using less.prems(12) by linarith
    then have small: "\<bar>err\<bar> \<le> 2 ^ 29"
      using less.prems(1-6) unfolding less.prems(11) by (auto simp: abs_if split: if_splits)
    have coord: "\<bar>sx * a\<bar> \<le> 2 ^ 28" if "0 \<le> a" "a \<le> dx" for a using that s(1) less.prems(5) by auto
    have coord': "\<bar>sy * a\<bar> \<le> 2 ^ 28" if "0 \<le> a" "a \<le> dy" for a using that s(2) less.prems(6) by auto
    have ov: "int32 (2 * err) = Some (2 * err)"
      "?X \<Longrightarrow> int32 (err - dy) = Some (err - dy)" "?X \<Longrightarrow> int32 (xs + sx * i + sx) = Some (xs + sx * i + sx)"
      "?Y \<Longrightarrow> int32 (err - (if ?X then dy else 0) + dx) = Some (err - (if ?X then dy else 0) + dx)"
      "?Y \<Longrightarrow> int32 (ys + sy * j + sy) = Some (ys + sy * j + sy)"
      using small less.prems(1-6,9,10) st(1,2) coord [of i] coord' [of j] s by (auto simp: int32_def)
    have step: "line_loop v c (xs + sx * dx) (ys + sy * dy) dx dy sx sy (xs + sx * i) (ys + sy * j) err m
        = line_loop v c (xs + sx * dx) (ys + sy * dy) dx dy sx sy (xs + sx * i') (ys + sy * j') err' ?m"
      by (subst line_loop.simps)
        (use ov False fin in \<open>auto simp: Let_def i'_def j'_def err'_def algebra_simps\<close>)
    from less.hyps [OF dec b less.prems(5-10) e' dev, of ?m] obtain ps where
      ps: "line_loop v c (xs + sx * dx) (ys + sy * dy) dx dy sx sy (xs + sx * i') (ys + sy * j') err' ?m = Some (paint_int v c ps ?m)"
      "ps \<noteq> []" "hd ps = (xs + sx * i', ys + sy * j')" "last ps = (xs + sx * dx, ys + sy * dy)"
      "successively neighbours ps" "list_all (near_line xs ys dx dy) ps" "int (length ps) \<le> (dx - i') + (dy - j') + 1" by blast
    have nb: "neighbours ?p (hd ps)"
      unfolding ps(3) using s st(3) by (auto simp: neighbours_def i'_def j'_def algebra_simps)
    have "successively neighbours (?p # ps)" using ps(2,5) nb by (cases ps) auto
    then show ?thesis
      using ps near dec' step by (intro exI [of _ "?p # ps"]) (auto simp: paint_int_def)
  qed
qed

text \<open>C30: Drawing a line.  For coordinates up to \<open>2 ^ 27\<close> the loop ends, without overflow, after at most \<open>dx + dy + 1\<close> points.
  What is drawn is a connected chain of points from the first end to the second, each at most half
  a pixel off the line, measured along the minor axis.\<close>

theorem vesa_draw_line_correct:
  assumes "\<bar>x1\<bar> \<le> 2 ^ 27" and "\<bar>y1\<bar> \<le> 2 ^ 27" and "\<bar>x2\<bar> \<le> 2 ^ 27" and "\<bar>y2\<bar> \<le> 2 ^ 27"
  shows "\<exists>ps. vesa_draw_line v x1 y1 x2 y2 c m = Some (paint_int v c ps m)
    \<and> ps \<noteq> [] \<and> hd ps = (x1, y1) \<and> last ps = (x2, y2) \<and> successively neighbours ps
    \<and> list_all (near_line x1 y1 \<bar>x2 - x1\<bar> \<bar>y2 - y1\<bar>) ps \<and> int (length ps) \<le> \<bar>x2 - x1\<bar> + \<bar>y2 - y1\<bar> + 1"
proof -
  define dx where "dx = \<bar>x2 - x1\<bar>"
  define dy where "dy = \<bar>y2 - y1\<bar>"
  define sx :: int where "sx = (if x1 < x2 then 1 else -1)"
  define sy :: int where "sy = (if y1 < y2 then 1 else -1)"
  have s: "sx = 1 \<or> sx = -1" "sy = 1 \<or> sy = -1" by (auto simp: sx_def sy_def)
  have ends: "x1 + sx * dx = x2" "y1 + sy * dy = y2" by (auto simp: sx_def sy_def dx_def dy_def)
  have b: "0 \<le> dx" "0 \<le> dy" "dx \<le> 2 ^ 28" "dy \<le> 2 ^ 28" "\<bar>x1\<bar> \<le> 2 ^ 28" "\<bar>y1\<bar> \<le> 2 ^ 28" using assms by (auto simp: dx_def dy_def)
  have "(if x2 > x1 then x2 - x1 else x1 - x2) = dx" "(if y2 > y1 then y2 - y1 else y1 - y2) = dy" by (auto simp: dx_def dy_def)
  moreover have "int32 dx = Some dx" "int32 dy = Some dy" "int32 (dx - dy) = Some (dx - dy)" using b by (auto simp: int32_def)
  ultimately have run: "vesa_draw_line v x1 y1 x2 y2 c m = line_loop v c x2 y2 dx dy sx sy x1 y1 (dx - dy) m"
    by (simp add: vesa_draw_line_def sx_def sy_def)
  have "2 * \<bar>dx * 0 - dy * 0\<bar> \<le> max dx dy" using b by (simp add: le_max_iff_disj)
  with line_loop_correct [of 0 dx 0 dy sx sy x1 y1 "dx - dy" v c m] b s obtain ps where
    "line_loop v c x2 y2 dx dy sx sy x1 y1 (dx - dy) m = Some (paint_int v c ps m)" "ps \<noteq> []" "hd ps = (x1, y1)" "last ps = (x2, y2)"
    "successively neighbours ps" "list_all (near_line x1 y1 dx dy) ps" "int (length ps) \<le> dx + dy + 1"
    unfolding ends by auto
  then show ?thesis unfolding run dx_def [symmetric] dy_def [symmetric] by blast
qed

section \<open>Circles\<close>

lemma paint_int_append: "paint_int v c (ps @ qs) m = paint_int v c qs (paint_int v c ps m)"
  by (simp add: paint_int_def)

lemma circle_loop_correct:
  fixes xc yc x y d r :: int
  assumes "0 \<le> x" "y \<le> r" "0 \<le> r" "r \<le> 2 ^ 24" "\<bar>xc\<bar> \<le> 2 ^ 27" "\<bar>yc\<bar> \<le> 2 ^ 27" "- (4 * r + 20) \<le> d" "d \<le> 4 * r + 20 + 18 * x"
  shows "\<exists>qs. circle_loop v c xc yc x y d m = Some (paint_int v c (concat (map (\<lambda>(x, y). circle_points xc yc x y) qs)) m)
    \<and> map fst qs = map (\<lambda>i. x + int i) [0..<length qs] \<and> (\<forall>(a, b) \<in> set qs. x \<le> a \<and> a \<le> b \<and> b \<le> y)
    \<and> successively (\<lambda>(a, b) (a', b'). b' = b \<or> b' = b - 1) qs \<and> (x \<le> y \<longrightarrow> qs \<noteq> [] \<and> hd qs = (x, y))"
  using assms
proof (induction "nat (y + 1 - x)" arbitrary: x y d m rule: less_induct)
  case less
  show ?case
  proof (cases "y \<ge> x")
    case False
    then show ?thesis
      by (intro exI [of _ "[]"]) (subst circle_loop.simps, simp add: paint_int_def)
  next
    case True
    let ?m = "paint_int v c (circle_points xc yc x y) m"
    have in_int: "int32 a = Some a" if "\<bar>a\<bar> \<le> 2 ^ 30" for a :: int using that by (simp add: int32_def abs_le_iff)
    have pts: "list_all (\<lambda>(a, b). int32 a \<noteq> None \<and> int32 b \<noteq> None) (circle_points xc yc x y)"
      using less.prems True in_int by (simp add: circle_points_def abs_le_iff)
    define y' where "y' = (if d > 0 then y - 1 else y)"
    define d' where "d' = (if d > 0 then d + 4 * (x + 1 - y') + 10 else d + 4 * (x + 1) + 6)"
    have d': "- (4 * r + 20) \<le> d'" "d' \<le> 4 * r + 20 + 18 * (x + 1)" using less.prems True by (auto simp: d'_def y'_def)
    have xr: "x \<le> r" using True less.prems by simp
    have ov: "int32 (x + 1) = Some (x + 1)" "int32 (y - 1) = Some (y - 1)" "int32 (x + 1 - (y - 1)) = Some (x + 1 - (y - 1))"
      "int32 (4 * (x + 1 - (y - 1))) = Some (4 * (x + 1 - (y - 1)))" "int32 (d + 4 * (x + 1 - (y - 1))) = Some (d + 4 * (x + 1 - (y - 1)))"
      "int32 (4 * (x + 1)) = Some (4 * (x + 1))" "int32 (d + 4 * (x + 1)) = Some (d + 4 * (x + 1))"
      "d > 0 \<Longrightarrow> int32 (d + 4 * (x + 1 - (y - 1)) + 10) = Some d'" "\<not> d > 0 \<Longrightarrow> int32 (d + 4 * (x + 1) + 6) = Some d'"
      using less.prems True d' xr by (auto simp: d'_def y'_def abs_le_iff intro!: in_int)
    have step: "circle_loop v c xc yc x y d m = circle_loop v c xc yc (x + 1) y' d' ?m"
      by (subst circle_loop.simps) (use True pts ov in \<open>auto simp: Let_def y'_def paint_int_def\<close>)
    have dec: "nat (y' + 1 - (x + 1)) < nat (y + 1 - x)" and b: "0 \<le> x + 1" "y' \<le> r"
      using less.prems True by (auto simp: y'_def)
    from less.hyps [OF dec b less.prems(3-6) d', of ?m] obtain qs where
      qs: "circle_loop v c xc yc (x + 1) y' d' ?m = Some (paint_int v c (concat (map (\<lambda>(x, y). circle_points xc yc x y) qs)) ?m)"
      "map fst qs = map (\<lambda>i. x + 1 + int i) [0..<length qs]" "\<forall>(a, b) \<in> set qs. x + 1 \<le> a \<and> a \<le> b \<and> b \<le> y'"
      "successively (\<lambda>(a, b) (a', b'). b' = b \<or> b' = b - 1) qs" "x + 1 \<le> y' \<longrightarrow> qs \<noteq> [] \<and> hd qs = (x + 1, y')" by blast
    let ?qs = "(x, y) # qs"
    have "circle_loop v c xc yc x y d m = Some (paint_int v c (concat (map (\<lambda>(x, y). circle_points xc yc x y) ?qs)) m)"
      unfolding step qs(1) by (simp add: paint_int_append)
    moreover have "map fst ?qs = map (\<lambda>i. x + int i) [0..<length ?qs]"
      unfolding length_Cons upt_conv_Cons [OF zero_less_Suc] list.map(2) qs(2) map_Suc_upt [symmetric] by (simp add: qs(2) comp_def algebra_simps)
    moreover have "\<forall>(a, b) \<in> set ?qs. x \<le> a \<and> a \<le> b \<and> b \<le> y" using qs(3) True by (auto simp: y'_def split: if_splits)
    moreover have "successively (\<lambda>(a, b) (a', b'). b' = b \<or> b' = b - 1) ?qs"
    proof (cases qs)
      case (Cons q qs')
      then have "x + 1 \<le> y'" using qs(3) by auto
      then have "q = (x + 1, y')" using qs(5) Cons by simp
      then show ?thesis using qs(4) Cons by (auto simp: y'_def)
    qed simp
    ultimately show ?thesis by (intro exI [of _ ?qs]) simp
  qed
qed

text \<open>Drawing a circle.  For a radius up to \<open>2 ^ 24\<close> the loop ends without overflow after at most \<open>r + 1\<close> turns; turn \<open>i\<close> draws
  the eight mirror images of a point \<open>(i, y)\<close> of the octant \<open>i \<le> y \<le> r\<close>, from \<open>(0, r)\<close> on, and \<open>y\<close> falls by at most 1 from turn to turn.\<close>

theorem vesa_draw_circle_correct:
  assumes "0 \<le> r" and "r \<le> 2 ^ 24" and "\<bar>xc\<bar> \<le> 2 ^ 27" and "\<bar>yc\<bar> \<le> 2 ^ 27"
  shows "\<exists>qs. vesa_draw_circle v xc yc r c m = Some (paint_int v c (concat (map (\<lambda>(x, y). circle_points xc yc x y) qs)) m)
    \<and> map fst qs = map int [0..<length qs] \<and> qs \<noteq> [] \<and> hd qs = (0, r) \<and> int (length qs) \<le> r + 1
    \<and> (\<forall>(x, y) \<in> set qs. x \<le> y \<and> y \<le> r) \<and> successively (\<lambda>(a, b) (a', b'). b' = b \<or> b' = b - 1) qs"
proof -
  have "int32 (2 * r) = Some (2 * r)" "int32 (3 - 2 * r) = Some (3 - 2 * r)" using assms by (auto simp: int32_def)
  then have run: "vesa_draw_circle v xc yc r c m = circle_loop v c xc yc 0 r (3 - 2 * r) m" by (simp add: vesa_draw_circle_def)
  from circle_loop_correct [of 0 r r xc yc "3 - 2 * r" v c m] assms obtain qs where
    qs: "circle_loop v c xc yc 0 r (3 - 2 * r) m = Some (paint_int v c (concat (map (\<lambda>(x, y). circle_points xc yc x y) qs)) m)"
    "map fst qs = map int [0..<length qs]" "\<forall>(a, b) \<in> set qs. 0 \<le> a \<and> a \<le> b \<and> b \<le> r"
    "successively (\<lambda>(a, b) (a', b'). b' = b \<or> b' = b - 1) qs" "qs \<noteq> []" "hd qs = (0, r)" by auto
  let ?l = "length qs - 1"
  have "?l < length qs" using qs(5) by simp
  then have "fst (qs ! ?l) = int ?l" "qs ! ?l \<in> set qs" using arg_cong [OF qs(2), of "\<lambda>l. l ! ?l"] by simp_all
  then have "int ?l \<le> r" using qs(3) by fastforce
  then have "int (length qs) \<le> r + 1" by simp
  moreover have "\<forall>(x, y) \<in> set qs. x \<le> y \<and> y \<le> r" using qs(3) by auto
  ultimately show ?thesis unfolding run using qs by blast
qed

section \<open>A concrete canvas\<close>

definition canvas_example :: vesa where
  "canvas_example = vesa_initial\<lparr>vesa_framebuffer := 0x200000, vesa_enabled := True\<rparr>"

lemma canvas_example_ok: "canvas_ok canvas_example"
  by (simp add: canvas_ok_def canvas_example_def vesa_initial_def)

text \<open>The same canvas in a mode of 24 bits per pixel.\<close>

definition canvas24_example :: vesa where
  "canvas24_example = canvas_example\<lparr>vesa_bpp := 24\<rparr>"

theorem vesa_pixel_roundtrip_witness:
  "vesa_getpixel canvas_example 799 599 (vesa_putpixel canvas_example 799 599 0xFF8800 (\<lambda>_. 0)) = 0xFF8800
   \<and> vesa_getpixel canvas24_example 799 599 (vesa_putpixel canvas24_example 799 599 0xFF8800 (\<lambda>_. 0)) = 0
   \<and> vesa_putpixel canvas24_example 799 599 0xFF8800 (\<lambda>_. 0) (place24 canvas24_example 799 599 + 1) = 0x88"
proof -
  have on: "on_canvas canvas_example 799 599" "on_canvas canvas24_example 799 599"
    by (simp_all add: on_canvas_def canvas24_example_def canvas_example_def vesa_initial_def)
  have fits: "mode_fits canvas_example" "mode_fits canvas24_example" "vesa_bpp canvas_example = 32" "vesa_bpp canvas24_example = 24"
    by (simp_all add: mode_fits_def canvas24_example_def canvas_example_def vesa_initial_def)
  have "\<forall>i < 3. vesa_putpixel canvas24_example 799 599 0xFF8800 (\<lambda>_. 0) (place24 canvas24_example 799 599 + of_nat i)
      = ucast (drop_bit (8 * i) (0xFF8800 :: u32))"
    using vesa_pixel_roundtrip [OF fits(2), of 799 599 799 599 "0xFF8800" "\<lambda>_. 0"] on(2) fits(4) by simp
  from this [rule_format, of 1]
  have "vesa_putpixel canvas24_example 799 599 0xFF8800 (\<lambda>_. 0) (place24 canvas24_example 799 599 + 1) = 0x88"
    by simp
  moreover have "vesa_getpixel canvas24_example 799 599 (vesa_putpixel canvas24_example 799 599 0xFF8800 (\<lambda>_. 0)) = 0"
    using vesa_pixel_roundtrip [OF fits(2), of 799 599 799 599 "0xFF8800" "\<lambda>_. 0"] fits(4) by simp
  moreover have "vesa_getpixel canvas_example 799 599 (vesa_putpixel canvas_example 799 599 0xFF8800 (\<lambda>_. 0)) = 0xFF8800"
    using vesa_pixel_roundtrip [OF fits(1), of 799 599 799 599 "0xFF8800" "\<lambda>_. 0"] on(1) fits(3) by simp
  ultimately show ?thesis by simp
qed

theorem vesa_fill_rect_correct_witness:
  "vesa_getpixel canvas_example 795 10 (vesa_fill_rect canvas_example 790 0 100 20 7 (\<lambda>_. 0)) = 7"
proof -
  have "unat (790 :: u32) + unat (100 :: u32) \<le> 2 ^ 32" "unat (0 :: u32) + unat (20 :: u32) \<le> 2 ^ 32" by simp_all
  from vesa_fill_rect_correct [OF canvas_example_ok this, of 795 10 7 "\<lambda>_. 0"] show ?thesis
    by (simp add: on_canvas_def canvas_example_def vesa_initial_def)
qed

theorem vesa_draw_line_correct_witness:
  "\<exists>ps. vesa_draw_line canvas_example 550 150 700 230 0x00FFFF (\<lambda>_. 0) = Some (paint_int canvas_example 0x00FFFF ps (\<lambda>_. 0))
    \<and> hd ps = (550, 150) \<and> last ps = (700, 230) \<and> length ps \<le> 231"
proof -
  have "\<bar>550 :: int\<bar> \<le> 2 ^ 27" "\<bar>150 :: int\<bar> \<le> 2 ^ 27" "\<bar>700 :: int\<bar> \<le> 2 ^ 27" "\<bar>230 :: int\<bar> \<le> 2 ^ 27" by simp_all
  from vesa_draw_line_correct [OF this, of canvas_example "0x00FFFF" "\<lambda>_. 0"] show ?thesis by auto
qed

theorem vesa_draw_circle_correct_witness:
  "\<exists>qs. vesa_draw_circle canvas_example 450 190 40 0xFF0055 (\<lambda>_. 0)
      = Some (paint_int canvas_example 0xFF0055 (concat (map (\<lambda>(x, y). circle_points 450 190 x y) qs)) (\<lambda>_. 0)) \<and> length qs \<le> 41"
proof -
  have "(0 :: int) \<le> 40" "(40 :: int) \<le> 2 ^ 24" "\<bar>450 :: int\<bar> \<le> 2 ^ 27" "\<bar>190 :: int\<bar> \<le> 2 ^ 27" by simp_all
  from vesa_draw_circle_correct [OF this, of canvas_example "0xFF0055" "\<lambda>_. 0"] show ?thesis by auto
qed

end
