(* ===== verification/Firmware.thy ===== *)
theory Firmware
  imports Interrupts Module_Loader
begin

unbundle bit_operations_syntax

text \<open>
  What the firmware describes: the processors of the MP tables, \<^verbatim>\<open>kernel/smp.c\<close>, power management
  through the ACPI tables, \<^verbatim>\<open>drivers/acpi.c\<close>, and the advanced interrupt controllers,
  \<^verbatim>\<open>drivers/apic.c\<close>.  The tables are read from the store that the kernel addresses directly.
\<close>

section \<open>Searching the memory of the firmware\<close>

definition load_bytes :: "(u32 \<Rightarrow> u8) \<Rightarrow> u32 \<Rightarrow> nat \<Rightarrow> u8 list" where
  "load_bytes m a n = map (\<lambda>i. m (a + of_nat i)) [0..<n]"

text \<open>\<^verbatim>\<open>memcmp((void*)a, sig, n) == 0\<close>.\<close>

definition sig_at :: "(u32 \<Rightarrow> u8) \<Rightarrow> u32 \<Rightarrow> char list \<Rightarrow> bool" where
  "sig_at m a sig \<longleftrightarrow> memcmp_at (load_bytes m a (length sig)) 0 (map char_byte sig) 0 (length sig) = Some 0"

text \<open>\<^verbatim>\<open>for (i = 0; i < n; i++) sum += ptr[i];\<close>\<close>

definition byte_sum :: "(u32 \<Rightarrow> u8) \<Rightarrow> u32 \<Rightarrow> nat \<Rightarrow> u8" where
  "byte_sum m a n = fold (\<lambda>i sum. sum + m (a + of_nat i)) [0..<n] 0"

text \<open>The loop of both searches: 0 is the null pointer.\<close>

partial_function (option) scan_tables :: "(u32 \<Rightarrow> bool) \<Rightarrow> u32 \<Rightarrow> u32 \<Rightarrow> u32 option" where
  "scan_tables P stop addr =
     (if addr < stop then if P addr then Some addr else scan_tables P stop (addr + 16) else Some 0)"

section \<open>Processors\<close>

record smp_cpu_info =
  ci_apic_id :: u8
  ci_enabled :: u8
  ci_is_bsp :: u8

record smp =
  cpus :: "smp_cpu_info list"
  cpu_count :: u32

abbreviation MAX_CPUS :: u32 where "MAX_CPUS \<equiv> 32"

definition smp_find_mp_pointer :: "(u32 \<Rightarrow> u8) \<Rightarrow> u32 \<Rightarrow> u32 \<Rightarrow> u32 option" where
  "smp_find_mp_pointer m start len =
     scan_tables (\<lambda>addr. sig_at m addr ''_MP_'' \<and> byte_sum m addr 16 = 0) (start + len) start"

text \<open>The loop over the entries of the configuration table: \<open>n\<close> entries left, \<open>p\<close> the entry.\<close>

primrec mp_entries :: "nat \<Rightarrow> (u32 \<Rightarrow> u8) \<Rightarrow> u32 \<Rightarrow> u32 \<Rightarrow> smp_cpu_info list \<Rightarrow> u32 \<times> smp_cpu_info list" where
  "mp_entries 0 m p parsed cs = (parsed, cs)"
| "mp_entries (Suc n) m p parsed cs =
     (let entry_type = m p
      in if entry_type = 0
         then let apic_id = m (p + 1); cpu_flags = m (p + 3)
              in if cpu_flags AND 0x01 \<noteq> 0 \<and> parsed < MAX_CPUS
                 then mp_entries n m (p + 20) (parsed + 1)
                   (cs[unat parsed := \<lparr>ci_apic_id = apic_id, ci_enabled = 1, ci_is_bsp = if cpu_flags AND 0x02 \<noteq> 0 then 1 else 0\<rparr>])
                 else mp_entries n m (p + 20) parsed cs
         else if entry_type = 1 \<or> entry_type = 2 \<or> entry_type = 3 \<or> entry_type = 4 then mp_entries n m (p + 8) parsed cs
         else (parsed, cs))"

definition boot_cpus :: "smp_cpu_info list" where
  "boot_cpus = (replicate 32 \<lparr>ci_apic_id = 0, ci_enabled = 0, ci_is_bsp = 0\<rparr>)[0 := \<lparr>ci_apic_id = 0, ci_enabled = 1, ci_is_bsp = 1\<rparr>]"

text \<open>The table at \<^verbatim>\<open>mp->phys_addr\<close>; its header has 44 bytes, the number of entries is at byte 34.\<close>

definition mp_config :: "(u32 \<Rightarrow> u8) \<Rightarrow> u32 \<Rightarrow> smp \<Rightarrow> smp" where
  "mp_config m mp s =
     (let cfg = get32 m (mp + 4)
      in if mp \<noteq> 0 \<and> cfg \<noteq> 0 \<and> sig_at m cfg ''PCMP''
         then let (parsed, cs) = mp_entries (unat (get16 m (cfg + 34))) m (cfg + 44) 0 (cpus s)
              in \<lparr>cpus = cs, cpu_count = if parsed > 0 then parsed else cpu_count s\<rparr>
         else s)"

definition smp_init :: "'a kern_scheme \<Rightarrow> (smp \<times> 'a kern_scheme) option" where
  "smp_init k = do {
     let m = bytes (k_heap k);
     mp \<leftarrow> smp_find_mp_pointer m 0x9FC00 1024;
     mp \<leftarrow> (if mp = 0 then smp_find_mp_pointer m 0xF0000 0x10000 else Some mp);
     let s = mp_config m mp \<lparr>cpus = boot_cpus, cpu_count = 1\<rparr>;
     k \<leftarrow> k_printk (''SMP: Detected %u CPU cores (BSP APIC ID: %u)'' @ [CHR 0x0A])
            [VA_word (cpu_count s), VA_word (ucast (ci_apic_id (cpus s ! 0)))] k;
     Some (s, k)
   }"

definition smp_get_cpu_count :: "smp \<Rightarrow> u32" where "smp_get_cpu_count s = cpu_count s"

definition smp_get_current_cpu :: "smp \<Rightarrow> u32" where "smp_get_current_cpu s = 0"

definition smp_is_bsp :: "smp \<Rightarrow> int" where "smp_is_bsp s = 1"

text \<open>
  \<open>printk\<close> knows no widths: it prints \<^verbatim>\<open>%-\<close> and takes no argument, so that the only conversion of the
  line, \<^verbatim>\<open>%s\<close>, takes the first argument, the number \<open>i\<close>, for the address of a string.
\<close>

partial_function (option) string_from :: "(u32 \<Rightarrow> u8) \<Rightarrow> u32 \<Rightarrow> char list option" where
  "string_from m a =
     (if m a = 0 then Some [NUL] else do { cs \<leftarrow> string_from m (a + 1); Some (char_of (unat (m a)) # cs) })"

definition word_as_string :: "(u32 \<Rightarrow> u8) \<Rightarrow> u32 \<Rightarrow> va_arg option" where
  "word_as_string m i = (if i = 0 then Some (VA_str None) else do { cs \<leftarrow> string_from m i; Some (VA_str (Some cs)) })"

primrec list_cpus_from :: "nat \<Rightarrow> u32 \<Rightarrow> smp \<Rightarrow> 'a kern_scheme \<Rightarrow> 'a kern_scheme option" where
  "list_cpus_from 0 i s k = Some k"
| "list_cpus_from (Suc n) i s k = do {
     first \<leftarrow> word_as_string (bytes (k_heap k)) i;
     k \<leftarrow> k_printk (''%-7u %-8u %-6s %s'' @ [CHR 0x0A])
            [first, VA_word (ucast (ci_apic_id (cpus s ! unat i))),
             VA_str (Some ((if ci_is_bsp (cpus s ! unat i) \<noteq> 0 then ''BSP'' else ''AP'') @ [NUL])),
             VA_str (Some ((if ci_enabled (cpus s ! unat i) \<noteq> 0 then ''Online'' else ''Offline'') @ [NUL]))] k;
     list_cpus_from n (i + 1) s k
   }"

definition smp_list_cpus :: "smp \<Rightarrow> 'a kern_scheme \<Rightarrow> 'a kern_scheme option" where
  "smp_list_cpus s k = do {
     k \<leftarrow> k_printk (''CPU ID  APIC ID  ROLE   STATUS'' @ [CHR 0x0A]) [] k;
     k \<leftarrow> k_printk (''------  -------  ----   ------'' @ [CHR 0x0A]) [] k;
     list_cpus_from (unat (cpu_count s)) 0 s k
   }"

section \<open>Power management\<close>

record acpi =
  rsdp :: u32
  fadt :: u32
  slp_typa :: u16
  slp_typb :: u16
  slp_en :: u16
  acpi_enabled :: int

definition acpi_initial :: acpi where
  "acpi_initial = \<lparr>rsdp = 0, fadt = 0, slp_typa = 0, slp_typb = 0, slp_en = push_bit 13 1, acpi_enabled = 0\<rparr>"

definition acpi_find_rsdp :: "(u32 \<Rightarrow> u8) \<Rightarrow> u32 \<Rightarrow> u32 \<Rightarrow> u32 option" where
  "acpi_find_rsdp m start len =
     scan_tables (\<lambda>addr. sig_at m addr ''RSD PTR '' \<and> byte_sum m addr 20 = 0) (start + len) start"

text \<open>The loop over the addresses of tables from \<open>p\<close> on, \<open>n\<close> of them left.\<close>

primrec find_fadt :: "nat \<Rightarrow> (u32 \<Rightarrow> u8) \<Rightarrow> u32 \<Rightarrow> u32 option" where
  "find_fadt 0 m p = None"
| "find_fadt (Suc n) m p =
     (let header = get32 m p in if sig_at m header ''FACP'' then Some header else find_fadt n m (p + 4))"

definition acpi_init :: "acpi \<Rightarrow> 'a kern_scheme \<Rightarrow> (acpi \<times> 'a kern_scheme) option" where
  "acpi_init s k = do {
     let m = bytes (k_heap k);
     r \<leftarrow> acpi_find_rsdp m 0x9FC00 1024;
     r \<leftarrow> (if r = 0 then acpi_find_rsdp m 0xE0000 0x20000 else Some r);
     let s = s\<lparr>rsdp := r\<rparr>;
     let rsdt = get32 m (r + 16);
     if r = 0
     then do { k \<leftarrow> k_printk (''ACPI: RSDP structure not found'' @ [CHR 0x0A]) [] k; Some (s\<lparr>acpi_enabled := 0\<rparr>, k) }
     else if \<not> sig_at m rsdt ''RSDT''
     then do { k \<leftarrow> k_printk (''ACPI: Invalid RSDT signature'' @ [CHR 0x0A]) [] k; Some (s\<lparr>acpi_enabled := 0\<rparr>, k) }
     else do {
       let entries = (get32 m (rsdt + 4) - 36) div 4;
       let s = (case find_fadt (unat entries) m (rsdt + 36) of None \<Rightarrow> s | Some a \<Rightarrow> s\<lparr>fadt := a\<rparr>);
       if fadt s \<noteq> 0
       then do {
         let s = s\<lparr>acpi_enabled := 1, slp_typa := push_bit 10 0x05, slp_typb := push_bit 10 0x05\<rparr>;
         k \<leftarrow> k_printk (''ACPI: Revision %u, FADT at 0x%x'' @ [CHR 0x0A]) [VA_word (ucast (m (r + 15))), VA_word (fadt s)] k;
         Some (s, k)
       }
       else do { k \<leftarrow> k_printk (''ACPI: FADT table not found'' @ [CHR 0x0A]) [] k; Some (s\<lparr>acpi_enabled := 0\<rparr>, k) }
     }
   }"

definition acpi_is_available :: "acpi \<Rightarrow> int" where "acpi_is_available s = acpi_enabled s"

text \<open>The instructions by which the machine is stopped, in their order.\<close>

datatype stop_op = Outw u16 u16 | Outb u16 u8 | Lidt u16 u32 | Int3 | Cli | Hlt

definition acpi_shutdown :: "acpi \<Rightarrow> 'a kern_scheme \<Rightarrow> (stop_op list \<times> 'a kern_scheme) option" where
  "acpi_shutdown s k = do {
     k \<leftarrow> k_printk (''ACPI: Initiating system shutdown...'' @ [CHR 0x0A]) [] k;
     let m = bytes (k_heap k);
     let pm1a = get32 m (fadt s + 64);
     let pm1b = get32 m (fadt s + 68);
     Some ((if fadt s \<noteq> 0 \<and> pm1a \<noteq> 0
            then Outw (ucast pm1a) (slp_typa s OR slp_en s)
                 # (if pm1b \<noteq> 0 then [Outw (ucast pm1b) (slp_typb s OR slp_en s)] else [])
            else [])
           @ [Outw 0x604 0x2000, Outw 0xB004 0x2000, Outw 0x4004 0x3400, Cli, Hlt], k)
   }"

text \<open>The status register of the keyboard controller is read until it can take a command: \<open>status i\<close> is its
  value at the \<open>i\<close>th reading.\<close>

partial_function (option) reboot_wait :: "(nat \<Rightarrow> u8) \<Rightarrow> nat \<Rightarrow> u8 \<Rightarrow> nat option" where
  "reboot_wait status i good = (if good AND 0x02 \<noteq> 0 then reboot_wait status (Suc i) (status i) else Some i)"

definition acpi_reboot :: "(nat \<Rightarrow> u8) \<Rightarrow> 'a kern_scheme \<Rightarrow> (stop_op list \<times> 'a kern_scheme) option" where
  "acpi_reboot status k = do {
     k \<leftarrow> k_printk (''ACPI: Initiating system reboot...'' @ [CHR 0x0A]) [] k;
     n \<leftarrow> reboot_wait status 0 0x02;
     Some ([Outb 0x64 0xFE, Lidt 0 0, Int3, Cli, Hlt], k)
   }"

section \<open>The advanced interrupt controllers\<close>

text \<open>
  The local controller is a page of registers, \<open>lapic_regs\<close>, at the base address in the register
  \<^verbatim>\<open>IA32_APIC_BASE\<close>; writes to it are also logged in the machine.  The I/O controller shows one of its
  registers at a time: the one whose number was last written to its window.
\<close>

record apic =
  apic_msr :: "64 word"
  lapic_base :: u32
  ioapic_base :: u32
  lapic_regs :: "u32 \<Rightarrow> u32"
  ioapic_select :: u32
  ioapic_regs :: "u32 \<Rightarrow> u32"
  apic_machine :: machine

definition apic_read :: "u32 \<Rightarrow> apic \<Rightarrow> u32" where
  "apic_read reg s = lapic_regs s reg"

definition lapic_write :: "u32 \<Rightarrow> u32 \<Rightarrow> apic \<Rightarrow> apic" where
  "lapic_write reg v s = s\<lparr>lapic_regs := (lapic_regs s)(reg := v), apic_machine := apic_write reg v (apic_machine s)\<rparr>"

definition ioapic_read :: "u32 \<Rightarrow> apic \<Rightarrow> u32 \<times> apic" where
  "ioapic_read reg s = (let s = s\<lparr>ioapic_select := reg\<rparr> in (ioapic_regs s (ioapic_select s), s))"

definition ioapic_write :: "u32 \<Rightarrow> u32 \<Rightarrow> apic \<Rightarrow> apic" where
  "ioapic_write reg v s =
     (let s = s\<lparr>ioapic_select := reg\<rparr> in s\<lparr>ioapic_regs := (ioapic_regs s)(ioapic_select s := v)\<rparr>)"

definition ioapic_route_irq :: "u8 \<Rightarrow> u8 \<Rightarrow> u8 \<Rightarrow> apic \<Rightarrow> apic" where
  "ioapic_route_irq irq vec dest s =
     (let reg_low = 0x10 + ucast irq * 2; reg_high = 0x10 + ucast irq * 2 + 1
      in ioapic_write reg_low (ucast vec) (ioapic_write reg_high (push_bit 24 (ucast dest)) s))"

definition on_apic_machine :: "(machine \<Rightarrow> machine) \<Rightarrow> apic \<Rightarrow> apic" where
  "on_apic_machine f s = s\<lparr>apic_machine := f (apic_machine s)\<rparr>"

definition apic_disable_pic :: "apic \<Rightarrow> apic" where
  "apic_disable_pic = on_apic_machine (on_con (\<lambda>c. outb 0xA1 0xFF (outb 0x21 0xFF c)))"

definition apic_timer_init :: "u32 \<Rightarrow> apic \<Rightarrow> apic" where
  "apic_timer_init frequency s =
     lapic_write 0x380 1000000 (lapic_write 0x320 (32 OR 0x20000) (lapic_write 0x3E0 0x03 s))"

definition apic_map_page :: "u32 \<Rightarrow> apic \<Rightarrow> apic" where
  "apic_map_page a = on_apic_machine (\<lambda>m. m\<lparr>m_proc := k_on_vm (vmm_map_page a a (VMM_PRESENT OR VMM_WRITABLE)) (m_proc m)\<rparr>)"

definition apic_init :: "apic \<Rightarrow> apic option" where
  "apic_init s = do {
     let s = (if apic_msr s AND push_bit 11 1 = 0 then s\<lparr>apic_msr := apic_msr s OR push_bit 11 1\<rparr> else s);
     let base_addr = (ucast (apic_msr s AND 0xFFFFF000) :: u32);
     let s = (if base_addr \<noteq> 0 then s\<lparr>lapic_base := base_addr\<rparr> else s);
     let s = apic_map_page (ioapic_base s) (apic_map_page (lapic_base s) s);
     let s = lapic_write 0xF0 0x1FF (apic_disable_pic s);
     let s = fold (\<lambda>i. ioapic_route_irq (of_nat i) (32 + of_nat i) 0) [0..<16] s;
     let s = apic_timer_init 1000 s;
     let (version, s) = ioapic_read 0x01 s;
     m \<leftarrow> m_printk (''APIC: Local APIC at 0x%x, ID %u'' @ [CHR 0x0A])
            [VA_word (lapic_base s), VA_word (drop_bit 24 (apic_read 0x20 s))] (apic_machine s);
     m \<leftarrow> m_printk (''APIC: I/O APIC at 0x%x, version %u, %u redirection entries'' @ [CHR 0x0A])
            [VA_word (ioapic_base s), VA_word (version AND 0xFF), VA_word (drop_bit 16 version AND 0xFF)] m;
     Some (s\<lparr>apic_machine := m\<rparr>)
   }"

section \<open>What a search finds\<close>

lemma k_print_some:
  assumes "vga_ok (k_con k)" and "NUL \<notin> set fmt" and "\<exists>out. printk_text fmt args = Some out"
  shows "\<exists>c. k_printk fmt args k = Some (k\<lparr>k_con := c\<rparr>) \<and> vga_ok c"
  using assms(3) k_printk_ok [OF assms(1,2)] by blast

lemma u32_below: "unat (a :: u32) + n < 2 ^ 32 \<Longrightarrow> unat (a + of_nat n) = unat a + n"
  by (simp add: unat_word_ariths unat_of_nat)

lemma scan_tables_find:
  assumes "unat start + 16 * n < 2 ^ 32"
  shows "scan_tables P (start + 16 * of_nat n) start
    = Some (case find P (map (\<lambda>i. start + 16 * of_nat i) [0..<n]) of None \<Rightarrow> 0 | Some a \<Rightarrow> a)"
  using assms
proof (induction n arbitrary: start)
  case 0
  then show ?case by (subst scan_tables.simps) simp
next
  case (Suc n)
  have "unat (start + of_nat (16 * Suc n)) = unat start + 16 * Suc n" by (rule u32_below) (use Suc.prems in simp)
  then have less: "start < start + 16 * of_nat (Suc n)" by (simp add: word_less_nat_alt)
  have "unat (start + of_nat 16) = unat start + 16" by (rule u32_below) (use Suc.prems in simp)
  then have s16: "unat (start + 16) = unat start + 16" by simp
  have upt: "map (\<lambda>i. start + 16 * of_nat i) [0..<Suc n] = start # map (\<lambda>i. (start + 16) + 16 * of_nat i) [0..<n]"
    by (simp add: upt_conv_Cons map_Suc_upt [symmetric] algebra_simps del: upt_Suc)
  show ?case
  proof (cases "P start")
    case True
    then show ?thesis using less by (subst scan_tables.simps) (simp add: upt del: upt_Suc)
  next
    case False
    have "scan_tables P (start + 16 * of_nat (Suc n)) start = scan_tables P ((start + 16) + 16 * of_nat n) (start + 16)"
      using less False by (subst scan_tables.simps) (simp add: algebra_simps)
    also have "\<dots> = Some (case find P (map (\<lambda>i. (start + 16) + 16 * of_nat i) [0..<n]) of None \<Rightarrow> 0 | Some a \<Rightarrow> a)"
      by (rule Suc.IH) (use Suc.prems s16 in simp)
    finally show ?thesis using False by (simp add: upt del: upt_Suc)
  qed
qed

lemma memcmp_at_eq_0: "length xs = length ys \<Longrightarrow> memcmp_at (us @ xs) (length us) (vs @ ys) (length vs) (length ys) = Some 0 \<longleftrightarrow> xs = ys"
proof (induction xs ys arbitrary: us vs rule: list_induct2)
  case (Cons x xs y ys)
  then show ?case using Cons.IH [of "us @ [x]" "vs @ [y]"] by (auto simp: word_uint_eq_iff)
qed simp

lemma sig_at_iff: "sig_at m a sig \<longleftrightarrow> load_bytes m a (length sig) = map char_byte sig"
  using memcmp_at_eq_0 [of "load_bytes m a (length sig)" "map char_byte sig" "[]" "[]"]
  by (simp add: sig_at_def load_bytes_def)

text \<open>The addresses that the kernel searches, in its order, and where a structure lies.\<close>

definition areas :: "(u32 \<times> nat) list \<Rightarrow> u32 list" where
  "areas as = concat (map (\<lambda>(start, n). map (\<lambda>i. start + 16 * of_nat i) [0..<n]) as)"

lemma areas_ne_0:
  assumes "\<forall>(s, n) \<in> set as. s \<noteq> 0 \<and> unat s + 16 * n < 2 ^ 32" and "b \<in> set (areas as)"
  shows "b \<noteq> 0"
proof -
  obtain s n i where b: "(s, n) \<in> set as" "i < n" "b = s + of_nat (16 * i)" using assms(2) by (auto simp: areas_def)
  have s: "s \<noteq> 0" "unat s + 16 * n < 2 ^ 32" using assms(1) b(1) by blast+
  then have "unat b = unat s + 16 * i" unfolding b(3) by (intro u32_below) (use b(2) in linarith)
  then show ?thesis using s(1) by (metis add_is_0 unat_eq_zero)
qed

lemma find_areas_ne_0:
  assumes "find P (areas as) = Some a" and "\<forall>(s, n) \<in> set as. s \<noteq> 0 \<and> unat s + 16 * n < 2 ^ 32"
  shows "a \<noteq> 0"
proof -
  obtain i where i: "i < length (areas as)" "a = areas as ! i" using assms(1) by (auto simp: find_Some_iff)
  show ?thesis unfolding i(2) by (rule areas_ne_0 [OF assms(2) nth_mem [OF i(1)]])
qed

lemma two_areas:
  assumes find: "find P (areas [(s1, n1), (s2, n2)]) = Some a"
    and ok: "\<forall>(s, n) \<in> set [(s1, n1), (s2, n2)]. s \<noteq> 0 \<and> unat s + 16 * n < 2 ^ 32"
  shows "a \<noteq> 0"
    and "\<exists>p. scan_tables P (s1 + 16 * of_nat n1) s1 = Some p
      \<and> (if p = 0 then scan_tables P (s2 + 16 * of_nat n2) s2 else Some p) = Some a"
proof -
  let ?a1 = "map (\<lambda>i. s1 + 16 * of_nat i) [0..<n1]" and ?a2 = "map (\<lambda>i. s2 + 16 * of_nat i) [0..<n2]"
  show ne: "a \<noteq> 0" by (rule find_areas_ne_0 [OF find ok])
  have f1: "scan_tables P (s1 + 16 * of_nat n1) s1 = Some (case find P ?a1 of None \<Rightarrow> 0 | Some a \<Rightarrow> a)"
    and f2: "scan_tables P (s2 + 16 * of_nat n2) s2 = Some (case find P ?a2 of None \<Rightarrow> 0 | Some a \<Rightarrow> a)"
    by (rule scan_tables_find, use ok in simp)+
  have "find P (xs @ ys) = (case find P xs of None \<Rightarrow> find P ys | Some x \<Rightarrow> Some x)" for xs ys
    by (induction xs) simp_all
  then have both: "(case find P ?a1 of None \<Rightarrow> find P ?a2 | Some x \<Rightarrow> Some x) = Some a" using find by (simp add: areas_def)
  show "\<exists>p. scan_tables P (s1 + 16 * of_nat n1) s1 = Some p
      \<and> (if p = 0 then scan_tables P (s2 + 16 * of_nat n2) s2 else Some p) = Some a"
  proof (cases "find P ?a1")
    case None
    then show ?thesis using both unfolding f1 f2 by simp
  next
    case (Some x)
    then show ?thesis using both ne unfolding f1 f2 by simp
  qed
qed

lemma two_areas_scan:
  assumes ok: "\<forall>(s, n) \<in> set [(s1, n1), (s2, n2)]. s \<noteq> 0 \<and> unat s + 16 * n < 2 ^ 32"
  shows "\<exists>p. scan_tables P (s1 + 16 * of_nat n1) s1 = Some p
      \<and> (if p = 0 then scan_tables P (s2 + 16 * of_nat n2) s2 else Some p)
        = Some (case find P (areas [(s1, n1), (s2, n2)]) of None \<Rightarrow> 0 | Some a \<Rightarrow> a)"
proof (cases "find P (areas [(s1, n1), (s2, n2)])")
  case (Some a)
  with two_areas(2) [OF Some ok] show ?thesis by simp
next
  case None
  let ?a1 = "map (\<lambda>i. s1 + 16 * of_nat i) [0..<n1]" and ?a2 = "map (\<lambda>i. s2 + 16 * of_nat i) [0..<n2]"
  have "find P ?a1 = None" "find P ?a2 = None" using None by (auto simp: areas_def find_None_iff)
  moreover have "scan_tables P (s1 + 16 * of_nat n1) s1 = Some (case find P ?a1 of None \<Rightarrow> 0 | Some a \<Rightarrow> a)"
    "scan_tables P (s2 + 16 * of_nat n2) s2 = Some (case find P ?a2 of None \<Rightarrow> 0 | Some a \<Rightarrow> a)"
    by (rule scan_tables_find, use ok in simp)+
  ultimately show ?thesis using None by simp
qed

section \<open>Processors that are found\<close>

datatype mp_entry = Cpu u8 u8 | Device u8

fun entries_at :: "(u32 \<Rightarrow> u8) \<Rightarrow> u32 \<Rightarrow> mp_entry list \<Rightarrow> bool" where
  "entries_at m p [] = True"
| "entries_at m p (Cpu a f # es) = (m p = 0 \<and> m (p + 1) = a \<and> m (p + 3) = f \<and> entries_at m (p + 20) es)"
| "entries_at m p (Device t # es) = (m p = t \<and> t \<noteq> 0 \<and> (t \<le> 4 \<longrightarrow> entries_at m (p + 8) es))"

text \<open>The enabled processors before the first entry of unknown type.\<close>

fun online :: "mp_entry list \<Rightarrow> smp_cpu_info list" where
  "online [] = []"
| "online (Cpu a f # es) =
     (if bit f 0 then [\<lparr>ci_apic_id = a, ci_enabled = 1, ci_is_bsp = if bit f 1 then 1 else 0\<rparr>] else []) @ online es"
| "online (Device t # es) = (if t \<le> 4 then online es else [])"

lemma u8_le_4: "(t :: u8) \<noteq> 0 \<Longrightarrow> t \<le> 4 \<longleftrightarrow> t = 1 \<or> t = 2 \<or> t = 3 \<or> t = 4"
proof -
  assume "t \<noteq> 0"
  then have "unat t \<noteq> 0" by (simp add: unat_eq_0)
  moreover have "t = 1 \<longleftrightarrow> unat t = 1" "t = 2 \<longleftrightarrow> unat t = 2" "t = 3 \<longleftrightarrow> unat t = 3" "t = 4 \<longleftrightarrow> unat t = 4"
    by (simp_all add: word_unat_eq_iff)
  moreover have "t \<le> 4 \<longleftrightarrow> unat t \<le> 4" by (simp add: word_le_nat_alt)
  ultimately show ?thesis by linarith
qed

lemma and_flag: "(f :: u8) AND 1 \<noteq> 0 \<longleftrightarrow> bit f 0" "f AND 2 \<noteq> 0 \<longleftrightarrow> bit f 1"
  using and_exp_eq_0_iff_not_bit [of f 0] and_exp_eq_0_iff_not_bit [of f 1] by simp_all

lemma mp_entries_correct:
  assumes "entries_at m p es" and "length cs = 32" and "j \<le> 32"
  shows "mp_entries (length es) m p (of_nat j) cs
    = (let os = take (32 - j) (online es)
       in (of_nat (j + length os), take j cs @ os @ drop (j + length os) cs))"
  using assms
proof (induction es arbitrary: p j cs)
  case (Cons e es)
  show ?case
  proof (cases e)
    case (Cpu a f)
    have e: "m p = 0" "m (p + 1) = a" "m (p + 3) = f" "entries_at m (p + 20) es" using Cons.prems(1) Cpu by auto
    have u: "unat (of_nat j :: u32) = j" using Cons.prems(3) by (simp add: unat_of_nat)
    have ac: "(of_nat j + 1 :: u32) = of_nat (Suc j)" by simp
    have lt: "(of_nat j :: u32) < 32 \<longleftrightarrow> j < 32" using Cons.prems(3) by (simp add: word_less_nat_alt unat_of_nat)
    show ?thesis
    proof (cases "bit f 0 \<and> j < 32")
      case True
      let ?c = "\<lparr>ci_apic_id = a, ci_enabled = 1, ci_is_bsp = if bit f 1 then 1 else 0\<rparr>"
      have "mp_entries (length (e # es)) m p (of_nat j) cs = mp_entries (length es) m (p + 20) (of_nat (Suc j)) (cs[j := ?c])"
        using True e lt u by (simp add: and_flag ac)
      also have "\<dots> = (let os = take (32 - Suc j) (online es)
          in (of_nat (Suc j + length os), take (Suc j) (cs[j := ?c]) @ os @ drop (Suc j + length os) (cs[j := ?c])))"
        by (rule Cons.IH) (use e True Cons.prems in auto)
      finally have run: "mp_entries (length (e # es)) m p (of_nat j) cs = \<dots>" .
      have "32 - j = Suc (32 - Suc j)" using conjunct2 [OF True] by linarith
      then have tk: "take (32 - j) (online (e # es)) = ?c # take (32 - Suc j) (online es)" using True Cpu by simp
      have "take (Suc j) (cs[j := ?c]) = take j cs @ [?c]" using True Cons.prems(2) by (simp add: take_Suc_conv_app_nth)
      then show ?thesis unfolding run tk by (simp add: Let_def)
    next
      case False
      then have "mp_entries (length (e # es)) m p (of_nat j) cs = mp_entries (length es) m (p + 20) (of_nat j) cs"
        using e lt by (auto simp: and_flag)
      moreover have "take (32 - j) (online (e # es)) = take (32 - j) (online es)" using False Cpu Cons.prems(3) by auto
      ultimately show ?thesis using Cons.IH [of "p + 20" cs j] e Cons.prems by simp
    qed
  next
    case (Device t)
    then have e: "m p = t" "t \<noteq> 0" "t \<le> 4 \<Longrightarrow> entries_at m (p + 8) es" using Cons.prems(1) by auto
    show ?thesis
    proof (cases "t \<le> 4")
      case True
      then show ?thesis using Cons.IH [of "p + 8" cs j] e Device Cons.prems u8_le_4 [OF e(2)] by auto
    next
      case False
      then show ?thesis using e Device u8_le_4 [OF e(2)] by (auto simp: Let_def)
    qed
  qed
qed (simp add: Let_def)

definition mp_areas :: "u32 list" where
  "mp_areas = areas [(0x9FC00, 64), (0xF0000, 4096)]"

definition mp_here :: "(u32 \<Rightarrow> u8) \<Rightarrow> u32 \<Rightarrow> bool" where
  "mp_here m a \<longleftrightarrow> sig_at m a ''_MP_'' \<and> byte_sum m a 16 = 0"

text \<open>The configuration table in use: that of the first floating pointer with signature and checksum, if it
  gives an address and the signature \<^verbatim>\<open>PCMP\<close> is found there.\<close>

definition mp_table :: "(u32 \<Rightarrow> u8) \<Rightarrow> u32 option" where
  "mp_table m =
     (case find (mp_here m) mp_areas of
        None \<Rightarrow> None
      | Some mp \<Rightarrow> if get32 m (mp + 4) \<noteq> 0 \<and> sig_at m (get32 m (mp + 4)) ''PCMP'' then Some (get32 m (mp + 4)) else None)"

lemma entries_exist: "\<exists>es. entries_at m p es \<and> length es = n"
proof (induction n arbitrary: p)
  case (Suc n)
  obtain es where es: "entries_at m (p + (if m p = 0 then 20 else 8)) es" "length es = n" using Suc by blast
  show ?case
  proof (cases "m p = 0")
    case True
    then show ?thesis using es by (intro exI [of _ "Cpu (m (p + 1)) (m (p + 3)) # es"]) simp
  next
    case False
    then show ?thesis using es by (intro exI [of _ "Device (m p) # es"]) simp
  qed
qed simp

lemma entries_online:
  "entries_at m p es \<Longrightarrow> entries_at m p fs \<Longrightarrow> length es = length fs \<Longrightarrow> online es = online fs"
proof (induction es arbitrary: p fs)
  case (Cons e es)
  then obtain g gs where fs: "fs = g # gs" by (cases fs) auto
  have l: "length es = length gs" using Cons.prems(3) fs by simp
  show ?case
  proof (cases e)
    case e: (Cpu a f)
    then show ?thesis
      using Cons.prems(1,2) Cons.IH [OF _ _ l, of "p + 20"] unfolding fs e by (cases g) simp_all
  next
    case e: (Device t)
    then show ?thesis
      using Cons.prems(1,2) Cons.IH [OF _ _ l, of "p + 8"] unfolding fs e by (cases g) simp_all
  qed
qed simp

lemma mp_config_table:
  assumes "\<And>mp. find (mp_here m) mp_areas = Some mp \<Longrightarrow> mp \<noteq> 0"
  shows "mp_config m (case find (mp_here m) mp_areas of None \<Rightarrow> 0 | Some mp \<Rightarrow> mp) s
    = (case mp_table m of None \<Rightarrow> s
       | Some cfg \<Rightarrow> let (parsed, cs) = mp_entries (unat (get16 m (cfg + 34))) m (cfg + 44) 0 (cpus s)
                   in \<lparr>cpus = cs, cpu_count = if parsed > 0 then parsed else cpu_count s\<rparr>)"
  using assms by (simp add: mp_config_def mp_table_def Let_def split: option.split)

text \<open>C31: \<open>smp_init\<close> looks for the first floating pointer with the signature \<^verbatim>\<open>_MP_\<close> and a checksum of 0.
  Without one, or when it gives no table with the signature \<^verbatim>\<open>PCMP\<close> (whose own checksum is not looked at), the
  kernel has one processor, the bootstrap processor 0.  Otherwise it counts the enabled processors that the
  table lists before an entry of unknown type, at most 32 of them, and has their numbers and roles in
  the order of the table; if there are none it has the bootstrap processor alone.\<close>

theorem smp_init_correct:
  assumes "vga_ok (k_con k)" and "m = bytes (k_heap k)"
  shows "\<exists>s c os. smp_init k = Some (s, k\<lparr>k_con := c\<rparr>)
    \<and> (case mp_table m of
         None \<Rightarrow> os = []
       | Some cfg \<Rightarrow> \<exists>es. entries_at m (cfg + 44) es \<and> length es = unat (get16 m (cfg + 34)) \<and> os = take 32 (online es))
    \<and> smp_get_cpu_count s = (if os = [] then 1 else of_nat (length os))
    \<and> cpus s = os @ drop (length os) boot_cpus"
proof -
  let ?P = "\<lambda>a. sig_at m a ''_MP_'' \<and> byte_sum m a 16 = 0"
  have here: "?P = mp_here m" by (simp add: mp_here_def [abs_def])
  have ok: "\<forall>(s, n) \<in> set [(0x9FC00 :: u32, 64), (0xF0000, 4096)]. s \<noteq> 0 \<and> unat s + 16 * n < 2 ^ 32" by simp
  have sc: "scan_tables ?P (0x9FC00 + 16 * of_nat 64) 0x9FC00 = smp_find_mp_pointer m 0x9FC00 1024"
    "scan_tables ?P (0xF0000 + 16 * of_nat 4096) 0xF0000 = smp_find_mp_pointer m 0xF0000 0x10000"
    by (simp_all add: smp_find_mp_pointer_def)
  define mp where "mp = (case find (mp_here m) mp_areas of None \<Rightarrow> 0 | Some mp \<Rightarrow> mp)"
  obtain p where p: "smp_find_mp_pointer m 0x9FC00 1024 = Some p"
    "(if p = 0 then smp_find_mp_pointer m 0xF0000 0x10000 else Some p) = Some mp"
    using two_areas_scan [OF ok, of ?P, unfolded sc] unfolding here mp_def mp_areas_def by blast
  have nz: "mp' \<noteq> 0" if "find (mp_here m) mp_areas = Some mp'" for mp'
    using two_areas(1) [OF _ ok] that by (simp add: mp_areas_def)
  define s where "s = mp_config m mp \<lparr>cpus = boot_cpus, cpu_count = 1\<rparr>"
  note s = mp_config_table [of m "\<lparr>cpus = boot_cpus, cpu_count = 1\<rparr>", OF nz, folded mp_def, folded s_def]
  have boot: "length boot_cpus = 32" by (simp add: boot_cpus_def)
  have "\<exists>os. (case mp_table m of None \<Rightarrow> os = []
       | Some cfg \<Rightarrow> \<exists>es. entries_at m (cfg + 44) es \<and> length es = unat (get16 m (cfg + 34)) \<and> os = take 32 (online es))
    \<and> cpu_count s = (if os = [] then 1 else of_nat (length os)) \<and> cpus s = os @ drop (length os) boot_cpus"
  proof (cases "mp_table m")
    case None
    then show ?thesis using s by simp
  next
    case (Some cfg)
    obtain es where es: "entries_at m (cfg + 44) es" "length es = unat (get16 m (cfg + 34))" using entries_exist by blast
    define os where "os = take 32 (online es)"
    have run: "mp_entries (unat (get16 m (cfg + 34))) m (cfg + 44) 0 boot_cpus = (of_nat (length os), os @ drop (length os) boot_cpus)"
      using mp_entries_correct [OF es(1) boot, of 0] es(2) by (simp add: os_def Let_def)
    have "length os \<le> 32" by (simp add: os_def)
    then have "(0 :: u32) < of_nat (length os) \<longleftrightarrow> os \<noteq> []" by (simp add: word_less_nat_alt unat_of_nat)
    then show ?thesis using s run Some es os_def by (intro exI [of _ os]) auto
  qed
  moreover have "\<exists>c. k_printk (''SMP: Detected %u CPU cores (BSP APIC ID: %u)'' @ [CHR 0x0A])
      [VA_word (cpu_count s), VA_word (ucast (ci_apic_id (cpus s ! 0)))] k = Some (k\<lparr>k_con := c\<rparr>) \<and> vga_ok c"
    by (rule k_print_some [OF assms(1)]) simp_all
  then obtain c where "k_printk (''SMP: Detected %u CPU cores (BSP APIC ID: %u)'' @ [CHR 0x0A])
      [VA_word (cpu_count s), VA_word (ucast (ci_apic_id (cpus s ! 0)))] k = Some (k\<lparr>k_con := c\<rparr>)" by blast
  then have "smp_init k = Some (s, k\<lparr>k_con := c\<rparr>)" using p by (simp add: smp_init_def assms(2) [symmetric] s_def)
  ultimately show ?thesis unfolding smp_get_cpu_count_def by blast
qed

section \<open>Power off\<close>

definition acpi_areas :: "u32 list" where
  "acpi_areas = areas [(0x9FC00, 64), (0xE0000, 8192)]"

definition rsdp_here :: "(u32 \<Rightarrow> u8) \<Rightarrow> u32 \<Rightarrow> bool" where
  "rsdp_here m a \<longleftrightarrow> sig_at m a ''RSD PTR '' \<and> byte_sum m a 20 = 0"

lemma find_fadt_eq: "find_fadt n m p = find (\<lambda>a. sig_at m a ''FACP'') (map (\<lambda>i. get32 m (p + 4 * of_nat i)) [0..<n])"
proof (induction n arbitrary: p)
  case (Suc n)
  have "map (\<lambda>i. get32 m (p + 4 * of_nat i)) [0..<Suc n] = get32 m p # map (\<lambda>i. get32 m ((p + 4) + 4 * of_nat i)) [0..<n]"
    by (simp add: upt_conv_Cons map_Suc_upt [symmetric] algebra_simps del: upt_Suc)
  then show ?case using Suc.IH [of "p + 4"] by (simp add: Let_def del: upt_Suc)
qed simp

text \<open>C32: When the tables lead from the first valid root pointer to a fixed description table, ACPI is available after
  \<open>acpi_init\<close>, and \<open>acpi_shutdown\<close> writes sleep type 5 with the enable bit to the power registers that the table
  names, the first one first, before it tries the registers of the emulators.\<close>

theorem acpi_shutdown_correct:
  assumes "vga_ok (k_con k)" and "m = bytes (k_heap k)" and "find (rsdp_here m) acpi_areas = Some r"
    and "rsdt = get32 m (r + 16)" and "sig_at m rsdt ''RSDT''" and "n = unat ((get32 m (rsdt + 4) - 36) div 4)"
    and "find (\<lambda>a. sig_at m a ''FACP'') (map (\<lambda>i. get32 m (rsdt + 36 + 4 * of_nat i)) [0..<n]) = Some a" and "a \<noteq> 0"
    and "get32 m (a + 64) \<noteq> 0"
  shows "\<exists>s c d. acpi_init acpi_initial k = Some (s, k\<lparr>k_con := c\<rparr>) \<and> acpi_is_available s = 1 \<and> fadt s = a
    \<and> acpi_shutdown s (k\<lparr>k_con := c\<rparr>) = Some (Outw (ucast (get32 m (a + 64))) 0x3400
        # (if get32 m (a + 68) \<noteq> 0 then [Outw (ucast (get32 m (a + 68))) 0x3400] else [])
        @ [Outw 0x604 0x2000, Outw 0xB004 0x2000, Outw 0x4004 0x3400, Cli, Hlt], k\<lparr>k_con := d\<rparr>)"
proof -
  have find: "find (\<lambda>a. sig_at m a ''RSD PTR '' \<and> byte_sum m a 20 = 0) (areas [(0x9FC00, 64), (0xE0000, 8192)]) = Some r"
    using assms(3) by (simp add: acpi_areas_def rsdp_here_def [abs_def])
  have ok: "\<forall>(s, n) \<in> set [(0x9FC00 :: u32, 64), (0xE0000, 8192)]. s \<noteq> 0 \<and> unat s + 16 * n < 2 ^ 32" by simp
  note ne = two_areas(1) [OF find ok]
  have sc: "scan_tables (\<lambda>a. sig_at m a ''RSD PTR '' \<and> byte_sum m a 20 = 0) (0x9FC00 + 16 * of_nat 64) 0x9FC00 = acpi_find_rsdp m 0x9FC00 1024"
    "scan_tables (\<lambda>a. sig_at m a ''RSD PTR '' \<and> byte_sum m a 20 = 0) (0xE0000 + 16 * of_nat 8192) 0xE0000 = acpi_find_rsdp m 0xE0000 0x20000"
    by (simp_all add: acpi_find_rsdp_def)
  obtain p where p: "acpi_find_rsdp m 0x9FC00 1024 = Some p" "(if p = 0 then acpi_find_rsdp m 0xE0000 0x20000 else Some p) = Some r"
    using two_areas(2) [OF find ok] unfolding sc by blast
  have found: "find_fadt (unat ((get32 m (rsdt + 4) - 36) div 4)) m (rsdt + 36) = Some a"
    using assms(7) by (simp add: find_fadt_eq assms(6))
  define s where "s = acpi_initial\<lparr>rsdp := r, fadt := a, acpi_enabled := 1, slp_typa := push_bit 10 5, slp_typb := push_bit 10 5\<rparr>"
  have "\<exists>c. k_printk (''ACPI: Revision %u, FADT at 0x%x'' @ [CHR 0x0A]) [VA_word (ucast (m (r + 15))), VA_word a] k
      = Some (k\<lparr>k_con := c\<rparr>) \<and> vga_ok c"
    by (rule k_print_some [OF assms(1)]) simp_all
  then obtain c where c: "k_printk (''ACPI: Revision %u, FADT at 0x%x'' @ [CHR 0x0A]) [VA_word (ucast (m (r + 15))), VA_word a] k
      = Some (k\<lparr>k_con := c\<rparr>)" "vga_ok c" by blast
  have init: "acpi_init acpi_initial k = Some (s, k\<lparr>k_con := c\<rparr>)"
    using p ne assms(5,8) found c(1) by (simp add: acpi_init_def assms(2) [symmetric] assms(4) [symmetric] s_def acpi_initial_def)
  have "\<exists>d. k_printk (''ACPI: Initiating system shutdown...'' @ [CHR 0x0A]) [] (k\<lparr>k_con := c\<rparr>) = Some (k\<lparr>k_con := c\<rparr>\<lparr>k_con := d\<rparr>) \<and> vga_ok d"
    by (rule k_print_some) (use c(2) in simp_all)
  then obtain d where d: "k_printk (''ACPI: Initiating system shutdown...'' @ [CHR 0x0A]) [] (k\<lparr>k_con := c\<rparr>) = Some (k\<lparr>k_con := d\<rparr>)" by auto
  have "slp_typa s OR slp_en s = 0x3400" "slp_typb s OR slp_en s = 0x3400" "fadt s = a" "acpi_enabled s = 1"
    by (simp_all add: s_def acpi_initial_def push_bit_eq_mult)
  then have "acpi_shutdown s (k\<lparr>k_con := c\<rparr>) = Some (Outw (ucast (get32 m (a + 64))) 0x3400
        # (if get32 m (a + 68) \<noteq> 0 then [Outw (ucast (get32 m (a + 68))) 0x3400] else [])
        @ [Outw 0x604 0x2000, Outw 0xB004 0x2000, Outw 0x4004 0x3400, Cli, Hlt], k\<lparr>k_con := d\<rparr>)"
    using d assms(8,9) by (simp add: acpi_shutdown_def assms(2) [symmetric])
  then show ?thesis using init \<open>fadt s = a\<close> \<open>acpi_enabled s = 1\<close> unfolding acpi_is_available_def by blast
qed

text \<open>The reset command is sent exactly if the keyboard controller once reports that it can take one.\<close>

lemma reboot_wait_ready: "\<forall>j. i \<le> j \<and> j < n \<longrightarrow> status j AND 2 \<noteq> 0 \<Longrightarrow> i \<le> n \<Longrightarrow> status n AND 2 = 0
    \<Longrightarrow> good AND 2 \<noteq> 0 \<Longrightarrow> reboot_wait status i good = Some (Suc n)"
proof (induction "n - i" arbitrary: i good)
  case 0
  then have "i = n" by simp
  then show ?case using 0 by (subst reboot_wait.simps, subst reboot_wait.simps) simp
next
  case (Suc d)
  have "reboot_wait status (Suc i) (status i) = Some (Suc n)"
    by (rule Suc.hyps(1)) (use Suc.hyps(2) Suc.prems in auto)
  then show ?case using Suc.prems(4) by (subst reboot_wait.simps) simp
qed

lemma reboot_wait_ends: "reboot_wait status i good = Some n \<Longrightarrow> good AND 2 = 0 \<or> (\<exists>j. status j AND 2 = 0)"
proof (induction rule: reboot_wait.raw_induct [rotated 1, consumes 1, case_names step])
  case (step f status i good n)
  from step.hyps show ?case using step.IH by (fastforce split: if_split_asm)
qed

lemma acpi_reboot_iff:
  assumes "vga_ok (k_con k)"
  shows "(\<exists>k'. acpi_reboot status k = Some ([Outb 0x64 0xFE, Lidt 0 0, Int3, Cli, Hlt], k')) \<longleftrightarrow> (\<exists>n. status n AND 2 = 0)"
proof
  assume "\<exists>k'. acpi_reboot status k = Some ([Outb 0x64 0xFE, Lidt 0 0, Int3, Cli, Hlt], k')"
  then obtain n where "reboot_wait status 0 2 = Some n" by (auto simp: acpi_reboot_def bind_eq_Some_conv)
  from reboot_wait_ends [OF this] show "\<exists>n. status n AND 2 = 0" by auto
next
  assume "\<exists>n. status n AND 2 = 0"
  then obtain n where n: "status n AND 2 = 0" "\<forall>j<n. status j AND 2 \<noteq> 0"
    using exists_least_iff [of "\<lambda>n. status n AND 2 = 0"] by blast
  have w: "reboot_wait status 0 2 = Some (Suc n)" by (rule reboot_wait_ready) (use n in simp_all)
  have "\<exists>c. k_printk (''ACPI: Initiating system reboot...'' @ [CHR 0x0A]) [] k = Some (k\<lparr>k_con := c\<rparr>) \<and> vga_ok c"
    by (rule k_print_some [OF assms]) simp_all
  then show "\<exists>k'. acpi_reboot status k = Some ([Outb 0x64 0xFE, Lidt 0 0, Int3, Cli, Hlt], k')" using w by (auto simp: acpi_reboot_def)
qed

section \<open>Routing of interrupts\<close>

lemma vga_putchar_grows: "vga_putchar c s = Some t \<Longrightarrow> \<exists>xs. ports t = ports s @ xs"
  by (auto simp: vga_putchar_def vga_act_def vga_wrap_def vga_scroll_def vga_put_cell_def vga_update_cursor_def outb_def
      Let_def split: if_splits Option.bind_splits)

lemma printk_chars_grows: "printk_chars cs s = Some t \<Longrightarrow> \<exists>xs. ports t = ports s @ xs"
proof (induction cs arbitrary: s)
  case (Cons c cs)
  then obtain u where u: "printk_out_char c s = Some u" "printk_chars cs u = Some t" by (auto simp: bind_eq_Some_conv)
  obtain v where v: "vga_putchar c s = Some v" "u = serial_putchar c (if c = CHR 0x0A then serial_putchar CHR 0x0D v else v)"
    using u(1) by (auto simp: printk_out_char_def bind_eq_Some_conv)
  have "\<exists>ys. ports u = ports v @ ys" unfolding v(2) by (simp add: serial_putchar_def outb_def)
  then show ?case using vga_putchar_grows [OF v(1)] Cons.IH [OF u(2)] by auto
qed simp

lemma k_print_grows:
  assumes "k_printk fmt args k = Some k'" and "NUL \<notin> set fmt" and "\<exists>out. printk_text fmt args = Some out"
  shows "\<exists>xs. ports (k_con k') = ports (k_con k) @ xs"
proof -
  obtain out where "printk_text fmt args = Some out" using assms(3) by blast
  then have "printk_loop (fmt @ [NUL]) args (k_con k) = printk_chars out (k_con k)" by (rule printk_loop_text [OF assms(2)])
  then show ?thesis using assms(1) printk_chars_grows by (auto simp: k_printk_def printk_def)
qed

text \<open>The redirection entry of an interrupt line is a pair of registers.\<close>

definition route_reg :: "nat \<Rightarrow> u32" where
  "route_reg i = 0x10 + 2 * of_nat i"

lemma ioapic_route_irq_eq:
  "i < 16 \<Longrightarrow> ioapic_route_irq (of_nat i) (32 + of_nat i) 0 s = s\<lparr>ioapic_select := route_reg i,
     ioapic_regs := (ioapic_regs s)(route_reg i + 1 := 0, route_reg i := 32 + of_nat i)\<rparr>"
proof -
  assume i: "i < 16"
  have "(ucast (of_nat i :: u8) :: u32) = of_nat i" "(ucast (32 + of_nat i :: u8) :: u32) = 32 + of_nat i"
    using i by (simp_all add: word_unat_eq_iff unat_word_ariths unat_of_nat unsigned_ucast_eq take_bit_nat_eq_self)
  then show ?thesis by (simp add: ioapic_route_irq_def ioapic_write_def Let_def route_reg_def algebra_simps)
qed

lemma route_reg_inj: "i < 16 \<Longrightarrow> j < 16 \<Longrightarrow> (route_reg i = route_reg j) = (i = j)" "i < 16 \<Longrightarrow> j < 16 \<Longrightarrow> route_reg i + 1 \<noteq> route_reg j"
  "i < 16 \<Longrightarrow> j < 16 \<Longrightarrow> route_reg j \<noteq> route_reg i + 1"
proof -
  assume ij: "i < 16" "j < 16"
  have u: "unat (route_reg i) = 16 + 2 * i" "unat (route_reg j) = 16 + 2 * j" "unat (route_reg i + 1) = 17 + 2 * i"
    using ij by (simp_all add: route_reg_def unat_word_ariths unat_of_nat)
  show "(route_reg i = route_reg j) = (i = j)" using u by (auto simp: word_unat_eq_iff)
  show "route_reg i + 1 \<noteq> route_reg j" "route_reg j \<noteq> route_reg i + 1" using u by (metis (no_types, lifting) even_Suc even_add even_mult_iff even_numeral numeral_eq_Suc dvd_refl u odd_numeral)+
qed

lemma route_all:
  assumes "n \<le> 16" and "s' = fold (\<lambda>i. ioapic_route_irq (of_nat i) (32 + of_nat i) 0) [0..<n] s"
  shows "(\<forall>i < n. ioapic_regs s' (route_reg i) = 32 + of_nat i \<and> ioapic_regs s' (route_reg i + 1) = 0)
    \<and> (\<forall>r. (\<forall>i < n. r \<noteq> route_reg i \<and> r \<noteq> route_reg i + 1) \<longrightarrow> ioapic_regs s' r = ioapic_regs s r)
    \<and> (\<exists>x f. s' = s\<lparr>ioapic_select := x, ioapic_regs := f\<rparr>)"
  using assms
proof (induction n arbitrary: s')
  case 0
  moreover have "s = s\<lparr>ioapic_select := ioapic_select s, ioapic_regs := ioapic_regs s\<rparr>" by simp
  ultimately have "\<exists>x f. s' = s\<lparr>ioapic_select := x, ioapic_regs := f\<rparr>" by (metis fold_simps(1) upt_0)
  with 0 show ?case by simp
next
  case (Suc n)
  let ?t = "fold (\<lambda>i. ioapic_route_irq (of_nat i) (32 + of_nat i) 0) [0..<n] s"
  have IH: "(\<forall>i < n. ioapic_regs ?t (route_reg i) = 32 + of_nat i \<and> ioapic_regs ?t (route_reg i + 1) = 0)"
    "(\<forall>r. (\<forall>i < n. r \<noteq> route_reg i \<and> r \<noteq> route_reg i + 1) \<longrightarrow> ioapic_regs ?t r = ioapic_regs s r)"
    "(\<exists>x f. ?t = s\<lparr>ioapic_select := x, ioapic_regs := f\<rparr>)"
    using Suc.IH [of ?t] Suc.prems(1) by simp_all
  have s': "s' = ?t\<lparr>ioapic_select := route_reg n, ioapic_regs := (ioapic_regs ?t)(route_reg n + 1 := 0, route_reg n := 32 + of_nat n)\<rparr>"
    using Suc.prems by (simp add: ioapic_route_irq_eq)
  have "ioapic_regs s' (route_reg i) = 32 + of_nat i \<and> ioapic_regs s' (route_reg i + 1) = 0" if "i < Suc n" for i
  proof (cases "i = n")
    case True
    then show ?thesis unfolding s' using route_reg_inj [of n n] Suc.prems(1) by simp
  next
    case False
    then show ?thesis unfolding s' using IH(1) that route_reg_inj [of i n] route_reg_inj [of n i] Suc.prems(1) by auto
  qed
  moreover have "ioapic_regs s' r = ioapic_regs s r" if "\<forall>i < Suc n. r \<noteq> route_reg i \<and> r \<noteq> route_reg i + 1" for r
    unfolding s' using IH(2) that by simp
  moreover have "\<exists>x f. s' = s\<lparr>ioapic_select := x, ioapic_regs := f\<rparr>"
  proof -
    obtain x f where "?t = s\<lparr>ioapic_select := x, ioapic_regs := f\<rparr>" using IH(3) by blast
    then have "s' = s\<lparr>ioapic_select := route_reg n, ioapic_regs := f(route_reg n + 1 := 0, route_reg n := 32 + of_nat n)\<rparr>" unfolding s' by simp
    then show ?thesis by blast
  qed
  ultimately show ?case by blast
qed
text \<open>After \<open>apic_init\<close> the local controller is enabled and ticks at vector 32, each of the 16 interrupt lines is routed to its
  own vector \<open>32 + i\<close> on processor 0, no other register of the I/O controller has changed, and all lines
  of the 8259 controllers are masked before anything else is written.\<close>

theorem apic_init_correct:
  assumes "vga_ok (k_con (m_proc (apic_machine s)))" and "i < 16"
  shows "\<exists>s' out. apic_init s = Some s' \<and> bit (apic_msr s') 11
    \<and> ioapic_regs s' (route_reg i) = 32 + of_nat i \<and> ioapic_regs s' (route_reg i + 1) = 0
    \<and> (\<forall>r. (\<forall>j < 16. r \<noteq> route_reg j \<and> r \<noteq> route_reg j + 1) \<longrightarrow> ioapic_regs s' r = ioapic_regs s r)
    \<and> lapic_regs s' = (lapic_regs s)(0xF0 := 0x1FF, 0x3E0 := 3, 0x320 := 0x20020, 0x380 := 1000000)
    \<and> ports (k_con (m_proc (apic_machine s'))) = ports (k_con (m_proc (apic_machine s))) @ (0x21, 0xFF) # (0xA1, 0xFF) # out"
proof -
  define s1 where "s1 = (if apic_msr s AND push_bit 11 1 = 0 then s\<lparr>apic_msr := apic_msr s OR push_bit 11 1\<rparr> else s)"
  define b where "b = (ucast (apic_msr s1 AND 0xFFFFF000) :: u32)"
  define s2 where "s2 = (if b \<noteq> 0 then s1\<lparr>lapic_base := b\<rparr> else s1)"
  define s3 where "s3 = lapic_write 0xF0 0x1FF (apic_disable_pic (apic_map_page (ioapic_base s2) (apic_map_page (lapic_base s2) s2)))"
  define s4 where "s4 = fold (\<lambda>i. ioapic_route_irq (of_nat i) (32 + of_nat i) 0) [0..<16] s3"
  define s5 where "s5 = snd (ioapic_read 0x01 (apic_timer_init 1000 s4))"
  define v where "v = fst (ioapic_read 0x01 (apic_timer_init 1000 s4))"
  have "bit (apic_msr s1) 11" using and_exp_eq_0_iff_not_bit [of "apic_msr s" 11] by (auto simp: s1_def and_exp_eq_0_iff_not_bit push_bit_eq_mult bit_or_iff bit_push_bit_iff bit_1_iff)
  moreover have s1: "ioapic_regs s1 = ioapic_regs s" "lapic_regs s1 = lapic_regs s" "apic_machine s1 = apic_machine s" by (simp_all add: s1_def)
  ultimately have s2: "bit (apic_msr s2) 11" "ioapic_regs s2 = ioapic_regs s" "lapic_regs s2 = lapic_regs s" "apic_machine s2 = apic_machine s"
    by (simp_all add: s2_def)
  have s3: "bit (apic_msr s3) 11" "ioapic_regs s3 = ioapic_regs s" "lapic_regs s3 = (lapic_regs s)(0xF0 := 0x1FF)"
    "k_con (m_proc (apic_machine s3)) = outb 0xA1 0xFF (outb 0x21 0xFF (k_con (m_proc (apic_machine s))))"
    using s2 by (simp_all add: s3_def lapic_write_def apic_disable_pic_def apic_map_page_def on_apic_machine_def apic_write_def k_on_vm_def Let_def)
  note r = route_all [OF order_refl s4_def]
  obtain x f where x: "s4 = s3\<lparr>ioapic_select := x, ioapic_regs := f\<rparr>" using r by blast
  have s5: "bit (apic_msr s5) 11" "ioapic_regs s5 = ioapic_regs s4"
    "lapic_regs s5 = (lapic_regs s)(0xF0 := 0x1FF, 0x3E0 := 3, 0x320 := 0x20020, 0x380 := 1000000)"
    "m_proc (apic_machine s5) = m_proc (apic_machine s3)"
    using s3 x by (simp_all add: s5_def ioapic_read_def apic_timer_init_def lapic_write_def apic_write_def Let_def)
  let ?f1 = "''APIC: Local APIC at 0x%x, ID %u'' @ [CHR 0x0A]" and ?a1 = "[VA_word (lapic_base s5), VA_word (drop_bit 24 (apic_read 0x20 s5))]"
  let ?f2 = "''APIC: I/O APIC at 0x%x, version %u, %u redirection entries'' @ [CHR 0x0A]"
  let ?a2 = "[VA_word (ioapic_base s5), VA_word (v AND 0xFF), VA_word (drop_bit 16 v AND 0xFF)]"
  have o: "NUL \<notin> set ?f1" "\<exists>out. printk_text ?f1 ?a1 = Some out" "NUL \<notin> set ?f2" "\<exists>out. printk_text ?f2 ?a2 = Some out" by simp_all
  have "vga_ok (k_con (m_proc (apic_machine s5)))" using assms(1) s3(4) s5(4) by simp
  from k_print_some [OF this o(1,2)] obtain c where c: "k_printk ?f1 ?a1 (m_proc (apic_machine s5)) = Some ((m_proc (apic_machine s5))\<lparr>k_con := c\<rparr>)" "vga_ok c" by blast
  let ?k = "(m_proc (apic_machine s5))\<lparr>k_con := c\<rparr>"
  from k_print_some [of ?k, OF _ o(3,4)] c(2) obtain d where d: "k_printk ?f2 ?a2 ?k = Some (?k\<lparr>k_con := d\<rparr>)" by auto
  obtain o1 where o1: "ports c = ports (k_con (m_proc (apic_machine s5))) @ o1" using k_print_grows [OF c(1) o(1,2)] by auto
  obtain o2 where o2: "ports d = ports c @ o2" using k_print_grows [OF d o(3,4)] by auto
  have p: "ports d = ports (k_con (m_proc (apic_machine s))) @ (0x21, 0xFF) # (0xA1, 0xFF) # o1 @ o2"
    using o1 o2 s5(4) s3(4) by simp
  let ?m = "(apic_machine s5)\<lparr>m_proc := ?k\<lparr>k_con := d\<rparr>\<rparr>"
  have print: "m_printk ?f1 ?a1 (apic_machine s5) = Some ((apic_machine s5)\<lparr>m_proc := ?k\<rparr>)"
    "m_printk ?f2 ?a2 ((apic_machine s5)\<lparr>m_proc := ?k\<rparr>) = Some ?m"
    using c(1) d by (simp_all add: m_printk_def)
  have "ioapic_read 0x01 (apic_timer_init 1000 s4) = (v, s5)" by (simp add: v_def s5_def)
  then have run: "apic_init s = Some (s5\<lparr>apic_machine := ?m\<rparr>)"
    unfolding apic_init_def Let_def s1_def [symmetric] b_def [symmetric] s2_def [symmetric] s3_def [symmetric] s4_def [symmetric]
    by (simp only: prod.case print bind.bind_lunit)
  have "ioapic_regs s5 (route_reg i) = 32 + of_nat i \<and> ioapic_regs s5 (route_reg i + 1) = 0"
    "\<forall>r. (\<forall>j < 16. r \<noteq> route_reg j \<and> r \<noteq> route_reg j + 1) \<longrightarrow> ioapic_regs s5 r = ioapic_regs s r"
    using r assms(2) s3(2) by (simp_all add: s5(2))
  then show ?thesis using run s5(1,3) p
    by (intro exI [of _ "s5\<lparr>apic_machine := ?m\<rparr>"] exI [of _ "o1 @ o2"]) simp
qed

section \<open>Concrete tables\<close>

definition rom :: "u32 \<Rightarrow> u8 list \<Rightarrow> u32 \<Rightarrow> u8" where
  "rom base bs a = (if a - base < of_nat (length bs) then bs ! unat (a - base) else 0)"

definition mp_rom :: "u32 \<Rightarrow> u8" where
  "mp_rom = rom 0x9FC00 (map char_byte ''_MP_'' @ [0x10, 0xFC, 0x09, 0, 1, 4, 139, 0, 0, 0, 0, 0]
     @ map char_byte ''PCMP'' @ replicate 30 0 @ [3, 0] @ replicate 8 0
     @ [0, 0, 20, 3] @ replicate 16 0 @ [0, 5, 20, 1] @ replicate 16 0 @ [2, 0, 0, 0, 0, 0, 0, 0])"

lemma find_first: "P a \<Longrightarrow> n \<noteq> 0 \<Longrightarrow> find P (areas ((a, n) # as)) = Some a"
  by (cases n) (simp_all add: areas_def upt_conv_Cons del: upt_Suc)

lemma mp_rom_tables:
  "mp_here mp_rom 0x9FC00" "get32 mp_rom 0x9FC04 = 0x9FC10" "sig_at mp_rom 0x9FC10 ''PCMP''" "get16 mp_rom (0x9FC10 + 34) = 3"
  "entries_at mp_rom (0x9FC10 + 44) [Cpu 0 3, Cpu 5 1, Device 2]"
  by code_simp+

definition firmware_example :: "(u32 \<Rightarrow> u8) \<Rightarrow> kern" where
  "firmware_example m = \<lparr>k_pmm = heap_pmm heap_example, k_heap = heap_example\<lparr>bytes := m\<rparr>, k_vm = vm_example, k_con = console_example\<rparr>"

lemma firmware_example_simps [simp]: "vga_ok (k_con (firmware_example m))" "bytes (k_heap (firmware_example m)) = m"
  using console_example_ok by (simp_all add: firmware_example_def)

theorem smp_init_correct_witness:
  "(\<exists>s c. smp_init (firmware_example mp_rom) = Some (s, (firmware_example mp_rom)\<lparr>k_con := c\<rparr>)
      \<and> smp_get_cpu_count s = 2 \<and> ci_apic_id (cpus s ! 1) = 5)
   \<and> (\<exists>s c. smp_init (firmware_example (\<lambda>_. 0)) = Some (s, (firmware_example (\<lambda>_. 0))\<lparr>k_con := c\<rparr>)
      \<and> smp_get_cpu_count s = 1 \<and> cpus s = boot_cpus)"
proof
  have f: "find (mp_here mp_rom) mp_areas = Some 0x9FC00"
    unfolding mp_areas_def by (rule find_first) (simp_all add: mp_rom_tables)
  have t: "mp_table mp_rom = Some 0x9FC10" using f mp_rom_tables(2,3) by (simp add: mp_table_def)
  have n: "unat (get16 mp_rom (0x9FC10 + 34)) = 3" by (simp only: mp_rom_tables(4)) simp
  let ?es = "[Cpu 0 3, Cpu 5 1, Device 2]"
  have on: "online es = online ?es" if "entries_at mp_rom (0x9FC10 + 44) es" "length es = 3" for es
    using entries_online [OF that(1) mp_rom_tables(5)] that(2) by simp
  have os: "take 32 (online ?es)
      = [\<lparr>ci_apic_id = 0, ci_enabled = 1, ci_is_bsp = 1\<rparr>, \<lparr>ci_apic_id = 5, ci_enabled = 1, ci_is_bsp = 0\<rparr>]" by code_simp
  from smp_init_correct [of "firmware_example mp_rom" mp_rom] t
  obtain s c os' es where "smp_init (firmware_example mp_rom) = Some (s, (firmware_example mp_rom)\<lparr>k_con := c\<rparr>)"
    "entries_at mp_rom (0x9FC10 + 44) es" "length es = unat (get16 mp_rom (0x9FC10 + 34))" "os' = take 32 (online es)"
    "smp_get_cpu_count s = (if os' = [] then 1 else of_nat (length os'))" "cpus s = os' @ drop (length os') boot_cpus"
    by auto
  then show "\<exists>s c. smp_init (firmware_example mp_rom) = Some (s, (firmware_example mp_rom)\<lparr>k_con := c\<rparr>)
      \<and> smp_get_cpu_count s = 2 \<and> ci_apic_id (cpus s ! 1) = 5"
    using on [of es] os n by (intro exI [of _ s] exI [of _ c]) simp
  have "\<not> mp_here (\<lambda>_. 0) a" for a
    by (simp add: mp_here_def sig_at_iff load_bytes_def char_byte_def)
  then have "mp_table (\<lambda>_. 0) = None" by (simp add: mp_table_def find_None_iff [THEN iffD2])
  with smp_init_correct [of "firmware_example (\<lambda>_. 0)" "\<lambda>_. 0"]
  show "\<exists>s c. smp_init (firmware_example (\<lambda>_. 0)) = Some (s, (firmware_example (\<lambda>_. 0))\<lparr>k_con := c\<rparr>)
      \<and> smp_get_cpu_count s = 1 \<and> cpus s = boot_cpus"
    by auto
qed

definition acpi_rom :: "u32 \<Rightarrow> u8" where
  "acpi_rom = rom 0x9FC00 (map char_byte ''RSD PTR '' @ [186, 0, 0, 0, 0, 0, 0, 2, 0x20, 0xFC, 0x09, 0] @ replicate 12 0
     @ map char_byte ''RSDT'' @ [44, 0, 0, 0] @ replicate 28 0 @ [0, 0, 0, 0] @ [0x4C, 0xFC, 0x09, 0]
     @ map char_byte ''FACP'' @ replicate 60 0 @ [0x04, 0x06, 0, 0])"

lemma acpi_rom_tables:
  "rsdp_here acpi_rom 0x9FC00" "get32 acpi_rom (0x9FC00 + 16) = 0x9FC20" "sig_at acpi_rom 0x9FC20 ''RSDT''"
  "get32 acpi_rom (0x9FC20 + 4) = 44" "get32 acpi_rom 0x9FC44 = 0" "get32 acpi_rom 0x9FC48 = 0x9FC4C"
  "\<not> sig_at acpi_rom 0 ''FACP''" "sig_at acpi_rom 0x9FC4C ''FACP''"
  "get32 acpi_rom (0x9FC4C + 64) = 0x604" "get32 acpi_rom (0x9FC4C + 68) = 0"
  by code_simp+

lemma acpi_rom_entries:
  "2 = unat ((get32 acpi_rom (0x9FC20 + 4) - 36) div 4)"
  "find (\<lambda>a. sig_at acpi_rom a ''FACP'') (map (\<lambda>i. get32 acpi_rom (0x9FC20 + 36 + 4 * of_nat i)) [0..<2]) = Some 0x9FC4C"
  unfolding acpi_rom_tables(4) by (simp_all add: upt_rec acpi_rom_tables)

theorem acpi_shutdown_correct_witness:
  "\<exists>s c d. acpi_init acpi_initial (firmware_example acpi_rom) = Some (s, (firmware_example acpi_rom)\<lparr>k_con := c\<rparr>)
    \<and> acpi_shutdown s ((firmware_example acpi_rom)\<lparr>k_con := c\<rparr>)
      = Some ([Outw 0x604 0x3400, Outw 0x604 0x2000, Outw 0xB004 0x2000, Outw 0x4004 0x3400, Cli, Hlt], (firmware_example acpi_rom)\<lparr>k_con := d\<rparr>)"
proof -
  have f: "find (rsdp_here acpi_rom) acpi_areas = Some 0x9FC00"
    unfolding acpi_areas_def by (rule find_first) (simp_all add: acpi_rom_tables)
  have pm: "get32 acpi_rom (0x9FC4C + 64) \<noteq> 0" unfolding acpi_rom_tables(9) by simp
  have "\<exists>s c d. acpi_init acpi_initial (firmware_example acpi_rom) = Some (s, (firmware_example acpi_rom)\<lparr>k_con := c\<rparr>) \<and> acpi_is_available s = 1 \<and> fadt s = 0x9FC4C
    \<and> acpi_shutdown s ((firmware_example acpi_rom)\<lparr>k_con := c\<rparr>) = Some (Outw (ucast (get32 acpi_rom (0x9FC4C + 64))) 0x3400
        # (if get32 acpi_rom (0x9FC4C + 68) \<noteq> 0 then [Outw (ucast (get32 acpi_rom (0x9FC4C + 68))) 0x3400] else [])
        @ [Outw 0x604 0x2000, Outw 0xB004 0x2000, Outw 0x4004 0x3400, Cli, Hlt], (firmware_example acpi_rom)\<lparr>k_con := d\<rparr>)"
    by (rule acpi_shutdown_correct [OF _ _ f acpi_rom_tables(2) [symmetric] acpi_rom_tables(3) acpi_rom_entries _ pm]) simp_all
  moreover have "(ucast (0x604 :: u32) :: u16) = 0x604" by simp
  ultimately show ?thesis unfolding acpi_rom_tables(9,10) by auto
qed

definition apic_example :: apic where
  "apic_example = \<lparr>apic_msr = 0xFEE00100, lapic_base = 0xFEE00000, ioapic_base = 0xFEC00000, lapic_regs = (\<lambda>_. 0), ioapic_select = 0,
     ioapic_regs = (\<lambda>r. if r = 1 then 0x170011 else 0x10000), apic_machine = machine_example\<rparr>"

theorem apic_init_correct_witness:
  "\<exists>s. apic_init apic_example = Some s \<and> ioapic_regs s 0x12 = 33 \<and> ioapic_regs s 1 = 0x170011"
proof -
  have "vga_ok (k_con (m_proc (apic_machine apic_example)))" using console_example_ok by (simp add: apic_example_def machine_example_def)
  from apic_init_correct [OF this, of 1] obtain s where s: "apic_init apic_example = Some s" "ioapic_regs s (route_reg 1) = 33"
    "\<forall>r. (\<forall>j < 16. r \<noteq> route_reg j \<and> r \<noteq> route_reg j + 1) \<longrightarrow> ioapic_regs s r = ioapic_regs apic_example r" by auto
  have "1 \<noteq> route_reg j \<and> 1 \<noteq> route_reg j + 1" if "j < 16" for j
  proof -
    have "unat (route_reg j) = 16 + 2 * j" "unat (route_reg j + 1) = 17 + 2 * j"
      using that by (simp_all add: route_reg_def unat_word_ariths unat_of_nat)
    then have "unat (route_reg j) \<noteq> 1" "unat (route_reg j + 1) \<noteq> 1" by simp_all
    then show ?thesis by (metis unat_1)
  qed
  then have "ioapic_regs s 1 = ioapic_regs apic_example 1" using s(3) by blast
  then show ?thesis using s(1,2) by (auto simp: route_reg_def apic_example_def)
qed

end
