(* ===== verification/Diagnostics.thy ===== *)
theory Diagnostics
  imports Klog Firmware
begin

unbundle bit_operations_syntax

text \<open>
  Diagnostics, \<^verbatim>\<open>kernel/debug.c\<close>, and the end of the kernel, \<^verbatim>\<open>kernel/panic.c\<close>.  What the
  processor holds in its registers at the call is an argument.  A call that stops the machine returns the state in
  which it stopped.
\<close>

section \<open>Reports\<close>

text \<open>Several calls of \<open>printk\<close> in a row.\<close>

fun k_prints :: "(char list \<times> va_arg list) list \<Rightarrow> 'a kern_scheme \<Rightarrow> 'a kern_scheme option" where
  "k_prints [] k = Some k"
| "k_prints ((fmt, args) # ps) k = Option.bind (k_printk fmt args k) (k_prints ps)"

definition debug_mem_stats :: "'a kern_scheme \<Rightarrow> 'a kern_scheme option" where
  "debug_mem_stats k = do {
     let total_p = pmm_get_total_count (k_pmm k);
     let free_p = pmm_get_free_count (k_pmm k);
     let used_p = total_p - free_p;
     heap_free_bytes \<leftarrow> heap_get_free (k_heap k);
     heap_used_bytes \<leftarrow> heap_get_used (k_heap k);
     let heap_total = heap_free_bytes + heap_used_bytes;
     let frag_pct = (if heap_total > 0 then heap_free_bytes * 100 div heap_total else 0);
     k_prints
       [(CHR 0x0A # ''=== MEMORY DIAGNOSTIC STATS ==='' @ [CHR 0x0A], []),
        (''PHYSICAL MEMORY:'' @ [CHR 0x0A], []),
        (''  Total Pages : %u (%u MB)'' @ [CHR 0x0A], [VA_word total_p, VA_word (total_p * 4 div 1024)]),
        (''  Used Pages  : %u (%u MB)'' @ [CHR 0x0A], [VA_word used_p, VA_word (used_p * 4 div 1024)]),
        (''  Free Pages  : %u (%u MB)'' @ [CHR 0x0A], [VA_word free_p, VA_word (free_p * 4 div 1024)]),
        (''KERNEL HEAP:'' @ [CHR 0x0A], []),
        (''  Total Heap  : %u KB'' @ [CHR 0x0A], [VA_word (heap_total div 1024)]),
        (''  Used Heap   : %u KB'' @ [CHR 0x0A], [VA_word (heap_used_bytes div 1024)]),
        (''  Free Heap   : %u KB'' @ [CHR 0x0A], [VA_word (heap_free_bytes div 1024)]),
        (''  Free Ratio  : %u%%'' @ [CHR 0x0A], [VA_word frag_pct]),
        (''================================'' @ [CHR 0x0A, CHR 0x0A], [])] k
   }"

text \<open>The loop of \<open>debug_dump_stack\<close>: \<open>n\<close> frames left, \<open>i\<close> printed.\<close>

primrec dump_frames :: "nat \<Rightarrow> u32 \<Rightarrow> u32 \<Rightarrow> 'a kern_scheme \<Rightarrow> 'a kern_scheme option" where
  "dump_frames 0 i ebp k = Some k"
| "dump_frames (Suc n) i ebp k =
     (if ebp = 0 then Some k
      else let eip = get32 (bytes (k_heap k)) (ebp + 4)
           in if eip = 0 then Some k
              else do {
                k \<leftarrow> k_printk (''[%u] EBP: 0x%08x  EIP: 0x%08x'' @ [CHR 0x0A]) [VA_word i, VA_word ebp, VA_word eip] k;
                dump_frames n (i + 1) (get32 (bytes (k_heap k)) ebp) k
              })"

definition debug_dump_stack :: "u32 \<Rightarrow> u32 \<Rightarrow> 'a kern_scheme \<Rightarrow> 'a kern_scheme option" where
  "debug_dump_stack count ebp k = do {
     k \<leftarrow> k_printk (''--- STACK BACKTRACE ---'' @ [CHR 0x0A]) [] k;
     k \<leftarrow> dump_frames (unat count) 0 ebp k;
     k_printk (''-----------------------'' @ [CHR 0x0A]) [] k
   }"

text \<open>One line of \<open>debug_hexdump\<close>: the address, sixteen bytes in hexadecimal and as characters.\<close>

definition hexdump_line :: "u32 \<Rightarrow> u32 \<Rightarrow> u32 \<Rightarrow> 'a kern_scheme \<Rightarrow> 'a kern_scheme option" where
  "hexdump_line addr i len k =
     (let ptr = (\<lambda>j. bytes (k_heap k) (addr + (i + of_nat j)))
      in k_prints
           ([(''0x%08x  '', [VA_word (addr + i)])]
            @ map (\<lambda>j. if i + of_nat j < len then (''%02x '', [VA_word (ucast (ptr j))]) else (''   '', [])) [0..<16]
            @ [('' |'', [])]
            @ concat (map (\<lambda>j. if i + of_nat j < len
                then [if ptr j \<ge> 32 \<and> ptr j \<le> 126 then (''%c'', [VA_word (ucast (ptr j))]) else (''.'', [])] else []) [0..<16])
            @ [(''|'' @ [CHR 0x0A], [])]) k)"

partial_function (option) hexdump_loop :: "u32 \<Rightarrow> u32 \<Rightarrow> u32 \<Rightarrow> 'a kern_scheme \<Rightarrow> 'a kern_scheme option" where
  "hexdump_loop addr i len k =
     (if i < len then do { k \<leftarrow> hexdump_line addr i len k; hexdump_loop addr (i + 16) len k } else Some k)"

definition debug_hexdump :: "u32 \<Rightarrow> u32 \<Rightarrow> 'a kern_scheme \<Rightarrow> 'a kern_scheme option" where
  "debug_hexdump addr len k = (if addr = 0 \<or> len = 0 then Some k else hexdump_loop addr 0 len k)"

text \<open>\<^verbatim>\<open>vmm_get_kernel_directory\<close> is not defined in the source: the directory is an argument.\<close>

definition debug_page_table_info :: "u32 \<Rightarrow> 'a kern_scheme \<Rightarrow> 'a kern_scheme option" where
  "debug_page_table_info dir k =
     (if dir = 0 then Some k
      else let mapped_tables = fold (\<lambda>i n. if mem (k_vm k) (entry_addr dir (of_nat i)) AND VMM_PRESENT \<noteq> 0 then n + 1 else n) [0..<1024] (0 :: u32)
           in k_printk (''VMM: Kernel Page Directory at 0x%x (%u active page tables)'' @ [CHR 0x0A]) [VA_word dir, VA_word mapped_tables] k)"

section \<open>Panic\<close>

record cpu_regs =
  cr_eax :: u32
  cr_ebx :: u32
  cr_ecx :: u32
  cr_edx :: u32
  cr_esp :: u32
  cr_ebp :: u32

text \<open>The state in which the machine is halted for ever.\<close>

definition kernel_panic :: "cptr \<Rightarrow> cpu_regs \<Rightarrow> u32 \<Rightarrow> klog_ring \<times> 'a kern_scheme \<Rightarrow> (klog_ring \<times> 'a kern_scheme) option" where
  "kernel_panic msg r ticks = (\<lambda>(l, k). do {
     con \<leftarrow> vga_clear (vga_set_color 15 4 (k_con k));
     k \<leftarrow> k_prints
       [(CHR 0x0A # ''==================================================================='' @ [CHR 0x0A], []),
        (''                    !!! KERNEL PANIC !!!                            '' @ [CHR 0x0A], []),
        (''==================================================================='' @ [CHR 0x0A, CHR 0x0A], [])] (k\<lparr>k_con := con\<rparr>);
     (l, k) \<leftarrow> (case msg of
         None \<Rightarrow> do { k \<leftarrow> k_printk (''REASON: Unknown Fatal Error'' @ [CHR 0x0A, CHR 0x0A]) [] k; Some (l, k) }
       | Some m \<Rightarrow> do {
           k \<leftarrow> k_printk (''REASON: %s'' @ [CHR 0x0A, CHR 0x0A]) [VA_str (Some m)] k;
           (l, con) \<leftarrow> klog 4 (''PANIC: %s'' @ [CHR 0x0A, NUL]) [VA_str (Some m)] ticks (l, k_con k);
           Some (l, k\<lparr>k_con := con\<rparr>) });
     k \<leftarrow> k_prints
       [(''REGISTERS:'' @ [CHR 0x0A], []),
        (''  EAX: 0x%08x  EBX: 0x%08x  ECX: 0x%08x  EDX: 0x%08x'' @ [CHR 0x0A],
           [VA_word (cr_eax r), VA_word (cr_ebx r), VA_word (cr_ecx r), VA_word (cr_edx r)]),
        (''  ESP: 0x%08x  EBP: 0x%08x'' @ [CHR 0x0A, CHR 0x0A], [VA_word (cr_esp r), VA_word (cr_ebp r)])] k;
     k \<leftarrow> debug_dump_stack 10 (cr_ebp r) k;
     k \<leftarrow> k_printk (CHR 0x0A # ''System halted. Please reboot the machine.'' @ [CHR 0x0A]) [] k;
     Some (l, k)
   })"

text \<open>\<^term>\<open>Inl\<close> when the machine is halted.\<close>

definition kernel_assert :: "int \<Rightarrow> cptr \<Rightarrow> u32 \<Rightarrow> cptr \<Rightarrow> cpu_regs \<Rightarrow> u32 \<Rightarrow> klog_ring \<times> 'a kern_scheme
    \<Rightarrow> ((klog_ring \<times> 'a kern_scheme) + (klog_ring \<times> 'a kern_scheme)) option" where
  "kernel_assert condition file line expr r ticks = (\<lambda>(l, k).
     if condition \<noteq> 0 then Some (Inr (l, k))
     else do {
       k \<leftarrow> k_printk (''Assertion failed: (%s) at %s:%d'' @ [CHR 0x0A])
              [VA_str (case expr of None \<Rightarrow> Some (''false'' @ [NUL]) | Some e \<Rightarrow> Some e),
               VA_str (case file of None \<Rightarrow> Some (''unknown'' @ [NUL]) | Some f \<Rightarrow> Some f), VA_word line] k;
       map_option Inl (kernel_panic (Some (''Kernel Assertion Failed'' @ [NUL])) r ticks (l, k))
     })"

section \<open>What is shown\<close>

text \<open>The console of \<open>k'\<close> shows \<open>out\<close> after what \<open>k\<close> shows; nothing else differs.\<close>

definition k_shows :: "'a kern_scheme \<Rightarrow> char list \<Rightarrow> 'a kern_scheme \<Rightarrow> bool" where
  "k_shows k out k' \<longleftrightarrow> k' = k\<lparr>k_con := k_con k'\<rparr> \<and> vga_ok (k_con k') \<and> vga_color (k_con k') = vga_color (k_con k)
    \<and> screen (k_con k') = fold (term_put (vga_color (k_con k))) out (screen (k_con k))
    \<and> serial_sent (k_con k') = serial_sent (k_con k) @ map char_byte (crlf out)"

lemma k_shows_nothing: "vga_ok (k_con k) \<Longrightarrow> k_shows k [] k"
  by (simp add: k_shows_def crlf_def)

lemma k_shows_trans: "k_shows k o1 k1 \<Longrightarrow> k_shows k1 o2 k2 \<Longrightarrow> k_shows k (o1 @ o2) k2"
  unfolding k_shows_def by (metis (no_types, lifting) append.assoc crlf_def concat_append fold_append comp_apply map_append kern.surjective kern.update_convs(4))

lemma k_shows_frame:
  "k_shows k out k' \<Longrightarrow> bytes (k_heap k') = bytes (k_heap k)" "k_shows k out k' \<Longrightarrow> k_vm k' = k_vm k"
  "k_shows k out k' \<Longrightarrow> vga_ok (k_con k')" "k_shows k out k' \<Longrightarrow> vga_color (k_con k') = vga_color (k_con k)"
  "k_shows k out k' \<Longrightarrow> \<exists>c. k' = k\<lparr>k_con := c\<rparr>"
  unfolding k_shows_def by (metis kern.select_convs kern.surjective kern.update_convs(4))+

lemma k_printk_shows:
  assumes "vga_ok (k_con k)" and "NUL \<notin> set fmt" and "printk_text fmt args = Some out"
  shows "\<exists>k'. k_printk fmt args k = Some k' \<and> k_shows k out k'"
  using printk_chars_output [OF assms(1), of out] printk_loop_text [OF assms(2,3), of "k_con k"]
  by (auto simp: k_printk_def printk_def k_shows_def)

definition prints_text :: "(char list \<times> va_arg list) list \<Rightarrow> char list option" where
  "prints_text ps = map_option concat (those (map (\<lambda>(fmt, args). if NUL \<in> set fmt then None else printk_text fmt args) ps))"

lemma prints_text_simps [simp]:
  "prints_text [] = Some []"
  "prints_text ((fmt, args) # ps) = (if NUL \<in> set fmt then None else Option.bind (printk_text fmt args) (\<lambda>t. map_option ((@) t) (prints_text ps)))"
  by (auto simp: prints_text_def map_option_case option.map_comp split: option.split)

lemma prints_text_append:
  "prints_text (ps @ qs) = Option.bind (prints_text ps) (\<lambda>t. map_option ((@) t) (prints_text qs))"
proof (induction ps)
  case Nil
  then show ?case by (cases "prints_text qs") simp_all
next
  case (Cons p ps)
  obtain fmt args where p: "p = (fmt, args)" by fastforce
  show ?case
    by (cases "NUL \<in> set fmt"; cases "printk_text fmt args"; cases "prints_text ps"; cases "prints_text qs") (simp_all add: p Cons)
qed

lemma k_prints_shows:
  "vga_ok (k_con k) \<Longrightarrow> prints_text ps = Some out \<Longrightarrow> \<exists>k'. k_prints ps k = Some k' \<and> k_shows k out k'"
proof (induction ps arbitrary: k out)
  case (Cons p ps)
  obtain fmt args where p: "p = (fmt, args)" by fastforce
  obtain o1 o2 where o: "NUL \<notin> set fmt" "printk_text fmt args = Some o1" "prints_text ps = Some o2" "out = o1 @ o2"
    using Cons.prems(2) by (auto simp: p bind_eq_Some_conv split: if_split_asm)
  obtain k1 where k1: "k_printk fmt args k = Some k1" "k_shows k o1 k1" using k_printk_shows [OF Cons.prems(1) o(1,2)] by blast
  obtain k2 where "k_prints ps k1 = Some k2" "k_shows k1 o2 k2" using Cons.IH [OF k_shows_frame(3) [OF k1(2)] o(3)] by blast
  then show ?case using k1 k_shows_trans by (auto simp: p o(4))
qed (auto intro: k_shows_nothing)

section \<open>A dump of memory\<close>

text \<open>The reference: lines of sixteen bytes.  As \<open>printk\<close> knows no widths, the columns for the address and the bytes in
  hexadecimal show the conversions themselves; only the characters show the memory.\<close>

definition show_byte :: "u8 \<Rightarrow> char" where
  "show_byte b = (if b \<ge> 32 \<and> b \<le> 126 then char_of (unat b) else CHR ''.'')"

definition dump_line :: "u8 list \<Rightarrow> char list" where
  "dump_line bs = ''0x%08x  '' @ concat (replicate (length bs) ''%02x '') @ concat (replicate (16 - length bs) ''   '')
     @ '' |'' @ map show_byte bs @ ''|'' @ [CHR 0x0A]"

fun chunks :: "nat \<Rightarrow> 'a list \<Rightarrow> 'a list list" where
  "chunks 0 xs = []"
| "chunks (Suc n) xs = take 16 xs # chunks n (drop 16 xs)"

definition dump_text :: "u8 list \<Rightarrow> char list" where
  "dump_text bs = concat (map dump_line (chunks ((length bs + 15) div 16) bs))"

lemma prints_hex:
  "prints_text (map (\<lambda>j. if P j then (''%02x '', [VA_word (f j)]) else (''   '', [])) js)
    = Some (concat (map (\<lambda>j. if P j then ''%02x '' else ''   '') js))"
  by (induction js) simp_all

lemma char_byte_word: "(char_of (unat (ucast (b :: u8) :: u32)) :: char) = char_of (unat b)"
  by (simp add: unsigned_ucast_eq take_bit_nat_eq_self unsigned_less order_less_le_trans [OF unsigned_less])

lemma prints_ascii:
  "prints_text (concat (map (\<lambda>j. if P j then [if ptr j \<ge> 32 \<and> ptr j \<le> 126 then (''%c'', [VA_word (ucast (ptr j))]) else (''.'', [])] else []) js))
    = Some (map (\<lambda>j. show_byte (ptr j)) (filter P js))"
  by (induction js) (simp_all add: show_byte_def char_byte_word)

lemma hexdump_line_shows:
  assumes "vga_ok (k_con k)" and "unat i + 16 < 2 ^ 32" and "bs = take 16 (drop (unat i) (load_bytes (bytes (k_heap k)) addr (unat len)))"
  shows "\<exists>k'. hexdump_line addr i len k = Some k' \<and> k_shows k (dump_line bs) k'"
proof -
  let ?ptr = "\<lambda>j. bytes (k_heap k) (addr + (i + of_nat j))" and ?P = "\<lambda>j :: nat. i + of_nat j < len"
  define n where "n = min 16 (unat len - unat i)"
  have P: "?P j \<longleftrightarrow> j < n" if "j < 16" for j
    using assms(2) that u32_below [of i j] by (auto simp: word_less_nat_alt n_def)
  have lb: "length bs = n" by (simp add: assms(3) n_def load_bytes_def min.commute)
  have "bs ! j = ?ptr j" if "j < n" for j
  proof -
    have "j < 16" "unat i + j < unat len" using that by (auto simp: n_def)
    then show ?thesis by (simp add: assms(3) load_bytes_def)
  qed
  then have bs: "bs = map ?ptr [0..<n]" by (intro nth_equalityI) (simp_all add: lb)
  have split: "[0..<16] = [0..<n] @ [n..<16]" using upt_add_eq_append [of 0 n "16 - n"] by (simp add: n_def)
  have lo: "j < n \<Longrightarrow> ?P j" and hi: "n \<le> j \<Longrightarrow> j < 16 \<Longrightarrow> \<not> ?P j" for j using P [of j] by (auto simp: n_def)
  have "map (\<lambda>j. if ?P j then ''%02x '' else ''   '') [0..<n] = map (\<lambda>_. ''%02x '') [0..<n]"
    "map (\<lambda>j. if ?P j then ''%02x '' else ''   '') [n..<16] = map (\<lambda>_. ''   '') [n..<16]"
    using lo hi by (auto intro!: map_cong)
  then have "concat (map (\<lambda>j. if ?P j then ''%02x '' else ''   '') [0..<n]) = concat (replicate n ''%02x '')"
    "concat (map (\<lambda>j. if ?P j then ''%02x '' else ''   '') [n..<16]) = concat (replicate (16 - n) ''   '')"
    by (simp_all add: map_replicate_const)
  then have hex: "concat (map (\<lambda>j. if ?P j then ''%02x '' else ''   '') [0..<16])
      = concat (replicate (length bs) ''%02x '') @ concat (replicate (16 - length bs) ''   '')"
    unfolding split lb by simp
  have "filter ?P [0..<n] = [0..<n]" "filter ?P [n..<16] = []" using lo hi by (auto simp: filter_id_conv filter_empty_conv)
  then have asc: "map (\<lambda>j. show_byte (?ptr j)) (filter ?P [0..<16]) = map show_byte bs" unfolding split bs by simp
  have "prints_text ([(''0x%08x  '', [VA_word (addr + i)])]
            @ map (\<lambda>j. if ?P j then (''%02x '', [VA_word (ucast (?ptr j))]) else (''   '', [])) [0..<16]
            @ [('' |'', [])]
            @ concat (map (\<lambda>j. if ?P j
                then [if ?ptr j \<ge> 32 \<and> ?ptr j \<le> 126 then (''%c'', [VA_word (ucast (?ptr j))]) else (''.'', [])] else []) [0..<16])
            @ [(''|'' @ [CHR 0x0A], [])]) = Some (dump_line bs)"
    unfolding prints_text_append prints_hex prints_ascii hex asc by (simp add: dump_line_def)
  from k_prints_shows [OF assms(1) this] show ?thesis unfolding hexdump_line_def Let_def .
qed

lemma unat_nat: "n < 2 ^ 32 \<Longrightarrow> unat (of_nat n :: u32) = n"
  by (simp add: unat_of_nat)

lemma hexdump_loop_shows:
  assumes "unat len + 15 < 2 ^ 32" and "n = (unat len + 15) div 16 - j" and "16 * j < unat len + 16" and "vga_ok (k_con k)"
    and "bs = load_bytes (bytes (k_heap k)) addr (unat len)"
  shows "\<exists>k'. hexdump_loop addr (of_nat (16 * j)) len k = Some k' \<and> k_shows k (concat (map dump_line (chunks n (drop (16 * j) bs)))) k'"
  using assms(2-)
proof (induction n arbitrary: j k)
  case 0
  then have "unat len \<le> 16 * j" by auto
  moreover have "unat (of_nat (16 * j) :: u32) = 16 * j" using 0 assms(1) by (intro unat_nat) simp
  ultimately have "\<not> of_nat (16 * j) < len" by (simp add: word_less_nat_alt)
  then show ?case using 0 by (subst hexdump_loop.simps) (simp add: k_shows_nothing)
next
  case (Suc n)
  let ?i = "of_nat (16 * j) :: u32"
  have j: "16 * j < unat len" using Suc.prems(1) by (cases "16 * j < unat len") auto
  have u: "unat ?i = 16 * j" using j assms(1) by (intro unat_nat) simp
  have less: "?i < len" using j u by (simp add: word_less_nat_alt)
  have next_i: "?i + 16 = of_nat (16 * Suc j)" by simp
  obtain k1 where k1: "hexdump_line addr ?i len k = Some k1" "k_shows k (dump_line (take 16 (drop (16 * j) bs))) k1"
    using hexdump_line_shows [OF Suc.prems(3), of ?i] Suc.prems(4) u j assms(1) by fastforce
  have "n = (unat len + 15) div 16 - Suc j" "16 * Suc j < unat len + 16" using Suc.prems(1) j by simp_all
  from Suc.IH [OF this k_shows_frame(3) [OF k1(2)]] Suc.prems(4) k_shows_frame(1) [OF k1(2)]
  obtain k2 where k2: "hexdump_loop addr (of_nat (16 * Suc j)) len k1 = Some k2"
    "k_shows k1 (concat (map dump_line (chunks n (drop (16 * Suc j) bs)))) k2" by auto
  have "drop 16 (drop (16 * j) bs) = drop (16 * Suc j) bs" by (simp add: add.commute)
  then have "k_shows k (concat (map dump_line (chunks (Suc n) (drop (16 * j) bs)))) k2"
    using k_shows_trans [OF k1(2) k2(2)] by simp
  moreover have "hexdump_loop addr ?i len k = Some k2"
    using less k1(1) k2(1) unfolding next_i [symmetric] by (subst hexdump_loop.simps) simp
  ultimately show ?case by blast
qed

text \<open>A dump of up to \<open>2 ^ 32 - 16\<close> bytes shows, on the screen and on the serial line, one line for each sixteen bytes
  with the printable characters among them, and changes nothing but the console.\<close>

theorem debug_hexdump_correct:
  assumes "vga_ok (k_con k)" and "addr \<noteq> 0" and "len \<noteq> 0" and "len \<le> 0xFFFFFFF0"
  shows "\<exists>k'. debug_hexdump addr len k = Some k' \<and> k_shows k (dump_text (load_bytes (bytes (k_heap k)) addr (unat len))) k'"
proof -
  have "unat len + 15 < 2 ^ 32" using assms(4) by (simp add: word_le_nat_alt)
  from hexdump_loop_shows [OF this, of _ 0 k _ addr] assms(1) show ?thesis
    using assms(2,3) by (simp add: debug_hexdump_def dump_text_def load_bytes_def)
qed

text \<open>A longer one never ends: the counter wraps before it reaches the length.\<close>

lemma hexdump_endless: "hexdump_loop addr i len k = Some k' \<Longrightarrow> len > 0xFFFFFFF0 \<Longrightarrow> unat i mod 16 = 0 \<Longrightarrow> False"
proof (induction rule: hexdump_loop.raw_induct [rotated 1, consumes 1, case_names step])
  case (step f addr i len k k')
  have "unat i < 2 ^ 32" using unsigned_less [of i] by simp
  moreover obtain q where "unat i = 16 * q" using step.prems(2) by (auto simp: mod_eq_0_iff_dvd)
  ultimately have "unat i \<le> 0xFFFFFFF0" by simp
  then have lt: "i < len" using step.prems(1) by (simp add: word_less_nat_alt)
  have m: "unat (i + 16) mod 16 = 0" using step.prems(2) by (simp add: unat_word_ariths mod_mod_cancel)
  obtain y where y: "f addr (i + 16) len y = Some k'"
    using step.hyps lt by (auto simp: bind_eq_Some_conv)
  show ?case by (rule step.IH [OF y step.prems(1) m])
qed

text \<open>C34: A dump longer than that never returns.\<close>

theorem debug_hexdump_endless:
  assumes "addr \<noteq> 0" and "len > 0xFFFFFFF0"
  shows "debug_hexdump addr len k = None"
proof -
  have "len \<noteq> 0" using assms(2) by auto
  then show ?thesis using assms hexdump_endless [of addr 0 len k] by (cases "hexdump_loop addr 0 len k") (auto simp: debug_hexdump_def)
qed

section \<open>The end\<close>

text \<open>The frames of a backtrace.  \<open>printk\<close> knows no widths: of \<^verbatim>\<open>0x%08x\<close> it prints the characters.\<close>

primrec frames_text :: "nat \<Rightarrow> u32 \<Rightarrow> u32 \<Rightarrow> (u32 \<Rightarrow> u8) \<Rightarrow> char list" where
  "frames_text 0 i ebp m = []"
| "frames_text (Suc n) i ebp m =
     (if ebp = 0 \<or> get32 m (ebp + 4) = 0 then []
      else ''['' @ num_digits 10 (unat i) @ ''] EBP: 0x%08x  EIP: 0x%08x'' @ [CHR 0x0A] @ frames_text n (i + 1) (get32 m ebp) m)"

definition backtrace_text :: "u32 \<Rightarrow> u32 \<Rightarrow> (u32 \<Rightarrow> u8) \<Rightarrow> char list" where
  "backtrace_text count ebp m = ''--- STACK BACKTRACE ---'' @ [CHR 0x0A] @ frames_text (unat count) 0 ebp m
     @ ''-----------------------'' @ [CHR 0x0A]"

lemma dump_frames_shows:
  "vga_ok (k_con k) \<Longrightarrow> \<exists>k'. dump_frames n i ebp k = Some k' \<and> k_shows k (frames_text n i ebp (bytes (k_heap k))) k'"
proof (induction n arbitrary: i ebp k)
  case 0
  then show ?case using k_shows_nothing by auto
next
  case (Suc n)
  let ?eip = "get32 (bytes (k_heap k)) (ebp + 4)"
  let ?fmt = "''[%u] EBP: 0x%08x  EIP: 0x%08x'' @ [CHR 0x0A]" and ?args = "[VA_word i, VA_word ebp, VA_word ?eip]"
  let ?out = "''['' @ num_digits 10 (unat i) @ ''] EBP: 0x%08x  EIP: 0x%08x'' @ [CHR 0x0A]"
  show ?case
  proof (cases "ebp = 0 \<or> ?eip = 0")
    case True
    then show ?thesis using k_shows_nothing [OF Suc.prems] by auto
  next
    case False
    have "NUL \<notin> set ?fmt" "printk_text ?fmt ?args = Some ?out" by simp_all
    from k_printk_shows [OF Suc.prems this] obtain k1 where k1: "k_printk ?fmt ?args k = Some k1" "k_shows k ?out k1" by blast
    obtain k2 where k2: "dump_frames n (i + 1) (get32 (bytes (k_heap k1)) ebp) k1 = Some k2"
      "k_shows k1 (frames_text n (i + 1) (get32 (bytes (k_heap k)) ebp) (bytes (k_heap k))) k2"
      using Suc.IH [OF k_shows_frame(3) [OF k1(2)]] k_shows_frame(1) [OF k1(2)] by metis
    have "dump_frames (Suc n) i ebp k = Some k2" using False k1(1) k2(1) by (simp add: Let_def)
    then show ?thesis using k_shows_trans [OF k1(2) k2(2)] False by auto
  qed
qed

lemma debug_dump_stack_shows:
  assumes ok: "vga_ok (k_con k)"
  shows "\<exists>k'. debug_dump_stack n ebp k = Some k' \<and> k_shows k (backtrace_text n ebp (bytes (k_heap k))) k'"
proof -
  let ?top = "''--- STACK BACKTRACE ---'' @ [CHR 0x0A]" and ?bot = "''-----------------------'' @ [CHR 0x0A]"
  have t: "NUL \<notin> set ?top" "printk_text ?top [] = Some ?top" "NUL \<notin> set ?bot" "printk_text ?bot [] = Some ?bot" by simp_all
  obtain k1 where k1: "k_printk ?top [] k = Some k1" "k_shows k ?top k1" using k_printk_shows [OF ok t(1,2)] by blast
  obtain k2 where k2: "dump_frames (unat n) 0 ebp k1 = Some k2" "k_shows k1 (frames_text (unat n) 0 ebp (bytes (k_heap k))) k2"
    using dump_frames_shows [OF k_shows_frame(3) [OF k1(2)]] k_shows_frame(1) [OF k1(2)] by metis
  obtain k3 where k3: "k_printk ?bot [] k2 = Some k3" "k_shows k2 ?bot k3"
    using k_printk_shows [OF k_shows_frame(3) [OF k2(2)] t(3,4)] by blast
  have "debug_dump_stack n ebp k = Some k3" unfolding debug_dump_stack_def k1(1) k2(1) k3(1) bind.bind_lunit ..
  then show ?thesis
    using k_shows_trans [OF k_shows_trans [OF k1(2) k2(2)] k3(2)] unfolding backtrace_text_def by auto
qed

lemma serial_write_same:
  "serial_write_buf b s = Some t \<Longrightarrow> vga_ok t = vga_ok s \<and> screen t = screen s \<and> vga_color t = vga_color s"
  by (induction b s rule: serial_write_buf.induct) (auto split: if_split_asm)

lemma klog_same:
  assumes "klog level fmt args ticks (l, con) = Some (l', con')"
  shows "vga_ok con' = vga_ok con" and "vga_color con' = vga_color con"
  using assms by (auto simp: klog_def serial_write_def Let_def bind_eq_Some_conv dest!: serial_write_same)

lemma vga_clear_ok:
  "vga_ok s \<Longrightarrow> \<exists>t. vga_clear s = Some t \<and> vga_ok t \<and> vga_color t = vga_color s
    \<and> screen t = (replicate 2000 (vga_entry CHR '' '' (vga_color s)), 0) \<and> serial_sent t = serial_sent s"
  by (simp add: vga_clear_def vga_ok_def memset_at_eq vga_update_cursor_def outb_def Let_def screen_def vga_cell_def serial_sent_def)

text \<open>What a panic prints before and after the entry of the log.\<close>

definition panic_banner :: "char list \<Rightarrow> char list" where
  "panic_banner m = CHR 0x0A # ''==================================================================='' @ [CHR 0x0A]
     @ ''                    !!! KERNEL PANIC !!!                            '' @ [CHR 0x0A]
     @ ''==================================================================='' @ [CHR 0x0A, CHR 0x0A]
     @ ''REASON: '' @ m @ [CHR 0x0A, CHR 0x0A]"

definition panic_state :: "u32 \<Rightarrow> (u32 \<Rightarrow> u8) \<Rightarrow> char list" where
  "panic_state ebp m = ''REGISTERS:'' @ [CHR 0x0A]
     @ ''  EAX: 0x%08x  EBX: 0x%08x  ECX: 0x%08x  EDX: 0x%08x'' @ [CHR 0x0A]
     @ ''  ESP: 0x%08x  EBP: 0x%08x'' @ [CHR 0x0A, CHR 0x0A]
     @ backtrace_text 10 ebp m @ CHR 0x0A # ''System halted. Please reboot the machine.'' @ [CHR 0x0A]"

text \<open>The three parts: the banner with the reason on the screen just cleared, the entry of the log, the state.\<close>

lemma panic_banner_shows:
  assumes "vga_ok (k_con k)" and "NUL \<in> set m"
  shows "\<exists>con k1 k2. vga_clear (vga_set_color 15 4 (k_con k)) = Some con \<and> vga_color con = 0x4F
    \<and> screen con = (replicate 2000 (vga_entry CHR '' '' 0x4F), 0) \<and> serial_sent con = serial_sent (k_con k)
    \<and> k_prints
       [(CHR 0x0A # ''==================================================================='' @ [CHR 0x0A], []),
        (''                    !!! KERNEL PANIC !!!                            '' @ [CHR 0x0A], []),
        (''==================================================================='' @ [CHR 0x0A, CHR 0x0A], [])] (k\<lparr>k_con := con\<rparr>) = Some k1
    \<and> k_printk (''REASON: %s'' @ [CHR 0x0A, CHR 0x0A]) [VA_str (Some m)] k1 = Some k2
    \<and> k_shows (k\<lparr>k_con := con\<rparr>) (panic_banner (cstr m)) k2"
proof -
  let ?p1 = "[(CHR 0x0A # ''==================================================================='' @ [CHR 0x0A], []),
        (''                    !!! KERNEL PANIC !!!                            '' @ [CHR 0x0A], []),
        (''==================================================================='' @ [CHR 0x0A, CHR 0x0A], [])] :: (char list \<times> va_arg list) list"
  let ?f2 = "''REASON: %s'' @ [CHR 0x0A, CHR 0x0A]"
  let ?s = "vga_set_color 15 4 (k_con k)"
  have s: "vga_ok ?s" "vga_color ?s = 0x4F" "serial_sent ?s = serial_sent (k_con k)"
    using assms(1) by (simp_all add: vga_set_color_def vga_ok_def push_bit_eq_mult serial_sent_def)
  obtain con where con: "vga_clear ?s = Some con" "vga_ok con" "vga_color con = 0x4F"
    "screen con = (replicate 2000 (vga_entry CHR '' '' 0x4F), 0)" "serial_sent con = serial_sent (k_con k)"
    using vga_clear_ok [OF s(1)] s(2,3) by auto
  let ?k0 = "k\<lparr>k_con := con\<rparr>"
  have ok0: "vga_ok (k_con ?k0)" using con(2) by simp
  obtain o1 where o1: "prints_text ?p1 = Some o1" by simp
  obtain k1 where k1: "k_prints ?p1 ?k0 = Some k1" "k_shows ?k0 o1 k1" using k_prints_shows [OF ok0 o1] by blast
  have t2: "NUL \<notin> set ?f2" "printk_text ?f2 [VA_str (Some m)] = Some (''REASON: '' @ cstr m @ [CHR 0x0A, CHR 0x0A])"
    using assms(2) by simp_all
  obtain k2 where k2: "k_printk ?f2 [VA_str (Some m)] k1 = Some k2" "k_shows k1 (''REASON: '' @ cstr m @ [CHR 0x0A, CHR 0x0A]) k2"
    using k_printk_shows [OF k_shows_frame(3) [OF k1(2)] t2] by blast
  have "panic_banner (cstr m) = o1 @ ''REASON: '' @ cstr m @ [CHR 0x0A, CHR 0x0A]" using o1 by (auto simp: panic_banner_def)
  then have "k_shows ?k0 (panic_banner (cstr m)) k2" using k_shows_trans [OF k1(2) k2(2)] by simp
  then show ?thesis using con(1,3-5) k1(1) k2(1) by blast
qed

lemma panic_state_shows:
  assumes "vga_ok (k_con k)"
  shows "\<exists>k1 k2 k3. k_prints
       [(''REGISTERS:'' @ [CHR 0x0A], []),
        (''  EAX: 0x%08x  EBX: 0x%08x  ECX: 0x%08x  EDX: 0x%08x'' @ [CHR 0x0A],
           [VA_word (cr_eax r), VA_word (cr_ebx r), VA_word (cr_ecx r), VA_word (cr_edx r)]),
        (''  ESP: 0x%08x  EBP: 0x%08x'' @ [CHR 0x0A, CHR 0x0A], [VA_word (cr_esp r), VA_word (cr_ebp r)])] k = Some k1
    \<and> debug_dump_stack 10 (cr_ebp r) k1 = Some k2
    \<and> k_printk (CHR 0x0A # ''System halted. Please reboot the machine.'' @ [CHR 0x0A]) [] k2 = Some k3
    \<and> k_shows k (panic_state (cr_ebp r) (bytes (k_heap k))) k3"
proof -
  let ?p2 = "[(''REGISTERS:'' @ [CHR 0x0A], []),
        (''  EAX: 0x%08x  EBX: 0x%08x  ECX: 0x%08x  EDX: 0x%08x'' @ [CHR 0x0A],
           [VA_word (cr_eax r), VA_word (cr_ebx r), VA_word (cr_ecx r), VA_word (cr_edx r)]),
        (''  ESP: 0x%08x  EBP: 0x%08x'' @ [CHR 0x0A, CHR 0x0A], [VA_word (cr_esp r), VA_word (cr_ebp r)])]"
  let ?f3 = "CHR 0x0A # ''System halted. Please reboot the machine.'' @ [CHR 0x0A]"
  obtain o1 where o1: "prints_text ?p2 = Some o1" by simp
  obtain k1 where k1: "k_prints ?p2 k = Some k1" "k_shows k o1 k1" using k_prints_shows [OF assms o1] by blast
  let ?bt = "backtrace_text 10 (cr_ebp r) (bytes (k_heap k))"
  obtain k2 where k2: "debug_dump_stack 10 (cr_ebp r) k1 = Some k2" "k_shows k1 ?bt k2"
    using debug_dump_stack_shows [OF k_shows_frame(3) [OF k1(2)]] k_shows_frame(1) [OF k1(2)] by metis
  have t3: "NUL \<notin> set ?f3" "printk_text ?f3 [] = Some ?f3" by simp_all
  obtain k3 where k3: "k_printk ?f3 [] k2 = Some k3" "k_shows k2 ?f3 k3" using k_printk_shows [OF k_shows_frame(3) [OF k2(2)] t3] by blast
  have "panic_state (cr_ebp r) (bytes (k_heap k)) = (o1 @ ?bt) @ ?f3" using o1 by (auto simp: panic_state_def)
  then have "k_shows k (panic_state (cr_ebp r) (bytes (k_heap k))) k3"
    using k_shows_trans [OF k_shows_trans [OF k1(2) k2(2)] k3(2)] by simp
  then show ?thesis using k1(1) k2(1) k3(1) by blast
qed

text \<open>C33: a panic always comes to its end.  The screen is cleared to white on red and shows the banner with the message, the
  registers (their formats: \<open>printk\<close> knows no widths) and the backtrace.  All of it goes to the serial line too, after what was there, with
  the message once more as the entry of the log.  That entry, with its header, is the last of the
  log, and nothing else of the kernel has changed.\<close>

theorem kernel_panic_correct:
  assumes "vga_ok (k_con k)" and "klog_wf l" and "NUL \<in> set m" and "length (header_text 4 ticks) + length (cstr m) < 504"
    and "entry = header_text 4 ticks @ ''PANIC: '' @ cstr m @ [CHR 0x0A]"
    and "state = panic_state (cr_ebp r) (bytes (k_heap k))"
  shows "\<exists>l' c. kernel_panic (Some m) r ticks (l, k) = Some (l', k\<lparr>k_con := c\<rparr>) \<and> vga_color c = 0x4F
    \<and> screen c = fold (term_put 0x4F) (panic_banner (cstr m) @ state) (replicate 2000 (vga_entry CHR '' '' 0x4F), 0)
    \<and> serial_sent c = serial_sent (k_con k)
        @ map char_byte (crlf (panic_banner (cstr m)) @ crlf entry @ crlf state)
    \<and> klog_view l' = keep_last 4096 (klog_view l @ entry)"
proof -
  obtain con k1 k2 where con: "vga_clear (vga_set_color 15 4 (k_con k)) = Some con" "vga_color con = 0x4F"
      "screen con = (replicate 2000 (vga_entry CHR '' '' 0x4F), 0)" "serial_sent con = serial_sent (k_con k)"
    and k1: "k_prints
       [(CHR 0x0A # ''==================================================================='' @ [CHR 0x0A], []),
        (''                    !!! KERNEL PANIC !!!                            '' @ [CHR 0x0A], []),
        (''==================================================================='' @ [CHR 0x0A, CHR 0x0A], [])] (k\<lparr>k_con := con\<rparr>) = Some k1"
    and k2: "k_printk (''REASON: %s'' @ [CHR 0x0A, CHR 0x0A]) [VA_str (Some m)] k1 = Some k2"
      "k_shows (k\<lparr>k_con := con\<rparr>) (panic_banner (cstr m)) k2"
    using panic_banner_shows [OF assms(1,3)] by blast
  have tx: "klog_text (''PANIC: %s'' @ [CHR 0x0A]) [VA_str (Some m)] = Some (''PANIC: '' @ cstr m @ [CHR 0x0A])" using assms(3) by simp
  have nn: "NUL \<notin> set (''PANIC: '' @ cstr m @ [CHR 0x0A])" by (auto simp: cstr_def dest: set_takeWhileD)
  have len: "length (header_text 4 ticks) + length (''PANIC: '' @ cstr m @ [CHR 0x0A]) < 512" using assms(4) by simp
  obtain l' c3 where kl: "klog 4 (''PANIC: %s'' @ [CHR 0x0A, NUL]) [VA_str (Some m)] ticks (l, k_con k2) = Some (l', c3)"
    "klog_view l' = keep_last 4096 (klog_view l @ entry)"
    "serial_sent c3 = serial_sent (k_con k2) @ map char_byte (crlf entry)" "screen c3 = screen (k_con k2)"
    using klog_correct [OF assms(2) _ tx nn _ len, of "k_con k2"] assms(5) by auto
  let ?k3 = "k2\<lparr>k_con := c3\<rparr>"
  have b2: "bytes (k_heap ?k3) = bytes (k_heap k)" using k_shows_frame(1) [OF k2(2)] by simp
  have ok3: "vga_ok (k_con ?k3)" using klog_same(1) [OF kl(1)] k_shows_frame(3) [OF k2(2)] by simp
  obtain k4 k5 k6 where k6: "k_prints
       [(''REGISTERS:'' @ [CHR 0x0A], []),
        (''  EAX: 0x%08x  EBX: 0x%08x  ECX: 0x%08x  EDX: 0x%08x'' @ [CHR 0x0A],
           [VA_word (cr_eax r), VA_word (cr_ebx r), VA_word (cr_ecx r), VA_word (cr_edx r)]),
        (''  ESP: 0x%08x  EBP: 0x%08x'' @ [CHR 0x0A, CHR 0x0A], [VA_word (cr_esp r), VA_word (cr_ebp r)])] ?k3 = Some k4"
    "debug_dump_stack 10 (cr_ebp r) k4 = Some k5"
    "k_printk (CHR 0x0A # ''System halted. Please reboot the machine.'' @ [CHR 0x0A]) [] k5 = Some k6" "k_shows ?k3 state k6"
    using panic_state_shows [OF ok3, of r] unfolding b2 assms(6) by blast
  have run: "kernel_panic (Some m) r ticks (l, k) = Some (l', k6)"
    unfolding kernel_panic_def prod.case con(1) bind.bind_lunit k1 option.case k2(1) kl(1) k6(1-3) ..
  have col: "vga_color (k_con ?k3) = 0x4F" using k_shows_frame(4) [OF k2(2)] klog_same(2) [OF kl(1)] con(2) by simp
  have "\<exists>c. k6 = k\<lparr>k_con := c\<rparr>" using k_shows_frame(5) [OF k2(2)] k_shows_frame(5) [OF k6(4)] by auto
  then obtain c where c: "k6 = k\<lparr>k_con := c\<rparr>" by blast
  have "vga_color c = 0x4F" using k_shows_frame(4) [OF k6(4)] col c by simp
  moreover have "screen c = fold (term_put 0x4F) (panic_banner (cstr m) @ state) (replicate 2000 (vga_entry CHR '' '' 0x4F), 0)"
    using k2(2) k6(4) col kl(4) con(2,3) c by (simp add: k_shows_def)
  moreover have "serial_sent c = serial_sent (k_con k) @ map char_byte (crlf (panic_banner (cstr m)) @ crlf entry @ crlf state)"
    using k2(2) k6(4) kl(3) con(4) c by (simp add: k_shows_def)
  ultimately show ?thesis using run kl(2) c by blast
qed

text \<open>The tables that are present are counted.\<close>

lemma count_fold: "unat (c :: u32) + card {i. i < n \<and> P i} < 2 ^ 32 \<Longrightarrow>
    fold (\<lambda>i c. if P i then c + 1 else c) [0..<n] c = c + of_nat (card {i. i < n \<and> P i})"
proof (induction n)
  case (Suc n)
  have "{i. i < Suc n \<and> P i} = (if P n then insert n {i. i < n \<and> P i} else {i. i < n \<and> P i})" by (auto simp: less_Suc_eq)
  then show ?case using Suc by (simp split: if_split_asm)
qed simp

lemma debug_page_table_info_eq:
  assumes "dir \<noteq> 0"
  shows "debug_page_table_info dir k = k_printk (''VMM: Kernel Page Directory at 0x%x (%u active page tables)'' @ [CHR 0x0A])
    [VA_word dir, VA_word (of_nat (card {i. i < 1024 \<and> mem (k_vm k) (entry_addr dir (of_nat i)) AND VMM_PRESENT \<noteq> 0}))] k"
proof -
  have "card {i. i < 1024 \<and> mem (k_vm k) (entry_addr dir (of_nat i)) AND VMM_PRESENT \<noteq> 0} \<le> card {..<1024 :: nat}"
    by (rule card_mono) auto
  then show ?thesis using assms count_fold [of 0 1024 "\<lambda>i. mem (k_vm k) (entry_addr dir (of_nat i)) AND VMM_PRESENT \<noteq> 0"]
    by (simp add: debug_page_table_info_def)
qed

section \<open>Concrete calls\<close>

theorem debug_hexdump_correct_witness:
  "\<exists>k'. debug_hexdump 0x9FC00 5 (firmware_example mp_rom) = Some k'
    \<and> k_shows (firmware_example mp_rom) (''0x%08x  %02x %02x %02x %02x %02x                                   |_MP_.|'' @ [CHR 0x0A]) k'"
proof -
  have "dump_text (load_bytes mp_rom 0x9FC00 (unat (5 :: u32)))
      = ''0x%08x  %02x %02x %02x %02x %02x                                   |_MP_.|'' @ [CHR 0x0A]"
    by code_simp
  then show ?thesis using debug_hexdump_correct [of "firmware_example mp_rom" "0x9FC00" 5] by simp
qed

theorem debug_hexdump_endless_witness: "debug_hexdump 0x1000 (- 1) (firmware_example mp_rom) = None"
  by (rule debug_hexdump_endless) simp_all

theorem kernel_panic_correct_witness:
  "\<exists>l' c. kernel_panic (Some (''out of memory'' @ [NUL])) \<lparr>cr_eax = 0, cr_ebx = 0, cr_ecx = 0, cr_edx = 0, cr_esp = 0, cr_ebp = 0\<rparr> 5
      (klog_init, firmware_example mp_rom) = Some (l', (firmware_example mp_rom)\<lparr>k_con := c\<rparr>)
    \<and> klog_view l' = ''[5] [PANIC] PANIC: out of memory'' @ [CHR 0x0A]
    \<and> serial_sent c = serial_sent console_example @ map char_byte (crlf (panic_banner ''out of memory'')
         @ crlf (''[5] [PANIC] PANIC: out of memory'' @ [CHR 0x0A]) @ crlf (panic_state 0 mp_rom))"
proof -
  have h: "header_text 4 5 = ''[5] [PANIC] ''" by code_simp
  have m: "cstr (''out of memory'' @ [NUL]) = ''out of memory''" by code_simp
  let ?r = "\<lparr>cr_eax = 0, cr_ebx = 0, cr_ecx = 0, cr_edx = 0, cr_esp = 0, cr_ebp = 0\<rparr>"
  let ?e = "''[5] [PANIC] PANIC: out of memory'' @ [CHR 0x0A]"
  have "NUL \<in> set (''out of memory'' @ [NUL])" "length (header_text 4 5) + length (cstr (''out of memory'' @ [NUL])) < 504"
    "?e = header_text 4 5 @ ''PANIC: '' @ cstr (''out of memory'' @ [NUL]) @ [CHR 0x0A]"
    "panic_state 0 mp_rom = panic_state (cr_ebp ?r) (bytes (k_heap (firmware_example mp_rom)))"
    by (simp_all add: h m)
  note it = kernel_panic_correct [OF firmware_example_simps(1) klog_wf_init(1) this, unfolded m]
  have "k_con (firmware_example mp_rom) = console_example" "keep_last 4096 (klog_view klog_init @ ?e) = ?e"
    by (simp_all add: firmware_example_def klog_wf_init keep_last_def)
  then show ?thesis using it by metis
qed

end
