(* ===== verification/Elf_Image.thy ===== *)
theory Elf_Image
  imports Vfs_Layer Task_Sched
begin

unbundle bit_operations_syntax

text \<open>
  The second loader of executables, \<^verbatim>\<open>kernel/elf.c\<close>, which runs an image as a task of the kernel.  The
  image is the list of the bytes at \<^verbatim>\<open>data\<close>; an access behind its end has no value.
\<close>

section \<open>The loader\<close>

definition elf_init :: "'a kern_scheme \<Rightarrow> 'a kern_scheme option" where
  "elf_init k = k_printk (''ELF: ELF32 loader initialized'' @ [CHR 0x0A]) [] k"

definition elf_validate_image :: "u8 list option \<Rightarrow> bool option" where
  "elf_validate_image data =
     (case data of
        None \<Rightarrow> Some False
      | Some d \<Rightarrow> do {
          magic \<leftarrow> rd32 d 0;
          if magic \<noteq> ELF_MAGIC then Some False
          else do {
            cls \<leftarrow> rd8 d 4;
            if cls \<noteq> 1 then Some False
            else do {
              enc \<leftarrow> rd8 d 5;
              if enc \<noteq> 1 then Some False
              else do { mach \<leftarrow> e_machine d; Some (mach = 3) } } } })"

text \<open>The loop over the pages of a segment: the frame is mapped without a test.\<close>

primrec map_each :: "nat \<Rightarrow> u32 \<Rightarrow> u32 \<Rightarrow> 'a kern_scheme \<Rightarrow> 'a kern_scheme" where
  "map_each 0 v flags k = k"
| "map_each (Suc n) v flags k =
     (let (phys, k) = k_alloc_page k in map_each n (v + PAGE_SIZE) flags (k_on_vm (vmm_map_page v phys flags) k))"

definition image_segment :: "elf32_phdr \<Rightarrow> u8 list \<Rightarrow> 'a kern_scheme \<Rightarrow> 'a kern_scheme option" where
  "image_segment h d k = do {
     let page_count = (p_memsz h + PAGE_SIZE - 1) div PAGE_SIZE;
     let k = map_each (unat page_count) (p_vaddr h) (VMM_PRESENT OR VMM_WRITABLE OR VMM_USER) k;
     k \<leftarrow> virt_copy (unat (p_filesz h)) (p_vaddr h) d (unat (p_offset h)) k;
     if p_memsz h > p_filesz h
     then virt_fill (unat (p_memsz h - p_filesz h)) (p_vaddr h + p_filesz h) 0 k
     else Some k
   }"

primrec image_segments :: "nat \<Rightarrow> nat \<Rightarrow> u8 list \<Rightarrow> 'a kern_scheme \<Rightarrow> 'a kern_scheme option" where
  "image_segments 0 ph d k = Some k"
| "image_segments (Suc n) ph d k = do {
     h \<leftarrow> read_phdr d ph;
     k \<leftarrow> (if p_type h = PT_LOAD then image_segment h d k else Some k);
     image_segments n (ph + 32) d k
   }"

text \<open>\<open>old_name\<close> is what the page of the new task holds where its name will be.\<close>

definition elf_load :: "char list \<Rightarrow> u8 list option \<Rightarrow> sched \<Rightarrow> 'a kern_scheme \<Rightarrow> (int \<times> sched \<times> 'a kern_scheme) option" where
  "elf_load old_name data s k = do {
     ok \<leftarrow> elf_validate_image data;
     if \<not> ok
     then do { k \<leftarrow> k_printk (''ELF: Invalid ELF32 binary header'' @ [CHR 0x0A]) [] k; Some (-1, s, k) }
     else do {
       let d = the data;
       phoff \<leftarrow> e_phoff d;
       phnum \<leftarrow> e_phnum d;
       k \<leftarrow> image_segments (unat phnum) (unat phoff) d k;
       entry \<leftarrow> e_entry d;
       (t, s, con) \<leftarrow> task_create (Some (''elf_proc'' @ [NUL])) entry 5 old_name (s\<lparr>task_pmm := k_pmm k\<rparr>, k_con k);
       let k = k\<lparr>k_pmm := task_pmm s, k_con := con\<rparr>;
       if t = 0 then Some (-1, s, k)
       else do { task \<leftarrow> tasks s (Page_Task t); Some (sint (tk_pid task), s, k) }
     }
   }"

definition elf_load_file :: "proc_env \<Rightarrow> char list \<Rightarrow> cptr \<Rightarrow> fs \<Rightarrow> sched \<Rightarrow> 'a kern_scheme \<Rightarrow> (int \<times> sched \<times> 'a kern_scheme) outcome" where
  "elf_load_file env old_name path f s k =
     obind (no_panic (vfs_open path f)) (\<lambda>node.
     case node of
       None \<Rightarrow> obind (no_panic (k_printk (''ELF: File not found: %s'' @ [CHR 0x0A]) [VA_str path] k)) (\<lambda>k. Some (Inr (-1, s, k)))
     | Some r \<Rightarrow>
         let sz = vn_size (nodes f r)
         in if sz = 0
            then obind (no_panic (k_printk (''ELF: File is empty: %s'' @ [CHR 0x0A]) [VA_str path] k)) (\<lambda>k. Some (Inr (-1, s, k)))
            else obind (k_kmalloc sz k) (\<lambda>(a, k).
              if a = 0
              then obind (no_panic (k_printk (''ELF: Failed to allocate buffer for file loading'' @ [CHR 0x0A]) [] k))
                     (\<lambda>k. Some (Inr (-1, s, k)))
              else obind (vfs_read env (Some r) 0 sz (Some (load_chars a (unat sz) (bytes (k_heap k)))) f k) (\<lambda>(n, buf, k).
                let k = on_bytes (store_chars a (the buf)) k
                in if n \<le> 0 then obind (k_kfree a k) (\<lambda>k. Some (Inr (-1, s, k)))
                   else obind (no_panic (elf_load old_name (Some (map char_byte (the buf))) s k)) (\<lambda>(pid, s, k).
                     obind (k_kfree a k) (\<lambda>k. Some (Inr (pid, s, k)))))))"

section \<open>Both loaders agree\<close>

lemma map_each_eq:
  "elf_map_pages p (p + 4096 * of_nat n) fl k = Some (True, k') \<Longrightarrow> unat p + 4096 * n < 2 ^ 32 \<Longrightarrow> map_each n p fl k = k'"
proof (induction n arbitrary: p k)
  case 0
  then show ?case by (simp add: elf_map_pages.simps)
next
  case (Suc n)
  have u: "unat (p + of_nat (4096 * Suc n)) = unat p + 4096 * Suc n" "unat (p + of_nat 4096) = unat p + 4096"
    using Suc.prems(2) by (intro unat_Suc_small; simp)+
  then have lt: "p < p + 4096 * of_nat (Suc n)" by (simp add: word_less_nat_alt)
  obtain phys k1 where a: "k_alloc_page k = (phys, k1)" by fastforce
  have "elf_map_pages p (p + 4096 * of_nat (Suc n)) fl k
    = (if phys = 0 then Some (False, k1) else elf_map_pages (p + 4096) (p + 4096 * of_nat (Suc n)) fl (k_on_vm (vmm_map_page p phys fl) k1))"
    using lt by (subst elf_map_pages.simps) (simp add: a)
  then have "elf_map_pages (p + 4096) ((p + 4096) + 4096 * of_nat n) fl (k_on_vm (vmm_map_page p phys fl) k1) = Some (True, k')"
    using Suc.prems(1) by (simp add: algebra_simps split: if_split_asm)
  from Suc.IH [OF this] show ?case using u(2) Suc.prems(2) by (simp add: a)
qed

lemma virt_put_frame:
  "virt_put v bs k = Some k' \<Longrightarrow> k' = k\<lparr>k_heap := (k_heap k)\<lparr>bytes := bytes (k_heap k')\<rparr>\<rparr>
    \<and> (\<forall>p. p \<notin> (\<lambda>i. vmm_get_phys (v + of_nat i) (k_vm k)) ` {..<length bs} \<longrightarrow> bytes (k_heap k') p = bytes (k_heap k) p)"
proof (induction bs arbitrary: v k)
  case (Cons b bs)
  obtain k1 where k1: "virt_write v b k = Some k1" "virt_put (v + 1) bs k1 = Some k'" using Cons.prems by (auto simp: bind_eq_Some_conv)
  have e: "k1 = k\<lparr>k_heap := (k_heap k)\<lparr>bytes := (bytes (k_heap k))(vmm_get_phys v (k_vm k) := b)\<rparr>\<rparr>"
    using k1(1) by (auto simp: virt_write_def Let_def split: if_split_asm)
  have ih: "k' = k1\<lparr>k_heap := (k_heap k1)\<lparr>bytes := bytes (k_heap k')\<rparr>\<rparr>"
    "\<And>p. p \<notin> (\<lambda>i. vmm_get_phys (v + 1 + of_nat i) (k_vm k1)) ` {..<length bs} \<Longrightarrow> bytes (k_heap k') p = bytes (k_heap k1) p"
    using Cons.IH [OF k1(2)] by blast+
  have "{..<length (b # bs)} = insert 0 (Suc ` {..<length bs})" by (simp add: lessThan_Suc_eq_insert_0)
  then have img: "(\<lambda>i. vmm_get_phys (v + of_nat i) (k_vm k)) ` {..<length (b # bs)}
      = insert (vmm_get_phys v (k_vm k)) ((\<lambda>i. vmm_get_phys (v + 1 + of_nat i) (k_vm k1)) ` {..<length bs})"
    unfolding e by (simp add: image_image add.assoc)
  have "k' = k\<lparr>k_heap := (k_heap k)\<lparr>bytes := bytes (k_heap k')\<rparr>\<rparr>" by (subst ih(1)) (simp add: e)
  moreover have "bytes (k_heap k') p = bytes (k_heap k) p" if "p \<notin> (\<lambda>i. vmm_get_phys (v + of_nat i) (k_vm k)) ` {..<length (b # bs)}" for p
    using that ih(2) [of p] unfolding img by (simp add: e)
  ultimately show ?case by blast
qed simp

text \<open>A segment that starts on a page and may be written.\<close>

definition page_segment :: "elf32_phdr \<Rightarrow> bool" where
  "page_segment h \<longleftrightarrow> p_vaddr h AND 0xFFF = 0 \<and> p_flags h AND PF_W \<noteq> 0"

lemma page_segment_start:
  assumes "page_segment h"
  shows "p_vaddr h AND NOT 0xFFF = p_vaddr h" and "unat (p_vaddr h) mod 4096 = 0" and "segment_flags h = VMM_PRESENT OR VMM_WRITABLE OR VMM_USER"
proof -
  have m: "(0xFFF :: u32) = mask 12" by (simp add: mask_eq_exp_minus_1)
  show "unat (p_vaddr h) mod 4096 = 0"
    using arg_cong [of _ _ unat, OF conjunct1 [OF assms [unfolded page_segment_def]]] unfolding m take_bit_eq_mask [symmetric] 
    by (simp add: unsigned_take_bit_eq take_bit_eq_mod unat_mod)
  have "p_vaddr h = (p_vaddr h AND NOT 0xFFF) OR (p_vaddr h AND 0xFFF)" by (rule bit_word_eqI) (auto simp: bit_simps)
  then show "p_vaddr h AND NOT 0xFFF = p_vaddr h" using assms by (simp add: page_segment_def)
  show "segment_flags h = VMM_PRESENT OR VMM_WRITABLE OR VMM_USER" using assms by (simp add: page_segment_def segment_flags_def)
qed


lemma image_segment_agrees:
  assumes inv: "vmm_inv (vm_of k)" and fit: "seg_fits h d" and room: "2 * seg_npages h \<le> card (free_frames (k_pmm k))"
    and sz: "unat sz = length d" and page: "page_segment h" and run: "elf_load_segment h d sz k = Some (True, k')"
  shows "image_segment h d k = Some k'"
proof -
  let ?v = "p_vaddr h" and ?m = "unat (p_memsz h)" and ?f = "unat (p_filesz h)" and ?n = "seg_npages h"
  note ps = page_segment_start [OF page]
  have st: "seg_start h = ?v" using ps(1) by (simp add: seg_start_def)
  note se = seg_end [OF fit, unfolded st]
  have fm: "?f \<le> ?m" and od: "unat (p_offset h) + ?f \<le> length d"
    using fit by (simp_all add: seg_fits_def word_le_nat_alt)
  have load: "seg_loaded h d k'" "inj_on (\<lambda>i. vmm_get_phys (?v + of_nat i) (k_vm k')) {..<?m}"
    using elf_load_segment_correct [OF inv fit room sz] run by auto
  obtain k1 k2 where k1: "elf_map_pages ?v (?v + 4096 * of_nat ?n) (VMM_PRESENT OR VMM_WRITABLE OR VMM_USER) k = Some (True, k1)"
    and k2: "virt_fill ?m ?v 0 k1 = Some k2"
    and k3: "(if p_filesz h > 0 \<and> p_offset h + p_filesz h \<le> sz then virt_copy ?f ?v d (unat (p_offset h)) k2 else Some k2) = Some k'"
    using run unfolding elf_load_segment_def Let_def ps(1,3) se(1) by (auto simp: bind_eq_Some_conv split: if_split_asm)
  have each: "map_each ?n ?v (VMM_PRESENT OR VMM_WRITABLE OR VMM_USER) k = k1" by (rule map_each_eq [OF k1 se(2)])
  have cnt: "unat ((p_memsz h + PAGE_SIZE - 1) div PAGE_SIZE) = ?n"
  proof -
    have e: "p_memsz h + PAGE_SIZE - 1 = p_memsz h + 4095" by simp
    have "unat (p_memsz h + 4095) = ?m + 4095" using fit by (simp add: seg_fits_def unat_word_ariths)
    then show ?thesis unfolding e by (simp add: unat_div seg_npages_def ps(2))
  qed
  let ?T = "\<lambda>i. vmm_get_phys (?v + of_nat i) (k_vm k1)"
  have f2: "k2 = k1\<lparr>k_heap := (k_heap k1)\<lparr>bytes := bytes (k_heap k2)\<rparr>\<rparr>"
    "\<And>p. p \<notin> ?T ` {..<?m} \<Longrightarrow> bytes (k_heap k2) p = bytes (k_heap k1) p"
    using virt_put_frame [OF k2 [unfolded virt_fill_put]] by auto
  have v2: "k_vm k2 = k_vm k1" by (subst f2(1)) simp
  have f3: "k' = k2\<lparr>k_heap := (k_heap k2)\<lparr>bytes := bytes (k_heap k')\<rparr>\<rparr> \<and> (\<forall>p. p \<notin> ?T ` {..<?f} \<longrightarrow> bytes (k_heap k') p = bytes (k_heap k2) p)"
  proof (cases "p_filesz h > 0 \<and> p_offset h + p_filesz h \<le> sz")
    case True
    then have "virt_put ?v (take ?f (drop (unat (p_offset h)) d)) k2 = Some k'" using k3 by (simp add: virt_copy_put [OF od])
    from virt_put_frame [OF this] show ?thesis using od by (simp add: v2)
  next
    case False
    then show ?thesis using k3 by auto
  qed
  have sub: "?T ` {..<?f} \<subseteq> ?T ` {..<?m}" using fm by auto
  have out: "bytes (k_heap k') p = bytes (k_heap k1) p" if p: "p \<notin> ?T ` {..<?m}" for p
    using conjunct2 [OF f3, rule_format, OF contra_subsetD [OF sub p]] f2(2) [OF p] by (rule trans)
  have k': "k' = k1\<lparr>k_heap := (k_heap k1)\<lparr>bytes := bytes (k_heap k')\<rparr>\<rparr>"
  proof -
    obtain a where a: "k2 = k1\<lparr>k_heap := (k_heap k1)\<lparr>bytes := a\<rparr>\<rparr>" using f2(1) by blast
    obtain b where b: "k' = k2\<lparr>k_heap := (k_heap k2)\<lparr>bytes := b\<rparr>\<rparr>" using f3 by blast
    show ?thesis unfolding b a by simp
  qed
  have v': "k_vm k' = k_vm k1" by (subst k') simp
  have inside: "?T i \<noteq> 0" "bytes (k_heap k') (?T i) = (if i < ?f then d ! (unat (p_offset h) + i) else 0)" if "i < ?m" for i
    using load(1) that unfolding seg_loaded_def virt_read_def Let_def v' by (auto split: if_split_asm)
  have Tinj: "inj_on ?T {..<?m}" using load(2) unfolding v' .
  \<comment> \<open>the writes of the other order\<close>
  let ?bs = "take ?f (drop (unat (p_offset h)) d)" and ?zs = "replicate (?m - ?f) (0 :: u8)"
  have lb: "length ?bs = ?f" using od by simp
  have nz1: "?T i \<noteq> 0" if "i < length ?bs" for i using inside(1) [of i] that fm lb by linarith
  have inj1: "inj_on ?T {..<length ?bs}" unfolding lb by (rule inj_on_subset [OF Tinj]) (use fm in auto)
  obtain m1 where m1: "virt_put ?v ?bs k1 = Some (k1\<lparr>k_heap := (k_heap k1)\<lparr>bytes := m1\<rparr>\<rparr>)"
    "\<forall>i < ?f. m1 (?T i) = ?bs ! i" "\<forall>p. p \<notin> ?T ` {..<?f} \<longrightarrow> m1 p = bytes (k_heap k1) p"
    using virt_put_correct [OF nz1 inj1] unfolding lb by blast
  let ?k = "k1\<lparr>k_heap := (k_heap k1)\<lparr>bytes := m1\<rparr>\<rparr>"
  have sh: "?v + p_filesz h + of_nat i = ?v + of_nat (?f + i)" for i by (simp add: add.assoc)
  have shT: "vmm_get_phys (?v + p_filesz h + of_nat i) (k_vm ?k) = ?T (?f + i)" for i unfolding sh by simp
  have lz: "length ?zs = ?m - ?f" by simp
  have nz2: "vmm_get_phys (?v + p_filesz h + of_nat i) (k_vm ?k) \<noteq> 0" if "i < length ?zs" for i
    unfolding shT by (rule inside(1)) (use that in simp)
  have "inj_on (\<lambda>i. ?T (?f + i)) {..<?m - ?f}"
  proof (rule inj_onI)
    fix i j assume ij: "i \<in> {..<?m - ?f}" "j \<in> {..<?m - ?f}" "?T (?f + i) = ?T (?f + j)"
    then have "?f + i \<in> {..<?m}" "?f + j \<in> {..<?m}" by auto
    from inj_onD [OF Tinj ij(3) this] show "i = j" by simp
  qed
  then have inj2: "inj_on (\<lambda>i. vmm_get_phys (?v + p_filesz h + of_nat i) (k_vm ?k)) {..<length ?zs}" unfolding lz shT .
  obtain m2 where m2: "virt_put (?v + p_filesz h) ?zs ?k = Some (?k\<lparr>k_heap := (k_heap ?k)\<lparr>bytes := m2\<rparr>\<rparr>)"
    "\<forall>i < ?m - ?f. m2 (?T (?f + i)) = 0" "\<forall>p. p \<notin> (\<lambda>i. ?T (?f + i)) ` {..<?m - ?f} \<longrightarrow> m2 p = m1 p"
    using virt_put_correct [OF nz2 inj2] unfolding lz shT by auto
  have same: "m2 = bytes (k_heap k')"
  proof
    fix p
    show "m2 p = bytes (k_heap k') p"
    proof (cases "p \<in> ?T ` {..<?m}")
      case True
      then obtain i where i: "i < ?m" "p = ?T i" by auto
      show ?thesis
      proof (cases "i < ?f")
        case True
        have "?T i \<notin> (\<lambda>i. ?T (?f + i)) ` {..<?m - ?f}"
        proof
          assume "?T i \<in> (\<lambda>i. ?T (?f + i)) ` {..<?m - ?f}"
          then obtain j where "j < ?m - ?f" "?T i = ?T (?f + j)" by auto
          then have "i = ?f + j" using i(1) by (intro inj_onD [OF Tinj]) auto
          then show False using True by simp
        qed
        then show ?thesis using m2(3) m1(2) True inside(2) [OF i(1)] od by (simp add: i(2))
      next
        case False
        then show ?thesis using m2(2) [rule_format, of "i - ?f"] inside(2) [OF i(1)] i by simp
      qed
    next
      case False
      have "p \<notin> ?T ` {..<?f}" using contra_subsetD [OF sub False] .
      moreover have "p \<notin> (\<lambda>i. ?T (?f + i)) ` {..<?m - ?f}"
      proof
        assume "p \<in> (\<lambda>i. ?T (?f + i)) ` {..<?m - ?f}"
        then obtain i where "i < ?m - ?f" "p = ?T (?f + i)" by blast
        moreover from this(1) have "?f + i \<in> {..<?m}" by simp
        ultimately show False using False by blast
      qed
      ultimately show ?thesis using m1(3) m2(3) out [OF False] by simp
    qed
  qed
  have fin: "?k\<lparr>k_heap := (k_heap ?k)\<lparr>bytes := m2\<rparr>\<rparr> = k'" unfolding same by (subst (2) k') simp
  have copy: "virt_copy ?f ?v d (unat (p_offset h)) k1 = Some ?k" unfolding virt_copy_put [OF od] by (rule m1(1))
  have "(if p_memsz h > p_filesz h then virt_fill (unat (p_memsz h - p_filesz h)) (?v + p_filesz h) 0 ?k else Some ?k) = Some k'"
  proof (cases "p_memsz h > p_filesz h")
    case True
    then have "unat (p_memsz h - p_filesz h) = ?m - ?f" by (simp add: unat_sub order_less_imp_le)
    then show ?thesis using True m2(1) fin by (simp add: virt_fill_put)
  next
    case False
    then have "?m - ?f = 0" by (simp add: word_less_nat_alt)
    then have "Some ?k = Some k'" using m2(1) unfolding fin by simp
    then show ?thesis using False by simp
  qed
  then show ?thesis unfolding image_segment_def Let_def cnt each copy by simp
qed


lemma image_segments_agree:
  fixes k :: "'a kern_scheme"
  assumes "\<And>i. i < length hs \<Longrightarrow> read_phdr d (ph + 32 * i) = Some (hs ! i)"
    and "\<forall>h \<in> set hs. p_type h = PT_LOAD \<longrightarrow> seg_fits h d \<and> page_segment h"
    and "vmm_inv (vm_of k)" and "unat sz = length d"
    and "2 * sum_list (map seg_npages (filter (\<lambda>h. p_type h = PT_LOAD) hs)) \<le> card (free_frames (k_pmm k))"
    and "elf_segments (length hs) ph count d sz k = Some (Some c, k')"
  shows "image_segments (length hs) ph d k = Some k' \<and> vmm_inv (vm_of k')
    \<and> card (free_frames (k_pmm k)) \<le> card (free_frames (k_pmm k')) + 2 * sum_list (map seg_npages (filter (\<lambda>h. p_type h = PT_LOAD) hs))"
  using assms
proof (induction hs arbitrary: ph count k)
  case Nil
  then show ?case by simp
next
  case (Cons h hs)
  have h: "read_phdr d ph = Some h" using Cons.prems(1) [of 0] by simp
  have tail: "read_phdr d (ph + 32 + 32 * i) = Some (hs ! i)" if "i < length hs" for i
    using Cons.prems(1) [of "Suc i"] that by (simp add: algebra_simps)
  have fits: "\<forall>h \<in> set hs. p_type h = PT_LOAD \<longrightarrow> seg_fits h d \<and> page_segment h" using Cons.prems(2) by simp
  show ?case
  proof (cases "p_type h = PT_LOAD")
    case False
    then have "elf_segments (length hs) (ph + 32) count d sz k = Some (Some c, k')" using Cons.prems(6) h by simp
    from Cons.IH [OF tail fits Cons.prems(3,4) _ this] Cons.prems(5) False show ?thesis using h by simp
  next
    case True
    have hf: "seg_fits h d" "page_segment h" using Cons.prems(2) True by simp_all
    have room: "2 * seg_npages h \<le> card (free_frames (k_pmm k))" using Cons.prems(5) True by simp
    from elf_load_segment_correct [OF Cons.prems(3) hf(1) room Cons.prems(4)] obtain k1 where
      k1: "elf_load_segment h d sz k = Some (True, k1)" "vmm_inv (vm_of k1)"
      "card (free_frames (k_pmm k)) \<le> card (free_frames (k_pmm k1)) + 2 * seg_npages h" by blast
    note seg = image_segment_agrees [OF Cons.prems(3) hf(1) room Cons.prems(4) hf(2) k1(1)]
    have rest: "elf_segments (length hs) (ph + 32) (count + 1) d sz k1 = Some (Some c, k')" using Cons.prems(6) h True k1(1) by simp
    have "2 * sum_list (map seg_npages (filter (\<lambda>h. p_type h = PT_LOAD) hs)) \<le> card (free_frames (k_pmm k1))"
      using Cons.prems(5) True k1(3) by simp
    from Cons.IH [OF tail fits k1(2) Cons.prems(4) this rest] show ?thesis using h True seg k1(3) by auto
  qed
qed

section \<open>The task of an image\<close>

lemma alloc_some:
  assumes "pmm_inv p" and "0 < card (free_frames p)"
  obtains a q where "pmm_alloc_page p = (a, q)" "a \<noteq> 0" "a \<in> free_frames p" "pmm_inv q" "card (free_frames p) = Suc (card (free_frames q))"
    "free_frames q \<subseteq> free_frames p"
proof -
  obtain a q where aq: "pmm_alloc_page p = (a, q)" by fastforce
  have a: "a \<noteq> 0" using pmm_frames.alloc_fail [OF assms(1)] aq assms(2) by auto
  note take = pmm_frames.alloc_take [OF assms(1) aq a]
  have "card (free_frames p) = Suc (card (free_frames q))"
    using take pmm_frames.frames_finite [OF assms(1)] by (metis card_Suc_Diff1)
  then show thesis using that [OF aq a] take pmm_frames.alloc_inv [OF assms(1) aq] by blast
qed

text \<open>What \<open>elf_load\<close> does after the segments: the frames of the task are taken, and nothing else of memory changes.\<close>

lemma elf_load_task:
  fixes k :: "'a kern_scheme"
  assumes "elf_validate_image (Some d) = Some True"
    and "e_phoff d = Some off" and "e_phnum d = Some n" and "e_entry d = Some entry"
    and img: "image_segments (unat n) (unat off) d k = Some k1"
    and pinv: "pmm_inv (k_pmm k1)" and free: "2 \<le> card (free_frames (k_pmm k1))" and ok: "vga_ok (k_con k1)"
    and path: "task_path (tasks s) (task_list_head s) (xs @ [l])" "distinct (xs @ [l])" "length old_name = 32"
    and other: "\<forall>a. Page_Task a \<in> set (xs @ [l]) \<longrightarrow> a \<notin> free_frames (k_pmm k1)"
  shows "\<exists>s' con' a b c t p'. elf_load old_name (Some d) s k = Some (sint (next_pid s), s', k1\<lparr>k_pmm := p', k_con := con'\<rparr>)
    \<and> free_frames p' = free_frames (k_pmm k1) - {a, b, c}
    \<and> task_path (tasks s') (task_list_head s') (xs @ [l, Page_Task a]) \<and> tasks s' (Page_Task a) = Some t
    \<and> tk_state t = TASK_READY \<and> tk_pid t = next_pid s \<and> read_words (stack_words s') (tk_esp t) 10 = initial_frame entry"
proof -
  obtain a p1 where a: "pmm_alloc_page (k_pmm k1) = (a, p1)" "a \<noteq> 0" "a \<in> free_frames (k_pmm k1)" "pmm_inv p1"
    "card (free_frames (k_pmm k1)) = Suc (card (free_frames p1))"
    by (rule alloc_some [OF pinv]) (use free in simp_all)
  obtain sb p2 where sb: "pmm_alloc_page p1 = (sb, p2)" "sb \<noteq> 0" "pmm_inv p2"
    by (rule alloc_some [OF a(4)]) (use free a(5) in simp_all)
  obtain c p3 where c: "pmm_alloc_page p2 = (c, p3)" by fastforce
  have frames: "free_frames p3 = free_frames (k_pmm k1) - {a, sb, c}"
    using pmm_frames.alloc_frames [OF pinv a(1)] pmm_frames.alloc_frames [OF a(4) sb(1)] pmm_frames.alloc_frames [OF sb(3) c] by auto
  let ?s = "s\<lparr>task_pmm := k_pmm k1\<rparr>"
  have new: "Page_Task a \<notin> set (xs @ [l])" using other a(3) by blast
  have path': "task_path (tasks ?s) (task_list_head ?s) (xs @ [l])" using path(1) by simp
  have alloc: "pmm_alloc_page (task_pmm ?s) = (a, p1)" using a(1) by simp
  have nul: "NUL \<in> set (''elf_proc'' @ [NUL])" by simp
  from task_create_correct [OF path' path(2) ok alloc a(2) new sb(1,2) nul path(3), of entry 5]
  obtain s' con' t where t: "task_create (Some (''elf_proc'' @ [NUL])) entry 5 old_name (?s, k_con k1) = Some (a, s', con')"
    "task_path (tasks s') (task_list_head s') (xs @ [l, Page_Task a])" "tasks s' (Page_Task a) = Some t" "tk_state t = TASK_READY"
    "tk_pid t = next_pid ?s" "read_words (stack_words s') (tk_esp t) 10 = initial_frame entry" "task_pmm s' = p3"
    using c by auto
  have "elf_load old_name (Some d) s k = Some (sint (next_pid s), s', k1\<lparr>k_pmm := p3, k_con := con'\<rparr>)"
    unfolding elf_load_def using assms(1-4) img t(1,3,5,7) a(2) by simp
  moreover have "tk_pid t = next_pid s" using t(5) by simp
  ultimately show ?thesis using frames t(2,3,4,6) by blast
qed

text \<open>Loading an image as a task gives the process number of the new task; its segments read back as the image has them and it
  is the last of the list, ready to start at the entry point.\<close>

theorem elf_load_correct:
  fixes k :: "'a kern_scheme"
  assumes "elf_validate_image (Some d) = Some True" and "length d < 2 ^ 32"
    and "e_phoff d = Some off" and "e_phnum d = Some n" and "e_entry d = Some entry"
    and "length hs = unat n" and "\<And>i. i < length hs \<Longrightarrow> read_phdr d (unat off + 32 * i) = Some (hs ! i)"
    and "\<forall>h \<in> set hs. p_type h = PT_LOAD \<longrightarrow> seg_fits h d \<and> page_segment h"
    and "sorted_wrt (\<lambda>g h. seg_pages g \<inter> seg_pages h = {}) (filter (\<lambda>h. p_type h = PT_LOAD) hs)"
    and "vmm_inv (vm_of k)"
    and "2 * sum_list (map seg_npages (filter (\<lambda>h. p_type h = PT_LOAD) hs)) + 2 \<le> card (free_frames (k_pmm k))"
    and "vga_ok (k_con k)"
    and "task_path (tasks s) (task_list_head s) (xs @ [l])" and "distinct (xs @ [l])" and "length old_name = 32"
    and "\<And>a. Page_Task a \<in> set (xs @ [l]) \<Longrightarrow> a \<notin> free_frames (k_pmm k)"
  shows "\<exists>s' k' a t. elf_load old_name (Some d) s k = Some (sint (next_pid s), s', k')
    \<and> (\<forall>h \<in> set hs. p_type h = PT_LOAD \<longrightarrow> (\<forall>i < unat (p_memsz h). virt_read (p_vaddr h + of_nat i) k'
          = Some (if i < unat (p_filesz h) then d ! (unat (p_offset h) + i) else 0)))
    \<and> task_path (tasks s') (task_list_head s') (xs @ [l, Page_Task a]) \<and> tasks s' (Page_Task a) = Some t
    \<and> tk_state t = TASK_READY \<and> tk_pid t = next_pid s \<and> read_words (stack_words s') (tk_esp t) 10 = initial_frame entry"
proof -
  define sz :: u32 where "sz = of_nat (length d)"
  have sz: "unat sz = length d" using assms(2) by (simp add: sz_def unat_of_nat)
  have room: "2 * sum_list (map seg_npages (filter (\<lambda>h. p_type h = PT_LOAD) hs)) \<le> card (free_frames (k_pmm k))"
    using assms(11) by simp
  have fits: "\<forall>h \<in> set hs. p_type h = PT_LOAD \<longrightarrow> seg_fits h d" using assms(8) by blast
  from elf_segments_correct [OF assms(7) fits assms(9,10) sz room, of 0] obtain k1 :: "'a kern_scheme" where
    k1: "elf_segments (length hs) (unat off) 0 d sz k = Some (Some (0 + of_nat (length (filter (\<lambda>h. p_type h = PT_LOAD) hs))), k1)"
    "\<forall>h \<in> set hs. p_type h = PT_LOAD \<longrightarrow> seg_loaded h d k1" "free_frames (k_pmm k1) \<subseteq> free_frames (k_pmm k)" "k_con k1 = k_con k" by blast
  note agree = image_segments_agree [OF assms(7,8,10) sz room k1(1)]
  have img: "image_segments (unat n) (unat off) d k = Some k1" using agree unfolding assms(6) by blast
  have pinv: "pmm_inv (k_pmm k1)" using agree by (simp add: vmm_inv_def vm_of_def)
  have free: "2 \<le> card (free_frames (k_pmm k1))" using agree assms(11) by linarith
  have ok: "vga_ok (k_con k1)" using assms(12) k1(4) by simp
  have other: "\<forall>a. Page_Task a \<in> set (xs @ [l]) \<longrightarrow> a \<notin> free_frames (k_pmm k1)" using assms(16) k1(3) by blast
  from elf_load_task [OF assms(1,3-5) img pinv free ok assms(13-15) other] obtain s' con' a t p' where
    r: "elf_load old_name (Some d) s k = Some (sint (next_pid s), s', k1\<lparr>k_pmm := p', k_con := con'\<rparr>)"
    "task_path (tasks s') (task_list_head s') (xs @ [l, Page_Task a])" "tasks s' (Page_Task a) = Some t"
    "tk_state t = TASK_READY" "tk_pid t = next_pid s" "read_words (stack_words s') (tk_esp t) 10 = initial_frame entry"
    by (elim exE conjE) (rule that, assumption+)
  let ?k = "k1\<lparr>k_pmm := p', k_con := con'\<rparr>"
  have "virt_read w ?k = virt_read w k1" for w by (simp add: virt_read_def Let_def)
  then have rd: "\<forall>h \<in> set hs. p_type h = PT_LOAD \<longrightarrow> (\<forall>i < unat (p_memsz h). virt_read (p_vaddr h + of_nat i) ?k
          = Some (if i < unat (p_filesz h) then d ! (unat (p_offset h) + i) else 0))"
    using k1(2) by (simp add: seg_loaded_def)
  show ?thesis by (intro exI conjI) (rule r(1), rule rd, rule r(2), rule r(3), rule r(4), rule r(5), rule r(6))
qed

section \<open>Both loaders on one image\<close>

lemma elf_validate_image_eq:
  assumes "elf_validate (Some d) sz = Some True" and "e_machine d = Some mach"
  shows "elf_validate_image (Some d) = Some (mach = 3)"
  using assms by (auto simp: elf_validate_def elf_validate_image_def bind_eq_Some_conv split: if_split_asm)

text \<open>C35: the two loaders of the kernel on one image whose loadable segments start on page boundaries, are writable and fit,
  given frames enough.  \<open>elf_load_segments\<close> of \<^verbatim>\<open>elf_loader.c\<close> loads it, whatever machine the header names; \<open>elf_load\<close> of
  \<^verbatim>\<open>elf.c\<close> refuses it, with nothing changed but the console, when the machine is not 3, and otherwise leaves the same
  memory and the same page tables.  The frames it leaves are those of the other loader without the (at most three)
  frames of the task it then creates, the number of which it returns.  Such segments read back as the image has them.\<close>

theorem elf_loaders_agree:
  fixes k :: "'a kern_scheme"
  assumes "elf_validate (Some d) sz = Some True" and "unat sz = length d" and "e_machine d = Some mach"
    and "e_phoff d = Some off" and "e_phnum d = Some n" and "e_entry d = Some entry"
    and "length hs = unat n" and "\<And>i. i < length hs \<Longrightarrow> read_phdr d (unat off + 32 * i) = Some (hs ! i)"
    and "\<forall>h \<in> set hs. p_type h = PT_LOAD \<longrightarrow> seg_fits h d \<and> page_segment h"
    and "sorted_wrt (\<lambda>g h. seg_pages g \<inter> seg_pages h = {}) (filter (\<lambda>h. p_type h = PT_LOAD) hs)"
    and "vmm_inv (vm_of k)"
    and "2 * sum_list (map seg_npages (filter (\<lambda>h. p_type h = PT_LOAD) hs)) + 2 \<le> card (free_frames (k_pmm k))"
    and "vga_ok (k_con k)"
    and "task_path (tasks s) (task_list_head s) (xs @ [l])" and "distinct (xs @ [l])" and "length old_name = 32"
    and "\<And>a. Page_Task a \<in> set (xs @ [l]) \<Longrightarrow> a \<notin> free_frames (k_pmm k)"
  shows "\<exists>k' con s' con' p' a b c. elf_load_segments (Some d) sz k = Some (0, k'\<lparr>k_con := con\<rparr>)
    \<and> (\<forall>h \<in> set hs. p_type h = PT_LOAD \<longrightarrow> seg_loaded h d k')
    \<and> elf_load old_name (Some d) s k
      = (if mach = 3 then Some (sint (next_pid s), s', k'\<lparr>k_pmm := p', k_con := con'\<rparr>) else Some (-1, s, k\<lparr>k_con := con'\<rparr>))
    \<and> (mach = 3 \<longrightarrow> free_frames p' = free_frames (k_pmm k') - {a, b, c}
        \<and> task_path (tasks s') (task_list_head s') (xs @ [l, Page_Task a]))"
proof -
  let ?room = "2 * sum_list (map seg_npages (filter (\<lambda>h. p_type h = PT_LOAD) hs))"
  have fits: "\<forall>h \<in> set hs. p_type h = PT_LOAD \<longrightarrow> seg_fits h d" using assms(9) by blast
  have room: "?room \<le> card (free_frames (k_pmm k))" using assms(12) by simp
  from elf_segments_correct [OF assms(8) fits assms(10,11,2) room, of 0] obtain k' :: "'a kern_scheme" where
    k': "elf_segments (length hs) (unat off) 0 d sz k = Some (Some (0 + of_nat (length (filter (\<lambda>h. p_type h = PT_LOAD) hs))), k')"
    "\<forall>h \<in> set hs. p_type h = PT_LOAD \<longrightarrow> seg_loaded h d k'" "k_con k' = k_con k"
    "free_frames (k_pmm k') \<subseteq> free_frames (k_pmm k)" by blast
  note agree = image_segments_agree [OF assms(8,9,11,2) room k'(1)]
  have img: "image_segments (unat n) (unat off) d k = Some k'" using agree unfolding assms(7) by blast
  let ?fmt = "''ELF: Loaded %u PT_LOAD segments, entry point at 0x%x'' @ [CHR 0x0A]"
  let ?args = "[VA_word (0 + of_nat (length (filter (\<lambda>h. p_type h = PT_LOAD) hs))), VA_word entry]"
  have o: "NUL \<notin> set ?fmt" "\<exists>out. printk_text ?fmt ?args = Some out" by simp_all
  have ok: "vga_ok (k_con k')" using assms(13) k'(3) by simp
  then obtain con where "k_printk ?fmt ?args k' = Some (k'\<lparr>k_con := con\<rparr>)" using k_printk_ok [OF _ o(1)] o(2) by blast
  then have seg: "elf_load_segments (Some d) sz k = Some (0, k'\<lparr>k_con := con\<rparr>)"
    using assms(1,4-7) k'(1) unfolding elf_load_segments_def by simp
  note val = elf_validate_image_eq [OF assms(1,3)]
  show ?thesis
  proof (cases "mach = 3")
    case True
    have pinv: "pmm_inv (k_pmm k')" using agree by (simp add: vmm_inv_def vm_of_def)
    have free: "2 \<le> card (free_frames (k_pmm k'))" using agree assms(12) by linarith
    have other: "\<forall>a. Page_Task a \<in> set (xs @ [l]) \<longrightarrow> a \<notin> free_frames (k_pmm k')" using assms(17) k'(4) by blast
    have v: "elf_validate_image (Some d) = Some True" using val True by simp
    from elf_load_task [OF v assms(4-6) img pinv free ok assms(14-16) other] obtain s' con' a b c p' where r:
      "elf_load old_name (Some d) s k = Some (sint (next_pid s), s', k'\<lparr>k_pmm := p', k_con := con'\<rparr>)"
      "free_frames p' = free_frames (k_pmm k') - {a, b, c}" "task_path (tasks s') (task_list_head s') (xs @ [l, Page_Task a])"
      by (elim exE conjE) (rule that, assumption+)
    have r1: "elf_load old_name (Some d) s k = (if mach = 3 then Some (sint (next_pid s), s', k'\<lparr>k_pmm := p', k_con := con'\<rparr>)
        else Some (-1, s, k\<lparr>k_con := con'\<rparr>))" using r(1) True by simp
    have r2: "mach = 3 \<longrightarrow> free_frames p' = free_frames (k_pmm k') - {a, b, c}
        \<and> task_path (tasks s') (task_list_head s') (xs @ [l, Page_Task a])" using r(2,3) by simp
    show ?thesis by (intro exI, rule conjI, rule seg, rule conjI, rule k'(2), rule conjI, rule r1, rule r2)
  next
    case False
    have "NUL \<notin> set (''ELF: Invalid ELF32 binary header'' @ [CHR 0x0A])"
      "printk_text (''ELF: Invalid ELF32 binary header'' @ [CHR 0x0A]) [] \<noteq> None" by simp_all
    then obtain con' where "k_printk (''ELF: Invalid ELF32 binary header'' @ [CHR 0x0A]) [] k = Some (k\<lparr>k_con := con'\<rparr>)"
      using k_printk_ok [OF assms(13)] by blast
    then have "elf_load old_name (Some d) s k = Some (-1, s, k\<lparr>k_con := con'\<rparr>)"
      using val False by (simp add: elf_load_def)
    then show ?thesis using seg k'(2) False by auto
  qed
qed

section \<open>A concrete image\<close>

definition image_example :: "u8 list" where
  "image_example = elf_example[76 := 7]"

definition image_example_phdr :: elf32_phdr where
  "image_example_phdr = elf_example_phdr\<lparr>p_flags := 7\<rparr>"

lemma image_example_facts:
  "read_phdr image_example 52 = Some image_example_phdr" "elf_validate (Some image_example) 88 = Some True"
  "elf_validate_image (Some image_example) = Some True" "e_phoff image_example = Some 52" "e_phnum image_example = Some 1"
  "e_entry image_example = Some 0x08048000" "length image_example = 88" "page_segment image_example_phdr"
  by code_simp+

lemma image_example_pages: "seg_npages image_example_phdr = 1"
  by (simp add: seg_npages_def image_example_phdr_def elf_example_phdr_def)

lemma image_example_phdrs:
  "i < length [image_example_phdr] \<Longrightarrow> read_phdr image_example (unat (52 :: u32) + 32 * i) = Some ([image_example_phdr] ! i)"
  using image_example_facts(1) by simp

lemma image_example_fits:
  "\<forall>h \<in> set [image_example_phdr]. p_type h = PT_LOAD \<longrightarrow> seg_fits h image_example \<and> page_segment h"
  using image_example_facts(7,8) by (simp add: seg_fits_def image_example_phdr_def elf_example_phdr_def)


lemma pkern_example_room: "vm_of pkern_example = vm_large" "k_pmm pkern_example = phys_mgr vm_large" "vga_ok (k_con pkern_example)"
  using console_example_ok by (simp_all add: vm_of_def pkern_example_def)

theorem elf_loaders_agree_witness:
  "\<exists>k' con s' con' p'. elf_load_segments (Some image_example) 88 pkern_example = Some (0, k'\<lparr>k_con := con\<rparr>)
    \<and> elf_load (replicate 32 NUL) (Some image_example) sched_booted pkern_example
      = Some (sint (next_pid sched_booted), s', k'\<lparr>k_pmm := p', k_con := con'\<rparr>)"
proof -
  have n: "length [image_example_phdr] = unat (1 :: u16)" by simp
  have mach: "e_machine image_example = Some 3" by code_simp
  have inv: "vmm_inv (vm_of pkern_example)" unfolding pkern_example_room by (rule vm_large_inv)
  have room: "2 * sum_list (map seg_npages (filter (\<lambda>h. p_type h = PT_LOAD) [image_example_phdr])) + 2 \<le> card (free_frames (k_pmm pkern_example))"
    unfolding pkern_example_room using vm_large_frames image_example_pages by simp
  have sz: "unat (88 :: u32) = length image_example" unfolding image_example_facts by simp
  have disj: "sorted_wrt (\<lambda>g h. seg_pages g \<inter> seg_pages h = {}) (filter (\<lambda>h. p_type h = PT_LOAD) [image_example_phdr])" by simp
  have path: "task_path (tasks sched_booted) (task_list_head sched_booted) ([] @ [Kernel_Task])" by (simp add: sched_booted_def idle_task_def)
  have other: "Page_Task a \<in> set ([] @ [Kernel_Task]) \<Longrightarrow> a \<notin> free_frames (k_pmm pkern_example)" for a by simp
  have d: "distinct ([] @ [Kernel_Task])" "length (replicate 32 NUL) = 32" by simp_all
  from elf_loaders_agree [OF image_example_facts(2) sz mach image_example_facts(4,5,6) n image_example_phdrs image_example_fits disj inv room
      pkern_example_room(3) path d other]
  show ?thesis by auto
qed

theorem elf_load_correct_witness:
  "\<exists>s' k' a t. elf_load (replicate 32 NUL) (Some image_example) sched_booted pkern_example = Some (1, s', k')
    \<and> virt_read 0x08048003 k' = Some 0x91 \<and> tasks s' (Page_Task a) = Some t \<and> tk_state t = TASK_READY
    \<and> read_words (stack_words s') (tk_esp t) 10 = initial_frame 0x08048000"
proof -
  have n: "length [image_example_phdr] = unat (1 :: u16)" by simp
  have len: "length image_example < 2 ^ 32" unfolding image_example_facts by simp
  have inv: "vmm_inv (vm_of pkern_example)" unfolding pkern_example_room by (rule vm_large_inv)
  have room: "2 * sum_list (map seg_npages (filter (\<lambda>h. p_type h = PT_LOAD) [image_example_phdr])) + 2 \<le> card (free_frames (k_pmm pkern_example))"
    unfolding pkern_example_room using vm_large_frames image_example_pages by simp
  have disj: "sorted_wrt (\<lambda>g h. seg_pages g \<inter> seg_pages h = {}) (filter (\<lambda>h. p_type h = PT_LOAD) [image_example_phdr])" by simp
  have path: "task_path (tasks sched_booted) (task_list_head sched_booted) ([] @ [Kernel_Task])" by (simp add: sched_booted_def idle_task_def)
  have other: "Page_Task a \<in> set ([] @ [Kernel_Task]) \<Longrightarrow> a \<notin> free_frames (k_pmm pkern_example)" for a by simp
  have d: "distinct ([] @ [Kernel_Task])" "length (replicate 32 NUL) = 32" by simp_all
  obtain s' k' a t where r: "elf_load (replicate 32 NUL) (Some image_example) sched_booted pkern_example = Some (sint (next_pid sched_booted), s', k')"
    "\<forall>h \<in> set [image_example_phdr]. p_type h = PT_LOAD \<longrightarrow> (\<forall>i < unat (p_memsz h). virt_read (p_vaddr h + of_nat i) k'
          = Some (if i < unat (p_filesz h) then image_example ! (unat (p_offset h) + i) else 0))"
    "tasks s' (Page_Task a) = Some t" "tk_state t = TASK_READY" "read_words (stack_words s') (tk_esp t) 10 = initial_frame 0x08048000"
    using elf_load_correct [OF image_example_facts(3) len image_example_facts(4,5,6) n image_example_phdrs image_example_fits disj inv room
        pkern_example_room(3) path d other] by blast
  have "sint (next_pid sched_booted) = 1" by (simp add: sched_booted_def)
  moreover have "virt_read (0x08048000 + of_nat 3) k' = Some (image_example ! 87)"
  proof -
    have f: "p_type image_example_phdr = PT_LOAD" "(3 :: nat) < unat (p_memsz image_example_phdr)" "(3 :: nat) < unat (p_filesz image_example_phdr)"
      "p_vaddr image_example_phdr = 0x08048000" "unat (p_offset image_example_phdr) + 3 = 87"
      by (simp_all add: image_example_phdr_def elf_example_phdr_def)
    have "virt_read (p_vaddr image_example_phdr + of_nat 3) k' = Some (if (3 :: nat) < unat (p_filesz image_example_phdr)
        then image_example ! (unat (p_offset image_example_phdr) + 3) else 0)"
      by (rule mp [OF spec [OF mp [OF bspec [OF r(2), of image_example_phdr] f(1)], of 3] f(2)]) simp
    then show ?thesis unfolding f(4,5) using f(3) by simp
  qed
  moreover have "image_example ! 87 = 0x91" by code_simp
  ultimately show ?thesis using r(1,3,4,5) by auto
qed

end
