(* ===== verification/Shell.thy ===== *)
theory Shell
  imports Syscall_Process Cpu_Id Pci Ata Rtc Vesa Diagnostics
begin

unbundle bit_operations_syntax

text \<open>
  The shell of the kernel, \<^verbatim>\<open>kernel/shell.c\<close>: the line editor, the splitting of a line into words and the
  commands, each of which calls into another component.  The state is everything the commands reach.  What an
  array on the stack holds before it is written is the parameter \<open>se_stale\<close>.
\<close>

section \<open>The state\<close>

record shell_env =
  se_sys :: sys_env
  se_flags :: "u32 \<times> u32"
  se_cpuid :: "u32 \<Rightarrow> cpuid_regs"
  se_cmos :: cmos
  se_status :: "nat \<Rightarrow> u8"
  se_regs :: cpu_regs
  se_stale :: "nat \<Rightarrow> char list"

record shell =
  sh_sys :: system
  sh_klog :: klog_ring
  sh_pci :: pci
  sh_ata :: ata
  sh_smp :: smp
  sh_acpi :: acpi
  sh_vesa :: vesa
  sh_cmos_reads :: nat
  cmd_buf :: "char list"
  cmd_pos :: u32

definition sh_kp :: "shell \<Rightarrow> pkern" where "sh_kp s = kp (sh_sys s)"

definition set_sh_kp :: "pkern \<Rightarrow> shell \<Rightarrow> shell" where "set_sh_kp k s = s\<lparr>sh_sys := set_kp k (sh_sys s)\<rparr>"

definition sh_on :: "(pkern \<Rightarrow> pkern option) \<Rightarrow> shell \<Rightarrow> shell option" where
  "sh_on f s = map_option (\<lambda>k. set_sh_kp k s) (f (sh_kp s))"

definition sh_on_con :: "(console \<Rightarrow> console option) \<Rightarrow> shell \<Rightarrow> shell option" where
  "sh_on_con f = sh_on (\<lambda>k. map_option (\<lambda>c. k\<lparr>k_con := c\<rparr>) (f (k_con k)))"

definition sh_printk :: "char list \<Rightarrow> va_arg list \<Rightarrow> shell \<Rightarrow> shell option" where
  "sh_printk fmt args = sh_on (k_printk fmt args)"

text \<open>What the files of \<^verbatim>\<open>/proc\<close> report on.\<close>

definition shell_proc_env :: "shell_env \<Rightarrow> shell \<Rightarrow> proc_env" where
  "shell_proc_env e s = \<lparr>pe_ticks = timer_ticks (sy_machine (sh_sys s)), pe_flags = se_flags e, pe_cpuid = se_cpuid e,
     pe_modules = sy_modules (sh_sys s), pe_pci_count = pci_device_count (sh_pci s), pe_ata_count = active_drive_count (sh_ata s),
     pe_klog = sh_klog s\<rparr>"

section \<open>Words of a line\<close>

text \<open>\<^verbatim>\<open>while (P(*buf)) buf++;\<close> from position \<open>i\<close> on.\<close>

fun run_of :: "(char \<Rightarrow> bool) \<Rightarrow> char list \<Rightarrow> nat option" where
  "run_of P [] = None"
| "run_of P (c # cs) = (if P c then map_option Suc (run_of P cs) else Some 0)"

definition skip_while :: "(char \<Rightarrow> bool) \<Rightarrow> char list \<Rightarrow> nat \<Rightarrow> nat option" where
  "skip_while P b i = map_option ((+) i) (run_of P (drop i b))"

abbreviation (input) blank :: "char \<Rightarrow> bool" where "blank c \<equiv> c = CHR '' ''"
abbreviation (input) in_word :: "char \<Rightarrow> bool" where "in_word c \<equiv> c \<noteq> NUL \<and> c \<noteq> CHR '' ''"

text \<open>
  The end of the word at \<open>i\<close> is marked; the answer is the position of the next word.
\<close>

definition next_word :: "char list \<Rightarrow> nat \<Rightarrow> (char list \<times> nat option) option" where
  "next_word buf i = do {
     j \<leftarrow> skip_while in_word buf i;
     if buf ! j = NUL then Some (buf, None)
     else do {
       buf \<leftarrow> put_at buf j NUL;
       k \<leftarrow> skip_while blank buf (j + 1);
       Some (buf, if buf ! k = NUL then None else Some k)
     }
   }"

text \<open>The buffer with the words terminated, and the positions of the command and of its arguments in it.\<close>

definition shell_parse :: "char list \<Rightarrow> (char list \<times> nat option \<times> nat option \<times> nat option) option" where
  "shell_parse buf = do {
     i \<leftarrow> skip_while blank buf 0;
     if buf ! i = NUL then Some (buf, None, None, None)
     else do {
       (buf, arg1) \<leftarrow> next_word buf i;
       case arg1 of
         None \<Rightarrow> Some (buf, Some i, None, None)
       | Some i1 \<Rightarrow> do { (buf, arg2) \<leftarrow> next_word buf i1; Some (buf, Some i, Some i1, arg2) }
     }
   }"

definition shell_prompt :: "shell \<Rightarrow> shell option" where
  "shell_prompt = sh_printk ''dionnex> '' []"

definition shell_init :: "shell \<Rightarrow> shell option" where
  "shell_init s = do {
     s \<leftarrow> sh_on_con vga_clear s;
     sh_on (k_prints
       [([CHR 0x0A], []),
        (''  ==============================================================='' @ [CHR 0x0A], []),
        (''  Dionnex Monolithic Kernel v0.1.0 (Genesis)'' @ [CHR 0x0A], []),
        (''  x86 32-bit Monolithic Operating System Kernel | GPLv2'' @ [CHR 0x0A], []),
        (''  ==============================================================='' @ [CHR 0x0A], []),
        ([CHR 0x0A], []),
        (''  Type '' @ CHR 0x27 # ''help'' @ CHR 0x27 # '' for available commands.'' @ [CHR 0x0A, CHR 0x0A], [])]) s
   }"

section \<open>Commands\<close>

datatype shell_cmd =
  C_Help | C_Clear | C_Cpuid | C_Pci | C_Disk | C_Date | C_Dmesg | C_Lsmod | C_Insmod | C_Rmmod | C_Modinfo | C_Smp | C_Vesa
| C_Memstat | C_Backtrace | C_Hexdump | C_Ps | C_Kill | C_Exec | C_Initrd | C_Ls | C_Cat | C_Echo | C_Uptime | C_Reboot
| C_Shutdown | C_Panic

definition shell_commands :: "(char list \<times> shell_cmd) list" where
  "shell_commands =
     [(''help'', C_Help), (''clear'', C_Clear), (''cpuid'', C_Cpuid), (''cpuinfo'', C_Cpuid), (''pci'', C_Pci), (''disk'', C_Disk),
      (''date'', C_Date), (''dmesg'', C_Dmesg), (''klog'', C_Dmesg), (''lsmod'', C_Lsmod), (''insmod'', C_Insmod), (''rmmod'', C_Rmmod),
      (''modinfo'', C_Modinfo), (''smp'', C_Smp), (''vesa'', C_Vesa), (''memstat'', C_Memstat), (''backtrace'', C_Backtrace),
      (''hexdump'', C_Hexdump), (''ps'', C_Ps), (''procs'', C_Ps), (''kill'', C_Kill), (''exec'', C_Exec), (''initrd'', C_Initrd),
      (''ls'', C_Ls), (''cat'', C_Cat), (''echo'', C_Echo), (''uptime'', C_Uptime), (''reboot'', C_Reboot), (''shutdown'', C_Shutdown),
      (''panic'', C_Panic)]"

text \<open>The chain of comparisons; \<^term>\<open>None\<close> inside for an unknown command.\<close>

fun find_command :: "char list \<Rightarrow> (char list \<times> shell_cmd) list \<Rightarrow> shell_cmd option option" where
  "find_command w [] = Some None"
| "find_command w ((n, c) # cs) = do {
     r \<leftarrow> strcmp (Some w) (Some (n @ [NUL]));
     if r = 0 then Some (Some c) else find_command w cs
   }"

definition help_lines :: "char list list" where
  "help_lines =
     [''Dionnex Monolithic Kernel Shell Commands:'',
      ''  help            - Display this command reference'',
      ''  clear           - Clear VGA screen buffer'',
      ''  cpuid / cpuinfo - Display CPU vendor, model, and feature flags'',
      ''  pci             - List all PCI bus devices'',
      ''  disk            - List ATA hard disk drives'',
      ''  date            - Show Real Time Clock (RTC) date and time'',
      ''  dmesg / klog    - Dump ring buffer kernel logs'',
      ''  lsmod           - List active loaded kernel modules'',
      ''  insmod <path>   - Load relocatable kernel module (.ko)'',
      ''  rmmod <name>    - Unload active kernel module'',
      ''  modinfo <name>  - Display kernel module metadata'',
      ''  smp             - List SMP CPU cores and topology'',
      ''  vesa            - Run VESA VBE graphics demo'',
      ''  memstat         - Show physical memory and heap diagnostics'',
      ''  backtrace       - Print stack backtrace frame pointers'',
      ''  hexdump <a,l>   - Hexdump memory address <hex_addr> <len>'',
      ''  ps / procs      - List kernel tasks and Ring 3 user processes'',
      ''  kill <pid>      - Terminate user process by PID'',
      ''  exec <elf>      - Load and execute user ELF binary'',
      ''  initrd          - List embedded InitRD user binaries'',
      ''  ls <path>       - List VFS directory contents'',
      ''  cat <file>      - Display file content from VFS'',
      ''  echo <msg>      - Print message or write to file (> file)'',
      ''  uptime          - Show system uptime in seconds'',
      ''  reboot          - Reboot system via ACPI/8042'',
      ''  shutdown        - Power off system via ACPI/QEMU'',
      ''  panic           - Trigger kernel panic test'']"

abbreviation (input) quoted :: "char list \<Rightarrow> char list \<Rightarrow> char list" where
  "quoted a b \<equiv> a @ CHR 0x27 # ''%s'' @ CHR 0x27 # b @ [CHR 0x0A]"

text \<open>\<^verbatim>\<open>path_buf\<close> of \<^verbatim>\<open>insmod\<close> and \<^verbatim>\<open>cat\<close>.\<close>

definition shell_path :: "shell_env \<Rightarrow> char list \<Rightarrow> char list option" where
  "shell_path e arg1 =
     (if hd arg1 = CHR ''/'' then strcpy (se_stale e 256) arg1
      else do { b \<leftarrow> strcpy (se_stale e 256) (''/ram/'' @ [NUL]); strcat b arg1 })"

text \<open>\<^verbatim>\<open>mod_name\<close>: 63 characters of the name, cut at the first \<^verbatim>\<open>.ko\<close>.\<close>

definition shell_mod_name :: "shell_env \<Rightarrow> char list \<Rightarrow> char list option" where
  "shell_mod_name e name = do {
     b \<leftarrow> strncpy (se_stale e 64) name 63;
     b \<leftarrow> put_at b 63 NUL;
     dot \<leftarrow> strstr b (''.ko'' @ [NUL]);
     case dot of None \<Rightarrow> Some b | Some i \<Rightarrow> put_at b i NUL
   }"

text \<open>Where the image of a module comes from; the loader writes into it.\<close>

datatype mod_source = From_Initrd blob | From_Heap u32

definition initrd_put :: "blob \<Rightarrow> u8 list \<Rightarrow> initrd \<Rightarrow> initrd" where
  "initrd_put b d r = r\<lparr>id_files := map (\<lambda>f. case id_data f of
       None \<Rightarrow> f | Some b' \<Rightarrow> if bl_addr b' = bl_addr b then f\<lparr>id_data := Some (b'\<lparr>bl_bytes := d\<rparr>)\<rparr> else f) (id_files r)\<rparr>"

definition insmod_open :: "shell_env \<Rightarrow> char list \<Rightarrow> shell \<Rightarrow> ((mod_source \<times> u8 list \<times> u32) option \<times> shell) outcome" where
  "insmod_open e arg1 s =
     obind (no_panic (initrd_get_file (Some arg1) (Some 0) (sy_initrd (sh_sys s)))) (\<lambda>(found, sz).
     case found of
       Some b \<Rightarrow> Some (Inr (Some (From_Initrd b, bl_bytes b, the sz), s))
     | None \<Rightarrow>
         obind (no_panic (do { path \<leftarrow> shell_path e arg1; vfs_open (Some path) (sy_fs (sh_sys s)) })) (\<lambda>node.
         case node of
           None \<Rightarrow> Some (Inr (None, s))
         | Some r \<Rightarrow>
             let n = vn_size (nodes (sy_fs (sh_sys s)) r)
             in if n = 0 then Some (Inr (None, s))
                else obind (k_kmalloc n (sh_kp s)) (\<lambda>(a, k).
                  if a = 0 then Some (Inr (None, set_sh_kp k s))
                  else obind (vfs_read (shell_proc_env e s) (Some r) 0 n (Some (load_chars a (unat n) (bytes (k_heap k)))) (sy_fs (sh_sys s)) k)
                    (\<lambda>(got, buf, k).
                    let k = on_bytes (store_chars a (the buf)) k
                    in if got > 0 then Some (Inr (Some (From_Heap a, map char_byte (the buf), n), set_sh_kp k s))
                       else obind (k_kfree a k) (\<lambda>k. Some (Inr (None, set_sh_kp k s)))))))"

definition shell_insmod :: "shell_env \<Rightarrow> char list \<Rightarrow> shell \<Rightarrow> shell outcome" where
  "shell_insmod e arg1 s =
     obind (insmod_open e arg1 s) (\<lambda>(img, s).
     case img of
       Some (src, d, sz) \<Rightarrow>
         if sz > 0
         then obind (no_panic (do {
                slash \<leftarrow> strrchr arg1 CHR ''/'';
                shell_mod_name e (case slash of None \<Rightarrow> arg1 | Some i \<Rightarrow> drop (Suc i) arg1) })) (\<lambda>mod_name.
              obind (module_load_binary (env_symbols (se_sys e)) (env_call (se_sys e)) (Some mod_name) (Some d) sz (sy_modules (sh_sys s)) (sh_kp s))
                (\<lambda>(res, d, ms, k).
              let s = set_sh_kp k (s\<lparr>sh_sys := (sh_sys s)\<lparr>sy_modules := ms\<rparr>\<rparr>);
                  s = (case src of
                         From_Initrd b \<Rightarrow> s\<lparr>sh_sys := (sh_sys s)\<lparr>sy_initrd := initrd_put b (the d) (sy_initrd (sh_sys s))\<rparr>\<rparr>
                       | From_Heap a \<Rightarrow> set_sh_kp (on_bytes (store_put a (the d)) (sh_kp s)) s)
              in obind (no_panic (sh_printk (if res = 0 then quoted ''insmod: '' '' loaded'' else quoted ''insmod: failed to load '' '''')
                          [VA_str (Some mod_name)] s)) (\<lambda>s.
                 case src of
                   From_Initrd b \<Rightarrow> Some (Inr s)
                 | From_Heap a \<Rightarrow> obind (k_kfree a (sh_kp s)) (\<lambda>k. Some (Inr (set_sh_kp k s))))))
         else no_panic (sh_printk (quoted ''insmod: cannot open '' '''') [VA_str (Some arg1)] s)
     | None \<Rightarrow> no_panic (sh_printk (quoted ''insmod: cannot open '' '''') [VA_str (Some arg1)] s))"

definition shell_rmmod :: "shell_env \<Rightarrow> char list \<Rightarrow> shell \<Rightarrow> shell outcome" where
  "shell_rmmod e arg1 s =
     obind (no_panic (shell_mod_name e arg1)) (\<lambda>mod_name.
     obind (module_unload_binary (env_call (se_sys e)) (Some mod_name) (sy_modules (sh_sys s)) (sh_kp s)) (\<lambda>(res, ms, k).
     no_panic (sh_printk (quoted ''rmmod: '' (if res = 0 then '' unloaded'' else '' not found or in use'')) [VA_str (Some mod_name)]
       (set_sh_kp k (s\<lparr>sh_sys := (sh_sys s)\<lparr>sy_modules := ms\<rparr>\<rparr>)))))"

definition shell_kill :: "char list \<Rightarrow> shell \<Rightarrow> shell option" where
  "shell_kill arg1 s = do {
     target_pid \<leftarrow> atoi arg1;
     p \<leftarrow> process_get_by_pid target_pid (sh_kp s);
     if p \<noteq> 0
     then do {
       s \<leftarrow> sh_on (upd_proc p (\<lambda>q. q\<lparr>pr_state := PROC_ZOMBIE, pr_exit_code := 137\<rparr>)) s;
       sh_printk (''Process PID %u terminated (SIGKILL)'' @ [CHR 0x0A]) [VA_word target_pid] s
     }
     else sh_printk (''Process PID %u not found'' @ [CHR 0x0A]) [VA_word target_pid] s
   }"

definition shell_exec_elf :: "char list \<Rightarrow> shell \<Rightarrow> shell outcome" where
  "shell_exec_elf arg1 s =
     obind (no_panic (initrd_get_file (Some arg1) (Some 0) (sy_initrd (sh_sys s)))) (\<lambda>(found, sz).
     case found of
       None \<Rightarrow> no_panic (sh_printk (quoted ''Binary '' '' not found in InitRD'') [VA_str (Some arg1)] s)
     | Some b \<Rightarrow>
         obind (process_create (Some arg1) (Some (bl_bytes b)) (the sz) (sh_kp s)) (\<lambda>(p, k).
         no_panic (if p \<noteq> 0
           then do {
             k \<leftarrow> sched_proc_add p k;
             q \<leftarrow> procs k p;
             sh_printk (''Started user process '' @ CHR 0x27 # ''%s'' @ CHR 0x27 # '' (PID %u)'' @ [CHR 0x0A]) [VA_str (Some arg1), VA_word (pr_pid q)] (set_sh_kp k s)
           }
           else sh_printk (quoted ''Failed to create user process for '' '''') [VA_str (Some arg1)] (set_sh_kp k s))))"

definition shell_cat :: "shell_env \<Rightarrow> char list \<Rightarrow> shell \<Rightarrow> shell outcome" where
  "shell_cat e arg1 s =
     obind (no_panic (shell_path e arg1)) (\<lambda>path.
     obind (no_panic (vfs_open (Some path) (sy_fs (sh_sys s)))) (\<lambda>node.
     case node of
       None \<Rightarrow> no_panic (sh_printk (''File not found: %s'' @ [CHR 0x0A]) [VA_str (Some path)] s)
     | Some r \<Rightarrow>
         obind (vfs_read (shell_proc_env e s) (Some r) 0 1024 (Some (se_stale e 1025)) (sy_fs (sh_sys s)) (sh_kp s)) (\<lambda>(n, buf, k).
         no_panic (if n \<ge> 0
           then do { buf \<leftarrow> put_at (the buf) (nat n) NUL; sh_printk (''%s'' @ [CHR 0x0A]) [VA_str (Some buf)] (set_sh_kp k s) }
           else sh_printk (''Error reading file: %s'' @ [CHR 0x0A]) [VA_str (Some path)] (set_sh_kp k s)))))"

text \<open>\<^verbatim>\<open>while (n > 0 && filename[n - 1] == ' ') filename[--n] = 0;\<close>\<close>

fun trim_end :: "nat \<Rightarrow> char list \<Rightarrow> char list" where
  "trim_end 0 b = b"
| "trim_end (Suc n) b = (if b ! n = CHR '' '' then trim_end n (b[n := NUL]) else b)"

definition shell_echo :: "char list \<Rightarrow> char list option \<Rightarrow> shell \<Rightarrow> shell option" where
  "shell_echo orig arg1 s = do {
     redirect \<leftarrow> strchr orig CHR ''>'';
     case redirect of
       Some p \<Rightarrow> do {
         orig \<leftarrow> put_at orig p NUL;
         m \<leftarrow> skip_while blank orig 4;
         f \<leftarrow> skip_while blank orig (p + 1);
         n \<leftarrow> strlen_buf (drop f orig);
         let filename = trim_end n (drop f orig);
         let msg = take (f - m) (drop m orig) @ filename;
         (r, fs) \<leftarrow> ramfs_create (Some filename) (sy_fs (sh_sys s));
         len \<leftarrow> strlen_buf msg;
         (r, fs) \<leftarrow> ramfs_write (Some filename) (Some msg) (of_nat len) fs;
         sh_printk (quoted ''Written to file '' '''') [VA_str (Some filename)] (s\<lparr>sh_sys := (sh_sys s)\<lparr>sy_fs := fs\<rparr>\<rparr>)
       }
     | None \<Rightarrow>
         (case arg1 of
            Some a \<Rightarrow> sh_printk (''%s'' @ [CHR 0x0A]) [VA_str (Some a)] s
          | None \<Rightarrow> sh_printk [CHR 0x0A] [] s)
   }"

definition shell_date :: "shell_env \<Rightarrow> shell \<Rightarrow> shell option" where
  "shell_date e s = do {
     (t, n) \<leftarrow> rtc_read_time (se_cmos e) (sh_cmos_reads s);
     (ticks, n) \<leftarrow> rtc_get_ticks (se_cmos e) n;
     sh_printk (''RTC Time: %04u-%02u-%02u %02u:%02u:%02u (Unix: %u)'' @ [CHR 0x0A])
       [VA_word (ucast (year t)), VA_word (ucast (month t)), VA_word (ucast (day t)), VA_word (ucast (hour t)),
        VA_word (ucast (minute t)), VA_word (ucast (second t)), VA_word ticks] (s\<lparr>sh_cmos_reads := n\<rparr>)
   }"

definition shell_hexdump :: "char list \<Rightarrow> char list option \<Rightarrow> shell \<Rightarrow> shell option" where
  "shell_hexdump arg1 arg2 s = do {
     addr \<leftarrow> atox arg1;
     len \<leftarrow> (case arg2 of None \<Rightarrow> Some 64 | Some a \<Rightarrow> atoi a);
     sh_on (debug_hexdump addr len) s
   }"

definition shell_pci_list :: "shell \<Rightarrow> shell option" where
  "shell_pci_list s = do {
     p \<leftarrow> pci_list ((sh_pci s)\<lparr>pci_kern := kern.truncate (sh_kp s)\<rparr>);
     Some (set_sh_kp ((sh_kp s)\<lparr>k_con := k_con (pci_kern p)\<rparr>) (s\<lparr>sh_pci := p\<rparr>))
   }"

text \<open>What becomes of the machine: it goes on, or its last instructions are these.\<close>

datatype shell_end = is_going: Goes_On (end_state: shell) | Stops (end_ops: "stop_op list") (end_state: shell)

definition goes_on :: "shell option \<Rightarrow> shell_end outcome" where
  "goes_on s = no_panic (map_option Goes_On s)"

definition usage :: "char list \<Rightarrow> shell \<Rightarrow> shell_end outcome" where
  "usage u s = goes_on (sh_printk (''Usage: '' @ u @ [CHR 0x0A]) [] s)"

definition with_arg :: "char list option \<Rightarrow> char list \<Rightarrow> shell \<Rightarrow> (char list \<Rightarrow> shell outcome) \<Rightarrow> shell_end outcome" where
  "with_arg arg1 u s f = (case arg1 of None \<Rightarrow> usage u s | Some a \<Rightarrow> obind (f a) (\<lambda>s. Some (Inr (Goes_On s))))"

fun run_command :: "shell_env \<Rightarrow> shell_cmd \<Rightarrow> char list option \<Rightarrow> char list option \<Rightarrow> char list \<Rightarrow> shell \<Rightarrow> shell_end outcome" where
  "run_command e C_Help arg1 arg2 orig s = goes_on (sh_on (k_prints (map (\<lambda>l. (l @ [CHR 0x0A], [])) help_lines)) s)"
| "run_command e C_Clear arg1 arg2 orig s = goes_on (sh_on_con vga_clear s)"
| "run_command e C_Cpuid arg1 arg2 orig s =
     goes_on (sh_on_con (cpuid_print_info (se_flags e) (se_cpuid e) (se_stale e 13) (se_stale e 49)) s)"
| "run_command e C_Pci arg1 arg2 orig s = goes_on (shell_pci_list s)"
| "run_command e C_Disk arg1 arg2 orig s = goes_on (sh_on_con (ata_list_drives (sh_ata s)) s)"
| "run_command e C_Date arg1 arg2 orig s = goes_on (shell_date e s)"
| "run_command e C_Dmesg arg1 arg2 orig s = goes_on (sh_on_con (klog_dump (sh_klog s)) s)"
| "run_command e C_Lsmod arg1 arg2 orig s = goes_on (sh_on (module_list_loaded (sy_modules (sh_sys s))) s)"
| "run_command e C_Insmod arg1 arg2 orig s = with_arg arg1 ''insmod <path>'' s (\<lambda>a. shell_insmod e a s)"
| "run_command e C_Rmmod arg1 arg2 orig s = with_arg arg1 ''rmmod <name>'' s (\<lambda>a. shell_rmmod e a s)"
| "run_command e C_Modinfo arg1 arg2 orig s = with_arg arg1 ''modinfo <name>'' s (\<lambda>a. no_panic (do {
     mod_name \<leftarrow> shell_mod_name e a;
     s \<leftarrow> sh_printk (''Module Information: %s'' @ [CHR 0x0A]) [VA_str (Some mod_name)] s;
     sh_on (module_list_loaded (sy_modules (sh_sys s))) s }))"
| "run_command e C_Smp arg1 arg2 orig s = goes_on (sh_on (smp_list_cpus (sh_smp s)) s)"
| "run_command e C_Vesa arg1 arg2 orig s = goes_on (sh_on (vesa_test_demo (sh_vesa s)) s)"
| "run_command e C_Memstat arg1 arg2 orig s = goes_on (sh_on debug_mem_stats s)"
| "run_command e C_Backtrace arg1 arg2 orig s = goes_on (sh_on (debug_dump_stack 8 (cr_ebp (se_regs e))) s)"
| "run_command e C_Hexdump arg1 arg2 orig s =
     with_arg arg1 ''hexdump <hex_address> [length]'' s (\<lambda>a. no_panic (shell_hexdump a arg2 s))"
| "run_command e C_Ps arg1 arg2 orig s = goes_on (do {
     s \<leftarrow> sh_printk (''--- Kernel Tasks ---'' @ [CHR 0x0A]) [] s;
     s \<leftarrow> sh_on_con (scheduler_list (m_sched (sy_machine (sh_sys s)))) s;
     s \<leftarrow> sh_printk (CHR 0x0A # ''--- Ring 3 Userspace Processes ---'' @ [CHR 0x0A]) [] s;
     sh_on process_list s })"
| "run_command e C_Kill arg1 arg2 orig s = with_arg arg1 ''kill <pid>'' s (\<lambda>a. no_panic (shell_kill a s))"
| "run_command e C_Exec arg1 arg2 orig s = with_arg arg1 ''exec <elf_name>'' s (\<lambda>a. shell_exec_elf a s)"
| "run_command e C_Initrd arg1 arg2 orig s = goes_on (sh_on (initrd_list (sy_initrd (sh_sys s))) s)"
| "run_command e C_Ls arg1 arg2 orig s =
     goes_on (sh_on (vfs_list (case arg1 of None \<Rightarrow> Some (''/ram'' @ [NUL]) | Some a \<Rightarrow> Some a) (sy_fs (sh_sys s))) s)"
| "run_command e C_Cat arg1 arg2 orig s = with_arg arg1 ''cat <filename>'' s (\<lambda>a. shell_cat e a s)"
| "run_command e C_Echo arg1 arg2 orig s = goes_on (shell_echo orig arg1 s)"
| "run_command e C_Uptime arg1 arg2 orig s =
     goes_on (sh_printk (''System Uptime: %u seconds'' @ [CHR 0x0A]) [VA_word (timer_get_ticks (sy_machine (sh_sys s)) div 1000)] s)"
| "run_command e C_Reboot arg1 arg2 orig s =
     obind (no_panic (acpi_reboot (se_status e) (sh_kp s))) (\<lambda>(ops, k). Some (Inr (Stops ops (set_sh_kp k s))))"
| "run_command e C_Shutdown arg1 arg2 orig s =
     obind (no_panic (acpi_shutdown (sh_acpi s) (sh_kp s))) (\<lambda>(ops, k). Some (Inr (Stops ops (set_sh_kp k s))))"
| "run_command e C_Panic arg1 arg2 orig s =
     obind (no_panic (kernel_panic (Some (''User triggered panic test from shell'' @ [NUL])) (se_regs e) (timer_get_ticks (sy_machine (sh_sys s)))
       (sh_klog s, sh_kp s))) (\<lambda>(l, k). Some (Inr (Stops [Cli, Hlt] (set_sh_kp k (s\<lparr>sh_klog := l\<rparr>)))))"

definition unknown_command :: "char list \<Rightarrow> shell \<Rightarrow> shell_end outcome" where
  "unknown_command x s = goes_on (sh_printk (''Unknown command: '' @ CHR 0x27 # ''%s'' @ CHR 0x27 # ''. Type '' @ CHR 0x27 # ''help'' @ CHR 0x27 #
     '' for available commands.'' @ [CHR 0x0A]) [VA_str (Some x)] s)"

text \<open>The command line is in \<open>cmd_buf\<close>, which the splitting changes.\<close>

definition shell_exec :: "shell_env \<Rightarrow> shell \<Rightarrow> shell_end outcome" where
  "shell_exec e s =
     obind (no_panic (do {
       orig \<leftarrow> strncpy (se_stale e 256) (cmd_buf s) 255;
       orig \<leftarrow> put_at orig 255 NUL;
       (buf, w) \<leftarrow> shell_parse (cmd_buf s);
       Some (orig, buf, w) })) (\<lambda>(orig, buf, cmd, arg1, arg2).
     let s = s\<lparr>cmd_buf := buf\<rparr>
     in case cmd of
          None \<Rightarrow> Some (Inr (Goes_On s))
        | Some i \<Rightarrow>
            obind (no_panic (find_command (drop i buf) shell_commands)) (\<lambda>c.
            case c of
              None \<Rightarrow> unknown_command (drop i buf) s
            | Some c \<Rightarrow> run_command e c (map_option (\<lambda>j. drop j buf) arg1) (map_option (\<lambda>j. drop j buf) arg2) orig s))"

section \<open>The line editor\<close>

text \<open>One key of the loop of \<open>shell_run\<close>.\<close>

definition shell_key :: "shell_env \<Rightarrow> char \<Rightarrow> shell \<Rightarrow> shell_end outcome" where
  "shell_key e c s =
     (if c = CHR 0x0A
      then obind (no_panic (do {
             s \<leftarrow> sh_on_con (vga_putchar CHR 0x0A) s;
             b \<leftarrow> put_at (cmd_buf s) (unat (cmd_pos s)) NUL;
             Some (s\<lparr>cmd_buf := b\<rparr>) })) (\<lambda>s.
           obind (shell_exec e s) (\<lambda>r.
           case r of
             Goes_On s \<Rightarrow> goes_on (shell_prompt (s\<lparr>cmd_pos := 0\<rparr>))
           | Stops ops s \<Rightarrow> Some (Inr (Stops ops s))))
      else if c = CHR 0x08
      then (if cmd_pos s > 0 then goes_on (sh_on_con (vga_putchar CHR 0x08) (s\<lparr>cmd_pos := cmd_pos s - 1\<rparr>)) else Some (Inr (Goes_On s)))
      else if 32 \<le> byte c \<and> byte c < 127
      then (if cmd_pos s < 255
            then goes_on (do {
              b \<leftarrow> put_at (cmd_buf s) (unat (cmd_pos s)) c;
              sh_on_con (vga_putchar c) (s\<lparr>cmd_buf := b, cmd_pos := cmd_pos s + 1\<rparr>) })
            else Some (Inr (Goes_On s)))
      else Some (Inr (Goes_On s)))"

text \<open>The endless loop: it only ends with the machine.\<close>

partial_function (option) shell_loop :: "shell_env \<Rightarrow> shell \<Rightarrow> (string + (stop_op list \<times> shell)) option" where
  "shell_loop e s = do {
     (c, m) \<leftarrow> keyboard_wait (env_wake (se_sys e)) (sy_machine (sh_sys s));
     r \<leftarrow> shell_key e c (s\<lparr>sh_sys := (sh_sys s)\<lparr>sy_machine := m\<rparr>\<rparr>);
     if isl r then Some (Inl (projl r))
     else if is_going (projr r) then shell_loop e (end_state (projr r))
     else Some (Inr (end_ops (projr r), end_state (projr r)))
   }"

definition shell_run :: "shell_env \<Rightarrow> shell \<Rightarrow> (stop_op list \<times> shell) outcome" where
  "shell_run e s =
     obind (no_panic (do { s \<leftarrow> shell_init s; shell_prompt s })) (\<lambda>s. shell_loop e (s\<lparr>cmd_pos := 0\<rparr>))"

section \<open>The words are found\<close>

lemma run_of_eq: "list_all P xs \<Longrightarrow> \<not> P y \<Longrightarrow> run_of P (xs @ y # ys) = Some (length xs)"
  by (induction xs) auto

lemma skip_while_eq: "list_all P xs \<Longrightarrow> \<not> P y \<Longrightarrow> skip_while P (pre @ xs @ y # ys) (length pre) = Some (length pre + length xs)"
  by (simp add: skip_while_def run_of_eq)

lemma put_at_eq: "put_at (pre @ y # ys) (length pre) c = Some (pre @ c # ys)"
  by (simp add: put_at_def)

definition first_word :: "char list \<Rightarrow> char list" where
  "first_word t = takeWhile (\<lambda>c. \<not> blank c) t"

definition after_word :: "char list \<Rightarrow> char list" where
  "after_word t = dropWhile blank (dropWhile (\<lambda>c. \<not> blank c) t)"

lemma word_simps [simp]: "first_word [] = []" "after_word [] = []"
  by (simp_all add: first_word_def after_word_def)

lemma first_word_empty: "t \<noteq> [] \<Longrightarrow> \<not> blank (hd t) \<Longrightarrow> first_word t \<noteq> []"
  by (cases t) (simp_all add: first_word_def)

lemma after_word_start: "after_word t \<noteq> [] \<Longrightarrow> \<not> blank (hd (after_word t))"
  unfolding after_word_def by (rule hd_dropWhile)

text \<open>A word ends with the text, or at blanks before the rest.\<close>

lemma split_word:
  obtains "t = first_word t" "after_word t = []" | b where "t = first_word t @ CHR '' '' # b @ after_word t" "list_all blank b"
proof -
  let ?s = "dropWhile (\<lambda>c. \<not> blank c) t"
  have t: "t = first_word t @ ?s" by (simp add: first_word_def)
  show thesis
  proof (cases ?s)
    case Nil
    then have "after_word t = []" by (simp only: after_word_def dropWhile.simps)
    moreover have "t = first_word t" using t by (simp only: Nil append_Nil2)
    ultimately show ?thesis using that(1) by blast
  next
    case (Cons c cs)
    then have c: "c = CHR '' ''" using hd_dropWhile [of "\<lambda>c. \<not> blank c" t] by simp
    have "cs = takeWhile blank cs @ after_word t" by (simp add: after_word_def Cons c)
    then have "t = first_word t @ CHR '' '' # takeWhile blank cs @ after_word t" using t Cons c by metis
    moreover have "list_all blank (takeWhile blank cs)" by (auto simp: list_all_iff dest: set_takeWhileD)
    ultimately show ?thesis using that(2) by blast
  qed
qed

lemma in_first_word: "NUL \<notin> set t \<Longrightarrow> list_all in_word (first_word t)"
  by (auto simp: first_word_def list_all_iff dest: set_takeWhileD)

lemma next_word_eq:
  assumes "NUL \<notin> set t"
  shows "\<exists>b y. next_word (pre @ t @ NUL # z) (length pre) = Some (pre @ first_word t @ NUL # b @ after_word t @ y,
       if after_word t = [] then None else Some (length (pre @ first_word t @ NUL # b)))
    \<and> (after_word t \<noteq> [] \<longrightarrow> y = NUL # z) \<and> length (first_word t @ NUL # b @ after_word t @ y) = length (t @ NUL # z)"
proof (cases rule: split_word [of t])
  case 1
  have "skip_while in_word (pre @ first_word t @ NUL # z) (length pre) = Some (length (pre @ first_word t))"
    using skip_while_eq [OF in_first_word [OF assms]] by simp
  then have "next_word (pre @ first_word t @ NUL # z) (length pre) = Some (pre @ first_word t @ NUL # z, None)"
    by (simp add: next_word_def nth_append)
  then show ?thesis using 1 by (intro exI [of _ "[]"] exI [of _ z]) simp
next
  case (2 b)
  let ?w = "pre @ first_word t" and ?r = "after_word t @ NUL # z"
  obtain x xs where x: "?r = x # xs" "\<not> blank x" "x = NUL \<longleftrightarrow> after_word t = []"
  proof (cases "after_word t")
    case (Cons x xs)
    then have "\<not> blank x" "x \<noteq> NUL" using after_word_start [of t] assms by (simp, subst (asm) 2(1)) auto
    then show ?thesis using that [of x "xs @ NUL # z"] Cons by simp
  qed (use that [of NUL z] in simp)
  have buf: "pre @ t @ NUL # z = ?w @ CHR '' '' # b @ ?r" by (subst 2(1)) simp
  have j: "skip_while in_word (?w @ CHR '' '' # b @ ?r) (length pre) = Some (length ?w)"
    using skip_while_eq [OF in_first_word [OF assms], of "CHR '' ''" pre "b @ ?r"] by simp
  have k: "skip_while blank (?w @ NUL # b @ ?r) (length ?w + 1) = Some (length (?w @ NUL # b))"
    using skip_while_eq [OF 2(2) x(2), of "?w @ [NUL]" xs] by (simp add: x(1))
  have n: "(?w @ CHR '' '' # b @ ?r) ! length ?w = CHR '' ''" "(?w @ NUL # b @ ?r) ! length (?w @ NUL # b) = x"
    using nth_append_length [of ?w "CHR '' ''" "b @ ?r"] nth_append_length [of "?w @ NUL # b" x xs] by (simp_all add: x(1))
  have "next_word (?w @ CHR '' '' # b @ ?r) (length pre) = Some (?w @ NUL # b @ ?r, if after_word t = [] then None else Some (length (?w @ NUL # b)))"
    unfolding next_word_def by (simp only: j n bind.bind_lunit k put_at_eq) (simp add: n x(3) [symmetric])
  moreover have "length t = length (first_word t) + Suc (length b + length (after_word t))" using arg_cong [OF 2(1), of length] by simp
  ultimately show ?thesis unfolding buf by (intro exI [of _ b] exI [of _ "NUL # z"]) simp
qed

text \<open>A position in a buffer stands for a word; no position for the empty one.\<close>

definition points_to :: "char list \<Rightarrow> nat option \<Rightarrow> char list \<Rightarrow> bool" where
  "points_to buf i w \<longleftrightarrow> (case i of None \<Rightarrow> w = [] | Some j \<Rightarrow> w \<noteq> [] \<and> cstr (drop j buf) = w \<and> NUL \<in> set (drop j buf))"

lemma points_to_None [simp]: "points_to buf None w \<longleftrightarrow> w = []"
  by (simp add: points_to_def)

lemma points_to_at: "NUL \<notin> set w \<Longrightarrow> w \<noteq> [] \<Longrightarrow> buf = pre @ w @ NUL # z \<Longrightarrow> points_to buf (Some (length pre)) w"
  by (simp add: points_to_def)

lemma after_word_no_NUL: "NUL \<notin> set t \<Longrightarrow> NUL \<notin> set (after_word t)"
  unfolding after_word_def by (meson set_dropWhileD)

lemma first_word_no_NUL: "NUL \<notin> set t \<Longrightarrow> NUL \<notin> set (first_word t)"
  unfolding first_word_def by (meson set_takeWhileD)

text \<open>The words of a line: the first, the second, and all that is left.\<close>

lemma shell_parse_eq:
  assumes "NUL \<in> set buf" and "t = dropWhile blank (cstr buf)"
  shows "\<exists>buf' i a b. shell_parse buf = Some (buf', i, a, b) \<and> length buf' = length buf
    \<and> points_to buf' i (first_word t) \<and> points_to buf' a (first_word (after_word t)) \<and> points_to buf' b (after_word (after_word t))"
proof -
  define z where "z = drop (Suc (length (cstr buf))) buf"
  define pre where "pre = takeWhile blank (cstr buf)"
  have buf: "buf = pre @ t @ NUL # z"
    using cstr_split [OF assms(1)] takeWhile_dropWhile_id [of blank "cstr buf"] unfolding z_def pre_def assms(2) by (metis append.assoc)
  have blanks: "list_all blank pre" unfolding pre_def list_all_iff by (auto dest: set_takeWhileD)
  have nt: "NUL \<notin> set t" unfolding assms(2) by (meson NUL_notin_cstr set_dropWhileD)
  let ?w = "first_word t" and ?r = "after_word t"
  show ?thesis
  proof (cases t)
    case Nil
    have "skip_while blank buf 0 = Some (length pre)" using skip_while_eq [OF blanks, of NUL "[]" z] by (simp add: buf Nil)
    then have "shell_parse buf = Some (buf, None, None, None)" by (simp add: shell_parse_def buf Nil)
    then show ?thesis using Nil by simp
  next
    case (Cons c cs)
    have c: "\<not> blank c" "c \<noteq> NUL" using hd_dropWhile [of blank "cstr buf"] nt by (auto simp: assms(2) [symmetric] Cons)
    have w0: "?w \<noteq> []" by (rule first_word_empty) (simp_all add: Cons c)
    have i: "skip_while blank buf 0 = Some (length pre)" "buf ! length pre = c"
      using skip_while_eq [OF blanks c(1), of "[]" "cs @ NUL # z"] by (simp_all add: buf Cons)
    obtain b y where n: "next_word buf (length pre) = Some (pre @ ?w @ NUL # b @ ?r @ y, if ?r = [] then None else Some (length (pre @ ?w @ NUL # b)))"
      "?r \<noteq> [] \<Longrightarrow> y = NUL # z" "length (?w @ NUL # b @ ?r @ y) = length (t @ NUL # z)"
      unfolding buf using next_word_eq [OF nt] by blast
    have pw: "points_to (pre @ ?w @ NUL # x) (Some (length pre)) ?w" for x
      by (rule points_to_at [OF first_word_no_NUL [OF nt] w0 refl])
    show ?thesis
    proof (cases "?r = []")
      case True
      then have "shell_parse buf = Some (pre @ ?w @ NUL # b @ y, Some (length pre), None, None)"
        by (simp add: shell_parse_def i c n(1))
      then show ?thesis using pw True n(3) by (simp add: buf)
    next
      case r0: False
      let ?pre = "pre @ ?w @ NUL # b" and ?v = "first_word ?r" and ?q = "after_word ?r"
      note nr = after_word_no_NUL [OF nt]
      have v0: "?v \<noteq> []" by (rule first_word_empty [OF r0 after_word_start [OF r0]])
      obtain b2 y2 where m: "next_word (?pre @ ?r @ NUL # z) (length ?pre) = Some (?pre @ ?v @ NUL # b2 @ ?q @ y2, if ?q = [] then None else Some (length (?pre @ ?v @ NUL # b2)))"
        "?q \<noteq> [] \<Longrightarrow> y2 = NUL # z" "length (?v @ NUL # b2 @ ?q @ y2) = length (?r @ NUL # z)"
        using next_word_eq [OF nr] by blast
      let ?buf = "?pre @ ?v @ NUL # b2 @ ?q @ y2"
      have "shell_parse buf = Some (?buf, Some (length pre), Some (length ?pre), if ?q = [] then None else Some (length (?pre @ ?v @ NUL # b2)))"
        using m(1) by (simp add: shell_parse_def i c n(1,2) r0)
      moreover have "points_to ?buf (Some (length pre)) ?w" using pw by simp
      moreover have "points_to ?buf (Some (length ?pre)) ?v" by (rule points_to_at [OF first_word_no_NUL [OF nr] v0 refl])
      moreover have "points_to ?buf (if ?q = [] then None else Some (length (?pre @ ?v @ NUL # b2))) ?q"
        using points_to_at [OF after_word_no_NUL [OF nr], of ?buf "?pre @ ?v @ NUL # b2" z] m(2) by simp
      moreover have "length ?buf = length buf" using m(3) n(2,3) r0 by (simp add: buf)
      ultimately show ?thesis by blast
    qed
  qed
qed

lemma find_command_eq: "NUL \<in> set w \<Longrightarrow> \<forall>n\<in>fst ` set cs. NUL \<notin> set n \<Longrightarrow> find_command w cs = Some (map_of cs (cstr w))"
proof (induction w cs rule: find_command.induct)
  case (2 w n c cs)
  obtain r where "strcmp (Some w) (Some (n @ [NUL])) = Some r" "r = 0 \<longleftrightarrow> cstr w = cstr (n @ [NUL])"
    using strcmp_ok [OF "2.prems"(1), of "n @ [NUL]"] by auto
  moreover have "cstr (n @ [NUL]) = n" using "2.prems"(2) by simp
  ultimately show ?case using 2 by auto
qed simp

lemma shell_commands_eq: "NUL \<in> set w \<Longrightarrow> find_command w shell_commands = Some (map_of shell_commands (cstr w))"
  by (rule find_command_eq) (simp_all add: shell_commands_def)

section \<open>A line is executed\<close>

definition is_arg :: "char list option \<Rightarrow> char list \<Rightarrow> bool" where
  "is_arg a w \<longleftrightarrow> (case a of None \<Rightarrow> w = [] | Some x \<Rightarrow> w \<noteq> [] \<and> cstr x = w \<and> NUL \<in> set x)"

lemma points_to_arg: "points_to buf i w \<Longrightarrow> is_arg (map_option (\<lambda>j. drop j buf) i) w"
  by (cases i) (simp_all add: is_arg_def points_to_def)

lemma line_copy:
  assumes "NUL \<in> set b" and "length b = 256" and "length d = 256"
  shows "\<exists>x. strncpy d b 255 = Some x \<and> put_at x 255 NUL = Some (cstr b @ replicate (256 - length (cstr b)) NUL)"
proof -
  have n: "length (cstr b) \<le> 255" using length_cstr_less [OF assms(1)] assms(2) by simp
  obtain y where y: "drop 255 d = [y]" using assms(3) by (cases "drop 255 d") (auto dest: arg_cong [of _ _ length])
  let ?x = "cstr b @ replicate (255 - length (cstr b)) NUL"
  have l: "length ?x = 255" and k: "256 - length (cstr b) = Suc (255 - length (cstr b))" using n by simp_all
  have s: "strncpy d b 255 = Some (?x @ [y])" using strncpy_eq [OF assms(1), of 255 d] n assms(3) y by simp
  have "put_at (?x @ [y]) (length ?x) NUL = Some (?x @ [NUL])" by (rule put_at_eq)
  moreover have "?x @ [NUL] = cstr b @ replicate (256 - length (cstr b)) NUL"
    using n by (simp add: replicate_append_same k)
  ultimately show ?thesis using s unfolding l by metis
qed

lemma shell_exec_eq:
  assumes "NUL \<in> set (cmd_buf s)" and "length (cmd_buf s) = 256" and "length (se_stale e 256) = 256"
  defines "line \<equiv> cstr (cmd_buf s)"
  defines "t \<equiv> dropWhile blank line"
  shows "\<exists>buf x a b. shell_exec e s =
      (if t = [] then Some (Inr (Goes_On (s\<lparr>cmd_buf := buf\<rparr>)))
       else case map_of shell_commands (first_word t) of
         None \<Rightarrow> unknown_command x (s\<lparr>cmd_buf := buf\<rparr>)
       | Some c \<Rightarrow> run_command e c a b (line @ replicate (256 - length line) NUL) (s\<lparr>cmd_buf := buf\<rparr>))
    \<and> length buf = 256 \<and> (t \<noteq> [] \<longrightarrow> cstr x = first_word t \<and> NUL \<in> set x) \<and> is_arg a (first_word (after_word t)) \<and> is_arg b (after_word (after_word t))"
proof -
  obtain y where y: "strncpy (se_stale e 256) (cmd_buf s) 255 = Some y" "put_at y 255 NUL = Some (line @ replicate (256 - length line) NUL)"
    using line_copy [OF assms(1-3)] by (auto simp: line_def)
  obtain buf i a b where p: "shell_parse (cmd_buf s) = Some (buf, i, a, b)" "length buf = length (cmd_buf s)"
    "points_to buf i (first_word t)" "points_to buf a (first_word (after_word t))" "points_to buf b (after_word (after_word t))"
    using shell_parse_eq [OF assms(1), of t] by (auto simp: t_def line_def)
  note args = p(4,5) [THEN points_to_arg]
  have w0: "first_word t \<noteq> []" if "t \<noteq> []" using first_word_empty [OF that] hd_dropWhile [of blank line] that by (simp add: t_def)
  show ?thesis
  proof (cases i)
    case None
    then have "t = []" using p(3) w0 by auto
    then show ?thesis using args p(2) assms(2)
      by (rule_tac x = buf in exI, rule_tac x = buf in exI, rule_tac x = "map_option (\<lambda>j. drop j buf) a" in exI)
        (rule exI [of _ "map_option (\<lambda>j. drop j buf) b"], simp add: shell_exec_def y p(1) None)
  next
    case (Some j)
    then have x: "cstr (drop j buf) = first_word t" "NUL \<in> set (drop j buf)" "first_word t \<noteq> []" using p(3) by (auto simp: points_to_def)
    then have "t \<noteq> []" by auto
    then show ?thesis using args p(2) assms(2) x
      by (rule_tac x = buf in exI, rule_tac x = "drop j buf" in exI, rule_tac x = "map_option (\<lambda>j. drop j buf) a" in exI)
        (rule exI [of _ "map_option (\<lambda>j. drop j buf) b"],
         simp add: shell_exec_def y p(1) Some shell_commands_eq [OF x(2)] Let_def)
  qed
qed

section \<open>The line editor\<close>

definition typed :: "shell \<Rightarrow> char list" where
  "typed s = take (unat (cmd_pos s)) (cmd_buf s)"

definition shell_ok :: "shell \<Rightarrow> bool" where
  "shell_ok s \<longleftrightarrow> length (cmd_buf s) = 256 \<and> cmd_pos s \<le> 255 \<and> NUL \<notin> set (typed s) \<and> vga_ok (k_con (sh_kp s))"

text \<open>The reference: what a key makes of the line, and what it sends to the screen.\<close>

definition edit_line :: "char list \<Rightarrow> char \<Rightarrow> char list" where
  "edit_line l c = (if c = CHR 0x08 then butlast l else if 32 \<le> byte c \<and> byte c < 127 \<and> length l < 255 then l @ [c] else l)"

definition echoed :: "char list \<Rightarrow> char \<Rightarrow> char list" where
  "echoed l c = (if edit_line l c = l then [] else [c])"

primrec echoes :: "char list \<Rightarrow> char list \<Rightarrow> char list" where
  "echoes l [] = []"
| "echoes l (c # cs) = echoed l c @ echoes (edit_line l c) cs"

text \<open>A state that differs only in what the editor changes.\<close>

definition shell_with :: "keyboard \<Rightarrow> console \<Rightarrow> char list \<Rightarrow> u32 \<Rightarrow> shell \<Rightarrow> shell" where
  "shell_with kb con b p s =
     (let m = sy_machine (sh_sys s)
      in s\<lparr>sh_sys := (sh_sys s)\<lparr>sy_machine := m\<lparr>m_keyboard := kb, m_proc := (m_proc m)\<lparr>k_con := con\<rparr>\<rparr>\<rparr>, cmd_buf := b, cmd_pos := p\<rparr>)"

abbreviation shell_kb :: "shell \<Rightarrow> keyboard" where "shell_kb s \<equiv> m_keyboard (sy_machine (sh_sys s))"

lemma shell_with_simps [simp]:
  "shell_with kb con b p (shell_with kb' con' b' p' s) = shell_with kb con b p s"
  "shell_kb (shell_with kb con b p s) = kb" "sh_kp (shell_with kb con b p s) = (sh_kp s)\<lparr>k_con := con\<rparr>"
  "cmd_buf (shell_with kb con b p s) = b" "cmd_pos (shell_with kb con b p s) = p"
  "(shell_with kb con b p s)\<lparr>cmd_buf := b'\<rparr> = shell_with kb con b' p s" "(shell_with kb con b p s)\<lparr>cmd_pos := p'\<rparr> = shell_with kb con b p' s"
  by (simp_all add: shell_with_def Let_def sh_kp_def)

lemma shell_with_same: "shell_with (shell_kb s) (k_con (sh_kp s)) (cmd_buf s) (cmd_pos s) s = s"
  by (simp add: shell_with_def sh_kp_def)

lemma shell_with_key: "s\<lparr>sh_sys := (sh_sys s)\<lparr>sy_machine := (sy_machine (sh_sys s))\<lparr>m_keyboard := kb\<rparr>\<rparr>\<rparr> = shell_with kb (k_con (sh_kp s)) (cmd_buf s) (cmd_pos s) s"
  by (simp add: shell_with_def sh_kp_def)

lemma shell_shows_char:
  assumes "vga_ok (k_con (sh_kp s))"
  obtains con where "sh_on_con (vga_putchar c) s = Some (shell_with (shell_kb s) con (cmd_buf s) (cmd_pos s) s)"
    "vga_ok con" "vga_color con = vga_color (k_con (sh_kp s))" "screen con = term_put (vga_color (k_con (sh_kp s))) c (screen (k_con (sh_kp s)))"
  using vga_putchar_terminal [OF assms, of c]
  by (auto simp: sh_on_con_def sh_on_def set_sh_kp_def sh_kp_def set_kp_def shell_with_def)

lemma shell_key_edits:
  assumes "shell_ok s" and "c \<noteq> CHR 0x0A"
  defines "col \<equiv> vga_color (k_con (sh_kp s))"
  shows "\<exists>con b p. shell_key e c s = Some (Inr (Goes_On (shell_with (shell_kb s) con b p s)))
    \<and> shell_ok (shell_with (shell_kb s) con b p s) \<and> take (unat p) b = edit_line (typed s) c \<and> vga_color con = col
    \<and> screen con = fold (term_put col) (echoed (typed s) c) (screen (k_con (sh_kp s)))"
proof -
  note ok = assms(1) [unfolded shell_ok_def]
  have n: "length (typed s) = unat (cmd_pos s)" using ok by (simp add: typed_def word_le_nat_alt)
  have same: "\<exists>con b p. Some (Inr (Goes_On s)) = Some (Inr (Goes_On (shell_with (shell_kb s) con b p s)))
    \<and> shell_ok (shell_with (shell_kb s) con b p s) \<and> take (unat p) b = typed s \<and> vga_color con = col
    \<and> screen con = screen (k_con (sh_kp s))"
    using assms(1) by (intro exI [of _ "k_con (sh_kp s)"] exI [of _ "cmd_buf s"] exI [of _ "cmd_pos s"])
      (simp add: shell_with_same col_def typed_def)
  consider (del) "c = CHR 0x08" "cmd_pos s > 0" | (ins) "c \<noteq> CHR 0x08" "32 \<le> byte c" "byte c < 127" "cmd_pos s < 255" | 
    (none) "c = CHR 0x08 \<and> cmd_pos s = 0 \<or> c \<noteq> CHR 0x08 \<and> \<not> (32 \<le> byte c \<and> byte c < 127 \<and> cmd_pos s < 255)"
    by (auto simp: word_gt_0)
  then show ?thesis
  proof cases
    case none
    then have "shell_key e c s = Some (Inr (Goes_On s))" using assms(2) by (auto simp: shell_key_def)
    moreover have "edit_line (typed s) c = typed s" using none n by (auto simp: edit_line_def word_less_nat_alt)
    ultimately show ?thesis using same by (simp add: echoed_def)
  next
    case del
    have p: "unat (cmd_pos s - 1) = unat (cmd_pos s) - 1" using del(2) by (simp add: unat_minus_one word_gt_0)
    have t: "typed s \<noteq> []" using n del(2) by (auto simp: word_less_nat_alt)
    let ?s = "s\<lparr>cmd_pos := cmd_pos s - 1\<rparr>"
    have k: "sh_kp ?s = sh_kp s" "sh_sys ?s = sh_sys s" by (simp_all add: sh_kp_def)
    obtain con where con: "sh_on_con (vga_putchar c) ?s = Some (shell_with (shell_kb s) con (cmd_buf s) (cmd_pos s - 1) ?s)"
      "vga_ok con" "vga_color con = col" "screen con = term_put col c (screen (k_con (sh_kp s)))"
      using shell_shows_char [of ?s c] ok by (auto simp: k col_def)
    have "shell_with (shell_kb s) con (cmd_buf s) (cmd_pos s - 1) ?s = shell_with (shell_kb s) con (cmd_buf s) (cmd_pos s - 1) s"
      by (simp add: shell_with_def)
    moreover have e: "take (unat (cmd_pos s - 1)) (cmd_buf s) = edit_line (typed s) c"
      using ok by (simp add: edit_line_def del typed_def p butlast_take word_le_nat_alt)
    moreover have "NUL \<notin> set (edit_line (typed s) c)" using ok by (auto simp: edit_line_def del dest: in_set_butlastD)
    moreover have "cmd_pos s - 1 \<le> 255" using conjunct1 [OF conjunct2 [OF ok]] by (simp add: word_le_nat_alt p)
    moreover have "echoed (typed s) c = [c]" using t by (simp add: echoed_def edit_line_def del) (metis append_butlast_last_id append_self_conv not_Cons_self)
    ultimately show ?thesis using con del ok
      by (intro exI [of _ con] exI [of _ "cmd_buf s"] exI [of _ "cmd_pos s - 1"])
        (simp add: shell_key_def goes_on_def shell_ok_def typed_def)
  next
    case ins
    have p: "unat (cmd_pos s + 1) = unat (cmd_pos s) + 1" using ins(4) by (simp add: word_less_nat_alt unat_word_ariths)
    let ?b = "(cmd_buf s)[unat (cmd_pos s) := c]" let ?s = "s\<lparr>cmd_buf := ?b, cmd_pos := cmd_pos s + 1\<rparr>"
    have i: "unat (cmd_pos s) < 256" using ins(4) by (simp add: word_less_nat_alt)
    have k: "sh_kp ?s = sh_kp s" "sh_sys ?s = sh_sys s" by (simp_all add: sh_kp_def)
    obtain con where con: "sh_on_con (vga_putchar c) ?s = Some (shell_with (shell_kb s) con ?b (cmd_pos s + 1) ?s)"
      "vga_ok con" "vga_color con = col" "screen con = term_put col c (screen (k_con (sh_kp s)))"
      using shell_shows_char [of ?s c] ok by (auto simp: k col_def)
    have "shell_with (shell_kb s) con ?b (cmd_pos s + 1) ?s = shell_with (shell_kb s) con ?b (cmd_pos s + 1) s"
      by (simp add: shell_with_def)
    moreover have e: "take (unat (cmd_pos s + 1)) ?b = edit_line (typed s) c"
      using ok i ins n by (simp add: edit_line_def p typed_def take_Suc_conv_app_nth word_less_nat_alt)
    moreover have "NUL \<noteq> c" using ins(2) by (auto simp: byte_def)
    moreover have "NUL \<notin> set (edit_line (typed s) c)" using ok \<open>NUL \<noteq> c\<close> by (auto simp: edit_line_def ins(1))
    moreover have "cmd_pos s + 1 \<le> 255" using ins(4) by (simp add: word_le_nat_alt word_less_nat_alt p)
    moreover have "echoed (typed s) c = [c]" using n ins by (simp add: echoed_def edit_line_def word_less_nat_alt)
    ultimately show ?thesis using con ins ok i assms(2)
      by (intro exI [of _ con] exI [of _ ?b] exI [of _ "cmd_pos s + 1"])
        (simp add: shell_key_def goes_on_def shell_ok_def typed_def put_at_def)
  qed
qed

text \<open>After a line the prompt comes again, or the machine has stopped.\<close>

definition shell_next :: "shell_env \<Rightarrow> shell_end outcome \<Rightarrow> (stop_op list \<times> shell) outcome" where
  "shell_next e r = obind r (\<lambda>r. case r of
       Goes_On s \<Rightarrow> obind (no_panic (shell_prompt (s\<lparr>cmd_pos := 0\<rparr>))) (shell_loop e)
     | Stops ops s \<Rightarrow> Some (Inr (ops, s)))"

lemma shell_loop_key:
  assumes "keyboard_wait (env_wake (se_sys e)) (sy_machine (sh_sys s)) = Some (c, (sy_machine (sh_sys s))\<lparr>m_keyboard := kb\<rparr>)"
  shows "shell_loop e s = obind (shell_key e c (shell_with kb (k_con (sh_kp s)) (cmd_buf s) (cmd_pos s) s))
    (\<lambda>r. case r of Goes_On t \<Rightarrow> shell_loop e t | Stops ops t \<Rightarrow> Some (Inr (ops, t)))"
  using assms by (subst shell_loop.simps)
    (auto simp: shell_with_key obind_def split: option.splits sum.splits shell_end.splits Option.bind_splits)

text \<open>What a waiting line makes the shell do.\<close>

definition runs_line :: "shell_env \<Rightarrow> char list \<Rightarrow> char list \<Rightarrow> char list \<Rightarrow> shell \<Rightarrow> bool" where
  "runs_line e line shown rest s \<longleftrightarrow> (\<exists>kb con b p. shell_loop e s = shell_next e (shell_exec e (shell_with kb con b p s))
     \<and> kb_wf kb \<and> kb_view kb = rest \<and> length b = 256 \<and> NUL \<in> set b \<and> cstr b = line \<and> vga_ok con
     \<and> vga_color con = vga_color (k_con (sh_kp s))
     \<and> screen con = fold (term_put (vga_color (k_con (sh_kp s)))) shown (screen (k_con (sh_kp s))))"

lemma runs_line_end:
  assumes "shell_ok s" and "kb_wf (shell_kb s)" and "kb_view (shell_kb s) = CHR 0x0A # rest"
  shows "runs_line e (typed s) [CHR 0x0A] rest s"
proof -
  note ok = assms(1) [unfolded shell_ok_def]
  obtain kb where kb: "keyboard_wait (env_wake (se_sys e)) (sy_machine (sh_sys s)) = Some (CHR 0x0A, (sy_machine (sh_sys s))\<lparr>m_keyboard := kb\<rparr>)"
    "kb_wf kb" "kb_view kb = rest" by (rule keyboard_wait_queued [OF assms(2,3)])
  let ?s = "shell_with kb (k_con (sh_kp s)) (cmd_buf s) (cmd_pos s) s"
  have "vga_ok (k_con (sh_kp ?s))" using ok by simp
  from shell_shows_char [OF this, of "CHR 0x0A"] obtain con where con:
    "sh_on_con (vga_putchar CHR 0x0A) ?s = Some (shell_with kb con (cmd_buf s) (cmd_pos s) s)" "vga_ok con"
    "vga_color con = vga_color (k_con (sh_kp s))" "screen con = term_put (vga_color (k_con (sh_kp s))) CHR 0x0A (screen (k_con (sh_kp s)))"
    by auto
  let ?b = "(cmd_buf s)[unat (cmd_pos s) := NUL]"
  have i: "unat (cmd_pos s) < length (cmd_buf s)" using ok by (simp add: word_le_nat_alt)
  have b: "?b = typed s @ NUL # drop (Suc (unat (cmd_pos s))) (cmd_buf s)" using i by (simp add: typed_def upd_conv_take_nth_drop)
  have "shell_key e CHR 0x0A ?s = obind (shell_exec e (shell_with kb con ?b (cmd_pos s) s))
      (\<lambda>r. case r of Goes_On s \<Rightarrow> goes_on (shell_prompt (s\<lparr>cmd_pos := 0\<rparr>)) | Stops ops s \<Rightarrow> Some (Inr (Stops ops s)))"
    using con(1) i by (simp add: shell_key_def put_at_def)
  then have "shell_loop e s = shell_next e (shell_exec e (shell_with kb con ?b (cmd_pos s) s))"
    unfolding shell_loop_key [OF kb(1)] shell_next_def
    by (auto simp: obind_def goes_on_def no_panic_def split: option.splits sum.splits shell_end.splits)
  moreover have "cstr ?b = typed s" "NUL \<in> set ?b" "length ?b = 256" unfolding b using ok i by (simp_all del: length_list_update) (simp_all add: typed_def)
  ultimately show ?thesis using kb con unfolding runs_line_def
    by (intro exI [of _ kb] exI [of _ con] exI [of _ ?b] exI [of _ "cmd_pos s"]) simp
qed

lemma runs_line_keys:
  "shell_ok s \<Longrightarrow> kb_wf (shell_kb s) \<Longrightarrow> kb_view (shell_kb s) = cs @ CHR 0x0A # rest \<Longrightarrow> CHR 0x0A \<notin> set cs \<Longrightarrow>
   runs_line e (foldl edit_line (typed s) cs) (echoes (typed s) cs @ [CHR 0x0A]) rest s"
proof (induction cs arbitrary: s)
  case Nil
  then show ?case using runs_line_end by simp
next
  case (Cons c cs)
  obtain kb where kb: "keyboard_wait (env_wake (se_sys e)) (sy_machine (sh_sys s)) = Some (c, (sy_machine (sh_sys s))\<lparr>m_keyboard := kb\<rparr>)"
    "kb_wf kb" "kb_view kb = cs @ CHR 0x0A # rest" using keyboard_wait_queued [OF Cons.prems(2)] Cons.prems(3) by (metis append_Cons)
  let ?s = "shell_with kb (k_con (sh_kp s)) (cmd_buf s) (cmd_pos s) s"
  have ok: "shell_ok ?s" and ty: "typed ?s = typed s" using Cons.prems(1) by (simp_all add: shell_ok_def typed_def)
  have c: "c \<noteq> CHR 0x0A" using Cons.prems(4) by auto
  obtain con b p where k: "shell_key e c ?s = Some (Inr (Goes_On (shell_with kb con b p s)))" "shell_ok (shell_with kb con b p s)"
    "take (unat p) b = edit_line (typed s) c" "vga_color con = vga_color (k_con (sh_kp s))"
    "screen con = fold (term_put (vga_color (k_con (sh_kp s)))) (echoed (typed s) c) (screen (k_con (sh_kp s)))"
    using shell_key_edits [OF ok c, of e] by (simp add: ty) blast
  let ?t = "shell_with kb con b p s"
  have "runs_line e (foldl edit_line (typed ?t) cs) (echoes (typed ?t) cs @ [CHR 0x0A]) rest ?t"
    by (rule Cons.IH) (use k(2) kb Cons.prems(4) in simp_all)
  moreover have "typed ?t = edit_line (typed s) c" using k(3) by (simp add: typed_def)
  moreover have "shell_loop e s = shell_loop e ?t" by (simp add: shell_loop_key [OF kb(1)] k(1))
  ultimately show ?case using k(4,5) by (simp add: runs_line_def)
qed

text \<open>C36: The shell runs what is typed.  For keys followed by the return key in the keyboard buffer the loop takes exactly these
  keys, shows them as the terminal does, and executes the line the editor makes of them: backspace takes back the last
  character, other control characters and what exceeds 255 characters are dropped.  The first word selects the command, by
  its name in the list, the second word and all that is left are its arguments; an empty line does nothing and an unknown
  word is reported.\<close>

theorem shell_line_correct:
  assumes "shell_ok s" and "cmd_pos s = 0" and "kb_wf (shell_kb s)" and "kb_view (shell_kb s) = keys @ CHR 0x0A # rest"
    and "CHR 0x0A \<notin> set keys" and "length (se_stale e 256) = 256"
  defines "line \<equiv> foldl edit_line [] keys"
  defines "t \<equiv> dropWhile blank line" and "col \<equiv> vga_color (k_con (sh_kp s))"
  shows "\<exists>kb con p buf x a b. shell_loop e s = shell_next e
      (if t = [] then Some (Inr (Goes_On (shell_with kb con buf p s)))
       else case map_of shell_commands (first_word t) of
         None \<Rightarrow> unknown_command x (shell_with kb con buf p s)
       | Some c \<Rightarrow> run_command e c a b (line @ replicate (256 - length line) NUL) (shell_with kb con buf p s))
    \<and> kb_wf kb \<and> kb_view kb = rest \<and> vga_ok con \<and> screen con = fold (term_put col) (echoes [] keys @ [CHR 0x0A]) (screen (k_con (sh_kp s)))
    \<and> (t \<noteq> [] \<longrightarrow> cstr x = first_word t) \<and> is_arg a (first_word (after_word t)) \<and> is_arg b (after_word (after_word t))"
proof -
  have "typed s = []" by (simp add: typed_def assms(2))
  then have "runs_line e line (echoes [] keys @ [CHR 0x0A]) rest s"
    using runs_line_keys [OF assms(1,3,4,5)] by (simp add: line_def)
  then obtain kb con b p where r: "shell_loop e s = shell_next e (shell_exec e (shell_with kb con b p s))" "kb_wf kb" "kb_view kb = rest"
    "length b = 256" "NUL \<in> set b" "cstr b = line" "vga_ok con" "screen con = fold (term_put col) (echoes [] keys @ [CHR 0x0A]) (screen (k_con (sh_kp s)))"
    unfolding runs_line_def col_def by blast
  let ?s = "shell_with kb con b p s"
  have "NUL \<in> set (cmd_buf ?s)" "length (cmd_buf ?s) = 256" using r(4,5) by simp_all
  from shell_exec_eq [OF this assms(6)] obtain buf x a c where x: "shell_exec e ?s =
      (if t = [] then Some (Inr (Goes_On (shell_with kb con buf p s)))
       else case map_of shell_commands (first_word t) of
         None \<Rightarrow> unknown_command x (shell_with kb con buf p s)
       | Some d \<Rightarrow> run_command e d a c (line @ replicate (256 - length line) NUL) (shell_with kb con buf p s))"
    "t \<noteq> [] \<longrightarrow> cstr x = first_word t" "is_arg a (first_word (after_word t))" "is_arg c (after_word (after_word t))"
    unfolding shell_with_simps r(6) t_def by blast
  show ?thesis unfolding r(1)
    by (rule exI [of _ kb], rule exI [of _ con], rule exI [of _ p], rule exI [of _ buf], rule exI [of _ x], rule exI [of _ a], rule exI [of _ c])
      (simp add: r(2,3,7,8) x)
qed

section \<open>The echo command\<close>

lemma trim_end_eq:
  "NUL \<notin> set w \<Longrightarrow> cstr (trim_end (length w) (w @ NUL # z)) = rev (dropWhile blank (rev w)) \<and> NUL \<in> set (trim_end (length w) (w @ NUL # z))"
proof (induction w arbitrary: z rule: rev_induct)
  case (snoc x xs)
  have "(xs @ x # NUL # z) ! length xs = x" by simp
  moreover have "cstr (xs @ x # NUL # z) = xs @ [x]" using cstr_append_NUL [of "xs @ [x]" z] snoc.prems by simp
  ultimately show ?case using snoc.prems snoc.IH [of "NUL # z"] by (simp add: list_update_append)
qed simp

lemma echo_split:
  fixes line m f z :: "char list"
  assumes "line = ''echo'' @ m @ CHR ''>'' # f" and "CHR ''>'' \<notin> set m" and "NUL \<notin> set line"
  defines "orig \<equiv> line @ NUL # z" and "p \<equiv> 4 + length m"
  defines "orig' \<equiv> ''echo'' @ m @ NUL # f @ NUL # z" and "m' \<equiv> dropWhile blank m" and "f' \<equiv> dropWhile blank f"
  shows "strchr orig CHR ''>'' = Some (Some p)" and "put_at orig p NUL = Some orig'"
    and "\<exists>i. skip_while blank orig' 4 = Some i \<and> drop i orig' = m' @ NUL # f @ NUL # z \<and> i \<le> p"
    and "\<exists>i. skip_while blank orig' (p + 1) = Some i \<and> drop i orig' = f' @ NUL # z \<and> i > p"
proof -
  have n: "NUL \<notin> set m" "NUL \<notin> set f" using assms(1,3) by auto
  have four: "Suc (Suc (Suc (Suc k))) = 4 + k" for k by simp
  have tw: "takeWhile (\<lambda>x. x \<noteq> CHR ''>'') (m @ CHR ''>'' # f) = m" using assms(2) by (induction m) auto
  have "cstr orig = line" using assms(3) by (simp add: orig_def)
  then show "strchr orig CHR ''>'' = Some (Some p)"
    using strchr_from_eq [of orig "CHR ''>''" 0] by (simp add: strchr_def orig_def p_def assms(1) tw)
  show "put_at orig p NUL = Some orig'"
    using put_at_eq [of "''echo'' @ m" "CHR ''>''" "f @ NUL # z" NUL] by (simp add: orig_def orig'_def p_def assms(1) four)
  have skip: "\<exists>i. skip_while blank (pre @ w @ NUL # y) (length pre) = Some i \<and> drop i (pre @ w @ NUL # y) = dropWhile blank w @ NUL # y
      \<and> length pre \<le> i \<and> i \<le> length pre + length w" if "NUL \<notin> set w" for pre w y
  proof -
    let ?b = "takeWhile blank w"
    have w: "w = ?b @ dropWhile blank w" by simp
    obtain c cs where c: "dropWhile blank w @ NUL # y = c # cs" "\<not> blank c"
      using hd_dropWhile [of blank w] by (cases "dropWhile blank w") auto
    have b: "list_all blank ?b" by (auto simp: list_all_iff dest: set_takeWhileD)
    have e: "pre @ w @ NUL # y = pre @ ?b @ c # cs" by (subst w) (simp add: c(1) [symmetric])
    have "length ?b \<le> length w" by (rule length_takeWhile_le)
    then show ?thesis unfolding e skip_while_eq [OF b c(2)] by (simp add: c(1))
  qed
  show "\<exists>i. skip_while blank orig' 4 = Some i \<and> drop i orig' = m' @ NUL # f @ NUL # z \<and> i \<le> p"
    using skip [OF n(1), of "''echo''" "f @ NUL # z"] by (auto simp: orig'_def m'_def p_def four)
  show "\<exists>i. skip_while blank orig' (p + 1) = Some i \<and> drop i orig' = f' @ NUL # z \<and> i > p"
    using skip [OF n(2), of "''echo'' @ m @ [NUL]" z] by (auto simp: orig'_def f'_def p_def four)
qed

lemma sh_printk_shows:
  assumes "vga_ok (k_con (sh_kp s))" and "NUL \<notin> set fmt" and "printk_text fmt args = Some out"
  obtains con where "sh_printk fmt args s = Some (set_sh_kp ((sh_kp s)\<lparr>k_con := con\<rparr>) s)" "k_shows (sh_kp s) out ((sh_kp s)\<lparr>k_con := con\<rparr>)"
proof -
  obtain k where k: "k_printk fmt args (sh_kp s) = Some k" "k_shows (sh_kp s) out k" using k_printk_shows [OF assms] by blast
  have "k = (sh_kp s)\<lparr>k_con := k_con k\<rparr>" using k(2) by (simp add: k_shows_def)
  then show thesis using that [of "k_con k"] k by (simp add: sh_printk_def sh_on_def)
qed

text \<open>The name a line gives after the sign, and what it does to the files.\<close>

definition trimmed :: "char list \<Rightarrow> char list" where
  "trimmed w = rev (dropWhile blank (rev (dropWhile blank w)))"

definition stored :: "char list \<Rightarrow> char list \<Rightarrow> fs \<Rightarrow> char list \<Rightarrow> char list option" where
  "stored name text s = (if ramfs_view s name = None \<and> ramfs_full s then ramfs_view s else (ramfs_view s)(name \<mapsto> text))"

lemma ramfs_put:
  assumes "ramfs_wf s" and "NUL \<in> set n" and "length (cstr n) \<le> 63" and "NUL \<in> set m" and "length (cstr m) \<le> 1024"
  shows "\<exists>r s' r' s''. ramfs_create (Some n) s = Some (r, s') \<and> ramfs_write (Some n) (Some m) (of_nat (length (cstr m))) s' = Some (r', s'')
    \<and> ramfs_wf s'' \<and> ramfs_view s'' = stored (cstr n) (cstr m) s"
proof -
  have l: "unat (of_nat (length (cstr m)) :: u32) = length (cstr m)" using assms(5) by (intro unat_of_nat_small) simp
  have t: "take (length (cstr m)) m = cstr m" by (simp add: cstr_def takeWhile_eq_take [symmetric])
  obtain r s' where c: "ramfs_create (Some n) s = Some (r, s')" "ramfs_wf s'" "if ramfs_view s (cstr n) \<noteq> None \<or> ramfs_full s then r = -1 \<and> s' = s
     else r = 0 \<and> ramfs_view s' = (ramfs_view s)(cstr n \<mapsto> [])" using ramfs_create_eq [OF assms(1-3)] by blast
  have "min (length (cstr m)) 1024 \<le> length m" using length_cstr_le [of m] by simp
  then obtain r' s'' where w: "ramfs_write (Some n) (Some m) (of_nat (length (cstr m))) s' = Some (r', s'')" "ramfs_wf s''"
    "if ramfs_view s' (cstr n) = None then r' = -1 \<and> s'' = s' else r' = int (length (cstr m)) \<and> ramfs_view s'' = (ramfs_view s')(cstr n \<mapsto> cstr m)"
    using ramfs_write_eq [OF c(2) assms(2), of "of_nat (length (cstr m))" m] assms(5) by (auto simp: l t)
  have "ramfs_view s'' = stored (cstr n) (cstr m) s" using c(3) w(3) by (auto simp: stored_def split: if_splits)
  then show ?thesis using c(1) w(1,2) by blast
qed

lemma sh_kp_fs: "sh_kp (s\<lparr>sh_sys := (sh_sys s)\<lparr>sy_fs := fs\<rparr>\<rparr>) = sh_kp s"
  unfolding sh_kp_def kp_def by simp

lemma shell_echo_eq:
  assumes "line = ''echo'' @ m @ CHR ''>'' # f" and "CHR ''>'' \<notin> set m" and "NUL \<notin> set line" and "length line \<le> 255"
    and "ramfs_wf (sy_fs (sh_sys s))" and "length (trimmed f) \<le> 63" and "vga_ok (k_con (sh_kp s))"
  shows "\<exists>con fs. shell_echo (line @ NUL # z) a s = Some (set_sh_kp ((sh_kp s)\<lparr>k_con := con\<rparr>) (s\<lparr>sh_sys := (sh_sys s)\<lparr>sy_fs := fs\<rparr>\<rparr>))
    \<and> ramfs_wf fs \<and> ramfs_view fs = stored (trimmed f) (dropWhile blank m) (sy_fs (sh_sys s))
    \<and> k_shows (sh_kp s) (''Written to file '' @ CHR 0x27 # trimmed f @ [CHR 0x27, CHR 0x0A]) ((sh_kp s)\<lparr>k_con := con\<rparr>)"
proof -
  let ?p = "4 + length m" and ?o = "''echo'' @ m @ NUL # f @ NUL # z" and ?m = "dropWhile blank m" and ?f = "dropWhile blank f"
  note sp = echo_split [OF assms(1-3), of z]
  obtain i where i: "skip_while blank ?o 4 = Some i" "drop i ?o = ?m @ NUL # f @ NUL # z" "i \<le> ?p" using sp(3) by blast
  obtain j where j: "skip_while blank ?o (?p + 1) = Some j" "drop j ?o = ?f @ NUL # z" "j > ?p" using sp(4) by blast
  have nul: "NUL \<notin> set ?m" "NUL \<notin> set ?f" using assms(1,3) by (auto dest: set_dropWhileD)
  let ?name = "trim_end (length ?f) (?f @ NUL # z)"
  have name: "cstr ?name = trimmed f" "NUL \<in> set ?name" using trim_end_eq [OF nul(2), of z] by (simp_all add: trimmed_def)
  let ?msg = "take (j - i) (drop i ?o) @ ?name"
  have il: "length ?m \<le> ?p - i"
    using arg_cong [OF i(2), of length] i(3) by simp
  have msg: "cstr ?msg = ?m" "NUL \<in> set ?msg"
  proof -
    obtain d where d: "j - i = Suc (length ?m + d)" using less_imp_Suc_add [of "length ?m" "j - i"] il i(3) j(3) by force
    have "?msg = ?m @ NUL # (take d (f @ NUL # z) @ ?name)" unfolding i(2) d by simp
    then show "cstr ?msg = ?m" "NUL \<in> set ?msg" using nul(1) by simp_all
  qed
  have "length ?m \<le> 1024" using length_dropWhile_le [of blank m] assms(1,4) by simp
  then obtain r1 s1 r2 s2 where put: "ramfs_create (Some ?name) (sy_fs (sh_sys s)) = Some (r1, s1)"
    "ramfs_write (Some ?name) (Some ?msg) (of_nat (length ?m)) s1 = Some (r2, s2)" "ramfs_wf s2"
    "ramfs_view s2 = stored (trimmed f) ?m (sy_fs (sh_sys s))"
    using ramfs_put [OF assms(5) name(2) _ msg(2), unfolded name(1) msg(1), OF assms(6)] by blast
  let ?s = "s\<lparr>sh_sys := (sh_sys s)\<lparr>sy_fs := s2\<rparr>\<rparr>"
  note k = sh_kp_fs [of s2 s]
  have "printk_text (quoted ''Written to file '' '''') [VA_str (Some ?name)] = Some (''Written to file '' @ CHR 0x27 # trimmed f @ [CHR 0x27, CHR 0x0A])"
    using name by simp
  from sh_printk_shows [OF _ _ this, of ?s] assms(7) obtain con where con: "sh_printk (quoted ''Written to file '' '''') [VA_str (Some ?name)] ?s = Some (set_sh_kp ((sh_kp s)\<lparr>k_con := con\<rparr>) ?s)"
    "k_shows (sh_kp s) (''Written to file '' @ CHR 0x27 # trimmed f @ [CHR 0x27, CHR 0x0A]) ((sh_kp s)\<lparr>k_con := con\<rparr>)" by (auto simp: k)
  have "shell_echo (line @ NUL # z) a s = Some (set_sh_kp ((sh_kp s)\<lparr>k_con := con\<rparr>) ?s)"
    unfolding shell_echo_def sp(1) bind.bind_lunit option.case sp(2) i(1) j(1)
    by (simp only: j(2) strlen_buf_eq) (use nul put con msg in \<open>simp add: strlen_buf_eq del: append_assoc\<close>)
  then show ?thesis using put con by blast
qed

text \<open>C37: \<^verbatim>\<open>echo MESSAGE > NAME\<close> through the shell.  When the line in the buffer is this command the file NAME, without the blanks around it,
  holds MESSAGE, without the blanks before it and with those after it: it is created unless it exists, and its contents are
  replaced; no other file changes, and nothing happens to the files when the table is full and NAME is new.  The shell goes
  on, and apart from the files and the command line only the console has changed, which shows the report.\<close>

theorem shell_echo_writes:
  assumes "NUL \<in> set (cmd_buf s)" and "length (cmd_buf s) = 256" and "length (se_stale e 256) = 256"
    and "cstr (cmd_buf s) = ''echo '' @ m @ CHR ''>'' # f" and "CHR ''>'' \<notin> set m"
    and "ramfs_wf (sy_fs (sh_sys s))" and "length (trimmed f) \<le> 63" and "vga_ok (k_con (sh_kp s))"
  shows "\<exists>buf con fs. shell_exec e s =
      Some (Inr (Goes_On (set_sh_kp ((sh_kp s)\<lparr>k_con := con\<rparr>) (s\<lparr>cmd_buf := buf, sh_sys := (sh_sys s)\<lparr>sy_fs := fs\<rparr>\<rparr>))))
    \<and> ramfs_wf fs \<and> ramfs_view fs = stored (trimmed f) (dropWhile blank m) (sy_fs (sh_sys s))
    \<and> k_shows (sh_kp s) (''Written to file '' @ CHR 0x27 # trimmed f @ [CHR 0x27, CHR 0x0A]) ((sh_kp s)\<lparr>k_con := con\<rparr>)"
proof -
  let ?line = "cstr (cmd_buf s)"
  have t: "dropWhile blank ?line = ?line" "?line \<noteq> []" by (simp_all add: assms(4))
  have w: "first_word ?line = ''echo''" by (simp add: assms(4) first_word_def)
  have c: "map_of shell_commands ''echo'' = Some C_Echo" by (simp add: shell_commands_def)
  from shell_exec_eq [OF assms(1-3), unfolded t(1) w c] obtain buf a b where
    x: "shell_exec e s = run_command e C_Echo a b (?line @ replicate (256 - length ?line) NUL) (s\<lparr>cmd_buf := buf\<rparr>)"
    using t(2) by auto
  have l: "length ?line \<le> 255" using length_cstr_less [OF assms(1)] assms(2) by simp
  have z: "replicate (256 - length ?line) NUL = NUL # replicate (255 - length ?line) NUL"
    using l by (simp add: replicate_Suc [symmetric] Suc_diff_le del: replicate_Suc)
  have m: "?line = ''echo'' @ (CHR '' '' # m) @ CHR ''>'' # f" "CHR ''>'' \<notin> set (CHR '' '' # m)" using assms(4,5) by simp_all
  have k: "sh_kp (s\<lparr>cmd_buf := buf\<rparr>) = sh_kp s" "sh_sys (s\<lparr>cmd_buf := buf\<rparr>) = sh_sys s" by (simp_all add: sh_kp_def)
  have d: "dropWhile blank (CHR '' '' # m) = dropWhile blank m" by simp
  from shell_echo_eq [OF m NUL_notin_cstr l, of "s\<lparr>cmd_buf := buf\<rparr>" "replicate (255 - length ?line) NUL" a, unfolded k d, OF assms(6-8)]
  obtain con fs where "shell_echo (?line @ NUL # replicate (255 - length ?line) NUL) a (s\<lparr>cmd_buf := buf\<rparr>)
      = Some (set_sh_kp ((sh_kp s)\<lparr>k_con := con\<rparr>) (s\<lparr>cmd_buf := buf, sh_sys := (sh_sys s)\<lparr>sy_fs := fs\<rparr>\<rparr>))" "ramfs_wf fs"
    "ramfs_view fs = stored (trimmed f) (dropWhile blank m) (sy_fs (sh_sys s))"
    "k_shows (sh_kp s) (''Written to file '' @ CHR 0x27 # trimmed f @ [CHR 0x27, CHR 0x0A]) ((sh_kp s)\<lparr>k_con := con\<rparr>)" by blast
  then show ?thesis unfolding x z
    by (rule_tac x = buf in exI, rule_tac x = con in exI, rule_tac x = fs in exI) (simp add: goes_on_def)
qed

text \<open>The path buffer: a name without a slash has room only up to 250 characters; the editor lets 251 through.\<close>

lemma shell_path_relative:
  assumes "length (se_stale e 256) = 256" and "NUL \<in> set a" and "hd a \<noteq> CHR ''/''"
  shows "if length (cstr a) \<le> 250 then \<exists>b. shell_path e a = Some b \<and> cstr b = ''/ram/'' @ cstr a else shell_path e a = None"
proof -
  define d where "d = drop (length (''/ram/'' @ [NUL])) (se_stale e 256)"
  have c: "strcpy (se_stale e 256) (''/ram/'' @ [NUL]) = Some (''/ram/'' @ NUL # d)"
    using strcpy_eq [of "''/ram/'' @ [NUL]" "se_stale e 256"] assms(1) by (simp add: d_def)
  have l: "length d = 250" by (simp add: d_def assms(1))
  show ?thesis
  proof (cases "length (cstr a) \<le> 250")
    case True
    then show ?thesis using strcat_eq [of "''/ram/'' @ NUL # d" a] assms(2,3) l c
      by (auto simp: shell_path_def cstr_append_NUL [of "''/ram/'' @ cstr a", simplified])
  next
    case False
    then show ?thesis using strcat_overflow [of "''/ram/'' @ NUL # d" a] assms(3) l c by (simp add: shell_path_def)
  qed
qed

section \<open>Examples\<close>

definition shell_example :: "char list \<Rightarrow> char list \<Rightarrow> shell" where
  "shell_example keys buf = \<lparr>sh_sys = system_example\<lparr>sy_fs := ramfs_blank, sy_machine := (sy_machine system_example)\<lparr>m_keyboard :=
       \<lparr>kb_buffer = keys @ replicate (256 - length keys) NUL, kb_head = of_nat (length keys), kb_tail = 0, shift_pressed = False, caps_lock = False\<rparr>\<rparr>\<rparr>,
     sh_klog = \<lparr>klog_buffer = replicate 4096 NUL, klog_head = 0, klog_tail = 0, klog_count = 0\<rparr>, sh_pci = pci_example,
     sh_ata = \<lparr>ata_drives = replicate 4 zero_drive, active_drive_count = 0\<rparr>, sh_smp = \<lparr>cpus = boot_cpus, cpu_count = 1\<rparr>,
     sh_acpi = acpi_initial, sh_vesa = vesa_initial, sh_cmos_reads = 0, cmd_buf = buf, cmd_pos = 0\<rparr>"

definition shell_env_example :: shell_env where
  "shell_env_example = \<lparr>se_sys = sys_env_example, se_flags = (0, 0), se_cpuid = (\<lambda>_. (0, 0, 0, 0)), se_cmos = rtc_example, se_status = (\<lambda>_. 0),
     se_regs = \<lparr>cr_eax = 0, cr_ebx = 0, cr_ecx = 0, cr_edx = 0, cr_esp = 0, cr_ebp = 0\<rparr>, se_stale = (\<lambda>n. replicate n NUL)\<rparr>"

lemma shell_example_ok:
  "vga_ok (k_con (sh_kp (shell_example keys buf)))" "length buf = 256 \<Longrightarrow> shell_ok (shell_example keys buf)"
  "length (se_stale shell_env_example 256) = 256"
  using console_example_ok
  by (simp_all add: sh_kp_def kp_def shell_example_def system_example_def pkern_example_def shell_ok_def typed_def shell_env_example_def)

text \<open>A mistyped command, corrected before the return key.\<close>

theorem shell_line_correct_witness:
  "\<exists>kb con p buf a b. shell_loop shell_env_example (shell_example (''shutdowm'' @ [CHR 0x08] @ ''n'' @ [CHR 0x0A]) (replicate 256 NUL))
     = shell_next shell_env_example (run_command shell_env_example C_Shutdown a b (''shutdown'' @ replicate 248 NUL)
         (shell_with kb con buf p (shell_example (''shutdowm'' @ [CHR 0x08] @ ''n'' @ [CHR 0x0A]) (replicate 256 NUL))))
     \<and> kb_view kb = [] \<and> is_arg a []"
proof -
  let ?keys = "''shutdowm'' @ [CHR 0x08] @ ''n''" let ?s = "shell_example (''shutdowm'' @ [CHR 0x08] @ ''n'' @ [CHR 0x0A]) (replicate 256 NUL)"
  have kb: "kb_wf (shell_kb ?s)" "kb_view (shell_kb ?s) = ?keys @ CHR 0x0A # []"
    by (simp_all add: shell_example_def kb_wf_def kb_view_def ring_def upt_rec)
  have p: "cmd_pos ?s = 0" by (simp add: shell_example_def)
  have line: "foldl edit_line [] ?keys = ''shutdown''" by (simp add: edit_line_def byte_def)
  have w: "first_word ''shutdown'' = ''shutdown''" "after_word ''shutdown'' = []" by (simp_all add: first_word_def after_word_def)
  have c: "map_of shell_commands ''shutdown'' = Some C_Shutdown" by (simp add: shell_commands_def)
  have ok: "shell_ok ?s" by (rule shell_example_ok(2)) simp
  have nl: "CHR 0x0A \<notin> set ?keys" by simp
  have d: "dropWhile blank ''shutdown'' = ''shutdown''" "length ''shutdown'' = 8" "''shutdown'' \<noteq> []" by simp_all
  show ?thesis using shell_line_correct [OF ok p kb nl shell_example_ok(3), unfolded line d(1) w c] d(2,3)
    by (simp del: append_Cons append_Nil) blast
qed

theorem shell_echo_writes_witness:
  "\<exists>buf con fs. shell_exec shell_env_example (shell_example [] (''echo hi > f'' @ replicate 245 NUL))
     = Some (Inr (Goes_On (set_sh_kp ((sh_kp (shell_example [] (''echo hi > f'' @ replicate 245 NUL)))\<lparr>k_con := con\<rparr>)
         ((shell_example [] (''echo hi > f'' @ replicate 245 NUL))\<lparr>cmd_buf := buf, sh_sys := (sh_sys (shell_example [] (''echo hi > f'' @ replicate 245 NUL)))\<lparr>sy_fs := fs\<rparr>\<rparr>))))
     \<and> ramfs_view fs = [''f'' \<mapsto> ''hi '']"
proof -
  let ?s = "shell_example [] (''echo hi > f'' @ replicate 245 NUL)"
  have r: "replicate 245 NUL = NUL # replicate 244 NUL" using replicate_Suc [of 244 NUL] by simp
  have b: "cmd_buf ?s = ''echo hi > f'' @ NUL # replicate 244 NUL" "sy_fs (sh_sys ?s) = ramfs_blank"
    by (simp_all add: shell_example_def r)
  have c: "cstr (cmd_buf ?s) = ''echo '' @ ''hi '' @ CHR ''>'' # '' f''" unfolding b(1) by (subst cstr_append_NUL) simp_all
  have n: "NUL \<in> set (cmd_buf ?s)" "length (cmd_buf ?s) = 256" unfolding b(1) by simp_all
  have t: "trimmed '' f'' = ''f''" "dropWhile blank ''hi '' = ''hi ''" by (simp_all add: trimmed_def)
  have st: "stored ''f'' ''hi '' ramfs_blank = [''f'' \<mapsto> ''hi '']" using ramfs_blank_wf by (simp add: stored_def)
  have "CHR ''>'' \<notin> set ''hi ''" "length (trimmed '' f'') \<le> 63" "ramfs_wf (sy_fs (sh_sys ?s))"
    unfolding b(2) by (simp_all add: t ramfs_blank_wf)
  from shell_echo_writes [OF n shell_example_ok(3) c this(1,3,2) shell_example_ok(1), unfolded t b(2) st]
  show ?thesis by blast
qed

end
