(* ===== verification/Boot_Memory.thy ===== *)
theory Boot_Memory
  imports Firmware
begin

unbundle bit_operations_syntax

text \<open>
  The memory managers as \<^verbatim>\<open>kernel_main\<close> (\<^verbatim>\<open>kernel/main.c\<close>) starts them: the frames from the memory map, then the page tables, then
  the heap, with the messages of the three.  The addresses of the kernel image, which the linker sets, and the memory map are arguments.
\<close>

section \<open>The three steps\<close>

definition boot_pmm :: "u32 \<Rightarrow> u32 \<Rightarrow> (u32 \<Rightarrow> mmap_entry) \<Rightarrow> multiboot_info option \<Rightarrow> 'a kern_scheme \<Rightarrow> 'a kern_scheme option" where
  "boot_pmm kernel_start kernel_end mm mbi k = do {
     p \<leftarrow> pmm_init kernel_start kernel_end mm mbi;
     k_printk (''PMM: %u KB total, %u KB free, %u KB used'' @ [CHR 0x0A])
       [VA_word (total_pages p * 4), VA_word (free_pages p * 4), VA_word ((total_pages p - free_pages p) * 4)] (k\<lparr>k_pmm := p\<rparr>)
   }"

definition boot_vmm :: "'a kern_scheme \<Rightarrow> 'a kern_scheme option" where
  "boot_vmm k = k_printk (''VMM: Paging enabled, identity mapped 4MB'' @ [CHR 0x0A]) [] (k_on_vm vmm_init k)"

definition boot_heap :: "u32 \<Rightarrow> u32 \<Rightarrow> u32 \<Rightarrow> 'a kern_scheme \<Rightarrow> 'a kern_scheme outcome" where
  "boot_heap kernel_end start sz k =
     (case heap_init kernel_end start sz ((k_heap k)\<lparr>heap_pmm := k_pmm k\<rparr>) of
        Inl msg \<Rightarrow> Some (Inl msg)
      | Inr h \<Rightarrow> no_panic (k_printk (''Heap: Initialized %u KB at 0x%x'' @ [CHR 0x0A])
                   [VA_word ((heap_end_addr h - heap_start h) div 1024), VA_word (heap_start h)]
                   (k\<lparr>k_heap := h, k_pmm := heap_pmm h\<rparr>)))"

text \<open>Lines 87 to 93 of \<^verbatim>\<open>kernel_main\<close>.\<close>

definition boot_memory ::
  "u32 \<Rightarrow> u32 \<Rightarrow> (u32 \<Rightarrow> mmap_entry) \<Rightarrow> multiboot_info option \<Rightarrow> u32 \<Rightarrow> 'a kern_scheme \<Rightarrow> 'a kern_scheme outcome" where
  "boot_memory kernel_start kernel_end mm mbi heap_size k =
     obind (no_panic (do { k \<leftarrow> boot_pmm kernel_start kernel_end mm mbi k; boot_vmm k })) (boot_heap kernel_end 0 heap_size)"

section \<open>The frames the memory map gives\<close>

definition entry_pages :: "mmap_entry \<Rightarrow> nat set" where
  "entry_pages e = (if me_type e = 1
     then (\<lambda>i. unat (me_addr_low e div PAGE_SIZE + of_nat i)) ` {..<unat (me_len_low e div PAGE_SIZE)} else {})"

lemma pmm_release_free:
  assumes "pmm_wf s"
  shows "free_set (pmm_release s p) = free_set s \<union> ({unat p} \<inter> {..<unat (total_pages s)})"
proof (cases "p < total_pages s")
  case True
  then have r: "unat p div 32 < length (bitmap s)" using pmm_wf_in_range [OF assms] by (simp add: word_less_nat_alt)
  show ?thesis
  proof (cases "bitmap_test (bitmap s) p")
    case t: True
    then show ?thesis using free_set_give [OF r True] True by (simp add: pmm_release_def word_less_nat_alt)
  next
    case False
    then have "unat p \<in> free_set s" using True by (simp add: free_set_def page_used_def bitmap_test_iff word_less_nat_alt)
    then show ?thesis using False by (auto simp: pmm_release_def)
  qed
qed (auto simp: pmm_release_def word_less_nat_alt)

lemma fold_release_free:
  "pmm_wf s \<Longrightarrow> free_set (fold (\<lambda>p s. pmm_release s (f p)) ps s) = free_set s \<union> ((\<lambda>p. unat (f p)) ` set ps \<inter> {..<unat (total_pages s)})"
  by (induction ps arbitrary: s) (auto simp: pmm_release_wf pmm_release_free)

lemma mmap_release_free:
  "pmm_wf s \<Longrightarrow> free_set (mmap_release es s) = free_set s \<union> ((\<Union>e\<in>set es. entry_pages e) \<inter> {..<unat (total_pages s)})"
proof (induction es s rule: mmap_release.induct)
  case (2 e es s)
  show ?case
  proof (cases "me_type e = 1")
    case True
    let ?t = "fold (\<lambda>p s. pmm_release s (me_addr_low e div PAGE_SIZE + of_nat p)) [0..<unat (me_len_low e div PAGE_SIZE)] s"
    have t: "pmm_wf ?t" "total_pages ?t = total_pages s" by (simp_all add: fold_release_wf [OF "2.prems"])
    have "free_set ?t = free_set s \<union> (entry_pages e \<inter> {..<unat (total_pages s)})"
      unfolding fold_release_free [OF "2.prems"] by (simp add: entry_pages_def True atLeast0LessThan)
    then show ?thesis using "2.IH" t True by auto
  next
    case False
    then show ?thesis using "2.IH" "2.prems" by (auto simp: entry_pages_def)
  qed
qed simp

text \<open>With a memory map the free frames are exactly those of its usable regions below the top, less page 0, the kernel image and the bitmap.\<close>

lemma pmm_init_free:
  assumes "mmap_entries mm mbi = Some es" and "mmap_present mbi" and "tot = pmm_max_addr es mbi div PAGE_SIZE"
    and "bitmap_pg = ALIGN_UP kernel_end PAGE_SIZE div PAGE_SIZE"
    and "end_pg = (ALIGN_UP kernel_end PAGE_SIZE + (tot + 31) div 32 * 4) div PAGE_SIZE"
    and "pmm_init kernel_start kernel_end mm mbi = Some p"
  shows "pmm_inv p" and "total_pages p = tot"
    and "free_set p = ((\<Union>e\<in>set es. entry_pages e) \<inter> {..<unat tot})
       - ({0} \<union> {unat (kernel_start div PAGE_SIZE)..unat (kernel_end div PAGE_SIZE)} \<union> {unat bitmap_pg..unat end_pg})"
proof -
  define s0 where "s0 = \<lparr>bitmap = replicate (unat ((tot + 31) div 32)) 0xFFFFFFFF, total_pages = tot, free_pages = 0\<rparr>"
  note s0 = pmm_init_start_wf [OF assms(3) s0_def]
  let ?s1 = "mmap_release es s0"
  have s1: "pmm_wf ?s1" "total_pages ?s1 = tot" using mmap_release_wf [OF s0(1), of es] by (simp_all add: s0_def)
  have tp: "total_pages s0 = tot" by (simp add: s0_def)
  have f1: "free_set ?s1 = (\<Union>e\<in>set es. entry_pages e) \<inter> {..<unat tot}"
    using mmap_release_free [OF s0(1), of es] unfolding s0(2) tp by simp
  from assms(6) obtain s2 s3 where s2: "pmm_reserve 0 ?s1 = Some s2"
    and s3: "pmm_reserve_range (kernel_start div PAGE_SIZE) (kernel_end div PAGE_SIZE) s2 = Some s3"
    and s4: "pmm_reserve_range bitmap_pg end_pg s3 = Some p"
    unfolding pmm_init_def assms(1) Let_def by (auto simp: assms(2,4,5) assms(3) [symmetric] s0_def [symmetric] simp del: unat_div_32 split: Option.bind_splits)
  note w2 = pmm_reserve_wf [OF s1(1) s2]
  note w3 = pmm_reserve_range_wf [OF conjunct1 [OF w2] unat_div_page s3]
  have "unat end_pg < 2 ^ 20" using assms(5) unat_div_page by simp
  note w4 = pmm_reserve_range_wf [OF conjunct1 [OF w3] this s4]
  show "total_pages p = tot" using w2 w3 w4 s1 by simp
  show "free_set p = ((\<Union>e\<in>set es. entry_pages e) \<inter> {..<unat tot})
       - ({0} \<union> {unat (kernel_start div PAGE_SIZE)..unat (kernel_end div PAGE_SIZE)} \<union> {unat bitmap_pg..unat end_pg})"
    using w2 w3 w4 f1 by auto
  then show "pmm_inv p" using w4 by (auto simp: pmm_inv_def)
qed

lemma alloc_lowest:
  assumes "pmm_inv s" and "p \<in> free_set s" and "\<forall>q \<in> free_set s. p \<le> q"
  obtains t where "pmm_alloc_page s = (of_nat p * PAGE_SIZE, t)" "free_set t = free_set s - {p}" "pmm_inv t"
  using assms(1)
proof (cases rule: pmm_alloc_page_cases)
  case (2 q t)
  then have "q = p" using assms(2,3) by (meson le_antisym)
  then show ?thesis using 2 that by simp
qed (use assms(2) in simp)

section \<open>Paging and the heap\<close>

lemma vmm_init_pmm: "alloc_pages pmm_alloc_page 2 (phys_mgr s) = (as, q) \<Longrightarrow> phys_mgr (vmm_init s) = q"
  by (auto simp: vmm_init_def numeral_2_eq_2 Let_def split: prod.splits)

definition heap_pages :: "u32 \<Rightarrow> u32" where
  "heap_pages sz = (max 0x100000 sz + PAGE_SIZE - 1) div PAGE_SIZE"

lemma unat_heap_pages:
  assumes "sz \<le> 0x40000000"
  shows "0 < unat (heap_pages sz)" "unat (heap_pages sz) \<le> 2 ^ 18" "unat (heap_pages sz * PAGE_SIZE) = unat (heap_pages sz) * 4096"
    "256 \<le> unat (heap_pages sz)"
proof -
  define M where "M = max 0x100000 sz"
  have m: "unat M \<le> 0x40000000" "0x100000 \<le> unat M" using assms by (auto simp: M_def max_def word_le_nat_alt)
  have e: "M + PAGE_SIZE - 1 = M + 4095" by simp
  have "unat (M + 4095) = unat M + 4095" using m(1) unat_Suc_small [of M 4095] by simp
  then have n: "unat (heap_pages sz) = (unat M + 4095) div 4096" unfolding heap_pages_def M_def [symmetric] e by (simp add: unat_div)
  show b: "0 < unat (heap_pages sz)" "unat (heap_pages sz) \<le> 2 ^ 18" "256 \<le> unat (heap_pages sz)" unfolding n using m by simp_all
  then show "unat (heap_pages sz * PAGE_SIZE) = unat (heap_pages sz) * 4096" by (simp add: unat_word_ariths)
qed

text \<open>Two frames for the tables, the rest for the heap, whose pages are taken to follow the first one.\<close>

lemma boot_memory_eq:
  assumes "pmm_init kernel_start kernel_end mm mbi = Some p" and "pmm_inv p" and "sz \<le> 0x40000000"
    and "unat (heap_pages sz) + 2 \<le> card (free_set p)" and "unat (total_pages p) \<le> 0xC0000" and "vga_ok (k_con k)"
  shows "\<exists>k' start as q. boot_memory kernel_start kernel_end mm mbi sz k = Some (Inr k')
    \<and> vga_ok (k_con k') \<and> bit (cr0 (k_vm k')) 31 \<and> (\<forall>w. vmm_get_phys w (k_vm k') = (if w < 0x400000 then w else 0))
    \<and> heap_wf (k_heap k') [(start, heap_pages sz * PAGE_SIZE - HDR, True)] \<and> heap_start (k_heap k') = start
    \<and> heap_end_addr (k_heap k') = start + heap_pages sz * PAGE_SIZE
    \<and> unat start + unat (heap_pages sz) * 4096 < 2 ^ 32
    \<and> alloc_pages pmm_alloc_page 2 p = (as, q) \<and> start = fst (pmm_alloc_page q) \<and> start \<in> free_frames p
    \<and> pmm_inv (k_pmm k') \<and> free_frames (k_pmm k') \<subseteq> free_frames p"
proof -
  let ?n = "unat (heap_pages sz)"
  note hp = unat_heap_pages [OF assms(3)]
  have wf: "pmm_wf p" using assms(2) by (simp add: pmm_inv_def)
  have card: "?n + 2 \<le> card (free_frames p)" using assms(4) card_free_frames [OF wf] by simp
  have "\<exists>out. printk_text (''PMM: %u KB total, %u KB free, %u KB used'' @ [CHR 0x0A])
      [VA_word (total_pages p * 4), VA_word (free_pages p * 4), VA_word ((total_pages p - free_pages p) * 4)] = Some out" by simp
  from k_print_some [of "k\<lparr>k_pmm := p\<rparr>", OF _ _ this] assms(6) obtain c1 where
    c1: "boot_pmm kernel_start kernel_end mm mbi k = Some (k\<lparr>k_pmm := p, k_con := c1\<rparr>)" "vga_ok c1" by (auto simp: boot_pmm_def assms(1))
  define k1 where "k1 = k\<lparr>k_pmm := p, k_con := c1\<rparr>"
  have k1: "phys_mgr (vm_of k1) = p" by (simp add: vm_of_def k1_def)
  define k2 where "k2 = k_on_vm vmm_init k1"
  have "vga_ok (k_con k2)" "\<exists>out. printk_text (''VMM: Paging enabled, identity mapped 4MB'' @ [CHR 0x0A]) [] = Some out"
    using c1(2) by (simp_all add: k2_def k1_def)
  from k_print_some [OF this(1) _ this(2)] obtain c2 where c2: "boot_vmm k1 = Some (k2\<lparr>k_con := c2\<rparr>)" "vga_ok c2"
    by (auto simp: boot_vmm_def k2_def)
  obtain as q where aq: "alloc_pages pmm_alloc_page 2 p = (as, q)" by fastforce
  have q: "k_pmm k2 = q" using vmm_init_pmm [of "vm_of k1" as q] aq by (simp add: k2_def k1)
  note inv_q = pmm_frames.alloc_pages_inv [OF assms(2) aq]
  have len: "length as = 2" and fq: "free_frames q = free_frames p - set as" using pmm_frames.alloc_pages_frames [OF assms(2) aq] by auto
  have "card (free_frames p) \<le> card (free_frames q) + card (set as)"
    unfolding fq using diff_card_le_card_Diff [of "set as" "free_frames p"] by simp
  then have nq: "?n \<le> card (free_frames q)" using card card_length [of as] len by simp
  obtain bs r where br: "alloc_pages pmm_alloc_page ?n q = (bs, r)" by fastforce
  have b0: "0 \<notin> set bs" by (rule pmm_frames.alloc_pages_complete [OF inv_q br nq])
  have lb: "length bs = ?n" "free_frames r = free_frames q - set bs" using pmm_frames.alloc_pages_frames [OF inv_q br] by auto
  have bne: "bs \<noteq> []" using lb hp(1) by auto
  have hd: "hd bs = fst (pmm_alloc_page q)" using br hp(1) by (cases ?n) (auto split: prod.splits)
  have hin: "hd bs \<in> free_frames p" using pmm_frames.alloc_pages_fresh [OF inv_q br] b0 bne fq by (cases bs) auto
  then obtain pg where pg: "pg \<in> free_set p" "hd bs = of_nat pg * PAGE_SIZE" by (auto simp: free_frames_def)
  have "pg \<noteq> 0" using pg(1) assms(2) unfolding pmm_inv_def by metis
  have "pg < unat (total_pages p)" using pg(1) by (simp add: free_set_def)
  then have pgl: "pg < 0xC0000" using assms(5) by simp
  then have uh: "unat (hd bs) = pg * 4096" unfolding pg(2) by (intro unat_mult_page) simp
  have bound: "unat (hd bs) + ?n * 4096 < 2 ^ 32" using uh pgl hp(2) by simp
  have ps: "PAGE_SIZE \<le> hd bs" using uh \<open>pg \<noteq> 0\<close> by (simp add: word_le_nat_alt)
  have hdr: "HDR \<le> heap_pages sz * PAGE_SIZE" using hp(1,3) by (simp add: word_le_nat_alt)
  let ?h = "(k_heap k2)\<lparr>heap_pmm := k_pmm k2\<rparr>"
  have "alloc_pages pmm_alloc_page ?n (heap_pmm ?h) = (bs, r)" using br q by simp
  from heap_init_wf [OF heap_pages_def this b0 bne ps _ hdr] bound hp(3) obtain h where
    h: "heap_init kernel_end 0 sz ?h = Inr h" "heap_wf h [(hd bs, heap_pages sz * PAGE_SIZE - HDR, True)]" by auto
  have m: "(if sz < 0x100000 then 0x100000 else sz) = max 0x100000 sz" by (auto simp: max_def not_le)
  have "heap_grab ?n True (ALIGN_UP (kernel_end + 0x100000) PAGE_SIZE) q = Some (hd bs, r)"
    using heap_grab_alloc [OF br b0] bne by simp
  then have hs: "heap_start h = hd bs" "heap_end_addr h = hd bs + heap_pages sz * PAGE_SIZE" "heap_pmm h = r"
    using h(1) unfolding heap_init_def Let_def m heap_pages_def [symmetric] by (auto simp: q)
  let ?k3 = "k2\<lparr>k_con := c2, k_heap := h, k_pmm := r\<rparr>"
  have "\<exists>out. printk_text (''Heap: Initialized %u KB at 0x%x'' @ [CHR 0x0A]) [VA_word ((heap_end_addr h - heap_start h) div 1024), VA_word (heap_start h)] = Some out"
    by simp
  from k_print_some [of ?k3, OF _ _ this] c2(2) obtain c3 where c3: "boot_heap kernel_end 0 sz (k2\<lparr>k_con := c2\<rparr>) = Some (Inr (?k3\<lparr>k_con := c3\<rparr>))" "vga_ok c3"
    using h(1) hs by (auto simp: boot_heap_def)
  have "boot_memory kernel_start kernel_end mm mbi sz k = Some (Inr (?k3\<lparr>k_con := c3\<rparr>))"
    using c1(1) c2(1) c3(1) by (simp add: boot_memory_def k1_def)
  moreover have "2 \<le> card (free_frames (phys_mgr (vm_of k1)))" "pmm_inv (phys_mgr (vm_of k1))" using card assms(2) by (simp_all add: k1)
  note vmm_init_correct [OF this(2,1)]
  then have "bit (cr0 (k_vm k2)) 31" "\<forall>w. vmm_get_phys w (k_vm k2) = (if w < 0x400000 then w else 0)" by (simp_all add: k2_def)
  moreover have "pmm_inv r" by (rule pmm_frames.alloc_pages_inv [OF inv_q br])
  ultimately show ?thesis using c3(2) h(2) hs aq hd hin bound lb(2) fq
    by (rule_tac x = "?k3\<lparr>k_con := c3\<rparr>" in exI, rule_tac x = "hd bs" in exI, rule_tac x = as in exI, rule_tac x = q in exI) auto
qed

text \<open>The heap after a start on a PC.\<close>

lemma page_of_align_up: "ALIGN_UP x PAGE_SIZE div PAGE_SIZE = (x + 4095) div PAGE_SIZE"
proof -
  have "(w AND NOT 4095) div PAGE_SIZE = w div PAGE_SIZE" for w :: u32
  proof -
    have "(4095 :: u32) = mask 12" "PAGE_SIZE = 2 ^ 12" by (simp_all add: mask_eq_exp_minus_1)
    moreover have "drop_bit 12 (w AND NOT (mask 12)) = drop_bit 12 w" by (rule bit_eqI) (auto simp: bit_simps dest: bit_imp_le_length)
    ultimately show ?thesis by (simp only: drop_bit_eq_div [symmetric])
  qed
  then show ?thesis by (simp add: ALIGN_UP_def add.commute)
qed

lemma pages_low:
  assumes "e \<in> set es" and "me_type e = 1" and "me_addr_low e = 0" and "0x4000 \<le> me_len_low e"
  shows "{1, 2, 3} \<subseteq> (\<Union>e\<in>set es. entry_pages e)"
proof -
  have n: "4 \<le> unat (me_len_low e div PAGE_SIZE)" using assms(4) by (simp add: unat_div word_le_nat_alt)
  have "i \<in> entry_pages e" if "i < 4" for i
  proof -
    have "unat (of_nat i :: u32) = i" using that by (intro unat_of_nat_small) simp
    then have "i = unat (me_addr_low e div PAGE_SIZE + of_nat i)" by (simp add: assms(3))
    moreover have "i \<in> {..<unat (me_len_low e div PAGE_SIZE)}" using n that by simp
    ultimately show ?thesis unfolding entry_pages_def if_P [OF assms(2)] by (rule image_eqI)
  qed
  from this [of 1] this [of 2] this [of 3] show ?thesis using assms(1) by auto
qed

lemma third_frame:
  assumes "pmm_inv p" and "{1, 2, 3} \<subseteq> free_set p" and "alloc_pages pmm_alloc_page 2 p = (as, q)"
  shows "fst (pmm_alloc_page q) = 0x3000"
proof -
  have ne: "0 \<notin> free_set p" using assms(1) by (simp add: pmm_inv_def)
  have low: "\<forall>x \<in> free_set p. 1 \<le> x" using ne by (metis One_nat_def Suc_leI neq0_conv)
  obtain p1 where 1: "pmm_alloc_page p = (of_nat 1 * PAGE_SIZE, p1)" "free_set p1 = free_set p - {1}" "pmm_inv p1"
    by (rule alloc_lowest [OF assms(1) _ low]) (use assms(2) in auto)
  have "\<forall>x \<in> free_set p1. 2 \<le> x" using low 1(2) by (force simp: le_less)
  then obtain p2 where 2: "pmm_alloc_page p1 = (of_nat 2 * PAGE_SIZE, p2)" "free_set p2 = free_set p1 - {2}" "pmm_inv p2"
    by (rule alloc_lowest [OF 1(3), rotated]) (use assms(2) 1(2) in auto)
  have "\<forall>x \<in> free_set p2. 3 \<le> x" using low 1(2) 2(2) by (force simp: le_less)
  then obtain p3 where 3: "pmm_alloc_page p2 = (of_nat 3 * PAGE_SIZE, p3)"
    by (rule alloc_lowest [OF 2(3), rotated]) (use assms(2) 1(2) 2(2) in auto)
  have "q = p2" using assms(3) 1(1) 2(1) by (simp add: numeral_2_eq_2)
  then show ?thesis using 3 by simp
qed

text \<open>A free frame is the address of a free page.\<close>

lemma free_frame_page:
  assumes "pmm_wf p" and "a \<in> free_frames p"
  obtains x where "x \<in> free_set p" "a = of_nat x * PAGE_SIZE" "unat a = x * 4096"
proof -
  from assms(2) obtain x where x: "a = of_nat x * PAGE_SIZE" "x \<in> free_set p" unfolding free_frames_def by (rule imageE)
  show thesis using x unat_mult_page [OF free_set_less [OF assms(1) x(2)]] that by blast
qed

section \<open>Properties\<close>

text \<open>C38: The start of the memory managers.  When the boot loader gives a memory map that can be walked and leaves enough frames, all below
  3 GB, \<open>pmm_init\<close>, \<open>vmm_init\<close> and \<open>heap_init\<close> succeed as \<open>kernel_main\<close> calls them: paging is on, exactly the first 4 MB are mapped,
  to themselves, the heap is one free block of the size asked for (at least 1 MB), and its first frame and every frame still free are pages
  of a usable region of the map (read as the code reads it, by the low words of the entries), below the top, and neither page 0 nor a page
  of the kernel image or of the bitmap behind it.  So nothing mapped before, as the interrupt controllers by \<open>apic_init\<close>, remains mapped.\<close>

theorem boot_memory_correct:
  assumes "mmap_entries mm mbi = Some es" and "mmap_present mbi" and "tot = pmm_max_addr es mbi div PAGE_SIZE"
    and "bitmap_pg = ALIGN_UP kernel_end PAGE_SIZE div PAGE_SIZE"
    and "end_pg = (ALIGN_UP kernel_end PAGE_SIZE + (tot + 31) div 32 * 4) div PAGE_SIZE"
    and "pmm_init kernel_start kernel_end mm mbi = Some p" and "sz \<le> 0x40000000"
    and "unat (heap_pages sz) + 2 \<le> card (free_set p)" and "unat tot \<le> 0xC0000" and "vga_ok (k_con k)"
  shows "\<exists>k'. boot_memory kernel_start kernel_end mm mbi sz k = Some (Inr k')
    \<and> bit (cr0 (k_vm k')) 31 \<and> (\<forall>w. vmm_get_phys w (k_vm k') = (if w < 0x400000 then w else 0))
    \<and> heap_wf (k_heap k') [(heap_start (k_heap k'), heap_pages sz * PAGE_SIZE - HDR, True)]
    \<and> pmm_inv (k_pmm k') \<and> free_frames (k_pmm k') \<subseteq> free_frames p
    \<and> (\<forall>a \<in> insert (heap_start (k_heap k')) (free_frames (k_pmm k')). \<exists>x. unat a = x * 4096
        \<and> (\<exists>e \<in> set es. x \<in> entry_pages e) \<and> x < unat tot \<and> x \<noteq> 0
        \<and> \<not> (unat (kernel_start div PAGE_SIZE) \<le> x \<and> x \<le> unat (kernel_end div PAGE_SIZE))
        \<and> \<not> (unat bitmap_pg \<le> x \<and> x \<le> unat end_pg))"
proof -
  note init = pmm_init_free [OF assms(1-6)]
  have wf: "pmm_wf p" using init(1) by (simp add: pmm_inv_def)
  have "unat (total_pages p) \<le> 0xC0000" using assms(9) init(2) by simp
  from boot_memory_eq [OF assms(6) init(1) assms(7,8) this assms(10)] obtain k' start where
    k': "boot_memory kernel_start kernel_end mm mbi sz k = Some (Inr k')" "bit (cr0 (k_vm k')) 31"
      "\<forall>w. vmm_get_phys w (k_vm k') = (if w < 0x400000 then w else 0)"
      "heap_wf (k_heap k') [(start, heap_pages sz * PAGE_SIZE - HDR, True)]" "heap_start (k_heap k') = start"
    and free: "start \<in> free_frames p" "pmm_inv (k_pmm k')" "free_frames (k_pmm k') \<subseteq> free_frames p" by blast
  have "\<exists>x. unat a = x * 4096 \<and> (\<exists>e \<in> set es. x \<in> entry_pages e) \<and> x < unat tot \<and> x \<noteq> 0
        \<and> \<not> (unat (kernel_start div PAGE_SIZE) \<le> x \<and> x \<le> unat (kernel_end div PAGE_SIZE))
        \<and> \<not> (unat bitmap_pg \<le> x \<and> x \<le> unat end_pg)"
    if "a \<in> insert start (free_frames (k_pmm k'))" for a
  proof -
    have "a \<in> free_frames p" using that free by auto
    then obtain x where "x \<in> free_set p" "unat a = x * 4096" by (rule free_frame_page [OF wf])
    then show ?thesis unfolding init(3) by (intro exI [where x = x]) auto
  qed
  then show ?thesis using k' free by blast
qed

text \<open>C39: Where the heap comes to lie on a PC.  When the memory map has usable memory from address 0 on and the kernel is loaded at 1 MB,
  the first frame the heap gets is 0x3000; its other frames are taken wherever they are free, but the heap is one block behind the first:
  it covers the video memory and the start of the kernel.  When the map has no usable page from 0xA0000 to 0xFFFFF, as on a PC, none of the
  pages it covers there, nor the first page of the kernel, was ever a free frame.\<close>

theorem boot_heap_overlaps_kernel:
  assumes "mmap_entries mm mbi = Some es" and "mmap_present mbi" and "e \<in> set es" and "me_type e = 1" and "me_addr_low e = 0" and "0x4000 \<le> me_len_low e"
    and "pmm_init 0x100000 kernel_end mm mbi = Some p" and "0x100000 \<le> kernel_end" and "kernel_end \<le> 0x40000000"
    and "sz \<le> 0x40000000" and "unat (heap_pages sz) + 2 \<le> card (free_set p)" and "unat (total_pages p) \<le> 0xC0000" and "vga_ok (k_con k)"
    and "\<forall>e \<in> set es. entry_pages e \<inter> {0xA0..<0x100} = {}"
  shows "\<exists>k'. boot_memory 0x100000 kernel_end mm mbi sz k = Some (Inr k') \<and> heap_start (k_heap k') = 0x3000
    \<and> (\<forall>a. 0xA0000 \<le> a \<and> a \<le> 0x102FFF \<longrightarrow> heap_start (k_heap k') \<le> a \<and> a < heap_end_addr (k_heap k'))
    \<and> (\<forall>a. 0xA0000 \<le> a \<and> a < 0x101000 \<longrightarrow> a \<notin> free_frames p)"
proof -
  note init = pmm_init_free [OF assms(1,2) refl refl refl assms(7)]
  obtain k' start as q where k': "boot_memory 0x100000 kernel_end mm mbi sz k = Some (Inr k')" "heap_start (k_heap k') = start"
    "heap_end_addr (k_heap k') = start + heap_pages sz * PAGE_SIZE" "unat start + unat (heap_pages sz) * 4096 < 2 ^ 32"
    "alloc_pages pmm_alloc_page 2 p = (as, q)" "start = fst (pmm_alloc_page q)"
    using boot_memory_eq [OF assms(7) init(1) assms(10-13)] by blast
  have wf: "pmm_wf p" using init(1) by (simp add: pmm_inv_def)
  have kp: "unat ((0x100000 :: u32) div PAGE_SIZE) = 256" by simp
  have kn: "unat kernel_end \<le> 0x40000000" "0x100000 \<le> unat kernel_end" using assms(8,9) by (simp_all add: word_le_nat_alt)
  have bp: "256 \<le> unat (ALIGN_UP kernel_end PAGE_SIZE div PAGE_SIZE)"
    using kn unat_Suc_small [of kernel_end 4095] by (simp add: page_of_align_up unat_div)
  have kd: "256 \<le> unat (kernel_end div PAGE_SIZE)" using div_le_mono [OF kn(2), of 4096] by (simp add: unat_div)
  then have "256 \<notin> free_set p" unfolding init(3) kp by simp
  moreover have "x \<notin> free_set p" if "0xA0 \<le> x" "x < 0x100" for x
  proof
    assume "x \<in> free_set p"
    then obtain e' where "e' \<in> set es" "x \<in> entry_pages e'" unfolding init(3) by auto
    then show False using assms(14) that by (auto simp: disjoint_iff)
  qed
  ultimately have nf: "x \<notin> free_set p" if "0xA0 \<le> x" "x \<le> 0x100" for x using that by (cases "x = 0x100") auto
  have free: "a \<notin> free_frames p" if "0xA0000 \<le> a" "a < 0x101000" for a
  proof
    assume "a \<in> free_frames p"
    then obtain x where x: "x \<in> free_set p" "unat a = x * 4096" using free_frame_page [OF wf] by metis
    have "0xA0000 \<le> unat a" "unat a < 0x101000" using that by (simp_all add: word_le_nat_alt word_less_nat_alt)
    then have "0xA0 \<le> x" "x \<le> 0x100" using x(2) by auto
    then show False using nf x(1) by blast
  qed
  have low: "{1, 2, 3} \<subseteq> (\<Union>e\<in>set es. entry_pages e)" by (rule pages_low [OF assms(3-6)])
  have fin: "?thesis" if "{1, 2, 3} \<subseteq> free_set p"
  proof -
    have "start = 0x3000" unfolding k'(6) by (rule third_frame [OF init(1) that k'(5)])
    moreover have "a < 0x3000 + heap_pages sz * PAGE_SIZE" if "a \<le> 0x102FFF" for a
      using that k'(4) unat_heap_pages [OF assms(10)] unat_Suc_small [of "0x3000" "unat (heap_pages sz * PAGE_SIZE)"]
      by (simp add: \<open>start = 0x3000\<close> word_less_nat_alt word_le_nat_alt)
    moreover have "(0x3000 :: u32) \<le> a" if "0xA0000 \<le> a" for a using that by (rule order_trans [rotated]) simp
    ultimately show ?thesis using k'(1-3) free by auto
  qed
  have tp: "4 \<le> unat (total_pages p)"
  proof -
    have "free_set p \<subseteq> {..<unat (total_pages p)}" by (auto simp: free_set_def)
    then have "card (free_set p) \<le> unat (total_pages p)" using card_mono [of "{..<unat (total_pages p)}"] by simp
    then show ?thesis using assms(11) unat_heap_pages [OF assms(10)] by simp
  qed
  show ?thesis by (rule fin, unfold init(3)) (use low tp bp kp in \<open>auto simp: init(2)\<close>)
qed

section \<open>Examples\<close>

text \<open>A memory map of 16 MB with the usual hole below 1 MB.\<close>

definition map_example :: "u32 \<Rightarrow> mmap_entry" where
  "map_example a = (if a = 0x5000
     then \<lparr>me_size = 20, me_addr_low = 0, me_addr_high = 0, me_len_low = 0x9F000, me_len_high = 0, me_type = 1\<rparr>
     else \<lparr>me_size = 20, me_addr_low = 0x100000, me_addr_high = 0, me_len_low = 0xF00000, me_len_high = 0, me_type = 1\<rparr>)"

definition mbi_example :: multiboot_info where
  "mbi_example = \<lparr>mb_flags = 0x40, mb_mem_upper = 0, mb_mmap_length = 48, mb_mmap_addr = 0x5000\<rparr>"

lemma map_example_entries: "mmap_entries map_example (Some mbi_example) = Some [map_example 0x5000, map_example 0x5018]"
  "mmap_present (Some mbi_example)"
  by (simp_all add: mmap_entries_def mmap_present_def mbi_example_def mmap_walk.simps [of map_example "0x5000"]
      mmap_walk.simps [of map_example "0x5018"] mmap_walk.simps [of map_example "0x5030"] map_example_def)

lemma map_example_pages: "pmm_max_addr [map_example 0x5000, map_example 0x5018] (Some mbi_example) div PAGE_SIZE = 4096"
  "ALIGN_UP 0x110000 PAGE_SIZE = 0x110000"
  by (simp_all add: pmm_max_addr_def map_example_entries(2) map_example_def ALIGN_UP_def)

lemma map_example_hole: "\<forall>e \<in> set [map_example 0x5000, map_example 0x5018]. entry_pages e \<inter> {0xA0..<0x100} = {}"
proof -
  have "unat (of_nat i :: u32) = i" if "i < 0x9F" for i using that by (intro unat_of_nat_small) simp
  moreover have "unat (256 + of_nat i :: u32) = 256 + i" if "i < 3840" for i
    using that unat_Suc_small [of 256 i] unat_of_nat_small [of i] by (simp add: unat_word_ariths)
  ultimately show ?thesis by (auto simp: entry_pages_def map_example_def)
qed

lemma map_example_init:
  obtains p where "pmm_init 0x100000 0x110000 map_example (Some mbi_example) = Some p" "pmm_inv p" "total_pages p = 4096" "1026 \<le> card (free_set p)"
proof -
  let ?es = "[map_example 0x5000, map_example 0x5018]"
  have "(4096 :: u32) = pmm_max_addr ?es (Some mbi_example) div PAGE_SIZE" by (simp only: map_example_pages)
  moreover have "(272 :: u32) = ALIGN_UP 0x110000 PAGE_SIZE div PAGE_SIZE" by (simp add: map_example_pages)
  moreover have "(272 :: u32) = (ALIGN_UP 0x110000 PAGE_SIZE + (4096 + 31) div 32 * 4) div PAGE_SIZE" by (simp add: map_example_pages)
  moreover have "(0x110000 :: u32) div PAGE_SIZE < 4096" "(272 :: u32) < 4096" by simp_all
  note pre = calculation this
  obtain p where p: "pmm_init 0x100000 0x110000 map_example (Some mbi_example) = Some p"
    using pmm_init_correct [OF map_example_entries(1) pre, of "0x100000"] by blast
  note init = pmm_init_free [OF map_example_entries pre(1-3) p]
  have "i \<in> entry_pages (map_example 0x5018)" if "256 \<le> i" "i < 4096" for i
  proof -
    have "unat (of_nat i :: u32) = i" using that by (intro unat_of_nat_small) simp
    moreover have "(256 :: u32) + of_nat (i - 256) = of_nat i" using that by (simp add: of_nat_diff)
    ultimately have "i = unat (0x100000 div PAGE_SIZE + of_nat (i - 256) :: u32)" by simp
    moreover have "i - 256 \<in> {..<3840}" using that by simp
    ultimately show ?thesis by (auto simp: entry_pages_def map_example_def)
  qed
  then have "{1000..<3000} \<subseteq> free_set p" unfolding init(3) by auto
  then have "1026 \<le> card (free_set p)" using card_mono [of "free_set p" "{1000..<3000}"] by simp
  then show thesis using that p init(1,2) by blast
qed

lemma heap_pages_example: "unat (heap_pages 0x400000) = 1024" "heap_pages 0x400000 = 1024"
  by (simp_all add: heap_pages_def)

theorem boot_memory_correct_witness:
  "\<exists>k'. boot_memory 0x100000 0x110000 map_example (Some mbi_example) 0x400000 (firmware_example mp_rom) = Some (Inr k')
     \<and> vmm_get_phys 0xFEE000B0 (k_vm k') = 0 \<and> vmm_get_phys 0xB8000 (k_vm k') = 0xB8000 \<and> 0x110000 \<notin> free_frames (k_pmm k')"
proof -
  obtain p where p: "pmm_init 0x100000 0x110000 map_example (Some mbi_example) = Some p" "pmm_inv p" "total_pages p = 4096" "1026 \<le> card (free_set p)"
    by (rule map_example_init)
  have "(0x400000 :: u32) \<le> 0x40000000" "unat (heap_pages 0x400000) + 2 \<le> card (free_set p)"
    "unat (pmm_max_addr [map_example 0x5000, map_example 0x5018] (Some mbi_example) div PAGE_SIZE) \<le> 0xC0000"
    using p(4) heap_pages_example map_example_pages(1) by simp_all
  from boot_memory_correct [OF map_example_entries refl refl refl p(1) this firmware_example_simps(1) [of mp_rom]] obtain k' where
    k': "boot_memory 0x100000 0x110000 map_example (Some mbi_example) 0x400000 (firmware_example mp_rom) = Some (Inr k')"
      "\<forall>w. vmm_get_phys w (k_vm k') = (if w < 0x400000 then w else 0)" "\<forall>a \<in> free_frames (k_pmm k'). \<exists>x. unat a = x * 4096 \<and> \<not> (unat ((0x100000 :: u32) div PAGE_SIZE) \<le> x \<and> x \<le> unat ((0x110000 :: u32) div PAGE_SIZE))"
    by (elim exE conjE) (rule that, assumption+, blast)
  have "0x110000 \<notin> free_frames (k_pmm k')" using k'(3) by force
  then show ?thesis using k'(1,2) by auto
qed

theorem boot_heap_overlaps_kernel_witness:
  "\<exists>k'. boot_memory 0x100000 0x110000 map_example (Some mbi_example) 0x400000 (firmware_example mp_rom) = Some (Inr k')
     \<and> heap_start (k_heap k') = 0x3000 \<and> 0x100000 < heap_end_addr (k_heap k')
     \<and> (\<exists>p. pmm_init 0x100000 0x110000 map_example (Some mbi_example) = Some p \<and> 0xB8000 \<notin> free_frames p)"
proof -
  obtain p where p: "pmm_init 0x100000 0x110000 map_example (Some mbi_example) = Some p" "pmm_inv p" "total_pages p = 4096" "1026 \<le> card (free_set p)"
    by (rule map_example_init)
  have e: "map_example 0x5000 \<in> set [map_example 0x5000, map_example 0x5018]" "me_type (map_example 0x5000) = 1"
    "me_addr_low (map_example 0x5000) = 0" "0x4000 \<le> me_len_low (map_example 0x5000)" by (simp_all add: map_example_def)
  have "(0x100000 :: u32) \<le> 0x110000" "(0x110000 :: u32) \<le> 0x40000000" "(0x400000 :: u32) \<le> 0x40000000"
    "unat (heap_pages 0x400000) + 2 \<le> card (free_set p)" "unat (total_pages p) \<le> 0xC0000"
    using p(3,4) heap_pages_example by simp_all
  from boot_heap_overlaps_kernel [OF map_example_entries e p(1) this firmware_example_simps(1) [of mp_rom] map_example_hole] obtain k' where
    k': "boot_memory 0x100000 0x110000 map_example (Some mbi_example) 0x400000 (firmware_example mp_rom) = Some (Inr k')" "heap_start (k_heap k') = 0x3000"
      "\<forall>a. 0xA0000 \<le> a \<and> a \<le> 0x102FFF \<longrightarrow> heap_start (k_heap k') \<le> a \<and> a < heap_end_addr (k_heap k')"
      "\<forall>a. 0xA0000 \<le> a \<and> a < 0x101000 \<longrightarrow> a \<notin> free_frames p"
    by (elim exE conjE) (rule that, assumption+)
  then have "0x100000 < heap_end_addr (k_heap k')" "0xB8000 \<notin> free_frames p" by simp_all
  then show ?thesis using k'(1,2) p(1) by blast
qed

end
