(* ===== verification/Boot.thy ===== *)
theory Boot
  imports Boot_Memory Shell Elf_Image Module_Registry
begin

unbundle bit_operations_syntax

text \<open>
  \<^verbatim>\<open>kernel_main\<close> (\<^verbatim>\<open>kernel/main.c\<close>): the order in which everything is started.  Addresses that the linker or the assembler
  sets, the information of the boot loader, the arrays of the programs and \<^verbatim>\<open>pr_info\<close>, \<^verbatim>\<open>cpuid_init\<close>,
  \<^verbatim>\<open>DIONNEX_HEAP_SIZE_DEFAULT\<close> and \<^verbatim>\<open>MULTIBOOT_BOOTLOADER_MAGIC\<close>, which no file defines, are fields of the environment.
\<close>

section \<open>The state and the environment\<close>

record 'd boot =
  bt_shell :: shell
  bt_apic :: apic
  bt_registry :: registry
  bt_disk :: 'd

record 'd boot_env =
  bo_shell :: shell_env
  bo_inb :: "u16 \<Rightarrow> u8"
  bo_isr :: "nat \<Rightarrow> u32"
  bo_irq :: "nat \<Rightarrow> u32"
  bo_idt :: u32
  bo_gdt :: u32
  bo_tss :: u32
  bo_kernel_start :: u32
  bo_kernel_end :: u32
  bo_mmap :: "u32 \<Rightarrow> mmap_entry"
  bo_mbi :: "u32 \<Rightarrow> multiboot_info"
  bo_vbe :: "u32 \<Rightarrow> vbe_info"
  bo_port :: "'d ata_port"
  bo_blobs :: "blob \<times> blob \<times> blob \<times> blob \<times> blob"
  bo_heap_size :: u32
  bo_magic :: u32
  bo_pr_info :: "char list \<Rightarrow> va_arg list \<Rightarrow> 'd boot \<Rightarrow> 'd boot option"
  bo_cpuid_init :: "'d boot \<Rightarrow> 'd boot option"

definition on_sh :: "(shell \<Rightarrow> shell option) \<Rightarrow> 'd boot \<Rightarrow> 'd boot option" where
  "on_sh f b = map_option (\<lambda>s. b\<lparr>bt_shell := s\<rparr>) (f (bt_shell b))"

definition on_machine :: "(machine \<Rightarrow> machine option) \<Rightarrow> 'd boot \<Rightarrow> 'd boot option" where
  "on_machine f = on_sh (\<lambda>s. map_option (\<lambda>m. s\<lparr>sh_sys := (sh_sys s)\<lparr>sy_machine := m\<rparr>\<rparr>) (f (sy_machine (sh_sys s))))"

definition bt_kp :: "'d boot \<Rightarrow> pkern" where "bt_kp b = sh_kp (bt_shell b)"

definition set_bt_kp :: "pkern \<Rightarrow> 'd boot \<Rightarrow> 'd boot" where "set_bt_kp k b = b\<lparr>bt_shell := set_sh_kp k (bt_shell b)\<rparr>"

definition bt_printk :: "char list \<Rightarrow> va_arg list \<Rightarrow> 'd boot \<Rightarrow> 'd boot option" where
  "bt_printk fmt args = on_sh (sh_printk fmt args)"

section \<open>The processor and its devices\<close>

text \<open>Lines 48 to 57; the number of ticks stamps the messages of the log.\<close>

definition boot_console :: "'d boot_env \<Rightarrow> 'd boot \<Rightarrow> 'd boot option" where
  "boot_console e b = do {
     b \<leftarrow> on_sh (sh_on_con vga_init) b;
     b \<leftarrow> on_sh (sh_on_con (\<lambda>c. Some (serial_init c))) b;
     let b = b\<lparr>bt_shell := (bt_shell b)\<lparr>sh_klog := klog_init\<rparr>\<rparr>;
     bo_pr_info e (''Dionnex Monolithic Kernel v0.1'' @ [CHR 0x0A]) [] b
   }"

text \<open>\<open>apic_init\<close> works on the machine that the rest of the kernel sees.\<close>

definition boot_apic :: "'d boot \<Rightarrow> 'd boot option" where
  "boot_apic b = do {
     a \<leftarrow> apic_init ((bt_apic b)\<lparr>apic_machine := sy_machine (sh_sys (bt_shell b))\<rparr>);
     on_machine (\<lambda>_. Some (apic_machine a)) (b\<lparr>bt_apic := a\<rparr>)
   }"

text \<open>Lines 66 to 84.\<close>

definition boot_cpu :: "'d boot_env \<Rightarrow> 'd boot \<Rightarrow> 'd boot option" where
  "boot_cpu e b = do {
     b \<leftarrow> on_machine (gdt_init (bo_gdt e)) b;
     b \<leftarrow> on_machine (idt_init (bo_inb e) (bo_isr e) (bo_irq e) (bo_idt e)) b;
     b \<leftarrow> bo_cpuid_init e b;
     b \<leftarrow> boot_apic b;
     b \<leftarrow> on_machine (timer_init (bo_inb e) 1000) b;
     b \<leftarrow> on_machine (keyboard_init (bo_inb e)) b;
     (n, c) \<leftarrow> rtc_init (se_cmos (bo_shell e)) (sh_cmos_reads (bt_shell b)) (k_con (bt_kp b));
     Some (set_bt_kp ((bt_kp b)\<lparr>k_con := c\<rparr>) (b\<lparr>bt_shell := (bt_shell b)\<lparr>sh_cmos_reads := n\<rparr>\<rparr>))
   }"

text \<open>Lines 96 to 102.\<close>

definition boot_devices :: "'d boot_env \<Rightarrow> 'd boot \<Rightarrow> 'd boot outcome" where
  "boot_devices e b =
     obind (pci_init ((sh_pci (bt_shell b))\<lparr>pci_kern := kern.truncate (bt_kp b)\<rparr>)) (\<lambda>p.
     let k = pci_kern p;
         b = set_bt_kp ((bt_kp b)\<lparr>k_pmm := k_pmm k, k_heap := k_heap k, k_vm := k_vm k, k_con := k_con k\<rparr>)
               (b\<lparr>bt_shell := (bt_shell b)\<lparr>sh_pci := p\<rparr>\<rparr>)
     in no_panic (do {
       (a, d, c) \<leftarrow> ata_init (bo_port e) (sh_ata (bt_shell b)) (bt_disk b) (k_con (bt_kp b));
       let b = set_bt_kp ((bt_kp b)\<lparr>k_con := c\<rparr>) (b\<lparr>bt_shell := (bt_shell b)\<lparr>sh_ata := a\<rparr>, bt_disk := d\<rparr>);
       (a, k) \<leftarrow> acpi_init (sh_acpi (bt_shell b)) (bt_kp b);
       Some (set_bt_kp k (b\<lparr>bt_shell := (bt_shell b)\<lparr>sh_acpi := a\<rparr>\<rparr>)) }))"

section \<open>Files, tasks and processes\<close>

definition boot_fs :: "'d boot \<Rightarrow> 'd boot outcome" where
  "boot_fs b = obind (fs_boot (sy_fs (sh_sys (bt_shell b))) (bt_kp b)) (\<lambda>(s, k).
     let sh = bt_shell b in Some (Inr (set_bt_kp k (b\<lparr>bt_shell := sh\<lparr>sh_sys := (sh_sys sh)\<lparr>sy_fs := s\<rparr>\<rparr>\<rparr>))))"

text \<open>Lines 116 to 135.\<close>

definition boot_kernel :: "'d boot_env \<Rightarrow> u32 \<Rightarrow> 'd boot \<Rightarrow> 'd boot outcome" where
  "boot_kernel e mbi_addr b =
     obind (no_panic (do {
       b \<leftarrow> on_machine (\<lambda>m. do { (s, c) \<leftarrow> task_init (m_sched m) (k_con (m_proc m));
              Some (m\<lparr>m_sched := s, m_proc := (m_proc m)\<lparr>k_con := c\<rparr>\<rparr>) }) b;
       b \<leftarrow> on_sh (sh_on_con scheduler_init) b;
       b \<leftarrow> on_sh (\<lambda>s. map_option (\<lambda>y. s\<lparr>sh_sys := y\<rparr>) (syscall_init (se_sys (bo_shell e)) (sh_sys s))) b;
       b \<leftarrow> on_machine (tss_init (bo_tss e)) b;
       b \<leftarrow> on_sh (sh_on process_init) b;
       b \<leftarrow> on_sh (sh_on sched_proc_init) b;
       b \<leftarrow> on_sh (\<lambda>s. let (x1, x2, x3, x4, x5) = bo_blobs e in
              map_option (\<lambda>(r, k). set_sh_kp k (s\<lparr>sh_sys := (sh_sys s)\<lparr>sy_initrd := r\<rparr>\<rparr>))
                (initrd_init x1 x2 x3 x4 x5 (sy_initrd (sh_sys s)) (sh_kp s))) b;
       b \<leftarrow> on_sh (\<lambda>s. map_option (\<lambda>(ms, k). set_sh_kp k (s\<lparr>sh_sys := (sh_sys s)\<lparr>sy_modules := ms\<rparr>\<rparr>))
              (module_loader_init (sy_modules (sh_sys s)) (sh_kp s))) b;
       b \<leftarrow> on_sh (sh_on elf_init) b;
       on_sh (\<lambda>s. map_option (\<lambda>(p, k). set_sh_kp k (s\<lparr>sh_smp := p\<rparr>)) (smp_init (sh_kp s))) b })) (\<lambda>b.
     obind (vesa_init (if mbi_addr = 0 then None else Some (bo_vbe e mbi_addr)) (sh_vesa (bt_shell b)) (bt_kp b)) (\<lambda>(v, k).
     let b = set_bt_kp k (b\<lparr>bt_shell := (bt_shell b)\<lparr>sh_vesa := v\<rparr>\<rparr>)
     in no_panic (do {
       (r, k) \<leftarrow> module_init_subsystem (bt_registry b) (bt_kp b);
       Some (set_bt_kp k (b\<lparr>bt_registry := r\<rparr>)) })))"

text \<open>A process from the embedded files, lines 138 to 146 and 148 to 156.\<close>

definition start_process :: "'d boot_env \<Rightarrow> string \<Rightarrow> string \<Rightarrow> string \<Rightarrow> 'd boot \<Rightarrow> 'd boot outcome" where
  "start_process e file name msg b =
     obind (no_panic (initrd_get_file (Some (file @ [NUL])) (Some 0) (sy_initrd (sh_sys (bt_shell b))))) (\<lambda>(data, sz).
     case data of
       None \<Rightarrow> Some (Inr b)
     | Some d \<Rightarrow>
         if the sz > 0
         then obind (process_create (Some (name @ [NUL])) (Some (bl_bytes d)) (the sz) (bt_kp b)) (\<lambda>(p, k).
              if p \<noteq> 0
              then no_panic (do {
                k \<leftarrow> sched_proc_add p k;
                q \<leftarrow> procs k p;
                bo_pr_info e msg [VA_word (pr_pid q)] (set_bt_kp k b) })
              else Some (Inr (set_bt_kp k b)))
         else Some (Inr b))"

text \<open>Lines 163 to 167: two files.\<close>

definition put_file :: "string \<Rightarrow> char list \<Rightarrow> u32 \<Rightarrow> fs \<Rightarrow> fs option" where
  "put_file name data len s = do {
     (_, s) \<leftarrow> ramfs_create (Some (name @ [NUL])) s;
     (_, s) \<leftarrow> ramfs_write (Some (name @ [NUL])) (Some (data @ [NUL])) len s;
     Some s
   }"

definition motd_text :: "char list" where
  "motd_text = ''Dionnex Monolithic Kernel'' @ CHR 0x0A # ''GPLv2'' @ CHR 0x0A # ''Type '' @ CHR 0x27 # ''help'' @ CHR 0x27 # '' for commands.'' @ [CHR 0x0A]"

definition boot_files :: "fs \<Rightarrow> fs option" where
  "boot_files s = do {
     s \<leftarrow> put_file ''welcome.txt'' (''Welcome to Dionnex v0.1'' @ [CHR 0x0A]) 24 s;
     put_file ''motd.txt'' motd_text 57 s
   }"

text \<open>Lines 175 to 181.\<close>

definition boot_modules :: "'d boot_env \<Rightarrow> 'd boot \<Rightarrow> 'd boot outcome" where
  "boot_modules e b =
     obind (no_panic (bt_printk (''Module: Loading built-in modules...'' @ [CHR 0x0A]) [] b)) (\<lambda>b.
     obind (no_panic (initrd_get_file (Some (''hello.ko'' @ [NUL])) (Some 0) (sy_initrd (sh_sys (bt_shell b))))) (\<lambda>(data, sz).
     obind (case data of
         Some d \<Rightarrow>
           if the sz > 0
           then obind (module_load_binary (env_symbols (se_sys (bo_shell e))) (env_call (se_sys (bo_shell e))) (Some (''hello'' @ [NUL]))
                  (Some (bl_bytes d)) (the sz) (sy_modules (sh_sys (bt_shell b))) (bt_kp b)) (\<lambda>(res, x, ms, k).
                let s = bt_shell b; y = sh_sys s
                in Some (Inr (set_bt_kp k (b\<lparr>bt_shell := s\<lparr>sh_sys := y\<lparr>sy_modules := ms, sy_initrd := initrd_put d (the x) (sy_initrd y)\<rparr>\<rparr>\<rparr>))))
           else Some (Inr b)
       | None \<Rightarrow> Some (Inr b)) (\<lambda>b.
     no_panic (bt_printk (''Module: Built-in modules loaded. Use '' @ CHR 0x27 # ''insmod'' @ CHR 0x27 # '' to load more.'' @ [CHR 0x0A]) [] b))))"

text \<open>Lines 137 to 181.\<close>

definition boot_user :: "'d boot_env \<Rightarrow> 'd boot \<Rightarrow> 'd boot outcome" where
  "boot_user e b =
     obind (start_process e ''init.elf'' ''init'' (''Init: Started init process (pid %u)'' @ [CHR 0x0A]) b) (\<lambda>b.
     obind (start_process e ''shell_user.elf'' ''shell_user'' (''Init: Started user shell process (pid %u)'' @ [CHR 0x0A]) b) (\<lambda>b.
     obind (no_panic (do {
       b \<leftarrow> bo_pr_info e (''All subsystems initialized'' @ [CHR 0x0A]) [] b;
       b \<leftarrow> on_sh (\<lambda>s. do {
              (l, c) \<leftarrow> klog 1 (''Running init commands...'' @ [CHR 0x0A, NUL]) [] (timer_get_ticks (sy_machine (sh_sys s))) (sh_klog s, k_con (sh_kp s));
              Some (set_sh_kp ((sh_kp s)\<lparr>k_con := c\<rparr>) (s\<lparr>sh_klog := l\<rparr>)) }) b;
       b \<leftarrow> on_sh (\<lambda>s. map_option (\<lambda>f. s\<lparr>sh_sys := (sh_sys s)\<lparr>sy_fs := f\<rparr>\<rparr>) (boot_files (sy_fs (sh_sys s)))) b;
       on_sh (sh_on (k_prints
         [([CHR 0x0A], []), (''  Welcome to Dionnex v0.1'' @ [CHR 0x0A], []),
          (''  Type '' @ CHR 0x27 # ''help'' @ CHR 0x27 # '' for available commands.'' @ [CHR 0x0A], []),
          (''  Type '' @ CHR 0x27 # ''neofetch'' @ CHR 0x27 # '' for system info.'' @ [CHR 0x0A, CHR 0x0A], [])])) b })) (boot_modules e)))"

section \<open>The whole start\<close>

definition boot_system :: "'d boot_env \<Rightarrow> u32 \<Rightarrow> 'd boot \<Rightarrow> 'd boot outcome" where
  "boot_system e mbi_addr b =
     obind (no_panic (boot_cpu e b)) (\<lambda>b.
     obind (boot_memory (bo_kernel_start e) (bo_kernel_end e) (bo_mmap e) (if mbi_addr = 0 then None else Some (bo_mbi e mbi_addr))
              (bo_heap_size e) (bt_kp b)) (\<lambda>k.
     obind (boot_devices e (set_bt_kp k b)) (\<lambda>b.
     obind (boot_fs b) (\<lambda>b.
     obind (boot_kernel e mbi_addr b) (boot_user e)))))"

text \<open>It ends with the machine: the last instructions, and the state in which it stops.\<close>

definition kernel_main :: "'d boot_env \<Rightarrow> u32 \<Rightarrow> u32 \<Rightarrow> 'd boot \<Rightarrow> (stop_op list \<times> 'd boot) outcome" where
  "kernel_main e magic mbi_addr b =
     obind (no_panic (boot_console e b)) (\<lambda>b.
     if magic \<noteq> bo_magic e
     then obind (no_panic (kernel_panic (Some (''Invalid Multiboot magic signature!'' @ [NUL])) (se_regs (bo_shell e))
                   (timer_get_ticks (sy_machine (sh_sys (bt_shell b)))) (sh_klog (bt_shell b), bt_kp b))) (\<lambda>(l, k).
            Some (Inr ([Cli, Hlt], set_bt_kp k (b\<lparr>bt_shell := (bt_shell b)\<lparr>sh_klog := l\<rparr>\<rparr>))))
     else obind (boot_system e mbi_addr b) (\<lambda>b.
          obind (shell_run (bo_shell e) (bt_shell b)) (\<lambda>(ops, s). Some (Inr (ops, b\<lparr>bt_shell := s\<rparr>)))))"

section \<open>Properties\<close>

lemma put_file_eq:
  assumes "ramfs_wf s" and "NUL \<notin> set name" and "length name \<le> 63" and "unat len \<le> length data" and "unat len \<le> 1024"
    and "ramfs_view s name \<noteq> None \<or> \<not> ramfs_full s"
  shows "\<exists>t. put_file name data len s = Some t \<and> ramfs_wf t \<and> ramfs_view t = (ramfs_view s)(name \<mapsto> take (unat len) data)"
proof -
  have n: "NUL \<in> set (name @ [NUL])" "cstr (name @ [NUL]) = name" using assms(2) by simp_all
  have l: "length (cstr (name @ [NUL])) \<le> 63" unfolding n(2) by (rule assms(3))
  obtain r t where t: "ramfs_create (Some (name @ [NUL])) s = Some (r, t)" "ramfs_wf t"
    "if ramfs_view s name \<noteq> None \<or> ramfs_full s then r = -1 \<and> t = s else r = 0 \<and> ramfs_view t = (ramfs_view s)(name \<mapsto> [])"
    using ramfs_create_eq [OF assms(1) n(1) l] unfolding n(2) by blast
  have v: "ramfs_view t name \<noteq> None" "(ramfs_view t)(name \<mapsto> x) = (ramfs_view s)(name \<mapsto> x)" for x
    using t(3) assms(6) by (auto split: if_splits)
  have "min (unat len) 1024 \<le> length (data @ [NUL])" using assms(4) by simp
  from ramfs_write_eq [OF t(2) n(1) this] obtain r' u where u: "ramfs_write (Some (name @ [NUL])) (Some (data @ [NUL])) len t = Some (r', u)" "ramfs_wf u"
    "ramfs_view u = (ramfs_view t)(name \<mapsto> take (min (unat len) 1024) (data @ [NUL]))" using v(1) unfolding n(2) by auto
  have "take (min (unat len) 1024) (data @ [NUL]) = take (unat len) data" using assms(4,5) by simp
  then show ?thesis using t(1) u v(2) by (simp add: put_file_def)
qed

lemma ramfs_full_card:
  assumes "ramfs_wf s" and "ramfs_full s"
  shows "64 \<le> card (dom (ramfs_view s))"
proof -
  have wf: "length (ramfs_files s) = 64" "names_distinct (ramfs_files s)" using assms(1) by (simp_all add: ramfs_wf_def)
  let ?name = "\<lambda>i. file_name (ramfs_files s ! i)"
  have used: "rf_used (ramfs_files s ! i)" if "i < 64" for i using assms(2) that wf(1) by (simp add: ramfs_full_def)
  have "inj_on ?name {..<64}" using wf used unfolding names_distinct_def by (intro inj_onI) simp
  moreover have "slot_of (?name i) (ramfs_files s) = Some i" if "i < 64" for i using used slot_of_iff [OF wf(2)] wf(1) that by simp
  then have "?name ` {..<64} \<subseteq> dom (ramfs_view s)" by (auto simp: ramfs_view_def)
  moreover have "dom (ramfs_view s) \<subseteq> ?name ` {..<64}" using slot_of_iff [OF wf(2)] wf(1) by (auto simp: ramfs_view_def)
  then have "finite (dom (ramfs_view s))" by (rule finite_subset) simp
  ultimately show ?thesis using card_inj_on_le [of ?name "{..<64}" "dom (ramfs_view s)"] by simp
qed

text \<open>C40: The files of the start.  With room for two files \<open>kernel_main\<close> leaves \<^verbatim>\<open>welcome.txt\<close> with its 24 characters and \<^verbatim>\<open>motd.txt\<close>
  with the first 57 of the 58 characters of its text, without the last newline; all other files are unchanged.\<close>

theorem boot_files_correct:
  assumes "ramfs_wf s" and "card (dom (ramfs_view s)) \<le> 62"
  shows "\<exists>t. boot_files s = Some t \<and> ramfs_wf t
    \<and> ramfs_view t = (ramfs_view s)(''welcome.txt'' \<mapsto> ''Welcome to Dionnex v0.1'' @ [CHR 0x0A], ''motd.txt'' \<mapsto> butlast motd_text)"
proof -
  let ?w = "''Welcome to Dionnex v0.1'' @ [CHR 0x0A]"
  have l: "unat (24 :: u32) = 24" "unat (57 :: u32) = 57" "length motd_text = 58" "take 57 motd_text = butlast motd_text"
    by (simp_all add: motd_text_def)
  have "\<not> ramfs_full s" using ramfs_full_card [OF assms(1)] assms(2) by auto
  then obtain t where t: "put_file ''welcome.txt'' ?w 24 s = Some t" "ramfs_wf t" "ramfs_view t = (ramfs_view s)(''welcome.txt'' \<mapsto> ?w)"
    using put_file_eq [OF assms(1), of "''welcome.txt''" 24 ?w] by auto
  have "dom (ramfs_view t) = insert ''welcome.txt'' (dom (ramfs_view s))" unfolding t(3) by (rule dom_fun_upd [THEN trans]) simp
  then have "card (dom (ramfs_view t)) \<le> 63" using card_insert_le_m1 [of 63 "dom (ramfs_view s)" "''welcome.txt''"] assms(2) by simp
  then have "\<not> ramfs_full t" using ramfs_full_card [OF t(2)] by auto
  then obtain u where "put_file ''motd.txt'' motd_text 57 t = Some u" "ramfs_wf u" "ramfs_view u = (ramfs_view t)(''motd.txt'' \<mapsto> butlast motd_text)"
    using put_file_eq [OF t(2), of "''motd.txt''" 57 motd_text] by (auto simp: l)
  then show ?thesis using t by (simp add: boot_files_def)
qed

theorem boot_files_correct_witness:
  "\<exists>t. boot_files ramfs_blank = Some t \<and> ramfs_view t ''motd.txt'' = Some (butlast motd_text)"
  using boot_files_correct [OF ramfs_blank_wf(1)] ramfs_blank_wf(2) by auto

end
