(* ===== verification/Spec2Isabelle.thy ===== *)
theory Spec2Isabelle
  imports C_String Phys_Memory Virt_Memory Kernel_Heap Console Klog Keyboard Rtc Ram_Fs Task_Sched
    User_Process Interrupts Cpu_Id Pci Ata Module_Loader Module_Registry Initrd Vfs_Layer
    Syscalls Syscall_Memory Syscall_Process Vesa Firmware Diagnostics Elf_Image Shell
    Boot_Memory Boot
begin

text \<open>
  A model of the Dionnex kernel, a monolithic 32-bit x86 kernel in C, with the theorems that make its parts correct.

  \<^bold>\<open>The program.\<close>  GRUB starts \<^verbatim>\<open>kernel_main\<close> (\<^verbatim>\<open>kernel/main.c\<close>), which brings up the console, the descriptor tables, the
  memory managers, the drivers, the file systems, tasks and processes, and ends in the shell.  Afterwards everything happens in the
  shell, in interrupts, or in the system calls of user programs.  All of it shares one memory and one console, and memory is
  layered: \<^verbatim>\<open>mm/vmm.c\<close> and \<^verbatim>\<open>mm/heap.c\<close> take frames from \<^verbatim>\<open>mm/pmm.c\<close>, everything else allocates from the heap.

  \<^bold>\<open>Theories and sources.\<close>
    \<^item> \<open>Kernel_Prelude\<close>: the C integer types as words, the constants of \<^verbatim>\<open>include/\<close>, the lemmas and collections all theories share.
      \<open>C_String\<close>: \<^verbatim>\<open>kernel/string.c\<close>.
    \<^item> Memory: \<open>Phys_Memory\<close> (\<^verbatim>\<open>mm/pmm.c\<close>, record \<open>pmm\<close>), \<open>Virt_Memory\<close> (\<^verbatim>\<open>mm/vmm.c\<close>, record \<open>vm\<close>: the tables as a store of
      words, \<open>cr0\<close>, \<open>cr3\<close> and the translation buffer), \<open>Kernel_Heap\<close> (\<^verbatim>\<open>mm/heap.c\<close>, record \<open>heap\<close>: the headers of the blocks and the bytes).
    \<^item> Output and input: \<open>Console\<close> (\<^verbatim>\<open>drivers/vga.c\<close>, \<^verbatim>\<open>drivers/serial.c\<close>, \<^verbatim>\<open>kernel/printk.c\<close>, record \<open>console\<close>), \<open>Klog\<close>
      (\<^verbatim>\<open>kernel/klog.c\<close>), \<open>Keyboard\<close> (\<^verbatim>\<open>drivers/keyboard.c\<close>), both on the contract in \<open>Byte_Queue\<close>; \<open>Vesa\<close> (\<^verbatim>\<open>drivers/vesa.c\<close>).
    \<^item> Devices: \<open>Rtc\<close>, \<open>Pci\<close>, \<open>Ata\<close> (the files of these names in \<^verbatim>\<open>drivers/\<close>), \<open>Cpu_Id\<close> (\<^verbatim>\<open>kernel/cpuid.c\<close>), \<open>Firmware\<close>
      (\<^verbatim>\<open>kernel/smp.c\<close>, \<^verbatim>\<open>drivers/acpi.c\<close>, \<^verbatim>\<open>drivers/apic.c\<close>).
    \<^item> Tasks and processes: \<open>Pick_Min\<close> (the contract of both schedulers), \<open>Task_Sched\<close> (\<^verbatim>\<open>sched/task.c\<close>, \<^verbatim>\<open>sched/scheduler.c\<close>),
      \<open>Address_Space\<close> and \<open>User_Process\<close> (\<^verbatim>\<open>kernel/process.c\<close>, \<^verbatim>\<open>kernel/scheduler_process.c\<close>, \<^verbatim>\<open>kernel/elf_loader.c\<close>,
      \<^verbatim>\<open>kernel/tss.c\<close>), \<open>Elf_Image\<close> (\<^verbatim>\<open>kernel/elf.c\<close>), \<open>Interrupts\<close> (\<^verbatim>\<open>kernel/idt.c\<close>, \<^verbatim>\<open>kernel/gdt.c\<close>, \<^verbatim>\<open>kernel/timer.c\<close>,
      \<^verbatim>\<open>drivers/pic.c\<close>, record \<open>machine\<close>).
    \<^item> Files: \<open>Ram_Fs\<close> (\<^verbatim>\<open>fs/ramfs.c\<close>, record \<open>fs\<close>), \<open>Procfs\<close> (\<^verbatim>\<open>fs/procfs.c\<close>), \<open>Vfs_Layer\<close> (\<^verbatim>\<open>fs/vfs.c\<close>), \<open>Initrd\<close> (\<^verbatim>\<open>kernel/initrd.c\<close>).
    \<^item> Modules: \<open>Module_Loader\<close> (\<^verbatim>\<open>kernel/module_loader.c\<close>, \<^verbatim>\<open>kernel/module_symbols.c\<close>), \<open>Module_Registry\<close> (\<^verbatim>\<open>kernel/module.c\<close>).
    \<^item> System calls (\<^verbatim>\<open>kernel/syscall.c\<close>, record \<open>system\<close>): \<open>Syscalls\<close> has the definitions and the table, \<open>Syscall_Memory\<close> the theorems on
      \<^verbatim>\<open>sbrk\<close>, \<^verbatim>\<open>mmap\<close>, \<^verbatim>\<open>munmap\<close>, \<^verbatim>\<open>read\<close> and \<^verbatim>\<open>write\<close>, \<open>Syscall_Process\<close> those on \<^verbatim>\<open>fork\<close>, \<^verbatim>\<open>kill\<close>, \<^verbatim>\<open>waitpid\<close> and the table.
    \<^item> The rest: \<open>Diagnostics\<close> (\<^verbatim>\<open>kernel/debug.c\<close>, \<^verbatim>\<open>kernel/panic.c\<close>), \<open>Shell\<close> (\<^verbatim>\<open>kernel/shell.c\<close>), \<open>Boot_Memory\<close> and \<open>Boot\<close>
      (\<^verbatim>\<open>kernel/main.c\<close>).

  Definitions have the names of the C functions; a loop or a block of a function that stands alone has a name of its own.  Structures are
  records with the fields of the source, prefixed where two structures share a name; global variables are fields of
  the record of their file, and the records of the layers above extend or contain those below.

  \<^bold>\<open>How C is read.\<close>  Integers are words of their width, and wrap.  \<open>None\<close> is a call that does not return or an access outside
  of every object; \<open>Inl\<close> is a panic with its message.  Loops are structural recursion where a counter bounds them, and
  \<open>partial_function (option)\<close> where only the data does (lists in memory, waiting for a device), so no fuel is needed anywhere: that such a loop
  returns is proved where a theorem says so, and a loop proved to be \<open>None\<close> never returns.  A pointer to an object the kernel allocates is its address in a
  map of records (tasks, processes, nodes, modules); a pointer to bytes is an address of the byte store of the heap.

  \<^bold>\<open>What the theorems show.\<close>
    \<^item> Memory: frames are handed out at most once, lowest first; the tables translate as mapped, and the translation buffer
      agrees with them as long as frames last (and does not afterwards); the heap keeps its blocks disjoint, splits and merges them.
    \<^item> Output and input refine an abstract terminal, a reference formatter, and bounded queues; the framebuffer in its depths, lines drawn to their end.
    \<^item> Schedulers: who gets the processor, who is charged, who is dropped; that kernel tasks are never switched, and that processes are.
    \<^item> Interrupts: what runs and when the controllers hear of it, the cases in which control leaves for another task or a fresh process included.
    \<^item> Loaders: the bytes, tables and frames that images and relocations leave, and where the two loaders of executables agree and differ.
    \<^item> Files: the file system in memory is a map from names to contents, error answers included; paths resolve name by name.
    \<^item> System calls: dispatch, address spaces, and the child of \<^verbatim>\<open>fork\<close>, which nothing finds or runs.
    \<^item> Firmware tables, shutdown, panic, hexdump, the line editor and words of the shell, and the start: what is mapped, free and overlapping after it.

  \<^bold>\<open>Interfaces.\<close>  The laws between components are locales, each interpreted on the model of the code: \<open>frame_allocator\<close> (\<open>Phys_Memory\<close>; its clients are the
  tables, the heap, tasks and processes), \<open>byte_queue\<close> and \<open>byte_fifo\<close> (log, keyboard), \<open>min_pick\<close> (both schedulers), \<open>named_store\<close> (\<open>Ram_Fs\<close>), \<open>halting\<close>
  (waiting in \<^verbatim>\<open>hlt\<close> for the interrupt that ends it).

  \<^bold>\<open>Parameters.\<close>  What is not in the sources is an argument: the addresses the linker gives (ends of the kernel, interrupt stubs, embedded programs), the
  structures of the boot loader and the firmware, what input ports, the clock chip, the disk controller and the \<^verbatim>\<open>cpuid\<close> instruction answer, what a PCI device makes
  of a write to its configuration space (\<open>pci_react\<close>), the code of modules, what happens while the processor halts, and, for functions that the sources call and do not define, their effect.

  \<^bold>\<open>Simplifications.\<close>
    \<^item> The kernel reaches a frame at its physical address: the model reads and writes page tables and frames there without asking whether the page is mapped.
    \<^item> The bytes of the heap, the page tables, the headers of heap blocks and the records of tasks, processes, nodes and modules are stores apart from each other.  A write
      through a pointer reaches only the store its type names.  So a system call that is given the address of a kernel structure, which the code does not refuse,
      changes bytes of the model but no process and no table; no theorem claims that programs cannot do so in the kernel.
    \<^item> Assembly has no model of its own.  \<open>context_switch\<close> and \<open>enter_userspace\<close> are recorded in the state (\<open>switches\<close>, \<open>entered\<close>).  The second ends in \<^verbatim>\<open>iret\<close> and never returns, the first returns
      when the task runs again: \<open>irq_handler\<close> stops at both.  The other caller of the process scheduler, \<^verbatim>\<open>process_exit\<close>, does nothing behind it;
      after \<^verbatim>\<open>sys_exit\<close> the model still has the result 0, which no program sees once a fresh process was entered.
    \<^item> Waiting for the serial transmitter is left out, as it changes nothing; one processor runs, and interrupts come only where the code waits for them or a theorem has them.

  \<^bold>\<open>Not modelled.\<close>  The assembly files in \<^verbatim>\<open>boot/\<close> and \<^verbatim>\<open>sched/\<close> (no C); the user programs in \<^verbatim>\<open>user/\<close> and the sample modules in \<^verbatim>\<open>modules/\<close>, which the kernel meets as
  images or as the code of a module; the build files.
\<close>

end
